(* ===== verification/Prelude.thy ===== *)
theory Prelude
  imports "HOL-Library.Word" "HOL-Library.Multiset"
begin

text \<open>
  Shared vocabulary of the development.

  \<^item> the error values of the C++ code: a failing \<open>YACL_ENFORCE\<close>, a \<open>YACL_THROW\<close>, and
    \<open>Undefined\<close> for an access the C++ standard leaves undefined (an index outside a vector, a
    division by zero), so that \<open>no undefined behaviour\<close> is a statement about the model;
  \<^item> the result type \<open>'a result\<close> with its sequencing \<open>rbind\<close>, and the loops \<open>rfold\<close>
    (a \<open>for\<close> over a container whose body may throw) and \<open>rmap\<close>;
  \<^item> checked vector access \<open>at\<close> and \<open>set_at\<close>;
  \<^item> the generic lemmas on these, on lists and on words which several components use.
\<close>

named_theorems result_simps \<open>rewriting of results, checked accesses and enforcements\<close>
named_theorems xor_simps \<open>associative-commutative cancellation for bitwise exclusive or\<close>

section \<open>Results\<close>

datatype error = Enforce string | Throw string | Undefined string

type_synonym 'a result = "error + 'a"

definition rbind :: "'a result \<Rightarrow> ('a \<Rightarrow> 'b result) \<Rightarrow> 'b result" where
  "rbind m f = (case m of Inl e \<Rightarrow> Inl e | Inr x \<Rightarrow> f x)"

definition enforce :: "bool \<Rightarrow> string \<Rightarrow> unit result" where
  "enforce b msg = (if b then Inr () else Inl (Enforce msg))"

primrec rfold :: "('a \<Rightarrow> 's \<Rightarrow> 's result) \<Rightarrow> 'a list \<Rightarrow> 's \<Rightarrow> 's result" where
  "rfold f [] s = Inr s"
| "rfold f (x # xs) s = rbind (f x s) (rfold f xs)"

primrec rmap :: "('a \<Rightarrow> 'b result) \<Rightarrow> 'a list \<Rightarrow> 'b list result" where
  "rmap f [] = Inr []"
| "rmap f (x # xs) = rbind (f x) (\<lambda>y. rbind (rmap f xs) (\<lambda>ys. Inr (y # ys)))"

definition at :: "'a list \<Rightarrow> nat \<Rightarrow> 'a result" where
  "at xs i = (if i < length xs then Inr (xs ! i) else Inl (Undefined ''index''))"

definition set_at :: "'a list \<Rightarrow> nat \<Rightarrow> 'a \<Rightarrow> 'a list result" where
  "set_at xs i v = (if i < length xs then Inr (xs[i := v]) else Inl (Undefined ''index''))"

text \<open>Operations that may not end, \<open>None\<close> standing for a call that does not return, in sequence.\<close>

definition obind :: "'a result option \<Rightarrow> ('a \<Rightarrow> 'b result option) \<Rightarrow> 'b result option" where
  "obind m f = (case m of None \<Rightarrow> None | Some (Inl e) \<Rightarrow> Some (Inl e) | Some (Inr x) \<Rightarrow> f x)"

primrec omap :: "('a \<Rightarrow> 'b result option) \<Rightarrow> 'a list \<Rightarrow> 'b list result option" where
  "omap f [] = Some (Inr [])"
| "omap f (x # xs) = obind (f x) (\<lambda>y. obind (omap f xs) (\<lambda>ys. Some (Inr (y # ys))))"

lemma obind_Some_Inr: "obind (Some (Inr x)) f = f x"
  by (simp add: obind_def)

text \<open>Unsigned remainder; a zero divisor is undefined in C++.\<close>

definition umod :: "'a::len word \<Rightarrow> 'a word \<Rightarrow> 'a word result" where
  "umod x y = (if y = 0 then Inl (Undefined ''division by zero'') else Inr (x mod y))"

lemma umod_Inr [simp]: "y \<noteq> 0 \<Longrightarrow> umod x y = Inr (x mod y)"
  by (simp add: umod_def)

lemma rbind_Inr [simp, result_simps]: "rbind (Inr x) f = f x"
  by (simp add: rbind_def)

lemma rbind_Inl [simp, result_simps]: "rbind (Inl e) f = Inl e"
  by (simp add: rbind_def)

lemma rbind_eq_Inr_iff [result_simps]:
  "rbind m f = Inr y \<longleftrightarrow> (\<exists>x. m = Inr x \<and> f x = Inr y)"
  by (cases m) auto

lemma rbind_eq_Inl_iff:
  "rbind m f = Inl e \<longleftrightarrow> m = Inl e \<or> (\<exists>x. m = Inr x \<and> f x = Inl e)"
  by (cases m) auto

lemma rbind_assoc: "rbind (rbind m f) g = rbind m (\<lambda>x. rbind (f x) g)"
  by (cases m) auto

lemma rbind_if: "rbind (if b then m else n) f = (if b then rbind m f else rbind n f)"
  by simp

lemma enforce_True [simp, result_simps]: "enforce True msg = Inr ()"
  by (simp add: enforce_def)

lemma enforce_False [simp, result_simps]: "enforce False msg = Inl (Enforce msg)"
  by (simp add: enforce_def)

lemma enforce_eq_Inr_iff [simp, result_simps]: "enforce b msg = Inr u \<longleftrightarrow> b"
  by (simp add: enforce_def)

lemma enforce_bind: "rbind (enforce b msg) f = (if b then f () else Inl (Enforce msg))"
  by (simp add: enforce_def)

lemma at_Inr [simp]: "i < length xs \<Longrightarrow> at xs i = Inr (xs ! i)"
  by (simp add: at_def)

lemma at_eq_Inr_iff [result_simps]: "at xs i = Inr v \<longleftrightarrow> i < length xs \<and> xs ! i = v"
  by (auto simp: at_def)

lemma set_at_Inr [simp]: "i < length xs \<Longrightarrow> set_at xs i v = Inr (xs[i := v])"
  by (simp add: set_at_def)

lemma set_at_eq_Inr_iff [result_simps]:
  "set_at xs i v = Inr ys \<longleftrightarrow> i < length xs \<and> ys = xs[i := v]"
  by (auto simp: set_at_def)

lemma rfold_append [simp]: "rfold f (xs @ ys) s = rbind (rfold f xs s) (rfold f ys)"
  by (induction xs arbitrary: s) (auto simp: rbind_assoc intro!: arg_cong [of _ _ "rbind _"])

text \<open>
  The three ways in which a loop is used in the proofs: a loop that cannot fail and keeps an
  invariant, a loop with an invariant that counts its steps, and a loop that is a plain fold.
\<close>

lemma rfold_total_inv:
  assumes step: "\<And>x s. x \<in> set xs \<Longrightarrow> I s \<Longrightarrow> \<exists>s'. f x s = Inr s' \<and> I s'"
    and init: "I s"
  shows "\<exists>s'. rfold f xs s = Inr s' \<and> I s'"
  using assms
proof (induction xs arbitrary: s)
  case (Cons x xs)
  then obtain s1 where "f x s = Inr s1" "I s1"
    by (metis list.set_intros(1))
  with Cons.IH [of s1] Cons.prems(1) show ?case
    by simp
qed simp

lemma rfold_upt_inv:
  assumes step: "\<And>i s. i < n \<Longrightarrow> I i s \<Longrightarrow> \<exists>s'. f i s = Inr s' \<and> I (Suc i) s'"
    and init: "I 0 s"
  shows "\<exists>s'. rfold f [0..<n] s = Inr s' \<and> I n s'"
  using step
proof (induction n)
  case 0
  then show ?case using init by simp
next
  case (Suc n)
  then obtain s1 where s1: "rfold f [0..<n] s = Inr s1" "I n s1"
    by (metis less_Suc_eq)
  with Suc.prems [of n s1] show ?case
    by auto
qed

lemma rfold_pure:
  assumes "\<And>x s. x \<in> set xs \<Longrightarrow> f x s = Inr (g x s)"
  shows "rfold f xs s = Inr (fold g xs s)"
  using assms by (induction xs arbitrary: s) auto

lemma rfold_cong:
  assumes "\<And>x s. x \<in> set xs \<Longrightarrow> f x s = g x s"
  shows "rfold f xs s = rfold g xs s"
  using assms
proof (induction xs arbitrary: s)
  case (Cons x xs)
  then have "f x s = g x s" "rfold f xs = rfold g xs" by (simp_all add: fun_eq_iff)
  then show ?case by simp
qed simp

lemma rfold_inv_Inr:
  assumes "rfold f xs s = Inr s'" "I s"
    and "\<And>x s s1. x \<in> set xs \<Longrightarrow> I s \<Longrightarrow> f x s = Inr s1 \<Longrightarrow> I s1"
  shows "I s'"
  using assms
proof (induction xs arbitrary: s)
  case (Cons x xs)
  then obtain s1 where "f x s = Inr s1" "rfold f xs s1 = Inr s'"
    by (auto simp: rbind_eq_Inr_iff)
  then show ?case
    using Cons by (metis list.set_intros)
qed simp

lemma rmap_total:
  assumes "\<And>x. x \<in> set xs \<Longrightarrow> f x = Inr (g x)"
  shows "rmap f xs = Inr (map g xs)"
  using assms by (induction xs) auto

lemma rmap_eq_Inr_iff:
  "rmap f xs = Inr ys \<longleftrightarrow> list_all2 (\<lambda>x y. f x = Inr y) xs ys"
  by (induction xs arbitrary: ys) (auto simp: rbind_eq_Inr_iff list_all2_Cons1)

section \<open>Lists and multisets\<close>

lemma mset_update_add:
  assumes "i < length xs"
  shows "mset (xs[i := v]) + {#xs ! i#} = mset xs + {#v#}"
  using assms by (simp add: mset_update)

lemma mset_map_update:
  assumes "i < length xs"
  shows "mset (map f (xs[i := v])) + {#f (xs ! i)#} = mset (map f xs) + {#f v#}"
  using mset_update_add [of i "map f xs" "f v"] assms by (simp add: map_update)

lemma add_exchange:
  fixes A :: "'a::ab_semigroup_add"
  assumes "A + R = B + C" "B + S = D"
  shows "A + (S + R) = D + C"
  using assms by (metis add.assoc add.commute)

lemma drop_eq_ConsD:
  assumes "drop n xs = y # ys"
  shows "n < length xs" "xs ! n = y" "drop (Suc n) xs = ys"
proof -
  show n: "n < length xs" using assms by (metis drop_all linorder_not_le list.discI)
  show "xs ! n = y" "drop (Suc n) xs = ys"
    using assms Cons_nth_drop_Suc [OF n] by auto
qed

lemma mset_concat_buckets:
  assumes "\<forall>x \<in> set xs. f x < n"
  shows "mset (concat (map (\<lambda>b. filter (\<lambda>x. f x = b) xs) [0..<n])) = mset xs"
  using assms
proof (induction xs)
  case (Cons x xs)
  have "mset (concat (map (\<lambda>b. filter (\<lambda>y. f y = b) (x # xs)) [0..<m])) =
      (if f x < m then {#x#} else {#}) + mset (concat (map (\<lambda>b. filter (\<lambda>y. f y = b) xs) [0..<m]))" for m
    by (induction m) auto
  with Cons show ?case by simp
qed (simp add: map_replicate_const)

lemma find_filter: "(\<And>x. x \<in> set xs \<Longrightarrow> P x \<Longrightarrow> Q x) \<Longrightarrow> find P (filter Q xs) = find P xs"
  by (induction xs) auto

lemma sort_key_distinct_eqI:
  assumes "mset xs = mset ys" "sorted (map f ys)" "distinct (map f ys)"
  shows "sort_key f xs = ys"
proof (rule properties_for_sort_key)
  show "mset ys = mset xs" using assms(1) by simp
  show "sorted (map f ys)" by (rule assms(2))
  show "filter (\<lambda>x. f k = f x) ys = filter (\<lambda>x. f k = f x) xs" if "k \<in> set ys" for k
  proof -
    have inj: "inj_on f (set ys)" and d: "distinct ys" using assms(3) by (auto simp: distinct_map)
    have "filter (\<lambda>x. f k = f x) zs = replicate (count (mset zs) k) k" if "set zs = set ys" for zs
    proof -
      have "filter (\<lambda>x. f k = f x) zs = filter (\<lambda>x. x = k) zs"
        using inj \<open>k \<in> set ys\<close> that by (intro filter_cong) (auto dest: inj_onD)
      also have "\<dots> = replicate (count (mset zs) k) k"
        by (induction zs) auto
      finally show ?thesis .
    qed
    then show ?thesis using assms(1) mset_eq_setD by metis
  qed
qed

lemma sum_list_mset_cong:
  fixes f :: "'a \<Rightarrow> 'b::comm_monoid_add"
  shows "mset xs = mset ys \<Longrightarrow> sum_list (map f xs) = sum_list (map f ys)"
  by (metis mset_map sum_mset_sum_list)

lemma take_drop_split:
  assumes "k \<le> m"
  shows "take k xs @ take (m - k) (drop k xs) = take m xs" "drop (m - k) (drop k xs) = drop m xs"
  using assms by (simp_all add: take_add [symmetric])

lemma upt_append_shift: "[0..<m + n] = [0..<m] @ map ((+) m) [0..<n]"
  by (induction n) auto

section \<open>Splitting strings\<close>

text \<open>The fields between the separators, as \<open>absl::StrSplit\<close> gives them.\<close>

fun split_on :: "'a \<Rightarrow> 'a list \<Rightarrow> 'a list list" where
  "split_on sep [] = [[]]"
| "split_on sep (c # cs) =
     (if c = sep then [] # split_on sep cs
      else case split_on sep cs of f # fs \<Rightarrow> (c # f) # fs | [] \<Rightarrow> [[c]])"

lemma split_on_not_Nil [simp]: "split_on sep s \<noteq> []"
  by (induction s) (auto split: list.splits)

lemma split_on_append:
  "sep \<notin> set a \<Longrightarrow> split_on sep (a @ sep # s) = a # split_on sep s"
  by (induction a) auto

lemma split_on_single: "sep \<notin> set a \<Longrightarrow> split_on sep a = [a]"
  by (induction a) auto

section \<open>Exclusive or on words\<close>

unbundle bit_operations_syntax

lemma xor_self_left [simp, xor_simps]: "(a::'a::len word) XOR (a XOR b) = b"
  by (simp add: xor.assoc [symmetric])

lemma xor_cancel_iff [simp]: "(a::'a::len word) XOR b = a XOR c \<longleftrightarrow> b = c"
  by (metis xor_self_left)

lemma xor_eq_0_iff [simp]: "(a::'a::len word) XOR b = 0 \<longleftrightarrow> a = b"
  by (metis xor_self_eq xor_self_left xor.right_neutral)

lemmas xor_ac = xor.assoc xor.commute xor.left_commute

declare xor_ac [xor_simps]

section \<open>Bits of small words\<close>

lemma bit_unat_less:
  fixes a :: "'a::len word"
  assumes "unat a < 2 ^ n" "bit a m"
  shows "m < n"
proof -
  have "take_bit n (unat a) = unat a"
    using assms(1) by (simp add: take_bit_nat_eq_self)
  then have "bit (take_bit n (unat a)) m"
    using assms(2) by (simp add: bit_unsigned_iff bit_imp_le_length)
  then show ?thesis
    by (simp only: bit_take_bit_iff)
qed

lemma unat_2p: "n < LENGTH('a) \<Longrightarrow> unat (2 ^ n :: 'a::len word) = 2 ^ n"
  using unat_of_nat [where 'a = 'a, of "2 ^ n"] by simp

lemma bit_word_less:
  fixes a :: "'a::len word"
  assumes "a < 2 ^ n" "bit a m" "n < LENGTH('a)"
  shows "m < n"
  using assms bit_unat_less [of a n m] unat_2p [where 'a = 'a, of n]
  by (simp add: word_less_nat_alt)

lemma unat_of_nat_small [simp]:
  "n < 2 ^ LENGTH('a) \<Longrightarrow> unat (of_nat n :: 'a::len word) = n"
  by (simp add: unat_of_nat)

section \<open>Counters of type \<open>uint32_t\<close>\<close>

text \<open>
  A \<open>uint32_t\<close> counter is a natural number reduced modulo $2^{32}$ after every operation; the reduction
  is the identity below the bound, and intermediate reductions do not change the final one.
\<close>

definition u32 :: "nat \<Rightarrow> nat" where
  "u32 n = n mod 2 ^ 32"

lemma u32_id: "n < 2 ^ 32 \<Longrightarrow> u32 n = n"
  by (simp add: u32_def)

lemma u32_le: "u32 n \<le> n"
  by (simp add: u32_def)

lemma u32_less: "u32 n < 2 ^ 32"
  by (simp add: u32_def)

lemma u32_0 [simp]: "u32 0 = 0"
  by (simp add: u32_def)

lemma u32_add [simp]:
  "u32 (u32 m + n) = u32 (m + n)" "u32 (m + u32 n) = u32 (m + n)" "u32 (u32 n) = u32 n"
  by (simp_all add: u32_def mod_simps)

lemma u32_Suc [simp]:
  "u32 (Suc (u32 n)) = u32 (Suc n)"
  "u32 (Suc (u32 m + n)) = u32 (Suc (m + n))" "u32 (Suc (m + u32 n)) = u32 (Suc (m + n))"
  using u32_add(1) [of n 1] u32_add(1) [of m "Suc n"] u32_add(2) [of "Suc m" n] by simp_all

lemma u32_fold_add: "fold (\<lambda>x n. u32 (n + f x)) xs (u32 m) = u32 (m + sum_list (map f xs))"
  by (induction xs arbitrary: m) (simp_all add: add.assoc)

end
