(* ===== verification/Cuckoo_Index.thy ===== *)
theory Cuckoo_Index
  imports Prelude
begin

text \<open>
  \<open>psi/utils/cuckoo_index.h\<close> and \<open>cuckoo_index.cc\<close>: the cuckoo hash table which the PSI and
  PIR protocols use to place every input in exactly one bin or in the stash.

  A \<open>Bin\<close> packs a hash index into the top 8 and an input index into the low 56 bits of one
  \<open>uint64_t\<close>. \<open>CuckooIndex_Insert\<close> keeps the source's in-place compaction of the
  candidates vector and its bounded eviction loop. The product of a \<open>double\<close> and an integer in
  \<open>Options::NumBins\<close> is the function \<open>scale_factor\<close> of the options, so the results hold
  for every scale factor.
\<close>

unbundle bit_operations_syntax

section \<open>Bins and hash rooms\<close>

datatype Bin = Bin (Bin_encoded: "64 word")

definition kEmpty :: "64 word" where
  "kEmpty = - 1"

definition Bin_HashIdx :: "Bin \<Rightarrow> 8 word" where
  "Bin_HashIdx b = ucast (drop_bit 56 (Bin_encoded b))"

definition Bin_InputIdx :: "Bin \<Rightarrow> 64 word" where
  "Bin_InputIdx b = Bin_encoded b AND drop_bit 8 (- 1)"

definition Bin_Swap :: "Bin \<Rightarrow> 64 word \<Rightarrow> Bin \<times> 64 word" where
  "Bin_Swap b e = (Bin e, Bin_encoded b)"

definition Bin_IsEmpty :: "Bin \<Rightarrow> bool" where
  "Bin_IsEmpty b \<longleftrightarrow> Bin_encoded b = kEmpty"

definition Bin_Encode :: "64 word \<Rightarrow> 8 word \<Rightarrow> 64 word" where
  "Bin_Encode input_idx hash_idx = input_idx OR push_bit 56 (ucast hash_idx)"

definition kBlockSize :: nat where
  "kBlockSize = 2"

text \<open>The unaligned 8-byte little-endian load at byte \<open>2 * idx\<close> of the 16-byte hash code.\<close>

definition HashRoom_GetHash :: "128 word \<Rightarrow> nat \<Rightarrow> 64 word result" where
  "HashRoom_GetHash code idx =
     (if idx * kBlockSize + 8 \<le> 16 then Inr (ucast (drop_bit (8 * (idx * kBlockSize)) code))
      else Inl (Undefined ''GetHash''))"

section \<open>The table\<close>

record Options =
  num_input :: "64 word"
  num_stash :: "64 word"
  num_hash :: "64 word"
  scale_factor :: "64 word \<Rightarrow> 64 word"
  max_try_count :: "64 word"

definition Options_NumBins :: "Options \<Rightarrow> 64 word" where
  "Options_NumBins opt =
     (let num_bins = scale_factor opt (num_input opt)
      in if num_stash opt = 0 \<and> num_input opt < 256 then num_bins + 8 else num_bins)"

record CuckooIndex =
  ci_options :: Options
  ci_bins :: "Bin list"
  ci_stash :: "Bin list"
  ci_hashes :: "128 word list"

definition CuckooIndex_new :: "Options \<Rightarrow> CuckooIndex result" where
  "CuckooIndex_new opt =
     rbind (enforce ((num_hash opt - 1) * of_nat kBlockSize + 8 \<le> 16) ''num_hash'') (\<lambda>_.
     Inr \<lparr> ci_options = opt,
           ci_bins = replicate (unat (Options_NumBins opt)) (Bin kEmpty),
           ci_stash = replicate (unat (num_stash opt)) (Bin kEmpty),
           ci_hashes = [] \<rparr>)"

primrec stash_put :: "Bin list \<Rightarrow> 64 word \<Rightarrow> Bin list option" where
  "stash_put [] e = None"
| "stash_put (b # bs) e =
     (if Bin_IsEmpty b then Some (Bin e # bs) else map_option ((#) b) (stash_put bs e))"

definition CuckooIndex_PutToStash :: "64 word \<Rightarrow> Bin list \<Rightarrow> Bin list result" where
  "CuckooIndex_PutToStash input_idx stash =
     (case stash_put stash input_idx of
        Some stash' \<Rightarrow> Inr stash'
      | None \<Rightarrow> Inl (Throw ''Cannot find empty bin in stash''))"

text \<open>
  The body of the inner loop of \<open>Insert\<close>: candidate \<open>i\<close> takes its bin, and an evicted
  occupant is written back at \<open>write_idx\<close> with its next hash function.
\<close>

definition insert_step ::
  "Options \<Rightarrow> 128 word list \<Rightarrow> nat \<Rightarrow> Bin list \<times> Bin list \<times> nat
     \<Rightarrow> (Bin list \<times> Bin list \<times> nat) result" where
  "insert_step opt hashes i st =
     (let (bins, candidates, write_idx) = st in
      rbind (at candidates i) (\<lambda>candid.
      rbind (at hashes (unat (Bin_InputIdx candid))) (\<lambda>room.
      rbind (HashRoom_GetHash room (unat (Bin_HashIdx candid))) (\<lambda>h.
      rbind (umod h (Options_NumBins opt)) (\<lambda>bin_idx.
      rbind (at bins (unat bin_idx)) (\<lambda>bin.
        let (bin', prev) = Bin_Swap bin (Bin_encoded candid);
            evicted_bin = Bin prev;
            bins' = bins[unat bin_idx := bin']
        in if \<not> Bin_IsEmpty evicted_bin then
             rbind (umod (ucast (Bin_HashIdx evicted_bin) + 1) (num_hash opt)) (\<lambda>next.
             rbind (set_at candidates write_idx
                      (Bin (Bin_Encode (Bin_InputIdx evicted_bin) (ucast next)))) (\<lambda>candidates'.
             Inr (bins', candidates', write_idx + 1)))
           else Inr (bins', candidates, write_idx)))))))"

text \<open>The \<open>while\<close> loop: the first argument is \<open>max_try_count - try_count\<close>.\<close>

fun insert_loop ::
  "nat \<Rightarrow> Options \<Rightarrow> 128 word list \<Rightarrow> Bin list \<Rightarrow> Bin list \<Rightarrow> (Bin list \<times> Bin list) result" where
  "insert_loop tries opt hashes bins [] = Inr (bins, [])"
| "insert_loop 0 opt hashes bins candidates = Inr (bins, candidates)"
| "insert_loop (Suc tries) opt hashes bins candidates =
     rbind (rfold (insert_step opt hashes) [0..<length candidates] (bins, candidates, 0))
       (\<lambda>(bins', candidates', write_idx).
          insert_loop tries opt hashes bins' (take write_idx candidates'))"

definition CuckooIndex_Insert :: "CuckooIndex \<Rightarrow> 128 word list \<Rightarrow> CuckooIndex result" where
  "CuckooIndex_Insert t codes =
     (let opt = ci_options t;
          input_offset = length (ci_hashes t);
          hashes = ci_hashes t @ codes;
          candidates = map (\<lambda>i. Bin (of_nat (input_offset + i))) [0..<length codes]
      in rbind (enforce (length hashes \<le> unat (num_input opt)) ''ci_hashes.size'') (\<lambda>_.
         rbind (insert_loop (unat (max_try_count opt)) opt hashes (ci_bins t) candidates)
           (\<lambda>(bins, rest).
         rbind (rfold (\<lambda>c. CuckooIndex_PutToStash (Bin_InputIdx c)) rest (ci_stash t)) (\<lambda>stash.
         Inr (t \<lparr> ci_bins := bins, ci_stash := stash, ci_hashes := hashes \<rparr>)))))"

text \<open>\<open>SanityCheck\<close> collects the input indices in a \<open>std::set\<close> and then walks it in order.\<close>

definition sanity_add :: "Bin \<Rightarrow> 64 word set \<Rightarrow> 64 word set result" where
  "sanity_add bin st =
     (if Bin_IsEmpty bin then Inr st
      else rbind (enforce (Bin_InputIdx bin \<notin> st) ''already exists'')
             (\<lambda>_. Inr (insert (Bin_InputIdx bin) st)))"

definition CuckooIndex_SanityCheck :: "CuckooIndex \<Rightarrow> unit result" where
  "CuckooIndex_SanityCheck t =
     rbind (rfold sanity_add (ci_bins t) {}) (\<lambda>st.
     rbind (rfold sanity_add (ci_stash t) st) (\<lambda>st'.
     rbind (enforce (card st' = unat (num_input (ci_options t))) ''size'') (\<lambda>_.
     rbind (rfold (\<lambda>i idx. rbind (enforce (idx = unat i) ''Cannot find input'')
                               (\<lambda>_. Inr (idx + 1)))
              (sorted_list_of_set st') 0) (\<lambda>_.
     Inr ()))))"

text \<open>\<open>SelectParams\<close>: \<open>expansion n stat\<close> is the floating-point expression for \<open>e\<close>.\<close>

definition CuckooIndex_SelectParams ::
  "(64 word \<Rightarrow> 64 word \<Rightarrow> 64 word \<Rightarrow> 64 word) \<Rightarrow> 64 word \<Rightarrow> 64 word \<Rightarrow> 64 word \<Rightarrow> 64 word
     \<Rightarrow> Options result" where
  "CuckooIndex_SelectParams expansion n stash_size hash_num stat_sec_param =
     (let h = (if hash_num \<noteq> 0 then hash_num else 3)
      in if stash_size = 0 \<and> h = 3
         then Inr \<lparr> num_input = n, num_stash = 0, num_hash = h,
                    scale_factor = expansion n stat_sec_param, max_try_count = 128 \<rparr>
         else Inl (Throw ''not support for stash_size and hash_num''))"

primrec min_colliding :: "Options \<Rightarrow> 128 word \<Rightarrow> 64 word \<Rightarrow> nat list \<Rightarrow> 8 word result" where
  "min_colliding opt room bin_index [] = Inl (Throw ''cannot find min colliding hash idx'')"
| "min_colliding opt room bin_index (i # is) =
     rbind (HashRoom_GetHash room i) (\<lambda>h.
     rbind (umod h (Options_NumBins opt)) (\<lambda>target.
     if target = bin_index then Inr (of_nat i) else min_colliding opt room bin_index is))"

definition CuckooIndex_MinCollidingHashIdx :: "CuckooIndex \<Rightarrow> 64 word \<Rightarrow> 8 word result" where
  "CuckooIndex_MinCollidingHashIdx t bin_index =
     rbind (at (ci_bins t) (unat bin_index)) (\<lambda>bin.
     if num_hash (ci_options t) = 0 then Inl (Throw ''cannot find min colliding hash idx'')
     else rbind (at (ci_hashes t) (unat (Bin_InputIdx bin))) (\<lambda>room.
          min_colliding (ci_options t) room bin_index [0..<unat (num_hash (ci_options t))]))"

section \<open>Encoding of bins\<close>

lemma Bin_InputIdx_Encode [simp]:
  assumes "i < 2 ^ 56"
  shows "Bin_InputIdx (Bin (Bin_Encode i h)) = i"
  unfolding Bin_InputIdx_def Bin_Encode_def using bit_word_less [OF assms]
  by (intro bit_word_eqI) (auto simp: bit_simps not_le)

lemma Bin_HashIdx_Encode [simp]:
  assumes "i < 2 ^ 56"
  shows "Bin_HashIdx (Bin (Bin_Encode i h)) = h"
  unfolding Bin_HashIdx_def Bin_Encode_def using bit_word_less [OF assms]
  by (intro bit_word_eqI) (auto simp: bit_simps not_le)

lemma Bin_Encode_0 [simp]: "Bin_Encode i 0 = i"
  by (simp add: Bin_Encode_def)

lemma Bin_InputIdx_less: "Bin_InputIdx b < 2 ^ 56"
proof -
  have "Bin_InputIdx b \<le> mask 56"
    unfolding Bin_InputIdx_def by (simp add: word_and_le1 mask_eq_exp_minus_1)
  then show ?thesis
    by (simp add: mask_eq_exp_minus_1 word_le_nat_alt word_less_nat_alt)
qed

lemma Bin_Encode_InputIdx [simp]:
  "Bin_InputIdx (Bin (Bin_Encode (Bin_InputIdx b) h)) = Bin_InputIdx b"
  "Bin_HashIdx (Bin (Bin_Encode (Bin_InputIdx b) h)) = h"
  using Bin_InputIdx_Encode Bin_HashIdx_Encode Bin_InputIdx_less by blast+

lemma Bin_HashIdx_empty: "Bin_IsEmpty b \<Longrightarrow> Bin_HashIdx b = 255"
  unfolding Bin_HashIdx_def Bin_IsEmpty_def kEmpty_def by (simp add: mask_eq_exp_minus_1)

section \<open>Well-formed tables\<close>

text \<open>
  \<open>Bin_slot\<close> is the position a bin's own hash index selects. \<open>Options_ok\<close> collects the
  conditions under which the constructor's check is not vacuous: at least one hash function, at
  least one bin, and input indices that fit into 56 bits.
\<close>

definition Options_ok :: "Options \<Rightarrow> bool" where
  "Options_ok opt \<longleftrightarrow>
     0 < num_hash opt \<and> num_hash opt \<le> 5 \<and> Options_NumBins opt \<noteq> 0 \<and> num_input opt \<le> 2 ^ 56"

definition Bin_slot :: "Options \<Rightarrow> 128 word list \<Rightarrow> Bin \<Rightarrow> nat" where
  "Bin_slot opt hashes b =
     unat (ucast (drop_bit (8 * (unat (Bin_HashIdx b) * kBlockSize))
             (hashes ! unat (Bin_InputIdx b))) mod Options_NumBins opt)"

definition Bin_ok :: "Options \<Rightarrow> nat \<Rightarrow> Bin \<Rightarrow> bool" where
  "Bin_ok opt n b \<longleftrightarrow>
     unat (Bin_InputIdx b) < n \<and> unat (Bin_HashIdx b) < unat (num_hash opt)"

definition occupants :: "Bin list \<Rightarrow> 64 word multiset" where
  "occupants bs = mset (map Bin_InputIdx (filter (\<lambda>b. \<not> Bin_IsEmpty b) bs))"

definition bins_ok :: "Options \<Rightarrow> 128 word list \<Rightarrow> Bin list \<Rightarrow> bool" where
  "bins_ok opt hashes bs \<longleftrightarrow>
     length bs = unat (Options_NumBins opt) \<and>
     (\<forall>p < length bs. \<not> Bin_IsEmpty (bs ! p) \<longrightarrow>
        Bin_ok opt (length hashes) (bs ! p) \<and> Bin_slot opt hashes (bs ! p) = p)"

definition CuckooIndex_wf :: "CuckooIndex \<Rightarrow> bool" where
  "CuckooIndex_wf t \<longleftrightarrow>
     Options_ok (ci_options t) \<and>
     length (ci_hashes t) \<le> unat (num_input (ci_options t)) \<and>
     length (ci_stash t) = unat (num_stash (ci_options t)) \<and>
     bins_ok (ci_options t) (ci_hashes t) (ci_bins t) \<and>
     occupants (ci_bins t) + occupants (ci_stash t) = mset (map of_nat [0..<length (ci_hashes t)])"

lemma Bin_ok_nonempty:
  assumes "Bin_ok opt n b" "num_hash opt \<le> 5"
  shows "\<not> Bin_IsEmpty b"
proof
  assume "Bin_IsEmpty b"
  then have "unat (Bin_HashIdx b) = 255"
    by (simp add: Bin_HashIdx_empty)
  with assms show False
    by (simp add: Bin_ok_def word_le_nat_alt)
qed

lemma occupants_simps [simp]:
  "occupants [] = {#}"
  "occupants (b # bs) = (if Bin_IsEmpty b then {#} else {#Bin_InputIdx b#}) + occupants bs"
  "occupants (bs @ cs) = occupants bs + occupants cs"
  by (simp_all add: occupants_def)

lemma occupants_empty [simp]: "occupants (replicate n (Bin kEmpty)) = {#}"
  by (simp add: occupants_def Bin_IsEmpty_def)

lemma occupants_all: "\<forall>b \<in> set bs. \<not> Bin_IsEmpty b \<Longrightarrow> occupants bs = mset (map Bin_InputIdx bs)"
  by (simp add: occupants_def cong: filter_cong)

lemma occupants_update:
  assumes "p < length bs" "\<not> Bin_IsEmpty b"
  shows "occupants (bs[p := b]) + occupants [bs ! p] = add_mset (Bin_InputIdx b) (occupants bs)"
  using assms
proof (induction bs arbitrary: p)
  case (Cons a bs)
  show ?case
  proof (cases p)
    case 0
    then show ?thesis using Cons.prems by simp
  next
    case (Suc q)
    then show ?thesis using Cons.IH [of q] Cons.prems
      by (simp split: if_splits)
  qed
qed simp

lemma GetHash_small:
  assumes "Bin_ok opt n b" "num_hash opt \<le> 5"
  shows "HashRoom_GetHash room (unat (Bin_HashIdx b)) =
         Inr (ucast (drop_bit (8 * (unat (Bin_HashIdx b) * kBlockSize)) room))"
  using assms by (simp add: HashRoom_GetHash_def Bin_ok_def kBlockSize_def word_le_nat_alt)

section \<open>Insertion\<close>

text \<open>
  The loop invariant of the inner loop after \<open>i\<close> candidates: the unread candidates are
  untouched, the written ones are the evicted items, and bins, written and unread candidates
  together hold the same inputs as before.
\<close>

definition pass_inv ::
  "Options \<Rightarrow> 128 word list \<Rightarrow> nat \<Rightarrow> 64 word multiset \<Rightarrow> nat \<Rightarrow> Bin list \<times> Bin list \<times> nat \<Rightarrow> bool"
where
  "pass_inv opt hashes n M i = (\<lambda>(bins, cs, w).
     w \<le> i \<and> length cs = n \<and> bins_ok opt hashes bins \<and>
     (\<forall>c \<in> set (take w cs) \<union> set (drop i cs). Bin_ok opt (length hashes) c) \<and>
     occupants bins + mset (map Bin_InputIdx (take w cs)) + mset (map Bin_InputIdx (drop i cs)) = M)"

lemma unat_mod_less: "y \<noteq> 0 \<Longrightarrow> unat (x mod y) < unat (y :: 'a::len word)"
  by (simp add: unat_mod_distrib unat_gt_0)

lemma Bin_ok_next:
  assumes "Options_ok opt" "Bin_ok opt n b"
  shows "Bin_ok opt n (Bin (Bin_Encode (Bin_InputIdx b)
           (ucast ((ucast (Bin_HashIdx b) + 1 :: 64 word) mod num_hash opt))))" (is "Bin_ok _ _ (Bin (Bin_Encode _ (ucast ?m)))")
proof -
  have m: "unat ?m < unat (num_hash opt)" and h: "unat (num_hash opt) \<le> 5"
    using assms(1) unat_mod_less [of "num_hash opt"]
    by (auto simp: Options_ok_def word_le_nat_alt word_less_nat_alt unat_gt_0)
  then have "unat (ucast ?m :: 8 word) = unat ?m"
    by (simp add: unsigned_ucast_eq take_bit_nat_eq_self)
  with m assms(2) show ?thesis
    by (simp add: Bin_ok_def)
qed

lemma insert_step_inv:
  assumes opt: "Options_ok opt" and i: "i < n" and inv: "pass_inv opt hashes n M i st"
  shows "\<exists>st'. insert_step opt hashes i st = Inr st' \<and> pass_inv opt hashes n M (Suc i) st'"
proof -
  obtain bins cs w where st: "st = (bins, cs, w)" by (cases st)
  define c where "c = cs ! i"
  define p where "p = Bin_slot opt hashes c"
  from inv i st have len: "length cs = n" and w: "w \<le> i" and bok: "bins_ok opt hashes bins"
    and dr: "drop i cs = c # drop (Suc i) cs"
    by (auto simp: pass_inv_def c_def Cons_nth_drop_Suc)
  with inv st have cok: "Bin_ok opt (length hashes) c" by (auto simp: pass_inv_def)
  have h5: "num_hash opt \<le> 5" and nb: "Options_NumBins opt \<noteq> 0" and nh: "num_hash opt \<noteq> 0"
    using opt by (auto simp: Options_ok_def)
  have ne: "\<not> Bin_IsEmpty c" by (rule Bin_ok_nonempty [OF cok h5])
  have p: "p < length bins"
    using bok nb unat_mod_less by (auto simp: p_def Bin_slot_def bins_ok_def)
  define bins' where "bins' = bins[p := c]"
  define e where "e = bins ! p"
  have bok': "bins_ok opt hashes bins'"
    using bok cok p by (auto simp: bins_ok_def bins'_def nth_list_update p_def [symmetric])
  have occ: "occupants bins' + occupants [e] = add_mset (Bin_InputIdx c) (occupants bins)"
    unfolding bins'_def e_def by (rule occupants_update [OF p ne])
  define r where "r = Bin (Bin_Encode (Bin_InputIdx e)
     (ucast ((ucast (Bin_HashIdx e) + 1 :: 64 word) mod num_hash opt)))"
  have step: "insert_step opt hashes i st =
      (if Bin_IsEmpty e then Inr (bins', cs, w) else Inr (bins', cs[w := r], w + 1))"
    using i w len p cok nb nh h5
    by (simp add: st insert_step_def c_def [symmetric] GetHash_small [OF cok h5] Bin_ok_def
        Bin_Swap_def Let_def p_def [unfolded Bin_slot_def, symmetric] bins'_def e_def [symmetric] r_def)
  show ?thesis
  proof (cases "Bin_IsEmpty e")
    case True
    then show ?thesis
      using step bok' occ inv w by (auto simp: st pass_inv_def dr)
  next
    case False
    have eok: "Bin_ok opt (length hashes) e"
      using False bok p by (auto simp: bins_ok_def e_def)
    have r: "Bin_ok opt (length hashes) r" "Bin_InputIdx r = Bin_InputIdx e"
      using Bin_ok_next [OF opt eok] by (auto simp: r_def)
    have tk: "take (Suc w) (cs[w := r]) = take w cs @ [r]"
      using w i len by (simp add: take_Suc_conv_app_nth)
    have "drop (Suc i) (cs[w := r]) = drop (Suc i) cs"
      using w by simp
    then show ?thesis
      using step False bok' occ inv w r by (auto simp: st pass_inv_def dr tk)
  qed
qed

lemma insert_loop_inv:
  assumes "Options_ok opt" "bins_ok opt hashes bins"
    and "\<forall>c \<in> set cs. Bin_ok opt (length hashes) c"
  shows "\<exists>bins' cs'. insert_loop tries opt hashes bins cs = Inr (bins', cs') \<and>
           bins_ok opt hashes bins' \<and> length cs' \<le> length cs \<and>
           (\<forall>c \<in> set cs'. Bin_ok opt (length hashes) c) \<and>
           occupants bins' + mset (map Bin_InputIdx cs') = occupants bins + mset (map Bin_InputIdx cs)"
  using assms
proof (induction tries opt hashes bins cs rule: insert_loop.induct)
  case (3 tries opt hashes bins c cs)
  let ?cs = "c # cs"
  let ?M = "occupants bins + mset (map Bin_InputIdx ?cs)"
  have "pass_inv opt hashes (length ?cs) ?M 0 (bins, ?cs, 0)"
    using 3 by (simp add: pass_inv_def)
  then obtain st where st:
    "rfold (insert_step opt hashes) [0..<length ?cs] (bins, ?cs, 0) = Inr st"
    "pass_inv opt hashes (length ?cs) ?M (length ?cs) st"
    using rfold_upt_inv [where I = "pass_inv opt hashes (length ?cs) ?M" and n = "length ?cs"
        and f = "insert_step opt hashes"] insert_step_inv [OF 3(2)] by metis
  obtain bins1 cs1 w where st1: "st = (bins1, cs1, w)" by (cases st)
  with st have inv1: "bins_ok opt hashes bins1" "w \<le> length ?cs" "length cs1 = length ?cs"
    "\<forall>c \<in> set (take w cs1). Bin_ok opt (length hashes) c"
    "occupants bins1 + mset (map Bin_InputIdx (take w cs1)) = ?M"
    by (auto simp: pass_inv_def)
  show ?case
    using 3(1) [OF 3(2) inv1(1,4)] inv1 st(1) by (fastforce simp: st1)
qed auto

lemma stash_put_occupants:
  assumes "stash_put bs e = Some bs'" "\<not> Bin_IsEmpty (Bin e)"
  shows "occupants bs' = add_mset (Bin_InputIdx (Bin e)) (occupants bs) \<and> length bs' = length bs"
  using assms by (induction bs arbitrary: bs') (auto split: if_splits)

lemma size_occupants_le: "size (occupants bs) \<le> length bs"
  by (induction bs) auto

lemma stash_put_None_iff: "stash_put bs e = None \<longleftrightarrow> size (occupants bs) = length bs"
proof (induction bs)
  case (Cons b bs)
  with size_occupants_le [of bs] show ?case by auto
qed simp

lemma Bin_InputIdx_idem: "Bin_InputIdx (Bin (Bin_InputIdx b)) = Bin_InputIdx b"
  using Bin_Encode_InputIdx(1) [of b 0] by simp

lemma Bin_InputIdx_nonempty: "\<not> Bin_IsEmpty (Bin (Bin_InputIdx b))"
proof
  assume "Bin_IsEmpty (Bin (Bin_InputIdx b))"
  then have "Bin_InputIdx b = kEmpty" by (simp add: Bin_IsEmpty_def)
  then show False using Bin_InputIdx_less [of b] by (simp add: kEmpty_def)
qed

lemma rfold_PutToStash:
  "case rfold (\<lambda>c. CuckooIndex_PutToStash (Bin_InputIdx c)) cs st of
     Inr st' \<Rightarrow> length st' = length st \<and>
                occupants st' = occupants st + mset (map Bin_InputIdx cs)
   | Inl e \<Rightarrow> e = Throw ''Cannot find empty bin in stash'' \<and>
              length st < size (occupants st) + length cs"
proof (induction cs arbitrary: st)
  case (Cons c cs)
  show ?case
  proof (cases "stash_put st (Bin_InputIdx c)")
    case None
    with stash_put_None_iff [of st "Bin_InputIdx c"] show ?thesis
      by (simp add: CuckooIndex_PutToStash_def)
  next
    case (Some st1)
    from stash_put_occupants [OF Some Bin_InputIdx_nonempty] Cons.IH [of st1] show ?thesis
      by (auto simp: CuckooIndex_PutToStash_def Some Bin_InputIdx_idem split: sum.splits)
  qed
qed simp

text \<open>
  The whole of \<open>Insert\<close> on a well-formed table with room for the codes: it either succeeds,
  appends the codes, and keeps the table well formed, or throws because the stash is too small.
\<close>

lemma Bin_ok_fresh:
  assumes "i < n" "n \<le> 2 ^ 56" "0 < num_hash opt"
  shows "Bin_ok opt n (Bin (of_nat i))" "Bin_InputIdx (Bin (of_nat i)) = of_nat i"
proof -
  have lt: "(of_nat i :: 64 word) < 2 ^ 56"
    using assms by (simp add: word_less_nat_alt)
  show "Bin_InputIdx (Bin (of_nat i)) = of_nat i"
    using Bin_InputIdx_Encode [OF lt, of 0] by simp
  moreover have "Bin_HashIdx (Bin (of_nat i)) = 0"
    using Bin_HashIdx_Encode [OF lt, of 0] by simp
  ultimately show "Bin_ok opt n (Bin (of_nat i))"
    using assms by (simp add: Bin_ok_def word_less_nat_alt)
qed

lemma bins_ok_append: "bins_ok opt hs bs \<Longrightarrow> bins_ok opt (hs @ hs') bs"
  by (fastforce simp: bins_ok_def Bin_ok_def Bin_slot_def nth_append)

lemma Insert_cases:
  assumes wf: "CuckooIndex_wf t"
    and room: "length (ci_hashes t) + length codes \<le> unat (num_input (ci_options t))"
  shows "(\<exists>t'. CuckooIndex_Insert t codes = Inr t' \<and> CuckooIndex_wf t' \<and>
            ci_options t' = ci_options t \<and> ci_hashes t' = ci_hashes t @ codes) \<or>
         CuckooIndex_Insert t codes = Inl (Throw ''Cannot find empty bin in stash'') \<and>
         length (ci_stash t) < size (occupants (ci_stash t)) + length codes"
proof -
  let ?opt = "ci_options t" and ?hs = "ci_hashes t @ codes" and ?off = "length (ci_hashes t)"
  define cs where "cs = map (\<lambda>i. Bin (of_nat (?off + i))) [0..<length codes]"
  have opt: "Options_ok ?opt" and n56: "length ?hs \<le> 2 ^ 56" and nh: "0 < num_hash ?opt"
    using wf room by (auto simp: CuckooIndex_wf_def Options_ok_def word_le_nat_alt)
  have bok: "bins_ok ?opt ?hs (ci_bins t)"
    using wf by (simp add: CuckooIndex_wf_def bins_ok_append)
  have cok: "\<forall>c \<in> set cs. Bin_ok ?opt (length ?hs) c"
    using Bin_ok_fresh(1) [OF _ n56 nh] by (auto simp: cs_def simp del: of_nat_add)
  have cin: "map Bin_InputIdx cs = map (\<lambda>i. of_nat (?off + i)) [0..<length codes]"
    using Bin_ok_fresh(2) [OF _ n56 nh] by (auto simp: cs_def simp del: of_nat_add)
  obtain bins rest where loop:
    "insert_loop (unat (max_try_count ?opt)) ?opt ?hs (ci_bins t) cs = Inr (bins, rest)"
    "bins_ok ?opt ?hs bins" "length rest \<le> length cs"
    "occupants bins + mset (map Bin_InputIdx rest) =
       occupants (ci_bins t) + mset (map Bin_InputIdx cs)"
    using insert_loop_inv [OF opt bok cok] by blast
  have ins: "CuckooIndex_Insert t codes =
    rbind (rfold (\<lambda>c. CuckooIndex_PutToStash (Bin_InputIdx c)) rest (ci_stash t)) (\<lambda>stash.
         Inr (t \<lparr> ci_bins := bins, ci_stash := stash, ci_hashes := ?hs \<rparr>))"
    using room loop(1) by (simp add: CuckooIndex_Insert_def Let_def cs_def)
  have upt: "mset (map of_nat [0..<length ?hs]) =
     mset (map of_nat [0..<?off]) + mset (map (\<lambda>i. of_nat (?off + i) :: 64 word) [0..<length codes])"
    by (simp only: length_append upt_append_shift map_append mset_append map_map comp_def)
  show ?thesis
  proof (cases "rfold (\<lambda>c. CuckooIndex_PutToStash (Bin_InputIdx c)) rest (ci_stash t)")
    case (Inl e)
    with rfold_PutToStash [of "ci_stash t" rest] loop(3) show ?thesis
      by (simp add: ins cs_def)
  next
    case (Inr stash)
    with rfold_PutToStash [of "ci_stash t" rest]
    have "length stash = length (ci_stash t)"
      and "occupants stash = occupants (ci_stash t) + mset (map Bin_InputIdx rest)"
      by auto
    moreover have "occupants (ci_bins t) + occupants (ci_stash t) =
        mset (map of_nat [0..<?off])"
      using wf by (simp add: CuckooIndex_wf_def)
    ultimately have "occupants bins + occupants stash = mset (map of_nat [0..<length ?hs])"
      using loop(4) unfolding upt cin by (simp only: add_exchange)
    with Inr \<open>length stash = _\<close> wf loop(2) room show ?thesis
      by (simp add: ins CuckooIndex_wf_def)
  qed
qed

section \<open>Sanity check and lookup\<close>

lemma sanity_add_cases:
  "Bin_IsEmpty b \<Longrightarrow> sanity_add b st = Inr st"
  "\<not> Bin_IsEmpty b \<Longrightarrow> sanity_add b st =
     (if Bin_InputIdx b \<in> st then Inl (Enforce ''already exists'')
      else Inr (insert (Bin_InputIdx b) st))"
  by (simp_all add: sanity_add_def)

lemma rfold_sanity_add:
  "rfold sanity_add bs st =
     (if distinct (map Bin_InputIdx (filter (\<lambda>b. \<not> Bin_IsEmpty b) bs)) \<and>
         st \<inter> set_mset (occupants bs) = {}
      then Inr (st \<union> set_mset (occupants bs)) else Inl (Enforce ''already exists''))"
proof (induction bs arbitrary: st)
  case (Cons b bs)
  show ?case
    by (cases "Bin_IsEmpty b") (auto simp: sanity_add_cases Cons.IH occupants_def)
qed simp

lemma rfold_enum_check:
  assumes "xs = map of_nat [k..<k + length xs]" "k + length xs < 2 ^ 64"
  shows "rfold (\<lambda>(i::64 word) idx. rbind (enforce (idx = unat i) msg) (\<lambda>_. Inr (idx + 1))) xs k
           = Inr (k + length xs)"
  using assms
proof (induction xs arbitrary: k)
  case (Cons x xs)
  have "x = of_nat k" "xs = map of_nat [Suc k..<Suc k + length xs]"
    using Cons.prems(1) upt_conv_Cons [of k "k + length (x # xs)"] by (simp_all del: upt_Suc)
  with Cons.IH [of "Suc k"] Cons.prems(2) show ?case
    by (simp add: unat_of_nat)
qed simp

lemma sorted_list_of_set_words:
  assumes "n < 2 ^ LENGTH('a::len)"
  shows "sorted_list_of_set (of_nat ` {0..<n} :: 'a word set) = map of_nat [0..<n]"
proof -
  have mono: "strict_mono_on {0..<n} (of_nat :: nat \<Rightarrow> 'a word)"
    using assms by (auto intro!: strict_mono_onI simp: word_less_nat_alt unat_of_nat)
  then have "sorted_wrt (<) (map (of_nat :: nat \<Rightarrow> 'a word) [0..<n])"
    by (auto simp: sorted_wrt_iff_nth_less strict_mono_on_def)
  moreover have "set (map (of_nat :: nat \<Rightarrow> 'a word) [0..<n]) = of_nat ` {0..<n}" by simp
  ultimately show ?thesis
    by (metis sorted_list_of_set.idem_if_sorted_distinct strict_sorted_iff)
qed

lemma distinct_of_nat_upt: "n \<le> 2 ^ LENGTH('a::len) \<Longrightarrow> distinct (map (of_nat :: nat \<Rightarrow> 'a word) [0..<n])"
  by (auto simp: distinct_map inj_on_def dest!: arg_cong [of _ _ unat] simp: unat_of_nat)

lemma CuckooIndex_wf_occupants:
  assumes "CuckooIndex_wf t"
  defines "ins \<equiv> \<lambda>bs. map Bin_InputIdx (filter (\<lambda>b. \<not> Bin_IsEmpty b) bs)"
  shows "distinct (ins (ci_bins t) @ ins (ci_stash t))"
    and "set (ins (ci_bins t) @ ins (ci_stash t)) = of_nat ` {0..<length (ci_hashes t)}"
    and "length (ci_hashes t) \<le> 2 ^ 56"
proof -
  show n: "length (ci_hashes t) \<le> 2 ^ 56"
    using assms(1) by (auto simp: CuckooIndex_wf_def Options_ok_def word_le_nat_alt)
  have eq: "mset (ins (ci_bins t) @ ins (ci_stash t)) = mset (map of_nat [0..<length (ci_hashes t)])"
    using assms by (simp add: CuckooIndex_wf_def occupants_def)
  show "distinct (ins (ci_bins t) @ ins (ci_stash t))"
    using n distinct_of_nat_upt [of "length (ci_hashes t)", where 'a = 64]
    by (simp only: mset_eq_imp_distinct_iff [OF eq]) simp
  show "set (ins (ci_bins t) @ ins (ci_stash t)) = of_nat ` {0..<length (ci_hashes t)}"
    by (simp only: mset_eq_setD [OF eq] set_map set_upt)
qed

lemma CuckooIndex_wf_SanityCheck:
  assumes wf: "CuckooIndex_wf t" and full: "length (ci_hashes t) = unat (num_input (ci_options t))"
  shows "CuckooIndex_SanityCheck t = Inr ()"
proof -
  let ?n = "length (ci_hashes t)"
  note occ = CuckooIndex_wf_occupants [OF wf]
  have n64: "?n < 2 ^ 64" using occ(3) by simp
  have union: "set_mset (occupants (ci_bins t)) \<union> set_mset (occupants (ci_stash t)) =
      (of_nat ` {0..<?n} :: 64 word set)"
    using occ(2) by (simp add: occupants_def)
  have card: "card (of_nat ` {0..<?n} :: 64 word set) = ?n"
    using distinct_card [OF distinct_of_nat_upt [of ?n, where 'a = 64]] n64 by simp
  have "rfold sanity_add (ci_bins t) {} = Inr (set_mset (occupants (ci_bins t)))"
    "rfold sanity_add (ci_stash t) (set_mset (occupants (ci_bins t))) =
       Inr (of_nat ` {0..<?n})"
    unfolding rfold_sanity_add union using occ(1) by (auto simp: occupants_def)
  then show ?thesis
    using full card n64 rfold_enum_check [of "map of_nat [0..<?n]" 0]
      sorted_list_of_set_words [of ?n, where 'a = 64]
    by (simp add: CuckooIndex_SanityCheck_def)
qed

lemma CuckooIndex_new_wf:
  assumes "Options_ok opt"
  obtains t where "CuckooIndex_new opt = Inr t" "CuckooIndex_wf t" "ci_options t = opt"
    "ci_hashes t = []" "ci_stash t = replicate (unat (num_stash opt)) (Bin kEmpty)"
proof -
  have h: "unat (num_hash opt) \<le> 5" "0 < unat (num_hash opt)"
    using assms by (auto simp: Options_ok_def word_le_nat_alt word_less_nat_alt)
  then have "num_hash opt \<in> {1, 2, 3, 4, 5}"
    by (auto simp: word_unat_eq_iff)
  then have "(num_hash opt - 1) * of_nat kBlockSize + 8 \<le> 16"
    by (auto simp: kBlockSize_def)
  then show ?thesis
    using that assms by (simp add: CuckooIndex_new_def CuckooIndex_wf_def bins_ok_def Bin_IsEmpty_def)
qed

lemma CuckooIndex_lookup:
  assumes wf: "CuckooIndex_wf t" and i: "i < length (ci_hashes t)"
  shows "(\<exists>p < length (ci_bins t). \<not> Bin_IsEmpty (ci_bins t ! p) \<and>
            Bin_InputIdx (ci_bins t ! p) = of_nat i \<and>
            unat (Bin_HashIdx (ci_bins t ! p)) < unat (num_hash (ci_options t)) \<and>
            Bin_slot (ci_options t) (ci_hashes t) (ci_bins t ! p) = p) \<or>
         (\<exists>b \<in> set (ci_stash t). \<not> Bin_IsEmpty b \<and> Bin_InputIdx b = of_nat i)"
proof -
  have "(of_nat i :: 64 word) \<in> of_nat ` {0..<length (ci_hashes t)}" using i by simp
  then consider b where "b \<in> set (ci_bins t)" "\<not> Bin_IsEmpty b" "Bin_InputIdx b = of_nat i"
    | b where "b \<in> set (ci_stash t)" "\<not> Bin_IsEmpty b" "Bin_InputIdx b = of_nat i"
    unfolding CuckooIndex_wf_occupants(2) [OF wf, symmetric] by auto
  then show ?thesis
  proof cases
    case 1
    then obtain p where "p < length (ci_bins t)" "ci_bins t ! p = b"
      by (auto simp: in_set_conv_nth)
    with 1 wf show ?thesis
      by (auto simp: CuckooIndex_wf_def bins_ok_def Bin_ok_def)
  qed auto
qed

lemma min_colliding_least:
  assumes "k < n" "n \<le> 5" "Options_NumBins opt \<noteq> 0"
    and hit: "ucast (drop_bit (8 * (k * kBlockSize)) room) mod Options_NumBins opt = bin"
    and least: "\<And>j. j < k \<Longrightarrow> ucast (drop_bit (8 * (j * kBlockSize)) room) mod Options_NumBins opt \<noteq> bin"
    and "m \<le> k"
  shows "min_colliding opt room bin [m..<n] = Inr (of_nat k)"
  using \<open>m \<le> k\<close>
proof (induction "k - m" arbitrary: m)
  case 0
  then show ?case
    using assms(1-4) by (simp add: upt_conv_Cons HashRoom_GetHash_def kBlockSize_def)
next
  case (Suc d)
  then have "m < k" "m < n" using assms(1) by auto
  then show ?case
    using Suc.hyps(1) [of "Suc m"] Suc.hyps(2) assms(2,3) least [of m]
    by (simp add: upt_conv_Cons HashRoom_GetHash_def kBlockSize_def)
qed

section \<open>Properties\<close>

text \<open>
  C39. \<open>Insert\<close> on a well-formed table with room for the codes never runs into undefined
  behaviour. Either it appends the codes and the table is again well formed, every input being
  held exactly once by a bin that its recorded hash function selects or by the stash, or it throws
  because the stash had fewer free places than there were codes.
\<close>

theorem CuckooIndex_Insert_correct:
  assumes "CuckooIndex_wf t"
    and "length (ci_hashes t) + length codes \<le> unat (num_input (ci_options t))"
  shows "(\<exists>t'. CuckooIndex_Insert t codes = Inr t' \<and> CuckooIndex_wf t' \<and>
            ci_options t' = ci_options t \<and> ci_hashes t' = ci_hashes t @ codes) \<or>
         CuckooIndex_Insert t codes = Inl (Throw ''Cannot find empty bin in stash'') \<and>
         length (ci_stash t) < size (occupants (ci_stash t)) + length codes"
  using assms by (rule Insert_cases)

definition witness_options :: Options where
  "witness_options = \<lparr> num_input = 2, num_stash = 1, num_hash = 3, scale_factor = (\<lambda>n. 2 * n),
                       max_try_count = 128 \<rparr>"

definition witness_table :: CuckooIndex where
  "witness_table = \<lparr> ci_options = witness_options, ci_bins = replicate 4 (Bin kEmpty),
                     ci_stash = [Bin kEmpty], ci_hashes = [] \<rparr>"

lemma witness_table_wf: "CuckooIndex_wf witness_table"
  by (simp add: CuckooIndex_wf_def witness_table_def witness_options_def Options_ok_def
      Options_NumBins_def bins_ok_def Bin_IsEmpty_def nth_Cons')

lemma witness_options_ok: "Options_ok witness_options"
  by (simp add: witness_options_def Options_ok_def Options_NumBins_def)

theorem CuckooIndex_Insert_correct_witness:
  "\<exists>t'. CuckooIndex_Insert witness_table [7] = Inr t' \<and> CuckooIndex_wf t' \<and> ci_hashes t' = [7]"
  using CuckooIndex_Insert_correct [OF witness_table_wf, of "[7]"]
  by (auto simp: witness_table_def witness_options_def Bin_IsEmpty_def)

text \<open>
  C40. A table filled to its declared number of inputs passes its own \<open>SanityCheck\<close>, and every
  input is found again: in one of the bins its hash functions select, or in the stash.
\<close>

theorem CuckooIndex_filled:
  assumes "Options_ok opt" "CuckooIndex_new opt = Inr t0" "CuckooIndex_Insert t0 codes = Inr t"
    and "length codes = unat (num_input opt)"
  shows "CuckooIndex_SanityCheck t = Inr () \<and>
    (\<forall>i < length codes.
       (\<exists>h < unat (num_hash opt).
          \<exists>p. p = unat (ucast (drop_bit (16 * h) (codes ! i)) mod Options_NumBins opt) \<and>
              p < length (ci_bins t) \<and> \<not> Bin_IsEmpty (ci_bins t ! p) \<and>
              Bin_InputIdx (ci_bins t ! p) = of_nat i) \<or>
       (\<exists>b \<in> set (ci_stash t). \<not> Bin_IsEmpty b \<and> Bin_InputIdx b = of_nat i))"
proof -
  have "CuckooIndex_wf t0" "ci_options t0 = opt" "ci_hashes t0 = []"
    using CuckooIndex_new_wf [OF assms(1)] assms(2) by auto
  with Insert_cases [of t0 codes] assms(3,4)
  have wf: "CuckooIndex_wf t" "ci_options t = opt" "ci_hashes t = codes" by auto
  have n: "length codes < 2 ^ 64"
    using CuckooIndex_wf_occupants(3) [OF wf(1)] wf(3) by simp
  show ?thesis
    using CuckooIndex_wf_SanityCheck [OF wf(1)] CuckooIndex_lookup [OF wf(1)] wf assms(4) n
    by (fastforce simp: Bin_slot_def kBlockSize_def unat_of_nat mult.commute)
qed

theorem CuckooIndex_filled_witness:
  "\<exists>t0 t. CuckooIndex_new witness_options = Inr t0 \<and> CuckooIndex_Insert t0 [7, 7] = Inr t \<and>
     CuckooIndex_SanityCheck t = Inr ()"
proof -
  have t0: "CuckooIndex_new witness_options = Inr witness_table"
    by (simp add: CuckooIndex_new_def witness_table_def witness_options_def Options_NumBins_def
        kBlockSize_def)
  have "\<not> isl (CuckooIndex_Insert witness_table [7, 7])"
    by code_simp
  then obtain t where t: "CuckooIndex_Insert witness_table [7, 7] = Inr t"
    by (cases "CuckooIndex_Insert witness_table [7, 7]") auto
  have "CuckooIndex_SanityCheck t = Inr ()"
    using CuckooIndex_filled [OF witness_options_ok t0 t] by (simp add: witness_options_def)
  then show ?thesis using t0 t by auto
qed

text \<open>
  A stash with room for every code makes \<open>Insert\<close> total: whatever the hash codes are and
  however few evictions are allowed, building a table does not throw.
\<close>

theorem CuckooIndex_Insert_total:
  assumes "Options_ok opt" "length codes \<le> unat (num_input opt)"
    and "length codes \<le> unat (num_stash opt)"
  shows "\<exists>t. rbind (CuckooIndex_new opt) (\<lambda>t0. CuckooIndex_Insert t0 codes) = Inr t \<and>
             CuckooIndex_wf t \<and> ci_hashes t = codes"
proof -
  obtain t0 where "CuckooIndex_new opt = Inr t0" "CuckooIndex_wf t0" "ci_options t0 = opt"
    "ci_hashes t0 = []" "ci_stash t0 = replicate (unat (num_stash opt)) (Bin kEmpty)"
    using CuckooIndex_new_wf [OF assms(1)] by metis
  with Insert_cases [of t0 codes] assms(2,3) show ?thesis
    by auto
qed

theorem CuckooIndex_Insert_total_witness:
  "\<exists>t. rbind (CuckooIndex_new witness_options) (\<lambda>t0. CuckooIndex_Insert t0 [5]) = Inr t \<and>
       ci_hashes t = [5]"
  using CuckooIndex_Insert_total [OF witness_options_ok, of "[5]"]
  by (auto simp: witness_options_def)

text \<open>\<open>MinCollidingHashIdx\<close> on an occupied bin of a well-formed table returns the least hash
  index that maps the occupant to this bin; it never throws there.
\<close>

theorem MinCollidingHashIdx_least:
  assumes wf: "CuckooIndex_wf t" and p: "unat p < length (ci_bins t)"
    and occ: "\<not> Bin_IsEmpty (ci_bins t ! unat p)"
  defines "room \<equiv> ci_hashes t ! unat (Bin_InputIdx (ci_bins t ! unat p))"
  shows "\<exists>k < unat (num_hash (ci_options t)).
           CuckooIndex_MinCollidingHashIdx t p = Inr (of_nat k) \<and>
           ucast (drop_bit (16 * k) room) mod Options_NumBins (ci_options t) = p \<and>
           (\<forall>j < k. ucast (drop_bit (16 * j) room) mod Options_NumBins (ci_options t) \<noteq> p)"
proof -
  let ?opt = "ci_options t" and ?b = "ci_bins t ! unat p"
  let ?hit = "\<lambda>k. ucast (drop_bit (8 * (k * kBlockSize)) room) mod Options_NumBins ?opt = p"
  have ok: "Options_ok ?opt" "Bin_ok ?opt (length (ci_hashes t)) ?b" "?hit (unat (Bin_HashIdx ?b))"
    using wf p occ
    by (auto simp: CuckooIndex_wf_def bins_ok_def Bin_slot_def room_def word_unat_eq_iff)
  define k where "k = (LEAST k. ?hit k)"
  have k: "?hit k" "k \<le> unat (Bin_HashIdx ?b)" "\<And>j. j < k \<Longrightarrow> \<not> ?hit j"
    unfolding k_def using ok(3) by (auto intro: LeastI Least_le dest: not_less_Least)
  have kn: "k < unat (num_hash ?opt)" "unat (num_hash ?opt) \<le> 5" "Options_NumBins ?opt \<noteq> 0"
    "num_hash ?opt \<noteq> 0"
    using ok k(2) by (auto simp: Bin_ok_def Options_ok_def word_le_nat_alt)
  have "CuckooIndex_MinCollidingHashIdx t p = Inr (of_nat k)"
    using min_colliding_least [OF kn(1-3) k(1) k(3), of 0] p ok(2) kn
    by (simp add: CuckooIndex_MinCollidingHashIdx_def room_def Bin_ok_def)
  with k kn show ?thesis
    by (auto simp: kBlockSize_def mult.commute intro!: exI [of _ k])
qed

theorem MinCollidingHashIdx_least_witness:
  "\<exists>t k. CuckooIndex_Insert witness_table [7, 8] = Inr t \<and>
     CuckooIndex_MinCollidingHashIdx t 3 = Inr (of_nat k) \<and> k < 3"
proof -
  have bins: "map_sum id ci_bins (CuckooIndex_Insert witness_table [7, 8]) =
      Inr [Bin 1, Bin kEmpty, Bin kEmpty, Bin 0]"
    by code_simp
  then obtain t where t: "CuckooIndex_Insert witness_table [7, 8] = Inr t"
    "ci_bins t = [Bin 1, Bin kEmpty, Bin kEmpty, Bin 0]"
    by (cases "CuckooIndex_Insert witness_table [7, 8]") auto
  then have "CuckooIndex_wf t" "ci_options t = witness_options"
    using Insert_cases [OF witness_table_wf, of "[7, 8]"]
    by (auto simp: witness_table_def witness_options_def)
  then have "\<exists>k < 3. CuckooIndex_MinCollidingHashIdx t 3 = Inr (of_nat k)"
    using MinCollidingHashIdx_least [of t 3] t(2)
    by (auto simp: witness_options_def Bin_IsEmpty_def kEmpty_def)
  then show ?thesis using t by blast
qed

end
