(* ===== verification/Index_Store.thy ===== *)
theory Index_Store
  imports Prelude
begin

text \<open>
  \<open>psi/utils/index_store.h\<close> and \<open>index_store.cc\<close>: the store of result indices between the
  PSI protocol, which writes pairs of an index and a peer duplicate count, and the join, which
  reads them back in order.

  A CSV file behind arrow's streaming reader is the list of the outcomes of its \<open>ReadNext\<close>
  calls: a batch of rows or an error; past the end arrow returns a null batch. The two readers are
  implementations of one interface, the locale \<open>index_reader\<close>.
\<close>

section \<open>Streams of record batches\<close>

type_synonym 'a stream = "'a list result list"

primrec ReadNext :: "'a stream \<Rightarrow> ('a list option \<times> 'a stream) result" where
  "ReadNext [] = Inr (None, [])"
| "ReadNext (b # bs) = rbind b (\<lambda>rows. Inr (Some rows, bs))"

text \<open>A stream without read errors, none of whose batches is empty, and the rows it holds.\<close>

definition stream_ok :: "'a stream \<Rightarrow> bool" where
  "stream_ok bs \<longleftrightarrow> (\<forall>b \<in> set bs. \<exists>rows. b = Inr rows \<and> rows \<noteq> [])"

definition stream_rows :: "'a stream \<Rightarrow> 'a list" where
  "stream_rows bs = concat (map (case_sum (\<lambda>_. []) id) bs)"

lemma stream_rows_simps [simp]:
  "stream_rows [] = []" "stream_rows (Inr rows # bs) = rows @ stream_rows bs"
  by (simp_all add: stream_rows_def)

lemma stream_ok_simps [simp]:
  "stream_ok []" "stream_ok (Inr rows # bs) \<longleftrightarrow> rows \<noteq> [] \<and> stream_ok bs"
  "\<not> stream_ok (Inl e # bs)"
  by (auto simp: stream_ok_def)

lemma stream_okE:
  assumes "stream_ok bs"
  obtains "bs = []" | rows bs' where "bs = Inr rows # bs'" "rows \<noteq> []" "stream_ok bs'"
  using assms by (cases bs) (auto simp: stream_ok_def)

section \<open>Writer\<close>

type_synonym index_row = "nat \<times> nat"

text \<open>The rows appended to the two array builders, and the rows the CSV writer has received.\<close>

record IndexWriter =
  iw_cache :: "index_row list"
  iw_cache_cnt :: nat
  iw_write_cnt :: nat
  iw_cache_size :: nat
  iw_file :: "index_row list"
  iw_closed :: bool

definition kIndexWriterCacheSize :: nat where
  "kIndexWriterCacheSize = 2 ^ 10"

text \<open>
  The constructor: with \<open>trunc\<close>, or when there is no file (\<open>None\<close>), the file is started
  anew with its header; otherwise it is opened for appending.
\<close>

definition IndexWriter_new :: "index_row list option \<Rightarrow> nat \<Rightarrow> bool \<Rightarrow> IndexWriter" where
  "IndexWriter_new existing cache_size trunc =
     \<lparr> iw_cache = [], iw_cache_cnt = 0, iw_write_cnt = 0, iw_cache_size = cache_size,
       iw_file = (if trunc then [] else case existing of None \<Rightarrow> [] | Some rows \<Rightarrow> rows),
       iw_closed = False \<rparr>"

definition IndexWriter_WriteCache1 :: "nat \<Rightarrow> nat \<Rightarrow> IndexWriter \<Rightarrow> IndexWriter result" where
  "IndexWriter_WriteCache1 index cnt w =
     rbind (enforce (\<not> iw_closed w) ''closed'') (\<lambda>_.
     Inr (w \<lparr> iw_cache := iw_cache w @ [(index, cnt)],
              iw_cache_cnt := iw_cache_cnt w + 1, iw_write_cnt := iw_write_cnt w + 1 \<rparr>))"

definition IndexWriter_WriteCache :: "nat list \<Rightarrow> IndexWriter \<Rightarrow> IndexWriter result" where
  "IndexWriter_WriteCache indexes w =
     rbind (enforce (\<not> iw_closed w) ''closed'') (\<lambda>_.
     rfold (\<lambda>i. IndexWriter_WriteCache1 i 0) indexes w)"

definition IndexWriter_WriteCache2 ::
  "nat list \<Rightarrow> nat list \<Rightarrow> IndexWriter \<Rightarrow> IndexWriter result" where
  "IndexWriter_WriteCache2 indexes duplicate_cnt w =
     rbind (enforce (\<not> iw_closed w) ''closed'') (\<lambda>_.
     rfold (\<lambda>i w. rbind (at indexes i) (\<lambda>x. rbind (at duplicate_cnt i) (\<lambda>c.
              IndexWriter_WriteCache1 x c w))) [0..<length indexes] w)"

definition IndexWriter_Commit :: "IndexWriter \<Rightarrow> IndexWriter result" where
  "IndexWriter_Commit w =
     rbind (enforce (\<not> iw_closed w) ''closed'') (\<lambda>_.
     if iw_cache_cnt w = 0 then Inr w
     else Inr (w \<lparr> iw_file := iw_file w @ iw_cache w, iw_cache := [], iw_cache_cnt := 0 \<rparr>))"

definition IndexWriter_Close :: "IndexWriter \<Rightarrow> IndexWriter result" where
  "IndexWriter_Close w =
     (if iw_closed w then Inr w
      else rbind (IndexWriter_Commit w) (\<lambda>w'. Inr (w' \<lparr> iw_closed := True \<rparr>)))"

section \<open>Readers\<close>

record FileIndexReader =
  fr_reader :: "index_row stream"
  fr_batch :: "index_row list option"
  fr_idx_in_batch :: nat
  fr_read_cnt :: nat

definition FileIndexReader_new :: "index_row stream option \<Rightarrow> FileIndexReader result" where
  "FileIndexReader_new file =
     (case file of
        None \<Rightarrow> Inl (Enforce ''Input file does not exist'')
      | Some s \<Rightarrow> Inr \<lparr> fr_reader = s, fr_batch = None, fr_idx_in_batch = 0, fr_read_cnt = 0 \<rparr>)"

definition FileIndexReader_HasNext :: "FileIndexReader \<Rightarrow> (bool \<times> FileIndexReader) result" where
  "FileIndexReader_HasNext r =
     rbind (if (case fr_batch r of None \<Rightarrow> True | Some b \<Rightarrow> length b \<le> fr_idx_in_batch r)
            then rbind (ReadNext (fr_reader r)) (\<lambda>(batch, rest).
                 Inr (True, r \<lparr> fr_batch := batch, fr_reader := rest \<rparr>))
            else Inr (False, r)) (\<lambda>(new_batch, r).
     case fr_batch r of
       None \<Rightarrow> Inr (False, r)
     | Some b \<Rightarrow> (let r' = (if new_batch then r \<lparr> fr_idx_in_batch := 0 \<rparr> else r)
                 in Inr (fr_idx_in_batch r' < length b, r')))"

definition FileIndexReader_GetNextWithPeerCnt ::
  "FileIndexReader \<Rightarrow> (index_row option \<times> FileIndexReader) result" where
  "FileIndexReader_GetNextWithPeerCnt r =
     rbind (FileIndexReader_HasNext r) (\<lambda>(has, r).
     if \<not> has then Inr (None, r)
     else case fr_batch r of
            None \<Rightarrow> Inl (Undefined ''null batch'')
          | Some b \<Rightarrow> rbind (at b (fr_idx_in_batch r)) (\<lambda>row.
              Inr (Some row, r \<lparr> fr_idx_in_batch := fr_idx_in_batch r + 1,
                                 fr_read_cnt := fr_read_cnt r + 1 \<rparr>)))"

definition FileIndexReader_GetNext ::
  "FileIndexReader \<Rightarrow> (nat option \<times> FileIndexReader) result" where
  "FileIndexReader_GetNext r =
     rbind (FileIndexReader_HasNext r) (\<lambda>(has, r).
     if \<not> has then Inr (None, r)
     else case fr_batch r of
            None \<Rightarrow> Inl (Undefined ''null batch'')
          | Some b \<Rightarrow> rbind (at b (fr_idx_in_batch r)) (\<lambda>row.
              Inr (Some (fst row), r \<lparr> fr_idx_in_batch := fr_idx_in_batch r + 1,
                                       fr_read_cnt := fr_read_cnt r + 1 \<rparr>)))"

record MemoryIndexReader =
  mr_items :: "index_row list"
  mr_read_cnt :: nat

text \<open>
  The constructor sorts the items by index. \<open>std::sort\<close> leaves the order of items with equal
  indices open; the model takes the stable order.
\<close>

definition MemoryIndexReader_new :: "nat list \<Rightarrow> nat list \<Rightarrow> MemoryIndexReader result" where
  "MemoryIndexReader_new index peer_dup_cnt =
     rbind (enforce (length index = length peer_dup_cnt) ''index size'') (\<lambda>_.
     Inr \<lparr> mr_items = sort_key fst (zip index peer_dup_cnt), mr_read_cnt = 0 \<rparr>)"

definition MemoryIndexReader_HasNext :: "MemoryIndexReader \<Rightarrow> (bool \<times> MemoryIndexReader) result" where
  "MemoryIndexReader_HasNext r = Inr (mr_read_cnt r < length (mr_items r), r)"

definition MemoryIndexReader_GetNextWithPeerCnt ::
  "MemoryIndexReader \<Rightarrow> (index_row option \<times> MemoryIndexReader) result" where
  "MemoryIndexReader_GetNextWithPeerCnt r =
     (if \<not> mr_read_cnt r < length (mr_items r) then Inr (None, r)
      else Inr (Some (mr_items r ! mr_read_cnt r), r \<lparr> mr_read_cnt := mr_read_cnt r + 1 \<rparr>))"

definition MemoryIndexReader_GetNext ::
  "MemoryIndexReader \<Rightarrow> (nat option \<times> MemoryIndexReader) result" where
  "MemoryIndexReader_GetNext r =
     (if \<not> mr_read_cnt r < length (mr_items r) then Inr (None, r)
      else Inr (Some (fst (mr_items r ! mr_read_cnt r)), r \<lparr> mr_read_cnt := mr_read_cnt r + 1 \<rparr>))"

text \<open>\<open>MemoryResultReceiver\<close> and \<open>MemoryResultStore\<close>: the collected results.\<close>

type_synonym MemoryResultReceiver = "index_row list"

definition MemoryResultReceiver_Add :: "index_row \<Rightarrow> MemoryResultReceiver \<Rightarrow> MemoryResultReceiver" where
  "MemoryResultReceiver_Add index datas = datas @ [index]"

definition MemoryResultReceiver_AddAll ::
  "index_row list \<Rightarrow> MemoryResultReceiver \<Rightarrow> MemoryResultReceiver" where
  "MemoryResultReceiver_AddAll indices datas = datas @ indices"

section \<open>The reader interface\<close>

text \<open>
  What a client of \<open>IndexReader\<close> relies on: \<open>remaining\<close> are the rows still to come, and
  each call hands out the first of them. From this the interface gives what draining a reader
  yields, for any client.
\<close>

locale index_reader =
  fixes HasNext :: "'r \<Rightarrow> (bool \<times> 'r) result"
    and GetNext :: "'r \<Rightarrow> (nat option \<times> 'r) result"
    and GetNextWithPeerCnt :: "'r \<Rightarrow> (index_row option \<times> 'r) result"
    and r_inv :: "'r \<Rightarrow> bool"
    and remaining :: "'r \<Rightarrow> index_row list"
  assumes has_next: "r_inv r \<Longrightarrow> \<exists>r'. HasNext r = Inr (remaining r \<noteq> [], r') \<and> r_inv r' \<and> remaining r' = remaining r"
    and get_next_empty: "r_inv r \<Longrightarrow> remaining r = [] \<Longrightarrow>
          \<exists>r'. GetNextWithPeerCnt r = Inr (None, r') \<and> GetNext r = Inr (None, r') \<and>
               r_inv r' \<and> remaining r' = []"
    and get_next_row: "r_inv r \<Longrightarrow> remaining r = row # rows \<Longrightarrow>
          \<exists>r'. GetNextWithPeerCnt r = Inr (Some row, r') \<and> GetNext r = Inr (Some (fst row), r') \<and>
               r_inv r' \<and> remaining r' = rows"

text \<open>Reading \<open>n\<close> times in a row, as a client loop does.\<close>

primrec read_n :: "('r \<Rightarrow> ('a option \<times> 'r) result) \<Rightarrow> nat \<Rightarrow> 'r \<Rightarrow> ('a list \<times> 'r) result" where
  "read_n get 0 r = Inr ([], r)"
| "read_n get (Suc n) r =
     rbind (get r) (\<lambda>(x, r').
     case x of None \<Rightarrow> Inr ([], r')
     | Some row \<Rightarrow> rbind (read_n get n r') (\<lambda>(rows, r''). Inr (row # rows, r'')))"

context index_reader
begin

lemma drain:
  assumes "r_inv r"
  shows "\<exists>r'. read_n GetNextWithPeerCnt n r = Inr (take n (remaining r), r') \<and> r_inv r' \<and>
              remaining r' = drop n (remaining r)"
  using assms
proof (induction n arbitrary: r)
  case (Suc n)
  show ?case
  proof (cases "remaining r")
    case Nil
    with get_next_empty [OF Suc.prems] show ?thesis by auto
  next
    case (Cons row rows)
    then obtain r1 where "GetNextWithPeerCnt r = Inr (Some row, r1)" "r_inv r1" "remaining r1 = rows"
      using get_next_row [OF Suc.prems] by blast
    with Suc.IH [of r1] Cons show ?thesis by auto
  qed
qed auto

end

definition FileIndexReader_inv :: "FileIndexReader \<Rightarrow> bool" where
  "FileIndexReader_inv r \<longleftrightarrow> stream_ok (fr_reader r)"

definition FileIndexReader_remaining :: "FileIndexReader \<Rightarrow> index_row list" where
  "FileIndexReader_remaining r =
     (case fr_batch r of None \<Rightarrow> [] | Some b \<Rightarrow> drop (fr_idx_in_batch r) b) @
     stream_rows (fr_reader r)"

definition MemoryIndexReader_remaining :: "MemoryIndexReader \<Rightarrow> index_row list" where
  "MemoryIndexReader_remaining r = drop (mr_read_cnt r) (mr_items r)"

lemma FileIndexReader_HasNext_spec:
  assumes "FileIndexReader_inv r"
  shows "\<exists>r'. FileIndexReader_HasNext r = Inr (FileIndexReader_remaining r \<noteq> [], r') \<and>
     FileIndexReader_inv r' \<and> FileIndexReader_remaining r' = FileIndexReader_remaining r \<and>
     (FileIndexReader_remaining r \<noteq> [] \<longrightarrow>
        (\<exists>b. fr_batch r' = Some b \<and> fr_idx_in_batch r' < length b))"
proof (cases "case fr_batch r of None \<Rightarrow> True | Some b \<Rightarrow> length b \<le> fr_idx_in_batch r")
  case True
  then have rem: "(case fr_batch r of None \<Rightarrow> [] | Some b \<Rightarrow> drop (fr_idx_in_batch r) b) = []"
    by (auto split: option.splits)
  have "stream_ok (fr_reader r)" using assms by (simp add: FileIndexReader_inv_def)
  then show ?thesis
    by (cases rule: stream_okE)
      (use True in \<open>auto simp: rem FileIndexReader_HasNext_def FileIndexReader_inv_def
          FileIndexReader_remaining_def\<close>)
next
  case False
  then obtain b where "fr_batch r = Some b" "fr_idx_in_batch r < length b"
    by (auto split: option.splits)
  then show ?thesis
    using assms by (auto simp: FileIndexReader_HasNext_def FileIndexReader_remaining_def)
qed

interpretation file_reader: index_reader FileIndexReader_HasNext FileIndexReader_GetNext
  FileIndexReader_GetNextWithPeerCnt FileIndexReader_inv FileIndexReader_remaining
proof (standard, goal_cases)
  case (1 r)
  with FileIndexReader_HasNext_spec show ?case by blast
next
  case (2 r)
  with FileIndexReader_HasNext_spec [of r] show ?case
    by (auto simp: FileIndexReader_GetNextWithPeerCnt_def FileIndexReader_GetNext_def)
next
  case (3 r row rows)
  then obtain r' b where "FileIndexReader_HasNext r = Inr (True, r')" "FileIndexReader_inv r'"
    "FileIndexReader_remaining r' = row # rows"
    and b: "fr_batch r' = Some b" "fr_idx_in_batch r' < length b"
    using FileIndexReader_HasNext_spec [of r] by auto
  moreover from this have "b ! fr_idx_in_batch r' = row"
    "drop (Suc (fr_idx_in_batch r')) b @ stream_rows (fr_reader r') = rows"
    by (simp_all add: FileIndexReader_remaining_def Cons_nth_drop_Suc [OF b(2), symmetric])
  ultimately show ?case
    by (simp add: FileIndexReader_GetNextWithPeerCnt_def FileIndexReader_GetNext_def
        FileIndexReader_inv_def FileIndexReader_remaining_def)
qed

interpretation memory_reader: index_reader MemoryIndexReader_HasNext MemoryIndexReader_GetNext
  MemoryIndexReader_GetNextWithPeerCnt "\<lambda>_. True" MemoryIndexReader_remaining
  by unfold_locales
    (auto simp: MemoryIndexReader_remaining_def MemoryIndexReader_HasNext_def
      MemoryIndexReader_GetNextWithPeerCnt_def MemoryIndexReader_GetNext_def not_less
      dest: drop_eq_ConsD)

section \<open>Writing and reading back\<close>

lemma WriteCache2_rows:
  assumes "\<not> iw_closed w" "length cnts = length idxs"
  shows "IndexWriter_WriteCache2 idxs cnts w =
    Inr (w \<lparr> iw_cache := iw_cache w @ zip idxs cnts, iw_cache_cnt := iw_cache_cnt w + length idxs,
             iw_write_cnt := iw_write_cnt w + length idxs \<rparr>)"
proof -
  have "rfold (\<lambda>i w. rbind (at idxs i) (\<lambda>x. rbind (at cnts i) (\<lambda>c. IndexWriter_WriteCache1 x c w)))
      [0..<n] w =
    Inr (w \<lparr> iw_cache := iw_cache w @ take n (zip idxs cnts), iw_cache_cnt := iw_cache_cnt w + n,
             iw_write_cnt := iw_write_cnt w + n \<rparr>)" if "n \<le> length idxs" for n
    using that
    by (induction n) (use assms in \<open>simp_all add: IndexWriter_WriteCache1_def take_Suc_conv_app_nth\<close>)
  from this [of "length idxs"] show ?thesis
    using assms by (simp add: IndexWriter_WriteCache2_def)
qed

lemma IndexWriter_Close_file:
  assumes "\<not> iw_closed w" "iw_cache_cnt w = length (iw_cache w)"
  shows "IndexWriter_Close w = Inr (w \<lparr> iw_file := iw_file w @ iw_cache w, iw_cache := [],
           iw_cache_cnt := 0, iw_closed := True \<rparr>)"
  using assms by (simp add: IndexWriter_Close_def IndexWriter_Commit_def)

text \<open>
  C38. Everything written to an \<open>IndexWriter\<close> and closed is read back by a
  \<open>FileIndexReader\<close> in the same order, however the file is cut into record batches, and
  after the last row the reader reports the end.
\<close>

theorem IndexWriter_Reader_roundtrip:
  assumes "length cnts = length idxs"
    and "rbind (IndexWriter_WriteCache2 idxs cnts (IndexWriter_new None sz trunc)) IndexWriter_Close = Inr w"
    and "stream_ok batches" "stream_rows batches = iw_file w"
  shows "\<exists>r0 r1 r2. FileIndexReader_new (Some batches) = Inr r0 \<and>
           read_n FileIndexReader_GetNextWithPeerCnt (length idxs) r0 = Inr (zip idxs cnts, r1) \<and>
           FileIndexReader_GetNextWithPeerCnt r1 = Inr (None, r2)"
proof -
  have w: "iw_file w = zip idxs cnts"
    using assms(1,2)
    by (auto simp: WriteCache2_rows IndexWriter_new_def IndexWriter_Close_file split: if_splits)
  define r0 where "r0 = \<lparr> fr_reader = batches, fr_batch = None, fr_idx_in_batch = 0, fr_read_cnt = 0 \<rparr>"
  have "FileIndexReader_inv r0" "FileIndexReader_remaining r0 = zip idxs cnts"
    using assms(3,4) w by (simp_all add: r0_def FileIndexReader_inv_def FileIndexReader_remaining_def)
  with file_reader.drain [of r0 "length idxs"] obtain r1 where
    "read_n FileIndexReader_GetNextWithPeerCnt (length idxs) r0 = Inr (zip idxs cnts, r1)"
    "FileIndexReader_inv r1" "FileIndexReader_remaining r1 = []"
    by auto
  with file_reader.get_next_empty [of r1] show ?thesis
    by (auto simp: FileIndexReader_new_def r0_def)
qed

theorem IndexWriter_Reader_roundtrip_witness:
  "\<exists>r0 r1 r2. FileIndexReader_new (Some [Inr [(3, 0)], Inr [(5, 1)]]) = Inr r0 \<and>
     read_n FileIndexReader_GetNextWithPeerCnt 2 r0 = Inr ([(3, 0), (5, 1)], r1) \<and>
     FileIndexReader_GetNextWithPeerCnt r1 = Inr (None, r2)"
proof -
  have "rbind (IndexWriter_WriteCache2 [3, 5] [0, 1] (IndexWriter_new None 1024 False)) IndexWriter_Close =
     Inr \<lparr> iw_cache = [], iw_cache_cnt = 0, iw_write_cnt = 2, iw_cache_size = 1024,
           iw_file = [(3, 0), (5, 1)], iw_closed = True \<rparr>"
    by (simp add: WriteCache2_rows IndexWriter_new_def IndexWriter_Close_file)
  from IndexWriter_Reader_roundtrip [OF _ this, of "[Inr [(3, 0)], Inr [(5, 1)]]"] show ?thesis
    by (simp add: numeral_2_eq_2)
qed

text \<open>A \<open>MemoryIndexReader\<close> hands out its items in ascending order of the index, as a
  permutation of what it was given.
\<close>

theorem MemoryIndexReader_sorted:
  assumes "MemoryIndexReader_new index cnts = Inr r"
  shows "\<exists>rows r'. read_n MemoryIndexReader_GetNextWithPeerCnt (length index) r = Inr (rows, r') \<and>
           sorted (map fst rows) \<and> mset rows = mset (zip index cnts) \<and>
           MemoryIndexReader_HasNext r' = Inr (False, r')"
proof -
  have r: "r = \<lparr> mr_items = sort_key fst (zip index cnts), mr_read_cnt = 0 \<rparr>"
    and len: "length index = length cnts"
    using assms by (auto simp: MemoryIndexReader_new_def rbind_eq_Inr_iff)
  from memory_reader.drain [where r = r and n = "length index"] obtain r' where
    "read_n MemoryIndexReader_GetNextWithPeerCnt (length index) r =
       Inr (sort_key fst (zip index cnts), r')" "MemoryIndexReader_remaining r' = []"
    using len by (auto simp: MemoryIndexReader_remaining_def r)
  moreover from this have "MemoryIndexReader_HasNext r' = Inr (False, r')"
    by (simp add: MemoryIndexReader_HasNext_def MemoryIndexReader_remaining_def)
  ultimately show ?thesis by simp
qed

theorem MemoryIndexReader_sorted_witness:
  "\<exists>r rows r'. MemoryIndexReader_new [4, 1] [0, 7] = Inr r \<and>
     read_n MemoryIndexReader_GetNextWithPeerCnt 2 r = Inr (rows, r') \<and> sorted (map fst rows) \<and>
     mset rows = {#(1, 7), (4, 0)#}"
  using MemoryIndexReader_sorted [of "[4, 1]" "[0, 7]"]
  by (fastforce simp: MemoryIndexReader_new_def numeral_2_eq_2 add_mset_commute)

end
