(* ===== verification/Batch_Provider.thy ===== *)
theory Batch_Provider
  imports Index_Store
begin

text \<open>
  The providers that cut a CSV file into batches of join keys: \<open>KeysJoin\<close> of
  \<open>psi/utils/key.cc\<close>, \<open>ArrowCsvBatchProvider\<close> of \<open>arrow_csv_batch_provider.cc\<close>, and
  the two implementations of \<open>KeysInfoProvider\<close> in \<open>table_utils.cc\<close>.

  A row of a CSV file is the list of its selected columns. The prefetch by \<open>std::async\<close> is
  the field \<open>acp_future\<close>: the outcome of the read that was started one call earlier.
\<close>

section \<open>Joining key columns\<close>

fun KeysJoin :: "char \<Rightarrow> string list \<Rightarrow> string" where
  "KeysJoin sep [] = []"
| "KeysJoin sep [k] = k"
| "KeysJoin sep (k # ks) = k @ sep # KeysJoin sep ks"

lemma KeysJoin_Cons: "ks \<noteq> [] \<Longrightarrow> KeysJoin sep (k # ks) = k @ sep # KeysJoin sep ks"
  by (cases ks) auto

lemma append_sep_cancel:
  assumes "sep \<notin> set a" "sep \<notin> set b" "a @ sep # xs = b @ sep # ys"
  shows "a = b \<and> xs = ys"
  using assms by (induction a arbitrary: b) (auto simp: Cons_eq_append_conv)

text \<open>
  The joined key identifies the key columns: for the same number of columns, none of
  which contains the separator, equal joined keys come from equal columns.
\<close>

theorem KeysJoin_inj:
  assumes "length ks = length ks'" "\<forall>k \<in> set ks \<union> set ks'. sep \<notin> set k"
    and "KeysJoin sep ks = KeysJoin sep ks'"
  shows "ks = ks'"
  using assms
proof (induction ks ks' rule: list_induct2)
  case (Cons k ks k' ks')
  show ?case
  proof (cases "ks = []")
    case True
    then show ?thesis using Cons.prems Cons.hyps by simp
  next
    case False
    with Cons.hyps have "ks' \<noteq> []" by auto
    with False Cons.prems append_sep_cancel [of sep k k'] Cons.IH show ?thesis
      by (auto simp: KeysJoin_Cons)
  qed
qed simp

theorem KeysJoin_inj_witness:
  "[''a'', ''b''] = [''a'', ''b''] \<and> KeysJoin (CHR '','') [''a'', ''b''] = ''a,b''"
  using KeysJoin_inj [of "[''a'', ''b'']" "[''a'', ''b'']" "CHR '',''"] by simp

text \<open>
  Without that hypothesis the joined key is ambiguous: two different rows of two quoted
  columns, one of which contains a comma, get the same join key, so PSI reports a match.
\<close>

theorem KeysJoin_ambiguous:
  "\<exists>ks ks'. length ks = length ks' \<and> ks \<noteq> ks' \<and> KeysJoin (CHR '','') ks = KeysJoin (CHR '','') ks'"
  by (rule exI [of _ "[''a,b'', ''c'']"], rule exI [of _ "[''a'', ''b,c'']"]) simp

section \<open>Filling a batch from a stream of record batches\<close>

text \<open>
  The loop both providers share: refill the current record batch when it is used up, copy as many
  rows as fit, until the batch is full or the stream ends. The result holds the rows read, the
  current record batch with its position, the rest of the stream, and whether the end was reached.
\<close>

definition batch_copy :: "nat \<Rightarrow> 'a list \<Rightarrow> 'a list \<Rightarrow> nat \<Rightarrow> 'a list \<times> nat" where
  "batch_copy batch_size acc b idx =
     (let read_cnt = min (batch_size - length acc) (length b - idx)
      in (acc @ take read_cnt (drop idx b), idx + read_cnt))"

function batch_fill ::
  "nat \<Rightarrow> 'a list \<Rightarrow> 'a list option \<Rightarrow> nat \<Rightarrow> 'a stream
     \<Rightarrow> ('a list \<times> 'a list option \<times> nat \<times> 'a stream \<times> bool) result" where
  "batch_fill batch_size acc batch idx s =
     (if \<not> length acc < batch_size then Inr (acc, batch, idx, s, False)
      else if (case batch of None \<Rightarrow> True | Some b \<Rightarrow> length b \<le> idx) then
        (case s of
           [] \<Rightarrow> Inr (acc, None, idx, [], True)
         | r # s' \<Rightarrow> (case r of Inl e \<Rightarrow> Inl e
             | Inr b \<Rightarrow> (case batch_copy batch_size acc b 0 of
                 (acc', idx') \<Rightarrow> batch_fill batch_size acc' (Some b) idx' s')))
      else (case batch_copy batch_size acc (the batch) idx of
              (acc', idx') \<Rightarrow> batch_fill batch_size acc' batch idx' s))"
  by pat_completeness auto
termination
  by (relation "measures [\<lambda>(n, acc, b, i, s). length s, \<lambda>(n, acc, b, i, s). n - length acc]")
    (auto simp: batch_copy_def Let_def split: option.splits)

declare batch_fill.simps [simp del]

definition pending :: "'a list option \<Rightarrow> nat \<Rightarrow> 'a stream \<Rightarrow> 'a list" where
  "pending batch idx s = (case batch of None \<Rightarrow> [] | Some b \<Rightarrow> drop idx b) @ stream_rows s"

text \<open>What a fill of \<open>n\<close> rows, of which \<open>acc\<close> are there, has to give.\<close>

definition filled ::
  "nat \<Rightarrow> 'a list \<Rightarrow> 'a list \<Rightarrow> ('a list \<times> 'a list option \<times> nat \<times> 'a stream \<times> bool) result \<Rightarrow> bool"
where
  "filled n acc rows res \<longleftrightarrow>
     (\<exists>batch' idx' s' eof. res = Inr (acc @ take (n - length acc) rows, batch', idx', s', eof) \<and>
        (\<forall>b \<in> set s'. \<not> isl b) \<and> pending batch' idx' s' = drop (n - length acc) rows \<and>
        (eof \<longrightarrow> pending batch' idx' s' = []))"

lemma filled_copy:
  assumes "batch_copy n acc b idx = (acc', idx')" "idx \<le> length b"
  shows "filled n acc' (drop idx' b @ rows) res \<longleftrightarrow> filled n acc (drop idx b @ rows) res"
proof -
  define k m xs where "k = min (n - length acc) (length b - idx)" and "m = n - length acc"
    and "xs = drop idx b @ rows"
  have k: "k \<le> m" by (simp add: k_def m_def)
  have eqs: "acc' = acc @ take k xs" "drop idx' b @ rows = drop k xs"
    "n - length (acc @ take k xs) = m - k"
    using assms by (auto simp: batch_copy_def Let_def k_def m_def xs_def add.commute)
  show ?thesis
    unfolding filled_def eqs append_assoc take_drop_split [OF k]
    unfolding m_def [symmetric] xs_def [symmetric] ..
qed

lemma batch_fill_filled:
  assumes "\<forall>b \<in> set s. \<not> isl b" "length acc \<le> n"
  shows "filled n acc (pending batch idx s) (batch_fill n acc batch idx s)"
  using assms
proof (induction n acc batch idx s rule: batch_fill.induct)
  case (1 n acc batch idx s)
  have len: "length acc' \<le> n" if "batch_copy n acc b i = (acc', idx')" for acc' b i idx'
    using that 1(4) by (auto simp: batch_copy_def Let_def)
  consider (full) "length acc = n"
    | (refill) "length acc < n" "case batch of None \<Rightarrow> True | Some b \<Rightarrow> length b \<le> idx"
    | (keep) b where "length acc < n" "batch = Some b" "idx < length b"
    using 1(4) by (cases batch) force+
  then show ?case
  proof cases
    case full
    then show ?thesis using 1(3) by (subst batch_fill.simps) (auto simp: filled_def)
  next
    case refill
    then have p: "pending batch idx s = stream_rows s"
      by (auto simp: pending_def split: option.splits)
    show ?thesis
    proof (cases s)
      case Nil
      then show ?thesis
        using refill p by (subst batch_fill.simps) (auto simp: pending_def filled_def)
    next
      case (Cons r s')
      then obtain b where r: "r = Inr b" using 1(3) by (cases r) auto
      obtain acc' idx' where cp: "batch_copy n acc b 0 = (acc', idx')" by fastforce
      have "filled n acc' (pending (Some b) idx' s') (batch_fill n acc' (Some b) idx' s')"
        using 1(3) Cons refill by (intro 1(1) [OF _ _ Cons r cp [symmetric]]) (auto simp: len [OF cp])
      then have "filled n acc (pending batch idx s) (batch_fill n acc' (Some b) idx' s')"
        unfolding p using filled_copy [OF cp, of "stream_rows s'"]
        by (simp add: Cons r pending_def)
      then show ?thesis
        by (subst batch_fill.simps) (simp add: refill Cons r cp)
    qed
  next
    case keep
    obtain acc' idx' where cp: "batch_copy n acc b idx = (acc', idx')" by fastforce
    have "filled n acc' (pending batch idx' s) (batch_fill n acc' batch idx' s)"
      using 1(3) keep cp by (intro 1(2)) (auto simp: len [OF cp])
    then have "filled n acc (pending batch idx s) (batch_fill n acc' batch idx' s)"
      using filled_copy [OF cp, of "stream_rows s"] keep by (simp add: pending_def)
    then show ?thesis
      using keep by (subst batch_fill.simps) (simp add: cp)
  qed
qed

section \<open>The CSV batch provider\<close>

type_synonym row = "string list"

record ArrowCsvBatchProvider =
  acp_batch_size :: nat
  acp_keys :: nat
  acp_labels :: nat
  acp_delimiter :: char
  acp_reader :: "row stream"
  acp_reach_eof :: bool
  acp_batch :: "row list option"
  acp_idx :: nat
  acp_row_cnt :: nat
  acp_future :: "(string list \<times> string list) result"

text \<open>
  \<open>acp_keys\<close> and \<open>acp_labels\<close> are the numbers of key and label columns; a row holds the key
  columns first. A row with fewer columns than keys is an access out of bounds.
\<close>

definition row_key :: "ArrowCsvBatchProvider \<Rightarrow> row \<Rightarrow> string" where
  "row_key p row = KeysJoin (acp_delimiter p) (take (acp_keys p) row)"

definition row_labels :: "ArrowCsvBatchProvider \<Rightarrow> row \<Rightarrow> string list" where
  "row_labels p row =
     (if acp_labels p = 0 then [] else [KeysJoin (acp_delimiter p) (drop (acp_keys p) row)])"

definition ArrowCsv_ReadBatch ::
  "ArrowCsvBatchProvider \<Rightarrow> (string list \<times> string list) result \<times> ArrowCsvBatchProvider" where
  "ArrowCsv_ReadBatch p =
     (if acp_reach_eof p then (Inr ([], []), p)
      else case batch_fill (acp_batch_size p) [] (acp_batch p) (acp_idx p) (acp_reader p) of
             Inl e \<Rightarrow> (Inl e, p)
           | Inr (rows, batch, idx, s, eof) \<Rightarrow>
               (if \<exists>row \<in> set rows. length row < acp_keys p then Inl (Undefined ''column'')
                else Inr (map (row_key p) rows, concat (map (row_labels p) rows)),
                p \<lparr> acp_batch := batch, acp_idx := idx, acp_reader := s, acp_reach_eof := eof,
                    acp_row_cnt := acp_row_cnt p + length rows \<rparr>))"

definition ArrowCsv_ReadAsync :: "ArrowCsvBatchProvider \<Rightarrow> ArrowCsvBatchProvider" where
  "ArrowCsv_ReadAsync p = (let (r, p') = ArrowCsv_ReadBatch p in p' \<lparr> acp_future := r \<rparr>)"

definition ArrowCsv_GetBuffer ::
  "ArrowCsvBatchProvider \<Rightarrow> ((string list \<times> string list) \<times> ArrowCsvBatchProvider) result" where
  "ArrowCsv_GetBuffer p = rbind (acp_future p) (\<lambda>ret. Inr (ret, ArrowCsv_ReadAsync p))"

definition ArrowCsv_ReadNextBatch ::
  "ArrowCsvBatchProvider \<Rightarrow> (string list \<times> ArrowCsvBatchProvider) result" where
  "ArrowCsv_ReadNextBatch p = rbind (ArrowCsv_GetBuffer p) (\<lambda>(buffer, p'). Inr (fst buffer, p'))"

definition ArrowCsv_ReadNextLabeledBatch ::
  "ArrowCsvBatchProvider \<Rightarrow> ((string list \<times> string list) \<times> ArrowCsvBatchProvider) result" where
  "ArrowCsv_ReadNextLabeledBatch p = ArrowCsv_GetBuffer p"

definition ArrowCsv_Init ::
  "row stream option \<Rightarrow> nat \<Rightarrow> nat \<Rightarrow> nat \<Rightarrow> char \<Rightarrow> ArrowCsvBatchProvider result" where
  "ArrowCsv_Init file keys labels batch_size delimiter =
     (case file of
        None \<Rightarrow> Inl (Enforce ''Input file does not exist'')
      | Some s \<Rightarrow>
          rbind (enforce (keys \<noteq> 0) ''You must provide keys'') (\<lambda>_.
          Inr (ArrowCsv_ReadAsync
            \<lparr> acp_batch_size = batch_size, acp_keys = keys, acp_labels = labels,
              acp_delimiter = delimiter, acp_reader = s, acp_reach_eof = False, acp_batch = None,
              acp_idx = 0, acp_row_cnt = 0, acp_future = Inl (Enforce ''buffer is not valid'') \<rparr>)))"

text \<open>The rows not yet handed out, apart from the prefetched ones, and the keys still to come.\<close>

definition acp_rest :: "ArrowCsvBatchProvider \<Rightarrow> row list" where
  "acp_rest p = (if acp_reach_eof p then [] else pending (acp_batch p) (acp_idx p) (acp_reader p))"

definition ArrowCsv_inv :: "ArrowCsvBatchProvider \<Rightarrow> bool" where
  "ArrowCsv_inv p \<longleftrightarrow> 0 < acp_batch_size p \<and> (\<forall>b \<in> set (acp_reader p). \<not> isl b) \<and>
     (\<forall>row \<in> set (acp_rest p). acp_keys p \<le> length row) \<and> \<not> isl (acp_future p) \<and>
     (fst (projr (acp_future p)) = [] \<longrightarrow> acp_rest p = []) \<and>
     length (fst (projr (acp_future p))) \<le> acp_batch_size p"

definition ArrowCsv_remaining :: "ArrowCsvBatchProvider \<Rightarrow> string list" where
  "ArrowCsv_remaining p = fst (projr (acp_future p)) @ map (row_key p) (acp_rest p)"

lemma row_key_cong: "acp_delimiter p = acp_delimiter q \<Longrightarrow> acp_keys p = acp_keys q \<Longrightarrow> row_key p = row_key q"
  by (simp add: row_key_def fun_eq_iff)

lemma ReadAsync_spec:
  assumes "0 < acp_batch_size p" "\<forall>b \<in> set (acp_reader p). \<not> isl b"
    and "\<forall>row \<in> set (acp_rest p). acp_keys p \<le> length row"
  shows "ArrowCsv_inv (ArrowCsv_ReadAsync p) \<and>
         ArrowCsv_remaining (ArrowCsv_ReadAsync p) = map (row_key p) (acp_rest p) \<and>
         acp_batch_size (ArrowCsv_ReadAsync p) = acp_batch_size p \<and>
         fst (projr (acp_future (ArrowCsv_ReadAsync p))) =
           take (acp_batch_size p) (map (row_key p) (acp_rest p))"
proof (cases "acp_reach_eof p")
  case True
  then show ?thesis
    using assms by (simp add: ArrowCsv_ReadAsync_def ArrowCsv_ReadBatch_def ArrowCsv_inv_def
        ArrowCsv_remaining_def acp_rest_def)
next
  case False
  let ?n = "acp_batch_size p" and ?rest = "pending (acp_batch p) (acp_idx p) (acp_reader p)"
  have rest: "acp_rest p = ?rest" using False by (simp add: acp_rest_def)
  obtain b i s eof where fill:
    "batch_fill ?n [] (acp_batch p) (acp_idx p) (acp_reader p) = Inr (take ?n ?rest, b, i, s, eof)"
    "\<forall>b \<in> set s. \<not> isl b" "pending b i s = drop ?n ?rest" "eof \<longrightarrow> drop ?n ?rest = []"
    using batch_fill_filled [of "acp_reader p" "[]" ?n "acp_batch p" "acp_idx p"] assms(2)
    by (auto simp: filled_def)
  define q where "q = p \<lparr> acp_batch := b, acp_idx := i, acp_reader := s, acp_reach_eof := eof,
                    acp_row_cnt := acp_row_cnt p + length (take ?n ?rest) \<rparr>"
  have cols: "\<not> (\<exists>row \<in> set (take ?n ?rest). length row < acp_keys p)"
    using assms(3) rest by (auto dest: in_set_takeD simp: not_less)
  have rd: "ArrowCsv_ReadAsync p = q \<lparr> acp_future :=
      Inr (map (row_key p) (take ?n ?rest), concat (map (row_labels p) (take ?n ?rest))) \<rparr>"
    by (simp add: ArrowCsv_ReadAsync_def ArrowCsv_ReadBatch_def False fill(1) cols q_def)
  have qr: "acp_rest (ArrowCsv_ReadAsync p) = drop ?n ?rest" and rk: "row_key (ArrowCsv_ReadAsync p) = row_key p"
    using fill(3,4) by (auto simp: rd q_def acp_rest_def intro: row_key_cong)
  have "take ?n ?rest = [] \<longrightarrow> drop ?n ?rest = []" using assms(1) by auto
  then show ?thesis
    using assms fill(2) unfolding ArrowCsv_inv_def ArrowCsv_remaining_def qr rk
    by (auto simp: rd q_def rest take_map dest: in_set_dropD simp flip: map_append)
qed

lemma ReadNextBatch_spec:
  assumes "ArrowCsv_inv p"
  shows "\<exists>n p'. ArrowCsv_ReadNextBatch p = Inr (take n (ArrowCsv_remaining p), p') \<and>
     ArrowCsv_inv p' \<and> ArrowCsv_remaining p' = drop n (ArrowCsv_remaining p) \<and>
     n \<le> acp_batch_size p \<and> acp_batch_size p' = acp_batch_size p \<and>
     (ArrowCsv_remaining p \<noteq> [] \<longrightarrow> 0 < n)"
proof -
  obtain ks ls where fut: "acp_future p = Inr (ks, ls)"
    using assms by (cases "acp_future p") (auto simp: ArrowCsv_inv_def)
  let ?p' = "ArrowCsv_ReadAsync p"
  have "ArrowCsv_inv ?p'" "ArrowCsv_remaining ?p' = map (row_key p) (acp_rest p)"
    "acp_batch_size ?p' = acp_batch_size p"
    using ReadAsync_spec [of p] assms by (auto simp: ArrowCsv_inv_def)
  then show ?thesis
    using assms by (intro exI [of _ "length ks"] exI [of _ ?p'])
      (auto simp: ArrowCsv_ReadNextBatch_def ArrowCsv_GetBuffer_def fut ArrowCsv_remaining_def
        ArrowCsv_inv_def)
qed

lemma ArrowCsv_Init_spec:
  assumes "0 < bs" "0 < keys" "\<forall>b \<in> set s. \<not> isl b" "\<forall>row \<in> set (stream_rows s). keys \<le> length row"
  shows "\<exists>p. ArrowCsv_Init (Some s) keys labels bs delim = Inr p \<and> ArrowCsv_inv p \<and>
     ArrowCsv_remaining p = map (\<lambda>row. KeysJoin delim (take keys row)) (stream_rows s)"
proof -
  let ?p = "\<lparr> acp_batch_size = bs, acp_keys = keys, acp_labels = labels, acp_delimiter = delim, acp_reader = s,
     acp_reach_eof = False, acp_batch = None, acp_idx = 0, acp_row_cnt = 0, acp_future = Inl (Enforce ''buffer is not valid'') \<rparr>"
  have "acp_rest ?p = stream_rows s" by (simp add: acp_rest_def pending_def)
  with ReadAsync_spec [of ?p] assms show ?thesis
    by (simp add: ArrowCsv_Init_def row_key_def [abs_def])
qed

end
