(* ===== verification/Key_Info.thy ===== *)
theory Key_Info
  imports Batch_Provider "HOL-Library.List_Lexorder" "HOL-Library.Char_ord"
begin

text \<open>
  \<open>psi/utils/table_utils.cc\<close>, first half: \<open>KeyInfo::Make\<close>, which turns the key column of
  a table into the rows (key, start index, duplicate count), and the two \<open>KeysInfoProvider\<close>s
  which read such rows back in batches.

  Row numbers and counters are \<open>uint32_t\<close> as in the source, reduced modulo $2^{32}$ after every addition;
  the results are about tables of fewer than $2^{32}$ rows. SHA-256 is a function parameter. The write through
  \<open>std::async\<close> is joined before the next one starts, so the rows are written in order.
\<close>

section \<open>Providers of key information\<close>

type_synonym key_row = "string \<times> nat \<times> nat"

record BatchInfo =
  bi_keys :: "string list"
  bi_start_indexes :: "nat list"
  bi_dup_cnts :: "nat list"

definition batch_info :: "key_row list \<Rightarrow> BatchInfo" where
  "batch_info rows = \<lparr> bi_keys = map fst rows, bi_start_indexes = map (fst \<circ> snd) rows,
                       bi_dup_cnts = map (snd \<circ> snd) rows \<rparr>"

text \<open>The columns of the file are 64-bit integers; a batch holds them as \<open>uint32_t\<close>.\<close>

definition u32_row :: "key_row \<Rightarrow> key_row" where
  "u32_row = (\<lambda>(key, start, dup). (key, u32 start, u32 dup))"

record SortedTableKeysInfoProvider =
  sp_batch_size :: nat
  sp_batch :: "key_row list option"
  sp_batch_index :: nat
  sp_reader :: "key_row stream"

definition Sorted_ReadBatchWithInfo ::
  "SortedTableKeysInfoProvider \<Rightarrow> (BatchInfo \<times> SortedTableKeysInfoProvider) result" where
  "Sorted_ReadBatchWithInfo p =
     rbind (batch_fill (sp_batch_size p) [] (sp_batch p) (sp_batch_index p) (sp_reader p))
       (\<lambda>(rows, batch, idx, s, eof).
          Inr (batch_info (map u32_row rows),
               p \<lparr> sp_batch := batch, sp_batch_index := idx, sp_reader := s \<rparr>))"

text \<open>The duplicate counts as the map from the position in the batch, without zero entries.\<close>

definition dup_cnt_map :: "nat list \<Rightarrow> nat \<Rightarrow> nat option" where
  "dup_cnt_map dup_cnt i =
     (if i < length dup_cnt \<and> dup_cnt ! i \<noteq> 0 then Some (dup_cnt ! i) else None)"

definition Sorted_ReadNextBatchWithDupCnt ::
  "SortedTableKeysInfoProvider
     \<Rightarrow> ((string list \<times> (nat \<Rightarrow> nat option)) \<times> SortedTableKeysInfoProvider) result" where
  "Sorted_ReadNextBatchWithDupCnt p =
     rbind (Sorted_ReadBatchWithInfo p) (\<lambda>(info, p').
     Inr ((bi_keys info, dup_cnt_map (bi_dup_cnts info)), p'))"

record UniqueTableKeysInfoProvider =
  up_provider :: ArrowCsvBatchProvider
  up_read_index :: nat

definition Unique_ReadBatchWithInfo ::
  "UniqueTableKeysInfoProvider \<Rightarrow> (BatchInfo \<times> UniqueTableKeysInfoProvider) result" where
  "Unique_ReadBatchWithInfo p =
     rbind (ArrowCsv_ReadNextBatch (up_provider p)) (\<lambda>(keys, q).
     Inr (\<lparr> bi_keys = keys,
            bi_start_indexes = map u32 [up_read_index p..<up_read_index p + length keys],
            bi_dup_cnts = replicate (length keys) 0 \<rparr>,
          \<lparr> up_provider = q, up_read_index = u32 (up_read_index p + length keys) \<rparr>))"

definition Unique_ReadNextBatchWithDupCnt ::
  "UniqueTableKeysInfoProvider
     \<Rightarrow> ((string list \<times> (nat \<Rightarrow> nat option)) \<times> UniqueTableKeysInfoProvider) result" where
  "Unique_ReadNextBatchWithDupCnt p =
     rbind (ArrowCsv_ReadNextBatch (up_provider p)) (\<lambda>(items, q).
     Inr ((items, \<lambda>_. None), p \<lparr> up_provider := q \<rparr>))"

text \<open>The contract of \<open>KeysInfoProvider::ReadBatchWithInfo\<close>.\<close>

locale keys_info_provider =
  fixes ReadBatchWithInfo :: "'p \<Rightarrow> (BatchInfo \<times> 'p) result"
    and p_inv :: "'p \<Rightarrow> bool"
    and p_remaining :: "'p \<Rightarrow> key_row list"
  assumes read_batch: "p_inv p \<Longrightarrow>
    \<exists>n p'. ReadBatchWithInfo p = Inr (batch_info (take n (p_remaining p)), p') \<and> p_inv p' \<and>
           p_remaining p' = drop n (p_remaining p) \<and> (p_remaining p \<noteq> [] \<longrightarrow> 0 < n)"

definition Sorted_inv :: "SortedTableKeysInfoProvider \<Rightarrow> bool" where
  "Sorted_inv p \<longleftrightarrow> 0 < sp_batch_size p \<and> (\<forall>b \<in> set (sp_reader p). \<not> isl b)"

definition Sorted_remaining :: "SortedTableKeysInfoProvider \<Rightarrow> key_row list" where
  "Sorted_remaining p = map u32_row (pending (sp_batch p) (sp_batch_index p) (sp_reader p))"

lemma Sorted_remaining_u32: "row \<in> set (Sorted_remaining p) \<Longrightarrow> snd (snd row) < 2 ^ 32"
  using u32_less by (auto simp: Sorted_remaining_def u32_row_def)

definition Unique_remaining :: "UniqueTableKeysInfoProvider \<Rightarrow> key_row list" where
  "Unique_remaining p =
     (let keys = ArrowCsv_remaining (up_provider p)
      in zip keys (zip (map u32 [up_read_index p..<up_read_index p + length keys]) (replicate (length keys) 0)))"

lemma u32_upt: "map u32 [u32 m..<u32 m + n] = map u32 [m..<m + n]"
proof -
  have "map u32 [k..<k + n] = map (\<lambda>i. u32 (k + i)) [0..<n]" for k
    by (induction n) simp_all
  then show ?thesis by simp
qed

interpretation sorted_provider: keys_info_provider Sorted_ReadBatchWithInfo Sorted_inv Sorted_remaining
proof
  fix p assume inv: "Sorted_inv p"
  with batch_fill_filled [of "sp_reader p" "[]" "sp_batch_size p" "sp_batch p" "sp_batch_index p"]
  obtain b i s eof where fill: "batch_fill (sp_batch_size p) [] (sp_batch p) (sp_batch_index p) (sp_reader p) =
      Inr (take (sp_batch_size p) (pending (sp_batch p) (sp_batch_index p) (sp_reader p)), b, i, s, eof)"
    "\<forall>b \<in> set s. \<not> isl b" "pending b i s = drop (sp_batch_size p) (pending (sp_batch p) (sp_batch_index p) (sp_reader p))"
    by (auto simp: Sorted_inv_def filled_def)
  then show "\<exists>n p'. Sorted_ReadBatchWithInfo p = Inr (batch_info (take n (Sorted_remaining p)), p') \<and>
      Sorted_inv p' \<and> Sorted_remaining p' = drop n (Sorted_remaining p) \<and>
      (Sorted_remaining p \<noteq> [] \<longrightarrow> 0 < n)"
    using inv by (intro exI [of _ "sp_batch_size p"])
      (simp add: Sorted_ReadBatchWithInfo_def Sorted_inv_def Sorted_remaining_def take_map drop_map)
qed

interpretation unique_provider: keys_info_provider Unique_ReadBatchWithInfo
  "\<lambda>p. ArrowCsv_inv (up_provider p)" Unique_remaining
proof
  fix p :: UniqueTableKeysInfoProvider
  let ?R = "ArrowCsv_remaining (up_provider p)" and ?c = "up_read_index p"
  assume "ArrowCsv_inv (up_provider p)"
  from ReadNextBatch_spec [OF this] obtain n q where
    q: "ArrowCsv_ReadNextBatch (up_provider p) = Inr (take n ?R, q)" "ArrowCsv_inv q"
      "ArrowCsv_remaining q = drop n ?R" "?R \<noteq> [] \<longrightarrow> 0 < n"
    by blast
  have info: "\<lparr> bi_keys = take n ?R, bi_start_indexes = map u32 [?c..<?c + length (take n ?R)],
      bi_dup_cnts = replicate (length (take n ?R)) 0 \<rparr> = batch_info (take n (Unique_remaining p))"
    by (simp add: batch_info_def Unique_remaining_def Let_def take_zip take_map take_upt min_def)
      (simp flip: map_map)
  have "Unique_remaining \<lparr> up_provider = q, up_read_index = u32 (?c + length (take n ?R)) \<rparr> =
      drop n (Unique_remaining p)"
    by (simp add: Unique_remaining_def q(3) Let_def drop_zip drop_map drop_upt min_def u32_upt del: upt_Suc)
  with q info show "\<exists>n p'. Unique_ReadBatchWithInfo p = Inr (batch_info (take n (Unique_remaining p)), p') \<and>
      ArrowCsv_inv (up_provider p') \<and> Unique_remaining p' = drop n (Unique_remaining p) \<and>
      (Unique_remaining p \<noteq> [] \<longrightarrow> 0 < n)"
    by (intro exI [of _ n]) (auto simp: Unique_ReadBatchWithInfo_def Unique_remaining_def Let_def)
qed

section \<open>Reading a provider to its end\<close>

text \<open>The loop \<open>while (!batch.empty())\<close> over \<open>ReadNextBatch\<close>: \<open>None\<close> is not returning.\<close>

partial_function (option) read_all ::
  "('p \<Rightarrow> (string list \<times> 'p) result) \<Rightarrow> 'p \<Rightarrow> string list list result option" where
  [code]: "read_all rd p =
     (case rd p of
        Inl e \<Rightarrow> Some (Inl e)
      | Inr (b, p') \<Rightarrow>
          if b = [] then Some (Inr [])
          else Option.bind (read_all rd p') (\<lambda>r. Some (rbind r (\<lambda>bs. Inr (b # bs)))))"

lemma read_all_ArrowCsv:
  assumes "ArrowCsv_inv p"
  shows "\<exists>bs. read_all ArrowCsv_ReadNextBatch p = Some (Inr bs) \<and> concat bs = ArrowCsv_remaining p \<and>
              (\<forall>b \<in> set bs. b \<noteq> [] \<and> length b \<le> acp_batch_size p)"
  using assms
proof (induction "length (ArrowCsv_remaining p)" arbitrary: p rule: less_induct)
  case less
  from ReadNextBatch_spec [OF less.prems] obtain n q where
    q: "ArrowCsv_ReadNextBatch p = Inr (take n (ArrowCsv_remaining p), q)" "ArrowCsv_inv q"
      "ArrowCsv_remaining q = drop n (ArrowCsv_remaining p)" "acp_batch_size q = acp_batch_size p"
      "n \<le> acp_batch_size p" "ArrowCsv_remaining p \<noteq> [] \<longrightarrow> 0 < n"
    by blast
  show ?case
  proof (cases "ArrowCsv_remaining p = []")
    case True
    then show ?thesis using q by (subst read_all.simps) simp
  next
    case False
    then obtain bs where "read_all ArrowCsv_ReadNextBatch q = Some (Inr bs)"
      "concat bs = ArrowCsv_remaining q" "\<forall>b \<in> set bs. b \<noteq> [] \<and> length b \<le> acp_batch_size q"
      using less.hyps [of q] q by auto
    then show ?thesis using q False by (subst read_all.simps) auto
  qed
qed

section \<open>Key information of a table\<close>

record KeyInfoMeta =
  keys_hash :: "8 word list"
  duplicate_key_cnt :: nat
  unique_key_cnt :: nat
  original_cnt :: nat
  source_file_size :: nat

record key_scan =
  cur_key :: string
  cur_key_start_index :: nat
  table_index :: nat
  cur_key_dup_cnt :: nat

record key_out =
  ko_rows :: "key_row list"
  ko_hashed :: string
  ko_duplicate_key_cnt :: nat
  ko_unique_key_cnt :: nat
  ko_origin_line_cnt :: nat

definition write_to_csv :: "key_row list \<Rightarrow> key_out \<Rightarrow> key_out" where
  "write_to_csv rows out = fold (\<lambda>(key, start, dup) out.
     out \<lparr> ko_hashed := ko_hashed out @ key, ko_rows := ko_rows out @ [(key, start, dup)],
           ko_duplicate_key_cnt := (if dup \<noteq> 0 then u32 (ko_duplicate_key_cnt out + 1) else ko_duplicate_key_cnt out),
           ko_unique_key_cnt := u32 (ko_unique_key_cnt out + 1),
           ko_origin_line_cnt := u32 (ko_origin_line_cnt out + u32 (1 + dup)) \<rparr>) rows out"

definition key_item :: "string \<Rightarrow> key_scan \<times> key_row list \<Rightarrow> key_scan \<times> key_row list" where
  "key_item item = (\<lambda>(sc, rows).
     if table_index sc = 0 then (sc \<lparr> cur_key := item, table_index := u32 (table_index sc + 1) \<rparr>, rows)
     else if cur_key sc \<noteq> item then
       (sc \<lparr> cur_key := item, cur_key_start_index := table_index sc, cur_key_dup_cnt := 0,
             table_index := u32 (table_index sc + 1) \<rparr>,
        rows @ [(cur_key sc, cur_key_start_index sc, cur_key_dup_cnt sc)])
     else (sc \<lparr> cur_key_dup_cnt := u32 (cur_key_dup_cnt sc + 1), table_index := u32 (table_index sc + 1) \<rparr>, rows))"

definition key_batch :: "string list \<Rightarrow> key_scan \<times> key_out \<Rightarrow> key_scan \<times> key_out" where
  "key_batch batch = (\<lambda>(sc, out).
     let (sc', rows) = fold key_item batch (sc, []) in (sc', write_to_csv rows out))"

definition key_info_rows :: "string list list \<Rightarrow> key_out" where
  "key_info_rows batches =
     (let (sc, out) = fold key_batch batches
            (\<lparr> cur_key = [], cur_key_start_index = 0, table_index = 0, cur_key_dup_cnt = 0 \<rparr>,
             \<lparr> ko_rows = [], ko_hashed = [], ko_duplicate_key_cnt = 0, ko_unique_key_cnt = 0,
               ko_origin_line_cnt = 0 \<rparr>)
      in write_to_csv [(cur_key sc, cur_key_start_index sc, cur_key_dup_cnt sc)] out)"

text \<open>
  \<open>KeyInfo::Make\<close> for a sorted table. \<open>existing\<close> is the key info file with its non-empty
  meta file, if both are there; it is reused when the recorded size is that of the source file.
\<close>

definition reusable_meta :: "('f \<times> KeyInfoMeta) option \<Rightarrow> nat \<Rightarrow> ('f \<times> KeyInfoMeta) option" where
  "reusable_meta existing file_size =
     (case existing of
        Some (rows, meta) \<Rightarrow> if source_file_size meta = file_size then Some (rows, meta) else None
      | None \<Rightarrow> None)"

definition KeyInfo_Make_sorted ::
  "(string \<Rightarrow> 8 word list) \<Rightarrow> (key_row list \<times> KeyInfoMeta) option \<Rightarrow> nat \<Rightarrow> ArrowCsvBatchProvider
     \<Rightarrow> (key_row list \<times> KeyInfoMeta) result option" where
  "KeyInfo_Make_sorted sha256 existing file_size provider =
     (case reusable_meta existing file_size of
        Some old \<Rightarrow> Some (Inr old)
      | None \<Rightarrow> map_option (\<lambda>r. rbind r (\<lambda>batches.
          let out = key_info_rows batches
          in Inr (ko_rows out,
                  \<lparr> keys_hash = sha256 (ko_hashed out),
                    duplicate_key_cnt = ko_duplicate_key_cnt out,
                    unique_key_cnt = ko_unique_key_cnt out,
                    original_cnt = ko_origin_line_cnt out,
                    source_file_size = file_size \<rparr>)))
          (read_all ArrowCsv_ReadNextBatch provider))"

text \<open>
  \<open>KeyInfo::Make\<close> for a table whose keys are declared unique: only the meta data is computed;
  the rows come from \<open>UniqueTableKeysInfoProvider\<close>.
\<close>

definition KeyInfo_Make_unique ::
  "(string \<Rightarrow> 8 word list) \<Rightarrow> (unit \<times> KeyInfoMeta) option \<Rightarrow> nat \<Rightarrow> ArrowCsvBatchProvider
     \<Rightarrow> KeyInfoMeta result option" where
  "KeyInfo_Make_unique sha256 existing file_size provider =
     (case reusable_meta existing file_size of
        Some (_, meta) \<Rightarrow> Some (Inr meta)
      | None \<Rightarrow> map_option (\<lambda>r. rbind r (\<lambda>batches.
          let (hashed, lines) = fold (\<lambda>batch (hashed, lines).
                (fold (\<lambda>item hashed. hashed @ item) batch hashed, u32 (lines + length batch)))
                batches ([], 0)
          in Inr \<lparr> keys_hash = sha256 hashed, duplicate_key_cnt = 0, unique_key_cnt = lines,
                   original_cnt = lines, source_file_size = file_size \<rparr>))
          (read_all ArrowCsv_ReadNextBatch provider))"

section \<open>What the key information is\<close>

text \<open>The keys a list of rows stands for, and rows whose start indices are running positions.\<close>

definition expand_keys :: "key_row list \<Rightarrow> string list" where
  "expand_keys rows = concat (map (\<lambda>(k, s, d). replicate (d + 1) k) rows)"

fun starts_from :: "nat \<Rightarrow> key_row list \<Rightarrow> bool" where
  "starts_from n [] \<longleftrightarrow> True"
| "starts_from n ((k, s, d) # rows) \<longleftrightarrow> s = n \<and> starts_from (n + d + 1) rows"

lemma expand_keys_simps [simp]:
  "expand_keys [] = []" "expand_keys ((k, s, d) # rows) = replicate (d + 1) k @ expand_keys rows"
  "expand_keys (rows @ rows') = expand_keys rows @ expand_keys rows'"
  by (simp_all add: expand_keys_def)

lemma starts_from_append [simp]:
  "starts_from n (rows @ rows') \<longleftrightarrow> starts_from n rows \<and> starts_from (n + length (expand_keys rows)) rows'"
  by (induction n rows rule: starts_from.induct) (auto simp: add.assoc)

text \<open>The invariant of the scan after the keys \<open>ks\<close>, with all rows emitted so far.\<close>

definition scan_inv :: "string list \<Rightarrow> key_scan \<times> key_row list \<Rightarrow> bool" where
  "scan_inv ks = (\<lambda>(sc, rows).
     length ks < 2 ^ 32 \<and> table_index sc = length ks \<and>
     (if ks = [] then rows = [] \<and> cur_key_dup_cnt sc = 0 \<and> cur_key_start_index sc = 0
      else ks = expand_keys rows @ replicate (cur_key_dup_cnt sc + 1) (cur_key sc) \<and>
           cur_key_start_index sc = length (expand_keys rows) \<and>
           starts_from 0 rows \<and> distinct_adj (map fst rows @ [cur_key sc])))"

lemma key_item_append:
  "key_item item (sc, rows0 @ rows) = apsnd ((@) rows0) (key_item item (sc, rows))"
  by (simp add: key_item_def)

lemma fold_key_item_append:
  "fold key_item items (sc, rows0 @ rows) = apsnd ((@) rows0) (fold key_item items (sc, rows))"
  by (induction items arbitrary: sc rows)
    (auto simp: key_item_append apsnd_def map_prod_def split: prod.splits)

lemma key_item_inv:
  assumes "scan_inv ks (sc, rows)" "length ks + 1 < 2 ^ 32"
  shows "scan_inv (ks @ [item]) (key_item item (sc, rows))"
proof (cases "ks = []")
  case True
  then show ?thesis using assms by (simp add: scan_inv_def key_item_def u32_id)
next
  case False
  then have "distinct_adj (map fst rows @ [cur_key sc])" "table_index sc = length ks"
    "ks = expand_keys rows @ replicate (cur_key_dup_cnt sc + 1) (cur_key sc)"
    "cur_key_start_index sc = length (expand_keys rows)" "starts_from 0 rows"
    using assms by (simp_all add: scan_inv_def)
  moreover have "u32 (length ks + 1) = length ks + 1" using assms(2) by (rule u32_id)
  moreover have "u32 (cur_key_dup_cnt sc + 1) = cur_key_dup_cnt sc + 1"
    using assms(2) arg_cong [OF calculation(3), of length] by (intro u32_id) simp
  ultimately show ?thesis
    using False assms(2)
    by (auto simp: scan_inv_def key_item_def distinct_adj_append_iff replicate_append_same)
qed

lemma fold_key_item_inv:
  "scan_inv ks st \<Longrightarrow> length (ks @ items) < 2 ^ 32 \<Longrightarrow> scan_inv (ks @ items) (fold key_item items st)"
proof (induction items arbitrary: ks st)
  case (Cons item items)
  obtain sc rows where "st = (sc, rows)" by (cases st)
  with Cons.IH [OF key_item_inv, of ks sc rows item] Cons.prems show ?case by simp
qed simp

lemma write_to_csv_simps [simp]:
  "ko_rows (write_to_csv rows out) = ko_rows out @ rows"
  "ko_hashed (write_to_csv rows out) = ko_hashed out @ concat (map fst rows)"
  unfolding write_to_csv_def by (induction rows arbitrary: out) (auto split: prod.splits)

lemma write_to_csv_Cons:
  "write_to_csv ((key, start, dup) # rows) out = write_to_csv rows
     (out \<lparr> ko_hashed := ko_hashed out @ key, ko_rows := ko_rows out @ [(key, start, dup)],
            ko_duplicate_key_cnt := (if dup \<noteq> 0 then u32 (ko_duplicate_key_cnt out + 1) else ko_duplicate_key_cnt out),
            ko_unique_key_cnt := u32 (ko_unique_key_cnt out + 1),
            ko_origin_line_cnt := u32 (ko_origin_line_cnt out + u32 (1 + dup)) \<rparr>)"
  by (simp add: write_to_csv_def)

lemma write_to_csv_counters:
  "ko_duplicate_key_cnt out = u32 a \<Longrightarrow>
     ko_duplicate_key_cnt (write_to_csv rows out) = u32 (a + length (filter (\<lambda>r. snd (snd r) \<noteq> 0) rows))"
  "ko_unique_key_cnt out = u32 a \<Longrightarrow> ko_unique_key_cnt (write_to_csv rows out) = u32 (a + length rows)"
  "ko_origin_line_cnt out = u32 a \<Longrightarrow>
     ko_origin_line_cnt (write_to_csv rows out) = u32 (a + length (expand_keys rows))"
proof (induction rows arbitrary: out a)
  case (Cons row rows)
  obtain key start dup where row: "row = (key, start, dup)" by (cases row)
  note simps = row write_to_csv_Cons
  {
    case 1
    then show ?case unfolding simps by (subst Cons.IH(1) [of _ "if dup \<noteq> 0 then a + 1 else a"]) simp_all
  next
    case 2
    then show ?case unfolding simps by (subst Cons.IH(2) [of _ "a + 1"]) simp_all
  next
    case 3
    then show ?case unfolding simps by (subst Cons.IH(3) [of _ "a + (1 + dup)"]) (simp_all add: add.assoc)
  }
qed (simp_all add: write_to_csv_def)

lemma expand_keys_lengths:
  "length rows \<le> length (expand_keys rows)" "length (filter P rows) \<le> length (expand_keys rows)"
proof -
  show le: "length rows \<le> length (expand_keys rows)" by (induction rows) auto
  then show "length (filter P rows) \<le> length (expand_keys rows)"
    using length_filter_le [of P rows] by linarith
qed

lemma fold_key_batch:
  "fold key_batch batches (sc, out) =
     (let (sc', rows) = fold key_item (concat batches) (sc, []) in (sc', write_to_csv rows out))"
proof (induction batches arbitrary: sc out)
  case Nil
  then show ?case by (simp add: write_to_csv_def)
next
  case (Cons b bs)
  obtain sc1 rows1 where 1: "fold key_item b (sc, []) = (sc1, rows1)" by fastforce
  obtain sc2 rows2 where 2: "fold key_item (concat bs) (sc1, []) = (sc2, rows2)" by fastforce
  have "fold key_item (concat bs) (sc1, rows1) = (sc2, rows1 @ rows2)"
    using fold_key_item_append [of "concat bs" sc1 rows1 "[]"] 2 by simp
  with 1 2 Cons.IH show ?case
    by (simp add: key_batch_def write_to_csv_def)
qed

definition scan_start :: key_scan where
  "scan_start = \<lparr> cur_key = [], cur_key_start_index = 0, table_index = 0, cur_key_dup_cnt = 0 \<rparr>"

lemma scan_start_inv: "scan_inv [] (scan_start, [])"
  by (simp add: scan_inv_def scan_start_def)

lemma key_info_rows_facts:
  assumes "concat batches = ks" "ks \<noteq> []" "length ks < 2 ^ 32"
  defines "out \<equiv> key_info_rows batches"
  shows "expand_keys (ko_rows out) = ks" "starts_from 0 (ko_rows out)"
    "distinct_adj (map fst (ko_rows out))" "ko_hashed out = concat (map fst (ko_rows out))"
    "ko_unique_key_cnt out = length (ko_rows out)" "ko_origin_line_cnt out = length ks"
    "ko_duplicate_key_cnt out = length (filter (\<lambda>r. snd (snd r) \<noteq> 0) (ko_rows out))"
proof -
  obtain sc rows where fold: "fold key_item (concat batches) (scan_start, []) = (sc, rows)"
    by fastforce
  have "scan_inv ks (sc, rows)"
    using fold_key_item_inv [OF scan_start_inv, of ks] fold assms(1,3) by simp
  then have inv: "ks = expand_keys rows @ replicate (cur_key_dup_cnt sc + 1) (cur_key sc)"
    "cur_key_start_index sc = length (expand_keys rows)" "starts_from 0 rows"
    "distinct_adj (map fst rows @ [cur_key sc])"
    using assms(2) by (simp_all add: scan_inv_def)
  define row where "row = (cur_key sc, cur_key_start_index sc, cur_key_dup_cnt sc)"
  define out0 where "out0 = \<lparr> ko_rows = [], ko_hashed = [], ko_duplicate_key_cnt = 0,
     ko_unique_key_cnt = 0, ko_origin_line_cnt = 0 \<rparr>"
  have out: "out = write_to_csv [row] (write_to_csv rows out0)"
    unfolding out_def key_info_rows_def scan_start_def [symmetric] out0_def [symmetric]
    by (simp add: fold_key_batch fold row_def)
  show rows: "expand_keys (ko_rows out) = ks" "starts_from 0 (ko_rows out)"
    "distinct_adj (map fst (ko_rows out))" "ko_hashed out = concat (map fst (ko_rows out))"
    using inv by (simp_all add: out out0_def row_def)
  have cnt: "ko_unique_key_cnt out = u32 (length (ko_rows out))" "ko_origin_line_cnt out = u32 (length (expand_keys (ko_rows out)))"
    "ko_duplicate_key_cnt out = u32 (length (filter (\<lambda>r. snd (snd r) \<noteq> 0) (ko_rows out)))"
    unfolding out by (simp_all add: write_to_csv_counters [of _ 0] write_to_csv_counters out0_def)
  note small = expand_keys_lengths [where rows = "ko_rows out", unfolded rows(1)]
  show "ko_unique_key_cnt out = length (ko_rows out)" "ko_origin_line_cnt out = length ks"
    "ko_duplicate_key_cnt out = length (filter (\<lambda>r. snd (snd r) \<noteq> 0) (ko_rows out))"
    unfolding cnt rows(1) using assms(3) small(1) small(2) [where P = "\<lambda>r. snd (snd r) \<noteq> 0"] by (auto intro!: u32_id)
qed

lemma sorted_expand_keys:
  "sorted (expand_keys rows) \<Longrightarrow> sorted (map fst rows)"
proof (induction rows)
  case (Cons r rows)
  obtain k s d where r: "r = (k, s, d)" by (cases r)
  have "set (map fst rows) \<subseteq> set (expand_keys rows)"
    by (force simp: expand_keys_def)
  with Cons show ?case by (auto simp: r sorted_append)
qed simp

lemma sorted_distinct_adj:
  fixes xs :: "'a::linorder list"
  shows "sorted xs \<Longrightarrow> distinct_adj xs \<Longrightarrow> distinct xs"
proof (induction xs)
  case (Cons x xs)
  then show ?case
    by (cases xs) (auto dest: order.antisym)
qed simp

text \<open>
  C7. \<open>KeyInfo::Make\<close> on a non-empty table of fewer than $2^{32}$ rows returns, however the file is batched, the
  run-length form of the key column: expanding the rows gives the keys back in order, the start
  index of a row is its first position in the table, neighbouring keys differ, and the counters
  are the number of runs, of runs longer than one, and of table rows. When the table is sorted
  by key, each key has exactly one row.
\<close>

theorem KeyInfo_Make_sorted_correct:
  assumes "ArrowCsv_inv p" "ArrowCsv_remaining p = ks" "ks \<noteq> []" "length ks < 2 ^ 32"
    and "reusable_meta existing file_size = None"
  shows "\<exists>rows meta. KeyInfo_Make_sorted sha256 existing file_size p = Some (Inr (rows, meta)) \<and>
     expand_keys rows = ks \<and> starts_from 0 rows \<and> distinct_adj (map fst rows) \<and>
     (sorted ks \<longrightarrow> distinct (map fst rows)) \<and>
     unique_key_cnt meta = length rows \<and> original_cnt meta = length ks \<and>
     duplicate_key_cnt meta = length (filter (\<lambda>(k, s, d). d \<noteq> 0) rows) \<and>
     keys_hash meta = sha256 (concat (map fst rows))"
proof -
  obtain bs where bs: "read_all ArrowCsv_ReadNextBatch p = Some (Inr bs)" "concat bs = ks"
    using read_all_ArrowCsv [OF assms(1)] assms(2) by auto
  note facts = key_info_rows_facts [OF bs(2) assms(3,4)]
  have "sorted ks \<longrightarrow> distinct (map fst (ko_rows (key_info_rows bs)))"
    using facts(1,3) sorted_expand_keys sorted_distinct_adj by metis
  with facts show ?thesis
    by (simp add: KeyInfo_Make_sorted_def assms(5) bs(1) Let_def case_prod_beta')
qed

definition witness_provider :: ArrowCsvBatchProvider where
  "witness_provider = ArrowCsv_ReadAsync
     \<lparr> acp_batch_size = 2, acp_keys = 1, acp_labels = 0, acp_delimiter = CHR '','',
       acp_reader = [Inr [[''1'', ''a''], [''2'', ''b''], [''2'', ''c'']], Inr [[''3'', ''d'']]],
       acp_reach_eof = False, acp_batch = None, acp_idx = 0, acp_row_cnt = 0,
       acp_future = Inl (Enforce ''buffer is not valid'') \<rparr>"

lemma witness_provider_inv:
  "ArrowCsv_inv witness_provider \<and> ArrowCsv_remaining witness_provider = [''1'', ''2'', ''2'', ''3'']"
proof -
  define p where "p = \<lparr> acp_batch_size = 2, acp_keys = 1, acp_labels = 0, acp_delimiter = CHR '','',
       acp_reader = [Inr [[''1'', ''a''], [''2'', ''b''], [''2'', ''c'']], Inr [[''3'', ''d'']]],
       acp_reach_eof = False, acp_batch = None, acp_idx = 0, acp_row_cnt = 0,
       acp_future = Inl (Enforce ''buffer is not valid'') \<rparr>"
  have "acp_rest p = [[''1'', ''a''], [''2'', ''b''], [''2'', ''c''], [''3'', ''d'']]"
    by (simp add: p_def acp_rest_def pending_def)
  with ReadAsync_spec [of p] show ?thesis
    by (simp add: witness_provider_def p_def [symmetric]) (simp add: p_def row_key_def)
qed

theorem KeyInfo_Make_sorted_correct_witness:
  "\<exists>rows meta. KeyInfo_Make_sorted (\<lambda>_. []) None 9 witness_provider = Some (Inr (rows, meta)) \<and>
     expand_keys rows = [''1'', ''2'', ''2'', ''3''] \<and> original_cnt meta = 4"
  using KeyInfo_Make_sorted_correct [of witness_provider _ None 9 "\<lambda>_. []"] witness_provider_inv
  by (fastforce simp: reusable_meta_def)

text \<open>
  On a table without rows \<open>KeyInfo::Make\<close> still writes one row, for the empty key, and
  records one key and one table row.
\<close>

theorem KeyInfo_Make_sorted_empty:
  assumes "ArrowCsv_inv p" "ArrowCsv_remaining p = []" "reusable_meta existing file_size = None"
  shows "\<exists>meta. KeyInfo_Make_sorted sha256 existing file_size p = Some (Inr ([([], 0, 0)], meta)) \<and>
     unique_key_cnt meta = 1 \<and> original_cnt meta = 1"
proof -
  obtain bs where bs: "read_all ArrowCsv_ReadNextBatch p = Some (Inr bs)" "concat bs = []"
    "\<forall>b \<in> set bs. b \<noteq> []"
    using read_all_ArrowCsv [OF assms(1)] assms(2) by auto
  then have "bs = []" by (cases bs) auto
  with bs(1) show ?thesis
    by (simp add: KeyInfo_Make_sorted_def assms(3) key_info_rows_def write_to_csv_def Let_def u32_def)
qed

theorem KeyInfo_Make_sorted_empty_witness:
  "\<exists>p meta. ArrowCsv_Init (Some []) 1 0 2 CHR '','' = Inr p \<and>
     KeyInfo_Make_sorted (\<lambda>_. []) None 9 p = Some (Inr ([([], 0, 0)], meta)) \<and> original_cnt meta = 1"
proof -
  obtain p where p: "ArrowCsv_Init (Some []) 1 0 2 CHR '','' = Inr p"
    by (simp add: ArrowCsv_Init_def)
  have "ArrowCsv_inv p \<and> ArrowCsv_remaining p = []"
    using p ReadAsync_spec [of "\<lparr> acp_batch_size = 2, acp_keys = 1, acp_labels = 0,
      acp_delimiter = CHR '','', acp_reader = [], acp_reach_eof = False, acp_batch = None,
      acp_idx = 0, acp_row_cnt = 0, acp_future = Inl (Enforce ''buffer is not valid'') \<rparr>"]
    by (auto simp: ArrowCsv_Init_def acp_rest_def pending_def)
  with KeyInfo_Make_sorted_empty [of p None 9 "\<lambda>_. []"] p show ?thesis
    by (auto simp: reusable_meta_def)
qed

lemma KeyInfo_Make_unique_spec:
  assumes "ArrowCsv_inv p" "ArrowCsv_remaining p = ks" "reusable_meta existing n = None"
  shows "KeyInfo_Make_unique sha256 existing n p = Some (Inr \<lparr> keys_hash = sha256 (concat ks), duplicate_key_cnt = 0,
     unique_key_cnt = u32 (length ks), original_cnt = u32 (length ks), source_file_size = n \<rparr>)"
proof -
  obtain bs where bs: "read_all ArrowCsv_ReadNextBatch p = Some (Inr bs)" "concat bs = ks"
    using read_all_ArrowCsv [OF assms(1)] assms(2) by auto
  have items: "fold (\<lambda>item hashed. hashed @ item) b h = h @ concat b" for b and h :: string
    by (induction b arbitrary: h) auto
  have "fold (\<lambda>batch (hashed, ls). (fold (\<lambda>item hashed. hashed @ item) batch hashed, u32 (ls + length batch))) bs (h, u32 m) =
      (h @ concat (concat bs), u32 (m + length (concat bs)))" for h :: string and m
    by (induction bs arbitrary: h m) (simp_all add: items add.assoc)
  from this [of "[]" 0] show ?thesis
    by (simp add: KeyInfo_Make_unique_def assms(3) bs)
qed

end
