(* ===== verification/Batch_Provider_Impl.thy ===== *)
theory Batch_Provider_Impl
  imports Key_Info
begin

text \<open>
  \<open>psi/utils/batch_provider_impl.cc\<close>: \<open>MemoryBatchProvider\<close> over items in memory and
  \<open>SimpleShuffledBatchProvider\<close>, which reads another provider one batch ahead and hands its
  items out in a random order within each batch. The locale \<open>dup_cnt_provider\<close> is the contract of
  \<open>ReadNextBatchWithDupCnt\<close>, which the protocols rely on, with its interpretations for the
  providers of the code.

  \<open>std::shuffle\<close> with a fresh generator is the parameter \<open>shuffle\<close>, a function of a running
  seed; what is used of it is that it permutes its argument. The read in the background is the
  result which the next \<open>get\<close> of the future returns.
\<close>

section \<open>The contract of a provider\<close>

type_synonym dup_batch = "string list \<times> (nat \<Rightarrow> nat option)"

locale dup_cnt_provider =
  fixes rd :: "'p \<Rightarrow> (dup_batch \<times> 'p) result"
    and d_inv :: "'p \<Rightarrow> bool"
    and d_remaining :: "'p \<Rightarrow> (string \<times> nat) list"
  assumes read_dup: "d_inv p \<Longrightarrow>
    \<exists>n p'. rd p = Inr ((map fst (take n (d_remaining p)), dup_cnt_map (map snd (take n (d_remaining p)))), p') \<and>
           d_inv p' \<and> d_remaining p' = drop n (d_remaining p) \<and> (d_remaining p \<noteq> [] \<longrightarrow> 0 < n)"

lemma dup_cnt_map_value:
  "i < length ds \<Longrightarrow> (case dup_cnt_map ds i of None \<Rightarrow> 0 | Some d \<Rightarrow> d) = ds ! i"
  by (simp add: dup_cnt_map_def)

lemma dup_cnt_map_zero: "dup_cnt_map (replicate n 0) = (\<lambda>_. None)"
  by (auto simp: dup_cnt_map_def)

interpretation sorted_dup: dup_cnt_provider Sorted_ReadNextBatchWithDupCnt Sorted_inv
  "\<lambda>p. map (\<lambda>(k, s, d). (k, d)) (Sorted_remaining p)"
proof
  fix p assume "Sorted_inv p"
  then obtain n p' where "Sorted_ReadBatchWithInfo p = Inr (batch_info (take n (Sorted_remaining p)), p')"
    "Sorted_inv p'" "Sorted_remaining p' = drop n (Sorted_remaining p)" "Sorted_remaining p \<noteq> [] \<longrightarrow> 0 < n"
    using sorted_provider.read_batch by blast
  then show "\<exists>n p'. Sorted_ReadNextBatchWithDupCnt p =
      Inr ((map fst (take n (map (\<lambda>(k, s, d). (k, d)) (Sorted_remaining p))),
            dup_cnt_map (map snd (take n (map (\<lambda>(k, s, d). (k, d)) (Sorted_remaining p))))), p') \<and>
      Sorted_inv p' \<and> map (\<lambda>(k, s, d). (k, d)) (Sorted_remaining p') =
        drop n (map (\<lambda>(k, s, d). (k, d)) (Sorted_remaining p)) \<and>
      (map (\<lambda>(k, s, d). (k, d)) (Sorted_remaining p) \<noteq> [] \<longrightarrow> 0 < n)"
    by (intro exI [of _ n] exI [of _ p'])
      (auto simp: Sorted_ReadNextBatchWithDupCnt_def batch_info_def take_map drop_map case_prod_beta' comp_def)
qed

interpretation unique_dup: dup_cnt_provider Unique_ReadNextBatchWithDupCnt "\<lambda>p. ArrowCsv_inv (up_provider p)"
  "\<lambda>p. map (\<lambda>k. (k, 0)) (ArrowCsv_remaining (up_provider p))"
proof
  fix p :: UniqueTableKeysInfoProvider
  assume "ArrowCsv_inv (up_provider p)"
  from ReadNextBatch_spec [OF this] obtain n q where
    "ArrowCsv_ReadNextBatch (up_provider p) = Inr (take n (ArrowCsv_remaining (up_provider p)), q)" "ArrowCsv_inv q"
    "ArrowCsv_remaining q = drop n (ArrowCsv_remaining (up_provider p))" "ArrowCsv_remaining (up_provider p) \<noteq> [] \<longrightarrow> 0 < n"
    by blast
  then show "\<exists>n p'. Unique_ReadNextBatchWithDupCnt p =
      Inr ((map fst (take n (map (\<lambda>k. (k, 0)) (ArrowCsv_remaining (up_provider p)))),
            dup_cnt_map (map snd (take n (map (\<lambda>k. (k, 0)) (ArrowCsv_remaining (up_provider p)))))), p') \<and>
      ArrowCsv_inv (up_provider p') \<and> map (\<lambda>k. (k, 0)) (ArrowCsv_remaining (up_provider p')) =
        drop n (map (\<lambda>k. (k, 0)) (ArrowCsv_remaining (up_provider p))) \<and>
      (map (\<lambda>k. (k, 0)) (ArrowCsv_remaining (up_provider p)) \<noteq> [] \<longrightarrow> 0 < n)"
    by (intro exI [of _ n] exI [of _ "p \<lparr> up_provider := q \<rparr>"])
      (auto simp: Unique_ReadNextBatchWithDupCnt_def take_map drop_map comp_def map_replicate_const dup_cnt_map_zero)
qed

section \<open>Items in memory\<close>

record ShuffledBatch =
  sh_items :: "string list"
  sh_indices :: "nat list"
  sh_shuffled :: "nat list"
  sh_dup_cnts :: "nat list"

definition empty_shuffled_batch :: ShuffledBatch where
  "empty_shuffled_batch = \<lparr> sh_items = [], sh_indices = [], sh_shuffled = [], sh_dup_cnts = [] \<rparr>"

record MemoryBatchProvider =
  mp_batch_size :: nat
  mp_items :: "string list"
  mp_labels :: "string list"
  mp_shuffled :: "nat list"
  mp_cursor :: nat

definition MemoryBatchProvider_new ::
  "(nat list \<Rightarrow> nat list) \<Rightarrow> string list \<Rightarrow> nat \<Rightarrow> string list \<Rightarrow> bool \<Rightarrow> MemoryBatchProvider" where
  "MemoryBatchProvider_new shuffle items batch_size labels enable_shuffle =
     \<lparr> mp_batch_size = batch_size, mp_items = items, mp_labels = labels,
       mp_shuffled = (if enable_shuffle then shuffle [0..<length items] else []), mp_cursor = 0 \<rparr>"

definition Memory_ReadNextImpl :: "nat \<Rightarrow> MemoryBatchProvider \<Rightarrow> (string list \<times> MemoryBatchProvider) result" where
  "Memory_ReadNextImpl batch_size p =
     rbind (enforce (mp_cursor p \<le> length (mp_items p)) ''cursor_index'') (\<lambda>_.
     let n_items = min batch_size (length (mp_items p) - mp_cursor p)
     in Inr (take n_items (drop (mp_cursor p) (mp_items p)), p \<lparr> mp_cursor := mp_cursor p + n_items \<rparr>))"

definition Memory_ReadNextBatch :: "MemoryBatchProvider \<Rightarrow> (string list \<times> MemoryBatchProvider) result" where
  "Memory_ReadNextBatch p = Memory_ReadNextImpl (mp_batch_size p) p"

text \<open>The inherited \<open>IBasicBatchProvider::ReadNextBatchWithDupCnt\<close>.\<close>

definition Memory_ReadNextBatchWithDupCnt :: "MemoryBatchProvider \<Rightarrow> (dup_batch \<times> MemoryBatchProvider) result" where
  "Memory_ReadNextBatchWithDupCnt p =
     rbind (Memory_ReadNextBatch p) (\<lambda>(items, p'). Inr ((items, \<lambda>_. None), p'))"

definition Memory_ReadNextLabeledBatch ::
  "MemoryBatchProvider \<Rightarrow> ((string list \<times> string list) \<times> MemoryBatchProvider) result" where
  "Memory_ReadNextLabeledBatch p =
     (if mp_labels p = [] then Inl (Throw ''unsupported.'')
      else rbind (enforce (mp_cursor p \<le> length (mp_items p)) ''cursor_index'') (\<lambda>_.
        let n_items = min (mp_batch_size p) (length (mp_items p) - mp_cursor p)
        in if mp_cursor p + n_items \<le> length (mp_labels p)
           then Inr ((take n_items (drop (mp_cursor p) (mp_items p)),
                      take n_items (drop (mp_cursor p) (mp_labels p))),
                     p \<lparr> mp_cursor := mp_cursor p + n_items \<rparr>)
           else Inl (Undefined ''labels'')))"

definition Memory_ReadNextShuffledBatch :: "MemoryBatchProvider \<Rightarrow> (ShuffledBatch \<times> MemoryBatchProvider) result" where
  "Memory_ReadNextShuffledBatch p =
     (if mp_shuffled p = [] then Inl (Throw ''Empty data set.'')
      else rbind (enforce (mp_cursor p \<le> length (mp_items p)) ''cursor_index'') (\<lambda>_.
        let n_items = min (mp_batch_size p) (length (mp_items p) - mp_cursor p)
        in rbind (rfold (\<lambda>i b.
              rbind (at (mp_shuffled p) (mp_cursor p + i)) (\<lambda>shuffled_index.
              rbind (at (mp_items p) shuffled_index) (\<lambda>item.
              Inr (b \<lparr> sh_items := sh_items b @ [item],
                       sh_indices := sh_indices b @ [mp_cursor p + i],
                       sh_shuffled := sh_shuffled b @ [shuffled_index] \<rparr>))))
            [0..<n_items] empty_shuffled_batch) (\<lambda>b.
           Inr (b, p \<lparr> mp_cursor := mp_cursor p + n_items \<rparr>))))"

definition Memory_labels :: "MemoryBatchProvider \<Rightarrow> string list result" where
  "Memory_labels p = (if mp_labels p = [] then Inl (Throw ''unsupported.'') else Inr (mp_labels p))"

definition Memory_shuffled_indices :: "MemoryBatchProvider \<Rightarrow> nat list result" where
  "Memory_shuffled_indices p = (if mp_shuffled p = [] then Inl (Throw ''unsupported.'') else Inr (mp_shuffled p))"

definition Memory_inv :: "MemoryBatchProvider \<Rightarrow> bool" where
  "Memory_inv p \<longleftrightarrow> 0 < mp_batch_size p \<and> mp_cursor p \<le> length (mp_items p)"

lemma Memory_read:
  assumes "Memory_inv p"
  shows "\<exists>p'. Memory_ReadNextBatch p = Inr (take (mp_batch_size p) (drop (mp_cursor p) (mp_items p)), p') \<and>
     Memory_inv p' \<and> drop (mp_cursor p') (mp_items p') = drop (mp_batch_size p) (drop (mp_cursor p) (mp_items p)) \<and>
     mp_batch_size p' = mp_batch_size p"
  using assms by (auto simp: Memory_inv_def Memory_ReadNextBatch_def Memory_ReadNextImpl_def Let_def min_def add.commute)

interpretation memory_dup: dup_cnt_provider Memory_ReadNextBatchWithDupCnt Memory_inv
  "\<lambda>p. map (\<lambda>k. (k, 0)) (drop (mp_cursor p) (mp_items p))"
proof
  fix p assume inv: "Memory_inv p"
  with Memory_read [OF inv] show "\<exists>n p'. Memory_ReadNextBatchWithDupCnt p =
      Inr ((map fst (take n (map (\<lambda>k. (k, 0)) (drop (mp_cursor p) (mp_items p)))),
            dup_cnt_map (map snd (take n (map (\<lambda>k. (k, 0)) (drop (mp_cursor p) (mp_items p)))))), p') \<and>
      Memory_inv p' \<and> map (\<lambda>k. (k, 0)) (drop (mp_cursor p') (mp_items p')) =
        drop n (map (\<lambda>k. (k, 0)) (drop (mp_cursor p) (mp_items p))) \<and>
      (map (\<lambda>k. (k, 0)) (drop (mp_cursor p) (mp_items p)) \<noteq> [] \<longrightarrow> 0 < n)"
    by (intro exI [of _ "mp_batch_size p"])
      (auto simp: Memory_ReadNextBatchWithDupCnt_def take_map drop_map comp_def map_replicate_const dup_cnt_map_zero
        Memory_inv_def)
qed

section \<open>The shuffling provider\<close>

record RawBatch =
  rb_items :: "string list"
  rb_shuffled :: "nat list"
  rb_dup_cnt :: "nat list"

record 'p SimpleShuffledBatchProvider =
  sb_batch_size :: nat
  sb_provider :: 'p
  sb_seed :: nat
  sb_future :: "RawBatch result option"
  sb_shuffle_base :: nat
  sb_base :: nat
  sb_buffer :: RawBatch
  sb_read_end :: bool

text \<open>
  \<open>read_proc\<close>; the keys of the map are positions in the batch. \<open>launch\<close> starts it in the
  background, where an exception stays in the future until \<open>get\<close>.
\<close>

definition read_proc ::
  "('p \<Rightarrow> (dup_batch \<times> 'p) result) \<Rightarrow> (nat \<Rightarrow> nat list \<Rightarrow> nat list)
     \<Rightarrow> 'p SimpleShuffledBatchProvider \<Rightarrow> (RawBatch \<times> 'p SimpleShuffledBatchProvider) result" where
  "read_proc rd shuffle s =
     rbind (rd (sb_provider s)) (\<lambda>((items, dup_cnt), p').
     Inr (\<lparr> rb_items = items, rb_shuffled = shuffle (sb_seed s) [0..<length items],
            rb_dup_cnt = map (\<lambda>k. case dup_cnt k of None \<Rightarrow> 0 | Some v \<Rightarrow> v) [0..<length items] \<rparr>,
          s \<lparr> sb_provider := p', sb_seed := sb_seed s + 1 \<rparr>))"

definition launch ::
  "('p \<Rightarrow> (dup_batch \<times> 'p) result) \<Rightarrow> (nat \<Rightarrow> nat list \<Rightarrow> nat list)
     \<Rightarrow> 'p SimpleShuffledBatchProvider \<Rightarrow> 'p SimpleShuffledBatchProvider" where
  "launch rd shuffle s = (case read_proc rd shuffle s of
     Inl e \<Rightarrow> s \<lparr> sb_future := Some (Inl e) \<rparr> | Inr (r, s') \<Rightarrow> s' \<lparr> sb_future := Some (Inr r) \<rparr>)"

definition ReadAndShuffle ::
  "('p \<Rightarrow> (dup_batch \<times> 'p) result) \<Rightarrow> (nat \<Rightarrow> nat list \<Rightarrow> nat list)
     \<Rightarrow> 'p SimpleShuffledBatchProvider \<Rightarrow> (RawBatch \<times> 'p SimpleShuffledBatchProvider) result" where
  "ReadAndShuffle rd shuffle s = (case sb_future s of
     Some fut \<Rightarrow> rbind fut (\<lambda>res.
       Inr (res, if rb_items res \<noteq> [] then launch rd shuffle (s \<lparr> sb_future := None \<rparr>)
                 else s \<lparr> sb_future := None \<rparr>))
   | None \<Rightarrow> rbind (read_proc rd shuffle s) (\<lambda>(res, s'). Inr (res, launch rd shuffle s')))"

definition SimpleShuffled_new ::
  "('p \<Rightarrow> (dup_batch \<times> 'p) result) \<Rightarrow> (nat \<Rightarrow> nat list \<Rightarrow> nat list) \<Rightarrow> 'p \<Rightarrow> nat
     \<Rightarrow> 'p SimpleShuffledBatchProvider result" where
  "SimpleShuffled_new rd shuffle p batch_size =
     rbind (ReadAndShuffle rd shuffle
       \<lparr> sb_batch_size = batch_size, sb_provider = p, sb_seed = 0, sb_future = None, sb_shuffle_base = 0,
         sb_base = 0, sb_buffer = \<lparr> rb_items = [], rb_shuffled = [], rb_dup_cnt = [] \<rparr>, sb_read_end = False \<rparr>)
     (\<lambda>(buf, s). Inr (s \<lparr> sb_buffer := buf \<rparr>))"

text \<open>One round of the copying loop: the front index is handed out and popped.\<close>

definition push_one ::
  "nat \<Rightarrow> ShuffledBatch \<times> 'p SimpleShuffledBatchProvider \<Rightarrow> (ShuffledBatch \<times> 'p SimpleShuffledBatchProvider) result"
where
  "push_one i = (\<lambda>(b, s).
     case rb_shuffled (sb_buffer s) of
       [] \<Rightarrow> Inl (Undefined ''front'')
     | front # rest \<Rightarrow>
         rbind (at (rb_dup_cnt (sb_buffer s)) front) (\<lambda>d.
         rbind (at (rb_items (sb_buffer s)) front) (\<lambda>item.
         Inr (\<lparr> sh_items = sh_items b @ [item], sh_indices = sh_indices b @ [sb_base s + i],
                sh_shuffled = sh_shuffled b @ [sb_shuffle_base s + front],
                sh_dup_cnts = sh_dup_cnts b @ [d] \<rparr>,
              s \<lparr> sb_buffer := (sb_buffer s) \<lparr> rb_shuffled := rest \<rparr> \<rparr>))))"

partial_function (option) shuffled_loop ::
  "('p \<Rightarrow> (dup_batch \<times> 'p) result) \<Rightarrow> (nat \<Rightarrow> nat list \<Rightarrow> nat list) \<Rightarrow> nat \<Rightarrow> ShuffledBatch
     \<Rightarrow> 'p SimpleShuffledBatchProvider \<Rightarrow> (ShuffledBatch \<times> 'p SimpleShuffledBatchProvider) result option" where
  [code]: "shuffled_loop rd shuffle n_items b s =
     (if \<not> n_items < sb_batch_size s then Some (Inr (b, s))
      else if rb_shuffled (sb_buffer s) \<noteq> [] then
        (let n = min (sb_batch_size s - n_items) (length (rb_shuffled (sb_buffer s)))
         in case rfold push_one [0..<n] (b, s) of
              Inl e \<Rightarrow> Some (Inl e)
            | Inr (b', s') \<Rightarrow> shuffled_loop rd shuffle (n_items + n) b' (s' \<lparr> sb_base := sb_base s' + n \<rparr>))
      else
        (case ReadAndShuffle rd shuffle (s \<lparr> sb_shuffle_base := sb_shuffle_base s + length (rb_items (sb_buffer s)) \<rparr>) of
           Inl e \<Rightarrow> Some (Inl e)
         | Inr (buf, s') \<Rightarrow>
             if rb_items buf = [] then Some (Inr (b, s' \<lparr> sb_buffer := buf, sb_read_end := True \<rparr>))
             else shuffled_loop rd shuffle n_items b (s' \<lparr> sb_buffer := buf \<rparr>)))"

definition SimpleShuffled_ReadNextShuffledBatch ::
  "('p \<Rightarrow> (dup_batch \<times> 'p) result) \<Rightarrow> (nat \<Rightarrow> nat list \<Rightarrow> nat list)
     \<Rightarrow> 'p SimpleShuffledBatchProvider \<Rightarrow> (ShuffledBatch \<times> 'p SimpleShuffledBatchProvider) result option" where
  "SimpleShuffled_ReadNextShuffledBatch rd shuffle s =
     (if sb_read_end s then Some (Inr (empty_shuffled_batch, s))
      else shuffled_loop rd shuffle 0 empty_shuffled_batch s)"

section \<open>What is handed out\<close>

text \<open>The batch \<open>b\<close> after the rows of \<open>xs\<close> with the indices \<open>new\<close> were added to it.\<close>

definition add_rows :: "(string \<times> nat) list \<Rightarrow> nat \<Rightarrow> nat list \<Rightarrow> ShuffledBatch \<Rightarrow> ShuffledBatch" where
  "add_rows xs base new b =
     \<lparr> sh_items = sh_items b @ map (\<lambda>i. fst (xs ! i)) new,
       sh_indices = sh_indices b @ [base..<base + length new],
       sh_shuffled = sh_shuffled b @ new,
       sh_dup_cnts = sh_dup_cnts b @ map (\<lambda>i. snd (xs ! i)) new \<rparr>"

lemma add_rows_append:
  "add_rows xs (base + length new) new' (add_rows xs base new b) = add_rows xs base (new @ new') b"
  using upt_add_eq_append [of base "base + length new" "length new'"] by (simp add: add_rows_def add.assoc)

lemma add_rows_Nil: "add_rows xs base [] b = b"
  by (simp add: add_rows_def)

definition raw_of :: "(string \<times> nat) list \<Rightarrow> RawBatch \<Rightarrow> bool" where
  "raw_of ys r \<longleftrightarrow> rb_items r = map fst ys \<and> rb_dup_cnt r = map snd ys \<and> mset (rb_shuffled r) = mset [0..<length ys]"

lemma push_loop:
  assumes "rb_items (sb_buffer s) = map fst ys" "rb_dup_cnt (sb_buffer s) = map snd ys"
    and "\<forall>i \<in> set (rb_shuffled (sb_buffer s)). i < length ys" "n \<le> length (rb_shuffled (sb_buffer s))"
    and "ys = take (length ys) (drop (sb_shuffle_base s) xs)"
  shows "rfold push_one [0..<n] (b, s) =
     Inr (add_rows xs (sb_base s) (map ((+) (sb_shuffle_base s)) (take n (rb_shuffled (sb_buffer s)))) b,
          s \<lparr> sb_buffer := (sb_buffer s) \<lparr> rb_shuffled := drop n (rb_shuffled (sb_buffer s)) \<rparr> \<rparr>)"
  using assms(4)
proof (induction n)
  case (Suc n)
  let ?is = "rb_shuffled (sb_buffer s)"
  have n: "n < length ?is" and i: "?is ! n < length ys"
    using Suc.prems assms(3) by auto
  have "drop (sb_shuffle_base s) xs ! (?is ! n) = ys ! (?is ! n)"
    using i assms(5) by (metis nth_take)
  moreover have "sb_shuffle_base s \<le> length xs"
    using i assms(5) by (metis drop_all le_cases length_0_conv not_less_zero take_Nil)
  ultimately have "xs ! (sb_shuffle_base s + ?is ! n) = ys ! (?is ! n)"
    by simp
  then show ?case
    using Suc n i
    by (simp add: push_one_def Cons_nth_drop_Suc [symmetric] assms(1,2) take_Suc_conv_app_nth add_rows_def)
qed (simp add: add_rows_Nil)

context dup_cnt_provider
begin

definition future_ok :: "(string \<times> nat) list \<Rightarrow> 'p SimpleShuffledBatchProvider \<Rightarrow> bool" where
  "future_ok zs s \<longleftrightarrow> (\<exists>n r. sb_future s = Some (Inr r) \<and> raw_of (take n zs) r \<and> d_inv (sb_provider s) \<and>
     d_remaining (sb_provider s) = drop n zs \<and> (zs \<noteq> [] \<longrightarrow> 0 < n))"

definition shuf_state ::
  "(string \<times> nat) list \<Rightarrow> nat list \<Rightarrow> (string \<times> nat) list \<Rightarrow> 'p SimpleShuffledBatchProvider \<Rightarrow> bool" where
  "shuf_state xs out ys s \<longleftrightarrow> rb_items (sb_buffer s) = map fst ys \<and> rb_dup_cnt (sb_buffer s) = map snd ys \<and>
     ys = take (length ys) (drop (sb_shuffle_base s) xs) \<and> sb_shuffle_base s + length ys \<le> length xs \<and>
     mset out + mset (map ((+) (sb_shuffle_base s)) (rb_shuffled (sb_buffer s))) = mset [0..<sb_shuffle_base s + length ys] \<and>
     (\<forall>i \<in> set (rb_shuffled (sb_buffer s)). i < length ys) \<and>
     length out = sb_base s \<and> future_ok (drop (sb_shuffle_base s + length ys) xs) s \<and>
     (ys = [] \<longrightarrow> drop (sb_shuffle_base s) xs = []) \<and> \<not> sb_read_end s"

definition shuf_inv :: "(string \<times> nat) list \<Rightarrow> nat list \<Rightarrow> 'p SimpleShuffledBatchProvider \<Rightarrow> bool" where
  "shuf_inv xs out s \<longleftrightarrow> (\<exists>ys. shuf_state xs out ys s)"

lemma read_proc_spec:
  assumes "d_inv (sb_provider s)" "\<And>k is. mset (shuffle k is) = mset is"
  shows "\<exists>n r p'. read_proc rd shuffle s = Inr (r, s \<lparr> sb_provider := p', sb_seed := sb_seed s + 1 \<rparr>) \<and>
     raw_of (take n (d_remaining (sb_provider s))) r \<and> d_inv p' \<and>
     d_remaining p' = drop n (d_remaining (sb_provider s)) \<and> (d_remaining (sb_provider s) \<noteq> [] \<longrightarrow> 0 < n)"
proof -
  let ?R = "d_remaining (sb_provider s)"
  obtain n p' where r: "rd (sb_provider s) = Inr ((map fst (take n ?R), dup_cnt_map (map snd (take n ?R))), p')"
    "d_inv p'" "d_remaining p' = drop n ?R" "?R \<noteq> [] \<longrightarrow> 0 < n"
    using read_dup [OF assms(1)] by blast
  have "map (\<lambda>k. case dup_cnt_map (map snd ys) k of None \<Rightarrow> 0 | Some v \<Rightarrow> v) [0..<length ys] = map snd ys" for ys :: "(string \<times> nat) list"
    by (intro nth_equalityI) (simp_all add: dup_cnt_map_value)
  from this [of "take n ?R"] r show ?thesis
    by (intro exI [of _ n]) (auto simp: read_proc_def raw_of_def assms(2))
qed

lemma launch_future_ok:
  assumes "d_inv (sb_provider s)" "\<And>k is. mset (shuffle k is) = mset is"
  shows "future_ok (d_remaining (sb_provider s)) (launch rd shuffle s)"
  using read_proc_spec [of s shuffle, OF assms] by (auto simp: launch_def future_ok_def)

lemma launch_frame [simp]:
  "sb_batch_size (launch rd shuffle s) = sb_batch_size s" "sb_shuffle_base (launch rd shuffle s) = sb_shuffle_base s"
  "sb_base (launch rd shuffle s) = sb_base s" "sb_read_end (launch rd shuffle s) = sb_read_end s"
  by (auto simp: launch_def read_proc_def rbind_def split: sum.splits)

lemma raw_of_indices: "raw_of ys r \<Longrightarrow> (\<forall>i \<in> set (rb_shuffled r). i < length ys)"
  unfolding raw_of_def by (metis atLeastLessThan_iff mset_eq_setD set_upt)

lemma shuf_invI:
  assumes r: "raw_of ys (sb_buffer s)" and xs: "xs = pre @ ys @ zs" and base: "length pre = sb_shuffle_base s"
    and out: "mset out = mset [0..<length pre]" "length out = sb_base s"
    and fut: "future_ok zs s" "ys = [] \<longrightarrow> zs = []" "\<not> sb_read_end s"
  shows "shuf_inv xs out s"
proof -
  have "mset out + mset (map ((+) (length pre)) (rb_shuffled (sb_buffer s))) = mset [0..<length pre + length ys]"
    using r unfolding out(1) upt_append_shift [of "length pre"] mset_append mset_map by (simp add: raw_of_def)
  then have "shuf_state xs out ys s"
    unfolding shuf_state_def base [symmetric]
    using r fut out(2) raw_of_indices [OF r] by (simp add: xs raw_of_def)
  then show ?thesis unfolding shuf_inv_def ..
qed

text \<open>Refilling the buffer: either the data is at its end or the next rows are in the buffer.\<close>

lemma refill:
  assumes inv: "shuf_inv xs out s" "rb_shuffled (sb_buffer s) = []" and perm: "\<And>k is. mset (shuffle k is) = mset is"
    and s0: "s0 = s \<lparr> sb_shuffle_base := sb_shuffle_base s + length (rb_items (sb_buffer s)) \<rparr>"
  shows "\<exists>buf s'. ReadAndShuffle rd shuffle s0 = Inr (buf, s') \<and> sb_batch_size s' = sb_batch_size s \<and>
     (if rb_items buf = [] then mset out = mset [0..<length xs]
      else shuf_inv xs out (s' \<lparr> sb_buffer := buf \<rparr>) \<and> sb_shuffle_base s < sb_shuffle_base s' \<and> sb_shuffle_base s' < length xs)"
proof -
  from inv(1) obtain ys where "shuf_state xs out ys s"
    by (auto simp: shuf_inv_def)
  with inv(2) have ys: "rb_items (sb_buffer s) = map fst ys" "sb_shuffle_base s + length ys \<le> length xs"
      "mset out = mset [0..<sb_shuffle_base s + length ys]" "length out = sb_base s"
      "future_ok (drop (sb_shuffle_base s + length ys) xs) s"
      "ys = [] \<longrightarrow> drop (sb_shuffle_base s) xs = []" "\<not> sb_read_end s"
    by (simp_all add: shuf_state_def)
  let ?base = "sb_shuffle_base s + length ys"
  let ?zs = "drop ?base xs"
  obtain n r where r: "sb_future s = Some (Inr r)" "raw_of (take n ?zs) r" "d_inv (sb_provider s)"
      "d_remaining (sb_provider s) = drop n ?zs" "?zs \<noteq> [] \<longrightarrow> 0 < n"
    using ys(5) by (auto simp: future_ok_def)
  show ?thesis
  proof (cases "rb_items r = []")
    case True
    then have "take n ?zs = []" using r(2) by (simp add: raw_of_def)
    then have "?zs = []" using r(5) by (cases ?zs; cases n) auto
    then have "?base = length xs" using ys(2) by simp
    then have "mset out = mset [0..<length xs]" using ys(3) by (simp only: )
    then show ?thesis
      using True r(1) by (simp add: ReadAndShuffle_def s0)
  next
    case False
    let ?s = "launch rd shuffle (s0 \<lparr> sb_future := None \<rparr>) \<lparr> sb_buffer := r \<rparr>"
    let ?ys' = "take n ?zs"
    have ne: "?ys' \<noteq> []" using False r(2) by (auto simp: raw_of_def)
    then have "?zs \<noteq> []" by auto
    then have lt: "?base < length xs" by simp
    then have pos: "0 < length ys" using ys(6) by (cases ys) auto
    have "future_ok (drop n ?zs) (launch rd shuffle (s0 \<lparr> sb_future := None \<rparr>))"
      using launch_future_ok [of "s0 \<lparr> sb_future := None \<rparr>" shuffle] r(3,4) perm by (simp add: s0)
    then have "future_ok (drop n ?zs) ?s" by (simp add: future_ok_def)
    moreover have "xs = take ?base xs @ ?ys' @ drop n ?zs" by (metis append_take_drop_id)
    ultimately have "shuf_inv xs out ?s"
      using r(2) ys(1-4,7) ne by (intro shuf_invI [of ?ys' _ _ "take ?base xs" "drop n ?zs"]) (simp_all add: s0 min_def)
    moreover have "ReadAndShuffle rd shuffle s0 = Inr (r, launch rd shuffle (s0 \<lparr> sb_future := None \<rparr>))"
      using False r(1) by (simp add: ReadAndShuffle_def s0)
    ultimately show ?thesis
      using False lt pos ys(1) by (simp add: s0)
  qed
qed

lemma push_inv:
  assumes inv: "shuf_inv xs out s" and n: "n \<le> length (rb_shuffled (sb_buffer s))"
  shows "\<exists>new s'. rfold push_one [0..<n] (b, s) = Inr (add_rows xs (length out) new b, s') \<and>
     shuf_inv xs (out @ new) (s' \<lparr> sb_base := sb_base s' + n \<rparr>) \<and> length new = n \<and>
     sb_batch_size s' = sb_batch_size s \<and> sb_shuffle_base s' = sb_shuffle_base s \<and>
     rb_shuffled (sb_buffer s') = drop n (rb_shuffled (sb_buffer s))"
proof -
  from inv(1) obtain ys where "shuf_state xs out ys s"
    by (auto simp: shuf_inv_def)
  then have ys: "rb_items (sb_buffer s) = map fst ys" "rb_dup_cnt (sb_buffer s) = map snd ys"
     "\<forall>i \<in> set (rb_shuffled (sb_buffer s)). i < length ys"
     "ys = take (length ys) (drop (sb_shuffle_base s) xs)" "sb_shuffle_base s + length ys \<le> length xs"
     "mset out + mset (map ((+) (sb_shuffle_base s)) (rb_shuffled (sb_buffer s))) = mset [0..<sb_shuffle_base s + length ys]"
     "length out = sb_base s" "future_ok (drop (sb_shuffle_base s + length ys) xs) s"
     "ys = [] \<longrightarrow> drop (sb_shuffle_base s) xs = []" "\<not> sb_read_end s"
    unfolding shuf_state_def by auto
  let ?is = "rb_shuffled (sb_buffer s)"
  let ?new = "map ((+) (sb_shuffle_base s)) (take n ?is)"
  let ?s = "s \<lparr> sb_buffer := (sb_buffer s) \<lparr> rb_shuffled := drop n ?is \<rparr> \<rparr>"
  have "mset (out @ ?new) + mset (map ((+) (sb_shuffle_base s)) (drop n ?is)) = mset [0..<sb_shuffle_base s + length ys]"
    unfolding ys(6) [symmetric] mset_append add.assoc
    by (metis append_take_drop_id map_append mset_append)
  then have "shuf_state xs (out @ ?new) ys (?s \<lparr> sb_base := sb_base ?s + n \<rparr>)"
    unfolding shuf_state_def using ys(1-5,7-10) n by (auto simp: future_ok_def dest: in_set_dropD)
  then have "shuf_inv xs (out @ ?new) (?s \<lparr> sb_base := sb_base ?s + n \<rparr>)"
    unfolding shuf_inv_def ..
  then show ?thesis
    using push_loop [OF ys(1-3) n ys(4), of b] n ys(7)
    by (intro exI [of _ ?new] exI [of _ ?s]) simp
qed

lemma shuffled_loop_spec:
  assumes perm: "\<And>k is. mset (shuffle k is) = mset is"
  shows "shuf_inv xs out s \<Longrightarrow> n \<le> sb_batch_size s \<Longrightarrow>
    \<exists>new s'. shuffled_loop rd shuffle n b s = Some (Inr (add_rows xs (length out) new b, s')) \<and>
      sb_batch_size s' = sb_batch_size s \<and>
      (shuf_inv xs (out @ new) s' \<and> n + length new = sb_batch_size s \<or>
       sb_read_end s' \<and> mset (out @ new) = mset [0..<length xs])"
proof (induction "2 * (length xs - sb_shuffle_base s) + (if rb_shuffled (sb_buffer s) = [] then 0 else 1)"
    arbitrary: s out n b rule: less_induct)
  case less
  let ?is = "rb_shuffled (sb_buffer s)"
  consider (full) "n = sb_batch_size s" | (push) "n < sb_batch_size s" "?is \<noteq> []" | (fetch) "n < sb_batch_size s" "?is = []"
    using less.prems(2) by linarith
  then show ?case
  proof cases
    case full
    then show ?thesis
      using less.prems by (subst shuffled_loop.simps) (auto simp: add_rows_Nil intro!: exI [of _ "[]"])
  next
    case push
    let ?k = "min (sb_batch_size s - n) (length ?is)"
    obtain new s' where p: "rfold push_one [0..<?k] (b, s) = Inr (add_rows xs (length out) new b, s')"
      "shuf_inv xs (out @ new) (s' \<lparr> sb_base := sb_base s' + ?k \<rparr>)" "length new = ?k"
      "sb_batch_size s' = sb_batch_size s" "sb_shuffle_base s' = sb_shuffle_base s"
      "rb_shuffled (sb_buffer s') = drop ?k ?is"
      using push_inv [OF less.prems(1), of ?k b] by auto
    let ?s = "s' \<lparr> sb_base := sb_base s' + ?k \<rparr>"
    have step: "shuffled_loop rd shuffle n b s = shuffled_loop rd shuffle (n + ?k) (add_rows xs (length out) new b) ?s"
      using push p(1) by (subst shuffled_loop.simps) (simp add: Let_def)
    show ?thesis
    proof (cases "sb_batch_size s - n \<le> length ?is")
      case True
      then show ?thesis
        using p push(1) unfolding step by (subst shuffled_loop.simps) auto
    next
      case False
      then have "drop ?k ?is = []" by simp
      then obtain new' s'' where "shuffled_loop rd shuffle (n + ?k) (add_rows xs (length out) new b) ?s =
          Some (Inr (add_rows xs (length (out @ new)) new' (add_rows xs (length out) new b), s''))"
        "sb_batch_size s'' = sb_batch_size s" "shuf_inv xs ((out @ new) @ new') s'' \<and> n + ?k + length new' = sb_batch_size s \<or>
          sb_read_end s'' \<and> mset ((out @ new) @ new') = mset [0..<length xs]"
        using less.hyps [of ?s "out @ new" "n + ?k" "add_rows xs (length out) new b"] push p(2,4-6) False by fastforce
      then show ?thesis
        unfolding step using add_rows_append [of xs "length out" new new' b] p(3)
        by (intro exI [of _ "new @ new'"] exI [of _ s'']) auto
    qed
  next
    case fetch
    let ?s0 = "s \<lparr> sb_shuffle_base := sb_shuffle_base s + length (rb_items (sb_buffer s)) \<rparr>"
    obtain buf s' where r: "ReadAndShuffle rd shuffle ?s0 = Inr (buf, s')" "sb_batch_size s' = sb_batch_size s"
      "if rb_items buf = [] then mset out = mset [0..<length xs]
       else shuf_inv xs out (s' \<lparr> sb_buffer := buf \<rparr>) \<and> sb_shuffle_base s < sb_shuffle_base s' \<and> sb_shuffle_base s' < length xs"
      using refill [of xs out s shuffle, OF less.prems(1) fetch(2) perm refl] by (elim exE conjE) (rule that)
    show ?thesis
    proof (cases "rb_items buf = []")
      case True
      then show ?thesis
        using r fetch by (subst shuffled_loop.simps) (auto simp: add_rows_Nil intro!: exI [of _ "[]"])
    next
      case False
      have "shuffled_loop rd shuffle n b s = shuffled_loop rd shuffle n b (s' \<lparr> sb_buffer := buf \<rparr>)"
        using fetch r(1) False by (subst shuffled_loop.simps) simp
      moreover have "2 * (length xs - sb_shuffle_base s') + (if rb_shuffled buf = [] then 0 else 1) <
          2 * (length xs - sb_shuffle_base s) + (if rb_shuffled (sb_buffer s) = [] then 0 else (1::nat))"
        using r(3) False by (auto split: if_splits)
      ultimately show ?thesis
        using less.hyps [of "s' \<lparr> sb_buffer := buf \<rparr>" out n b] r False less.prems(2) by auto
    qed
  qed
qed

lemma SimpleShuffled_new_inv:
  assumes "d_inv p" "\<And>k is. mset (shuffle k is) = mset is"
  shows "\<exists>s. SimpleShuffled_new rd shuffle p bs = Inr s \<and> shuf_inv (d_remaining p) [] s \<and> sb_batch_size s = bs"
proof -
  let ?s = "\<lparr> sb_batch_size = bs, sb_provider = p, sb_seed = 0, sb_future = None, sb_shuffle_base = 0,
     sb_base = 0, sb_buffer = \<lparr> rb_items = [], rb_shuffled = [], rb_dup_cnt = [] \<rparr>, sb_read_end = False \<rparr>"
  let ?R = "d_remaining p"
  obtain n r p' where r: "read_proc rd shuffle ?s = Inr (r, ?s \<lparr> sb_provider := p', sb_seed := 1 \<rparr>)"
    "raw_of (take n ?R) r" "d_inv p'" "d_remaining p' = drop n ?R" "?R \<noteq> [] \<longrightarrow> 0 < n"
    using read_proc_spec [of ?s shuffle] assms by auto
  let ?s1 = "launch rd shuffle (?s \<lparr> sb_provider := p', sb_seed := 1 \<rparr>) \<lparr> sb_buffer := r \<rparr>"
  have "future_ok (drop n ?R) ?s1"
    using launch_future_ok [of "?s \<lparr> sb_provider := p', sb_seed := 1 \<rparr>" shuffle] r(3,4) assms(2)
    by (simp add: future_ok_def)
  then have "shuf_inv ?R [] ?s1"
    using r(2,5) by (intro shuf_invI [of "take n ?R" _ _ "[]" "drop n ?R"]) auto
  then show ?thesis
    using r(1) by (simp add: SimpleShuffled_new_def ReadAndShuffle_def)
qed

lemma shuffled_read:
  assumes "\<And>k is. mset (shuffle k is) = mset is" "shuf_inv xs out s"
  shows "\<exists>new s'. SimpleShuffled_ReadNextShuffledBatch rd shuffle s = Some (Inr (add_rows xs (length out) new empty_shuffled_batch, s')) \<and>
     sb_batch_size s' = sb_batch_size s \<and>
     (shuf_inv xs (out @ new) s' \<and> length new = sb_batch_size s \<or>
      sb_read_end s' \<and> mset (out @ new) = mset [0..<length xs])"
proof -
  have "\<not> sb_read_end s" using assms(2) by (auto simp: shuf_inv_def shuf_state_def)
  then show ?thesis
    using shuffled_loop_spec [of shuffle xs out s 0 empty_shuffled_batch, OF assms] by (simp add: SimpleShuffled_ReadNextShuffledBatch_def)
qed

end

text \<open>The loop of the callers: batches are read until one is empty.\<close>

partial_function (option) read_shuffled ::
  "('p \<Rightarrow> (dup_batch \<times> 'p) result) \<Rightarrow> (nat \<Rightarrow> nat list \<Rightarrow> nat list)
     \<Rightarrow> 'p SimpleShuffledBatchProvider \<Rightarrow> ShuffledBatch list result option" where
  [code]: "read_shuffled rd shuffle s =
     (case SimpleShuffled_ReadNextShuffledBatch rd shuffle s of
        None \<Rightarrow> None
      | Some (Inl e) \<Rightarrow> Some (Inl e)
      | Some (Inr (b, s')) \<Rightarrow>
          if sh_items b = [] then Some (Inr [])
          else Option.bind (read_shuffled rd shuffle s') (\<lambda>r. Some (rbind r (\<lambda>bs. Inr (b # bs)))))"

definition rows_match :: "ShuffledBatch \<Rightarrow> bool" where
  "rows_match b \<longleftrightarrow> length (sh_indices b) = length (sh_items b) \<and> length (sh_shuffled b) = length (sh_items b) \<and> length (sh_dup_cnts b) = length (sh_items b)"

definition gathers :: "(string \<times> nat) list \<Rightarrow> nat \<Rightarrow> nat list \<Rightarrow> ShuffledBatch list \<Rightarrow> bool" where
  "gathers xs base perm bs \<longleftrightarrow> concat (map sh_shuffled bs) = perm \<and>
     concat (map sh_items bs) = map (\<lambda>i. fst (xs ! i)) perm \<and>
     concat (map sh_dup_cnts bs) = map (\<lambda>i. snd (xs ! i)) perm \<and>
     concat (map sh_indices bs) = [base..<base + length perm] \<and> (\<forall>b \<in> set bs. rows_match b)"

lemma gathers_Cons:
  "gathers xs (base + length new) perm bs \<Longrightarrow> gathers xs base (new @ perm) (add_rows xs base new empty_shuffled_batch # bs)"
  using upt_add_eq_append [of base "base + length new" "length perm"]
  by (simp add: gathers_def add_rows_def empty_shuffled_batch_def rows_match_def add.assoc)

context dup_cnt_provider
begin

lemma read_shuffled_spec:
  assumes perm: "\<And>k is. mset (shuffle k is) = mset is"
  shows "shuf_inv xs out s \<Longrightarrow> 0 < sb_batch_size s \<Longrightarrow> \<exists>bs new. read_shuffled rd shuffle s = Some (Inr bs) \<and>
     gathers xs (length out) new bs \<and> mset (out @ new) = mset [0..<length xs]"
proof (induction "length xs - length out" arbitrary: out s rule: less_induct)
  case less
  obtain new s' where r: "SimpleShuffled_ReadNextShuffledBatch rd shuffle s =
      Some (Inr (add_rows xs (length out) new empty_shuffled_batch, s'))" "sb_batch_size s' = sb_batch_size s"
    "shuf_inv xs (out @ new) s' \<and> length new = sb_batch_size s \<or> sb_read_end s' \<and> mset (out @ new) = mset [0..<length xs]"
    using shuffled_read [of shuffle xs out s, OF perm less.prems(1)] by (elim exE conjE) (rule that)
  let ?b = "add_rows xs (length out) new empty_shuffled_batch"
  have items: "sh_items ?b = [] \<longleftrightarrow> new = []" by (simp add: add_rows_def empty_shuffled_batch_def)
  have step: "read_shuffled rd shuffle s' = Some (Inr bs) \<Longrightarrow> new \<noteq> [] \<Longrightarrow>
      read_shuffled rd shuffle s = Some (Inr (?b # bs))" for bs
    using r(1) items by (subst read_shuffled.simps) simp
  show ?case
  proof (cases "sb_read_end s'")
    case True
    then have m: "mset (out @ new) = mset [0..<length xs]"
      using r(3) by (auto simp: shuf_inv_def shuf_state_def)
    have "read_shuffled rd shuffle s' = Some (Inr [])"
      using True by (subst read_shuffled.simps) (simp add: SimpleShuffled_ReadNextShuffledBatch_def empty_shuffled_batch_def)
    with step [of "[]"] m show ?thesis
    proof (cases "new = []")
      case True
      then show ?thesis
        using r(1) items m by (subst read_shuffled.simps) (simp add: gathers_def)
    next
      case False
      then show ?thesis
        using step [of "[]"] \<open>read_shuffled rd shuffle s' = _\<close> m gathers_Cons [of xs "length out" new "[]" "[]"]
        by (intro exI [of _ "[?b]"] exI [of _ new]) (simp add: gathers_def)
    qed
  next
    case False
    then have inv: "shuf_inv xs (out @ new) s'" "length new = sb_batch_size s" using r(3) by auto
    then have ne: "new \<noteq> []" using less.prems(2) by auto
    have "length (out @ new) \<le> length xs"
    proof -
      obtain ys where "shuf_state xs (out @ new) ys s'" using inv(1) by (auto simp: shuf_inv_def)
      then have "length (out @ new) + length (rb_shuffled (sb_buffer s')) = sb_shuffle_base s' + length ys"
          "sb_shuffle_base s' + length ys \<le> length xs"
        unfolding shuf_state_def by (metis length_map mset_append size_mset length_append length_upt minus_nat.diff_0 size_union, simp)
      then show ?thesis by simp
    qed
    then have "length xs - length (out @ new) < length xs - length out"
      using ne by (cases new) auto
    from less.hyps [OF this inv(1)] less.prems(2) r(2) obtain bs new' where
      "read_shuffled rd shuffle s' = Some (Inr bs)" "gathers xs (length out + length new) new' bs"
      "mset ((out @ new) @ new') = mset [0..<length xs]" by auto
    then show ?thesis
      using step [of bs] ne gathers_Cons [of xs "length out" new new' bs]
      by (intro exI [of _ "?b # bs"] exI [of _ "new @ new'"]) auto
  qed
qed

lemma shuffled_provider_spec:
  assumes "d_inv p" "\<And>k is. mset (shuffle k is) = mset is" "0 < bs"
  shows "\<exists>s batches perm. SimpleShuffled_new rd shuffle p bs = Inr s \<and> read_shuffled rd shuffle s = Some (Inr batches) \<and>
     gathers (d_remaining p) 0 perm batches \<and> mset perm = mset [0..<length (d_remaining p)]"
proof -
  obtain s where s: "SimpleShuffled_new rd shuffle p bs = Inr s" "shuf_inv (d_remaining p) [] s" "sb_batch_size s = bs"
    using SimpleShuffled_new_inv [of p shuffle bs, OF assms(1,2)] by (elim exE conjE) (rule that)
  then show ?thesis
    using read_shuffled_spec [of shuffle "d_remaining p" "[]" s, OF assms(2) s(2)] assms(3) by auto
qed

end

text \<open>
  C37. Reading a shuffled provider over the key rows of a table terminates and hands out every row
  exactly once: the shuffled indices of all batches are a permutation of the row numbers, each
  item and duplicate count is that of the row its index names, and the batch indices count up
  from zero without gaps, however the rows are split into batches.
\<close>

theorem SimpleShuffled_permutes:
  assumes "Sorted_inv p" "\<And>k is. mset (shuffle k is) = mset is" "0 < bs"
  defines "rows \<equiv> Sorted_remaining p"
  shows "\<exists>s batches perm. SimpleShuffled_new Sorted_ReadNextBatchWithDupCnt shuffle p bs = Inr s \<and>
     read_shuffled Sorted_ReadNextBatchWithDupCnt shuffle s = Some (Inr batches) \<and>
     mset perm = mset [0..<length rows] \<and>
     concat (map sh_shuffled batches) = perm \<and>
     concat (map sh_items batches) = map (\<lambda>i. fst (rows ! i)) perm \<and>
     concat (map sh_dup_cnts batches) = map (\<lambda>i. snd (snd (rows ! i))) perm \<and>
     concat (map sh_indices batches) = [0..<length rows]"
proof -
  let ?xs = "map (\<lambda>(k, s, d). (k, d)) rows"
  obtain s batches perm where r: "SimpleShuffled_new Sorted_ReadNextBatchWithDupCnt shuffle p bs = Inr s"
    "read_shuffled Sorted_ReadNextBatchWithDupCnt shuffle s = Some (Inr batches)"
    "gathers ?xs 0 perm batches" "mset perm = mset [0..<length rows]"
    using sorted_dup.shuffled_provider_spec [of p shuffle bs, OF assms(1-3)] unfolding rows_def by auto
  have "set perm = {0..<length rows}" "length perm = length rows"
    using r(4) by (metis mset_eq_setD set_upt, metis length_upt minus_nat.diff_0 size_mset)
  then have "map (\<lambda>i. fst (?xs ! i)) perm = map (\<lambda>i. fst (rows ! i)) perm"
    "map (\<lambda>i. snd (?xs ! i)) perm = map (\<lambda>i. snd (snd (rows ! i))) perm"
    by (auto simp: case_prod_beta')
  with r \<open>length perm = length rows\<close> show ?thesis
    by (intro exI [of _ s] exI [of _ batches] exI [of _ perm]) (simp add: gathers_def)
qed

theorem SimpleShuffled_permutes_witness:
  "\<exists>p s batches perm. p = \<lparr> sp_batch_size = 2, sp_batch = None, sp_batch_index = 0,
       sp_reader = [Inr [(''a'', 0, 0), (''b'', 1, 2), (''c'', 4, 0)]] \<rparr> \<and>
     SimpleShuffled_new Sorted_ReadNextBatchWithDupCnt (\<lambda>_. rev) p 2 = Inr s \<and>
     read_shuffled Sorted_ReadNextBatchWithDupCnt (\<lambda>_. rev) s = Some (Inr batches) \<and>
     mset perm = mset [0..<3] \<and> concat (map sh_indices batches) = [0, 1, 2] \<and>
     concat (map sh_items batches) = map (\<lambda>i. [''a'', ''b'', ''c''] ! i) perm"
proof -
  let ?p = "\<lparr> sp_batch_size = 2, sp_batch = None, sp_batch_index = 0,
       sp_reader = [Inr [(''a'', 0, 0), (''b'', 1, 2), (''c'', 4, 0)]] \<rparr>"
  have "Sorted_inv ?p" by (simp add: Sorted_inv_def)
  moreover have rem: "Sorted_remaining ?p = [(''a'', 0, 0), (''b'', 1, 2), (''c'', 4, 0)]"
    by (simp add: Sorted_remaining_def pending_def u32_row_def u32_def)
  moreover have len: "length [(''a'', 0::nat, 0::nat), (''b'', 1, 2), (''c'', 4, 0)] = 3" by simp
  ultimately obtain s batches perm where r: "SimpleShuffled_new Sorted_ReadNextBatchWithDupCnt (\<lambda>_. rev) ?p 2 = Inr s"
    "read_shuffled Sorted_ReadNextBatchWithDupCnt (\<lambda>_. rev) s = Some (Inr batches)" "mset perm = mset [0..<3]"
    "concat (map sh_items batches) = map (\<lambda>i. fst ([(''a'', 0::nat, 0::nat), (''b'', 1, 2), (''c'', 4, 0)] ! i)) perm"
    "concat (map sh_indices batches) = [0..<3]"
    using SimpleShuffled_permutes [of ?p "\<lambda>_. rev" 2] unfolding rem len by fastforce
  have "fst ([(''a'', 0::nat, 0::nat), (''b'', 1, 2), (''c'', 4, 0)] ! i) = [''a'', ''b'', ''c''] ! i" if "i \<in> set perm" for i
  proof -
    have "i < 3" using that r(3) by (metis atLeastLessThan_iff mset_eq_setD set_upt)
    then show ?thesis by (auto simp: less_Suc_eq numeral_3_eq_3)
  qed
  then show ?thesis
    using r by (intro exI [of _ ?p] exI [of _ s] exI [of _ batches] exI [of _ perm]) (simp add: upt_rec)
qed

end
