(* ===== verification/Hash_Bucket.thy ===== *)
theory Hash_Bucket
  imports Index_Store Key_Info
begin

text \<open>
  \<open>psi/utils/hash_bucket_cache.cc\<close> (with \<open>MultiplexDiskCache\<close>) and the bucketed point store of
  \<open>ec_point_store.cc\<close>: items are spread over bucket files by the hash of their encoded data, and
  the intersection of two stores is computed bucket by bucket.

  Library functions are collected in the record \<open>codec\<close>: \<open>fmt\<close> prints an integer, \<open>atoi\<close> is
  \<open>absl::SimpleAtoi\<close>, \<open>b64\<close> is \<open>absl::Base64Escape\<close> and \<open>hs\<close> is \<open>std::hash\<close>.
  \<open>codec_ok\<close> states what is relied on: printed integers are read back and contain neither a
  comma nor a line break, and encoded data determines the data and contains neither.
\<close>

section \<open>Bucket items\<close>

record codec =
  fmt :: "nat \<Rightarrow> string"
  atoi :: "string \<Rightarrow> nat option"
  b64 :: "string \<Rightarrow> string"
  hs :: "string \<Rightarrow> nat"

definition codec_ok :: "codec \<Rightarrow> bool" where
  "codec_ok c \<longleftrightarrow> (\<forall>n. atoi c (fmt c n) = Some n) \<and> (\<forall>n. CHR '','' \<notin> set (fmt c n)) \<and>
     inj (b64 c) \<and> (\<forall>s. CHR '','' \<notin> set (b64 c s))"

record BucketItem =
  sec_hash :: "128 word"
  bi_index :: nat
  extra_dup_cnt :: nat
  base64_data :: string

definition BucketItem_Serialize :: "codec \<Rightarrow> BucketItem \<Rightarrow> string" where
  "BucketItem_Serialize c item =
     fmt c (bi_index item) @ CHR '','' # fmt c (extra_dup_cnt item) @ CHR '','' # base64_data item"

definition BucketItem_Deserialize :: "codec \<Rightarrow> string \<Rightarrow> BucketItem result" where
  "BucketItem_Deserialize c data_str =
     (let tokens = split_on (CHR '','') data_str in
      rbind (enforce (length tokens = 3) ''should have three tokens'') (\<lambda>_.
      case atoi c (tokens ! 0) of None \<Rightarrow> Inl (Enforce ''cannot convert to idx'')
      | Some idx \<Rightarrow>
        (case atoi c (tokens ! 1) of None \<Rightarrow> Inl (Enforce ''cannot convert to duplicate_cnt'')
         | Some dup \<Rightarrow> Inr \<lparr> sec_hash = 0, bi_index = idx, extra_dup_cnt = dup, base64_data = tokens ! 2 \<rparr>)))"

section \<open>The bucket cache\<close>

text \<open>The lines of each bucket file and the next item index.\<close>

record HashBucketCache =
  hb_files :: "string list list"
  hb_item_index :: nat

text \<open>
  \<open>existing\<close> are the bucket files found in the directory of the cache, which are opened for appending: none in
  the fresh directory of \<open>use_scoped_tmp_dir\<close>, those of an earlier run in the directory of a task with recovery.
\<close>

definition HashBucketCache_new :: "string list list \<Rightarrow> nat \<Rightarrow> HashBucketCache result" where
  "HashBucketCache_new existing bucket_num =
     rbind (enforce (bucket_num > 0) ''bucket_num'') (\<lambda>_.
     Inr \<lparr> hb_files = take bucket_num (existing @ replicate bucket_num []), hb_item_index = 0 \<rparr>)"

definition HashBucketCache_WriteItem :: "codec \<Rightarrow> string \<Rightarrow> nat \<Rightarrow> HashBucketCache \<Rightarrow> HashBucketCache result" where
  "HashBucketCache_WriteItem c data duplicate_cnt cache =
     (let item = \<lparr> sec_hash = 0, bi_index = hb_item_index cache, extra_dup_cnt = duplicate_cnt,
                   base64_data = b64 c data \<rparr>
      in if hb_files cache = [] then Inl (Undefined ''modulo zero'')
         else (let b = hs c (base64_data item) mod length (hb_files cache)
               in Inr (cache \<lparr> hb_files := (hb_files cache)
                          [b := hb_files cache ! b @ [BucketItem_Serialize c item]],
                          hb_item_index := hb_item_index cache + 1 \<rparr>)))"

definition HashBucketCache_LoadBucketItems :: "codec \<Rightarrow> HashBucketCache \<Rightarrow> nat \<Rightarrow> BucketItem list result" where
  "HashBucketCache_LoadBucketItems c cache index =
     rbind (at (hb_files cache) index) (rmap (BucketItem_Deserialize c))"

text \<open>\<open>CreateCacheFromProvider\<close>: the batches are those of \<open>ReadNextBatchWithDupCnt\<close>.\<close>

definition write_batch ::
  "codec \<Rightarrow> string list \<times> (nat \<Rightarrow> nat option) \<Rightarrow> HashBucketCache \<Rightarrow> HashBucketCache result" where
  "write_batch c batch cache =
     (let (items, duplicate_cnt) = batch in
      rfold (\<lambda>i. HashBucketCache_WriteItem c (items ! i)
               (case duplicate_cnt i of None \<Rightarrow> 0 | Some d \<Rightarrow> d)) [0..<length items] cache)"

partial_function (option) cache_from_provider ::
  "codec \<Rightarrow> ('p \<Rightarrow> ((string list \<times> (nat \<Rightarrow> nat option)) \<times> 'p) result) \<Rightarrow> 'p \<Rightarrow> HashBucketCache
     \<Rightarrow> HashBucketCache result option" where
  [code]: "cache_from_provider c rd p cache =
     (case rd p of
        Inl e \<Rightarrow> Some (Inl e)
      | Inr (batch, p') \<Rightarrow>
          if fst batch = [] then Some (Inr cache)
          else (case write_batch c batch cache of
                  Inl e \<Rightarrow> Some (Inl e)
                | Inr cache' \<Rightarrow> cache_from_provider c rd p' cache'))"

text \<open>
  With \<open>use_scoped_tmp_dir\<close>, the default, \<open>MultiplexDiskCache\<close> creates a directory of its own with a random
  name, in which there are no bucket files yet; otherwise the files are those of \<open>cache_dir\<close>.
\<close>

definition CreateCacheFromProvider ::
  "codec \<Rightarrow> ('p \<Rightarrow> ((string list \<times> (nat \<Rightarrow> nat option)) \<times> 'p) result) \<Rightarrow> 'p \<Rightarrow> string list list \<Rightarrow> nat \<Rightarrow> bool
     \<Rightarrow> HashBucketCache result option" where
  "CreateCacheFromProvider c rd p cache_dir bucket_num use_scoped_tmp_dir =
     (case HashBucketCache_new (if use_scoped_tmp_dir then [] else cache_dir) bucket_num of
        Inl e \<Rightarrow> Some (Inl e) | Inr cache \<Rightarrow> cache_from_provider c rd p cache)"

section \<open>Intersecting two stores\<close>

text \<open>\<open>HashBucketEcPointStore\<close> is the cache with \<open>Save\<close> as \<open>WriteItem\<close>.\<close>

definition EcPointStore_Save :: "codec \<Rightarrow> string \<Rightarrow> nat \<Rightarrow> HashBucketCache \<Rightarrow> HashBucketCache result" where
  "EcPointStore_Save c ciphertext duplicate_cnt cache = HashBucketCache_WriteItem c ciphertext duplicate_cnt cache"

definition EcPointStore_SaveAll ::
  "codec \<Rightarrow> string list \<Rightarrow> (nat \<Rightarrow> nat option) \<Rightarrow> HashBucketCache \<Rightarrow> HashBucketCache result" where
  "EcPointStore_SaveAll c ciphertext duplicate_cnt cache =
     rfold (\<lambda>i cache. case duplicate_cnt i of
              Some d \<Rightarrow> EcPointStore_Save c (ciphertext ! i) d cache
            | None \<Rightarrow> EcPointStore_Save c (ciphertext ! i) 0 cache) [0..<length ciphertext] cache"

definition FinalizeAndComputeIndices ::
  "codec \<Rightarrow> HashBucketCache \<Rightarrow> HashBucketCache \<Rightarrow> nat list result" where
  "FinalizeAndComputeIndices c self peer =
     rbind (enforce (length (hb_files self) = length (hb_files peer)) ''num_bins'') (\<lambda>_.
     rbind (rfold (\<lambda>bin_idx indices.
         rbind (HashBucketCache_LoadBucketItems c self bin_idx) (\<lambda>self_results.
         rbind (HashBucketCache_LoadBucketItems c peer bin_idx) (\<lambda>peer_results.
         let peer_set = set (map base64_data peer_results)
         in Inr (indices @ map bi_index (filter (\<lambda>item. base64_data item \<in> peer_set) self_results)))))
       [0..<length (hb_files self)] []) (\<lambda>indices.
     Inr (sort indices)))"

text \<open>
  The variant that writes the indices with the peer's duplicate counts. An \<open>unordered_set\<close> whose
  elements are compared by their data keeps the first of several equal items.
\<close>

definition peer_find :: "BucketItem list \<Rightarrow> BucketItem \<Rightarrow> BucketItem option" where
  "peer_find peer_set item = find (\<lambda>p. base64_data p = base64_data item) peer_set"

definition write_matches ::
  "BucketItem list \<Rightarrow> BucketItem \<Rightarrow> nat \<times> IndexWriter \<Rightarrow> (nat \<times> IndexWriter) result" where
  "write_matches peer_results item = (\<lambda>(cnt, w).
     case peer_find peer_results item of
       None \<Rightarrow> Inr (cnt, w)
     | Some p \<Rightarrow> rbind (IndexWriter_WriteCache1 (bi_index item) (extra_dup_cnt p) w) (\<lambda>w'.
                 Inr (u32 (cnt + (extra_dup_cnt p + 1)), w')))"

definition finalize_bin ::
  "codec \<Rightarrow> HashBucketCache \<Rightarrow> HashBucketCache \<Rightarrow> nat \<Rightarrow> nat \<times> nat \<times> IndexWriter \<Rightarrow> (nat \<times> nat \<times> IndexWriter) result"
where
  "finalize_bin c self peer bin_idx = (\<lambda>(total, cnt, w).
     rbind (HashBucketCache_LoadBucketItems c self bin_idx) (\<lambda>self_results.
     rbind (HashBucketCache_LoadBucketItems c peer bin_idx) (\<lambda>peer_results.
     rbind (rfold (write_matches peer_results) self_results (cnt, w)) (\<lambda>(cnt', w').
     rbind (IndexWriter_Commit w') (\<lambda>w''.
     Inr (fold (\<lambda>p total. u32 (total + (extra_dup_cnt p + 1))) peer_results total, cnt', w''))))))"

definition FinalizeAndWriteIndices ::
  "codec \<Rightarrow> HashBucketCache \<Rightarrow> HashBucketCache \<Rightarrow> IndexWriter \<Rightarrow> (nat \<times> nat \<times> IndexWriter) result" where
  "FinalizeAndWriteIndices c self peer writer =
     rbind (enforce (length (hb_files self) = length (hb_files peer)) ''num_bins'') (\<lambda>_.
     rfold (finalize_bin c self peer) [0..<length (hb_files self)] (0, 0, writer))"

section \<open>What a cache holds\<close>

text \<open>The items written so far, with their indices, and the part of them in one bucket.\<close>

definition items_of :: "codec \<Rightarrow> (string \<times> nat) list \<Rightarrow> BucketItem list" where
  "items_of c xs = map (\<lambda>(i, d, n). \<lparr> sec_hash = 0, bi_index = i, extra_dup_cnt = n, base64_data = b64 c d \<rparr>)
     (enumerate 0 xs)"

definition bucket_of :: "codec \<Rightarrow> nat \<Rightarrow> BucketItem \<Rightarrow> nat" where
  "bucket_of c n item = hs c (base64_data item) mod n"

definition holds :: "codec \<Rightarrow> nat \<Rightarrow> (string \<times> nat) list \<Rightarrow> HashBucketCache \<Rightarrow> bool" where
  "holds c n xs cache \<longleftrightarrow> 0 < n \<and> hb_item_index cache = length xs \<and>
     hb_files cache = map (\<lambda>b. map (BucketItem_Serialize c)
       (filter (\<lambda>item. bucket_of c n item = b) (items_of c xs))) [0..<n]"

lemma Deserialize_Serialize:
  assumes "codec_ok c" "item \<in> set (items_of c xs)"
  shows "BucketItem_Deserialize c (BucketItem_Serialize c item) = Inr item"
proof -
  obtain d where "base64_data item = b64 c d" "sec_hash item = 0"
    using assms(2) by (auto simp: items_of_def)
  with assms(1) show ?thesis
    by (cases item) (simp add: codec_ok_def BucketItem_Deserialize_def BucketItem_Serialize_def split_on_append
        split_on_single)
qed

lemma holds_new: "0 < n \<Longrightarrow> \<exists>cache. HashBucketCache_new [] n = Inr cache \<and> holds c n [] cache"
  by (auto simp: HashBucketCache_new_def holds_def items_of_def map_replicate_const)

lemma items_of_snoc:
  "items_of c (xs @ [(d, n)]) = items_of c xs @
     [\<lparr> sec_hash = 0, bi_index = length xs, extra_dup_cnt = n, base64_data = b64 c d \<rparr>]"
  by (simp add: items_of_def enumerate_append_eq)

lemma holds_write:
  assumes "holds c n xs cache"
  shows "\<exists>cache'. HashBucketCache_WriteItem c d dup cache = Inr cache' \<and> holds c n (xs @ [(d, dup)]) cache'"
proof -
  let ?item = "\<lparr> sec_hash = 0, bi_index = length xs, extra_dup_cnt = dup, base64_data = b64 c d \<rparr>"
  let ?f = "\<lambda>b ys. map (BucketItem_Serialize c) (filter (\<lambda>item. bucket_of c n item = b) ys)"
  have len: "length (hb_files cache) = n" "0 < n" "hb_item_index cache = length xs"
    using assms by (auto simp: holds_def)
  then have ne: "hb_files cache \<noteq> []" by auto
  have b: "bucket_of c n ?item < n" "hs c (b64 c d) mod n = bucket_of c n ?item"
    using len by (simp_all add: bucket_of_def)
  have "(hb_files cache)[bucket_of c n ?item := hb_files cache ! bucket_of c n ?item @ [BucketItem_Serialize c ?item]] =
      map (\<lambda>b. ?f b (items_of c (xs @ [(d, dup)]))) [0..<n]"
    using assms b(1) len
    by (intro nth_equalityI) (auto simp: holds_def items_of_snoc nth_list_update)
  then show ?thesis
    using ne len b by (simp add: HashBucketCache_WriteItem_def Let_def holds_def)
qed

lemma holds_SaveAll:
  assumes "holds c n xs cache"
  shows "\<exists>cache'. EcPointStore_SaveAll c ds dup cache = Inr cache' \<and>
     holds c n (xs @ map (\<lambda>i. (ds ! i, case dup i of None \<Rightarrow> 0 | Some k \<Rightarrow> k)) [0..<length ds]) cache'"
  unfolding EcPointStore_SaveAll_def
proof (rule rfold_upt_inv [where I = "\<lambda>i cache'. holds c n (xs @ map (\<lambda>i. (ds ! i, case dup i of None \<Rightarrow> 0 | Some k \<Rightarrow> k)) [0..<i]) cache'"])
  fix i cache' assume "holds c n (xs @ map (\<lambda>i. (ds ! i, case dup i of None \<Rightarrow> 0 | Some k \<Rightarrow> k)) [0..<i]) cache'"
  from holds_write [OF this, of "ds ! i" "case dup i of None \<Rightarrow> 0 | Some k \<Rightarrow> k"]
  show "\<exists>s'. (case dup i of Some d \<Rightarrow> EcPointStore_Save c (ds ! i) d cache'
            | None \<Rightarrow> EcPointStore_Save c (ds ! i) 0 cache') = Inr s' \<and>
      holds c n (xs @ map (\<lambda>i. (ds ! i, case dup i of None \<Rightarrow> 0 | Some k \<Rightarrow> k)) [0..<Suc i]) s'"
    by (cases "dup i") (simp_all add: EcPointStore_Save_def)
qed (use assms in simp)

lemma holds_load:
  assumes "codec_ok c" "holds c n xs cache" "b < n"
  shows "HashBucketCache_LoadBucketItems c cache b =
     Inr (filter (\<lambda>item. bucket_of c n item = b) (items_of c xs))"
proof -
  let ?items = "filter (\<lambda>item. bucket_of c n item = b) (items_of c xs)"
  have "rmap (BucketItem_Deserialize c) (map (BucketItem_Serialize c) ?items) = Inr ?items"
    unfolding rmap_eq_Inr_iff
    by (auto simp: list_all2_map1 Deserialize_Serialize [OF assms(1)] intro!: list.rel_refl_strong)
  then show ?thesis
    using assms(2,3) by (simp add: HashBucketCache_LoadBucketItems_def holds_def)
qed

text \<open>
  C36. Everything written to the bucket cache is read back: bucket \<open>b\<close> holds exactly the items
  whose encoded data hashes to it, in the order of writing, each with its position in the input as
  index and with its duplicate count; no item is lost or duplicated over the buckets.
\<close>

theorem HashBucketCache_roundtrip:
  assumes "codec_ok c" "0 < n"
  shows "\<exists>cache0 cache. HashBucketCache_new [] n = Inr cache0 \<and>
     EcPointStore_SaveAll c ds dup cache0 = Inr cache \<and>
     (\<forall>b < n. HashBucketCache_LoadBucketItems c cache b =
        Inr (filter (\<lambda>item. hs c (base64_data item) mod n = b)
          (map (\<lambda>i. \<lparr> sec_hash = 0, bi_index = i, extra_dup_cnt = (case dup i of None \<Rightarrow> 0 | Some k \<Rightarrow> k),
                      base64_data = b64 c (ds ! i) \<rparr>) [0..<length ds])))"
proof -
  let ?xs = "map (\<lambda>i. (ds ! i, case dup i of None \<Rightarrow> 0 | Some k \<Rightarrow> k)) [0..<length ds]"
  obtain cache0 where "HashBucketCache_new [] n = Inr cache0" and 0: "holds c n [] cache0"
    using holds_new [OF assms(2)] by blast
  moreover obtain cache where "EcPointStore_SaveAll c ds dup cache0 = Inr cache" "holds c n ?xs cache"
    using holds_SaveAll [OF 0, of ds dup] by auto
  moreover have "items_of c ?xs = map (\<lambda>i. \<lparr> sec_hash = 0, bi_index = i,
      extra_dup_cnt = (case dup i of None \<Rightarrow> 0 | Some k \<Rightarrow> k), base64_data = b64 c (ds ! i) \<rparr>) [0..<length ds]"
    by (intro nth_equalityI) (auto simp: items_of_def nth_enumerate_eq)
  ultimately show ?thesis
    using holds_load [OF assms(1)] by (auto simp: bucket_of_def)
qed

fun escape :: "string \<Rightarrow> string" where
  "escape [] = []"
| "escape (ch # s) = (if ch = CHR '','' then ''xc'' @ escape s
     else if ch = CHR ''x'' then ''xx'' @ escape s else ch # escape s)"

definition unary_codec :: codec where
  "unary_codec = \<lparr> fmt = (\<lambda>n. replicate n CHR ''1''), atoi = (\<lambda>s. Some (length s)), b64 = escape, hs = length \<rparr>"

lemma escape_inj: "escape s = escape t \<Longrightarrow> s = t"
proof (induction s arbitrary: t)
  case Nil
  then show ?case by (cases t) (auto split: if_splits)
next
  case (Cons ch s)
  then show ?case by (cases t) (auto split: if_splits)
qed

lemma unary_codec_ok: "codec_ok unary_codec"
proof -
  have "CHR '','' \<notin> set (escape s)" for s
    by (induction s) auto
  then show ?thesis
    by (auto simp: codec_ok_def unary_codec_def inj_def dest: escape_inj)
qed

theorem HashBucketCache_roundtrip_witness:
  "\<exists>cache0 cache. HashBucketCache_new [] 2 = Inr cache0 \<and>
     EcPointStore_SaveAll unary_codec [''a,'', ''bc''] (\<lambda>_. None) cache0 = Inr cache \<and>
     HashBucketCache_LoadBucketItems unary_codec cache 0 =
       Inr [\<lparr> sec_hash = 0, bi_index = 1, extra_dup_cnt = 0, base64_data = ''bc'' \<rparr>]"
  using HashBucketCache_roundtrip [OF unary_codec_ok, of 2 "[''a,'', ''bc'']" "\<lambda>_. None"]
  by (auto simp: unary_codec_def)

section \<open>Intersection of two stores\<close>

lemma bucket_of_less: "holds c n xs cache \<Longrightarrow> bucket_of c n item < n"
  by (simp add: holds_def bucket_of_def)

lemma buckets_partition:
  "holds c n xs cache \<Longrightarrow> mset (concat (map (\<lambda>b. filter (\<lambda>item. bucket_of c n item = b) items) [0..<n])) = mset items"
  using bucket_of_less by (intro mset_concat_buckets) blast

lemma data_in_bucket:
  assumes "bucket_of c n item = b"
  shows "base64_data item \<in> set (map base64_data (filter (\<lambda>it. bucket_of c n it = b) items)) \<longleftrightarrow>
     base64_data item \<in> set (map base64_data items)"
  using assms by (auto simp: bucket_of_def)

lemma rfold_append_lists:
  assumes "\<And>b acc. b \<in> set bs \<Longrightarrow> f b acc = Inr (acc @ g b)"
  shows "rfold f bs acc = Inr (acc @ concat (map g bs))"
  using assms by (induction bs arbitrary: acc) auto

lemma sort_eqI: "mset xs = mset ys \<Longrightarrow> sorted ys \<Longrightarrow> sort xs = ys"
  by (metis properties_for_sort)

lemma items_of_data: "set (map base64_data (items_of c ys)) = b64 c ` set (map fst ys)"
proof -
  have "map base64_data (items_of c ys) = map (b64 c) (map fst ys)"
    by (intro nth_equalityI) (auto simp: items_of_def nth_enumerate_eq split: prod.splits)
  then show ?thesis by (metis set_map)
qed

text \<open>
  \<open>FinalizeAndComputeIndices\<close> returns in ascending order exactly the positions of the own
  items that are also in the peer's store.
\<close>

theorem FinalizeAndComputeIndices_correct:
  assumes "codec_ok c" "holds c n xs self" "holds c n ys peer"
  shows "FinalizeAndComputeIndices c self peer =
     Inr (filter (\<lambda>i. fst (xs ! i) \<in> set (map fst ys)) [0..<length xs])"
proof -
  let ?P = "\<lambda>item. base64_data item \<in> set (map base64_data (items_of c ys))"
  let ?g = "\<lambda>b. map bi_index (filter ?P (filter (\<lambda>item. bucket_of c n item = b) (items_of c xs)))"
  have len: "length (hb_files self) = n" "length (hb_files peer) = n"
    using assms(2,3) by (simp_all add: holds_def)
  have step: "rbind (HashBucketCache_LoadBucketItems c self b) (\<lambda>self_results.
         rbind (HashBucketCache_LoadBucketItems c peer b) (\<lambda>peer_results.
         let peer_set = set (map base64_data peer_results)
         in Inr (acc @ map bi_index (filter (\<lambda>item. base64_data item \<in> peer_set) self_results)))) =
       Inr (acc @ ?g b)" if "b \<in> set [0..<n]" for b acc
    using that data_in_bucket [of c n _ b "items_of c ys"]
    by (simp add: holds_load [OF assms(1,2)] holds_load [OF assms(1,3)] Let_def cong: filter_cong conj_cong)
  have "concat (map ?g [0..<n]) = map bi_index (filter ?P (concat (map (\<lambda>b. filter (\<lambda>item. bucket_of c n item = b) (items_of c xs)) [0..<n])))"
    by (simp add: map_concat filter_concat comp_def)
  then have "mset (concat (map ?g [0..<n])) = mset (map bi_index (filter ?P (items_of c xs)))"
    by (simp only: mset_map mset_filter buckets_partition [OF assms(2)])
  also have "map bi_index (filter ?P (items_of c xs)) = filter (\<lambda>i. fst (xs ! i) \<in> set (map fst ys)) [0..<length xs]"
  proof -
    have "items_of c xs = map (\<lambda>i. \<lparr> sec_hash = 0, bi_index = i, extra_dup_cnt = snd (xs ! i),
        base64_data = b64 c (fst (xs ! i)) \<rparr>) [0..<length xs]"
      by (intro nth_equalityI) (auto simp: items_of_def nth_enumerate_eq split: prod.splits)
    moreover have "b64 c d \<in> b64 c ` S \<longleftrightarrow> d \<in> S" for d S
      using assms(1) by (auto simp: codec_ok_def inj_def)
    ultimately show ?thesis
      unfolding items_of_data by (simp add: filter_map comp_def)
  qed
  finally have "sort (concat (map ?g [0..<n])) = filter (\<lambda>i. fst (xs ! i) \<in> set (map fst ys)) [0..<length xs]"
    by (rule sort_eqI) (rule sorted_wrt_filter, simp)
  then show ?thesis
    using rfold_append_lists [where bs = "[0..<n]" and g = ?g and acc = "[]", OF step]
    by (simp add: FinalizeAndComputeIndices_def len)
qed

lemma holds_example:
  "\<exists>cache. rbind (HashBucketCache_new [] 2) (EcPointStore_SaveAll c ds dup) = Inr cache \<and>
     holds c 2 (map (\<lambda>i. (ds ! i, case dup i of None \<Rightarrow> 0 | Some k \<Rightarrow> k)) [0..<length ds]) cache"
proof -
  obtain cache0 where "HashBucketCache_new [] 2 = Inr cache0" "holds c 2 [] cache0"
    using holds_new [of 2 c] by auto
  with holds_SaveAll [of c 2 "[]" cache0 ds dup] show ?thesis by auto
qed

theorem FinalizeAndComputeIndices_correct_witness:
  "\<exists>self peer. rbind (HashBucketCache_new [] 2) (EcPointStore_SaveAll unary_codec [''a'', ''b'', ''cc''] (\<lambda>_. None)) = Inr self \<and>
     rbind (HashBucketCache_new [] 2) (EcPointStore_SaveAll unary_codec [''cc'', ''a''] (\<lambda>_. None)) = Inr peer \<and>
     FinalizeAndComputeIndices unary_codec self peer = Inr [0, 2]"
proof -
  obtain self where s: "rbind (HashBucketCache_new [] 2) (EcPointStore_SaveAll unary_codec [''a'', ''b'', ''cc''] (\<lambda>_. None)) = Inr self"
    "holds unary_codec 2 [(''a'', 0), (''b'', 0), (''cc'', 0)] self"
    using holds_example [of unary_codec "[''a'', ''b'', ''cc'']" "\<lambda>_. None"] by (auto simp: numeral_3_eq_3)
  obtain peer where p: "rbind (HashBucketCache_new [] 2) (EcPointStore_SaveAll unary_codec [''cc'', ''a''] (\<lambda>_. None)) = Inr peer"
    "holds unary_codec 2 [(''cc'', 0), (''a'', 0)] peer"
    using holds_example [of unary_codec "[''cc'', ''a'']" "\<lambda>_. None"] by (auto simp: numeral_2_eq_2)
  from FinalizeAndComputeIndices_correct [OF unary_codec_ok s(2) p(2)] s(1) p(1) show ?thesis
    by (simp add: numeral_2_eq_2)
qed

text \<open>
  The rows the writing variant has to produce, in the order of the own items: the position of each
  common item and the duplicate count the peer has for it.
\<close>

definition store_matches :: "(string \<times> nat) list \<Rightarrow> (string \<times> nat) list \<Rightarrow> index_row list" where
  "store_matches xs ys = List.map_filter (\<lambda>(i, d, n). map_option (Pair i) (map_of ys d)) (enumerate 0 xs)"

definition item_row :: "BucketItem list \<Rightarrow> BucketItem \<Rightarrow> index_row option" where
  "item_row peers item = map_option (\<lambda>p. (bi_index item, extra_dup_cnt p)) (peer_find peers item)"

lemma rfold_write_matches:
  assumes "\<not> iw_closed w"
  shows "\<exists>w'. rfold (write_matches peers) items (u32 cnt, w) =
      Inr (u32 (cnt + sum_list (map (\<lambda>(i, k). k + 1) (List.map_filter (item_row peers) items))), w') \<and>
    w' = w \<lparr> iw_cache := iw_cache w @ List.map_filter (item_row peers) items,
             iw_cache_cnt := iw_cache_cnt w + length (List.map_filter (item_row peers) items),
             iw_write_cnt := iw_write_cnt w + length (List.map_filter (item_row peers) items) \<rparr>"
  using assms
proof (induction items arbitrary: cnt w)
  case (Cons item items)
  show ?case
  proof (cases "peer_find peers item")
    case None
    then show ?thesis
      using Cons.IH [of w cnt] Cons.prems by (simp add: write_matches_def item_row_def map_filter_simps)
  next
    case (Some p)
    let ?w = "w \<lparr> iw_cache := iw_cache w @ [(bi_index item, extra_dup_cnt p)],
       iw_cache_cnt := iw_cache_cnt w + 1, iw_write_cnt := iw_write_cnt w + 1 \<rparr>"
    show ?thesis
      using Cons.IH [of ?w "cnt + (extra_dup_cnt p + 1)"] Cons.prems
      by (simp add: write_matches_def item_row_def map_filter_simps Some IndexWriter_WriteCache1_def add.assoc)
  qed
qed (simp add: map_filter_simps)

lemma peer_find_items:
  assumes "codec_ok c"
  shows "map_option extra_dup_cnt (find (\<lambda>p. base64_data p = b64 c d) (items_of c ys)) = map_of ys d"
proof -
  have "map_option extra_dup_cnt (find (\<lambda>p. base64_data p = b64 c d)
      (map (\<lambda>(i, d, n). \<lparr> sec_hash = 0, bi_index = i, extra_dup_cnt = n, base64_data = b64 c d \<rparr>)
        (enumerate k ys))) = map_of ys d" for k
    using assms by (induction ys arbitrary: k) (auto simp: codec_ok_def inj_def)
  then show ?thesis by (simp add: items_of_def)
qed

lemma item_row_bucket:
  assumes "bucket_of c n item = b"
  shows "item_row (filter (\<lambda>it. bucket_of c n it = b) peers) item = item_row peers item"
proof -
  have "find (\<lambda>p. base64_data p = base64_data item) (filter (\<lambda>it. bucket_of c n it = b) peers) =
      find (\<lambda>p. base64_data p = base64_data item) peers"
    using assms by (intro find_filter) (auto simp: bucket_of_def)
  then show ?thesis by (simp add: item_row_def peer_find_def)
qed

lemma map_filter_cong: "(\<And>x. x \<in> set xs \<Longrightarrow> f x = g x) \<Longrightarrow> List.map_filter f xs = List.map_filter g xs"
  by (auto simp: map_filter_def cong: filter_cong map_cong)

lemma map_filter_concat: "List.map_filter f (concat xss) = concat (map (List.map_filter f) xss)"
  by (induction xss) (auto simp: map_filter_def)

lemma store_matches_items:
  assumes "codec_ok c"
  shows "List.map_filter (item_row (items_of c ys)) (items_of c xs) = store_matches xs ys"
proof -
  have "item_row (items_of c ys) \<lparr> sec_hash = 0, bi_index = i, extra_dup_cnt = n, base64_data = b64 c d \<rparr> =
      map_option (Pair i) (map_of ys d)" for i n d
    unfolding peer_find_items [OF assms, of d ys, symmetric]
    by (cases "find (\<lambda>p. base64_data p = b64 c d) (items_of c ys)") (simp_all add: item_row_def peer_find_def)
  then show ?thesis
    by (simp add: store_matches_def items_of_def map_filter_def filter_map comp_def case_prod_beta')
qed

lemma store_matches_ascending:
  "sorted (map fst (store_matches xs ys))" "distinct (map fst (store_matches xs ys))"
proof -
  have "map fst (store_matches xs ys) = map fst (filter (\<lambda>(i, d, n). map_of ys d \<noteq> None) (enumerate 0 xs))"
    by (auto simp: store_matches_def map_filter_def comp_def intro!: map_cong filter_cong)
  moreover have "sorted_wrt (<) (map fst (filter P (enumerate 0 xs)))" for P
  proof -
    have "sorted_wrt (\<lambda>a b. fst a < fst b) (enumerate 0 xs)"
      using sorted_wrt_upt [of 0 "length xs"] by (simp add: enumerate_eq_zip sorted_wrt_iff_nth_less)
    then show ?thesis by (simp add: sorted_wrt_map sorted_wrt_filter)
  qed
  ultimately show "sorted (map fst (store_matches xs ys))" "distinct (map fst (store_matches xs ys))"
    by (metis strict_sorted_iff)+
qed

text \<open>The rows of all buckets are those of the whole stores.\<close>

lemma bucket_rows:
  assumes "codec_ok c" "0 < n"
  defines "part items b \<equiv> filter (\<lambda>item. bucket_of c n item = b) items"
  shows "mset (concat (map (\<lambda>b. List.map_filter (item_row (part (items_of c ys) b)) (part (items_of c xs) b)) [0..<n])) = mset (store_matches xs ys)"
proof -
  let ?row = "item_row (items_of c ys)"
  have "List.map_filter (item_row (part (items_of c ys) b)) (part (items_of c xs) b) = List.map_filter ?row (part (items_of c xs) b)" for b
    unfolding part_def by (rule map_filter_cong) (auto simp: item_row_bucket)
  then have "concat (map (\<lambda>b. List.map_filter (item_row (part (items_of c ys) b)) (part (items_of c xs) b)) [0..<n]) =
      List.map_filter ?row (concat (map (part (items_of c xs)) [0..<n]))"
    by (simp add: map_filter_concat comp_def)
  moreover have "mset (concat (map (part (items_of c xs)) [0..<n])) = mset (items_of c xs)"
    unfolding part_def using assms(2) by (intro mset_concat_buckets) (simp add: bucket_of_def)
  ultimately show ?thesis
    unfolding store_matches_items [OF assms(1), symmetric] map_filter_def by simp
qed

lemma FinalizeAndWriteIndices_rows:
  assumes "codec_ok c" "holds c n xs self" "holds c n ys peer"
    and "\<not> iw_closed w" "iw_cache w = []" "iw_cache_cnt w = 0" "iw_file w = []"
  shows "\<exists>w'. FinalizeAndWriteIndices c self peer w =
       Inr (sum_list (map (\<lambda>(d, k). k + 1) ys) mod 2 ^ 32, sum_list (map (\<lambda>(i, k). k + 1) (store_matches xs ys)) mod 2 ^ 32, w') \<and>
     sort_key fst (iw_file w') = store_matches xs ys \<and> \<not> iw_closed w' \<and> iw_cache w' = []"
proof -
  define S P where "S b = filter (\<lambda>item. bucket_of c n item = b) (items_of c xs)"
    and "P b = filter (\<lambda>item. bucket_of c n item = b) (items_of c ys)" for b
  define rows where "rows b = List.map_filter (item_row (items_of c ys)) (S b)" for b
  let ?tot = "\<lambda>items. sum_list (map (\<lambda>p. extra_dup_cnt p + 1) items)"
  let ?cnt = "\<lambda>rs. sum_list (map (\<lambda>(i, k). k + 1) (rs :: index_row list))"
  let ?f = "finalize_bin c self peer"
  have len: "length (hb_files self) = n" "length (hb_files peer) = n"
    using assms(2,3) by (simp_all add: holds_def)
  have rows_b: "List.map_filter (item_row (P b)) (S b) = rows b" for b
    unfolding rows_def P_def by (rule map_filter_cong) (auto simp: S_def item_row_bucket)
  have loop: "\<exists>w'. rfold ?f [0..<m] (0, 0, w) =
      Inr (u32 (?tot (concat (map P [0..<m]))), u32 (?cnt (concat (map rows [0..<m]))), w') \<and>
      \<not> iw_closed w' \<and> iw_cache w' = [] \<and> iw_cache_cnt w' = 0 \<and> iw_file w' = concat (map rows [0..<m])"
    if "m \<le> n" for m
    using that
  proof (induction m)
    case 0
    then show ?case using assms(4-7) by simp
  next
    case (Suc m)
    then obtain w' where w': "rfold ?f [0..<m] (0, 0, w) =
        Inr (u32 (?tot (concat (map P [0..<m]))), u32 (?cnt (concat (map rows [0..<m]))), w')"
      "\<not> iw_closed w'" "iw_cache w' = []" "iw_cache_cnt w' = 0" "iw_file w' = concat (map rows [0..<m])"
      by auto
    have "rfold (write_matches (P m)) (S m) (u32 k, w') = Inr (u32 (k + ?cnt (rows m)), w' \<lparr> iw_cache := rows m,
        iw_cache_cnt := length (rows m), iw_write_cnt := iw_write_cnt w' + length (rows m) \<rparr>)" for k
      using rfold_write_matches [OF w'(2), of "P m" "S m" k] w'(3,4) by (simp add: rows_b)
    moreover have "HashBucketCache_LoadBucketItems c self m = Inr (S m)" "HashBucketCache_LoadBucketItems c peer m = Inr (P m)"
      using holds_load [OF assms(1,2)] holds_load [OF assms(1,3)] Suc.prems by (simp_all add: S_def P_def)
    ultimately have "?f m (u32 t, u32 k, w') = Inr (u32 (t + ?tot (P m)), u32 (k + ?cnt (rows m)), w' \<lparr> iw_cache := [],
        iw_cache_cnt := 0, iw_write_cnt := iw_write_cnt w' + length (rows m), iw_file := iw_file w' @ rows m \<rparr>)" for t k
      using w'(2-4) u32_fold_add [of "\<lambda>p. extra_dup_cnt p + 1" "P m" t]
      by (cases w') (simp add: finalize_bin_def IndexWriter_Commit_def)
    then show ?case
      using w' by simp
  qed
  have P: "mset (concat (map P [0..<n])) = mset (items_of c ys)"
    unfolding P_def using buckets_partition assms(3) by blast
  have m: "mset (concat (map rows [0..<n])) = mset (store_matches xs ys)"
    using bucket_rows [OF assms(1), of n ys xs] assms(2) unfolding S_def [symmetric] P_def [symmetric] rows_b by (simp add: holds_def)
  have "?tot (items_of c ys) = sum_list (map (\<lambda>(d, k). k + 1) ys)"
    by (rule arg_cong [of _ _ sum_list]) (auto simp: items_of_def nth_enumerate_eq intro!: nth_equalityI split: prod.splits)
  with loop [of n] sort_key_distinct_eqI [OF m store_matches_ascending]
    sum_list_mset_cong [OF P, of "\<lambda>p. extra_dup_cnt p + 1"] sum_list_mset_cong [OF m, of "\<lambda>(i, k). k + 1"]
  show ?thesis
    by (auto simp: FinalizeAndWriteIndices_def len u32_def)
qed

text \<open>
  C6. The variant for joins writes, up to the order of the buckets, exactly one row for every
  own item that the peer also has: its position and the peer's duplicate count. Sorting the rows
  by position gives them in table order. The counts returned are the peer's rows in total and
  in the intersection, as \<open>uint32_t\<close>: modulo $2^{32}$.
\<close>

theorem FinalizeAndWriteIndices_correct:
  assumes "codec_ok c" "holds c n xs self" "holds c n ys peer"
    and "\<not> iw_closed w" "iw_cache w = []" "iw_cache_cnt w = 0" "iw_file w = []"
  shows "\<exists>w'. FinalizeAndWriteIndices c self peer w =
       Inr (sum_list (map (\<lambda>(d, k). k + 1) ys) mod 2 ^ 32, sum_list (map (\<lambda>(i, k). k + 1) (store_matches xs ys)) mod 2 ^ 32, w') \<and>
     sort_key fst (iw_file w') = store_matches xs ys \<and> \<not> iw_closed w' \<and> iw_cache w' = []"
  by (rule FinalizeAndWriteIndices_rows [OF assms])

theorem FinalizeAndWriteIndices_correct_witness:
  "\<exists>self peer w'. rbind (HashBucketCache_new [] 2) (EcPointStore_SaveAll unary_codec [''a'', ''b'', ''cc''] (\<lambda>_. None)) = Inr self \<and>
     rbind (HashBucketCache_new [] 2) (EcPointStore_SaveAll unary_codec [''cc'', ''a''] [0 \<mapsto> 3]) = Inr peer \<and>
     FinalizeAndWriteIndices unary_codec self peer (IndexWriter_new None 9 True) = Inr (5, 5, w') \<and>
     sort_key fst (iw_file w') = [(0, 0), (2, 3)]"
proof -
  obtain self where s: "rbind (HashBucketCache_new [] 2) (EcPointStore_SaveAll unary_codec [''a'', ''b'', ''cc''] (\<lambda>_. None)) = Inr self"
    "holds unary_codec 2 [(''a'', 0), (''b'', 0), (''cc'', 0)] self"
    using holds_example [of unary_codec "[''a'', ''b'', ''cc'']" "\<lambda>_. None"] by (auto simp: numeral_3_eq_3)
  obtain peer where p: "rbind (HashBucketCache_new [] 2) (EcPointStore_SaveAll unary_codec [''cc'', ''a''] [0 \<mapsto> 3]) = Inr peer"
    "holds unary_codec 2 [(''cc'', 3), (''a'', 0)] peer"
    using holds_example [of unary_codec "[''cc'', ''a'']" "[0 \<mapsto> 3]"] by (auto simp: numeral_2_eq_2)
  from FinalizeAndWriteIndices_correct [OF unary_codec_ok s(2) p(2), of "IndexWriter_new None 9 True"] s(1) p(1)
  show ?thesis
    by (simp add: IndexWriter_new_def store_matches_def map_filter_simps) (auto simp: numeral_2_eq_2)
qed

lemma load_append:
  assumes "b < length (hb_files cache)" "hb_files cache ! b = map (BucketItem_Serialize c) items"
    and "\<And>item. item \<in> set items \<Longrightarrow> BucketItem_Deserialize c (BucketItem_Serialize c item) = Inr item"
  shows "HashBucketCache_LoadBucketItems c cache b = Inr items"
  using assms by (simp add: HashBucketCache_LoadBucketItems_def rmap_eq_Inr_iff list_all2_map1 list.rel_refl_strong)

text \<open>
  A cache that is opened again on existing files, as after a restart with recovery enabled,
  appends to them but counts its items from zero: after the items \<open>xs\<close> of the first run the next
  item \<open>d\<close> is written with index 0 and not with index \<open>length xs\<close>, so it is reported under the
  position of the first item of the table.
\<close>

theorem HashBucketCache_reopen_index:
  assumes "codec_ok c" "holds c n xs cache" "HashBucketCache_new (hb_files cache) n = Inr cache'"
    and "HashBucketCache_WriteItem c d k cache' = Inr cache''" "b < n"
  shows "HashBucketCache_LoadBucketItems c cache'' b =
     Inr (filter (\<lambda>item. hs c (base64_data item) mod n = b)
       (items_of c xs @ [\<lparr> sec_hash = 0, bi_index = 0, extra_dup_cnt = k, base64_data = b64 c d \<rparr>]))"
proof -
  let ?item = "\<lparr> sec_hash = 0, bi_index = 0, extra_dup_cnt = k, base64_data = b64 c d \<rparr>"
  have n: "0 < n" "length (hb_files cache) = n" using assms(2) by (auto simp: holds_def)
  then have c': "hb_files cache' = hb_files cache" "hb_item_index cache' = 0"
    using assms(3) by (auto simp: HashBucketCache_new_def)
  have c'': "hb_files cache'' = (hb_files cache)[bucket_of c n ?item := hb_files cache ! bucket_of c n ?item @ [BucketItem_Serialize c ?item]]"
    using assms(4) n c' by (auto simp: HashBucketCache_WriteItem_def Let_def bucket_of_def)
  have old: "hb_files cache ! i = map (BucketItem_Serialize c) (filter (\<lambda>item. bucket_of c n item = i) (items_of c xs))" if "i < n" for i
    using assms(2) that by (simp add: holds_def)
  have new: "?item \<in> set (items_of c [(d, k)])" by (simp add: items_of_def)
  have "BucketItem_Deserialize c (BucketItem_Serialize c item) = Inr item"
    if "item \<in> set (items_of c xs @ [?item])" for item
    using that Deserialize_Serialize [OF assms(1) new] Deserialize_Serialize [OF assms(1), of item xs] by auto
  moreover have "hb_files cache'' ! b = map (BucketItem_Serialize c) (filter (\<lambda>item. bucket_of c n item = b) (items_of c xs @ [?item]))"
    using assms(5) n by (simp add: c'' nth_list_update old)
  ultimately show ?thesis
    using assms(5) n(2) unfolding bucket_of_def [symmetric]
    by (intro load_append) (auto simp: c'' split: if_splits)
qed

theorem HashBucketCache_reopen_index_witness:
  "\<exists>cache cache' cache''. rbind (HashBucketCache_new [] 2) (EcPointStore_SaveAll unary_codec [''a'', ''bb''] (\<lambda>_. None)) = Inr cache \<and>
     HashBucketCache_new (hb_files cache) 2 = Inr cache' \<and>
     HashBucketCache_WriteItem unary_codec ''ccc'' 0 cache' = Inr cache'' \<and>
     rbind (HashBucketCache_LoadBucketItems unary_codec cache'' 1) (\<lambda>items. Inr (map (\<lambda>i. (bi_index i, base64_data i)) items)) =
       Inr [(0, ''a''), (0, ''ccc'')]"
proof -
  obtain cache where s: "rbind (HashBucketCache_new [] 2) (EcPointStore_SaveAll unary_codec [''a'', ''bb''] (\<lambda>_. None)) = Inr cache"
    "holds unary_codec 2 [(''a'', 0), (''bb'', 0)] cache"
    using holds_example [of unary_codec "[''a'', ''bb'']" "\<lambda>_. None"] by (auto simp: numeral_2_eq_2)
  then have len: "length (hb_files cache) = 2" by (simp add: holds_def)
  then have "hb_files cache \<noteq> []" by auto
  with len obtain cache' where c': "HashBucketCache_new (hb_files cache) 2 = Inr cache'" "hb_files cache' \<noteq> []"
    by (auto simp: HashBucketCache_new_def)
  then obtain cache'' where c'': "HashBucketCache_WriteItem unary_codec ''ccc'' 0 cache' = Inr cache''"
    by (auto simp: HashBucketCache_WriteItem_def Let_def)
  have "filter (\<lambda>item. hs unary_codec (base64_data item) mod 2 = 1)
       (items_of unary_codec [(''a'', 0), (''bb'', 0)] @ [\<lparr> sec_hash = 0, bi_index = 0, extra_dup_cnt = 0, base64_data = b64 unary_codec ''ccc'' \<rparr>]) =
     [\<lparr> sec_hash = 0, bi_index = 0, extra_dup_cnt = 0, base64_data = ''a'' \<rparr>, \<lparr> sec_hash = 0, bi_index = 0, extra_dup_cnt = 0, base64_data = ''ccc'' \<rparr>]"
    by (simp add: items_of_def unary_codec_def)
  then show ?thesis
    using HashBucketCache_reopen_index [OF unary_codec_ok s(2) c'(1) c'', of 1] s(1) c'(1) c'' by auto
qed

end
