(* ===== verification/Recovery.thy ===== *)
theory Recovery
  imports Prelude
begin

text \<open>
  \<open>psi/checkpoint/recovery.cc\<close>: the \<open>RecoveryManager\<close>, a state machine over the stages of a
  PSI task with a checkpoint file. The configuration is an abstract value compared for equality,
  as \<open>MessageDifferencer::Equals\<close> does; the checkpoint file holds the last saved message,
  whose JSON round trip is the identity. A crash forgets the object and keeps the files.
\<close>

section \<open>State\<close>

datatype Stage = STAGE_UNSPECIFIED | STAGE_INIT_END | STAGE_PRE_PROCESS_END | STAGE_ONLINE_START
  | STAGE_ONLINE_END | STAGE_POST_PROCESS_END

fun stage_num :: "Stage \<Rightarrow> nat" where
  "stage_num STAGE_UNSPECIFIED = 0"
| "stage_num STAGE_INIT_END = 1"
| "stage_num STAGE_PRE_PROCESS_END = 2"
| "stage_num STAGE_ONLINE_START = 3"
| "stage_num STAGE_ONLINE_END = 4"
| "stage_num STAGE_POST_PROCESS_END = 5"

instantiation Stage :: linorder
begin

definition less_eq_Stage :: "Stage \<Rightarrow> Stage \<Rightarrow> bool" where
  "less_eq_Stage a b \<longleftrightarrow> stage_num a \<le> stage_num b"

definition less_Stage :: "Stage \<Rightarrow> Stage \<Rightarrow> bool" where
  "less_Stage a b \<longleftrightarrow> stage_num a < stage_num b"

instance
proof
  fix a b :: Stage
  show "a \<le> b \<Longrightarrow> b \<le> a \<Longrightarrow> a = b"
    by (cases a; cases b) (simp_all add: less_eq_Stage_def)
qed (auto simp: less_eq_Stage_def less_Stage_def)

end

record 'c Checkpoint =
  stage :: Stage
  config :: "'c option"
  input_hash_digest :: "8 word list"
  ecdh_dual_masked_item_self_count :: "64 word"
  ecdh_dual_masked_item_peer_count :: "64 word"
  parsed_bucket_count :: "64 word"

definition empty_checkpoint :: "'c Checkpoint" where
  "empty_checkpoint = \<lparr> stage = STAGE_UNSPECIFIED, config = None, input_hash_digest = [],
     ecdh_dual_masked_item_self_count = 0, ecdh_dual_masked_item_peer_count = 0,
     parsed_bucket_count = 0 \<rparr>"

record 'c RecoveryManager =
  checkpoint :: "'c Checkpoint"
  checkpoint_file :: "'c Checkpoint option"
  private_key_file :: "8 word list"
  cnt_from_peer :: "64 word"
  bucket_cnt_from_peer :: "64 word"

section \<open>Operations\<close>

definition RecoveryManager_new :: "'c Checkpoint option \<Rightarrow> 8 word list \<Rightarrow> 'c RecoveryManager" where
  "RecoveryManager_new file key_file =
     \<lparr> checkpoint = (case file of Some cp \<Rightarrow> cp | None \<Rightarrow> empty_checkpoint),
       checkpoint_file = file, private_key_file = key_file, cnt_from_peer = 0,
       bucket_cnt_from_peer = 0 \<rparr>"

definition SaveCheckpointFile :: "'c RecoveryManager \<Rightarrow> 'c RecoveryManager" where
  "SaveCheckpointFile m = m \<lparr> checkpoint_file := Some (checkpoint m) \<rparr>"

definition MarkInitEnd :: "'c \<Rightarrow> 8 word list \<Rightarrow> 'c RecoveryManager \<Rightarrow> 'c RecoveryManager result" where
  "MarkInitEnd cfg digest m =
     (if stage (checkpoint m) \<noteq> STAGE_UNSPECIFIED then
        rbind (enforce (config (checkpoint m) = Some cfg) ''PSI Config does not match'') (\<lambda>_.
        rbind (enforce (input_hash_digest (checkpoint m) = digest) ''input_hash_digest does not match'') (\<lambda>_.
        Inr m))
      else Inr (SaveCheckpointFile (m \<lparr> checkpoint := (checkpoint m)
             \<lparr> stage := STAGE_INIT_END, config := Some cfg, input_hash_digest := digest \<rparr> \<rparr>)))"

text \<open>The cryptor is its private key; the result is the cryptor's key afterwards.\<close>

definition MarkPreProcessEnd ::
  "8 word list option \<Rightarrow> 'c RecoveryManager \<Rightarrow> 'c RecoveryManager \<times> 8 word list option" where
  "MarkPreProcessEnd cryptor m =
     (case cryptor of
        None \<Rightarrow> (m, None)
      | Some key \<Rightarrow>
          if stage (checkpoint m) < STAGE_PRE_PROCESS_END then
            (SaveCheckpointFile (m \<lparr> checkpoint := (checkpoint m) \<lparr> stage := STAGE_PRE_PROCESS_END \<rparr>,
                                     private_key_file := key \<rparr>), Some key)
          else (m, Some (private_key_file m)))"

record InternalRecoveryRecord =
  rec_stage :: Stage
  rec_peer_count :: "64 word"
  rec_bucket_count :: "64 word"

definition recovery_record :: "'c RecoveryManager \<Rightarrow> InternalRecoveryRecord" where
  "recovery_record m = \<lparr> rec_stage = stage (checkpoint m),
     rec_peer_count = ecdh_dual_masked_item_peer_count (checkpoint m),
     rec_bucket_count = parsed_bucket_count (checkpoint m) \<rparr>"

definition mark_online :: "'c RecoveryManager \<Rightarrow> 'c RecoveryManager" where
  "mark_online m =
     (if stage (checkpoint m) < STAGE_ONLINE_START
      then SaveCheckpointFile (m \<lparr> checkpoint := (checkpoint m) \<lparr> stage := STAGE_ONLINE_START \<rparr> \<rparr>)
      else m)"

text \<open>
  \<open>MarkOnlineStart\<close>: with a link context, \<open>gathered\<close> are the records of the two ranks as
  \<open>AllGather\<close> delivers them, and \<open>rank\<close> is the own rank.
\<close>

definition MarkOnlineStart ::
  "(nat \<times> InternalRecoveryRecord list) option \<Rightarrow> 'c RecoveryManager \<Rightarrow> (bool \<times> 'c RecoveryManager) result" where
  "MarkOnlineStart lctx m =
     (case lctx of
        None \<Rightarrow> Inr (False, mark_online m)
      | Some (rank, gathered) \<Rightarrow>
          rbind (enforce (length gathered = 2) ''WorldSize'') (\<lambda>_.
          let rank0 = gathered ! 0; rank1 = gathered ! 1;
              finished = (rec_stage rank0 \<ge> STAGE_ONLINE_END \<and> rec_stage rank1 \<ge> STAGE_ONLINE_END);
              peer = (if rank = 0 then rank1 else rank0)
          in Inr (finished, mark_online (m \<lparr> cnt_from_peer := rec_peer_count peer,
                                            bucket_cnt_from_peer := rec_bucket_count peer \<rparr>))))"

definition UpdateEcdhDualMaskedItemSelfCount :: "64 word \<Rightarrow> 'c RecoveryManager \<Rightarrow> 'c RecoveryManager" where
  "UpdateEcdhDualMaskedItemSelfCount cnt m =
     SaveCheckpointFile (m \<lparr> checkpoint := (checkpoint m)
       \<lparr> stage := STAGE_ONLINE_START, ecdh_dual_masked_item_self_count := cnt \<rparr> \<rparr>)"

definition UpdateEcdhDualMaskedItemPeerCount :: "64 word \<Rightarrow> 'c RecoveryManager \<Rightarrow> 'c RecoveryManager" where
  "UpdateEcdhDualMaskedItemPeerCount cnt m =
     SaveCheckpointFile (m \<lparr> checkpoint := (checkpoint m)
       \<lparr> stage := STAGE_ONLINE_START, ecdh_dual_masked_item_peer_count := cnt \<rparr> \<rparr>)"

definition UpdateParsedBucketCount :: "64 word \<Rightarrow> 'c RecoveryManager \<Rightarrow> 'c RecoveryManager" where
  "UpdateParsedBucketCount cnt m =
     SaveCheckpointFile (m \<lparr> checkpoint := (checkpoint m)
       \<lparr> stage := STAGE_ONLINE_START, parsed_bucket_count := cnt \<rparr> \<rparr>)"

definition MarkOnlineEnd :: "'c RecoveryManager \<Rightarrow> 'c RecoveryManager" where
  "MarkOnlineEnd m =
     (if stage (checkpoint m) < STAGE_ONLINE_END
      then SaveCheckpointFile (m \<lparr> checkpoint := (checkpoint m) \<lparr> stage := STAGE_ONLINE_END \<rparr> \<rparr>)
      else m)"

definition MarkPostProcessEnd :: "'c RecoveryManager \<Rightarrow> 'c RecoveryManager" where
  "MarkPostProcessEnd m =
     (if stage (checkpoint m) < STAGE_POST_PROCESS_END
      then SaveCheckpointFile (m \<lparr> checkpoint := (checkpoint m) \<lparr> stage := STAGE_POST_PROCESS_END \<rparr> \<rparr>)
      else m)"

section \<open>Runs\<close>

text \<open>
  A step is any operation of the manager, in any state and any order, or a crash after which a new manager
  is created from the files. A crash may also fall between the two writes of \<open>MarkPreProcessEnd\<close>: the
  private key is then on disk and the checkpoint is still the old one.
\<close>

inductive recovery_step :: "'c RecoveryManager \<Rightarrow> 'c RecoveryManager \<Rightarrow> bool" where
  init_end: "MarkInitEnd cfg digest m = Inr m' \<Longrightarrow> recovery_step m m'"
| pre_process: "MarkPreProcessEnd cr m = (m', key) \<Longrightarrow> recovery_step m m'"
| online_start: "MarkOnlineStart lctx m = Inr (fin, m') \<Longrightarrow> recovery_step m m'"
| self_count: "recovery_step m (UpdateEcdhDualMaskedItemSelfCount c m)"
| peer_count: "recovery_step m (UpdateEcdhDualMaskedItemPeerCount c m)"
| bucket_count: "recovery_step m (UpdateParsedBucketCount c m)"
| online_end: "recovery_step m (MarkOnlineEnd m)"
| post_process: "recovery_step m (MarkPostProcessEnd m)"
| crash: "recovery_step m (RecoveryManager_new (checkpoint_file m) (private_key_file m))"
| crash_pre_process: "stage (checkpoint m) < STAGE_PRE_PROCESS_END \<Longrightarrow>
    recovery_step m (RecoveryManager_new (checkpoint_file m) key)"

inductive_cases recovery_stepE: "recovery_step m m'"

text \<open>The file agrees with the object: nothing is lost by a crash.\<close>

definition saved :: "'c RecoveryManager \<Rightarrow> bool" where
  "saved m \<longleftrightarrow> checkpoint m = (case checkpoint_file m of Some cp \<Rightarrow> cp | None \<Rightarrow> empty_checkpoint)"

lemma saved_SaveCheckpointFile [simp]: "saved (SaveCheckpointFile m)"
  by (simp add: saved_def SaveCheckpointFile_def)

lemma Save_simps [simp]:
  "checkpoint (SaveCheckpointFile m) = checkpoint m"
  "private_key_file (SaveCheckpointFile m) = private_key_file m"
  by (simp_all add: SaveCheckpointFile_def)

lemma mark_online_saved: "saved m \<Longrightarrow> saved (mark_online m)"
  by (simp add: mark_online_def)

lemma recovery_step_saved:
  assumes "recovery_step m m'" "saved m"
  shows "saved m'"
  using assms
proof cases
  case (init_end cfg digest)
  then show ?thesis using assms(2)
    by (auto simp: MarkInitEnd_def enforce_bind split: if_splits)
next
  case (pre_process cr key)
  then show ?thesis using assms(2)
    by (auto simp: MarkPreProcessEnd_def split: if_splits option.splits)
next
  case (online_start lctx fin)
  then show ?thesis using assms(2)
    by (auto simp: MarkOnlineStart_def enforce_bind Let_def split: if_splits option.splits
        intro!: mark_online_saved) (simp_all add: saved_def)
next
  case crash
  then show ?thesis by (simp add: RecoveryManager_new_def saved_def)
next
  case (crash_pre_process key)
  then show ?thesis by (simp add: RecoveryManager_new_def saved_def)
qed (use assms(2) in \<open>auto simp: UpdateEcdhDualMaskedItemSelfCount_def UpdateEcdhDualMaskedItemPeerCount_def
    UpdateParsedBucketCount_def MarkOnlineEnd_def MarkPostProcessEnd_def\<close>)

lemmas stage_order = less_eq_Stage_def less_Stage_def

text \<open>
  The \<open>Update\<close> operations set the stage to the start of the online stage whatever it was before. No other
  operation lowers it, so a task never falls behind that stage once it has reached it.
\<close>

lemma recovery_step_stage:
  assumes "recovery_step m m'" "saved m"
  shows "min (stage (checkpoint m)) STAGE_ONLINE_START \<le> stage (checkpoint m')"
  using assms
proof cases
  case (init_end cfg digest)
  then show ?thesis
    by (cases "stage (checkpoint m)") (auto simp: MarkInitEnd_def enforce_bind min_def stage_order split: if_splits)
next
  case (pre_process cr key)
  then show ?thesis
    by (auto simp: MarkPreProcessEnd_def min_def stage_order split: if_splits option.splits)
next
  case (online_start lctx fin)
  then show ?thesis
    by (auto simp: MarkOnlineStart_def mark_online_def enforce_bind Let_def min_def stage_order
        split: if_splits option.splits)
next
  case crash
  then show ?thesis
    using assms(2) by (simp add: RecoveryManager_new_def saved_def)
next
  case (crash_pre_process key)
  then show ?thesis
    using assms(2) by (simp add: RecoveryManager_new_def saved_def)
qed (simp_all add: UpdateEcdhDualMaskedItemSelfCount_def UpdateEcdhDualMaskedItemPeerCount_def
    UpdateParsedBucketCount_def MarkOnlineEnd_def MarkPostProcessEnd_def min_def stage_order)

text \<open>What the checkpoint has once fixed, no step changes: the configuration and the digest.\<close>

definition task_of :: "'c RecoveryManager \<Rightarrow> 'c option \<times> 8 word list" where
  "task_of m = (config (checkpoint m), input_hash_digest (checkpoint m))"

lemma recovery_step_task:
  assumes "recovery_step m m'" "saved m" "stage (checkpoint m) \<noteq> STAGE_UNSPECIFIED"
  shows "task_of m' = task_of m"
  using assms
proof cases
  case (init_end cfg digest)
  then show ?thesis using assms(3)
    by (auto simp: MarkInitEnd_def enforce_bind task_of_def split: if_splits)
next
  case (pre_process cr key)
  then show ?thesis
    by (auto simp: MarkPreProcessEnd_def task_of_def split: if_splits option.splits)
next
  case (online_start lctx fin)
  then show ?thesis
    by (auto simp: MarkOnlineStart_def mark_online_def enforce_bind Let_def task_of_def
        split: if_splits option.splits)
next
  case crash
  then show ?thesis
    using assms(2) by (simp add: RecoveryManager_new_def saved_def task_of_def)
next
  case (crash_pre_process key)
  then show ?thesis
    using assms(2) by (simp add: RecoveryManager_new_def saved_def task_of_def)
qed (simp_all add: UpdateEcdhDualMaskedItemSelfCount_def UpdateEcdhDualMaskedItemPeerCount_def
    UpdateParsedBucketCount_def MarkOnlineEnd_def MarkPostProcessEnd_def task_of_def)

lemma recovery_step_key:
  assumes "recovery_step m m'" "STAGE_PRE_PROCESS_END \<le> stage (checkpoint m)"
  shows "private_key_file m' = private_key_file m"
  using assms
proof cases
  case (init_end cfg digest)
  then show ?thesis using assms(2)
    by (auto simp: MarkInitEnd_def enforce_bind stage_order split: if_splits)
next
  case (pre_process cr key)
  then show ?thesis using assms(2)
    by (auto simp: MarkPreProcessEnd_def split: if_splits option.splits)
next
  case (online_start lctx fin)
  then show ?thesis
    by (auto simp: MarkOnlineStart_def mark_online_def enforce_bind Let_def split: if_splits option.splits)
next
  case crash
  then show ?thesis by (simp add: RecoveryManager_new_def)
next
  case (crash_pre_process key)
  then show ?thesis using assms(2) by simp
qed (simp_all add: UpdateEcdhDualMaskedItemSelfCount_def UpdateEcdhDualMaskedItemPeerCount_def
    UpdateParsedBucketCount_def MarkOnlineEnd_def MarkPostProcessEnd_def)

lemma recovery_run:
  assumes "recovery_step\<^sup>*\<^sup>* m m'" "saved m"
  shows "saved m' \<and> min (stage (checkpoint m)) STAGE_ONLINE_START \<le> stage (checkpoint m') \<and>
    (stage (checkpoint m) \<noteq> STAGE_UNSPECIFIED \<longrightarrow> task_of m' = task_of m) \<and>
    (STAGE_PRE_PROCESS_END \<le> stage (checkpoint m) \<longrightarrow> private_key_file m' = private_key_file m)"
  using assms
proof (induction rule: rtranclp_induct)
  case (step m1 m2)
  then have m1: "saved m1" "min (stage (checkpoint m)) STAGE_ONLINE_START \<le> stage (checkpoint m1)" by simp_all
  have "stage (checkpoint m1) \<noteq> STAGE_UNSPECIFIED" if "stage (checkpoint m) \<noteq> STAGE_UNSPECIFIED"
    using that m1(2) by (cases "stage (checkpoint m)") (auto simp: stage_order min_def)
  moreover have "STAGE_PRE_PROCESS_END \<le> stage (checkpoint m1)" if "STAGE_PRE_PROCESS_END \<le> stage (checkpoint m)"
    using that m1(2) by (auto simp: stage_order min_def split: if_splits)
  moreover have "min (stage (checkpoint m)) STAGE_ONLINE_START \<le> stage (checkpoint m2)"
    using recovery_step_stage [OF step.hyps(2) m1(1)] m1(2) by (metis min.bounded_iff min.cobounded2 order.trans)
  ultimately show ?case
    using step recovery_step_saved recovery_step_task recovery_step_key m1(1) by metis
qed simp



text \<open>
  C35. The private key of the ECDH cryptor survives crashes: after the pre-processing mark with
  key \<open>k\<close>, whatever operations and crashes follow, in any order, a later mark with a cryptor that was created
  with a fresh key hands it the key \<open>k\<close> back and changes no state.
\<close>

theorem private_key_recovered:
  assumes "saved m" "stage (checkpoint m) < STAGE_PRE_PROCESS_END"
    and "MarkPreProcessEnd (Some k) m = (m1, key)" "recovery_step\<^sup>*\<^sup>* m1 m2"
  shows "key = Some k \<and> MarkPreProcessEnd (Some k') m2 = (m2, Some k)"
proof -
  have m1: "saved m1" "stage (checkpoint m1) = STAGE_PRE_PROCESS_END" "private_key_file m1 = k" "key = Some k"
    using assms(2,3) by (auto simp: MarkPreProcessEnd_def)
  with recovery_run [OF assms(4)] show ?thesis
    by (auto simp: MarkPreProcessEnd_def stage_order min_def)
qed

theorem private_key_recovered_witness:
  "\<exists>m1. MarkPreProcessEnd (Some [7]) (RecoveryManager_new None [] :: string RecoveryManager) = (m1, Some [7]) \<and>
     MarkPreProcessEnd (Some [9]) (RecoveryManager_new (checkpoint_file m1) (private_key_file m1)) =
       (RecoveryManager_new (checkpoint_file m1) (private_key_file m1), Some [7])"
proof -
  let ?m0 = "RecoveryManager_new None [] :: string RecoveryManager"
  obtain m1 key where 1: "MarkPreProcessEnd (Some [7]) ?m0 = (m1, key)" by fastforce
  have "saved ?m0" "stage (checkpoint ?m0) < STAGE_PRE_PROCESS_END"
    by (simp_all add: saved_def RecoveryManager_new_def empty_checkpoint_def stage_order)
  from private_key_recovered [OF this 1, of "RecoveryManager_new (checkpoint_file m1) (private_key_file m1)" "[9]"] 1
  show ?thesis by (auto intro: recovery_step.crash)
qed

text \<open>
  Two parties that exchange their records at the start of the online stage take the same
  decision whether the stage is already finished, it is finished exactly if both had reached its
  end, and each party learns the count the other has recorded.
\<close>

theorem MarkOnlineStart_agree:
  fixes m0 m1 :: "'c RecoveryManager"
  defines "records \<equiv> [recovery_record m0, recovery_record m1]"
  shows "\<exists>m0' m1'. MarkOnlineStart (Some (0, records)) m0 =
      Inr (STAGE_ONLINE_END \<le> stage (checkpoint m0) \<and> STAGE_ONLINE_END \<le> stage (checkpoint m1), m0') \<and>
    MarkOnlineStart (Some (1, records)) m1 =
      Inr (STAGE_ONLINE_END \<le> stage (checkpoint m0) \<and> STAGE_ONLINE_END \<le> stage (checkpoint m1), m1') \<and>
    cnt_from_peer m0' = ecdh_dual_masked_item_peer_count (checkpoint m1) \<and>
    cnt_from_peer m1' = ecdh_dual_masked_item_peer_count (checkpoint m0) \<and>
    STAGE_ONLINE_START \<le> stage (checkpoint m0') \<and> STAGE_ONLINE_START \<le> stage (checkpoint m1')"
  by (auto simp: MarkOnlineStart_def records_def recovery_record_def mark_online_def SaveCheckpointFile_def
      stage_order Let_def)

end
