(* ===== verification/Ecdh_Psi.thy ===== *)
theory Ecdh_Psi
  imports Batch_Provider_Impl Hash_Bucket Recovery
begin

text \<open>
  \<open>psi/algorithm/ecdh/ecdh_psi.cc\<close>: the two-party ECDH protocol, with the parts of
  \<open>psi/cryptor/ecc_cryptor.cc\<close>, \<open>communication.h\<close> and \<open>ec_point_store.h\<close> it uses.

  The three activities of a party (\<open>MaskSelf\<close>, \<open>MaskPeer\<close>, \<open>RecvDualMaskedSelf\<close>) run concurrently
  in the code and communicate with the other party over two ordered channels. None of them waits for
  an activity that depends on it, so each is a function from the messages it receives to the
  messages it sends, and a run of both parties is their composition (\<open>RunEcdhPsi_pair\<close>). A message
  is a \<open>PsiDataBatch\<close> value, whose protobuf encoding is the identity.

  The elliptic curve group is a parameter: hash to curve, scalar multiplication and the
  encoding of points.
\<close>

section \<open>The cryptor\<close>

record 'g IEccCryptor =
  ec_private_key :: "8 word list"
  ec_curve_type :: nat
  ec_HashToCurve :: "string \<Rightarrow> 'g"
  ec_Mul :: "'g \<Rightarrow> nat \<Rightarrow> 'g"
  ec_SerializePoint :: "'g \<Rightarrow> string"
  ec_DeserializePoint :: "string \<Rightarrow> 'g"

definition kEccKeySize :: nat where "kEccKeySize = 32"

definition SetPrivateKey :: "8 word list \<Rightarrow> 'g IEccCryptor \<Rightarrow> 'g IEccCryptor result" where
  "SetPrivateKey key c =
     rbind (enforce (length key = kEccKeySize) ''key size'') (\<lambda>_. Inr (c \<lparr> ec_private_key := key \<rparr>))"

text \<open>The private key is read as a little-endian number.\<close>

definition EccMask :: "'g IEccCryptor \<Rightarrow> 'g list \<Rightarrow> 'g list" where
  "EccMask c points =
     (let sk = horner_sum unat 256 (ec_private_key c) in map (\<lambda>p. ec_Mul c p sk) points)"

definition HashInputs :: "'g IEccCryptor \<Rightarrow> string list \<Rightarrow> 'g list" where
  "HashInputs c items = map (ec_HashToCurve c) items"

definition SerializeEcPoints :: "'g IEccCryptor \<Rightarrow> 'g list \<Rightarrow> string list" where
  "SerializeEcPoints c points = map (ec_SerializePoint c) points"

definition DeserializeEcPoints :: "'g IEccCryptor \<Rightarrow> string list \<Rightarrow> 'g list" where
  "DeserializeEcPoints c items = map (ec_DeserializePoint c) items"

section \<open>Messages\<close>

record PsiDataBatch =
  pb_item_num :: nat
  pb_flatten_bytes :: string
  pb_batch_index :: nat
  pb_is_last_batch :: bool
  pb_type :: string
  pb_duplicate_item_cnt :: "nat \<Rightarrow> nat option"

definition BatchData :: "string list \<Rightarrow> (nat \<Rightarrow> nat option) \<Rightarrow> string \<Rightarrow> nat \<Rightarrow> PsiDataBatch" where
  "BatchData batch_items duplicate_item_cnt kind batch_idx =
     \<lparr> pb_item_num = length batch_items, pb_flatten_bytes = concat batch_items,
       pb_batch_index = batch_idx, pb_is_last_batch = (batch_items = []), pb_type = kind,
       pb_duplicate_item_cnt = (if batch_items = [] then (\<lambda>_. None) else duplicate_item_cnt) \<rparr>"

definition RecvBatch :: "nat \<Rightarrow> PsiDataBatch \<Rightarrow> (string list \<times> (nat \<Rightarrow> nat option)) result" where
  "RecvBatch batch_idx batch =
     rbind (enforce (pb_batch_index batch = batch_idx) ''Expected batch'') (\<lambda>_.
     Inr (if 0 < pb_item_num batch
          then (let item_size = length (pb_flatten_bytes batch) div pb_item_num batch
                in (map (\<lambda>i. take item_size (drop (i * item_size) (pb_flatten_bytes batch))) [0..<pb_item_num batch],
                    pb_duplicate_item_cnt batch))
          else ([], \<lambda>_. None)))"

section \<open>Options and stores\<close>

text \<open>\<open>None\<close> as target rank is \<open>yacl::link::kAllRank\<close>.\<close>

record 'g EcdhPsiOptions =
  eo_ecc_cryptor :: "'g IEccCryptor"
  eo_rank :: nat
  eo_target_rank :: "nat option"
  eo_dual_mask_size :: nat

definition kFinalCompareBytes :: nat where "kFinalCompareBytes = 12"

definition SelfCanTouchResults :: "'g EcdhPsiOptions \<Rightarrow> bool" where
  "SelfCanTouchResults o' \<longleftrightarrow> eo_target_rank o' = None \<or> eo_target_rank o' = Some (eo_rank o')"

definition PeerCanTouchResults :: "'g EcdhPsiOptions \<Rightarrow> bool" where
  "PeerCanTouchResults o' \<longleftrightarrow> eo_target_rank o' = None \<or> eo_target_rank o' = Some ((eo_rank o' + 1) mod 2)"

record MemoryEcPointStore =
  ms_store :: "string list"
  ms_dup_cnt :: "nat \<Rightarrow> nat option"
  ms_item_cnt :: nat

definition MemoryEcPointStore_new :: MemoryEcPointStore where
  "MemoryEcPointStore_new = \<lparr> ms_store = [], ms_dup_cnt = (\<lambda>_. None), ms_item_cnt = 0 \<rparr>"

definition MemoryEcPointStore_Save :: "string \<Rightarrow> nat \<Rightarrow> MemoryEcPointStore \<Rightarrow> MemoryEcPointStore result" where
  "MemoryEcPointStore_Save ciphertext duplicate_cnt s =
     Inr (s \<lparr> ms_dup_cnt := (if 0 < duplicate_cnt then (ms_dup_cnt s)(length (ms_store s) \<mapsto> duplicate_cnt)
                             else ms_dup_cnt s),
              ms_store := ms_store s @ [ciphertext], ms_item_cnt := ms_item_cnt s + 1 \<rparr>)"

text \<open>The interface \<open>IEcPointStore\<close>: \<open>Save\<close> and \<open>ItemCount\<close> (\<open>Flush\<close> does not change what is stored).\<close>

type_synonym 's saver = "string \<Rightarrow> nat \<Rightarrow> 's \<Rightarrow> 's result"

definition store_Save_all :: "'s saver \<Rightarrow> string list \<Rightarrow> 's \<Rightarrow> 's result" where
  "store_Save_all save ciphertext s = rfold (\<lambda>ct. save ct 0) ciphertext s"

section \<open>The three activities\<close>

text \<open>
  \<open>MaskSelf\<close>, first loop: skip the items processed before a restart. A batch of which only a part
  was processed is kept for the first round of the second loop. \<open>processed_item_cnt\<close> is set to 0
  before it is subtracted from the positions of the duplicate counts.
\<close>

function mask_skip ::
  "('q \<Rightarrow> (dup_batch \<times> 'q) result) \<Rightarrow> nat \<Rightarrow> 'q \<Rightarrow> (dup_batch option \<times> 'q) result" where
  "mask_skip rd processed_item_cnt p =
     (if processed_item_cnt = 0 then Inr (None, p)
      else case rd p of
        Inl e \<Rightarrow> Inl e
      | Inr ((read_batch_items, item_cnt), p') \<Rightarrow>
          if read_batch_items = [] then Inl (Enforce ''processed_item_cnt'')
          else if length read_batch_items \<le> processed_item_cnt
          then mask_skip rd (processed_item_cnt - length read_batch_items) p'
          else (let batch_items = drop processed_item_cnt read_batch_items; processed = 0
                in Inr (Some (batch_items, \<lambda>i. item_cnt (i + processed)), p')))"
  by pat_completeness auto
termination
  by (relation "measure (\<lambda>(rd, n, p). n)") auto

definition masked_items :: "'g IEccCryptor \<Rightarrow> string list \<Rightarrow> string list" where
  "masked_items c batch_items = SerializeEcPoints c (EccMask c (HashInputs c batch_items))"

partial_function (option) mask_send ::
  "'g EcdhPsiOptions \<Rightarrow> ('q \<Rightarrow> (dup_batch \<times> 'q) result) \<Rightarrow> dup_batch option \<Rightarrow> nat \<Rightarrow> 'q
     \<Rightarrow> PsiDataBatch list result option" where
  [code]: "mask_send o' rd kept batch_count p =
     (case (case kept of None \<Rightarrow> rd p | Some b \<Rightarrow> Inr (b, p)) of
        Inl e \<Rightarrow> Some (Inl e)
      | Inr ((batch_items, duplicate_item_cnt), p') \<Rightarrow>
          (let masked = masked_items (eo_ecc_cryptor o') batch_items;
               msg = BatchData masked (if PeerCanTouchResults o' then duplicate_item_cnt else (\<lambda>_. None))
                       ''enc'' batch_count
           in if batch_items = [] then Some (Inr [msg])
              else Option.bind (mask_send o' rd None (batch_count + 1) p')
                     (\<lambda>r. Some (rbind r (\<lambda>msgs. Inr (msg # msgs))))))"

definition MaskSelf ::
  "'g EcdhPsiOptions \<Rightarrow> ('q \<Rightarrow> (dup_batch \<times> 'q) result) \<Rightarrow> nat \<Rightarrow> 'q \<Rightarrow> PsiDataBatch list result option" where
  "MaskSelf o' rd processed_item_cnt p =
     (case mask_skip rd processed_item_cnt p of
        Inl e \<Rightarrow> Some (Inl e)
      | Inr (kept, p') \<Rightarrow> mask_send o' rd kept 0 p')"

text \<open>The last \<open>dual_mask_size\<close> bytes of a point; a shorter encoding would be read out of bounds.\<close>

definition dual_cipher :: "nat \<Rightarrow> string \<Rightarrow> string result" where
  "dual_cipher dual_mask_size masked =
     (if dual_mask_size \<le> length masked then Inr (drop (length masked - dual_mask_size) masked)
      else Inl (Undefined ''cipher''))"

definition mask_peer_one ::
  "'g EcdhPsiOptions \<Rightarrow> 's saver \<Rightarrow> (nat \<Rightarrow> nat option) \<Rightarrow> 'g list \<Rightarrow> nat
     \<Rightarrow> string list \<times> 's \<Rightarrow> (string list \<times> 's) result" where
  "mask_peer_one o' save dup masked_points i = (\<lambda>(dual_masked_peers, store).
     rbind (at masked_points i) (\<lambda>pt.
     rbind (dual_cipher (eo_dual_mask_size o') (ec_SerializePoint (eo_ecc_cryptor o') pt)) (\<lambda>cipher.
     rbind (if SelfCanTouchResults o'
            then save cipher (case dup i of None \<Rightarrow> 0 | Some d \<Rightarrow> d) store else Inr store) (\<lambda>store'.
     Inr (dual_masked_peers @ [cipher], store')))))"

definition update_peer_count :: "('s \<Rightarrow> nat) \<Rightarrow> 's \<Rightarrow> 'c RecoveryManager option \<Rightarrow> 'c RecoveryManager option" where
  "update_peer_count item_count store rm =
     map_option (UpdateEcdhDualMaskedItemPeerCount (of_nat (item_count store))) rm"

definition update_self_count :: "('s \<Rightarrow> nat) \<Rightarrow> 's \<Rightarrow> 'c RecoveryManager option \<Rightarrow> 'c RecoveryManager option" where
  "update_self_count item_count store rm =
     map_option (UpdateEcdhDualMaskedItemSelfCount (of_nat (item_count store))) rm"

text \<open>\<open>MaskPeer\<close>: a missing message is a receive that times out.\<close>

fun mask_peer ::
  "'g EcdhPsiOptions \<Rightarrow> 's saver \<Rightarrow> ('s \<Rightarrow> nat) \<Rightarrow> nat \<Rightarrow> PsiDataBatch list \<Rightarrow> 's \<Rightarrow> 'c RecoveryManager option
     \<Rightarrow> (PsiDataBatch list \<times> 's \<times> 'c RecoveryManager option) result" where
  "mask_peer o' save item_count batch_count [] store rm = Inl (Throw ''recv'')"
| "mask_peer o' save item_count batch_count (msg # msgs) store rm =
     rbind (RecvBatch batch_count msg) (\<lambda>(peer_items, duplicate_item_cnt).
     let peer_points = DeserializeEcPoints (eo_ecc_cryptor o') peer_items;
         masked_points = EccMask (eo_ecc_cryptor o') peer_points
     in rbind (rfold (mask_peer_one o' save duplicate_item_cnt masked_points)
            [0..<length peer_points] ([], store)) (\<lambda>(dual_masked_peers, store').
        let rm' = (if peer_items \<noteq> [] \<and> SelfCanTouchResults o' then update_peer_count item_count store' rm else rm);
            sent = (if PeerCanTouchResults o'
                    then [BatchData dual_masked_peers (\<lambda>_. None) ''dual.enc'' batch_count] else [])
        in if peer_items = [] then Inr (sent, store', rm')
           else rbind (mask_peer o' save item_count (batch_count + 1) msgs store' rm') (\<lambda>(rest, res).
                Inr (sent @ rest, res))))"

definition MaskPeer ::
  "'g EcdhPsiOptions \<Rightarrow> 's saver \<Rightarrow> ('s \<Rightarrow> nat) \<Rightarrow> PsiDataBatch list \<Rightarrow> 's \<Rightarrow> 'c RecoveryManager option
     \<Rightarrow> (PsiDataBatch list \<times> 's \<times> 'c RecoveryManager option) result" where
  "MaskPeer o' save item_count msgs store rm = mask_peer o' save item_count 0 msgs store rm"

fun recv_dual ::
  "'s saver \<Rightarrow> ('s \<Rightarrow> nat) \<Rightarrow> nat \<Rightarrow> PsiDataBatch list \<Rightarrow> 's \<Rightarrow> 'c RecoveryManager option
     \<Rightarrow> ('s \<times> 'c RecoveryManager option) result" where
  "recv_dual save item_count batch_count [] store rm = Inl (Throw ''recv'')"
| "recv_dual save item_count batch_count (msg # msgs) store rm =
     rbind (RecvBatch batch_count msg) (\<lambda>(masked, _).
     rbind (store_Save_all save masked store) (\<lambda>store'.
     if masked = [] then Inr (store', rm)
     else recv_dual save item_count (batch_count + 1) msgs store' (update_self_count item_count store' rm)))"

definition RecvDualMaskedSelf ::
  "'g EcdhPsiOptions \<Rightarrow> 's saver \<Rightarrow> ('s \<Rightarrow> nat) \<Rightarrow> PsiDataBatch list \<Rightarrow> 's \<Rightarrow> 'c RecoveryManager option
     \<Rightarrow> ('s \<times> 'c RecoveryManager option) result" where
  "RecvDualMaskedSelf o' save item_count msgs store rm =
     (if \<not> SelfCanTouchResults o' then Inr (store, rm) else recv_dual save item_count 0 msgs store rm)"

section \<open>A run of both parties\<close>

definition resume_count :: "'g EcdhPsiOptions \<Rightarrow> 'c RecoveryManager option \<Rightarrow> nat" where
  "resume_count o' rm = (case rm of
     None \<Rightarrow> 0
   | Some m \<Rightarrow>
       if SelfCanTouchResults o' \<and> PeerCanTouchResults o'
       then min (unat (cnt_from_peer m)) (unat (ecdh_dual_masked_item_self_count (checkpoint m)))
       else if SelfCanTouchResults o' \<and> \<not> PeerCanTouchResults o'
       then unat (ecdh_dual_masked_item_self_count (checkpoint m))
       else unat (cnt_from_peer m))"

definition CheckConfig :: "'g EcdhPsiOptions \<Rightarrow> 'g EcdhPsiOptions \<Rightarrow> unit result" where
  "CheckConfig mine peer =
     enforce ((eo_target_rank mine, ec_curve_type (eo_ecc_cryptor mine)) =
              (eo_target_rank peer, ec_curve_type (eo_ecc_cryptor peer))) ''Config mismatch''"

text \<open>The stores of a party after the run: its own doubly masked items, those of the peer.\<close>

record ('s, 'c) ecdh_state =
  es_self :: 's
  es_peer :: 's
  es_recovery :: "'c RecoveryManager option"

definition RunEcdhPsi_pair ::
  "'s saver \<Rightarrow> ('s \<Rightarrow> nat) \<Rightarrow> ('q \<Rightarrow> (dup_batch \<times> 'q) result)
     \<Rightarrow> 'g EcdhPsiOptions \<Rightarrow> 'q \<Rightarrow> ('s, 'c) ecdh_state \<Rightarrow> 'g EcdhPsiOptions \<Rightarrow> 'q \<Rightarrow> ('s, 'c) ecdh_state
     \<Rightarrow> (('s, 'c) ecdh_state \<times> ('s, 'c) ecdh_state) result option" where
  "RunEcdhPsi_pair save item_count rd oa pa sa ob pb sb =
     (case rbind (CheckConfig oa ob) (\<lambda>_. CheckConfig ob oa) of
        Inl e \<Rightarrow> Some (Inl e)
      | Inr _ \<Rightarrow>
        Option.bind (MaskSelf oa rd (resume_count oa (es_recovery sa)) pa) (\<lambda>ra.
        Option.bind (MaskSelf ob rd (resume_count ob (es_recovery sb)) pb) (\<lambda>rb.
        Some (rbind ra (\<lambda>msgs_a. rbind rb (\<lambda>msgs_b.
          rbind (MaskPeer oa save item_count msgs_b (es_peer sa) (es_recovery sa)) (\<lambda>(dual_a, peer_a, rm_a).
          rbind (MaskPeer ob save item_count msgs_a (es_peer sb) (es_recovery sb)) (\<lambda>(dual_b, peer_b, rm_b).
          rbind (RecvDualMaskedSelf oa save item_count dual_b (es_self sa) rm_a) (\<lambda>(self_a, rm_a').
          rbind (RecvDualMaskedSelf ob save item_count dual_a (es_self sb) rm_b) (\<lambda>(self_b, rm_b').
          Inr (\<lparr> es_self = self_a, es_peer = peer_a, es_recovery = rm_a' \<rparr>,
               \<lparr> es_self = self_b, es_peer = peer_b, es_recovery = rm_b' \<rparr>)))))))))))"

text \<open>
  The wrapper for items in memory. \<open>std::binary_search\<close> on the sorted peer results is membership.
\<close>

definition collect_items :: "string list \<Rightarrow> string list \<Rightarrow> string list \<Rightarrow> string list result" where
  "collect_items items self_results peer_content =
     (let peer_results = sort peer_content in
      rfold (\<lambda>index ret.
        if self_results ! index \<in> set peer_results
        then rbind (enforce (index < length items) ''index'') (\<lambda>_. Inr (ret @ [items ! index]))
        else Inr ret) [0..<length self_results] [])"

definition RunEcdhPsi_memory ::
  "'g EcdhPsiOptions \<Rightarrow> string list \<Rightarrow> nat \<Rightarrow> 'g EcdhPsiOptions \<Rightarrow> string list \<Rightarrow> nat
     \<Rightarrow> (string list \<times> string list) result option" where
  "RunEcdhPsi_memory oa items_a batch_size_a ob items_b batch_size_b =
     (let init = \<lparr> es_self = MemoryEcPointStore_new, es_peer = MemoryEcPointStore_new,
                   es_recovery = (None :: unit RecoveryManager option) \<rparr>;
          pa = MemoryBatchProvider_new id items_a batch_size_a [] False;
          pb = MemoryBatchProvider_new id items_b batch_size_b [] False
      in Option.bind (RunEcdhPsi_pair MemoryEcPointStore_Save ms_item_cnt Memory_ReadNextBatchWithDupCnt
            oa pa init ob pb init)
          (\<lambda>r. Some (rbind r (\<lambda>(sa, sb).
             rbind (collect_items items_a (ms_store (es_self sa)) (ms_store (es_peer sa))) (\<lambda>ret_a.
             rbind (collect_items items_b (ms_store (es_self sb)) (ms_store (es_peer sb))) (\<lambda>ret_b.
             Inr (ret_a, ret_b)))))))"

section \<open>Messages are received as sent\<close>

lemma chunks_concat:
  assumes "\<forall>x \<in> set xs. length x = L"
  shows "map (\<lambda>i. take L (drop (i * L) (concat xs))) [0..<length xs] = xs"
  using assms
proof (induction xs)
  case (Cons x xs)
  have "map (\<lambda>i. take L (drop (i * L) (concat (x # xs)))) [0..<length (x # xs)] =
      take L (concat (x # xs)) # map (\<lambda>i. take L (drop (Suc i * L) (concat (x # xs)))) [0..<length xs]"
    by (simp add: upt_conv_Cons map_Suc_upt [symmetric] comp_def del: upt_Suc)
  also have "\<dots> = x # xs"
    using Cons by simp
  finally show ?case .
qed simp

lemma RecvBatch_BatchData:
  assumes "\<forall>x \<in> set items. length x = L"
  shows "RecvBatch i (BatchData items dup kind i) = Inr (items, if items = [] then (\<lambda>_. None) else dup)"
proof (cases "items = []")
  case False
  have "length (concat items) = length items * L"
    using assms by (induction items) auto
  then show ?thesis
    using False chunks_concat [OF assms] by (simp add: RecvBatch_def BatchData_def)
qed (simp add: RecvBatch_def BatchData_def)

text \<open>
  A batch of items of one length is received as it was sent, with its duplicate counts; the
  receiver accepts it exactly when it waits for a batch with this index.
\<close>

theorem BatchData_roundtrip:
  assumes "\<forall>x \<in> set items. length x = L" "items \<noteq> []"
  shows "RecvBatch j (BatchData items dup kind i) = (if i = j then Inr (items, dup) else Inl (Enforce ''Expected batch''))"
  using RecvBatch_BatchData [OF assms(1), of i dup kind] assms(2) by (simp add: RecvBatch_def BatchData_def)

theorem BatchData_roundtrip_witness:
  "RecvBatch 3 (BatchData [''ab'', ''cd'', ''ef''] [1 \<mapsto> 4] ''enc'' 3) = Inr ([''ab'', ''cd'', ''ef''], [1 \<mapsto> 4]) \<and>
   RecvBatch 4 (BatchData [''ab'', ''cd'', ''ef''] [1 \<mapsto> 4] ''enc'' 3) = Inl (Enforce ''Expected batch'')"
  using BatchData_roundtrip [of "[''ab'', ''cd'', ''ef'']" 2 3 "[1 \<mapsto> 4]" "''enc''" 3]
    BatchData_roundtrip [of "[''ab'', ''cd'', ''ef'']" 2 4 "[1 \<mapsto> 4]" "''enc''" 3] by simp

section \<open>Stores\<close>

text \<open>The contract of \<open>IEcPointStore\<close>: what is saved is appended to what the store holds.\<close>

locale ec_point_store =
  fixes save :: "'s saver" and item_count :: "'s \<Rightarrow> nat" and stored :: "(string \<times> nat) list \<Rightarrow> 's \<Rightarrow> bool"
  assumes save_ok: "stored xs s \<Longrightarrow> \<exists>s'. save d k s = Inr s' \<and> stored (xs @ [(d, k)]) s'"
    and count_ok: "stored xs s \<Longrightarrow> item_count s = length xs"
begin

lemma save_all_ok:
  assumes "stored xs s"
  shows "\<exists>s'. store_Save_all save ds s = Inr s' \<and> stored (xs @ map (\<lambda>d. (d, 0)) ds) s'"
  using assms unfolding store_Save_all_def
proof (induction ds arbitrary: xs s)
  case (Cons d ds)
  then obtain s' where "save d 0 s = Inr s'" "stored (xs @ [(d, 0)]) s'"
    using save_ok by blast
  with Cons.IH show ?case by fastforce
qed simp

end

definition memory_stored :: "(string \<times> nat) list \<Rightarrow> MemoryEcPointStore \<Rightarrow> bool" where
  "memory_stored xs s \<longleftrightarrow> ms_store s = map fst xs \<and> ms_item_cnt s = length xs \<and> ms_dup_cnt s = dup_cnt_map (map snd xs)"

lemma dup_cnt_map_snoc:
  "dup_cnt_map (ds @ [d]) = (if 0 < d then (dup_cnt_map ds)(length ds \<mapsto> d) else dup_cnt_map ds)"
  by (auto simp: dup_cnt_map_def nth_append)

interpretation memory_store: ec_point_store MemoryEcPointStore_Save ms_item_cnt memory_stored
  by unfold_locales (auto simp: memory_stored_def MemoryEcPointStore_Save_def dup_cnt_map_snoc)

interpretation hash_store: ec_point_store "EcPointStore_Save c" hb_item_index "holds c n" for c n
proof
  show "\<exists>s'. EcPointStore_Save c d k s = Inr s' \<and> holds c n (xs @ [(d, k)]) s'" if "holds c n xs s" for xs s d k
    using holds_write [OF that] by (simp add: EcPointStore_Save_def)
qed (simp add: holds_def)

section \<open>Masking\<close>

text \<open>What is relied on of the group and its encoding, and the cipher both parties arrive at.\<close>

definition ec_group_ok :: "nat \<Rightarrow> 'g IEccCryptor \<Rightarrow> bool" where
  "ec_group_ok L c \<longleftrightarrow> (\<forall>p a b. ec_Mul c (ec_Mul c p a) b = ec_Mul c (ec_Mul c p b) a) \<and>
     (\<forall>p. ec_DeserializePoint c (ec_SerializePoint c p) = p) \<and> (\<forall>p. length (ec_SerializePoint c p) = L)"

definition same_group :: "'g IEccCryptor \<Rightarrow> 'g IEccCryptor \<Rightarrow> bool" where
  "same_group c d \<longleftrightarrow> ec_HashToCurve c = ec_HashToCurve d \<and> ec_Mul c = ec_Mul d \<and>
     ec_SerializePoint c = ec_SerializePoint d \<and> ec_DeserializePoint c = ec_DeserializePoint d"

abbreviation secret :: "'g IEccCryptor \<Rightarrow> nat" where
  "secret c \<equiv> horner_sum unat 256 (ec_private_key c)"

definition dual_mask :: "nat \<Rightarrow> 'g IEccCryptor \<Rightarrow> 'g IEccCryptor \<Rightarrow> string \<Rightarrow> string" where
  "dual_mask m c d x =
     (let s = ec_SerializePoint c (ec_Mul c (ec_Mul c (ec_HashToCurve c x) (secret c)) (secret d))
      in drop (length s - m) s)"

lemma dual_mask_commute:
  "ec_group_ok L c \<Longrightarrow> same_group c d \<Longrightarrow> dual_mask m c d = dual_mask m d c"
  by (auto simp: dual_mask_def ec_group_ok_def same_group_def Let_def fun_eq_iff)

definition enc_msg :: "'g EcdhPsiOptions \<Rightarrow> nat \<Rightarrow> (string \<times> nat) list \<Rightarrow> PsiDataBatch" where
  "enc_msg o' i b = BatchData (masked_items (eo_ecc_cryptor o') (map fst b))
     (if PeerCanTouchResults o' then dup_cnt_map (map snd b) else (\<lambda>_. None)) ''enc'' i"

definition enc_msgs :: "'g EcdhPsiOptions \<Rightarrow> nat \<Rightarrow> (string \<times> nat) list list \<Rightarrow> PsiDataBatch list" where
  "enc_msgs o' n bs = map (\<lambda>(i, b). enc_msg o' i b) (enumerate n (bs @ [[]]))"

definition dual_msgs :: "(string \<Rightarrow> string) \<Rightarrow> nat \<Rightarrow> (string \<times> nat) list list \<Rightarrow> PsiDataBatch list" where
  "dual_msgs f n bs = map (\<lambda>(i, b). BatchData (map (f \<circ> fst) b) (\<lambda>_. None) ''dual.enc'' i) (enumerate n (bs @ [[]]))"

lemma enc_msgs_Cons: "enc_msgs o' n (b # bs) = enc_msg o' n b # enc_msgs o' (Suc n) bs"
  by (simp add: enc_msgs_def)

lemma dual_msgs_Cons:
  "dual_msgs f n (b # bs) = BatchData (map (f \<circ> fst) b) (\<lambda>_. None) ''dual.enc'' n # dual_msgs f (Suc n) bs"
  by (simp add: dual_msgs_def)

lemma masked_items_simps [simp]:
  "masked_items c [] = []" "length (masked_items c xs) = length xs" "masked_items c xs = [] \<longleftrightarrow> xs = []"
  by (simp_all add: masked_items_def SerializeEcPoints_def EccMask_def HashInputs_def)

lemma masked_items_length: "ec_group_ok L c \<Longrightarrow> \<forall>x \<in> set (masked_items c xs). length x = L"
  by (auto simp: masked_items_def SerializeEcPoints_def ec_group_ok_def)

context dup_cnt_provider
begin

text \<open>The second loop of \<open>MaskSelf\<close> sends every remaining item once, and a last empty batch.\<close>

lemma mask_send_spec:
  assumes "d_inv p"
  shows "\<exists>bs. mask_send o' rd None n p = Some (Inr (enc_msgs o' n bs)) \<and> concat bs = d_remaining p \<and> [] \<notin> set bs"
  using assms
proof (induction "length (d_remaining p)" arbitrary: p n rule: less_induct)
  case less
  obtain k p' where r: "rd p = Inr ((map fst (take k (d_remaining p)), dup_cnt_map (map snd (take k (d_remaining p)))), p')"
    "d_inv p'" "d_remaining p' = drop k (d_remaining p)" "d_remaining p \<noteq> [] \<longrightarrow> 0 < k"
    using read_dup [OF less.prems] by blast
  show ?case
  proof (cases "d_remaining p = []")
    case True
    then show ?thesis
      using r(1) by (subst mask_send.simps) (auto simp: enc_msgs_def enc_msg_def BatchData_def intro!: exI [of _ "[]"])
  next
    case False
    let ?b = "take k (d_remaining p)"
    obtain bs where bs: "mask_send o' rd None (Suc n) p' = Some (Inr (enc_msgs o' (Suc n) bs))"
      "concat bs = d_remaining p'" "[] \<notin> set bs"
      using less.hyps [of p' "Suc n"] r False by auto
    have "mask_send o' rd None n p = Some (Inr (enc_msgs o' n (?b # bs)))"
      using r(1,4) False bs(1) by (subst mask_send.simps) (simp add: enc_msgs_Cons enc_msg_def Let_def)
    then show ?thesis
      using bs(2,3) r(3,4) False by (intro exI [of _ "?b # bs"]) auto
  qed
qed

lemma MaskSelf_spec:
  assumes "d_inv p"
  shows "\<exists>bs. MaskSelf o' rd 0 p = Some (Inr (enc_msgs o' 0 bs)) \<and> concat bs = d_remaining p \<and> [] \<notin> set bs"
  using mask_send_spec [OF assms] by (simp add: MaskSelf_def)

end

context ec_point_store
begin

lemma mask_peer_loop:
  assumes cs: "\<And>i. i < n \<Longrightarrow> dual_cipher (eo_dual_mask_size o') (ec_SerializePoint (eo_ecc_cryptor o') (pts ! i)) = Inr (cs ! i)"
    and len: "length pts = n" "length cs = n" and st: "stored xs s"
  shows "\<exists>s'. rfold (mask_peer_one o' save dup pts) [0..<n] ([], s) = Inr (cs, s') \<and>
     stored (xs @ (if SelfCanTouchResults o'
        then map (\<lambda>i. (cs ! i, case dup i of None \<Rightarrow> 0 | Some d \<Rightarrow> d)) [0..<n] else [])) s'"
proof -
  let ?I = "\<lambda>i (ds, s'). ds = take i cs \<and> stored (xs @ (if SelfCanTouchResults o'
        then map (\<lambda>i. (cs ! i, case dup i of None \<Rightarrow> 0 | Some d \<Rightarrow> d)) [0..<i] else [])) s'"
  have "\<exists>r. rfold (mask_peer_one o' save dup pts) [0..<n] ([], s) = Inr r \<and> ?I n r"
  proof (rule rfold_upt_inv)
    fix i r assume "i < n" "?I i r"
    then obtain s1 where r: "r = (take i cs, s1)" "stored (xs @ (if SelfCanTouchResults o'
        then map (\<lambda>i. (cs ! i, case dup i of None \<Rightarrow> 0 | Some d \<Rightarrow> d)) [0..<i] else [])) s1" by auto
    show "\<exists>r'. mask_peer_one o' save dup pts i r = Inr r' \<and> ?I (Suc i) r'"
      using save_ok [OF r(2), of "cs ! i" "case dup i of None \<Rightarrow> 0 | Some d \<Rightarrow> d"] r(2) cs [OF \<open>i < n\<close>] \<open>i < n\<close> len
      by (auto simp: r(1) mask_peer_one_def take_Suc_conv_app_nth)
  qed (use st in simp)
  then show ?thesis using len by auto
qed

lemma mask_peer_batch:
  assumes g: "ec_group_ok L (eo_ecc_cryptor os)" "same_group (eo_ecc_cryptor os) (eo_ecc_cryptor o')"
    and m: "eo_dual_mask_size o' \<le> L" and touch: "PeerCanTouchResults os = SelfCanTouchResults o'"
    and st: "stored xs s"
  defines "c \<equiv> eo_ecc_cryptor os" and "d \<equiv> eo_ecc_cryptor o'"
  defines "f \<equiv> dual_mask (eo_dual_mask_size o') c d"
  shows "\<exists>dup s'. RecvBatch n (enc_msg os n b) = Inr (masked_items c (map fst b), dup) \<and>
     rfold (mask_peer_one o' save dup (EccMask d (DeserializeEcPoints d (masked_items c (map fst b)))))
       [0..<length b] ([], s) = Inr (map (f \<circ> fst) b, s') \<and>
     stored (xs @ (if SelfCanTouchResults o' then map (\<lambda>(x, k). (f x, k)) b else [])) s'"
proof -
  let ?dup = "if b = [] then (\<lambda>_. None) else if PeerCanTouchResults os then dup_cnt_map (map snd b) else (\<lambda>_. None)"
  let ?pts = "EccMask d (DeserializeEcPoints d (masked_items c (map fst b)))"
  have msg: "RecvBatch n (enc_msg os n b) = Inr (masked_items c (map fst b), ?dup)"
    unfolding enc_msg_def c_def [symmetric]
    using RecvBatch_BatchData [OF masked_items_length [OF g(1)]] by (simp add: c_def)
  have pts: "?pts = map (\<lambda>x. ec_Mul c (ec_Mul c (ec_HashToCurve c (fst x)) (secret c)) (secret d)) b"
    using g by (simp add: EccMask_def DeserializeEcPoints_def masked_items_def SerializeEcPoints_def HashInputs_def
        ec_group_ok_def same_group_def c_def d_def comp_def)
  have "\<exists>s'. rfold (mask_peer_one o' save ?dup ?pts) [0..<length b] ([], s) = Inr (map (f \<circ> fst) b, s') \<and>
     stored (xs @ (if SelfCanTouchResults o' then map (\<lambda>i. (map (f \<circ> fst) b ! i, case ?dup i of None \<Rightarrow> 0 | Some d \<Rightarrow> d)) [0..<length b] else [])) s'"
  proof (rule mask_peer_loop)
    fix i assume "i < length b"
    then show "dual_cipher (eo_dual_mask_size o') (ec_SerializePoint (eo_ecc_cryptor o') (?pts ! i)) = Inr (map (f \<circ> fst) b ! i)"
      using g m unfolding pts by (simp add: dual_cipher_def ec_group_ok_def same_group_def f_def dual_mask_def c_def d_def)
  qed (use st in \<open>simp_all add: pts\<close>)
  moreover have "map (\<lambda>i. (map (f \<circ> fst) b ! i, case ?dup i of None \<Rightarrow> 0 | Some d \<Rightarrow> d)) [0..<length b] = map (\<lambda>(x, k). (f x, k)) b"
    if "SelfCanTouchResults o'"
    using that touch by (intro nth_equalityI) (auto simp: dup_cnt_map_def case_prod_beta')
  ultimately show ?thesis
    using msg by (cases "SelfCanTouchResults o'") auto
qed

lemma mask_peer_spec:
  assumes g: "ec_group_ok L (eo_ecc_cryptor os)" "same_group (eo_ecc_cryptor os) (eo_ecc_cryptor o')"
    and m: "eo_dual_mask_size o' \<le> L" and touch: "PeerCanTouchResults os = SelfCanTouchResults o'"
    and st: "stored xs s" and ne: "[] \<notin> set bs"
  defines "f \<equiv> dual_mask (eo_dual_mask_size o') (eo_ecc_cryptor os) (eo_ecc_cryptor o')"
  shows "\<exists>s' rm'. mask_peer o' save item_count n (enc_msgs os n bs) s rm =
       Inr (if PeerCanTouchResults o' then dual_msgs f n bs else [], s', rm') \<and>
     stored (xs @ (if SelfCanTouchResults o' then map (\<lambda>(x, k). (f x, k)) (concat bs) else [])) s'"
  using st ne
proof (induction bs arbitrary: n xs s rm)
  case Nil
  obtain dup where "RecvBatch n (enc_msg os n []) = Inr ([], dup)"
    using mask_peer_batch [OF g m touch Nil.prems(1), of n "[]"] by auto
  then show ?case
    using Nil.prems(1) by (simp add: enc_msgs_def dual_msgs_def DeserializeEcPoints_def)
next
  case (Cons b bs)
  let ?c = "eo_ecc_cryptor os" and ?d = "eo_ecc_cryptor o'"
  obtain dup s1 where b: "RecvBatch n (enc_msg os n b) = Inr (masked_items ?c (map fst b), dup)"
     "rfold (mask_peer_one o' save dup (EccMask ?d (DeserializeEcPoints ?d (masked_items ?c (map fst b)))))
       [0..<length b] ([], s) = Inr (map (f \<circ> fst) b, s1)"
     "stored (xs @ (if SelfCanTouchResults o' then map (\<lambda>(x, k). (f x, k)) b else [])) s1"
    using mask_peer_batch [OF g m touch Cons.prems(1), of n b] unfolding f_def [symmetric] by (elim exE conjE) (rule that)
  have len: "length (DeserializeEcPoints ?d (masked_items ?c (map fst b))) = length b"
    by (simp add: DeserializeEcPoints_def)
  from Cons.IH [OF b(3), of "Suc n" "if SelfCanTouchResults o' then update_peer_count item_count s1 rm else rm"] Cons.prems(2)
  show ?case
    using b(1,2) by (auto simp: enc_msgs_Cons dual_msgs_Cons len Let_def split: if_splits)
qed

lemma recv_dual_spec:
  assumes st: "stored xs s" and ne: "[] \<notin> set bs" and L: "\<And>x. length (f x) = L"
  shows "\<exists>s' rm'. recv_dual save item_count n (dual_msgs f n bs) s rm = Inr (s', rm') \<and>
     stored (xs @ map (\<lambda>(x, k). (f x, 0)) (concat bs)) s'"
  using st ne
proof (induction bs arbitrary: n xs s rm)
  case Nil
  then show ?case
    by (simp add: dual_msgs_def RecvBatch_def BatchData_def store_Save_all_def)
next
  case (Cons b bs)
  obtain s1 where s1: "store_Save_all save (map (f \<circ> fst) b) s = Inr s1" "stored (xs @ map (\<lambda>d. (d, 0)) (map (f \<circ> fst) b)) s1"
    using save_all_ok [OF Cons.prems(1)] by blast
  have "RecvBatch n (BatchData (map (f \<circ> fst) b) (\<lambda>_. None) ''dual.enc'' n) = Inr (map (f \<circ> fst) b, \<lambda>_. None)"
    using RecvBatch_BatchData [of "map (f \<circ> fst) b" L] L by simp
  moreover have eq: "map (\<lambda>d. (d, 0)) (map (f \<circ> fst) b) = map (\<lambda>(x, k). (f x, 0)) b"
    by auto
  ultimately show ?case
    using Cons.IH [OF s1(2) [unfolded eq], of "Suc n" "update_self_count item_count s1 rm"] Cons.prems(2) s1(1)
    by (auto simp: dual_msgs_Cons)
qed

end

section \<open>The protocol\<close>

lemma dual_mask_length:
  "ec_group_ok L c \<Longrightarrow> m \<le> L \<Longrightarrow> length (dual_mask m c d x) = m"
  by (simp add: dual_mask_def ec_group_ok_def Let_def)

text \<open>Two parties with matching options: the two ranks of the link, one curve, one target.\<close>

definition paired :: "nat \<Rightarrow> 'g EcdhPsiOptions \<Rightarrow> 'g EcdhPsiOptions \<Rightarrow> bool" where
  "paired L oa ob \<longleftrightarrow> eo_rank oa \<le> 1 \<and> eo_rank ob = 1 - eo_rank oa \<and> eo_target_rank oa = eo_target_rank ob \<and>
     ec_curve_type (eo_ecc_cryptor oa) = ec_curve_type (eo_ecc_cryptor ob) \<and>
     same_group (eo_ecc_cryptor oa) (eo_ecc_cryptor ob) \<and> ec_group_ok L (eo_ecc_cryptor oa) \<and>
     eo_dual_mask_size oa = eo_dual_mask_size ob \<and> eo_dual_mask_size oa \<le> L"

lemma paired_sym: "paired L oa ob \<Longrightarrow> paired L ob oa"
  unfolding paired_def same_group_def ec_group_ok_def by (elim conjE) simp

lemma paired_touch: "paired L oa ob \<Longrightarrow> PeerCanTouchResults oa = SelfCanTouchResults ob"
  by (auto simp: paired_def PeerCanTouchResults_def SelfCanTouchResults_def le_Suc_eq)

definition pair_mask :: "'g EcdhPsiOptions \<Rightarrow> 'g EcdhPsiOptions \<Rightarrow> string \<Rightarrow> string" where
  "pair_mask oa ob = dual_mask (eo_dual_mask_size oa) (eo_ecc_cryptor oa) (eo_ecc_cryptor ob)"

lemma pair_mask_commute: "paired L oa ob \<Longrightarrow> pair_mask ob oa = pair_mask oa ob"
  by (auto simp: pair_mask_def paired_def intro: dual_mask_commute [symmetric])

definition fresh_state :: "'s \<Rightarrow> ('s, 'c) ecdh_state \<Rightarrow> bool" where
  "fresh_state s st \<longleftrightarrow> es_self st = s \<and> es_peer st = s \<and> es_recovery st = None"

text \<open>A provider and a store together: the setting of a run.\<close>

locale ecdh_setting = dup_cnt_provider rd d_inv d_remaining + ec_point_store save item_count stored
  for rd :: "'p \<Rightarrow> (dup_batch \<times> 'p) result" and d_inv d_remaining
    and save :: "'s saver" and item_count stored
begin

definition side_ok :: "'g EcdhPsiOptions \<Rightarrow> (string \<Rightarrow> string) \<Rightarrow> 'p \<Rightarrow> 'p \<Rightarrow> ('s, 'c) ecdh_state \<Rightarrow> bool" where
  "side_ok o' f self peer st \<longleftrightarrow>
     stored (if SelfCanTouchResults o' then map (\<lambda>(x, k). (f x, 0)) (d_remaining self) else []) (es_self st) \<and>
     stored (if SelfCanTouchResults o' then map (\<lambda>(x, k). (f x, k)) (d_remaining peer) else []) (es_peer st)"

text \<open>One direction: the items of \<open>oa\<close> travel to \<open>ob\<close> and back.\<close>

lemma one_direction:
  assumes p: "paired L oa ob" and st: "stored [] sa" "stored [] sb" and bs: "[] \<notin> set bs"
  shows "\<exists>dual sb' rmb'. MaskPeer ob save item_count (enc_msgs oa 0 bs) sb rmb = Inr (dual, sb', rmb') \<and>
     (stored (if SelfCanTouchResults ob then map (\<lambda>(x, k). (pair_mask oa ob x, k)) (concat bs) else []) sb') \<and>
     (\<forall>rma. \<exists>sa' rma'. RecvDualMaskedSelf oa save item_count dual sa rma = Inr (sa', rma') \<and>
       (stored (if SelfCanTouchResults oa then map (\<lambda>(x, k). (pair_mask oa ob x, 0)) (concat bs) else []) sa'))"
proof -
  have g: "ec_group_ok L (eo_ecc_cryptor oa)" "same_group (eo_ecc_cryptor oa) (eo_ecc_cryptor ob)"
      "eo_dual_mask_size ob \<le> L" "eo_dual_mask_size oa = eo_dual_mask_size ob"
    using p by (auto simp: paired_def)
  let ?f = "pair_mask oa ob"
  have f: "?f = dual_mask (eo_dual_mask_size ob) (eo_ecc_cryptor oa) (eo_ecc_cryptor ob)"
    by (simp add: pair_mask_def g(4))
  obtain sb' rmb' where mp: "mask_peer ob save item_count 0 (enc_msgs oa 0 bs) sb rmb =
      Inr (if PeerCanTouchResults ob then dual_msgs ?f 0 bs else [], sb', rmb')"
    "stored ([] @ (if SelfCanTouchResults ob then map (\<lambda>(x, k). (?f x, k)) (concat bs) else [])) sb'"
    using mask_peer_spec [OF g(1-3) paired_touch [OF p] st(2) bs, of 0 rmb]
    unfolding f [symmetric] by (elim exE conjE) (rule that)
  have "\<exists>sa' rma'. recv_dual save item_count 0 (dual_msgs ?f 0 bs) sa rma = Inr (sa', rma') \<and>
     stored ([] @ map (\<lambda>(x, k). (?f x, 0)) (concat bs)) sa'" for rma
    by (rule recv_dual_spec [OF st(1) bs, where L = "eo_dual_mask_size oa"])
      (use g in \<open>simp add: pair_mask_def dual_mask_length\<close>)
  moreover have "PeerCanTouchResults ob = SelfCanTouchResults oa"
    using paired_touch [OF paired_sym [OF p]] .
  ultimately show ?thesis
    using mp st(1) by (auto simp: MaskPeer_def RecvDualMaskedSelf_def)
qed

lemma RunEcdhPsi_pair_spec:
  fixes sa sb :: "('s, 'c) ecdh_state"
  assumes p: "paired L oa ob" and inv: "d_inv pa" "d_inv pb"
    and st: "stored [] s" "fresh_state s sa" "fresh_state s sb"
  shows "\<exists>ra rb. RunEcdhPsi_pair save item_count rd oa pa sa ob pb sb = Some (Inr (ra, rb)) \<and>
     side_ok oa (pair_mask oa ob) pa pb ra \<and> side_ok ob (pair_mask oa ob) pb pa rb"
proof -
  have init: "es_self sa = s" "es_peer sa = s" "es_self sb = s" "es_peer sb = s" "es_recovery sa = None" "es_recovery sb = None"
    using st(2,3) by (auto simp: fresh_state_def)
  obtain bs where a: "MaskSelf oa rd 0 pa = Some (Inr (enc_msgs oa 0 bs))" "concat bs = d_remaining pa" "[] \<notin> set bs"
    using MaskSelf_spec [OF inv(1)] by blast
  obtain bs' where b: "MaskSelf ob rd 0 pb = Some (Inr (enc_msgs ob 0 bs'))" "concat bs' = d_remaining pb" "[] \<notin> set bs'"
    using MaskSelf_spec [OF inv(2)] by blast
  obtain dual_b peer_b rm_b where ab: "MaskPeer ob save item_count (enc_msgs oa 0 bs) s (None :: 'c RecoveryManager option) = Inr (dual_b, peer_b, rm_b)"
     "stored (if SelfCanTouchResults ob then map (\<lambda>(x, k). (pair_mask oa ob x, k)) (concat bs) else []) peer_b"
     "\<forall>rma :: 'c RecoveryManager option. \<exists>sa' rma'. RecvDualMaskedSelf oa save item_count dual_b s rma = Inr (sa', rma') \<and>
       (stored (if SelfCanTouchResults oa then map (\<lambda>(x, k). (pair_mask oa ob x, 0)) (concat bs) else []) sa')"
    using one_direction [OF p st(1) st(1) a(3), of None] by (elim exE conjE) (rule that)
  obtain dual_a peer_a rm_a where ba: "MaskPeer oa save item_count (enc_msgs ob 0 bs') s (None :: 'c RecoveryManager option) = Inr (dual_a, peer_a, rm_a)"
     "stored (if SelfCanTouchResults oa then map (\<lambda>(x, k). (pair_mask oa ob x, k)) (concat bs') else []) peer_a"
     "\<forall>rma :: 'c RecoveryManager option. \<exists>sb' rmb'. RecvDualMaskedSelf ob save item_count dual_a s rma = Inr (sb', rmb') \<and>
       (stored (if SelfCanTouchResults ob then map (\<lambda>(x, k). (pair_mask oa ob x, 0)) (concat bs') else []) sb')"
    using one_direction [OF paired_sym [OF p] st(1) st(1) b(3), of None] unfolding pair_mask_commute [OF p]
    by (elim exE conjE) (rule that)
  have "CheckConfig oa ob = Inr ()" "CheckConfig ob oa = Inr ()"
    using p by (simp_all add: CheckConfig_def paired_def)
  moreover obtain sa' rma' where "RecvDualMaskedSelf oa save item_count dual_b s rm_a = Inr (sa', rma')"
       "stored (if SelfCanTouchResults oa then map (\<lambda>(x, k). (pair_mask oa ob x, 0)) (concat bs) else []) sa'"
    using ab(3) [rule_format, of rm_a] by blast
  moreover obtain sb' rmb' where "RecvDualMaskedSelf ob save item_count dual_a s rm_b = Inr (sb', rmb')"
       "stored (if SelfCanTouchResults ob then map (\<lambda>(x, k). (pair_mask oa ob x, 0)) (concat bs') else []) sb'"
    using ba(3) [rule_format, of rm_b] by blast
  ultimately show ?thesis
    using a(1,2) b(1,2) ab(1,2) ba(1,2) by (simp add: RunEcdhPsi_pair_def init resume_count_def side_ok_def split: if_splits)
qed

end

interpretation memory_ecdh: ecdh_setting Memory_ReadNextBatchWithDupCnt Memory_inv
  "\<lambda>p. map (\<lambda>k. (k, 0)) (drop (mp_cursor p) (mp_items p))" MemoryEcPointStore_Save ms_item_cnt memory_stored ..

interpretation table_ecdh: ecdh_setting Sorted_ReadNextBatchWithDupCnt Sorted_inv
  "\<lambda>p. map (\<lambda>(k, s, d). (k, d)) (Sorted_remaining p)" "EcPointStore_Save c" hb_item_index "holds c n" for c n ..

lemma collect_items_spec:
  assumes "length self_results = length items"
  shows "collect_items items self_results peer =
     Inr (map fst (filter (\<lambda>(x, r). r \<in> set peer) (zip items self_results)))"
proof -
  have "rfold (\<lambda>index ret. if self_results ! index \<in> set (sort peer)
        then rbind (enforce (index < length items) ''index'') (\<lambda>_. Inr (ret @ [items ! index])) else Inr ret) [0..<n] [] =
      Inr (map fst (filter (\<lambda>(x, r). r \<in> set peer) (zip (take n items) (take n self_results))))"
    if "n \<le> length items" for n
    using that assms by (induction n) (simp_all add: take_Suc_conv_app_nth)
  from this [of "length items"] show ?thesis
    using assms by (simp add: collect_items_def)
qed

lemma filter_masked:
  assumes "inj_on f (set xs \<union> set ys)"
  shows "map fst (filter (\<lambda>(x, r). r \<in> f ` set ys) (zip xs (map f xs))) = filter (\<lambda>x. x \<in> set ys) xs"
proof -
  have "x \<in> set xs \<Longrightarrow> f x \<in> f ` set ys \<longleftrightarrow> x \<in> set ys" for x
    using assms by (auto dest: inj_onD)
  then show ?thesis
    by (simp add: zip_map2 zip_same_conv_map filter_map comp_def cong: filter_cong)
qed


text \<open>A small group for concrete runs: bytes under addition.\<close>

definition byte_cryptor :: "8 word list \<Rightarrow> 8 word IEccCryptor" where
  "byte_cryptor key = \<lparr> ec_private_key = key, ec_curve_type = 1, ec_HashToCurve = (\<lambda>s. of_nat (length s)),
     ec_Mul = (\<lambda>p a. p + of_nat a), ec_SerializePoint = (\<lambda>p. [char_of (unat p)]),
     ec_DeserializePoint = (\<lambda>s. of_nat (of_char (hd s))) \<rparr>"

definition byte_options :: "nat \<Rightarrow> nat option \<Rightarrow> 8 word list \<Rightarrow> 8 word EcdhPsiOptions" where
  "byte_options rank target key =
     \<lparr> eo_ecc_cryptor = byte_cryptor key, eo_rank = rank, eo_target_rank = target, eo_dual_mask_size = 1 \<rparr>"

lemma unat_byte: "unat (w :: 8 word) < 256"
  using unsigned_less [where ?'a = nat, of w] by simp

lemma byte_paired: "paired 1 (byte_options 0 t ka) (byte_options 1 t kb)"
proof -
  have "unat (p :: 8 word) mod 256 = unat p" for p
    using unat_byte [of p] by simp
  then show ?thesis
    by (simp add: paired_def byte_options_def byte_cryptor_def same_group_def ec_group_ok_def ac_simps)
qed

lemma byte_pair_mask:
  "pair_mask (byte_options 0 t ka) (byte_options 1 t kb) x =
     [char_of (unat (of_nat (length x) + of_nat (horner_sum unat 256 ka) + of_nat (horner_sum unat 256 kb) :: 8 word))]"
  by (simp add: pair_mask_def dual_mask_def byte_options_def byte_cryptor_def)

lemma byte_inj:
  assumes "\<And>x y. x \<in> S \<Longrightarrow> y \<in> S \<Longrightarrow> length x = length y \<Longrightarrow> x = y" "\<And>x. x \<in> S \<Longrightarrow> length x < 256"
  shows "inj_on (pair_mask (byte_options 0 t ka) (byte_options 1 t kb)) S"
proof (rule inj_onI)
  fix x y assume xy: "x \<in> S" "y \<in> S" "pair_mask (byte_options 0 t ka) (byte_options 1 t kb) x = pair_mask (byte_options 0 t ka) (byte_options 1 t kb) y"
  have "(char_of (unat (v :: 8 word)) :: char) = char_of (unat w) \<Longrightarrow> v = w" for v w
    using unat_byte by (metis mod_less of_char_of word_unat_eq_iff)
  then have "(of_nat (length x) :: 8 word) = of_nat (length y)"
    using xy(3) unfolding byte_pair_mask by (metis add_right_cancel list.inject)
  moreover have "unat (of_nat (length z) :: 8 word) = length z" if "z \<in> S" for z
    using assms(2) [OF that] by (intro unat_of_nat_small) simp
  ultimately have "length x = length y"
    using xy(1,2) by metis
  then show "x = y" using assms(1) xy(1,2) by blast
qed


section \<open>The protocol over tables\<close>

lemma store_matches_masked:
  assumes "inj_on f (fst ` set xs \<union> fst ` set ys)"
  shows "store_matches (map (\<lambda>(x, k). (f x, 0)) xs) (map (\<lambda>(y, k). (f y, k)) ys) =
     List.map_filter (\<lambda>(i, x, k). map_option (Pair i) (map_of ys x)) (enumerate 0 xs)"
proof -
  have m: "map_of (map (\<lambda>(y, k). (f y, k)) ys) (f x) = map_of ys x" if "x \<in> fst ` set xs" for x
    using assms that
  proof (induction ys)
    case (Cons y ys)
    then have "f (fst y) = f x \<longleftrightarrow> fst y = x" by (auto dest: inj_onD)
    moreover have "inj_on f (fst ` set xs \<union> fst ` set ys)"
      using Cons.prems(1) by (rule inj_on_subset) auto
    ultimately show ?case using Cons by (auto simp: case_prod_beta')
  qed simp
  have "enumerate 0 (map (\<lambda>(x, k). (f x, 0)) xs) = map (\<lambda>(i, x, k). (i, f x, 0 :: nat)) (enumerate 0 xs)"
    by (intro nth_equalityI) (simp_all add: nth_enumerate_eq case_prod_beta')
  then have "store_matches (map (\<lambda>(x, k). (f x, 0)) xs) (map (\<lambda>(y, k). (f y, k)) ys) =
      List.map_filter (\<lambda>(i, x, k). map_option (Pair i) (map_of (map (\<lambda>(y, k). (f y, k)) ys) (f x))) (enumerate 0 xs)"
    by (simp add: store_matches_def map_filter_def filter_map comp_def case_prod_beta')
  also have "\<dots> = List.map_filter (\<lambda>(i, x, k). map_option (Pair i) (map_of ys x)) (enumerate 0 xs)"
  proof (rule map_filter_cong)
    fix t assume "t \<in> set (enumerate 0 xs)"
    then have "fst t < length xs" "snd t = xs ! fst t" by (auto simp: in_set_enumerate_eq)
    then have "snd t \<in> set xs" by (simp only: nth_mem)
    then have "fst (snd t) \<in> fst ` set xs" by (rule imageI)
    from m [OF this] show "(\<lambda>(i, x, k). map_option (Pair i) (map_of (map (\<lambda>(y, k). (f y, k)) ys) (f x))) t =
        (\<lambda>(i, x, k). map_option (Pair i) (map_of ys x)) t"
      by (simp add: case_prod_beta')
  qed
  finally show ?thesis .
qed

lemma RunEcdhPsi_tables_rows:
  assumes "paired L oa ob" "SelfCanTouchResults oa" "codec_ok c" "0 < n"
    and "Sorted_inv pa" "Sorted_inv pb"
    and "inj_on (pair_mask oa ob) (fst ` set (Sorted_remaining pa) \<union> fst ` set (Sorted_remaining pb))"
    and "HashBucketCache_new [] n = Inr s" "fresh_state s sa" "fresh_state s sb"
    and "\<not> iw_closed w" "iw_cache w = []" "iw_cache_cnt w = 0" "iw_file w = []"
  shows "\<exists>ra rb total matched w'. RunEcdhPsi_pair (EcPointStore_Save c) hb_item_index Sorted_ReadNextBatchWithDupCnt
       oa pa sa ob pb sb = Some (Inr (ra, rb)) \<and>
     FinalizeAndWriteIndices c (es_self ra) (es_peer ra) w = Inr (total, matched, w') \<and>
     sort_key fst (iw_file w') = List.map_filter (\<lambda>(i, k, _). map_option (Pair i) (map_of
         (map (\<lambda>(k, _, d). (k, d)) (Sorted_remaining pb)) k)) (enumerate 0 (Sorted_remaining pa)) \<and> \<not> iw_closed w' \<and> iw_cache w' = []"
proof -
  let ?f = "pair_mask oa ob"
  let ?xs = "map (\<lambda>(k, s, d). (k, d)) (Sorted_remaining pa)" and ?ys = "map (\<lambda>(k, s, d). (k, d)) (Sorted_remaining pb)"
  have "holds c n [] s" using holds_new [OF assms(4), of c] assms(8) by auto
  from table_ecdh.RunEcdhPsi_pair_spec [OF assms(1,5,6) this assms(9,10)] obtain ra rb where
    run: "RunEcdhPsi_pair (EcPointStore_Save c) hb_item_index Sorted_ReadNextBatchWithDupCnt oa pa sa ob pb sb = Some (Inr (ra, rb))"
    "table_ecdh.side_ok c n oa ?f pa pb ra" by blast
  then have st: "holds c n (map (\<lambda>(x, k). (?f x, 0)) ?xs) (es_self ra)" "holds c n (map (\<lambda>(x, k). (?f x, k)) ?ys) (es_peer ra)"
    using assms(2) by (simp_all add: table_ecdh.side_ok_def)
  have inj: "inj_on ?f (fst ` set ?xs \<union> fst ` set ?ys)"
    using assms(7) by (rule inj_on_subset) force
  have "enumerate 0 ?xs = map (\<lambda>(i, k, s, d). (i, k, d)) (enumerate 0 (Sorted_remaining pa))"
    by (intro nth_equalityI) (simp_all add: nth_enumerate_eq case_prod_beta')
  then have "List.map_filter (\<lambda>(i, x, k). map_option (Pair i) (map_of ?ys x)) (enumerate 0 ?xs) =
      List.map_filter (\<lambda>(i, k, _). map_option (Pair i) (map_of ?ys k)) (enumerate 0 (Sorted_remaining pa))"
    by (simp add: map_filter_def filter_map comp_def case_prod_beta')
  with FinalizeAndWriteIndices_rows [OF assms(3) st assms(11-14)] store_matches_masked [OF inj] run(1) show ?thesis
    by auto
qed

text \<open>
  C14. The protocol over two tables of key rows, with bucketed stores on disk: for each party that may
  see the result, \<open>FinalizeAndComputeIndices\<close> writes, in the order of the row numbers once sorted, one
  row for every own key row whose key the other table has, with the number of further rows of the other
  table with that key. With the theorems about sorting key rows and about applying such index files this
  makes the result file of the ECDH protocol the intersection of the two tables.
\<close>

theorem RunEcdhPsi_tables_correct:
  assumes "paired L oa ob" "SelfCanTouchResults oa" "codec_ok c" "0 < n"
    and "Sorted_inv pa" "Sorted_inv pb"
    and "inj_on (pair_mask oa ob) (fst ` set (Sorted_remaining pa) \<union> fst ` set (Sorted_remaining pb))"
    and "HashBucketCache_new [] n = Inr s" "fresh_state s sa" "fresh_state s sb"
    and "\<not> iw_closed w" "iw_cache w = []" "iw_cache_cnt w = 0" "iw_file w = []"
  shows "\<exists>ra rb total matched w'. RunEcdhPsi_pair (EcPointStore_Save c) hb_item_index Sorted_ReadNextBatchWithDupCnt
       oa pa sa ob pb sb = Some (Inr (ra, rb)) \<and>
     FinalizeAndWriteIndices c (es_self ra) (es_peer ra) w = Inr (total, matched, w') \<and>
     sort_key fst (iw_file w') = List.map_filter (\<lambda>(i, k, _). map_option (Pair i) (map_of
         (map (\<lambda>(k, _, d). (k, d)) (Sorted_remaining pb)) k)) (enumerate 0 (Sorted_remaining pa))"
  using RunEcdhPsi_tables_rows [OF assms] by blast

theorem RunEcdhPsi_tables_correct_witness:
  "\<exists>pa pb s ra rb total matched w'.
     pa = \<lparr> sp_batch_size = 2, sp_batch = None, sp_batch_index = 0, sp_reader = [Inr [(''a'', 0, 0), (''bb'', 1, 0), (''ccc'', 2, 1)]] \<rparr> \<and>
     pb = \<lparr> sp_batch_size = 3, sp_batch = None, sp_batch_index = 0, sp_reader = [Inr [(''a'', 0, 3)], Inr [(''ccc'', 4, 0)]] \<rparr> \<and>
     HashBucketCache_new [] 2 = Inr s \<and>
     RunEcdhPsi_pair (EcPointStore_Save unary_codec) hb_item_index Sorted_ReadNextBatchWithDupCnt
       (byte_options 0 None [7]) pa \<lparr> es_self = s, es_peer = s, es_recovery = (None :: unit RecoveryManager option) \<rparr>
       (byte_options 1 None [9]) pb \<lparr> es_self = s, es_peer = s, es_recovery = None \<rparr> = Some (Inr (ra, rb)) \<and>
     FinalizeAndWriteIndices unary_codec (es_self ra) (es_peer ra) (IndexWriter_new None 9 True) = Inr (total, matched, w') \<and>
     sort_key fst (iw_file w') = [(0, 3), (2, 0)]"
proof -
  let ?pa = "\<lparr> sp_batch_size = 2, sp_batch = None, sp_batch_index = 0, sp_reader = [Inr [(''a'', 0, 0), (''bb'', 1, 0), (''ccc'', 2, 1)]] \<rparr>"
  let ?pb = "\<lparr> sp_batch_size = 3, sp_batch = None, sp_batch_index = 0, sp_reader = [Inr [(''a'', 0, 3)], Inr [(''ccc'', 4, 0)]] \<rparr>"
  obtain s where s: "HashBucketCache_new [] 2 = Inr s" by (simp add: HashBucketCache_new_def)
  let ?s = "\<lparr> es_self = s, es_peer = s, es_recovery = (None :: unit RecoveryManager option) \<rparr>"
  have rem: "Sorted_remaining ?pa = [(''a'', 0, 0), (''bb'', 1, 0), (''ccc'', 2, 1)]" "Sorted_remaining ?pb = [(''a'', 0, 3), (''ccc'', 4, 0)]"
    by (simp_all add: Sorted_remaining_def pending_def u32_row_def u32_def)
  have inv: "Sorted_inv ?pa" "Sorted_inv ?pb" by (simp_all add: Sorted_inv_def)
  have inj: "inj_on (pair_mask (byte_options 0 None [7]) (byte_options 1 None [9])) (fst ` set (Sorted_remaining ?pa) \<union> fst ` set (Sorted_remaining ?pb))"
    unfolding rem by (rule byte_inj) auto
  have rows: "List.map_filter (\<lambda>(i, k, _). map_option (Pair i) (map_of (map (\<lambda>(k, _, d). (k, d)) (Sorted_remaining ?pb)) k))
      (enumerate 0 (Sorted_remaining ?pa)) = [(0, 3), (2, 0)]"
    unfolding rem by (simp add: map_filter_simps)
  have "fresh_state s ?s" by (simp add: fresh_state_def)
  from RunEcdhPsi_tables_correct [OF byte_paired _ unary_codec_ok _ inv inj s this this, of "IndexWriter_new None 9 True"]
  show ?thesis
    unfolding rows using s
    by (auto simp: IndexWriter_new_def SelfCanTouchResults_def byte_options_def)
qed

text \<open>
  A run that resumes inside a batch sends duplicate counts at the wrong positions: here the
  first of three key rows was processed before the restart and the third occurs six times. The
  items sent are the second and the third, but the count is announced for position 2, which does not
  exist, instead of position 1: the other party takes the third key for a unique one.
\<close>

theorem MaskSelf_resume_counts:
  "MaskSelf (byte_options 0 None [7]) Sorted_ReadNextBatchWithDupCnt 1
     \<lparr> sp_batch_size = 3, sp_batch = None, sp_batch_index = 0,
       sp_reader = [Inr [(''a'', 0, 0), (''bb'', 1, 0), (''ccc'', 2, 5)]] \<rparr> =
   Some (Inr [BatchData (masked_items (byte_cryptor [7]) [''bb'', ''ccc'']) [2 \<mapsto> 5] ''enc'' 0,
              BatchData [] (\<lambda>_. None) ''enc'' 1])"
proof -
  let ?p = "\<lparr> sp_batch_size = 3, sp_batch = None, sp_batch_index = 0, sp_reader = [Inr [(''a'', 0, 0), (''bb'', 1, 0), (''ccc'', 2, 5)]] \<rparr>"
  obtain p' where r: "Sorted_ReadNextBatchWithDupCnt ?p = Inr (([''a'', ''bb'', ''ccc''], dup_cnt_map [0, 0, 5]), p')"
    "\<exists>p''. Sorted_ReadNextBatchWithDupCnt p' = Inr (([], dup_cnt_map []), p'')"
    by (simp add: Sorted_ReadNextBatchWithDupCnt_def Sorted_ReadBatchWithInfo_def batch_fill.simps batch_copy_def batch_info_def u32_row_def u32_def)
  have "dup_cnt_map [0, 0, 5] = [2 \<mapsto> 5]"
    by (auto simp: dup_cnt_map_def fun_eq_iff nth_Cons' numeral_2_eq_2)
  with r show ?thesis
    by (auto simp: MaskSelf_def mask_skip.simps [of _ 1] mask_send.simps [of _ _ "Some _"] mask_send.simps [of _ _ None]
        PeerCanTouchResults_def Let_def byte_options_def BatchData_def)
qed

end
