(* ===== verification/Ecdh_3pc.thy ===== *)
theory Ecdh_3pc
  imports Ecdh_Psi
begin

text \<open>
  \<open>psi/algorithm/ecdh/ecdh_3pc_psi.cc\<close> and \<open>psi/legacy/ecdh_3party_psi.cc\<close>: the ECDH protocol of three parties. The calculator and the partner intersect their items; the calculator
  gets the doubly masked points of both, those of its own items in sorted order, and sends the common ones to the master. The items of the master are masked by all
  three parties, one after the other, and the master compares them with the points of the partners, which it masks too. Only the master learns the result.

  Each activity is a function from the messages that it receives to those that it sends, as in \<open>Ecdh_Psi\<close>, whose activities are used for the steps between two parties.
  \<open>ids\<close> are the names of the parties: the link between two of them numbers them in the order of their names. \<open>GetMaskLength\<close> of the curve is an option here.
\<close>

section \<open>Sending and receiving items\<close>

definition kEcdhPsiBatchSize :: nat where
  "kEcdhPsiBatchSize = 4096"

lemma kEcdhPsiBatchSize_pos: "0 < kEcdhPsiBatchSize"
  by (simp add: kEcdhPsiBatchSize_def)

function SendImpl :: "string \<Rightarrow> nat \<Rightarrow> string list \<Rightarrow> PsiDataBatch list" where
  "SendImpl kind batch_count items =
     (let curr_step_item_num = min kEcdhPsiBatchSize (length items);
          msg = BatchData (take curr_step_item_num items) (\<lambda>_. None) kind batch_count
      in if curr_step_item_num = 0 then [msg] else msg # SendImpl kind (batch_count + 1) (drop curr_step_item_num items))"
  by pat_completeness auto
termination
  by (relation "measure (\<lambda>(kind, n, items). length items)") auto

declare SendImpl.simps [simp del]

definition SendDupMasked :: "string list \<Rightarrow> PsiDataBatch list" where
  "SendDupMasked dual_masked_items = SendImpl ''dual.enc'' 0 dual_masked_items"

definition SendItems :: "string list \<Rightarrow> PsiDataBatch list" where
  "SendItems items = SendImpl ''enc'' 0 items"

fun recv_items :: "nat \<Rightarrow> PsiDataBatch list \<Rightarrow> string list result" where
  "recv_items batch_count [] = Inl (Throw ''recv'')"
| "recv_items batch_count (msg # msgs) =
     rbind (RecvBatch batch_count msg) (\<lambda>(recv_batch_items, _).
     if recv_batch_items = [] then Inr [] else rbind (recv_items (batch_count + 1) msgs) (\<lambda>items. Inr (recv_batch_items @ items)))"

definition RecvItems :: "PsiDataBatch list \<Rightarrow> string list result" where
  "RecvItems msgs = recv_items 0 msgs"

section \<open>Masking the items of another party\<close>

definition mask_received :: "'g IEccCryptor \<Rightarrow> (string \<Rightarrow> string result) \<Rightarrow> string list \<Rightarrow> string list result" where
  "mask_received c keep peer_items = rmap (\<lambda>pt. keep (ec_SerializePoint c pt)) (EccMask c (DeserializeEcPoints c peer_items))"

definition MaskShufflePeer :: "'g EcdhPsiOptions \<Rightarrow> PsiDataBatch list \<Rightarrow> PsiDataBatch list result" where
  "MaskShufflePeer o' msgs =
     rbind (RecvItems msgs) (\<lambda>peer_items.
     rbind (if peer_items = [] then Inr []
            else rbind (mask_received (eo_ecc_cryptor o') (dual_cipher (eo_dual_mask_size o')) peer_items) (\<lambda>dup_masked_items. Inr (sort dup_masked_items))) (\<lambda>dup_masked_items.
     Inr (SendDupMasked dup_masked_items)))"

text \<open>\<open>truncation_size\<close>, an \<open>int32_t\<close>, is \<open>-1\<close> for a point that is sent as it is.\<close>

definition int32 :: "nat \<Rightarrow> int" where
  "int32 n = (int n + 2 ^ 31) mod 2 ^ 32 - 2 ^ 31"

lemma int32_id: "n < 2 ^ 31 \<Longrightarrow> int32 n = int n"
  by (simp add: int32_def)

definition forward_cipher :: "int \<Rightarrow> string \<Rightarrow> string result" where
  "forward_cipher truncation_size masked = (if 0 < truncation_size then dual_cipher (nat truncation_size) masked else Inr masked)"

fun mask_forward :: "'g EcdhPsiOptions \<Rightarrow> int \<Rightarrow> nat \<Rightarrow> PsiDataBatch list \<Rightarrow> PsiDataBatch list result" where
  "mask_forward o' truncation_size batch_count [] = Inl (Throw ''recv'')"
| "mask_forward o' truncation_size batch_count (msg # msgs) =
     rbind (RecvBatch batch_count msg) (\<lambda>(peer_items, _).
     rbind (if peer_items = [] then Inr [] else mask_received (eo_ecc_cryptor o') (forward_cipher truncation_size) peer_items) (\<lambda>dup_masked_items.
     let forward = BatchData dup_masked_items (\<lambda>_. None) ''enc'' batch_count in
     if peer_items = [] then Inr [forward]
     else rbind (mask_forward o' truncation_size (batch_count + 1) msgs) (\<lambda>rest. Inr (forward # rest))))"

definition MaskPeerForward :: "'g EcdhPsiOptions \<Rightarrow> int \<Rightarrow> PsiDataBatch list \<Rightarrow> PsiDataBatch list result" where
  "MaskPeerForward o' truncation_size msgs = mask_forward o' truncation_size 0 msgs"

definition MaskSendSelf :: "'g EcdhPsiOptions \<Rightarrow> string list \<Rightarrow> PsiDataBatch list result option" where
  "MaskSendSelf o' self_items = MaskSelf o' Memory_ReadNextBatchWithDupCnt 0 (MemoryBatchProvider_new id self_items kEcdhPsiBatchSize [] False)"

definition MaskRecvPeer :: "'g EcdhPsiOptions \<Rightarrow> PsiDataBatch list \<Rightarrow> (PsiDataBatch list \<times> string list) result" where
  "MaskRecvPeer o' msgs =
     rbind (MaskPeer o' MemoryEcPointStore_Save ms_item_cnt msgs MemoryEcPointStore_new (None :: unit RecoveryManager option)) (\<lambda>(sent, store, _). Inr (sent, ms_store store))"

definition RecvDupMasked :: "'g EcdhPsiOptions \<Rightarrow> PsiDataBatch list \<Rightarrow> string list result" where
  "RecvDupMasked o' msgs =
     rbind (RecvDualMaskedSelf o' MemoryEcPointStore_Save ms_item_cnt msgs MemoryEcPointStore_new (None :: unit RecoveryManager option)) (\<lambda>(store, _). Inr (ms_store store))"

section \<open>The parties\<close>

record 'g ShuffleEcdh3PcPsi =
  tp_rank :: nat
  tp_master_rank :: nat
  tp_dual_mask_size :: nat
  tp_mask_length :: nat
  tp_ecc_cryptor :: "'g IEccCryptor"

definition ShuffleEcdh3PcPsi_new :: "nat \<Rightarrow> nat \<Rightarrow> nat \<Rightarrow> nat \<Rightarrow> nat \<Rightarrow> 'g IEccCryptor \<Rightarrow> 8 word list \<Rightarrow> 'g ShuffleEcdh3PcPsi result" where
  "ShuffleEcdh3PcPsi_new world_size rank master_rank dual_mask_size mask_length cryptor private_key =
     rbind (enforce (world_size = 3) ''options_.link_ctx->WorldSize() == 3'') (\<lambda>_.
     rbind (SetPrivateKey private_key cryptor) (\<lambda>c.
     Inr \<lparr> tp_rank = rank, tp_master_rank = master_rank, tp_dual_mask_size = dual_mask_size, tp_mask_length = mask_length, tp_ecc_cryptor = c \<rparr>))"

definition next_rank :: "'g ShuffleEcdh3PcPsi \<Rightarrow> nat" where
  "next_rank p = (tp_rank p + 1) mod 3"

definition prev_rank :: "'g ShuffleEcdh3PcPsi \<Rightarrow> nat" where
  "prev_rank p = (tp_rank p + 2) mod 3"

definition IsMaster :: "'g ShuffleEcdh3PcPsi \<Rightarrow> bool" where
  "IsMaster p \<longleftrightarrow> tp_rank p = tp_master_rank p"

definition IsCalculator :: "'g ShuffleEcdh3PcPsi \<Rightarrow> bool" where
  "IsCalculator p \<longleftrightarrow> prev_rank p = tp_master_rank p"

definition IsPartner :: "'g ShuffleEcdh3PcPsi \<Rightarrow> bool" where
  "IsPartner p \<longleftrightarrow> next_rank p = tp_master_rank p"

definition CreateP2PCtx :: "(nat \<Rightarrow> string) \<Rightarrow> 'g ShuffleEcdh3PcPsi \<Rightarrow> nat \<Rightarrow> nat \<Rightarrow> nat option \<Rightarrow> 'g EcdhPsiOptions result" where
  "CreateP2PCtx ids p dst_rank dual_mask_size target_rank =
     (let rank = (if ids (tp_rank p) < ids dst_rank then 0 else 1) in
      rbind (case target_rank of None \<Rightarrow> Inr None
             | Some t \<Rightarrow> rbind (enforce (t = tp_rank p \<or> t = dst_rank) ''target_rank'') (\<lambda>_. Inr (Some (if t = dst_rank then (rank + 1) mod 2 else rank)))) (\<lambda>target.
      Inr \<lparr> eo_ecc_cryptor = tp_ecc_cryptor p, eo_rank = rank, eo_target_rank = target, eo_dual_mask_size = dual_mask_size \<rparr>))"

text \<open>\<open>MaskMaster\<close> of the master \<open>c\<close>, the calculator \<open>a\<close> and the partner \<open>b\<close>.\<close>

definition MaskMaster :: "(nat \<Rightarrow> string) \<Rightarrow> 'g ShuffleEcdh3PcPsi \<Rightarrow> string list \<Rightarrow> 'g ShuffleEcdh3PcPsi \<Rightarrow> 'g ShuffleEcdh3PcPsi \<Rightarrow> string list result option" where
  "MaskMaster ids c self_items a b =
     obind (Some (CreateP2PCtx ids c (next_rank c) (tp_dual_mask_size c) (Some (tp_rank c)))) (\<lambda>c_a_ctx.
     obind (Some (CreateP2PCtx ids c (prev_rank c) (tp_dual_mask_size c) (Some (tp_rank c)))) (\<lambda>c_b_ctx.
     obind (Some (CreateP2PCtx ids a (prev_rank a) (tp_dual_mask_size a) (Some (tp_rank a)))) (\<lambda>a_c_ctx.
     obind (Some (CreateP2PCtx ids a (next_rank a) (tp_dual_mask_size a) (Some (next_rank a)))) (\<lambda>a_b_ctx.
     obind (Some (CreateP2PCtx ids b (prev_rank b) (tp_dual_mask_size b) (Some (tp_rank b)))) (\<lambda>b_a_ctx.
     obind (Some (CreateP2PCtx ids b (next_rank b) (tp_dual_mask_size b) (Some (next_rank b)))) (\<lambda>b_c_ctx.
     obind (MaskSendSelf c_a_ctx self_items) (\<lambda>c_a.
     obind (Some (MaskPeerForward a_c_ctx (-1) c_a)) (\<lambda>a_b.
     obind (Some (MaskPeerForward b_a_ctx (int32 (tp_dual_mask_size b)) a_b)) (\<lambda>b_c.
     Some (RecvItems b_c))))))))))"

text \<open>\<open>std::set_intersection\<close> of two sorted ranges.\<close>

fun set_intersection :: "'a::linorder list \<Rightarrow> 'a list \<Rightarrow> 'a list" where
  "set_intersection (x # xs) (y # ys) =
     (if x < y then set_intersection xs (y # ys) else if y < x then set_intersection (x # xs) ys else x # set_intersection xs ys)"
| "set_intersection _ _ = []"

text \<open>\<open>PartnersPsi\<close> of all parties; \<open>shuffle\<close> is the order in which the partner takes its items. The result is that of the master.\<close>

definition PartnersPsi :: "(nat \<Rightarrow> string) \<Rightarrow> (string list \<Rightarrow> string list) \<Rightarrow> 'g ShuffleEcdh3PcPsi \<Rightarrow> 'g ShuffleEcdh3PcPsi \<Rightarrow> string list \<Rightarrow> 'g ShuffleEcdh3PcPsi \<Rightarrow> string list
     \<Rightarrow> string list result option" where
  "PartnersPsi ids shuffle c a items_a b items_b =
     obind (Some (CreateP2PCtx ids a (next_rank a) (tp_mask_length a) (Some (tp_rank a)))) (\<lambda>ctx_a.
     obind (Some (CreateP2PCtx ids b (prev_rank b) (tp_mask_length b) (Some (prev_rank b)))) (\<lambda>ctx_b.
     obind (Some (CreateP2PCtx ids c (next_rank c) (tp_mask_length c) (Some (tp_rank c)))) (\<lambda>c_a_ctx.
     obind (Some (rbind (CheckConfig ctx_a ctx_b) (\<lambda>_. CheckConfig ctx_b ctx_a))) (\<lambda>_.
     obind (MaskSendSelf ctx_a items_a) (\<lambda>a_b.
     obind (MaskSendSelf ctx_b (shuffle items_b)) (\<lambda>b_a.
     obind (Some (MaskRecvPeer ctx_a b_a)) (\<lambda>(_, peer_result).
     obind (Some (MaskShufflePeer ctx_b a_b)) (\<lambda>dual.
     obind (Some (RecvDupMasked ctx_a dual)) (\<lambda>self_result.
     obind (Some (CreateP2PCtx ids a (tp_master_rank a) (tp_dual_mask_size a) (Some (tp_master_rank a)))) (\<lambda>a_c_ctx.
     let intersection = set_intersection (sort self_result) (sort peer_result) in
     Some (RecvItems (SendItems intersection))))))))))))"

text \<open>The index of the loop over the items is a \<open>uint32_t\<close>: with $2^{32}$ items or more the loop starts again at 0, and does not end unless an index is refused.\<close>

definition FinalPsi :: "'g ShuffleEcdh3PcPsi \<Rightarrow> string list \<Rightarrow> string list \<Rightarrow> string list \<Rightarrow> string list result option" where
  "FinalPsi p self_items master_items partners_result =
     (if IsMaster p
      then obind (Some (mask_received (tp_ecc_cryptor p) (dual_cipher (tp_dual_mask_size p)) partners_result)) (\<lambda>masked_partners_items.
           let masked_partners_items = sort masked_partners_items;
               loop = (\<lambda>indices. rfold (\<lambda>index results.
                 if master_items ! index \<in> set masked_partners_items
                 then rbind (enforce (index < length self_items) ''index'') (\<lambda>_. Inr (results @ [self_items ! index]))
                 else Inr results) indices [])
           in if length master_items < 2 ^ 32 then Some (loop [0..<length master_items])
              else case loop [0..<2 ^ 32] of Inl e \<Rightarrow> Some (Inl e) | Inr _ \<Rightarrow> None)
      else Some (Inr []))"

text \<open>\<open>Ecdh3PartyPsiOperator::OnRun\<close> of the three parties; the calculator and the partner have received nothing.\<close>

definition Ecdh3Party_OnRun ::
  "(nat \<Rightarrow> string) \<Rightarrow> (string list \<Rightarrow> string list) \<Rightarrow> 'g ShuffleEcdh3PcPsi \<Rightarrow> string list \<Rightarrow> 'g ShuffleEcdh3PcPsi \<Rightarrow> string list \<Rightarrow> 'g ShuffleEcdh3PcPsi \<Rightarrow> string list
     \<Rightarrow> (string list \<times> string list \<times> string list) result option" where
  "Ecdh3Party_OnRun ids shuffle c items_c a items_a b items_b =
     obind (MaskMaster ids c items_c a b) (\<lambda>masked_master_items.
     obind (PartnersPsi ids shuffle c a items_a b items_b) (\<lambda>partner_psi_items.
     obind (FinalPsi c items_c masked_master_items partner_psi_items) (\<lambda>results_c.
     obind (FinalPsi a items_a [] []) (\<lambda>results_a.
     obind (FinalPsi b items_b [] []) (\<lambda>results_b.
     Some (Inr (results_c, results_a, results_b)))))))"

section \<open>Messages that carry items\<close>

fun carries :: "nat \<Rightarrow> string list list \<Rightarrow> PsiDataBatch list \<Rightarrow> bool" where
  "carries n [] msgs \<longleftrightarrow> (\<exists>d k. msgs = [BatchData [] d k n])"
| "carries n (xs # xss) msgs \<longleftrightarrow> xs \<noteq> [] \<and> (\<exists>d k rest. msgs = BatchData xs d k n # rest \<and> carries (Suc n) xss rest)"

lemma RecvBatch_empty: "RecvBatch n (BatchData [] d k n) = Inr ([], \<lambda>_. None)"
  using RecvBatch_BatchData [of "[]"] by simp

lemma RecvBatch_some: "xs \<noteq> [] \<Longrightarrow> \<forall>x \<in> set xs. length x = L \<Longrightarrow> RecvBatch n (BatchData xs d k n) = Inr (xs, d)"
  using RecvBatch_BatchData [of xs L] by simp

lemma enc_msgs_carry: "[] \<notin> set bs \<Longrightarrow> carries n (map (\<lambda>b. masked_items (eo_ecc_cryptor o') (map fst b)) bs) (enc_msgs o' n bs)"
proof (induction bs arbitrary: n)
  case Nil
  then show ?case by (auto simp: enc_msgs_def enc_msg_def)
next
  case (Cons b bs)
  then show ?case by (auto simp: enc_msgs_Cons enc_msg_def)
qed

lemma SendImpl_carries: "\<exists>xss. carries n xss (SendImpl kind n items) \<and> concat xss = items"
proof (induction "length items" arbitrary: items n rule: less_induct)
  case less
  show ?case
  proof (cases "items = []")
    case True
    then show ?thesis by (subst SendImpl.simps) (rule exI [of _ "[]"], simp, blast)
  next
    case False
    define k where "k = min kEcdhPsiBatchSize (length items)"
    have k: "k \<noteq> 0" using kEcdhPsiBatchSize_pos False by (simp add: k_def min_def)
    then have "length (drop k items) < length items" using False by simp
    from less.hyps [OF this] obtain xss where x: "carries (Suc n) xss (SendImpl kind (Suc n) (drop k items))" "concat xss = drop k items" by blast
    have "SendImpl kind n items = BatchData (take k items) (\<lambda>_. None) kind n # SendImpl kind (Suc n) (drop k items)"
      using k by (subst SendImpl.simps) (simp add: Let_def flip: k_def)
    then show ?thesis using k x False by (intro exI [of _ "take k items # xss"]) auto
  qed
qed

lemma recv_items_carries: "carries n xss msgs \<Longrightarrow> \<forall>x \<in> set (concat xss). length x = L \<Longrightarrow> recv_items n msgs = Inr (concat xss)"
proof (induction xss arbitrary: n msgs)
  case (Cons xs xss)
  then obtain d k rest where m: "msgs = BatchData xs d k n # rest" "carries (Suc n) xss rest" "xs \<noteq> []" by auto
  then show ?case using Cons.IH [OF m(2)] Cons.prems(2) RecvBatch_some [of xs L n d k] by auto
qed (auto simp: RecvBatch_empty)

lemma SendItems_received: "\<forall>x \<in> set items. length x = L \<Longrightarrow> RecvItems (SendItems items) = Inr items"
  using SendImpl_carries [of 0 "''enc''" items] recv_items_carries [of 0 _ _ L] by (auto simp: RecvItems_def SendItems_def)

context ec_point_store
begin

lemma recv_dual_carries:
  assumes "stored zs s" "carries n xss msgs" "\<forall>x \<in> set (concat xss). length x = L"
  shows "\<exists>s' rm'. recv_dual save item_count n msgs s rm = Inr (s', rm') \<and> stored (zs @ map (\<lambda>d. (d, 0)) (concat xss)) s'"
  using assms
proof (induction xss arbitrary: n msgs zs s rm)
  case Nil
  then show ?case by (auto simp: RecvBatch_empty store_Save_all_def)
next
  case (Cons xs xss)
  then obtain d k rest where m: "msgs = BatchData xs d k n # rest" "carries (Suc n) xss rest" "xs \<noteq> []" by auto
  obtain s1 where s1: "store_Save_all save xs s = Inr s1" "stored (zs @ map (\<lambda>d. (d, 0)) xs) s1" using save_all_ok [OF Cons.prems(1)] by blast
  from Cons.IH [OF s1(2) m(2), of "update_self_count item_count s1 rm"] show ?case
    using m s1(1) Cons.prems(3) RecvBatch_some [of xs L n d k] by auto
qed

end

section \<open>Masks\<close>

text \<open>The first mask of an item, and a further one.\<close>

definition enc :: "'g IEccCryptor \<Rightarrow> string \<Rightarrow> string" where
  "enc c x = ec_SerializePoint c (ec_Mul c (ec_HashToCurve c x) (secret c))"

definition remask :: "'g IEccCryptor \<Rightarrow> string \<Rightarrow> string" where
  "remask c s = ec_SerializePoint c (ec_Mul c (ec_DeserializePoint c s) (secret c))"

definition last_bytes :: "nat \<Rightarrow> string \<Rightarrow> string" where
  "last_bytes m s = drop (length s - m) s"

lemma masked_items_enc: "masked_items c xs = map (enc c) xs"
  by (simp add: masked_items_def SerializeEcPoints_def EccMask_def HashInputs_def enc_def comp_def)

lemma mask_received_ok:
  assumes "\<And>s. length s = L \<Longrightarrow> keep s = Inr (f s)" "ec_group_ok L c"
  shows "mask_received c keep items = Inr (map (f \<circ> remask c) items)"
proof -
  have "mask_received c keep items = rmap (\<lambda>s. keep (remask c s)) items"
    by (induction items) (simp_all add: mask_received_def EccMask_def DeserializeEcPoints_def remask_def Let_def)
  also have "\<dots> = Inr (map (f \<circ> remask c) items)" using assms by (intro rmap_total) (simp add: remask_def ec_group_ok_def)
  finally show ?thesis .
qed

lemma mask_lengths: "ec_group_ok L c \<Longrightarrow> length (enc c x) = L" "ec_group_ok L c \<Longrightarrow> length (remask c s) = L"
  by (simp_all add: enc_def remask_def ec_group_ok_def)

lemma mask_forward_carries:
  assumes "carries n xss msgs" "\<forall>x \<in> set (concat xss). length x = L" "\<And>s. length s = L \<Longrightarrow> forward_cipher t s = Inr (f s)" "ec_group_ok L (eo_ecc_cryptor o')"
  defines "h \<equiv> f \<circ> remask (eo_ecc_cryptor o')"
  shows "\<exists>msgs'. mask_forward o' t n msgs = Inr msgs' \<and> carries n (map (map h) xss) msgs'"
  using assms(1,2)
proof (induction xss arbitrary: n msgs)
  case Nil
  then show ?case by (auto simp: RecvBatch_empty) blast
next
  case (Cons xs xss)
  then obtain d k rest where m: "msgs = BatchData xs d k n # rest" "carries (Suc n) xss rest" "xs \<noteq> []" by auto
  obtain rest' where r: "mask_forward o' t (Suc n) rest = Inr rest'" "carries (Suc n) (map (map h) xss) rest'"
    using Cons.IH [OF m(2)] Cons.prems(2) unfolding concat.simps set_append by blast
  have "mask_received (eo_ecc_cryptor o') (forward_cipher t) xs = Inr (map h xs)"
    unfolding h_def by (rule mask_received_ok [OF assms(3,4)])
  then show ?case using m r Cons.prems(2) RecvBatch_some [of xs L n d k] by (auto simp: Let_def)
qed

lemma set_intersection_set: "sorted xs \<Longrightarrow> sorted ys \<Longrightarrow> set (set_intersection xs ys) = set xs \<inter> set ys"
  by (induction xs ys rule: set_intersection.induct) force+

section \<open>A run of the three parties\<close>

text \<open>The parties in their roles, on one curve with points of \<open>L\<close> bytes.\<close>

definition three_parties :: "nat \<Rightarrow> (nat \<Rightarrow> string) \<Rightarrow> 'g ShuffleEcdh3PcPsi \<Rightarrow> 'g ShuffleEcdh3PcPsi \<Rightarrow> 'g ShuffleEcdh3PcPsi \<Rightarrow> bool" where
  "three_parties L ids c a b \<longleftrightarrow> (\<forall>p \<in> {c, a, b}. tp_rank p < 3 \<and> tp_master_rank p = tp_rank c \<and> tp_mask_length p = L \<and> tp_dual_mask_size p = tp_dual_mask_size c \<and>
       ec_curve_type (tp_ecc_cryptor p) = ec_curve_type (tp_ecc_cryptor c) \<and> same_group (tp_ecc_cryptor c) (tp_ecc_cryptor p) \<and> ec_group_ok L (tp_ecc_cryptor p)) \<and>
     IsCalculator a \<and> IsPartner b \<and> inj_on ids {0, 1, 2} \<and> 0 < tp_dual_mask_size c \<and> tp_dual_mask_size c \<le> L \<and> tp_dual_mask_size c < 2 ^ 31"

lemma three_ranks:
  assumes "three_parties L ids c a b"
  shows "next_rank c = tp_rank a" "prev_rank c = tp_rank b" "prev_rank a = tp_rank c" "next_rank a = tp_rank b" "prev_rank b = tp_rank a" "next_rank b = tp_rank c"
    "tp_rank a \<noteq> tp_rank b" "tp_rank c \<noteq> tp_rank b" "tp_rank c \<noteq> tp_rank a" "IsMaster c" "\<not> IsMaster a" "\<not> IsMaster b" "ids (tp_rank a) \<noteq> ids (tp_rank b)"
proof -
  have r: "tp_rank c < 3" "tp_rank a < 3" "tp_rank b < 3" "tp_master_rank c = tp_rank c" "tp_master_rank a = tp_rank c" "tp_master_rank b = tp_rank c"
    "(tp_rank a + 2) mod 3 = tp_rank c" "(tp_rank b + 1) mod 3 = tp_rank c" "inj_on ids {0, 1, 2}"
    using assms by (auto simp: three_parties_def IsCalculator_def IsPartner_def prev_rank_def next_rank_def)
  have three: "n < 3 \<longleftrightarrow> n = 0 \<or> n = 1 \<or> n = (2 :: nat)" for n by auto
  have ranks: "(tp_rank a, tp_rank b) = ((tp_rank c + 1) mod 3, (tp_rank c + 2) mod 3)" using r(1-3,7,8) unfolding three by auto
  show "next_rank c = tp_rank a" "prev_rank c = tp_rank b" "prev_rank a = tp_rank c" "next_rank a = tp_rank b" "prev_rank b = tp_rank a" "next_rank b = tp_rank c"
    "tp_rank a \<noteq> tp_rank b" "tp_rank c \<noteq> tp_rank b" "tp_rank c \<noteq> tp_rank a" "IsMaster c" "\<not> IsMaster a" "\<not> IsMaster b"
    using r(1,4-6) ranks unfolding three by (auto simp: next_rank_def prev_rank_def IsMaster_def)
  then show "ids (tp_rank a) \<noteq> ids (tp_rank b)" using r(2,3,9) unfolding three by (auto simp: inj_on_def)
qed

text \<open>The value of an item that the master compares, and that of the calculator and the partner.\<close>

definition triple_mask :: "'g ShuffleEcdh3PcPsi \<Rightarrow> 'g ShuffleEcdh3PcPsi \<Rightarrow> 'g ShuffleEcdh3PcPsi \<Rightarrow> string \<Rightarrow> string" where
  "triple_mask c a b x = last_bytes (tp_dual_mask_size b) (remask (tp_ecc_cryptor b) (remask (tp_ecc_cryptor a) (enc (tp_ecc_cryptor c) x)))"

definition partners_mask :: "'g ShuffleEcdh3PcPsi \<Rightarrow> 'g ShuffleEcdh3PcPsi \<Rightarrow> string \<Rightarrow> string" where
  "partners_mask a b x = remask (tp_ecc_cryptor b) (enc (tp_ecc_cryptor a) x)"

lemma masks_commute:
  assumes "three_parties L ids c a b"
  shows "remask (tp_ecc_cryptor a) (enc (tp_ecc_cryptor b) x) = partners_mask a b x"
    "last_bytes (tp_dual_mask_size c) (remask (tp_ecc_cryptor c) (partners_mask a b x)) = triple_mask c a b x"
    "dual_mask L (tp_ecc_cryptor b) (tp_ecc_cryptor a) x = partners_mask a b x"
proof -
  let ?c = "tp_ecc_cryptor c"
  have g: "same_group ?c (tp_ecc_cryptor a)" "same_group ?c (tp_ecc_cryptor b)" "ec_group_ok L ?c" "tp_dual_mask_size b = tp_dual_mask_size c" using assms by (auto simp: three_parties_def)
  then have com: "ec_Mul ?c (ec_Mul ?c p i) j = ec_Mul ?c (ec_Mul ?c p j) i" and id: "ec_DeserializePoint ?c (ec_SerializePoint ?c p) = p" and len: "length (ec_SerializePoint ?c p) = L" for p i j
    unfolding ec_group_ok_def by blast+
  note eqs = g(1,2) [unfolded same_group_def, THEN conjunct1, symmetric] g(1,2) [unfolded same_group_def, THEN conjunct2, THEN conjunct1, symmetric]
    g(1,2) [unfolded same_group_def, THEN conjunct2, THEN conjunct2, THEN conjunct1, symmetric] g(1,2) [unfolded same_group_def, THEN conjunct2, THEN conjunct2, THEN conjunct2, symmetric]
  show "remask (tp_ecc_cryptor a) (enc (tp_ecc_cryptor b) x) = partners_mask a b x"
    "dual_mask L (tp_ecc_cryptor b) (tp_ecc_cryptor a) x = partners_mask a b x"
    using com [of "ec_HashToCurve ?c x" "secret (tp_ecc_cryptor b)" "secret (tp_ecc_cryptor a)"] by (simp_all add: remask_def enc_def partners_mask_def dual_mask_def eqs id len)
  have "ec_Mul ?c (ec_Mul ?c (ec_Mul ?c h i) j) k = ec_Mul ?c (ec_Mul ?c (ec_Mul ?c h k) i) j" for h i j k using com by metis
  then show "last_bytes (tp_dual_mask_size c) (remask ?c (partners_mask a b x)) = triple_mask c a b x"
    by (simp add: remask_def enc_def partners_mask_def triple_mask_def eqs id g(4))
qed

lemma MaskSendSelf_carries:
  assumes "ec_group_ok L (eo_ecc_cryptor o')"
  shows "\<exists>bs. MaskSendSelf o' items = Some (Inr (enc_msgs o' 0 bs)) \<and> concat bs = map (\<lambda>x. (x, 0)) items \<and> [] \<notin> set bs \<and>
     carries 0 (map (map (enc (eo_ecc_cryptor o') \<circ> fst)) bs) (enc_msgs o' 0 bs)"
proof -
  let ?p = "MemoryBatchProvider_new id items kEcdhPsiBatchSize [] False"
  have "Memory_inv ?p" "map (\<lambda>k. (k, 0)) (drop (mp_cursor ?p) (mp_items ?p)) = map (\<lambda>x. (x, 0 :: nat)) items"
    using kEcdhPsiBatchSize_pos by (simp_all add: Memory_inv_def MemoryBatchProvider_new_def)
  with memory_dup.MaskSelf_spec [of ?p o'] obtain bs where "MaskSendSelf o' items = Some (Inr (enc_msgs o' 0 bs))" "concat bs = map (\<lambda>x. (x, 0)) items" "[] \<notin> set bs"
    unfolding MaskSendSelf_def by auto
  moreover from this(3) have "carries 0 (map (map (enc (eo_ecc_cryptor o') \<circ> fst)) bs) (enc_msgs o' 0 bs)"
    using enc_msgs_carry [of bs 0 o'] by (simp add: masked_items_enc comp_def)
  ultimately show ?thesis by blast
qed

lemma concat_map_fst: "concat bs = map (\<lambda>x. (x, 0 :: nat)) items \<Longrightarrow> concat (map (map (f \<circ> fst)) bs) = map f items"
  by (simp add: map_concat [symmetric] comp_def)

lemma dual_cipher_last: "m \<le> L \<Longrightarrow> length s = L \<Longrightarrow> dual_cipher m s = Inr (last_bytes m s)"
  by (simp add: dual_cipher_def last_bytes_def)

lemma MaskMaster_ok:
  assumes t: "three_parties L ids c a b"
  shows "MaskMaster ids c items a b = Some (Inr (map (triple_mask c a b) items))"
proof -
  note r = three_ranks [OF t]
  have g: "ec_group_ok L (tp_ecc_cryptor c)" "ec_group_ok L (tp_ecc_cryptor a)" "ec_group_ok L (tp_ecc_cryptor b)" "0 < tp_dual_mask_size b" "tp_dual_mask_size b \<le> L"
    using t by (auto simp: three_parties_def)
  have ctx: "\<exists>o'. CreateP2PCtx ids p d m (Some tg) = Inr o' \<and> eo_ecc_cryptor o' = tp_ecc_cryptor p" if "tg = tp_rank p \<or> tg = d" for p :: "'a ShuffleEcdh3PcPsi" and d m tg
    using that by (auto simp: CreateP2PCtx_def enforce_def)
  obtain ca cb ac ab ba bc where o: "CreateP2PCtx ids c (next_rank c) (tp_dual_mask_size c) (Some (tp_rank c)) = Inr ca" "eo_ecc_cryptor ca = tp_ecc_cryptor c"
    "CreateP2PCtx ids c (prev_rank c) (tp_dual_mask_size c) (Some (tp_rank c)) = Inr cb"
    "CreateP2PCtx ids a (prev_rank a) (tp_dual_mask_size a) (Some (tp_rank a)) = Inr ac" "eo_ecc_cryptor ac = tp_ecc_cryptor a"
    "CreateP2PCtx ids a (next_rank a) (tp_dual_mask_size a) (Some (next_rank a)) = Inr ab"
    "CreateP2PCtx ids b (prev_rank b) (tp_dual_mask_size b) (Some (tp_rank b)) = Inr ba" "eo_ecc_cryptor ba = tp_ecc_cryptor b"
    "CreateP2PCtx ids b (next_rank b) (tp_dual_mask_size b) (Some (next_rank b)) = Inr bc" using ctx by metis
  obtain bs where s: "MaskSendSelf ca items = Some (Inr (enc_msgs ca 0 bs))" "concat bs = map (\<lambda>x. (x, 0)) items"
    "carries 0 (map (map (enc (tp_ecc_cryptor c) \<circ> fst)) bs) (enc_msgs ca 0 bs)" using MaskSendSelf_carries [of L ca items] g(1) o(2) by auto
  have len: "\<forall>x \<in> set (concat (map (map (enc (tp_ecc_cryptor c) \<circ> fst)) bs)). length x = L" using mask_lengths(1) [OF g(1)] by auto
  obtain m1 where m1: "mask_forward ac (-1) 0 (enc_msgs ca 0 bs) = Inr m1" "carries 0 (map (map (id \<circ> remask (tp_ecc_cryptor a))) (map (map (enc (tp_ecc_cryptor c) \<circ> fst)) bs)) m1"
    using mask_forward_carries [OF s(3) len, of "-1" id ac] g(2) o(5) by (auto simp: forward_cipher_def)
  have len1: "\<forall>x \<in> set (concat (map (map (id \<circ> remask (tp_ecc_cryptor a))) (map (map (enc (tp_ecc_cryptor c) \<circ> fst)) bs))). length x = L" using mask_lengths(2) [OF g(2)] by auto
  obtain m2 where m2: "mask_forward ba (int (tp_dual_mask_size b)) 0 m1 = Inr m2"
    "carries 0 (map (map (last_bytes (tp_dual_mask_size b) \<circ> remask (tp_ecc_cryptor b))) (map (map (id \<circ> remask (tp_ecc_cryptor a))) (map (map (enc (tp_ecc_cryptor c) \<circ> fst)) bs))) m2"
    using mask_forward_carries [OF m1(2) len1, of "int (tp_dual_mask_size b)" "last_bytes (tp_dual_mask_size b)" ba] g(3-5) o(8) by (auto simp: forward_cipher_def dual_cipher_last)
  have eq: "map (map (last_bytes (tp_dual_mask_size b) \<circ> remask (tp_ecc_cryptor b))) (map (map (id \<circ> remask (tp_ecc_cryptor a))) (map (map (enc (tp_ecc_cryptor c) \<circ> fst)) bs)) =
      map (map (triple_mask c a b \<circ> fst)) bs" by (simp add: triple_mask_def comp_def)
  have "\<forall>x \<in> set (concat (map (map (triple_mask c a b \<circ> fst)) bs)). length x = tp_dual_mask_size b"
    using mask_lengths(2) [OF g(3)] g(5) by (auto simp: triple_mask_def last_bytes_def)
  then have "recv_items 0 m2 = Inr (map (triple_mask c a b) items)" using recv_items_carries [OF m2(2)] unfolding eq concat_map_fst [OF s(2)] by blast
  moreover have "int32 (tp_dual_mask_size b) = int (tp_dual_mask_size b)" using t by (intro int32_id) (simp add: three_parties_def)
  ultimately show ?thesis using o s(1) m1(1) m2(1) by (simp add: MaskMaster_def MaskPeerForward_def RecvItems_def obind_Some_Inr)
qed

lemma last_bytes_all: "length s = L \<Longrightarrow> last_bytes L s = s"
  by (simp add: last_bytes_def)

lemma MaskShufflePeer_ok:
  assumes "ec_group_ok L (eo_ecc_cryptor o')" "eo_dual_mask_size o' = L" "carries 0 xss msgs" "\<forall>x \<in> set (concat xss). length x = L"
  shows "MaskShufflePeer o' msgs = Inr (SendDupMasked (sort (map (remask (eo_ecc_cryptor o')) (concat xss))))"
proof -
  have "mask_received (eo_ecc_cryptor o') (dual_cipher L) items = Inr (map (last_bytes L \<circ> remask (eo_ecc_cryptor o')) items)" for items
    by (rule mask_received_ok [OF _ assms(1)]) (simp add: dual_cipher_def last_bytes_def)
  moreover have "last_bytes L \<circ> remask (eo_ecc_cryptor o') = remask (eo_ecc_cryptor o')" using mask_lengths(2) [OF assms(1)] by (auto simp: last_bytes_all)
  moreover have "RecvItems msgs = Inr (concat xss)" using recv_items_carries [OF assms(3,4)] by (simp add: RecvItems_def)
  ultimately have "MaskShufflePeer o' msgs = Inr (SendDupMasked (if concat xss = [] then [] else sort (map (remask (eo_ecc_cryptor o')) (concat xss))))"
    using assms(2) by (simp add: MaskShufflePeer_def del: concat_eq_Nil_conv)
  then show ?thesis by (cases "concat xss = []") (simp_all del: concat_eq_Nil_conv)
qed

lemma RecvDupMasked_ok:
  assumes "SelfCanTouchResults o'" "\<forall>x \<in> set items. length x = L"
  shows "RecvDupMasked o' (SendDupMasked items) = Inr items"
proof -
  obtain xss where x: "carries 0 xss (SendDupMasked items)" "concat xss = items" using SendImpl_carries [of 0 "''dual.enc''" items] by (auto simp: SendDupMasked_def)
  have "memory_stored [] MemoryEcPointStore_new" by (simp add: memory_stored_def MemoryEcPointStore_new_def dup_cnt_map_def fun_eq_iff)
  from memory_store.recv_dual_carries [OF this x(1), of L "None :: unit RecoveryManager option"] obtain s rm where
    "recv_dual MemoryEcPointStore_Save ms_item_cnt 0 (SendDupMasked items) MemoryEcPointStore_new (None :: unit RecoveryManager option) = Inr (s, rm)"
    "memory_stored (map (\<lambda>d. (d, 0)) items) s" using x(2) assms(2) by auto
  then show ?thesis using assms(1) by (simp add: RecvDupMasked_def RecvDualMaskedSelf_def memory_stored_def comp_def)
qed

lemma PartnersPsi_ok:
  assumes t: "three_parties L ids c a b"
  shows "\<exists>common. PartnersPsi ids shuffle c a ys b zs = Some (Inr common) \<and> set common = partners_mask a b ` set ys \<inter> partners_mask a b ` set (shuffle zs)"
proof -
  note r = three_ranks [OF t]
  let ?a = "tp_ecc_cryptor a" and ?b = "tp_ecc_cryptor b" and ?P = "partners_mask a b"
  have g: "ec_group_ok L ?a" "ec_group_ok L ?b" "same_group ?b ?a" "ec_curve_type ?a = ec_curve_type ?b" "tp_mask_length a = L" "tp_mask_length b = L" "tp_master_rank a = tp_rank c"
    using t by (auto simp: three_parties_def same_group_def)
  define n where "n = (if ids (tp_rank a) < ids (tp_rank b) then 0 else 1 :: nat)"
  let ?oa = "\<lparr> eo_ecc_cryptor = ?a, eo_rank = n, eo_target_rank = Some n, eo_dual_mask_size = L \<rparr>"
  let ?ob = "\<lparr> eo_ecc_cryptor = ?b, eo_rank = 1 - n, eo_target_rank = Some n, eo_dual_mask_size = L \<rparr>"
  have ctx: "CreateP2PCtx ids a (next_rank a) (tp_mask_length a) (Some (tp_rank a)) = Inr ?oa" "CreateP2PCtx ids b (prev_rank b) (tp_mask_length b) (Some (prev_rank b)) = Inr ?ob"
    using r(4,5,7,13) g(5,6) by (auto simp: CreateP2PCtx_def enforce_def n_def not_less_iff_gr_or_eq)
  have others: "\<exists>o'. CreateP2PCtx ids p d m (Some tg) = Inr o'" if "tg = tp_rank p \<or> tg = d" for p :: "'a ShuffleEcdh3PcPsi" and d m tg
    using that by (auto simp: CreateP2PCtx_def enforce_def)
  obtain ca ac where o: "CreateP2PCtx ids c (next_rank c) (tp_mask_length c) (Some (tp_rank c)) = Inr ca"
    "CreateP2PCtx ids a (tp_master_rank a) (tp_dual_mask_size a) (Some (tp_master_rank a)) = Inr ac" using others [of "tp_rank c" c] others [of "tp_master_rank a" a "tp_master_rank a"] by blast
  have n: "n \<le> 1" "1 - (1 - n) = n" by (simp_all add: n_def)
  have p: "paired L ?ob ?oa" using g n by (simp add: paired_def)
  have touch: "SelfCanTouchResults ?oa" by (simp add: SelfCanTouchResults_def)
  have cfg: "CheckConfig ?oa ?ob = Inr ()" "CheckConfig ?ob ?oa = Inr ()" using g(4) by (simp_all add: CheckConfig_def)
  obtain bs where a: "MaskSendSelf ?oa ys = Some (Inr (enc_msgs ?oa 0 bs))" "concat bs = map (\<lambda>x. (x, 0)) ys" "carries 0 (map (map (enc ?a \<circ> fst)) bs) (enc_msgs ?oa 0 bs)"
    using MaskSendSelf_carries [of L ?oa ys] g(1) by auto
  obtain bs' where b: "MaskSendSelf ?ob (shuffle zs) = Some (Inr (enc_msgs ?ob 0 bs'))" "concat bs' = map (\<lambda>x. (x, 0)) (shuffle zs)" "[] \<notin> set bs'"
    using MaskSendSelf_carries [of L ?ob "shuffle zs"] g(2) by auto
  have new: "memory_stored [] MemoryEcPointStore_new" by (simp add: memory_stored_def MemoryEcPointStore_new_def dup_cnt_map_def fun_eq_iff)
  have "pair_mask ?ob ?oa = ?P" using masks_commute(3) [OF t] by (simp add: pair_mask_def fun_eq_iff)
  with memory_ecdh.one_direction [OF p new new b(3), of "None :: unit RecoveryManager option"] touch obtain dual s rm where
    "MaskPeer ?oa MemoryEcPointStore_Save ms_item_cnt (enc_msgs ?ob 0 bs') MemoryEcPointStore_new (None :: unit RecoveryManager option) = Inr (dual, s, rm)"
    "memory_stored (map (\<lambda>(x, k). (?P x, k)) (concat bs')) s" by auto
  then have peer: "MaskRecvPeer ?oa (enc_msgs ?ob 0 bs') = Inr (dual, map ?P (shuffle zs))" using b(2) by (simp add: MaskRecvPeer_def memory_stored_def comp_def)
  have len: "\<forall>x \<in> set (concat (map (map (enc ?a \<circ> fst)) bs)). length x = L" "\<forall>x \<in> set (sort (map ?P ys)). length x = L"
    using mask_lengths(1) [OF g(1)] mask_lengths(2) [OF g(2)] by (auto simp: partners_mask_def)
  have "map (remask ?b) (concat (map (map (enc ?a \<circ> fst)) bs)) = map ?P ys" unfolding concat_map_fst [OF a(2)] by (simp add: partners_mask_def comp_def)
  then have sh: "MaskShufflePeer ?ob (enc_msgs ?oa 0 bs) = Inr (SendDupMasked (sort (map ?P ys)))" using MaskShufflePeer_ok [of L ?ob, OF _ _ a(3) len(1)] g(2) by simp
  let ?I = "set_intersection (sort (sort (map ?P ys))) (sort (map ?P (shuffle zs)))"
  have I: "set ?I = ?P ` set ys \<inter> ?P ` set (shuffle zs)" using set_intersection_set [of "sort (sort (map ?P ys))" "sort (map ?P (shuffle zs))"] by simp
  then have "\<forall>x \<in> set ?I. length x = L" using mask_lengths(2) [OF g(2)] by (auto simp: partners_mask_def)
  then have "RecvItems (SendItems ?I) = Inr ?I" by (rule SendItems_received)
  then show ?thesis using ctx o cfg a(1) b(1) peer sh RecvDupMasked_ok [OF touch len(2)] I
    by (intro exI [of _ ?I]) (simp add: PartnersPsi_def obind_Some_Inr Let_def)
qed

text \<open>
  C17. The ECDH protocol of three parties ends, whatever their ranks and names and whatever the items of the calculator and the partner, when the master has fewer than
  $2^{32}$ items: the master gets exactly those of its items, in its order, that the calculator
  and the partner both have, and the other two get nothing. Of the curve it is assumed that multiplications commute, that points are encoded at one length (and compared at less than $2^{31}$ bytes) and decoded
  again, and that the points which are compared do not collide.
\<close>

theorem Ecdh3Party_correct:
  assumes "three_parties L ids c a b" "\<And>xs. set (shuffle xs) = set xs"
    and "inj_on (partners_mask a b) (set ys \<union> set zs)" "inj_on (triple_mask c a b) (set xs \<union> set ys \<inter> set zs)"
    and "length xs < 2 ^ 32"
  shows "Ecdh3Party_OnRun ids shuffle c xs a ys b zs = Some (Inr (filter (\<lambda>x. x \<in> set ys \<and> x \<in> set zs) xs, [], []))"
proof -
  note r = three_ranks [OF assms(1)]
  let ?P = "partners_mask a b" and ?T = "triple_mask c a b"
  have g: "ec_group_ok L (tp_ecc_cryptor c)" "tp_dual_mask_size c \<le> L" using assms(1) by (auto simp: three_parties_def)
  obtain common where p: "PartnersPsi ids shuffle c a ys b zs = Some (Inr common)" "set common = ?P ` set ys \<inter> ?P ` set zs"
    using PartnersPsi_ok [OF assms(1), of shuffle ys zs] assms(2) by auto
  have common: "set common = ?P ` (set ys \<inter> set zs)" unfolding p(2) using assms(3) by (auto simp: inj_on_def)
  let ?m = "map (last_bytes (tp_dual_mask_size c) \<circ> remask (tp_ecc_cryptor c)) common"
  have "mask_received (tp_ecc_cryptor c) (dual_cipher (tp_dual_mask_size c)) common = Inr ?m"
    by (rule mask_received_ok [OF _ g(1)]) (simp add: dual_cipher_last [OF g(2)])
  moreover have "set ?m = ?T ` (set ys \<inter> set zs)" unfolding set_map common image_image comp_def masks_commute(2) [OF assms(1)] ..
  moreover obtain ws where ws: "set ws = set ys \<inter> set zs" by (metis set_filter Int_def)
  ultimately have "FinalPsi c xs (map ?T xs) common = Some (collect_items xs (map ?T xs) (map ?T ws))"
    using r(10) assms(5) by (simp add: FinalPsi_def collect_items_def enforce_def Let_def obind_Some_Inr)
  also have "\<dots> = Some (Inr (filter (\<lambda>x. x \<in> set ws) xs))" using filter_masked [of ?T xs ws] assms(4) ws by (simp add: collect_items_spec)
  finally have "FinalPsi c xs (map ?T xs) common = Some (Inr (filter (\<lambda>x. x \<in> set ys \<and> x \<in> set zs) xs))" by (simp add: ws)
  then show ?thesis using MaskMaster_ok [OF assms(1), of xs] p(1) r(11,12) by (simp add: Ecdh3Party_OnRun_def FinalPsi_def obind_Some_Inr)
qed

lemma byte_mod: "of_nat (unat p mod 256) = (p :: 8 word)"
  using unat_byte [of p] by simp

definition byte_party :: "nat \<Rightarrow> 8 word list \<Rightarrow> 8 word ShuffleEcdh3PcPsi" where
  "byte_party rank key = \<lparr> tp_rank = rank, tp_master_rank = 1, tp_dual_mask_size = 1, tp_mask_length = 1, tp_ecc_cryptor = byte_cryptor key \<rparr>"

lemma byte_group: "ec_group_ok 1 (byte_cryptor key)"
  using byte_paired [of None key key] unfolding paired_def byte_options_def by (simp only: EcdhPsiOptions.simps)

lemma byte_three: "three_parties 1 (\<lambda>n. [''b'', ''c'', ''a''] ! n) (byte_party 1 k) (byte_party 2 k') (byte_party 0 k'')"
proof -
  have "same_group (byte_cryptor k) (byte_cryptor l)" "ec_curve_type (byte_cryptor l) = ec_curve_type (byte_cryptor k)" for l by (simp_all add: same_group_def byte_cryptor_def)
  moreover have "inj_on (\<lambda>n. [''b'', ''c'', ''a''] ! n) {0, 1, 2}" by (simp add: inj_on_def)
  ultimately show ?thesis using byte_group by (simp add: three_parties_def byte_party_def IsCalculator_def IsPartner_def prev_rank_def next_rank_def)
qed

theorem Ecdh3Party_correct_witness:
  "Ecdh3Party_OnRun (\<lambda>n. [''b'', ''c'', ''a''] ! n) rev (byte_party 1 [7]) [''a'', ''bb'', ''ccc''] (byte_party 2 [9]) [''ccc'', ''a''] (byte_party 0 [4]) [''bb'', ''ccc''] =
     Some (Inr ([''ccc''], [], []))"
proof -
  have P: "partners_mask (byte_party 2 [9]) (byte_party 0 [4]) x = [char_of (unat (of_nat (length x) + 9 + 4 :: 8 word))]" for x
    by (simp add: partners_mask_def enc_def remask_def byte_party_def byte_cryptor_def byte_mod)
  have T: "triple_mask (byte_party 1 [7]) (byte_party 2 [9]) (byte_party 0 [4]) x = [char_of (unat (of_nat (length x) + 7 + 9 + 4 :: 8 word))]" for x
    by (simp add: triple_mask_def last_bytes_def enc_def remask_def byte_party_def byte_cryptor_def byte_mod)
  have "inj_on (partners_mask (byte_party 2 [9]) (byte_party 0 [4])) (set [''ccc'', ''a''] \<union> set [''bb'', ''ccc''])"
    "inj_on (triple_mask (byte_party 1 [7]) (byte_party 2 [9]) (byte_party 0 [4])) (set [''a'', ''bb'', ''ccc''] \<union> set [''ccc'', ''a''] \<inter> set [''bb'', ''ccc''])"
    by (simp_all add: P T inj_on_def del: One_nat_def)
  from Ecdh3Party_correct [OF byte_three _ this, of rev] show ?thesis by simp
qed

end
