(* ===== verification/Inter_Index.thy ===== *)
theory Inter_Index
  imports Key_Info
begin

text \<open>
  \<open>psi/utils/table_utils.cc\<close>, second half: \<open>InterIndexProcessor\<close>, which merges the result
  indices of PSI with the key information of the own table, \<open>ResultDumper\<close>, and
  \<open>KeyInfo::ApplyPeerDupCnt\<close>, which splits the table into its intersection and its rest.

  The virtual calls of \<open>IndexReader\<close> and \<open>KeysInfoProvider\<close> are the function arguments
  \<open>next\<close> and \<open>read\<close>; the lemmas about the processor are proved for every implementation of
  the two interfaces, in a locale that joins their contracts. The indices and counters of the merge are
  \<open>uint32_t\<close>: they are reduced modulo $2^{32}$ (\<open>u32\<close>) where the code does.
\<close>

section \<open>The processor\<close>

record InterInfo =
  start_index :: nat
  self_dup_cnt :: nat
  peer_dup_cnt :: nat

record ('r, 'p) InterIndexProcessor =
  ip_reader :: 'r
  ip_provider :: 'p
  ip_index :: "index_row option"
  ip_self_info_index :: nat
  ip_finish :: bool

definition InterIndexProcessor_new ::
  "('r \<Rightarrow> (index_row option \<times> 'r) result) \<Rightarrow> 'r \<Rightarrow> 'p \<Rightarrow> ('r, 'p) InterIndexProcessor result" where
  "InterIndexProcessor_new next reader provider =
     rbind (next reader) (\<lambda>(index, reader').
     Inr \<lparr> ip_reader = reader', ip_provider = provider, ip_index = index, ip_self_info_index = 0,
           ip_finish = False \<rparr>)"

text \<open>The \<open>for\<close> loop of \<open>GetBatchInfo\<close> over one batch of key information.\<close>

fun inter_scan ::
  "('r \<Rightarrow> (index_row option \<times> 'r) result) \<Rightarrow> (nat \<times> nat) list \<Rightarrow> ('r, 'p) InterIndexProcessor
     \<Rightarrow> InterInfo list \<Rightarrow> (('r, 'p) InterIndexProcessor \<times> InterInfo list) result" where
  "inter_scan next [] st inters = Inr (st, inters)"
| "inter_scan next ((start, dup) # rest) st inters =
     (case ip_index st of
        None \<Rightarrow> Inr (st \<lparr> ip_finish := True \<rparr>, inters)
      | Some (index, cnt) \<Rightarrow>
          if ip_self_info_index st = index then
            rbind (next (ip_reader st)) (\<lambda>(index', reader').
            inter_scan next rest
              (st \<lparr> ip_index := index', ip_reader := reader',
                    ip_self_info_index := u32 (ip_self_info_index st + 1) \<rparr>)
              (inters @ [\<lparr> start_index = start, self_dup_cnt = dup, peer_dup_cnt = u32 cnt \<rparr>]))
          else if index < ip_self_info_index st then Inl (Throw ''duplicated read_cnt in result'')
          else inter_scan next rest
                 (st \<lparr> ip_self_info_index := u32 (ip_self_info_index st + 1) \<rparr>) inters)"

partial_function (option) inter_loop ::
  "('r \<Rightarrow> (index_row option \<times> 'r) result) \<Rightarrow> ('p \<Rightarrow> (BatchInfo \<times> 'p) result)
     \<Rightarrow> ('r, 'p) InterIndexProcessor
     \<Rightarrow> (('r, 'p) InterIndexProcessor \<times> InterInfo list) result option" where
  [code]: "inter_loop next read st =
     (case read (ip_provider st) of
        Inl e \<Rightarrow> Some (Inl e)
      | Inr (info, provider') \<Rightarrow>
          if bi_start_indexes info = [] then
            Some (rbind (enforce (ip_index st = None) ''reach end of key_info'') (\<lambda>_.
                  Inr (st \<lparr> ip_provider := provider' \<rparr>, [])))
          else if length (bi_start_indexes info) \<noteq> length (bi_dup_cnts info) then
            Some (Inl (Enforce ''start_index size''))
          else (case inter_scan next (zip (bi_start_indexes info) (bi_dup_cnts info))
                       (st \<lparr> ip_provider := provider' \<rparr>) [] of
                  Inl e \<Rightarrow> Some (Inl e)
                | Inr (st', inters) \<Rightarrow>
                    if inters = [] then inter_loop next read st' else Some (Inr (st', inters))))"

definition GetBatchInfo ::
  "('r \<Rightarrow> (index_row option \<times> 'r) result) \<Rightarrow> ('p \<Rightarrow> (BatchInfo \<times> 'p) result)
     \<Rightarrow> ('r, 'p) InterIndexProcessor
     \<Rightarrow> (('r, 'p) InterIndexProcessor \<times> InterInfo list) result option" where
  "GetBatchInfo next read st =
     (if ip_finish st then Some (Inr (st, []))
      else if ip_index st = None then Some (Inr (st \<lparr> ip_finish := True \<rparr>, []))
      else inter_loop next read st)"

section \<open>The dumper\<close>

text \<open>A file is its lines; an absent path is \<open>None\<close>.\<close>

record ResultDumper =
  intersect_file :: "string list option"
  except_file :: "string list option"
  intersect_cnt :: int
  except_cnt :: int

definition ResultDumper_new :: "bool \<Rightarrow> bool \<Rightarrow> ResultDumper" where
  "ResultDumper_new intersect except =
     \<lparr> intersect_file = (if intersect then Some [] else None),
       except_file = (if except then Some [] else None), intersect_cnt = 0, except_cnt = 0 \<rparr>"

function dump_lines :: "int \<Rightarrow> string \<Rightarrow> string list \<Rightarrow> string list" where
  "dump_lines duplicate_cnt line file =
     (if duplicate_cnt \<ge> 0 then dump_lines (duplicate_cnt - 1) line (file @ [line]) else file)"
  by pat_completeness auto
termination
  by (relation "measure (\<lambda>(d, _, _). nat (d + 1))") auto

declare dump_lines.simps [simp del]

definition Dump :: "string \<Rightarrow> int \<Rightarrow> string list option \<Rightarrow> int \<Rightarrow> string list option \<times> int" where
  "Dump line duplicate_cnt file total_dump_cnt =
     (map_option (dump_lines duplicate_cnt line) file, total_dump_cnt + (1 + duplicate_cnt))"

definition ToIntersect :: "string \<Rightarrow> int \<Rightarrow> ResultDumper \<Rightarrow> ResultDumper" where
  "ToIntersect line duplicate_cnt d =
     (let (file, cnt) = Dump line duplicate_cnt (intersect_file d) (intersect_cnt d)
      in d \<lparr> intersect_file := file, intersect_cnt := cnt \<rparr>)"

definition ToExcept :: "string \<Rightarrow> int \<Rightarrow> ResultDumper \<Rightarrow> ResultDumper" where
  "ToExcept line duplicate_cnt d =
     (let (file, cnt) = Dump line duplicate_cnt (except_file d) (except_cnt d)
      in d \<lparr> except_file := file, except_cnt := cnt \<rparr>)"

section \<open>Applying the peer's duplicate counts\<close>

text \<open>
  The input file is its list of newline-terminated lines; \<open>std::getline\<close> past the end leaves an
  empty line and fails.
\<close>

fun getline :: "string list \<Rightarrow> string \<times> string list" where
  "getline [] = ([], [])"
| "getline (l # ls) = (l, ls)"

record apply_state =
  as_lines :: "string list"
  as_index :: nat
  as_dumper :: ResultDumper
  as_self :: nat
  as_peer :: nat
  as_unique :: nat

fun skip_lines :: "nat \<Rightarrow> apply_state \<Rightarrow> apply_state" where
  "skip_lines 0 st = st"
| "skip_lines (Suc n) st =
     (let (line, ls) = getline (as_lines st)
      in skip_lines n (st \<lparr> as_lines := ls, as_dumper := ToExcept line 0 (as_dumper st),
                            as_index := u32 (as_index st + 1) \<rparr>))"

fun take_lines :: "nat \<Rightarrow> nat \<Rightarrow> apply_state \<Rightarrow> apply_state" where
  "take_lines 0 peer st = st"
| "take_lines (Suc n) peer st =
     (let (line, ls) = getline (as_lines st)
      in take_lines n peer (st \<lparr> as_lines := ls,
                                 as_dumper := ToIntersect line (int peer) (as_dumper st) \<rparr>))"

definition apply_info :: "InterInfo \<Rightarrow> apply_state \<Rightarrow> apply_state" where
  "apply_info info st =
     (let st1 = skip_lines (start_index info - as_index st) st;
          st2 = take_lines (self_dup_cnt info + 1) (peer_dup_cnt info) st1
      in st2 \<lparr> as_index := u32 (as_index st2 + (self_dup_cnt info + 1)),
               as_self := u32 (as_self st2 + (self_dup_cnt info + 1)),
               as_peer := u32 (as_peer st2 + (peer_dup_cnt info + 1)) \<rparr>)"

text \<open>
  The loop \<open>for (uint32_t i = 0; i <= info.self_dup_cnt; ++i)\<close> ends unless the count is the largest
  \<open>uint32_t\<close>.
\<close>

definition endless_dup :: "InterInfo \<Rightarrow> bool" where
  "endless_dup info \<longleftrightarrow> 2 ^ 32 \<le> self_dup_cnt info + 1"

partial_function (option) apply_loop ::
  "('r \<Rightarrow> (index_row option \<times> 'r) result) \<Rightarrow> ('p \<Rightarrow> (BatchInfo \<times> 'p) result)
     \<Rightarrow> ('r, 'p) InterIndexProcessor \<Rightarrow> apply_state \<Rightarrow> apply_state result option" where
  [code]: "apply_loop next read proc st =
     Option.bind (GetBatchInfo next read proc) (\<lambda>res.
     case res of
       Inl e \<Rightarrow> Some (Inl e)
     | Inr (proc', inters) \<Rightarrow>
         if inters = [] then Some (Inr st)
         else if list_ex endless_dup inters then None
         else apply_loop next read proc'
                (fold apply_info inters (st \<lparr> as_unique := u32 (as_unique st + length inters) \<rparr>)))"

record StatInfo =
  self_intersection_count :: nat
  peer_intersection_count :: nat
  original_count :: nat
  join_intersection_count :: nat
  inter_unique_cnt :: nat

definition ApplyPeerDupCnt ::
  "('r \<Rightarrow> (index_row option \<times> 'r) result) \<Rightarrow> ('p \<Rightarrow> (BatchInfo \<times> 'p) result)
     \<Rightarrow> string list \<Rightarrow> 'r \<Rightarrow> 'p \<Rightarrow> ResultDumper \<Rightarrow> (StatInfo \<times> ResultDumper) result option" where
  "ApplyPeerDupCnt next read file reader provider dumper =
     (let (header, ls) = getline file;
          dumper1 = ToExcept header 0 (ToIntersect header 0 dumper)
      in case InterIndexProcessor_new next reader provider of
           Inl e \<Rightarrow> Some (Inl e)
         | Inr proc \<Rightarrow>
             map_option (\<lambda>res. rbind res (\<lambda>st.
               let st' = skip_lines (length (as_lines st)) st
               in Inr (\<lparr> self_intersection_count = as_self st', peer_intersection_count = as_peer st',
                         original_count = as_index st',
                         join_intersection_count = nat ((intersect_cnt (as_dumper st') - 1) mod 2 ^ 32),
                         inter_unique_cnt = as_unique st' \<rparr>, as_dumper st')))
               (apply_loop next read proc
                  \<lparr> as_lines = ls, as_index = 0, as_dumper = dumper1, as_self = 0, as_peer = 0,
                    as_unique = 0 \<rparr>))"

section \<open>Lemmas on the dumper and the line loops\<close>

lemma dump_lines_replicate: "dump_lines d line fl = fl @ replicate (nat (d + 1)) line"
proof (induction d line fl rule: dump_lines.induct)
  case (1 d line fl)
  show ?case
  proof (cases "0 \<le> d")
    case True
    then have "nat (d + 1) = Suc (nat (d - 1 + 1))" by simp
    with 1 True show ?thesis by (subst dump_lines.simps) simp
  qed (subst dump_lines.simps, simp)
qed

definition dumped :: "string list \<Rightarrow> int \<Rightarrow> string list option \<times> int \<Rightarrow> string list option \<times> int" where
  "dumped ls n fc = (map_option (\<lambda>f. f @ ls) (fst fc), snd fc + n)"

lemma dumped_dumped [simp]: "dumped ls n (dumped ls' n' fc) = dumped (ls' @ ls) (n' + n) fc"
  by (cases "fst fc") (simp_all add: dumped_def)

lemma dumped_nil [simp]: "dumped [] 0 fc = fc"
  by (cases fc; cases "fst fc") (simp_all add: dumped_def)

lemma Dump_dumped: "Dump line (int n) fl cnt = dumped (replicate (n + 1) line) (int n + 1) (fl, cnt)"
proof -
  have "nat (int n + 1) = Suc n" by simp
  then show ?thesis by (cases fl) (simp_all add: Dump_def dumped_def dump_lines_replicate)
qed

definition inter_part :: "apply_state \<Rightarrow> string list option \<times> int" where
  "inter_part st = (intersect_file (as_dumper st), intersect_cnt (as_dumper st))"

definition except_part :: "apply_state \<Rightarrow> string list option \<times> int" where
  "except_part st = (except_file (as_dumper st), except_cnt (as_dumper st))"

lemma ToExcept_parts:
  "except_part (st \<lparr> as_dumper := ToExcept line (int n) (as_dumper st) \<rparr>) =
     dumped (replicate (n + 1) line) (int n + 1) (except_part st)"
  "inter_part (st \<lparr> as_dumper := ToExcept line m (as_dumper st) \<rparr>) = inter_part st"
  "except_part (st \<lparr> as_dumper := ToIntersect line m (as_dumper st) \<rparr>) = except_part st"
  "inter_part (st \<lparr> as_dumper := ToIntersect line (int n) (as_dumper st) \<rparr>) =
     dumped (replicate (n + 1) line) (int n + 1) (inter_part st)"
  by (simp_all add: except_part_def inter_part_def ToExcept_def ToIntersect_def Dump_dumped
      case_prod_beta)

lemma parts_other [simp]:
  "inter_part (st \<lparr> as_lines := x \<rparr>) = inter_part st" "except_part (st \<lparr> as_lines := x \<rparr>) = except_part st"
  "inter_part (st \<lparr> as_index := n \<rparr>) = inter_part st" "except_part (st \<lparr> as_index := n \<rparr>) = except_part st"
  "inter_part (st \<lparr> as_self := n \<rparr>) = inter_part st" "except_part (st \<lparr> as_self := n \<rparr>) = except_part st"
  "inter_part (st \<lparr> as_peer := n \<rparr>) = inter_part st" "except_part (st \<lparr> as_peer := n \<rparr>) = except_part st"
  "inter_part (st \<lparr> as_unique := n \<rparr>) = inter_part st"
  "except_part (st \<lparr> as_unique := n \<rparr>) = except_part st"
  by (simp_all add: inter_part_def except_part_def)

definition summary ::
  "apply_state \<Rightarrow> string list \<times> nat \<times> (string list option \<times> int) \<times> (string list option \<times> int)
     \<times> nat \<times> nat \<times> nat" where
  "summary st = (as_lines st, as_index st, inter_part st, except_part st, as_self st, as_peer st, as_unique st)"

lemma skip_lines_summary:
  assumes "summary st = (ls, i, I, E, a, b, u)" "n \<le> length ls" "i + n < 2 ^ 32"
  shows "summary (skip_lines n st) = (drop n ls, i + n, I, dumped (take n ls) (int n) E, a, b, u)"
  using assms
proof (induction n arbitrary: st ls i E)
  case (Suc n)
  then obtain l ls' where ls: "ls = l # ls'" by (cases ls) auto
  let ?st = "st \<lparr> as_lines := ls', as_dumper := ToExcept l 0 (as_dumper st), as_index := u32 (as_index st + 1) \<rparr>"
  have "u32 (i + 1) = i + 1" using Suc.prems(3) by (intro u32_id) simp
  then have "summary ?st = (ls', i + 1, I, dumped [l] 1 E, a, b, u)"
    using Suc.prems(1) ToExcept_parts(1) [where n = 0 and st = st and line = l]
      ToExcept_parts(2) [where m = 0 and st = st and line = l]
    by (simp add: summary_def inter_part_def except_part_def)
  from Suc.IH [OF this] Suc.prems show ?case
    by (simp add: ls summary_def algebra_simps)
qed simp

lemma take_lines_summary:
  assumes "summary st = (ls, i, I, E, a, b, u)" "n \<le> length ls"
  shows "summary (take_lines n c st) =
    (drop n ls, i, dumped (concat (map (replicate (c + 1)) (take n ls))) (int n * (int c + 1)) I, E, a, b, u)"
  using assms
proof (induction n arbitrary: st ls I)
  case (Suc n)
  then obtain l ls' where ls: "ls = l # ls'" by (cases ls) auto
  let ?st = "st \<lparr> as_lines := ls', as_dumper := ToIntersect l (int c) (as_dumper st) \<rparr>"
  have "summary ?st = (ls', i, dumped (replicate (c + 1) l) (int c + 1) I, E, a, b, u)"
    using Suc.prems(1) ToExcept_parts(4) [where n = c and st = st and line = l]
      ToExcept_parts(3) [where m = "int c" and st = st and line = l]
    by (simp add: summary_def inter_part_def except_part_def)
  from Suc.IH [OF this] Suc.prems show ?case
    by (simp add: ls summary_def algebra_simps)
qed simp

lemma apply_info_summary:
  assumes "summary st = (ls, i, I, E, a, b, u)" "i \<le> start_index x"
    and "start_index x - i + (self_dup_cnt x + 1) \<le> length ls" "start_index x + (self_dup_cnt x + 1) < 2 ^ 32"
  defines "k \<equiv> start_index x - i" and "m \<equiv> self_dup_cnt x + 1" and "c \<equiv> peer_dup_cnt x"
  shows "summary (apply_info x st) = (drop (k + m) ls, start_index x + m,
     dumped (concat (map (replicate (c + 1)) (take m (drop k ls)))) (int m * (int c + 1)) I,
     dumped (take k ls) (int k) E, u32 (a + m), u32 (b + (c + 1)), u)"
proof -
  have i: "as_index st = i" using assms(1) by (simp add: summary_def)
  have "summary (skip_lines k st) = (drop k ls, start_index x, I, dumped (take k ls) (int k) E, a, b, u)"
    using skip_lines_summary [OF assms(1), of k] assms(2-4) by (simp add: k_def)
  moreover have "u32 (start_index x + m) = start_index x + m" using assms(4) by (intro u32_id) (simp add: m_def)
  ultimately show ?thesis
    using take_lines_summary [of "skip_lines k st" "drop k ls" "start_index x" I "dumped (take k ls) (int k) E" a b u m c] assms(3)
    by (simp add: apply_info_def i k_def m_def c_def Let_def del: take_lines.simps)
      (simp add: summary_def inter_part_def except_part_def add.commute del: take_lines.simps)
qed

lemma skip_lines_unique: "skip_lines n (st \<lparr> as_unique := u \<rparr>) = (skip_lines n st) \<lparr> as_unique := u \<rparr>"
proof (induction n arbitrary: st)
  case (Suc n)
  obtain l ls where "getline (as_lines st) = (l, ls)" by fastforce
  with Suc [of "st \<lparr> as_lines := ls, as_dumper := ToExcept l 0 (as_dumper st), as_index := u32 (as_index st + 1) \<rparr>"]
  show ?case by (cases st) simp
qed simp

lemma take_lines_unique: "take_lines n c (st \<lparr> as_unique := u \<rparr>) = (take_lines n c st) \<lparr> as_unique := u \<rparr>"
proof (induction n arbitrary: st)
  case (Suc n)
  obtain l ls where "getline (as_lines st) = (l, ls)" by fastforce
  with Suc [of "st \<lparr> as_lines := ls, as_dumper := ToIntersect l (int c) (as_dumper st) \<rparr>"]
  show ?case by (cases st) simp
qed simp

lemma fold_apply_unique:
  "fold apply_info xs (st \<lparr> as_unique := u \<rparr>) = (fold apply_info xs st) \<lparr> as_unique := u \<rparr>"
proof (induction xs arbitrary: st)
  case (Cons x xs)
  have "apply_info x (st \<lparr> as_unique := u \<rparr>) = (apply_info x st) \<lparr> as_unique := u \<rparr>"
    by (cases "take_lines (self_dup_cnt x + 1) (peer_dup_cnt x) (skip_lines (start_index x - as_index st) st)")
      (simp add: apply_info_def Let_def skip_lines_unique take_lines_unique del: take_lines.simps)
  with Cons show ?case by simp
qed simp

lemma as_unique_fold: "as_unique (fold apply_info xs st) = as_unique st"
proof -
  have "st \<lparr> as_unique := as_unique st \<rparr> = st" by simp
  then show ?thesis
    using fold_apply_unique [where xs = xs and st = st and u = "as_unique st"]
    by (metis apply_state.select_convs(6) apply_state.surjective apply_state.update_convs(6))
qed

text \<open>The split of the lines which a list of match records describes, and its counters.\<close>

fun infos_ok :: "nat \<Rightarrow> nat \<Rightarrow> InterInfo list \<Rightarrow> bool" where
  "infos_ok i n [] \<longleftrightarrow> True"
| "infos_ok i n (x # xs) \<longleftrightarrow> i \<le> start_index x \<and> start_index x + (self_dup_cnt x + 1) \<le> n \<and>
     infos_ok (start_index x + (self_dup_cnt x + 1)) n xs"

fun split_lines :: "nat \<Rightarrow> string list \<Rightarrow> InterInfo list \<Rightarrow> string list \<times> string list" where
  "split_lines i ls [] = ([], ls)"
| "split_lines i ls (x # xs) =
     (let k = start_index x - i; m = self_dup_cnt x + 1;
          (a, b) = split_lines (start_index x + m) (drop (k + m) ls) xs
      in (concat (map (replicate (peer_dup_cnt x + 1)) (take m (drop k ls))) @ a, take k ls @ b))"

definition join_cnt :: "InterInfo list \<Rightarrow> nat" where
  "join_cnt xs = sum_list (map (\<lambda>x. (self_dup_cnt x + 1) * (peer_dup_cnt x + 1)) xs)"

lemma join_cnt_simps [simp]:
  "join_cnt [] = 0" "join_cnt (x # xs) = (self_dup_cnt x + 1) * (peer_dup_cnt x + 1) + join_cnt xs"
  by (simp_all add: join_cnt_def)

lemma fold_apply_info_summary:
  assumes "summary st = (ls, i, I, E, u32 a, u32 b, u)" "infos_ok i (i + length ls) xs"
    and "split_lines i ls xs = (inter_ls, except_ls)" "i + length ls < 2 ^ 32"
  shows "\<exists>st'. st' = skip_lines (length (as_lines (fold apply_info xs st))) (fold apply_info xs st) \<and>
    summary st' = ([], i + length ls, dumped inter_ls (int (join_cnt xs)) I,
      dumped except_ls (int (length except_ls)) E,
      u32 (a + sum_list (map (\<lambda>x. self_dup_cnt x + 1) xs)),
      u32 (b + sum_list (map (\<lambda>x. peer_dup_cnt x + 1) xs)), u)"
  using assms
proof (induction i ls xs arbitrary: st I E a b inter_ls except_ls rule: split_lines.induct)
  case (1 i ls)
  then have "as_lines st = ls" by (simp add: summary_def)
  with skip_lines_summary [OF 1(1), of "length ls"] 1 show ?case by simp
next
  case (2 i ls x xs)
  define k m where "k = start_index x - i" and "m = self_dup_cnt x + 1"
  obtain A B where sp: "split_lines (start_index x + m) (drop (k + m) ls) xs = (A, B)" by fastforce
  have len: "k + m \<le> length ls" "i + k = start_index x"
    using "2.prems"(2) by (auto simp: k_def m_def)
  then have "start_index x + m + length (drop (k + m) ls) = i + length ls" by simp
  then have ok: "infos_ok (start_index x + m) (start_index x + m + length (drop (k + m) ls)) xs"
    using "2.prems"(2) by (simp add: m_def)
  have out: "inter_ls = concat (map (replicate (peer_dup_cnt x + 1)) (take m (drop k ls))) @ A"
    "except_ls = take k ls @ B"
    using "2.prems"(3) sp by (auto simp: k_def m_def Let_def)
  have sum: "summary (apply_info x st) = (drop (k + m) ls, start_index x + m,
     dumped (concat (map (replicate (peer_dup_cnt x + 1)) (take m (drop k ls)))) (int m * (int (peer_dup_cnt x) + 1)) I,
     dumped (take k ls) (int k) E, u32 (a + m), u32 (b + (peer_dup_cnt x + 1)), u)"
    using apply_info_summary [OF "2.prems"(1)] len "2.prems"(4) by (auto simp: k_def m_def)
  have bnd: "start_index x + m + length (drop (k + m) ls) < 2 ^ 32" using "2.prems"(4) len by simp
  from "2.IH" [OF k_def m_def sum ok sp bnd] len show ?case
    by (simp add: out m_def algebra_simps)
qed

section \<open>The merge of indices and key information\<close>

lemma infos_ok_finite: "infos_ok i n xs \<Longrightarrow> n < 2 ^ 32 \<Longrightarrow> \<not> list_ex endless_dup xs"
  by (induction i n xs rule: infos_ok.induct) (auto simp: endless_dup_def)

text \<open>
  The merge as a function of the two streams: the match records found and the indices left over.
\<close>

fun inter_spec :: "nat \<Rightarrow> key_row list \<Rightarrow> index_row list \<Rightarrow> InterInfo list \<times> index_row list" where
  "inter_spec k [] R = ([], R)"
| "inter_spec k (x # K) [] = ([], [])"
| "inter_spec k ((key, s, d) # K) ((i, c) # R) =
     (if k = i then apfst ((#) \<lparr> start_index = s, self_dup_cnt = d, peer_dup_cnt = c \<rparr>)
                      (inter_spec (k + 1) K R)
      else inter_spec (k + 1) K ((i, c) # R))"

lemma inter_spec_Nil [simp]: "inter_spec k K [] = ([], [])"
  by (cases K) auto

lemma inter_spec_append:
  "inter_spec k (B @ K) R =
     (let (a, R1) = inter_spec k B R; (b, R2) = inter_spec (k + length B) K R1 in (a @ b, R2))"
  by (induction k B R rule: inter_spec.induct) (auto split: prod.splits)

text \<open>The result rows the merge expects: in ascending order, with counts of 32 bits.\<close>

definition ascending :: "nat \<Rightarrow> index_row list \<Rightarrow> bool" where
  "ascending k R \<longleftrightarrow> sorted_wrt (<) (map fst R) \<and> (\<forall>r \<in> set R. k \<le> fst r \<and> snd r < 2 ^ 32)"

lemma ascending_Cons:
  "ascending k (r # R) \<longleftrightarrow> k \<le> fst r \<and> snd r < 2 ^ 32 \<and> ascending (fst r + 1) R"
  by (auto simp: ascending_def)

lemma ascending_mono: "ascending k R \<Longrightarrow> k' \<le> k \<Longrightarrow> ascending k' R"
  by (auto simp: ascending_def)

lemma ascending_Suc: "ascending k ((i, c) # R) \<Longrightarrow> k \<noteq> i \<Longrightarrow> ascending (k + 1) ((i, c) # R)"
  by (auto simp: ascending_Cons)

lemma inter_spec_rest:
  "ascending k R \<Longrightarrow> ascending (k + length K) (snd (inter_spec k K R))"
proof (induction k K R rule: inter_spec.induct)
  case (3 k key s d K i c R)
  then show ?case
    by (cases "k = i") (auto simp: ascending_Cons dest: ascending_Suc)
qed (auto simp: ascending_def)

lemma inter_spec_all:
  "ascending k R \<Longrightarrow> \<forall>r \<in> set R. fst r < k + length K \<Longrightarrow> snd (inter_spec k K R) = []"
proof (induction k K R rule: inter_spec.induct)
  case (1 k R)
  then show ?case by (cases R) (auto simp: ascending_def)
next
  case (3 k key s d K i c R)
  then show ?case
    by (cases "k = i") (auto simp: ascending_Cons dest: ascending_Suc)
qed auto

lemma inter_spec_nomatch: "inter_spec k B R = ([], R1) \<Longrightarrow> R1 = R"
  by (induction k B R rule: inter_spec.induct) (auto simp: apfst_def map_prod_def split: if_splits prod.splits)

locale inter_index =
  index_reader HasNext GetNext GetNextWithPeerCnt r_inv remaining +
  keys_info_provider ReadBatchWithInfo p_inv p_remaining
  for HasNext :: "'r \<Rightarrow> (bool \<times> 'r) result"
    and GetNext :: "'r \<Rightarrow> (nat option \<times> 'r) result"
    and GetNextWithPeerCnt :: "'r \<Rightarrow> (index_row option \<times> 'r) result"
    and r_inv :: "'r \<Rightarrow> bool"
    and remaining :: "'r \<Rightarrow> index_row list"
    and ReadBatchWithInfo :: "'p \<Rightarrow> (BatchInfo \<times> 'p) result"
    and p_inv :: "'p \<Rightarrow> bool"
    and p_remaining :: "'p \<Rightarrow> key_row list"

text \<open>The indices a processor has not yet matched, and the invariant of a processor.\<close>

definition proc_rows :: "('r \<Rightarrow> index_row list) \<Rightarrow> ('r, 'p) InterIndexProcessor \<Rightarrow> index_row list" where
  "proc_rows remaining st = (case ip_index st of None \<Rightarrow> [] | Some r \<Rightarrow> [r]) @ remaining (ip_reader st)"

definition proc_ok ::
  "('r \<Rightarrow> bool) \<Rightarrow> ('r \<Rightarrow> index_row list) \<Rightarrow> ('p \<Rightarrow> bool) \<Rightarrow> ('r, 'p) InterIndexProcessor \<Rightarrow> bool" where
  "proc_ok r_inv remaining p_inv st \<longleftrightarrow>
     r_inv (ip_reader st) \<and> p_inv (ip_provider st) \<and> (ip_index st = None \<longrightarrow> remaining (ip_reader st) = [])"

context inter_index
begin

lemma next_any:
  assumes "r_inv r"
  shows "\<exists>ix r'. GetNextWithPeerCnt r = Inr (ix, r') \<and> r_inv r' \<and>
     (case ix of None \<Rightarrow> [] | Some row \<Rightarrow> [row]) @ remaining r' = remaining r \<and>
     (ix = None \<longrightarrow> remaining r' = [])"
proof (cases "remaining r")
  case Nil
  with get_next_empty [OF assms] show ?thesis by auto
next
  case (Cons row rows)
  with get_next_row [OF assms Cons] show ?thesis by auto
qed

lemma new_ok:
  assumes "r_inv r" "p_inv p"
  shows "\<exists>st. InterIndexProcessor_new GetNextWithPeerCnt r p = Inr st \<and> proc_ok r_inv remaining p_inv st \<and>
     proc_rows remaining st = remaining r \<and> ip_provider st = p \<and> ip_self_info_index st = 0 \<and> \<not> ip_finish st"
  using next_any [OF assms(1)] assms(2)
  by (auto simp: InterIndexProcessor_new_def proc_ok_def proc_rows_def)

lemma scan_spec:
  fixes st :: "('r, 'p) InterIndexProcessor"
  assumes "proc_ok r_inv remaining p_inv st" "ascending (ip_self_info_index st) (proc_rows remaining st)"
    and "\<not> ip_finish st" "ip_self_info_index st + length B < 2 ^ 32"
    and res_def: "res = inter_spec (ip_self_info_index st) B (proc_rows remaining st)"
  shows "\<exists>st'. inter_scan GetNextWithPeerCnt (map snd B) st acc = Inr (st', acc @ fst res) \<and>
     proc_ok r_inv remaining p_inv st' \<and> proc_rows remaining st' = snd res \<and>
     ip_provider st' = ip_provider st \<and>
     (ip_finish st' \<longrightarrow> snd res = []) \<and>
     (\<not> ip_finish st' \<longrightarrow> ip_self_info_index st' = ip_self_info_index st + length B)"
  using assms(1-4) unfolding res_def
proof (induction B arbitrary: st acc)
  case Nil
  then show ?case by simp
next
  case (Cons b B)
  obtain key s d where b: "b = (key, s, d)" by (cases b)
  show ?case
  proof (cases "ip_index st")
    case None
    then show ?thesis
      using Cons.prems by (simp add: b proc_rows_def proc_ok_def)
  next
    case (Some row)
    obtain i c where row: "row = (i, c)" by (cases row)
    let ?k = "ip_self_info_index st"
    have k: "u32 (Suc ?k) = Suc ?k" using Cons.prems(4) by (intro u32_id) simp
    have rows: "proc_rows remaining st = (i, c) # remaining (ip_reader st)"
      by (simp add: proc_rows_def Some row)
    show ?thesis
    proof (cases "?k = i")
      case False
      then have "?k < i" using Cons.prems(2) rows by (simp add: ascending_Cons)
      moreover let ?st = "st \<lparr> ip_self_info_index := ?k + 1 \<rparr>"
      have "proc_ok r_inv remaining p_inv ?st" "proc_rows remaining ?st = proc_rows remaining st"
        using Cons.prems by (simp_all add: proc_ok_def proc_rows_def)
      ultimately show ?thesis
        using Cons.IH [of ?st acc] Cons.prems(2-4) False ascending_Suc
        by (auto simp: b Some row rows k)
    next
      case True
      obtain r' ix where nx: "GetNextWithPeerCnt (ip_reader st) = Inr (ix, r')" "r_inv r'"
        "(case ix of None \<Rightarrow> [] | Some r \<Rightarrow> [r]) @ remaining r' = remaining (ip_reader st)"
        "ix = None \<longrightarrow> remaining r' = []"
        using next_any [of "ip_reader st"] Cons.prems(1) by (auto simp: proc_ok_def)
      let ?st = "st \<lparr> ip_index := ix, ip_reader := r', ip_self_info_index := Suc i \<rparr>"
      let ?acc = "acc @ [\<lparr> start_index = s, self_dup_cnt = d, peer_dup_cnt = c \<rparr>]"
      have rs: "proc_rows remaining ?st = remaining (ip_reader st)"
        using nx(3) by (simp add: proc_rows_def)
      have st: "proc_ok r_inv remaining p_inv ?st" "\<not> ip_finish ?st"
        "ascending (ip_self_info_index ?st) (proc_rows remaining ?st)"
        using Cons.prems nx(2,4) rows True by (simp_all add: proc_ok_def rs ascending_Cons)
      have "u32 c = c" using Cons.prems(2) by (intro u32_id) (simp add: rows ascending_Cons)
      with Cons.IH [OF st(1,3,2), of ?acc] Cons.prems(4) k show ?thesis
        by (simp add: b Some row rows nx(1) rs True)
    qed
  qed
qed

lemma loop_spec:
  assumes "proc_ok r_inv remaining p_inv st" "ascending (ip_self_info_index st) (proc_rows remaining st)"
    and "\<not> ip_finish st" "proc_rows remaining st \<noteq> []"
    and "snd (inter_spec (ip_self_info_index st) (p_remaining (ip_provider st)) (proc_rows remaining st)) = []"
    and "ip_self_info_index st + length (p_remaining (ip_provider st)) < 2 ^ 32"
  shows "\<exists>st' xs. inter_loop GetNextWithPeerCnt ReadBatchWithInfo st = Some (Inr (st', xs)) \<and> xs \<noteq> [] \<and>
     proc_ok r_inv remaining p_inv st' \<and>
     (if ip_finish st' then proc_rows remaining st' = []
      else ascending (ip_self_info_index st') (proc_rows remaining st') \<and>
           ip_self_info_index st' + length (p_remaining (ip_provider st')) < 2 ^ 32) \<and>
     length (p_remaining (ip_provider st')) < length (p_remaining (ip_provider st)) \<and>
     inter_spec (ip_self_info_index st) (p_remaining (ip_provider st)) (proc_rows remaining st) =
       apfst ((@) xs)
         (inter_spec (ip_self_info_index st') (p_remaining (ip_provider st')) (proc_rows remaining st'))"
  using assms
proof (induction "length (p_remaining (ip_provider st))" arbitrary: st rule: less_induct)
  case less
  let ?K = "p_remaining (ip_provider st)" and ?k = "ip_self_info_index st" and ?R = "proc_rows remaining st"
  have K: "?K \<noteq> []" using less.prems(4,5) by (cases ?K) auto
  with read_batch [of "ip_provider st"] less.prems(1) obtain n p' where
    rd: "ReadBatchWithInfo (ip_provider st) = Inr (batch_info (take n ?K), p')" "p_inv p'"
      "p_remaining p' = drop n ?K" "0 < n"
    by (auto simp: proc_ok_def)
  let ?st = "st \<lparr> ip_provider := p' \<rparr>" and ?B = "take n ?K"
  have B: "zip (bi_start_indexes (batch_info ?B)) (bi_dup_cnts (batch_info ?B)) = map snd ?B"
    "bi_start_indexes (batch_info ?B) \<noteq> []"
    "length (bi_start_indexes (batch_info ?B)) = length (bi_dup_cnts (batch_info ?B))"
    using K rd(4) by (auto simp: batch_info_def zip_map_map map_eq_conv intro!: nth_equalityI)
  have ok: "proc_ok r_inv remaining p_inv ?st" "proc_rows remaining ?st = ?R"
    using less.prems(1) rd(2) by (simp_all add: proc_ok_def proc_rows_def)
  obtain a R1 where a: "inter_spec ?k ?B ?R = (a, R1)" by fastforce
  have "?k + length ?B < 2 ^ 32" using less.prems(6) by simp
  then have "\<exists>st1. inter_scan GetNextWithPeerCnt (map snd ?B) ?st [] = Inr (st1, a) \<and>
    proc_ok r_inv remaining p_inv st1 \<and> proc_rows remaining st1 = R1 \<and> ip_provider st1 = p' \<and>
    (ip_finish st1 \<longrightarrow> R1 = []) \<and> (\<not> ip_finish st1 \<longrightarrow> ip_self_info_index st1 = ?k + length ?B)"
    using scan_spec [OF ok(1), where B = ?B and res = "(a, R1)" and acc = "[]"] less.prems(2,3) ok(2) a
    by (simp del: length_take)
  then obtain st1 where st1: "inter_scan GetNextWithPeerCnt (map snd ?B) ?st [] = Inr (st1, a)"
    "proc_ok r_inv remaining p_inv st1" "proc_rows remaining st1 = R1" "ip_provider st1 = p'"
    "ip_finish st1 \<longrightarrow> R1 = []" "\<not> ip_finish st1 \<longrightarrow> ip_self_info_index st1 = ?k + length ?B"
    by blast
  have split: "inter_spec ?k ?K ?R = apfst ((@) a) (inter_spec (?k + length ?B) (drop n ?K) R1)"
    using inter_spec_append [of ?k ?B "drop n ?K" ?R] a by (simp add: case_prod_beta apfst_def map_prod_def)
  then have spec: "inter_spec ?k ?K ?R =
      apfst ((@) a) (inter_spec (ip_self_info_index st1) (p_remaining (ip_provider st1)) R1)"
    using st1(4-6) rd(3) by (cases "ip_finish st1") auto
  have asc: "\<not> ip_finish st1 \<longrightarrow> ascending (ip_self_info_index st1) R1"
    using inter_spec_rest [OF less.prems(2), of ?B] a st1(6) by auto
  have bnd: "\<not> ip_finish st1 \<longrightarrow> ip_self_info_index st1 + length (p_remaining (ip_provider st1)) < 2 ^ 32"
    using st1(4,6) rd(3) less.prems(6) by auto
  have len: "length (p_remaining (ip_provider st1)) < length ?K"
    using rd(3,4) K st1(4) by simp
  show ?case
  proof (cases "a = []")
    case False
    then show ?thesis
      using st1 spec asc bnd len B
      by (intro exI [of _ st1] exI [of _ a], subst inter_loop.simps) (simp add: rd(1))
  next
    case True
    have R1: "R1 = ?R" "R1 \<noteq> []"
      using inter_spec_nomatch [OF a [unfolded True]] less.prems(4) by auto
    then have fin: "\<not> ip_finish st1" using st1(5) by auto
    have "inter_loop GetNextWithPeerCnt ReadBatchWithInfo st = inter_loop GetNextWithPeerCnt ReadBatchWithInfo st1"
      using st1(1) B True by (subst inter_loop.simps) (simp add: rd(1))
    then show ?thesis
      using less.hyps [OF len st1(2)] fin asc bnd R1 st1(3) spec True less.prems(5) len
      by (fastforce simp: apfst_def map_prod_def split: prod.splits)
  qed
qed

lemma apply_spec:
  assumes "proc_ok r_inv remaining p_inv proc" "ip_finish proc \<longrightarrow> proc_rows remaining proc = []"
    and "\<not> ip_finish proc \<longrightarrow> ascending (ip_self_info_index proc) (proc_rows remaining proc) \<and>
       ip_self_info_index proc + length (p_remaining (ip_provider proc)) < 2 ^ 32"
    and "inter_spec (ip_self_info_index proc) (p_remaining (ip_provider proc)) (proc_rows remaining proc) = (xs, [])"
    and "as_unique st = u32 u" "\<not> list_ex endless_dup xs"
  shows "apply_loop GetNextWithPeerCnt ReadBatchWithInfo proc st =
     Some (Inr (fold apply_info xs (st \<lparr> as_unique := u32 (u + length xs) \<rparr>)))"
  using assms
proof (induction "length (p_remaining (ip_provider proc))" arbitrary: proc st xs u rule: less_induct)
  case less
  show ?case
  proof (cases "proc_rows remaining proc = []")
    case True
    then have "ip_index proc = None" by (auto simp: proc_rows_def split: option.splits)
    moreover have "st \<lparr> as_unique := u32 u \<rparr> = st" using less.prems(5) by simp
    ultimately show ?thesis using less.prems(4) True
      by (subst apply_loop.simps) (simp add: GetBatchInfo_def)
  next
    case False
    then have nf: "\<not> ip_finish proc" "ip_index proc \<noteq> None"
      using less.prems(1,2) by (auto simp: proc_ok_def proc_rows_def)
    obtain proc' ys where loop: "inter_loop GetNextWithPeerCnt ReadBatchWithInfo proc = Some (Inr (proc', ys))"
      "ys \<noteq> []" "proc_ok r_inv remaining p_inv proc'"
      "if ip_finish proc' then proc_rows remaining proc' = []
       else ascending (ip_self_info_index proc') (proc_rows remaining proc') \<and>
            ip_self_info_index proc' + length (p_remaining (ip_provider proc')) < 2 ^ 32"
      "length (p_remaining (ip_provider proc')) < length (p_remaining (ip_provider proc))"
      "(xs, []) = apfst ((@) ys) (inter_spec (ip_self_info_index proc') (p_remaining (ip_provider proc'))
         (proc_rows remaining proc'))"
      using loop_spec [OF less.prems(1) _ nf(1) False] less.prems(3,4) nf by auto
    then obtain zs where zs: "inter_spec (ip_self_info_index proc') (p_remaining (ip_provider proc'))
         (proc_rows remaining proc') = (zs, [])" "xs = ys @ zs"
      by (cases "inter_spec (ip_self_info_index proc') (p_remaining (ip_provider proc'))
         (proc_rows remaining proc')") auto
    show ?thesis
      using less.hyps [OF loop(5,3) _ _ zs(1), of "fold apply_info ys (st \<lparr> as_unique := u32 (u + length ys) \<rparr>)" "u + length ys"]
        loop(1,2,4) nf zs(2) less.prems(5,6)
      by (subst apply_loop.simps)
        (simp add: GetBatchInfo_def fold_apply_unique as_unique_fold add.assoc split: if_splits)
  qed
qed

end

section \<open>The split of the table\<close>

text \<open>The position of the key row to which each table line belongs.\<close>

fun owners :: "nat \<Rightarrow> key_row list \<Rightarrow> nat list" where
  "owners k [] = []"
| "owners k ((key, s, d) # K) = replicate (d + 1) k @ owners (k + 1) K"

definition matched_lines :: "index_row list \<Rightarrow> (string \<times> nat) list \<Rightarrow> string list" where
  "matched_lines R los =
     concat (map (\<lambda>(l, j). case map_of R j of None \<Rightarrow> [] | Some c \<Rightarrow> replicate (c + 1) l) los)"

definition unmatched_lines :: "index_row list \<Rightarrow> (string \<times> nat) list \<Rightarrow> string list" where
  "unmatched_lines R los = map fst (filter (\<lambda>(l, j). map_of R j = None) los)"

lemma length_owners: "length (owners k K) = length (expand_keys K)"
  by (induction k K rule: owners.induct) auto

lemma owners_ge: "j \<in> set (owners k K) \<Longrightarrow> k \<le> j"
  by (induction k K rule: owners.induct) (auto split: if_splits dest: Suc_leD)

lemma lines_append [simp]:
  "matched_lines R (xs @ ys) = matched_lines R xs @ matched_lines R ys"
  "unmatched_lines R (xs @ ys) = unmatched_lines R xs @ unmatched_lines R ys"
  by (simp_all add: matched_lines_def unmatched_lines_def)

lemma lines_same_owner:
  "matched_lines R (zip ls (replicate (length ls) k)) =
     (case map_of R k of None \<Rightarrow> [] | Some c \<Rightarrow> concat (map (replicate (c + 1)) ls))"
  "unmatched_lines R (zip ls (replicate (length ls) k)) = (if map_of R k = None then ls else [])"
  by (induction ls) (auto simp: matched_lines_def unmatched_lines_def split: option.splits)

lemma lines_drop_key:
  assumes "\<forall>j \<in> set (map snd los). j \<noteq> i"
  shows "matched_lines ((i, c) # R) los = matched_lines R los"
    "unmatched_lines ((i, c) # R) los = unmatched_lines R los"
  using assms by (induction los) (auto simp: matched_lines_def unmatched_lines_def)

lemma ascending_map_of: "ascending k R \<Longrightarrow> j < k \<Longrightarrow> map_of R j = None"
  by (force simp: ascending_def map_of_eq_None_iff)

lemma owners_split:
  assumes "length ls = length (expand_keys ((key, s, d) # K))"
  obtains g ls' where "ls = g @ ls'" "length g = d + 1" "length ls' = length (expand_keys K)"
    "zip ls (owners k ((key, s, d) # K)) =
       zip g (replicate (length g) k) @ zip ls' (owners (k + 1) K)"
    "\<forall>j \<in> set (map snd (zip ls' (owners (k + 1) K))). j \<noteq> k"
proof
  let ?g = "take (d + 1) ls" and ?ls' = "drop (d + 1) ls"
  show len: "length ?g = d + 1" using assms by simp
  have "zip (?g @ ?ls') (replicate (d + 1) k @ owners (k + 1) K) =
      zip ?g (replicate (length ?g) k) @ zip ?ls' (owners (k + 1) K)"
    unfolding len by (rule zip_append) (simp only: len length_replicate)
  then show "zip ls (owners k ((key, s, d) # K)) =
      zip ?g (replicate (length ?g) k) @ zip ?ls' (owners (k + 1) K)"
    by (simp only: owners.simps append_take_drop_id)
  show "\<forall>j \<in> set (map snd (zip ?ls' (owners (k + 1) K))). j \<noteq> k"
    by (auto dest!: set_zip_rightD owners_ge)
qed (use assms in simp_all)

lemma split_lines_spec:
  assumes "starts_from n K" "ascending k R" "\<forall>r \<in> set R. fst r < k + length K"
    and "i + length pend = n" "length ls = length (expand_keys K)"
  shows "split_lines i (pend @ ls) (fst (inter_spec k K R)) =
     (matched_lines R (zip ls (owners k K)), pend @ unmatched_lines R (zip ls (owners k K)))"
  using assms
proof (induction k K arbitrary: i n pend ls R rule: owners.induct)
  case (1 k)
  then have "R = []" by (cases R) (auto simp: ascending_def)
  with 1 show ?case by (simp add: matched_lines_def unmatched_lines_def)
next
  case (2 k key s d K)
  obtain g ls' where ls: "ls = g @ ls'" "length g = d + 1" "length ls' = length (expand_keys K)"
    and zip: "zip ls (owners k ((key, s, d) # K)) =
      zip g (replicate (length g) k) @ zip ls' (owners (k + 1) K)"
    and own: "\<forall>j \<in> set (map snd (zip ls' (owners (k + 1) K))). j \<noteq> k"
    by (rule owners_split [OF "2.prems"(5)])
  have st: "s = n" "starts_from (n + d + 1) K" using "2.prems"(1) by auto
  show ?case
  proof (cases "R \<noteq> [] \<and> fst (hd R) = k")
    case True
    then obtain c R' where R: "R = (k, c) # R'" by (cases R) auto
    have R': "ascending (k + 1) R'" "\<forall>r \<in> set R'. fst r < k + 1 + length K"
      using "2.prems"(2,3) R by (auto simp: ascending_Cons)
    show ?thesis
      using "2.IH" [OF st(2) R', of "n + d + 1" "[]" ls'] ls(3) "2.prems"(4)
      unfolding zip lines_append lines_same_owner
      using lines_drop_key [OF own, of c R'] by (simp add: R st(1) ls(1,2) Let_def)
  next
    case False
    then have R': "ascending (k + 1) R" "inter_spec k ((key, s, d) # K) R = inter_spec (k + 1) K R"
      using "2.prems"(2) by (cases R; auto simp: ascending_Cons ascending_def)+
    then have "map_of R k = None" using ascending_map_of by auto
    then show ?thesis
      using "2.IH" [OF st(2) R'(1) _ _ ls(3), of i "pend @ g"] "2.prems"(3,4) ls(2)
      unfolding zip lines_append lines_same_owner R'(2)
      by (simp add: ls(1))
  qed
qed

lemma infos_ok_spec:
  "starts_from n K \<Longrightarrow> i \<le> n \<Longrightarrow> infos_ok i (n + length (expand_keys K)) (fst (inter_spec k K R))"
proof (induction k K R arbitrary: i n rule: inter_spec.induct)
  case (3 k key s d K j c R)
  then show ?case
    using 3(1) [of "n + d + 1" "n + d + 1"] 3(2) [of "n + d + 1" i] by (simp add: algebra_simps)
qed auto

lemma inter_spec_counts:
  assumes "ascending k R" "\<forall>r \<in> set R. fst r < k + length K"
    and "inter_spec k K R = (xs, R1)" "length ls = length (expand_keys K)"
  shows "map peer_dup_cnt xs = map snd R" "length xs = length R"
    "sum_list (map (\<lambda>x. self_dup_cnt x + 1) xs) =
       length (filter (\<lambda>j. map_of R j \<noteq> None) (owners k K))"
    "join_cnt xs = length (matched_lines R (zip ls (owners k K)))"
proof -
  have "map peer_dup_cnt xs = map snd R \<and>
    sum_list (map (\<lambda>x. self_dup_cnt x + 1) xs) =
       length (filter (\<lambda>j. map_of R j \<noteq> None) (owners k K)) \<and>
    join_cnt xs = length (matched_lines R (zip ls (owners k K)))"
    using assms
  proof (induction k K arbitrary: R xs ls rule: owners.induct)
    case (1 k)
    then have "R = []" by (cases R) (auto simp: ascending_def)
    with 1 show ?case by (simp add: matched_lines_def)
  next
    case (2 k key s d K)
    obtain g ls' where ls: "ls = g @ ls'" "length g = d + 1" "length ls' = length (expand_keys K)"
      and zip: "zip ls (owners k ((key, s, d) # K)) =
        zip g (replicate (length g) k) @ zip ls' (owners (k + 1) K)"
      and own: "\<forall>j \<in> set (map snd (zip ls' (owners (k + 1) K))). j \<noteq> k"
      by (rule owners_split [OF "2.prems"(4)])
    have lm: "length (concat (map (replicate (Suc c)) g)) = (d + 1) * (c + 1)" for c :: nat
      using ls(2) by (simp add: length_concat comp_def sum_list_triv)
    show ?case
    proof (cases "R \<noteq> [] \<and> fst (hd R) = k")
      case True
      then obtain c R' where R: "R = (k, c) # R'" by (cases R) auto
      obtain ys where ys: "inter_spec (k + 1) K R' = (ys, R1)"
        "xs = \<lparr> start_index = s, self_dup_cnt = d, peer_dup_cnt = c \<rparr> # ys"
        using "2.prems"(3) by (cases "inter_spec (k + 1) K R'") (auto simp: R)
      have f: "filter (\<lambda>j. j \<noteq> k \<longrightarrow> (\<exists>y. map_of R' j = Some y)) (owners (Suc k) K) =
          filter (\<lambda>j. \<exists>y. map_of R' j = Some y) (owners (Suc k) K)"
        by (rule filter_cong) (auto dest: owners_ge)
      have "ascending (k + 1) R'" "\<forall>r \<in> set R'. fst r < k + 1 + length K"
        using "2.prems"(1,2) R by (auto simp: ascending_Cons)
      from "2.IH" [OF this ys(1) ls(3)] show ?thesis
        unfolding zip lines_append lines_same_owner
        using lines_drop_key [OF own, of c R'] lm [of c] by (simp add: ys(2) R f)
    next
      case False
      then have R': "ascending (k + 1) R" "inter_spec k ((key, s, d) # K) R = inter_spec (k + 1) K R"
        using "2.prems"(1) by (cases R; auto simp: ascending_Cons ascending_def)+
      then have "map_of R k = None" using ascending_map_of by auto
      with "2.IH" [OF R'(1) _ _ ls(3), of xs] "2.prems"(2,3) R'(2) show ?thesis
        unfolding zip lines_append lines_same_owner by simp
    qed
  qed
  then show "map peer_dup_cnt xs = map snd R"
    "sum_list (map (\<lambda>x. self_dup_cnt x + 1) xs) =
       length (filter (\<lambda>j. map_of R j \<noteq> None) (owners k K))"
    "join_cnt xs = length (matched_lines R (zip ls (owners k K)))" by auto
  then show "length xs = length R" using map_eq_imp_length_eq by blast
qed

lemma ascending_length:
  assumes "ascending 0 R" "\<forall>row \<in> set R. fst row < n"
  shows "length R \<le> n"
proof -
  have "distinct (map fst R)" using assms(1) by (simp add: ascending_def strict_sorted_iff)
  then have "length R = card (set (map fst R))" by (simp only: distinct_card length_map)
  also have "\<dots> \<le> card {..<n}" using assms(2) by (intro card_mono) auto
  finally show ?thesis by simp
qed

definition applied ::
  "index_row list \<Rightarrow> key_row list \<Rightarrow> string \<Rightarrow> string list \<Rightarrow> ResultDumper
     \<Rightarrow> (StatInfo \<times> ResultDumper) result option \<Rightarrow> bool" where
  "applied R K header ls d res \<longleftrightarrow>
     (let los = zip ls (owners 0 K); inter_ls = matched_lines R los; except_ls = unmatched_lines R los
      in \<exists>stat d'. res = Some (Inr (stat, d')) \<and>
           intersect_file d' = map_option (\<lambda>f. f @ header # inter_ls) (intersect_file d) \<and>
           except_file d' = map_option (\<lambda>f. f @ header # except_ls) (except_file d) \<and>
           self_intersection_count stat = length (filter (\<lambda>j. map_of R j \<noteq> None) (owners 0 K)) \<and>
           peer_intersection_count stat = sum_list (map (\<lambda>(i, c). c + 1) R) mod 2 ^ 32 \<and>
           original_count stat = length ls \<and>
           join_intersection_count stat = nat ((intersect_cnt d + int (length inter_ls)) mod 2 ^ 32) \<and>
           inter_unique_cnt stat = length R)"

context inter_index
begin

lemma applied_spec:
  assumes "r_inv r" "p_inv p" "starts_from 0 (p_remaining p)" "ascending 0 (remaining r)"
    and "\<forall>row \<in> set (remaining r). fst row < length (p_remaining p)"
    and "length ls = length (expand_keys (p_remaining p))" "length ls < 2 ^ 32"
  shows "applied (remaining r) (p_remaining p) header ls d
     (ApplyPeerDupCnt GetNextWithPeerCnt ReadBatchWithInfo (header # ls) r p d)"
proof -
  let ?R = "remaining r" and ?K = "p_remaining p"
  let ?los = "zip ls (owners 0 ?K)"
  obtain xs where xs: "inter_spec 0 ?K ?R = (xs, [])"
    using inter_spec_all [of 0 ?R ?K] assms(4,5) by (cases "inter_spec 0 ?K ?R") auto
  obtain proc where proc: "InterIndexProcessor_new GetNextWithPeerCnt r p = Inr proc"
    "proc_ok r_inv remaining p_inv proc" "proc_rows remaining proc = ?R" "ip_provider proc = p"
    "ip_self_info_index proc = 0" "\<not> ip_finish proc"
    using new_ok [OF assms(1,2)] by blast
  define st0 where "st0 = \<lparr> as_lines = ls, as_index = 0,
     as_dumper = ToExcept header 0 (ToIntersect header 0 d), as_self = 0, as_peer = 0, as_unique = u32 (length xs) \<rparr>"
  have sum0: "summary st0 = (ls, 0, dumped [header] 1 (intersect_file d, intersect_cnt d),
     dumped [header] 1 (except_file d, except_cnt d), u32 0, u32 0, u32 (length xs))"
    by (simp add: summary_def st0_def inter_part_def except_part_def ToExcept_def ToIntersect_def
        Dump_dumped [of _ 0, simplified] case_prod_beta)
  have ok: "infos_ok 0 (0 + length ls) xs"
    using infos_ok_spec [OF assms(3), of 0 0 ?R] xs assms(6) by simp
  have lenK: "length ?K < 2 ^ 32" using expand_keys_lengths(1) [of ?K] assms(6,7) by simp
  have loop: "apply_loop GetNextWithPeerCnt ReadBatchWithInfo proc (st0 \<lparr> as_unique := 0 \<rparr>) =
      Some (Inr (fold apply_info xs st0))"
    using apply_spec [OF proc(2), of xs "st0 \<lparr> as_unique := 0 \<rparr>" 0] proc assms(4) xs lenK infos_ok_finite [OF ok] assms(7)
    by (simp add: st0_def)
  have split: "split_lines 0 ls xs = (matched_lines ?R ?los, unmatched_lines ?R ?los)"
    using split_lines_spec [OF assms(3,4), of 0 "[]" ls] assms(5,6) xs by simp
  note cnt = inter_spec_counts [OF assms(4) _ xs assms(6)]
  obtain st' where st': "st' = skip_lines (length (as_lines (fold apply_info xs st0))) (fold apply_info xs st0)"
    "summary st' = ([], length ls, dumped (header # matched_lines ?R ?los) (1 + int (join_cnt xs)) (intersect_file d, intersect_cnt d),
      dumped (header # unmatched_lines ?R ?los) (1 + int (length (unmatched_lines ?R ?los))) (except_file d, except_cnt d),
      u32 (sum_list (map (\<lambda>x. self_dup_cnt x + 1) xs)), u32 (sum_list (map (\<lambda>x. peer_dup_cnt x + 1) xs)), u32 (length xs))"
    using fold_apply_info_summary [OF sum0 ok split] assms(7) by auto
  have peer: "sum_list (map (\<lambda>x. peer_dup_cnt x + 1) xs) = sum_list (map (\<lambda>(i, c). c + 1) ?R)"
    using arg_cong [OF cnt(1), of "\<lambda>cs. sum_list (map Suc cs)"] assms(5) by (simp add: comp_def case_prod_beta')
  have "ApplyPeerDupCnt GetNextWithPeerCnt ReadBatchWithInfo (header # ls) r p d =
      Some (Inr (\<lparr> self_intersection_count = as_self st', peer_intersection_count = as_peer st',
                  original_count = as_index st',
                  join_intersection_count = nat ((intersect_cnt (as_dumper st') - 1) mod 2 ^ 32),
                  inter_unique_cnt = as_unique st' \<rparr>, as_dumper st'))"
    using loop by (simp add: ApplyPeerDupCnt_def proc(1) st'(1) st0_def Let_def)
  moreover have "length (filter (\<lambda>j. map_of ?R j \<noteq> None) (owners 0 ?K)) < 2 ^ 32"
    using length_filter_le [of "\<lambda>j. map_of ?R j \<noteq> None" "owners 0 ?K"] assms(6,7) by (simp add: length_owners)
  then have "u32 (sum_list (map (\<lambda>x. self_dup_cnt x + 1) xs)) = length (filter (\<lambda>j. map_of ?R j \<noteq> None) (owners 0 ?K))"
    using cnt(3) assms(5) by (simp add: u32_id)
  moreover have "length ?R < 2 ^ 32" using ascending_length [OF assms(4,5)] lenK by simp
  then have "u32 (length xs) = length ?R" using cnt(2) assms(5) by (simp add: u32_id)
  ultimately show ?thesis
    using st'(2) cnt(4) assms(5) peer
    by (simp add: applied_def Let_def summary_def inter_part_def except_part_def dumped_def u32_def)
qed

end

interpretation file_sorted: inter_index FileIndexReader_HasNext FileIndexReader_GetNext
  FileIndexReader_GetNextWithPeerCnt FileIndexReader_inv FileIndexReader_remaining
  Sorted_ReadBatchWithInfo Sorted_inv Sorted_remaining
  by unfold_locales

interpretation memory_sorted: inter_index MemoryIndexReader_HasNext MemoryIndexReader_GetNext
  MemoryIndexReader_GetNextWithPeerCnt "\<lambda>_. True" MemoryIndexReader_remaining
  Sorted_ReadBatchWithInfo Sorted_inv Sorted_remaining
  by unfold_locales

interpretation memory_unique: inter_index MemoryIndexReader_HasNext MemoryIndexReader_GetNext
  MemoryIndexReader_GetNextWithPeerCnt "\<lambda>_. True" MemoryIndexReader_remaining
  Unique_ReadBatchWithInfo "\<lambda>p. ArrowCsv_inv (up_provider p)" Unique_remaining
  by unfold_locales

lemma zmod_int_nat: "nat (int n mod 4294967296) = n mod 4294967296"
  by (simp add: nat_mod_distrib)

section \<open>Properties\<close>


definition witness_keys :: "key_row list" where
  "witness_keys = [(''1'', 0, 0), (''2'', 1, 1), (''3'', 3, 0), (''4'', 4, 1)]"

definition witness_sorted_provider :: SortedTableKeysInfoProvider where
  "witness_sorted_provider =
     \<lparr> sp_batch_size = 3, sp_batch = None, sp_batch_index = 0, sp_reader = [Inr witness_keys] \<rparr>"

definition witness_file_reader :: FileIndexReader where
  "witness_file_reader =
     \<lparr> fr_reader = [Inr [(1, 2), (2, 0)]], fr_batch = None, fr_idx_in_batch = 0, fr_read_cnt = 0 \<rparr>"


lemma u32_upt_id: "m + n \<le> 2 ^ 32 \<Longrightarrow> map u32 [m..<m + n] = [m..<m + n]"
  by (rule map_idI) (auto intro: u32_id)

lemma unique_rows:
  "length ks = n \<Longrightarrow> starts_from m (zip ks (zip [m..<m + n] (replicate n 0))) \<and>
     owners k (zip ks (zip [m..<m + n] (replicate n 0))) = [k..<k + n] \<and>
     length (expand_keys (zip ks (zip [m..<m + n] (replicate n 0)))) = n"
proof (induction ks arbitrary: n m k)
  case (Cons x ks)
  then obtain l where n: "n = Suc l" "length ks = l" by auto
  have "[m..<m + n] = m # [Suc m..<Suc m + l]" "[k..<k + n] = k # [Suc k..<Suc k + l]"
    by (simp_all add: n upt_conv_Cons del: upt_Suc)
  with Cons.IH [of l "Suc m" "Suc k"] n show ?case by (simp del: upt_Suc)
qed simp

lemma filter_upt_set:
  assumes "distinct xs" "\<forall>x \<in> set xs. x < n"
  shows "length (filter (\<lambda>j. j \<in> set xs) [0..<n]) = length xs"
proof -
  have "set (filter (\<lambda>j. j \<in> set xs) [0..<n]) = set xs" using assms(2) by auto
  then show ?thesis
    by (metis assms(1) distinct_card distinct_filter distinct_upt)
qed

text \<open>
  The same split for a table with unique keys and an in-memory result: line \<open>j\<close> is
  sent to the intersection exactly if \<open>j\<close> is a result index, whatever the order in which the
  protocol delivered the indices.
\<close>

theorem ApplyPeerDupCnt_unique_correct:
  assumes "MemoryIndexReader_new index cnts = Inr r" "distinct index" "\<forall>i \<in> set index. i < length ls"
    and "\<forall>c \<in> set cnts. c < 2 ^ 32" "length ls < 2 ^ 32"
    and "ArrowCsv_inv (up_provider p)" "up_read_index p = 0"
    and "length (ArrowCsv_remaining (up_provider p)) = length ls"
  shows "\<exists>stat d.
     ApplyPeerDupCnt MemoryIndexReader_GetNextWithPeerCnt Unique_ReadBatchWithInfo (header # ls) r p
       (ResultDumper_new True True) = Some (Inr (stat, d)) \<and>
     except_file d = Some (header # map fst (filter (\<lambda>(l, j). j \<notin> set index) (zip ls [0..<length ls]))) \<and>
     self_intersection_count stat = length index \<and> original_count stat = length ls \<and>
     inter_unique_cnt stat = length index"
proof -
  define R where "R = sort_key fst (zip index cnts)"
  let ?K = "Unique_remaining p"
  have r: "MemoryIndexReader_remaining r = R" and len: "length index = length cnts"
    using assms(1) by (auto simp: MemoryIndexReader_new_def MemoryIndexReader_remaining_def R_def rbind_eq_Inr_iff)
  have "mset (map fst R) = mset (map fst (zip index cnts))"
    by (simp only: R_def mset_map mset_sort)
  then have ms: "mset (map fst R) = mset index" using len by (simp only: map_fst_zip)
  have idx: "set (map fst R) = set index" "length R = length index"
    using mset_eq_setD [OF ms] mset_eq_length [OF ms] by simp_all
  from ms have "distinct (map fst R)" using assms(2) by (metis mset_eq_imp_distinct_iff)
  then have asc: "ascending 0 R" using assms(4) by (auto simp: ascending_def R_def strict_sorted_iff dest: set_zip_rightD)
  have K: "starts_from 0 ?K" "owners 0 ?K = [0..<length ls]" "length (expand_keys ?K) = length ls"
    "length ?K = length ls"
    using unique_rows [of "ArrowCsv_remaining (up_provider p)" "length ls" 0 0] assms(5,7,8) u32_upt_id [of 0 "length ls"]
    by (simp_all add: Unique_remaining_def Let_def)
  have none: "map_of R j = None \<longleftrightarrow> j \<notin> set index" for j
    using idx(1) by (simp add: map_of_eq_None_iff)
  have "length (filter (\<lambda>j. map_of R j \<noteq> None) [0..<length ls]) = length index"
    unfolding none using filter_upt_set [OF assms(2,3)] by simp
  moreover have bnd: "\<forall>row \<in> set R. fst row < length ?K"
  proof
    fix row assume "row \<in> set R"
    then have "fst row \<in> set index" unfolding idx(1) [symmetric] by simp
    then show "fst row < length ?K" using assms(3) K(4) by simp
  qed
  moreover have "applied R ?K header ls (ResultDumper_new True True)
     (ApplyPeerDupCnt MemoryIndexReader_GetNextWithPeerCnt Unique_ReadBatchWithInfo (header # ls) r p
       (ResultDumper_new True True))"
    unfolding r [symmetric]
    using assms(5) by (intro memory_unique.applied_spec) (simp_all add: r bnd [unfolded K(4)] asc K assms(6))
  ultimately show ?thesis
    by (simp add: applied_def Let_def K(2) none unmatched_lines_def ResultDumper_new_def idx(2)) blast
qed

theorem ApplyPeerDupCnt_unique_correct_witness:
  "\<exists>r stat d. MemoryIndexReader_new [2, 0] [0, 0] = Inr r \<and>
     ApplyPeerDupCnt MemoryIndexReader_GetNextWithPeerCnt Unique_ReadBatchWithInfo
       [''id'', ''1'', ''2'', ''2'', ''3''] r \<lparr> up_provider = witness_provider, up_read_index = 0 \<rparr>
       (ResultDumper_new True True) = Some (Inr (stat, d)) \<and>
     except_file d = Some [''id'', ''2'', ''3''] \<and> self_intersection_count stat = 2"
proof -
  obtain r where r: "MemoryIndexReader_new [2, 0] [0, 0] = Inr r" by (simp add: MemoryIndexReader_new_def)
  have "[0..<length [''1'', ''2'', ''2'', ''3'']] = [0, 1, 2, 3]" by (simp add: numeral_2_eq_2 numeral_3_eq_3)
  with ApplyPeerDupCnt_unique_correct [OF r, of "[''1'', ''2'', ''2'', ''3'']"
      "\<lparr> up_provider = witness_provider, up_read_index = 0 \<rparr>" "''id''"] witness_provider_inv r
  show ?thesis by (simp del: upt_Suc) (auto simp: numeral_2_eq_2)
qed

end
