(* ===== verification/Join_Processor.thy ===== *)
theory Join_Processor
  imports Inter_Index
begin

text \<open>
  \<open>psi/utils/join_processor.cc\<close>: the two constructors, which decide from the configuration
  which parts of the join a party writes, \<open>DealResultIndex\<close> and \<open>GenerateResult\<close>; and
  \<open>MultiKeySort\<close> of \<open>key.cc\<close>, the call of the \<open>sort\<close> command in byte order, stable,
  by the given columns.

  The file system is seen through \<open>exists\<close> (a predicate on paths) and the contents of the
  intermediate files; a path is the empty string when the file is not wanted. The random part of
  the intermediate file names is the argument \<open>prefix\<close>.
\<close>

section \<open>Configuration\<close>

datatype Role = ROLE_UNSPECIFIED | ROLE_RECEIVER | ROLE_SENDER | ROLE_SERVER | ROLE_CLIENT

datatype AdvancedJoinType = JOIN_UNSPECIFIED | INNER_JOIN | LEFT_JOIN | RIGHT_JOIN | FULL_JOIN | DIFFERENCE

datatype IoType = IO_TYPE_UNSPECIFIED | IO_TYPE_FILE_CSV

datatype UbPsiMode = MODE_UNSPECIFIED | MODE_OFFLINE_GEN_CACHE | MODE_OFFLINE_TRANSFER_CACHE
  | MODE_OFFLINE | MODE_ONLINE | MODE_FULL

record PsiConfig =
  pc_input_type :: IoType
  pc_input_path :: string
  pc_output_type :: IoType
  pc_output_path :: string
  pc_keys :: "string list"
  pc_keys_unique :: bool
  pc_role :: Role
  pc_join_type :: AdvancedJoinType
  pc_left_side :: Role
  pc_csv_null_rep :: string
  pc_disable_alignment :: bool

record UbPsiConfig = PsiConfig +
  ub_mode :: UbPsiMode
  ub_cache_path :: string
  ub_server_get_result :: bool
  ub_client_get_result :: bool

record JoinProcessor =
  jp_input_path :: string
  jp_is_input_key_unique :: bool
  jp_keys :: "string list"
  jp_output_path :: string
  jp_csv_null_rep :: string
  jp_align_output :: bool
  jp_type :: AdvancedJoinType
  jp_role :: Role
  jp_left_side :: Role
  jp_sorted_input_path :: string
  jp_sorted_intersect_path :: string
  jp_sorted_except_path :: string
  jp_key_info_path :: string

definition kNullRep :: string where
  "kNullRep = ''NULL''"

definition path_join :: "string \<Rightarrow> string \<Rightarrow> string" where
  "path_join root name = root @ CHR ''/'' # name"

definition join_type :: "AdvancedJoinType \<Rightarrow> AdvancedJoinType" where
  "join_type t = (if t = JOIN_UNSPECIFIED then INNER_JOIN else t)"

definition except_wanted :: "AdvancedJoinType \<Rightarrow> Role \<Rightarrow> Role \<Rightarrow> bool" where
  "except_wanted type left_side role \<longleftrightarrow>
     type = DIFFERENCE \<or> type = FULL_JOIN \<or> (type = LEFT_JOIN \<and> left_side = role) \<or>
     (type = RIGHT_JOIN \<and> left_side \<noteq> role)"

definition JoinProcessor_new ::
  "string \<Rightarrow> string \<Rightarrow> PsiConfig \<Rightarrow> JoinProcessor result" where
  "JoinProcessor_new random root cfg =
     rbind (enforce (pc_input_type cfg = IO_TYPE_FILE_CSV) ''unsupport input format'') (\<lambda>_.
     rbind (enforce (pc_output_type cfg = IO_TYPE_FILE_CSV) ''unsupport output format'') (\<lambda>_.
     let type = join_type (pc_join_type cfg); role = pc_role cfg; left_side = pc_left_side cfg in
     rbind (enforce (role = ROLE_SENDER \<or> role = ROLE_RECEIVER) ''not a valid role'') (\<lambda>_.
     rbind (enforce (type = INNER_JOIN \<or> left_side \<noteq> ROLE_UNSPECIFIED)
              ''a valid left side must be provided'') (\<lambda>_.
     let prefix = (if role = ROLE_RECEIVER then ''receiver'' else ''sender'') @ ''_'' @ random @ ''_''
     in Inr \<lparr> jp_input_path = pc_input_path cfg,
              jp_is_input_key_unique = pc_keys_unique cfg,
              jp_keys = pc_keys cfg,
              jp_output_path = pc_output_path cfg,
              jp_csv_null_rep = (if pc_csv_null_rep cfg \<noteq> [] then pc_csv_null_rep cfg else kNullRep),
              jp_align_output = (\<not> pc_disable_alignment cfg),
              jp_type = type, jp_role = role, jp_left_side = left_side,
              jp_sorted_input_path = path_join root (prefix @ ''join_sorted_input.csv''),
              jp_sorted_intersect_path =
                (if type \<noteq> DIFFERENCE then path_join root (prefix @ ''join_sorted_input.inter.csv'') else []),
              jp_sorted_except_path =
                (if except_wanted type left_side role
                 then path_join root (prefix @ ''join_sorted_input.except.csv'') else []),
              jp_key_info_path = path_join root (prefix @ ''join_sorted_input_key_info.csv'') \<rparr>))))"

definition JoinProcessor_Make ::
  "(string \<Rightarrow> bool) \<Rightarrow> string \<Rightarrow> string \<Rightarrow> PsiConfig \<Rightarrow> JoinProcessor result" where
  "JoinProcessor_Make exists random root cfg =
     rbind (enforce (exists (pc_input_path cfg)) ''input file not exists'') (\<lambda>_.
     JoinProcessor_new random root cfg)"

text \<open>
  The checks of the unbalanced variant give the input path, the path of the sorted input and the
  path of the key information; \<open>default_path\<close> is the input path of a fresh object.
\<close>

definition CheckUbPsiServerConfig ::
  "(string \<Rightarrow> bool) \<Rightarrow> UbPsiConfig \<Rightarrow> (string \<times> string \<times> string) result" where
  "CheckUbPsiServerConfig exists cfg =
     rbind (enforce (exists (ub_cache_path cfg) \<or> exists (pc_input_path cfg)) ''input file not exists'') (\<lambda>_.
     rbind (if ub_mode cfg \<in> {MODE_OFFLINE_GEN_CACHE, MODE_OFFLINE, MODE_FULL}
            then rbind (enforce (pc_input_type cfg = IO_TYPE_FILE_CSV) ''unsupport input format'')
                   (\<lambda>_. Inr (pc_input_path cfg))
            else Inr []) (\<lambda>input_path.
     Inr (input_path, path_join (ub_cache_path cfg) ''join_sorted_input.csv'',
          path_join (ub_cache_path cfg) ''join_sorted_input_key_info.csv'')))"

definition CheckUbPsiClientConfig ::
  "string \<Rightarrow> string \<Rightarrow> UbPsiConfig \<Rightarrow> (string \<times> string \<times> string) result" where
  "CheckUbPsiClientConfig prefix root cfg =
     rbind (if ub_mode cfg \<in> {MODE_ONLINE, MODE_FULL}
            then rbind (enforce (pc_input_type cfg = IO_TYPE_FILE_CSV) ''unsupport input format'')
                   (\<lambda>_. Inr (pc_input_path cfg))
            else Inr []) (\<lambda>input_path.
     Inr (input_path, path_join root (prefix @ ''join_sorted_input.csv''),
          path_join root (prefix @ ''join_sorted_input_key_info.csv'')))"

definition JoinProcessor_new_ub ::
  "(string \<Rightarrow> bool) \<Rightarrow> string \<Rightarrow> string \<Rightarrow> UbPsiConfig \<Rightarrow> JoinProcessor result" where
  "JoinProcessor_new_ub exists random root cfg =
     rbind (enforce (ub_cache_path cfg \<noteq> []) ''cache path should not be empty'') (\<lambda>_.
     let role = pc_role cfg in
     rbind (enforce (role = ROLE_SERVER \<or> role = ROLE_CLIENT) ''not a valid role'') (\<lambda>_.
     let prefix = (if role = ROLE_SERVER then ''server'' else ''client'') @ ''_'' @ random @ ''_'' in
     rbind (if role = ROLE_SERVER then CheckUbPsiServerConfig exists cfg
            else CheckUbPsiClientConfig prefix root cfg) (\<lambda>(input_path, sorted_path, key_path).
     let gen_output = (role = ROLE_SERVER \<and> ub_server_get_result cfg \<or>
                       role = ROLE_CLIENT \<and> ub_client_get_result cfg) in
     rbind (if gen_output \<and> ub_mode cfg \<in> {MODE_ONLINE, MODE_FULL}
            then rbind (enforce (pc_output_type cfg = IO_TYPE_FILE_CSV) ''unsupport output format'')
                   (\<lambda>_. Inr (pc_output_path cfg))
            else Inr []) (\<lambda>output_path.
     let type = join_type (pc_join_type cfg); left_side = pc_left_side cfg in
     rbind (enforce (type = INNER_JOIN \<or> left_side \<noteq> ROLE_UNSPECIFIED)
              ''a valid left side must be provided'') (\<lambda>_.
     Inr \<lparr> jp_input_path = input_path,
           jp_is_input_key_unique = False,
           jp_keys = pc_keys cfg,
           jp_output_path = output_path,
           jp_csv_null_rep = (if pc_csv_null_rep cfg \<noteq> [] then pc_csv_null_rep cfg else kNullRep),
           jp_align_output = (\<not> pc_disable_alignment cfg),
           jp_type = type, jp_role = role, jp_left_side = left_side,
           jp_sorted_input_path = sorted_path,
           jp_sorted_intersect_path =
             (if type \<noteq> DIFFERENCE then path_join root (prefix @ ''join_sorted_input.inter.csv'') else []),
           jp_sorted_except_path =
             (if except_wanted type left_side role
              then path_join root (prefix @ ''join_sorted_input.except.csv'') else []),
           jp_key_info_path = key_path \<rparr>)))))"

section \<open>Writing the result\<close>

fun MakeQuotedCsvLine :: "string list \<Rightarrow> string result" where
  "MakeQuotedCsvLine [] = Inl (Undefined ''columns[0]'')"
| "MakeQuotedCsvLine (c # cs) =
     Inr (CHR 0x22 # c @ CHR 0x22 # concat (map (\<lambda>c. CHR '','' # CHR 0x22 # c @ [CHR 0x22]) cs))"

definition write_output :: "string list option \<Rightarrow> string list" where
  "write_output file = (case file of None \<Rightarrow> [] | Some ls \<Rightarrow> tl ls)"

definition na_line :: "string \<Rightarrow> nat \<Rightarrow> string" where
  "na_line null_rep columns_size = null_rep @ concat (replicate (columns_size - 1) (CHR '','' # null_rep))"

definition write_na :: "string \<Rightarrow> nat \<Rightarrow> nat \<Rightarrow> string list" where
  "write_na null_rep columns_size na_line_cnt = replicate na_line_cnt (na_line null_rep columns_size)"

text \<open>
  \<open>GenerateResult\<close>: \<open>inters\<close> and \<open>excepts\<close> are the files at the two intermediate
  paths, \<open>None\<close> where the path is empty. The result is the list of lines of the output file.
\<close>

definition GenerateResult ::
  "JoinProcessor \<Rightarrow> string list \<Rightarrow> string list option \<Rightarrow> string list option \<Rightarrow> nat \<Rightarrow> string list result" where
  "GenerateResult jp columns inters excepts peer_except_cnt =
     rbind (MakeQuotedCsvLine columns) (\<lambda>header.
     let na = write_na (jp_csv_null_rep jp) (length columns) peer_except_cnt;
         na_first = (if jp_role jp \<noteq> jp_left_side jp \<and> jp_type jp \<in> {LEFT_JOIN, DIFFERENCE, FULL_JOIN}
                     then na else []);
         na_last = (if jp_role jp = jp_left_side jp \<and> jp_type jp \<in> {RIGHT_JOIN, DIFFERENCE, FULL_JOIN}
                    then na else [])
     in Inr (header # write_output inters @ na_first @ write_output excepts @ na_last))"

section \<open>Sorting by columns\<close>

definition csv_fields :: "string \<Rightarrow> string list" where
  "csv_fields = split_on (CHR '','')"

fun column_index :: "string list \<Rightarrow> string \<Rightarrow> nat option" where
  "column_index [] key = None"
| "column_index (c # cs) key = (if c = key then Some 0 else map_option Suc (column_index cs key))"

definition sort_field :: "string list \<Rightarrow> nat \<Rightarrow> string" where
  "sort_field fs i = (if i < length fs then fs ! i else [])"

definition MultiKeySort ::
  "string list \<Rightarrow> string list \<Rightarrow> bool \<Rightarrow> string list \<Rightarrow> string list result" where
  "MultiKeySort columns keys unique file =
     rbind (rmap (\<lambda>key. case column_index columns key of
                None \<Rightarrow> Inl (Enforce ''field is not found'') | Some i \<Rightarrow> Inr i) keys) (\<lambda>idxs.
     let body = sort_key (\<lambda>l. map (sort_field (csv_fields l)) idxs) (tl file)
     in Inr (fst (getline file) # (if unique then remdups_adj body else body)))"

section \<open>Dealing with the result indices\<close>

definition DealResultIndex ::
  "('r \<Rightarrow> (index_row option \<times> 'r) result) \<Rightarrow> ('p \<Rightarrow> (BatchInfo \<times> 'p) result)
     \<Rightarrow> JoinProcessor \<Rightarrow> string list \<Rightarrow> string list \<Rightarrow> 'r \<Rightarrow> 'p
     \<Rightarrow> (StatInfo \<times> string list option \<times> string list option) result option" where
  "DealResultIndex next read jp columns file reader provider =
     map_option (\<lambda>res. rbind res (\<lambda>(stat, dumper).
       if jp_is_input_key_unique jp \<and> jp_align_output jp \<and> join_intersection_count stat \<noteq> 0 \<and>
          jp_sorted_intersect_path jp \<noteq> []
       then rbind (MultiKeySort columns columns False (the (intersect_file dumper))) (\<lambda>sorted_file.
            Inr (stat, Some sorted_file, except_file dumper))
       else Inr (stat, intersect_file dumper, except_file dumper)))
     (ApplyPeerDupCnt next read file reader provider
        (ResultDumper_new (jp_sorted_intersect_path jp \<noteq> []) (jp_sorted_except_path jp \<noteq> [])))"

section \<open>The two outputs of a join\<close>

definition inter_body :: "AdvancedJoinType \<Rightarrow> string list \<Rightarrow> string list" where
  "inter_body type ls = (if type = DIFFERENCE then [] else ls)"

definition left_body :: "AdvancedJoinType \<Rightarrow> 'a list \<Rightarrow> 'a list" where
  "left_body type ls = (if type \<in> {LEFT_JOIN, FULL_JOIN, DIFFERENCE} then ls else [])"

definition right_body :: "AdvancedJoinType \<Rightarrow> 'a list \<Rightarrow> 'a list" where
  "right_body type ls = (if type \<in> {RIGHT_JOIN, FULL_JOIN, DIFFERENCE} then ls else [])"

text \<open>The file a party reads back: its body, or nothing when the path is empty.\<close>

definition part_file :: "string \<Rightarrow> string list \<Rightarrow> string list option" where
  "part_file path ls = (if path = [] then None else Some (''header'' # ls))"

lemma JoinProcessor_new_facts:
  assumes "JoinProcessor_new random root cfg = Inr jp"
  shows "jp_type jp = join_type (pc_join_type cfg)" "jp_role jp = pc_role cfg"
    "jp_left_side jp = pc_left_side cfg" "jp_type jp \<noteq> JOIN_UNSPECIFIED"
    "jp_sorted_intersect_path jp = [] \<longleftrightarrow> jp_type jp = DIFFERENCE"
    "jp_sorted_except_path jp = [] \<longleftrightarrow> \<not> except_wanted (jp_type jp) (jp_left_side jp) (jp_role jp)"
proof -
  have ne: "path_join root name \<noteq> []" for name by (simp add: path_join_def)
  have jp: "jp_type jp = join_type (pc_join_type cfg) \<and> jp_role jp = pc_role cfg \<and>
    jp_left_side jp = pc_left_side cfg \<and>
    (jp_sorted_intersect_path jp = [] \<longleftrightarrow> join_type (pc_join_type cfg) = DIFFERENCE) \<and>
    (jp_sorted_except_path jp = [] \<longleftrightarrow>
      \<not> except_wanted (join_type (pc_join_type cfg)) (pc_left_side cfg) (pc_role cfg))"
    using assms ne unfolding JoinProcessor_new_def enforce_bind Let_def
    by (simp only: split: if_split_asm) (auto simp only: sum.inject JoinProcessor.simps split: if_splits)
  have "join_type t \<noteq> JOIN_UNSPECIFIED" for t by (simp add: join_type_def)
  with jp show "jp_type jp = join_type (pc_join_type cfg)" "jp_role jp = pc_role cfg"
    "jp_left_side jp = pc_left_side cfg" "jp_type jp \<noteq> JOIN_UNSPECIFIED"
    "jp_sorted_intersect_path jp = [] \<longleftrightarrow> jp_type jp = DIFFERENCE"
    "jp_sorted_except_path jp = [] \<longleftrightarrow> \<not> except_wanted (jp_type jp) (jp_left_side jp) (jp_role jp)"
    by simp_all
qed

lemma GenerateResult_left:
  assumes "JoinProcessor_new random root cfg = Inr jp" "pc_role cfg = pc_left_side cfg"
  shows "GenerateResult jp (c # cs) (part_file (jp_sorted_intersect_path jp) I)
      (part_file (jp_sorted_except_path jp) E) n =
     rbind (MakeQuotedCsvLine (c # cs)) (\<lambda>h. Inr (h # inter_body (jp_type jp) I @ left_body (jp_type jp) E @
       right_body (jp_type jp) (replicate n (na_line (jp_csv_null_rep jp) (length (c # cs))))))"
  using JoinProcessor_new_facts [OF assms(1)] assms(2)
  by (cases "jp_type jp") (auto simp: GenerateResult_def part_file_def write_output_def write_na_def
      inter_body_def left_body_def right_body_def except_wanted_def)

lemma GenerateResult_right:
  assumes "JoinProcessor_new random root cfg = Inr jp" "pc_role cfg \<noteq> pc_left_side cfg"
  shows "GenerateResult jp (c # cs) (part_file (jp_sorted_intersect_path jp) I)
      (part_file (jp_sorted_except_path jp) E) n =
     rbind (MakeQuotedCsvLine (c # cs)) (\<lambda>h. Inr (h # inter_body (jp_type jp) I @
       left_body (jp_type jp) (replicate n (na_line (jp_csv_null_rep jp) (length (c # cs)))) @
       right_body (jp_type jp) E))"
  using JoinProcessor_new_facts [OF assms(1)] assms(2)
  by (cases "jp_type jp") (auto simp: GenerateResult_def part_file_def write_output_def write_na_def
      inter_body_def left_body_def right_body_def except_wanted_def)

text \<open>
  C9. The result files of the two parties of a join have the same shape, for every join type:
  first the intersection rows of both, then the rows only the left party has, which the right
  party fills with null rows, then the rows only the right party has, which the left party fills.
  In particular both files have the same number of lines.
\<close>

theorem GenerateResult_aligned:
  assumes "JoinProcessor_new rl rootl cfgl = Inr jl" "JoinProcessor_new rr rootr cfgr = Inr jr"
    and "pc_join_type cfgl = pc_join_type cfgr" "pc_left_side cfgl = pc_left_side cfgr"
    and "pc_role cfgl = pc_left_side cfgl" "pc_role cfgr \<noteq> pc_left_side cfgr"
    and "length Il = length Ir" "colsl \<noteq> []" "colsr \<noteq> []"
  shows "\<exists>hl hr nl nr.
     GenerateResult jl colsl (part_file (jp_sorted_intersect_path jl) Il)
       (part_file (jp_sorted_except_path jl) El) (length Er) =
         Inr (hl # inter_body (jp_type jl) Il @ left_body (jp_type jl) El @ right_body (jp_type jl) nl) \<and>
     GenerateResult jr colsr (part_file (jp_sorted_intersect_path jr) Ir)
       (part_file (jp_sorted_except_path jr) Er) (length El) =
         Inr (hr # inter_body (jp_type jl) Ir @ left_body (jp_type jl) nr @ right_body (jp_type jl) Er) \<and>
     length nl = length Er \<and> length nr = length El \<and>
     set nl \<subseteq> {na_line (jp_csv_null_rep jl) (length colsl)} \<and>
     set nr \<subseteq> {na_line (jp_csv_null_rep jr) (length colsr)}"
proof -
  obtain c cs c' cs' where cols: "colsl = c # cs" "colsr = c' # cs'"
    using assms(8,9) by (meson neq_Nil_conv)
  have "jp_type jr = jp_type jl"
    using JoinProcessor_new_facts(1) [OF assms(1)] JoinProcessor_new_facts(1) [OF assms(2)] assms(3) by simp
  then show ?thesis
    unfolding cols GenerateResult_left [OF assms(1,5)] GenerateResult_right [OF assms(2,6)]
    by (auto simp: set_replicate_conv_if split: if_splits intro!: exI)
qed

definition witness_cfg :: "Role \<Rightarrow> PsiConfig" where
  "witness_cfg role = \<lparr> pc_input_type = IO_TYPE_FILE_CSV, pc_input_path = ''in'',
     pc_output_type = IO_TYPE_FILE_CSV, pc_output_path = ''out'', pc_keys = [''id''],
     pc_keys_unique = False, pc_role = role, pc_join_type = LEFT_JOIN, pc_left_side = ROLE_RECEIVER,
     pc_csv_null_rep = [], pc_disable_alignment = False \<rparr>"

theorem GenerateResult_aligned_witness:
  "\<exists>jl jr ol or. JoinProcessor_new ''a'' ''r'' (witness_cfg ROLE_RECEIVER) = Inr jl \<and>
     JoinProcessor_new ''b'' ''s'' (witness_cfg ROLE_SENDER) = Inr jr \<and>
     GenerateResult jl [''id''] (part_file (jp_sorted_intersect_path jl) [''1''])
       (part_file (jp_sorted_except_path jl) [''2'', ''3'']) 1 = Inr ol \<and>
     GenerateResult jr [''id''] (part_file (jp_sorted_intersect_path jr) [''1''])
       (part_file (jp_sorted_except_path jr) [''9'']) 2 = Inr or \<and> length ol = length or"
proof -
  obtain jl where l: "JoinProcessor_new ''a'' ''r'' (witness_cfg ROLE_RECEIVER) = Inr jl"
    by (simp add: JoinProcessor_new_def witness_cfg_def join_type_def Let_def)
  obtain jr where r: "JoinProcessor_new ''b'' ''s'' (witness_cfg ROLE_SENDER) = Inr jr"
    by (simp add: JoinProcessor_new_def witness_cfg_def join_type_def Let_def)
  have "\<exists>ol or. GenerateResult jl [''id''] (part_file (jp_sorted_intersect_path jl) [''1''])
       (part_file (jp_sorted_except_path jl) [''2'', ''3'']) 1 = Inr ol \<and>
     GenerateResult jr [''id''] (part_file (jp_sorted_intersect_path jr) [''1''])
       (part_file (jp_sorted_except_path jr) [''9'']) 2 = Inr or \<and> length ol = length or"
    using GenerateResult_aligned [OF l r, of "[''1'']" "[''1'']" "[''id'']" "[''id'']" "[''2'', ''3'']" "[''9'']"]
    by (auto simp: witness_cfg_def inter_body_def left_body_def right_body_def eval_nat_numeral)
  with l r show ?thesis by blast
qed

section \<open>The keys of the joined rows\<close>

text \<open>
  \<open>dup_of K k\<close> is the duplicate count of key \<open>k\<close> in a table, and \<open>match_rows 0 K K'\<close> the
  result a correct PSI delivers to the party whose table has the key rows \<open>K\<close>: the positions of
  the common keys with the peer's duplicate counts.
\<close>

definition dup_of :: "key_row list \<Rightarrow> string \<Rightarrow> nat option" where
  "dup_of K = map_of (map (\<lambda>(k, s, d). (k, d)) K)"

fun match_rows :: "nat \<Rightarrow> key_row list \<Rightarrow> key_row list \<Rightarrow> index_row list" where
  "match_rows i [] K' = []"
| "match_rows i ((k, s, d) # K) K' =
     (case dup_of K' k of None \<Rightarrow> match_rows (i + 1) K K' | Some d' \<Rightarrow> (i, d') # match_rows (i + 1) K K')"

lemma match_rows_sorted:
  "sorted_wrt (<) (map fst (match_rows i K K')) \<and>
   (\<forall>r \<in> set (match_rows i K K'). i \<le> fst r \<and> fst r < i + length K \<and> (\<exists>k s. (k, s, snd r) \<in> set K'))"
proof (induction i K K' rule: match_rows.induct)
  case (2 i k s d K K')
  have "\<exists>k s. (k, s, d') \<in> set K'" if "dup_of K' k = Some d'" for d'
    using map_of_SomeD [OF that [unfolded dup_of_def]] by auto
  with 2 show ?case
    by (cases "dup_of K' k") (fastforce simp: Suc_le_eq)+
qed simp

lemma match_rows_ascending:
  assumes "\<forall>row \<in> set K'. snd (snd row) < 2 ^ 32"
  shows "ascending i (match_rows i K K') \<and> (\<forall>r \<in> set (match_rows i K K'). fst r < i + length K)"
  using match_rows_sorted [of i K K'] assms unfolding ascending_def by fastforce

lemma matched_lines_map: "matched_lines R (zip (map f ls) os) = map f (matched_lines R (zip ls os))"
proof (induction ls os rule: list_induct2')
  case (4 l ls os j)
  then show ?case by (simp add: matched_lines_def map_concat split: option.splits)
qed (simp_all add: matched_lines_def)

lemma concat_replicate_replicate: "concat (replicate n (replicate m x)) = replicate (n * m) x"
  by (induction n) (simp_all add: replicate_add)

lemma matched_keys:
  "matched_lines (match_rows i K K') (zip (expand_keys K) (owners i K)) =
     concat (map (\<lambda>(k, s, d). case dup_of K' k of None \<Rightarrow> [] | Some d' \<Rightarrow> replicate ((d + 1) * (d' + 1)) k) K)"
proof (induction i K K' rule: match_rows.induct)
  case (1 i K')
  then show ?case by (simp add: matched_lines_def)
next
  case (2 i k s d K K')
  let ?R = "match_rows (i + 1) K K'"
  have own: "\<forall>j \<in> set (map snd (zip (expand_keys K) (owners (i + 1) K))). j \<noteq> i"
    by (auto dest!: set_zip_rightD owners_ge)
  have zip: "zip (expand_keys ((k, s, d) # K)) (owners i ((k, s, d) # K)) =
      zip (replicate (d + 1) k) (replicate (length (replicate (d + 1) k)) i) @
      zip (expand_keys K) (owners (i + 1) K)"
    unfolding expand_keys_simps owners.simps by (simp only: length_replicate zip_append)
  have rep: "concat (map (replicate (Suc d')) (replicate (Suc d) k)) = replicate ((d + 1) * (d' + 1)) k" for d'
    by (simp only: map_replicate concat_replicate_replicate Suc_eq_plus1)
  have none: "map_of ?R i = None"
    using match_rows_sorted [of "i + 1" K K'] by (fastforce simp: map_of_eq_None_iff)
  show ?case
    using 2 lines_drop_key(1) [OF own] rep none
    unfolding zip lines_append lines_same_owner
    by (cases "dup_of K' k") simp_all
qed

lemma sorted_filter_common:
  fixes xs ys :: "'a::linorder list"
  assumes "sorted_wrt (<) xs" "sorted_wrt (<) ys"
  shows "filter (\<lambda>x. x \<in> set ys) xs = filter (\<lambda>x. x \<in> set xs) ys"
  by (rule strict_sorted_equal) (auto simp: assms sorted_wrt_filter)

lemma dup_of_None: "dup_of K k = None \<longleftrightarrow> k \<notin> set (map fst K)"
  by (force simp: dup_of_def map_of_eq_None_iff)

lemma dup_of_distinct:
  "distinct (map fst K) \<Longrightarrow> (k, s, d) \<in> set K \<Longrightarrow> dup_of K k = Some d"
  unfolding dup_of_def by (rule map_of_is_SomeI) (force simp: comp_def case_prod_beta')+

lemma matched_keys_common:
  assumes "distinct (map fst K)"
  shows "matched_lines (match_rows 0 K K') (zip (expand_keys K) (owners 0 K)) =
    concat (map (\<lambda>k. replicate ((the (dup_of K k) + 1) * (the (dup_of K' k) + 1)) k)
      (filter (\<lambda>k. k \<in> set (map fst K')) (map fst K)))"
proof -
  have "concat (map (\<lambda>(k, s, d). case dup_of K' k of None \<Rightarrow> [] | Some d' \<Rightarrow> replicate ((d + 1) * (d' + 1)) k) xs) =
    concat (map (\<lambda>k. replicate ((the (dup_of K k) + 1) * (the (dup_of K' k) + 1)) k)
      (filter (\<lambda>k. k \<in> set (map fst K')) (map fst xs)))" if "set xs \<subseteq> set K" for xs
    using that
  proof (induction xs)
    case (Cons x xs)
    obtain k s d where x: "x = (k, s, d)" by (cases x)
    have "dup_of K k = Some d" using Cons.prems assms dup_of_distinct by (auto simp: x)
    with Cons dup_of_None [of K' k] show ?case by (cases "dup_of K' k") (auto simp: x)
  qed simp
  then show ?thesis unfolding matched_keys by simp
qed

text \<open>
  C8. Inner join: when both tables, of fewer than $2^{32}$ lines, are sorted by key and both parties got the correct
  intersection, the \<open>n\<close>-th rows of their intersection files carry the same key, for every
  \<open>n\<close>; in particular both files have the same number of rows.
\<close>

theorem inner_join_keys_aligned:
  assumes "FileIndexReader_inv ra" "Sorted_inv pa" "FileIndexReader_inv rb" "Sorted_inv pb"
    and "Sorted_remaining pa = Ka" "Sorted_remaining pb = Kb"
    and "FileIndexReader_remaining ra = match_rows 0 Ka Kb"
    and "FileIndexReader_remaining rb = match_rows 0 Kb Ka"
    and "starts_from 0 Ka" "sorted_wrt (<) (map fst Ka)" "starts_from 0 Kb" "sorted_wrt (<) (map fst Kb)"
    and "map keya lsa = expand_keys Ka" "map keyb lsb = expand_keys Kb" "length lsa < 2 ^ 32" "length lsb < 2 ^ 32"
  shows "\<exists>sa da sb db ia ib.
     ApplyPeerDupCnt FileIndexReader_GetNextWithPeerCnt Sorted_ReadBatchWithInfo (ha # lsa) ra pa
       (ResultDumper_new True True) = Some (Inr (sa, da)) \<and> intersect_file da = Some (ha # ia) \<and>
     ApplyPeerDupCnt FileIndexReader_GetNextWithPeerCnt Sorted_ReadBatchWithInfo (hb # lsb) rb pb
       (ResultDumper_new True True) = Some (Inr (sb, db)) \<and> intersect_file db = Some (hb # ib) \<and>
     map keya ia = map keyb ib"
proof -
  have len: "length lsa = length (expand_keys Ka)" "length lsb = length (expand_keys Kb)"
    by (metis assms(13) length_map, metis assms(14) length_map)
  have dup: "\<forall>row \<in> set Ka. snd (snd row) < 2 ^ 32" "\<forall>row \<in> set Kb. snd (snd row) < 2 ^ 32"
    using Sorted_remaining_u32 assms(5,6) by blast+
  have ma: "applied (match_rows 0 Ka Kb) Ka ha lsa (ResultDumper_new True True)
      (ApplyPeerDupCnt FileIndexReader_GetNextWithPeerCnt Sorted_ReadBatchWithInfo (ha # lsa) ra pa
       (ResultDumper_new True True))"
    using file_sorted.applied_spec [OF assms(1,2)] match_rows_ascending [OF dup(2), of 0 Ka] assms(5,7,9,15) len(1) by auto
  have mb: "applied (match_rows 0 Kb Ka) Kb hb lsb (ResultDumper_new True True)
      (ApplyPeerDupCnt FileIndexReader_GetNextWithPeerCnt Sorted_ReadBatchWithInfo (hb # lsb) rb pb
       (ResultDumper_new True True))"
    using file_sorted.applied_spec [OF assms(3,4)] match_rows_ascending [OF dup(1), of 0 Kb] assms(6,8,11,16) len(2) by auto
  have "map keya (matched_lines (match_rows 0 Ka Kb) (zip lsa (owners 0 Ka))) =
      map keyb (matched_lines (match_rows 0 Kb Ka) (zip lsb (owners 0 Kb)))"
    unfolding matched_lines_map [symmetric] assms(13,14)
    using matched_keys_common assms(10,12) sorted_filter_common [OF assms(10,12)]
    by (simp add: strict_sorted_iff ac_simps)
  with ma mb show ?thesis
    by (auto simp: applied_def Let_def ResultDumper_new_def)
qed

definition doc_keys_a :: "key_row list" where
  "doc_keys_a = [(''x'', 0, 2), (''y'', 3, 0)]"

definition doc_keys_b :: "key_row list" where
  "doc_keys_b = [(''x'', 0, 1), (''z'', 2, 0)]"

definition provider_of :: "key_row list \<Rightarrow> SortedTableKeysInfoProvider" where
  "provider_of K = \<lparr> sp_batch_size = 2, sp_batch = None, sp_batch_index = 0, sp_reader = [Inr K] \<rparr>"

definition reader_of :: "index_row list \<Rightarrow> FileIndexReader" where
  "reader_of R = \<lparr> fr_reader = [Inr R], fr_batch = None, fr_idx_in_batch = 0, fr_read_cnt = 0 \<rparr>"

lemma provider_reader_of:
  "Sorted_inv (provider_of K)" "Sorted_remaining (provider_of K) = map u32_row K"
  "R \<noteq> [] \<Longrightarrow> FileIndexReader_inv (reader_of R)" "FileIndexReader_remaining (reader_of R) = R"
  by (simp_all add: provider_of_def reader_of_def Sorted_inv_def Sorted_remaining_def pending_def
      FileIndexReader_inv_def FileIndexReader_remaining_def)

lemma doc_keys_u32: "map u32_row doc_keys_a = doc_keys_a" "map u32_row doc_keys_b = doc_keys_b"
  by (simp_all add: doc_keys_a_def doc_keys_b_def u32_row_def u32_def)

lemma doc_match_rows: "match_rows 0 doc_keys_a doc_keys_b = [(0, 1)]" "match_rows 0 doc_keys_b doc_keys_a = [(0, 2)]"
  by (simp_all add: doc_keys_a_def doc_keys_b_def dup_of_def)

theorem inner_join_keys_aligned_witness:
  "\<exists>sa da sb db ia ib.
     ApplyPeerDupCnt FileIndexReader_GetNextWithPeerCnt Sorted_ReadBatchWithInfo
       [''k'', ''x1'', ''x2'', ''x3'', ''y4''] (reader_of [(0, 1)]) (provider_of doc_keys_a)
       (ResultDumper_new True True) = Some (Inr (sa, da)) \<and> intersect_file da = Some (''k'' # ia) \<and>
     ApplyPeerDupCnt FileIndexReader_GetNextWithPeerCnt Sorted_ReadBatchWithInfo
       [''l'', ''xa'', ''xb'', ''zc''] (reader_of [(0, 2)]) (provider_of doc_keys_b)
       (ResultDumper_new True True) = Some (Inr (sb, db)) \<and> intersect_file db = Some (''l'' # ib) \<and>
     map (take 1) ia = map (take 1) ib"
  using inner_join_keys_aligned [of "reader_of [(0, 1)]" "provider_of doc_keys_a" "reader_of [(0, 2)]"
      "provider_of doc_keys_b" doc_keys_a doc_keys_b "take 1" "[''x1'', ''x2'', ''x3'', ''y4'']" "take 1"
      "[''xa'', ''xb'', ''zc'']" "''k''" "''l''"]
  by (simp add: provider_reader_of doc_keys_u32 doc_match_rows) (simp add: doc_keys_a_def doc_keys_b_def numeral_2_eq_2)

text \<open>
  The rows are aligned by key only. On the example of the configuration reference the
  receiver writes each of its rows twice in a row and the sender each of its rows three times in a
  row, so the pairs read off the two files are four of the six rows of the SQL join, two of them
  twice; the reference shows the six pairs of the full join.
\<close>

theorem inner_join_example:
  "\<exists>sa da sb db.
     ApplyPeerDupCnt FileIndexReader_GetNextWithPeerCnt Sorted_ReadBatchWithInfo
       [''k'', ''x1'', ''x2'', ''x3'', ''y4''] (reader_of (match_rows 0 doc_keys_a doc_keys_b))
       (provider_of doc_keys_a) (ResultDumper_new True True) = Some (Inr (sa, da)) \<and>
     ApplyPeerDupCnt FileIndexReader_GetNextWithPeerCnt Sorted_ReadBatchWithInfo
       [''l'', ''xa'', ''xb'', ''zc''] (reader_of (match_rows 0 doc_keys_b doc_keys_a))
       (provider_of doc_keys_b) (ResultDumper_new True True) = Some (Inr (sb, db)) \<and>
     intersect_file da = Some [''k'', ''x1'', ''x1'', ''x2'', ''x2'', ''x3'', ''x3''] \<and>
     intersect_file db = Some [''l'', ''xa'', ''xa'', ''xa'', ''xb'', ''xb'', ''xb''] \<and>
     (''x1'', ''xb'') \<notin> set (zip (the (intersect_file da)) (the (intersect_file db)))"
proof -
  have a: "applied [(0, 1)] doc_keys_a ''k'' [''x1'', ''x2'', ''x3'', ''y4''] (ResultDumper_new True True)
      (ApplyPeerDupCnt FileIndexReader_GetNextWithPeerCnt Sorted_ReadBatchWithInfo
       [''k'', ''x1'', ''x2'', ''x3'', ''y4''] (reader_of [(0, 1)]) (provider_of doc_keys_a) (ResultDumper_new True True))"
    using file_sorted.applied_spec [of "reader_of [(0, 1)]" "provider_of doc_keys_a"]
    by (simp add: provider_reader_of doc_keys_u32) (simp add: doc_keys_a_def ascending_def)
  have b: "applied [(0, 2)] doc_keys_b ''l'' [''xa'', ''xb'', ''zc''] (ResultDumper_new True True)
      (ApplyPeerDupCnt FileIndexReader_GetNextWithPeerCnt Sorted_ReadBatchWithInfo
       [''l'', ''xa'', ''xb'', ''zc''] (reader_of [(0, 2)]) (provider_of doc_keys_b) (ResultDumper_new True True))"
    using file_sorted.applied_spec [of "reader_of [(0, 2)]" "provider_of doc_keys_b"]
    by (simp add: provider_reader_of doc_keys_u32) (simp add: doc_keys_b_def ascending_def)
  show ?thesis
    using a b unfolding doc_match_rows
    by (auto simp: applied_def Let_def doc_keys_a_def doc_keys_b_def matched_lines_def ResultDumper_new_def numeral_2_eq_2 numeral_3_eq_3)
qed

section \<open>Alignment of tables with unique keys\<close>

definition unique_cfg :: PsiConfig where
  "unique_cfg = \<lparr> pc_input_type = IO_TYPE_FILE_CSV, pc_input_path = ''in'',
     pc_output_type = IO_TYPE_FILE_CSV, pc_output_path = ''out'', pc_keys = [''id''],
     pc_keys_unique = True, pc_role = ROLE_RECEIVER, pc_join_type = INNER_JOIN,
     pc_left_side = ROLE_UNSPECIFIED, pc_csv_null_rep = [], pc_disable_alignment = False \<rparr>"

definition unique_provider_of :: "row list \<Rightarrow> UniqueTableKeysInfoProvider" where
  "unique_provider_of rows = \<lparr> up_provider = ArrowCsv_ReadAsync
     \<lparr> acp_batch_size = 4, acp_keys = 1, acp_labels = 0, acp_delimiter = CHR '','', acp_reader = [Inr rows],
       acp_reach_eof = False, acp_batch = None, acp_idx = 0, acp_row_cnt = 0,
       acp_future = Inl (Enforce ''buffer is not valid'') \<rparr>, up_read_index = 0 \<rparr>"

lemma unique_provider_of_inv:
  assumes "\<forall>row \<in> set rows. row \<noteq> []"
  shows "ArrowCsv_inv (up_provider (unique_provider_of rows)) \<and>
     Unique_remaining (unique_provider_of rows) =
       zip (map (\<lambda>row. KeysJoin (CHR '','') (take 1 row)) rows) (zip (map u32 [0..<length rows]) (replicate (length rows) 0))"
proof -
  define p where "p = \<lparr> acp_batch_size = 4, acp_keys = 1, acp_labels = 0, acp_delimiter = CHR '','',
       acp_reader = [Inr rows], acp_reach_eof = False, acp_batch = None, acp_idx = 0, acp_row_cnt = 0,
       acp_future = Inl (Enforce ''buffer is not valid'') \<rparr>"
  have "acp_rest p = rows" by (simp add: p_def acp_rest_def pending_def)
  moreover have "row_key p = (\<lambda>row. KeysJoin (CHR '','') (take 1 row))"
    by (simp add: p_def row_key_def fun_eq_iff)
  ultimately show ?thesis
    using ReadAsync_spec [of p] assms
    by (simp add: unique_provider_of_def p_def [symmetric] Unique_remaining_def Let_def)
      (auto simp: p_def Suc_le_eq)
qed

lemma deal_two_unique_rows:
  assumes "k1 \<noteq> []" "jp_is_input_key_unique jp" "jp_align_output jp" "jp_sorted_intersect_path jp \<noteq> []"
    and "MultiKeySort columns columns False [header, l1, l2] = Inr f"
  shows "\<exists>stat e. DealResultIndex MemoryIndexReader_GetNextWithPeerCnt Unique_ReadBatchWithInfo jp columns
     [header, l1, l2] \<lparr> mr_items = [(0, 0), (1, 0)], mr_read_cnt = 0 \<rparr>
     (unique_provider_of [[k1], [k2]]) = Some (Inr (stat, Some f, e))"
proof -
  let ?r = "\<lparr> mr_items = [(0, 0), (1, 0)], mr_read_cnt = 0 \<rparr>" and ?p = "unique_provider_of [[k1], [k2]]"
  let ?d = "ResultDumper_new True (jp_sorted_except_path jp \<noteq> [])"
  have K: "Unique_remaining ?p = [(k1, 0, 0), (k2, 1, 0)]" "ArrowCsv_inv (up_provider ?p)"
    using unique_provider_of_inv [of "[[k1], [k2]]"] by (simp_all add: u32_def)
  have R: "MemoryIndexReader_remaining ?r = [(0, 0), (1, 0)]"
    by (simp add: MemoryIndexReader_remaining_def)
  have "applied [(0, 0), (1, 0)] [(k1, 0, 0), (k2, 1, 0)] header [l1, l2] ?d
     (ApplyPeerDupCnt MemoryIndexReader_GetNextWithPeerCnt Unique_ReadBatchWithInfo [header, l1, l2] ?r ?p ?d)"
    using memory_unique.applied_spec [where r = ?r and p = ?p and ls = "[l1, l2]" and header = header and d = ?d] K R
    by (simp add: ascending_def)
  then obtain stat d where "ApplyPeerDupCnt MemoryIndexReader_GetNextWithPeerCnt Unique_ReadBatchWithInfo
      [header, l1, l2] ?r ?p ?d = Some (Inr (stat, d))" "intersect_file d = Some [header, l1, l2]"
    "join_intersection_count stat = 2"
    by (auto simp: applied_def Let_def matched_lines_def ResultDumper_new_def)
  then show ?thesis
    using assms(2-5) by (simp add: DealResultIndex_def)
qed

text \<open>
  For tables declared to have unique keys \<open>DealResultIndex\<close> sorts the intersection by
  all columns in file order, not by the keys. Two parties whose tables hold the same two keys, one
  of them with the key in the second column, get files whose rows are not aligned although
  alignment is on: the first row of one carries key 1 and the first row of the other key 2.
\<close>

theorem unique_keys_not_aligned:
  "\<exists>jp sa fa ea sb fb eb. JoinProcessor_new ''r'' ''d'' unique_cfg = Inr jp \<and>
     DealResultIndex MemoryIndexReader_GetNextWithPeerCnt Unique_ReadBatchWithInfo jp [''id'', ''v'']
       [''id,v'', ''1,p'', ''2,q''] \<lparr> mr_items = [(0, 0), (1, 0)], mr_read_cnt = 0 \<rparr>
       (unique_provider_of [[''1''], [''2'']]) = Some (Inr (sa, Some fa, ea)) \<and>
     DealResultIndex MemoryIndexReader_GetNextWithPeerCnt Unique_ReadBatchWithInfo jp [''w'', ''id'']
       [''w,id'', ''t,1'', ''s,2''] \<lparr> mr_items = [(0, 0), (1, 0)], mr_read_cnt = 0 \<rparr>
       (unique_provider_of [[''1''], [''2'']]) = Some (Inr (sb, Some fb, eb)) \<and>
     csv_fields (fa ! 1) ! 0 = ''1'' \<and> csv_fields (fb ! 1) ! 1 = ''2''"
proof -
  obtain jp where jp: "JoinProcessor_new ''r'' ''d'' unique_cfg = Inr jp"
    "jp_is_input_key_unique jp" "jp_align_output jp" "jp_sorted_intersect_path jp \<noteq> []"
    by (simp add: JoinProcessor_new_def unique_cfg_def join_type_def Let_def path_join_def)
  have a: "MultiKeySort [''id'', ''v''] [''id'', ''v''] False [''id,v'', ''1,p'', ''2,q''] =
      Inr [''id,v'', ''1,p'', ''2,q'']"
    by (simp add: MultiKeySort_def sort_field_def csv_fields_def less_char_def)
  have b: "MultiKeySort [''w'', ''id''] [''w'', ''id''] False [''w,id'', ''t,1'', ''s,2''] =
      Inr [''w,id'', ''s,2'', ''t,1'']"
    by (simp add: MultiKeySort_def sort_field_def csv_fields_def less_char_def)
  from deal_two_unique_rows [OF _ jp(2-4) a, of "''1''" "''2''"]
    deal_two_unique_rows [OF _ jp(2-4) b, of "''1''" "''2''"] jp(1)
  show ?thesis by (fastforce simp: csv_fields_def)
qed

end
