(* ===== verification/Psi_Party.thy ===== *)
theory Psi_Party
  imports Join_Processor Hash_Bucket Recovery
begin

text \<open>
  \<open>psi/interface.cc\<close>, the steps every two-party PSI takes around its protocol, with the exchanges of
  \<open>psi/utils/sync.cc\<close> and the bucket helpers of \<open>psi/utils/bucket.cc\<close>.

  \<open>AllGather\<close> gives both parties the list of both values by rank, so what a party computes from an
  exchange is a function of its own value and the peer's. \<open>SyncWait\<close> runs its function to the end.
  The protocol steps are virtual methods: they are arguments of \<open>AbstractPsiParty_Run\<close>.
\<close>

section \<open>Configuration checks\<close>

datatype Protocol = PROTOCOL_UNSPECIFIED | PROTOCOL_ECDH | PROTOCOL_KKRT | PROTOCOL_RR22

record PartyConfig = PsiConfig +
  pp_protocol :: Protocol
  pp_curve :: nat
  pp_broadcast_result :: bool
  pp_kkrt_bucket_size :: nat
  pp_rr22_bucket_size :: nat
  pp_recovery_enabled :: bool
  pp_recovery_folder :: string
  pp_check_hash_digest :: bool
  pp_debug_options :: string
  pp_count_path :: string

definition CURVE_INVALID_TYPE :: nat where "CURVE_INVALID_TYPE = 0"

definition CheckSelfConfig :: "Role \<Rightarrow> PartyConfig \<Rightarrow> PartyConfig result" where
  "CheckSelfConfig role cfg =
     (if pp_protocol cfg = PROTOCOL_ECDH \<and> pp_curve cfg = CURVE_INVALID_TYPE
        then Inl (Throw ''Curve type is not specified.'')
      else if pc_role cfg \<noteq> role then Inl (Throw ''Role does not match.'')
      else if pc_input_type cfg \<noteq> IO_TYPE_FILE_CSV then Inl (Throw ''Input type'')
      else if pc_output_type cfg \<noteq> IO_TYPE_FILE_CSV then Inl (Throw ''Output type'')
      else if pc_keys cfg = [] then Inl (Throw ''keys are not specified.'')
      else rbind (enforce (card (set (pc_keys cfg)) = length (pc_keys cfg)) ''Duplicated key is not allowed.'') (\<lambda>_.
        Inr (if \<not> pp_check_hash_digest cfg \<and> pp_recovery_enabled cfg
             then cfg \<lparr> pp_check_hash_digest := True \<rparr> else cfg)))"

text \<open>The fields which the parties need not agree on are cleared before the exchange.\<close>

definition shared_config :: "PartyConfig \<Rightarrow> PartyConfig" where
  "shared_config cfg = cfg \<lparr> pc_input_type := IO_TYPE_UNSPECIFIED, pc_input_path := [],
     pc_output_type := IO_TYPE_UNSPECIFIED, pc_output_path := [], pc_keys := [],
     pc_disable_alignment := False, pc_keys_unique := False, pp_debug_options := [],
     pp_count_path := [], pp_recovery_folder := [] \<rparr>"

definition CheckPeerConfig :: "PartyConfig \<Rightarrow> PartyConfig \<Rightarrow> unit result" where
  "CheckPeerConfig cfg peer_cfg =
     (let rank0 = shared_config cfg; rank1 = shared_config peer_cfg
      in if pc_role rank0 = pc_role rank1 then Inl (Throw ''The role of parties must be different.'')
         else enforce (rank0 \<lparr> pc_role := ROLE_UNSPECIFIED \<rparr> = rank1 \<lparr> pc_role := ROLE_UNSPECIFIED \<rparr>)
                ''PSI configs are not consistent between parties.'')"

section \<open>Initialisation\<close>

definition HashListEqualTest :: "'h list \<Rightarrow> bool result" where
  "HashListEqualTest hash_list =
     rbind (enforce (hash_list \<noteq> []) ''unsupported hash_list size'') (\<lambda>_.
     Inr (list_all (\<lambda>h. h = hash_list ! 0) (tl hash_list)))"

text \<open>The comparison of the key digests: done only when no party has duplicate keys.\<close>

definition check_digest :: "bool \<Rightarrow> KeyInfoMeta \<Rightarrow> KeyInfoMeta \<Rightarrow> bool result" where
  "check_digest check_hash_digest meta peer_meta =
     (if check_hash_digest \<and> list_all (\<lambda>m. duplicate_key_cnt m = 0) [meta, peer_meta]
      then HashListEqualTest [keys_hash meta, keys_hash peer_meta] else Inr False)"

text \<open>\<open>WriteCache\<close> returns the number of all rows written, so the loop commits once, after the first 1024 rows.\<close>

definition write_all_indices :: "nat \<Rightarrow> IndexWriter \<Rightarrow> IndexWriter result" where
  "write_all_indices original_key_count w =
     rfold (\<lambda>i w. rbind (IndexWriter_WriteCache1 i 0 w) (\<lambda>w'.
       if iw_write_cnt w' = kIndexWriterCacheSize then IndexWriter_Commit w' else Inr w'))
       [0..<original_key_count] w"

definition kDefaultBucketSize :: nat where "kDefaultBucketSize = 2 ^ 20"

definition default_buckets :: "PartyConfig \<Rightarrow> PartyConfig" where
  "default_buckets cfg =
     (let cfg1 = (if pp_protocol cfg = PROTOCOL_KKRT \<and> pp_kkrt_bucket_size cfg = 0
                  then cfg \<lparr> pp_kkrt_bucket_size := kDefaultBucketSize \<rparr> else cfg)
      in if pp_protocol cfg1 = PROTOCOL_RR22 \<and> pp_rr22_bucket_size cfg1 = 0
         then cfg1 \<lparr> pp_rr22_bucket_size := kDefaultBucketSize \<rparr> else cfg1)"

record PsiParty =
  py_config :: PartyConfig
  py_digest_equal :: bool
  py_writer :: IndexWriter
  py_recovery :: "PartyConfig RecoveryManager option"

definition AbstractPsiParty_Init ::
  "Role \<Rightarrow> PartyConfig \<Rightarrow> PartyConfig \<Rightarrow> KeyInfoMeta \<Rightarrow> KeyInfoMeta \<Rightarrow> index_row list option \<Rightarrow> bool
     \<Rightarrow> PartyConfig RecoveryManager option \<Rightarrow> PsiParty result" where
  "AbstractPsiParty_Init role cfg peer_cfg meta peer_meta existing_indices trunc rm =
     rbind (CheckSelfConfig role cfg) (\<lambda>cfg1.
     rbind (CheckPeerConfig cfg1 peer_cfg) (\<lambda>_.
     rbind (check_digest (pp_check_hash_digest cfg1) meta peer_meta) (\<lambda>digest_equal.
     let w = IndexWriter_new existing_indices kIndexWriterCacheSize trunc
     in rbind (if digest_equal then write_all_indices (unique_key_cnt meta) w else Inr w) (\<lambda>w'.
        let cfg2 = default_buckets cfg1
        in rbind (case rm of None \<Rightarrow> Inr None
                  | Some m \<Rightarrow> rbind (MarkInitEnd cfg2 (keys_hash meta) m) (\<lambda>m'. Inr (Some m'))) (\<lambda>rm'.
           Inr \<lparr> py_config = cfg2, py_digest_equal = digest_equal, py_writer = w', py_recovery = rm' \<rparr>)))))"

section \<open>Running a party\<close>

definition AbstractPsiParty_Run ::
  "(PsiParty \<Rightarrow> PsiParty result) \<Rightarrow> (PsiParty \<Rightarrow> PsiParty result) \<Rightarrow> (PsiParty \<Rightarrow> PsiParty result)
     \<Rightarrow> (PsiParty \<Rightarrow> 'r result) \<Rightarrow> PsiParty result \<Rightarrow> 'r result" where
  "AbstractPsiParty_Run PreProcess Online PostProcess Finalize Init =
     rbind Init (\<lambda>p.
     if \<not> py_digest_equal p
     then rbind (PreProcess p) (\<lambda>p1. rbind (Online p1) (\<lambda>p2. rbind (PostProcess p2) Finalize))
     else Finalize p)"

definition AbstractUbPsiParty_Run ::
  "('s \<Rightarrow> 's result) \<Rightarrow> ('s \<Rightarrow> 's result) \<Rightarrow> ('s \<Rightarrow> 's result) \<Rightarrow> ('s \<Rightarrow> 's result) \<Rightarrow> ('s \<Rightarrow> 's result)
     \<Rightarrow> UbPsiMode \<Rightarrow> 's \<Rightarrow> 's result" where
  "AbstractUbPsiParty_Run Init OfflineGenCache OfflineTransferCache Offline Online mode s =
     rbind (Init s) (\<lambda>s1. case mode of
       MODE_OFFLINE_GEN_CACHE \<Rightarrow> OfflineGenCache s1
     | MODE_OFFLINE_TRANSFER_CACHE \<Rightarrow> OfflineTransferCache s1
     | MODE_OFFLINE \<Rightarrow> Offline s1
     | MODE_ONLINE \<Rightarrow> Online s1
     | MODE_FULL \<Rightarrow> rbind (Offline s1) Online
     | MODE_UNSPECIFIED \<Rightarrow> Inl (Throw ''unsupported mode.''))"

section \<open>Finalisation\<close>

text \<open>
  The index file is sorted numerically by its index column, dealt with, and the result file is
  generated. \<open>batches\<close> is how the reader divides the sorted file into record batches; \<open>peer_lines\<close> is the
  number of lines the peer reports. The number of the peer's lines outside the intersection is passed
  on as \<open>uint32_t\<close>.
\<close>

record PsiResultReport =
  rp_intersection_count :: int
  rp_intersection_key_count :: int

definition peer_except_cnt :: "nat \<Rightarrow> nat \<Rightarrow> nat" where
  "peer_except_cnt peer_lines matched =
     unat (ucast (of_nat peer_lines - of_nat matched :: 64 word) :: 32 word)"

definition AbstractPsiParty_Finalize ::
  "(index_row list \<Rightarrow> index_row stream) \<Rightarrow> ('p \<Rightarrow> (BatchInfo \<times> 'p) result) \<Rightarrow> JoinProcessor \<Rightarrow> string list
     \<Rightarrow> string list \<Rightarrow> 'p \<Rightarrow> Role \<Rightarrow> nat \<Rightarrow> PsiParty \<Rightarrow> (PsiResultReport \<times> string list option) result option" where
  "AbstractPsiParty_Finalize batches read jp columns table provider role peer_lines p =
     (let broadcast = pp_broadcast_result (py_config p);
          report = \<lparr> rp_intersection_count = 0, rp_intersection_key_count = 0 \<rparr>
      in case IndexWriter_Close (py_writer p) of
           Inl e \<Rightarrow> Some (Inl e)
         | Inr w \<Rightarrow>
           (let sorted_indices = sort_key fst (iw_file w)
            in if role = ROLE_RECEIVER \<or> broadcast then
                 (case FileIndexReader_new (Some (batches sorted_indices)) of
                    Inl e \<Rightarrow> Some (Inl e)
                  | Inr reader \<Rightarrow>
                    map_option (\<lambda>res. rbind res (\<lambda>(stat, inters, excepts).
                      rbind (GenerateResult jp columns inters excepts
                         (if broadcast then peer_except_cnt peer_lines (peer_intersection_count stat) else 0)) (\<lambda>out.
                      Inr (report \<lparr> rp_intersection_count := int (self_intersection_count stat),
                                    rp_intersection_key_count := int (inter_unique_cnt stat) \<rparr>, Some out))))
                    (DealResultIndex FileIndexReader_GetNextWithPeerCnt read jp columns table reader provider))
               else if role = ROLE_SENDER \<and> \<not> broadcast
               then Some (Inr (report \<lparr> rp_intersection_count := -1 \<rparr>, None))
               else Some (Inr (report, None))))"

section \<open>Exchanging the result of a bucket\<close>

text \<open>The rank that broadcasts: the scan of \<open>BroadcastResult\<close> over the gathered sizes.\<close>

definition broadcast_rank :: "nat list \<Rightarrow> nat result" where
  "broadcast_rank res_size_list =
     rfold (\<lambda>i rank. if res_size_list ! i > 0
       then rbind (enforce (rank = 0) ''broadcast_rank'') (\<lambda>_. Inr i) else Inr rank)
       [0..<length res_size_list] 0"

type_synonym str_items = "string list \<times> (nat \<Rightarrow> nat option)"

text \<open>Both parties of the exchange, by rank. A party that has results keeps its own.\<close>

definition BroadcastResult :: "str_items \<Rightarrow> str_items \<Rightarrow> (str_items \<times> str_items) result" where
  "BroadcastResult r0 r1 =
     rbind (broadcast_rank [length (fst r0), length (fst r1)]) (\<lambda>rank.
     if max (length (fst r0)) (length (fst r1)) = 0 then Inr (r0, r1)
     else (let buf = (if rank = 0 then r0 else r1);
               take_result = (\<lambda>r :: str_items. if fst r = [] then (fst buf, snd r ++ snd buf) else r)
           in Inr (take_result r0, take_result r1)))"

definition receiver_items :: "BucketItem list \<Rightarrow> str_items" where
  "receiver_items result_list = (map base64_data result_list,
     \<lambda>i. if i < length result_list \<and> extra_dup_cnt (result_list ! i) > 0
         then Some (extra_dup_cnt (result_list ! i)) else None)"

definition HandleBucketResultByReceiver ::
  "BucketItem list \<Rightarrow> nat list \<Rightarrow> IndexWriter \<Rightarrow> IndexWriter result" where
  "HandleBucketResultByReceiver result_list peer_extra_dup_cnt w =
     rbind (rfold (\<lambda>i w. rbind (at peer_extra_dup_cnt i) (\<lambda>c.
       IndexWriter_WriteCache1 (bi_index (result_list ! i)) c w)) [0..<length result_list] w) IndexWriter_Commit"

text \<open>
  The sender's map from data to the receiver's duplicate count, built in the order of the list, and the
  two ways of writing its rows: all items when as many were broadcast as it has, else those found.
\<close>

definition peer_result_map :: "str_items \<Rightarrow> string \<Rightarrow> nat option" where
  "peer_result_map r = fold (\<lambda>i m. m(fst r ! i \<mapsto> (case snd r i of None \<Rightarrow> 0 | Some c \<Rightarrow> c)))
     [0..<length (fst r)] (\<lambda>_. None)"

definition HandleBucketResultBySender ::
  "bool \<Rightarrow> str_items \<Rightarrow> BucketItem list \<Rightarrow> IndexWriter \<Rightarrow> IndexWriter result" where
  "HandleBucketResultBySender broadcast_result received bucket_items_list w =
     (if \<not> broadcast_result \<or> fst received = [] then Inr w
      else (let peer_result = peer_result_map received
            in rbind (if length (fst received) = length bucket_items_list
                      then rfold (\<lambda>item. IndexWriter_WriteCache1 (bi_index item)
                             (case peer_result (base64_data item) of None \<Rightarrow> 0 | Some c \<Rightarrow> c)) bucket_items_list w
                      else rfold (\<lambda>item w. case peer_result (base64_data item) of
                             None \<Rightarrow> Inr w
                           | Some c \<Rightarrow> IndexWriter_WriteCache1 (bi_index item) c w) bucket_items_list w)
               IndexWriter_Commit))"

section \<open>Buckets\<close>

definition PrepareBucketData ::
  "codec \<Rightarrow> nat \<Rightarrow> nat \<Rightarrow> HashBucketCache \<Rightarrow> BucketItem list option result" where
  "PrepareBucketData c bucket_idx peer_size cache =
     rbind (HashBucketCache_LoadBucketItems c cache bucket_idx) (\<lambda>items.
     Inr (if min (length items) peer_size = 0 then None else Some items))"

definition CalcBucketItemSecHash :: "(string \<Rightarrow> 128 word) \<Rightarrow> BucketItem list \<Rightarrow> BucketItem list" where
  "CalcBucketItemSecHash blake3 items = map (\<lambda>item. item \<lparr> sec_hash := blake3 (base64_data item) \<rparr>) items"

definition NegotiateBucketNum :: "nat \<Rightarrow> nat list \<Rightarrow> nat \<Rightarrow> nat result" where
  "NegotiateBucketNum self_items_count items_size_list self_bucket_size =
     (if self_bucket_size = 0 then Inl (Undefined ''division by zero'')
      else (let bucket_count_list = map (\<lambda>n. (n + self_bucket_size - 1) div self_bucket_size) items_size_list;
                max_bucket_count = fold max bucket_count_list 0;
                min_item_size = fold min items_size_list self_items_count
            in Inr (if min_item_size = 0 then 0 else max_bucket_count)))"

section \<open>The parties agree\<close>

lemma NegotiateBucketNum_pair:
  assumes "0 < s"
  shows "NegotiateBucketNum a [a, b] s = Inr (if a = 0 \<or> b = 0 then 0 else max ((a + s - 1) div s) ((b + s - 1) div s))"
    "NegotiateBucketNum b [a, b] s = Inr (if a = 0 \<or> b = 0 then 0 else max ((a + s - 1) div s) ((b + s - 1) div s))"
  using assms by (auto simp: NegotiateBucketNum_def max.commute min_def)

lemma ceil_div:
  fixes a s :: nat
  assumes "0 < s" "0 < a"
  shows "a \<le> (a + s - 1) div s * s" "((a + s - 1) div s - 1) * s < a" "0 < (a + s - 1) div s"
proof -
  have e: "(a + s - 1) div s = (a - 1) div s + 1"
    using assms by (metis Suc_eq_plus1 add.commute add_diff_assoc2 div_add_self1 less_not_refl One_nat_def Suc_leI)
  define q r where "q = (a - 1) div s" "r = (a - 1) mod s"
  have "a = q * s + r + 1" "r < s"
    using assms div_mult_mod_eq [of "a - 1" s] unfolding q_r_def by simp_all
  then show "a \<le> (a + s - 1) div s * s" "((a + s - 1) div s - 1) * s < a" "0 < (a + s - 1) div s"
    unfolding e q_r_def(1) [symmetric] by simp_all
qed

text \<open>
  The number of buckets both parties compute is the same. It is 0 exactly when one of them has no
  items; otherwise it is the least number of buckets of the configured size that holds the items
  of the larger party.
\<close>

theorem NegotiateBucketNum_agree:
  assumes "0 < s"
  shows "\<exists>n. NegotiateBucketNum a [a, b] s = Inr n \<and> NegotiateBucketNum b [a, b] s = Inr n \<and>
     (n = 0 \<longleftrightarrow> a = 0 \<or> b = 0) \<and> (n \<noteq> 0 \<longrightarrow> max a b \<le> n * s \<and> (n - 1) * s < max a b)"
proof (cases "a = 0 \<or> b = 0")
  case True
  then show ?thesis using NegotiateBucketNum_pair [OF assms, where a = a and b = b] by auto
next
  case False
  let ?n = "\<lambda>a. (a + s - 1) div s"
  have mono: "a \<le> b \<Longrightarrow> ?n a \<le> ?n b" for a b by (simp add: div_le_mono)
  have m: "max (?n a) (?n b) = ?n (max a b)"
    using mono [of a b] mono [of b a] by (auto simp: max_def)
  have "0 < max a b" using False by auto
  from ceil_div [OF assms this] False show ?thesis
    using NegotiateBucketNum_pair [OF assms, where a = a and b = b] unfolding m by auto
qed

theorem NegotiateBucketNum_agree_witness:
  "\<exists>n. NegotiateBucketNum 5 [5, 9] 4 = Inr n \<and> NegotiateBucketNum 9 [5, 9] 4 = Inr n \<and> n * 4 \<ge> 9 \<and> (n - 1) * 4 < 9"
  using NegotiateBucketNum_agree [of 4 5 9] by auto

text \<open>
  The check that only one party has results does nothing for two parties: whatever the sizes
  of the two results, also when both parties have some, a rank is chosen and no error is raised.
\<close>

theorem broadcast_rank_unchecked:
  "broadcast_rank [m, n] = Inr (if n = 0 then 0 else 1)"
  by (simp add: broadcast_rank_def numeral_2_eq_2)

section \<open>The broadcast of a bucket result\<close>

lemma peer_result_map_of:
  assumes "distinct (map base64_data result_list)"
  shows "peer_result_map (receiver_items result_list) =
     map_of (map (\<lambda>item. (base64_data item, extra_dup_cnt item)) result_list)"
proof -
  let ?v = "\<lambda>i. case snd (receiver_items result_list) i of None \<Rightarrow> 0 | Some c \<Rightarrow> c"
  have "fold (\<lambda>i m. m(map base64_data result_list ! i \<mapsto> ?v i)) [0..<n] (\<lambda>_. None) =
      map_of (map (\<lambda>item. (base64_data item, extra_dup_cnt item)) (take n result_list))" if "n \<le> length result_list" for n
    using that
  proof (induction n)
    case (Suc n)
    let ?x = "result_list ! n"
    have "base64_data ?x \<notin> base64_data ` set (take n result_list)"
    proof -
      have "distinct (map base64_data (take (Suc n) result_list))"
        using assms by (metis distinct_take take_map)
      then show ?thesis using Suc.prems by (simp add: take_Suc_conv_app_nth)
    qed
    moreover have "?v n = extra_dup_cnt ?x"
      using Suc.prems by (simp add: receiver_items_def)
    moreover from calculation have "map_of (map (\<lambda>item. (base64_data item, extra_dup_cnt item)) (take n result_list)) (base64_data ?x) = None"
      by (auto simp: map_of_eq_None_iff)
    ultimately show ?case
      using Suc by (auto simp: take_Suc_conv_app_nth map_of_append fun_eq_iff map_add_def split: option.splits)
  qed simp
  from this [of "length result_list"] show ?thesis
    by (simp add: peer_result_map_def receiver_items_def)
qed

text \<open>Writing the rows a list of items gives rise to.\<close>

lemma rfold_write_rows:
  assumes "\<not> iw_closed w"
  shows "rfold (\<lambda>x w. case g x of None \<Rightarrow> Inr w | Some (i, c) \<Rightarrow> IndexWriter_WriteCache1 i c w) xs w =
     Inr (w \<lparr> iw_cache := iw_cache w @ List.map_filter g xs,
              iw_cache_cnt := iw_cache_cnt w + length (List.map_filter g xs),
              iw_write_cnt := iw_write_cnt w + length (List.map_filter g xs) \<rparr>)"
  using assms
proof (induction xs arbitrary: w)
  case (Cons x xs)
  show ?case
  proof (cases "g x")
    case None
    then show ?thesis using Cons by (simp add: map_filter_simps)
  next
    case (Some r)
    then show ?thesis
      using Cons.IH [of "w \<lparr> iw_cache := iw_cache w @ [r], iw_cache_cnt := iw_cache_cnt w + 1, iw_write_cnt := iw_write_cnt w + 1 \<rparr>"] Cons.prems
      by (cases r) (simp add: map_filter_simps IndexWriter_WriteCache1_def)
  qed
qed (simp add: map_filter_simps)

lemma commit_rows:
  assumes "\<not> iw_closed w" "iw_cache w = []" "iw_cache_cnt w = 0"
  shows "\<exists>w'. IndexWriter_Commit (w \<lparr> iw_cache := rows, iw_cache_cnt := length rows, iw_write_cnt := k \<rparr>) = Inr w' \<and>
     iw_file w' = iw_file w @ rows \<and> \<not> iw_closed w' \<and> iw_cache w' = [] \<and> iw_cache_cnt w' = 0"
  using assms by (simp add: IndexWriter_Commit_def)

lemma map_of_items_find:
  "map_of (map (\<lambda>item. (base64_data item, extra_dup_cnt item)) rs) d =
     map_option extra_dup_cnt (find (\<lambda>r. base64_data r = d) rs)"
  by (induction rs) auto

definition writer_clean :: "IndexWriter \<Rightarrow> bool" where
  "writer_clean w \<longleftrightarrow> \<not> iw_closed w \<and> iw_cache w = [] \<and> iw_cache_cnt w = 0"

lemma bucket_broadcast_rows:
  assumes "distinct (map base64_data items)" "distinct (map base64_data result_list)"
    and "set (map base64_data result_list) \<subseteq> set (map base64_data items)"
    and "length cnts = length result_list" "writer_clean ws" "writer_clean wr"
  shows "\<exists>received ws' wr'.
     BroadcastResult (receiver_items result_list) ([], \<lambda>_. None) = Inr (receiver_items result_list, received) \<and>
     BroadcastResult ([], \<lambda>_. None) (receiver_items result_list) = Inr (received, receiver_items result_list) \<and>
     HandleBucketResultBySender True received items ws = Inr ws' \<and>
     HandleBucketResultByReceiver result_list cnts wr = Inr wr' \<and>
     iw_file ws' = iw_file ws @ List.map_filter (item_row result_list) items \<and>
     iw_file wr' = iw_file wr @ zip (map bi_index result_list) cnts \<and> writer_clean ws' \<and> writer_clean wr'"
proof -
  let ?R = "receiver_items result_list"
  let ?g = "item_row result_list"
  note ws = assms(5) [unfolded writer_clean_def] and wr = assms(6) [unfolded writer_clean_def]
  have ne: "length (fst ?R) = length result_list" by (simp add: receiver_items_def)
  have bc: "BroadcastResult ?R ([], \<lambda>_. None) = Inr (?R, ?R)" "BroadcastResult ([], \<lambda>_. None) ?R = Inr (?R, ?R)"
    by (cases "result_list = []"; simp add: BroadcastResult_def broadcast_rank_def numeral_2_eq_2 receiver_items_def)+
  have pr: "peer_result_map ?R d = map_option extra_dup_cnt (find (\<lambda>r. base64_data r = d) result_list)" for d
    by (simp add: peer_result_map_of [OF assms(2)] map_of_items_find)
  have found: "find (\<lambda>r. base64_data r = base64_data item) result_list \<noteq> None"
    if "length result_list = length items" "item \<in> set items" for item
  proof -
    have "set (map base64_data result_list) = set (map base64_data items)"
      using assms(1-3) that(1) by (metis card_subset_eq distinct_card finite_set length_map)
    then have "base64_data item \<in> base64_data ` set result_list" using that(2) by simp
    then show ?thesis by (auto simp: find_None_iff)
  qed
  have all: "rfold (\<lambda>item. IndexWriter_WriteCache1 (bi_index item)
        (case peer_result_map ?R (base64_data item) of None \<Rightarrow> 0 | Some c \<Rightarrow> c)) is w =
      rfold (\<lambda>item w. case ?g item of None \<Rightarrow> Inr w | Some (i, c) \<Rightarrow> IndexWriter_WriteCache1 i c w) is w"
    if "length result_list = length items" "set is \<subseteq> set items" for "is" w
    using found [OF that(1)] that(2) by (intro rfold_cong) (force simp: pr item_row_def peer_find_def split: option.splits)
  have some: "rfold (\<lambda>item w. case peer_result_map ?R (base64_data item) of None \<Rightarrow> Inr w
        | Some c \<Rightarrow> IndexWriter_WriteCache1 (bi_index item) c w) is w =
      rfold (\<lambda>item w. case ?g item of None \<Rightarrow> Inr w | Some (i, c) \<Rightarrow> IndexWriter_WriteCache1 i c w) is w" for "is" w
    by (rule rfold_cong) (simp add: pr item_row_def peer_find_def split: option.splits)
  have "\<exists>ws'. HandleBucketResultBySender True ?R items ws = Inr ws' \<and> iw_file ws' = iw_file ws @ List.map_filter ?g items \<and> writer_clean ws'"
  proof (cases "result_list = []")
    case True
    then have "List.map_filter ?g items = []" by (auto simp: map_filter_def item_row_def peer_find_def)
    then show ?thesis using True assms(5) by (simp add: HandleBucketResultBySender_def receiver_items_def)
  next
    case False
    then have "fst ?R \<noteq> []" using ne by (metis length_0_conv)
    then show ?thesis
      using ne commit_rows [where w = ws and rows = "List.map_filter ?g items"] ws
      by (auto simp: HandleBucketResultBySender_def Let_def all some rfold_write_rows [of ws ?g] writer_clean_def)
  qed
  moreover have "\<exists>wr'. HandleBucketResultByReceiver result_list cnts wr = Inr wr' \<and>
      iw_file wr' = iw_file wr @ zip (map bi_index result_list) cnts \<and> writer_clean wr'"
  proof -
    let ?h = "\<lambda>i. Some (bi_index (result_list ! i), cnts ! i)"
    have "rfold (\<lambda>i w. rbind (at cnts i) (\<lambda>c. IndexWriter_WriteCache1 (bi_index (result_list ! i)) c w)) [0..<length result_list] wr =
        rfold (\<lambda>i w. case ?h i of None \<Rightarrow> Inr w | Some (i, c) \<Rightarrow> IndexWriter_WriteCache1 i c w) [0..<length result_list] wr"
      using assms(4) by (intro rfold_cong) simp
    also note rfold_write_rows [OF wr [THEN conjunct1], of ?h "[0..<length result_list]"]
    also have "List.map_filter ?h [0..<length result_list] = zip (map bi_index result_list) cnts"
      using assms(4) by (intro nth_equalityI) (simp_all add: map_filter_def)
    finally show ?thesis
      using commit_rows [where w = wr and rows = "zip (map bi_index result_list) cnts"] wr
      by (auto simp: HandleBucketResultByReceiver_def assms(4) writer_clean_def)
  qed
  ultimately show ?thesis using bc by blast
qed

text \<open>
  C25. When the result of a bucket is broadcast, both parties write the rows of the intersection: the
  receiver its matched items with the sender's duplicate counts, the sender those of its items which are
  in the broadcast result, with the receiver's duplicate counts; the shortcut for a bucket that matches
  as a whole writes the same rows. It makes no difference which party has rank 0.
\<close>

theorem bucket_broadcast_correct:
  assumes "distinct (map base64_data items)" "distinct (map base64_data result_list)"
    and "set (map base64_data result_list) \<subseteq> set (map base64_data items)" "result_list \<noteq> []"
    and "length cnts = length result_list"
    and "\<not> iw_closed ws" "iw_cache ws = []" "iw_cache_cnt ws = 0"
    and "\<not> iw_closed wr" "iw_cache wr = []" "iw_cache_cnt wr = 0"
  shows "\<exists>received ws' wr'.
     BroadcastResult (receiver_items result_list) ([], \<lambda>_. None) = Inr (receiver_items result_list, received) \<and>
     BroadcastResult ([], \<lambda>_. None) (receiver_items result_list) = Inr (received, receiver_items result_list) \<and>
     HandleBucketResultBySender True received items ws = Inr ws' \<and>
     HandleBucketResultByReceiver result_list cnts wr = Inr wr' \<and>
     iw_file ws' = iw_file ws @ List.map_filter (\<lambda>item. map_option (\<lambda>r. (bi_index item, extra_dup_cnt r))
        (find (\<lambda>r. base64_data r = base64_data item) result_list)) items \<and>
     iw_file wr' = iw_file wr @ zip (map bi_index result_list) cnts"
  using bucket_broadcast_rows [OF assms(1-3,5), of ws wr] assms(6-11)
  by (simp add: writer_clean_def item_row_def [abs_def] peer_find_def) blast

theorem bucket_broadcast_correct_witness:
  "\<exists>received ws' wr'. BroadcastResult (receiver_items [\<lparr> sec_hash = 0, bi_index = 4, extra_dup_cnt = 2, base64_data = ''x'' \<rparr>]) ([], \<lambda>_. None) =
       Inr (receiver_items [\<lparr> sec_hash = 0, bi_index = 4, extra_dup_cnt = 2, base64_data = ''x'' \<rparr>], received) \<and>
     HandleBucketResultBySender True received
       [\<lparr> sec_hash = 0, bi_index = 7, extra_dup_cnt = 1, base64_data = ''x'' \<rparr>, \<lparr> sec_hash = 0, bi_index = 8, extra_dup_cnt = 0, base64_data = ''y'' \<rparr>]
       (IndexWriter_new None 9 True) = Inr ws' \<and>
     HandleBucketResultByReceiver [\<lparr> sec_hash = 0, bi_index = 4, extra_dup_cnt = 2, base64_data = ''x'' \<rparr>] [1] (IndexWriter_new None 9 True) = Inr wr' \<and>
     iw_file ws' = [(7, 2)] \<and> iw_file wr' = [(4, 1)]"
  using bucket_broadcast_correct [of
      "[\<lparr> sec_hash = 0, bi_index = 7, extra_dup_cnt = 1, base64_data = ''x'' \<rparr>, \<lparr> sec_hash = 0, bi_index = 8, extra_dup_cnt = 0, base64_data = ''y'' \<rparr>]"
      "[\<lparr> sec_hash = 0, bi_index = 4, extra_dup_cnt = 2, base64_data = ''x'' \<rparr>]" "[1]" "IndexWriter_new None 9 True" "IndexWriter_new None 9 True"]
  by (simp add: IndexWriter_new_def map_filter_simps) blast

section \<open>Equal digests\<close>

lemma write_all_indices_rows:
  assumes "\<not> iw_closed w" "iw_cache_cnt w = length (iw_cache w)"
  shows "\<exists>w'. write_all_indices n w = Inr w' \<and> \<not> iw_closed w' \<and> iw_cache_cnt w' = length (iw_cache w') \<and>
     iw_file w' @ iw_cache w' = iw_file w @ iw_cache w @ map (\<lambda>i. (i, 0)) [0..<n]"
  unfolding write_all_indices_def
proof (rule rfold_upt_inv [where I = "\<lambda>i w'. \<not> iw_closed w' \<and> iw_cache_cnt w' = length (iw_cache w') \<and>
     iw_file w' @ iw_cache w' = iw_file w @ iw_cache w @ map (\<lambda>i. (i, 0)) [0..<i]"])
  fix i and w1 :: IndexWriter
  assume "\<not> iw_closed w1 \<and> iw_cache_cnt w1 = length (iw_cache w1) \<and>
     iw_file w1 @ iw_cache w1 = iw_file w @ iw_cache w @ map (\<lambda>i. (i, 0)) [0..<i]"
  then show "\<exists>s'. rbind (IndexWriter_WriteCache1 i 0 w1) (\<lambda>w'. if iw_write_cnt w' = kIndexWriterCacheSize
        then IndexWriter_Commit w' else Inr w') = Inr s' \<and> \<not> iw_closed s' \<and> iw_cache_cnt s' = length (iw_cache s') \<and>
     iw_file s' @ iw_cache s' = iw_file w @ iw_cache w @ map (\<lambda>i. (i, 0)) [0..<Suc i]"
    by (simp add: IndexWriter_WriteCache1_def IndexWriter_Commit_def flip: append_assoc)
qed (use assms in simp)

lemma Init_digest_equal:
  assumes "CheckSelfConfig role cfg = Inr cfg1" "CheckPeerConfig cfg1 peer_cfg = Inr u" "pp_check_hash_digest cfg1"
    and "duplicate_key_cnt meta = 0" "duplicate_key_cnt peer_meta = 0" "keys_hash meta = keys_hash peer_meta"
  shows "\<exists>p w. AbstractPsiParty_Init role cfg peer_cfg meta peer_meta existing True None = Inr p \<and> py_digest_equal p \<and>
     IndexWriter_Close (py_writer p) = Inr w \<and> iw_file w = map (\<lambda>i. (i, 0)) [0..<unique_key_cnt meta]"
proof -
  obtain w where w: "write_all_indices (unique_key_cnt meta) (IndexWriter_new existing kIndexWriterCacheSize True) = Inr w"
    "\<not> iw_closed w" "iw_cache_cnt w = length (iw_cache w)" "iw_file w @ iw_cache w = map (\<lambda>i. (i, 0)) [0..<unique_key_cnt meta]"
    using write_all_indices_rows [of "IndexWriter_new existing kIndexWriterCacheSize True" "unique_key_cnt meta"]
    by (auto simp: IndexWriter_new_def)
  moreover have "\<exists>w'. IndexWriter_Close w = Inr w' \<and> iw_file w' = iw_file w @ iw_cache w"
    using w(2,3) by (simp add: IndexWriter_Close_def IndexWriter_Commit_def)
  ultimately show ?thesis
    using assms by (auto simp: AbstractPsiParty_Init_def check_digest_def HashListEqualTest_def Let_def)
qed

definition digest_cfg :: "Role \<Rightarrow> PartyConfig" where
  "digest_cfg role = \<lparr> pc_input_type = IO_TYPE_FILE_CSV, pc_input_path = ''in'', pc_output_type = IO_TYPE_FILE_CSV,
     pc_output_path = ''out'', pc_keys = [''id''], pc_keys_unique = True, pc_role = role, pc_join_type = INNER_JOIN,
     pc_left_side = ROLE_RECEIVER, pc_csv_null_rep = [], pc_disable_alignment = False, pp_protocol = PROTOCOL_ECDH,
     pp_curve = 1, pp_broadcast_result = True, pp_kkrt_bucket_size = 0, pp_rr22_bucket_size = 0,
     pp_recovery_enabled = False, pp_recovery_folder = [], pp_check_hash_digest = True, pp_debug_options = [],
     pp_count_path = [] \<rparr>"

text \<open>
  C31. The digest the parties compare does not determine the keys: it is taken over the concatenated
  keys. For every hash function and any two tables of unique keys whose concatenated keys are the same,
  whichever keys they have in common, initialisation of a party with the digest check enabled finds the
  digests equal, declares every row of its table to be in the intersection, and the run skips the protocol.
\<close>

theorem digest_confuses_keys:
  assumes "ArrowCsv_inv pa" "ArrowCsv_remaining pa = ks" "ArrowCsv_inv pb" "ArrowCsv_remaining pb = ks'"
    and "concat ks = concat ks'" "length ks < 2 ^ 32"
    and "CheckSelfConfig role cfg = Inr cfg1" "CheckPeerConfig cfg1 peer_cfg = Inr u" "pp_check_hash_digest cfg1"
  shows "\<exists>ma mb p w.
     KeyInfo_Make_unique sha256 None n pa = Some (Inr ma) \<and> KeyInfo_Make_unique sha256 None n' pb = Some (Inr mb) \<and>
     AbstractPsiParty_Init role cfg peer_cfg ma mb existing True None = Inr p \<and>
     AbstractPsiParty_Run PreProcess Online PostProcess Finalize (Inr p) = Finalize p \<and>
     IndexWriter_Close (py_writer p) = Inr w \<and> iw_file w = map (\<lambda>i. (i, 0)) [0..<length ks]"
proof -
  have meta: "KeyInfo_Make_unique sha256 None n pa = Some (Inr \<lparr> keys_hash = sha256 (concat ks), duplicate_key_cnt = 0,
       unique_key_cnt = length ks, original_cnt = length ks, source_file_size = n \<rparr>)" (is "_ = Some (Inr ?ma)")
    "KeyInfo_Make_unique sha256 None n' pb = Some (Inr \<lparr> keys_hash = sha256 (concat ks'), duplicate_key_cnt = 0,
       unique_key_cnt = u32 (length ks'), original_cnt = u32 (length ks'), source_file_size = n' \<rparr>)" (is "_ = Some (Inr ?mb)")
    using KeyInfo_Make_unique_spec [OF assms(1,2), of None n sha256] KeyInfo_Make_unique_spec [OF assms(3,4), of None n' sha256]
      u32_id [OF assms(6)] by (simp_all add: reusable_meta_def)
  from Init_digest_equal [OF assms(7-9), of ?ma ?mb existing] assms(5) obtain p w where
    "AbstractPsiParty_Init role cfg peer_cfg ?ma ?mb existing True None = Inr p"
    "py_digest_equal p" "IndexWriter_Close (py_writer p) = Inr w" "iw_file w = map (\<lambda>i. (i, 0)) [0..<length ks]" by auto
  with meta show ?thesis by (simp add: AbstractPsiParty_Run_def)
qed

theorem digest_confuses_keys_witness:
  "\<exists>pa pb ma mb p w.
     ArrowCsv_Init (Some [Inr [[''a''], [''bc'']]]) 1 0 2 CHR '','' = Inr pa \<and>
     ArrowCsv_Init (Some [Inr [[''ab''], [''c'']]]) 1 0 2 CHR '','' = Inr pb \<and>
     KeyInfo_Make_unique (\<lambda>_. []) None 4 pa = Some (Inr ma) \<and> KeyInfo_Make_unique (\<lambda>_. []) None 4 pb = Some (Inr mb) \<and>
     AbstractPsiParty_Init ROLE_RECEIVER (digest_cfg ROLE_RECEIVER) (digest_cfg ROLE_SENDER) ma mb None True None = Inr p \<and>
     AbstractPsiParty_Run (\<lambda>_. Inl (Throw [])) (\<lambda>_. Inl (Throw [])) (\<lambda>_. Inl (Throw [])) Inr (Inr p) = Inr p \<and>
     IndexWriter_Close (py_writer p) = Inr w \<and> iw_file w = [(0, 0), (1, 0)]"
proof -
  obtain pa where pa: "ArrowCsv_Init (Some [Inr [[''a''], [''bc'']]]) 1 0 2 CHR '','' = Inr pa" "ArrowCsv_inv pa"
    "ArrowCsv_remaining pa = [''a'', ''bc'']"
    using ArrowCsv_Init_spec [of 2 1 "[Inr [[''a''], [''bc'']]]" 0 "CHR '',''"] by auto
  obtain pb where pb: "ArrowCsv_Init (Some [Inr [[''ab''], [''c'']]]) 1 0 2 CHR '','' = Inr pb" "ArrowCsv_inv pb"
    "ArrowCsv_remaining pb = [''ab'', ''c'']"
    using ArrowCsv_Init_spec [of 2 1 "[Inr [[''ab''], [''c'']]]" 0 "CHR '',''"] by auto
  have cfg: "CheckSelfConfig ROLE_RECEIVER (digest_cfg ROLE_RECEIVER) = Inr (digest_cfg ROLE_RECEIVER)"
    "CheckPeerConfig (digest_cfg ROLE_RECEIVER) (digest_cfg ROLE_SENDER) = Inr ()" "pp_check_hash_digest (digest_cfg ROLE_RECEIVER)"
    by (simp_all add: CheckSelfConfig_def CheckPeerConfig_def shared_config_def digest_cfg_def CURVE_INVALID_TYPE_def)
  have "concat [''a'', ''bc''] = concat [''ab'', ''c'']" "length [''a'', ''bc''] < 2 ^ 32" by simp_all
  from digest_confuses_keys [OF pa(2,3) pb(2,3) this cfg, of "\<lambda>_. []" 4 4 None "\<lambda>_. Inl (Throw [])" "\<lambda>_. Inl (Throw [])" "\<lambda>_. Inl (Throw [])" Inr] pa(1) pb(1)
  show ?thesis by (simp add: upt_rec)
qed

section \<open>Consistent configurations\<close>

lemma truncate_simps:
  "pc_join_type (PsiConfig.truncate c) = pc_join_type c" "pc_left_side (PsiConfig.truncate c) = pc_left_side c"
  "pc_role (PsiConfig.truncate c) = pc_role c" "pc_csv_null_rep (PsiConfig.truncate c) = pc_csv_null_rep c"
  by (simp_all add: PsiConfig.truncate_def)

lemma JoinProcessor_null_rep:
  assumes "JoinProcessor_new random root cfg = Inr jp"
  shows "jp_csv_null_rep jp = (if pc_csv_null_rep cfg \<noteq> [] then pc_csv_null_rep cfg else kNullRep)"
  using assms unfolding JoinProcessor_new_def enforce_bind Let_def
  by (simp only: rbind_Inr split: if_split_asm) (auto simp only: sum.inject JoinProcessor.simps if_True simp_thms split: if_splits)

text \<open>
  Parties whose configurations pass the mutual check agree on everything the join depends on: the
  check is symmetric, and the join processors built from the two configurations have the same join type,
  the same left side, the same null representation and different roles, whatever the parties chose for
  their own inputs, outputs and alignment.
\<close>

theorem CheckPeerConfig_join:
  assumes "CheckPeerConfig ca cb = Inr u"
    and "JoinProcessor_new pa ra (PsiConfig.truncate ca) = Inr ja" "JoinProcessor_new pb rb (PsiConfig.truncate cb) = Inr jb"
  shows "CheckPeerConfig cb ca = Inr () \<and> jp_type ja = jp_type jb \<and> jp_left_side ja = jp_left_side jb \<and>
     jp_csv_null_rep ja = jp_csv_null_rep jb \<and> jp_role ja \<noteq> jp_role jb"
proof -
  have c: "pc_role ca \<noteq> pc_role cb" "(shared_config ca) \<lparr> pc_role := ROLE_UNSPECIFIED \<rparr> = (shared_config cb) \<lparr> pc_role := ROLE_UNSPECIFIED \<rparr>"
    using assms(1) by (auto simp: CheckPeerConfig_def Let_def shared_config_def split: if_splits)
  have "f ((shared_config ca) \<lparr> pc_role := ROLE_UNSPECIFIED \<rparr>) = f ((shared_config cb) \<lparr> pc_role := ROLE_UNSPECIFIED \<rparr>)"
    for f :: "PartyConfig \<Rightarrow> 'a" using c(2) by simp
  from this [of pc_join_type] this [of pc_left_side] this [of pc_csv_null_rep]
  have "pc_join_type ca = pc_join_type cb" "pc_left_side ca = pc_left_side cb" "pc_csv_null_rep ca = pc_csv_null_rep cb"
    by (simp_all add: shared_config_def)
  moreover have "CheckPeerConfig cb ca = Inr ()"
    using c by (auto simp: CheckPeerConfig_def Let_def shared_config_def)
  ultimately show ?thesis
    using c(1) JoinProcessor_new_facts(1-3) [OF assms(2)] JoinProcessor_new_facts(1-3) [OF assms(3)]
      JoinProcessor_null_rep [OF assms(2)] JoinProcessor_null_rep [OF assms(3)]
    by (simp add: truncate_simps)
qed

theorem CheckPeerConfig_join_witness:
  "\<exists>ja jb. JoinProcessor_new ''a'' ''r'' (PsiConfig.truncate (digest_cfg ROLE_RECEIVER)) = Inr ja \<and>
     JoinProcessor_new ''b'' ''s'' (PsiConfig.truncate (digest_cfg ROLE_SENDER)) = Inr jb \<and> jp_role ja \<noteq> jp_role jb \<and>
     jp_type ja = jp_type jb"
proof -
  have chk: "CheckPeerConfig (digest_cfg ROLE_RECEIVER) (digest_cfg ROLE_SENDER) = Inr ()"
    by (simp add: CheckPeerConfig_def shared_config_def digest_cfg_def)
  obtain ja where a: "JoinProcessor_new ''a'' ''r'' (PsiConfig.truncate (digest_cfg ROLE_RECEIVER)) = Inr ja"
    by (simp add: JoinProcessor_new_def digest_cfg_def PsiConfig.truncate_def join_type_def Let_def)
  obtain jb where b: "JoinProcessor_new ''b'' ''s'' (PsiConfig.truncate (digest_cfg ROLE_SENDER)) = Inr jb"
    by (simp add: JoinProcessor_new_def digest_cfg_def PsiConfig.truncate_def join_type_def Let_def)
  from CheckPeerConfig_join [OF chk a b] a b show ?thesis by blast
qed

lemma peer_except_cnt_exact:
  assumes "m \<le> n" "n < 2 ^ 32"
  shows "peer_except_cnt n m = n - m"
proof -
  have "(of_nat n - of_nat m :: 64 word) = of_nat (n - m)"
    using assms(1) by (simp add: of_nat_diff)
  moreover have "n - m < 2 ^ 32" using assms by linarith
  ultimately show ?thesis
    by (simp add: peer_except_cnt_def unsigned_ucast_eq take_bit_nat_eq_self unat_of_nat)
qed

end
