(* ===== verification/Kkrt_Psi.thy ===== *)
theory Kkrt_Psi
  imports Cuckoo_Index Ecdh_Psi Psi_Party
begin

text \<open>
  \<open>psi/algorithm/kkrt/kkrt_psi.cc\<close>: the KKRT protocol. The receiver places its items in the bins of a
  cuckoo table and obtains, per bin, an oblivious pseudo-random code of the item; the sender computes
  the codes of each of its items in the (up to three) bins the item could be in, and the receiver looks
  them up. The steps of \<open>receiver.cc\<close> and \<open>sender.cc\<close> run it bucket by bucket.

  The oblivious transfer extension is third-party code: its operations are the record \<open>KkrtOt\<close>
  and \<open>kkrt_ot_ok\<close> states what is relied on. The sender encodes items while a second thread still
  receives corrections; how far that thread is each time the sender looks is the list \<open>obs\<close>.
\<close>

section \<open>Options and the transfer extension\<close>

record KkrtPsiOptions =
  ko_ot_batch_size :: nat
  ko_psi_batch_size :: nat
  ko_cuckoo_hash_num :: nat
  ko_stash_size :: nat
  ko_stat_sec_param :: nat

definition kPsiDataBatchSize :: nat where "kPsiDataBatchSize = 1024"

text \<open>\<open>65535 / 4 / 16 * 0.8\<close>, truncated: the divisions are of integers.\<close>

definition kKkrtOtBatchSize :: nat where "kKkrtOtBatchSize = (65535 div 4 div 16) * 8 div 10"

definition GetDefaultKkrtPsiOptions :: KkrtPsiOptions where
  "GetDefaultKkrtPsiOptions = \<lparr> ko_ot_batch_size = kKkrtOtBatchSize, ko_psi_batch_size = kPsiDataBatchSize,
     ko_cuckoo_hash_num = 3, ko_stash_size = 0, ko_stat_sec_param = 40 \<rparr>"

record PsiItemHash =
  pi_data :: "128 word"
  pi_cnt :: nat

text \<open>
  \<open>KkrtOtExtSender\<close> and \<open>KkrtOtExtReceiver\<close>: \<open>'s\<close> and \<open>'r\<close> are their states and \<open>'b\<close> a correction message.
  The receiver encodes the bins in order; the last argument of an encoding is its size in bytes.
\<close>

record ('s, 'r, 'b) KkrtOt =
  kot_SenderInit :: "nat \<Rightarrow> 's"
  kot_SetCorrection :: "'b \<Rightarrow> nat \<Rightarrow> 's \<Rightarrow> 's"
  kot_SenderEncode :: "'s \<Rightarrow> nat \<Rightarrow> 128 word \<Rightarrow> nat \<Rightarrow> string"
  kot_ReceiverInit :: "nat \<Rightarrow> 'r"
  kot_ReceiverEncode :: "nat \<Rightarrow> 128 word \<Rightarrow> nat \<Rightarrow> 'r \<Rightarrow> string \<times> 'r"
  kot_ZeroEncode :: "nat \<Rightarrow> 'r \<Rightarrow> 'r"
  kot_ShiftCorrection :: "nat \<Rightarrow> 'r \<Rightarrow> 'b \<times> 'r"

text \<open>\<open>log2l\<close> is the whole part of the logarithm.\<close>

definition KkrtEncodeSize :: "(nat \<Rightarrow> nat) \<Rightarrow> nat \<Rightarrow> nat \<Rightarrow> nat \<Rightarrow> nat" where
  "KkrtEncodeSize log2l stat_sec_param self_size peer_size =
     min ((stat_sec_param + log2l (self_size * peer_size) + 7) div 8) 16"

definition check_options :: "KkrtPsiOptions \<Rightarrow> nat \<Rightarrow> unit result" where
  "check_options o' ot_size =
     rbind (enforce (ko_cuckoo_hash_num o' = 3 \<and> ko_stash_size o' = 0) ''cuckoo HashNum = 3 , stash size = 0'') (\<lambda>_.
     enforce (ot_size = 512) ''block size 512'')"

section \<open>The receiver's codes\<close>

text \<open>
  One bin: its item is encoded, and the code is entered in the map of the smallest hash function
  that leads to the bin. \<open>emplace\<close> does not overwrite.
\<close>

type_synonym oprf_map = "string \<Rightarrow> nat option"

definition encode_bin ::
  "('s, 'r, 'b) KkrtOt \<Rightarrow> CuckooIndex \<Rightarrow> 128 word list \<Rightarrow> nat \<Rightarrow> nat \<Rightarrow> 'r \<times> oprf_map list
     \<Rightarrow> ('r \<times> oprf_map list) result" where
  "encode_bin ot cuckoo_index items_hash encode_size current_idx = (\<lambda>(r, oprf_encode_map).
     rbind (at (ci_bins cuckoo_index) current_idx) (\<lambda>bin.
     if Bin_IsEmpty bin then Inr (kot_ZeroEncode ot current_idx r, oprf_encode_map)
     else let input_idx = unat (Bin_InputIdx bin) in
          rbind (at items_hash input_idx) (\<lambda>input_item.
          let (code, r') = kot_ReceiverEncode ot current_idx input_item encode_size r in
          rbind (CuckooIndex_MinCollidingHashIdx cuckoo_index (of_nat current_idx)) (\<lambda>min_hash_idx.
          rbind (at oprf_encode_map (unat min_hash_idx)) (\<lambda>m.
          Inr (r', oprf_encode_map[unat min_hash_idx := (if m code = None then m(code \<mapsto> input_idx) else m)]))))))"

definition encode_batch ::
  "('s, 'r, 'b) KkrtOt \<Rightarrow> CuckooIndex \<Rightarrow> 128 word list \<Rightarrow> nat \<Rightarrow> nat \<Rightarrow> nat \<Rightarrow> 'r \<times> oprf_map list \<times> 'b list
     \<Rightarrow> ('r \<times> oprf_map list \<times> 'b list) result" where
  "encode_batch ot cuckoo_index items_hash encode_size ot_batch_size batch_idx = (\<lambda>(r, maps, msgs).
     let kkrt_ot_num = length (ci_bins cuckoo_index);
         num_this_batch = min (kkrt_ot_num - batch_idx * ot_batch_size) ot_batch_size;
         batch_start = batch_idx * ot_batch_size
     in rbind (rfold (\<lambda>i. encode_bin ot cuckoo_index items_hash encode_size (batch_start + i)) [0..<num_this_batch] (r, maps))
          (\<lambda>(r', maps'). let (send_buf, r'') = kot_ShiftCorrection ot num_this_batch r'
                         in Inr (r'', maps', msgs @ [send_buf])))"

definition encode_bins ::
  "('s, 'r, 'b) KkrtOt \<Rightarrow> CuckooIndex \<Rightarrow> 128 word list \<Rightarrow> nat \<Rightarrow> nat \<Rightarrow> (oprf_map list \<times> 'b list) result" where
  "encode_bins ot cuckoo_index items_hash encode_size ot_batch_size =
     (if ot_batch_size = 0 then Inl (Undefined ''division by zero'')
      else let kkrt_ot_num = length (ci_bins cuckoo_index) in
        rbind (rfold (encode_batch ot cuckoo_index items_hash encode_size ot_batch_size)
            [0..<(kkrt_ot_num + ot_batch_size - 1) div ot_batch_size]
            (kot_ReceiverInit ot kkrt_ot_num, replicate 3 (\<lambda>_. None), []))
          (\<lambda>(r, maps, msgs). Inr (maps, msgs)))"

section \<open>Matching the sender's codes\<close>

definition match_batch ::
  "nat \<Rightarrow> nat \<Rightarrow> oprf_map list \<Rightarrow> PsiDataBatch \<Rightarrow> (nat \<times> nat) list \<Rightarrow> (nat \<times> nat) list result" where
  "match_batch hash_num encode_size maps batch ret =
     rbind (enforce (length (pb_flatten_bytes batch) = pb_item_num batch * hash_num * encode_size) ''flatten_bytes'') (\<lambda>_.
     rfold (\<lambda>i. rfold (\<lambda>j ret.
         let encode_sub_str = take encode_size (drop ((i * hash_num + j) * encode_size) (pb_flatten_bytes batch))
         in rbind (at maps j) (\<lambda>m. Inr (case m encode_sub_str of
              None \<Rightarrow> ret
            | Some index \<Rightarrow> ret @ [(index, case pb_duplicate_item_cnt batch i of None \<Rightarrow> 0 | Some c \<Rightarrow> c)])))
       [0..<hash_num]) [0..<pb_item_num batch] ret)"

fun match_batches ::
  "nat \<Rightarrow> nat \<Rightarrow> oprf_map list \<Rightarrow> PsiDataBatch list \<Rightarrow> (nat \<times> nat) list \<Rightarrow> (nat \<times> nat) list result" where
  "match_batches hash_num encode_size maps [] ret = Inl (Throw ''recv'')"
| "match_batches hash_num encode_size maps (batch # msgs) ret =
     rbind (match_batch hash_num encode_size maps batch ret) (\<lambda>ret'.
     if pb_is_last_batch batch then Inr ret' else match_batches hash_num encode_size maps msgs ret')"

text \<open>
  The receiver, with the sender behind the network as a function \<open>peer\<close> from the corrections sent
  to the batches received. \<open>None\<close> is a sender that never gets on.
\<close>

definition KkrtPsiRecvIndices ::
  "(64 word \<Rightarrow> 64 word \<Rightarrow> 64 word \<Rightarrow> 64 word) \<Rightarrow> (nat \<Rightarrow> nat) \<Rightarrow> ('s, 'r, 'b) KkrtOt \<Rightarrow> KkrtPsiOptions \<Rightarrow> nat
     \<Rightarrow> 128 word list \<Rightarrow> nat \<Rightarrow> ('b list \<Rightarrow> PsiDataBatch list result option) \<Rightarrow> (nat \<times> nat) list result option" where
  "KkrtPsiRecvIndices expansion log2l ot o' ot_size items_hash peer_size peer =
     (case rbind (check_options o' ot_size) (\<lambda>_.
           let self_size = length items_hash in
           rbind (enforce (0 < peer_size \<and> items_hash \<noteq> []) ''item size need not zero'') (\<lambda>_.
           rbind (CuckooIndex_SelectParams expansion (of_nat self_size) (of_nat (ko_stash_size o')) (of_nat (ko_cuckoo_hash_num o')) 40) (\<lambda>option.
           rbind (CuckooIndex_new option) (\<lambda>table.
           rbind (CuckooIndex_Insert table items_hash) (\<lambda>cuckoo_index.
           rbind (enforce (ci_stash cuckoo_index = []) ''stash size not 0'') (\<lambda>_.
           let encode_size = KkrtEncodeSize log2l (ko_stat_sec_param o') self_size peer_size
           in rbind (encode_bins ot cuckoo_index items_hash encode_size (ko_ot_batch_size o')) (\<lambda>(maps, msgs).
              Inr (encode_size, maps, msgs)))))))) of
        Inl e \<Rightarrow> Some (Inl e)
      | Inr (encode_size, maps, msgs) \<Rightarrow>
          map_option (\<lambda>res. rbind res (\<lambda>batches. match_batches (ko_cuckoo_hash_num o') encode_size maps batches [])) (peer msgs))"

text \<open>\<open>KkrtPsiRecv\<close>: the positions and the extra duplicate counts, as two vectors.\<close>

definition KkrtPsiRecv :: "(nat \<times> nat) list \<Rightarrow> nat list \<times> nat list" where
  "KkrtPsiRecv result_indices = (map fst result_indices, map (\<lambda>(_, peer_item_cnt). if 1 < peer_item_cnt then peer_item_cnt - 1 else 0) result_indices)"

section \<open>The sender\<close>

text \<open>
  The receiving thread: the value of \<open>recv_idx\<close> and the state of the extension after each
  message, until all corrections are there.
\<close>

fun correction_steps ::
  "('s, 'r, 'b) KkrtOt \<Rightarrow> nat \<Rightarrow> nat \<Rightarrow> nat \<Rightarrow> 's \<Rightarrow> 'b list \<Rightarrow> (nat \<times> 's) list result" where
  "correction_steps ot batch_size num_bins recv_idx s [] =
     (if recv_idx < num_bins then Inl (Throw ''recv'') else Inr [])"
| "correction_steps ot batch_size num_bins recv_idx s (buf # bufs) =
     (if recv_idx < num_bins
      then let current_step_size = min batch_size (num_bins - recv_idx);
               s' = kot_SetCorrection ot buf current_step_size s
           in rbind (correction_steps ot batch_size num_bins (recv_idx + current_step_size) s' bufs)
                (\<lambda>steps. Inr ((recv_idx + current_step_size, s') # steps))
      else Inr [])"

text \<open>\<open>input_permute_inv\<close>.\<close>

definition inverse_permutation :: "nat list \<Rightarrow> nat list result" where
  "inverse_permutation input_permute =
     rfold (\<lambda>i inv. rbind (at input_permute i) (\<lambda>p. set_at inv p i))
       [0..<length input_permute] (replicate (length input_permute) 0)"

text \<open>
  The bins of an item. A bin that repeats an earlier one becomes \<open>-1\<close>, and its place in the buffer is
  filled with random bytes, \<open>fill\<close>.
\<close>

definition item_bins :: "64 word \<Rightarrow> 128 word \<Rightarrow> (64 word list \<times> bool \<times> bool) result" where
  "item_bins num_bins code =
     rbind (HashRoom_GetHash code 0) (\<lambda>h0. rbind (HashRoom_GetHash code 1) (\<lambda>h1. rbind (HashRoom_GetHash code 2) (\<lambda>h2.
     rbind (umod h0 num_bins) (\<lambda>bin_idx0. rbind (umod h1 num_bins) (\<lambda>bin_idx1. rbind (umod h2 num_bins) (\<lambda>bin_idx2.
     let c01 = (bin_idx0 = bin_idx1); c02 = (bin_idx0 = bin_idx2 \<or> bin_idx1 = bin_idx2)
     in Inr ([bin_idx0, bin_idx1 OR (if c01 then - 1 else 0), bin_idx2 OR (if c02 then - 1 else 0)], c01, c02)))))))"

definition prepare_item ::
  "nat \<Rightarrow> (nat \<Rightarrow> string) \<Rightarrow> 64 word \<Rightarrow> PsiItemHash list \<Rightarrow> nat list \<Rightarrow> nat \<Rightarrow> 64 word list list \<times> string list
     \<Rightarrow> (64 word list list \<times> string list) result" where
  "prepare_item hash_num fill num_bins items input_permute_inv i = (\<lambda>(bin_indices, encode_buf).
     rbind (at items i) (\<lambda>item.
     rbind (item_bins num_bins (pi_data item)) (\<lambda>(bins, c01, c02).
     rbind (at input_permute_inv i) (\<lambda>p.
     rbind (set_at bin_indices i bins) (\<lambda>bin_indices'.
     rbind (if c01 then set_at encode_buf (p * hash_num + 1) (fill (p * hash_num + 1)) else Inr encode_buf) (\<lambda>buf1.
     rbind (if c02 then set_at buf1 (p * hash_num + 2) (fill (p * hash_num + 2)) else Inr buf1) (\<lambda>buf2.
     Inr (bin_indices', buf2))))))))"

section \<open>Encoding while corrections arrive\<close>

text \<open>One hash function of the item at position \<open>t\<close> of the permutation.\<close>

definition encode_hash ::
  "('s, 'r, 'b) KkrtOt \<Rightarrow> nat \<times> 's \<Rightarrow> nat \<Rightarrow> nat \<Rightarrow> PsiItemHash list \<Rightarrow> nat \<Rightarrow> nat \<Rightarrow> nat
     \<Rightarrow> 64 word list list \<times> string list \<Rightarrow> (64 word list list \<times> string list) result" where
  "encode_hash ot step hash_num encode_size items t input_idx h = (\<lambda>(bin_indices, encode_buf).
     let (r, s) = step in
     rbind (at bin_indices input_idx) (\<lambda>bins. rbind (at bins h) (\<lambda>b_idx. rbind (at items input_idx) (\<lambda>item.
     if unat b_idx < r
     then rbind (set_at encode_buf (t * hash_num + h) (kot_SenderEncode ot s (unat b_idx) (pi_data item) encode_size)) (\<lambda>buf'.
          Inr (bin_indices[input_idx := bins[h := - 1]], buf'))
     else Inr (bin_indices, encode_buf)))))"

definition encode_item ::
  "('s, 'r, 'b) KkrtOt \<Rightarrow> nat \<times> 's \<Rightarrow> nat \<Rightarrow> nat \<Rightarrow> PsiItemHash list \<Rightarrow> nat list
     \<Rightarrow> nat \<times> 64 word list list \<times> string list \<Rightarrow> (nat \<times> 64 word list list \<times> string list) result" where
  "encode_item ot step hash_num encode_size items input_permute = (\<lambda>(t, bin_indices, encode_buf).
     rbind (at input_permute t) (\<lambda>input_idx.
     rbind (rfold (encode_hash ot step hash_num encode_size items t input_idx) [0..<hash_num] (bin_indices, encode_buf))
       (\<lambda>(bin_indices', encode_buf'). Inr ((t + 1) mod length items, bin_indices', encode_buf'))))"

text \<open>
  The loop that goes round the items until all corrections have arrived; \<open>steps\<close> are the states of the
  receiving thread and \<open>obs\<close> says which of them each load of \<open>recv_idx\<close> finds. When \<open>obs\<close> ends before the
  last state is seen, the loop is still spinning: \<open>None\<close>.
\<close>

fun encode_loop ::
  "('s, 'r, 'b) KkrtOt \<Rightarrow> nat \<Rightarrow> nat \<Rightarrow> nat \<Rightarrow> nat \<Rightarrow> PsiItemHash list \<Rightarrow> nat list \<Rightarrow> (nat \<times> 's) list \<Rightarrow> nat \<times> 's \<Rightarrow> nat list
     \<Rightarrow> nat \<times> 64 word list list \<times> string list \<Rightarrow> (64 word list list \<times> string list) result option" where
  "encode_loop ot batch_size num_bins hash_num encode_size items perm steps step [] st =
     (if fst step = num_bins then Some (Inr (snd st)) else None)"
| "encode_loop ot batch_size num_bins hash_num encode_size items perm steps step (k # obs) st =
     (if fst step = num_bins then Some (Inr (snd st))
      else case rfold (\<lambda>_. encode_item ot step hash_num encode_size items perm) [0..<batch_size] st of
             Inl e \<Rightarrow> Some (Inl e)
           | Inr st' \<Rightarrow> encode_loop ot batch_size num_bins hash_num encode_size items perm steps (steps ! k) obs st')"

section \<open>Sending the codes\<close>

text \<open>The items whose bins are still open are encoded; \<open>s\<close> has all corrections.\<close>

definition encode_rest ::
  "('s, 'r, 'b) KkrtOt \<Rightarrow> 's \<Rightarrow> nat \<Rightarrow> nat \<Rightarrow> PsiItemHash list \<Rightarrow> nat list \<Rightarrow> 64 word list list \<Rightarrow> nat \<Rightarrow> string list
     \<Rightarrow> string list result" where
  "encode_rest ot s hash_num encode_size items perm bin_indices p encode_buf =
     rbind (at perm p) (\<lambda>input_idx. rbind (at bin_indices input_idx) (\<lambda>bins. rbind (at items input_idx) (\<lambda>item.
     rfold (\<lambda>k buf. rbind (at bins k) (\<lambda>b_idx.
         if b_idx \<noteq> - 1 then set_at buf (p * hash_num + k) (kot_SenderEncode ot s (unat b_idx) (pi_data item) encode_size)
         else Inr buf)) [0..<hash_num] encode_buf)))"

partial_function (option) send_batches ::
  "('s, 'r, 'b) KkrtOt \<Rightarrow> 's \<Rightarrow> nat \<Rightarrow> nat \<Rightarrow> nat \<Rightarrow> PsiItemHash list \<Rightarrow> nat list \<Rightarrow> 64 word list list \<Rightarrow> nat \<Rightarrow> string list
     \<Rightarrow> PsiDataBatch list result option" where
  [code]: "send_batches ot s psi_batch_size hash_num encode_size items perm bin_indices i encode_buf =
     (if i < length items
      then let num = min psi_batch_size (length items - i) in
        (case rfold (encode_rest ot s hash_num encode_size items perm bin_indices) [i..<i + num] encode_buf of
           Inl e \<Rightarrow> Some (Inl e)
         | Inr buf \<Rightarrow>
             let batch = \<lparr> pb_item_num = num, pb_flatten_bytes = concat (take (num * hash_num) (drop (i * hash_num) buf)),
                           pb_batch_index = 0, pb_is_last_batch = (i + num = length items), pb_type = [],
                           pb_duplicate_item_cnt = (\<lambda>j. if j < num \<and> 1 < pi_cnt (items ! (perm ! (i + j)))
                              then Some (pi_cnt (items ! (perm ! (i + j)))) else None) \<rparr>
             in Option.bind (send_batches ot s psi_batch_size hash_num encode_size items perm bin_indices (i + num) buf)
                  (\<lambda>r. Some (rbind r (\<lambda>msgs. Inr (batch # msgs)))))
      else Some (Inr []))"

text \<open>
  The sender. \<open>perm\<close> is the shuffled \<open>input_permute\<close>, \<open>buf0\<close> the content of the fresh buffer and \<open>fill\<close> the
  bytes of the generator. When the receiving thread ends before all corrections are there, the loop that waits
  for them spins for ever, since the exception of the thread is only seen after the loop: \<open>None\<close>.
\<close>

definition KkrtPsiSend ::
  "(64 word \<Rightarrow> 64 word \<Rightarrow> 64 word \<Rightarrow> 64 word) \<Rightarrow> (nat \<Rightarrow> nat) \<Rightarrow> ('s, 'r, 'b) KkrtOt \<Rightarrow> KkrtPsiOptions \<Rightarrow> nat
     \<Rightarrow> PsiItemHash list \<Rightarrow> nat \<Rightarrow> nat list \<Rightarrow> (nat \<Rightarrow> string) \<Rightarrow> (nat \<Rightarrow> string) \<Rightarrow> nat list \<Rightarrow> 'b list
     \<Rightarrow> PsiDataBatch list result option" where
  "KkrtPsiSend expansion log2l ot o' ot_size items peer_size perm fill buf0 obs bufs =
     (case rbind (check_options o' ot_size) (\<lambda>_.
           let self_size = length items; hash_num = ko_cuckoo_hash_num o' in
           rbind (enforce (0 < peer_size \<and> 0 < self_size) ''item size need not zero'') (\<lambda>_.
           let encode_size = KkrtEncodeSize log2l (ko_stat_sec_param o') self_size peer_size in
           rbind (CuckooIndex_SelectParams expansion (of_nat peer_size) (of_nat (ko_stash_size o')) (of_nat hash_num) 40) (\<lambda>option.
           let num_bins = Options_NumBins option; s0 = kot_SenderInit ot (unat num_bins) in
           rbind (inverse_permutation perm) (\<lambda>inv.
           rbind (rfold (prepare_item hash_num fill num_bins items inv) [0..<self_size]
                   (replicate self_size [], map buf0 [0..<self_size * hash_num])) (\<lambda>st.
           Inr (hash_num, encode_size, unat num_bins, s0, correction_steps ot kKkrtOtBatchSize (unat num_bins) 0 s0 bufs, st)))))) of
        Inl e \<Rightarrow> Some (Inl e)
      | Inr (hash_num, encode_size, num_bins, s0, Inl e, bin_indices, encode_buf) \<Rightarrow> None
      | Inr (hash_num, encode_size, num_bins, s0, Inr arrived, bin_indices, encode_buf) \<Rightarrow>
          let steps = (0, s0) # arrived in
          (case encode_loop ot kKkrtOtBatchSize num_bins hash_num encode_size items perm steps (hd steps) obs (0, bin_indices, encode_buf) of
             None \<Rightarrow> None
           | Some (Inl e) \<Rightarrow> Some (Inl e)
           | Some (Inr (bin_indices', encode_buf')) \<Rightarrow>
               send_batches ot (snd (last steps)) (ko_psi_batch_size o') hash_num encode_size items perm bin_indices' 0 encode_buf'))"

text \<open>Both parties on the items of one bucket.\<close>

definition KkrtPsi_pair ::
  "(64 word \<Rightarrow> 64 word \<Rightarrow> 64 word \<Rightarrow> 64 word) \<Rightarrow> (nat \<Rightarrow> nat) \<Rightarrow> ('s, 'r, 'b) KkrtOt \<Rightarrow> KkrtPsiOptions \<Rightarrow> nat \<Rightarrow> nat list
     \<Rightarrow> (nat \<Rightarrow> string) \<Rightarrow> (nat \<Rightarrow> string) \<Rightarrow> nat list \<Rightarrow> 128 word list \<Rightarrow> PsiItemHash list \<Rightarrow> (nat list \<times> nat list) result option" where
  "KkrtPsi_pair expansion log2l ot o' ot_size perm fill buf0 obs items_hash items =
     map_option (\<lambda>res. rbind res (\<lambda>ret. Inr (KkrtPsiRecv ret)))
       (KkrtPsiRecvIndices expansion log2l ot o' ot_size items_hash (length items)
          (KkrtPsiSend expansion log2l ot o' ot_size items (length items_hash) perm fill buf0 obs))"

section \<open>Bins of a table without stash\<close>

text \<open>The bin hash function \<open>h\<close> selects, and whether an earlier one selects it too.\<close>

definition slot_of :: "64 word \<Rightarrow> 128 word \<Rightarrow> nat \<Rightarrow> nat" where
  "slot_of num_bins code h = unat (ucast (drop_bit (8 * (h * kBlockSize)) code) mod num_bins)"

definition repeated :: "64 word \<Rightarrow> 128 word \<Rightarrow> nat \<Rightarrow> bool" where
  "repeated num_bins code h \<longleftrightarrow> (\<exists>h' < h. slot_of num_bins code h' = slot_of num_bins code h)"

definition occupied :: "CuckooIndex \<Rightarrow> nat \<Rightarrow> nat \<Rightarrow> bool" where
  "occupied t b i \<longleftrightarrow> b < length (ci_bins t) \<and> \<not> Bin_IsEmpty (ci_bins t ! b) \<and> unat (Bin_InputIdx (ci_bins t ! b)) = i"

definition bin_input :: "CuckooIndex \<Rightarrow> nat \<Rightarrow> 128 word option" where
  "bin_input t b = (if Bin_IsEmpty (ci_bins t ! b) then None
     else Some (ci_hashes t ! unat (Bin_InputIdx (ci_bins t ! b))))"

text \<open>What a successful insertion with three hash functions and no stash gives.\<close>

definition stashless :: "64 word \<Rightarrow> CuckooIndex \<Rightarrow> bool" where
  "stashless num_bins t \<longleftrightarrow> CuckooIndex_wf t \<and> ci_stash t = [] \<and> num_hash (ci_options t) = 3 \<and>
     Options_NumBins (ci_options t) = num_bins"

lemma slot_of_less: "num_bins \<noteq> 0 \<Longrightarrow> slot_of num_bins code h < unat num_bins"
  by (simp add: slot_of_def unat_mod_less)

lemma distinct_map_filter_nth:
  assumes "distinct (map f (filter P xs))" "i < length xs" "j < length xs" "P (xs ! i)" "P (xs ! j)" "f (xs ! i) = f (xs ! j)"
  shows "i = j"
  using assms
proof (induction xs arbitrary: i j)
  case (Cons x xs)
  have ne: "f (xs ! k) \<noteq> f x" if "P x" "k < length xs" "P (xs ! k)" for k
  proof -
    have "f (xs ! k) \<in> f ` set (filter P xs)" using that by (intro imageI) simp
    then show ?thesis using Cons.prems(1) that(1) by (metis distinct.simps(2) filter.simps(2) list.set_map list.simps(9))
  qed
  from ne [symmetric] ne Cons show ?case
    by (cases i; cases j) (auto split: if_splits)
qed simp

lemma stashless_bins:
  assumes "stashless num_bins t"
  shows "length (ci_bins t) = unat num_bins" "num_bins \<noteq> 0"
  using assms by (auto simp: stashless_def CuckooIndex_wf_def bins_ok_def Options_ok_def)

lemma occupied_item:
  assumes "stashless num_bins t" "occupied t b i"
  shows "i < length (ci_hashes t)" "\<exists>h < 3. slot_of num_bins (ci_hashes t ! i) h = b" "bin_input t b = Some (ci_hashes t ! i)"
proof -
  let ?b = "ci_bins t ! b"
  have ok: "Bin_ok (ci_options t) (length (ci_hashes t)) ?b" "Bin_slot (ci_options t) (ci_hashes t) ?b = b" "num_hash (ci_options t) = 3"
    "Options_NumBins (ci_options t) = num_bins"
    using assms by (auto simp: stashless_def occupied_def CuckooIndex_wf_def bins_ok_def)
  then show "i < length (ci_hashes t)" "\<exists>h < 3. slot_of num_bins (ci_hashes t ! i) h = b" "bin_input t b = Some (ci_hashes t ! i)"
    using assms(2) by (auto simp: occupied_def Bin_ok_def Bin_slot_def slot_of_def bin_input_def intro!: exI [of _ "unat (Bin_HashIdx ?b)"])
qed

lemma occupied_unique:
  assumes "stashless num_bins t" "i < length (ci_hashes t)"
  shows "\<exists>!b. occupied t b i"
proof -
  have wf: "CuckooIndex_wf t" "ci_stash t = []" using assms(1) by (simp_all add: stashless_def)
  have i: "unat (of_nat i :: 64 word) = i" using assms(2) CuckooIndex_wf_occupants(3) [OF wf(1)] by simp
  obtain b where "occupied t b i" using CuckooIndex_lookup [OF wf(1) assms(2)] wf(2) i by (force simp: occupied_def)
  moreover have "b' = b" if "occupied t b' i" for b'
    using distinct_map_filter_nth [of Bin_InputIdx "\<lambda>b. \<not> Bin_IsEmpty b" "ci_bins t" b' b]
      CuckooIndex_wf_occupants(1) [OF wf(1)] \<open>occupied t b i\<close> that by (simp add: occupied_def word_unat_eq_iff)
  ultimately show ?thesis by blast
qed

lemma MinColliding_occupied:
  assumes "stashless num_bins t" "occupied t b i"
  defines "k \<equiv> LEAST h. slot_of num_bins (ci_hashes t ! i) h = b"
  shows "CuckooIndex_MinCollidingHashIdx t (of_nat b) = Inr (of_nat k)" "k < 3" "\<not> repeated num_bins (ci_hashes t ! i) k"
    "slot_of num_bins (ci_hashes t ! i) k = b"
proof -
  let ?x = "ci_hashes t ! i"
  obtain h where h: "h < 3" "slot_of num_bins ?x h = b" using occupied_item(2) [OF assms(1,2)] by blast
  have k: "slot_of num_bins ?x k = b" "k \<le> h" "\<And>j. j < k \<Longrightarrow> slot_of num_bins ?x j \<noteq> b"
    unfolding k_def using h(2) by (auto intro: LeastI Least_le dest: not_less_Least)
  then show "k < 3" "\<not> repeated num_bins ?x k" "slot_of num_bins ?x k = b"
    using h(1) by (auto simp: repeated_def)
  have b: "b < unat num_bins" "unat (of_nat b :: 64 word) = b" and nb: "num_bins \<noteq> 0"
    using assms(2) stashless_bins [OF assms(1)] unsigned_less [of num_bins, where 'a = nat] by (auto simp: occupied_def)
  have opt: "num_hash (ci_options t) = 3" "Options_NumBins (ci_options t) = num_bins" using assms(1) by (simp_all add: stashless_def)
  have "min_colliding (ci_options t) ?x (of_nat b) [0..<3] = Inr (of_nat k)"
  proof (rule min_colliding_least)
    show "k < 3" using k(2) h(1) by simp
    show "ucast (drop_bit (8 * (k * kBlockSize)) ?x) mod Options_NumBins (ci_options t) = of_nat b"
      using k(1) b(2) by (simp add: slot_of_def opt word_unat_eq_iff)
    show "ucast (drop_bit (8 * (j * kBlockSize)) ?x) mod Options_NumBins (ci_options t) \<noteq> of_nat b" if "j < k" for j
      using k(3) [OF that] b(2) by (simp add: slot_of_def opt word_unat_eq_iff)
  qed (simp_all add: opt nb)
  then show "CuckooIndex_MinCollidingHashIdx t (of_nat b) = Inr (of_nat k)"
    using assms(2) b occupied_item(1) [OF assms(1,2)] by (simp add: CuckooIndex_MinCollidingHashIdx_def occupied_def opt)
qed

section \<open>What is relied on of the transfer extension\<close>

text \<open>
  \<open>rin\<close> and \<open>rsh\<close> read off the receiver's state the inputs encoded so far (\<open>None\<close> for an empty bin) and
  how many of them have been sent; \<open>bin\<close> and \<open>sin\<close> are the inputs a correction message and the sender's
  state stand for. \<open>F b x y n\<close> is the sender's code of \<open>y\<close> in bin \<open>b\<close> where the receiver's input is \<open>x\<close>; for
  the receiver's own input it is the code which the receiver computes.
\<close>

definition ot_view ::
  "('s, 'r, 'b) KkrtOt \<Rightarrow> ('r \<Rightarrow> 128 word option list) \<Rightarrow> ('r \<Rightarrow> nat) \<Rightarrow> ('b \<Rightarrow> 128 word option list)
     \<Rightarrow> ('s \<Rightarrow> 128 word option list) \<Rightarrow> (nat \<Rightarrow> 128 word option \<Rightarrow> 128 word \<Rightarrow> nat \<Rightarrow> string) \<Rightarrow> bool" where
  "ot_view ot rin rsh bin sin F \<longleftrightarrow>
     (\<forall>n. rin (kot_ReceiverInit ot n) = [] \<and> rsh (kot_ReceiverInit ot n) = 0 \<and> sin (kot_SenderInit ot n) = []) \<and>
     (\<forall>r. rin (kot_ZeroEncode ot (length (rin r)) r) = rin r @ [None] \<and> rsh (kot_ZeroEncode ot (length (rin r)) r) = rsh r) \<and>
     (\<forall>r x n. \<exists>r'. kot_ReceiverEncode ot (length (rin r)) x n r = (F (length (rin r)) (Some x) x n, r') \<and>
        rin r' = rin r @ [Some x] \<and> rsh r' = rsh r) \<and>
     (\<forall>r k. rsh r + k \<le> length (rin r) \<longrightarrow> (\<exists>buf r'. kot_ShiftCorrection ot k r = (buf, r') \<and>
        bin buf = take k (drop (rsh r) (rin r)) \<and> rin r' = rin r \<and> rsh r' = rsh r + k)) \<and>
     (\<forall>buf s. sin (kot_SetCorrection ot buf (length (bin buf)) s) = sin s @ bin buf) \<and>
     (\<forall>s b y n. b < length (sin s) \<longrightarrow> kot_SenderEncode ot s b y n = F b (sin s ! b) y n) \<and>
     (\<forall>b x y n. length (F b x y n) = n)"

lemma ot_viewD:
  assumes "ot_view ot rin rsh bin sin F"
  shows "rin (kot_ReceiverInit ot n) = []" "rsh (kot_ReceiverInit ot n) = 0" "sin (kot_SenderInit ot n) = []"
    and "b = length (rin r) \<Longrightarrow> rin (kot_ZeroEncode ot b r) = rin r @ [None] \<and> rsh (kot_ZeroEncode ot b r) = rsh r"
    and "b = length (rin r) \<Longrightarrow> \<exists>r'. kot_ReceiverEncode ot b x n r = (F b (Some x) x n, r') \<and> rin r' = rin r @ [Some x] \<and> rsh r' = rsh r"
    and "rsh r + k \<le> length (rin r) \<Longrightarrow> \<exists>buf r'. kot_ShiftCorrection ot k r = (buf, r') \<and>
        bin buf = take k (drop (rsh r) (rin r)) \<and> rin r' = rin r \<and> rsh r' = rsh r + k"
    and "k = length (bin buf) \<Longrightarrow> sin (kot_SetCorrection ot buf k s) = sin s @ bin buf"
    and "b < length (sin s) \<Longrightarrow> kot_SenderEncode ot s b y n = F b (sin s ! b) y n"
    and "length (F b z y n) = n"
  using assms unfolding ot_view_def by blast+

definition kkrt_ot_ok ::
  "('s, 'r, 'b) KkrtOt \<Rightarrow> (nat \<Rightarrow> 128 word option \<Rightarrow> 128 word \<Rightarrow> nat \<Rightarrow> string) \<Rightarrow> bool" where
  "kkrt_ot_ok ot F \<longleftrightarrow> (\<exists>rin rsh bin sin. ot_view ot rin rsh bin sin F)"

text \<open>
  No two codes of the run collide by chance: a code of the sender is one of the receiver's codes only for
  the same bin and item, and random filling, which has the size of a code, is none of them.
\<close>

definition codes_separate ::
  "(nat \<Rightarrow> 128 word option \<Rightarrow> 128 word \<Rightarrow> nat \<Rightarrow> string) \<Rightarrow> (nat \<Rightarrow> string) \<Rightarrow> nat \<Rightarrow> nat \<Rightarrow> 128 word set \<Rightarrow> 128 word set \<Rightarrow> bool" where
  "codes_separate F fill num_bins n X Y \<longleftrightarrow>
     (\<forall>b < num_bins. \<forall>b' < num_bins. \<forall>x' \<in> X. \<forall>y \<in> X \<union> Y. \<forall>x \<in> insert None (Some ` X).
        F b x y n = F b' (Some x') x' n \<longrightarrow> b = b' \<and> y = x' \<and> x = Some x') \<and>
     (\<forall>k. length (fill k) = n \<and> (\<forall>b < num_bins. \<forall>x \<in> X. fill k \<noteq> F b (Some x) x n))"

lemma codes_separateD:
  assumes "codes_separate F fill num_bins n X Y" "F b x y n = F b' (Some x') x' n" "b < num_bins" "b' < num_bins" "x' \<in> X" "y \<in> X \<union> Y"
    and "x \<in> insert None (Some ` X)"
  shows "b = b' \<and> y = x' \<and> x = Some x'"
  using assms unfolding codes_separate_def by blast

section \<open>The receiver's maps\<close>

definition codes_ok ::
  "(nat \<Rightarrow> 128 word option \<Rightarrow> 128 word \<Rightarrow> nat \<Rightarrow> string) \<Rightarrow> nat \<Rightarrow> 64 word \<Rightarrow> CuckooIndex \<Rightarrow> nat \<Rightarrow> oprf_map list \<Rightarrow> bool" where
  "codes_ok F n num_bins t k maps \<longleftrightarrow> length maps = 3 \<and>
     (\<forall>h < 3. \<forall>c i. (maps ! h) c = Some i \<longleftrightarrow> (\<exists>b < k. occupied t b i \<and>
        c = F b (Some (ci_hashes t ! i)) (ci_hashes t ! i) n \<and> h = (LEAST h. slot_of num_bins (ci_hashes t ! i) h = b)))"

lemma encode_bin_ok:
  assumes view: "ot_view ot rin rsh bin sin F" and t: "stashless num_bins t" and b: "b < unat num_bins"
    and sep: "codes_separate F fill (unat num_bins) n (set (ci_hashes t)) Y"
    and rin: "rin r = map (bin_input t) [0..<b]" and ok: "codes_ok F n num_bins t b maps"
  shows "\<exists>r' maps'. encode_bin ot t (ci_hashes t) n b (r, maps) = Inr (r', maps') \<and>
     rin r' = map (bin_input t) [0..<Suc b] \<and> rsh r' = rsh r \<and> codes_ok F n num_bins t (Suc b) maps'"
proof (cases "Bin_IsEmpty (ci_bins t ! b)")
  case True
  then have "\<not> occupied t b i" for i by (simp add: occupied_def)
  with ok have "codes_ok F n num_bins t (Suc b) maps" by (auto simp: codes_ok_def less_Suc_eq)
  moreover have "rin (kot_ZeroEncode ot b r) = rin r @ [None] \<and> rsh (kot_ZeroEncode ot b r) = rsh r"
    using ot_viewD(4) [OF view, of b r] rin by simp
  ultimately show ?thesis
    using True b stashless_bins [OF t] rin by (simp add: encode_bin_def bin_input_def)
next
  case False
  define i where "i = unat (Bin_InputIdx (ci_bins t ! b))"
  let ?x = "ci_hashes t ! i"
  let ?k = "LEAST h. slot_of num_bins ?x h = b" and ?c = "F b (Some ?x) ?x n"
  have occ: "occupied t b i" using False b stashless_bins [OF t] by (simp add: occupied_def i_def)
  note item = occupied_item [OF t occ] and min = MinColliding_occupied [OF t occ]
  obtain r' where r': "kot_ReceiverEncode ot b ?x n r = (?c, r')" "rin r' = rin r @ [Some ?x]" "rsh r' = rsh r"
    using ot_viewD(5) [OF view, of b r] rin by auto
  have nocoll: False if "b' < b" "occupied t b' j" "?c = F b' (Some (ci_hashes t ! j)) (ci_hashes t ! j) n" for b' j
    using codes_separateD [OF sep that(3)] item(1) occupied_item(1) [OF t that(2)] b that(1) by simp
  have fresh: "(maps ! h) ?c = None" if "h < 3" for h
    using ok that nocoll unfolding codes_ok_def by (metis not_None_eq)
  let ?maps = "maps[?k := (maps ! ?k)(?c \<mapsto> i)]"
  have k: "unat (of_nat ?k :: 8 word) = ?k" using min(2) by simp
  have len: "length maps = 3" using ok by (simp add: codes_ok_def)
  have enc: "encode_bin ot t (ci_hashes t) n b (r, maps) = Inr (r', ?maps)"
    using False b stashless_bins [OF t] item(1) r'(1) min(1,2) fresh [OF min(2)] len
    by (simp add: encode_bin_def i_def [symmetric] k)
  have occ_b: "occupied t b j \<longleftrightarrow> j = i" for j using occ by (auto simp: occupied_def)
  have "codes_ok F n num_bins t (Suc b) ?maps"
    using ok fresh min(2) unfolding codes_ok_def
    by (auto simp: nth_list_update less_Suc_eq occ_b dest: nocoll)
  with enc r' rin item(3) show ?thesis by simp
qed

text \<open>The inputs of all bins, and the part of them in the \<open>j\<close>th of the messages.\<close>

abbreviation (input) inputs_of :: "64 word \<Rightarrow> CuckooIndex \<Rightarrow> 128 word option list" where
  "inputs_of num_bins t \<equiv> map (bin_input t) [0..<unat num_bins]"

lemma encode_batch_ok:
  assumes view: "ot_view ot rin rsh bin sin F" and t: "stashless num_bins t"
    and sep: "codes_separate F fill (unat num_bins) n (set (ci_hashes t)) Y"
    and k: "k * B < unat num_bins"
    and r: "rin r = take (k * B) (inputs_of num_bins t)" "rsh r = min (k * B) (unat num_bins)" "codes_ok F n num_bins t (min (k * B) (unat num_bins)) maps"
  shows "\<exists>r' maps' buf. encode_batch ot t (ci_hashes t) n B k (r, maps, msgs) = Inr (r', maps', msgs @ [buf]) \<and>
     rin r' = take (Suc k * B) (inputs_of num_bins t) \<and> rsh r' = min (Suc k * B) (unat num_bins) \<and>
     codes_ok F n num_bins t (min (Suc k * B) (unat num_bins)) maps' \<and> bin buf = take B (drop (k * B) (inputs_of num_bins t))"
proof -
  let ?N = "unat num_bins" and ?e = "k * B"
  define num where "num = min (?N - ?e) B"
  have e: "min (Suc k * B) ?N = ?e + num" "?e + num \<le> ?N" using k by (auto simp: num_def)
  have "\<exists>st. rfold (\<lambda>i. encode_bin ot t (ci_hashes t) n (?e + i)) [0..<num] (r, maps) = Inr st \<and>
      (rin (fst st) = map (bin_input t) [0..<?e + num] \<and> rsh (fst st) = ?e \<and> codes_ok F n num_bins t (?e + num) (snd st))"
  proof (rule rfold_upt_inv [where I = "\<lambda>i st. rin (fst st) = map (bin_input t) [0..<?e + i] \<and> rsh (fst st) = ?e \<and> codes_ok F n num_bins t (?e + i) (snd st)"])
    fix i st assume "i < num" "rin (fst st) = map (bin_input t) [0..<?e + i] \<and> rsh (fst st) = ?e \<and> codes_ok F n num_bins t (?e + i) (snd st)"
    then show "\<exists>s'. encode_bin ot t (ci_hashes t) n (?e + i) st = Inr s' \<and> rin (fst s') = map (bin_input t) [0..<?e + Suc i] \<and>
        rsh (fst s') = ?e \<and> codes_ok F n num_bins t (?e + Suc i) (snd s')"
      using encode_bin_ok [OF view t _ sep, of "?e + i" "fst st" "snd st"] e(2) by auto
  qed (use r k in \<open>simp add: take_map\<close>)
  then obtain r1 maps1 where st: "rfold (\<lambda>i. encode_bin ot t (ci_hashes t) n (?e + i)) [0..<num] (r, maps) = Inr (r1, maps1)"
    "rin r1 = map (bin_input t) [0..<?e + num]" "rsh r1 = ?e" "codes_ok F n num_bins t (?e + num) maps1" by auto
  obtain buf r2 where sh: "kot_ShiftCorrection ot num r1 = (buf, r2)" "bin buf = take num (drop ?e (rin r1))" "rin r2 = rin r1" "rsh r2 = ?e + num"
    using ot_viewD(6) [OF view, of r1 num] st(2,3) by auto
  have "bin buf = take B (drop ?e (inputs_of num_bins t))"
    using e sh(2) st(2) by (auto simp: take_map drop_map num_def min_def)
  moreover have "take (Suc k * B) (inputs_of num_bins t) = rin r2" unfolding sh(3) st(2) take_map
    using e by (auto simp: take_upt min_def add.commute split: if_splits)
  ultimately show ?thesis
    using st sh(1,3,4) e stashless_bins [OF t] by (simp add: encode_batch_def num_def [symmetric])
qed

lemma div_up_mult:
  fixes N B :: nat
  assumes "0 < B"
  shows "N \<le> (N + B - 1) div B * B" "k < (N + B - 1) div B \<Longrightarrow> k * B < N"
proof -
  have "N + B - 1 < (N + B - 1) div B * B + B" using assms by (metis add.commute dividend_less_div_times)
  then show "N \<le> (N + B - 1) div B * B" by simp
  assume "k < (N + B - 1) div B"
  then have "Suc k * B \<le> N + B - 1" using assms by (metis Suc_leI div_times_less_eq_dividend mult.commute order_trans mult_le_mono1)
  then show "k * B < N" using assms by simp
qed

lemma encode_bins_ok:
  assumes view: "ot_view ot rin rsh bin sin F" and t: "stashless num_bins t"
    and sep: "codes_separate F fill (unat num_bins) n (set (ci_hashes t)) Y" and B: "0 < B"
  shows "\<exists>maps msgs. encode_bins ot t (ci_hashes t) n B = Inr (maps, msgs) \<and> codes_ok F n num_bins t (unat num_bins) maps \<and>
     map bin msgs = map (\<lambda>k. take B (drop (k * B) (inputs_of num_bins t))) [0..<(unat num_bins + B - 1) div B]"
proof -
  let ?N = "unat num_bins" and ?in = "inputs_of num_bins t"
  let ?I = "\<lambda>k (r, maps, msgs). rin r = take (k * B) ?in \<and> rsh r = min (k * B) ?N \<and> codes_ok F n num_bins t (min (k * B) ?N) maps \<and>
      map bin msgs = map (\<lambda>k. take B (drop (k * B) ?in)) [0..<k]"
  have "\<exists>st. rfold (encode_batch ot t (ci_hashes t) n B) [0..<(?N + B - 1) div B] (kot_ReceiverInit ot ?N, replicate 3 (\<lambda>_. None), []) = Inr st \<and>
      ?I ((?N + B - 1) div B) st"
  proof (rule rfold_upt_inv [where I = ?I])
    fix k st assume k: "k < (?N + B - 1) div B" and I: "?I k st"
    obtain r maps msgs where st: "st = (r, maps, msgs)" by (cases st)
    show "\<exists>s'. encode_batch ot t (ci_hashes t) n B k st = Inr s' \<and> ?I (Suc k) s'"
      using encode_batch_ok [OF view t sep div_up_mult(2) [OF B k], of r maps msgs] I by (auto simp: st)
  qed (simp add: ot_viewD [OF view] codes_ok_def)
  moreover have "min ((?N + B - 1) div B * B) ?N = ?N" using div_up_mult(1) [OF B, of ?N] by simp
  ultimately show ?thesis
    using B stashless_bins [OF t] by (auto simp: encode_bins_def)
qed

section \<open>The sender's buffer\<close>

text \<open>\<open>step_ok\<close>: the corrections counted by \<open>recv_idx\<close> are there.\<close>

definition step_ok :: "('s \<Rightarrow> 128 word option list) \<Rightarrow> 128 word option list \<Rightarrow> nat \<times> 's \<Rightarrow> bool" where
  "step_ok sin inputs step \<longleftrightarrow> fst step \<le> length inputs \<and> sin (snd step) = take (fst step) inputs"

lemma correction_steps_ok:
  assumes view: "ot_view ot rin rsh bin sin F" and B: "0 < B"
    and msgs: "map bin msgs = map (\<lambda>k. take B (drop (k * B) inputs)) [k0..<(length inputs + B - 1) div B]"
    and k0: "k0 \<le> (length inputs + B - 1) div B" and s: "sin s = take (k0 * B) inputs"
  shows "\<exists>steps. correction_steps ot B (length inputs) (min (k0 * B) (length inputs)) s msgs = Inr steps \<and>
     (\<forall>step \<in> set steps. step_ok sin inputs step) \<and> length steps = length msgs \<and>
     fst (last ((min (k0 * B) (length inputs), s) # steps)) = length inputs"
  using msgs k0 s
proof (induction msgs arbitrary: k0 s)
  case Nil
  then have "k0 = (length inputs + B - 1) div B" by auto
  then show ?case using div_up_mult(1) [OF B, of "length inputs"] by simp
next
  case (Cons buf msgs)
  let ?N = "length inputs" and ?K = "(length inputs + B - 1) div B"
  have "map bin (buf # msgs) \<noteq> []" by simp
  then have "k0 < ?K" using Cons.prems(1,2) by (metis le_neq_implies_less list.map(1) upt_conv_Nil order_refl)
  then have k: "k0 * B < ?N" by (rule div_up_mult(2) [OF B])
  have up: "[k0..<?K] = k0 # [Suc k0..<?K]" using \<open>k0 < ?K\<close> by (rule upt_conv_Cons)
  then have buf: "bin buf = take B (drop (k0 * B) inputs)" and rest: "map bin msgs = map (\<lambda>k. take B (drop (k * B) inputs)) [Suc k0..<?K]"
    using Cons.prems(1) by simp_all
  let ?step = "min B (?N - k0 * B)" and ?s = "kot_SetCorrection ot buf (min B (?N - k0 * B)) s"
  have s': "sin ?s = take (Suc k0 * B) inputs"
  proof -
    have "?step = length (bin buf)" by (simp add: buf min.commute)
    then show ?thesis using ot_viewD(7) [OF view, of ?step buf s] by (simp only: mult_Suc add.commute [of B] take_add buf Cons.prems(3))
  qed
  have r': "k0 * B + ?step = min (Suc k0 * B) ?N" using k by auto
  have "step_ok sin inputs (min (Suc k0 * B) ?N, ?s)"
    using s' by (simp add: step_ok_def min_def)
  with Cons.IH [OF rest _ s'] \<open>k0 < ?K\<close> k r' show ?case by fastforce
qed

definition sent_code ::
  "(nat \<Rightarrow> 128 word option \<Rightarrow> 128 word \<Rightarrow> nat \<Rightarrow> string) \<Rightarrow> 64 word \<Rightarrow> (nat \<Rightarrow> 128 word option) \<Rightarrow> nat \<Rightarrow> (nat \<Rightarrow> string)
     \<Rightarrow> PsiItemHash list \<Rightarrow> nat list \<Rightarrow> nat \<Rightarrow> nat \<Rightarrow> string" where
  "sent_code F num_bins input n fill items perm p h =
     (let y = pi_data (items ! (perm ! p)); b = slot_of num_bins y h
      in if repeated num_bins y h then fill (p * 3 + h) else F b (input b) y n)"

text \<open>
  A place of the buffer is either written, and then its bin index is \<open>-1\<close>, or its bin index is still that
  of the item.
\<close>

definition slot_inv ::
  "(nat \<Rightarrow> 128 word option \<Rightarrow> 128 word \<Rightarrow> nat \<Rightarrow> string) \<Rightarrow> 64 word \<Rightarrow> (nat \<Rightarrow> 128 word option) \<Rightarrow> nat \<Rightarrow> (nat \<Rightarrow> string)
     \<Rightarrow> PsiItemHash list \<Rightarrow> nat list \<Rightarrow> 64 word list list \<Rightarrow> string list \<Rightarrow> nat \<Rightarrow> nat \<Rightarrow> bool" where
  "slot_inv F num_bins input n fill items perm bi buf p h \<longleftrightarrow>
     (let w = bi ! (perm ! p) ! h; y = pi_data (items ! (perm ! p))
      in if w = - 1 then buf ! (p * 3 + h) = sent_code F num_bins input n fill items perm p h
         else \<not> repeated num_bins y h \<and> unat w = slot_of num_bins y h)"

definition enc_inv ::
  "(nat \<Rightarrow> 128 word option \<Rightarrow> 128 word \<Rightarrow> nat \<Rightarrow> string) \<Rightarrow> 64 word \<Rightarrow> (nat \<Rightarrow> 128 word option) \<Rightarrow> nat \<Rightarrow> (nat \<Rightarrow> string)
     \<Rightarrow> PsiItemHash list \<Rightarrow> nat list \<Rightarrow> 64 word list list \<times> string list \<Rightarrow> bool" where
  "enc_inv F num_bins input n fill items perm = (\<lambda>(bi, buf).
     length bi = length items \<and> length buf = length items * 3 \<and> (\<forall>bs \<in> set bi. length bs = 3) \<and>
     (\<forall>p < length items. \<forall>h < 3. slot_inv F num_bins input n fill items perm bi buf p h))"

definition permutes :: "nat list \<Rightarrow> nat \<Rightarrow> bool" where
  "permutes perm m \<longleftrightarrow> mset perm = mset [0..<m]"

lemma permutesD:
  assumes "permutes perm m"
  shows "length perm = m" "p < m \<Longrightarrow> perm ! p < m" "p < m \<Longrightarrow> q < m \<Longrightarrow> perm ! p = perm ! q \<longleftrightarrow> p = q"
    "set perm = {0..<m}" "distinct perm"
proof -
  show len: "length perm = m" using assms by (metis permutes_def length_upt minus_nat.diff_0 size_mset)
  show st: "set perm = {0..<m}" using assms by (metis permutes_def set_mset_mset set_upt)
  show d: "distinct perm" using assms by (metis permutes_def distinct_upt mset_eq_imp_distinct_iff)
  show "perm ! p < m" if "p < m" using st len that nth_mem [of p perm] by auto
  show "perm ! p = perm ! q \<longleftrightarrow> p = q" if "p < m" "q < m" using d len that by (simp add: nth_eq_iff_index_eq)
qed

lemma slot_index: "h < 3 \<Longrightarrow> h' < 3 \<Longrightarrow> p * 3 + h = p' * 3 + h' \<longleftrightarrow> p = p' \<and> h = (h' :: nat)"
  by presburger

lemma slot_bound: "p < m \<Longrightarrow> h < 3 \<Longrightarrow> p * 3 + h < m * (3 :: nat)"
  by simp

lemma minus_one_large: "unat (w :: 64 word) < k \<Longrightarrow> k \<le> unat (num_bins :: 64 word) \<Longrightarrow> w \<noteq> - 1"
  using unsigned_less [of num_bins, where 'a = nat] by (auto simp: unsigned_minus_1_eq_mask mask_eq_exp_minus_1)

lemma encode_hash_ok:
  assumes view: "ot_view ot rin rsh bin sin F" and step: "step_ok sin (map input [0..<unat num_bins]) step"
    and perm: "permutes perm (length items)" and p: "p < length items" "h < 3"
    and inv: "enc_inv F num_bins input n fill items perm st"
  shows "\<exists>st'. encode_hash ot step 3 n items p (perm ! p) h st = Inr st' \<and> enc_inv F num_bins input n fill items perm st'"
proof -
  obtain bi buf where st: "st = (bi, buf)" by (cases st)
  obtain r s where step': "step = (r, s)" by (cases step)
  note perm' = permutesD [OF perm]
  have len: "length bi = length items" "length buf = length items * 3" "length (bi ! (perm ! p)) = 3"
    using inv perm'(2) [OF p(1)] by (auto simp: enc_inv_def st)
  let ?w = "bi ! (perm ! p) ! h" and ?y = "pi_data (items ! (perm ! p))"
  have w: "slot_inv F num_bins input n fill items perm bi buf p h" using inv p by (auto simp: enc_inv_def st)
  show ?thesis
  proof (cases "unat ?w < r")
    case False
    then show ?thesis using inv p len perm'(2) by (simp add: encode_hash_def st step')
  next
    case True
    have r: "r \<le> unat num_bins" "sin s = take r (map input [0..<unat num_bins])" using step by (auto simp: step_ok_def step')
    have "?w \<noteq> - 1" using minus_one_large [OF True r(1)] .
    with w have w': "\<not> repeated num_bins ?y h" "unat ?w = slot_of num_bins ?y h" by (auto simp: slot_inv_def Let_def)
    have code: "kot_SenderEncode ot s (unat ?w) ?y n = sent_code F num_bins input n fill items perm p h"
      using ot_viewD(8) [OF view, of "unat ?w" s ?y n] True r w' by (simp add: sent_code_def Let_def)
    let ?bi = "bi[perm ! p := (bi ! (perm ! p))[h := - 1]]" and ?buf = "buf[p * 3 + h := sent_code F num_bins input n fill items perm p h]"
    have "encode_hash ot step 3 n items p (perm ! p) h st = Inr (?bi, ?buf)"
      using p len perm'(2) True code slot_bound [OF p] by (simp add: encode_hash_def st step')
    moreover have "slot_inv F num_bins input n fill items perm ?bi ?buf p' h'" if "p' < length items" "h' < 3" for p' h'
    proof -
      have old: "slot_inv F num_bins input n fill items perm bi buf p' h'" using inv that by (auto simp: enc_inv_def st)
      show ?thesis
      proof (cases "p' = p \<and> h' = h")
        case True
        then show ?thesis using p len perm'(2) slot_bound [OF p] by (simp add: slot_inv_def Let_def)
      next
        case False
        then have "?buf ! (p' * 3 + h') = buf ! (p' * 3 + h')" using slot_index [OF p(2) that(2)] by (metis nth_list_update_neq)
        moreover have "?bi ! (perm ! p') ! h' = bi ! (perm ! p') ! h'"
          using False perm'(2,3) that p len by (cases "p' = p") (simp_all add: nth_list_update)
        ultimately show ?thesis using old by (simp add: slot_inv_def Let_def)
      qed
    qed
    moreover have "\<forall>bs \<in> set ?bi. length bs = 3"
      using inv len(3) by (auto simp: enc_inv_def st dest!: set_update_subset_insert [THEN subsetD])
    ultimately show ?thesis using len by (auto simp: enc_inv_def)
  qed
qed

lemma encode_pass_ok:
  assumes view: "ot_view ot rin rsh bin sin F" and step: "step_ok sin (map input [0..<unat num_bins]) step"
    and perm: "permutes perm (length items)" and t: "fst st < length items"
    and inv: "enc_inv F num_bins input n fill items perm (snd st)"
  shows "\<exists>st'. rfold (\<lambda>_. encode_item ot step 3 n items perm) [0..<batch_size] st = Inr st' \<and> fst st' < length items \<and>
     enc_inv F num_bins input n fill items perm (snd st')"
proof (rule rfold_total_inv [where I = "\<lambda>st. fst st < length items \<and> enc_inv F num_bins input n fill items perm (snd st)"])
  fix x :: nat and st :: "nat \<times> 64 word list list \<times> string list"
  assume st: "fst st < length items \<and> enc_inv F num_bins input n fill items perm (snd st)"
  obtain p bi buf where st': "st = (p, bi, buf)" by (cases st)
  have "\<exists>s'. rfold (encode_hash ot step 3 n items p (perm ! p)) [0..<3] (bi, buf) = Inr s' \<and> enc_inv F num_bins input n fill items perm s'"
    by (rule rfold_total_inv [where I = "enc_inv F num_bins input n fill items perm"])
      (use encode_hash_ok [OF view step perm] st in \<open>auto simp: st'\<close>)
  then show "\<exists>s'. encode_item ot step 3 n items perm st = Inr s' \<and> fst s' < length items \<and> enc_inv F num_bins input n fill items perm (snd s')"
    using st permutesD(1) [OF perm] mod_less_divisor [of "length items" "Suc p", OF le_less_trans [OF le0, of p]]
    by (auto simp: encode_item_def st')
qed (use t inv in simp)

text \<open>
  Whatever the receiving thread does in between, the loop ends as soon as a load finds all
  corrections, and the buffer is consistent then.
\<close>

lemma encode_loop_ok:
  assumes view: "ot_view ot rin rsh bin sin F" and steps: "\<forall>step \<in> set steps. step_ok sin (map input [0..<unat num_bins]) step"
    and perm: "permutes perm (length items)"
    and obs: "\<forall>k \<in> set obs. k < length steps" "\<exists>k \<in> set obs. fst (steps ! k) = unat num_bins"
    and st: "step_ok sin (map input [0..<unat num_bins]) step" "fst st < length items" "enc_inv F num_bins input n fill items perm (snd st)"
  shows "\<exists>st'. encode_loop ot batch_size (unat num_bins) 3 n items perm steps step obs st = Some (Inr st') \<and>
     enc_inv F num_bins input n fill items perm st'"
  using obs st
proof (induction obs arbitrary: step st)
  case (Cons k obs)
  obtain st' where st': "rfold (\<lambda>_. encode_item ot step 3 n items perm) [0..<batch_size] st = Inr st'" "fst st' < length items"
    "enc_inv F num_bins input n fill items perm (snd st')"
    using encode_pass_ok [OF view Cons.prems(3) perm Cons.prems(4,5)] by blast
  have k: "step_ok sin (map input [0..<unat num_bins]) (steps ! k)" using steps Cons.prems(1) by simp
  show ?case
  proof (cases "\<exists>k \<in> set obs. fst (steps ! k) = unat num_bins")
    case True
    have "\<exists>st''. encode_loop ot batch_size (unat num_bins) 3 n items perm steps (steps ! k) obs st' = Some (Inr st'') \<and>
        enc_inv F num_bins input n fill items perm st''"
      using Cons.IH [OF _ True k st'(2,3)] Cons.prems(1) by simp
    then show ?thesis using Cons.prems(5) st'(1) by (cases "fst step = unat num_bins") (auto intro!: exI [of _ "snd st"])
  next
    case False
    then have "fst (steps ! k) = unat num_bins" using Cons.prems(2) by auto
    then have "encode_loop ot batch_size (unat num_bins) 3 n items perm steps (steps ! k) obs st' = Some (Inr (snd st'))"
      by (cases obs) auto
    then show ?thesis using st' Cons.prems(5) by (cases "fst step = unat num_bins") (auto intro: exI [of _ "snd st"] exI [of _ "snd st'"])
  qed
qed simp

text \<open>After \<open>encode_rest\<close> the places of an item hold its codes.\<close>

lemma encode_rest_ok:
  assumes view: "ot_view ot rin rsh bin sin F" and s: "sin s = map input [0..<unat num_bins]"
    and nb: "num_bins \<noteq> 0" and perm: "permutes perm (length items)" and p: "p < length items"
    and inv: "enc_inv F num_bins input n fill items perm (bi, buf)"
  shows "\<exists>buf'. encode_rest ot s 3 n items perm bi p buf = Inr buf' \<and> enc_inv F num_bins input n fill items perm (bi, buf') \<and>
     (\<forall>h < 3. buf' ! (p * 3 + h) = sent_code F num_bins input n fill items perm p h) \<and>
     (\<forall>q. q div 3 \<noteq> p \<longrightarrow> buf' ! q = buf ! q)"
proof -
  note perm' = permutesD [OF perm]
  let ?bs = "bi ! (perm ! p)" and ?y = "pi_data (items ! (perm ! p))"
  have len: "length bi = length items" "length buf = length items * 3" "length ?bs = 3"
    using inv perm'(2) [OF p] by (auto simp: enc_inv_def)
  let ?f = "\<lambda>k buf. rbind (at ?bs k) (\<lambda>b_idx. if b_idx \<noteq> - 1 then set_at buf (p * 3 + k) (kot_SenderEncode ot s (unat b_idx) ?y n) else Inr buf)"
  let ?C = "sent_code F num_bins input n fill items perm"
  have code: "kot_SenderEncode ot s (unat (?bs ! k)) ?y n = ?C p k" if "k < 3" "?bs ! k \<noteq> - 1" for k
  proof -
    have "\<not> repeated num_bins ?y k" "unat (?bs ! k) = slot_of num_bins ?y k"
      using inv p that by (auto simp: enc_inv_def slot_inv_def Let_def)
    then show ?thesis using ot_viewD(8) [OF view, of "unat (?bs ! k)" s ?y n] s slot_of_less [OF nb] by (simp add: sent_code_def Let_def)
  qed
  have "\<exists>buf'. rfold ?f [0..<3] buf = Inr buf' \<and> (enc_inv F num_bins input n fill items perm (bi, buf') \<and>
      (\<forall>h < 3. buf' ! (p * 3 + h) = ?C p h) \<and> (\<forall>q. q div 3 \<noteq> p \<longrightarrow> buf' ! q = buf ! q))"
  proof (rule rfold_upt_inv [where I = "\<lambda>k b. enc_inv F num_bins input n fill items perm (bi, b) \<and> (\<forall>h < k. b ! (p * 3 + h) = ?C p h) \<and> (\<forall>q. q div 3 \<noteq> p \<longrightarrow> b ! q = buf ! q)"])
    fix k b assume k: "k < 3" and I: "enc_inv F num_bins input n fill items perm (bi, b) \<and> (\<forall>h < k. b ! (p * 3 + h) = ?C p h) \<and> (\<forall>q. q div 3 \<noteq> p \<longrightarrow> b ! q = buf ! q)"
    show "\<exists>s'. ?f k b = Inr s' \<and> enc_inv F num_bins input n fill items perm (bi, s') \<and> (\<forall>h < Suc k. s' ! (p * 3 + h) = ?C p h) \<and> (\<forall>q. q div 3 \<noteq> p \<longrightarrow> s' ! q = buf ! q)"
    proof (cases "?bs ! k = - 1")
      case True
      then have "b ! (p * 3 + k) = ?C p k" using I p k by (auto simp: enc_inv_def slot_inv_def Let_def)
      then show ?thesis using True I k len by (auto simp: less_Suc_eq)
    next
      case False
      let ?b = "b[p * 3 + k := ?C p k]"
      have lb: "p * 3 + k < length b" using I slot_bound [OF p k] by (simp add: enc_inv_def)
      have "slot_inv F num_bins input n fill items perm bi ?b p' h'" if "p' < length items" "h' < 3" for p' h'
      proof (cases "p' = p \<and> h' = k")
        case True
        then show ?thesis using inv p k lb False by (auto simp: enc_inv_def slot_inv_def Let_def)
      next
        case False
        then have "?b ! (p' * 3 + h') = b ! (p' * 3 + h')" using slot_index [OF k that(2)] by (metis nth_list_update_neq)
        then show ?thesis using I that by (simp add: enc_inv_def slot_inv_def Let_def)
      qed
      then have "enc_inv F num_bins input n fill items perm (bi, ?b)" using I by (simp add: enc_inv_def)
      moreover have "\<forall>q. q div 3 \<noteq> p \<longrightarrow> ?b ! q = buf ! q" using I k by auto
      ultimately show ?thesis using False I k len lb code [OF k False] by (auto simp: less_Suc_eq)
    qed
  qed (use inv in simp)
  then show ?thesis
    using perm'(1,2) p len by (simp add: encode_rest_def)
qed

lemma inverse_permutation_ok:
  assumes "permutes perm m"
  shows "\<exists>ivp. inverse_permutation perm = Inr ivp \<and> length ivp = m \<and> (\<forall>p < m. ivp ! (perm ! p) = p)"
  unfolding inverse_permutation_def permutesD(1) [OF assms]
proof (rule rfold_upt_inv [where I = "\<lambda>i ivp. length ivp = m \<and> (\<forall>p < i. ivp ! (perm ! p) = p)"])
  fix i ivp assume "i < m" "length ivp = m \<and> (\<forall>p < i. ivp ! (perm ! p) = p)"
  then show "\<exists>s'. rbind (at perm i) (\<lambda>p. set_at ivp p i) = Inr s' \<and> length s' = m \<and> (\<forall>p < Suc i. s' ! (perm ! p) = p)"
    using permutesD(1-3) [OF assms] by (auto simp: nth_list_update less_Suc_eq)
qed simp

lemma item_bins_ok:
  assumes "num_bins \<noteq> 0"
  shows "\<exists>bs. item_bins num_bins y = Inr (bs, repeated num_bins y 1, repeated num_bins y 2) \<and> length bs = 3 \<and>
     (\<forall>h < 3. if repeated num_bins y h then bs ! h = - 1 else unat (bs ! h) = slot_of num_bins y h)"
proof -
  let ?b = "\<lambda>h. ucast (drop_bit (8 * (h * kBlockSize)) y) mod num_bins :: 64 word"
  let ?bs = "[?b 0, ?b 1 OR (if ?b 0 = ?b 1 then - 1 else 0), ?b 2 OR (if ?b 0 = ?b 2 \<or> ?b 1 = ?b 2 then - 1 else 0)]"
  have eq: "slot_of num_bins y h = slot_of num_bins y h' \<longleftrightarrow> ?b h = ?b h'" for h h'
    by (simp add: slot_of_def word_unat_eq_iff)
  have rep: "\<not> repeated num_bins y 0" "repeated num_bins y 1 \<longleftrightarrow> ?b 0 = ?b 1" "repeated num_bins y 2 \<longleftrightarrow> ?b 0 = ?b 2 \<or> ?b 1 = ?b 2"
    unfolding repeated_def eq by (auto simp: numeral_2_eq_2 less_Suc_eq)
  have "item_bins num_bins y = Inr (?bs, repeated num_bins y 1, repeated num_bins y 2)"
    unfolding rep using assms by (simp add: item_bins_def HashRoom_GetHash_def kBlockSize_def Let_def)
  moreover have "if repeated num_bins y h then ?bs ! h = - 1 else unat (?bs ! h) = slot_of num_bins y h" if "h < 3" for h
  proof -
    from that consider "h = 0" | "h = 1" | "h = 2" by linarith
    then show ?thesis by cases (auto simp: rep [unfolded One_nat_def] slot_of_def)
  qed
  moreover have "length ?bs = 3" by simp
  ultimately show ?thesis by blast
qed

lemma prepare_ok:
  assumes nb: "num_bins \<noteq> 0" and perm: "permutes perm (length items)"
    and inv: "length ivp = length items" "\<forall>p < length items. ivp ! (perm ! p) = p" and buf: "length buf0 = length items * 3"
  shows "\<exists>st. rfold (prepare_item 3 fill num_bins items ivp) [0..<length items] (replicate (length items) [], buf0) = Inr st \<and>
     enc_inv F num_bins input n fill items perm st"
proof -
  let ?m = "length items" and ?y = "\<lambda>j. pi_data (items ! j)"
  note perm' = permutesD [OF perm]
  have ex: "\<exists>p < ?m. perm ! p = j" if "j < ?m" for j
    using that perm'(1,4) by (metis atLeastLessThan_iff in_set_conv_nth le0)
  have ivl: "ivp ! j < ?m" if "j < ?m" for j using ex [OF that] inv(2) by auto
  have ivi: "ivp ! j = ivp ! j' \<longleftrightarrow> j = j'" if "j < ?m" "j' < ?m" for j j' using ex [OF that(1)] ex [OF that(2)] inv(2) by metis
  obtain bins where bins: "item_bins num_bins y = Inr (bins y, repeated num_bins y 1, repeated num_bins y 2)" "length (bins y) = 3"
    "\<And>h. h < 3 \<Longrightarrow> if repeated num_bins y h then bins y ! h = - 1 else unat (bins y ! h) = slot_of num_bins y h" for y
    using item_bins_ok [OF nb] by metis
  let ?J = "\<lambda>i (bi, buf). length bi = ?m \<and> length buf = ?m * 3 \<and> (\<forall>j < i. bi ! j = bins (?y j)) \<and>
      (\<forall>j < i. \<forall>h < 3. repeated num_bins (?y j) h \<longrightarrow> buf ! (ivp ! j * 3 + h) = fill (ivp ! j * 3 + h))"
  have "\<exists>st. rfold (prepare_item 3 fill num_bins items ivp) [0..<?m] (replicate ?m [], buf0) = Inr st \<and> ?J ?m st"
  proof (rule rfold_upt_inv [where I = ?J])
    fix i st assume i: "i < ?m" and J: "?J i st"
    obtain bi buf where st: "st = (bi, buf)" by (cases st)
    let ?p = "ivp ! i" and ?r = "repeated num_bins (?y i)"
    let ?buf1 = "if ?r 1 then buf[?p * 3 + 1 := fill (?p * 3 + 1)] else buf"
    let ?buf2 = "if ?r 2 then ?buf1[?p * 3 + 2 := fill (?p * 3 + 2)] else ?buf1"
    have len: "length bi = ?m" "length buf = ?m * 3" and b: "?p * 3 + 1 < ?m * 3" "?p * 3 + 2 < ?m * 3"
      using J ivl [OF i] by (auto simp: st)
    have run: "prepare_item 3 fill num_bins items ivp i st = Inr (bi[i := bins (?y i)], ?buf2)"
      using i inv(1) len b bins(1) [of "?y i"] by (simp add: prepare_item_def st)
    have r0: "\<not> ?r 0" by (simp add: repeated_def)
    have "?buf2 ! (ivp ! j * 3 + h) = fill (ivp ! j * 3 + h)" if "j < Suc i" "h < 3" "repeated num_bins (?y j) h" for j h
    proof (cases "j = i")
      case True
      then have "h = 1 \<or> h = 2" using that(2,3) r0 by (metis One_nat_def less_2_cases_iff less_Suc_eq numeral_2_eq_2 numeral_3_eq_3)
      then show ?thesis using True that(3) len b by (auto simp: nth_list_update)
    next
      case False
      then have "ivp ! j \<noteq> ?p" "j < i" using ivi [of j i] that(1) i by auto
      then have "ivp ! j * 3 + h \<noteq> ?p * 3 + 1" "ivp ! j * 3 + h \<noteq> ?p * 3 + 2" using that(2) by presburger+
      then show ?thesis using J that \<open>j < i\<close> by (simp add: st)
    qed
    then show "\<exists>s'. prepare_item 3 fill num_bins items ivp i st = Inr s' \<and> ?J (Suc i) s'"
      using run J len i by (auto simp: st nth_list_update less_Suc_eq)
  qed (use buf in simp)
  then obtain bi buf where st: "rfold (prepare_item 3 fill num_bins items ivp) [0..<?m] (replicate ?m [], buf0) = Inr (bi, buf)"
    "length bi = ?m" "length buf = ?m * 3" "\<And>j. j < ?m \<Longrightarrow> bi ! j = bins (?y j)"
    "\<And>j h. j < ?m \<Longrightarrow> h < 3 \<Longrightarrow> repeated num_bins (?y j) h \<Longrightarrow> buf ! (ivp ! j * 3 + h) = fill (ivp ! j * 3 + h)" by auto
  have "slot_inv F num_bins input n fill items perm bi buf p h" if "p < ?m" "h < 3" for p h
  proof (cases "repeated num_bins (?y (perm ! p)) h")
    case True
    then show ?thesis
      using st(4) [OF perm'(2) [OF that(1)]] st(5) [OF perm'(2) [OF that(1)] that(2) True] inv(2) that bins(3) [OF that(2), of "?y (perm ! p)"]
      by (simp add: slot_inv_def sent_code_def Let_def)
  next
    case False
    then have u: "unat (bins (?y (perm ! p)) ! h) = slot_of num_bins (?y (perm ! p)) h" using bins(3) [OF that(2), of "?y (perm ! p)"] by simp
    then have "bins (?y (perm ! p)) ! h \<noteq> - 1" using minus_one_large slot_of_less [OF nb] by (metis order_refl)
    then show ?thesis using st(4) [OF perm'(2) [OF that(1)]] u False by (simp add: slot_inv_def Let_def)
  qed
  moreover have "\<forall>bs \<in> set bi. length bs = 3" using st(2,4) bins(2) by (metis in_set_conv_nth)
  ultimately show ?thesis using st by (auto simp: enc_inv_def)
qed

section \<open>Sending and matching the codes\<close>

lemma encode_rest_range:
  assumes view: "ot_view ot rin rsh bin sin F" and s: "sin s = map input [0..<unat num_bins]"
    and nb: "num_bins \<noteq> 0" and perm: "permutes perm (length items)" and j: "i \<le> j" "j \<le> length items"
    and inv: "enc_inv F num_bins input n fill items perm (bi, buf)"
  shows "\<exists>buf'. rfold (encode_rest ot s 3 n items perm bi) [i..<j] buf = Inr buf' \<and> enc_inv F num_bins input n fill items perm (bi, buf') \<and>
     (\<forall>p h. i \<le> p \<and> p < j \<and> h < 3 \<longrightarrow> buf' ! (p * 3 + h) = sent_code F num_bins input n fill items perm p h)"
  using j
proof (induction j rule: dec_induct)
  case base
  then show ?case using inv by auto
next
  case (step j)
  then obtain buf1 where b1: "rfold (encode_rest ot s 3 n items perm bi) [i..<j] buf = Inr buf1" "enc_inv F num_bins input n fill items perm (bi, buf1)"
    "\<forall>p h. i \<le> p \<and> p < j \<and> h < 3 \<longrightarrow> buf1 ! (p * 3 + h) = sent_code F num_bins input n fill items perm p h" by auto
  obtain buf2 where b2: "encode_rest ot s 3 n items perm bi j buf1 = Inr buf2" "enc_inv F num_bins input n fill items perm (bi, buf2)"
    "\<forall>h < 3. buf2 ! (j * 3 + h) = sent_code F num_bins input n fill items perm j h" "\<forall>q. q div 3 \<noteq> j \<longrightarrow> buf2 ! q = buf1 ! q"
    using encode_rest_ok [OF view s nb perm _ b1(2), of j] step.prems by auto
  have "buf2 ! (p * 3 + h) = sent_code F num_bins input n fill items perm p h" if "i \<le> p" "p < Suc j" "h < 3" for p h
    using b1(3) b2(3,4) that by (cases "p = j") auto
  then show ?case using b1(1) b2 step.hyps by auto
qed

text \<open>What the codes of one item contribute to the result.\<close>

definition item_result :: "oprf_map list \<Rightarrow> (nat \<Rightarrow> nat \<Rightarrow> string) \<Rightarrow> (nat \<Rightarrow> nat) \<Rightarrow> nat \<Rightarrow> (nat \<times> nat) list" where
  "item_result maps code cnt p = concat (map (\<lambda>h. case (maps ! h) (code p h) of None \<Rightarrow> []
     | Some ix \<Rightarrow> [(ix, if 1 < cnt p then cnt p else 0)]) [0..<3])"

lemma match_batch_ok:
  assumes maps: "length maps = 3" and len: "\<And>p h. h < 3 \<Longrightarrow> length (code p h) = n"
    and batch: "pb_item_num batch = num" "pb_flatten_bytes batch = concat (map (\<lambda>q. code (i + q div 3) (q mod 3)) [0..<num * 3])"
    "pb_duplicate_item_cnt batch = (\<lambda>j. if j < num \<and> 1 < cnt (i + j) then Some (cnt (i + j)) else None)"
  shows "match_batch 3 n maps batch ret = Inr (ret @ concat (map (item_result maps code cnt) [i..<i + num]))"
proof -
  let ?xs = "map (\<lambda>q. code (i + q div 3) (q mod 3)) [0..<num * 3]"
  have l: "\<forall>x \<in> set ?xs. length x = n" using len by auto
  have "length (concat ?xs) = num * 3 * n"
    using l by (simp add: length_concat comp_def len sum_list_triv)
  moreover have sub: "take n (drop ((j * 3 + h) * n) (concat ?xs)) = code (i + j) h" if "j < num" "h < 3" for j h
  proof -
    have q: "j * 3 + h < num * 3" using slot_bound [OF that] .
    have "map (\<lambda>i. take n (drop (i * n) (concat ?xs))) [0..<length ?xs] ! (j * 3 + h) = ?xs ! (j * 3 + h)"
      by (simp only: chunks_concat [OF l])
    then show ?thesis using q that by simp
  qed
  moreover have "rfold (\<lambda>h ret. let e = take n (drop ((j * 3 + h) * n) (pb_flatten_bytes batch)) in rbind (at maps h) (\<lambda>m. Inr (case m e of
         None \<Rightarrow> ret | Some index \<Rightarrow> ret @ [(index, case pb_duplicate_item_cnt batch j of None \<Rightarrow> 0 | Some c \<Rightarrow> c)]))) [0..<3] ret =
      Inr (ret @ item_result maps code cnt (i + j))" if "j < num" for j ret
    unfolding item_result_def
    by (rule rfold_append_lists) (use maps sub that batch(3) in \<open>auto simp: batch(2) split: option.splits\<close>)
  then have "rfold (\<lambda>j. rfold (\<lambda>h ret. let e = take n (drop ((j * 3 + h) * n) (pb_flatten_bytes batch)) in rbind (at maps h) (\<lambda>m. Inr (case m e of
         None \<Rightarrow> ret | Some index \<Rightarrow> ret @ [(index, case pb_duplicate_item_cnt batch j of None \<Rightarrow> 0 | Some c \<Rightarrow> c)]))) [0..<3]) [0..<num] ret =
      Inr (ret @ concat (map (\<lambda>j. item_result maps code cnt (i + j)) [0..<num]))"
    by (intro rfold_append_lists) simp
  moreover have "map (\<lambda>j. item_result maps code cnt (i + j)) [0..<num] = map (item_result maps code cnt) [i..<i + num]"
    by (intro nth_equalityI) simp_all
  ultimately show ?thesis
    by (simp add: match_batch_def batch(1,2) mult.assoc)
qed

lemma send_match_ok:
  assumes view: "ot_view ot rin rsh bin sin F" and s: "sin s = map input [0..<unat num_bins]"
    and nb: "num_bins \<noteq> 0" and perm: "permutes perm (length items)" and B: "0 < B" and maps: "length maps = 3"
    and fill: "\<And>k. length (fill k) = n" and inv: "enc_inv F num_bins input n fill items perm (bi, buf)"
  shows "\<exists>msgs. send_batches ot s B 3 n items perm bi i buf = Some (Inr msgs) \<and>
     (i < length items \<longrightarrow> (\<forall>ret. match_batches 3 n maps msgs ret = Inr (ret @ concat (map (item_result maps
        (sent_code F num_bins input n fill items perm) (\<lambda>p. pi_cnt (items ! (perm ! p)))) [i..<length items]))))"
  using inv
proof (induction "length items - i" arbitrary: i buf rule: less_induct)
  case less
  let ?m = "length items" and ?C = "sent_code F num_bins input n fill items perm" and ?cnt = "\<lambda>p. pi_cnt (items ! (perm ! p))"
  let ?res = "item_result maps ?C ?cnt"
  show ?case
  proof (cases "i < ?m")
    case False
    then show ?thesis by (simp add: send_batches.simps)
  next
    case True
    define num where "num = min B (?m - i)"
    have num: "0 < num" "i + num \<le> ?m" using True B by (auto simp: num_def)
    obtain buf' where buf': "rfold (encode_rest ot s 3 n items perm bi) [i..<i + num] buf = Inr buf'" "enc_inv F num_bins input n fill items perm (bi, buf')"
      "\<forall>p h. i \<le> p \<and> p < i + num \<and> h < 3 \<longrightarrow> buf' ! (p * 3 + h) = ?C p h"
      using encode_rest_range [OF view s nb perm le_add1 num(2) less.prems] by auto
    obtain msgs where msgs: "send_batches ot s B 3 n items perm bi (i + num) buf' = Some (Inr msgs)"
      "i + num < ?m \<Longrightarrow> match_batches 3 n maps msgs ret = Inr (ret @ concat (map ?res [i + num..<?m]))" for ret
      using less.hyps [OF diff_less_mono2 [OF _ True] buf'(2), of "i + num"] num(1) by auto
    let ?flat = "concat (take (num * 3) (drop (i * 3) buf'))"
    let ?batch = "\<lparr> pb_item_num = num, pb_flatten_bytes = ?flat, pb_batch_index = 0, pb_is_last_batch = (i + num = ?m), pb_type = [],
        pb_duplicate_item_cnt = (\<lambda>j. if j < num \<and> 1 < ?cnt (i + j) then Some (?cnt (i + j)) else None) \<rparr>"
    have send: "send_batches ot s B 3 n items perm bi i buf = Some (Inr (?batch # msgs))"
      using True buf'(1) msgs(1) by (subst send_batches.simps) (simp add: num_def [symmetric])
    have "take (num * 3) (drop (i * 3) buf') = map (\<lambda>q. ?C (i + q div 3) (q mod 3)) [0..<num * 3]"
    proof (rule nth_equalityI)
      have lb: "length buf' = ?m * 3" using buf'(2) by (simp add: enc_inv_def)
      then show "length (take (num * 3) (drop (i * 3) buf')) = length (map (\<lambda>q. ?C (i + q div 3) (q mod 3)) [0..<num * 3])" using num by simp
      fix q assume "q < length (take (num * 3) (drop (i * 3) buf'))"
      then have q: "q < num * 3" by simp
      then have "q div 3 < num" by linarith
      then show "take (num * 3) (drop (i * 3) buf') ! q = map (\<lambda>q. ?C (i + q div 3) (q mod 3)) [0..<num * 3] ! q"
        using buf'(3) [rule_format, of "i + q div 3" "q mod 3"] q lb num by (simp add: algebra_simps)
    qed
    moreover have "length (?C p h) = n" for p h using fill ot_viewD(9) [OF view] by (simp add: sent_code_def Let_def)
    ultimately have mb: "match_batch 3 n maps ?batch ret = Inr (ret @ concat (map ?res [i..<i + num]))" for ret
      by (intro match_batch_ok maps) simp_all
    have split: "[i..<?m] = [i..<i + num] @ [i + num..<?m]" using num(2) upt_add_eq_append [of i "i + num" "?m - (i + num)"] by simp
    have "match_batches 3 n maps (?batch # msgs) ret = Inr (ret @ concat (map ?res [i..<?m]))" for ret
      using mb msgs(2) num(2) by (subst split) (cases "i + num = ?m"; simp)
    with send show ?thesis by blast
  qed
qed

section \<open>Looking the codes up\<close>

lemma concat_single:
  assumes "k < n" "\<And>h. h < n \<Longrightarrow> h \<noteq> k \<Longrightarrow> g h = []"
  shows "concat (map g [0..<n]) = g k"
proof -
  have "[0..<n] = [0..<k] @ k # [Suc k..<n]"
    using assms(1) by (metis upt_conv_Cons upt_add_eq_append le0 add_diff_inverse_nat not_less_iff_gr_or_eq)
  moreover have "concat (map g [0..<k]) = []" "concat (map g [Suc k..<n]) = []" using assms by auto
  ultimately show ?thesis by (simp only: map_append concat_append list.map concat.simps append_Nil append_Nil2)
qed

lemma code_lookup:
  assumes t: "stashless num_bins t" and ok: "codes_ok F n num_bins t (unat num_bins) maps"
    and sep: "codes_separate F fill (unat num_bins) n (set (ci_hashes t)) Y"
    and y: "y \<in> Y" "y = pi_data (items ! (perm ! p))" and h: "h < 3"
  shows "(maps ! h) (sent_code F num_bins (bin_input t) n fill items perm p h) = Some i \<longleftrightarrow>
     \<not> repeated num_bins y h \<and> occupied t (slot_of num_bins y h) i \<and> ci_hashes t ! i = y"
proof -
  let ?c = "sent_code F num_bins (bin_input t) n fill items perm p h" and ?x = "ci_hashes t ! i"
  note nb = stashless_bins [OF t]
  have slot: "slot_of num_bins y h < unat num_bins" by (rule slot_of_less [OF nb(2)])
  have "(maps ! h) ?c = Some i \<longleftrightarrow> (\<exists>b < unat num_bins. occupied t b i \<and> ?c = F b (Some ?x) ?x n \<and> h = (LEAST h. slot_of num_bins ?x h = b))"
    using ok h by (simp add: codes_ok_def)
  also have "\<dots> \<longleftrightarrow> \<not> repeated num_bins y h \<and> occupied t (slot_of num_bins y h) i \<and> ?x = y"
  proof
    assume "\<exists>b < unat num_bins. occupied t b i \<and> ?c = F b (Some ?x) ?x n \<and> h = (LEAST h. slot_of num_bins ?x h = b)"
    then obtain b where b: "b < unat num_bins" "occupied t b i" "?c = F b (Some ?x) ?x n" by blast
    have x: "?x \<in> set (ci_hashes t)" using occupied_item(1) [OF t b(2)] by simp
    have nr: "\<not> repeated num_bins y h" using sep b(1,3) x y(2) by (auto simp: codes_separate_def sent_code_def)
    have "bin_input t (slot_of num_bins y h) \<in> insert None (Some ` set (ci_hashes t))"
    proof (cases "Bin_IsEmpty (ci_bins t ! slot_of num_bins y h)")
      case False
      then have "occupied t (slot_of num_bins y h) (unat (Bin_InputIdx (ci_bins t ! slot_of num_bins y h)))"
        using slot nb by (simp add: occupied_def)
      from occupied_item(1,3) [OF t this] show ?thesis by auto
    qed (simp add: bin_input_def)
    from codes_separateD [OF sep _ slot b(1) x _ this, of y] nr b(2,3) y show "\<not> repeated num_bins y h \<and> occupied t (slot_of num_bins y h) i \<and> ?x = y"
      by (auto simp: sent_code_def Let_def)
  next
    assume r: "\<not> repeated num_bins y h \<and> occupied t (slot_of num_bins y h) i \<and> ?x = y"
    then have "(LEAST h'. slot_of num_bins ?x h' = slot_of num_bins y h) = h"
      by (intro Least_equality) (auto simp: repeated_def intro!: leI)
    then show "\<exists>b < unat num_bins. occupied t b i \<and> ?c = F b (Some ?x) ?x n \<and> h = (LEAST h. slot_of num_bins ?x h = b)"
      using r slot y(2) occupied_item(3) [OF t, of "slot_of num_bins y h" i] by (auto simp: sent_code_def Let_def intro!: exI [of _ "slot_of num_bins y h"])
  qed
  finally show ?thesis .
qed

lemma item_result_ok:
  assumes t: "stashless num_bins t" and ok: "codes_ok F n num_bins t (unat num_bins) maps"
    and sep: "codes_separate F fill (unat num_bins) n (set (ci_hashes t)) Y" and dist: "distinct (ci_hashes t)"
    and y: "y \<in> Y" "y = pi_data (items ! (perm ! p))"
  shows "item_result maps (sent_code F num_bins (bin_input t) n fill items perm) cnt p =
     (case find (\<lambda>i. ci_hashes t ! i = y) [0..<length (ci_hashes t)] of None \<Rightarrow> [] | Some i \<Rightarrow> [(i, if 1 < cnt p then cnt p else 0)])"
proof (cases "find (\<lambda>i. ci_hashes t ! i = y) [0..<length (ci_hashes t)]")
  case None
  then have "\<not> (occupied t b i \<and> ci_hashes t ! i = y)" for b i
    using occupied_item(1) [OF t] by (auto simp: find_None_iff)
  then have "(maps ! h) (sent_code F num_bins (bin_input t) n fill items perm p h) = None" if "h < 3" for h
    using code_lookup [OF t ok sep y that] by (metis not_None_eq)
  then show ?thesis using None by (auto simp: item_result_def)
next
  case (Some i)
  then have i: "i < length (ci_hashes t)" "ci_hashes t ! i = y" by (auto simp: find_Some_iff)
  obtain b where b: "occupied t b i" and uniq: "\<And>b'. occupied t b' i \<Longrightarrow> b' = b" using occupied_unique [OF t i(1)] by blast
  note min = MinColliding_occupied(2-4) [OF t b, unfolded i(2)]
  let ?k = "LEAST h. slot_of num_bins y h = b"
  let ?look = "\<lambda>h. (maps ! h) (sent_code F num_bins (bin_input t) n fill items perm p h)"
  have k: "?look ?k = Some i" using code_lookup [OF t ok sep y min(1), of i] min b i(2) by simp
  have other: "?look h = None" if h: "h < 3" "h \<noteq> ?k" for h
  proof (rule ccontr)
    assume "?look h \<noteq> None"
    then obtain j where "?look h = Some j" by blast
    then have j: "\<not> repeated num_bins y h" "occupied t (slot_of num_bins y h) j" "ci_hashes t ! j = y"
      using code_lookup [OF t ok sep y h(1)] by auto
    then have "j = i" using dist i occupied_item(1) [OF t j(2)] by (metis nth_eq_iff_index_eq)
    then have "slot_of num_bins y h = b" using uniq j(2) by simp
    then have "?k < h" using h(2) Least_le [of "\<lambda>h. slot_of num_bins y h = b" h] by simp
    then show False using j(1) min(3) \<open>slot_of num_bins y h = b\<close> by (auto simp: repeated_def)
  qed
  show ?thesis
    unfolding item_result_def
    by (subst concat_single [of ?k 3]) (use min(1) k other Some in auto)
qed

section \<open>The protocol\<close>

text \<open>The position of a hash among the receiver's.\<close>

definition hash_index :: "128 word list \<Rightarrow> 128 word \<Rightarrow> nat option" where
  "hash_index xs y = find (\<lambda>i. xs ! i = y) [0..<length xs]"

text \<open>
  The sender: with the corrections of the receiver, and once the receiving thread is seen to have all of
  them, it sends batches whose codes the receiver's maps turn into the matches of the sender's items.
\<close>

lemma KkrtPsiSend_ok:
  assumes view: "ot_view ot rin rsh bin sin F" and t: "stashless num_bins t"
    and opts: "ko_cuckoo_hash_num o' = 3" "ko_stash_size o' = 0" "0 < ko_psi_batch_size o'" "ot_size = 512"
    and n: "n = KkrtEncodeSize log2l (ko_stat_sec_param o') (length items) (length (ci_hashes t))"
    and sel: "CuckooIndex_SelectParams expansion (of_nat (length (ci_hashes t))) 0 3 40 = Inr option" "Options_NumBins option = num_bins"
    and ne: "ci_hashes t \<noteq> []" "items \<noteq> []"
    and sep: "codes_separate F fill (unat num_bins) n (set (ci_hashes t)) (pi_data ` set items)" and dist: "distinct (ci_hashes t)"
    and ok: "codes_ok F n num_bins t (unat num_bins) maps"
    and bufs: "map bin bufs = map (\<lambda>k. take kKkrtOtBatchSize (drop (k * kKkrtOtBatchSize) (inputs_of num_bins t)))
       [0..<(unat num_bins + kKkrtOtBatchSize - 1) div kKkrtOtBatchSize]"
    and perm: "permutes perm (length items)"
    and obs: "\<forall>k \<in> set obs. k \<le> length bufs" "length bufs \<in> set obs"
  shows "\<exists>msgs. KkrtPsiSend expansion log2l ot o' ot_size items (length (ci_hashes t)) perm fill buf0 obs bufs = Some (Inr msgs) \<and>
     match_batches 3 n maps msgs [] = Inr (concat (map (\<lambda>p. let item = items ! p in
        case hash_index (ci_hashes t) (pi_data item) of None \<Rightarrow> [] | Some i \<Rightarrow> [(i, if 1 < pi_cnt item then pi_cnt item else 0)]) perm))"
proof -
  let ?N = "unat num_bins" and ?m = "length items" and ?in = "inputs_of num_bins t" and ?B = kKkrtOtBatchSize
  let ?s0 = "kot_SenderInit ot ?N"
  have B: "0 < ?B" by (simp add: kKkrtOtBatchSize_def)
  note nb = stashless_bins [OF t]
  obtain steps where steps: "correction_steps ot ?B ?N 0 ?s0 bufs = Inr steps" "\<forall>step \<in> set steps. step_ok sin ?in step"
    "fst (last ((0, ?s0) # steps)) = ?N" and lens: "length steps = length bufs"
    using correction_steps_ok [OF view B, of bufs ?in 0 ?s0] bufs by (auto simp: ot_viewD(3) [OF view])
  obtain ivp where ivp: "inverse_permutation perm = Inr ivp" "length ivp = ?m" "\<forall>p < ?m. ivp ! (perm ! p) = p"
    using inverse_permutation_ok [OF perm] by blast
  obtain st where st: "rfold (prepare_item 3 fill num_bins items ivp) [0..<?m] (replicate ?m [], map buf0 [0..<?m * 3]) = Inr st"
    "enc_inv F num_bins (bin_input t) n fill items perm st"
    using prepare_ok [OF nb(2) perm ivp(2,3), where ?buf0.0 = "map buf0 [0..<?m * 3]" and F = F and input = "bin_input t" and n = n and fill = fill]
    by auto
  let ?steps = "(0, ?s0) # steps"
  have sok: "\<forall>step \<in> set ?steps. step_ok sin ?in step" using steps(2) by (simp add: step_ok_def ot_viewD(3) [OF view])
  have last: "?steps ! length bufs = last ?steps" using lens last_conv_nth [of ?steps] by (simp del: last.simps)
  obtain bi buf where loop: "encode_loop ot ?B ?N 3 n items perm ?steps (hd ?steps) obs (0, st) = Some (Inr (bi, buf))"
    "enc_inv F num_bins (bin_input t) n fill items perm (bi, buf)"
    using encode_loop_ok [OF view sok perm, of obs "hd ?steps" "(0, st)" n fill ?B] obs steps(3) last lens ne(2) st(2) sok
    by fastforce
  have "step_ok sin ?in (last ?steps)" using sok last_in_set [of ?steps] by blast
  then have s: "sin (snd (last ?steps)) = ?in" using steps(3) by (simp add: step_ok_def)
  have fill: "length (fill k) = n" for k using sep by (simp add: codes_separate_def)
  have maps: "length maps = 3" using ok by (simp add: codes_ok_def)
  obtain msgs where msgs: "send_batches ot (snd (last ?steps)) (ko_psi_batch_size o') 3 n items perm bi 0 buf = Some (Inr msgs)"
    "match_batches 3 n maps msgs [] = Inr (concat (map (item_result maps (sent_code F num_bins (bin_input t) n fill items perm) (\<lambda>p. pi_cnt (items ! (perm ! p)))) [0..<?m]))"
    using send_match_ok [OF view s nb(2) perm opts(3) maps fill loop(2), of 0] ne(2) by auto
  have "KkrtPsiSend expansion log2l ot o' ot_size items (length (ci_hashes t)) perm fill buf0 obs bufs = Some (Inr msgs)"
    using opts ne sel steps(1) ivp(1) st(1) loop(1) msgs(1)
    by (cases st) (simp add: KkrtPsiSend_def check_options_def n [symmetric] Let_def del: last.simps)
  moreover have "item_result maps (sent_code F num_bins (bin_input t) n fill items perm) (\<lambda>p. pi_cnt (items ! (perm ! p))) p =
      (let item = items ! (perm ! p) in case hash_index (ci_hashes t) (pi_data item) of None \<Rightarrow> [] | Some i \<Rightarrow> [(i, if 1 < pi_cnt item then pi_cnt item else 0)])"
    if "p < ?m" for p
    using item_result_ok [OF t ok sep dist _ refl, of items perm p "\<lambda>p. pi_cnt (items ! (perm ! p))"] permutesD(2) [OF perm that]
    by (simp add: hash_index_def Let_def)
  then have "map (item_result maps (sent_code F num_bins (bin_input t) n fill items perm) (\<lambda>p. pi_cnt (items ! (perm ! p)))) [0..<?m] =
      map (\<lambda>p. let item = items ! p in case hash_index (ci_hashes t) (pi_data item) of None \<Rightarrow> [] | Some i \<Rightarrow> [(i, if 1 < pi_cnt item then pi_cnt item else 0)]) perm"
    by (intro map_upt_eqI) (simp_all add: permutesD(1) [OF perm])
  ultimately show ?thesis using msgs(2) by (intro exI [of _ msgs]) simp
qed

lemma inserted_stashless:
  assumes "CuckooIndex_SelectParams expansion (of_nat (length xs)) 0 3 40 = Inr option" "Options_NumBins option \<noteq> 0" "length xs \<le> 2 ^ 56"
    and "rbind (CuckooIndex_new option) (\<lambda>table. CuckooIndex_Insert table xs) = Inr t"
  shows "stashless (Options_NumBins option) t" "ci_hashes t = xs" "\<exists>t0. CuckooIndex_new option = Inr t0 \<and> CuckooIndex_Insert t0 xs = Inr t"
proof -
  have opt: "num_hash option = 3" "num_input option = of_nat (length xs)" "num_stash option = 0"
    using assms(1) by (auto simp: CuckooIndex_SelectParams_def split: if_splits)
  then have ok: "Options_ok option" using assms(2,3) by (simp add: Options_ok_def word_le_nat_alt)
  obtain t0 where t0: "CuckooIndex_new option = Inr t0" "CuckooIndex_wf t0" "ci_options t0 = option" "ci_hashes t0 = []"
    using CuckooIndex_new_wf [OF ok] by metis
  have ins: "CuckooIndex_Insert t0 xs = Inr t" using assms(4) t0(1) by simp
  with t0(1) show "\<exists>t0. CuckooIndex_new option = Inr t0 \<and> CuckooIndex_Insert t0 xs = Inr t" by blast
  have t: "CuckooIndex_wf t" "ci_options t = option" "ci_hashes t = xs"
    using Insert_cases [OF t0(2), of xs] t0(3,4) opt(2) assms(3) ins by auto
  then have "ci_stash t = []" by (simp add: CuckooIndex_wf_def opt(3))
  with t opt(1) show "stashless (Options_NumBins option) t" "ci_hashes t = xs" by (simp_all add: stashless_def)
qed

text \<open>All matches of the sender's items, with the extra duplicates.\<close>

definition hash_matches :: "128 word list \<Rightarrow> PsiItemHash list \<Rightarrow> (nat \<times> nat) list" where
  "hash_matches xs items = List.map_filter (\<lambda>item. map_option (\<lambda>i. (i, pi_cnt item - 1)) (hash_index xs (pi_data item))) items"

lemma KkrtPsi_pair_ok:
  fixes xs :: "128 word list"
  assumes ot: "kkrt_ot_ok ot F" and ne: "xs \<noteq> []" "items \<noteq> []" and dist: "distinct xs" and len: "length xs \<le> 2 ^ 56"
    and sel: "CuckooIndex_SelectParams expansion (of_nat (length xs)) 0 3 40 = Inr option" "Options_NumBins option \<noteq> 0"
    and ins: "rbind (CuckooIndex_new option) (\<lambda>table. CuckooIndex_Insert table xs) = Inr t"
    and sep: "codes_separate F fill (unat (Options_NumBins option)) (KkrtEncodeSize log2l 40 (length xs) (length items)) (set xs) (pi_data ` set items)"
    and perm: "permutes perm (length items)"
    and K: "K = (unat (Options_NumBins option) + kKkrtOtBatchSize - 1) div kKkrtOtBatchSize" "\<forall>k \<in> set obs. k \<le> K" "K \<in> set obs"
  shows "\<exists>R. KkrtPsi_pair expansion log2l ot GetDefaultKkrtPsiOptions 512 perm fill buf0 obs xs items = Some (Inr (map fst R, map snd R)) \<and>
     mset R = mset (hash_matches xs items)"
proof -
  let ?o = GetDefaultKkrtPsiOptions and ?B = kKkrtOtBatchSize and ?nb = "Options_NumBins option"
  let ?n = "KkrtEncodeSize log2l 40 (length xs) (length items)"
  obtain rin rsh bin sin where view: "ot_view ot rin rsh bin sin F" using ot by (auto simp: kkrt_ot_ok_def)
  note t = inserted_stashless [OF sel len ins]
  have B: "0 < ?B" by (simp add: kKkrtOtBatchSize_def)
  obtain maps bufs where enc: "encode_bins ot t xs ?n ?B = Inr (maps, bufs)" "codes_ok F ?n ?nb t (unat ?nb) maps"
    "map bin bufs = map (\<lambda>k. take ?B (drop (k * ?B) (inputs_of ?nb t))) [0..<(unat ?nb + ?B - 1) div ?B]"
    using encode_bins_ok [OF view t(1) _ B, of fill ?n "pi_data ` set items"] sep unfolding t(2) by blast
  have lb: "length bufs = K" using arg_cong [OF enc(3), of length] K(1) by simp
  let ?f = "\<lambda>item. case hash_index xs (pi_data item) of None \<Rightarrow> [] | Some i \<Rightarrow> [(i, if 1 < pi_cnt item then pi_cnt item else 0)]"
  obtain msgs where msgs: "KkrtPsiSend expansion log2l ot ?o 512 items (length xs) perm fill buf0 obs bufs = Some (Inr msgs)"
    "match_batches 3 ?n maps msgs [] = Inr (concat (map (\<lambda>p. ?f (items ! p)) perm))"
    using KkrtPsiSend_ok [OF view t(1), of ?o 512 ?n log2l items expansion option fill maps bufs perm obs buf0]
      sel(1) ne dist sep enc(2,3) perm K(2,3) lb unfolding t(2)
    by (auto simp: GetDefaultKkrtPsiOptions_def kPsiDataBatchSize_def KkrtEncodeSize_def mult.commute Let_def)
  have st: "ci_stash t = []" using t(1) by (simp add: stashless_def)
  let ?ret = "concat (map (\<lambda>p. ?f (items ! p)) perm)"
  define R where "R = map (\<lambda>(i, c). (i, if 1 < c then c - 1 else 0)) ?ret"
  have "KkrtPsi_pair expansion log2l ot ?o 512 perm fill buf0 obs xs items = Some (Inr (map fst R, map snd R))"
    using msgs sel(1) enc(1) t(3) ne st
    by (auto simp: KkrtPsi_pair_def KkrtPsiRecvIndices_def check_options_def GetDefaultKkrtPsiOptions_def KkrtPsiRecv_def R_def comp_def case_prod_beta')
  moreover have "mset R = mset (hash_matches xs items)"
  proof -
    have "R = concat (map (\<lambda>p. case map_option (\<lambda>i. (i, pi_cnt (items ! p) - 1)) (hash_index xs (pi_data (items ! p))) of None \<Rightarrow> [] | Some r \<Rightarrow> [r]) perm)"
      unfolding R_def map_concat map_map by (rule arg_cong [of _ _ concat], rule map_cong) (auto split: option.splits)
    also have "mset \<dots> = mset (concat (map (\<lambda>p. case map_option (\<lambda>i. (i, pi_cnt (items ! p) - 1)) (hash_index xs (pi_data (items ! p))) of None \<Rightarrow> [] | Some r \<Rightarrow> [r]) [0..<length items]))"
      using perm by (simp add: permutes_def mset_concat sum_list_mset_cong [of perm])
    also have "map (\<lambda>p. case map_option (\<lambda>i. (i, pi_cnt (items ! p) - 1)) (hash_index xs (pi_data (items ! p))) of None \<Rightarrow> [] | Some r \<Rightarrow> [r]) [0..<length items] =
        map (\<lambda>item. case map_option (\<lambda>i. (i, pi_cnt item - 1)) (hash_index xs (pi_data item)) of None \<Rightarrow> [] | Some r \<Rightarrow> [r]) items"
      by (rule nth_equalityI) (simp_all split: option.split)
    also have "concat \<dots> = hash_matches xs items"
      unfolding hash_matches_def by (induction items) (auto simp: map_filter_simps split: option.splits)
    finally show ?thesis .
  qed
  ultimately show ?thesis by blast
qed

text \<open>
  C12. The KKRT protocol on one bucket is correct: with a working transfer extension and without colliding
  codes, once the receiver's items fit in its cuckoo table, the run of both parties ends
  and the receiver gets, for every sender item that it has too, the position of its own item exactly once, with
  the sender's number of extra duplicates, and nothing else. This holds for every permutation of the
  sender's items, every content of the fresh buffer, and every interleaving of the thread that receives
  the corrections with the encoding loop in which the loop eventually sees all corrections.
\<close>

theorem KkrtPsi_pair_correct:
  fixes xs :: "128 word list"
  assumes "kkrt_ot_ok ot F" "xs \<noteq> []" "items \<noteq> []" "distinct xs" "length xs \<le> 2 ^ 56"
    and "CuckooIndex_SelectParams expansion (of_nat (length xs)) 0 3 40 = Inr option" "Options_NumBins option \<noteq> 0"
    and "rbind (CuckooIndex_new option) (\<lambda>table. CuckooIndex_Insert table xs) = Inr t"
    and "codes_separate F fill (unat (Options_NumBins option)) (KkrtEncodeSize log2l 40 (length xs) (length items)) (set xs) (pi_data ` set items)"
    and "permutes perm (length items)"
    and "K = (unat (Options_NumBins option) + kKkrtOtBatchSize - 1) div kKkrtOtBatchSize" "\<forall>k \<in> set obs. k \<le> K" "K \<in> set obs"
  shows "\<exists>R. KkrtPsi_pair expansion log2l ot GetDefaultKkrtPsiOptions 512 perm fill buf0 obs xs items = Some (Inr (map fst R, map snd R)) \<and>
     mset R = mset (hash_matches xs items)"
  by (rule KkrtPsi_pair_ok [OF assms])

text \<open>A transfer extension in the clear: it hides nothing, but has the required behaviour.\<close>

definition clear_code :: "nat \<Rightarrow> 128 word option \<Rightarrow> 128 word \<Rightarrow> nat \<Rightarrow> string" where
  "clear_code b x y n = take n ([char_of b, char_of (unat y mod 256), if x = Some y then CHR ''='' else CHR ''!''] @ replicate n (CHR ''0''))"

definition clear_ot :: "(128 word option list, 128 word option list \<times> nat, 128 word option list) KkrtOt" where
  "clear_ot = \<lparr> kot_SenderInit = (\<lambda>n. []), kot_SetCorrection = (\<lambda>buf k s. s @ take k buf),
     kot_SenderEncode = (\<lambda>s b y n. clear_code b (s ! b) y n), kot_ReceiverInit = (\<lambda>n. ([], 0)),
     kot_ReceiverEncode = (\<lambda>b x n (l, k). (clear_code b (Some x) x n, l @ [Some x], k)),
     kot_ZeroEncode = (\<lambda>b (l, k). (l @ [None], k)), kot_ShiftCorrection = (\<lambda>j (l, k). (take j (drop k l), l, k + j)) \<rparr>"

lemma clear_ot_ok: "kkrt_ot_ok clear_ot clear_code"
  unfolding kkrt_ot_ok_def
  by (intro exI [of _ fst] exI [of _ snd] exI [of _ id]) (auto simp: ot_view_def clear_ot_def clear_code_def min_def)

definition example_expansion :: "64 word \<Rightarrow> 64 word \<Rightarrow> 64 word \<Rightarrow> 64 word" where
  "example_expansion n stat m = 2 * m"

definition example_items :: "PsiItemHash list" where
  "example_items = [\<lparr> pi_data = 8, pi_cnt = 3 \<rparr>, \<lparr> pi_data = 9, pi_cnt = 1 \<rparr>]"

lemma clear_code_6:
  "clear_code b x y 6 = [char_of b, char_of (unat y mod 256), if x = Some y then CHR ''='' else CHR ''!''] @ replicate 3 (CHR ''0'')"
  by (simp add: clear_code_def)

lemma clear_codes_separate:
  assumes "N \<le> 256" "\<forall>y \<in> X \<union> Y. unat y < 256"
  shows "codes_separate clear_code (\<lambda>k. replicate 6 (CHR ''?'')) N 6 X Y"
proof -
  have inj: "char_of b = (char_of b' :: char) \<longleftrightarrow> b = b'" if "b < 256" "b' < 256" for b b' :: nat
    using that by (simp add: char_of_eq_iff take_bit_nat_eq_self)
  have "b = b' \<and> y = x' \<and> x = Some x'"
    if "b < N" "b' < N" "x' \<in> X" "y \<in> X \<union> Y" "clear_code b x y 6 = clear_code b' (Some x') x' 6" for b b' x' y x
  proof -
    have "b = b'" "x = Some y" "(char_of (unat y mod 256) :: char) = char_of (unat x' mod 256)"
      using that(5) inj [of b b'] that(1,2) assms(1) by (auto simp: clear_code_6 split: if_splits)
    then show ?thesis using inj [of "unat y" "unat x'"] assms(2) that(3,4) by (auto simp: word_unat_eq_iff)
  qed
  moreover have "replicate 6 (CHR ''?'') \<noteq> clear_code b (Some x) x 6" for b x
    using nth_replicate [of 2 6 "CHR ''?''"] by (auto simp: clear_code_6 dest!: arg_cong [of _ _ "\<lambda>l. l ! 2"])
  ultimately show ?thesis unfolding codes_separate_def by (metis length_replicate)
qed

theorem KkrtPsi_pair_correct_witness:
  "KkrtPsi_pair example_expansion (\<lambda>_. 2) clear_ot GetDefaultKkrtPsiOptions 512 [1, 0] (\<lambda>k. replicate 6 (CHR ''?'')) (\<lambda>k. []) [0, 1]
     [7, 8] example_items = Some (Inr ([1], [2]))"
proof -
  obtain option where opt: "CuckooIndex_SelectParams example_expansion (of_nat (length [7, 8 :: 128 word])) 0 3 40 = Inr option"
    by (simp add: CuckooIndex_SelectParams_def)
  then have nb: "Options_NumBins option = 12"
    by (auto simp: CuckooIndex_SelectParams_def Options_NumBins_def example_expansion_def)
  have "map_sum id ci_bins (rbind (CuckooIndex_SelectParams example_expansion 2 0 3 40) (\<lambda>option. rbind (CuckooIndex_new option) (\<lambda>table.
      CuckooIndex_Insert table [7, 8]))) = Inr ((replicate 12 (Bin kEmpty))[7 := Bin 0, 8 := Bin 1])"
    by code_simp
  then obtain t where t: "rbind (CuckooIndex_new option) (\<lambda>table. CuckooIndex_Insert table [7, 8]) = Inr t"
    using opt by (cases "rbind (CuckooIndex_new option) (\<lambda>table. CuckooIndex_Insert table [7, 8])") auto
  have sep: "codes_separate clear_code (\<lambda>k. replicate 6 (CHR ''?'')) (unat (Options_NumBins option))
      (KkrtEncodeSize (\<lambda>_. 2) 40 (length [7, 8 :: 128 word]) (length example_items)) (set [7, 8]) (pi_data ` set example_items)"
    using clear_codes_separate [of 12 "{7, 8}" "{8, 9}"] by (simp add: nb KkrtEncodeSize_def example_items_def)
  have m: "hash_matches [7, 8] example_items = [(1, 2)]"
    by (simp add: hash_matches_def hash_index_def example_items_def map_filter_simps)
  have K: "1 = (unat (Options_NumBins option) + kKkrtOtBatchSize - 1) div kKkrtOtBatchSize"
    by (simp add: nb kKkrtOtBatchSize_def)
  have perm: "permutes [1, 0] (length example_items)" by (simp add: permutes_def example_items_def numeral_2_eq_2)
  have "\<exists>R. KkrtPsi_pair example_expansion (\<lambda>_. 2) clear_ot GetDefaultKkrtPsiOptions 512 [1, 0] (\<lambda>k. replicate 6 (CHR ''?'')) (\<lambda>k. []) [0, 1]
      [7, 8] example_items = Some (Inr (map fst R, map snd R)) \<and> mset R = mset (hash_matches [7, 8] example_items)"
    by (rule KkrtPsi_pair_correct [OF clear_ot_ok _ _ _ _ opt _ t sep perm K]) (simp_all add: example_items_def nb)
  then show ?thesis by (auto simp: m)
qed

end
