(* ===== verification/Kkrt_Party.thy ===== *)
theory Kkrt_Party
  imports Kkrt_Psi
begin

text \<open>
  \<open>psi/algorithm/kkrt/receiver.cc\<close> and \<open>sender.cc\<close>: the parties of the KKRT protocol. Pre-processing agrees on a
  number of buckets and writes the keys of the table to a bucket cache; the online phase runs the
  protocol on one bucket after the other, from the first bucket that not both parties have finished,
  and writes the matches to the index file. The run of both parties is one function of both states;
  \<open>None\<close> is a run in which a party waits for ever.

  The locale \<open>bucket_protocol\<close> is what the online phase needs of a protocol on a bucket. It is interpreted
  for KKRT.
\<close>

section \<open>The parties\<close>

record 'c KkrtParty =
  kp_digest_equal :: bool
  kp_bucket_count :: nat
  kp_cache :: "HashBucketCache option"
  kp_writer :: IndexWriter
  kp_recovery :: "'c RecoveryManager option"

text \<open>
  The bucket cache is created with the default \<open>use_scoped_tmp_dir = true\<close>, also with recovery: it does not see
  the bucket files of an earlier run.
\<close>

definition Kkrt_PreProcess ::
  "codec \<Rightarrow> ('p \<Rightarrow> (dup_batch \<times> 'p) result) \<Rightarrow> 'p \<Rightarrow> nat \<Rightarrow> nat list \<Rightarrow> nat \<Rightarrow> 'c KkrtParty
     \<Rightarrow> 'c KkrtParty result option" where
  "Kkrt_PreProcess c rd provider original_key_count key_counts bucket_size party =
     (if kp_digest_equal party then Some (Inr party)
      else case NegotiateBucketNum original_key_count key_counts bucket_size of
             Inl e \<Rightarrow> Some (Inl e)
           | Inr bucket_count \<Rightarrow>
               let done = (\<lambda>cache. party \<lparr> kp_bucket_count := bucket_count, kp_cache := cache,
                     kp_recovery := map_option (\<lambda>m. fst (MarkPreProcessEnd None m)) (kp_recovery party) \<rparr>)
               in if bucket_count > 0
                  then map_option (\<lambda>res. rbind res (\<lambda>cache. Inr (done (Some cache)))) (CreateCacheFromProvider c rd provider [] bucket_count True)
                  else Some (Inr (done None)))"

section \<open>One bucket\<close>

text \<open>\<open>std::vector::at\<close> throws.\<close>

definition vector_at :: "'a list \<Rightarrow> nat \<Rightarrow> 'a result" where
  "vector_at xs i = (if i < length xs then Inr (xs ! i) else Inl (Throw ''out_of_range''))"

definition bucket_items :: "codec \<Rightarrow> nat \<Rightarrow> HashBucketCache \<Rightarrow> HashBucketCache \<Rightarrow> (BucketItem list \<times> BucketItem list) option result" where
  "bucket_items c bucket_idx self peer =
     rbind (HashBucketCache_LoadBucketItems c self bucket_idx) (\<lambda>self_items.
     rbind (HashBucketCache_LoadBucketItems c peer bucket_idx) (\<lambda>peer_items.
     rbind (PrepareBucketData c bucket_idx (length peer_items) self) (\<lambda>a.
     rbind (PrepareBucketData c bucket_idx (length self_items) peer) (\<lambda>b.
     Inr (case (a, b) of (Some x, Some y) \<Rightarrow> Some (x, y) | _ \<Rightarrow> None)))))"

definition item_hashes :: "(string \<Rightarrow> 128 word) \<Rightarrow> BucketItem list \<Rightarrow> 128 word list" where
  "item_hashes blake3 items = map (\<lambda>item. blake3 (base64_data item)) items"

definition item_hash_list :: "(string \<Rightarrow> 128 word) \<Rightarrow> BucketItem list \<Rightarrow> PsiItemHash list" where
  "item_hash_list blake3 items = map (\<lambda>item. \<lparr> pi_data = blake3 (base64_data item), pi_cnt = extra_dup_cnt item + 1 \<rparr>) items"

definition bucket_results ::
  "bool \<Rightarrow> BucketItem list \<Rightarrow> BucketItem list \<Rightarrow> nat list \<times> nat list \<Rightarrow> IndexWriter \<times> IndexWriter \<Rightarrow> (IndexWriter \<times> IndexWriter) result" where
  "bucket_results broadcast items peer_items = (\<lambda>(inter_indexes, duplicate_cnt) (wr, ws).
     rbind (rmap (vector_at items) inter_indexes) (\<lambda>res.
     rbind (if broadcast then BroadcastResult (receiver_items res) ([], \<lambda>_. None) else Inr (([], \<lambda>_. None), ([], \<lambda>_. None))) (\<lambda>(_, received).
     rbind (HandleBucketResultByReceiver res duplicate_cnt wr) (\<lambda>wr'.
     rbind (HandleBucketResultBySender broadcast received peer_items ws) (\<lambda>ws'.
     Inr (wr', ws'))))))"

type_synonym bucket_run = "nat \<Rightarrow> 128 word list \<Rightarrow> PsiItemHash list \<Rightarrow> (nat list \<times> nat list) result option"

definition online_bucket ::
  "codec \<Rightarrow> (string \<Rightarrow> 128 word) \<Rightarrow> bucket_run \<Rightarrow> bool \<Rightarrow> HashBucketCache \<Rightarrow> HashBucketCache \<Rightarrow> nat
     \<Rightarrow> 'c KkrtParty \<times> 'c KkrtParty \<Rightarrow> ('c KkrtParty \<times> 'c KkrtParty) result option" where
  "online_bucket c blake3 run broadcast self peer bucket_idx = (\<lambda>(r, s).
     case bucket_items c bucket_idx self peer of
       Inl e \<Rightarrow> Some (Inl e)
     | Inr None \<Rightarrow> Some (Inr (r, s))
     | Inr (Some (items, peer_items)) \<Rightarrow>
         map_option (\<lambda>res. rbind res (\<lambda>found.
           rbind (bucket_results broadcast items peer_items found (kp_writer r, kp_writer s)) (\<lambda>(wr, ws).
           let mark = map_option (UpdateParsedBucketCount (of_nat (bucket_idx + 1)))
           in Inr (r \<lparr> kp_writer := wr, kp_recovery := mark (kp_recovery r) \<rparr>,
                   s \<lparr> kp_writer := ws, kp_recovery := mark (kp_recovery s) \<rparr>))))
         (run bucket_idx (item_hashes blake3 items) (item_hash_list blake3 peer_items)))"

fun online_buckets ::
  "codec \<Rightarrow> (string \<Rightarrow> 128 word) \<Rightarrow> bucket_run \<Rightarrow> bool \<Rightarrow> HashBucketCache \<Rightarrow> HashBucketCache \<Rightarrow> nat list
     \<Rightarrow> 'c KkrtParty \<times> 'c KkrtParty \<Rightarrow> ('c KkrtParty \<times> 'c KkrtParty) result option" where
  "online_buckets c blake3 run broadcast self peer [] st = Some (Inr st)"
| "online_buckets c blake3 run broadcast self peer (b # bs) st =
     (case online_bucket c blake3 run broadcast self peer b st of
        None \<Rightarrow> None
      | Some (Inl e) \<Rightarrow> Some (Inl e)
      | Some (Inr st') \<Rightarrow> online_buckets c blake3 run broadcast self peer bs st')"

section \<open>The online phase\<close>

text \<open>Whether the phase is over already, and else the bucket to start with.\<close>

definition online_start :: "nat \<Rightarrow> InternalRecoveryRecord list \<Rightarrow> 'c KkrtParty \<Rightarrow> (bool \<times> nat \<times> 'c KkrtParty) result" where
  "online_start rank gathered party =
     (case kp_recovery party of
        None \<Rightarrow> Inr (False, 0, party)
      | Some m \<Rightarrow> rbind (MarkOnlineStart (Some (rank, gathered)) m) (\<lambda>(finished, m').
          Inr (finished, min (unat (bucket_cnt_from_peer m')) (unat (parsed_bucket_count (checkpoint m'))),
               party \<lparr> kp_recovery := Some m' \<rparr>)))"

text \<open>The receiver has rank 0. A party that skips the phase leaves the other one waiting.\<close>

definition Kkrt_Online ::
  "codec \<Rightarrow> (string \<Rightarrow> 128 word) \<Rightarrow> bucket_run \<Rightarrow> bool \<Rightarrow> 'c KkrtParty \<times> 'c KkrtParty \<Rightarrow> ('c KkrtParty \<times> 'c KkrtParty) result option" where
  "Kkrt_Online c blake3 run broadcast = (\<lambda>(r, s).
     if kp_digest_equal r \<noteq> kp_digest_equal s \<or> kp_bucket_count r \<noteq> kp_bucket_count s then None
     else if kp_digest_equal r \<or> kp_bucket_count r = 0 then Some (Inr (r, s))
     else let gathered = (case (kp_recovery r, kp_recovery s) of (Some m, Some m') \<Rightarrow> [recovery_record m, recovery_record m'] | _ \<Rightarrow> [])
          in case (rbind (online_start 0 gathered r) (\<lambda>a. rbind (online_start 1 gathered s) (\<lambda>b. Inr (a, b)))) of
               Inl e \<Rightarrow> Some (Inl e)
             | Inr ((fin, start, r'), (fin', start', s')) \<Rightarrow>
                 if fin \<noteq> fin' \<or> start \<noteq> start' then None
                 else if fin then Some (Inr (r', s'))
                 else (case (kp_cache r', kp_cache s') of
                         (Some self, Some peer) \<Rightarrow> online_buckets c blake3 run broadcast self peer [start..<length (hb_files self)] (r', s')
                       | _ \<Rightarrow> Some (Inl (Undefined ''null store''))))"

definition Kkrt_PostProcess :: "'c KkrtParty \<Rightarrow> 'c KkrtParty" where
  "Kkrt_PostProcess party =
     (if kp_digest_equal party then party else party \<lparr> kp_recovery := map_option MarkPostProcessEnd (kp_recovery party) \<rparr>)"

section \<open>Matching two lists of items\<close>

lemma set_map_filter_iff: "y \<in> set (List.map_filter f xs) \<longleftrightarrow> (\<exists>x \<in> set xs. f x = Some y)"
  by (force simp: map_filter_def)

lemma distinct_mapped:
  assumes "distinct xs" "\<And>x x' y. x \<in> set xs \<Longrightarrow> x' \<in> set xs \<Longrightarrow> f x = Some y \<Longrightarrow> f x' = Some y \<Longrightarrow> x = x'"
  shows "distinct (List.map_filter f xs)"
  using assms
proof (induction xs)
  case (Cons x xs)
  have "distinct (List.map_filter f xs)" using Cons by simp
  then show ?case using Cons.prems by (cases "f x") (auto simp: map_filter_simps set_map_filter_iff)
qed (simp add: map_filter_simps)

lemma find_unique:
  assumes "distinct (map f xs)" "x \<in> set xs"
  shows "find (\<lambda>y. f y = f x) xs = Some x"
  using assms by (induction xs) auto

lemma find_iff:
  assumes "distinct (map f xs)"
  shows "find (\<lambda>y. f y = k) xs = Some x \<longleftrightarrow> x \<in> set xs \<and> f x = k"
  using find_unique [OF assms] by (auto simp: find_Some_iff)

lemma map_map_filter: "map g (List.map_filter f xs) = List.map_filter (\<lambda>x. map_option g (f x)) xs"
  by (induction xs) (auto simp: map_filter_simps split: option.splits)

text \<open>It makes no difference which of the two lists is run through.\<close>

lemma matches_symmetric:
  assumes a: "distinct (map f as)" and b: "distinct (map f bs)"
  shows "mset (List.map_filter (\<lambda>b. map_option (\<lambda>a. g a b) (find (\<lambda>a. f a = f b) as)) bs) =
     mset (List.map_filter (\<lambda>a. map_option (g a) (find (\<lambda>b. f b = f a) bs)) as)"
proof -
  let ?L = "List.map_filter (\<lambda>b. map_option (\<lambda>a. (a, b)) (find (\<lambda>a. f a = f b) as)) bs"
  let ?R = "List.map_filter (\<lambda>a. map_option (Pair a) (find (\<lambda>b. f b = f a) bs)) as"
  have d: "distinct as" "distinct bs" using a b by (simp_all add: distinct_map)
  have "distinct ?L" "distinct ?R" by (rule distinct_mapped [OF d(2)]; auto) (rule distinct_mapped [OF d(1)]; auto)
  moreover have "set ?L = set ?R" by (force simp: set_map_filter_iff find_iff [OF a] find_iff [OF b] set_eq_iff)
  ultimately have "mset ?L = mset ?R" by (simp add: set_eq_iff_mset_eq_distinct)
  then have "mset (map (\<lambda>(a, b). g a b) ?L) = mset (map (\<lambda>(a, b). g a b) ?R)" by simp
  then show ?thesis by (simp add: map_map_filter option.map_comp comp_def)
qed

lemma hash_index_find:
  "map_option ((!) xs) (hash_index (map f xs) y) = find (\<lambda>x. f x = y) xs" "hash_index (map f xs) y = Some i \<Longrightarrow> i < length xs \<and> f (xs ! i) = y"
proof -
  have "find (\<lambda>x. f x = y) xs = map_option ((!) xs) (find (\<lambda>i. f (xs ! i) = y) [0..<length xs])"
  proof -
    have "find P (map g ys) = map_option g (find (\<lambda>i. P (g i)) ys)" for P and g :: "nat \<Rightarrow> 'a" and ys by (induction ys) auto
    from this [of "\<lambda>x. f x = y" "(!) xs" "[0..<length xs]"] show ?thesis by (simp add: map_nth)
  qed
  moreover have "find (\<lambda>i. map f xs ! i = y) [0..<length (map f xs)] = find (\<lambda>i. f (xs ! i) = y) [0..<length xs]"
    by (rule find_cong) auto
  ultimately show "map_option ((!) xs) (hash_index (map f xs) y) = find (\<lambda>x. f x = y) xs" by (simp add: hash_index_def)
  show "i < length xs \<and> f (xs ! i) = y" if "hash_index (map f xs) y = Some i"
    using that by (auto simp: hash_index_def find_Some_iff)
qed

section \<open>The result of a bucket\<close>

lemma option_eqI: "(\<And>x. a = Some x \<longleftrightarrow> b = Some x) \<Longrightarrow> a = b"
  by (cases a; cases b) auto

text \<open>The receiver's matched items, by the sender's items.\<close>

lemma hash_matches_items:
  assumes inj: "inj_on blake3 (base64_data ` (set items \<union> set peers))"
  shows "map (\<lambda>(i, c). (items ! i, c)) (hash_matches (item_hashes blake3 items) (item_hash_list blake3 peers)) =
     List.map_filter (\<lambda>s. map_option (\<lambda>r. (r, extra_dup_cnt s)) (find (\<lambda>r. base64_data r = base64_data s) items)) peers"
    and "(i, k) \<in> set (hash_matches (item_hashes blake3 items) (item_hash_list blake3 peers)) \<Longrightarrow> i < length items"
proof -
  let ?h = "\<lambda>item. blake3 (base64_data item)"
  have hm: "hash_matches (item_hashes blake3 items) (item_hash_list blake3 peers) =
      List.map_filter (\<lambda>s. map_option (\<lambda>i. (i, extra_dup_cnt s)) (hash_index (map ?h items) (?h s))) peers"
    unfolding hash_matches_def item_hash_list_def item_hashes_def
    by (induction peers) (auto simp: map_filter_simps split: option.splits)
  show "i < length items" if "(i, k) \<in> set (hash_matches (item_hashes blake3 items) (item_hash_list blake3 peers))"
    using that hash_index_find(2) [of ?h items] by (auto simp: hm set_map_filter_iff)
  have "map_option (\<lambda>i. (items ! i, extra_dup_cnt s)) (hash_index (map ?h items) (?h s)) =
      map_option (\<lambda>r. (r, extra_dup_cnt s)) (find (\<lambda>r. base64_data r = base64_data s) items)" if "s \<in> set peers" for s
  proof -
    have "find (\<lambda>r. ?h r = ?h s) items = find (\<lambda>r. base64_data r = base64_data s) items"
      using inj that by (intro find_cong) (auto dest: inj_onD)
    then have "find (\<lambda>r. base64_data r = base64_data s) items = map_option ((!) items) (hash_index (map ?h items) (?h s))"
      by (simp add: hash_index_find(1))
    then show ?thesis by (simp add: option.map_comp comp_def)
  qed
  then show "map (\<lambda>(i, c). (items ! i, c)) (hash_matches (item_hashes blake3 items) (item_hash_list blake3 peers)) =
     List.map_filter (\<lambda>s. map_option (\<lambda>r. (r, extra_dup_cnt s)) (find (\<lambda>r. base64_data r = base64_data s) items)) peers"
    unfolding hm map_map_filter by (intro map_filter_cong) (simp add: option.map_comp comp_def)
qed

lemma bucket_results_ok:
  assumes d: "distinct (map base64_data items)" "distinct (map base64_data peers)"
    and inj: "inj_on blake3 (base64_data ` (set items \<union> set peers))"
    and R: "mset R = mset (hash_matches (item_hashes blake3 items) (item_hash_list blake3 peers))"
    and w: "writer_clean wr" "writer_clean ws"
  shows "\<exists>wr' ws'. bucket_results broadcast items peers (map fst R, map snd R) (wr, ws) = Inr (wr', ws') \<and>
     mset (iw_file wr') = mset (iw_file wr) + mset (List.map_filter (item_row peers) items) \<and>
     iw_file ws' = iw_file ws @ (if broadcast then List.map_filter (item_row items) peers else []) \<and> writer_clean wr' \<and> writer_clean ws'"
proof -
  let ?find = "\<lambda>s. find (\<lambda>r. base64_data r = base64_data s) items"
  define res where "res = map ((!) items) (map fst R)"
  have lt: "i < length items" if "i \<in> set (map fst R)" for i
    using that hash_matches_items(2) [OF inj] mset_eq_setD [OF R] by fastforce
  have rm: "rmap (vector_at items) (map fst R) = Inr res"
    unfolding res_def by (rule rmap_total) (simp add: vector_at_def lt)
  have pairs: "mset (map (\<lambda>(i, c). (items ! i, c)) R) = mset (List.map_filter (\<lambda>s. map_option (\<lambda>r. (r, extra_dup_cnt s)) (?find s)) peers)"
    using R by (simp add: hash_matches_items(1) [OF inj, symmetric])
  have "mset res = mset (map fst (map (\<lambda>(i, c). (items ! i, c)) R))" by (simp add: res_def comp_def case_prod_beta')
  also have "\<dots> = mset (List.map_filter ?find peers)"
    unfolding mset_map [of fst] pairs unfolding mset_map [symmetric] map_map_filter by (simp add: option.map_comp comp_def option.map_ident)
  finally have res: "mset res = mset (List.map_filter ?find peers)" .
  have sr: "set res = {r \<in> set items. \<exists>s \<in> set peers. base64_data r = base64_data s}"
    unfolding mset_eq_setD [OF res] by (auto simp: set_map_filter_iff find_iff [OF d(1)])
  have "distinct (map base64_data (List.map_filter ?find peers))"
    unfolding map_map_filter
    by (rule distinct_mapped) (use d(2) in \<open>auto simp: distinct_map find_iff [OF d(1)] dest: inj_onD\<close>)
  then have dr: "distinct (map base64_data res)" using mset_eq_imp_distinct_iff [of "map base64_data res"] res by (metis mset_map)
  have sub: "set (map base64_data res) \<subseteq> set (map base64_data peers)" using sr by auto
  obtain received ws' wr' where h: "BroadcastResult (receiver_items res) ([], \<lambda>_. None) = Inr (receiver_items res, received)"
    "HandleBucketResultBySender True received peers ws = Inr ws'" "HandleBucketResultByReceiver res (map snd R) wr = Inr wr'"
    "iw_file ws' = iw_file ws @ List.map_filter (item_row res) peers" "iw_file wr' = iw_file wr @ zip (map bi_index res) (map snd R)"
    "writer_clean ws'" "writer_clean wr'"
    using bucket_broadcast_rows [OF d(2) dr sub _ w(2,1), of "map snd R"] by (auto simp: res_def)
  have "zip (map bi_index res) (map snd R) = map (\<lambda>(r, c). (bi_index r, c)) (map (\<lambda>(i, c). (items ! i, c)) R)"
    unfolding res_def by (induction R) auto
  then have "mset (zip (map bi_index res) (map snd R)) = mset (map (\<lambda>(r, c). (bi_index r, c)) (List.map_filter (\<lambda>s. map_option (\<lambda>r. (r, extra_dup_cnt s)) (?find s)) peers))"
    using arg_cong [OF pairs, of "image_mset (\<lambda>(r, c). (bi_index r, c))"] by (simp only: mset_map)
  also have "\<dots> = mset (List.map_filter (\<lambda>s. map_option (\<lambda>r. (bi_index r, extra_dup_cnt s)) (?find s)) peers)"
    by (simp add: map_map_filter option.map_comp comp_def)
  also have "\<dots> = mset (List.map_filter (item_row peers) items)"
    unfolding matches_symmetric [OF d] item_row_def [abs_def] peer_find_def ..
  finally have rows: "mset (zip (map bi_index res) (map snd R)) = mset (List.map_filter (item_row peers) items)" .
  have "item_row res s = item_row items s" if "s \<in> set peers" for s
  proof -
    have "find (\<lambda>p. base64_data p = base64_data s) res = find (\<lambda>p. base64_data p = base64_data s) items"
      by (rule option_eqI) (use that sr in \<open>auto simp: find_iff [OF d(1)] find_iff [OF dr]\<close>)
    then show ?thesis by (simp add: item_row_def peer_find_def)
  qed
  then have "List.map_filter (item_row res) peers = List.map_filter (item_row items) peers" by (rule map_filter_cong)
  then show ?thesis
    using h rm rows w(2) by (cases broadcast) (auto simp: bucket_results_def HandleBucketResultBySender_def)
qed

section \<open>The contract of a protocol on a bucket\<close>

text \<open>
  On items that are \<open>good\<close> for it, the protocol ends and finds every match once; the results may come in
  any order.
\<close>

locale bucket_protocol =
  fixes run :: bucket_run
    and good :: "nat \<Rightarrow> 128 word list \<Rightarrow> PsiItemHash list \<Rightarrow> bool"
  assumes run_ok: "good b xs items \<Longrightarrow> distinct xs \<Longrightarrow>
    \<exists>R. run b xs items = Some (Inr (map fst R, map snd R)) \<and> mset R = mset (hash_matches xs items)"

definition bucket_part :: "codec \<Rightarrow> nat \<Rightarrow> (string \<times> nat) list \<Rightarrow> nat \<Rightarrow> BucketItem list" where
  "bucket_part c n xs b = filter (\<lambda>item. bucket_of c n item = b) (items_of c xs)"

definition buckets_good ::
  "(nat \<Rightarrow> 128 word list \<Rightarrow> PsiItemHash list \<Rightarrow> bool) \<Rightarrow> codec \<Rightarrow> (string \<Rightarrow> 128 word) \<Rightarrow> nat \<Rightarrow> (string \<times> nat) list \<Rightarrow> (string \<times> nat) list \<Rightarrow> bool" where
  "buckets_good good c blake3 n xs ys \<longleftrightarrow> (\<forall>b < n. bucket_part c n xs b \<noteq> [] \<and> bucket_part c n ys b \<noteq> [] \<longrightarrow>
     good b (item_hashes blake3 (bucket_part c n xs b)) (item_hash_list blake3 (bucket_part c n ys b)))"

lemma items_of_distinct:
  assumes "codec_ok c" "distinct (map fst xs)"
  shows "distinct (map base64_data (bucket_part c n xs b))"
proof -
  have "map base64_data (items_of c xs) = map (b64 c) (map fst xs)"
    by (intro nth_equalityI) (auto simp: items_of_def nth_enumerate_eq split: prod.splits)
  then have "distinct (map base64_data (items_of c xs))"
    using assms by (simp add: distinct_map codec_ok_def inj_on_def inj_def)
  then show ?thesis unfolding bucket_part_def by (rule distinct_map_filter)
qed

lemma bucket_part_data: "base64_data ` set (bucket_part c n xs b) \<subseteq> b64 c ` fst ` set xs"
  using items_of_data [of c xs] by (force simp: bucket_part_def)

lemma map_filter_row_Nil: "peers = [] \<or> items = [] \<Longrightarrow> List.map_filter (item_row peers) items = []"
  by (auto simp: map_filter_def item_row_def peer_find_def)

context bucket_protocol
begin

lemma bucket_ok:
  assumes codec: "codec_ok c" and st: "holds c n xs self" "holds c n ys peer" and b: "b < n"
    and d: "distinct (map fst xs)" "distinct (map fst ys)"
    and inj: "inj_on blake3 (b64 c ` fst ` set xs \<union> b64 c ` fst ` set ys)" and good: "buckets_good good c blake3 n xs ys"
    and w: "writer_clean (kp_writer r)" "writer_clean (kp_writer s)"
  shows "\<exists>r' s'. online_bucket c blake3 run broadcast self peer b (r, s) = Some (Inr (r', s')) \<and>
     mset (iw_file (kp_writer r')) = mset (iw_file (kp_writer r)) + mset (List.map_filter (item_row (bucket_part c n ys b)) (bucket_part c n xs b)) \<and>
     iw_file (kp_writer s') = iw_file (kp_writer s) @ (if broadcast then List.map_filter (item_row (bucket_part c n xs b)) (bucket_part c n ys b) else []) \<and>
     writer_clean (kp_writer r') \<and> writer_clean (kp_writer s')"
proof -
  let ?X = "bucket_part c n xs b" and ?Y = "bucket_part c n ys b"
  have load: "HashBucketCache_LoadBucketItems c self b = Inr ?X" "HashBucketCache_LoadBucketItems c peer b = Inr ?Y"
    using holds_load [OF codec st(1) b] holds_load [OF codec st(2) b] by (simp_all add: bucket_part_def)
  have items: "bucket_items c b self peer = Inr (if ?X = [] \<or> ?Y = [] then None else Some (?X, ?Y))"
    by (auto simp: bucket_items_def load PrepareBucketData_def min_def)
  show ?thesis
  proof (cases "?X = [] \<or> ?Y = []")
    case True
    then have "?Y = [] \<or> ?X = []" by blast
    with True show ?thesis using w by (simp add: online_bucket_def items map_filter_row_Nil)
  next
    case False
    have inj': "inj_on blake3 (base64_data ` (set ?X \<union> set ?Y))"
      unfolding image_Un by (rule inj_on_subset [OF inj]) (intro Un_mono bucket_part_data)
    have "distinct (item_hashes blake3 ?X)"
      using items_of_distinct [OF codec d(1), of n b] inj' by (auto simp: item_hashes_def distinct_map inj_on_def)
    then obtain R where R: "run b (item_hashes blake3 ?X) (item_hash_list blake3 ?Y) = Some (Inr (map fst R, map snd R))"
      "mset R = mset (hash_matches (item_hashes blake3 ?X) (item_hash_list blake3 ?Y))"
      using run_ok [of b "item_hashes blake3 ?X" "item_hash_list blake3 ?Y"] good False b by (auto simp: buckets_good_def)
    from bucket_results_ok [OF items_of_distinct [OF codec d(1)] items_of_distinct [OF codec d(2)] inj' R(2) w, of broadcast]
    obtain wr ws where "bucket_results broadcast ?X ?Y (map fst R, map snd R) (kp_writer r, kp_writer s) = Inr (wr, ws)"
      "mset (iw_file wr) = mset (iw_file (kp_writer r)) + mset (List.map_filter (item_row ?Y) ?X)"
      "iw_file ws = iw_file (kp_writer s) @ (if broadcast then List.map_filter (item_row ?X) ?Y else [])" "writer_clean wr" "writer_clean ws"
      by blast
    with False R(1) show ?thesis by (simp add: online_bucket_def items Let_def)
  qed
qed

lemma buckets_ok:
  assumes codec: "codec_ok c" and st: "holds c n xs self" "holds c n ys peer" and bs: "\<forall>b \<in> set bs. b < n"
    and d: "distinct (map fst xs)" "distinct (map fst ys)"
    and inj: "inj_on blake3 (b64 c ` fst ` set xs \<union> b64 c ` fst ` set ys)" and good: "buckets_good good c blake3 n xs ys"
    and w: "writer_clean (kp_writer r)" "writer_clean (kp_writer s)"
  shows "\<exists>r' s'. online_buckets c blake3 run broadcast self peer bs (r, s) = Some (Inr (r', s')) \<and>
     mset (iw_file (kp_writer r')) = mset (iw_file (kp_writer r)) +
       mset (concat (map (\<lambda>b. List.map_filter (item_row (bucket_part c n ys b)) (bucket_part c n xs b)) bs)) \<and>
     iw_file (kp_writer s') = iw_file (kp_writer s) @
       (if broadcast then concat (map (\<lambda>b. List.map_filter (item_row (bucket_part c n xs b)) (bucket_part c n ys b)) bs) else []) \<and>
     writer_clean (kp_writer r') \<and> writer_clean (kp_writer s')"
  using bs w
proof (induction bs arbitrary: r s)
  case (Cons b bs)
  from bucket_ok [OF codec st _ d inj good Cons.prems(2,3), of b broadcast] Cons.prems(1)
  obtain r1 s1 where r1: "online_bucket c blake3 run broadcast self peer b (r, s) = Some (Inr (r1, s1))"
    "mset (iw_file (kp_writer r1)) = mset (iw_file (kp_writer r)) + mset (List.map_filter (item_row (bucket_part c n ys b)) (bucket_part c n xs b))"
    "iw_file (kp_writer s1) = iw_file (kp_writer s) @ (if broadcast then List.map_filter (item_row (bucket_part c n xs b)) (bucket_part c n ys b) else [])"
    "writer_clean (kp_writer r1)" "writer_clean (kp_writer s1)" by auto
  from Cons.IH [OF _ r1(4,5)] Cons.prems(1) r1 show ?case by fastforce
qed simp

text \<open>All buckets, from empty index files.\<close>

lemma online_ok:
  assumes codec: "codec_ok c" and st: "holds c n xs self" "holds c n ys peer"
    and d: "distinct (map fst xs)" "distinct (map fst ys)"
    and inj: "inj_on blake3 (b64 c ` fst ` set xs \<union> b64 c ` fst ` set ys)" and good: "buckets_good good c blake3 n xs ys"
    and r: "\<not> kp_digest_equal r" "kp_bucket_count r = n" "kp_cache r = Some self" "kp_recovery r = None" "writer_clean (kp_writer r)" "iw_file (kp_writer r) = []"
    and s: "\<not> kp_digest_equal s" "kp_bucket_count s = n" "kp_cache s = Some peer" "kp_recovery s = None" "writer_clean (kp_writer s)" "iw_file (kp_writer s) = []"
  shows "\<exists>r' s'. Kkrt_Online c blake3 run broadcast (r, s) = Some (Inr (r', s')) \<and>
     sort_key fst (iw_file (kp_writer r')) = store_matches xs ys \<and>
     sort_key fst (iw_file (kp_writer s')) = (if broadcast then store_matches ys xs else []) \<and>
     writer_clean (kp_writer r') \<and> writer_clean (kp_writer s')"
proof -
  have n: "0 < n" "length (hb_files self) = n" using st(1) by (auto simp: holds_def)
  obtain r' s' where run: "online_buckets c blake3 run broadcast self peer [0..<n] (r, s) = Some (Inr (r', s'))"
    "mset (iw_file (kp_writer r')) = mset (concat (map (\<lambda>b. List.map_filter (item_row (bucket_part c n ys b)) (bucket_part c n xs b)) [0..<n]))"
    "iw_file (kp_writer s') = (if broadcast then concat (map (\<lambda>b. List.map_filter (item_row (bucket_part c n xs b)) (bucket_part c n ys b)) [0..<n]) else [])"
    "writer_clean (kp_writer r')" "writer_clean (kp_writer s')"
    using buckets_ok [OF codec st _ d inj good r(5) s(5), of "[0..<n]" broadcast] r(6) s(6) by auto
  have "sort_key fst (iw_file (kp_writer r')) = store_matches xs ys"
    using run(2) bucket_rows [OF codec n(1), of ys xs] by (intro sort_key_distinct_eqI store_matches_ascending) (simp add: bucket_part_def)
  moreover have "sort_key fst (iw_file (kp_writer s')) = (if broadcast then store_matches ys xs else [])"
    using run(3) bucket_rows [OF codec n(1), of xs ys]
    by (auto simp: bucket_part_def intro!: sort_key_distinct_eqI store_matches_ascending)
  ultimately show ?thesis
    using run r(1-4) s(1-4) n by (simp add: Kkrt_Online_def online_start_def)
qed

end

section \<open>KKRT on a bucket\<close>

definition kkrt_good ::
  "(64 word \<Rightarrow> 64 word \<Rightarrow> 64 word \<Rightarrow> 64 word) \<Rightarrow> (nat \<Rightarrow> nat) \<Rightarrow> ('s, 'r, 'b) KkrtOt \<Rightarrow> (nat \<Rightarrow> 128 word option \<Rightarrow> 128 word \<Rightarrow> nat \<Rightarrow> string)
     \<Rightarrow> nat list \<Rightarrow> (nat \<Rightarrow> string) \<Rightarrow> nat list \<Rightarrow> 128 word list \<Rightarrow> PsiItemHash list \<Rightarrow> bool" where
  "kkrt_good expansion log2l ot F perm fill obs xs items \<longleftrightarrow>
     kkrt_ot_ok ot F \<and> xs \<noteq> [] \<and> items \<noteq> [] \<and> length xs \<le> 2 ^ 56 \<and> permutes perm (length items) \<and>
     (\<exists>option t. CuckooIndex_SelectParams expansion (of_nat (length xs)) 0 3 40 = Inr option \<and> Options_NumBins option \<noteq> 0 \<and>
        rbind (CuckooIndex_new option) (\<lambda>table. CuckooIndex_Insert table xs) = Inr t \<and>
        codes_separate F fill (unat (Options_NumBins option)) (KkrtEncodeSize log2l 40 (length xs) (length items)) (set xs) (pi_data ` set items) \<and>
        (let K = (unat (Options_NumBins option) + kKkrtOtBatchSize - 1) div kKkrtOtBatchSize in (\<forall>k \<in> set obs. k \<le> K) \<and> K \<in> set obs))"

definition kkrt_run ::
  "(64 word \<Rightarrow> 64 word \<Rightarrow> 64 word \<Rightarrow> 64 word) \<Rightarrow> (nat \<Rightarrow> nat) \<Rightarrow> (nat \<Rightarrow> ('s, 'r, 'b) KkrtOt) \<Rightarrow> (nat \<Rightarrow> nat list)
     \<Rightarrow> (nat \<Rightarrow> nat \<Rightarrow> string) \<Rightarrow> (nat \<Rightarrow> nat \<Rightarrow> string) \<Rightarrow> (nat \<Rightarrow> nat list) \<Rightarrow> bucket_run" where
  "kkrt_run expansion log2l ot perm fill buf0 obs b =
     KkrtPsi_pair expansion log2l (ot b) GetDefaultKkrtPsiOptions 512 (perm b) (fill b) (buf0 b) (obs b)"

interpretation kkrt_protocol: bucket_protocol "kkrt_run expansion log2l ot perm fill buf0 obs"
  "\<lambda>b. kkrt_good expansion log2l (ot b) (F b) (perm b) (fill b) (obs b)"
  for expansion log2l ot F perm fill buf0 obs
proof
  fix b xs items
  assume "kkrt_good expansion log2l (ot b) (F b) (perm b) (fill b) (obs b) xs items" "distinct xs"
  then show "\<exists>R. kkrt_run expansion log2l ot perm fill buf0 obs b xs items = Some (Inr (map fst R, map snd R)) \<and> mset R = mset (hash_matches xs items)"
    unfolding kkrt_good_def kkrt_run_def Let_def by (elim conjE exE) (rule KkrtPsi_pair_ok [OF _ _ _ _ _ _ _ _ _ _ refl])
qed

section \<open>Filling the cache\<close>

lemma holds_write_batch:
  assumes "holds c n xs cache"
  shows "\<exists>cache'. write_batch c (map fst zs, dup_cnt_map (map snd zs)) cache = Inr cache' \<and> holds c n (xs @ zs) cache'"
proof -
  let ?d = "\<lambda>i. case dup_cnt_map (map snd zs) i of None \<Rightarrow> 0 | Some d \<Rightarrow> d"
  have "\<exists>st. rfold (\<lambda>i. HashBucketCache_WriteItem c (map fst zs ! i) (?d i)) [0..<length zs] cache = Inr st \<and>
      holds c n (xs @ take (length zs) zs) st"
  proof (rule rfold_upt_inv [where I = "\<lambda>i st. holds c n (xs @ take i zs) st"])
    fix i st assume i: "i < length zs" "holds c n (xs @ take i zs) st"
    have "?d i = snd (zs ! i)" using dup_cnt_map_value [of i "map snd zs"] i(1) by simp
    then show "\<exists>s'. HashBucketCache_WriteItem c (map fst zs ! i) (?d i) st = Inr s' \<and> holds c n (xs @ take (Suc i) zs) s'"
      using holds_write [OF i(2), of "fst (zs ! i)" "snd (zs ! i)"] i(1) by (auto simp: take_Suc_conv_app_nth)
  qed (use assms in auto)
  then show ?thesis by (auto simp: write_batch_def)
qed

context dup_cnt_provider
begin

lemma cache_filled:
  assumes "d_inv p" "holds c n xs cache"
  shows "\<exists>cache'. cache_from_provider c rd p cache = Some (Inr cache') \<and> holds c n (xs @ d_remaining p) cache'"
  using assms(1,2)
proof (induction "length (d_remaining p)" arbitrary: p xs cache rule: less_induct)
  case less
  let ?zs = "d_remaining p"
  obtain m p' where r: "rd p = Inr ((map fst (take m ?zs), dup_cnt_map (map snd (take m ?zs))), p')" "d_inv p'"
    "d_remaining p' = drop m ?zs" "?zs \<noteq> [] \<longrightarrow> 0 < m"
    using read_dup [OF less.prems(1)] by blast
  show ?case
  proof (cases "?zs = []")
    case True
    then show ?thesis using r(1) less.prems(2) by (subst cache_from_provider.simps) auto
  next
    case False
    then have m: "0 < m" "map fst (take m ?zs) \<noteq> []" using r(4) by auto
    obtain cache1 where c1: "write_batch c (map fst (take m ?zs), dup_cnt_map (map snd (take m ?zs))) cache = Inr cache1"
      "holds c n (xs @ take m ?zs) cache1"
      using holds_write_batch [OF less.prems(2), of "take m ?zs"] by blast
    have "length (d_remaining p') < length ?zs" using r(3) m False by simp
    from less.hyps [OF this r(2) c1(2)] obtain cache' where
      "cache_from_provider c rd p' cache1 = Some (Inr cache')" "holds c n ((xs @ take m ?zs) @ d_remaining p') cache'" by blast
    then show ?thesis using r(1,3) c1(1) m by (subst cache_from_provider.simps) auto
  qed
qed

lemma create_cache:
  assumes "d_inv p" "0 < n"
  shows "\<exists>cache. CreateCacheFromProvider c rd p cache_dir n True = Some (Inr cache) \<and> holds c n (d_remaining p) cache"
proof -
  obtain cache where new: "HashBucketCache_new [] n = Inr cache" "holds c n [] cache" using holds_new [OF assms(2)] by blast
  with cache_filled [OF assms(1) new(2)] show ?thesis by (auto simp: CreateCacheFromProvider_def)
qed

end

section \<open>From tables to index files\<close>

abbreviation (input) keys_dup :: "key_row list \<Rightarrow> (string \<times> nat) list" where
  "keys_dup K \<equiv> map (\<lambda>(k, s, d). (k, d)) K"

text \<open>A party after initialisation, without recovery.\<close>

definition fresh_party :: "IndexWriter \<Rightarrow> 'c KkrtParty" where
  "fresh_party w = \<lparr> kp_digest_equal = False, kp_bucket_count = 0, kp_cache = None, kp_writer = w, kp_recovery = None \<rparr>"

lemma store_matches_Nil [simp]: "store_matches [] ys = []" "store_matches xs [] = []"
  by (simp_all add: store_matches_def map_filter_def)

lemma PreProcess_sorted:
  assumes "Sorted_inv p" "NegotiateBucketNum cnt cnts bucket_size = Inr n"
  shows "\<exists>r. Kkrt_PreProcess c Sorted_ReadNextBatchWithDupCnt p cnt cnts bucket_size (fresh_party w) = Some (Inr r) \<and>
     \<not> kp_digest_equal r \<and> kp_bucket_count r = n \<and> kp_recovery r = None \<and> kp_writer r = w \<and>
     (0 < n \<longrightarrow> (\<exists>cache. kp_cache r = Some cache \<and> holds c n (keys_dup (Sorted_remaining p)) cache))"
  using sorted_dup.create_cache [OF assms(1), of n c "[]"] assms(2)
  by (cases "0 < n") (auto simp: Kkrt_PreProcess_def fresh_party_def Let_def)

lemma Kkrt_tables_rows:
  assumes codec: "codec_ok c" and bs: "0 < bucket_size" and p: "Sorted_inv pa" "Sorted_inv pb"
    and K: "Ka = keys_dup (Sorted_remaining pa)" "Kb = keys_dup (Sorted_remaining pb)"
    and d: "distinct (map fst Ka)" "distinct (map fst Kb)"
    and inj: "inj_on blake3 (b64 c ` fst ` set Ka \<union> b64 c ` fst ` set Kb)"
    and n: "NegotiateBucketNum (length Ka) [length Ka, length Kb] bucket_size = Inr n"
    and good: "buckets_good (\<lambda>b. kkrt_good expansion log2l (ot b) (F b) (perm b) (fill b) (obs b)) c blake3 n Ka Kb"
    and w: "writer_clean wa" "iw_file wa = []" "writer_clean wb" "iw_file wb = []"
  shows "\<exists>(r :: 'c KkrtParty) s r' s'.
     Kkrt_PreProcess c Sorted_ReadNextBatchWithDupCnt pa (length Ka) [length Ka, length Kb] bucket_size (fresh_party wa) = Some (Inr r) \<and>
     Kkrt_PreProcess c Sorted_ReadNextBatchWithDupCnt pb (length Kb) [length Ka, length Kb] bucket_size (fresh_party wb) = Some (Inr s) \<and>
     Kkrt_Online c blake3 (kkrt_run expansion log2l ot perm fill buf0 obs) broadcast (r, s) = Some (Inr (r', s')) \<and>
     sort_key fst (iw_file (kp_writer r')) = store_matches Ka Kb \<and>
     sort_key fst (iw_file (kp_writer s')) = (if broadcast then store_matches Kb Ka else []) \<and>
     writer_clean (kp_writer r') \<and> writer_clean (kp_writer s')"
proof -
  have n': "NegotiateBucketNum (length Kb) [length Ka, length Kb] bucket_size = Inr n" "n = 0 \<Longrightarrow> Ka = [] \<or> Kb = []"
    using n NegotiateBucketNum_pair [OF bs, where a = "length Ka" and b = "length Kb"] ceil_div(3) [OF bs, of "length Ka"]
    by (auto split: if_splits)
  obtain r :: "'c KkrtParty" where r: "Kkrt_PreProcess c Sorted_ReadNextBatchWithDupCnt pa (length Ka) [length Ka, length Kb] bucket_size (fresh_party wa) = Some (Inr r)"
    "\<not> kp_digest_equal r" "kp_bucket_count r = n" "kp_recovery r = None" "kp_writer r = wa" "0 < n \<longrightarrow> (\<exists>cache. kp_cache r = Some cache \<and> holds c n Ka cache)"
    using PreProcess_sorted [OF p(1) n, of c wa] K(1) by auto
  obtain s :: "'c KkrtParty" where s: "Kkrt_PreProcess c Sorted_ReadNextBatchWithDupCnt pb (length Kb) [length Ka, length Kb] bucket_size (fresh_party wb) = Some (Inr s)"
    "\<not> kp_digest_equal s" "kp_bucket_count s = n" "kp_recovery s = None" "kp_writer s = wb" "0 < n \<longrightarrow> (\<exists>cache. kp_cache s = Some cache \<and> holds c n Kb cache)"
    using PreProcess_sorted [OF p(2) n'(1), of c wb] K(2) by auto
  show ?thesis
  proof (cases "n = 0")
    case True
    then have "store_matches Ka Kb = []" "store_matches Kb Ka = []" using n'(2) by auto
    moreover have "Kkrt_Online c blake3 (kkrt_run expansion log2l ot perm fill buf0 obs) broadcast (r, s) = Some (Inr (r, s))"
      using True r(2,3) s(2,3) by (simp add: Kkrt_Online_def)
    ultimately show ?thesis using r(1,5) s(1,5) w by (intro exI [of _ r] exI [of _ s]) simp
  next
    case False
    then obtain self peer where st: "kp_cache r = Some self" "holds c n Ka self" "kp_cache s = Some peer" "holds c n Kb peer"
      using r(6) s(6) by auto
    from kkrt_protocol.online_ok [OF codec st(2,4) d inj good r(2,3) st(1) r(4) _ _ s(2,3) st(3) s(4), of buf0 broadcast]
    show ?thesis using r(1,5) s(1,5) w by blast
  qed
qed

text \<open>
  C20. The KKRT parties as a whole, without recovery: from two tables whose keys are grouped, pre-processing agrees on the
  buckets and fills the stores, and the online phase ends and leaves in the index file of the
  receiver exactly one row for every key it shares with the sender, with the position of the key and the
  sender's duplicate count; with broadcasting the index file of the sender is the mirror image, without it the
  sender learns nothing. This includes empty tables and empty buckets.
\<close>

theorem Kkrt_tables_correct:
  assumes "codec_ok c" "0 < bucket_size" "Sorted_inv pa" "Sorted_inv pb"
    and "Ka = keys_dup (Sorted_remaining pa)" "Kb = keys_dup (Sorted_remaining pb)"
    and "distinct (map fst Ka)" "distinct (map fst Kb)"
    and "inj_on blake3 (b64 c ` fst ` set Ka \<union> b64 c ` fst ` set Kb)"
    and "NegotiateBucketNum (length Ka) [length Ka, length Kb] bucket_size = Inr n"
    and "buckets_good (\<lambda>b. kkrt_good expansion log2l (ot b) (F b) (perm b) (fill b) (obs b)) c blake3 n Ka Kb"
    and "writer_clean wa" "iw_file wa = []" "writer_clean wb" "iw_file wb = []"
  shows "\<exists>(r :: 'c KkrtParty) s r' s'.
     Kkrt_PreProcess c Sorted_ReadNextBatchWithDupCnt pa (length Ka) [length Ka, length Kb] bucket_size (fresh_party wa) = Some (Inr r) \<and>
     Kkrt_PreProcess c Sorted_ReadNextBatchWithDupCnt pb (length Kb) [length Ka, length Kb] bucket_size (fresh_party wb) = Some (Inr s) \<and>
     Kkrt_Online c blake3 (kkrt_run expansion log2l ot perm fill buf0 obs) broadcast (r, s) = Some (Inr (r', s')) \<and>
     sort_key fst (iw_file (kp_writer r')) = store_matches Ka Kb \<and>
     sort_key fst (iw_file (kp_writer s')) = (if broadcast then store_matches Kb Ka else [])"
  using Kkrt_tables_rows [OF assms] by blast

definition length_hash :: "string \<Rightarrow> 128 word" where
  "length_hash s = of_nat (length s)"

lemma example_kkrt_good:
  "kkrt_good example_expansion (\<lambda>_. 2) clear_ot clear_code [1, 0] (\<lambda>k. replicate 6 (CHR ''?'')) [0, 1] [1, 2, 3]
     [\<lparr> pi_data = 1, pi_cnt = 2 \<rparr>, \<lparr> pi_data = 3, pi_cnt = 1 \<rparr>]"
proof -
  obtain option where opt: "CuckooIndex_SelectParams example_expansion 3 0 3 40 = Inr option"
    by (simp add: CuckooIndex_SelectParams_def)
  then have nb: "Options_NumBins option = 14"
    by (auto simp: CuckooIndex_SelectParams_def Options_NumBins_def example_expansion_def)
  have "map_sum id ci_bins (rbind (CuckooIndex_SelectParams example_expansion 3 0 3 40) (\<lambda>option. rbind (CuckooIndex_new option) (\<lambda>table.
      CuckooIndex_Insert table [1, 2, 3]))) = Inr ((replicate 14 (Bin kEmpty))[1 := Bin 0, 2 := Bin 1, 3 := Bin 2])"
    by code_simp
  then obtain t where t: "rbind (CuckooIndex_new option) (\<lambda>table. CuckooIndex_Insert table [1, 2, 3]) = Inr t"
    using opt by (cases "rbind (CuckooIndex_new option) (\<lambda>table. CuckooIndex_Insert table [1, 2, 3])") auto
  have "codes_separate clear_code (\<lambda>k. replicate 6 (CHR ''?'')) 14 6 {1, 2, 3} {1, 3}" by (rule clear_codes_separate) auto
  moreover have "permutes [1, 0] (Suc (Suc 0))" by (simp add: permutes_def)
  ultimately show ?thesis
    using clear_ot_ok opt nb t
    by (auto simp: kkrt_good_def KkrtEncodeSize_def kKkrtOtBatchSize_def Let_def intro!: exI [of _ option] exI [of _ t])
qed

definition kkrt_example :: "key_row list \<Rightarrow> SortedTableKeysInfoProvider" where
  "kkrt_example rows = \<lparr> sp_batch_size = 2, sp_batch = None, sp_batch_index = 0, sp_reader = [Inr rows] \<rparr>"

lemma kkrt_example_provider: "Sorted_inv (kkrt_example rows)" "Sorted_remaining (kkrt_example rows) = map u32_row rows"
  by (simp_all add: Sorted_inv_def Sorted_remaining_def pending_def kkrt_example_def)

lemma example_buckets_good:
  "buckets_good (\<lambda>b. kkrt_good example_expansion (\<lambda>_. 2) clear_ot clear_code [1, 0] (\<lambda>k. replicate 6 (CHR ''?'')) [0, 1])
     unary_codec length_hash 1 [(''a'', 0), (''bb'', 0), (''ccc'', 1)] [(''a'', 1), (''ccc'', 0)]"
proof -
  have "item_hashes length_hash (bucket_part unary_codec 1 [(''a'', 0), (''bb'', 0), (''ccc'', 1)] 0) = [1, 2, 3]"
    "item_hash_list length_hash (bucket_part unary_codec 1 [(''a'', 1), (''ccc'', 0)] 0) = [\<lparr> pi_data = 1, pi_cnt = 2 \<rparr>, \<lparr> pi_data = 3, pi_cnt = 1 \<rparr>]"
    by (simp_all add: item_hashes_def item_hash_list_def bucket_part_def bucket_of_def items_of_def unary_codec_def length_hash_def)
  then show ?thesis using example_kkrt_good by (simp add: buckets_good_def)
qed

theorem Kkrt_tables_correct_witness:
  "\<exists>(r :: unit KkrtParty) s r' s'.
     Kkrt_PreProcess unary_codec Sorted_ReadNextBatchWithDupCnt (kkrt_example [(''a'', 0, 0), (''bb'', 1, 0), (''ccc'', 2, 1)]) 3 [3, 2] 8
       (fresh_party (IndexWriter_new None 9 True)) = Some (Inr r) \<and>
     Kkrt_PreProcess unary_codec Sorted_ReadNextBatchWithDupCnt (kkrt_example [(''a'', 0, 1), (''ccc'', 2, 0)]) 2 [3, 2] 8
       (fresh_party (IndexWriter_new None 9 True)) = Some (Inr s) \<and>
     Kkrt_Online unary_codec length_hash (kkrt_run example_expansion (\<lambda>_. 2) (\<lambda>_. clear_ot) (\<lambda>_. [1, 0]) (\<lambda>_ k. replicate 6 (CHR ''?'')) (\<lambda>_ _. []) (\<lambda>_. [0, 1]))
       True (r, s) = Some (Inr (r', s')) \<and>
     sort_key fst (iw_file (kp_writer r')) = [(0, 1), (2, 0)] \<and> sort_key fst (iw_file (kp_writer s')) = [(0, 0), (1, 1)]"
proof -
  let ?Ka = "[(''a'', 0), (''bb'', 0), (''ccc'', 1 :: nat)]" and ?Kb = "[(''a'', 1), (''ccc'', 0 :: nat)]"
  have K: "?Ka = keys_dup (Sorted_remaining (kkrt_example [(''a'', 0, 0), (''bb'', 1, 0), (''ccc'', 2, 1)]))"
    "?Kb = keys_dup (Sorted_remaining (kkrt_example [(''a'', 0, 1), (''ccc'', 2, 0)]))"
    by (simp_all add: kkrt_example_provider u32_row_def u32_def)
  have inj: "inj_on length_hash (b64 unary_codec ` fst ` set ?Ka \<union> b64 unary_codec ` fst ` set ?Kb)"
    by (auto simp: unary_codec_def length_hash_def)
  have n: "NegotiateBucketNum (length ?Ka) [length ?Ka, length ?Kb] 8 = Inr 1" by (simp add: NegotiateBucketNum_def)
  have w: "writer_clean (IndexWriter_new None 9 True)" "iw_file (IndexWriter_new None 9 True) = []" by (simp_all add: writer_clean_def IndexWriter_new_def)
  have m: "store_matches ?Ka ?Kb = [(0, 1), (2, 0)]" "store_matches ?Kb ?Ka = [(0, 0), (1, 1)]"
    by (simp_all add: store_matches_def map_filter_simps)
  have l: "length ?Ka = 3" "length ?Kb = 2" by simp_all
  have d: "distinct (map fst ?Ka)" "distinct (map fst ?Kb)" "0 < (8 :: nat)" by simp_all
  from Kkrt_tables_correct [OF unary_codec_ok d(3) kkrt_example_provider(1) kkrt_example_provider(1) K d(1,2) inj n example_buckets_good w w, of "\<lambda>_ _. []" True, where 'c = unit]
  show ?thesis unfolding m l if_True .
qed

end
