(* ===== verification/Xor_Algebra.thy ===== *)
theory Xor_Algebra
  imports Prelude
begin

text \<open>
  Sums of words under exclusive or, as the key-value store of \<open>rr22/okvs\<close> uses them for vectors over fields of characteristic
  two: \<open>xorl\<close> adds up a list, \<open>sel b v\<close> is the product of a value with a bit, and a function is
  \<open>xor_linear\<close> if it keeps sums.
\<close>

definition xorl :: "'a::len word list \<Rightarrow> 'a word" where
  "xorl xs = foldr (XOR) xs 0"

definition sel :: "bool \<Rightarrow> 'a::len word \<Rightarrow> 'a word" where
  "sel b v = (if b then v else 0)"

definition xor_linear :: "('a::len word \<Rightarrow> 'b::len word) \<Rightarrow> bool" where
  "xor_linear f \<longleftrightarrow> (\<forall>x y. f (x XOR y) = f x XOR f y)"

lemma xorl_Nil [simp]: "xorl [] = 0"
  and xorl_Cons [simp]: "xorl (x # xs) = x XOR xorl xs"
  by (simp_all add: xorl_def)

lemma xorl_append [simp]: "xorl (xs @ ys) = xorl xs XOR xorl ys"
  by (induction xs) (simp_all add: xor_ac)

lemma xorl_snoc_upt: "xorl (map f [0..<Suc n]) = xorl (map f [0..<n]) XOR f n"
  by simp

lemma xorl_map_zero [simp]: "xorl (map (\<lambda>x. 0) xs) = 0"
  by (induction xs) simp_all

lemma xorl_map_xor: "xorl (map (\<lambda>x. f x XOR g x) xs) = xorl (map f xs) XOR xorl (map g xs)"
  by (induction xs) (simp_all add: xor_ac)

lemma xorl_swap: "xorl (map (\<lambda>x. xorl (map (f x) ys)) xs) = xorl (map (\<lambda>y. xorl (map (\<lambda>x. f x y) xs)) ys)"
  by (induction xs) (simp_all add: xorl_map_xor)

lemma xorl_cong: "(\<And>x. x \<in> set xs \<Longrightarrow> f x = g x) \<Longrightarrow> xorl (map f xs) = xorl (map g xs)"
  by (metis map_cong)

lemma xorl_zero: "(\<And>x. x \<in> set xs \<Longrightarrow> f x = 0) \<Longrightarrow> xorl (map f xs) = 0"
  using xorl_cong [of xs f "\<lambda>_. 0"] by simp

lemma xorl_mset: "mset xs = mset ys \<Longrightarrow> xorl xs = xorl ys"
proof (induction xs arbitrary: ys)
  case (Cons x xs)
  then obtain us vs where ys: "ys = us @ x # vs" by (metis list.set_intros(1) set_mset_mset split_list)
  then have "mset xs = mset (us @ vs)" using Cons.prems by simp
  then show ?case using Cons.IH [of "us @ vs"] ys by (simp add: xor_ac)
qed simp

lemma bit_xorl: "bit (xorl xs) n \<longleftrightarrow> odd (length (filter (\<lambda>x. bit x n) xs))"
  by (induction xs) (auto simp: bit_xor_iff)

lemma sel_simps [simp]: "sel True v = v" "sel False v = 0" "sel b 0 = 0"
  by (simp_all add: sel_def)

lemma sel_xor: "sel b (v XOR w) = sel b v XOR sel b w" "sel (b = (\<not> c)) v = sel b v XOR sel c v"
  by (auto simp: sel_def)

lemma xorl_sel: "sel b (xorl (map f xs)) = xorl (map (\<lambda>x. sel b (f x)) xs)"
  by (cases b) simp_all

lemma xorl_single:
  "distinct xs \<Longrightarrow> xorl (map (\<lambda>x. if x = a then f x else 0) xs) = (if a \<in> set xs then f a else 0)"
  by (induction xs) auto

lemma xor_linearI: "(\<And>x y. f (x XOR y) = f x XOR f y) \<Longrightarrow> xor_linear f"
  by (simp add: xor_linear_def)

lemma xor_linear_xor: "xor_linear f \<Longrightarrow> f (x XOR y) = f x XOR f y"
  by (simp add: xor_linear_def)

lemma xor_linear_0 [simp]: "xor_linear f \<Longrightarrow> f 0 = 0"
  using xor_linear_xor [of f 0 0] by simp

lemma xor_linear_xorl: "xor_linear f \<Longrightarrow> f (xorl (map g xs)) = xorl (map (\<lambda>x. f (g x)) xs)"
  by (induction xs) (simp_all add: xor_linear_xor)

lemma xor_linear_sel: "xor_linear f \<Longrightarrow> f (sel b v) = sel b (f v)"
  by (cases b) simp_all

lemma xor_linear_id [intro]: "xor_linear (\<lambda>x. x)"
  by (rule xor_linearI) simp

lemma xor_linear_funpow:
  fixes f :: "'a::len word \<Rightarrow> 'a word"
  shows "xor_linear f \<Longrightarrow> xor_linear (f ^^ n)"
  by (induction n) (simp_all add: xor_linear_def)

lemma xor_linear_push_bit [intro]: "xor_linear (push_bit n :: 'a::len word \<Rightarrow> 'a word)"
  by (rule xor_linearI) (simp add: push_bit_xor)

text \<open>A word is the sum of its bits.\<close>

lemma word_xorl_bits: "(w :: 'a::len word) = xorl (map (\<lambda>i. sel (bit w i) (2 ^ i)) [0..<LENGTH('a)])"
proof (rule bit_word_eqI)
  fix n assume n: "n < LENGTH('a)"
  have "filter (\<lambda>i. bit (sel (bit w i) (2 ^ i :: 'a word)) n) [0..<LENGTH('a)] = filter (\<lambda>i. i = n \<and> bit w n) [0..<LENGTH('a)]"
    using n by (intro filter_cong) (auto simp: sel_def bit_exp_iff)
  moreover have "filter (\<lambda>i. i = n) [0..<m] = (if n < m then [n] else [])" for m
    by (induction m) auto
  ultimately show "bit w n = bit (xorl (map (\<lambda>i. sel (bit w i) (2 ^ i :: 'a word)) [0..<LENGTH('a)])) n"
    using n by (cases "bit w n") (simp_all add: bit_xorl filter_map comp_def)
qed

text \<open>Hence a linear function is determined by its values on the powers of two.\<close>

lemma xor_linear_bits:
  fixes f :: "'a::len word \<Rightarrow> 'b::len word"
  assumes "xor_linear f"
  shows "f w = xorl (map (\<lambda>i. sel (bit w i) (f (2 ^ i))) [0..<LENGTH('a)])"
  using arg_cong [OF word_xorl_bits [of w], of f] by (simp add: xor_linear_xorl [OF assms] xor_linear_sel [OF assms])

lemma xor_linear_eqI:
  fixes f g :: "'a::len word \<Rightarrow> 'b::len word"
  assumes "xor_linear f" "xor_linear g" "\<And>i. i < LENGTH('a) \<Longrightarrow> f (2 ^ i) = g (2 ^ i)"
  shows "f w = g w"
  unfolding xor_linear_bits [OF assms(1), of w] xor_linear_bits [OF assms(2), of w]
  using assms(3) by (intro xorl_cong) simp

end
