(* ===== verification/Galois128.thy ===== *)
theory Galois128
  imports Xor_Algebra
begin

text \<open>
  \<open>psi/algorithm/rr22/okvs/galois128.cc\<close>: the field with \<open>2 ^ 128\<close> elements, polynomials over bits modulo
  \<open>x ^ 128 + x ^ 7 + x ^ 2 + x + 1\<close>. A product is computed either with the carry-less multiplication of the
  processor (\<open>mm_gf128Mul\<close> and \<open>mm_gf128Reduce\<close>) or bit by bit (\<open>cc_gf128Mul\<close>); \<open>avx2\<close> says which. Both give the same
  product, which is commutative, associative and distributes over exclusive or, and \<open>Inv\<close> finds the inverse of
  every element but zero.
\<close>

section \<open>Carry-less multiplication of the processor\<close>

definition low64 :: "128 word \<Rightarrow> 64 word" where
  "low64 w = ucast w"

definition high64 :: "128 word \<Rightarrow> 64 word" where
  "high64 w = ucast (drop_bit 64 w)"

definition clmul :: "64 word \<Rightarrow> 64 word \<Rightarrow> 128 word" where
  "clmul x y = xorl (map (\<lambda>i. sel (bit y i) (push_bit i (ucast x))) [0..<64])"

definition mm_clmulepi64_si128 :: "128 word \<Rightarrow> 128 word \<Rightarrow> 8 word \<Rightarrow> 128 word" where
  "mm_clmulepi64_si128 x y imm =
     clmul (if bit imm 0 then high64 x else low64 x) (if bit imm 4 then high64 y else low64 y)"

definition mm_slli_si128 :: "128 word \<Rightarrow> nat \<Rightarrow> 128 word" where
  "mm_slli_si128 x n = push_bit (8 * n) x"

definition mm_srli_si128 :: "128 word \<Rightarrow> nat \<Rightarrow> 128 word" where
  "mm_srli_si128 x n = drop_bit (8 * n) x"

section \<open>Operations\<close>

definition mm_gf128Mul :: "128 word \<Rightarrow> 128 word \<Rightarrow> 128 word \<times> 128 word" where
  "mm_gf128Mul x y =
     (let t1 = mm_clmulepi64_si128 x y 0x00;
          t2 = mm_clmulepi64_si128 x y 0x10;
          t3 = mm_clmulepi64_si128 x y 0x01;
          t4 = mm_clmulepi64_si128 x y 0x11;
          t2 = t2 XOR t3;
          t3 = mm_slli_si128 t2 8;
          t2 = mm_srli_si128 t2 8;
          t1 = t1 XOR t3;
          t4 = t4 XOR t2
      in (t1, t4))"

definition mm_gf128Reduce :: "128 word \<Rightarrow> 128 word \<Rightarrow> 128 word" where
  "mm_gf128Reduce x x1 =
     (let mul256_low = x; mul256_high = x1;
          modulus = 0b10000111;
          tmp = mm_clmulepi64_si128 mul256_high modulus 0x01;
          mul256_low = mul256_low XOR mm_slli_si128 tmp 8;
          mul256_high = mul256_high XOR mm_srli_si128 tmp 8;
          tmp = mm_clmulepi64_si128 mul256_high modulus 0x00;
          mul256_low = mul256_low XOR tmp
      in mul256_low)"

definition cc_step :: "128 word \<Rightarrow> nat \<Rightarrow> 128 word \<times> 128 word \<Rightarrow> 128 word \<times> 128 word" where
  "cc_step b i = (\<lambda>(z, v).
     (if drop_bit i b AND 1 \<noteq> 0 then z XOR v else z,
      if v AND 0x80000000000000000000000000000000 \<noteq> 0 then push_bit 1 v XOR 0x87 else push_bit 1 v))"

definition cc_gf128Mul :: "128 word \<Rightarrow> 128 word \<Rightarrow> 128 word" where
  "cc_gf128Mul a b = fst (fold (cc_step b) [0..<128] (0, a))"

definition Galois128_Mul :: "bool \<Rightarrow> 128 word \<Rightarrow> 128 word \<Rightarrow> 128 word" where
  "Galois128_Mul avx2 a b =
     (if avx2 then (case mm_gf128Mul a b of (xy1, xy2) \<Rightarrow> mm_gf128Reduce xy1 xy2) else cc_gf128Mul a b)"

fun pow_loop :: "bool \<Rightarrow> nat \<Rightarrow> 128 word \<Rightarrow> 128 word \<Rightarrow> 128 word" where
  "pow_loop avx2 i s pow2 =
     (if i = 0 then s
      else pow_loop avx2 (i div 2) (if i mod 2 = 1 then Galois128_Mul avx2 s pow2 else s) (Galois128_Mul avx2 pow2 pow2))"

definition Galois128_Pow :: "bool \<Rightarrow> 128 word \<Rightarrow> 64 word \<Rightarrow> 128 word" where
  "Galois128_Pow avx2 a i = (if a = 0 then 0 else pow_loop avx2 (unat i) 1 a)"

definition inv_step :: "bool \<Rightarrow> nat \<Rightarrow> 128 word \<times> 128 word \<Rightarrow> 128 word \<times> 128 word" where
  "inv_step avx2 i = (\<lambda>(a, result).
     let b = ((\<lambda>b. Galois128_Mul avx2 b b) ^^ (2 ^ i)) a;
         a = Galois128_Mul avx2 a b
     in (a, if i = 0 then b else Galois128_Mul avx2 result b))"

definition Galois128_Inv :: "bool \<Rightarrow> 128 word \<Rightarrow> 128 word result" where
  "Galois128_Inv avx2 a =
     (let result = snd (fold (inv_step avx2) [0..<7] (a, 0))
      in rbind (enforce (Galois128_Mul avx2 a result = 1) ''Mul'') (\<lambda>_. Inr result))"

declare pow_loop.simps [simp del]

section \<open>The product as a sum\<close>

text \<open>Multiplication with \<open>x\<close>.\<close>

definition xtime :: "128 word \<Rightarrow> 128 word" where
  "xtime v = push_bit 1 v XOR sel (bit v 127) 0x87"

lemma xtime_linear: "xor_linear xtime"
  by (rule xor_linearI) (simp add: xtime_def push_bit_xor bit_xor_iff sel_xor xor_ac)

lemma xtime_pow_linear: "xor_linear (xtime ^^ n)"
  by (rule xor_linear_funpow [OF xtime_linear])

lemma top_bit: "v AND 0x80000000000000000000000000000000 \<noteq> 0 \<longleftrightarrow> bit (v :: 128 word) 127"
proof -
  have "(0x80000000000000000000000000000000 :: 128 word) = 2 ^ 127" by simp
  then show ?thesis by (metis and_exp_eq_0_iff_not_bit)
qed

lemma low_bit: "drop_bit i b AND 1 \<noteq> 0 \<longleftrightarrow> bit (b :: 128 word) i"
  by (simp add: and_one_eq bit_iff_odd_drop_bit odd_iff_mod_2_eq_one)

lemma cc_step: "cc_step b i (z, v) = (z XOR sel (bit b i) v, xtime v)"
  unfolding cc_step_def top_bit low_bit by (simp add: xtime_def sel_def)

lemma cc_fold: "fold (cc_step b) [0..<n] (0, a) = (xorl (map (\<lambda>i. sel (bit b i) ((xtime ^^ i) a)) [0..<n]), (xtime ^^ n) a)"
  by (induction n) (simp_all add: cc_step)

lemma cc_sum: "cc_gf128Mul a b = xorl (map (\<lambda>i. sel (bit b i) ((xtime ^^ i) a)) [0..<128])"
  by (simp add: cc_gf128Mul_def cc_fold)

lemma cc_linear_left: "xor_linear (\<lambda>a. cc_gf128Mul a b)"
  by (rule xor_linearI) (simp add: cc_sum xor_linear_xor [OF xtime_pow_linear] sel_xor xorl_map_xor)

lemma cc_linear_right: "xor_linear (cc_gf128Mul a)"
  by (rule xor_linearI) (simp add: cc_sum bit_xor_iff sel_xor xorl_map_xor)

lemma xtime_pow_1: "i < 128 \<Longrightarrow> (xtime ^^ i) 1 = 2 ^ i"
proof (induction i)
  case (Suc i)
  then show ?case by (simp add: xtime_def bit_exp_iff)
qed simp

lemma cc_1_left: "cc_gf128Mul 1 b = b"
proof -
  have "cc_gf128Mul 1 b = xorl (map (\<lambda>i. sel (bit b i) (2 ^ i)) [0..<128])"
    unfolding cc_sum by (intro xorl_cong) (simp add: xtime_pow_1)
  then show ?thesis using word_xorl_bits [of b] by simp
qed

text \<open>The defining equation of the field: \<open>x ^ 128 = x ^ 7 + x ^ 2 + x + 1\<close>.\<close>

lemma xtime_pow_128: "(xtime ^^ 128) a = a XOR xtime a XOR (xtime ^^ 2) a XOR (xtime ^^ 7) a"
proof (rule xor_linear_eqI [where g = "\<lambda>a. a XOR xtime a XOR (xtime ^^ 2) a XOR (xtime ^^ 7) a"])
  show "xor_linear (\<lambda>a. a XOR xtime a XOR (xtime ^^ 2) a XOR (xtime ^^ 7) a)"
    by (rule xor_linearI) (simp add: xor_linear_xor [OF xtime_linear] xor_linear_xor [OF xtime_pow_linear] xor_ac)
  fix i :: nat assume "i < LENGTH(128)"
  then have i: "2 ^ i = (xtime ^^ i) 1" by (simp add: xtime_pow_1)
  have "(xtime ^^ 128) 1 = xtime ((xtime ^^ 127) 1)" using funpow.simps(2) [of 127 xtime] by simp
  also have "\<dots> = xtime (2 ^ 127)" by (simp only: xtime_pow_1)
  also have "\<dots> = 0x87" by (simp add: xtime_def)
  also have "\<dots> = 1 XOR xtime 1 XOR (xtime ^^ 2) 1 XOR (xtime ^^ 7) 1"
    using xtime_pow_1 [of 1] by (simp add: xtime_pow_1)
  finally have "(xtime ^^ i) ((xtime ^^ 128) 1) = (xtime ^^ i) (1 XOR xtime 1 XOR (xtime ^^ 2) 1 XOR (xtime ^^ 7) 1)" by simp
  moreover have "(xtime ^^ i) ((xtime ^^ k) 1) = (xtime ^^ k) ((xtime ^^ i) 1)" for k
    by (simp add: funpow_add [symmetric] add.commute flip: comp_apply [of "xtime ^^ i" "xtime ^^ k"] comp_apply [of "xtime ^^ k" "xtime ^^ i"])
  moreover have "(xtime ^^ i) (xtime 1) = xtime ((xtime ^^ i) 1)" by (simp add: funpow_swap1)
  ultimately show "(xtime ^^ 128) (2 ^ i) = 2 ^ i XOR xtime (2 ^ i) XOR (xtime ^^ 2) (2 ^ i) XOR (xtime ^^ 7) (2 ^ i)"
    unfolding i by (simp add: xor_linear_xor [OF xtime_pow_linear])
qed (rule xtime_pow_linear)

section \<open>A commutative ring\<close>

lemma cc_xtime_left: "cc_gf128Mul ((xtime ^^ n) a) b = (xtime ^^ n) (cc_gf128Mul a b)"
proof -
  have "(xtime ^^ i) ((xtime ^^ n) a) = (xtime ^^ n) ((xtime ^^ i) a)" for i
    by (metis add.commute comp_apply funpow_add)
  then show ?thesis
    by (simp add: cc_sum xor_linear_xorl [OF xtime_pow_linear] xor_linear_sel [OF xtime_pow_linear])
qed

lemma cc_exp_right: "i < 128 \<Longrightarrow> cc_gf128Mul a (2 ^ i) = (xtime ^^ i) a"
proof -
  assume i: "i < 128"
  have "cc_gf128Mul a (2 ^ i) = xorl (map (\<lambda>j. if j = i then (xtime ^^ j) a else 0) [0..<128])"
    unfolding cc_sum using i by (intro xorl_cong) (auto simp: bit_exp_iff)
  then show ?thesis using i by (simp add: xorl_single)
qed

lemma cc_comm: "cc_gf128Mul a b = cc_gf128Mul b a"
proof (rule xor_linear_eqI [OF cc_linear_left cc_linear_right])
  fix i :: nat assume "i < LENGTH(128)"
  then have i: "2 ^ i = (xtime ^^ i) 1" "i < 128" by (simp_all add: xtime_pow_1)
  show "cc_gf128Mul (2 ^ i) b = cc_gf128Mul b (2 ^ i)"
    unfolding cc_exp_right [OF i(2)] unfolding i(1) cc_xtime_left cc_1_left ..
qed

lemma cc_swap_right: "cc_gf128Mul (cc_gf128Mul a b) c = cc_gf128Mul (cc_gf128Mul a c) b"
proof -
  have "cc_gf128Mul (cc_gf128Mul a b) c = xorl (map (\<lambda>i. sel (bit c i) (cc_gf128Mul ((xtime ^^ i) a) b)) [0..<128])"
    unfolding cc_sum [of "cc_gf128Mul a b"] cc_xtime_left ..
  also have "\<dots> = cc_gf128Mul (cc_gf128Mul a c) b"
    unfolding cc_sum [of a c] xor_linear_xorl [OF cc_linear_left] xor_linear_sel [OF cc_linear_left] ..
  finally show ?thesis .
qed

lemma cc_assoc: "cc_gf128Mul (cc_gf128Mul a b) c = cc_gf128Mul a (cc_gf128Mul b c)"
  by (metis cc_comm cc_swap_right)

lemma cc_1_right: "cc_gf128Mul a 1 = a"
  by (metis cc_1_left cc_comm)

lemma cc_0 [simp]: "cc_gf128Mul 0 b = 0" "cc_gf128Mul a 0 = 0"
  using xor_linear_0 [OF cc_linear_left] xor_linear_0 [OF cc_linear_right] by simp_all

section \<open>Both multiplications agree\<close>

lemma xtime_pow_push:
  assumes "\<And>n. 128 \<le> n + i \<Longrightarrow> \<not> bit v n"
  shows "(xtime ^^ i) v = push_bit i v"
  using assms
proof (induction i)
  case (Suc i)
  have "\<not> bit v (127 - i)" if "i \<le> 127" using Suc.prems [of "127 - i"] that by simp
  moreover have "(xtime ^^ i) v = push_bit i v" using Suc by simp
  ultimately have "(xtime ^^ Suc i) v = push_bit 1 (push_bit i v)"
    unfolding funpow.simps comp_apply xtime_def [of "push_bit i v"] by (auto simp: bit_push_bit_iff xtime_def [of "push_bit i v"] sel_def)
  then show ?case by (simp only: push_bit_push_bit plus_1_eq_Suc)
qed simp

lemma bit_ucast64: "bit (ucast (x :: 64 word) :: 128 word) n \<longleftrightarrow> n < 64 \<and> bit x n"
  by (auto simp: bit_ucast_iff dest: bit_imp_le_length)

lemma clmul_cc: "clmul x y = cc_gf128Mul (ucast x) (ucast y)"
proof -
  have "[0..<128] = [0..<64] @ [64..<128]" using upt_add_eq_append [of 0 64 64] by simp
  moreover have "xorl (map (\<lambda>i. sel (i < 64 \<and> bit y i) ((xtime ^^ i) (ucast x))) [64..<128]) = 0"
    by (rule xorl_zero) (simp only: set_upt atLeastLessThan_iff, simp)
  ultimately have "cc_gf128Mul (ucast x) (ucast y) = xorl (map (\<lambda>i. sel (i < 64 \<and> bit y i) ((xtime ^^ i) (ucast x))) [0..<64])"
    unfolding cc_sum bit_ucast64 by (simp only: map_append xorl_append xor.right_neutral)
  also have "\<dots> = xorl (map (\<lambda>i. sel (bit y i) ((xtime ^^ i) (ucast x))) [0..<64])" by (rule xorl_cong) simp
  also have "\<dots> = clmul x y"
    unfolding clmul_def by (rule xorl_cong) (use xtime_pow_push bit_ucast64 in auto)
  finally show ?thesis ..
qed

abbreviation (input) lo :: "128 word \<Rightarrow> 128 word" where "lo x \<equiv> ucast (low64 x)"
abbreviation (input) hi :: "128 word \<Rightarrow> 128 word" where "hi x \<equiv> ucast (high64 x)"

lemma bit_lo: "bit (lo x) n \<longleftrightarrow> n < 64 \<and> bit x n"
  by (auto simp: bit_ucast64 low64_def bit_ucast_iff)

lemma bit_hi: "bit (hi x) n \<longleftrightarrow> n < 64 \<and> bit x (n + 64)"
  by (auto simp: bit_ucast64 high64_def bit_ucast_iff bit_drop_bit_eq add.commute)

lemma halves: "x = lo x XOR (xtime ^^ 64) (hi x)" "push_bit 64 x = (xtime ^^ 64) (lo x)" "drop_bit 64 x = hi x" "lo (x XOR y) = lo x XOR lo y"
proof -
  have "(xtime ^^ 64) (hi x) = push_bit 64 (hi x)" "(xtime ^^ 64) (lo x) = push_bit 64 (lo x)"
    by (rule xtime_pow_push; simp add: bit_hi bit_lo)+
  then show "x = lo x XOR (xtime ^^ 64) (hi x)" "push_bit 64 x = (xtime ^^ 64) (lo x)"
    by (auto intro!: bit_word_eqI simp: bit_xor_iff bit_push_bit_iff bit_lo bit_hi)
  show "drop_bit 64 x = hi x"
    by (rule bit_word_eqI) (auto simp: bit_hi bit_drop_bit_eq add.commute dest: bit_imp_le_length)
  show "lo (x XOR y) = lo x XOR lo y" by (rule bit_word_eqI) (auto simp: bit_xor_iff bit_lo)
qed

abbreviation (input) x64 :: "128 word \<Rightarrow> 128 word" where "x64 \<equiv> xtime ^^ 64"

lemma x64_x64: "x64 (x64 v) = cc_gf128Mul v 0x87"
proof -
  have "x64 (x64 v) = (xtime ^^ 128) v" using funpow_add [of 64 64 xtime] by (simp add: comp_def)
  moreover have "(0x87 :: 128 word) = 2 ^ 0 XOR 2 ^ 1 XOR 2 ^ 2 XOR 2 ^ 7" by simp
  then have "cc_gf128Mul v 0x87 = cc_gf128Mul v (2 ^ 0 XOR 2 ^ 1 XOR 2 ^ 2 XOR 2 ^ 7)" by (simp only:)
  then have "cc_gf128Mul v 0x87 = v XOR xtime v XOR (xtime ^^ 2) v XOR (xtime ^^ 7) v"
    unfolding xor_linear_xor [OF cc_linear_right] by (simp only: cc_exp_right) simp
  ultimately show ?thesis by (simp add: xtime_pow_128)
qed

lemma x64_split: "x64 t = push_bit 64 t XOR x64 (x64 (hi t))"
proof -
  have "x64 t = x64 (lo t XOR x64 (hi t))" using halves(1) [of t] by simp
  then show ?thesis by (simp add: halves(2) xor_linear_xor [OF xtime_pow_linear])
qed

lemma mm_gf128Mul_value: "mm_gf128Mul x y = (p, q) \<Longrightarrow> p XOR x64 (x64 q) = cc_gf128Mul x y"
proof -
  assume mm: "mm_gf128Mul x y = (p, q)"
  let ?c = cc_gf128Mul and ?t = "cc_gf128Mul (lo x) (hi y) XOR cc_gf128Mul (hi x) (lo y)"
  have p: "p = ?c (lo x) (lo y) XOR push_bit 64 ?t" and q: "q = ?c (hi x) (hi y) XOR hi ?t"
    using mm by (simp_all add: mm_gf128Mul_def Let_def mm_clmulepi64_si128_def mm_slli_si128_def mm_srli_si128_def clmul_cc halves(3))
  have "?c x y = ?c (lo x XOR x64 (hi x)) (lo y XOR x64 (hi y))" using halves(1) by metis
  also have "\<dots> = ?c (lo x) (lo y) XOR x64 ?t XOR x64 (x64 (?c (hi x) (hi y)))"
    by (simp add: xor_linear_xor [OF cc_linear_left] xor_linear_xor [OF cc_linear_right] cc_xtime_left
        cc_comm [of _ "x64 (hi y)"] cc_comm [of "hi y"] xor_linear_xor [OF xtime_pow_linear] xor_ac)
  also have "\<dots> = p XOR x64 (x64 q)"
    unfolding p q x64_split [of ?t] by (simp add: xor_linear_xor [OF xtime_pow_linear] xor_ac)
  finally show ?thesis ..
qed

lemma mm_gf128Reduce_value: "mm_gf128Reduce p q = p XOR x64 (x64 q)"
proof -
  let ?t = "cc_gf128Mul (hi q) 0x87"
  have m: "ucast (low64 0x87) = (0x87 :: 128 word)" by (simp add: low64_def)
  have "mm_gf128Reduce p q = p XOR push_bit 64 ?t XOR cc_gf128Mul (lo (q XOR hi ?t)) 0x87"
    by (simp add: mm_gf128Reduce_def mm_clmulepi64_si128_def mm_slli_si128_def mm_srli_si128_def clmul_cc halves(3) m Let_def xor.assoc)
  also have "lo (q XOR hi ?t) = lo q XOR hi ?t"
    unfolding halves(4) by (rule bit_word_eqI) (auto simp: bit_xor_iff bit_lo bit_hi)
  also have "p XOR push_bit 64 ?t XOR cc_gf128Mul (lo q XOR hi ?t) 0x87 = p XOR x64 ?t XOR x64 (x64 (lo q))"
    unfolding x64_split [of ?t] by (simp add: x64_x64 xor_linear_xor [OF cc_linear_left] xor_ac)
  also have "x64 ?t = x64 (x64 (x64 (hi q)))" by (simp only: x64_x64)
  also have "p XOR x64 (x64 (x64 (hi q))) XOR x64 (x64 (lo q)) = p XOR x64 (x64 (lo q XOR x64 (hi q)))"
    by (simp add: xor_linear_xor [OF xtime_pow_linear] xor_ac)
  also have "\<dots> = p XOR x64 (x64 q)" using halves(1) [of q] by simp
  finally show ?thesis .
qed

lemma Galois128_Mul_cc: "Galois128_Mul avx2 = cc_gf128Mul"
  by (auto simp: Galois128_Mul_def mm_gf128Reduce_value mm_gf128Mul_value fun_eq_iff split: prod.split)

text \<open>
  C26. The two implementations of the product in the field with \<open>2 ^ 128\<close> elements, by the carry-less multiplication of the processor
  with a two-step reduction and by shifting and adding bit by bit, agree on all inputs: both parties of a protocol compute
  the same whether or not their processors have the instructions.
\<close>

theorem Galois128_Mul_equiv: "Galois128_Mul True a b = Galois128_Mul False a b"
  by (simp only: Galois128_Mul_cc)

section \<open>Powers\<close>

primrec gpow :: "128 word \<Rightarrow> nat \<Rightarrow> 128 word" where
  "gpow a 0 = 1"
| "gpow a (Suc n) = cc_gf128Mul a (gpow a n)"

lemma gpow_add: "gpow a (m + n) = cc_gf128Mul (gpow a m) (gpow a n)"
  by (induction m) (simp_all add: cc_1_left cc_assoc)

lemma gpow_mult: "gpow (gpow a m) n = gpow a (m * n)"
  by (induction n) (simp_all add: gpow_add)

lemma gpow_1 [simp]: "gpow a (Suc 0) = a"
  by (simp add: cc_1_right)

lemma gpow_2: "gpow a 2 = cc_gf128Mul a a"
  by (simp add: numeral_2_eq_2 cc_1_right)

lemma gpow_0 [simp]: "0 < n \<Longrightarrow> gpow 0 n = 0"
  by (cases n) simp_all

lemma gpow_square: "cc_gf128Mul (gpow a n) (gpow a n) = gpow a (2 * n)"
  by (simp add: gpow_add mult_2)

lemma pow_loop_gpow: "pow_loop avx2 i s p = cc_gf128Mul s (gpow p i)"
proof (induction avx2 i s p rule: pow_loop.induct)
  case (1 avx2 i s p)
  show ?case
  proof (cases "i = 0")
    case False
    have "gpow (cc_gf128Mul p p) (i div 2) = gpow p (2 * (i div 2))"
      using gpow_mult [of p 2 "i div 2"] by (simp add: numeral_2_eq_2 cc_1_right)
    moreover have "gpow p i = cc_gf128Mul (gpow p (i mod 2)) (gpow p (2 * (i div 2)))"
      using gpow_add [of p "i mod 2" "2 * (i div 2)"] by simp
    moreover have "pow_loop avx2 i s p = cc_gf128Mul (if i mod 2 = 1 then cc_gf128Mul s p else s) (gpow (cc_gf128Mul p p) (i div 2))"
      using 1 [OF False] False unfolding pow_loop.simps [of avx2 i s p] Galois128_Mul_cc by (simp only: if_False)
    ultimately show ?thesis by (cases "i mod 2 = 0") (simp_all add: cc_assoc cc_1_left)
  qed (simp add: pow_loop.simps cc_1_right)
qed

lemma Galois128_Pow_gpow: "Galois128_Pow avx2 a i = (if a = 0 then 0 else gpow a (unat i))"
  by (simp add: Galois128_Pow_def pow_loop_gpow cc_1_left)

lemma square_pow: "((\<lambda>b. cc_gf128Mul b b) ^^ k) (gpow a n) = gpow a (n * 2 ^ k)"
  by (induction k) (simp_all add: gpow_square mult.left_commute)

text \<open>The addition chain of \<open>Inv\<close> computes \<open>a ^ (2 ^ 128 - 2)\<close>.\<close>

lemma inv_chain:
  "fold (inv_step avx2) [0..<n] (a, 0) = (gpow a (2 ^ 2 ^ n - 1), if n = 0 then 0 else gpow a (2 ^ 2 ^ n - 2))"
proof (induction n)
  case (Suc n)
  let ?e = "2 ^ 2 ^ n :: nat"
  have e: "?e * ?e = 2 ^ 2 ^ Suc n" "2 \<le> ?e"
    using power_increasing [of 1 "2 ^ n" "2 :: nat"] by (simp_all add: mult_2 flip: power_add)
  have "?e - 1 + (?e - 1) * ?e = 2 ^ 2 ^ Suc n - 1" "?e - 2 + (?e - 1) * ?e = 2 ^ 2 ^ Suc n - 2"
    using e(2) mult_le_mono [OF e(2) order_refl, of ?e] unfolding e(1) [symmetric] by (simp_all add: diff_mult_distrib)
  moreover have "n = 0 \<Longrightarrow> (?e - 1) * ?e = 2 ^ 2 ^ Suc n - 2" by simp
  ultimately show ?case
    using Suc by (auto simp: inv_step_def Galois128_Mul_cc square_pow Let_def gpow_2 cc_1_right gpow_add [symmetric] simp del: power_Suc)
qed (simp add: cc_1_right)

lemma Galois128_Inv_gpow:
  "Galois128_Inv avx2 a = (let r = gpow a (2 ^ 128 - 2) in if cc_gf128Mul a r = 1 then Inr r else Inl (Enforce ''Mul''))"
  using inv_chain [of avx2 7 a] by (simp add: Galois128_Inv_def Galois128_Mul_cc Let_def enforce_bind)

section \<open>The Frobenius map\<close>

text \<open>
  Squaring is linear and its 128-th power is the identity, which is evaluated on \<open>x\<close>, with polynomials as lists of their
  coefficients.
\<close>

lemma square_linear: "xor_linear (\<lambda>a. cc_gf128Mul a a)"
proof (rule xor_linearI)
  fix x y
  show "cc_gf128Mul (x XOR y) (x XOR y) = cc_gf128Mul x x XOR cc_gf128Mul y y"
    by (simp add: xor_linear_xor [OF cc_linear_left] xor_linear_xor [OF cc_linear_right] cc_comm [of y x] xor_ac)
qed

primrec pval :: "bool list \<Rightarrow> 128 word" where
  "pval [] = 0"
| "pval (b # bs) = sel b 1 XOR xtime (pval bs)"

fun spread :: "bool list \<Rightarrow> bool list" where
  "spread [] = []"
| "spread (b # bs) = b # False # spread bs"

fun xorb :: "bool list \<Rightarrow> bool list \<Rightarrow> bool list" where
  "xorb (True # as) (True # bs) = False # xorb as bs"
| "xorb (True # as) (False # bs) = True # xorb as bs"
| "xorb (False # as) (b # bs) = b # xorb as bs"
| "xorb [] bs = bs"
| "xorb as [] = as"

fun take_as :: "'a list \<Rightarrow> 'b list \<Rightarrow> 'b list" where
  "take_as (t # ts) (x # xs) = x # take_as ts xs"
| "take_as _ _ = []"

fun drop_as :: "'a list \<Rightarrow> 'b list \<Rightarrow> 'b list" where
  "drop_as (t # ts) (x # xs) = drop_as ts xs"
| "drop_as _ xs = xs"

definition times_modulus :: "bool list \<Rightarrow> bool list" where
  "times_modulus h = xorb h (False # xorb h (False # xorb h (False # False # False # False # False # h)))"

definition reduce :: "bool list \<Rightarrow> bool list \<Rightarrow> bool list" where
  "reduce ts bs = xorb (take_as ts bs) (times_modulus (drop_as ts bs))"

definition squareb :: "bool list \<Rightarrow> bool list" where
  "squareb bs = reduce bs (reduce bs (spread bs))"

primrec frobenius :: "nat \<Rightarrow> bool list \<Rightarrow> bool list" where
  "frobenius 0 bs = bs"
| "frobenius (Suc n) bs = frobenius n (squareb bs)"

lemma pval_xorb: "pval (xorb as bs) = pval as XOR pval bs"
  by (induction as bs rule: xorb.induct) (simp_all add: xor_linear_xor [OF xtime_linear] xor_ac)

lemma pval_spread: "pval (spread bs) = cc_gf128Mul (pval bs) (pval bs)"
proof (induction bs)
  case (Cons b bs)
  have x: "cc_gf128Mul (xtime v) (xtime w) = xtime (xtime (cc_gf128Mul v w))" for v w
    using cc_xtime_left [of 1] cc_comm by (metis funpow_0 funpow_simps_right(2) comp_apply One_nat_def)
  have "cc_gf128Mul (sel b 1) (sel b 1) = sel b 1" by (cases b) (simp_all add: cc_1_left)
  then show ?case using Cons xor_linear_xor [OF square_linear, of "sel b 1" "xtime (pval bs)"] by (simp add: x)
qed simp

lemma pval_times_modulus: "pval (times_modulus h) = (xtime ^^ 128) (pval h)"
  unfolding xtime_pow_128 by (simp add: times_modulus_def pval_xorb xor_linear_xor [OF xtime_linear] numeral_eq_Suc xor_ac)

lemma pval_split: "length ts \<le> length bs \<Longrightarrow> pval bs = pval (take_as ts bs) XOR (xtime ^^ length ts) (pval (drop_as ts bs))"
  by (induction ts bs rule: take_as.induct) (auto simp: xor_linear_xor [OF xtime_linear] xor_ac)

lemma xorb_length [simp]: "length (xorb as bs) = max (length as) (length bs)"
  by (induction as bs rule: xorb.induct) auto

lemma take_drop_as_length [simp]:
  "length (take_as ts bs) = min (length ts) (length bs)" "length (drop_as ts bs) = length bs - length ts"
  by (induction ts bs rule: take_as.induct) auto

lemma spread_length [simp]: "length (spread bs) = 2 * length bs"
  by (induction bs) simp_all

lemma reduce_value:
  assumes "length ts = 128" "128 \<le> length bs"
  shows "pval (reduce ts bs) = pval bs" "length (reduce ts bs) = max 128 (length bs - 121)"
  using pval_split [of ts bs] assms by (simp add: reduce_def pval_xorb pval_times_modulus, simp add: reduce_def times_modulus_def)

lemma squareb_value:
  assumes "length bs = 128"
  shows "pval (squareb bs) = cc_gf128Mul (pval bs) (pval bs)" "length (squareb bs) = 128"
  using reduce_value [OF assms, of "spread bs"] reduce_value [OF assms, of "reduce bs (spread bs)"] assms
  by (simp_all add: squareb_def pval_spread)

lemma frobenius_value: "length bs = 128 \<Longrightarrow> pval (frobenius n bs) = ((\<lambda>a. cc_gf128Mul a a) ^^ n) (pval bs)"
  by (induction n arbitrary: bs) (simp_all only: frobenius.simps squareb_value funpow_simps_right comp_apply id_apply)

lemma frobenius_x:
  "frobenius 128 (False # True # replicate 126 False) = False # True # replicate 126 False"
  by code_simp

lemma frobenius_2: "((\<lambda>a. cc_gf128Mul a a) ^^ 128) 2 = 2"
proof -
  have "pval (replicate n False) = 0" for n by (induction n) (simp_all add: xor_linear_0 [OF xtime_linear])
  then have "pval (False # True # replicate 126 False) = 2" by (simp add: xor_linear_0 [OF xtime_linear] xtime_def)
  then show ?thesis using frobenius_value [of "False # True # replicate 126 False" 128] frobenius_x by simp
qed

lemma gpow_2_xtime: "gpow 2 n = (xtime ^^ n) 1"
proof (induction n)
  case (Suc n)
  then show ?case using cc_exp_right [of 1 "gpow 2 n"] by (simp add: cc_comm [of 2])
qed simp

lemma gpow_frobenius: "gpow a (2 ^ 128) = a"
proof -
  have sq: "gpow a (2 ^ 128) = ((\<lambda>a. cc_gf128Mul a a) ^^ 128) a" for a
    using square_pow [of 128 a "Suc 0"] by (simp only: gpow_1 mult_Suc mult_0 add_0_right)
  show ?thesis
    unfolding sq
  proof (rule xor_linear_eqI [OF xor_linear_funpow [OF square_linear] xor_linear_id])
    fix i :: nat assume "i < LENGTH(128)"
    then have i: "2 ^ i = gpow 2 i" by (simp add: gpow_2_xtime xtime_pow_1)
    have "gpow (gpow 2 i) (2 ^ 128) = gpow (gpow 2 (2 ^ 128)) i" unfolding gpow_mult by (simp only: mult.commute)
    then show "((\<lambda>a. cc_gf128Mul a a) ^^ 128) (2 ^ i) = 2 ^ i" unfolding i sq frobenius_2 .
  qed
qed

section \<open>A field\<close>

text \<open>
  The only elements that are equal to their square are zero and one: the list holds the values, on the powers of \<open>x\<close>, of a
  linear map that undoes \<open>a + a ^ 2\<close> up to the constant coefficient.
\<close>

definition inv_cert :: "128 word list" where
  "inv_cert = [
     0x295ac0b1f4731af9676aac9fa4b20b08, 0xe5da5595ee970b89929959af766af404, 0xe5da5595ee970b89929959af766af406, 0x4e9826c74350bfe67783f7333404a20c,
     0xe5da5595ee970b89929959af766af402, 0x2aaea79ad7da34b07dc714cb83074e6a, 0x4e9826c74350bfe67783f7333404a204, 0xcc8095241ae41171f5f3f531d2d9fe18,
     0xe5da5595ee970b89929959af766af412, 0x4e983687d159ce9677cb862e8ac85b44, 0x2aaea79ad7da34b07dc714cb83074e4a, 0xaae2ab6aaf144aaff73fcb3c06aaff56,
     0x4e9826c74350bfe67783f7333404a244, 0xe62f327ccd5792dd893fe9ca40603f62, 0xcc8095241ae41171f5f3f531d2d9fe98, 0xab52f0323f47c90be1336bc7d453b626,
     0xe5da5595ee970b89929959af766af512, 0x2abe34bad75338b479a6a089abf4573a, 0x4e983687d159ce9677cb862e8ac85944, 0x01e8ccb9dcc72f2e1a9cbef8232562fc,
     0x2aaea79ad7da34b07dc714cb83074a4a, 0x02442c3221f3dc1a0ce869b24a80e48c, 0xaae2ab6aaf144aaff73fcb3c06aaf756, 0xcf64612f39c4323deb3ff936dd9aa228,
     0x4e9826c74350bfe67783f7333404b244, 0xcc911696880d4909f0d5382a57572458, 0xe62f327ccd5792dd893fe9ca40601f62, 0x4d7cd7cc29d28cf2697f6478e5db2834,
     0xcc8095241ae41171f5f3f531d2d9be98, 0xccc99127569146a7fc0956ca1a5b86a4, 0xab52f0323f47c90be1336bc7d4533626, 0x65cece94dacd5b1c14f5986b001eeb82,
     0xe5da5595ee970b89929959af766bf512, 0x2b0e7fa2d509ca746fe27169c7c3e73a, 0x2abe34bad75338b479a6a089abf6573a, 0x65df4d264824132411d3553885980142,
     0x4e983687d159ce9677cb862e8acc5944, 0xcf74f70e70ef2af7ef6fd21d2af671a4, 0x01e8ccb9dcc72f2e1a9cbef8232d62fc, 0xcec4b9173b16cdf9f91a9d8499490f58,
     0x2aaea79ad7da34b07dc714cb83174a4a, 0x83f16f99175f624799a6cf206b513bdc, 0x02442c3221f3dc1a0ce869b24aa0e48c, 0x03f562a96a2aa9081b9e27ebe84671c0,
     0xaae2ab6aaf144aaff73fcb3c06eaf756, 0xccc9c07ae11bcce3fcd6d526cddeebd4, 0xcf64612f39c4323deb3ff936dd1aa228, 0xa95fc803c09556f7e461dfebe8467196,
     0x4e9826c74350bfe67783f7333504b244, 0x4cdc1ab0f0ab5b2e7b20ee03c15c7384, 0xcc911696880d4909f0d5382a55572458, 0xaaba68961da11d79fb48c8c7fe68cf6a,
     0xe62f327ccd5792dd893fe9ca44601f62, 0xe5db5416ee209847938b5c70638d3bee, 0x4d7cd7cc29d28cf2697f6478eddb2834, 0x6437818b95e2e76e0b49fa26a7e512ce,
     0xcc8095241ae41171f5f3f531c2d9be98, 0x4cd9020746184ba27868a299022ddf34, 0xccc99127569146a7fc0956ca3a5b86a4, 0x824171dcefbe4a8b8f1d24e407e8e76c,
     0xab52f0323f47c90be1336bc794533626, 0xe62e22af1f6bf32b88711e202cdc3b5e, 0x65cece94dacd5b1c14f5986b801eeb82, 0x83f4672b23a92e499aadb85427b54520,
     0xe5da5595ee970b89929959ae766bf512, 0x00001040920971720048711dbeccf94c, 0x2b0e7fa2d509ca746fe2716bc7c3e73a, 0x81edd40a7a7437cb99d6b267d0d7976c,
     0x2abe34bad75338b479a6a08dabf6573a, 0xe46a1e8deccdf96d84dd884d1a5d4462, 0x65df4d264824132411d3553085980142, 0x804c1cb1eac70f698ab1aeeb3a605920,
     0x4e983687d159ce9677cb863e8acc5944, 0xa94f4b3252499e01e04514377dbd55aa, 0xcf74f70e70ef2af7ef6fd23d2af671a4, 0xe7d77da5831189d3978a93f3f56f619e,
     0x01e8ccb9dcc72f2e1a9cbeb8232d62fc, 0x4cdd0f362b68e52a7a5109eab0a16ef4, 0xcec4b9173b16cdf9f91a9d0499490f58, 0xe4329c3d7bf233698830781e88d05912,
     0x2aaea79ad7da34b07dc715cb83174a4a, 0x82082082597387418618bcbfcff334e0, 0x83f16f99175f624799a6cd206b513bdc, 0x294b124ed1181a846297e291f4adcc3a,
     0x02442c3221f3dc1a0ce86db24aa0e48c, 0xe78fff41144664939b696b666550119e, 0x03f562a96a2aa9081b9e2febe84671c0, 0xcd78dbfd54a1436beb568d9e63d55a14,
     0xaae2ab6aaf144aaff73fdb3c06eaf756, 0xccdd4e7b1ce38d0ffacabbbeed722b64, 0xccc9c07ae11bcce3fcd6f526cddeebd4, 0x03e5e1ccb1bf89c61fb4754fa43bbf3c,
     0xcf64612f39c4323deb3fb936dd1aa228, 0xe5da00893461b455926f68f4172caea2, 0xa95fc803c09556f7e4615febe8467196, 0xe78ae2a77b3e87b1981cf1dccb9d1fd2,
     0x4e9826c74350bfe67782f7333504b244, 0x2912d4222a675b0a6fd777b6c15f72c6, 0x4cdc1ab0f0ab5b2e7b22ee03c15c7384, 0xe7d6682e58d237f196f8740f85956fd2,
     0xcc911696880d4909f0d1382a55572458, 0xab4366b0764a0b4be46143c933474626, 0xaaba68961da11d79fb40c8c7fe68cf6a, 0xe7d77d718378aeb397849bb7f7de0d9e,
     0xe62f327ccd5792dd892fe9ca44601f62, 0x64231d9efb5729d60d13f9bd382e380e, 0xe5db5416ee20984793ab5c70638d3bee, 0x81b51ab7a5fe1499959811bd9a557220,
     0x4d7cd7cc29d28cf2693f6478eddb2834, 0x295ab4bb43072c12678a4ee975a08406, 0x6437818b95e2e76e0bc9fa26a7e512ce, 0xab0eead38eb165ebef9e1acd25989a26,
     0xcc8095241ae41171f4f3f531c2d9be98, 0x03ba7996db230c0010185b9b29b00000, 0x4cd9020746184ba27a68a299022ddf34, 0x8210932010890d058261f45338765990,
     0xccc99127569146a7f80956ca3a5b86a4, 0x2a88e0fbb92f0c2c7f14722e3db361fa, 0x824171dcefbe4a8b871d24e407e8e76c, 0x29b11e87b8989fd86fb067f47d17578a,
     0xab52f0323f47c90bf1336bc794533626, 0x00000000000000000000000000000000, 0xe62e22af1f6bf32ba8711e202cdc3b5e, 0x862e22af1f6bf32ba8711e202cdc3b6c,
     0x65cece94dacd5b1c54f5986b801eeb82, 0x8e8cbdc6770aef73b1ef36f7c270bdac, 0x83f4672b23a92e491aadb85427b54520, 0x38b21c09fae1613c0db7ed8c3891e6fa
]"

definition undo :: "128 word \<Rightarrow> 128 word" where
  "undo w = xorl (map (\<lambda>j. sel (bit w j) (inv_cert ! j)) [0..<128])"

definition undo_pow :: "nat \<Rightarrow> 128 word" where
  "undo_pow n = undo ((xtime ^^ n) 1)"

fun evens :: "'a list \<Rightarrow> 'a list" where
  "evens (x # y # r) = x # evens r"
| "evens r = r"

fun quads :: "'a::len word list \<Rightarrow> 'a word list" where
  "quads (a # b # c # d # e # f # g # h # r) = (a XOR b XOR c XOR h) # quads (b # c # d # e # f # g # h # r)"
| "quads r = []"

fun powers :: "128 word list \<Rightarrow> 128 word list \<Rightarrow> 128 word \<Rightarrow> bool" where
  "powers (x # xs) (y # ys) p = (x XOR y = p \<and> powers xs ys (2 * p))"
| "powers xs ys p = (xs = [] \<and> ys = [])"

lemma undo_linear: "xor_linear undo"
  by (rule xor_linearI) (simp add: undo_def bit_xor_iff sel_xor xorl_map_xor)

lemma undo_exp: "j < 128 \<Longrightarrow> undo (2 ^ j) = inv_cert ! j"
proof -
  assume j: "j < 128"
  have "undo (2 ^ j) = xorl (map (\<lambda>i. if i = j then inv_cert ! i else 0) [0..<128])"
    unfolding undo_def using j by (intro xorl_cong) (auto simp: bit_exp_iff)
  then show ?thesis using j by (simp add: xorl_single)
qed

lemma undo_pow_low: "map undo_pow [0..<128] = inv_cert"
proof (rule nth_equalityI)
  show "length (map undo_pow [0..<128]) = length inv_cert" by (simp add: inv_cert_def)
  show "map undo_pow [0..<128] ! i = inv_cert ! i" if "i < length (map undo_pow [0..<128])" for i
    using that by (simp add: undo_pow_def xtime_pow_1 undo_exp)
qed

lemma undo_pow_high: "undo_pow (n + 128) = undo_pow n XOR undo_pow (n + 1) XOR undo_pow (n + 2) XOR undo_pow (n + 7)"
proof -
  have "(xtime ^^ (n + 128)) 1 = (xtime ^^ 128) ((xtime ^^ n) 1)" by (metis add.commute comp_apply funpow_add)
  also have "\<dots> = (xtime ^^ n) 1 XOR (xtime ^^ (n + 1)) 1 XOR (xtime ^^ (n + 2)) 1 XOR (xtime ^^ (n + 7)) 1"
    unfolding xtime_pow_128 by (simp add: funpow_add add.commute [of n] numeral_2_eq_2)
  finally show ?thesis by (simp add: undo_pow_def xor_linear_xor [OF undo_linear])
qed

lemma quads_upt: "quads (map f [m..<m + n + 7]) = map (\<lambda>k. f k XOR f (k + 1) XOR f (k + 2) XOR f (k + 7)) [m..<m + n]"
proof (induction n arbitrary: m)
  case (Suc n)
  have u: "[m..<m + Suc n + 7] = m # (m + 1) # (m + 2) # (m + 3) # (m + 4) # (m + 5) # (m + 6) # (m + 7) # [m + 8..<m + Suc n + 7]"
    "[Suc m..<Suc m + n + 7] = (m + 1) # (m + 2) # (m + 3) # (m + 4) # (m + 5) # (m + 6) # (m + 7) # [m + 8..<m + Suc n + 7]"
    by (simp_all add: upt_conv_Cons numeral_eq_Suc)
  have "[m..<m + Suc n] = m # [Suc m..<Suc m + n]" by (simp add: upt_conv_Cons)
  then show ?case using Suc [of "Suc m"] unfolding u by (simp only: list.map quads.simps)
qed (simp add: upt_conv_Cons numeral_eq_Suc)

lemma evens_upt: "evens (map f [m..<m + 2 * n]) = map (\<lambda>k. f (m + 2 * k)) [0..<n]"
proof (induction n arbitrary: m)
  case (Suc n)
  have "[m..<m + 2 * Suc n] = m # Suc m # [(m + 2)..<(m + 2) + 2 * n]" by (simp add: upt_conv_Cons)
  moreover have "map (\<lambda>k. f (m + 2 * k)) [0..<Suc n] = f m # map (\<lambda>k. f (m + 2 + 2 * k)) [0..<n]"
    by (simp add: map_upt_Suc del: upt_Suc)
  ultimately show ?case using Suc [of "m + 2"] by simp
qed simp

lemma powers_nth: "powers xs ys p \<Longrightarrow> i < length xs \<Longrightarrow> i < length ys \<Longrightarrow> xs ! i XOR ys ! i = 2 ^ i * p"
  by (induction xs ys p arbitrary: i rule: powers.induct) (auto simp: nth_Cons' less_Suc_eq_0_disj ac_simps)

lemma cert_powers: "powers (evens (drop 2 inv_cert @ quads (inv_cert @ take 7 (quads inv_cert)))) (drop 1 inv_cert) 2"
  by (simp add: inv_cert_def)

lemma undo_square:
  assumes "0 < i" "i < 128"
  shows "undo (cc_gf128Mul (2 ^ i) (2 ^ i) XOR 2 ^ i) = 2 ^ i"
proof -
  let ?Q = "\<lambda>k. undo_pow k XOR undo_pow (k + 1) XOR undo_pow (k + 2) XOR undo_pow (k + 7)"
  have q: "map ?Q [m..<n] = map undo_pow [m + 128..<n + 128]" for m n
    unfolding undo_pow_high [symmetric] by (rule nth_equalityI) (simp_all add: ac_simps)
  have "take 7 (quads inv_cert) = map undo_pow [128..<135]"
    using quads_upt [of undo_pow 0 121] q [of 0 121] by (simp add: undo_pow_low take_map)
  then have "inv_cert @ take 7 (quads inv_cert) = map undo_pow [0..<0 + 128 + 7]"
    using upt_add_eq_append [of 0 128 7] by (simp add: undo_pow_low)
  then have "quads (inv_cert @ take 7 (quads inv_cert)) = map undo_pow [128..<256]"
    using quads_upt [of undo_pow 0 128] q [of 0 128] by simp
  then have "drop 2 inv_cert @ quads (inv_cert @ take 7 (quads inv_cert)) = map undo_pow ([2..<128] @ [128..<256])"
    using arg_cong [OF undo_pow_low, of "drop 2"] by (simp only: drop_map drop_upt add_0 map_append)
  also have "[2..<128] @ [128..<256] = [2..<2 + 2 * 127 :: nat]" using upt_add_eq_append [of 2 128 128] by simp
  finally have e: "evens (drop 2 inv_cert @ quads (inv_cert @ take 7 (quads inv_cert))) = map (\<lambda>k. undo_pow (2 + 2 * k)) [0..<127]"
    by (simp only: evens_upt)
  have d: "drop 1 inv_cert = map undo_pow [1..<128]" using arg_cong [OF undo_pow_low, of "drop 1"] by (simp only: drop_map drop_upt add_0)
  have "undo_pow (2 + 2 * (i - 1)) XOR undo_pow (1 + (i - 1)) = 2 ^ (i - 1) * 2"
    using powers_nth [OF cert_powers [unfolded e d], of "i - 1"] assms by simp
  then have "undo_pow (2 * i) XOR undo_pow i = 2 ^ i"
    using assms power_Suc2 [of "2 :: 128 word" "i - 1"] by (cases i) simp_all
  moreover have "2 ^ i = gpow 2 i" using assms by (simp add: gpow_2_xtime xtime_pow_1)
  ultimately show ?thesis
    using gpow_square [of 2 i] by (simp add: undo_pow_def xor_linear_xor [OF undo_linear] gpow_2_xtime)
qed

lemma idempotent:
  assumes "cc_gf128Mul e e = e"
  shows "e = 0 \<or> e = 1"
proof -
  let ?f = "\<lambda>w. undo (cc_gf128Mul w w XOR w)" and ?g = "\<lambda>w :: 128 word. w XOR sel (bit w 0) 1"
  have f: "xor_linear ?f"
    by (rule xor_linearI) (simp add: xor_linear_xor [OF undo_linear] xor_linear_xor [OF square_linear] xor_ac)
  have g: "xor_linear ?g" by (rule xor_linearI) (simp add: bit_xor_iff sel_xor xor_ac)
  have "?f e = ?g e"
  proof (rule xor_linear_eqI [OF f g])
    fix i :: nat assume "i < LENGTH(128)"
    then show "?f (2 ^ i) = ?g (2 ^ i)"
      using undo_square [of i] by (cases "i = 0") (simp_all add: cc_1_left xor_linear_0 [OF undo_linear] bit_exp_iff)
  qed
  moreover have "?f e = 0" using assms by (simp add: xor_linear_0 [OF undo_linear])
  ultimately show ?thesis by (cases "bit e 0") auto
qed

lemma gpow_order: "a \<noteq> 0 \<Longrightarrow> gpow a (2 ^ 128 - 1) = 1"
proof -
  assume a: "a \<noteq> 0"
  let ?e = "gpow a (2 ^ 128 - 1)"
  have ae: "cc_gf128Mul a ?e = a"
    using gpow_frobenius [of a] gpow.simps(2) [of a "2 ^ 128 - 1"] by simp
  have "cc_gf128Mul ?e ?e = gpow a (2 ^ 128 + (2 ^ 128 - 2))" by (simp flip: gpow_add)
  also have "\<dots> = cc_gf128Mul a (gpow a (2 ^ 128 - 2))" by (simp only: gpow_add gpow_frobenius)
  also have "\<dots> = gpow a (Suc (2 ^ 128 - 2))" by (simp only: gpow.simps)
  also have "Suc (2 ^ 128 - 2) = 2 ^ 128 - 1" by simp
  finally have "?e = 0 \<or> ?e = 1" by (rule idempotent)
  then show ?thesis using ae a by auto
qed

lemma gpow_inverse: "a \<noteq> 0 \<Longrightarrow> cc_gf128Mul a (gpow a (2 ^ 128 - 2)) = 1"
  using gpow_order [of a] gpow.simps(2) [of a "2 ^ 128 - 2"] by simp

text \<open>
  C27. \<open>Inv\<close> never throws for an element other than zero, and returns the inverse; for zero it always throws. So the ring of \<open>Galois128\<close> is a
  field: its modulus is irreducible, which the proof establishes by a certificate.
\<close>

theorem Galois128_Inv_correct:
  "if a = 0 then Galois128_Inv avx2 a = Inl (Enforce ''Mul'')
   else \<exists>r. Galois128_Inv avx2 a = Inr r \<and> Galois128_Mul avx2 a r = 1 \<and> Galois128_Mul avx2 r a = 1"
  using gpow_inverse [of a] by (auto simp: Galois128_Inv_gpow Galois128_Mul_cc Let_def cc_comm)

section \<open>The contract of the field\<close>

text \<open>What the key-value store relies on.\<close>

locale gf_ops =
  fixes mul :: "128 word \<Rightarrow> 128 word \<Rightarrow> 128 word" and inv :: "128 word \<Rightarrow> 128 word result"
  assumes mul_comm: "mul a b = mul b a"
    and mul_assoc: "mul (mul a b) c = mul a (mul b c)"
    and mul_xor: "mul a (b XOR c) = mul a b XOR mul a c"
    and mul_1: "mul a 1 = a"
    and inv_0: "inv 0 = Inl (Enforce ''Mul'')"
    and inv_mul: "a \<noteq> 0 \<Longrightarrow> \<exists>r. inv a = Inr r \<and> mul a r = 1"
begin

lemma mul_linear: "xor_linear (mul a)"
  by (rule xor_linearI) (rule mul_xor)

lemma mul_linear': "xor_linear (\<lambda>a. mul a b)"
  using mul_linear [of b] by (simp only: mul_comm [of _ b])

lemma mul_0 [simp]: "mul a 0 = 0" "mul 0 a = 0"
  using xor_linear_0 [OF mul_linear] xor_linear_0 [OF mul_linear'] by simp_all

lemma mul_1_left: "mul 1 a = a"
  by (metis mul_1 mul_comm)

lemma mul_xorl: "mul a (xorl (map f xs)) = xorl (map (\<lambda>x. mul a (f x)) xs)"
  by (rule xor_linear_xorl [OF mul_linear])

lemma inv_Inr: "inv a = Inr r \<Longrightarrow> a \<noteq> 0 \<and> mul a r = 1"
  using inv_0 inv_mul [of a] by (cases "a = 0") auto

end

interpretation gf: gf_ops "Galois128_Mul avx2" "Galois128_Inv avx2" for avx2
proof
  fix a b c :: "128 word"
  show "Galois128_Mul avx2 a b = Galois128_Mul avx2 b a" by (simp only: Galois128_Mul_cc cc_comm)
  show "Galois128_Mul avx2 (Galois128_Mul avx2 a b) c = Galois128_Mul avx2 a (Galois128_Mul avx2 b c)"
    by (simp only: Galois128_Mul_cc cc_assoc)
  show "Galois128_Mul avx2 a (b XOR c) = Galois128_Mul avx2 a b XOR Galois128_Mul avx2 a c"
    unfolding Galois128_Mul_cc by (rule xor_linear_xor [OF cc_linear_right])
  show "Galois128_Mul avx2 a 1 = a" by (simp only: Galois128_Mul_cc cc_1_right)
  show "Galois128_Inv avx2 0 = Inl (Enforce ''Mul'')" by (simp add: Galois128_Inv_gpow Let_def)
  show "\<exists>r. Galois128_Inv avx2 a = Inr r \<and> Galois128_Mul avx2 a r = 1" if "a \<noteq> 0"
    using gpow_inverse [OF that] by (simp add: Galois128_Inv_gpow Galois128_Mul_cc Let_def)
qed

end
