(* ===== verification/Paxos_Hash.thy ===== *)
theory Paxos_Hash
  imports Galois128
begin

text \<open>
  \<open>psi/algorithm/rr22/okvs/paxos_hash.cc\<close> and \<open>aes_crhash.cc\<close>: from an input to its row of the matrix of the key-value store, \<open>weight\<close> distinct sparse
  columns and a dense part, which is the hash itself. Rows are built one by one (\<open>BuildRow\<close>) or 32 at a time with vector
  instructions (\<open>BuildRow32\<close>); both give the same rows, with distinct columns in range. Column indices are \<open>nat\<close>: the
  code keeps them in an index type which \<open>Paxos::Init\<close> checks to be large enough. The block cipher of the hash is a parameter.
\<close>

section \<open>Hashing\<close>

definition AesCrHash_Hash :: "(128 word \<Rightarrow> 128 word) \<Rightarrow> 128 word \<Rightarrow> 128 word" where
  "AesCrHash_Hash encrypt x = encrypt x XOR x"

fun hash_batches :: "(128 word \<Rightarrow> 128 word) \<Rightarrow> 128 word list \<Rightarrow> 128 word list" where
  "hash_batches encrypt xs =
     (if length xs < 8 then map2 (XOR) (map encrypt xs) xs
      else map2 (XOR) (map encrypt (take 8 xs)) (take 8 xs) @ hash_batches encrypt (drop 8 xs))"

declare hash_batches.simps [simp del]

section \<open>One row\<close>

record PaxosHash =
  ph_weight :: nat
  ph_sparse_size :: "64 word"
  ph_encrypt :: "128 word \<Rightarrow> 128 word"

text \<open>\<open>libdivide\<close> refuses a zero divisor.\<close>

definition PaxosHash_init :: "(128 word \<Rightarrow> 128 word) \<Rightarrow> nat \<Rightarrow> 64 word \<Rightarrow> PaxosHash result" where
  "PaxosHash_init encrypt weight paxos_size =
     (if \<exists>i \<in> set [0..<weight]. paxos_size - of_nat i = 0 then Inl (Throw ''divider must be != 0'')
      else Inr \<lparr> ph_weight = weight, ph_sparse_size = paxos_size, ph_encrypt = encrypt \<rparr>)"

definition get64 :: "128 word \<Rightarrow> nat \<Rightarrow> 64 word" where
  "get64 hash i = ucast (drop_bit (32 * i) hash)"

definition build_row3 :: "64 word \<Rightarrow> 128 word \<Rightarrow> nat list result" where
  "build_row3 sparse_size hash =
     rbind (umod (get64 hash 0) sparse_size) (\<lambda>r0.
     rbind (umod (get64 hash 1) (sparse_size - 1)) (\<lambda>r1.
     rbind (umod (get64 hash 2) (sparse_size - 2)) (\<lambda>r2.
     let row0 = unat r0; row1 = unat r1; row2 = unat r2; n = unat sparse_size in
     rbind (enforce (row0 < n \<and> row1 < n \<and> row2 < n) ''rows'') (\<lambda>_.
     let mn = min row0 row1;
         mx = row0 + row1 - mn;
         (row1, mx) = (if mx = row1 then (row1 + 1, mx + 1) else (row1, mx));
         row2 = (if mn \<le> row2 then row2 + 1 else row2);
         row2 = (if mx \<le> row2 then row2 + 1 else row2)
     in Inr [row0, row1, row2]))))"

text \<open>Insertion into the sorted prefix: the column moves up by one for every column it passes.\<close>

fun insert_col :: "nat \<Rightarrow> nat list \<Rightarrow> nat list" where
  "insert_col col_idx [] = [col_idx]"
| "insert_col col_idx (r # rs) = (if r \<le> col_idx then r # insert_col (col_idx + 1) rs else col_idx # r # rs)"

definition row_step :: "bool \<Rightarrow> 64 word \<Rightarrow> nat \<Rightarrow> 128 word \<times> nat list \<Rightarrow> (128 word \<times> nat list) result" where
  "row_step avx2 sparse_size j = (\<lambda>(hh, rows).
     let hh = Galois128_Mul avx2 hh hh
     in rbind (umod (ucast hh) (sparse_size - of_nat j)) (\<lambda>col_idx. Inr (hh, insert_col (unat col_idx) rows)))"

definition BuildRow :: "bool \<Rightarrow> PaxosHash \<Rightarrow> 128 word \<Rightarrow> nat list result" where
  "BuildRow avx2 h hash =
     (if ph_weight h = 3 then build_row3 (ph_sparse_size h) hash
      else rbind (rfold (row_step avx2 (ph_sparse_size h)) [0..<ph_weight h] (hash, [])) (\<lambda>(_, rows). Inr rows))"

definition HashBuildRow1 :: "bool \<Rightarrow> PaxosHash \<Rightarrow> 128 word \<Rightarrow> (nat list \<times> 128 word) result" where
  "HashBuildRow1 avx2 h input =
     (let hash = AesCrHash_Hash (ph_encrypt h) input in rbind (BuildRow avx2 h hash) (\<lambda>row. Inr (row, hash)))"

section \<open>32 rows\<close>

text \<open>Comparison of signed 64-bit lanes, as the vector instructions do it; a mask is all ones or zero.\<close>

definition cmpgt64 :: "64 word \<Rightarrow> 64 word \<Rightarrow> 64 word" where
  "cmpgt64 a b = (if b <s a then - 1 else 0)"

definition cmpeq64 :: "64 word \<Rightarrow> 64 word \<Rightarrow> 64 word" where
  "cmpeq64 a b = (if a = b then - 1 else 0)"

definition mod32 :: "64 word \<Rightarrow> 64 word \<Rightarrow> 64 word" where
  "mod32 mod_val v = v - (v div mod_val) * mod_val"

definition row_lane :: "64 word \<Rightarrow> 64 word \<Rightarrow> 64 word \<Rightarrow> 64 word list" where
  "row_lane a b c =
     (let mask = cmpgt64 a b;
          mn = a XOR b;
          mx = mn AND mask;
          mx = mx XOR b;
          mn = mn XOR mx;
          mask = cmpeq64 mx b;
          b = b - mask;
          mx = mx - mask;
          mask = NOT (cmpgt64 mn c);
          c = c - mask;
          mask = NOT (cmpgt64 mx c);
          c = c - mask
      in [a, b, c])"

definition BuildRow32 :: "bool \<Rightarrow> PaxosHash \<Rightarrow> 128 word list \<Rightarrow> nat list list result" where
  "BuildRow32 avx2 h hashes =
     (if ph_weight h = 3 \<and> avx2
      then Inr (map (\<lambda>hash. map unat (row_lane (mod32 (ph_sparse_size h) (get64 hash 0))
             (mod32 (ph_sparse_size h - 1) (get64 hash 1)) (mod32 (ph_sparse_size h - 2) (get64 hash 2)))) hashes)
      else rmap (BuildRow avx2 h) hashes)"

definition HashBuildRow32 :: "bool \<Rightarrow> PaxosHash \<Rightarrow> 128 word list \<Rightarrow> (nat list list \<times> 128 word list) result" where
  "HashBuildRow32 avx2 h inputs =
     rbind (enforce (length inputs = 32) ''in_iter.size() == 32'') (\<lambda>_.
     let hash = hash_batches (ph_encrypt h) inputs in rbind (BuildRow32 avx2 h hash) (\<lambda>rows. Inr (rows, hash)))"

section \<open>Rows have distinct columns\<close>

definition row_ok :: "nat \<Rightarrow> nat \<Rightarrow> nat list \<Rightarrow> bool" where
  "row_ok weight n row \<longleftrightarrow> length row = weight \<and> distinct row \<and> (\<forall>c \<in> set row. c < n)"

lemma hash_batches_map: "hash_batches encrypt xs = map (AesCrHash_Hash encrypt) xs"
proof (induction encrypt xs rule: hash_batches.induct)
  case (1 encrypt xs)
  have "map2 (XOR) (map encrypt ys) ys = map (AesCrHash_Hash encrypt) ys" for ys
    by (induction ys) (simp_all add: AesCrHash_Hash_def)
  then show ?case using 1 by (simp add: hash_batches.simps [of encrypt xs] flip: map_append)
qed

definition row3 :: "nat \<Rightarrow> nat \<Rightarrow> nat \<Rightarrow> nat list" where
  "row3 r0 r1 r2 =
     (let b = (if r0 \<le> r1 then r1 + 1 else r1); mn = min r0 b; mx = max r0 b;
          c = (if mn \<le> r2 then r2 + 1 else r2)
      in [r0, b, if mx \<le> c then c + 1 else c])"

lemma sub_small: "k \<le> unat n \<Longrightarrow> unat (n - of_nat k :: 64 word) = unat n - k"
proof -
  assume k: "k \<le> unat n"
  then have "k < 2 ^ 64" using unsigned_less [of n, where 'a = nat] by simp
  then have "unat (of_nat k :: 64 word) = k" by simp
  then show ?thesis using k by (simp add: unat_sub word_le_nat_alt)
qed

lemma unat_mod_less64: "0 < unat n \<Longrightarrow> unat (x mod n :: 64 word) < unat n"
  by (simp add: unat_mod)

lemma unat_pos_neq_0: "0 < unat (n :: 64 word) \<Longrightarrow> n \<noteq> 0"
  by auto

lemma build_row3_row3:
  assumes "3 \<le> unat sparse_size"
  shows "build_row3 sparse_size hash =
     Inr (row3 (unat (get64 hash 0 mod sparse_size)) (unat (get64 hash 1 mod (sparse_size - 1))) (unat (get64 hash 2 mod (sparse_size - 2))))"
proof -
  let ?n = "unat sparse_size"
  have s: "unat (sparse_size - 1) = ?n - 1" "unat (sparse_size - 2) = ?n - 2"
    using sub_small [of 1 sparse_size] sub_small [of 2 sparse_size] assms by simp_all
  have nz: "sparse_size \<noteq> 0" "sparse_size - 1 \<noteq> 0" "sparse_size - 2 \<noteq> 0"
    using s assms by (auto intro!: unat_pos_neq_0 simp del: right_minus_eq)
  let ?a = "unat (get64 hash 0 mod sparse_size)" and ?b = "unat (get64 hash 1 mod (sparse_size - 1))" and ?c = "unat (get64 hash 2 mod (sparse_size - 2))"
  have lt: "?a < ?n" "?b < ?n - 1" "?c < ?n - 2"
    using unat_mod_less64 [of sparse_size "get64 hash 0"] unat_mod_less64 [of "sparse_size - 1" "get64 hash 1"] unat_mod_less64 [of "sparse_size - 2" "get64 hash 2"] s assms by simp_all
  then have "?a < ?n \<and> ?b < ?n \<and> ?c < ?n" by linarith
  then show ?thesis
    using nz by (auto simp: build_row3_def row3_def Let_def min_def max_def)
qed

lemma row3_ok: "3 \<le> n \<Longrightarrow> r0 < n \<Longrightarrow> r1 < n - 1 \<Longrightarrow> r2 < n - 2 \<Longrightarrow> row_ok 3 n (row3 r0 r1 r2)"
  by (auto simp: row_ok_def row3_def Let_def min_def max_def)

lemma insert_col_sorted:
  "sorted_wrt (<) rs \<Longrightarrow> sorted_wrt (<) (insert_col c rs) \<and> set (insert_col c rs) \<subseteq> set rs \<union> {c..c + length rs} \<and> length (insert_col c rs) = Suc (length rs)"
proof (induction rs arbitrary: c)
  case (Cons r rs)
  show ?case
  proof (cases "r \<le> c")
    case True
    then show ?thesis using Cons.IH [of "c + 1"] Cons.prems by (auto simp: subset_iff less_Suc_eq_le)
  next
    case False
    then show ?thesis using Cons.prems by auto
  qed
qed simp

lemma row_steps:
  assumes "j \<le> unat n"
  shows "\<exists>hh rows. rfold (row_step avx2 n) [0..<j] (hash, []) = Inr (hh, rows) \<and> sorted_wrt (<) rows \<and> (\<forall>c \<in> set rows. c < unat n) \<and> length rows = j"
  using assms
proof (induction j)
  case (Suc j)
  then obtain hh rows where st: "rfold (row_step avx2 n) [0..<j] (hash, []) = Inr (hh, rows)"
    "sorted_wrt (<) rows" "\<forall>c \<in> set rows. c < unat n" "length rows = j" by auto
  have m: "unat (n - of_nat j) = unat n - j" using sub_small [of j n] Suc.prems by simp
  then have nz: "n - of_nat j \<noteq> 0" using Suc.prems by (intro unat_pos_neq_0) simp
  let ?c = "unat (ucast (Galois128_Mul avx2 hh hh) mod (n - of_nat j) :: 64 word)"
  have "?c < unat n - j" using unat_mod_less64 [of "n - of_nat j"] m Suc.prems by simp
  moreover have "row_step avx2 n j (hh, rows) = Inr (Galois128_Mul avx2 hh hh, insert_col ?c rows)"
    using nz by (simp add: row_step_def Let_def del: right_minus_eq)
  ultimately show ?case
    using st insert_col_sorted [OF st(2), of ?c] by (auto simp: subset_iff)
qed simp

lemma BuildRow_ok:
  assumes "ph_weight h \<le> unat (ph_sparse_size h)"
  shows "\<exists>row. BuildRow avx2 h hash = Inr row \<and> row_ok (ph_weight h) (unat (ph_sparse_size h)) row"
proof (cases "ph_weight h = 3")
  case True
  let ?n = "ph_sparse_size h"
  have s: "unat (?n - 1) = unat ?n - 1" "unat (?n - 2) = unat ?n - 2"
    using sub_small [of 1 ?n] sub_small [of 2 ?n] assms True by simp_all
  show ?thesis
    using True assms s build_row3_row3 [of ?n hash] unat_mod_less64 [of ?n] unat_mod_less64 [of "?n - 1"] unat_mod_less64 [of "?n - 2"]
    by (auto simp: BuildRow_def intro!: row3_ok)
next
  case False
  obtain hh rows where "rfold (row_step avx2 (ph_sparse_size h)) [0..<ph_weight h] (hash, []) = Inr (hh, rows)"
    "sorted_wrt (<) rows" "\<forall>c \<in> set rows. c < unat (ph_sparse_size h)" "length rows = ph_weight h"
    using row_steps [OF assms, of avx2 hash] by blast
  then show ?thesis using False by (auto simp: BuildRow_def row_ok_def strict_sorted_iff)
qed

section \<open>The vector instructions compute the same rows\<close>

lemma sless_small: "unat a < 2 ^ 63 \<Longrightarrow> unat b < 2 ^ 63 \<Longrightarrow> (a :: 64 word) <s b \<longleftrightarrow> unat a < unat b"
proof -
  have "sint w = int (unat w)" if "unat w < 2 ^ 63" for w :: "64 word"
  proof -
    have "int (unat w) < 2 ^ 63" using that by (metis of_nat_less_iff of_nat_numeral of_nat_power)
    then have "uint w < 2 ^ 63" by (simp only: uint_nat)
    moreover have "- (2 ^ 63) \<le> uint w" by (rule order_trans [OF _ uint_ge_0]) simp
    ultimately have "sint w = uint w" unfolding sint_uint by (subst signed_take_bit_int_eq_self_iff) simp
    then show ?thesis by (simp only: uint_nat)
  qed
  then show "unat a < 2 ^ 63 \<Longrightarrow> unat b < 2 ^ 63 \<Longrightarrow> a <s b \<longleftrightarrow> unat a < unat b"
    unfolding word_sless_alt by (simp only: of_nat_less_iff)
qed

lemma unat_inc: "unat x < 2 ^ 63 \<Longrightarrow> unat (x + 1 :: 64 word) = unat x + 1"
  using unat_word_ariths(1) [of x 1] by simp

lemma lane_step:
  assumes "unat m < 2 ^ 63" "unat c < 2 ^ 63"
  shows "c - NOT (cmpgt64 m c) = (if unat m \<le> unat c then c + 1 else c)"
  using sless_small [OF assms(2,1)] by (simp add: cmpgt64_def)

lemma row_lane_row3:
  assumes "unat a < 2 ^ 63 - 2" "unat b < 2 ^ 63 - 2" "unat c < 2 ^ 63 - 2"
  shows "map unat (row_lane a b c) = row3 (unat a) (unat b) (unat c)"
proof -
  have lt: "unat a < 2 ^ 63" "unat b < 2 ^ 63" "unat c < 2 ^ 63" "unat (b + 1) < 2 ^ 63"
    using assms unat_inc [of b] by simp_all
  let ?c = "\<lambda>m c. if unat m \<le> unat c then c + 1 else c :: 64 word"
  have c1: "unat (?c m c) < 2 ^ 63" for m using assms(3) unat_inc [of c] by simp
  have "row_lane a b c = (if unat a \<le> unat b then [a, b + 1, ?c (b + 1) (?c a c)] else [a, b, ?c a (?c b c)])"
    unfolding lane_step [OF lt(4) c1, symmetric] lane_step [OF lt(1) c1, symmetric] unfolding lane_step [OF lt(1,3), symmetric] lane_step [OF lt(2,3), symmetric]
    using sless_small [OF lt(2,1)] by (cases "unat a \<le> unat b") (auto simp: row_lane_def cmpgt64_def [of a b] cmpeq64_def xor_ac Let_def)
  moreover have "unat (c + 1) = Suc (unat c)" "unat (2 + c) = Suc (Suc (unat c))"
    using unat_inc [OF lt(3)] unat_inc [of "c + 1"] assms(3) by (simp_all add: ac_simps)
  ultimately show ?thesis using unat_inc [OF lt(2)] by (simp add: row3_def Let_def min_def max_def ac_simps)
qed

lemma mod32_mod: "mod32 m v = v mod m"
  by (simp add: mod32_def minus_div_mult_eq_mod)

definition hash_ok :: "PaxosHash \<Rightarrow> bool" where
  "hash_ok h \<longleftrightarrow> ph_weight h \<le> unat (ph_sparse_size h) \<and> unat (ph_sparse_size h) < 2 ^ 63 - 2"

definition row_of :: "PaxosHash \<Rightarrow> 128 word \<Rightarrow> nat list" where
  "row_of h hash = (case BuildRow False h hash of Inl _ \<Rightarrow> [] | Inr row \<Rightarrow> row)"

lemma BuildRow_row_of:
  assumes "hash_ok h"
  shows "BuildRow avx2 h hash = Inr (row_of h hash)" "row_ok (ph_weight h) (unat (ph_sparse_size h)) (row_of h hash)"
proof -
  have "row_step avx2 n j = row_step False n j" for n j by (simp add: row_step_def Galois128_Mul_cc)
  then have "BuildRow avx2 h hash = BuildRow False h hash" by (simp add: BuildRow_def cong: rfold_cong)
  then show "BuildRow avx2 h hash = Inr (row_of h hash)" "row_ok (ph_weight h) (unat (ph_sparse_size h)) (row_of h hash)"
    using BuildRow_ok [of h False hash] assms by (auto simp: row_of_def hash_ok_def)
qed

lemma row_of_row3:
  assumes "hash_ok h" "ph_weight h = 3"
  shows "row_of h hash = map unat (row_lane (mod32 (ph_sparse_size h) (get64 hash 0))
     (mod32 (ph_sparse_size h - 1) (get64 hash 1)) (mod32 (ph_sparse_size h - 2) (get64 hash 2)))"
proof -
  let ?n = "ph_sparse_size h"
  have n: "3 \<le> unat ?n" "unat ?n < 2 ^ 63 - 2" using assms by (simp_all add: hash_ok_def)
  have s: "unat (?n - 1) = unat ?n - 1" "unat (?n - 2) = unat ?n - 2" using sub_small [of 1 ?n] sub_small [of 2 ?n] n by simp_all
  have "unat (get64 hash 0 mod ?n) < unat ?n" "unat (get64 hash 1 mod (?n - 1)) < unat ?n - 1" "unat (get64 hash 2 mod (?n - 2)) < unat ?n - 2"
    using unat_mod_less64 [of ?n] unat_mod_less64 [of "?n - 1"] unat_mod_less64 [of "?n - 2"] s n by simp_all
  then have "unat (get64 hash 0 mod ?n) < 2 ^ 63 - 2" "unat (get64 hash 1 mod (?n - 1)) < 2 ^ 63 - 2" "unat (get64 hash 2 mod (?n - 2)) < 2 ^ 63 - 2"
    using n(2) by linarith+
  then show ?thesis
    using build_row3_row3 [OF n(1), of hash] assms(2) by (simp add: mod32_mod row_lane_row3 row_of_def BuildRow_def)
qed

lemma BuildRow32_rows: "hash_ok h \<Longrightarrow> BuildRow32 avx2 h hashes = Inr (map (row_of h) hashes)"
  using rmap_total [of hashes "BuildRow avx2 h" "row_of h"] row_of_row3 [of h] BuildRow_row_of [of h]
  by (auto simp: BuildRow32_def)

text \<open>
  C28. The vector instructions that build 32 rows of the matrix at once, with signed comparisons and masks in place of
  branches, give for every hash the row that the scalar code gives, and neither fails, for every table of fewer than
  \<open>2 ^ 63 - 2\<close> sparse columns; a row consists of \<open>weight\<close> distinct columns of the table. So encoder and decoder agree on the rows
  whatever instructions their processors have.
\<close>

theorem BuildRow32_equiv:
  assumes "ph_weight h \<le> unat (ph_sparse_size h)" "unat (ph_sparse_size h) < 2 ^ 63 - 2"
  shows "\<exists>rows. BuildRow32 True h hashes = Inr rows \<and> rmap (BuildRow False h) hashes = Inr rows \<and>
     (\<forall>row \<in> set rows. length row = ph_weight h \<and> distinct row \<and> (\<forall>c \<in> set row. c < unat (ph_sparse_size h)))"
proof -
  have h: "hash_ok h" using assms by (simp add: hash_ok_def)
  then show ?thesis
    using BuildRow32_rows [OF h, of True hashes] rmap_total [of hashes "BuildRow False h" "row_of h"] BuildRow_row_of [OF h]
    by (auto simp: row_ok_def)
qed

theorem BuildRow32_equiv_witness:
  "\<exists>rows. BuildRow32 True \<lparr> ph_weight = 3, ph_sparse_size = 7, ph_encrypt = id \<rparr> [0, 0x00000001000000020000000300000004] = Inr rows \<and>
     rmap (BuildRow False \<lparr> ph_weight = 3, ph_sparse_size = 7, ph_encrypt = id \<rparr>) [0, 0x00000001000000020000000300000004] = Inr rows"
  using BuildRow32_equiv [of "\<lparr> ph_weight = 3, ph_sparse_size = 7, ph_encrypt = id \<rparr>" "[0, 0x00000001000000020000000300000004]"]
  by auto

lemma HashBuildRow_rows:
  assumes "hash_ok h"
  shows "HashBuildRow1 avx2 h input = Inr (row_of h (AesCrHash_Hash (ph_encrypt h) input), AesCrHash_Hash (ph_encrypt h) input)"
    and "length inputs = 32 \<Longrightarrow> HashBuildRow32 avx2 h inputs =
      Inr (map (\<lambda>x. row_of h (AesCrHash_Hash (ph_encrypt h) x)) inputs, map (AesCrHash_Hash (ph_encrypt h)) inputs)"
  using BuildRow_row_of [OF assms] BuildRow32_rows [OF assms]
  by (simp_all add: HashBuildRow1_def HashBuildRow32_def hash_batches_map Let_def comp_def)

end
