(* ===== verification/Weight_Data.thy ===== *)
theory Weight_Data
  imports Prelude
begin

text \<open>
  \<open>WeightData\<close> of \<open>psi/algorithm/rr22/okvs/paxos_utils.h\<close>: the columns of the matrix, ordered by the number of rows that still use
  them. Columns of the same weight are in a doubly linked list, whose links are indices of nodes, and \<open>weight_sets\<close> holds
  the head of the list of every weight. \<open>NullNode\<close> and the null pointer are \<open>None\<close>. The operations refine those of a set of columns with
  weights.
\<close>

section \<open>Operations\<close>

record WeightNode =
  wn_weight :: nat
  prev_weight_node :: "nat option"
  next_weight_node :: "nat option"

record WeightData =
  weight_sets :: "nat option list"
  nodes :: "WeightNode list"

definition set_prev :: "nat \<Rightarrow> nat option \<Rightarrow> WeightNode list \<Rightarrow> WeightNode list" where
  "set_prev i p ns = ns[i := (ns ! i) \<lparr> prev_weight_node := p \<rparr>]"

definition set_next :: "nat \<Rightarrow> nat option \<Rightarrow> WeightNode list \<Rightarrow> WeightNode list" where
  "set_next i n ns = ns[i := (ns ! i) \<lparr> next_weight_node := n \<rparr>]"

definition set_weight :: "nat \<Rightarrow> nat \<Rightarrow> WeightNode list \<Rightarrow> WeightNode list" where
  "set_weight i w ns = ns[i := (ns ! i) \<lparr> wn_weight := w \<rparr>]"

definition PushNode :: "nat \<Rightarrow> WeightData \<Rightarrow> WeightData result" where
  "PushNode i wd =
     rbind (at (nodes wd) i) (\<lambda>node.
     rbind (enforce (next_weight_node node = None) ''next'') (\<lambda>_.
     rbind (enforce (prev_weight_node node = None) ''prev'') (\<lambda>_.
     let w = wn_weight node;
         sets = (if length (weight_sets wd) \<le> w
                 then weight_sets wd @ replicate (w + 1 - length (weight_sets wd)) None else weight_sets wd)
     in case sets ! w of
          None \<Rightarrow> Inr (wd \<lparr> weight_sets := sets[w := Some i] \<rparr>)
        | Some j \<Rightarrow>
            rbind (at (nodes wd) j) (\<lambda>head.
            rbind (enforce (prev_weight_node head = None) ''prev'') (\<lambda>_.
            Inr (wd \<lparr> weight_sets := sets[w := Some i], nodes := set_next i (Some j) (set_prev j (Some i) (nodes wd)) \<rparr>))))))"

function strip_back :: "nat option list \<Rightarrow> nat option list result" where
  "strip_back sets =
     (if sets = [] then Inl (Undefined ''back of an empty vector'')
      else if last sets = None then strip_back (butlast sets) else Inr sets)"
  by auto
termination by (relation "measure length") auto

declare strip_back.simps [simp del]

definition PopNode :: "nat \<Rightarrow> WeightData \<Rightarrow> WeightData result" where
  "PopNode i wd =
     rbind (at (nodes wd) i) (\<lambda>node.
     let w = wn_weight node in
     rbind (case prev_weight_node node of
              None \<Rightarrow>
                rbind (at (weight_sets wd) w) (\<lambda>head.
                rbind (enforce (head = Some i) ''head'') (\<lambda>_.
                case next_weight_node node of
                  None \<Rightarrow> rbind (strip_back ((weight_sets wd)[w := None])) (\<lambda>sets. Inr (wd \<lparr> weight_sets := sets \<rparr>))
                | Some n \<Rightarrow> rbind (at (nodes wd) n) (\<lambda>_.
                    Inr (wd \<lparr> weight_sets := (weight_sets wd)[w := Some n], nodes := set_prev n None (nodes wd) \<rparr>))))
            | Some p \<Rightarrow>
                rbind (at (nodes wd) p) (\<lambda>_.
                case next_weight_node node of
                  None \<Rightarrow> Inr (wd \<lparr> nodes := set_next p None (nodes wd) \<rparr>)
                | Some n \<Rightarrow> rbind (at (nodes wd) n) (\<lambda>_.
                    Inr (wd \<lparr> nodes := set_prev n (Some p) (set_next p (Some n) (nodes wd)) \<rparr>))))
       (\<lambda>wd'. Inr (wd' \<lparr> nodes := set_next i None (set_prev i None (nodes wd')) \<rparr>)))"

definition DecementWeight :: "nat \<Rightarrow> WeightData \<Rightarrow> WeightData result" where
  "DecementWeight i wd =
     rbind (at (nodes wd) i) (\<lambda>node.
     rbind (enforce (wn_weight node \<noteq> 0) ''node.weight'') (\<lambda>_.
     rbind (PopNode i wd) (\<lambda>wd'.
     PushNode i (wd' \<lparr> nodes := set_weight i (wn_weight (nodes wd' ! i) - 1) (nodes wd') \<rparr>))))"

definition GetMinWeightNode :: "WeightData \<Rightarrow> nat result" where
  "GetMinWeightNode wd =
     (case find (\<lambda>s. s \<noteq> None) (drop 1 (weight_sets wd)) of
        Some (Some i) \<Rightarrow> Inr i
      | _ \<Rightarrow> Inl (Throw ''GetMinWeightNode''))"

definition init_node :: "nat list \<Rightarrow> nat \<Rightarrow> WeightData \<Rightarrow> WeightData result" where
  "init_node weights i wd =
     (let w = weights ! i;
          ns = (nodes wd)[i := \<lparr> wn_weight = w, prev_weight_node = None, next_weight_node = None \<rparr>]
      in rbind (enforce (w < length (weight_sets wd)) ''something went wrong, maybe duplicate inputs.'') (\<lambda>_.
         case weight_sets wd ! w of
           None \<Rightarrow> Inr (wd \<lparr> weight_sets := (weight_sets wd)[w := Some i], nodes := ns \<rparr>)
         | Some j \<Rightarrow>
             rbind (at ns j) (\<lambda>ws.
             rbind (enforce (prev_weight_node ws = None) ''prev'') (\<lambda>_.
             Inr (wd \<lparr> weight_sets := (weight_sets wd)[w := Some i], nodes := set_next i (Some j) (set_prev j (Some i) ns) \<rparr>)))))"

text \<open>The search for the last list that is not empty; without one the vector keeps its size.\<close>

fun trim_sets :: "nat option list \<Rightarrow> nat \<Rightarrow> nat option list" where
  "trim_sets sets 0 = sets"
| "trim_sets sets (Suc i) = (if sets ! i \<noteq> None then take (i + 1) sets else trim_sets sets i)"

definition WeightData_init :: "nat list \<Rightarrow> WeightData \<Rightarrow> WeightData result" where
  "WeightData_init weights wd =
     (let blank = \<lparr> wn_weight = 0, prev_weight_node = None, next_weight_node = None \<rparr>;
          ns = (if length (nodes wd) < length weights then nodes wd @ replicate (length weights - length (nodes wd)) blank else nodes wd)
      in rbind (rfold (init_node weights) [0..<length weights] (wd \<lparr> weight_sets := replicate 200 None, nodes := ns \<rparr>)) (\<lambda>wd'.
         Inr (wd' \<lparr> weight_sets := trim_sets (weight_sets wd') (length (weight_sets wd')) \<rparr>)))"

section \<open>Linked lists\<close>

fun links :: "WeightNode list \<Rightarrow> nat option \<Rightarrow> nat list \<Rightarrow> nat option \<Rightarrow> bool" where
  "links ns p [] n \<longleftrightarrow> True"
| "links ns p (x # xs) n \<longleftrightarrow> x < length ns \<and> prev_weight_node (ns ! x) = p \<and>
     next_weight_node (ns ! x) = (if xs = [] then n else Some (hd xs)) \<and> links ns (Some x) xs n"

definition dll :: "WeightNode list \<Rightarrow> nat option \<Rightarrow> nat list \<Rightarrow> bool" where
  "dll ns h xs \<longleftrightarrow> h = (if xs = [] then None else Some (hd xs)) \<and> distinct xs \<and> links ns None xs None"

definition head :: "nat option list \<Rightarrow> nat \<Rightarrow> nat option" where
  "head sets w = (if w < length sets then sets ! w else None)"

definition wd_lists :: "WeightData \<Rightarrow> (nat \<Rightarrow> nat list) \<Rightarrow> bool" where
  "wd_lists wd L \<longleftrightarrow> (\<forall>w. dll (nodes wd) (head (weight_sets wd) w) (L w)) \<and> (\<forall>w. \<forall>i \<in> set (L w). wn_weight (nodes wd ! i) = w)"

text \<open>The columns in the structure; the last list is never empty.\<close>

definition wd_ok :: "WeightData \<Rightarrow> nat set \<Rightarrow> bool" where
  "wd_ok wd M \<longleftrightarrow> (\<exists>L. wd_lists wd L \<and> M = (\<Union>w. set (L w))) \<and> weight_sets wd \<noteq> [] \<and> last (weight_sets wd) \<noteq> None"

abbreviation weight_of :: "WeightData \<Rightarrow> nat \<Rightarrow> nat" where
  "weight_of wd i \<equiv> wn_weight (nodes wd ! i)"

definition detached :: "WeightData \<Rightarrow> nat \<Rightarrow> bool" where
  "detached wd i \<longleftrightarrow> prev_weight_node (nodes wd ! i) = None \<and> next_weight_node (nodes wd ! i) = None"

lemma nth_update: "xs[i := x] ! j = (if i = j \<and> i < length xs then x else xs ! j)"
  by (metis list_update_beyond not_le_imp_less nth_list_update_eq nth_list_update_neq)

lemma node_update_simps [simp]:
  "length (set_prev i p ns) = length ns" "length (set_next i n ns) = length ns" "length (set_weight i w ns) = length ns"
  "wn_weight (set_prev i p ns ! j) = wn_weight (ns ! j)" "wn_weight (set_next i n ns ! j) = wn_weight (ns ! j)"
  "next_weight_node (set_prev i p ns ! j) = next_weight_node (ns ! j)" "prev_weight_node (set_next i n ns ! j) = prev_weight_node (ns ! j)"
  "prev_weight_node (set_weight i w ns ! j) = prev_weight_node (ns ! j)" "next_weight_node (set_weight i w ns ! j) = next_weight_node (ns ! j)"
  "i < length ns \<Longrightarrow> prev_weight_node (set_prev i p ns ! j) = (if j = i then p else prev_weight_node (ns ! j))"
  "i < length ns \<Longrightarrow> next_weight_node (set_next i n ns ! j) = (if j = i then n else next_weight_node (ns ! j))"
  "i < length ns \<Longrightarrow> wn_weight (set_weight i w ns ! j) = (if j = i then w else wn_weight (ns ! j))"
  "j \<noteq> i \<Longrightarrow> set_prev i p ns ! j = ns ! j" "j \<noteq> i \<Longrightarrow> set_next i n ns ! j = ns ! j" "j \<noteq> i \<Longrightarrow> set_weight i w ns ! j = ns ! j"
  by (simp_all add: set_prev_def set_next_def set_weight_def nth_update)

lemma links_cong:
  assumes "links ns p xs n" "length ns' = length ns"
    "\<And>i. i \<in> set xs \<Longrightarrow> prev_weight_node (ns' ! i) = prev_weight_node (ns ! i) \<and> next_weight_node (ns' ! i) = next_weight_node (ns ! i)"
  shows "links ns' p xs n"
  using assms by (induction ns p xs n rule: links.induct) auto

lemma links_append:
  "links ns p (as @ bs) n \<longleftrightarrow> links ns p as (if bs = [] then n else Some (hd bs)) \<and> links ns (if as = [] then p else Some (last as)) bs n"
  by (induction as arbitrary: p) auto

lemma links_less: "links ns p xs n \<Longrightarrow> x \<in> set xs \<Longrightarrow> x < length ns"
  by (induction ns p xs n rule: links.induct) auto

lemma links_set_prev: "links ns p (b # bs) n \<Longrightarrow> b \<notin> set bs \<Longrightarrow> links (set_prev b p' ns) p' (b # bs) n"
  by (auto intro: links_cong)

lemma links_set_next:
  assumes "links ns p (as @ [a]) n" "a \<notin> set as"
  shows "links (set_next a n' ns) p (as @ [a]) n'"
  using assms by (auto simp: links_append intro: links_cong)

lemma dll_cong:
  assumes "dll ns h xs" "length ns' = length ns"
    "\<And>i. i \<in> set xs \<Longrightarrow> prev_weight_node (ns' ! i) = prev_weight_node (ns ! i) \<and> next_weight_node (ns' ! i) = next_weight_node (ns ! i)"
  shows "dll ns' h xs"
  using assms links_cong by (auto simp: dll_def)

lemma dll_push:
  assumes "dll ns h xs" "i < length ns" "i \<notin> set xs" "prev_weight_node (ns ! i) = None"
  shows "dll (set_next i h (case h of None \<Rightarrow> ns | Some j \<Rightarrow> set_prev j (Some i) ns)) (Some i) (i # xs)"
proof (cases xs)
  case (Cons x ys)
  then have l: "links (set_prev x (Some i) ns) (Some i) xs None" and h: "h = Some x" "distinct xs" "i \<noteq> x"
    using assms(1,3) links_set_prev [of ns None x ys None "Some i"] by (auto simp: dll_def)
  have "links (set_next i h (set_prev x (Some i) ns)) (Some i) xs None"
  proof (rule links_cong [OF l])
    fix j assume "j \<in> set xs"
    then have "j \<noteq> i" using assms(3) by blast
    then show "prev_weight_node (set_next i h (set_prev x (Some i) ns) ! j) = prev_weight_node (set_prev x (Some i) ns ! j) \<and>
        next_weight_node (set_next i h (set_prev x (Some i) ns) ! j) = next_weight_node (set_prev x (Some i) ns ! j)" by simp
  qed simp
  then show ?thesis using assms h Cons by (simp add: dll_def)
qed (use assms in \<open>auto simp: dll_def\<close>)

lemma dll_pop:
  assumes "dll ns h (as @ i # bs)"
  defines "p \<equiv> (if as = [] then None else Some (last as))" and "n \<equiv> (if bs = [] then None else Some (hd bs))"
  defines "ns1 \<equiv> (case p of None \<Rightarrow> ns | Some j \<Rightarrow> set_next j n ns)"
  defines "ns2 \<equiv> (case n of None \<Rightarrow> ns1 | Some j \<Rightarrow> set_prev j p ns1)"
  shows "prev_weight_node (ns ! i) = p" "next_weight_node (ns ! i) = n" "dll ns2 (if as = [] then n else h) (as @ bs)"
proof -
  have d: "distinct (as @ i # bs)" and l: "links ns None as (Some i)" "prev_weight_node (ns ! i) = p" "next_weight_node (ns ! i) = n" "links ns (Some i) bs None"
    using assms(1) by (auto simp: dll_def links_append p_def n_def)
  show "prev_weight_node (ns ! i) = p" "next_weight_node (ns ! i) = n" using l by simp_all
  have as1: "links ns1 None as n"
  proof (cases as rule: rev_cases)
    case (snoc cs a)
    then show ?thesis using l(1) d links_set_next [of ns None cs a "Some i" n] by (simp add: ns1_def p_def)
  qed simp
  have bs1: "links ns1 (Some i) bs None"
  proof (rule links_cong [OF l(4)])
    fix j assume "j \<in> set bs"
    then have "as \<noteq> [] \<Longrightarrow> j \<noteq> last as" using d by (auto dest!: last_in_set)
    then show "prev_weight_node (ns1 ! j) = prev_weight_node (ns ! j) \<and> next_weight_node (ns1 ! j) = next_weight_node (ns ! j)"
      by (simp add: ns1_def p_def)
  qed (simp add: ns1_def split: option.split)
  have as2: "links ns2 None as n"
  proof (rule links_cong [OF as1])
    fix j assume "j \<in> set as"
    then have "bs \<noteq> [] \<Longrightarrow> j \<noteq> hd bs" using d by (auto dest!: hd_in_set)
    then show "prev_weight_node (ns2 ! j) = prev_weight_node (ns1 ! j) \<and> next_weight_node (ns2 ! j) = next_weight_node (ns1 ! j)"
      by (simp add: ns2_def n_def)
  qed (simp add: ns2_def split: option.split)
  have bs2: "links ns2 p bs None"
    using bs1 d links_set_prev [of ns1 "Some i" _ _ None p] by (cases bs) (auto simp: ns2_def n_def)
  show "dll ns2 (if as = [] then n else h) (as @ bs)"
    using as2 bs2 d assms(1) by (auto simp: dll_def links_append p_def n_def)
qed

section \<open>The operations on sets of columns\<close>

lemma wd_listsD:
  assumes "wd_lists wd L" "i \<in> set (L w)"
  shows "w < length (weight_sets wd)" "dll (nodes wd) (weight_sets wd ! w) (L w)" "weight_of wd i = w" "i < length (nodes wd)"
proof -
  have d: "dll (nodes wd) (head (weight_sets wd) w) (L w)" using assms(1) by (simp add: wd_lists_def)
  then show w: "w < length (weight_sets wd)" using assms(2) by (cases "L w") (auto simp: dll_def head_def split: if_splits)
  show "dll (nodes wd) (weight_sets wd ! w) (L w)" "weight_of wd i = w" using d w assms by (auto simp: wd_lists_def head_def)
  then show "i < length (nodes wd)" using assms(2) links_less by (auto simp: dll_def)
qed

lemma wd_lists_upd:
  assumes "wd_lists wd L" "length ns' = length (nodes wd)"
    and "dll ns' (head sets' w) xs" "\<And>v. v \<noteq> w \<Longrightarrow> head sets' v = head (weight_sets wd) v"
    and "\<And>i. i \<notin> set xs \<union> set (L w) \<Longrightarrow> ns' ! i = nodes wd ! i" "\<And>i. i \<in> set xs \<Longrightarrow> wn_weight (ns' ! i) = w"
    and "\<And>i v. i \<in> set xs \<Longrightarrow> v \<noteq> w \<Longrightarrow> i \<notin> set (L v)"
  shows "wd_lists (wd \<lparr> weight_sets := sets', nodes := ns' \<rparr>) (L(w := xs))"
proof -
  have same: "ns' ! i = nodes wd ! i" if "i \<in> set (L v)" "v \<noteq> w" for i v
    using assms(5,7) that wd_listsD(3) [OF assms(1)] by (metis Un_iff)
  have "dll ns' (head sets' v) (L v)" if "v \<noteq> w" for v
    unfolding assms(4) [OF that]
  proof (rule dll_cong)
    show "dll (nodes wd) (head (weight_sets wd) v) (L v)" using assms(1) by (simp add: wd_lists_def)
  qed (simp_all add: assms(2) same [OF _ that])
  then show ?thesis using assms(1,3,6) same by (auto simp: wd_lists_def)
qed

lemma head_update: "v \<noteq> w \<Longrightarrow> head (sets[w := x]) v = head sets v"
  by (simp add: head_def)

lemma wd_okI: "wd_lists wd L \<Longrightarrow> (\<Union>w. set (L w)) = M \<Longrightarrow> weight_sets wd \<noteq> [] \<Longrightarrow> last (weight_sets wd) \<noteq> None \<Longrightarrow> wd_ok wd M"
  by (auto simp: wd_ok_def)

lemma wd_ok_weights:
  assumes "wd_ok wd M"
  shows "finite M" "\<And>i. i \<in> M \<Longrightarrow> i < length (nodes wd)"
proof -
  obtain L where L: "wd_lists wd L" "M = (\<Union>w. set (L w))" using assms by (auto simp: wd_ok_def)
  then show "\<And>i. i \<in> M \<Longrightarrow> i < length (nodes wd)" using wd_listsD(4) by blast
  then show "finite M" by (meson finite_nat_set_iff_bounded)
qed

lemma strip_back_ok:
  assumes "w < length sets" "sets ! w \<noteq> None"
  shows "\<exists>sets'. strip_back sets = Inr sets' \<and> (\<forall>v. head sets' v = head sets v) \<and> sets' \<noteq> [] \<and> last sets' \<noteq> None"
  using assms
proof (induction sets rule: strip_back.induct)
  case (1 sets)
  show ?case
  proof (cases "last sets = None")
    case True
    obtain ys where ys: "sets = ys @ [None]" using True 1(2) by (cases sets rule: rev_cases) auto
    then have w: "w < length ys" "ys ! w \<noteq> None" using 1(2,3) by (auto simp: nth_append split: if_splits)
    have "head sets v = head ys v" for v by (auto simp: ys head_def nth_append)
    then show ?thesis using 1(1) w by (simp add: ys strip_back.simps [of "ys @ [None]"])
  next
    case False
    then show ?thesis using 1(2) by (auto simp: strip_back.simps [of sets])
  qed
qed

lemma PopNode_ok:
  assumes ok: "wd_ok wd M" and i: "i \<in> M" "M \<noteq> {i}"
  shows "\<exists>wd'. PopNode i wd = Inr wd' \<and> wd_ok wd' (M - {i}) \<and> length (nodes wd') = length (nodes wd) \<and>
     (\<forall>j. weight_of wd' j = weight_of wd j) \<and> detached wd' i"
proof -
  obtain L where L: "wd_lists wd L" "M = (\<Union>w. set (L w))" using ok by (auto simp: wd_ok_def)
  obtain w where w: "i \<in> set (L w)" using i(1) L(2) by blast
  note D = wd_listsD [OF L(1) w]
  obtain as bs where ab: "L w = as @ i # bs" using w by (meson split_list)
  let ?p = "if as = [] then None else Some (last as)" and ?n = "if bs = [] then None else Some (hd bs)"
  let ?ns1 = "case ?p of None \<Rightarrow> nodes wd | Some j \<Rightarrow> set_next j ?n (nodes wd)"
  let ?ns2 = "case ?n of None \<Rightarrow> ?ns1 | Some j \<Rightarrow> set_prev j ?p ?ns1"
  let ?ns3 = "set_next i None (set_prev i None ?ns2)"
  have dp: "prev_weight_node (nodes wd ! i) = ?p" "next_weight_node (nodes wd ! i) = ?n"
    "dll ?ns2 (if as = [] then ?n else weight_sets wd ! w) (as @ bs)"
    using dll_pop [of "nodes wd" "weight_sets wd ! w" as i bs] D(2) ab by simp_all
  have d: "distinct (as @ i # bs)" using D(2) ab by (simp add: dll_def)
  have len: "length ?ns3 = length (nodes wd)" by (simp split: option.split)
  have lt: "as \<noteq> [] \<Longrightarrow> last as < length (nodes wd)" "bs \<noteq> [] \<Longrightarrow> hd bs < length (nodes wd)"
    using wd_listsD(4) [OF L(1), of _ w] ab by simp_all
  have wt: "wn_weight (?ns3 ! j) = wn_weight (nodes wd ! j)" for j by (simp split: option.split)
  have dll3: "dll ?ns3 (if as = [] then ?n else weight_sets wd ! w) (as @ bs)"
    by (rule dll_cong [OF dp(3)]) (use d in \<open>auto simp: D(4)\<close>)
  have same: "?ns3 ! j = nodes wd ! j" if "j \<notin> set (as @ bs) \<union> set (L w)" for j
  proof -
    have "j \<noteq> i" "as \<noteq> [] \<Longrightarrow> j \<noteq> last as" "bs \<noteq> [] \<Longrightarrow> j \<noteq> hd bs" using that ab by auto
    then show ?thesis by simp
  qed
  have upd: "wd_lists (wd \<lparr> weight_sets := sets', nodes := ?ns3 \<rparr>) (L(w := as @ bs))"
    if "head sets' w = (if as = [] then ?n else weight_sets wd ! w)" "\<And>v. v \<noteq> w \<Longrightarrow> head sets' v = head (weight_sets wd) v" for sets'
  proof (rule wd_lists_upd [OF L(1) len])
    show "dll ?ns3 (head sets' w) (as @ bs)" unfolding that(1) by (rule dll3)
    show "wn_weight (?ns3 ! j) = w" if "j \<in> set (as @ bs)" for j using wt wd_listsD(3) [OF L(1), of j w] that ab by auto
    show "j \<notin> set (L v)" if "j \<in> set (as @ bs)" "v \<noteq> w" for j v using wd_listsD(3) [OF L(1), of j v] wd_listsD(3) [OF L(1), of j w] that ab by auto
  qed (fact that(2), fact same)
  have M: "(\<Union>v. set ((L(w := as @ bs)) v)) = M - {i}"
  proof -
    have un: "(\<Union>v. set (f v)) = set (f w) \<union> (\<Union>v \<in> - {w}. set (f v))" for f :: "nat \<Rightarrow> nat list" by auto
    have "(\<Union>v. set ((L(w := as @ bs)) v)) = set (as @ bs) \<union> (\<Union>v \<in> - {w}. set (L v))" unfolding un by simp
    moreover have "M = insert i (set (as @ bs)) \<union> (\<Union>v \<in> - {w}. set (L v))" unfolding L(2) un ab by simp
    moreover have "i \<notin> set (L v)" if "v \<noteq> w" for v using wd_listsD(3) [OF L(1), of i v] D(3) that by auto
    ultimately show ?thesis using d by auto
  qed
  have fin: "wd_ok (wd \<lparr> weight_sets := sets', nodes := ?ns3 \<rparr>) (M - {i})"
    if "head sets' w = (if as = [] then ?n else weight_sets wd ! w)" "\<And>v. v \<noteq> w \<Longrightarrow> head sets' v = head (weight_sets wd) v"
      "sets' \<noteq> []" "last sets' \<noteq> None" for sets'
    by (rule wd_okI [OF upd [OF that(1,2)] M]) (use that(3,4) in simp_all)
  have det: "prev_weight_node (?ns3 ! i) = None" "next_weight_node (?ns3 ! i) = None" using D(4) len by simp_all
  have sets: "weight_sets wd \<noteq> []" "last (weight_sets wd) \<noteq> None" using ok by (auto simp: wd_ok_def)
  have "\<exists>sets'. PopNode i wd = Inr (wd \<lparr> weight_sets := sets', nodes := ?ns3 \<rparr>) \<and> wd_ok (wd \<lparr> weight_sets := sets', nodes := ?ns3 \<rparr>) (M - {i})"
  proof (cases "as = []")
    case False
    then have "PopNode i wd = Inr (wd \<lparr> weight_sets := weight_sets wd, nodes := ?ns3 \<rparr>)"
      using D(1,4) lt dp(1,2) by (simp add: PopNode_def)
    moreover have "wd_ok (wd \<lparr> weight_sets := weight_sets wd, nodes := ?ns3 \<rparr>) (M - {i})"
      by (rule fin) (use False D(1) sets in \<open>simp_all add: head_def\<close>)
    ultimately show ?thesis by blast
  next
    case True
    then have h: "weight_sets wd ! w = Some i" using D(2) ab by (simp add: dll_def)
    show ?thesis
    proof (cases "bs = []")
      case False
      let ?sets = "(weight_sets wd)[w := Some (hd bs)]"
      have "PopNode i wd = Inr (wd \<lparr> weight_sets := ?sets, nodes := ?ns3 \<rparr>)"
        using True False D lt dp(1,2) h by (simp add: PopNode_def)
      moreover have "wd_ok (wd \<lparr> weight_sets := ?sets, nodes := ?ns3 \<rparr>) (M - {i})"
        by (rule fin) (use True False D(1) sets in \<open>auto simp: head_def last_list_update\<close>)
      ultimately show ?thesis by blast
    next
      case empty: True
      obtain j where j: "j \<in> M" "j \<noteq> i" using i by blast
      then obtain v where v: "j \<in> set (L v)" "v \<noteq> w" using L(2) ab True empty by (metis UN_E append_Nil set_ConsD empty_iff empty_set)
      have "(weight_sets wd)[w := None] ! v \<noteq> None"
        using wd_listsD(1,2) [OF L(1) v(1)] v by (auto simp: dll_def split: if_splits)
      then obtain sets' where s: "strip_back ((weight_sets wd)[w := None]) = Inr sets'" "\<forall>v. head sets' v = head ((weight_sets wd)[w := None]) v"
        "sets' \<noteq> []" "last sets' \<noteq> None"
        using strip_back_ok [of v "(weight_sets wd)[w := None]"] wd_listsD(1) [OF L(1) v(1)] by auto
      have "PopNode i wd = Inr (wd \<lparr> weight_sets := sets', nodes := ?ns3 \<rparr>)"
        using True empty D dp(1,2) h s(1) by (simp add: PopNode_def)
      moreover have "wd_ok (wd \<lparr> weight_sets := sets', nodes := ?ns3 \<rparr>) (M - {i})"
        by (rule fin) (use s(2-4) True empty D(1) in \<open>simp_all add: head_def\<close>)
      ultimately show ?thesis by blast
    qed
  qed
  then show ?thesis using len wt det by (auto simp: detached_def)
qed

lemma wd_ok_set_weight:
  assumes "wd_ok wd M" "i \<notin> M"
  shows "wd_ok (wd \<lparr> nodes := set_weight i w (nodes wd) \<rparr>) M"
proof -
  obtain L where L: "wd_lists wd L" "M = (\<Union>w. set (L w))" using assms by (auto simp: wd_ok_def)
  have "dll (set_weight i w (nodes wd)) (head (weight_sets wd) v) (L v)" for v
    by (rule dll_cong [of "nodes wd"]) (use L(1) in \<open>simp_all add: wd_lists_def\<close>)
  moreover have "wn_weight (set_weight i w (nodes wd) ! j) = v" if "j \<in> set (L v)" for j v
  proof -
    have "j \<noteq> i" using that L(2) assms(2) by auto
    then show ?thesis using wd_listsD(3) [OF L(1) that] by simp
  qed
  ultimately have "wd_lists (wd \<lparr> nodes := set_weight i w (nodes wd) \<rparr>) L" by (simp add: wd_lists_def)
  then show ?thesis using assms(1) L(2) by (auto simp: wd_ok_def)
qed

text \<open>Both \<open>PushNode\<close> and \<open>init\<close> put a node in front of the list of its weight.\<close>

definition push_nodes :: "nat \<Rightarrow> nat option \<Rightarrow> WeightNode list \<Rightarrow> WeightNode list" where
  "push_nodes i h ns = set_next i h (case h of None \<Rightarrow> ns | Some j \<Rightarrow> set_prev j (Some i) ns)"

lemma push_nodes_simps [simp]: "length (push_nodes i h ns) = length ns" "wn_weight (push_nodes i h ns ! j) = wn_weight (ns ! j)"
  by (simp_all add: push_nodes_def split: option.split)

lemma wd_lists_push:
  assumes L: "wd_lists wd L" and i: "\<And>v. i \<notin> set (L v)" "i < length (nodes wd)" "detached wd i"
    and sets': "head sets' (weight_of wd i) = Some i" "\<And>v. v \<noteq> weight_of wd i \<Longrightarrow> head sets' v = head (weight_sets wd) v"
    and h: "h = head (weight_sets wd) (weight_of wd i)"
  shows "wd_lists (wd \<lparr> weight_sets := sets', nodes := push_nodes i h (nodes wd) \<rparr>) (L(weight_of wd i := i # L (weight_of wd i)))"
proof (rule wd_lists_upd [OF L])
  let ?w = "weight_of wd i"
  have dllw: "dll (nodes wd) h (L ?w)" using L unfolding h by (simp add: wd_lists_def)
  show "dll (push_nodes i h (nodes wd)) (head sets' ?w) (i # L ?w)"
    unfolding sets'(1) push_nodes_def by (rule dll_push [OF dllw i(2) i(1)]) (use i(3) in \<open>simp add: detached_def\<close>)
  show "wn_weight (push_nodes i h (nodes wd) ! j) = ?w" if "j \<in> set (i # L ?w)" for j using wd_listsD(3) [OF L, of j ?w] that by auto
  show "j \<notin> set (L v)" if "j \<in> set (i # L ?w)" "v \<noteq> ?w" for j v
    using wd_listsD(3) [OF L, of j v] wd_listsD(3) [OF L, of j ?w] that i(1) by auto
  show "push_nodes i h (nodes wd) ! j = nodes wd ! j" if "j \<notin> set (i # L ?w) \<union> set (L ?w)" for j
  proof -
    have "j \<noteq> i" "h = Some k \<Longrightarrow> j \<noteq> k" for k using that dllw by (auto simp: dll_def split: if_splits)
    then show ?thesis by (simp add: push_nodes_def split: option.split)
  qed
qed (simp, fact sets'(2))

text \<open>The head of a list exists and has no predecessor.\<close>

lemma wd_head:
  assumes "wd_lists wd L" "head (weight_sets wd) w = Some j"
  shows "j \<in> set (L w)" "j < length (nodes wd)" "prev_weight_node (nodes wd ! j) = None"
proof -
  have "dll (nodes wd) (Some j) (L w)" using assms by (auto simp: wd_lists_def dest: spec [of _ w])
  then show "j \<in> set (L w)" "j < length (nodes wd)" "prev_weight_node (nodes wd ! j) = None" by (cases "L w"; simp add: dll_def)+
qed

lemma UN_upd_Cons: "(\<Union>v. set ((L(w := i # L w)) v)) = insert i (\<Union>v. set (L v))"
  by (auto split: if_splits)

lemma push_nodes_None: "detached wd i \<Longrightarrow> push_nodes i None (nodes wd) = nodes wd"
proof -
  assume "detached wd i"
  then have "(nodes wd ! i) \<lparr> next_weight_node := None \<rparr> = nodes wd ! i" by (cases "nodes wd ! i") (simp add: detached_def)
  then show ?thesis by (simp add: push_nodes_def set_next_def)
qed

lemma PushNode_ok:
  assumes ok: "wd_ok wd M" and i: "i \<notin> M" "i < length (nodes wd)" "detached wd i"
  shows "\<exists>wd'. PushNode i wd = Inr wd' \<and> wd_ok wd' (insert i M) \<and> length (nodes wd') = length (nodes wd) \<and> (\<forall>j. weight_of wd' j = weight_of wd j)"
proof -
  obtain L where L: "wd_lists wd L" "M = (\<Union>w. set (L w))" using ok by (auto simp: wd_ok_def)
  let ?w = "weight_of wd i" and ?S = "weight_sets wd"
  let ?sets = "if length ?S \<le> ?w then ?S @ replicate (?w + 1 - length ?S) None else ?S"
  have w: "?w < length ?sets" by simp
  have h: "head ?sets v = head ?S v" for v by (auto simp: head_def nth_append)
  have h': "?sets ! ?w = head ?S ?w" using h [of ?w] w by (simp add: head_def)
  let ?ns = "push_nodes i (head ?S ?w) (nodes wd)"
  have lists: "wd_lists (wd \<lparr> weight_sets := ?sets[?w := Some i], nodes := ?ns \<rparr>) (L(?w := i # L ?w))"
  proof (rule wd_lists_push [OF L(1) _ i(2,3)])
    show "head (?sets[?w := Some i]) ?w = Some i" by (simp add: head_def)
    show "head (?sets[?w := Some i]) v = head ?S v" if "v \<noteq> ?w" for v using head_update [OF that] h by metis
  qed (use i(1) L(2) in auto)
  have "last (?sets[?w := Some i]) \<noteq> None" using ok w by (auto simp: wd_ok_def last_list_update)
  then have ok': "wd_ok (wd \<lparr> weight_sets := ?sets[?w := Some i], nodes := ?ns \<rparr>) (insert i M)"
    using w L(2) UN_upd_Cons [of L ?w i] by (intro wd_okI [OF lists]) auto
  have "PushNode i wd = Inr (wd \<lparr> weight_sets := ?sets[?w := Some i], nodes := ?ns \<rparr>)"
    using i(2,3) wd_head [OF L(1), of ?w] push_nodes_None [OF i(3)] h'
    by (cases "head ?S ?w") (simp_all add: PushNode_def detached_def Let_def, simp add: push_nodes_def)
  then show ?thesis using ok' by auto
qed

lemma DecementWeight_ok:
  assumes "wd_ok wd M" "i \<in> M" "M \<noteq> {i}" "0 < weight_of wd i"
  shows "\<exists>wd'. DecementWeight i wd = Inr wd' \<and> wd_ok wd' M \<and> length (nodes wd') = length (nodes wd) \<and>
     (\<forall>j. weight_of wd' j = (if j = i then weight_of wd i - 1 else weight_of wd j))"
proof -
  obtain wd1 where pop: "PopNode i wd = Inr wd1" "wd_ok wd1 (M - {i})" "length (nodes wd1) = length (nodes wd)"
    "\<forall>j. weight_of wd1 j = weight_of wd j" "detached wd1 i"
    using PopNode_ok [OF assms(1-3)] by blast
  have i: "i < length (nodes wd)" using wd_ok_weights(2) [OF assms(1,2)] .
  let ?wd = "wd1 \<lparr> nodes := set_weight i (weight_of wd i - 1) (nodes wd1) \<rparr>"
  have "wd_ok ?wd (M - {i})" using wd_ok_set_weight [OF pop(2)] by simp
  moreover have "detached ?wd i" using pop(5) by (simp add: detached_def)
  ultimately obtain wd2 where "PushNode i ?wd = Inr wd2" "wd_ok wd2 (insert i (M - {i}))" "length (nodes wd2) = length (nodes ?wd)"
    "\<forall>j. weight_of wd2 j = weight_of ?wd j"
    using PushNode_ok [of ?wd "M - {i}" i] i pop(3) by auto
  moreover have "insert i (M - {i}) = M" using assms(2) by blast
  ultimately show ?thesis using pop i assms(4) by (simp add: DecementWeight_def)
qed

lemma GetMinWeightNode_ok:
  assumes "wd_ok wd M"
  shows "length (weight_sets wd) > 1 \<longleftrightarrow> (\<exists>i \<in> M. 0 < weight_of wd i)"
    and "length (weight_sets wd) > 1 \<Longrightarrow>
      \<exists>i \<in> M. GetMinWeightNode wd = Inr i \<and> 0 < weight_of wd i \<and> (\<forall>j \<in> M. 0 < weight_of wd j \<longrightarrow> weight_of wd i \<le> weight_of wd j)"
proof -
  obtain L where L: "wd_lists wd L" "M = (\<Union>w. set (L w))" using assms by (auto simp: wd_ok_def)
  let ?S = "weight_sets wd"
  have S: "?S \<noteq> []" "last ?S \<noteq> None" using assms by (auto simp: wd_ok_def)
  have hd: "L w \<noteq> [] \<and> i = hd (L w)" if "w < length ?S" "?S ! w = Some i" for w i
    using L(1) that by (auto simp: wd_lists_def dll_def head_def dest!: spec [of _ w] split: if_splits)
  have head: "\<exists>i \<in> M. ?S ! w = Some i \<and> weight_of wd i = w" if "w < length ?S" "?S ! w \<noteq> None" for w
    using hd [OF that(1)] that(2) L(2) wd_listsD(3) [OF L(1), of "hd (L w)" w] by (auto intro!: bexI [of _ "hd (L w)"] dest: hd_in_set)
  have lt: "weight_of wd i < length ?S \<and> ?S ! weight_of wd i \<noteq> None" if "i \<in> M" for i
    using that L(2) wd_listsD(1-3) [OF L(1)] by (auto simp: dll_def split: if_splits)
  show more: "length ?S > 1 \<longleftrightarrow> (\<exists>i \<in> M. 0 < weight_of wd i)"
  proof
    assume "length ?S > 1"
    moreover obtain i where "i \<in> M" "weight_of wd i = length ?S - 1" using head [of "length ?S - 1"] S by (auto simp: last_conv_nth)
    ultimately show "\<exists>i \<in> M. 0 < weight_of wd i" by (intro bexI [of _ i]) simp_all
  qed (use lt in fastforce)
  assume l: "length ?S > 1"
  have "find (\<lambda>s. s \<noteq> None) (drop 1 ?S) \<noteq> None"
    using S l by (auto simp: find_None_iff) (metis Suc_lessI drop_Suc last_drop last_in_set length_drop length_greater_0_conv drop_0 not_None_eq zero_less_diff)
  then obtain x where x: "find (\<lambda>s. s \<noteq> None) (drop 1 ?S) = Some x" by blast
  then have "\<exists>k < length (drop 1 ?S). x \<noteq> None \<and> x = drop 1 ?S ! k \<and> (\<forall>j < k. drop 1 ?S ! j = None)"
    unfolding find_Some_iff by auto
  then obtain k where k: "k < length (drop 1 ?S)" "drop 1 ?S ! k \<noteq> None" "find (\<lambda>s. s \<noteq> None) (drop 1 ?S) = Some (drop 1 ?S ! k)"
    "\<forall>j < k. drop 1 ?S ! j = None"
    using x by metis
  have "Suc k < length ?S" using k(1) by simp
  then obtain i where i: "i \<in> M" "?S ! Suc k = Some i" "weight_of wd i = Suc k"
    using head [of "Suc k"] k by auto
  have "Suc k \<le> weight_of wd j" if j: "j \<in> M" "0 < weight_of wd j" for j
  proof (rule ccontr)
    assume "\<not> Suc k \<le> weight_of wd j"
    then obtain m where "weight_of wd j = Suc m" "m < k" using j(2) by (cases "weight_of wd j") auto
    then show False using k(1,4) lt [OF j(1)] by auto
  qed
  then show "\<exists>i \<in> M. GetMinWeightNode wd = Inr i \<and> 0 < weight_of wd i \<and> (\<forall>j \<in> M. 0 < weight_of wd j \<longrightarrow> weight_of wd i \<le> weight_of wd j)"
    using i k by (intro bexI [of _ i]) (auto simp: GetMinWeightNode_def)
qed

lemma trim_sets_ok:
  assumes "n \<le> length sets" "w < n" "sets ! w \<noteq> None" "\<And>v. n \<le> v \<Longrightarrow> v < length sets \<Longrightarrow> sets ! v = None"
  shows "trim_sets sets n \<noteq> [] \<and> last (trim_sets sets n) \<noteq> None \<and> (\<forall>v. head (trim_sets sets n) v = head sets v)"
  using assms
proof (induction n)
  case (Suc n)
  show ?case
  proof (cases "sets ! n = None")
    case True
    then have "w < n" using Suc.prems(2,3) by (auto simp: less_Suc_eq)
    moreover have "sets ! v = None" if "n \<le> v" "v < length sets" for v using Suc.prems(4) [of v] True that by (cases "v = n") auto
    ultimately show ?thesis using Suc.IH Suc.prems(1,3) True by simp
  next
    case False
    then show ?thesis using Suc.prems by (auto simp: take_Suc_conv_app_nth head_def nth_append less_Suc_eq)
  qed
qed simp

definition init_inv :: "nat list \<Rightarrow> nat \<Rightarrow> nat \<Rightarrow> WeightData \<Rightarrow> bool" where
  "init_inv weights n i wd \<longleftrightarrow> length (nodes wd) = n \<and> length (weight_sets wd) = 200 \<and> (\<forall>j < i. weight_of wd j = weights ! j) \<and>
     (\<exists>L. wd_lists wd L \<and> (\<Union>w. set (L w)) = {0..<i})"

lemma init_node_ok:
  assumes "init_inv weights n i wd" "i < n" "weights ! i < 200"
  shows "\<exists>wd'. init_node weights i wd = Inr wd' \<and> init_inv weights n (Suc i) wd'"
proof -
  obtain L where L: "wd_lists wd L" "(\<Union>w. set (L w)) = {0..<i}" using assms(1) by (auto simp: init_inv_def)
  have len: "length (nodes wd) = n" "length (weight_sets wd) = 200" "\<forall>j < i. weight_of wd j = weights ! j" using assms(1) by (auto simp: init_inv_def)
  let ?w = "weights ! i"
  let ?ns = "(nodes wd)[i := \<lparr> wn_weight = ?w, prev_weight_node = None, next_weight_node = None \<rparr>]"
  let ?wd = "wd \<lparr> nodes := ?ns \<rparr>" and ?sets = "(weight_sets wd)[?w := Some i]"
  have i: "i \<notin> set (L v)" for v using L(2) by (metis UN_I atLeastLessThan_iff less_irrefl UNIV_I)
  have ns: "?ns ! j = nodes wd ! j" if "j \<in> set (L v)" for j v using that i by (metis nth_list_update_neq)
  have "dll ?ns (head (weight_sets wd) v) (L v)" for v
    by (rule dll_cong [of "nodes wd"]) (use L(1) ns in \<open>simp_all add: wd_lists_def\<close>)
  then have L': "wd_lists ?wd L" using L(1) ns by (simp add: wd_lists_def)
  have w: "weight_of ?wd i = ?w" "detached ?wd i" using assms(2) len by (simp_all add: detached_def)
  let ?wd' = "?wd \<lparr> weight_sets := ?sets, nodes := push_nodes i (head (weight_sets wd) ?w) ?ns \<rparr>"
  have "wd_lists ?wd' (L(?w := i # L ?w))"
    using wd_lists_push [OF L' i _ w(2), of ?sets] assms(2,3) len unfolding w(1) by (simp add: head_def)
  then have "init_inv weights n (Suc i) ?wd'"
    using len L(2) UN_upd_Cons [of L ?w i] assms(2)
    by (auto simp: init_inv_def nth_list_update less_Suc_eq intro!: exI [of _ "L(?w := i # L ?w)"])
  moreover have "init_node weights i wd = Inr ?wd'"
    using assms(2,3) len wd_head [OF L', of ?w] push_nodes_None [OF w(2)]
    by (cases "weight_sets wd ! ?w") (simp_all add: init_node_def head_def Let_def, simp add: push_nodes_def)
  ultimately show ?thesis by blast
qed

lemma WeightData_init_ok:
  assumes "weights \<noteq> []" "\<forall>w \<in> set weights. w < 200"
  shows "\<exists>wd'. WeightData_init weights wd = Inr wd' \<and> wd_ok wd' {0..<length weights} \<and> (\<forall>i < length weights. weight_of wd' i = weights ! i)"
proof -
  let ?n = "length weights" and ?blank = "\<lparr> wn_weight = 0, prev_weight_node = None, next_weight_node = None \<rparr>"
  let ?ns = "if length (nodes wd) < ?n then nodes wd @ replicate (?n - length (nodes wd)) ?blank else nodes wd"
  have "init_inv weights (length ?ns) 0 (wd \<lparr> weight_sets := replicate 200 None, nodes := ?ns \<rparr>)"
    by (auto simp: init_inv_def wd_lists_def dll_def head_def intro!: exI [of _ "\<lambda>_. []"])
  moreover have "\<exists>wd'. init_node weights i wd1 = Inr wd' \<and> init_inv weights (length ?ns) (Suc i) wd'"
    if "i < ?n" "init_inv weights (length ?ns) i wd1" for i wd1
    using init_node_ok [OF that(2)] that(1) assms(2) by simp
  ultimately obtain wd1 where wd1: "rfold (init_node weights) [0..<?n] (wd \<lparr> weight_sets := replicate 200 None, nodes := ?ns \<rparr>) = Inr wd1"
    "init_inv weights (length ?ns) ?n wd1"
    using rfold_upt_inv [of ?n "init_inv weights (length ?ns)" "init_node weights"] by blast
  obtain L where L: "wd_lists wd1 L" "(\<Union>w. set (L w)) = {0..<?n}" using wd1(2) by (auto simp: init_inv_def)
  have "0 \<in> (\<Union>w. set (L w))" using assms(1) L(2) by simp
  then obtain w where w: "0 \<in> set (L w)" by blast
  let ?S = "weight_sets wd1"
  have "trim_sets ?S (length ?S) \<noteq> [] \<and> last (trim_sets ?S (length ?S)) \<noteq> None \<and> (\<forall>v. head (trim_sets ?S (length ?S)) v = head ?S v)"
    using wd_listsD(1,2) [OF L(1) w] w by (intro trim_sets_ok [of _ _ w]) (auto simp: dll_def)
  then have "wd_ok (wd1 \<lparr> weight_sets := trim_sets ?S (length ?S) \<rparr>) {0..<?n}"
    using L by (auto simp: wd_ok_def wd_lists_def intro!: exI [of _ L])
  then show ?thesis using wd1 by (auto simp: WeightData_init_def Let_def init_inv_def)
qed

end
