(* ===== verification/Dense_Mtx.thy ===== *)
theory Dense_Mtx
  imports Xor_Algebra
begin

text \<open>
  \<open>psi/algorithm/rr22/okvs/dense_mtx.cc\<close>: matrices of bits, stored column by column in 128-bit words. A copy of a matrix keeps a view of the
  words of the original; \<open>Add\<close> and \<open>Invert\<close> start from such a copy and so overwrite the matrix they are called on, which is why
  they return it here beside their result. \<open>Invert\<close> solves linear systems, or finds that the matrix is singular.
\<close>

section \<open>Access\<close>

record DenseMtx =
  dm_data :: "128 word list"
  dm_bit_rows :: nat
  dm_rows :: nat
  dm_cols :: nat

definition mtx_cols :: "DenseMtx \<Rightarrow> nat" where
  "mtx_cols m = (if dm_rows m = 0 then 0 else dm_cols m * dm_rows m div dm_rows m)"

definition DenseMtx_resize :: "nat \<Rightarrow> nat \<Rightarrow> DenseMtx \<Rightarrow> DenseMtx" where
  "DenseMtx_resize rows cols m =
     (let w = (rows + 127) div 128; n = cols * w
      in \<lparr> dm_data = take n (dm_data m) @ replicate (n - length (dm_data m)) 0, dm_bit_rows = rows, dm_rows = w, dm_cols = cols \<rparr>)"

definition DenseMtx_empty :: DenseMtx where
  "DenseMtx_empty = \<lparr> dm_data = [], dm_bit_rows = 0, dm_rows = 0, dm_cols = 0 \<rparr>"

definition DenseMtx_new :: "nat \<Rightarrow> nat \<Rightarrow> DenseMtx" where
  "DenseMtx_new rows cols = DenseMtx_resize rows cols DenseMtx_empty"

definition bit_pos :: "DenseMtx \<Rightarrow> nat \<Rightarrow> nat \<Rightarrow> nat \<times> nat" where
  "bit_pos m row col = (col * dm_rows m + row div 128, row mod 128)"

definition mtx_get :: "DenseMtx \<Rightarrow> nat \<Rightarrow> nat \<Rightarrow> bool result" where
  "mtx_get m row col =
     rbind (enforce (row < dm_bit_rows m) ''row < rows()'') (\<lambda>_.
     rbind (enforce (col < mtx_cols m) ''col < cols()'') (\<lambda>_.
     let (k, b) = bit_pos m row col in rbind (at (dm_data m) k) (\<lambda>w. Inr (bit w b))))"

definition mtx_set :: "nat \<Rightarrow> nat \<Rightarrow> bool \<Rightarrow> DenseMtx \<Rightarrow> DenseMtx result" where
  "mtx_set row col v m =
     rbind (enforce (row < dm_bit_rows m) ''row < rows()'') (\<lambda>_.
     rbind (enforce (col < mtx_cols m) ''col < cols()'') (\<lambda>_.
     let (k, b) = bit_pos m row col in
     rbind (at (dm_data m) k) (\<lambda>w. Inr (m \<lparr> dm_data := (dm_data m)[k := if v then set_bit b w else unset_bit b w] \<rparr>))))"

section \<open>Operations\<close>

definition Row_swap :: "nat \<Rightarrow> nat \<Rightarrow> DenseMtx \<Rightarrow> DenseMtx result" where
  "Row_swap idx r m =
     rfold (\<lambda>col_idx m. rbind (mtx_get m r col_idx) (\<lambda>b. rbind (mtx_get m idx col_idx) (\<lambda>v.
       rbind (mtx_set r col_idx v m) (\<lambda>m'. mtx_set idx col_idx b m')))) [0..<mtx_cols m] m"

definition Row_IsZero :: "DenseMtx \<Rightarrow> nat \<Rightarrow> bool result" where
  "Row_IsZero m idx = rfold (\<lambda>col_idx z. if z then rbind (mtx_get m idx col_idx) (\<lambda>b. Inr (\<not> b)) else Inr z) [0..<mtx_cols m] True"

definition Row_xor :: "nat \<Rightarrow> nat \<Rightarrow> DenseMtx \<Rightarrow> DenseMtx result" where
  "Row_xor idx r m =
     rfold (\<lambda>col_idx m. rbind (mtx_get m r col_idx) (\<lambda>b. rbind (mtx_get m idx col_idx) (\<lambda>v. mtx_set idx col_idx (v \<noteq> b) m)))
       [0..<mtx_cols m] m"

definition DenseMtx_Identity :: "nat \<Rightarrow> DenseMtx result" where
  "DenseMtx_Identity n = rfold (\<lambda>i m. mtx_set i i True m) [0..<n] (DenseMtx_new n n)"

definition DenseMtx_Mult :: "DenseMtx \<Rightarrow> DenseMtx \<Rightarrow> DenseMtx result" where
  "DenseMtx_Mult a m =
     rbind (enforce (mtx_cols a = dm_bit_rows m) ''cols() == m.rows()'') (\<lambda>_.
     let ret = DenseMtx_new (dm_bit_rows a) (mtx_cols m)
     in rfold (\<lambda>i ret. rfold (\<lambda>j ret.
          rbind (rfold (\<lambda>k v. rbind (mtx_get a i k) (\<lambda>x. rbind (mtx_get m k j) (\<lambda>y. Inr (v \<noteq> (x \<and> y))))) [0..<mtx_cols a] False) (\<lambda>v.
          mtx_set i j v ret)) [0..<mtx_cols ret] ret) [0..<dm_bit_rows ret] ret)"

text \<open>The second component is the matrix itself afterwards; the result shares its words.\<close>

definition DenseMtx_Add :: "DenseMtx \<Rightarrow> DenseMtx \<Rightarrow> (DenseMtx \<times> DenseMtx) result" where
  "DenseMtx_Add a m =
     rbind (enforce (dm_bit_rows a = dm_bit_rows m \<and> mtx_cols a = mtx_cols m) ''rows() == m.rows() && cols() == m.cols()'') (\<lambda>_.
     rbind (rmap (\<lambda>i. rbind (at (dm_data a) i) (\<lambda>x. rbind (at (dm_data m) i) (\<lambda>y. Inr (x XOR y)))) [0..<length (dm_data a)]) (\<lambda>d.
     let r = a \<lparr> dm_data := d \<rparr> in Inr (r, r)))"

definition swap_in :: "nat \<Rightarrow> nat \<Rightarrow> nat \<Rightarrow> DenseMtx \<times> DenseMtx \<Rightarrow> (DenseMtx \<times> DenseMtx) result" where
  "swap_in n i j = (\<lambda>(mtx, Inv). rbind (Row_swap i j mtx) (\<lambda>mtx'. rbind (Row_swap i j Inv) (\<lambda>Inv'. Inr (mtx', Inv'))))"

text \<open>The first lower row with a one in the column is swapped in.\<close>

fun find_pivot :: "nat \<Rightarrow> nat \<Rightarrow> nat list \<Rightarrow> DenseMtx \<times> DenseMtx \<Rightarrow> (DenseMtx \<times> DenseMtx) result" where
  "find_pivot n i [] st = Inr st"
| "find_pivot n i (j # js) st = rbind (mtx_get (fst st) j i) (\<lambda>b. if b then swap_in n i j st else find_pivot n i js st)"

definition xor_bit :: "nat \<Rightarrow> nat \<Rightarrow> nat \<Rightarrow> DenseMtx \<Rightarrow> DenseMtx result" where
  "xor_bit j i k m = rbind (mtx_get m i k) (\<lambda>b. rbind (mtx_get m j k) (\<lambda>v. mtx_set j k (v \<noteq> b) m))"

definition eliminate :: "nat \<Rightarrow> nat \<Rightarrow> nat \<Rightarrow> DenseMtx \<times> DenseMtx \<Rightarrow> (DenseMtx \<times> DenseMtx) result" where
  "eliminate n i j st =
     (if j = i then Inr st
      else rbind (mtx_get (fst st) j i) (\<lambda>b.
        if b then rfold (\<lambda>k (mtx, Inv). rbind (xor_bit j i k mtx) (\<lambda>mtx'. rbind (xor_bit j i k Inv) (\<lambda>Inv'. Inr (mtx', Inv')))) [0..<n] st
        else Inr st))"

fun invert_loop :: "nat \<Rightarrow> nat list \<Rightarrow> DenseMtx \<times> DenseMtx \<Rightarrow> (DenseMtx \<times> DenseMtx) result" where
  "invert_loop n [] st = Inr (snd st, fst st)"
| "invert_loop n (i # is) st =
     rbind (mtx_get (fst st) i i) (\<lambda>b.
     rbind (if b then Inr st else find_pivot n i [i + 1..<n] st) (\<lambda>st'.
     rbind (mtx_get (fst st') i i) (\<lambda>b'.
     if \<not> b' then Inr (DenseMtx_empty, fst st')
     else rbind (rfold (eliminate n i) [0..<n] st') (invert_loop n is))))"

definition DenseMtx_Invert :: "DenseMtx \<Rightarrow> (DenseMtx \<times> DenseMtx) result" where
  "DenseMtx_Invert m =
     rbind (enforce (dm_bit_rows m = mtx_cols m) ''rows() == cols()'') (\<lambda>_.
     rbind (DenseMtx_Identity (dm_bit_rows m)) (\<lambda>Inv. invert_loop (dm_bit_rows m) [0..<dm_bit_rows m] (m, Inv)))"

section \<open>Matrices as functions\<close>

definition mtx_ok :: "nat \<Rightarrow> DenseMtx \<Rightarrow> bool" where
  "mtx_ok n m \<longleftrightarrow> dm_bit_rows m = n \<and> dm_cols m = n \<and> dm_rows m = (n + 127) div 128 \<and> length (dm_data m) = n * dm_rows m"

definition mat :: "DenseMtx \<Rightarrow> nat \<Rightarrow> nat \<Rightarrow> bool" where
  "mat m row col = bit (dm_data m ! fst (bit_pos m row col)) (snd (bit_pos m row col))"

lemma mtx_ok_cols [simp]: "mtx_ok n m \<Longrightarrow> mtx_cols m = n"
  by (auto simp: mtx_ok_def mtx_cols_def)

lemma bit_pos_less:
  assumes "mtx_ok n m" "row < n" "col < n"
  shows "fst (bit_pos m row col) < length (dm_data m)"
proof -
  have r: "row div 128 < dm_rows m" using assms by (simp add: mtx_ok_def)
  have "col * dm_rows m + row div 128 < Suc col * dm_rows m" using r by simp
  also have "\<dots> \<le> n * dm_rows m" using assms(3) by (intro mult_le_mono) simp_all
  finally show ?thesis using assms by (simp add: mtx_ok_def bit_pos_def)
qed

lemma bit_pos_eq:
  assumes "mtx_ok n m" "row < n" "row' < n"
  shows "bit_pos m row col = bit_pos m row' col' \<longleftrightarrow> row = row' \<and> col = col'"
proof
  assume eq: "bit_pos m row col = bit_pos m row' col'"
  have r: "row div 128 < dm_rows m" "row' div 128 < dm_rows m" using assms by (simp_all add: mtx_ok_def)
  have "(col * dm_rows m + row div 128) div dm_rows m = (col' * dm_rows m + row' div 128) div dm_rows m"
    "(col * dm_rows m + row div 128) mod dm_rows m = (col' * dm_rows m + row' div 128) mod dm_rows m" "row mod 128 = row' mod 128"
    using eq by (simp_all add: bit_pos_def)
  then have "col = col'" "row div 128 = row' div 128" "row mod 128 = row' mod 128" using r by simp_all
  then show "row = row' \<and> col = col'" by (metis div_mult_mod_eq)
qed simp

lemma mtx_get_ok: "mtx_ok n m \<Longrightarrow> row < n \<Longrightarrow> col < n \<Longrightarrow> mtx_get m row col = Inr (mat m row col)"
  using bit_pos_less [of n m row col] by (simp add: mtx_get_def mat_def mtx_ok_def split: prod.split) (auto simp: mtx_cols_def)

lemma mtx_set_ok:
  assumes "mtx_ok n m" "row < n" "col < n"
  shows "\<exists>m'. mtx_set row col v m = Inr m' \<and> mtx_ok n m' \<and>
     (\<forall>r < n. \<forall>c < n. mat m' r c = (if r = row \<and> c = col then v else mat m r c))"
proof -
  obtain k b where kb: "bit_pos m row col = (k, b)" by (meson surj_pair)
  have k: "k < length (dm_data m)" "b < 128" using bit_pos_less [OF assms] kb by (auto simp: bit_pos_def)
  let ?m = "m \<lparr> dm_data := (dm_data m)[k := if v then set_bit b (dm_data m ! k) else unset_bit b (dm_data m ! k)] \<rparr>"
  have "mtx_set row col v m = Inr ?m" using assms k kb by (simp add: mtx_set_def mtx_ok_def) (auto simp: mtx_cols_def)
  moreover have "mtx_ok n ?m" using assms(1) by (simp add: mtx_ok_def)
  moreover have "mat ?m r c = (if r = row \<and> c = col then v else mat m r c)" if "r < n" "c < n" for r c
  proof -
    obtain k' b' where kb': "bit_pos m r c = (k', b')" by (meson surj_pair)
    then have "bit_pos ?m r c = (k', b')" "b' < 128" by (auto simp: bit_pos_def)
    moreover have "k' = k \<and> b' = b \<longleftrightarrow> r = row \<and> c = col" using bit_pos_eq [OF assms(1) that(1) assms(2), of c col] kb kb' by auto
    ultimately show ?thesis using kb' k by (auto simp: mat_def nth_list_update bit_set_bit_iff bit_unset_bit_iff)
  qed
  ultimately show ?thesis by blast
qed

lemma mtx_new_ok: "mtx_ok n (DenseMtx_new n n)" "row < n \<Longrightarrow> col < n \<Longrightarrow> \<not> mat (DenseMtx_new n n) row col"
proof -
  show ok: "mtx_ok n (DenseMtx_new n n)" by (simp add: mtx_ok_def DenseMtx_new_def DenseMtx_resize_def DenseMtx_empty_def Let_def)
  show "\<not> mat (DenseMtx_new n n) row col" if "row < n" "col < n"
    using bit_pos_less [OF ok that] by (simp add: mat_def DenseMtx_new_def DenseMtx_resize_def DenseMtx_empty_def Let_def)
qed

text \<open>A loop over the columns that changes in each step one column, by the same function of the old column.\<close>

lemma column_loop:
  assumes step: "\<And>k m. k < n \<Longrightarrow> mtx_ok n m \<Longrightarrow> \<exists>m'. f k m = Inr m' \<and> mtx_ok n m' \<and>
     (\<forall>r < n. \<forall>c < n. mat m' r c = (if c = k then F (\<lambda>r. mat m r k) r else mat m r c))"
    and ok: "mtx_ok n m" and cong: "\<And>g h r. (\<And>r. r < n \<Longrightarrow> g r = h r) \<Longrightarrow> r < n \<Longrightarrow> F g r = F h r"
  shows "\<exists>m'. rfold f [0..<n] m = Inr m' \<and> mtx_ok n m' \<and> (\<forall>r < n. \<forall>c < n. mat m' r c = F (\<lambda>r. mat m r c) r)"
proof -
  have "\<exists>m'. rfold f [0..<n] m = Inr m' \<and> (mtx_ok n m' \<and> (\<forall>r < n. \<forall>c < n. mat m' r c = (if c < n then F (\<lambda>r. mat m r c) r else mat m r c)))"
  proof (rule rfold_upt_inv [where I = "\<lambda>k m'. mtx_ok n m' \<and> (\<forall>r < n. \<forall>c < n. mat m' r c = (if c < k then F (\<lambda>r. mat m r c) r else mat m r c))"])
    fix k m1 assume k: "k < n" and inv: "mtx_ok n m1 \<and> (\<forall>r < n. \<forall>c < n. mat m1 r c = (if c < k then F (\<lambda>r. mat m r c) r else mat m r c))"
    obtain m2 where "f k m1 = Inr m2" "mtx_ok n m2" "\<forall>r < n. \<forall>c < n. mat m2 r c = (if c = k then F (\<lambda>r. mat m1 r k) r else mat m1 r c)"
      using step [OF k, of m1] inv by blast
    then show "\<exists>s'. f k m1 = Inr s' \<and> (mtx_ok n s' \<and> (\<forall>r < n. \<forall>c < n. mat s' r c = (if c < Suc k then F (\<lambda>r. mat m r c) r else mat m r c)))"
      using k inv cong [of "\<lambda>r. mat m1 r k" "\<lambda>r. mat m r k"] by (auto simp: less_Suc_eq)
  qed (use ok in simp)
  then show ?thesis by auto
qed

definition swap_rows :: "nat \<Rightarrow> nat \<Rightarrow> (nat \<Rightarrow> 'a) \<Rightarrow> nat \<Rightarrow> 'a" where
  "swap_rows i j g r = g (if r = i then j else if r = j then i else r)"

definition add_row :: "nat \<Rightarrow> nat \<Rightarrow> (nat \<Rightarrow> bool) \<Rightarrow> nat \<Rightarrow> bool" where
  "add_row j i g r = (if r = j then g j \<noteq> g i else g r)"

lemma Row_swap_ok:
  assumes "mtx_ok n m" "i < n" "j < n"
  shows "\<exists>m'. Row_swap i j m = Inr m' \<and> mtx_ok n m' \<and> (\<forall>r < n. \<forall>c < n. mat m' r c = swap_rows i j (\<lambda>r. mat m r c) r)"
  unfolding Row_swap_def mtx_ok_cols [OF assms(1)]
proof (rule column_loop [OF _ assms(1)])
  fix k m1 assume k: "k < n" and ok: "mtx_ok n m1"
  obtain m2 where m2: "mtx_set j k (mat m1 i k) m1 = Inr m2" "mtx_ok n m2" "\<forall>r < n. \<forall>c < n. mat m2 r c = (if r = j \<and> c = k then mat m1 i k else mat m1 r c)"
    using mtx_set_ok [OF ok assms(3) k] by blast
  obtain m3 where "mtx_set i k (mat m1 j k) m2 = Inr m3" "mtx_ok n m3" "\<forall>r < n. \<forall>c < n. mat m3 r c = (if r = i \<and> c = k then mat m1 j k else mat m2 r c)"
    using mtx_set_ok [OF m2(2) assms(2) k] by blast
  then show "\<exists>m'. rbind (mtx_get m1 j k) (\<lambda>b. rbind (mtx_get m1 i k) (\<lambda>v. rbind (mtx_set j k v m1) (\<lambda>m'. mtx_set i k b m'))) = Inr m' \<and> mtx_ok n m' \<and>
      (\<forall>r < n. \<forall>c < n. mat m' r c = (if c = k then swap_rows i j (\<lambda>r. mat m1 r k) r else mat m1 r c))"
    using m2 mtx_get_ok [OF ok] k assms(2,3) by (auto simp: swap_rows_def)
qed (use assms in \<open>auto simp: swap_rows_def\<close>)

lemma xor_bit_ok:
  assumes "mtx_ok n m" "i < n" "j < n" "k < n"
  shows "\<exists>m'. xor_bit j i k m = Inr m' \<and> mtx_ok n m' \<and> (\<forall>r < n. \<forall>c < n. mat m' r c = (if c = k then add_row j i (\<lambda>r. mat m r k) r else mat m r c))"
  using mtx_set_ok [OF assms(1,3,4), of "mat m j k \<noteq> mat m i k"] mtx_get_ok [OF assms(1)] assms(2-4)
  by (auto simp: xor_bit_def add_row_def)

lemma xor_rows_ok:
  assumes "mtx_ok n m" "i < n" "j < n"
  shows "\<exists>m'. rfold (xor_bit j i) [0..<n] m = Inr m' \<and> mtx_ok n m' \<and> (\<forall>r < n. \<forall>c < n. mat m' r c = add_row j i (\<lambda>r. mat m r c) r)"
  by (rule column_loop [OF xor_bit_ok assms(1)]) (use assms in \<open>auto simp: add_row_def\<close>)

lemma rfold_pair:
  assumes "rfold f xs a = Inr a'" "rfold g xs b = Inr b'"
  shows "rfold (\<lambda>x (a, b). rbind (f x a) (\<lambda>a'. rbind (g x b) (\<lambda>b'. Inr (a', b')))) xs (a, b) = Inr (a', b')"
  using assms by (induction xs arbitrary: a b) (auto simp: rbind_eq_Inr_iff)

section \<open>Linear systems\<close>

definition lin :: "nat \<Rightarrow> (nat \<Rightarrow> nat \<Rightarrow> bool) \<Rightarrow> (nat \<Rightarrow> 'a::len word) \<Rightarrow> nat \<Rightarrow> 'a word" where
  "lin n A x r = xorl (map (\<lambda>c. sel (A r c) (x c)) [0..<n])"

lemma lin_cong: "(\<And>c. c < n \<Longrightarrow> A r c = B s c) \<Longrightarrow> lin n A x r = lin n B x s"
  unfolding lin_def by (intro xorl_cong) simp

lemma lin_add_row: "(\<And>c. c < n \<Longrightarrow> B j c = (A j c \<noteq> A i c)) \<Longrightarrow> lin n B x j = lin n A x j XOR lin n A x i"
  unfolding lin_def xorl_map_xor [symmetric] by (intro xorl_cong) (auto simp: sel_def)

lemma lin_unit: "r < n \<Longrightarrow> (\<And>c. c < n \<Longrightarrow> A r c = (c = r)) \<Longrightarrow> lin n A x r = x r"
proof -
  assume r: "r < n" and A: "\<And>c. c < n \<Longrightarrow> A r c = (c = r)"
  have "lin n A x r = xorl (map (\<lambda>c. if c = r then x c else 0) [0..<n])"
    unfolding lin_def by (intro xorl_cong) (simp add: A sel_def)
  then show ?thesis using r by (simp add: xorl_single)
qed

text \<open>Both sides of a system under a row operation.\<close>

definition solved :: "nat \<Rightarrow> (nat \<Rightarrow> 'a::len word) \<Rightarrow> (nat \<Rightarrow> 'a word) \<Rightarrow> DenseMtx \<times> DenseMtx \<Rightarrow> bool" where
  "solved n x y st \<longleftrightarrow> (\<forall>r < n. lin n (mat (fst st)) x r = lin n (mat (snd st)) y r)"

definition pair_ok :: "nat \<Rightarrow> DenseMtx \<times> DenseMtx \<Rightarrow> bool" where
  "pair_ok n st \<longleftrightarrow> mtx_ok n (fst st) \<and> mtx_ok n (snd st)"

text \<open>The first columns are those of the identity.\<close>

definition unit_cols :: "nat \<Rightarrow> nat \<Rightarrow> DenseMtx \<times> DenseMtx \<Rightarrow> bool" where
  "unit_cols n i st \<longleftrightarrow> (\<forall>r < n. \<forall>c < i. mat (fst st) r c = (r = c))"

lemma swap_all:
  assumes "i < n" "j < n"
  shows "(\<forall>r < n. P (if r = i then j else if r = j then i else r)) \<longleftrightarrow> (\<forall>r < n. P r)"
proof
  assume P: "\<forall>r < n. P (if r = i then j else if r = j then i else r)"
  show "\<forall>r < n. P r" using P [rule_format, of i] P [rule_format, of j] P assms by (metis (full_types))
qed (use assms in auto)

lemma swap_in_ok:
  assumes "pair_ok n st" "i < n" "j < n"
  shows "\<exists>st'. swap_in n i j st = Inr st' \<and> pair_ok n st' \<and> (\<forall>r < n. \<forall>c < n. mat (fst st') r c = swap_rows i j (\<lambda>r. mat (fst st) r c) r) \<and>
     (\<forall>x y. solved n x y st' = solved n x (y :: nat \<Rightarrow> 'a::len word) st)"
proof -
  obtain a b where st: "st = (a, b)" by (cases st)
  have ok: "mtx_ok n a" "mtx_ok n b" using assms(1) by (simp_all add: st pair_ok_def)
  obtain a' where a': "Row_swap i j a = Inr a'" "mtx_ok n a'" "\<forall>r < n. \<forall>c < n. mat a' r c = swap_rows i j (\<lambda>r. mat a r c) r"
    using Row_swap_ok [OF ok(1) assms(2,3)] by blast
  obtain b' where b': "Row_swap i j b = Inr b'" "mtx_ok n b'" "\<forall>r < n. \<forall>c < n. mat b' r c = swap_rows i j (\<lambda>r. mat b r c) r"
    using Row_swap_ok [OF ok(2) assms(2,3)] by blast
  let ?s = "\<lambda>r. if r = i then j else if r = j then i else r"
  have "lin n (mat a') x r = lin n (mat a) x (?s r)" "lin n (mat b') x r = lin n (mat b) x (?s r)" if "r < n" for x :: "nat \<Rightarrow> 'a word" and r
    using that a'(3) b'(3) by (auto intro!: lin_cong simp: swap_rows_def)
  then have "solved n x y (a', b') = (\<forall>r < n. lin n (mat a) x (?s r) = lin n (mat b) y (?s r))" for x y :: "nat \<Rightarrow> 'a word"
    by (simp add: solved_def)
  also have "(\<forall>r < n. lin n (mat a) x (?s r) = lin n (mat b) y (?s r)) = (\<forall>r < n. lin n (mat a) x r = lin n (mat b) y r)" for x y :: "nat \<Rightarrow> 'a word"
    using swap_all [OF assms(2,3)] .
  finally have "solved n x y (a', b') = solved n x y st" for x y :: "nat \<Rightarrow> 'a word" by (simp add: solved_def st)
  then show ?thesis using a' b' by (simp add: swap_in_def st pair_ok_def)
qed

lemma eliminate_ok:
  assumes "pair_ok n st" "i < n" "j < n"
  shows "\<exists>st'. eliminate n i j st = Inr st' \<and> pair_ok n st' \<and>
     (\<forall>r < n. \<forall>c < n. mat (fst st') r c = (if r = j \<and> j \<noteq> i \<and> mat (fst st) j i then mat (fst st) j c \<noteq> mat (fst st) i c else mat (fst st) r c)) \<and>
     (\<forall>x y. solved n x y st' = solved n x (y :: nat \<Rightarrow> 'a::len word) st)"
proof (cases "j \<noteq> i \<and> mat (fst st) j i")
  case True
  obtain a b where st: "st = (a, b)" by (cases st)
  have ok: "mtx_ok n a" "mtx_ok n b" using assms(1) by (simp_all add: st pair_ok_def)
  obtain a' where a': "rfold (xor_bit j i) [0..<n] a = Inr a'" "mtx_ok n a'" "\<forall>r < n. \<forall>c < n. mat a' r c = add_row j i (\<lambda>r. mat a r c) r"
    using xor_rows_ok [OF ok(1) assms(2,3)] by blast
  obtain b' where b': "rfold (xor_bit j i) [0..<n] b = Inr b'" "mtx_ok n b'" "\<forall>r < n. \<forall>c < n. mat b' r c = add_row j i (\<lambda>r. mat b r c) r"
    using xor_rows_ok [OF ok(2) assms(2,3)] by blast
  have "eliminate n i j st = Inr (a', b')"
    using True mtx_get_ok [OF ok(1) assms(3,2)] rfold_pair [OF a'(1) b'(1)] by (simp add: eliminate_def st)
  moreover have "lin n (mat a') x r = (if r = j then lin n (mat a) x j XOR lin n (mat a) x i else lin n (mat a) x r)"
    "lin n (mat b') x r = (if r = j then lin n (mat b) x j XOR lin n (mat b) x i else lin n (mat b) x r)" if "r < n" for x :: "nat \<Rightarrow> 'a word" and r
    using that a'(3) b'(3) by (auto intro!: lin_cong lin_add_row simp: add_row_def)
  then have "solved n x y (a', b') = solved n x y st" for x y :: "nat \<Rightarrow> 'a word"
    using True assms(2,3) by (auto simp: solved_def st) (metis xor_self_left xor.commute)+
  ultimately show ?thesis using a' b' True by (auto simp: pair_ok_def add_row_def st)
next
  case False
  then show ?thesis using assms mtx_get_ok [of n "fst st" j i] by (intro exI [of _ st]) (auto simp: eliminate_def pair_ok_def)
qed

lemma eliminate_all:
  assumes "pair_ok n st" "i < n" "mat (fst st) i i"
  shows "\<exists>st'. rfold (eliminate n i) [0..<n] st = Inr st' \<and> pair_ok n st' \<and>
     (\<forall>r < n. \<forall>c < n. mat (fst st') r c = (if r \<noteq> i \<and> mat (fst st) r i then mat (fst st) r c \<noteq> mat (fst st) i c else mat (fst st) r c)) \<and>
     (\<forall>x y. solved n x y st' = solved n x (y :: nat \<Rightarrow> 'a::len word) st)"
proof -
  let ?I = "\<lambda>j st'. pair_ok n st' \<and> (\<forall>r < n. \<forall>c < n. mat (fst st') r c =
      (if r < j \<and> r \<noteq> i \<and> mat (fst st) r i then mat (fst st) r c \<noteq> mat (fst st) i c else mat (fst st) r c)) \<and>
     (\<forall>x y. solved n x y st' = solved n x (y :: nat \<Rightarrow> 'a word) st)"
  have "\<exists>st'. rfold (eliminate n i) [0..<n] st = Inr st' \<and> ?I n st'"
  proof (rule rfold_upt_inv [where I = ?I])
    fix j st1 assume j: "j < n" and I: "?I j st1"
    then have "pair_ok n st1" by blast
    from eliminate_ok [OF this assms(2) j, where 'a = 'a]
    obtain st2 where "eliminate n i j st1 = Inr st2" "pair_ok n st2"
      "\<forall>r < n. \<forall>c < n. mat (fst st2) r c = (if r = j \<and> j \<noteq> i \<and> mat (fst st1) j i then mat (fst st1) j c \<noteq> mat (fst st1) i c else mat (fst st1) r c)"
      "\<forall>x y. solved n x y st2 = solved n x (y :: nat \<Rightarrow> 'a word) st1" by blast
    then show "\<exists>s'. eliminate n i j st1 = Inr s' \<and> ?I (Suc j) s'"
      using I j assms(2) by (intro exI [of _ st2]) (auto simp: less_Suc_eq)
  qed (use assms(1) in auto)
  then show ?thesis by auto
qed

section \<open>Inversion\<close>

lemma find_pivot_ok:
  assumes "pair_ok n st" "i < n" "\<forall>j \<in> set js. i < j \<and> j < n" "unit_cols n i st" "\<not> mat (fst st) i i"
  shows "\<exists>st'. find_pivot n i js st = Inr st' \<and> pair_ok n st' \<and> unit_cols n i st' \<and>
     (mat (fst st') i i \<or> st' = st \<and> (\<forall>j \<in> set js. \<not> mat (fst st) j i)) \<and> (\<forall>x y. solved n x y st' = solved n x (y :: nat \<Rightarrow> 'a::len word) st)"
  using assms(3)
proof (induction js)
  case Nil
  then show ?case using assms by auto
next
  case (Cons j js)
  have j: "i < j" "j < n" using Cons.prems by auto
  show ?case
  proof (cases "mat (fst st) j i")
    case True
    from swap_in_ok [OF assms(1,2) j(2), where 'a = 'a]
    obtain st' where st': "swap_in n i j st = Inr st'" "pair_ok n st'" "\<forall>r < n. \<forall>c < n. mat (fst st') r c = swap_rows i j (\<lambda>r. mat (fst st) r c) r"
      "\<forall>x y. solved n x y st' = solved n x (y :: nat \<Rightarrow> 'a word) st" by blast
    have "unit_cols n i st'" "mat (fst st') i i"
      using st'(3) assms(2,4) j True by (auto simp: unit_cols_def swap_rows_def)
    then show ?thesis using st' True mtx_get_ok [of n "fst st" j i] assms(1,2) j by (auto simp: pair_ok_def)
  next
    case False
    then show ?thesis using Cons mtx_get_ok [of n "fst st" j i] assms(1,2) j by (auto simp: pair_ok_def)
  qed
qed

definition singular :: "nat \<Rightarrow> (nat \<Rightarrow> nat \<Rightarrow> bool) \<Rightarrow> 'a::len word itself \<Rightarrow> bool" where
  "singular n A _ \<longleftrightarrow> (\<exists>x :: nat \<Rightarrow> 'a word. (\<exists>c < n. x c \<noteq> 0) \<and> (\<forall>r < n. lin n A x r = 0))"

lemma no_pivot:
  assumes "i < n" "unit_cols n i st" "\<forall>j < n. i \<le> j \<longrightarrow> \<not> mat (fst st) j i"
  shows "singular n (mat (fst st)) TYPE('a::len word)"
proof -
  let ?A = "mat (fst st)"
  let ?x = "\<lambda>c. if c = i then 1 else if c < i then sel (?A c i) 1 else 0 :: 'a word"
  have "lin n ?A ?x r = 0" if "r < n" for r
  proof -
    have "sel (?A r c) (?x c) = (if c = i then sel (?A r i) 1 else 0) XOR (if c = r then sel (r < i) (sel (?A r i) 1) else 0)" if "c < n" for c
      using assms(2) \<open>r < n\<close> that by (auto simp: unit_cols_def sel_def)
    then have "lin n ?A ?x r = xorl (map (\<lambda>c. (if c = i then sel (?A r i) 1 else 0) XOR (if c = r then sel (r < i) (sel (?A r i) 1) else 0)) [0..<n])"
      unfolding lin_def by (intro xorl_cong) simp
    also have "\<dots> = sel (?A r i) 1 XOR sel (r < i) (sel (?A r i) 1)"
      using assms(1) \<open>r < n\<close> xorl_single [of "[0..<n]" i "\<lambda>_. sel (?A r i) (1 :: 'a word)"] xorl_single [of "[0..<n]" r "\<lambda>_. sel (r < i) (sel (?A r i) (1 :: 'a word))"]
      by (simp add: xorl_map_xor)
    also have "\<dots> = 0" using assms(3) that by (cases "r < i") auto
    finally show ?thesis .
  qed
  then show ?thesis unfolding singular_def using assms(1) by (intro exI [of _ ?x]) auto
qed

lemma singular_kernel:
  assumes "\<And>x y :: nat \<Rightarrow> 'a::len word. solved n x y st \<longleftrightarrow> (\<forall>r < n. lin n A x r = y r)"
  shows "singular n (mat (fst st)) TYPE('a word) \<longleftrightarrow> singular n A TYPE('a word)"
proof -
  have "lin n B (\<lambda>_. 0 :: 'a word) r = 0" for B r by (simp add: lin_def)
  then have "(\<forall>r < n. lin n (mat (fst st)) x r = 0) = (\<forall>r < n. lin n A x r = 0)" for x :: "nat \<Rightarrow> 'a word"
    using assms [of x "\<lambda>_. 0"] by (simp add: solved_def)
  then show ?thesis by (simp add: singular_def)
qed

lemma invert_loop_ok:
  assumes "pair_ok n st" "unit_cols n i st" "i \<le> n"
    and "\<And>x y :: nat \<Rightarrow> 'a::len word. solved n x y st \<longleftrightarrow> (\<forall>r < n. lin n A x r = y r)"
  shows "\<exists>Inv m'. invert_loop n [i..<n] st = Inr (Inv, m') \<and>
     (mtx_ok n Inv \<and> (\<forall>r < n. \<forall>c < n. mat m' r c = (r = c)) \<and>
       (\<forall>x y :: nat \<Rightarrow> 'a word. (\<forall>r < n. lin n A x r = y r) \<longleftrightarrow> (\<forall>r < n. x r = lin n (mat Inv) y r)) \<or>
      Inv = DenseMtx_empty \<and> singular n A TYPE('a word))"
  using assms
proof (induction "n - i" arbitrary: i st)
  case 0
  have "lin n (mat (fst st)) x r = x r" if "r < n" for x :: "nat \<Rightarrow> 'a word" and r
    using 0 that by (intro lin_unit) (auto simp: unit_cols_def)
  then show ?case using 0 by (auto simp: pair_ok_def unit_cols_def solved_def simp flip: 0(5))
next
  case (Suc d)
  have i: "i < n" "d = n - Suc i" using Suc(2) by simp_all
  have upt: "[i..<n] = i # [Suc i..<n]" using i by (simp add: upt_conv_Cons)
  note get = mtx_get_ok [of n, OF _ i(1) i(1)]
  have ex: "\<exists>st'. (if mat (fst st) i i then Inr st else find_pivot n i [i + 1..<n] st) = Inr st' \<and> pair_ok n st' \<and> unit_cols n i st' \<and>
      (mat (fst st') i i \<or> (\<forall>j < n. i \<le> j \<longrightarrow> \<not> mat (fst st') j i)) \<and> (\<forall>x y. solved n x y st' = solved n x (y :: nat \<Rightarrow> 'a word) st)"
  proof (cases "mat (fst st) i i")
    case False
    from find_pivot_ok [OF Suc(3) i(1) _ Suc(4) False, of "[i + 1..<n]", where 'a = 'a]
    obtain st' where "find_pivot n i [i + 1..<n] st = Inr st'" "pair_ok n st'" "unit_cols n i st'"
      "mat (fst st') i i \<or> st' = st \<and> (\<forall>j \<in> set [i + 1..<n]. \<not> mat (fst st) j i)" "\<forall>x y. solved n x y st' = solved n x (y :: nat \<Rightarrow> 'a word) st"
      by auto
    then show ?thesis using False by (intro exI [of _ st']) (auto simp: le_less)
  qed (use Suc in auto)
  then obtain st' where st': "(if mat (fst st) i i then Inr st else find_pivot n i [i + 1..<n] st) = Inr st'" "pair_ok n st'" "unit_cols n i st'"
    "mat (fst st') i i \<or> (\<forall>j < n. i \<le> j \<longrightarrow> \<not> mat (fst st') j i)" "\<forall>x y. solved n x y st' = solved n x (y :: nat \<Rightarrow> 'a word) st" by blast
  have loop: "invert_loop n [i..<n] st = (if \<not> mat (fst st') i i then Inr (DenseMtx_empty, fst st') else rbind (rfold (eliminate n i) [0..<n] st') (invert_loop n [Suc i..<n]))"
    using st'(1,2) Suc(3) get by (simp add: upt pair_ok_def)
  show ?case
  proof (cases "mat (fst st') i i")
    case True
    from eliminate_all [OF st'(2) i(1) True, where 'a = 'a]
    obtain st2 where st2: "rfold (eliminate n i) [0..<n] st' = Inr st2" "pair_ok n st2"
      "\<forall>r < n. \<forall>c < n. mat (fst st2) r c = (if r \<noteq> i \<and> mat (fst st') r i then mat (fst st') r c \<noteq> mat (fst st') i c else mat (fst st') r c)"
      "\<forall>x y. solved n x y st2 = solved n x (y :: nat \<Rightarrow> 'a word) st'" by blast
    have "unit_cols n (Suc i) st2" using st2(3) st'(3) True i(1) by (auto simp: unit_cols_def less_Suc_eq)
    then show ?thesis
      using Suc.hyps(1) [OF i(2) st2(2), of] st2(1,4) st'(5) i(1) Suc(6) loop True by simp
  next
    case False
    then have "singular n (mat (fst st')) TYPE('a word)" using st'(4) by (intro no_pivot [OF i(1) st'(3)]) auto
    then have "singular n A TYPE('a word)" using singular_kernel [of n st' A, where 'a = 'a] st'(5) Suc(6) by simp
    then show ?thesis using loop False by simp
  qed
qed

lemma Identity_ok: "\<exists>m. DenseMtx_Identity n = Inr m \<and> mtx_ok n m \<and> (\<forall>r < n. \<forall>c < n. mat m r c = (r = c))"
proof -
  have "\<exists>m. rfold (\<lambda>i m. mtx_set i i True m) [0..<n] (DenseMtx_new n n) = Inr m \<and> (mtx_ok n m \<and> (\<forall>r < n. \<forall>c < n. mat m r c = (r = c \<and> r < n)))"
  proof (rule rfold_upt_inv [where I = "\<lambda>i m. mtx_ok n m \<and> (\<forall>r < n. \<forall>c < n. mat m r c = (r = c \<and> r < i))"])
    fix i m assume "i < n" "mtx_ok n m \<and> (\<forall>r < n. \<forall>c < n. mat m r c = (r = c \<and> r < i))"
    then show "\<exists>s'. mtx_set i i True m = Inr s' \<and> (mtx_ok n s' \<and> (\<forall>r < n. \<forall>c < n. mat s' r c = (r = c \<and> r < Suc i)))"
      using mtx_set_ok [of n m i i True] by (auto simp: less_Suc_eq)
  qed (use mtx_new_ok in auto)
  then show ?thesis by (auto simp: DenseMtx_Identity_def)
qed

lemma Invert_ok:
  assumes "mtx_ok n m"
  shows "\<exists>Inv m'. DenseMtx_Invert m = Inr (Inv, m') \<and>
     (mtx_ok n Inv \<and> (\<forall>r < n. \<forall>c < n. mat m' r c = (r = c)) \<and>
       (\<forall>x y :: nat \<Rightarrow> 'a::len word. (\<forall>r < n. lin n (mat m) x r = y r) \<longleftrightarrow> (\<forall>r < n. x r = lin n (mat Inv) y r)) \<or>
      Inv = DenseMtx_empty \<and> singular n (mat m) TYPE('a word))"
proof -
  obtain I where I: "DenseMtx_Identity n = Inr I" "mtx_ok n I" "\<forall>r < n. \<forall>c < n. mat I r c = (r = c)" using Identity_ok by blast
  have "lin n (mat I) y r = y r" if "r < n" for y :: "nat \<Rightarrow> 'a word" and r using I(3) that by (intro lin_unit) auto
  then have "solved n x y (m, I) \<longleftrightarrow> (\<forall>r < n. lin n (mat m) x r = y r)" for x y :: "nat \<Rightarrow> 'a word"
    by (simp add: solved_def)
  then show ?thesis
    using invert_loop_ok [of n "(m, I)" 0 "mat m", where 'a = 'a] assms I
    by (auto simp: DenseMtx_Invert_def pair_ok_def unit_cols_def) (auto simp: mtx_ok_def)
qed

text \<open>
  C30. Inversion of a square bit matrix never fails. Either the result is the inverse: a vector of words solves a linear system with the
  matrix iff it is the product of the result with the right-hand side, and the matrix itself, which the method
  declares constant, has been overwritten with the identity; or the result is the empty matrix and the matrix is singular.
\<close>

theorem DenseMtx_Invert_correct:
  assumes "mtx_ok n m" "0 < n"
  shows "\<exists>Inv m'. DenseMtx_Invert m = Inr (Inv, m') \<and>
     (if dm_bit_rows Inv = n
      then (\<forall>x y :: nat \<Rightarrow> 'a::len word. (\<forall>r < n. lin n (mat m) x r = y r) \<longleftrightarrow> (\<forall>r < n. x r = lin n (mat Inv) y r)) \<and>
           (\<forall>r < n. \<forall>c < n. mat m' r c = (r = c))
      else \<exists>x :: nat \<Rightarrow> 'a word. (\<exists>c < n. x c \<noteq> 0) \<and> (\<forall>r < n. lin n (mat m) x r = 0))"
proof -
  obtain Inv m' where "DenseMtx_Invert m = Inr (Inv, m')" "mtx_ok n Inv \<and> (\<forall>r < n. \<forall>c < n. mat m' r c = (r = c)) \<and>
       (\<forall>x y :: nat \<Rightarrow> 'a word. (\<forall>r < n. lin n (mat m) x r = y r) \<longleftrightarrow> (\<forall>r < n. x r = lin n (mat Inv) y r)) \<or>
      Inv = DenseMtx_empty \<and> singular n (mat m) TYPE('a word)"
    using Invert_ok [OF assms(1), where 'a = 'a] by blast
  then show ?thesis using assms(2) by (intro exI [of _ Inv] exI [of _ m']) (auto simp: singular_def DenseMtx_empty_def mtx_ok_def)
qed

theorem DenseMtx_Invert_correct_witness:
  "\<exists>Inv m'. DenseMtx_Invert \<lparr> dm_data = [3, 2], dm_bit_rows = 2, dm_rows = 1, dm_cols = 2 \<rparr> = Inr (Inv, m') \<and>
     (\<forall>r < 2. \<forall>c < 2. mat m' r c = (r = c))"
proof -
  let ?m = "\<lparr> dm_data = [3, 2], dm_bit_rows = 2, dm_rows = 1, dm_cols = 2 \<rparr>"
  have ok: "mtx_ok 2 ?m" by (simp add: mtx_ok_def)
  have "map_sum id (dm_bit_rows \<circ> fst) (DenseMtx_Invert ?m) = Inr 2" by code_simp
  then show ?thesis using DenseMtx_Invert_correct [OF ok, where 'a = 8] by auto
qed

end
