(* ===== verification/Paxos.thy ===== *)
theory Paxos
  imports Paxos_Hash Weight_Data Dense_Mtx
begin

text \<open>
  \<open>psi/algorithm/rr22/okvs/paxos.cc\<close>: the oblivious key-value store \<open>Paxos\<close>. Every key has a row with \<open>weight\<close> sparse columns and a dense part;
  encoding finds a vector whose product with the row of each key is its value, decoding multiplies. Encoding first orders rows
  and columns so that the sparse part becomes triangular (\<open>Triangulate\<close>), with a few rows left over (the gap), solves for the dense
  columns by inverting a small matrix, and then substitutes back.

  Vectors of 64-bit and 128-bit values are handled by the same definitions, for which the code has two copies: \<open>MultAdd_mul\<close> is the
  product of a value with an element of the field that \<open>MultAdd\<close> of the helper classes uses. The random generator is given by the values it writes, as functions of the place. \<open>None\<close> as
  the outcome of an operation is a run that does not end.
\<close>

section \<open>Data\<close>

text \<open>The product of a value with an element of the field, cut to the width of the value.\<close>

definition MultAdd_mul :: "bool \<Rightarrow> 'a::len word \<Rightarrow> 128 word \<Rightarrow> 'a word" where
  "MultAdd_mul avx2 v m = ucast (Galois128_Mul avx2 (ucast v) m)"

datatype DenseType = Binary | GF128

record PaxosParam =
  sparse_size :: nat
  dense_size :: nat
  px_weight :: nat
  px_g :: nat
  px_dt :: DenseType

definition px_size :: "('m) PaxosParam_scheme \<Rightarrow> nat" where
  "px_size p = sparse_size p + dense_size p"

record Paxos = PaxosParam +
  px_num_items :: nat
  px_hasher :: PaxosHash
  px_dense :: "128 word list"
  px_rows :: "nat list list"
  px_cols :: "(nat \<times> nat) list"
  px_col_backing :: "nat list"
  px_weight_sets :: WeightData
  px_add_to_decode :: bool

definition Paxos_new :: Paxos where
  "Paxos_new = \<lparr> sparse_size = 0, dense_size = 0, px_weight = 0, px_g = 0, px_dt = GF128, px_num_items = 0,
     px_hasher = \<lparr> ph_weight = 0, ph_sparse_size = 0, ph_encrypt = id \<rparr>, px_dense = [], px_rows = [], px_cols = [],
     px_col_backing = [], px_weight_sets = \<lparr> weight_sets = [], nodes = [] \<rparr>, px_add_to_decode = False \<rparr>"

text \<open>\<open>idx_bits\<close> is the width of the index type. An object may be initialised again; its vectors are not touched.\<close>

definition set_param :: "PaxosParam \<Rightarrow> Paxos \<Rightarrow> Paxos" where
  "set_param par q = q \<lparr> sparse_size := sparse_size par, dense_size := dense_size par, px_weight := px_weight par, px_g := px_g par, px_dt := px_dt par \<rparr>"

definition Paxos_Init :: "nat \<Rightarrow> (128 word \<Rightarrow> 128 word) \<Rightarrow> nat \<Rightarrow> PaxosParam \<Rightarrow> Paxos \<Rightarrow> Paxos result" where
  "Paxos_Init idx_bits encrypt num_items p q =
     rbind (enforce (sparse_size p < 2 ^ idx_bits - 1) ''the size of the paxos is too large for the index type'') (\<lambda>_.
     rbind (enforce (num_items \<le> px_size p) ''p.sparse_size + p.dense_size should greater than num_items'') (\<lambda>_.
     rbind (PaxosHash_init encrypt (px_weight p) (of_nat (sparse_size p))) (\<lambda>h.
     Inr ((set_param p q) \<lparr> px_num_items := num_items mod 2 ^ idx_bits, px_hasher := h \<rparr>))))"

section \<open>Setting the keys\<close>

definition count_col :: "nat \<Rightarrow> nat list \<Rightarrow> nat list result" where
  "count_col c col_weights = rbind (at col_weights c) (\<lambda>w. set_at col_weights c (w + 1))"

definition push_col :: "nat \<Rightarrow> nat \<Rightarrow> (nat \<times> nat) list \<times> nat list \<Rightarrow> ((nat \<times> nat) list \<times> nat list) result" where
  "push_col i c = (\<lambda>(cols, backing). rbind (at cols c) (\<lambda>(d, s). rbind (set_at backing (d + s) i) (\<lambda>b. Inr (cols[c := (d, s + 1)], b))))"

definition push_row3 :: "nat \<Rightarrow> nat \<Rightarrow> nat \<Rightarrow> nat \<Rightarrow> (nat \<times> nat) list \<times> nat list \<Rightarrow> ((nat \<times> nat) list \<times> nat list) result" where
  "push_row3 i r0 r1 r2 = (\<lambda>(cols, backing).
     rbind (at cols r0) (\<lambda>(d0, s0). rbind (at cols r1) (\<lambda>(d1, s1). rbind (at cols r2) (\<lambda>(d2, s2).
     let cols' = cols[r0 := (d0, s0 + 1), r1 := (d1, s1 + 1), r2 := (d2, s2 + 1)]
     in rbind (set_at backing (d0 + s0) i) (\<lambda>b. rbind (set_at b (d1 + s1) i) (\<lambda>b. rbind (set_at b (d2 + s2) i) (\<lambda>b.
        Inr (cols', b))))))))"

definition push_row :: "nat \<Rightarrow> nat list list \<Rightarrow> nat \<Rightarrow> (nat \<times> nat) list \<times> nat list \<Rightarrow> ((nat \<times> nat) list \<times> nat list) result" where
  "push_row weight rows i st =
     rbind (at rows i) (\<lambda>row.
     if weight = 3
     then rbind (at row 0) (\<lambda>c0. rbind (at row 1) (\<lambda>c1. rbind (at row 2) (\<lambda>c2. push_row3 i c0 c1 c2 st)))
     else rfold (\<lambda>j st. rbind (at row j) (\<lambda>c. push_col i c st)) [0..<weight] st)"

definition RebuildColumns :: "nat list \<Rightarrow> nat \<Rightarrow> Paxos \<Rightarrow> Paxos result" where
  "RebuildColumns col_weights total_weight p =
     rbind (enforce (length (px_col_backing p) = total_weight) ''col_backing_.size() == total_weight'') (\<lambda>_.
     rbind (enforce (sum_list (take (sparse_size p) col_weights) = length (px_col_backing p)) ''col_iter'') (\<lambda>_.
     rbind (rfold (push_row (px_weight p) (px_rows p)) [0..<px_num_items p]
              (map (\<lambda>i. (sum_list (take i col_weights), 0)) [0..<sparse_size p], px_col_backing p)) (\<lambda>(cols, backing).
     Inr (p \<lparr> px_cols := cols, px_col_backing := backing \<rparr>))))"

definition kPaxosBuildRowSize :: nat where "kPaxosBuildRowSize = 32"

definition resize :: "nat \<Rightarrow> 'a \<Rightarrow> 'a list \<Rightarrow> 'a list" where
  "resize n x xs = take n xs @ replicate (n - length xs) x"

definition build_rows :: "bool \<Rightarrow> PaxosHash \<Rightarrow> nat \<Rightarrow> 128 word list \<Rightarrow> (nat list list \<times> 128 word list) result" where
  "build_rows avx2 h num_items inputs =
     (let blocks = length inputs div kPaxosBuildRowSize; main = blocks * kPaxosBuildRowSize
      in rbind (rmap (\<lambda>b. HashBuildRow32 avx2 h (take kPaxosBuildRowSize (drop (b * kPaxosBuildRowSize) inputs))) [0..<blocks]) (\<lambda>rs.
         rbind (rmap (\<lambda>i. rbind (at inputs i) (HashBuildRow1 avx2 h)) [main..<num_items]) (\<lambda>rest.
         Inr (concat (map fst rs) @ map fst rest, concat (map snd rs) @ map snd rest))))"

definition Paxos_SetInput :: "bool \<Rightarrow> 128 word list \<Rightarrow> Paxos \<Rightarrow> Paxos result" where
  "Paxos_SetInput avx2 inputs p =
     rbind (enforce (length inputs \<le> px_num_items p) ''inputs size must equal num_items'') (\<lambda>_.
     rbind (build_rows avx2 (px_hasher p) (px_num_items p) inputs) (\<lambda>(rows, dense).
     rbind (rfold count_col (concat rows) (replicate (sparse_size p) 0)) (\<lambda>col_weights.
     rbind (RebuildColumns col_weights (px_weight p * px_num_items p)
       (p \<lparr> px_rows := rows, px_dense := dense, px_col_backing := resize (px_num_items p * px_weight p) 0 (px_col_backing p) \<rparr>)) (\<lambda>p'.
     rbind (WeightData_init col_weights (px_weight_sets p')) (\<lambda>wd. Inr (p' \<lparr> px_weight_sets := wd \<rparr>))))))"

text \<open>The rows computed elsewhere (\<open>Baxos\<close>).\<close>

definition Paxos_SetInput_rows :: "nat list list \<Rightarrow> 128 word list \<Rightarrow> (nat \<times> nat) list \<Rightarrow> nat list \<Rightarrow> nat list \<Rightarrow> Paxos \<Rightarrow> Paxos result" where
  "Paxos_SetInput_rows rows dense cols col_backing col_weights p =
     rbind (enforce (length rows = px_num_items p \<and> length dense = px_num_items p) ''rows'') (\<lambda>_.
     rbind (enforce (list_all (\<lambda>row. length row = px_weight p) rows) ''rows.cols() == weight'') (\<lambda>_.
     rbind (enforce (length cols = sparse_size p) ''cols.size() == sparse_size'') (\<lambda>_.
     rbind (enforce (length col_backing = px_num_items p * px_weight p) ''col_backing.size()'') (\<lambda>_.
     rbind (enforce (length col_weights = sparse_size p) ''col_weights.size()'') (\<lambda>_.
     rbind (RebuildColumns col_weights (px_weight p * px_num_items p) (p \<lparr> px_rows := rows, px_dense := dense, px_cols := cols, px_col_backing := col_backing \<rparr>)) (\<lambda>p'.
     rbind (WeightData_init col_weights (px_weight_sets p')) (\<lambda>wd. Inr (p' \<lparr> px_weight_sets := wd \<rparr>))))))))"

section \<open>Triangulation\<close>

record TriState =
  ts_wd :: WeightData
  ts_row_set :: "bool list"
  ts_first :: bool
  ts_main_rows :: "nat list"
  ts_main_cols :: "nat list"
  ts_gap_rows :: "(nat \<times> nat) list"

definition column :: "Paxos \<Rightarrow> nat \<Rightarrow> nat list result" where
  "column p c = rbind (at (px_cols p) c) (\<lambda>(d, s). Inr (take s (drop d (px_col_backing p))))"

definition tri_dec :: "nat \<Rightarrow> WeightData \<Rightarrow> WeightData result" where
  "tri_dec c wd = rbind (at (nodes wd) c) (\<lambda>node. if wn_weight node \<noteq> 0 then DecementWeight c wd else Inr wd)"

definition tri_row :: "Paxos \<Rightarrow> nat \<Rightarrow> nat \<Rightarrow> TriState \<Rightarrow> TriState result" where
  "tri_row p col_idx row_idx ts =
     rbind (at (ts_row_set ts) row_idx) (\<lambda>b.
     if b then Inr ts
     else rbind (at (px_rows p) row_idx) (\<lambda>row.
          rbind (rfold tri_dec row (ts_wd ts)) (\<lambda>wd.
          let ts = ts \<lparr> ts_wd := wd, ts_row_set := (ts_row_set ts)[row_idx := True] \<rparr>
          in if ts_first ts
             then Inr (ts \<lparr> ts_main_cols := ts_main_cols ts @ [col_idx], ts_main_rows := ts_main_rows ts @ [row_idx], ts_first := False \<rparr>)
             else rbind (at (px_dense p) (last (ts_main_rows ts))) (\<lambda>d. rbind (at (px_dense p) row_idx) (\<lambda>d'.
                  rbind (enforce (d \<noteq> d') ''Paxos error, Duplicate keys were detected'') (\<lambda>_.
                  Inr (ts \<lparr> ts_gap_rows := ts_gap_rows ts @ [(row_idx, last (ts_main_rows ts))] \<rparr>)))))))"

definition tri_step :: "Paxos \<Rightarrow> TriState \<Rightarrow> TriState result" where
  "tri_step p ts =
     rbind (GetMinWeightNode (ts_wd ts)) (\<lambda>col_idx.
     rbind (PopNode col_idx (ts_wd ts)) (\<lambda>wd.
     rbind (column p col_idx) (\<lambda>rows.
     rbind (rfold (tri_row p col_idx) rows (ts \<lparr> ts_wd := wd \<lparr> nodes := set_weight col_idx 0 (nodes wd) \<rparr>, ts_first := True \<rparr>)) (\<lambda>ts'.
     rbind (enforce (\<not> ts_first ts') ''first'') (\<lambda>_. Inr ts')))))"

partial_function (option) tri_loop :: "Paxos \<Rightarrow> TriState \<Rightarrow> TriState result option" where
  [code]: "tri_loop p ts =
     (if length (weight_sets (ts_wd ts)) > 1
      then (case tri_step p ts of Inl e \<Rightarrow> Some (Inl e) | Inr ts' \<Rightarrow> tri_loop p ts')
      else Some (Inr ts))"

definition Triangulate :: "Paxos \<Rightarrow> TriState result option" where
  "Triangulate p =
     (case (if length (weight_sets (px_weight_sets p)) \<le> 1
            then WeightData_init (map snd (px_cols p)) (px_weight_sets p) else Inr (px_weight_sets p)) of
        Inl e \<Rightarrow> Some (Inl e)
      | Inr wd \<Rightarrow> tri_loop p \<lparr> ts_wd = wd, ts_row_set = replicate (px_num_items p) False, ts_first = True,
                    ts_main_rows = [], ts_main_cols = [], ts_gap_rows = [] \<rparr>)"


section \<open>The rows of \<open>F C\<^sup>-\<^sup>1\<close>\<close>

definition invert_row_idx :: "nat \<Rightarrow> nat \<Rightarrow> nat" where
  "invert_row_idx m i = m - i - 1"

text \<open>\<open>IdxType(-1)\<close> is \<open>None\<close>.\<close>

definition col_mapping :: "nat \<Rightarrow> nat list \<Rightarrow> nat option list result" where
  "col_mapping n main_cols =
     rfold (\<lambda>i cm. rbind (at main_cols (invert_row_idx (length main_cols) i)) (\<lambda>c. set_at cm c (Some i)))
       [0..<length main_cols] (replicate n None)"

text \<open>The ordered set of the code as the list of its elements, the largest first.\<close>

fun set_insert :: "nat \<Rightarrow> nat list \<Rightarrow> nat list" where
  "set_insert x [] = [x]"
| "set_insert x (y # ys) = (if x = y then y # ys else if y < x then x # y # ys else y # set_insert x ys)"

definition set_toggle :: "nat \<Rightarrow> nat list \<Rightarrow> nat list" where
  "set_toggle x row = (if x \<in> set row then remove1 x row else set_insert x row)"

definition fc_start :: "nat option list \<Rightarrow> nat list \<Rightarrow> nat list result" where
  "fc_start cm row1 =
     rfold (\<lambda>c1 row. rbind (at cm c1) (\<lambda>v. Inr (case v of None \<Rightarrow> row | Some k \<Rightarrow> set_insert k row))) row1 []"

definition fc_cancel :: "nat option list \<Rightarrow> nat \<Rightarrow> nat \<Rightarrow> nat list \<Rightarrow> nat list result" where
  "fc_cancel cm CCol HCol row =
     rbind (at cm HCol) (\<lambda>v. case v of None \<Rightarrow> Inr row | Some CCol2 \<Rightarrow>
       rbind (enforce (CCol2 \<le> CCol) ''CCol2 <= CCol'') (\<lambda>_. Inr (set_toggle CCol2 row)))"

definition fc_step :: "nat list list \<Rightarrow> nat list \<Rightarrow> nat option list \<Rightarrow> nat \<Rightarrow> nat list \<Rightarrow> (nat \<times> nat list) result" where
  "fc_step rows main_rows cm CCol row =
     rbind (at main_rows (invert_row_idx (length main_rows) CCol)) (\<lambda>HRow.
     rbind (at rows HRow) (\<lambda>hcols.
     rbind (rfold (fc_cancel cm CCol) hcols row) (\<lambda>row'.
     rbind (enforce (row' = [] \<or> hd row' \<noteq> CCol) ''row.begin()'') (\<lambda>_. Inr (HRow, row')))))"

partial_function (option) fc_loop :: "nat list list \<Rightarrow> nat list \<Rightarrow> nat option list \<Rightarrow> nat list \<Rightarrow> nat list \<Rightarrow> nat list result option" where
  [code]: "fc_loop rows main_rows cm row ret =
     (case row of [] \<Rightarrow> Some (Inr ret)
      | CCol # _ \<Rightarrow> (case fc_step rows main_rows cm CCol row of
            Inl e \<Rightarrow> Some (Inl e)
          | Inr (HRow, row') \<Rightarrow> fc_loop rows main_rows cm row' (ret @ [HRow])))"

definition fc_row :: "Paxos \<Rightarrow> nat list \<Rightarrow> nat list \<Rightarrow> nat \<times> nat \<Rightarrow> nat list result option" where
  "fc_row p main_rows main_cols = (\<lambda>(gap, main).
     obind (Some (rbind (at (px_rows p) gap) (\<lambda>r0. rbind (at (px_rows p) main) (\<lambda>r1. Inr (r0, r1))))) (\<lambda>(r0, r1).
     if r0 = r1 then Some (Inr [main])
     else obind (Some (col_mapping (px_size p) main_cols)) (\<lambda>cm.
          obind (Some (fc_start cm r0)) (\<lambda>row. fc_loop (px_rows p) main_rows cm row []))))"

definition GetFCInv :: "Paxos \<Rightarrow> nat list \<Rightarrow> nat list \<Rightarrow> (nat \<times> nat) list \<Rightarrow> nat list list result option" where
  "GetFCInv p main_rows main_cols gap_rows = omap (fc_row p main_rows main_cols) gap_rows"

section \<open>Dense columns for the gap\<close>

fun Choose :: "64 word \<Rightarrow> nat \<Rightarrow> 64 word" where
  "Choose n 0 = 1"
| "Choose n (Suc k) = (n * Choose (n - 1) k) div of_nat (Suc k)"

text \<open>The inner loop of \<open>ithCombination\<close>. The divisor \<open>n\<close> was not zero before the loop.\<close>

fun comb_while :: "64 word \<Rightarrow> nat \<Rightarrow> nat \<Rightarrow> 64 word \<Rightarrow> 64 word \<Rightarrow> (nat \<times> 64 word \<times> 64 word) result" where
  "comb_while index kk n cur_index nCk =
     (if index < cur_index - nCk
      then let nCk' = nCk * (of_nat n - of_nat kk); nCk'' = nCk' - nCk' mod of_nat kk
           in (case n of Suc (Suc n') \<Rightarrow> comb_while index kk (Suc n') (cur_index - nCk) (nCk'' div of_nat (Suc n'))
               | _ \<Rightarrow> Inl (Undefined ''division by zero''))
      else Inr (n, cur_index, nCk))"

declare comb_while.simps [simp del]

definition comb_step :: "64 word \<Rightarrow> nat \<Rightarrow> nat \<times> 64 word \<times> 64 word \<times> nat list \<Rightarrow> (nat \<times> 64 word \<times> 64 word \<times> nat list) result" where
  "comb_step index kk = (\<lambda>(n, cur_index, nCk, cols).
     if n = 0 then Inl (Undefined ''division by zero'')
     else rbind (comb_while index kk n cur_index (nCk * of_nat kk div of_nat n)) (\<lambda>(n', cur_index', nCk').
          rbind (set_at cols (kk - 1) (n' - 1)) (\<lambda>cols'. Inr (n' - 1, cur_index', nCk', cols'))))"

definition ithCombination :: "64 word \<Rightarrow> nat \<Rightarrow> nat \<Rightarrow> nat list result" where
  "ithCombination index n k =
     (let nCk = fold (\<lambda>i nCk. nCk * (of_nat n - of_nat i) div of_nat (i + 1)) [0..<k] 1
      in rbind (rfold (comb_step index) (rev [1..<Suc k]) (n, nCk, nCk, replicate k 0)) (\<lambda>(_, _, _, cols). Inr cols))"

definition bit_at :: "128 word \<Rightarrow> nat \<Rightarrow> bool result" where
  "bit_at w i = (if i < 128 then Inr (bit w i) else Inl (Undefined ''index''))"

definition ee_row :: "Paxos \<Rightarrow> nat list \<Rightarrow> nat \<times> nat \<Rightarrow> 128 word result" where
  "ee_row p fc gap =
     rbind (rfold (\<lambda>c x. rbind (at (px_dense p) c) (\<lambda>d. Inr (x XOR d))) fc 0) (\<lambda>FCB.
     rbind (at (px_dense p) (fst gap)) (\<lambda>d. Inr (d XOR FCB)))"

definition eprime_row :: "Paxos \<Rightarrow> nat list \<Rightarrow> nat \<times> nat \<Rightarrow> 128 word result" where
  "eprime_row p fc gap =
     rbind (at (px_dense p) (fst gap)) (\<lambda>EERow. rfold (\<lambda>j x. rbind (at (px_dense p) j) (\<lambda>d. Inr (x XOR d))) fc EERow)"

definition ee_fill :: "(nat list \<Rightarrow> nat \<times> nat \<Rightarrow> 128 word result) \<Rightarrow> nat list list \<Rightarrow> (nat \<times> nat) list \<Rightarrow> nat list \<Rightarrow> DenseMtx \<Rightarrow> DenseMtx result" where
  "ee_fill eerow fcinv gap_rows gap_cols EE =
     (let g = length gap_rows in
      rfold (\<lambda>i EE. rbind (at fcinv i) (\<lambda>fc. rbind (at gap_rows i) (\<lambda>gap. rbind (eerow fc gap) (\<lambda>EERow.
        rfold (\<lambda>j EE. rbind (at gap_cols j) (\<lambda>c. rbind (bit_at EERow c) (\<lambda>b. mtx_set i j b EE))) [0..<g] EE)))) [0..<g] EE)"

partial_function (option) gap_loop ::
  "Paxos \<Rightarrow> nat list list \<Rightarrow> (nat \<times> nat) list \<Rightarrow> 64 word \<Rightarrow> 64 word \<Rightarrow> DenseMtx \<Rightarrow> nat list result option" where
  [code]: "gap_loop p fcinv gap_rows e ci EE =
     (case rbind (ithCombination ci (dense_size p) (length gap_rows)) (\<lambda>gap_cols.
           rbind (enforce (ci + 1 \<le> e) ''failed to find invertible matrix'') (\<lambda>_.
           rbind (ee_fill (ee_row p) fcinv gap_rows gap_cols (DenseMtx_resize (length gap_rows) (length gap_rows) EE)) (\<lambda>EE1.
           rbind (DenseMtx_Invert EE1) (\<lambda>(EEInv, EE2). Inr (gap_cols, EEInv, EE2))))) of
        Inl err \<Rightarrow> Some (Inl err)
      | Inr (gap_cols, EEInv, EE2) \<Rightarrow>
          if dm_bit_rows EEInv \<noteq> 0 then Some (Inr gap_cols) else gap_loop p fcinv gap_rows e (ci + 1) EE2)"

definition GetGapCols :: "Paxos \<Rightarrow> nat list list \<Rightarrow> (nat \<times> nat) list \<Rightarrow> nat list result option" where
  "GetGapCols p fcinv gap_rows =
     (if gap_rows = [] then Some (Inr [])
      else gap_loop p fcinv gap_rows (Choose (of_nat (dense_size p)) (length gap_rows)) 0 DenseMtx_empty)"

definition GetEPrime :: "Paxos \<Rightarrow> nat list list \<Rightarrow> (nat \<times> nat) list \<Rightarrow> nat list \<Rightarrow> DenseMtx result" where
  "GetEPrime p fcinv gap_rows gap_cols =
     ee_fill (eprime_row p) fcinv gap_rows gap_cols (DenseMtx_new (length gap_rows) (length gap_rows))"

section \<open>Back substitution\<close>

text \<open>The random values by their place: cells of the output, the matrix and the right-hand side of the gap.\<close>

record 'v Rand =
  rd_cell :: "nat \<Rightarrow> 'v"
  rd_ee :: "nat \<Rightarrow> 128 word"
  rd_xx :: "nat \<Rightarrow> 'v"

definition add_at :: "'a::len word list \<Rightarrow> nat \<Rightarrow> 'a word \<Rightarrow> 'a word list result" where
  "add_at v i x = rbind (at v i) (\<lambda>y. set_at v i (y XOR x))"

definition add_cell :: "'a::len word list \<Rightarrow> nat \<Rightarrow> 'a word \<Rightarrow> 'a word result" where
  "add_cell v j x = rbind (at v j) (\<lambda>y. Inr (x XOR y))"

definition x2_gap :: "Paxos \<Rightarrow> nat list list \<Rightarrow> (nat \<times> nat) list \<Rightarrow> 'a::len word list \<Rightarrow> nat \<Rightarrow> 'a word result" where
  "x2_gap p fcinv gap_rows X i =
     rbind (at gap_rows i) (\<lambda>gap. rbind (at X (fst gap)) (\<lambda>x. rbind (at fcinv i) (\<lambda>fc. rfold (add_cell X) fc x)))"

definition x2_dense ::
  "Paxos \<Rightarrow> nat list list \<Rightarrow> (nat \<times> nat) list \<Rightarrow> 'a::len word list \<Rightarrow> nat \<Rightarrow> nat \<Rightarrow> 'a word list \<Rightarrow> 'a word list result" where
  "x2_dense p fcinv gap_rows P i j xx2 =
     rbind (at gap_rows j) (\<lambda>gap. rbind (at fcinv j) (\<lambda>fc. rbind (eprime_row p fc gap) (\<lambda>dense. rbind (bit_at dense i) (\<lambda>b.
     if b then rbind (at P (sparse_size p + i)) (add_at xx2 j) else Inr xx2))))"

definition GetX2Prime ::
  "Paxos \<Rightarrow> nat list list \<Rightarrow> (nat \<times> nat) list \<Rightarrow> nat list \<Rightarrow> 'a::len word list \<Rightarrow> 'a word list \<Rightarrow> 'a word list result" where
  "GetX2Prime p fcinv gap_rows gap_cols X P =
     (let g = length gap_rows in
      rbind (enforce (length X = px_num_items p) ''X.size() == num_items_'') (\<lambda>_.
      rbind (rmap (x2_gap p fcinv gap_rows X) [0..<g]) (\<lambda>xx2.
      if P = [] then Inr xx2
      else rbind (enforce (length P = dense_size p + sparse_size p) ''P.size()'') (\<lambda>_.
           rfold (\<lambda>i xx2. if i \<in> set gap_cols then Inr xx2 else rfold (x2_dense p fcinv gap_rows P i) [0..<g] xx2) [0..<dense_size p] xx2))))"

definition RandomizeDenseCols :: "Paxos \<Rightarrow> nat list \<Rightarrow> 'a word Rand \<Rightarrow> 'a::len word list \<Rightarrow> 'a word list result" where
  "RandomizeDenseCols p gap_cols r =
     rfold (\<lambda>i P. if i \<in> set gap_cols then Inr P else set_at P (sparse_size p + i) (rd_cell r (sparse_size p + i))) [0..<dense_size p]"

definition randomize_dense :: "Paxos \<Rightarrow> 'a word Rand \<Rightarrow> 'a::len word list \<Rightarrow> 'a word list result" where
  "randomize_dense p r P =
     rfold (\<lambda>i P. set_at P (sparse_size p + i) (rd_cell r (sparse_size p + i))) [0..<length P - sparse_size p] P"

text \<open>One row of \<open>C\<close>; \<open>dense_part i P y\<close> adds the dense part of row \<open>i\<close> to \<open>y\<close>.\<close>

definition backfill_row ::
  "Paxos \<Rightarrow> (nat \<Rightarrow> 'a::len word list \<Rightarrow> 'a word \<Rightarrow> 'a word result) \<Rightarrow> 'a word list \<Rightarrow> nat \<times> nat \<Rightarrow> 'a word list \<Rightarrow> 'a word list result" where
  "backfill_row p dense_part X = (\<lambda>(i, c) P.
     rbind (at X i) (\<lambda>y. rbind (at (px_rows p) i) (\<lambda>row.
     rbind (rfold (add_cell P) row y) (\<lambda>y. rbind (dense_part i P y) (\<lambda>y. set_at P c y)))))"

definition backfill_main ::
  "Paxos \<Rightarrow> (nat \<Rightarrow> 'a::len word list \<Rightarrow> 'a word \<Rightarrow> 'a word result) \<Rightarrow> 'a word list \<Rightarrow> nat list \<Rightarrow> nat list \<Rightarrow> 'a word list \<Rightarrow> 'a word list result" where
  "backfill_main p dense_part X main_rows main_cols = rfold (backfill_row p dense_part X) (rev (zip main_rows main_cols))"

text \<open>The dense part with random dense columns, and with those of the gap only.\<close>

definition binary_dense_all :: "Paxos \<Rightarrow> nat \<Rightarrow> 'a::len word list \<Rightarrow> 'a word \<Rightarrow> 'a word result" where
  "binary_dense_all p i P y =
     rbind (at (px_dense p) i) (\<lambda>d.
     rbind (rfold (\<lambda>j (d, y). rbind (if d AND 1 \<noteq> 0 then add_cell P (sparse_size p + j) y else Inr y) (\<lambda>y. Inr (drop_bit 1 d, y)))
       [0..<dense_size p] (low64 d, y)) (\<lambda>(_, y). Inr y))"

definition binary_dense_gap :: "Paxos \<Rightarrow> nat list \<Rightarrow> 64 word list \<Rightarrow> nat \<Rightarrow> 'a::len word list \<Rightarrow> 'a word \<Rightarrow> 'a word result" where
  "binary_dense_gap p gap_cols dense_masks i P =
     rfold (\<lambda>j y. rbind (at (px_dense p) i) (\<lambda>d. rbind (at dense_masks j) (\<lambda>mask.
       if low64 d AND mask \<noteq> 0 then rbind (at gap_cols j) (\<lambda>c. add_cell P (sparse_size p + c) y) else Inr y)))
       [0..<length dense_masks]"

definition binary_dense ::
  "Paxos \<Rightarrow> bool \<Rightarrow> nat list \<Rightarrow> 64 word list \<Rightarrow> nat \<Rightarrow> 'a::len word list \<Rightarrow> 'a word \<Rightarrow> 'a word result" where
  "binary_dense p prng gap_cols dense_masks i P y =
     rbind (enforce (dense_size p \<le> 64) ''dense_size <= 64'') (\<lambda>_.
     if prng then binary_dense_all p i P y else binary_dense_gap p gap_cols dense_masks i P y)"

definition binary_solve :: "Paxos \<Rightarrow> nat list \<Rightarrow> DenseMtx \<Rightarrow> 'a::len word list \<Rightarrow> 'a word list \<Rightarrow> 'a word list result" where
  "binary_solve p gap_cols EEInv xx2 =
     (let gg = length gap_cols in
      rfold (\<lambda>i P. rbind (at gap_cols i) (\<lambda>c.
        rfold (\<lambda>j P. rbind (mtx_get EEInv i j) (\<lambda>b. if b then rbind (at xx2 j) (add_at P (sparse_size p + c)) else Inr P)) [0..<gg] P)) [0..<gg])"

text \<open>
  A copy of a vector that does not own its elements is empty, which \<open>GetX2Prime\<close> takes for a vector without random columns; \<open>owns\<close> says whether
  the output vector owns its elements.
\<close>

definition binary_gap ::
  "Paxos \<Rightarrow> bool \<Rightarrow> 'a word Rand option \<Rightarrow> nat list list \<Rightarrow> (nat \<times> nat) list \<Rightarrow> nat list \<Rightarrow> 'a::len word list \<Rightarrow> 'a word list \<Rightarrow> 'a word list result" where
  "binary_gap p owns rnd fcinv gap_rows gap_cols X P =
     rbind (case rnd of None \<Rightarrow> Inr P | Some r \<Rightarrow> RandomizeDenseCols p gap_cols r P) (\<lambda>P.
     rbind (GetX2Prime p fcinv gap_rows gap_cols X (if rnd \<noteq> None \<and> owns then P else [])) (\<lambda>xx2.
     rbind (GetEPrime p fcinv gap_rows gap_cols) (\<lambda>EE.
     rbind (DenseMtx_Invert EE) (\<lambda>(EEInv, _). binary_solve p gap_cols EEInv xx2 P))))"

definition BackfillBinary ::
  "Paxos \<Rightarrow> bool \<Rightarrow> 'a word Rand option \<Rightarrow> nat list \<Rightarrow> nat list \<Rightarrow> (nat \<times> nat) list \<Rightarrow> 'a::len word list \<Rightarrow> 'a word list \<Rightarrow> 'a word list result option" where
  "BackfillBinary p owns rnd main_rows main_cols gap_rows X P =
     obind (Some (enforce (length gap_rows \<le> px_g p) ''gg <= g'')) (\<lambda>_.
     obind (if gap_rows \<noteq> []
            then obind (GetFCInv p main_rows main_cols gap_rows) (\<lambda>fcinv.
                 obind (GetGapCols p fcinv gap_rows) (\<lambda>gap_cols.
                 obind (Some (binary_gap p owns rnd fcinv gap_rows gap_cols X P)) (\<lambda>P. Some (Inr (gap_cols, P)))))
            else case rnd of None \<Rightarrow> Some (Inr ([], P))
                 | Some r \<Rightarrow> obind (Some (randomize_dense p r P)) (\<lambda>P. Some (Inr ([], P)))) (\<lambda>(gap_cols, P).
     Some (backfill_main p (binary_dense p (rnd \<noteq> None) gap_cols (map (\<lambda>c. push_bit c 1) gap_cols)) X main_rows main_cols P)))"

section \<open>Dense columns over the field\<close>

text \<open>\<open>std::vector(row_size, col_size)\<close> has \<open>row_size\<close> elements, all equal to \<open>col_size\<close>.\<close>

definition gf_swap :: "nat \<Rightarrow> nat \<Rightarrow> nat \<Rightarrow> 128 word list \<Rightarrow> 128 word list result" where
  "gf_swap n i j = rfold (\<lambda>k v. rbind (at v (i * n + k)) (\<lambda>a. rbind (at v (j * n + k)) (\<lambda>b.
     rbind (set_at v (i * n + k) b) (\<lambda>v. set_at v (j * n + k) a)))) [0..<n]"

fun gf_pivot :: "nat \<Rightarrow> nat \<Rightarrow> nat list \<Rightarrow> 128 word list \<times> 128 word list \<Rightarrow> (128 word list \<times> 128 word list) result" where
  "gf_pivot n i [] st = Inr st"
| "gf_pivot n i (j # js) st =
     rbind (at (fst st) (j * n + i)) (\<lambda>x.
     if x = 1 then rbind (gf_swap n i j (fst st)) (\<lambda>mtx. rbind (gf_swap n i j (snd st)) (\<lambda>inv. Inr (mtx, inv)))
     else gf_pivot n i js st)"

definition gf_scale :: "(128 word \<Rightarrow> 128 word \<Rightarrow> 128 word) \<Rightarrow> nat \<Rightarrow> nat \<Rightarrow> 128 word \<Rightarrow> 128 word list \<Rightarrow> 128 word list result" where
  "gf_scale mul n i a = rfold (\<lambda>j v. rbind (at v (i * n + j)) (\<lambda>x. set_at v (i * n + j) (mul a x))) [0..<n]"

definition gf_elim :: "(128 word \<Rightarrow> 128 word \<Rightarrow> 128 word) \<Rightarrow> nat \<Rightarrow> nat \<Rightarrow> nat \<Rightarrow> 128 word \<Rightarrow> 128 word list \<Rightarrow> 128 word list result" where
  "gf_elim mul n i j a = rfold (\<lambda>k v. rbind (at v (i * n + k)) (\<lambda>x. add_at v (j * n + k) (mul a x))) [0..<n]"

definition gf_eliminate ::
  "(128 word \<Rightarrow> 128 word \<Rightarrow> 128 word) \<Rightarrow> nat \<Rightarrow> nat \<Rightarrow> nat \<Rightarrow> 128 word list \<times> 128 word list \<Rightarrow> (128 word list \<times> 128 word list) result" where
  "gf_eliminate mul n i j st =
     (if j = i then Inr st
      else rbind (at (fst st) (j * n + i)) (\<lambda>a.
           rbind (gf_elim mul n i j a (fst st)) (\<lambda>mtx. rbind (gf_elim mul n i j a (snd st)) (\<lambda>inv. Inr (mtx, inv)))))"

fun gf_inv_loop :: "bool \<Rightarrow> nat \<Rightarrow> nat list \<Rightarrow> 128 word list \<times> 128 word list \<Rightarrow> 128 word list result" where
  "gf_inv_loop avx2 n [] st = Inr (snd st)"
| "gf_inv_loop avx2 n (i # is) st =
     rbind (at (fst st) (i * n + i)) (\<lambda>x.
     rbind (if x = 0 then gf_pivot n i [i + 1..<n] st else Inr st) (\<lambda>st'.
     rbind (at (fst st') (i * n + i)) (\<lambda>x'.
     if x' = 0 then Inr []
     else rbind (Galois128_Inv avx2 x') (\<lambda>mtx_ii_inv.
          rbind (gf_scale (Galois128_Mul avx2) n i mtx_ii_inv (fst st')) (\<lambda>mtx.
          rbind (gf_scale (Galois128_Mul avx2) n i mtx_ii_inv (snd st')) (\<lambda>inv.
          rbind (rfold (gf_eliminate (Galois128_Mul avx2) n i) [0..<n] (mtx, inv)) (gf_inv_loop avx2 n is)))))))"

definition MatrixGf128Inv :: "bool \<Rightarrow> 128 word list \<Rightarrow> nat \<Rightarrow> nat \<Rightarrow> 128 word list result" where
  "MatrixGf128Inv avx2 mtx row_size col_size =
     rbind (enforce (row_size = col_size) ''row_size == col_size'') (\<lambda>_.
     rbind (rfold (\<lambda>i inv. set_at inv (i * row_size + i) 1) [0..<row_size] (replicate row_size (of_nat col_size))) (\<lambda>inv.
     gf_inv_loop avx2 row_size [0..<row_size] (mtx, inv)))"

text \<open>Powers of the dense part; the first one is \<open>x\<close>.\<close>

primrec gf_powers :: "(128 word \<Rightarrow> 128 word \<Rightarrow> 128 word) \<Rightarrow> 128 word \<Rightarrow> 128 word \<Rightarrow> nat \<Rightarrow> 128 word list" where
  "gf_powers mul d x 0 = []"
| "gf_powers mul d x (Suc n) = x # gf_powers mul d (mul x d) n"

definition gf_fill ::
  "(128 word \<Rightarrow> 128 word \<Rightarrow> 128 word) \<Rightarrow> Paxos \<Rightarrow> nat list list \<Rightarrow> (nat \<times> nat) list \<Rightarrow> nat \<Rightarrow> nat \<Rightarrow> 128 word list \<Rightarrow> 128 word list result" where
  "gf_fill mul p fcinv gap_rows n i EE =
     rbind (at gap_rows i) (\<lambda>gap. rbind (at (px_dense p) (fst gap)) (\<lambda>e.
     rbind (rfold (\<lambda>(j, v) EE. set_at EE (i * n + j) v) (enumerate 0 (gf_powers mul e e n)) EE) (\<lambda>EE.
     rbind (at fcinv i) (\<lambda>fc.
     rfold (\<lambda>j EE. rbind (at (px_dense p) j) (\<lambda>fcb.
       rfold (\<lambda>(k, v) EE. add_at EE (i * n + k) v) (enumerate 0 (gf_powers mul fcb fcb n)) EE)) fc EE))))"

definition gf_random :: "nat \<Rightarrow> nat \<Rightarrow> 'a word Rand \<Rightarrow> 128 word list \<times> 'a::len word list \<Rightarrow> (128 word list \<times> 'a word list) result" where
  "gf_random n i r = (\<lambda>(EE, xx).
     rbind (rfold (\<lambda>k EE. set_at EE (i * n + k) (rd_ee r (i * n + k))) [0..<n * 16] EE) (\<lambda>EE.
     rbind (set_at xx i (rd_xx r i)) (\<lambda>xx. Inr (EE, xx))))"

definition gf_gap ::
  "bool \<Rightarrow> Paxos \<Rightarrow> 'a::len word Rand option \<Rightarrow> nat list list \<Rightarrow> (nat \<times> nat) list \<Rightarrow> 'a word list \<Rightarrow> 'a word list \<Rightarrow> 'a word list result" where
  "gf_gap avx2 p rnd fcinv gap_rows X P =
     (let g = length gap_rows; n = (if rnd = None then g else dense_size p) in
      rbind (rfold (gf_fill (Galois128_Mul avx2) p fcinv gap_rows n) [0..<g] (replicate (n * n) 0)) (\<lambda>EE.
      rbind (rfold (\<lambda>i xx. rbind (x2_gap p fcinv gap_rows X i) (set_at xx i)) [0..<g] (replicate n 0)) (\<lambda>xx.
      rbind (case rnd of None \<Rightarrow> Inr (EE, xx) | Some r \<Rightarrow> rfold (\<lambda>i. gf_random n i r) [g..<dense_size p] (EE, xx)) (\<lambda>(EE, xx).
      rbind (MatrixGf128Inv avx2 EE n n) (\<lambda>EE.
      rbind (enforce (EE \<noteq> []) ''EE.size() > 0'') (\<lambda>_.
      rfold (\<lambda>i P. rfold (\<lambda>j P. rbind (at xx j) (\<lambda>x. rbind (at EE (i * n + j)) (\<lambda>a.
        add_at P (sparse_size p + i) (MultAdd_mul avx2 x a)))) [0..<n] P) [0..<n] P))))))"

definition gf_dense ::
  "bool \<Rightarrow> Paxos \<Rightarrow> bool \<Rightarrow> nat \<Rightarrow> 'a::len word list \<Rightarrow> 'a word \<Rightarrow> 'a word result" where
  "gf_dense avx2 p do_dense i P y =
     (if \<not> do_dense then Inr y
      else rbind (at (px_dense p) i) (\<lambda>d. rbind (at P (sparse_size p)) (\<lambda>v.
           rbind (rfold (\<lambda>j (x, y). let x = Galois128_Mul avx2 x d in rbind (at P (sparse_size p + j)) (\<lambda>v. Inr (x, y XOR MultAdd_mul avx2 v x)))
             [1..<dense_size p] (d, y XOR MultAdd_mul avx2 v d)) (\<lambda>(_, y). Inr y))))"

definition BackfillGf128 ::
  "bool \<Rightarrow> Paxos \<Rightarrow> 'a::len word Rand option \<Rightarrow> nat list \<Rightarrow> nat list \<Rightarrow> (nat \<times> nat) list \<Rightarrow> 'a word list \<Rightarrow> 'a word list \<Rightarrow> 'a word list result option" where
  "BackfillGf128 avx2 p rnd main_rows main_cols gap_rows X P =
     obind (Some (enforce (px_dt p = GF128) ''dt == DenseType::GF128'')) (\<lambda>_.
     obind (Some (enforce (length gap_rows \<le> dense_size p) ''g <= dense_size'')) (\<lambda>_.
     obind (if gap_rows \<noteq> []
            then obind (GetFCInv p main_rows main_cols gap_rows) (\<lambda>fcinv. Some (gf_gap avx2 p rnd fcinv gap_rows X P))
            else Some (case rnd of None \<Rightarrow> Inr P | Some r \<Rightarrow> randomize_dense p r P)) (\<lambda>P.
     Some (backfill_main p (gf_dense avx2 p (gap_rows \<noteq> [] \<or> rnd \<noteq> None)) X main_rows main_cols P))))"

definition Backfill ::
  "bool \<Rightarrow> Paxos \<Rightarrow> bool \<Rightarrow> 'a::len word Rand option \<Rightarrow> nat list \<Rightarrow> nat list \<Rightarrow> (nat \<times> nat) list \<Rightarrow> 'a word list \<Rightarrow> 'a word list \<Rightarrow> 'a word list result option" where
  "Backfill avx2 p owns rnd main_rows main_cols gap_rows X P =
     (if px_dt p = GF128 then BackfillGf128 avx2 p rnd main_rows main_cols gap_rows X P
      else BackfillBinary p owns rnd main_rows main_cols gap_rows X P)"

section \<open>Encoding\<close>

text \<open>Random values for the columns that no row uses, along their list.\<close>

partial_function (option) random_free :: "WeightNode list \<Rightarrow> (nat \<Rightarrow> 'v) \<Rightarrow> nat option \<Rightarrow> 'v list \<Rightarrow> 'v list result option" where
  [code]: "random_free ns cell node P =
     (case node of None \<Rightarrow> Some (Inr P)
      | Some col_idx \<Rightarrow>
          (case rbind (at ns col_idx) (\<lambda>n. rbind (set_at P col_idx (cell col_idx)) (\<lambda>P. Inr (n, P))) of
             Inl e \<Rightarrow> Some (Inl e)
           | Inr (n, P') \<Rightarrow> random_free ns cell (next_weight_node n) P'))"

definition Encode ::
  "bool \<Rightarrow> bool \<Rightarrow> 'a::len word Rand option \<Rightarrow> 'a word list \<Rightarrow> 'a word list \<Rightarrow> Paxos \<Rightarrow> ('a word list \<times> Paxos) result option" where
  "Encode avx2 owns rnd X P p =
     obind (Some (enforce (length P = px_size p) ''output.size()'')) (\<lambda>_.
     obind (Triangulate p) (\<lambda>ts.
     obind (case rnd of None \<Rightarrow> Some (Inr P)
            | Some r \<Rightarrow> obind (Some (at (weight_sets (ts_wd ts)) 0)) (\<lambda>node. random_free (nodes (ts_wd ts)) (rd_cell r) node P)) (\<lambda>P.
     obind (Backfill avx2 p owns rnd (ts_main_rows ts) (ts_main_cols ts) (ts_gap_rows ts) X P) (\<lambda>P.
     Some (Inr (P, p \<lparr> px_weight_sets := ts_wd ts \<rparr>))))))"

section \<open>Decoding\<close>

definition Decode1 ::
  "bool \<Rightarrow> Paxos \<Rightarrow> nat list \<Rightarrow> 128 word \<Rightarrow> 'a::len word list \<Rightarrow> 'a word result" where
  "Decode1 avx2 p row dense P =
     rbind (at row 0) (\<lambda>c. rbind (at P c) (\<lambda>v.
     rbind (rfold (\<lambda>j v. rbind (at row j) (\<lambda>c. add_cell P c v)) [1..<px_weight p] v) (\<lambda>v.
     if px_dt p = GF128
     then rbind (at P (sparse_size p)) (\<lambda>y.
          rbind (rfold (\<lambda>i (x, v). let x = Galois128_Mul avx2 x dense in rbind (at P (i + sparse_size p)) (\<lambda>y. Inr (x, v XOR MultAdd_mul avx2 y x)))
            [1..<dense_size p] (dense, v XOR MultAdd_mul avx2 y dense)) (\<lambda>(_, v). Inr v))
     else rfold (\<lambda>i v. rbind (bit_at dense i) (\<lambda>b. if b then add_cell P (i + sparse_size p) v else Inr v)) [0..<dense_size p] v)))"

definition decode32_gf ::
  "bool \<Rightarrow> Paxos \<Rightarrow> 128 word list \<Rightarrow> 'a::len word list \<Rightarrow> 'a word list \<Rightarrow> 'a word list result" where
  "decode32_gf avx2 p dense P vs =
     rbind (at P (sparse_size p)) (\<lambda>p2.
     rbind (rfold (\<lambda>i (xx, vs). rbind (at P (sparse_size p + i)) (\<lambda>p2.
              let xx = map2 (Galois128_Mul avx2) xx dense in Inr (xx, map2 (\<lambda>v x. v XOR MultAdd_mul avx2 p2 x) vs xx)))
            [1..<dense_size p] (dense, map2 (\<lambda>v x. v XOR MultAdd_mul avx2 p2 x) vs dense)) (\<lambda>(_, vs). Inr vs))"

definition decode32_binary ::
  "bool \<Rightarrow> Paxos \<Rightarrow> 128 word list \<Rightarrow> 'a::len word list \<Rightarrow> 'a word list \<Rightarrow> 'a word list result" where
  "decode32_binary avx2 p dense P vs =
     rbind (enforce (dense_size p \<le> 64) ''dense_size <= 64'') (\<lambda>_.
     rbind (rfold (\<lambda>i (d2, vs). rbind (at P (sparse_size p + i)) (\<lambda>p2.
              Inr (map (drop_bit 1) d2, map2 (\<lambda>v d. v XOR MultAdd_mul avx2 p2 (ucast (d AND 1))) vs d2)))
            [0..<dense_size p] (map high64 dense, vs)) (\<lambda>(_, vs). Inr vs))"

definition Decode32 ::
  "bool \<Rightarrow> Paxos \<Rightarrow> nat list list \<Rightarrow> 128 word list \<Rightarrow> 'a::len word list \<Rightarrow> 'a word list result" where
  "Decode32 avx2 p rows dense P =
     rbind (rmap (\<lambda>row. rbind (at row 0) (at P)) rows) (\<lambda>vs.
     rbind (rfold (\<lambda>j vs. rmap (\<lambda>(v, row). rbind (at row j) (\<lambda>c. add_cell P c v)) (zip vs rows)) [1..<px_weight p] vs) (\<lambda>vs.
     if px_dt p = GF128 then decode32_gf avx2 p dense P vs else decode32_binary avx2 p dense P vs))"

definition decode_put :: "Paxos \<Rightarrow> nat \<Rightarrow> 'a::len word \<Rightarrow> 'a word list \<Rightarrow> 'a word list result" where
  "decode_put p i v vs = (if px_add_to_decode p then add_at vs i v else set_at vs i v)"

definition decode_block ::
  "bool \<Rightarrow> Paxos \<Rightarrow> 128 word list \<Rightarrow> 'a::len word list \<Rightarrow> nat \<Rightarrow> 'a word list \<Rightarrow> 'a word list result" where
  "decode_block avx2 p inputs P b vs =
     rbind (HashBuildRow32 avx2 (px_hasher p) (take kPaxosBuildRowSize (drop (b * kPaxosBuildRowSize) inputs))) (\<lambda>(rows, dense).
     rbind (Decode32 avx2 p rows dense P) (\<lambda>v.
     rfold (\<lambda>(j, x). decode_put p (b * kPaxosBuildRowSize + j) x) (enumerate 0 v) vs))"

definition decode_one ::
  "bool \<Rightarrow> Paxos \<Rightarrow> 128 word list \<Rightarrow> 'a::len word list \<Rightarrow> nat \<Rightarrow> 'a word list \<Rightarrow> 'a word list result" where
  "decode_one avx2 p inputs P i vs =
     rbind (at inputs i) (\<lambda>input. rbind (HashBuildRow1 avx2 (px_hasher p) input) (\<lambda>(row, dense).
     rbind (Decode1 avx2 p row dense P) (\<lambda>v. decode_put p i v vs)))"

definition Decode ::
  "bool \<Rightarrow> Paxos \<Rightarrow> 128 word list \<Rightarrow> 'a::len word list \<Rightarrow> 'a word list \<Rightarrow> 'a word list result" where
  "Decode avx2 p inputs values P =
     rbind (enforce (length P = px_size p) ''PP.size() == size()'') (\<lambda>_.
     let blocks = length inputs div kPaxosBuildRowSize in
     rbind (rfold (decode_block avx2 p inputs P) [0..<blocks] values)
       (rfold (decode_one avx2 p inputs P) [blocks * kPaxosBuildRowSize..<length inputs]))"

section \<open>Values of 64 bits\<close>

text \<open>
  The code has a second copy of these functions for 64-bit values. The copies differ in the type of the values only, so they are the same functions at another
  type; \<open>EncodeU64\<close> has a guard of its own. The helper's product with a bit is not a constant member function, so that in
  the decoding functions, which get a constant helper, a bit is multiplied as an element of the field.
\<close>

definition GetX2PrimeU64 :: "Paxos \<Rightarrow> nat list list \<Rightarrow> (nat \<times> nat) list \<Rightarrow> nat list \<Rightarrow> 64 word list \<Rightarrow> 64 word list \<Rightarrow> 64 word list result" where
  "GetX2PrimeU64 = GetX2Prime"

definition RandomizeDenseColsU64 :: "Paxos \<Rightarrow> nat list \<Rightarrow> 64 word Rand \<Rightarrow> 64 word list \<Rightarrow> 64 word list result" where
  "RandomizeDenseColsU64 = RandomizeDenseCols"

definition BackfillBinaryU64 ::
  "Paxos \<Rightarrow> bool \<Rightarrow> 64 word Rand option \<Rightarrow> nat list \<Rightarrow> nat list \<Rightarrow> (nat \<times> nat) list \<Rightarrow> 64 word list \<Rightarrow> 64 word list \<Rightarrow> 64 word list result option" where
  "BackfillBinaryU64 = BackfillBinary"

definition BackfillGf128U64 ::
  "bool \<Rightarrow> Paxos \<Rightarrow> 64 word Rand option \<Rightarrow> nat list \<Rightarrow> nat list \<Rightarrow> (nat \<times> nat) list \<Rightarrow> 64 word list \<Rightarrow> 64 word list \<Rightarrow> 64 word list result option" where
  "BackfillGf128U64 = BackfillGf128"

definition BackfillU64 ::
  "bool \<Rightarrow> Paxos \<Rightarrow> bool \<Rightarrow> 64 word Rand option \<Rightarrow> nat list \<Rightarrow> nat list \<Rightarrow> (nat \<times> nat) list \<Rightarrow> 64 word list \<Rightarrow> 64 word list \<Rightarrow> 64 word list result option" where
  "BackfillU64 avx2 p owns rnd main_rows main_cols gap_rows X P =
     (if px_dt p = GF128 then BackfillGf128U64 avx2 p rnd main_rows main_cols gap_rows X P
      else BackfillBinaryU64 p owns rnd main_rows main_cols gap_rows X P)"

definition EncodeU64 ::
  "bool \<Rightarrow> bool \<Rightarrow> 64 word Rand option \<Rightarrow> 64 word list \<Rightarrow> 64 word list \<Rightarrow> Paxos \<Rightarrow> (64 word list \<times> Paxos) result option" where
  "EncodeU64 avx2 owns rnd X P p =
     obind (Some (enforce (length P = px_size p) ''output.size()'')) (\<lambda>_.
     obind (Some (enforce (px_dt p = Binary) ''EncodeU64 only support DenseType::Binary'')) (\<lambda>_.
     obind (Triangulate p) (\<lambda>ts.
     obind (case rnd of None \<Rightarrow> Some (Inr P)
            | Some r \<Rightarrow> obind (Some (at (weight_sets (ts_wd ts)) 0)) (\<lambda>node. random_free (nodes (ts_wd ts)) (rd_cell r) node P)) (\<lambda>P.
     obind (BackfillU64 avx2 p owns rnd (ts_main_rows ts) (ts_main_cols ts) (ts_gap_rows ts) X P) (\<lambda>P.
     Some (Inr (P, p \<lparr> px_weight_sets := ts_wd ts \<rparr>)))))))"

definition Decode1U64 :: "bool \<Rightarrow> Paxos \<Rightarrow> nat list \<Rightarrow> 128 word \<Rightarrow> 64 word list \<Rightarrow> 64 word result" where
  "Decode1U64 = Decode1"

definition Decode32U64 :: "bool \<Rightarrow> Paxos \<Rightarrow> nat list list \<Rightarrow> 128 word list \<Rightarrow> 64 word list \<Rightarrow> 64 word list result" where
  "Decode32U64 = Decode32"

definition DecodeU64 :: "bool \<Rightarrow> Paxos \<Rightarrow> 128 word list \<Rightarrow> 64 word list \<Rightarrow> 64 word list \<Rightarrow> 64 word list result" where
  "DecodeU64 = Decode"

end
