(* ===== verification/Paxos_Columns.thy ===== *)
theory Paxos_Columns
  imports Paxos
begin

text \<open>
  What \<open>Paxos::SetInput\<close> leaves behind: the rows of the keys, and for every column the list of the rows that use it
  (\<open>RebuildColumns\<close>), one segment after the other in a common vector, with the weights of the columns.
\<close>

section \<open>Segments of a vector\<close>

definition segs :: "nat \<Rightarrow> (nat \<Rightarrow> nat) \<Rightarrow> (nat \<Rightarrow> nat) \<Rightarrow> (nat \<times> nat) list \<times> nat list \<Rightarrow> (nat \<Rightarrow> nat list) \<Rightarrow> bool" where
  "segs n off cap st L \<longleftrightarrow> length (fst st) = n \<and>
     (\<forall>c < n. fst st ! c = (off c, length (L c)) \<and> length (L c) \<le> cap c \<and> (\<forall>k < length (L c). snd st ! (off c + k) = L c ! k))"

definition layout :: "nat \<Rightarrow> (nat \<Rightarrow> nat) \<Rightarrow> (nat \<Rightarrow> nat) \<Rightarrow> nat \<Rightarrow> bool" where
  "layout n off cap len \<longleftrightarrow> (\<forall>c < n. off c + cap c \<le> len) \<and> (\<forall>c d. c < d \<longrightarrow> d < n \<longrightarrow> off c + cap c \<le> off d)"

lemma layout_disjoint:
  assumes "layout n off cap len" "c < n" "d < n" "c \<noteq> d" "k < cap c" "l < cap d"
  shows "off c + k \<noteq> off d + l"
proof (cases "c < d")
  case True
  then have "off c + cap c \<le> off d" using assms by (simp add: layout_def)
  then show ?thesis using assms(5) by linarith
next
  case False
  then have "off d + cap d \<le> off c" using assms by (simp add: layout_def)
  then show ?thesis using assms(6) by linarith
qed

lemma push_col_segs:
  assumes lay: "layout n off cap (length b)" and st: "segs n off cap (cols, b) L" and c: "c < n" "length (L c) < cap c"
  shows "\<exists>cols' b'. push_col i c (cols, b) = Inr (cols', b') \<and> length b' = length b \<and> segs n off cap (cols', b') (L(c := L c @ [i]))"
proof -
  let ?s = "length (L c)" and ?L = "L(c := L c @ [i])"
  have col: "cols ! c = (off c, ?s)" "length cols = n" using st c by (auto simp: segs_def)
  have pos: "off c + ?s < length b" using lay c by (auto simp: layout_def intro: less_le_trans)
  let ?cols = "cols[c := (off c, ?s + 1)]" and ?b = "b[off c + ?s := i]"
  have "push_col i c (cols, b) = Inr (?cols, ?b)" using col pos c by (simp add: push_col_def)
  moreover have "segs n off cap (?cols, ?b) ?L"
  proof -
    have "?cols ! d = (off d, length (?L d)) \<and> length (?L d) \<le> cap d \<and> (\<forall>k < length (?L d). ?b ! (off d + k) = ?L d ! k)" if d: "d < n" for d
    proof (cases "d = c")
      case True
      then show ?thesis using st c col pos by (auto simp: segs_def nth_append nth_list_update)
    next
      case False
      have "?b ! (off d + k) = b ! (off d + k)" if "k < length (L d)" for k
      proof -
        have "k < cap d" using st d that by (auto simp: segs_def)
        then have "off d + k \<noteq> off c + ?s" using layout_disjoint [OF lay d c(1) False] c(2) by blast
        then show ?thesis by simp
      qed
      then show ?thesis using st d False by (auto simp: segs_def)
    qed
    then show ?thesis using col(2) by (simp add: segs_def)
  qed
  ultimately show ?thesis by (intro exI [of _ ?cols] exI [of _ ?b]) simp
qed

lemma push_cols_segs:
  assumes lay: "layout n off cap len" and row: "distinct row" "\<forall>c \<in> set row. c < n"
    and st: "segs n off cap (cols, b) L" "length b = len" and room: "\<forall>c \<in> set row. length (L c) < cap c"
  shows "\<exists>cols' b'. rfold (push_col i) row (cols, b) = Inr (cols', b') \<and> length b' = len \<and>
     segs n off cap (cols', b') (\<lambda>c. if c \<in> set row then L c @ [i] else L c)"
  using row st room
proof (induction row arbitrary: cols b L)
  case (Cons c row)
  obtain cols1 b1 where 1: "push_col i c (cols, b) = Inr (cols1, b1)" "length b1 = length b" "segs n off cap (cols1, b1) (L(c := L c @ [i]))"
    using push_col_segs [of n off cap b cols L c i] lay Cons.prems by auto
  have "\<exists>cols' b'. rfold (push_col i) row (cols1, b1) = Inr (cols', b') \<and> length b' = len \<and>
     segs n off cap (cols', b') (\<lambda>d. if d \<in> set row then (L(c := L c @ [i])) d @ [i] else (L(c := L c @ [i])) d)"
    using Cons.prems 1 by (intro Cons.IH [OF _ _ 1(3)]) auto
  moreover have "(\<lambda>d. if d \<in> set row then (L(c := L c @ [i])) d @ [i] else (L(c := L c @ [i])) d) = (\<lambda>d. if d \<in> set (c # row) then L d @ [i] else L d)"
    using Cons.prems(1) by (auto simp: fun_eq_iff)
  ultimately show ?case using 1(1) by simp
qed auto

lemma rfold_nth: "length row = w \<Longrightarrow> rfold (\<lambda>j st. rbind (at row j) (\<lambda>c. f c st)) [0..<w] st = rfold f row st"
proof -
  assume w: "length row = w"
  have "rfold (\<lambda>j st. rbind (at row j) (\<lambda>c. f c st)) js st = rfold f (map ((!) row) js) st" if "set js \<subseteq> {0..<length row}" for js st
    using that by (induction js arbitrary: st) (auto simp: intro!: arg_cong [where f = "rbind _"])
  then show ?thesis using w map_nth [of row] by auto
qed

lemma push_row_cols:
  assumes row: "row_ok w n row" "i < length rows" "rows ! i = row" and len: "length cols = n"
    and pos: "\<forall>c \<in> set row. fst (cols ! c) + snd (cols ! c) < length b"
  shows "push_row w rows i (cols, b) = rfold (push_col i) row (cols, b)"
proof (cases "w = 3")
  case True
  then obtain r0 r1 r2 where r: "row = [r0, r1, r2]" using row(1) by (auto simp: row_ok_def length_Suc_conv numeral_3_eq_3)
  have lt: "r0 < n" "r1 < n" "r2 < n" "r0 \<noteq> r1" "r0 \<noteq> r2" "r1 \<noteq> r2" using row(1) r by (auto simp: row_ok_def)
  obtain d0 s0 d1 s1 d2 s2 where c: "cols ! r0 = (d0, s0)" "cols ! r1 = (d1, s1)" "cols ! r2 = (d2, s2)" by (meson surj_pair)
  show ?thesis using True r lt len row(2,3) pos c by (simp add: push_row_def push_row3_def push_col_def Let_def)
next
  case False
  have "length row = w" using row(1) by (simp add: row_ok_def)
  then show ?thesis using False row(2,3) rfold_nth [of row w "push_col i" "(cols, b)"] by (simp add: push_row_def)
qed

section \<open>Columns\<close>

definition col_rows :: "nat list list \<Rightarrow> nat \<Rightarrow> nat list" where
  "col_rows rows c = filter (\<lambda>i. c \<in> set (rows ! i)) [0..<length rows]"

definition rows_ok :: "nat \<Rightarrow> nat \<Rightarrow> nat list list \<Rightarrow> bool" where
  "rows_ok w n rows \<longleftrightarrow> (\<forall>row \<in> set rows. row_ok w n row)"

lemma rows_okD: "rows_ok w n rows \<Longrightarrow> i < length rows \<Longrightarrow> row_ok w n (rows ! i)"
  by (simp add: rows_ok_def)

lemma push_rows_segs:
  assumes lay: "layout n off (\<lambda>c. length (col_rows rows c)) len" and rows: "rows_ok w n rows"
    and st: "segs n off (\<lambda>c. length (col_rows rows c)) (cols, b) (\<lambda>_. [])" "length b = len"
  shows "\<exists>cols' b'. rfold (push_row w rows) [0..<length rows] (cols, b) = Inr (cols', b') \<and> length b' = len \<and>
     segs n off (\<lambda>c. length (col_rows rows c)) (cols', b') (col_rows rows)"
proof -
  let ?cap = "\<lambda>c. length (col_rows rows c)" and ?L = "\<lambda>i c. filter (\<lambda>i. c \<in> set (rows ! i)) [0..<i]"
  let ?I = "\<lambda>i st. length (snd st) = len \<and> segs n off ?cap st (?L i)"
  have "\<exists>st'. rfold (push_row w rows) [0..<length rows] (cols, b) = Inr st' \<and> ?I (length rows) st'"
  proof (rule rfold_upt_inv [where I = ?I])
    fix i st assume i: "i < length rows" and inv: "?I i st"
    obtain cols1 b1 where st1: "st = (cols1, b1)" by (cases st)
    let ?row = "rows ! i"
    have row: "row_ok w n ?row" using rows_okD [OF rows i] .
    have room: "length (?L i c) < ?cap c" if "c \<in> set ?row" for c
    proof -
      have "[0..<length rows] = [0..<i] @ i # [Suc i..<length rows]" using i upt_add_eq_append [of 0 i "length rows - i"] by (simp add: upt_conv_Cons)
      then show ?thesis using that by (simp add: col_rows_def)
    qed
    have pos: "fst (cols1 ! c) + snd (cols1 ! c) < length b1" if "c \<in> set ?row" for c
    proof -
      have "c < n" using row that by (simp add: row_ok_def)
      then show ?thesis using lay room [OF that] inv st1 by (auto simp: layout_def segs_def intro: less_le_trans)
    qed
    have eq: "push_row w rows i (cols1, b1) = rfold (push_col i) ?row (cols1, b1)"
      using push_row_cols [OF row i refl, of cols1 b1] inv st1 pos by (auto simp: segs_def)
    have "(\<lambda>c. if c \<in> set ?row then ?L i c @ [i] else ?L i c) = ?L (Suc i)" by auto
    then show "\<exists>s'. push_row w rows i st = Inr s' \<and> ?I (Suc i) s'"
      using push_cols_segs [OF lay, of ?row cols1 b1 "?L i" i] row inv st1 room eq by (auto simp: row_ok_def)
  qed (use st in auto)
  then show ?thesis by (auto simp: col_rows_def [abs_def])
qed

lemma sum_list_take_Suc: "i < length ws \<Longrightarrow> sum_list (take (Suc i) ws) = sum_list (take i ws) + (ws ! i :: nat)"
  by (simp add: take_Suc_conv_app_nth)

lemma sum_list_take_mono: "i \<le> j \<Longrightarrow> sum_list (take i ws) \<le> (sum_list (take j ws) :: nat)"
  by (metis le_add1 min.absorb2 sum_list_append take_add take_take le_add_diff_inverse)

lemma RebuildColumns_ok:
  assumes rows: "rows_ok (px_weight p) (sparse_size p) (px_rows p)" "length (px_rows p) = px_num_items p"
    and ws: "ws = map (\<lambda>c. length (col_rows (px_rows p) c)) [0..<sparse_size p]" "sum_list ws = t" "length (px_col_backing p) = t"
  shows "\<exists>cols b. RebuildColumns ws t p = Inr (p \<lparr> px_cols := cols, px_col_backing := b \<rparr>) \<and>
     length cols = sparse_size p \<and> (\<forall>c < sparse_size p. column (p \<lparr> px_cols := cols, px_col_backing := b \<rparr>) c = Inr (col_rows (px_rows p) c) \<and>
       snd (cols ! c) = length (col_rows (px_rows p) c))"
proof -
  let ?n = "sparse_size p" and ?off = "\<lambda>i. sum_list (take i ws)" and ?cap = "\<lambda>c. length (col_rows (px_rows p) c)"
  have len: "length ws = ?n" and nth: "\<And>c. c < ?n \<Longrightarrow> ws ! c = ?cap c" using ws(1) by simp_all
  have step: "?off c + ?cap c = ?off (Suc c)" if "c < ?n" for c using sum_list_take_Suc [of c ws] that len nth by simp
  have lay: "layout ?n ?off ?cap t"
    unfolding layout_def
  proof (intro conjI allI impI)
    show "?off c + ?cap c \<le> t" if "c < ?n" for c using step [OF that] sum_list_take_mono [of "Suc c" ?n ws] that len ws(2) by simp
    show "?off c + ?cap c \<le> ?off d" if "c < d" "d < ?n" for c d using step [of c] sum_list_take_mono [of "Suc c" d ws] that by simp
  qed
  have "segs ?n ?off ?cap (map (\<lambda>i. (?off i, 0)) [0..<?n], px_col_backing p) (\<lambda>_. [])" by (simp add: segs_def)
  then obtain cols b where cb: "rfold (push_row (px_weight p) (px_rows p)) [0..<px_num_items p] (map (\<lambda>i. (?off i, 0)) [0..<?n], px_col_backing p) = Inr (cols, b)"
    "length b = t" "segs ?n ?off ?cap (cols, b) (col_rows (px_rows p))"
    using push_rows_segs [OF lay rows(1), of "map (\<lambda>i. (?off i, 0)) [0..<?n]" "px_col_backing p"] ws(3) rows(2) by auto
  have "RebuildColumns ws t p = Inr (p \<lparr> px_cols := cols, px_col_backing := b \<rparr>)"
    using cb(1) ws(2,3) len by (simp add: RebuildColumns_def)
  moreover have "take (?cap c) (drop (?off c) b) = col_rows (px_rows p) c" if c: "c < ?n" for c
  proof (rule nth_equalityI)
    have "?off c + ?cap c \<le> length b" using lay c cb(2) by (simp add: layout_def)
    then show l: "length (take (?cap c) (drop (?off c) b)) = length (col_rows (px_rows p) c)" by simp
    show "take (?cap c) (drop (?off c) b) ! k = col_rows (px_rows p) c ! k" if "k < length (take (?cap c) (drop (?off c) b))" for k
      using cb(3) c that l by (auto simp: segs_def)
  qed
  ultimately show ?thesis using cb(3) by (intro exI [of _ cols] exI [of _ b]) (auto simp: column_def segs_def)
qed

section \<open>Weights of columns\<close>

lemma count_cols:
  assumes "\<forall>c \<in> set cs. c < n"
  shows "length ws = n \<Longrightarrow> rfold count_col cs ws = Inr (map (\<lambda>c. ws ! c + count_list cs c) [0..<n])"
  using assms
proof (induction cs arbitrary: ws)
  case Nil
  then show ?case using map_nth [of ws] by simp
next
  case (Cons x cs)
  have "rfold count_col cs (ws[x := ws ! x + 1]) = Inr (map (\<lambda>c. ws[x := ws ! x + 1] ! c + count_list cs c) [0..<n])"
    by (rule Cons.IH) (use Cons.prems in auto)
  moreover have "map (\<lambda>c. ws[x := ws ! x + 1] ! c + count_list cs c) [0..<n] = map (\<lambda>c. ws ! c + count_list (x # cs) c) [0..<n]"
    using Cons.prems by (auto simp: nth_list_update)
  moreover have "count_col x ws = Inr (ws[x := ws ! x + 1])" using Cons.prems by (simp add: count_col_def)
  ultimately show ?case by simp
qed

lemma count_list_append: "count_list (xs @ ys) c = count_list xs c + count_list ys c"
  by (induction xs) auto

lemma col_rows_snoc: "length (col_rows (rows @ [row]) c) = length (col_rows rows c) + of_bool (c \<in> set row)"
proof -
  have "filter (\<lambda>i. c \<in> set ((rows @ [row]) ! i)) [0..<length rows] = col_rows rows c"
    unfolding col_rows_def by (intro filter_cong) (auto simp: nth_append)
  then show ?thesis by (simp add: col_rows_def nth_append)
qed

lemma count_concat:
  assumes "rows_ok w n rows"
  shows "count_list (concat rows) c = length (col_rows rows c)"
  using assms
proof (induction rows rule: rev_induct)
  case (snoc row rows)
  then have "distinct row" by (simp add: rows_ok_def row_ok_def)
  then have "count_list row c = of_bool (c \<in> set row)" by (induction row) auto
  then show ?case using snoc by (simp add: col_rows_snoc count_list_append rows_ok_def)
qed (simp add: col_rows_def)

lemma sum_counts: "\<forall>c \<in> set cs. c < n \<Longrightarrow> sum_list (map (count_list cs) [0..<n]) = length cs"
proof (induction cs)
  case (Cons x cs)
  have "sum_list (map (count_list (x # cs)) [0..<m]) = (if x < m then 1 else 0) + sum_list (map (count_list cs) [0..<m])" for m
    by (induction m) auto
  then show ?case using Cons by (simp del: count_list.simps)
qed (simp add: sum_list_0)

lemma rows_ok_cols: "rows_ok w n rows \<Longrightarrow> \<forall>c \<in> set (concat rows). c < n"
  by (auto simp: rows_ok_def row_ok_def)

lemma rows_ok_length: "rows_ok w n rows \<Longrightarrow> length (concat rows) = w * length rows"
  by (induction rows) (auto simp: rows_ok_def row_ok_def)

lemma col_weights_ok:
  assumes "rows_ok w n rows"
  shows "rfold count_col (concat rows) (replicate n 0) = Inr (map (\<lambda>c. length (col_rows rows c)) [0..<n])"
    and "sum_list (map (\<lambda>c. length (col_rows rows c)) [0..<n]) = w * length rows"
proof -
  show "rfold count_col (concat rows) (replicate n 0) = Inr (map (\<lambda>c. length (col_rows rows c)) [0..<n])"
    using count_cols [OF rows_ok_cols [OF assms], of "replicate n 0"] count_concat [OF assms] by simp
  show "sum_list (map (\<lambda>c. length (col_rows rows c)) [0..<n]) = w * length rows"
    using sum_counts [OF rows_ok_cols [OF assms]] rows_ok_length [OF assms] count_concat [OF assms] by (simp cong: map_cong)
qed

end
