(* ===== verification/Paxos_Triangulate.thy ===== *)
theory Paxos_Triangulate
  imports Paxos_Columns
begin

text \<open>
  \<open>Paxos::Triangulate\<close> terminates and orders the rows and columns so that the main rows and columns form a triangular
  matrix: a main row contains its own main column and none of the earlier ones. Every other row is in the gap.
\<close>

section \<open>The state during triangulation\<close>

definition unset_rows :: "Paxos \<Rightarrow> bool list \<Rightarrow> nat \<Rightarrow> nat list" where
  "unset_rows p row_set c = filter (\<lambda>r. \<not> row_set ! r) (col_rows (px_rows p) c)"

text \<open>The columns in \<open>M\<close> are weighted by the rows that are still free, the others are taken.\<close>

definition weighted :: "Paxos \<Rightarrow> nat set \<Rightarrow> WeightData \<Rightarrow> bool list \<Rightarrow> bool" where
  "weighted p M wd row_set \<longleftrightarrow> wd_ok wd M \<and> M \<subseteq> {0..<sparse_size p} \<and> sparse_size p \<le> length (nodes wd) \<and> length row_set = px_num_items p \<and>
     (\<forall>c < sparse_size p. weight_of wd c = (if c \<in> M then length (unset_rows p row_set c) else 0))"

definition triangular :: "nat list list \<Rightarrow> nat list \<Rightarrow> nat list \<Rightarrow> bool" where
  "triangular rows main_rows main_cols \<longleftrightarrow> length main_rows = length main_cols \<and>
     (\<forall>k < length main_cols. main_cols ! k \<in> set (rows ! (main_rows ! k))) \<and>
     (\<forall>k' < length main_cols. \<forall>k < k'. main_cols ! k \<notin> set (rows ! (main_rows ! k')))"

definition placed :: "Paxos \<Rightarrow> TriState \<Rightarrow> bool" where
  "placed p ts \<longleftrightarrow> distinct (ts_main_rows ts @ map fst (ts_gap_rows ts)) \<and>
     set (ts_main_rows ts @ map fst (ts_gap_rows ts)) = {r. r < px_num_items p \<and> ts_row_set ts ! r} \<and>
     snd ` set (ts_gap_rows ts) \<subseteq> set (ts_main_rows ts) \<and> distinct (ts_main_cols ts) \<and> set (ts_main_cols ts) \<subseteq> {0..<sparse_size p} \<and>
     triangular (px_rows p) (ts_main_rows ts) (ts_main_cols ts)"

text \<open>\<open>cur\<close> is the column that is being treated.\<close>

definition tri_inv :: "Paxos \<Rightarrow> nat set \<Rightarrow> TriState \<Rightarrow> bool" where
  "tri_inv p cur ts \<longleftrightarrow> weighted p ({0..<sparse_size p} - set (ts_main_cols ts) - cur) (ts_wd ts) (ts_row_set ts) \<and> placed p ts \<and>
     (\<forall>c \<in> set (ts_main_cols ts) - cur. \<forall>r \<in> set (col_rows (px_rows p) c). ts_row_set ts ! r)"

definition paxos_rows :: "Paxos \<Rightarrow> bool" where
  "paxos_rows p \<longleftrightarrow> length (px_rows p) = px_num_items p \<and> length (px_dense p) = px_num_items p \<and>
     rows_ok (px_weight p) (sparse_size p) (px_rows p) \<and> 1 \<le> px_weight p \<and> px_num_items p + 2 \<le> sparse_size p \<and>
     length (px_cols p) = sparse_size p \<and>
     (\<forall>c < sparse_size p. column p c = Inr (col_rows (px_rows p) c) \<and> snd (px_cols p ! c) = length (col_rows (px_rows p) c) \<and>
       length (col_rows (px_rows p) c) < 200)"

lemma paxos_rowsD:
  assumes "paxos_rows p" "r < px_num_items p"
  shows "row_ok (px_weight p) (sparse_size p) (px_rows p ! r)" "distinct (px_rows p ! r)" "length (px_rows p ! r) = px_weight p"
    "\<And>c. c \<in> set (px_rows p ! r) \<Longrightarrow> c < sparse_size p" "px_rows p ! r \<noteq> []" "r < length (px_rows p)" "r < length (px_dense p)"
proof -
  show ok: "row_ok (px_weight p) (sparse_size p) (px_rows p ! r)" using assms by (auto simp: paxos_rows_def rows_ok_def)
  then show "distinct (px_rows p ! r)" "length (px_rows p ! r) = px_weight p" "\<And>c. c \<in> set (px_rows p ! r) \<Longrightarrow> c < sparse_size p"
    by (auto simp: row_ok_def)
  then show "px_rows p ! r \<noteq> []" "r < length (px_rows p)" "r < length (px_dense p)" using assms by (auto simp: paxos_rows_def)
qed

lemma in_col_rows: "paxos_rows p \<Longrightarrow> r \<in> set (col_rows (px_rows p) c) \<longleftrightarrow> r < px_num_items p \<and> c \<in> set (px_rows p ! r)"
  by (auto simp: col_rows_def paxos_rows_def)

section \<open>One row\<close>

lemma tri_decs:
  assumes "wd_ok wd M" "M \<subseteq> {0..<n}" "n \<le> length (nodes wd)" "distinct row" "\<forall>c \<in> set row. c < n"
    and "\<forall>c \<in> set row. 0 < weight_of wd c \<longleftrightarrow> c \<in> M" and "2 \<le> card M"
  shows "\<exists>wd'. rfold tri_dec row wd = Inr wd' \<and> wd_ok wd' M \<and> length (nodes wd') = length (nodes wd) \<and>
     (\<forall>c. weight_of wd' c = (if c \<in> set row \<and> c \<in> M then weight_of wd c - 1 else weight_of wd c))"
  using assms
proof (induction row arbitrary: wd)
  case (Cons x row)
  have x: "x < length (nodes wd)" using Cons.prems by auto
  have ne: "M \<noteq> {x}" using Cons.prems(7) by auto
  obtain wd1 where wd1: "tri_dec x wd = Inr wd1" "wd_ok wd1 M" "length (nodes wd1) = length (nodes wd)"
    "\<forall>c. weight_of wd1 c = (if c = x \<and> x \<in> M then weight_of wd x - 1 else weight_of wd c)"
  proof (cases "x \<in> M")
    case True
    then have "0 < weight_of wd x" using Cons.prems(6) by simp
    moreover obtain wd1 where "DecementWeight x wd = Inr wd1" "wd_ok wd1 M" "length (nodes wd1) = length (nodes wd)"
      "\<forall>j. weight_of wd1 j = (if j = x then weight_of wd x - 1 else weight_of wd j)"
      using DecementWeight_ok [OF Cons.prems(1) True ne] calculation by auto
    ultimately show ?thesis using that x True by (simp add: tri_dec_def)
  next
    case False
    then have "weight_of wd x = 0" using Cons.prems(6) by simp
    then show ?thesis using that [of wd] Cons.prems(1) x False by (simp add: tri_dec_def)
  qed
  have "\<exists>wd'. rfold tri_dec row wd1 = Inr wd' \<and> wd_ok wd' M \<and> length (nodes wd') = length (nodes wd1) \<and>
     (\<forall>c. weight_of wd' c = (if c \<in> set row \<and> c \<in> M then weight_of wd1 c - 1 else weight_of wd1 c))"
    using Cons.prems wd1 by (intro Cons.IH) auto
  then show ?case using wd1 Cons.prems(4) by auto
qed auto

lemma length_filter_remove:
  "distinct xs \<Longrightarrow> x \<in> set xs \<Longrightarrow> P x \<Longrightarrow> length (filter (\<lambda>y. P y \<and> y \<noteq> x) xs) = length (filter P xs) - 1"
proof (induction xs)
  case (Cons a xs)
  then show ?case
  proof (cases "a = x")
    case True
    then have "filter (\<lambda>y. P y \<and> y \<noteq> x) xs = filter P xs" using Cons.prems by (intro filter_cong) auto
    then show ?thesis using True Cons.prems by simp
  next
    case False
    then have "filter P xs \<noteq> []" using Cons.prems by (auto simp: filter_empty_conv)
    then show ?thesis using False Cons by (cases "P a") (simp_all add: Suc_diff_1 length_greater_0_conv del: filter_False)
  qed
qed simp

lemma unset_rows_update:
  assumes "paxos_rows p" "r < px_num_items p" "\<not> row_set ! r" "length row_set = px_num_items p"
  shows "length (unset_rows p (row_set[r := True]) c) = length (unset_rows p row_set c) - of_bool (c \<in> set (px_rows p ! r))"
proof -
  have "unset_rows p (row_set[r := True]) c = filter (\<lambda>i. \<not> row_set ! i \<and> i \<noteq> r) (col_rows (px_rows p) c)"
    unfolding unset_rows_def using assms(2,4) by (intro filter_cong) (auto simp: nth_list_update)
  moreover have "distinct (col_rows (px_rows p) c)" by (simp add: col_rows_def)
  moreover have "filter (\<lambda>i. \<not> row_set ! i \<and> i \<noteq> r) xs = filter (\<lambda>i. \<not> row_set ! i) xs" if "r \<notin> set xs" for xs
    using that by (intro filter_cong) auto
  ultimately show ?thesis
    using length_filter_remove [of "col_rows (px_rows p) c" r "\<lambda>i. \<not> row_set ! i"] in_col_rows [OF assms(1)] assms(2,3) by (auto simp: unset_rows_def)
qed

lemma unset_rows_pos:
  assumes "paxos_rows p" "r < px_num_items p" "\<not> row_set ! r" "c \<in> set (px_rows p ! r)"
  shows "0 < length (unset_rows p row_set c)"
  using assms by (auto simp: unset_rows_def in_col_rows filter_empty_conv)

lemma weighted_row:
  assumes p: "paxos_rows p" and w: "weighted p M wd row_set" "2 \<le> card M" and r: "r < px_num_items p" "\<not> row_set ! r"
  shows "\<exists>wd'. rfold tri_dec (px_rows p ! r) wd = Inr wd' \<and> weighted p M wd' (row_set[r := True])"
proof -
  let ?row = "px_rows p ! r"
  note R = paxos_rowsD [OF p r(1)]
  have "0 < weight_of wd c \<longleftrightarrow> c \<in> M" if "c \<in> set ?row" for c
    using w(1) R(4) [OF that] unset_rows_pos [OF p r that] by (auto simp: weighted_def)
  then obtain wd' where wd': "rfold tri_dec ?row wd = Inr wd'" "wd_ok wd' M" "length (nodes wd') = length (nodes wd)"
    "\<forall>c. weight_of wd' c = (if c \<in> set ?row \<and> c \<in> M then weight_of wd c - 1 else weight_of wd c)"
    using tri_decs [of wd M "sparse_size p" ?row] w R by (auto simp: weighted_def)
  have "length row_set = px_num_items p" using w(1) by (simp add: weighted_def)
  note u = unset_rows_update [OF p r this]
  have "weighted p M wd' (row_set[r := True])" using wd' w(1) u by (auto simp: weighted_def)
  then show ?thesis using wd'(1) by blast
qed

definition free_cols :: "Paxos \<Rightarrow> TriState \<Rightarrow> nat \<Rightarrow> nat set" where
  "free_cols p ts c = {0..<sparse_size p} - set (ts_main_cols ts) - {c}"

definition row_inv :: "Paxos \<Rightarrow> nat \<Rightarrow> bool list \<Rightarrow> TriState \<Rightarrow> bool" where
  "row_inv p c row_set0 ts \<longleftrightarrow> tri_inv p {c} ts \<and> 2 \<le> card (free_cols p ts c) \<and> (\<forall>r. row_set0 ! r \<longrightarrow> ts_row_set ts ! r) \<and>
     (if ts_first ts then ts_row_set ts = row_set0 \<and> c \<notin> set (ts_main_cols ts)
      else c \<in> set (ts_main_cols ts) \<and> ts_main_rows ts \<noteq> [] \<and> last (ts_main_cols ts) = c)"

lemma triangular_snoc:
  assumes "triangular rows mr mc" "c \<in> set (rows ! r)" "set mc \<inter> set (rows ! r) = {}"
  shows "triangular rows (mr @ [r]) (mc @ [c])"
  using assms by (auto simp: triangular_def nth_append less_Suc_eq disjoint_iff)

lemma tri_row_ok:
  assumes p: "paxos_rows p" "distinct (px_dense p)" and inv: "row_inv p c row_set0 ts" and r: "r \<in> set (col_rows (px_rows p) c)"
  shows "\<exists>ts'. tri_row p c r ts = Inr ts' \<and> row_inv p c row_set0 ts' \<and> ts_row_set ts' ! r \<and> (\<forall>i. ts_row_set ts ! i \<longrightarrow> ts_row_set ts' ! i)"
proof -
  have ri: "r < px_num_items p" "c \<in> set (px_rows p ! r)" using r in_col_rows [OF p(1)] by auto
  have c: "c < sparse_size p" using paxos_rowsD(4) [OF p(1) ri] .
  let ?rs = "ts_row_set ts"
  have I: "weighted p (free_cols p ts c) (ts_wd ts) ?rs" "placed p ts" "2 \<le> card (free_cols p ts c)"
    "\<And>d i. d \<in> set (ts_main_cols ts) \<Longrightarrow> d \<noteq> c \<Longrightarrow> i \<in> set (col_rows (px_rows p) d) \<Longrightarrow> ?rs ! i"
    using inv by (auto simp: row_inv_def tri_inv_def free_cols_def)
  have len: "length ?rs = px_num_items p" using I(1) by (simp add: weighted_def)
  show ?thesis
  proof (cases "?rs ! r")
    case True
    then show ?thesis using inv len ri by (intro exI [of _ ts]) (simp add: tri_row_def)
  next
    case False
    obtain wd' where wd': "rfold tri_dec (px_rows p ! r) (ts_wd ts) = Inr wd'" "weighted p (free_cols p ts c) wd' (?rs[r := True])"
      using weighted_row [OF p(1) I(1,3) ri(1) False] by blast
    have fresh: "r \<notin> set (ts_main_rows ts)" "r \<notin> fst ` set (ts_gap_rows ts)" using I(2) False by (auto simp: placed_def)
    have rset: "{i. i < px_num_items p \<and> ?rs[r := True] ! i} = insert r {i. i < px_num_items p \<and> ?rs ! i}"
      using len ri(1) by (auto simp: nth_list_update)
    have mono: "?rs[r := True] ! r" "\<And>i. ?rs ! i \<Longrightarrow> ?rs[r := True] ! i" using len ri(1) by (simp_all add: nth_list_update)
    let ?ts = "ts \<lparr> ts_wd := wd', ts_row_set := ?rs[r := True] \<rparr>"
    show ?thesis
    proof (cases "ts_first ts")
      case True
      then have cn: "c \<notin> set (ts_main_cols ts)" "?rs = row_set0" using inv by (auto simp: row_inv_def)
      let ?ts' = "?ts \<lparr> ts_main_cols := ts_main_cols ts @ [c], ts_main_rows := ts_main_rows ts @ [r], ts_first := False \<rparr>"
      have eq: "tri_row p c r ts = Inr ?ts'" using True False len ri wd'(1) paxos_rowsD [OF p(1) ri(1)] by (simp add: tri_row_def Let_def)
      have "set (ts_main_cols ts) \<inter> set (px_rows p ! r) = {}" using I(4) [of _ r] cn(1) False ri in_col_rows [OF p(1)] by blast
      then have "placed p ?ts'"
        using I(2) fresh cn(1) c ri rset triangular_snoc [of "px_rows p" "ts_main_rows ts" "ts_main_cols ts" c r] by (auto simp: placed_def)
      moreover have f: "{0..<sparse_size p} - set (ts_main_cols ?ts') - {c} = free_cols p ts c" by (auto simp: free_cols_def)
      ultimately have "tri_inv p {c} ?ts'" using wd'(2) I(4) mono by (auto simp: tri_inv_def f)
      then show ?thesis using eq f I(3) mono cn(2) by (auto simp: row_inv_def free_cols_def)
    next
      case nf: False
      then have cn: "c \<in> set (ts_main_cols ts)" "ts_main_rows ts \<noteq> []" "last (ts_main_cols ts) = c" using inv by (auto simp: row_inv_def)
      let ?m = "last (ts_main_rows ts)"
      let ?ts' = "?ts \<lparr> ts_gap_rows := ts_gap_rows ts @ [(r, ?m)] \<rparr>"
      have m: "?m \<in> set (ts_main_rows ts)" "?m < px_num_items p" using cn(2) I(2) by (auto simp: placed_def)
      then have "px_dense p ! ?m \<noteq> px_dense p ! r" using fresh(1) p ri(1) by (auto simp: paxos_rows_def nth_eq_iff_index_eq)
      then have eq: "tri_row p c r ts = Inr ?ts'"
        using nf False len ri m wd'(1) paxos_rowsD [OF p(1) ri(1)] paxos_rowsD [OF p(1) m(2)] by (simp add: tri_row_def Let_def)
      have "placed p ?ts'" using I(2) fresh ri rset m(1) by (auto simp: placed_def)
      then have "tri_inv p {c} ?ts'" using wd'(2) I(4) mono by (auto simp: tri_inv_def free_cols_def)
      then show ?thesis using eq I(3) nf cn inv mono by (auto simp: row_inv_def free_cols_def)
    qed
  qed
qed

lemma tri_rows_ok:
  assumes p: "paxos_rows p" "distinct (px_dense p)" and inv: "row_inv p c row_set0 ts" and rs: "set rs \<subseteq> set (col_rows (px_rows p) c)"
  shows "\<exists>ts'. rfold (tri_row p c) rs ts = Inr ts' \<and> row_inv p c row_set0 ts' \<and> (\<forall>r \<in> set rs. ts_row_set ts' ! r) \<and> (\<forall>i. ts_row_set ts ! i \<longrightarrow> ts_row_set ts' ! i)"
  using inv rs
proof (induction rs arbitrary: ts)
  case (Cons r rs)
  obtain ts1 where ts1: "tri_row p c r ts = Inr ts1" "row_inv p c row_set0 ts1" "ts_row_set ts1 ! r" "\<forall>i. ts_row_set ts ! i \<longrightarrow> ts_row_set ts1 ! i"
    using tri_row_ok [OF p Cons.prems(1), of r] Cons.prems(2) by auto
  show ?case using Cons.IH [OF ts1(2)] Cons.prems(2) ts1 by auto
qed auto

section \<open>One column\<close>

definition open_rows :: "Paxos \<Rightarrow> TriState \<Rightarrow> nat set" where
  "open_rows p ts = {r. r < px_num_items p \<and> \<not> ts_row_set ts ! r}"

lemma main_cols_bound:
  assumes "placed p ts" "r \<in> open_rows p ts"
  shows "length (ts_main_cols ts) < px_num_items p"
proof -
  have "length (ts_main_cols ts) = card (set (ts_main_rows ts))" using assms(1) by (simp add: placed_def triangular_def distinct_card)
  also have "\<dots> \<le> card ({0..<px_num_items p} - {r})" using assms by (intro card_mono) (auto simp: placed_def open_rows_def)
  also have "\<dots> < px_num_items p" using assms(2) by (simp add: open_rows_def)
  finally show ?thesis .
qed

lemma tri_step_ok:
  assumes p: "paxos_rows p" "distinct (px_dense p)" and inv: "tri_inv p {} ts" and more: "1 < length (weight_sets (ts_wd ts))"
  shows "\<exists>ts'. tri_step p ts = Inr ts' \<and> tri_inv p {} ts' \<and> open_rows p ts' \<subset> open_rows p ts"
proof -
  let ?M = "{0..<sparse_size p} - set (ts_main_cols ts)" and ?wd = "ts_wd ts" and ?rs = "ts_row_set ts"
  have W: "weighted p ?M ?wd ?rs" "placed p ts" "\<And>c r. c \<in> set (ts_main_cols ts) \<Longrightarrow> r \<in> set (col_rows (px_rows p) c) \<Longrightarrow> ?rs ! r"
    using inv by (auto simp: tri_inv_def)
  have ok: "wd_ok ?wd ?M" using W(1) by (simp add: weighted_def)
  obtain c where c: "c \<in> ?M" "GetMinWeightNode ?wd = Inr c" "0 < weight_of ?wd c" using GetMinWeightNode_ok(2) [OF ok more] by blast
  then have "0 < length (unset_rows p ?rs c)" using W(1) by (auto simp: weighted_def)
  then obtain r where r: "r \<in> set (col_rows (px_rows p) c)" "\<not> ?rs ! r" by (auto simp: unset_rows_def filter_empty_conv)
  then have ro: "r \<in> open_rows p ts" using in_col_rows [OF p(1)] by (simp add: open_rows_def)
  have "card ?M = sparse_size p - length (ts_main_cols ts)" using W(2) by (simp add: placed_def card_Diff_subset distinct_card)
  then have "3 \<le> card ?M" using main_cols_bound [OF W(2) ro] p(1) unfolding paxos_rows_def by linarith
  then have card: "2 \<le> card (free_cols p ts c)" "?M \<noteq> {c}" using c(1) by (auto simp: free_cols_def card_Diff_subset card_Diff_singleton)
  obtain wd1 where wd1: "PopNode c ?wd = Inr wd1" "wd_ok wd1 (free_cols p ts c)" "length (nodes wd1) = length (nodes ?wd)" "\<forall>j. weight_of wd1 j = weight_of ?wd j"
    using PopNode_ok [OF ok c(1) card(2)] by (auto simp: free_cols_def)
  let ?wd2 = "wd1 \<lparr> nodes := set_weight c 0 (nodes wd1) \<rparr>"
  have cl: "c < length (nodes wd1)" using wd_ok_weights(2) [OF ok c(1)] wd1(3) by simp
  have wd2: "weighted p (free_cols p ts c) ?wd2 ?rs"
    using W(1) wd1 wd_ok_set_weight [OF wd1(2), of c 0] cl by (auto simp: weighted_def free_cols_def)
  let ?ts1 = "ts \<lparr> ts_wd := ?wd2, ts_first := True \<rparr>"
  have "row_inv p c ?rs ?ts1" using wd2 W(2,3) card(1) c(1) by (auto simp: row_inv_def tri_inv_def free_cols_def placed_def)
  then obtain ts2 where ts2: "rfold (tri_row p c) (col_rows (px_rows p) c) ?ts1 = Inr ts2" "row_inv p c ?rs ts2" "\<forall>r \<in> set (col_rows (px_rows p) c). ts_row_set ts2 ! r"
    using tri_rows_ok [OF p, of c ?rs ?ts1 "col_rows (px_rows p) c"] by auto
  have nf: "\<not> ts_first ts2" "c \<in> set (ts_main_cols ts2)" using ts2 r by (auto simp: row_inv_def split: if_splits)
  have "tri_step p ts = Inr ts2"
    using c(1,2) wd1(1) ts2(1) nf(1) p(1) by (simp add: tri_step_def paxos_rows_def)
  moreover have "tri_inv p {} ts2"
  proof -
    have "set (ts_main_cols ts2) = insert c (set (ts_main_cols ts2))" using nf(2) by auto
    then have "{0..<sparse_size p} - set (ts_main_cols ts2) - {c} = {0..<sparse_size p} - set (ts_main_cols ts2) - {}" by auto
    then show ?thesis using ts2(2,3) by (auto simp: row_inv_def tri_inv_def)
  qed
  moreover have "open_rows p ts2 \<subset> open_rows p ts" using ts2(2,3) r ro by (auto simp: open_rows_def row_inv_def)
  ultimately show ?thesis by blast
qed

section \<open>All columns\<close>

lemma tri_loop_ok:
  assumes p: "paxos_rows p" "distinct (px_dense p)" and inv: "tri_inv p {} ts"
  shows "\<exists>ts'. tri_loop p ts = Some (Inr ts') \<and> tri_inv p {} ts' \<and> length (weight_sets (ts_wd ts')) \<le> 1"
  using inv
proof (induction "card (open_rows p ts)" arbitrary: ts rule: less_induct)
  case less
  show ?case
  proof (cases "1 < length (weight_sets (ts_wd ts))")
    case True
    obtain ts1 where ts1: "tri_step p ts = Inr ts1" "tri_inv p {} ts1" "open_rows p ts1 \<subset> open_rows p ts"
      using tri_step_ok [OF p less.prems True] by blast
    have "card (open_rows p ts1) < card (open_rows p ts)" using ts1(3) by (intro psubset_card_mono) (auto simp: open_rows_def)
    then show ?thesis using less.hyps [OF _ ts1(2)] ts1(1) True by (simp add: tri_loop.simps [of p ts])
  next
    case False
    then show ?thesis using less.prems by (simp add: tri_loop.simps [of p ts])
  qed
qed

text \<open>At the end no row is left over.\<close>

lemma tri_inv_complete:
  assumes p: "paxos_rows p" and inv: "tri_inv p {} ts" and fin: "length (weight_sets (ts_wd ts)) \<le> 1"
  shows "open_rows p ts = {}"
proof (rule ccontr)
  assume "open_rows p ts \<noteq> {}"
  then obtain r where r: "r < px_num_items p" "\<not> ts_row_set ts ! r" by (auto simp: open_rows_def)
  let ?c = "hd (px_rows p ! r)" and ?M = "{0..<sparse_size p} - set (ts_main_cols ts)"
  have c: "?c \<in> set (px_rows p ! r)" "?c < sparse_size p" using paxos_rowsD(4,5) [OF p r(1)] by auto
  have "?c \<notin> set (ts_main_cols ts)" using inv r c(1) in_col_rows [OF p] by (auto simp: tri_inv_def)
  then have "?c \<in> ?M" "0 < weight_of (ts_wd ts) ?c" using inv c unset_rows_pos [OF p r c(1)] by (auto simp: tri_inv_def weighted_def)
  then show False using GetMinWeightNode_ok(1) [of "ts_wd ts" ?M] inv fin by (auto simp: tri_inv_def weighted_def)
qed

definition fresh_weights :: "Paxos \<Rightarrow> WeightData \<Rightarrow> bool" where
  "fresh_weights p wd \<longleftrightarrow> wd_ok wd {0..<sparse_size p} \<and> (\<forall>c < sparse_size p. weight_of wd c = length (col_rows (px_rows p) c))"

text \<open>A state in which encoding may begin: after setting the keys, or after an earlier encoding.\<close>

definition paxos_ok :: "Paxos \<Rightarrow> bool" where
  "paxos_ok p \<longleftrightarrow> paxos_rows p \<and> (length (weight_sets (px_weight_sets p)) \<le> 1 \<or> fresh_weights p (px_weight_sets p))"

lemma init_weights:
  assumes "paxos_rows p"
  shows "\<exists>wd. WeightData_init (map snd (px_cols p)) wd0 = Inr wd \<and> fresh_weights p wd"
proof -
  have ws: "map snd (px_cols p) = map (\<lambda>c. length (col_rows (px_rows p) c)) [0..<sparse_size p]"
    using assms by (intro nth_equalityI) (auto simp: paxos_rows_def)
  moreover have "map snd (px_cols p) \<noteq> []" using assms by (auto simp: paxos_rows_def)
  moreover have "\<forall>w \<in> set (map snd (px_cols p)). w < 200" unfolding ws using assms by (auto simp: paxos_rows_def)
  ultimately show ?thesis using WeightData_init_ok [of "map snd (px_cols p)" wd0] by (auto simp: fresh_weights_def)
qed

lemma Triangulate_ok:
  assumes p: "paxos_ok p" "distinct (px_dense p)"
  shows "\<exists>ts. Triangulate p = Some (Inr ts) \<and> tri_inv p {} ts \<and> length (weight_sets (ts_wd ts)) \<le> 1 \<and> open_rows p ts = {}"
proof -
  have rows: "paxos_rows p" using p by (simp add: paxos_ok_def)
  obtain wd where wd: "(if length (weight_sets (px_weight_sets p)) \<le> 1 then WeightData_init (map snd (px_cols p)) (px_weight_sets p) else Inr (px_weight_sets p)) = Inr wd"
    "fresh_weights p wd" using init_weights [OF rows, of "px_weight_sets p"] p(1) unfolding paxos_ok_def by (metis (full_types))
  let ?ts = "\<lparr> ts_wd = wd, ts_row_set = replicate (px_num_items p) False, ts_first = True, ts_main_rows = [], ts_main_cols = [], ts_gap_rows = [] \<rparr>"
  have "unset_rows p (replicate (px_num_items p) False) c = col_rows (px_rows p) c" for c
    unfolding unset_rows_def using in_col_rows [OF rows] by (intro filter_True) auto
  moreover have "sparse_size p \<le> length (nodes wd)"
  proof (rule ccontr)
    assume "\<not> ?thesis"
    then have "length (nodes wd) \<in> {0..<sparse_size p}" by simp
    then show False using wd(2) wd_ok_weights(2) by (metis fresh_weights_def less_irrefl)
  qed
  ultimately have "tri_inv p {} ?ts" using wd(2) by (auto simp: tri_inv_def weighted_def placed_def triangular_def fresh_weights_def)
  then obtain ts where "tri_loop p ?ts = Some (Inr ts)" "tri_inv p {} ts" "length (weight_sets (ts_wd ts)) \<le> 1"
    using tri_loop_ok [OF rows p(2)] by blast
  then show ?thesis using wd(1) tri_inv_complete [OF rows] by (auto simp: Triangulate_def)
qed

text \<open>
  C24. Triangulation always ends, for every table of at least two more columns than keys in which no column is used by 200
  rows, as long as no two keys have the same hash, also when the table has been encoded before. It splits the rows into main
  rows and gap rows, each row in exactly one of them once. The main rows and main columns are a triangular matrix:
  every main row has its own main column and none of the columns of the main rows before it. Every gap row is paired with a main
  row.
\<close>

theorem Triangulate_correct:
  assumes "paxos_ok p" "distinct (px_dense p)"
  shows "\<exists>ts. Triangulate p = Some (Inr ts) \<and>
     mset (ts_main_rows ts @ map fst (ts_gap_rows ts)) = mset [0..<px_num_items p] \<and> snd ` set (ts_gap_rows ts) \<subseteq> set (ts_main_rows ts) \<and>
     length (ts_main_rows ts) = length (ts_main_cols ts) \<and> distinct (ts_main_cols ts) \<and>
     (\<forall>k < length (ts_main_cols ts). ts_main_cols ts ! k \<in> set (px_rows p ! (ts_main_rows ts ! k)) \<and>
       (\<forall>j < k. ts_main_cols ts ! j \<notin> set (px_rows p ! (ts_main_rows ts ! k))))"
proof -
  obtain ts where ts: "Triangulate p = Some (Inr ts)" "placed p ts" "open_rows p ts = {}" using Triangulate_ok [OF assms] by (auto simp: tri_inv_def)
  then have "set (ts_main_rows ts @ map fst (ts_gap_rows ts)) = set [0..<px_num_items p]" "distinct (ts_main_rows ts @ map fst (ts_gap_rows ts))"
    by (auto simp: placed_def open_rows_def)
  then have "mset (ts_main_rows ts @ map fst (ts_gap_rows ts)) = mset [0..<px_num_items p]" by (metis distinct_upt set_eq_iff_mset_eq_distinct)
  then show ?thesis using ts(1,2) by (auto simp: placed_def triangular_def)
qed

definition small_table :: Paxos where
  "small_table = \<lparr> sparse_size = 5, dense_size = 1, px_weight = 2, px_g = 1, px_dt = GF128, px_num_items = 3,
     px_hasher = \<lparr> ph_weight = 2, ph_sparse_size = 5, ph_encrypt = id \<rparr>, px_dense = [1, 2, 3], px_rows = [[0, 1], [1, 2], [1, 0]],
     px_cols = [(0, 2), (2, 3), (5, 1), (6, 0), (6, 0)], px_col_backing = [0, 2, 0, 1, 2, 1], px_weight_sets = \<lparr> weight_sets = [], nodes = [] \<rparr>, px_add_to_decode = False \<rparr>"

lemma small_table_ok: "paxos_ok small_table" "distinct (px_dense small_table)"
proof -
  have "paxos_rows small_table" by code_simp
  then show "paxos_ok small_table" "distinct (px_dense small_table)" by (simp_all add: paxos_ok_def small_table_def)
qed

theorem Triangulate_correct_witness:
  "\<exists>ts. Triangulate small_table = Some (Inr ts) \<and> mset (ts_main_rows ts @ map fst (ts_gap_rows ts)) = mset [0..<px_num_items small_table] \<and>
     distinct (ts_main_cols ts)"
  using Triangulate_correct [OF small_table_ok] by blast

end
