(* ===== verification/Paxos_Gap.thy ===== *)
theory Paxos_Gap
  imports Paxos_Triangulate
begin

text \<open>
  The gap rows of the encoding: \<open>GetFCInv\<close> ends and finds for every gap row main rows whose sum agrees with it on all main
  columns, and \<open>GetGapCols\<close> finds dense columns for which the remaining system is regular.
\<close>

section \<open>Ordered sets\<close>

definition descending :: "nat list \<Rightarrow> bool" where
  "descending xs \<longleftrightarrow> sorted_wrt (>) xs"

lemma set_insert_desc: "descending xs \<Longrightarrow> descending (set_insert x xs) \<and> set (set_insert x xs) = insert x (set xs)"
  by (induction xs) (auto simp: descending_def)

lemma set_toggle_desc: "descending xs \<Longrightarrow> descending (set_toggle x xs) \<and> set (set_toggle x xs) = {y. (y \<in> set xs) \<noteq> (y = x)}"
proof -
  assume d: "descending xs"
  have dist: "distinct xs" using d unfolding descending_def by (induction xs) auto
  have "sorted_wrt (>) (remove1 x xs)" using d unfolding descending_def by (induction xs) (auto dest: notin_set_remove1)
  then show ?thesis using d dist set_insert_desc [OF d, of x] by (auto simp: set_toggle_def descending_def)
qed

section \<open>Parities\<close>

definition uses :: "nat list list \<Rightarrow> nat \<Rightarrow> nat list \<Rightarrow> nat" where
  "uses rows c qs = length (filter (\<lambda>q. c \<in> set (rows ! q)) qs)"

lemma uses_simps [simp]:
  "uses rows c [] = 0" "uses rows c (q # qs) = of_bool (c \<in> set (rows ! q)) + uses rows c qs" "uses rows c (qs @ qs') = uses rows c qs + uses rows c qs'"
  by (simp_all add: uses_def)

text \<open>The columns of \<open>C\<close> which the sum of some rows contains, counted from the last main column.\<close>

definition odd_cols :: "nat list list \<Rightarrow> nat list \<Rightarrow> nat list \<Rightarrow> nat set" where
  "odd_cols rows mc qs = {k. k < length mc \<and> odd (uses rows (mc ! invert_row_idx (length mc) k) qs)}"

definition mapping_ok :: "nat \<Rightarrow> nat list \<Rightarrow> nat option list \<Rightarrow> bool" where
  "mapping_ok n mc cm \<longleftrightarrow> length cm = n \<and> (\<forall>c < n. \<forall>k. cm ! c = Some k \<longleftrightarrow> k < length mc \<and> mc ! invert_row_idx (length mc) k = c)"

lemma invert_idx: "k < m \<Longrightarrow> invert_row_idx m k < m" "k < m \<Longrightarrow> invert_row_idx m (invert_row_idx m k) = k"
  by (auto simp: invert_row_idx_def)

lemma col_mapping_ok:
  assumes mc: "distinct mc" "set mc \<subseteq> {0..<n}"
  shows "\<exists>cm. col_mapping n mc = Inr cm \<and> mapping_ok n mc cm"
proof -
  let ?m = "length mc" and ?idx = "invert_row_idx (length mc)"
  let ?I = "\<lambda>i cm. length cm = n \<and> (\<forall>c < n. \<forall>k. cm ! c = Some k \<longleftrightarrow> k < i \<and> mc ! ?idx k = c)"
  have "\<exists>cm. col_mapping n mc = Inr cm \<and> ?I ?m cm"
    unfolding col_mapping_def
  proof (rule rfold_upt_inv [where I = ?I])
    fix i cm assume i: "i < ?m" and inv: "?I i cm"
    have c: "mc ! ?idx i < n" using mc(2) nth_mem [OF invert_idx(1) [OF i]] by auto
    have inj: "mc ! ?idx k = mc ! ?idx i \<longleftrightarrow> k = i" if "k \<le> i" for k
      using that i mc(1) invert_idx [of k ?m] invert_idx [of i ?m] by (metis nth_eq_iff_index_eq order_le_less_trans)
    have "?I (Suc i) (cm[mc ! ?idx i := Some i])"
    proof (intro conjI allI impI)
      fix c k assume "c < n"
      then show "cm[mc ! ?idx i := Some i] ! c = Some k \<longleftrightarrow> k < Suc i \<and> mc ! ?idx k = c"
        using inv inj [of k] c by (auto simp: nth_list_update less_Suc_eq)
    qed (use inv in simp)
    then show "\<exists>s'. rbind (at mc (?idx i)) (\<lambda>c. set_at cm c (Some i)) = Inr s' \<and> ?I (Suc i) s'"
      using i inv c invert_idx(1) [of i ?m] by (intro exI [of _ "cm[mc ! ?idx i := Some i]"]) simp
  qed simp
  then show ?thesis by (auto simp: mapping_ok_def)
qed

text \<open>The indices of the main columns of a row.\<close>

definition row_idx :: "nat list \<Rightarrow> nat list \<Rightarrow> nat set" where
  "row_idx mc row = {k. k < length mc \<and> mc ! invert_row_idx (length mc) k \<in> set row}"

lemma fc_start_ok:
  assumes cm: "mapping_ok n mc cm" and row: "\<forall>c \<in> set row. c < n"
  shows "\<exists>xs. fc_start cm row = Inr xs \<and> descending xs \<and> set xs = row_idx mc row"
proof -
  have "\<exists>xs'. rfold (\<lambda>c1 row. rbind (at cm c1) (\<lambda>v. Inr (case v of None \<Rightarrow> row | Some k \<Rightarrow> set_insert k row))) cs xs = Inr xs' \<and> descending xs' \<and> set xs' = set xs \<union> row_idx mc cs"
    if "descending xs" "\<forall>c \<in> set cs. c < n" for xs cs
    using that
  proof (induction cs arbitrary: xs)
    case (Cons c cs)
    have c: "c < length cm" using cm Cons.prems by (simp add: mapping_ok_def)
    have split: "row_idx mc (c # cs) = {k. cm ! c = Some k} \<union> row_idx mc cs" using cm Cons.prems(2) by (auto simp: row_idx_def mapping_ok_def)
    show ?case
    proof (cases "cm ! c")
      case None
      then show ?thesis using Cons.IH [OF Cons.prems(1)] Cons.prems(2) c split by auto
    next
      case (Some k)
      have k: "descending (set_insert k xs)" "set (set_insert k xs) = insert k (set xs)" using set_insert_desc [OF Cons.prems(1)] by simp_all
      show ?thesis using Cons.IH [OF k(1)] Cons.prems(2) c split Some k(2) by auto
    qed
  qed (simp add: row_idx_def)
  from this [of "[]" row] show ?thesis using row by (auto simp: fc_start_def descending_def)
qed

lemma fc_cancel_ok:
  assumes cm: "mapping_ok n mc cm" and row: "\<forall>c \<in> set row. c < n" "distinct row" and le: "\<forall>k \<in> row_idx mc row. k \<le> C" and xs: "descending xs"
  shows "\<exists>xs'. rfold (fc_cancel cm C) row xs = Inr xs' \<and> descending xs' \<and> set xs' = {k. (k \<in> set xs) \<noteq> (k \<in> row_idx mc row)}"
  using row le xs
proof (induction row arbitrary: xs)
  case (Cons c row)
  have c: "c < length cm" "c < n" using cm Cons.prems by (simp_all add: mapping_ok_def)
  have split: "row_idx mc (c # row) = {k. cm ! c = Some k} \<union> row_idx mc row" using cm c(2) by (auto simp: row_idx_def mapping_ok_def)
  have disj: "k \<notin> row_idx mc row" if "cm ! c = Some k" for k using cm c(2) that Cons.prems(2) by (auto simp: row_idx_def mapping_ok_def)
  show ?case
  proof (cases "cm ! c")
    case None
    then show ?thesis using Cons.IH [OF _ _ _ Cons.prems(4)] Cons.prems c split by (auto simp: fc_cancel_def)
  next
    case (Some k)
    have k: "descending (set_toggle k xs)" "set (set_toggle k xs) = {y. (y \<in> set xs) \<noteq> (y = k)}" using set_toggle_desc [OF Cons.prems(4)] by simp_all
    obtain xs' where xs': "rfold (fc_cancel cm C) row (set_toggle k xs) = Inr xs'" "descending xs'" "set xs' = {j. (j \<in> set (set_toggle k xs)) \<noteq> (j \<in> row_idx mc row)}"
      using Cons.IH [OF _ _ _ k(1)] Cons.prems split by auto
    have "k \<le> C" using Cons.prems(3) split Some by simp
    then have "fc_cancel cm C c xs = Inr (set_toggle k xs)" using c Some by (simp add: fc_cancel_def)
    moreover have "set xs' = {j. (j \<in> set xs) \<noteq> (j \<in> row_idx mc (c # row))}" using xs'(3) k(2) split disj [OF Some] Some by auto
    ultimately show ?thesis using xs' by simp
  qed
qed (simp add: row_idx_def)

lemma odd_cols_Cons: "odd_cols rows mc (q # qs) = {k. (k \<in> odd_cols rows mc qs) \<noteq> (k \<in> row_idx mc (rows ! q))}"
  by (auto simp: odd_cols_def row_idx_def)

lemma odd_cols_snoc: "odd_cols rows mc (qs @ [q]) = {k. (k \<in> odd_cols rows mc qs) \<noteq> (k \<in> row_idx mc (rows ! q))}"
  by (auto simp: odd_cols_def row_idx_def)

section \<open>The rows of \<open>F C\<^sup>-\<^sup>1\<close>\<close>

lemma triangular_idx:
  assumes tri: "triangular rows mr mc" and j: "j < length mc"
  shows "j \<in> row_idx mc (rows ! (mr ! invert_row_idx (length mr) j))" "\<forall>k \<in> row_idx mc (rows ! (mr ! invert_row_idx (length mr) j)). k \<le> j"
proof -
  let ?m = "length mc" and ?idx = "invert_row_idx (length mc)"
  have m: "length mr = ?m" using tri by (simp add: triangular_def)
  have i: "?idx j < ?m" using invert_idx(1) [OF j] .
  show "j \<in> row_idx mc (rows ! (mr ! invert_row_idx (length mr) j))" using tri i j m by (auto simp: row_idx_def triangular_def)
  show "\<forall>k \<in> row_idx mc (rows ! (mr ! invert_row_idx (length mr) j)). k \<le> j"
  proof (rule ballI, rule ccontr)
    fix k assume k: "k \<in> row_idx mc (rows ! (mr ! invert_row_idx (length mr) j))" "\<not> k \<le> j"
    then have "?idx k < ?idx j" by (auto simp: row_idx_def invert_row_idx_def)
    then show False using k(1) tri i m by (auto simp: row_idx_def triangular_def)
  qed
qed

lemma fc_loop_ok:
  assumes tri: "triangular rows mr mc" and rows: "\<forall>q \<in> set mr. q < length rows \<and> distinct (rows ! q) \<and> (\<forall>c \<in> set (rows ! q). c < n)" and cm: "mapping_ok n mc cm"
    and xs: "descending xs" "set xs = odd_cols rows mc (r # acc)"
  shows "\<exists>L. fc_loop rows mr cm xs acc = Some (Inr (acc @ L)) \<and> set L \<subseteq> set mr \<and> odd_cols rows mc (r # acc @ L) = {}"
  using xs
proof (induction "case xs of [] \<Rightarrow> 0 | C # _ \<Rightarrow> Suc C" arbitrary: xs acc rule: less_induct)
  case less
  show ?case
  proof (cases xs)
    case Nil
    then show ?thesis using less.prems by (intro exI [of _ "[]"]) (simp add: fc_loop.simps)
  next
    case (Cons C xs1)
    let ?H = "mr ! invert_row_idx (length mr) C"
    have C: "C < length mc" using less.prems(2) Cons by (auto simp: odd_cols_def)
    have m: "length mr = length mc" using tri by (simp add: triangular_def)
    have H: "?H \<in> set mr" "invert_row_idx (length mr) C < length mr" using invert_idx(1) [of C "length mr"] C m by simp_all
    note T = triangular_idx [OF tri C]
    obtain xs' where xs': "rfold (fc_cancel cm C) (rows ! ?H) xs = Inr xs'" "descending xs'" "set xs' = {k. (k \<in> set xs) \<noteq> (k \<in> row_idx mc (rows ! ?H))}"
      using fc_cancel_ok [OF cm _ _ T(2) less.prems(1)] rows H(1) by blast
    have hd: "\<forall>k \<in> set xs. k \<le> C" "C \<in> set xs" using less.prems(1) Cons by (auto simp: descending_def)
    then have lt: "\<forall>k \<in> set xs'. k < C" using xs'(3) T by (auto simp: nat_less_le)
    have st: "fc_step rows mr cm C xs = Inr (?H, xs')"
    proof -
      have "xs' = [] \<or> hd xs' \<noteq> C" using lt by (cases xs') auto
      then show ?thesis using H rows xs'(1) by (simp add: fc_step_def)
    qed
    have "set xs' = odd_cols rows mc (r # acc @ [?H])" using xs'(3) less.prems(2) odd_cols_snoc [of rows mc "r # acc" ?H] by simp
    moreover have "(case xs' of [] \<Rightarrow> 0 | D # _ \<Rightarrow> Suc D) < (case xs of [] \<Rightarrow> 0 | D # _ \<Rightarrow> Suc D)" using lt Cons by (cases xs') auto
    ultimately obtain L where "fc_loop rows mr cm xs' (acc @ [?H]) = Some (Inr ((acc @ [?H]) @ L))" "set L \<subseteq> set mr" "odd_cols rows mc (r # (acc @ [?H]) @ L) = {}"
      using less.hyps [OF _ xs'(2), of "acc @ [?H]"] by blast
    then show ?thesis using st Cons H(1) by (intro exI [of _ "?H # L"]) (simp add: fc_loop.simps [of rows mr cm "C # xs1"])
  qed
qed

lemma obind_simps [simp]: "obind (Some (Inr x)) f = f x" "obind (Some (Inl e)) f = Some (Inl e)" "obind None f = None"
  by (simp_all add: obind_def)

lemma omap_ok:
  assumes "\<And>x. x \<in> set xs \<Longrightarrow> \<exists>y. f x = Some (Inr y) \<and> Q x y"
  shows "\<exists>ys. omap f xs = Some (Inr ys) \<and> list_all2 Q xs ys"
  using assms
proof (induction xs)
  case (Cons x xs)
  obtain y where "f x = Some (Inr y)" "Q x y" using Cons.prems by auto
  moreover obtain ys where "omap f xs = Some (Inr ys)" "list_all2 Q xs ys" using Cons by auto
  ultimately show ?case by auto
qed simp

text \<open>A gap row and some main rows add up to zero on the main columns.\<close>

definition cancels :: "Paxos \<Rightarrow> nat list \<Rightarrow> nat list \<Rightarrow> nat \<Rightarrow> nat list \<Rightarrow> bool" where
  "cancels p mr mc r L \<longleftrightarrow> set L \<subseteq> set mr \<and> (\<forall>c \<in> set mc. even (uses (px_rows p) c (r # L)))"

lemma odd_cols_empty:
  assumes "odd_cols rows mc qs = {}"
  shows "\<forall>c \<in> set mc. even (uses rows c qs)"
proof
  fix c assume "c \<in> set mc"
  then obtain k where k: "k < length mc" "mc ! k = c" by (metis in_set_conv_nth)
  show "even (uses rows c qs)"
  proof (rule ccontr)
    assume "odd (uses rows c qs)"
    then have "invert_row_idx (length mc) k \<in> odd_cols rows mc qs" using k invert_idx [OF k(1)] by (simp add: odd_cols_def)
    then show False using assms by simp
  qed
qed

lemma fc_row_ok:
  assumes p: "paxos_rows p" and tri: "triangular (px_rows p) mr mc" "distinct mc" "set mc \<subseteq> {0..<sparse_size p}" "set mr \<subseteq> {0..<px_num_items p}"
    and gap: "r < px_num_items p" "m \<in> set mr"
  shows "\<exists>L. fc_row p mr mc (r, m) = Some (Inr L) \<and> cancels p mr mc r L"
proof -
  have lt: "r < length (px_rows p)" "m < length (px_rows p)" using gap tri(4) p by (auto simp: paxos_rows_def)
  show ?thesis
  proof (cases "px_rows p ! r = px_rows p ! m")
    case True
    then show ?thesis using lt gap(2) by (intro exI [of _ "[m]"]) (auto simp: fc_row_def cancels_def)
  next
    case False
    have sub: "set mc \<subseteq> {0..<px_size p}" using tri(3) by (auto simp: px_size_def)
    obtain cm where cm: "col_mapping (px_size p) mc = Inr cm" "mapping_ok (px_size p) mc cm" using col_mapping_ok [OF tri(2) sub] by blast
    have cols: "q < length (px_rows p) \<and> distinct (px_rows p ! q) \<and> (\<forall>c \<in> set (px_rows p ! q). c < px_size p)" if "q < px_num_items p" for q
      using paxos_rowsD [OF p that] by (auto simp: px_size_def intro: trans_less_add1)
    obtain xs where xs: "fc_start cm (px_rows p ! r) = Inr xs" "descending xs" "set xs = row_idx mc (px_rows p ! r)"
      using fc_start_ok [OF cm(2), of "px_rows p ! r"] cols [OF gap(1)] by blast
    have "odd_cols (px_rows p) mc [r] = row_idx mc (px_rows p ! r)" by (auto simp: odd_cols_def row_idx_def)
    moreover have "\<forall>q \<in> set mr. q < length (px_rows p) \<and> distinct (px_rows p ! q) \<and> (\<forall>c \<in> set (px_rows p ! q). c < px_size p)"
    proof
      fix q assume "q \<in> set mr"
      then have "q < px_num_items p" using tri(4) by auto
      then show "q < length (px_rows p) \<and> distinct (px_rows p ! q) \<and> (\<forall>c \<in> set (px_rows p ! q). c < px_size p)" by (rule cols)
    qed
    ultimately obtain L where "fc_loop (px_rows p) mr cm xs [] = Some (Inr L)" "set L \<subseteq> set mr" "odd_cols (px_rows p) mc (r # L) = {}"
      using fc_loop_ok [OF tri(1) _ cm(2) xs(2), of r "[]"] xs(3) by (metis append_Nil)
    then show ?thesis using lt False cm(1) xs(1) odd_cols_empty [of "px_rows p" mc "r # L"] by (auto simp: fc_row_def cancels_def simp del: uses_simps)
  qed
qed

lemma GetFCInv_ok:
  assumes "paxos_rows p" "triangular (px_rows p) mr mc" "distinct mc" "set mc \<subseteq> {0..<sparse_size p}" "set mr \<subseteq> {0..<px_num_items p}"
    and "\<forall>(r, m) \<in> set gap. r < px_num_items p \<and> m \<in> set mr"
  shows "\<exists>fcinv. GetFCInv p mr mc gap = Some (Inr fcinv) \<and> length fcinv = length gap \<and> (\<forall>i < length gap. cancels p mr mc (fst (gap ! i)) (fcinv ! i))"
proof -
  have "\<exists>L. fc_row p mr mc g = Some (Inr L) \<and> cancels p mr mc (fst g) L" if "g \<in> set gap" for g
    using fc_row_ok [OF assms(1-5), of "fst g" "snd g"] assms(6) that by (cases g) auto
  then obtain fcinv where "omap (fc_row p mr mc) gap = Some (Inr fcinv)" "list_all2 (\<lambda>g L. cancels p mr mc (fst g) L) gap fcinv"
    using omap_ok [of gap "fc_row p mr mc" "\<lambda>g L. cancels p mr mc (fst g) L"] by blast
  then show ?thesis by (auto simp: GetFCInv_def list_all2_conv_all_nth)
qed

section \<open>Dense columns for the gap\<close>

lemma comb_while_le: "comb_while index kk n cur nCk = Inr (n', cur', nCk') \<Longrightarrow> n' \<le> n"
proof (induction n arbitrary: cur nCk rule: less_induct)
  case (less n)
  have "n = n' \<or> (\<exists>k cur1 nCk1. n = Suc (Suc k) \<and> comb_while index kk (Suc k) cur1 nCk1 = Inr (n', cur', nCk'))"
    using less.prems by (subst (asm) comb_while.simps) (auto simp: Let_def split: if_splits nat.splits)
  then show ?case using less.IH by fastforce
qed

lemma comb_stepE:
  assumes "comb_step index kk (n, cur, nCk, cols) = Inr st"
  obtains n1 cur1 nCk1 where "n \<noteq> 0" "comb_while index kk n cur (nCk * of_nat kk div of_nat n) = Inr (n1, cur1, nCk1)"
    "st = (n1 - 1, cur1, nCk1, cols[kk - 1 := n1 - 1])"
  using assms by (auto simp: comb_step_def rbind_eq_Inr_iff set_at_eq_Inr_iff split: if_splits)

lemma comb_steps:
  assumes "rfold (comb_step index) ks (n, cur, nCk, cols) = Inr (n', cur', nCk', cols')" "n \<le> d" "\<forall>c \<in> set cols. c < d"
  shows "length cols' = length cols \<and> (\<forall>c \<in> set cols'. c < d)"
  using assms
proof (induction ks arbitrary: n cur nCk cols)
  case (Cons kk ks)
  obtain st where st: "comb_step index kk (n, cur, nCk, cols) = Inr st" "rfold (comb_step index) ks st = Inr (n', cur', nCk', cols')"
    using Cons.prems(1) by (auto simp: rbind_eq_Inr_iff)
  obtain n1 cur1 nCk1 where w: "n \<noteq> 0" "comb_while index kk n cur (nCk * of_nat kk div of_nat n) = Inr (n1, cur1, nCk1)"
    "st = (n1 - 1, cur1, nCk1, cols[kk - 1 := n1 - 1])" using comb_stepE [OF st(1)] .
  have "n1 \<le> n" using comb_while_le [OF w(2)] .
  then have "n1 - 1 \<le> d" "n1 - 1 < d" using Cons.prems(2) w(1) by auto
  then show ?case using Cons.IH [OF st(2) [unfolded w(3)]] Cons.prems(3) by (auto dest!: set_update_subset_insert [THEN subsetD])
qed simp

lemma ithCombination_range:
  assumes "ithCombination index n k = Inr cols" "0 < n"
  shows "length cols = k \<and> (\<forall>c \<in> set cols. c < n)"
proof -
  let ?nCk = "fold (\<lambda>i nCk. nCk * (of_nat n - of_nat i) div of_nat (i + 1)) [0..<k] 1 :: 64 word"
  obtain n' cur nCk where "rfold (comb_step index) (rev [1..<Suc k]) (n, ?nCk, ?nCk, replicate k 0) = Inr (n', cur, nCk, cols)"
    using assms(1) by (auto simp: ithCombination_def Let_def rbind_eq_Inr_iff)
  from comb_steps [OF this, of n] show ?thesis using assms(2) by simp
qed

definition gap_dense :: "Paxos \<Rightarrow> nat list \<Rightarrow> nat \<Rightarrow> 128 word" where
  "gap_dense p L r = px_dense p ! r XOR xorl (map ((!) (px_dense p)) L)"

lemma rfold_add_cell: "\<forall>c \<in> set row. c < length P \<Longrightarrow> rfold (add_cell P) row y = Inr (y XOR xorl (map ((!) P) row))"
  by (induction row arbitrary: y) (auto simp: add_cell_def xor_ac)

lemma ee_rows:
  assumes "r < length (px_dense p)" "\<forall>q \<in> set L. q < length (px_dense p)"
  shows "ee_row p L (r, m) = Inr (gap_dense p L r)" "eprime_row p L (r, m) = Inr (gap_dense p L r)"
proof -
  have "rfold (\<lambda>c x. rbind (at (px_dense p) c) (\<lambda>d. Inr (x XOR d))) L y = Inr (y XOR xorl (map ((!) (px_dense p)) L))" for y
    using rfold_add_cell [OF assms(2), of y] by (simp add: add_cell_def [abs_def])
  then show "ee_row p L (r, m) = Inr (gap_dense p L r)" "eprime_row p L (r, m) = Inr (gap_dense p L r)"
    using assms(1) by (simp_all add: ee_row_def eprime_row_def gap_dense_def)
qed

lemma ee_fill_ok:
  assumes EE: "mtx_ok g EE" and len: "length fcinv = g" "length gap = g" "length cols = g" "\<forall>c \<in> set cols. c < 128"
    and row: "\<And>i. i < g \<Longrightarrow> eerow (fcinv ! i) (gap ! i) = Inr (E i)"
  shows "\<exists>EE'. ee_fill eerow fcinv gap cols EE = Inr EE' \<and> mtx_ok g EE' \<and> (\<forall>i < g. \<forall>j < g. mat EE' i j = bit (E i) (cols ! j))"
proof -
  let ?I = "\<lambda>i m. mtx_ok g m \<and> (\<forall>k < i. \<forall>j < g. mat m k j = bit (E k) (cols ! j))"
  have "\<exists>m. ee_fill eerow fcinv gap cols EE = Inr m \<and> ?I g m"
    unfolding ee_fill_def Let_def len(2)
  proof (rule rfold_upt_inv [where I = ?I])
    fix i m assume i: "i < g" and inv: "?I i m"
    let ?J = "\<lambda>j m. ?I i m \<and> (\<forall>k < j. mat m i k = bit (E i) (cols ! k))"
    have "\<exists>m'. rfold (\<lambda>j EE. rbind (at cols j) (\<lambda>c. rbind (bit_at (E i) c) (\<lambda>b. mtx_set i j b EE))) [0..<g] m = Inr m' \<and> ?J g m'"
    proof (rule rfold_upt_inv [where I = ?J])
      fix j m1 assume j: "j < g" and J: "?J j m1"
      have c: "cols ! j < 128" using len(3,4) j by simp
      obtain m2 where "mtx_set i j (bit (E i) (cols ! j)) m1 = Inr m2" "mtx_ok g m2"
        "\<forall>r < g. \<forall>c < g. mat m2 r c = (if r = i \<and> c = j then bit (E i) (cols ! j) else mat m1 r c)"
        using mtx_set_ok [of g m1 i j] J i j by blast
      then show "\<exists>s'. rbind (at cols j) (\<lambda>c. rbind (bit_at (E i) c) (\<lambda>b. mtx_set i j b m1)) = Inr s' \<and> ?J (Suc j) s'"
        using j J c len(3) i by (auto simp: bit_at_def less_Suc_eq)
    qed (use inv in simp)
    then show "\<exists>s'. rbind (at fcinv i) (\<lambda>fc. rbind (at gap i) (\<lambda>gap. rbind (eerow fc gap) (\<lambda>EERow.
        rfold (\<lambda>j EE. rbind (at cols j) (\<lambda>c. rbind (bit_at EERow c) (\<lambda>b. mtx_set i j b EE))) [0..<g] m))) = Inr s' \<and> ?I (Suc i) s'"
      using i len row [OF i] by (auto simp: less_Suc_eq)
  qed (use EE in simp)
  then show ?thesis by auto
qed

lemma resize_ok: "mtx_ok g (DenseMtx_resize g g EE)"
  by (simp add: mtx_ok_def DenseMtx_resize_def Let_def)

text \<open>The matrix of the gap.\<close>

definition gap_mat :: "Paxos \<Rightarrow> nat list list \<Rightarrow> (nat \<times> nat) list \<Rightarrow> nat list \<Rightarrow> nat \<Rightarrow> nat \<Rightarrow> bool" where
  "gap_mat p fcinv gap cols i j = bit (gap_dense p (fcinv ! i) (fst (gap ! i))) (cols ! j)"

definition gap_refs :: "Paxos \<Rightarrow> nat list list \<Rightarrow> (nat \<times> nat) list \<Rightarrow> bool" where
  "gap_refs p fcinv gap \<longleftrightarrow> length fcinv = length gap \<and>
     (\<forall>i < length gap. fst (gap ! i) < length (px_dense p) \<and> (\<forall>q \<in> set (fcinv ! i). q < length (px_dense p)))"

lemma singular_cong:
  assumes "\<And>r c. r < n \<Longrightarrow> c < n \<Longrightarrow> A r c = B r c"
  shows "singular n A TYPE('a::len word) = singular n B TYPE('a word)"
proof -
  have "lin n A x r = lin n B x r" if "r < n" for x :: "nat \<Rightarrow> 'a word" and r using assms that by (intro lin_cong) auto
  then show ?thesis by (simp add: singular_def)
qed

lemma inverse_regular:
  assumes "\<forall>x y :: nat \<Rightarrow> 'a::len word. (\<forall>r < n. lin n A x r = y r) \<longleftrightarrow> (\<forall>r < n. x r = lin n B y r)"
  shows "\<not> singular n A TYPE('a word)"
proof
  assume "singular n A TYPE('a word)"
  then obtain x :: "nat \<Rightarrow> 'a word" and c where x: "c < n" "x c \<noteq> 0" "\<forall>r < n. lin n A x r = 0" by (auto simp: singular_def)
  then have "\<forall>r < n. x r = lin n B (\<lambda>_. 0) r" using assms [rule_format, of x "\<lambda>_. 0"] by simp
  then show False using x(1,2) by (simp add: lin_def)
qed

lemma ee_matrix:
  assumes refs: "gap_refs p fcinv gap" and cols: "length cols = length gap" "\<forall>c \<in> set cols. c < 128" and EE: "mtx_ok (length gap) EE"
    and row: "eerow = ee_row p \<or> eerow = eprime_row p"
  shows "\<exists>EE' Inv EE''. ee_fill eerow fcinv gap cols EE = Inr EE' \<and> DenseMtx_Invert EE' = Inr (Inv, EE'') \<and>
     (mtx_ok (length gap) Inv \<and> \<not> singular (length gap) (gap_mat p fcinv gap cols) TYPE('a::len word) \<and>
        (\<forall>x y :: nat \<Rightarrow> 'a word. (\<forall>r < length gap. lin (length gap) (gap_mat p fcinv gap cols) x r = y r) \<longleftrightarrow> (\<forall>r < length gap. x r = lin (length gap) (mat Inv) y r)) \<or>
      Inv = DenseMtx_empty \<and> singular (length gap) (gap_mat p fcinv gap cols) TYPE('a word))"
proof -
  let ?g = "length gap" and ?A = "gap_mat p fcinv gap cols"
  have "eerow (fcinv ! i) (gap ! i) = Inr (gap_dense p (fcinv ! i) (fst (gap ! i)))" if "i < ?g" for i
    using ee_rows [of "fst (gap ! i)" p "fcinv ! i" "snd (gap ! i)"] refs that row by (auto simp: gap_refs_def)
  then obtain EE' where EE': "ee_fill eerow fcinv gap cols EE = Inr EE'" "mtx_ok ?g EE'" "\<forall>i < ?g. \<forall>j < ?g. mat EE' i j = ?A i j"
    using ee_fill_ok [OF EE _ refl cols(1,2), of fcinv eerow "\<lambda>i. gap_dense p (fcinv ! i) (fst (gap ! i))"] refs by (auto simp: gap_refs_def gap_mat_def)
  have L: "lin ?g (mat EE') x r = lin ?g ?A x r" if "r < ?g" for x :: "nat \<Rightarrow> 'a word" and r using EE'(3) that by (intro lin_cong) simp
  have S: "singular ?g (mat EE') TYPE('a word) = singular ?g ?A TYPE('a word)" using EE'(3) by (intro singular_cong) auto
  obtain Inv EE'' where Inv: "DenseMtx_Invert EE' = Inr (Inv, EE'')" "mtx_ok ?g Inv \<and>
       (\<forall>x y :: nat \<Rightarrow> 'a word. (\<forall>r < ?g. lin ?g (mat EE') x r = y r) \<longleftrightarrow> (\<forall>r < ?g. x r = lin ?g (mat Inv) y r)) \<or>
      Inv = DenseMtx_empty \<and> singular ?g (mat EE') TYPE('a word)"
    using Invert_ok [OF EE'(2), where 'a = 'a] by blast
  from Inv(2) show ?thesis
  proof
    assume i: "mtx_ok ?g Inv \<and> (\<forall>x y :: nat \<Rightarrow> 'a word. (\<forall>r < ?g. lin ?g (mat EE') x r = y r) \<longleftrightarrow> (\<forall>r < ?g. x r = lin ?g (mat Inv) y r))"
    then have "\<not> singular ?g ?A TYPE('a word)" using inverse_regular [of ?g "mat EE'" "mat Inv", where 'a = 'a] S by blast
    then show ?thesis using EE'(1) Inv(1) i L by (intro exI [of _ EE'] exI [of _ Inv] exI [of _ EE'']) simp
  qed (use EE'(1) Inv(1) S in auto)
qed

lemma gap_loop_ok:
  assumes refs: "gap_refs p fcinv gap" and d: "0 < dense_size p" "dense_size p \<le> 128" and e: "e \<noteq> - 1" and ci: "ci \<le> e"
  shows "\<exists>r. gap_loop p fcinv gap e ci EE = Some r \<and>
     (\<forall>cols. r = Inr cols \<longrightarrow> length cols = length gap \<and> (\<forall>c \<in> set cols. c < dense_size p) \<and> \<not> singular (length gap) (gap_mat p fcinv gap cols) TYPE('a::len word))"
  using ci
proof (induction "unat e - unat ci" arbitrary: ci EE rule: less_induct)
  case less
  let ?g = "length gap"
  note eq = gap_loop.simps [of p fcinv gap e ci EE]
  show ?case
  proof (cases "ithCombination ci (dense_size p) ?g")
    case (Inl err)
    then show ?thesis by (simp add: eq)
  next
    case (Inr cols)
    have cols: "length cols = ?g" "\<forall>c \<in> set cols. c < dense_size p" using ithCombination_range [OF Inr d(1)] by auto
    then have c128: "\<forall>c \<in> set cols. c < 128" using d(2) by auto
    obtain EE' Inv EE'' where E: "ee_fill (ee_row p) fcinv gap cols (DenseMtx_resize ?g ?g EE) = Inr EE'" "DenseMtx_Invert EE' = Inr (Inv, EE'')"
      "mtx_ok ?g Inv \<and> \<not> singular ?g (gap_mat p fcinv gap cols) TYPE('a word) \<or> Inv = DenseMtx_empty"
      using ee_matrix [OF refs cols(1) c128 resize_ok, of "ee_row p" EE, where 'a = 'a] by blast
    show ?thesis
    proof (cases "ci + 1 \<le> e")
      case le: True
      show ?thesis
      proof (cases "dm_bit_rows Inv \<noteq> 0")
        case True
        then have "\<not> singular ?g (gap_mat p fcinv gap cols) TYPE('a word)" using E(3) by (auto simp: DenseMtx_empty_def)
        then show ?thesis using Inr E(1,2) le True cols by (simp add: eq)
      next
        case False
        have "ci \<noteq> - 1" using less.prems e by (metis word_order.extremum_uniqueI)
        then have "1 + ci \<noteq> 0" by (metis add.commute add_eq_0_iff)
        then have "unat (ci + 1) = unat ci + 1" using unatSuc [of ci] by (simp add: add.commute)
        then have "unat e - unat (ci + 1) < unat e - unat ci" using le by (simp add: word_le_nat_alt)
        then show ?thesis using less.hyps [OF _ le, of EE''] Inr E(1,2) le False by (simp add: eq)
      qed
    qed (use Inr in \<open>simp add: eq\<close>)
  qed
qed

lemma GetGapCols_ok:
  assumes "gap_refs p fcinv gap" "gap \<noteq> []" "0 < dense_size p" "dense_size p \<le> 128" "Choose (of_nat (dense_size p)) (length gap) \<noteq> - 1"
  shows "\<exists>r. GetGapCols p fcinv gap = Some r \<and>
     (\<forall>cols. r = Inr cols \<longrightarrow> length cols = length gap \<and> (\<forall>c \<in> set cols. c < dense_size p) \<and> \<not> singular (length gap) (gap_mat p fcinv gap cols) TYPE('a::len word))"
  using gap_loop_ok [OF assms(1,3,4,5), of 0 DenseMtx_empty, where 'a = 'a] assms(2) by (simp add: GetGapCols_def)

lemma regular_distinct:
  assumes "\<not> singular (length gap) (gap_mat p fcinv gap cols) TYPE('a::len word)" "length cols = length gap"
  shows "distinct cols"
proof (rule ccontr)
  assume "\<not> distinct cols"
  then obtain i j where ij: "i < length gap" "j < length gap" "i \<noteq> j" "cols ! i = cols ! j" using assms(2) by (auto simp: distinct_conv_nth)
  let ?x = "\<lambda>c. if c = i then 1 else if c = j then 1 else 0 :: 'a word"
  have "lin (length gap) (gap_mat p fcinv gap cols) ?x r = 0" for r
  proof -
    let ?f = "\<lambda>c. sel (gap_mat p fcinv gap cols r c) (?x c)"
    have "lin (length gap) (gap_mat p fcinv gap cols) ?x r = xorl (map (\<lambda>c. (if c = i then ?f c else 0) XOR (if c = j then ?f c else 0)) [0..<length gap])"
      unfolding lin_def using ij(3) by (intro xorl_cong) auto
    then show ?thesis using ij by (simp add: xorl_map_xor xorl_single gap_mat_def)
  qed
  then have "singular (length gap) (gap_mat p fcinv gap cols) TYPE('a word)"
    unfolding singular_def using ij(1) by (intro exI [of _ ?x] conjI exI [of _ i]) auto
  then show False using assms(1) by simp
qed

end
