(* ===== verification/Paxos_Encode.thy ===== *)
theory Paxos_Encode
  imports Paxos_Gap
begin

text \<open>
  The key-value store holds what was put into it: decoding the vector that \<open>Paxos::Encode\<close> returns gives for each key its
  value. Decoding 32 keys at once is compared with decoding one key.
\<close>

section \<open>Values of rows\<close>

definition sparse_sum :: "nat list \<Rightarrow> 'a::len word list \<Rightarrow> 'a word" where
  "sparse_sum row P = xorl (map ((!) P) row)"

definition gf_pow :: "bool \<Rightarrow> 128 word \<Rightarrow> nat \<Rightarrow> 128 word" where
  "gf_pow avx2 d i = ((\<lambda>x. Galois128_Mul avx2 x d) ^^ i) d"

definition dense_sum :: "bool \<Rightarrow> Paxos \<Rightarrow> 128 word \<Rightarrow> 'a::len word list \<Rightarrow> 'a word" where
  "dense_sum avx2 p d P =
     (if px_dt p = GF128 then xorl (map (\<lambda>i. MultAdd_mul avx2 (P ! (sparse_size p + i)) (gf_pow avx2 d i)) [0..<dense_size p])
      else xorl (map (\<lambda>i. sel (bit d i) (P ! (sparse_size p + i))) [0..<dense_size p]))"

definition row_value :: "bool \<Rightarrow> Paxos \<Rightarrow> nat list \<Rightarrow> 128 word \<Rightarrow> 'a::len word list \<Rightarrow> 'a word" where
  "row_value avx2 p row d P = sparse_sum row P XOR dense_sum avx2 p d P"

lemma gf_pow_simps: "gf_pow avx2 d 0 = d" "gf_pow avx2 d (Suc i) = Galois128_Mul avx2 (gf_pow avx2 d i) d"
  by (simp_all add: gf_pow_def)

lemma gf_fold:
  assumes "1 \<le> n" "s + n \<le> length P"
  shows "rfold (\<lambda>j (x, y). let x = Galois128_Mul avx2 x d in rbind (at P (s + j)) (\<lambda>v. Inr (x, y XOR MultAdd_mul avx2 v x))) [1..<n] (d, y) =
     Inr (gf_pow avx2 d (n - 1), y XOR xorl (map (\<lambda>i. MultAdd_mul avx2 (P ! (s + i)) (gf_pow avx2 d i)) [1..<n]))"
  using assms
proof (induction n rule: dec_induct)
  case (step n)
  then have "[1..<Suc n] = [1..<n] @ [n]" "gf_pow avx2 d n = Galois128_Mul avx2 (gf_pow avx2 d (n - 1)) d"
    using gf_pow_simps(2) [of avx2 d "n - 1"] by simp_all
  then show ?case using step by (simp add: Let_def xor_ac)
qed (simp add: gf_pow_simps)

lemma gf_sum: "1 \<le> n \<Longrightarrow> xorl (map f [0..<n]) = f 0 XOR xorl (map f [1..<n])"
  by (simp add: upt_conv_Cons)

lemma dense_sum_gf:
  "px_dt p = GF128 \<Longrightarrow> 1 \<le> dense_size p \<Longrightarrow> dense_sum avx2 p d P =
     MultAdd_mul avx2 (P ! sparse_size p) d XOR xorl (map (\<lambda>i. MultAdd_mul avx2 (P ! (sparse_size p + i)) (gf_pow avx2 d i)) [1..<dense_size p])"
  using gf_sum [of "dense_size p" "\<lambda>i. MultAdd_mul avx2 (P ! (sparse_size p + i)) (gf_pow avx2 d i)"] by (simp add: dense_sum_def gf_pow_simps)

definition dense_ok :: "'m PaxosParam_scheme \<Rightarrow> bool" where
  "dense_ok p \<longleftrightarrow> 1 \<le> dense_size p \<and> (px_dt p = Binary \<longrightarrow> dense_size p \<le> 64)"

lemma gf_dense_value:
  assumes "px_dt p = GF128" "dense_ok p" "length P = px_size p" "i < length (px_dense p)"
  shows "gf_dense avx2 p True i P y = Inr (y XOR dense_sum avx2 p (px_dense p ! i) P)"
  using assms gf_fold [of "dense_size p" "sparse_size p" P avx2 "px_dense p ! i" "y XOR MultAdd_mul avx2 (P ! sparse_size p) (px_dense p ! i)"]
  by (simp add: gf_dense_def dense_ok_def px_size_def dense_sum_gf xor_ac)

lemma Decode1_value:
  assumes p: "dense_ok p" "length P = px_size p" and row: "row_ok (px_weight p) (sparse_size p) row" "1 \<le> px_weight p"
  shows "Decode1 avx2 p row d P = Inr (row_value avx2 p row d P)"
proof -
  have len: "length row = px_weight p" and lt: "\<And>j. j < px_weight p \<Longrightarrow> row ! j < length P"
    using row p(2) by (auto simp: row_ok_def px_size_def intro: trans_less_add1)
  have "rfold (\<lambda>j v. rbind (at row j) (\<lambda>c. add_cell P c v)) [1..<n] v = Inr (v XOR xorl (map (\<lambda>j. P ! (row ! j)) [1..<n]))"
    if "1 \<le> n" "n \<le> px_weight p" for n v
    using that by (induction n rule: dec_induct) (auto simp: len lt add_cell_def xor_ac)
  moreover have "P ! (row ! 0) XOR xorl (map (\<lambda>j. P ! (row ! j)) [1..<px_weight p]) = sparse_sum row P"
  proof -
    have "map (\<lambda>j. P ! (row ! j)) [0..<px_weight p] = map ((!) P) row" using len by (intro nth_equalityI) auto
    then show ?thesis using gf_sum [OF row(2), of "\<lambda>j. P ! (row ! j)"] by (simp add: sparse_sum_def)
  qed
  ultimately have sp: "rfold (\<lambda>j v. rbind (at row j) (\<lambda>c. add_cell P c v)) [1..<px_weight p] (P ! (row ! 0)) = Inr (sparse_sum row P)"
    using row(2) by simp
  show ?thesis
  proof (cases "px_dt p")
    case GF128
    then show ?thesis
      using sp lt [of 0] len row(2) p gf_fold [of "dense_size p" "sparse_size p" P avx2 d "sparse_sum row P XOR MultAdd_mul avx2 (P ! sparse_size p) d"]
      by (simp add: Decode1_def dense_ok_def px_size_def row_value_def dense_sum_gf xor_ac add.commute [of _ "sparse_size p"])
  next
    case Binary
    then have n: "dense_size p \<le> 64" using p(1) by (simp add: dense_ok_def)
    have "rfold (\<lambda>i v. rbind (bit_at d i) (\<lambda>b. if b then add_cell P (i + sparse_size p) v else Inr v)) [0..<n] v =
        Inr (v XOR xorl (map (\<lambda>i. sel (bit d i) (P ! (sparse_size p + i))) [0..<n]))" if "n \<le> dense_size p" for n v
      using that p(2) \<open>dense_size p \<le> 64\<close> by (induction n) (auto simp: bit_at_def add_cell_def px_size_def xor_ac add.commute [of _ "sparse_size p"])
    then show ?thesis using sp lt [of 0] len row(2) Binary by (simp add: Decode1_def row_value_def dense_sum_def)
  qed
qed

section \<open>The dense part of a row in the back substitution\<close>

lemma xorl_support:
  assumes "distinct xs" "distinct ys" "set ys \<subseteq> set xs" "\<And>x. x \<in> set xs \<Longrightarrow> x \<notin> set ys \<Longrightarrow> f x = 0"
  shows "xorl (map f xs) = xorl (map f ys)"
proof -
  have "xorl (map f zs) = xorl (map f (filter (\<lambda>x. x \<in> set ys) zs))" if "\<forall>x \<in> set zs. x \<notin> set ys \<longrightarrow> f x = 0" for zs
    using that by (induction zs) auto
  moreover have "mset (filter (\<lambda>x. x \<in> set ys) xs) = mset ys"
  proof -
    have "set (filter (\<lambda>x. x \<in> set ys) xs) = set ys" "distinct (filter (\<lambda>x. x \<in> set ys) xs)" using assms(1,3) by auto
    then show ?thesis using assms(2) set_eq_iff_mset_eq_distinct by blast
  qed
  ultimately show ?thesis using assms(4) xorl_mset [of "map f (filter (\<lambda>x. x \<in> set ys) xs)" "map f ys"] by (metis mset_map)
qed

lemma low64_bit: "c < 64 \<Longrightarrow> bit (low64 d) c = bit d c"
  by (simp add: low64_def bit_ucast_iff)

lemma binary_all_value:
  assumes "px_dt p = Binary" "dense_ok p" "length P = px_size p" "i < length (px_dense p)"
  shows "binary_dense p True gap_cols masks i P y = Inr (y XOR dense_sum avx2 p (px_dense p ! i) P)"
proof -
  let ?d = "px_dense p ! i"
  have n: "dense_size p \<le> 64" using assms by (simp add: dense_ok_def)
  have "rfold (\<lambda>j (d, y). rbind (if d AND 1 \<noteq> 0 then add_cell P (sparse_size p + j) y else Inr y) (\<lambda>y. Inr (drop_bit 1 d, y))) [0..<n] (low64 ?d, y) =
     Inr (drop_bit n (low64 ?d), y XOR xorl (map (\<lambda>i. sel (bit ?d i) (P ! (sparse_size p + i))) [0..<n]))" if "n \<le> dense_size p" for n
    using that
  proof (induction n)
    case (Suc n)
    have "drop_bit n (low64 ?d) AND 1 \<noteq> 0 \<longleftrightarrow> bit ?d n"
      using Suc.prems n low64_bit [of n ?d] by (simp add: and_one_eq bit_iff_odd_drop_bit odd_iff_mod_2_eq_one)
    then show ?case using Suc assms(3) by (auto simp: add_cell_def px_size_def xor_ac)
  qed simp
  then show ?thesis using n assms by (simp add: binary_dense_def binary_dense_all_def dense_sum_def)
qed

lemma binary_gap_value:
  assumes p: "px_dt p = Binary" "dense_ok p" "length P = px_size p" "i < length (px_dense p)"
    and cols: "distinct cols" "\<forall>c \<in> set cols. c < dense_size p" and zero: "\<And>c. c < dense_size p \<Longrightarrow> c \<notin> set cols \<Longrightarrow> P ! (sparse_size p + c) = 0"
  shows "binary_dense p False cols (map (\<lambda>c. push_bit c 1) cols) i P y = Inr (y XOR dense_sum avx2 p (px_dense p ! i) P)"
proof -
  let ?d = "px_dense p ! i" and ?f = "\<lambda>c. sel (bit (px_dense p ! i) c) (P ! (sparse_size p + c))"
  have n: "dense_size p \<le> 64" using p by (simp add: dense_ok_def)
  have mask: "low64 ?d AND push_bit c 1 \<noteq> 0 \<longleftrightarrow> bit ?d c" if "c < 64" for c
    using low64_bit [OF that, of ?d] by (simp add: push_bit_eq_mult and_exp_eq_0_iff_not_bit)
  have "rfold (\<lambda>j y. rbind (at (px_dense p) i) (\<lambda>d. rbind (at (map (\<lambda>c. push_bit c 1) cols) j) (\<lambda>mask.
       if low64 d AND mask \<noteq> 0 then rbind (at cols j) (\<lambda>c. add_cell P (sparse_size p + c) y) else Inr y))) [0..<m] y = Inr (y XOR xorl (map ?f (take m cols)))"
    if "m \<le> length cols" for m
    using that
  proof (induction m)
    case (Suc m)
    have c: "cols ! m < dense_size p" using Suc.prems cols(2) by simp
    then have "cols ! m < 64" using n by simp
    then show ?case using Suc mask [of "cols ! m"] c p(3,4) by (auto simp: take_Suc_conv_app_nth add_cell_def px_size_def xor_ac)
  qed simp
  moreover have "dense_sum avx2 p ?d P = xorl (map ?f cols)"
    unfolding dense_sum_def using p(1) cols zero by (simp, intro xorl_support) auto
  ultimately show ?thesis using n by (simp add: binary_dense_def binary_dense_gap_def)
qed

section \<open>Back substitution along the triangle\<close>

fun tri_pairs :: "nat list list \<Rightarrow> (nat \<times> nat) list \<Rightarrow> bool" where
  "tri_pairs rows [] \<longleftrightarrow> True"
| "tri_pairs rows ((r, c) # zs) \<longleftrightarrow> c \<in> set (rows ! r) \<and> c \<notin> snd ` set zs \<and> (\<forall>q \<in> fst ` set zs. c \<notin> set (rows ! q)) \<and> tri_pairs rows zs"

lemma triangular_pairs:
  assumes "triangular rows mr mc" "distinct mc"
  shows "tri_pairs rows (zip mr mc)"
proof -
  have "length mr = length mc" using assms(1) by (simp add: triangular_def)
  then show ?thesis using assms
  proof (induction mr mc rule: list_induct2)
    case (Cons r mr c mc)
    have tri: "\<And>k. k < length mc \<Longrightarrow> mc ! k \<in> set (rows ! (mr ! k))" "\<And>k k'. k' < length mc \<Longrightarrow> k < k' \<Longrightarrow> mc ! k \<notin> set (rows ! (mr ! k'))"
      and c: "c \<in> set (rows ! r)" "\<And>k'. k' < length mc \<Longrightarrow> c \<notin> set (rows ! (mr ! k'))"
    proof -
      have T: "\<And>k. k < Suc (length mc) \<Longrightarrow> (c # mc) ! k \<in> set (rows ! ((r # mr) ! k))" "\<And>k k'. k' < Suc (length mc) \<Longrightarrow> k < k' \<Longrightarrow> (c # mc) ! k \<notin> set (rows ! ((r # mr) ! k'))"
        using Cons.prems(1) by (simp_all add: triangular_def)
      show "k < length mc \<Longrightarrow> mc ! k \<in> set (rows ! (mr ! k))" for k using T(1) [of "Suc k"] by simp
      show "k' < length mc \<Longrightarrow> k < k' \<Longrightarrow> mc ! k \<notin> set (rows ! (mr ! k'))" for k k' using T(2) [of "Suc k'" "Suc k"] by simp
      show "c \<in> set (rows ! r)" using T(1) [of 0] by simp
      show "k' < length mc \<Longrightarrow> c \<notin> set (rows ! (mr ! k'))" for k' using T(2) [of "Suc k'" 0] by simp
    qed
    have "tri_pairs rows (zip mr mc)" using Cons.IH Cons.prems(2) tri Cons.hyps by (simp add: triangular_def)
    moreover have "c \<notin> snd ` set (zip mr mc)" using Cons.prems(2) by (auto dest: set_zip_rightD)
    moreover have "c \<notin> set (rows ! q)" if "q \<in> fst ` set (zip mr mc)" for q
    proof -
      have "q \<in> set mr" using that by (auto dest: set_zip_leftD)
      then show ?thesis using c(2) Cons.hyps by (metis in_set_conv_nth)
    qed
    ultimately show ?case using c(1) by auto
  qed simp
qed

lemma sparse_sum_update:
  assumes "distinct row" "c < length P" "P ! c = 0"
  shows "sparse_sum row (P[c := y]) = sparse_sum row P XOR sel (c \<in> set row) y"
  using assms(1)
proof (induction row)
  case (Cons d row)
  then show ?case using assms(2,3) by (cases "d = c") (auto simp: sparse_sum_def nth_list_update xor_ac)
qed (simp add: sparse_sum_def)

lemma backfill_pairs:
  assumes tri: "tri_pairs (px_rows p) zs" and p: "paxos_rows p" "length X = px_num_items p" "length P0 = px_size p"
    and zs: "\<forall>(i, c) \<in> set zs. i < px_num_items p \<and> c < sparse_size p \<and> P0 ! c = 0"
    and dp: "\<And>i P y. i < px_num_items p \<Longrightarrow> length P = px_size p \<Longrightarrow> (\<And>j. sparse_size p \<le> j \<Longrightarrow> P ! j = P0 ! j) \<Longrightarrow> dp i P y = Inr (y XOR D i)"
  shows "\<exists>P1. rfold (backfill_row p dp X) (rev zs) P0 = Inr P1 \<and> length P1 = px_size p \<and> (\<forall>j. j \<notin> snd ` set zs \<longrightarrow> P1 ! j = P0 ! j) \<and>
     (\<forall>(i, c) \<in> set zs. sparse_sum (px_rows p ! i) P1 XOR D i = X ! i)"
  using tri zs
proof (induction zs)
  case (Cons z zs)
  obtain i c where z: "z = (i, c)" by (cases z)
  obtain P1 where P1: "rfold (backfill_row p dp X) (rev zs) P0 = Inr P1" "length P1 = px_size p" "\<forall>j. j \<notin> snd ` set zs \<longrightarrow> P1 ! j = P0 ! j"
    "\<forall>(i, c) \<in> set zs. sparse_sum (px_rows p ! i) P1 XOR D i = X ! i"
    using Cons z by auto
  have ic: "i < px_num_items p" "c < sparse_size p" "P0 ! c = 0" using Cons.prems(2) z by auto
  note R = paxos_rowsD [OF p(1) ic(1)]
  have c: "c < length P1" "P1 ! c = 0" using ic P1 Cons.prems(1) z by (simp_all add: px_size_def)
  have dense: "dp i P1 y = Inr (y XOR D i)" for y
  proof (rule dp [OF ic(1) P1(2)])
    fix j assume "sparse_size p \<le> j"
    then have "j \<notin> snd ` set zs" using Cons.prems(2) by fastforce
    then show "P1 ! j = P0 ! j" using P1(3) by blast
  qed
  have cols: "\<forall>c \<in> set (px_rows p ! i). c < length P1" using R(4) P1(2) by (auto simp: px_size_def intro: trans_less_add1)
  let ?y = "X ! i XOR sparse_sum (px_rows p ! i) P1 XOR D i"
  have step: "backfill_row p dp X (i, c) P1 = Inr (P1[c := ?y])"
    using ic(1) p(2) R(6) c(1) dense rfold_add_cell [OF cols, of "X ! i"] by (simp add: backfill_row_def sparse_sum_def xor.assoc)
  have "sparse_sum (px_rows p ! i) (P1[c := ?y]) XOR D i = X ! i"
    using sparse_sum_update [OF R(2) c] Cons.prems(1) z by (simp add: xor_ac)
  moreover have "sparse_sum (px_rows p ! q) (P1[c := ?y]) = sparse_sum (px_rows p ! q) P1" if "(q, d) \<in> set zs" for q d
  proof -
    have "q < px_num_items p" "c \<notin> set (px_rows p ! q)" using that Cons.prems z by force+
    then show ?thesis using sparse_sum_update [OF paxos_rowsD(2) [OF p(1)] c] by simp
  qed
  ultimately have "\<forall>(q, d) \<in> set (z # zs). sparse_sum (px_rows p ! q) (P1[c := ?y]) XOR D q = X ! q" using P1(4) z by auto
  then show ?case using P1 step z by (intro exI [of _ "P1[c := ?y]"]) (auto simp: nth_list_update)
qed (use p in simp)

section \<open>Gap rows\<close>

lemma sparse_sum_cols:
  assumes "distinct row" "\<forall>c \<in> set row. c < n"
  shows "sparse_sum row P = xorl (map (\<lambda>c. sel (c \<in> set row) (P ! c)) [0..<n])"
proof -
  have "xorl (map (\<lambda>c. sel (c \<in> set row) (P ! c)) [0..<n]) = xorl (map (\<lambda>c. sel (c \<in> set row) (P ! c)) row)"
    using assms by (intro xorl_support) auto
  also have "\<dots> = sparse_sum row P" unfolding sparse_sum_def by (intro xorl_cong) simp
  finally show ?thesis ..
qed

lemma sparse_cancel:
  assumes p: "paxos_rows p" and zero: "\<And>c. c < sparse_size p \<Longrightarrow> c \<notin> set mc \<Longrightarrow> P ! c = 0"
    and can: "cancels p mr mc r L" "r < px_num_items p" "set mr \<subseteq> {0..<px_num_items p}"
  shows "sparse_sum (px_rows p ! r) P = xorl (map (\<lambda>q. sparse_sum (px_rows p ! q) P) L)"
proof -
  let ?n = "sparse_size p" and ?qs = "r # L"
  have qs: "q < px_num_items p" if "q \<in> set ?qs" for q using can that by (auto simp: cancels_def)
  have par: "xorl (map (\<lambda>q. sel (c \<in> set (px_rows p ! q)) v) qs) = sel (odd (uses (px_rows p) c qs)) v" for c v qs
    by (induction qs) (auto simp: sel_def)
  have "xorl (map (\<lambda>q. sparse_sum (px_rows p ! q) P) ?qs) = xorl (map (\<lambda>q. xorl (map (\<lambda>c. sel (c \<in> set (px_rows p ! q)) (P ! c)) [0..<?n])) ?qs)"
    using paxos_rowsD [OF p qs] by (intro xorl_cong sparse_sum_cols) auto
  also have "\<dots> = xorl (map (\<lambda>c. sel (odd (uses (px_rows p) c ?qs)) (P ! c)) [0..<?n])"
    unfolding xorl_swap [of _ "[0..<?n]" ?qs] par ..
  also have "\<dots> = 0"
  proof (rule xorl_zero)
    fix c assume "c \<in> set [0..<?n]"
    then show "sel (odd (uses (px_rows p) c ?qs)) (P ! c) = 0" using can(1) zero [of c] by (cases "c \<in> set mc") (auto simp: cancels_def simp del: uses_simps)
  qed
  finally show ?thesis by simp
qed

lemma gap_row_value:
  assumes p: "paxos_rows p" and zero: "\<And>c. c < sparse_size p \<Longrightarrow> c \<notin> set mc \<Longrightarrow> P ! c = 0"
    and can: "cancels p mr mc r L" "r < px_num_items p" "set mr \<subseteq> {0..<px_num_items p}"
    and main: "\<And>q. q \<in> set mr \<Longrightarrow> row_value avx2 p (px_rows p ! q) (px_dense p ! q) P = X ! q"
    and gap: "dense_sum avx2 p (px_dense p ! r) P XOR xorl (map (\<lambda>q. dense_sum avx2 p (px_dense p ! q) P) L) = X ! r XOR xorl (map ((!) X) L)"
  shows "row_value avx2 p (px_rows p ! r) (px_dense p ! r) P = X ! r"
proof -
  have "xorl (map (\<lambda>q. sparse_sum (px_rows p ! q) P XOR dense_sum avx2 p (px_dense p ! q) P) L) = xorl (map ((!) X) L)"
    using can(1) main by (intro xorl_cong) (auto simp: cancels_def row_value_def)
  then have "sparse_sum (px_rows p ! r) P XOR xorl (map (\<lambda>q. dense_sum avx2 p (px_dense p ! q) P) L) = xorl (map ((!) X) L)"
    using sparse_cancel [OF p zero can] by (simp add: xorl_map_xor)
  then have "dense_sum avx2 p (px_dense p ! r) P XOR xorl (map (\<lambda>q. dense_sum avx2 p (px_dense p ! q) P) L) =
      X ! r XOR (sparse_sum (px_rows p ! r) P XOR xorl (map (\<lambda>q. dense_sum avx2 p (px_dense p ! q) P) L))" using gap by simp
  from arg_cong [OF this, of "\<lambda>v. v XOR xorl (map (\<lambda>q. dense_sum avx2 p (px_dense p ! q) P) L) XOR sparse_sum (px_rows p ! r) P"]
  show ?thesis by (simp add: row_value_def xor_ac)
qed

section \<open>Binary dense columns\<close>

lemma dense_sum_linear: "px_dt p = Binary \<Longrightarrow> xor_linear (\<lambda>d. dense_sum avx2 p d P)"
  by (rule xor_linearI) (simp add: dense_sum_def bit_xor_iff sel_xor xorl_map_xor)

lemma gap_dense_sum:
  assumes "xor_linear (\<lambda>d. dense_sum avx2 p d P)"
  shows "dense_sum avx2 p (gap_dense p L r) P = dense_sum avx2 p (px_dense p ! r) P XOR xorl (map (\<lambda>q. dense_sum avx2 p (px_dense p ! q) P) L)"
  using xor_linear_xor [OF assms] xor_linear_xorl [OF assms, of "(!) (px_dense p)" L] by (simp add: gap_dense_def)

lemma x2_gap_value:
  assumes "i < length gap" "length fcinv = length gap" "fst (gap ! i) < length X" "\<forall>q \<in> set (fcinv ! i). q < length X"
  shows "x2_gap p fcinv gap X i = Inr (X ! fst (gap ! i) XOR xorl (map ((!) X) (fcinv ! i)))"
  using assms by (simp add: x2_gap_def rfold_add_cell)

lemma binary_solve_row:
  assumes "mtx_ok g Inv" "i < g" "length xx = g" "pos < length P" "m \<le> g"
  shows "rfold (\<lambda>j P. rbind (mtx_get Inv i j) (\<lambda>b. if b then rbind (at xx j) (add_at P pos) else Inr P)) [0..<m] P =
     Inr (P[pos := P ! pos XOR xorl (map (\<lambda>j. sel (mat Inv i j) (xx ! j)) [0..<m])])"
  using assms(5)
proof (induction m)
  case (Suc m)
  then show ?case using assms(1-4) mtx_get_ok [OF assms(1,2), of m] by (auto simp: add_at_def xor_ac)
qed simp

lemma binary_solve_ok:
  assumes Inv: "mtx_ok (length cols) Inv" "length xx = length cols" and cols: "distinct cols" "\<forall>c \<in> set cols. c < dense_size p"
    and P: "length P = px_size p" "\<And>c. c \<in> set cols \<Longrightarrow> P ! (sparse_size p + c) = 0"
  shows "\<exists>P1. binary_solve p cols Inv xx P = Inr P1 \<and> length P1 = px_size p \<and> (\<forall>j. j \<notin> (\<lambda>c. sparse_size p + c) ` set cols \<longrightarrow> P1 ! j = P ! j) \<and>
     (\<forall>k < length cols. P1 ! (sparse_size p + cols ! k) = lin (length cols) (mat Inv) ((!) xx) k)"
proof -
  let ?g = "length cols" and ?s = "sparse_size p"
  let ?I = "\<lambda>i P1. length P1 = px_size p \<and> (\<forall>j. j \<notin> (\<lambda>c. ?s + c) ` set cols \<longrightarrow> P1 ! j = P ! j) \<and>
     (\<forall>k < ?g. P1 ! (?s + cols ! k) = (if k < i then lin ?g (mat Inv) ((!) xx) k else 0))"
  have "\<exists>P1. binary_solve p cols Inv xx P = Inr P1 \<and> ?I ?g P1"
    unfolding binary_solve_def Let_def
  proof (rule rfold_upt_inv [where I = ?I])
    fix i P1 assume i: "i < ?g" and inv: "?I i P1"
    let ?pos = "?s + cols ! i" and ?v = "lin ?g (mat Inv) ((!) xx) i"
    have pos: "?pos < length P1" using cols(2) i inv by (simp add: px_size_def)
    have inj: "?s + cols ! k = ?pos \<longleftrightarrow> k = i" if "k < ?g" for k using cols(1) i that by (simp add: nth_eq_iff_index_eq)
    have "P1[?pos := ?v] ! (?s + cols ! k) = (if k < Suc i then lin ?g (mat Inv) ((!) xx) k else 0)" if "k < ?g" for k
      using inv pos inj [OF that] that by (cases "k = i") (simp_all add: nth_list_update less_Suc_eq)
    moreover have "P1[?pos := ?v] ! j = P ! j" if "j \<notin> (\<lambda>c. ?s + c) ` set cols" for j
    proof -
      have "j \<noteq> ?pos" using that nth_mem [OF i] by blast
      then show ?thesis using inv that by simp
    qed
    ultimately have "?I (Suc i) (P1[?pos := ?v])" using inv by simp
    then show "\<exists>s'. rbind (at cols i) (\<lambda>c. rfold (\<lambda>j P. rbind (mtx_get Inv i j) (\<lambda>b. if b then rbind (at xx j) (add_at P (?s + c)) else Inr P)) [0..<?g] P1) = Inr s' \<and> ?I (Suc i) s'"
      using i inv binary_solve_row [OF Inv(1) i Inv(2) pos le_refl] by (intro exI [of _ "P1[?pos := ?v]"]) (simp add: lin_def)
  qed (use P in auto)
  then show ?thesis by auto
qed

definition gap_target :: "'a::len word list \<Rightarrow> nat list \<Rightarrow> nat \<Rightarrow> 'a word" where
  "gap_target X L r = X ! r XOR xorl (map ((!) X) L)"

lemma binary_gap_ok:
  fixes X P :: "'a::len word list"
  assumes p: "paxos_rows p" "px_dt p = Binary" "dense_ok p" "length X = px_num_items p" "length P = px_size p"
    and gap: "gap_refs p fcinv gap" "length cols = length gap" "\<forall>c \<in> set cols. c < dense_size p"
    and reg: "\<not> singular (length gap) (gap_mat p fcinv gap cols) TYPE('a word)" and zero: "\<And>c. c < dense_size p \<Longrightarrow> P ! (sparse_size p + c) = 0"
  shows "\<exists>P1. binary_gap p owns None fcinv gap cols X P = Inr P1 \<and> length P1 = px_size p \<and> (\<forall>j < sparse_size p. P1 ! j = P ! j) \<and>
     (\<forall>c < dense_size p. c \<notin> set cols \<longrightarrow> P1 ! (sparse_size p + c) = 0) \<and>
     (\<forall>i < length gap. dense_sum avx2 p (gap_dense p (fcinv ! i) (fst (gap ! i))) P1 = gap_target X (fcinv ! i) (fst (gap ! i)))"
proof -
  let ?g = "length gap" and ?s = "sparse_size p" and ?A = "gap_mat p fcinv gap cols" and ?t = "\<lambda>i. gap_target X (fcinv ! i) (fst (gap ! i))"
  have dist: "distinct cols" using regular_distinct [OF reg gap(2)] .
  have c128: "\<forall>c \<in> set cols. c < 128" using gap(3) p(2,3) by (auto simp: dense_ok_def)
  have dlen: "length (px_dense p) = length X" using p(1,4) by (simp add: paxos_rows_def)
  have "rmap (x2_gap p fcinv gap X) [0..<?g] = Inr (map ?t [0..<?g])"
    using gap(1) dlen by (intro rmap_total) (auto simp: gap_target_def gap_refs_def intro!: x2_gap_value)
  then have x2: "GetX2Prime p fcinv gap cols X [] = Inr (map ?t [0..<?g])" using p(4) by (simp add: GetX2Prime_def)
  obtain EE Inv EE' where E: "GetEPrime p fcinv gap cols = Inr EE" "DenseMtx_Invert EE = Inr (Inv, EE')" "mtx_ok ?g Inv"
    "\<forall>x y :: nat \<Rightarrow> 'a word. (\<forall>r < ?g. lin ?g ?A x r = y r) \<longleftrightarrow> (\<forall>r < ?g. x r = lin ?g (mat Inv) y r)"
    using ee_matrix [OF gap(1,2) c128 mtx_new_ok(1), of "eprime_row p", where 'a = 'a] reg by (auto simp: GetEPrime_def)
  obtain P1 where P1: "binary_solve p cols Inv (map ?t [0..<?g]) P = Inr P1" "length P1 = px_size p" "\<forall>j. j \<notin> (\<lambda>c. ?s + c) ` set cols \<longrightarrow> P1 ! j = P ! j"
    "\<forall>k < ?g. P1 ! (?s + cols ! k) = lin ?g (mat Inv) ((!) (map ?t [0..<?g])) k"
    using binary_solve_ok [of cols Inv "map ?t [0..<?g]" p P] E(3) gap(2,3) dist p(5) zero by auto
  have z1: "P1 ! (?s + c) = 0" if "c < dense_size p" "c \<notin> set cols" for c
    using P1(3) [rule_format, of "?s + c"] zero [OF that(1)] that(2) by (simp add: image_iff)
  have "lin ?g ?A (\<lambda>j. P1 ! (?s + cols ! j)) r = map ?t [0..<?g] ! r" if "r < ?g" for r
    using E(4) P1(4) that by blast
  moreover have "dense_sum avx2 p (gap_dense p (fcinv ! i) (fst (gap ! i))) P1 = lin ?g ?A (\<lambda>j. P1 ! (?s + cols ! j)) i" for i
  proof -
    let ?f = "\<lambda>c. sel (bit (gap_dense p (fcinv ! i) (fst (gap ! i))) c) (P1 ! (?s + c))"
    have "xorl (map ?f [0..<dense_size p]) = xorl (map ?f cols)" using dist gap(3) z1 by (intro xorl_support) auto
    also have "map ?f cols = map (\<lambda>j. sel (?A i j) (P1 ! (?s + cols ! j))) [0..<?g]" using gap(2) by (intro nth_equalityI) (auto simp: gap_mat_def)
    finally show ?thesis using p(2) by (simp add: dense_sum_def lin_def)
  qed
  moreover have "P1 ! j = P ! j" if "j < ?s" for j using P1(3) that by (metis imageE not_add_less1)
  ultimately show ?thesis using E(1,2) P1(1,2) x2 z1 by (intro exI [of _ P1]) (auto simp: binary_gap_def)
qed

section \<open>Dense columns over the field\<close>

lemma ucast_back: "LENGTH('a) \<le> LENGTH('b) \<Longrightarrow> ucast (ucast (v :: 'a::len word) :: 'b::len word) = v"
  by (rule bit_word_eqI) (simp add: bit_ucast_iff)

lemma MultAdd_mul_simps:
  "MultAdd_mul avx2 0 m = 0" "LENGTH('a) \<le> 128 \<Longrightarrow> MultAdd_mul avx2 (v :: 'a::len word) 1 = v" "MultAdd_mul avx2 v 0 = 0"
proof -
  show "MultAdd_mul avx2 0 m = 0" "MultAdd_mul avx2 v 0 = 0" by (simp_all add: MultAdd_mul_def)
  show "MultAdd_mul avx2 v 1 = v" if "LENGTH('a) \<le> 128"
    using that by (simp add: MultAdd_mul_def gf.mul_1 ucast_back)
qed

lemma MultAdd_mul_linear: "xor_linear (MultAdd_mul avx2 v)"
proof (rule xor_linearI)
  fix a b
  have "(ucast (x XOR y :: 128 word) :: 'a::len word) = ucast x XOR ucast y" for x y by (rule unsigned_xor_eq)
  then show "MultAdd_mul avx2 v (a XOR b) = MultAdd_mul avx2 v a XOR MultAdd_mul avx2 v b" by (simp add: MultAdd_mul_def gf.mul_xor)
qed

lemma MultAdd_mul_assoc:
  assumes "LENGTH('a) = 128"
  shows "MultAdd_mul avx2 (MultAdd_mul avx2 (v :: 'a::len word) a) b = MultAdd_mul avx2 v (Galois128_Mul avx2 a b)"
proof -
  have "ucast (ucast w :: 'a word) = (w :: 128 word)" for w using assms by (intro ucast_back) simp
  then show ?thesis by (simp add: MultAdd_mul_def gf.mul_assoc)
qed

text \<open>The inverse of a matrix of two or more rows writes behind the end of a vector.\<close>

lemma MatrixGf128Inv_large: "2 \<le> n \<Longrightarrow> MatrixGf128Inv avx2 mtx n n = Inl (Undefined ''index'')"
proof -
  assume n: "2 \<le> n"
  then have "[0..<n] = 0 # 1 # [2..<n]" by (simp add: upt_conv_Cons numeral_2_eq_2)
  then show ?thesis using n by (simp add: MatrixGf128Inv_def set_at_def)
qed

lemma MatrixGf128Inv_one: "MatrixGf128Inv avx2 [x] 1 1 = (if x = 0 then Inr [] else rbind (Galois128_Inv avx2 x) (\<lambda>a. Inr [a]))"
proof (cases "x = 0")
  case False
  obtain a where "Galois128_Inv avx2 x = Inr a" using gf.inv_mul [OF False] by blast
  then show ?thesis using False by (simp add: MatrixGf128Inv_def gf_scale_def gf_eliminate_def gf.mul_1 upt_rec)
qed (simp add: MatrixGf128Inv_def upt_rec)

lemma gf_fill_one:
  assumes "r < length (px_dense p)" "\<forall>q \<in> set L. q < length (px_dense p)"
  shows "gf_fill mul p [L] [(r, m)] 1 0 [0] = Inr [gap_dense p L r]"
proof -
  have "rfold (\<lambda>j EE. rbind (at (px_dense p) j) (\<lambda>fcb. rfold (\<lambda>(k, v) EE. add_at EE (0 * 1 + k) v) (enumerate 0 (gf_powers mul fcb fcb 1)) EE)) L [y] =
      Inr [y XOR xorl (map ((!) (px_dense p)) L)]" for y
    using assms(2) by (induction L arbitrary: y) (auto simp: add_at_def xor_ac enumerate_eq_zip)
  then show ?thesis using assms(1) by (simp add: gf_fill_def gap_dense_def enumerate_eq_zip)
qed

lemma gf_gap_ok:
  fixes X P :: "'a::len word list"
  assumes p: "paxos_rows p" "px_dt p = GF128" "dense_ok p" "LENGTH('a) = 128" "length X = px_num_items p" "length P = px_size p"
    and gap: "gap_refs p fcinv gap" "gap \<noteq> []" and zero: "\<And>c. c < dense_size p \<Longrightarrow> P ! (sparse_size p + c) = 0"
    and res: "gf_gap avx2 p None fcinv gap X P = Inr P1"
  shows "length P1 = px_size p \<and> (\<forall>j < sparse_size p. P1 ! j = P ! j) \<and> xor_linear (\<lambda>d. dense_sum avx2 p d P1) \<and>
     (\<forall>i < length gap. dense_sum avx2 p (gap_dense p (fcinv ! i) (fst (gap ! i))) P1 = gap_target X (fcinv ! i) (fst (gap ! i)))"
proof (cases "length gap \<ge> 2")
  case True
  then show ?thesis using res by (auto simp: gf_gap_def Let_def rbind_eq_Inr_iff MatrixGf128Inv_large)
next
  case False
  then obtain r m where gap1: "gap = [(r, m)]" using gap(2) by (cases gap) (auto simp: not_le less_Suc_eq numeral_2_eq_2)
  then obtain L where fc: "fcinv = [L]" using gap(1) by (auto simp: gap_refs_def length_Suc_conv)
  have refs: "r < length (px_dense p)" "\<forall>q \<in> set L. q < length (px_dense p)" using gap(1) gap1 fc by (auto simp: gap_refs_def)
  have dlen: "length (px_dense p) = length X" using p(1,5) by (simp add: paxos_rows_def)
  let ?E = "gap_dense p L r" and ?t = "gap_target X L r" and ?s = "sparse_size p"
  have x2: "x2_gap p [L] [(r, m)] X 0 = Inr ?t" using x2_gap_value [of 0 "[(r, m)]" "[L]" X p] refs dlen by (simp add: gap_target_def)
  have s: "?s < length P" "P ! ?s = 0" using p(3,6) zero [of 0] by (simp_all add: px_size_def dense_ok_def)
  have nz: "?E \<noteq> 0" using res gap1 fc gf_fill_one [OF refs, of "Galois128_Mul avx2" m] x2 MatrixGf128Inv_one [of avx2 ?E] by (auto simp: gf_gap_def Let_def)
  obtain a where a: "Galois128_Inv avx2 ?E = Inr a" "Galois128_Mul avx2 ?E a = 1" using gf.inv_mul [OF nz] by blast
  have P1: "P1 = P[?s := MultAdd_mul avx2 ?t a]"
    using res gap1 fc gf_fill_one [OF refs, of "Galois128_Mul avx2" m] x2 MatrixGf128Inv_one [of avx2 ?E] nz a(1) s by (simp add: gf_gap_def Let_def add_at_def)
  have ds: "dense_sum avx2 p d P1 = MultAdd_mul avx2 (MultAdd_mul avx2 ?t a) d" for d
  proof -
    have "xorl (map (\<lambda>i. MultAdd_mul avx2 (P1 ! (?s + i)) (gf_pow avx2 d i)) [1..<dense_size p]) = 0"
      using P1 zero by (intro xorl_zero) (auto simp: MultAdd_mul_simps)
    then show ?thesis using p(2,3) P1 s by (simp add: dense_sum_gf dense_ok_def)
  qed
  have "dense_sum avx2 p ?E P1 = ?t" using a(2) p(4) by (simp add: ds MultAdd_mul_assoc gf.mul_comm [of avx2 a] MultAdd_mul_simps)
  moreover have "xor_linear (\<lambda>d. dense_sum avx2 p d P1)" unfolding ds by (rule MultAdd_mul_linear)
  moreover have "length P1 = px_size p" "\<forall>j < ?s. P1 ! j = P ! j" using P1 p(6) by simp_all
  ultimately show ?thesis by (simp add: gap1 fc)
qed

text \<open>
  C33. The inverse of a matrix over the field is computed for one row only: there a non-zero element gives its inverse. The vector for the result has as many elements
  as the matrix has rows, so for two or more rows the identity is written behind its end.
\<close>

theorem MatrixGf128Inv_out_of_bounds:
  "(x \<noteq> 0 \<longrightarrow> (\<exists>a. MatrixGf128Inv avx2 [x] 1 1 = Inr [a] \<and> Galois128_Mul avx2 x a = 1)) \<and>
     (2 \<le> n \<longrightarrow> MatrixGf128Inv avx2 mtx n n = Inl (Undefined ''index''))"
proof (intro conjI impI)
  assume x: "x \<noteq> 0"
  then obtain a where "Galois128_Inv avx2 x = Inr a" "Galois128_Mul avx2 x a = 1" using gf.inv_mul by blast
  then show "\<exists>a. MatrixGf128Inv avx2 [x] 1 1 = Inr [a] \<and> Galois128_Mul avx2 x a = 1" unfolding MatrixGf128Inv_one using x by simp
qed (rule MatrixGf128Inv_large)

theorem MatrixGf128Inv_out_of_bounds_witness:
  "(\<exists>a. MatrixGf128Inv True [3] 1 1 = Inr [a] \<and> Galois128_Mul True 3 a = 1) \<and> MatrixGf128Inv True [1, 0, 0, 1] 2 2 = Inl (Undefined ''index'')"
  using MatrixGf128Inv_out_of_bounds [of 3 True 2 "[1, 0, 0, 1]"] by simp

end
