(* ===== verification/Paxos_Store.thy ===== *)
theory Paxos_Store
  imports Paxos_Encode
begin

text \<open>
  Encoding as a whole: the vector that \<open>Paxos::Encode\<close> returns holds for every row its value.
\<close>

section \<open>Encoding\<close>

lemma dense_sum_cong: "(\<And>c. c < dense_size p \<Longrightarrow> P ! (sparse_size p + c) = P' ! (sparse_size p + c)) \<Longrightarrow> dense_sum avx2 p d P = dense_sum avx2 p d P'"
  unfolding dense_sum_def by (auto intro!: xorl_cong)

lemma dense_sum_zero: "(\<And>c. c < dense_size p \<Longrightarrow> P ! (sparse_size p + c) = 0) \<Longrightarrow> dense_sum avx2 p d P = 0"
  unfolding dense_sum_def by (auto intro!: xorl_zero simp: MultAdd_mul_simps)

text \<open>The output after the dense columns are known and before the back substitution.\<close>

definition dense_solved :: "bool \<Rightarrow> Paxos \<Rightarrow> TriState \<Rightarrow> 'a::len word list \<Rightarrow> 'a word list \<Rightarrow> bool" where
  "dense_solved avx2 p ts X P \<longleftrightarrow> length P = px_size p \<and> (\<forall>c \<in> set (ts_main_cols ts). P ! c = 0) \<and>
     (ts_gap_rows ts = [] \<or>
      (\<forall>c < sparse_size p. P ! c = 0) \<and> xor_linear (\<lambda>d. dense_sum avx2 p d P) \<and>
      (\<exists>fcinv. gap_refs p fcinv (ts_gap_rows ts) \<and> (\<forall>i < length (ts_gap_rows ts).
         cancels p (ts_main_rows ts) (ts_main_cols ts) (fst (ts_gap_rows ts ! i)) (fcinv ! i) \<and>
         dense_sum avx2 p (gap_dense p (fcinv ! i) (fst (ts_gap_rows ts ! i))) P = gap_target X (fcinv ! i) (fst (ts_gap_rows ts ! i)))))"

lemma backfill_main_ok:
  assumes p: "paxos_rows p" "length X = px_num_items p" and ts: "placed p ts" "open_rows p ts = {}" and P: "dense_solved avx2 p ts X P"
    and dp: "\<And>i P' y. i < px_num_items p \<Longrightarrow> length P' = px_size p \<Longrightarrow> (\<And>j. sparse_size p \<le> j \<Longrightarrow> P' ! j = P ! j) \<Longrightarrow>
      dp i P' y = Inr (y XOR dense_sum avx2 p (px_dense p ! i) P)"
  shows "\<exists>P'. backfill_main p dp X (ts_main_rows ts) (ts_main_cols ts) P = Inr P' \<and> length P' = px_size p \<and>
     (\<forall>r < px_num_items p. row_value avx2 p (px_rows p ! r) (px_dense p ! r) P' = X ! r)"
proof -
  let ?mr = "ts_main_rows ts" and ?mc = "ts_main_cols ts" and ?gap = "ts_gap_rows ts"
  have tri: "triangular (px_rows p) ?mr ?mc" "distinct ?mc" "set ?mc \<subseteq> {0..<sparse_size p}" and len: "length ?mr = length ?mc"
    using ts(1) by (auto simp: placed_def triangular_def)
  have mr: "set ?mr \<subseteq> {0..<px_num_items p}" and all: "\<And>r. r < px_num_items p \<Longrightarrow> r \<in> set ?mr \<or> r \<in> fst ` set ?gap"
    using ts by (auto simp: placed_def open_rows_def)
  have zs: "\<forall>(i, c) \<in> set (zip ?mr ?mc). i < px_num_items p \<and> c < sparse_size p \<and> P ! c = 0"
  proof clarify
    fix i c assume "(i, c) \<in> set (zip ?mr ?mc)"
    then have "i \<in> set ?mr" "c \<in> set ?mc" using set_zip_leftD [of i c ?mr ?mc] set_zip_rightD [of i c ?mr ?mc] by blast+
    then show "i < px_num_items p \<and> c < sparse_size p \<and> P ! c = 0" using mr tri(3) P by (auto simp: dense_solved_def)
  qed
  have plen: "length P = px_size p" using P by (simp add: dense_solved_def)
  obtain P' where P': "backfill_main p dp X ?mr ?mc P = Inr P'" "length P' = px_size p" "\<forall>j. j \<notin> snd ` set (zip ?mr ?mc) \<longrightarrow> P' ! j = P ! j"
    "\<forall>(i, c) \<in> set (zip ?mr ?mc). sparse_sum (px_rows p ! i) P' XOR dense_sum avx2 p (px_dense p ! i) P = X ! i"
    using backfill_pairs [where dp = dp and D = "\<lambda>i. dense_sum avx2 p (px_dense p ! i) P", OF triangular_pairs [OF tri(1,2)] p(1,2) plen zs] dp
    by (auto simp: backfill_main_def)
  have snds: "snd ` set (zip ?mr ?mc) = set ?mc" using len by (metis list.set_map map_snd_zip)
  have ds: "dense_sum avx2 p d P' = dense_sum avx2 p d P" for d
  proof (rule dense_sum_cong)
    fix c assume "c < dense_size p"
    have "sparse_size p + c \<notin> set ?mc" using tri(3) by auto
    then show "P' ! (sparse_size p + c) = P ! (sparse_size p + c)" using P'(3) snds by blast
  qed
  have main: "row_value avx2 p (px_rows p ! q) (px_dense p ! q) P' = X ! q" if "q \<in> set ?mr" for q
  proof -
    obtain k where "k < length ?mr" "?mr ! k = q" using \<open>q \<in> set ?mr\<close> by (metis in_set_conv_nth)
    then have "(q, ?mc ! k) \<in> set (zip ?mr ?mc)" using len by (auto simp: set_zip)
    then show ?thesis using P'(4) by (auto simp: row_value_def ds)
  qed
  have "row_value avx2 p (px_rows p ! r) (px_dense p ! r) P' = X ! r" if r: "r < px_num_items p" for r
  proof (cases "r \<in> set ?mr")
    case False
    then obtain i where i: "i < length ?gap" "fst (?gap ! i) = r" using all [OF r] by (auto simp: in_set_conv_nth)
    then have "?gap \<noteq> []" by auto
    then obtain fcinv where g: "\<forall>c < sparse_size p. P ! c = 0" "xor_linear (\<lambda>d. dense_sum avx2 p d P)"
      "cancels p ?mr ?mc r (fcinv ! i)" "dense_sum avx2 p (gap_dense p (fcinv ! i) r) P = gap_target X (fcinv ! i) r"
      using P i by (auto simp: dense_solved_def)
    have z: "P' ! c = 0" if "c < sparse_size p" "c \<notin> set ?mc" for c using that g(1) P'(3) snds by auto
    show ?thesis
      using gap_row_value [OF p(1) z g(3) r mr main] gap_dense_sum [OF g(2), of "fcinv ! i" r] g(4) by (simp add: ds gap_target_def)
  qed (rule main)
  then show ?thesis using P'(1,2) by blast
qed

lemma random_free_ok:
  assumes "links ns pr xs None" "distinct xs" "\<forall>c \<in> set xs. c < length P"
  shows "\<exists>P'. random_free ns cell (if xs = [] then None else Some (hd xs)) P = Some (Inr P') \<and> length P' = length P \<and> (\<forall>j. j \<notin> set xs \<longrightarrow> P' ! j = P ! j)"
  using assms
proof (induction xs arbitrary: pr P)
  case (Cons x xs)
  have x: "x < length ns" "next_weight_node (ns ! x) = (if xs = [] then None else Some (hd xs))" using Cons.prems(1) by auto
  obtain P' where "random_free ns cell (if xs = [] then None else Some (hd xs)) (P[x := cell x]) = Some (Inr P')" "length P' = length P"
    "\<forall>j. j \<notin> set xs \<longrightarrow> P' ! j = P[x := cell x] ! j" using Cons.IH [of "Some x" "P[x := cell x]"] Cons.prems by auto
  then show ?case using x Cons.prems(3) by (subst random_free.simps) auto
qed (simp add: random_free.simps)

lemma randomize_dense_ok:
  assumes "length P = px_size p"
  shows "\<exists>P'. randomize_dense p r P = Inr P' \<and> length P' = px_size p \<and> (\<forall>j < sparse_size p. P' ! j = P ! j)"
proof -
  have "\<exists>P'. randomize_dense p r P = Inr P' \<and> (length P' = px_size p \<and> (\<forall>j < sparse_size p. P' ! j = P ! j))"
    unfolding randomize_dense_def by (rule rfold_total_inv) (use assms in \<open>auto simp: px_size_def\<close>)
  then show ?thesis by simp
qed

text \<open>What \<open>Backfill\<close> makes of an output whose cells for the main columns and the dense columns are zero.\<close>

definition solves :: "bool \<Rightarrow> Paxos \<Rightarrow> 'a::len word list \<Rightarrow> 'a word list \<Rightarrow> bool" where
  "solves avx2 p X P \<longleftrightarrow> length P = px_size p \<and> (\<forall>r < px_num_items p. row_value avx2 p (px_rows p ! r) (px_dense p ! r) P = X ! r)"

definition backfilled :: "bool \<Rightarrow> Paxos \<Rightarrow> TriState \<Rightarrow> 'a::len word list \<Rightarrow> 'a word list result option \<Rightarrow> bool" where
  "backfilled avx2 p ts X res \<longleftrightarrow>
     (\<exists>r. res = Some r \<and> (case r of Inr P \<Rightarrow> solves avx2 p X P | Inl e \<Rightarrow> ts_gap_rows ts \<noteq> []))"

definition ready :: "Paxos \<Rightarrow> TriState \<Rightarrow> 'a::len word list \<Rightarrow> bool" where
  "ready p ts P \<longleftrightarrow> length P = px_size p \<and> (\<forall>c \<in> set (ts_main_cols ts). P ! c = 0) \<and> (\<forall>c < dense_size p. P ! (sparse_size p + c) = 0) \<and>
     (ts_gap_rows ts = [] \<or> (\<forall>c < sparse_size p. P ! c = 0))"

lemma gap_rows_ok:
  assumes p: "paxos_rows p" and ts: "placed p ts"
  shows "\<exists>fcinv. GetFCInv p (ts_main_rows ts) (ts_main_cols ts) (ts_gap_rows ts) = Some (Inr fcinv) \<and> gap_refs p fcinv (ts_gap_rows ts) \<and>
     (\<forall>i < length (ts_gap_rows ts). cancels p (ts_main_rows ts) (ts_main_cols ts) (fst (ts_gap_rows ts ! i)) (fcinv ! i))"
proof -
  let ?mr = "ts_main_rows ts" and ?mc = "ts_main_cols ts" and ?gap = "ts_gap_rows ts"
  have tri: "triangular (px_rows p) ?mr ?mc" "distinct ?mc" "set ?mc \<subseteq> {0..<sparse_size p}" "set ?mr \<subseteq> {0..<px_num_items p}"
    using ts by (auto simp: placed_def)
  have "set ?mr \<union> fst ` set ?gap = {r. r < px_num_items p \<and> ts_row_set ts ! r}" "snd ` set ?gap \<subseteq> set ?mr" using ts by (simp_all add: placed_def)
  then have "fst ` set ?gap \<subseteq> {r. r < px_num_items p \<and> ts_row_set ts ! r}" "snd ` set ?gap \<subseteq> set ?mr" by blast+
  then have g: "\<forall>(r, m) \<in> set ?gap. r < px_num_items p \<and> m \<in> set ?mr" by auto
  obtain fcinv where fc: "GetFCInv p ?mr ?mc ?gap = Some (Inr fcinv)" "length fcinv = length ?gap" "\<forall>i < length ?gap. cancels p ?mr ?mc (fst (?gap ! i)) (fcinv ! i)"
    using GetFCInv_ok [OF p tri g] by blast
  have "fst (?gap ! i) < px_num_items p \<and> (\<forall>q \<in> set (fcinv ! i). q < px_num_items p)" if "i < length ?gap" for i
  proof
    show "fst (?gap ! i) < px_num_items p" using g nth_mem [OF that] by (cases "?gap ! i") auto
    have "set (fcinv ! i) \<subseteq> set ?mr" using fc(3) that by (simp add: cancels_def)
    then show "\<forall>q \<in> set (fcinv ! i). q < px_num_items p" using tri(4) by auto
  qed
  then have "gap_refs p fcinv ?gap" using fc(2) p by (simp add: gap_refs_def paxos_rows_def)
  then show ?thesis using fc by blast
qed

lemma backfilledI:
  assumes "paxos_rows p" "length X = px_num_items p" "placed p ts" "open_rows p ts = {}" "dense_solved avx2 p ts X P"
    and dp: "\<And>i P' y. i < px_num_items p \<Longrightarrow> length P' = px_size p \<Longrightarrow> (\<And>j. sparse_size p \<le> j \<Longrightarrow> P' ! j = P ! j) \<Longrightarrow>
      dp i P' y = Inr (y XOR dense_sum avx2 p (px_dense p ! i) P)"
  shows "backfilled avx2 p ts X (Some (backfill_main p dp X (ts_main_rows ts) (ts_main_cols ts) P))"
proof -
  obtain P' where "backfill_main p dp X (ts_main_rows ts) (ts_main_cols ts) P = Inr P'" "solves avx2 p X P'"
    using backfill_main_ok [where dp = dp, OF assms(1-5)] dp by (auto simp: solves_def)
  then show ?thesis by (simp add: backfilled_def)
qed

lemma BackfillBinary_ok:
  fixes X P :: "'a::len word list"
  assumes p: "paxos_rows p" "px_dt p = Binary" "dense_ok p" "length X = px_num_items p" and ts: "placed p ts" "open_rows p ts = {}"
    and P: "ready p ts P" and rnd: "rnd = None \<or> ts_gap_rows ts = []"
    and choose: "\<And>k. 0 < k \<Longrightarrow> k \<le> px_g p \<Longrightarrow> Choose (of_nat (dense_size p)) k \<noteq> - 1"
  shows "backfilled avx2 p ts X (BackfillBinary p owns rnd (ts_main_rows ts) (ts_main_cols ts) (ts_gap_rows ts) X P)"
proof -
  let ?mr = "ts_main_rows ts" and ?mc = "ts_main_cols ts" and ?gap = "ts_gap_rows ts"
  have idx: "i < length (px_dense p)" if "i < px_num_items p" for i using p(1) that by (simp add: paxos_rows_def)
  note cong = dense_sum_cong [of p _ _ avx2]
  show ?thesis
  proof (cases "?gap = []")
    case True
    show ?thesis
    proof (cases rnd)
      case None
      have ds: "dense_solved avx2 p ts X P" using P True by (simp add: ready_def dense_solved_def)
      have "backfilled avx2 p ts X (Some (backfill_main p (binary_dense p False [] []) X ?mr ?mc P))"
      proof (rule backfilledI [OF p(1,4) ts ds])
        fix i P' y assume i: "i < px_num_items p" "length P' = px_size p" "\<And>j. sparse_size p \<le> j \<Longrightarrow> P' ! j = P ! j"
        then have "P' ! (sparse_size p + c) = 0" if "c < dense_size p" for c using P that by (simp add: ready_def)
        then show "binary_dense p False [] [] i P' y = Inr (y XOR dense_sum avx2 p (px_dense p ! i) P)"
          using binary_gap_value [OF p(2,3) i(2) idx [OF i(1)], of "[]" y avx2] cong [of P' P] i(3) by simp
      qed
      then show ?thesis using True None by (simp add: BackfillBinary_def)
    next
      case (Some r)
      obtain P1 where P1: "randomize_dense p r P = Inr P1" "length P1 = px_size p" "\<forall>j < sparse_size p. P1 ! j = P ! j"
        using randomize_dense_ok [of P p r] P by (auto simp: ready_def)
      have "set ?mc \<subseteq> {0..<sparse_size p}" using ts(1) by (simp add: placed_def)
      then have ds: "dense_solved avx2 p ts X P1" using P P1(2,3) True by (auto simp: ready_def dense_solved_def)
      have "backfilled avx2 p ts X (Some (backfill_main p (binary_dense p True [] []) X ?mr ?mc P1))"
      proof (rule backfilledI [OF p(1,4) ts ds])
        fix i P' y assume i: "i < px_num_items p" "length P' = px_size p" "\<And>j. sparse_size p \<le> j \<Longrightarrow> P' ! j = P1 ! j"
        show "binary_dense p True [] [] i P' y = Inr (y XOR dense_sum avx2 p (px_dense p ! i) P1)"
          using binary_all_value [OF p(2,3) i(2) idx [OF i(1)], of "[]" "[]" y avx2] cong [of P' P1] i(3) by simp
      qed
      then show ?thesis using True Some P1(1) by (simp add: BackfillBinary_def)
    qed
  next
    case False
    then have rn: "rnd = None" using rnd by simp
    obtain fcinv where fc: "GetFCInv p ?mr ?mc ?gap = Some (Inr fcinv)" "gap_refs p fcinv ?gap"
      "\<forall>i < length ?gap. cancels p ?mr ?mc (fst (?gap ! i)) (fcinv ! i)" using gap_rows_ok [OF p(1) ts(1)] by blast
    show ?thesis
    proof (cases "length ?gap \<le> px_g p")
      case le: True
      have "0 < dense_size p" "dense_size p \<le> 128" using p(2,3) by (simp_all add: dense_ok_def)
      then obtain r where r: "GetGapCols p fcinv ?gap = Some r" "\<And>cols. r = Inr cols \<Longrightarrow> length cols = length ?gap \<and> (\<forall>c \<in> set cols. c < dense_size p) \<and>
          \<not> singular (length ?gap) (gap_mat p fcinv ?gap cols) TYPE('a word)"
        using GetGapCols_ok [OF fc(2) False, where 'a = 'a] choose [of "length ?gap"] le False by auto
      show ?thesis
      proof (cases r)
        case (Inl e)
        then show ?thesis using r(1) fc(1) False le by (simp add: BackfillBinary_def backfilled_def)
      next
        case (Inr cols)
        note C = r(2) [OF Inr]
        have zero: "P ! (sparse_size p + c) = 0" if "c < dense_size p" for c using P that by (simp add: ready_def)
        obtain P1 where P1: "binary_gap p owns None fcinv ?gap cols X P = Inr P1" "length P1 = px_size p" "\<forall>j < sparse_size p. P1 ! j = P ! j"
          "\<forall>c < dense_size p. c \<notin> set cols \<longrightarrow> P1 ! (sparse_size p + c) = 0"
          "\<forall>i < length ?gap. dense_sum avx2 p (gap_dense p (fcinv ! i) (fst (?gap ! i))) P1 = gap_target X (fcinv ! i) (fst (?gap ! i))"
          using binary_gap_ok [OF p(1-4) _ fc(2), of P cols owns avx2] C P zero by (auto simp: ready_def)
        have "set ?mc \<subseteq> {0..<sparse_size p}" using ts(1) by (simp add: placed_def)
        then have ds: "dense_solved avx2 p ts X P1"
          using P P1(2,3,5) False fc(2,3) dense_sum_linear [OF p(2)] by (auto simp: ready_def dense_solved_def)
        have "distinct cols" using regular_distinct [of ?gap p fcinv cols, where 'a = 'a] C by blast
        have "backfilled avx2 p ts X (Some (backfill_main p (binary_dense p False cols (map (\<lambda>c. push_bit c 1) cols)) X ?mr ?mc P1))"
        proof (rule backfilledI [OF p(1,4) ts ds])
          fix i P' y assume i: "i < px_num_items p" "length P' = px_size p" "\<And>j. sparse_size p \<le> j \<Longrightarrow> P' ! j = P1 ! j"
          then show "binary_dense p False cols (map (\<lambda>c. push_bit c 1) cols) i P' y = Inr (y XOR dense_sum avx2 p (px_dense p ! i) P1)"
            using binary_gap_value [OF p(2,3) i(2) idx [OF i(1)] \<open>distinct cols\<close>, of y avx2] cong [of P' P1] C P1(4) by simp
        qed
        then show ?thesis using r(1) Inr fc(1) False le rn P1(1) by (simp add: BackfillBinary_def)
      qed
    qed (use False in \<open>simp add: BackfillBinary_def backfilled_def\<close>)
  qed
qed

lemma BackfillGf128_ok:
  fixes X P :: "'a::len word list"
  assumes p: "paxos_rows p" "px_dt p = GF128" "dense_ok p" "length X = px_num_items p" and ts: "placed p ts" "open_rows p ts = {}"
    and P: "ready p ts P" and rnd: "rnd = None \<or> ts_gap_rows ts = []" and len: "LENGTH('a) = 128"
  shows "backfilled avx2 p ts X (BackfillGf128 avx2 p rnd (ts_main_rows ts) (ts_main_cols ts) (ts_gap_rows ts) X P)"
proof -
  let ?mr = "ts_main_rows ts" and ?mc = "ts_main_cols ts" and ?gap = "ts_gap_rows ts"
  have idx: "i < length (px_dense p)" if "i < px_num_items p" for i using p(1) that by (simp add: paxos_rows_def)
  have mc: "set ?mc \<subseteq> {0..<sparse_size p}" using ts(1) by (simp add: placed_def)
  note cong = dense_sum_cong [of p _ _ avx2]
  have main: "backfilled avx2 p ts X (Some (backfill_main p (gf_dense avx2 p True) X ?mr ?mc P1))" if ds: "dense_solved avx2 p ts X P1" for P1
  proof (rule backfilledI [OF p(1,4) ts ds])
    fix i P' y assume i: "i < px_num_items p" "length P' = px_size p" "\<And>j. sparse_size p \<le> j \<Longrightarrow> P' ! j = P1 ! j"
    show "gf_dense avx2 p True i P' y = Inr (y XOR dense_sum avx2 p (px_dense p ! i) P1)"
      using gf_dense_value [OF p(2,3) i(2) idx [OF i(1)]] cong [of P' P1] i(3) by simp
  qed
  show ?thesis
  proof (cases "?gap = []")
    case True
    show ?thesis
    proof (cases rnd)
      case None
      have ds: "dense_solved avx2 p ts X P" using P True by (simp add: ready_def dense_solved_def)
      have "backfilled avx2 p ts X (Some (backfill_main p (gf_dense avx2 p False) X ?mr ?mc P))"
      proof (rule backfilledI [OF p(1,4) ts ds])
        fix i P' y
        have "dense_sum avx2 p (px_dense p ! i) P = 0" using P by (intro dense_sum_zero) (simp add: ready_def)
        then show "gf_dense avx2 p False i P' y = Inr (y XOR dense_sum avx2 p (px_dense p ! i) P)" by (simp add: gf_dense_def)
      qed
      then show ?thesis using True None p(2) by (simp add: BackfillGf128_def obind_def)
    next
      case (Some r)
      obtain P1 where P1: "randomize_dense p r P = Inr P1" "length P1 = px_size p" "\<forall>j < sparse_size p. P1 ! j = P ! j"
        using randomize_dense_ok [of P p r] P by (auto simp: ready_def)
      then have "dense_solved avx2 p ts X P1" using mc P True by (auto simp: ready_def dense_solved_def)
      from main [OF this] show ?thesis using True Some P1(1) p(2) by (simp add: BackfillGf128_def obind_def)
    qed
  next
    case False
    then have rn: "rnd = None" using rnd by simp
    obtain fcinv where fc: "GetFCInv p ?mr ?mc ?gap = Some (Inr fcinv)" "gap_refs p fcinv ?gap"
      "\<forall>i < length ?gap. cancels p ?mr ?mc (fst (?gap ! i)) (fcinv ! i)" using gap_rows_ok [OF p(1) ts(1)] by blast
    show ?thesis
    proof (cases "length ?gap \<le> dense_size p")
      case le: True
      show ?thesis
      proof (cases "gf_gap avx2 p None fcinv ?gap X P")
        case (Inl e)
        then show ?thesis using fc(1) False le rn p(2) by (simp add: BackfillGf128_def backfilled_def obind_def)
      next
        case (Inr P1)
        have "length P = px_size p" "\<And>c. c < dense_size p \<Longrightarrow> P ! (sparse_size p + c) = 0" using P by (simp_all add: ready_def)
        note G = gf_gap_ok [OF p(1-3) len p(4) this(1) fc(2) False this(2) Inr]
        have "dense_solved avx2 p ts X P1" using mc P G False fc(2,3) by (auto simp: ready_def dense_solved_def)
        from main [OF this] show ?thesis using Inr fc(1) False le rn p(2) by (simp add: BackfillGf128_def obind_def)
      qed
    qed (use False p(2) in \<open>simp add: BackfillGf128_def backfilled_def obind_def\<close>)
  qed
qed

section \<open>The store holds its values\<close>

lemma free_cols_random:
  assumes "wd_ok wd M" "M \<subseteq> {0..<length P}"
  shows "\<exists>P'. obind (Some (at (weight_sets wd) 0)) (\<lambda>node. random_free (nodes wd) cell node P) = Some (Inr P') \<and> length P' = length P \<and>
     (\<forall>j. j \<notin> M \<longrightarrow> P' ! j = P ! j)"
proof -
  obtain L where L: "wd_lists wd L" "M = (\<Union>w. set (L w))" and ne: "weight_sets wd \<noteq> []" using assms(1) by (auto simp: wd_ok_def)
  then have h: "dll (nodes wd) (weight_sets wd ! 0) (L 0)" by (metis wd_lists_def head_def length_greater_0_conv)
  have sub: "set (L 0) \<subseteq> M" using L(2) by blast
  have "links (nodes wd) None (L 0) None" "distinct (L 0)" "\<forall>c \<in> set (L 0). c < length P" using h sub assms(2) by (auto simp: dll_def)
  then obtain P' where P': "random_free (nodes wd) cell (if L 0 = [] then None else Some (hd (L 0))) P = Some (Inr P')" "length P' = length P"
    "\<forall>j. j \<notin> set (L 0) \<longrightarrow> P' ! j = P ! j" using random_free_ok by blast
  have "\<forall>j. j \<notin> M \<longrightarrow> P' ! j = P ! j" using P'(3) sub by blast
  moreover have "weight_sets wd ! 0 = (if L 0 = [] then None else Some (hd (L 0)))" using h by (simp add: dll_def)
  ultimately show ?thesis using P'(1,2) ne by (intro exI [of _ P']) (simp add: obind_def)
qed

lemma paxos_rows_weights: "paxos_rows (p \<lparr> px_weight_sets := wd \<rparr>) = paxos_rows p"
proof -
  have "column (p \<lparr> px_weight_sets := wd \<rparr>) c = column p c" for c by (simp add: column_def)
  then show ?thesis by (simp add: paxos_rows_def)
qed

text \<open>The hypotheses of an encoding.\<close>

definition param_ok :: "'a::len itself \<Rightarrow> 'm PaxosParam_scheme \<Rightarrow> bool" where
  "param_ok ty p \<longleftrightarrow> dense_ok p \<and> (px_dt p = GF128 \<longrightarrow> LENGTH('a) = 128) \<and> (\<forall>k \<in> {1..px_g p}. Choose (of_nat (dense_size p)) k \<noteq> - 1)"

lemma Encode_ok:
  fixes X :: "'a::len word list"
  assumes p: "paxos_ok p" "distinct (px_dense p)" "param_ok TYPE('a) p" "length X = px_num_items p" and ts: "Triangulate p = Some (Inr ts)" and rnd: "rnd = None \<or> ts_gap_rows ts = []"
  shows "\<exists>r. Encode avx2 owns rnd X (replicate (px_size p) 0) p = Some r \<and>
     (case r of Inr (P, p') \<Rightarrow> solves avx2 p X P \<and> p' = p \<lparr> px_weight_sets := ts_wd ts \<rparr> \<and> paxos_ok p' | Inl e \<Rightarrow> ts_gap_rows ts \<noteq> [])"
proof -
  let ?P = "replicate (px_size p) 0 :: 'a word list" and ?p' = "p \<lparr> px_weight_sets := ts_wd ts \<rparr>"
  have ok: "dense_ok p" "px_dt p = GF128 \<Longrightarrow> LENGTH('a) = 128"
    "\<And>k. 0 < k \<Longrightarrow> k \<le> px_g p \<Longrightarrow> Choose (of_nat (dense_size p)) k \<noteq> - 1" using p(3) by (auto simp: param_ok_def)
  have rows: "paxos_rows p" using p(1) by (simp add: paxos_ok_def)
  have T: "tri_inv p {} ts" "length (weight_sets (ts_wd ts)) \<le> 1" "open_rows p ts = {}" using Triangulate_ok [OF p(1,2)] ts by auto
  then have W: "wd_ok (ts_wd ts) ({0..<sparse_size p} - set (ts_main_cols ts))" "placed p ts" by (simp_all add: tri_inv_def weighted_def)
  obtain P1 where P1: "(case rnd of None \<Rightarrow> Some (Inr ?P)
      | Some r \<Rightarrow> obind (Some (at (weight_sets (ts_wd ts)) 0)) (\<lambda>node. random_free (nodes (ts_wd ts)) (rd_cell r) node ?P)) = Some (Inr P1)" "ready p ts P1"
  proof (cases rnd)
    case None
    have "set (ts_main_cols ts) \<subseteq> {0..<sparse_size p}" using W(2) by (simp add: placed_def)
    then have "ready p ts ?P" by (auto simp: ready_def px_size_def)
    then show ?thesis using None that [of ?P] by simp
  next
    case (Some r)
    have "{0..<sparse_size p} - set (ts_main_cols ts) \<subseteq> {0..<length ?P}" by (auto simp: px_size_def)
    from free_cols_random [OF W(1) this, of "rd_cell r"]
    obtain P1 where "obind (Some (at (weight_sets (ts_wd ts)) 0)) (\<lambda>node. random_free (nodes (ts_wd ts)) (rd_cell r) node ?P) = Some (Inr P1)"
      "length P1 = px_size p" "\<forall>j. j \<notin> {0..<sparse_size p} - set (ts_main_cols ts) \<longrightarrow> P1 ! j = ?P ! j" by auto
    moreover from this have "ready p ts P1" using rnd Some W(2) by (auto simp: ready_def placed_def px_size_def subset_iff)
    ultimately show ?thesis using Some that [of P1] by simp
  qed
  have "backfilled avx2 p ts X (Backfill avx2 p owns rnd (ts_main_rows ts) (ts_main_cols ts) (ts_gap_rows ts) X P1)"
  proof (cases "px_dt p")
    case Binary
    then show ?thesis using BackfillBinary_ok [OF rows Binary ok(1) p(4) W(2) T(3) P1(2) rnd ok(3)] by (simp add: Backfill_def)
  next
    case GF128
    then show ?thesis using BackfillGf128_ok [OF rows GF128 ok(1) p(4) W(2) T(3) P1(2) rnd ok(2)] by (simp add: Backfill_def)
  qed
  then obtain r where r: "Backfill avx2 p owns rnd (ts_main_rows ts) (ts_main_cols ts) (ts_gap_rows ts) X P1 = Some r"
    "case r of Inr P \<Rightarrow> solves avx2 p X P | Inl e \<Rightarrow> ts_gap_rows ts \<noteq> []" by (auto simp: backfilled_def)
  have "paxos_ok ?p'" using rows T(2) by (simp add: paxos_ok_def paxos_rows_weights)
  then show ?thesis using ts P1(1) r by (cases r) (auto simp: Encode_def obind_def)
qed

text \<open>
  C19. What is put into the store is what it holds: for every table whose keys have distinct hashes, \<open>Encode\<close> ends, and when
  it succeeds, decoding the row of each key gives the value of this key. It succeeds when no row is left over by the triangulation; it leaves the
  table in a state from which it can be encoded again. The table may be filled with random values in the columns that no key needs, as long as no row is left
  over.
\<close>

theorem Encode_correct:
  fixes X :: "'a::len word list"
  assumes p: "paxos_ok p" "distinct (px_dense p)" "param_ok TYPE('a) p" "length X = px_num_items p"
    and ts: "Triangulate p = Some (Inr ts)" "rnd = None \<or> ts_gap_rows ts = []"
  shows "\<exists>r. Encode avx2 owns rnd X (replicate (px_size p) 0) p = Some r \<and>
     (case r of Inl e \<Rightarrow> ts_gap_rows ts \<noteq> []
      | Inr (P, p') \<Rightarrow> paxos_ok p' \<and> (\<forall>i < px_num_items p. Decode1 avx2 p' (px_rows p ! i) (px_dense p ! i) P = Inr (X ! i)))"
proof -
  have d: "dense_ok p" "paxos_rows p" using p by (simp_all add: param_ok_def paxos_ok_def)
  have dec: "Decode1 avx2 (p \<lparr> px_weight_sets := wd \<rparr>) (px_rows p ! i) (px_dense p ! i) P = Inr (X ! i)" if "solves avx2 p X P" "i < px_num_items p" for P i wd
  proof -
    let ?p = "p \<lparr> px_weight_sets := wd \<rparr>"
    have "row_value avx2 ?p row e P = row_value avx2 p row e P" for row e by (simp add: row_value_def dense_sum_def)
    moreover have "dense_ok ?p" "px_size ?p = px_size p" "1 \<le> px_weight ?p" using d by (simp_all add: dense_ok_def px_size_def paxos_rows_def)
    ultimately show ?thesis using that Decode1_value [of ?p P "px_rows p ! i"] paxos_rowsD(1) [OF d(2) that(2)] by (simp add: solves_def)
  qed
  obtain r where r: "Encode avx2 owns rnd X (replicate (px_size p) 0) p = Some r"
    "case r of Inr (P, p') \<Rightarrow> solves avx2 p X P \<and> p' = p \<lparr> px_weight_sets := ts_wd ts \<rparr> \<and> paxos_ok p' | Inl e \<Rightarrow> ts_gap_rows ts \<noteq> []"
    using Encode_ok [OF p ts] by blast
  then show ?thesis using dec by (cases r) auto
qed

theorem Encode_correct_witness:
  "\<exists>ts r. Triangulate small_table = Some (Inr ts) \<and> Encode True True None [7, 8, 9 :: 128 word] (replicate 6 0) small_table = Some r \<and>
     (case r of Inl e \<Rightarrow> ts_gap_rows ts \<noteq> []
      | Inr (P, p') \<Rightarrow> paxos_ok p' \<and> (\<forall>i < 3. Decode1 True p' (px_rows small_table ! i) (px_dense small_table ! i) P = Inr ([7, 8, 9] ! i)))"
proof -
  obtain ts where ts: "Triangulate small_table = Some (Inr ts)" using Triangulate_ok [OF small_table_ok] by blast
  have par: "param_ok TYPE(128) small_table" by (simp add: param_ok_def dense_ok_def small_table_def)
  have len: "length [7, 8, 9 :: 128 word] = px_num_items small_table" and n: "px_size small_table = 6" "px_num_items small_table = 3"
    by (simp_all add: small_table_def px_size_def)
  show ?thesis using Encode_correct [OF small_table_ok par len ts, of None True True, unfolded n] ts by (intro exI [of _ ts]) (simp only: simp_thms)
qed

end
