(* ===== verification/Okvs.thy ===== *)
theory Okvs
  imports Galois128
begin

text \<open>
  The contract of an oblivious key-value store, as the protocols use it: encoding gives a vector, the vector has a value for every
  key, decoding computes these values, they are the encoded values for the encoded keys, and they depend linearly on the vector. What the oblivious
  evaluation of \<open>rr22_oprf.cc\<close> rests on is proved from the contract; the contract is fulfilled by \<open>Paxos\<close> and by \<open>Baxos\<close>.
\<close>

definition axpy :: "bool \<Rightarrow> 128 word \<Rightarrow> 128 word list \<Rightarrow> 128 word list \<Rightarrow> 128 word list" where
  "axpy avx2 d P Q = map2 (\<lambda>v w. v XOR Galois128_Mul avx2 d w) P Q"

lemma length_axpy [simp]: "length (axpy avx2 d P Q) = min (length P) (length Q)"
  by (simp add: axpy_def)

lemma nth_axpy [simp]: "i < length P \<Longrightarrow> i < length Q \<Longrightarrow> axpy avx2 d P Q ! i = P ! i XOR Galois128_Mul avx2 d (Q ! i)"
  by (simp add: axpy_def)

lemma axpy_cancel:
  assumes "length A = length C" "length A = length P"
  shows "axpy avx2 d (axpy avx2 d C A) (map2 (XOR) P A) = axpy avx2 d C P"
  using assms by (intro nth_equalityI) (auto simp: gf.mul_xor xor_ac)

text \<open>\<open>vec\<close> says which vectors can be decoded, \<open>good\<close> which keys can be encoded.\<close>

locale okvs =
  fixes avx2 :: bool and good :: "'k list \<Rightarrow> bool" and vec :: "128 word list \<Rightarrow> bool"
    and encode :: "'k list \<Rightarrow> 128 word list \<Rightarrow> 128 word list result option"
    and decode :: "128 word list \<Rightarrow> 'k list \<Rightarrow> 128 word list result"
    and holds :: "128 word list \<Rightarrow> 'k \<Rightarrow> 128 word"
  assumes encode_ends: "good ks \<Longrightarrow> length vs = length ks \<Longrightarrow> \<exists>r. encode ks vs = Some r"
    and encode_holds: "good ks \<Longrightarrow> length vs = length ks \<Longrightarrow> encode ks vs = Some (Inr P) \<Longrightarrow> vec P \<and> map (holds P) ks = vs"
    and decode_holds: "vec P \<Longrightarrow> decode P ks = Inr (map (holds P) ks)"
    and holds_axpy: "vec P \<Longrightarrow> vec Q \<Longrightarrow> vec (axpy avx2 d P Q) \<and> holds (axpy avx2 d P Q) k = holds P k XOR Galois128_Mul avx2 d (holds Q k)"
    and vec_length: "vec P \<Longrightarrow> vec Q \<Longrightarrow> length P = length Q"
begin

lemma encode_decode:
  assumes "good ks" "length vs = length ks" "encode ks vs = Some (Inr P)"
  shows "decode P ks = Inr vs"
  using encode_holds [OF assms] decode_holds by simp

lemma encode_nth:
  assumes "good ks" "length vs = length ks" "encode ks vs = Some (Inr P)" "i < length ks"
  shows "decode P [ks ! i] = Inr [vs ! i]"
  using encode_holds [OF assms(1-3)] decode_holds [of P "[ks ! i]"] assms(4) by auto

text \<open>
  The receiver encodes \<open>h k\<close> for its keys and sends \<open>P\<close> masked by \<open>A\<close>; the sender adds it, multiplied by \<open>d\<close>, to its own vector \<open>B\<close>. With the
  correlation \<open>B = C + d A\<close> the masks cancel.
\<close>

lemma masks_cancel:
  assumes "vec A" "vec C" "vec P"
  shows "axpy avx2 d (axpy avx2 d C A) (map2 (XOR) P A) = axpy avx2 d C P"
  using vec_length [OF assms(1,2)] vec_length [OF assms(1,3)] by (rule axpy_cancel)

lemma oprf_match:
  assumes "good ks" "encode ks (map h ks) = Some (Inr P)" "vec A" "vec C" "x \<in> set ks"
  shows "holds (axpy avx2 d (axpy avx2 d C A) (map2 (XOR) P A)) x XOR Galois128_Mul avx2 d (h x) = holds C x"
proof -
  have P: "vec P" "map (holds P) ks = map h ks" using encode_holds [OF assms(1) _ assms(2)] by auto
  then have "holds P x = h x" using assms(5) by simp
  then show ?thesis using holds_axpy [OF assms(4) P(1)] masks_cancel [OF assms(3,4) P(1)] by (simp add: xor_ac)
qed

lemma oprf_other:
  assumes "good ks" "encode ks (map h ks) = Some (Inr P)" "vec A" "vec C"
  shows "holds (axpy avx2 d (axpy avx2 d C A) (map2 (XOR) P A)) x XOR Galois128_Mul avx2 d (h x) = holds C x XOR Galois128_Mul avx2 d (holds P x XOR h x)"
proof -
  have P: "vec P" using encode_holds [OF assms(1) _ assms(2)] by auto
  then show ?thesis using holds_axpy [OF assms(4) P(1)] masks_cancel [OF assms(3,4) P(1)] by (simp add: gf.mul_xor xor_ac)
qed

end

end
