(* ===== verification/Paxos_Decode.thy ===== *)
theory Paxos_Decode
  imports Paxos_Store Okvs
begin

text \<open>
  Setting the keys, decoding, and the round trip of the key-value store. \<open>Paxos\<close> with dense columns over the field fulfils the contract \<open>okvs\<close>.
\<close>

section \<open>Setting the keys\<close>

abbreviation key_hash :: "PaxosHash \<Rightarrow> 128 word \<Rightarrow> 128 word" where
  "key_hash h \<equiv> AesCrHash_Hash (ph_encrypt h)"

definition key_row :: "PaxosHash \<Rightarrow> 128 word \<Rightarrow> nat list" where
  "key_row h x = row_of h (key_hash h x)"

lemma concat_blocks: "concat (map (\<lambda>b. take k (drop (b * k) xs)) [0..<m]) = take (m * k) xs"
proof (induction m)
  case (Suc m)
  then show ?case using take_add [of "m * k" k xs] by (simp add: add.commute)
qed simp

lemma build_rows_ok:
  assumes "hash_ok h" "length inputs = n"
  shows "build_rows avx2 h n inputs = Inr (map (key_row h) inputs, map (key_hash h) inputs)"
proof -
  let ?k = kPaxosBuildRowSize and ?m = "length inputs div kPaxosBuildRowSize"
  let ?blk = "\<lambda>b. take ?k (drop (b * ?k) inputs)"
  have m: "?m * ?k \<le> n" using assms(2) by (simp add: div_times_less_eq_dividend)
  have "length (?blk b) = 32" if "b < ?m" for b
  proof -
    have "Suc b * ?k \<le> ?m * ?k" using that by (intro mult_le_mono1) simp
    then show ?thesis using m assms(2) by (simp add: kPaxosBuildRowSize_def)
  qed
  then have 1: "rmap (\<lambda>b. HashBuildRow32 avx2 h (?blk b)) [0..<?m] = Inr (map (\<lambda>b. (map (key_row h) (?blk b), map (key_hash h) (?blk b))) [0..<?m])"
    by (intro rmap_total) (simp add: HashBuildRow_rows [OF assms(1)] key_row_def [abs_def])
  have 2: "rmap (\<lambda>i. rbind (at inputs i) (HashBuildRow1 avx2 h)) [?m * ?k..<n] = Inr (map (\<lambda>i. (key_row h (inputs ! i), key_hash h (inputs ! i))) [?m * ?k..<n])"
    using assms(2) by (intro rmap_total) (simp add: HashBuildRow_rows [OF assms(1)] key_row_def)
  have cat: "concat (map (\<lambda>b. map f (?blk b)) [0..<?m]) @ map (\<lambda>i. f (inputs ! i)) [?m * ?k..<n] = map f inputs" for f :: "128 word \<Rightarrow> 'b"
  proof -
    have "concat (map (\<lambda>b. map f (?blk b)) [0..<?m]) = map f (take (?m * ?k) inputs)"
      by (simp add: concat_blocks [symmetric] map_concat comp_def)
    moreover have "map (\<lambda>i. f (inputs ! i)) [?m * ?k..<n] = map f (drop (?m * ?k) inputs)"
      using assms(2) by (intro nth_equalityI) auto
    ultimately show ?thesis by (simp flip: map_append)
  qed
  show ?thesis using 1 2 cat [of "key_row h"] cat [of "key_hash h"] by (simp add: build_rows_def Let_def comp_def)
qed

text \<open>What the keys and the parameters have to satisfy; the hash of a key is also its dense part.\<close>

definition hasher_of :: "(128 word \<Rightarrow> 128 word) \<Rightarrow> 'm PaxosParam_scheme \<Rightarrow> PaxosHash" where
  "hasher_of encrypt par = \<lparr> ph_weight = px_weight par, ph_sparse_size = of_nat (sparse_size par), ph_encrypt = encrypt \<rparr>"

definition keys_ok :: "(128 word \<Rightarrow> 128 word) \<Rightarrow> 'm PaxosParam_scheme \<Rightarrow> 128 word list \<Rightarrow> bool" where
  "keys_ok encrypt par keys \<longleftrightarrow> 1 \<le> px_weight par \<and> px_weight par \<le> sparse_size par \<and> sparse_size par < 2 ^ 63 - 2 \<and> length keys + 2 \<le> sparse_size par \<and>
     distinct (map (AesCrHash_Hash encrypt) keys) \<and>
     (\<forall>c < sparse_size par. length (col_rows (map (key_row (hasher_of encrypt par)) keys) c) < 200)"

lemma keys_ok_hash:
  assumes "keys_ok encrypt par keys"
  shows "hash_ok (hasher_of encrypt par)" "unat (of_nat (sparse_size par) :: 64 word) = sparse_size par"
    "rows_ok (px_weight par) (sparse_size par) (map (key_row (hasher_of encrypt par)) keys)"
proof -
  show n: "unat (of_nat (sparse_size par) :: 64 word) = sparse_size par" using assms by (simp add: keys_ok_def)
  then show h: "hash_ok (hasher_of encrypt par)" using assms by (simp add: hash_ok_def hasher_of_def keys_ok_def)
  show "rows_ok (px_weight par) (sparse_size par) (map (key_row (hasher_of encrypt par)) keys)"
    using BuildRow_row_of(2) [OF h] n by (auto simp: rows_ok_def key_row_def hasher_of_def)
qed

lemma set_rows_ok:
  assumes rows: "rows_ok (px_weight p) (sparse_size p) rows" "length rows = px_num_items p" "length dense = px_num_items p"
    and par: "1 \<le> px_weight p" "px_num_items p + 2 \<le> sparse_size p" "\<forall>c < sparse_size p. length (col_rows rows c) < 200"
    and blen: "length backing = px_weight p * px_num_items p"
  shows "\<exists>ws cols b wd. rfold count_col (concat rows) (replicate (sparse_size p) 0) = Inr ws \<and> length ws = sparse_size p \<and>
     RebuildColumns ws (px_weight p * px_num_items p) (p \<lparr> px_rows := rows, px_dense := dense, px_col_backing := backing \<rparr>) =
       Inr (p \<lparr> px_rows := rows, px_dense := dense, px_cols := cols, px_col_backing := b \<rparr>) \<and> WeightData_init ws (px_weight_sets p) = Inr wd \<and>
     paxos_ok (p \<lparr> px_rows := rows, px_dense := dense, px_cols := cols, px_col_backing := b, px_weight_sets := wd \<rparr>)"
proof -
  let ?w = "px_weight p" and ?n = "sparse_size p" and ?N = "px_num_items p"
  let ?ws = "map (\<lambda>c. length (col_rows rows c)) [0..<?n]"
  let ?p1 = "p \<lparr> px_rows := rows, px_dense := dense, px_col_backing := backing \<rparr>"
  have ws: "rfold count_col (concat rows) (replicate ?n 0) = Inr ?ws" "sum_list ?ws = ?w * ?N" using col_weights_ok [OF rows(1)] rows(2) by simp_all
  obtain cols b where C: "RebuildColumns ?ws (?w * ?N) ?p1 = Inr (?p1 \<lparr> px_cols := cols, px_col_backing := b \<rparr>)" "length cols = ?n"
    "\<forall>c < ?n. column (?p1 \<lparr> px_cols := cols, px_col_backing := b \<rparr>) c = Inr (col_rows rows c) \<and> snd (cols ! c) = length (col_rows rows c)"
    using RebuildColumns_ok [of ?p1 ?ws "?w * ?N"] rows ws(2) blen by auto
  have "?ws \<noteq> []" "\<forall>w \<in> set ?ws. w < 200" using par by auto
  then obtain wd where wd: "WeightData_init ?ws (px_weight_sets p) = Inr wd" "wd_ok wd {0..<?n}" "\<forall>i < ?n. weight_of wd i = ?ws ! i"
    using WeightData_init_ok [of ?ws "px_weight_sets p"] by auto
  let ?p' = "p \<lparr> px_rows := rows, px_dense := dense, px_cols := cols, px_col_backing := b, px_weight_sets := wd \<rparr>"
  have "column ?p' c = column (?p1 \<lparr> px_cols := cols, px_col_backing := b \<rparr>) c" for c by (simp add: column_def)
  then have "paxos_rows ?p'" using C(2,3) rows par by (auto simp: paxos_rows_def)
  then have "paxos_ok ?p'" using wd(2,3) by (simp add: paxos_ok_def fresh_weights_def)
  moreover have "RebuildColumns ?ws (?w * ?N) ?p1 = Inr (p \<lparr> px_rows := rows, px_dense := dense, px_cols := cols, px_col_backing := b \<rparr>)" using C(1) by simp
  ultimately show ?thesis using ws(1) wd(1) by (intro exI [of _ ?ws]) auto
qed

definition with_keys :: "Paxos \<Rightarrow> (128 word \<Rightarrow> 128 word) \<Rightarrow> 'm PaxosParam_scheme \<Rightarrow> 128 word list \<Rightarrow> bool" where
  "with_keys p encrypt par keys \<longleftrightarrow> paxos_ok p \<and> px_rows p = map (key_row (hasher_of encrypt par)) keys \<and> px_dense p = map (AesCrHash_Hash encrypt) keys \<and>
     px_num_items p = length keys \<and> PaxosParam.truncate p = PaxosParam.truncate par"

lemma SetInput_ok:
  assumes k: "keys_ok encrypt p keys" and p: "px_hasher p = hasher_of encrypt p" "px_num_items p = length keys"
  shows "\<exists>p'. Paxos_SetInput avx2 keys p = Inr p' \<and> with_keys p' encrypt p keys"
proof -
  let ?h = "px_hasher p" let ?rows = "map (key_row ?h) keys" and ?dense = "map (AesCrHash_Hash encrypt) keys"
  let ?bk = "resize (px_num_items p * px_weight p) 0 (px_col_backing p)"
  have h: "hash_ok ?h" and rows: "rows_ok (px_weight p) (sparse_size p) ?rows" using keys_ok_hash [OF k] p(1) by simp_all
  have bl: "length ?bk = px_weight p * px_num_items p" by (simp add: resize_def min_def mult.commute)
  obtain ws cols b wd where S: "rfold count_col (concat ?rows) (replicate (sparse_size p) 0) = Inr ws"
    "RebuildColumns ws (px_weight p * px_num_items p) (p \<lparr> px_rows := ?rows, px_dense := ?dense, px_col_backing := ?bk \<rparr>) =
       Inr (p \<lparr> px_rows := ?rows, px_dense := ?dense, px_cols := cols, px_col_backing := b \<rparr>)" "WeightData_init ws (px_weight_sets p) = Inr wd"
    "paxos_ok (p \<lparr> px_rows := ?rows, px_dense := ?dense, px_cols := cols, px_col_backing := b, px_weight_sets := wd \<rparr>)"
    using set_rows_ok [OF rows _ _ _ _ _ bl, of ?dense] k p by (auto simp: keys_ok_def)
  have "ph_encrypt ?h = encrypt" using p(1) by (simp add: hasher_of_def)
  then have "Paxos_SetInput avx2 keys p = Inr (p \<lparr> px_rows := ?rows, px_dense := ?dense, px_cols := cols, px_col_backing := b, px_weight_sets := wd \<rparr>)"
    using p(2) build_rows_ok [OF h, of keys "px_num_items p" avx2] S by (simp add: Paxos_SetInput_def)
  then show ?thesis using S(4) p by (auto simp: with_keys_def PaxosParam.truncate_def)
qed

lemma SetInput_rows_ok:
  assumes k: "keys_ok encrypt p keys" and p: "px_hasher p = hasher_of encrypt p" "px_num_items p = length keys"
    and len: "length cols = sparse_size p" "length backing = length keys * px_weight p"
  shows "\<exists>ws p'. rfold count_col (concat (map (key_row (px_hasher p)) keys)) (replicate (sparse_size p) 0) = Inr ws \<and>
     Paxos_SetInput_rows (map (key_row (px_hasher p)) keys) (map (AesCrHash_Hash encrypt) keys) cols backing ws p = Inr p' \<and> with_keys p' encrypt p keys"
proof -
  let ?q = "p \<lparr> px_cols := cols \<rparr>"
  let ?rows = "map (key_row (px_hasher p)) keys" and ?dense = "map (AesCrHash_Hash encrypt) keys"
  have rows: "rows_ok (px_weight p) (sparse_size p) ?rows" using keys_ok_hash(3) [OF k] p(1) by simp
  obtain ws cols' b wd where S: "rfold count_col (concat ?rows) (replicate (sparse_size p) 0) = Inr ws" "length ws = sparse_size p"
    "RebuildColumns ws (px_weight p * px_num_items p) (?q \<lparr> px_rows := ?rows, px_dense := ?dense, px_col_backing := backing \<rparr>) =
       Inr (?q \<lparr> px_rows := ?rows, px_dense := ?dense, px_cols := cols', px_col_backing := b \<rparr>)" "WeightData_init ws (px_weight_sets p) = Inr wd"
    "paxos_ok (?q \<lparr> px_rows := ?rows, px_dense := ?dense, px_cols := cols', px_col_backing := b, px_weight_sets := wd \<rparr>)"
    using set_rows_ok [of ?q ?rows ?dense backing] rows k p len by (auto simp: keys_ok_def mult.commute)
  have e: "?q \<lparr> px_rows := ?rows, px_dense := ?dense, px_col_backing := backing \<rparr> = p \<lparr> px_rows := ?rows, px_dense := ?dense, px_cols := cols, px_col_backing := backing \<rparr>" by simp
  have "list_all (\<lambda>row. length row = px_weight p) ?rows" using rows by (auto simp: list_all_iff rows_ok_def row_ok_def)
  then have "Paxos_SetInput_rows ?rows ?dense cols backing ws p = Inr (p \<lparr> px_rows := ?rows, px_dense := ?dense, px_cols := cols', px_col_backing := b, px_weight_sets := wd \<rparr>)"
    using p(2) len S(1,2,4,5) S(3) [unfolded e] by (simp add: Paxos_SetInput_rows_def)
  then show ?thesis using S(1,5) p by (auto simp: with_keys_def PaxosParam.truncate_def)
qed

section \<open>Decoding 32 keys at once\<close>

lemma decode_sparse:
  assumes "1 \<le> n" "\<forall>row \<in> set rows. n \<le> length row \<and> (\<forall>c \<in> set row. c < length P)"
  shows "rfold (\<lambda>j vs. rmap (\<lambda>(v, row). rbind (at row j) (\<lambda>c. add_cell P c v)) (zip vs rows)) [1..<n] (map (\<lambda>row. P ! (row ! 0)) rows) =
     Inr (map (\<lambda>row. sparse_sum (take n row) P) rows)"
  using assms
proof (induction n rule: dec_induct)
  case base
  have "take 1 row = [row ! 0]" if "row \<in> set rows" for row using base that by (cases row) auto
  then show ?case by (auto simp: sparse_sum_def)
next
  case (step n)
  have t: "take (Suc n) row = take n row @ [row ! n]" if "row \<in> set rows" for row using step.prems that by (intro take_Suc_conv_app_nth) auto
  have "rmap (\<lambda>(v, row). rbind (at row n) (\<lambda>c. add_cell P c v)) (zip (map (\<lambda>row. sparse_sum (take n row) P) rows) rows) =
      Inr (map (\<lambda>(v, row). v XOR P ! (row ! n)) (zip (map (\<lambda>row. sparse_sum (take n row) P) rows) rows))"
    using step.prems by (intro rmap_total) (auto simp: add_cell_def Suc_le_eq dest!: set_zip_rightD)
  also have "map (\<lambda>(v, row). v XOR P ! (row ! n)) (zip (map (\<lambda>row. sparse_sum (take n row) P) rows) rows) = map (\<lambda>row. sparse_sum (take (Suc n) row) P) rows"
    using t by (intro nth_equalityI) (auto simp: sparse_sum_def)
  finally have "rmap (\<lambda>(v, row). rbind (at row n) (\<lambda>c. add_cell P c v)) (zip (map (\<lambda>row. sparse_sum (take n row) P) rows) rows) =
      Inr (map (\<lambda>row. sparse_sum (take (Suc n) row) P) rows)" .
  moreover have "\<forall>row \<in> set rows. n \<le> length row \<and> (\<forall>c \<in> set row. c < length P)" using step.prems by (auto dest: Suc_leD)
  ultimately show ?case using step.IH step.hyps by simp
qed

lemma decode32_gf_value:
  assumes "px_dt p = GF128" "dense_ok p" "length P = px_size p"
  shows "decode32_gf avx2 p (map d rs) P (map v rs) = Inr (map (\<lambda>r. v r XOR dense_sum avx2 p (d r) P) rs)"
proof -
  let ?s = "sparse_size p"
  have z: "map2 f (map g rs) (map h rs) = map (\<lambda>r. f (g r) (h r)) rs" for f :: "'x \<Rightarrow> 'y \<Rightarrow> 'z" and g :: "'b \<Rightarrow> 'x" and h by (induction rs) auto
  have "rfold (\<lambda>i (xx, vs). rbind (at P (?s + i)) (\<lambda>p2.
       let xx = map2 (Galois128_Mul avx2) xx (map d rs) in Inr (xx, map2 (\<lambda>v x. v XOR MultAdd_mul avx2 p2 x) vs xx))) [1..<n] (map d rs, map w rs) =
     Inr (map (\<lambda>r. gf_pow avx2 (d r) (n - 1)) rs, map (\<lambda>r. w r XOR xorl (map (\<lambda>i. MultAdd_mul avx2 (P ! (?s + i)) (gf_pow avx2 (d r) i)) [1..<n])) rs)"
    if "1 \<le> n" "?s + n \<le> length P" for n w
    using that
  proof (induction n rule: dec_induct)
    case (step n)
    have "gf_pow avx2 (d r) n = Galois128_Mul avx2 (gf_pow avx2 (d r) (n - 1)) (d r)" for r using gf_pow_simps(2) [of avx2 "d r" "n - 1"] step(1) by simp
    then show ?case using step by (simp add: Let_def z xor_ac)
  qed (simp add: gf_pow_simps)
  from this [of "dense_size p" "\<lambda>r. v r XOR MultAdd_mul avx2 (P ! ?s) (d r)"] show ?thesis
    using assms by (simp add: decode32_gf_def z dense_ok_def px_size_def dense_sum_gf xor_ac)
qed

lemma high64_bit: "i < 64 \<Longrightarrow> bit (high64 d) i = bit (drop_bit 64 d) i"
  by (simp add: high64_def bit_ucast_iff)

lemma decode32_binary_value:
  fixes P :: "'a::len word list"
  assumes "px_dt p = Binary" "dense_ok p" "length P = px_size p" "LENGTH('a) \<le> 128"
  shows "decode32_binary avx2 p (map d rs) P (map v rs) = Inr (map (\<lambda>r. v r XOR dense_sum avx2 p (drop_bit 64 (d r)) P) rs)"
proof -
  let ?s = "sparse_size p"
  have z: "map2 f (map g rs) (map h rs) = map (\<lambda>r. f (g r) (h r)) rs" for f :: "'x \<Rightarrow> 'y \<Rightarrow> 'z" and g :: "'b \<Rightarrow> 'x" and h by (induction rs) auto
  have n64: "dense_size p \<le> 64" using assms by (simp add: dense_ok_def)
  have m: "MultAdd_mul avx2 x (ucast (drop_bit i (high64 e) AND 1)) = sel (bit (drop_bit 64 e) i) x" if "i < 64" for i e and x :: "'a word"
  proof -
    have "drop_bit i (high64 e) AND 1 = of_bool (bit (drop_bit 64 e) i)"
      using high64_bit [OF that, of e] by (simp only: and_one_eq bit_iff_odd_drop_bit mod2_eq_if) auto
    then show ?thesis using assms(4) by (cases "bit (drop_bit 64 e) i") (simp_all add: MultAdd_mul_simps)
  qed
  have "rfold (\<lambda>i (d2, vs). rbind (at P (?s + i)) (\<lambda>p2. Inr (map (drop_bit 1) d2, map2 (\<lambda>v d. v XOR MultAdd_mul avx2 p2 (ucast (d AND 1))) vs d2)))
       [0..<n] (map (\<lambda>r. high64 (d r)) rs, map v rs) =
     Inr (map (\<lambda>r. drop_bit n (high64 (d r))) rs, map (\<lambda>r. v r XOR xorl (map (\<lambda>i. sel (bit (drop_bit 64 (d r)) i) (P ! (?s + i))) [0..<n])) rs)"
    if "n \<le> dense_size p" for n
    using that
  proof (induction n)
    case (Suc n)
    then show ?case using assms(3) n64 by (simp add: z m px_size_def xor_ac comp_def)
  qed simp
  then show ?thesis using n64 assms(1) by (simp add: decode32_binary_def dense_sum_def comp_def)
qed

lemma Decode32_value:
  fixes P :: "'a::len word list"
  assumes p: "dense_ok p" "length P = px_size p" "LENGTH('a) \<le> 128" and row: "\<forall>r \<in> set rs. row_ok (px_weight p) (sparse_size p) (fst r)" "1 \<le> px_weight p"
  shows "Decode32 avx2 p (map fst rs) (map snd rs) P =
     Inr (map (\<lambda>r. row_value avx2 p (fst r) (if px_dt p = GF128 then snd r else drop_bit 64 (snd r)) P) rs)"
proof -
  have R: "length (fst r) = px_weight p" "\<forall>c \<in> set (fst r). c < length P" if "r \<in> set rs" for r
    using row(1) that p(2) by (auto simp: row_ok_def px_size_def intro: trans_less_add1)
  have "rmap (\<lambda>row. rbind (at row 0) (at P)) (map fst rs) = Inr (map (\<lambda>row. P ! (row ! 0)) (map fst rs))"
    using R row(2) by (intro rmap_total) auto
  moreover have "rfold (\<lambda>j vs. rmap (\<lambda>(v, row). rbind (at row j) (\<lambda>c. add_cell P c v)) (zip vs (map fst rs))) [1..<px_weight p] (map (\<lambda>row. P ! (row ! 0)) (map fst rs)) =
      Inr (map (\<lambda>r. sparse_sum (fst r) P) rs)"
    using decode_sparse [of "px_weight p" "map fst rs" P] R row(2) by (auto simp: comp_def cong: map_cong)
  ultimately show ?thesis
    using decode32_gf_value [OF _ p(1,2), of avx2 snd rs "\<lambda>r. sparse_sum (fst r) P"] decode32_binary_value [OF _ p, of avx2 snd rs "\<lambda>r. sparse_sum (fst r) P"]
    by (cases "px_dt p") (simp_all add: Decode32_def row_value_def)
qed

section \<open>Decoding all keys\<close>

text \<open>The value that the vector holds for a key.\<close>

definition held :: "bool \<Rightarrow> Paxos \<Rightarrow> 'a::len word list \<Rightarrow> 128 word \<Rightarrow> 'a word" where
  "held avx2 p P x = row_value avx2 p (key_row (px_hasher p) x) (key_hash (px_hasher p) x) P"

lemma put_range:
  assumes "\<not> px_add_to_decode p" "s + k + length v \<le> length vs"
  shows "rfold (\<lambda>(j, x). decode_put p (s + j) x) (enumerate k v) vs = Inr (take (s + k) vs @ v @ drop (s + k + length v) vs)"
  using assms(2)
proof (induction v arbitrary: k vs)
  case (Cons x v)
  have "take (s + Suc k) (vs[s + k := x]) = take (s + k) vs @ [x]" using Cons.prems by (simp add: take_Suc_conv_app_nth)
  then show ?case using Cons.IH [of "Suc k" "vs[s + k := x]"] Cons.prems assms(1) by (simp add: decode_put_def)
qed simp

definition table_ok :: "Paxos \<Rightarrow> bool" where
  "table_ok p \<longleftrightarrow> dense_ok p \<and> hash_ok (px_hasher p) \<and> ph_weight (px_hasher p) = px_weight p \<and> unat (ph_sparse_size (px_hasher p)) = sparse_size p \<and>
     1 \<le> px_weight p \<and> \<not> px_add_to_decode p"

lemma key_row_ok: "table_ok p \<Longrightarrow> row_ok (px_weight p) (sparse_size p) (key_row (px_hasher p) x)"
  using BuildRow_row_of(2) [of "px_hasher p" "key_hash (px_hasher p) x"] by (simp add: table_ok_def key_row_def)

lemma decode_one_ok:
  assumes "table_ok p" "length P = px_size p" "i < length inputs" "i < length vs"
  shows "decode_one avx2 p inputs P i vs = Inr (vs[i := held avx2 p P (inputs ! i)])"
  using assms Decode1_value [OF _ assms(2) key_row_ok [OF assms(1), of "inputs ! i"]] HashBuildRow_rows(1) [of "px_hasher p" avx2 "inputs ! i"]
  by (simp add: decode_one_def decode_put_def held_def key_row_def table_ok_def)

text \<open>In a block of 32 keys with dense columns of bits the value of a key is another one.\<close>

definition block_value :: "bool \<Rightarrow> Paxos \<Rightarrow> 'a::len word list \<Rightarrow> 128 word \<Rightarrow> 'a word" where
  "block_value avx2 p P x = row_value avx2 p (key_row (px_hasher p) x) (let d = key_hash (px_hasher p) x in if px_dt p = GF128 then d else drop_bit 64 d) P"

lemma decode_block_ok:
  fixes P :: "'a::len word list"
  assumes p: "table_ok p" "length P = px_size p" "LENGTH('a) \<le> 128" and b: "Suc b * kPaxosBuildRowSize \<le> length inputs" "length vs = length inputs"
  shows "decode_block avx2 p inputs P b vs =
     Inr (take (b * kPaxosBuildRowSize) vs @ map (block_value avx2 p P) (take kPaxosBuildRowSize (drop (b * kPaxosBuildRowSize) inputs)) @ drop (Suc b * kPaxosBuildRowSize) vs)"
proof -
  let ?k = kPaxosBuildRowSize and ?h = "px_hasher p"
  let ?xs = "take ?k (drop (b * ?k) inputs)"
  let ?rs = "map (\<lambda>x. (key_row ?h x, key_hash ?h x)) ?xs"
  have len: "length ?xs = ?k" using b(1) by simp
  then have "HashBuildRow32 avx2 ?h ?xs = Inr (map fst ?rs, map snd ?rs)"
    using HashBuildRow_rows(2) [of ?h ?xs avx2] p(1) by (simp add: kPaxosBuildRowSize_def table_ok_def key_row_def [abs_def] comp_def)
  moreover have "Decode32 avx2 p (map fst ?rs) (map snd ?rs) P = Inr (map (block_value avx2 p P) ?xs)"
    using Decode32_value [of p P ?rs avx2] p key_row_ok [OF p(1)] by (simp add: block_value_def [abs_def] table_ok_def comp_def)
  moreover have "b * ?k + 0 + length (map (block_value avx2 p P) ?xs) \<le> length vs" using b len by simp
  note put_range [OF _ this]
  ultimately show ?thesis using p(1) len by (simp add: decode_block_def table_ok_def add.commute)
qed

lemma Decode_positions:
  fixes P :: "'a::len word list"
  assumes p: "table_ok p" "length P = px_size p" "LENGTH('a) \<le> 128" and len: "length vs = length inputs"
  defines "m \<equiv> length inputs div kPaxosBuildRowSize * kPaxosBuildRowSize"
  shows "Decode avx2 p inputs vs P = Inr (map (block_value avx2 p P) (take m inputs) @ map (held avx2 p P) (drop m inputs))"
proof -
  let ?k = kPaxosBuildRowSize and ?m = "length inputs div kPaxosBuildRowSize" and ?g = "block_value avx2 p P" and ?f = "held avx2 p P"
  have mk: "?m * ?k \<le> length inputs" by (simp add: div_times_less_eq_dividend)
  have blocks: "rfold (decode_block avx2 p inputs P) [0..<i] vs = Inr (map ?g (take (i * ?k) inputs) @ drop (i * ?k) vs)" if "i \<le> ?m" for i
    using that
  proof (induction i)
    case (Suc i)
    have le: "Suc i * ?k \<le> length inputs" using Suc.prems mk mult_le_mono1 [of "Suc i" ?m ?k] by linarith
    let ?v = "map ?g (take (i * ?k) inputs) @ drop (i * ?k) vs"
    have v: "length ?v = length inputs" "take (i * ?k) ?v = map ?g (take (i * ?k) inputs)" "drop (Suc i * ?k) ?v = drop (Suc i * ?k) vs" using le len by simp_all
    have "take (Suc i * ?k) inputs = take (i * ?k) inputs @ take ?k (drop (i * ?k) inputs)" using take_add [of "i * ?k" ?k inputs] by (simp add: add.commute)
    then have "decode_block avx2 p inputs P i ?v = Inr (map ?g (take (Suc i * ?k) inputs) @ drop (Suc i * ?k) vs)"
      unfolding decode_block_ok [OF p le v(1)] v(2,3) by (simp only: map_append append_assoc)
    then show ?case using Suc by simp
  qed simp
  let ?w = "\<lambda>i. map ?g (take m inputs) @ map ?f (take (i - m) (drop m inputs)) @ drop i vs"
  have "rfold (decode_one avx2 p inputs P) [i..<length inputs] (?w i) = Inr (?w (length inputs))" if "i \<le> length inputs" "m \<le> i" for i
    using that
  proof (induction rule: inc_induct)
    case (step i)
    have "drop i vs = vs ! i # drop (Suc i) vs" using step(2) len by (simp add: Cons_nth_drop_Suc)
    moreover have "take (Suc i - m) (drop m inputs) = take (i - m) (drop m inputs) @ [inputs ! i]"
      using step(2) step.prems take_Suc_conv_app_nth [of "i - m" "drop m inputs"] by (simp add: Suc_diff_le)
    ultimately have "(?w i)[i := ?f (inputs ! i)] = ?w (Suc i)" using step(2) step.prems by (simp add: list_update_append min_def)
    then show ?case using step decode_one_ok [OF p(1,2), of i inputs "?w i" avx2] len by (simp add: upt_conv_Cons)
  qed simp
  from this [of m] show ?thesis using blocks [OF le_refl] p(2) mk len by (simp add: Decode_def Let_def m_def)
qed

lemma Decode_ok:
  fixes P :: "'a::len word list"
  assumes p: "table_ok p" "length P = px_size p" "LENGTH('a) \<le> 128" "px_dt p = GF128 \<or> length inputs < kPaxosBuildRowSize" and len: "length vs = length inputs"
  shows "Decode avx2 p inputs vs P = Inr (map (held avx2 p P) inputs)"
proof -
  have "block_value avx2 p P = held avx2 p P" if "px_dt p = GF128" using that by (simp add: fun_eq_iff block_value_def held_def)
  then show ?thesis using p(4) Decode_positions [OF p(1-3) len, of avx2] by (auto simp flip: map_append)
qed

section \<open>The store as a whole\<close>

definition inited :: "(128 word \<Rightarrow> 128 word) \<Rightarrow> PaxosParam \<Rightarrow> nat \<Rightarrow> Paxos \<Rightarrow> Paxos" where
  "inited encrypt par n q = (set_param par q) \<lparr> px_num_items := n, px_hasher := hasher_of encrypt par \<rparr>"

abbreviation fresh_paxos :: "(128 word \<Rightarrow> 128 word) \<Rightarrow> PaxosParam \<Rightarrow> nat \<Rightarrow> Paxos" where
  "fresh_paxos encrypt par n \<equiv> inited encrypt par n Paxos_new"

lemma inited_simps [simp]:
  "sparse_size (inited encrypt par n q) = sparse_size par" "dense_size (inited encrypt par n q) = dense_size par"
  "px_weight (inited encrypt par n q) = px_weight par" "px_g (inited encrypt par n q) = px_g par" "px_dt (inited encrypt par n q) = px_dt par"
  "px_num_items (inited encrypt par n q) = n" "px_hasher (inited encrypt par n q) = hasher_of encrypt par"
  "px_add_to_decode (inited encrypt par n q) = px_add_to_decode q" "px_size (inited encrypt par n q) = px_size par"
  "hasher_of encrypt' (inited encrypt par n q) = hasher_of encrypt' par" "px_add_to_decode Paxos_new = False"
  by (simp_all add: inited_def set_param_def px_size_def hasher_of_def Paxos_new_def)

definition sizes_ok :: "nat \<Rightarrow> PaxosParam \<Rightarrow> bool" where
  "sizes_ok idx_bits par \<longleftrightarrow> 1 \<le> px_weight par \<and> px_weight par \<le> sparse_size par \<and> sparse_size par < 2 ^ 63 - 2 \<and> sparse_size par < 2 ^ idx_bits - 1"

lemma Paxos_Init_ok:
  assumes "sizes_ok idx_bits par" "n \<le> sparse_size par"
  shows "Paxos_Init idx_bits encrypt n par q = Inr (inited encrypt par n q)"
proof -
  have s: "unat (of_nat (sparse_size par) :: 64 word) = sparse_size par" using assms(1) by (simp add: sizes_ok_def)
  have "of_nat (sparse_size par) - of_nat i \<noteq> (0 :: 64 word)" if "i < px_weight par" for i
  proof -
    have "i < sparse_size par" using that assms(1) by (simp add: sizes_ok_def)
    then have "0 < unat (of_nat (sparse_size par) - of_nat i :: 64 word)" using sub_small [of i "of_nat (sparse_size par)"] s by simp
    then show ?thesis by (rule unat_pos_neq_0)
  qed
  then have "PaxosHash_init encrypt (px_weight par) (of_nat (sparse_size par)) = Inr (hasher_of encrypt par)"
    by (auto simp: PaxosHash_init_def hasher_of_def)
  moreover have "n mod 2 ^ idx_bits = n" "n \<le> px_size par" using assms by (auto simp: sizes_ok_def px_size_def)
  ultimately show ?thesis using assms(1) by (simp add: Paxos_Init_def inited_def sizes_ok_def)
qed

text \<open>What an encoder does with its keys, and what a decoder does that knows the parameters and the hash only.\<close>

definition store_encode ::
  "nat \<Rightarrow> (128 word \<Rightarrow> 128 word) \<Rightarrow> PaxosParam \<Rightarrow> bool \<Rightarrow> bool \<Rightarrow> 128 word list \<Rightarrow> 'a::len word list \<Rightarrow> 'a word list result option" where
  "store_encode idx_bits encrypt par avx2 owns keys values =
     obind (Some (rbind (Paxos_Init idx_bits encrypt (length keys) par Paxos_new) (Paxos_SetInput avx2 keys))) (\<lambda>p.
     obind (Encode avx2 owns None values (replicate (px_size p) 0) p) (\<lambda>(P, _). Some (Inr P)))"

definition store_decode ::
  "nat \<Rightarrow> (128 word \<Rightarrow> 128 word) \<Rightarrow> PaxosParam \<Rightarrow> bool \<Rightarrow> 'a::len word list \<Rightarrow> 128 word list \<Rightarrow> 'a word list result" where
  "store_decode idx_bits encrypt par avx2 P keys =
     rbind (Paxos_Init idx_bits encrypt 1 par Paxos_new) (\<lambda>p. Decode avx2 p keys (replicate (length keys) 0) P)"

definition store_held :: "bool \<Rightarrow> (128 word \<Rightarrow> 128 word) \<Rightarrow> PaxosParam \<Rightarrow> 'a::len word list \<Rightarrow> 128 word \<Rightarrow> 'a word" where
  "store_held avx2 encrypt par P x = held avx2 (fresh_paxos encrypt par 1) P x"

lemma Encode_held:
  fixes X :: "'a::len word list"
  assumes k: "keys_ok encrypt par keys" and par: "param_ok TYPE('a) par" and X: "length X = length keys" and p: "with_keys p encrypt par keys"
  shows "\<exists>r. Encode avx2 owns None X (replicate (px_size par) 0) p = Some r \<and>
     (\<forall>P p'. r = Inr (P, p') \<longrightarrow> length P = px_size par \<and> map (store_held avx2 encrypt par P) keys = X) \<and>
     (\<forall>ts. Triangulate p = Some (Inr ts) \<longrightarrow> ts_gap_rows ts = [] \<longrightarrow> (\<exists>P p'. r = Inr (P, p')))"
proof -
  have W: "paxos_ok p" "px_rows p = map (key_row (hasher_of encrypt par)) keys" "px_dense p = map (AesCrHash_Hash encrypt) keys" "px_num_items p = length keys"
    "sparse_size p = sparse_size par" "dense_size p = dense_size par" "px_weight p = px_weight par" "px_g p = px_g par" "px_dt p = px_dt par"
    using p by (auto simp: with_keys_def PaxosParam.truncate_def)
  have f: "distinct (px_dense p)" "length X = px_num_items p" "px_size p = px_size par" using k X W by (simp_all add: keys_ok_def px_size_def)
  have pp: "param_ok TYPE('a) p" using par W by (simp add: param_ok_def dense_ok_def)
  have rv: "row_value avx2 p row d P = row_value avx2 (fresh_paxos encrypt par 1) row d P" for row d and P :: "'a word list"
    using W by (simp add: row_value_def dense_sum_def)
  obtain ts where ts: "Triangulate p = Some (Inr ts)" using Triangulate_ok [OF W(1) f(1)] by blast
  obtain r where r: "Encode avx2 owns None X (replicate (px_size p) 0) p = Some r"
    "case r of Inr (P, p') \<Rightarrow> solves avx2 p X P \<and> p' = p \<lparr> px_weight_sets := ts_wd ts \<rparr> \<and> paxos_ok p' | Inl e \<Rightarrow> ts_gap_rows ts \<noteq> []"
    using Encode_ok [OF W(1) f(1) pp f(2) ts, of None avx2 owns] by auto
  have held: "map (store_held avx2 encrypt par P) keys = X" if "solves avx2 p X P" for P
    using that X f(2) by (intro nth_equalityI) (auto simp: solves_def store_held_def held_def W(2,3) rv hasher_of_def)
  show ?thesis using r held ts f(3) by (auto simp: solves_def split: sum.splits)
qed

lemma store_encode_ok:
  fixes X :: "'a::len word list"
  assumes k: "keys_ok encrypt par keys" and par: "sizes_ok idx_bits par" "param_ok TYPE('a) par" and X: "length X = length keys"
  shows "\<exists>p r. rbind (Paxos_Init idx_bits encrypt (length keys) par Paxos_new) (Paxos_SetInput avx2 keys) = Inr p \<and> store_encode idx_bits encrypt par avx2 owns keys X = Some r \<and>
     (\<forall>P. r = Inr P \<longrightarrow> length P = px_size par \<and> map (store_held avx2 encrypt par P) keys = X) \<and>
     (\<forall>ts. Triangulate p = Some (Inr ts) \<longrightarrow> ts_gap_rows ts = [] \<longrightarrow> (\<exists>P. r = Inr P))"
proof -
  let ?p0 = "fresh_paxos encrypt par (length keys)"
  have "length keys \<le> sparse_size par" "keys_ok encrypt ?p0 keys" using k by (simp_all add: keys_ok_def)
  note init = Paxos_Init_ok [OF par(1) this(1), of encrypt Paxos_new] and k0 = this(2)
  obtain p where p: "Paxos_SetInput avx2 keys ?p0 = Inr p" "with_keys p encrypt ?p0 keys" using SetInput_ok [OF k0] by auto
  then have wk: "with_keys p encrypt par keys" by (simp add: with_keys_def PaxosParam.truncate_def)
  have sz: "px_size p = px_size par" using wk by (auto simp: with_keys_def PaxosParam.truncate_def px_size_def)
  obtain r where r: "Encode avx2 owns None X (replicate (px_size p) 0) p = Some r"
    "\<forall>P p'. r = Inr (P, p') \<longrightarrow> length P = px_size par \<and> map (store_held avx2 encrypt par P) keys = X"
    "\<forall>ts. Triangulate p = Some (Inr ts) \<longrightarrow> ts_gap_rows ts = [] \<longrightarrow> (\<exists>P p'. r = Inr (P, p'))" using Encode_held [OF k par(2) X wk, of avx2 owns] sz by auto
  have enc: "store_encode idx_bits encrypt par avx2 owns keys X = Some (case r of Inl e \<Rightarrow> Inl e | Inr (P, _) \<Rightarrow> Inr P)"
    using init p(1) r(1) by (cases r) (auto simp: store_encode_def obind_def)
  show ?thesis
    by (rule exI [of _ p], rule exI [of _ "case r of Inl e \<Rightarrow> Inl e | Inr (P, _) \<Rightarrow> Inr P"]) (use init p(1) enc r(2,3) in \<open>auto split: sum.splits\<close>)
qed

lemma store_decode_ok:
  fixes P :: "'a::len word list"
  assumes "sizes_ok idx_bits par" "dense_ok par" "length P = px_size par" "LENGTH('a) \<le> 128" "px_dt par = GF128 \<or> length keys < kPaxosBuildRowSize"
  shows "store_decode idx_bits encrypt par avx2 P keys = Inr (map (store_held avx2 encrypt par P) keys)"
proof -
  let ?p = "fresh_paxos encrypt par 1"
  have "1 \<le> sparse_size par" using assms(1) by (simp add: sizes_ok_def)
  note init = Paxos_Init_ok [OF assms(1) this, of encrypt Paxos_new]
  have "unat (of_nat (sparse_size par) :: 64 word) = sparse_size par" using assms(1) by (simp add: sizes_ok_def)
  then have "table_ok ?p" using assms(1,2) by (simp add: table_ok_def dense_ok_def hash_ok_def sizes_ok_def hasher_of_def)
  from Decode_ok [OF this _ assms(4)] show ?thesis using assms(3,5) init by (simp add: store_decode_def store_held_def [abs_def])
qed

section \<open>Decoding is linear\<close>

lemma dense_sum_axpy:
  assumes "length P = px_size p" "length Q = px_size p"
  shows "dense_sum avx2 p e (axpy avx2 d P Q) = dense_sum avx2 p e P XOR Galois128_Mul avx2 d (dense_sum avx2 p e Q)"
proof -
  have nth: "axpy avx2 d P Q ! (sparse_size p + i) = P ! (sparse_size p + i) XOR Galois128_Mul avx2 d (Q ! (sparse_size p + i))" if "i < dense_size p" for i
    using that assms by (simp add: px_size_def)
  have m: "MultAdd_mul avx2 (v XOR Galois128_Mul avx2 d w) a = MultAdd_mul avx2 v a XOR Galois128_Mul avx2 d (MultAdd_mul avx2 w a)" for v w a :: "128 word"
    by (simp add: MultAdd_mul_def gf.mul_comm [of avx2 _ a] gf.mul_xor) (metis gf.mul_assoc gf.mul_comm)
  have s: "sel b (v XOR Galois128_Mul avx2 d w) = sel b v XOR Galois128_Mul avx2 d (sel b w)" for b v w by (cases b) simp_all
  have "xorl (map (\<lambda>i. f i (axpy avx2 d P Q ! (sparse_size p + i))) [0..<dense_size p]) =
      xorl (map (\<lambda>i. f i (P ! (sparse_size p + i))) [0..<dense_size p]) XOR Galois128_Mul avx2 d (xorl (map (\<lambda>i. f i (Q ! (sparse_size p + i))) [0..<dense_size p]))"
    if "\<And>i v w. f i (v XOR Galois128_Mul avx2 d w) = f i v XOR Galois128_Mul avx2 d (f i w)" for f :: "nat \<Rightarrow> 128 word \<Rightarrow> 128 word"
  proof -
    have "xorl (map (\<lambda>i. f i (axpy avx2 d P Q ! (sparse_size p + i))) [0..<dense_size p]) =
        xorl (map (\<lambda>i. f i (P ! (sparse_size p + i)) XOR Galois128_Mul avx2 d (f i (Q ! (sparse_size p + i)))) [0..<dense_size p])"
      by (intro xorl_cong) (simp add: nth that)
    then show ?thesis by (simp add: xorl_map_xor xor_linear_xorl [OF gf.mul_linear])
  qed
  from this [of "\<lambda>i v. MultAdd_mul avx2 v (gf_pow avx2 e i)"] this [of "\<lambda>i v. sel (bit e i) v"]
  show ?thesis by (simp add: dense_sum_def m s)
qed

lemma row_value_axpy:
  assumes "row_ok (px_weight p) (sparse_size p) row" "length P = px_size p" "length Q = px_size p"
  shows "row_value avx2 p row e (axpy avx2 d P Q) = row_value avx2 p row e P XOR Galois128_Mul avx2 d (row_value avx2 p row e Q)"
proof -
  have "axpy avx2 d P Q ! c = P ! c XOR Galois128_Mul avx2 d (Q ! c)" if "c \<in> set row" for c
    using assms that by (auto simp: row_ok_def px_size_def)
  then have "sparse_sum row (axpy avx2 d P Q) = sparse_sum row P XOR Galois128_Mul avx2 d (sparse_sum row Q)"
    unfolding sparse_sum_def xor_linear_xorl [OF gf.mul_linear] by (subst xorl_map_xor [symmetric]) (rule xorl_cong, simp)
  then show ?thesis using dense_sum_axpy [OF assms(2,3)] by (simp add: row_value_def gf.mul_xor xor_ac)
qed

lemma held_axpy:
  assumes "table_ok p" "length P = px_size p" "length Q = px_size p"
  shows "held avx2 p (axpy avx2 d P Q) x = held avx2 p P x XOR Galois128_Mul avx2 d (held avx2 p Q x)"
  using row_value_axpy [OF key_row_ok [OF assms(1)] assms(2,3)] by (simp add: held_def)

section \<open>Paxos is a key-value store\<close>

definition store_good :: "nat \<Rightarrow> (128 word \<Rightarrow> 128 word) \<Rightarrow> PaxosParam \<Rightarrow> 128 word list \<Rightarrow> bool" where
  "store_good idx_bits encrypt par keys \<longleftrightarrow> keys_ok encrypt par keys \<and> sizes_ok idx_bits par \<and> param_ok TYPE(128) par \<and> px_dt par = GF128"

definition store_vec :: "nat \<Rightarrow> PaxosParam \<Rightarrow> 128 word list \<Rightarrow> bool" where
  "store_vec idx_bits par P \<longleftrightarrow> sizes_ok idx_bits par \<and> dense_ok par \<and> px_dt par = GF128 \<and> length P = px_size par"

lemma fresh_table_ok: "sizes_ok idx_bits par \<Longrightarrow> dense_ok par \<Longrightarrow> table_ok (fresh_paxos encrypt par n)"
  by (simp add: table_ok_def dense_ok_def hash_ok_def sizes_ok_def hasher_of_def)

interpretation px: okvs avx2 "store_good idx_bits encrypt par" "store_vec idx_bits par" "store_encode idx_bits encrypt par avx2 owns"
  "store_decode idx_bits encrypt par avx2" "store_held avx2 encrypt par"
proof
  fix ks :: "128 word list" and vs P Q :: "128 word list" and d k
  show "\<exists>r. store_encode idx_bits encrypt par avx2 owns ks vs = Some r" if "store_good idx_bits encrypt par ks" "length vs = length ks"
    using store_encode_ok [of encrypt par ks idx_bits vs avx2 owns] that by (auto simp: store_good_def)
  show "store_vec idx_bits par P \<and> map (store_held avx2 encrypt par P) ks = vs"
    if "store_good idx_bits encrypt par ks" "length vs = length ks" "store_encode idx_bits encrypt par avx2 owns ks vs = Some (Inr P)"
    using store_encode_ok [of encrypt par ks idx_bits vs avx2 owns] that by (auto simp: store_good_def store_vec_def param_ok_def)
  show "store_decode idx_bits encrypt par avx2 P ks = Inr (map (store_held avx2 encrypt par P) ks)" if "store_vec idx_bits par P"
    using that by (intro store_decode_ok) (auto simp: store_vec_def)
  show "store_vec idx_bits par (axpy avx2 d P Q) \<and> store_held avx2 encrypt par (axpy avx2 d P Q) k =
      store_held avx2 encrypt par P k XOR Galois128_Mul avx2 d (store_held avx2 encrypt par Q k)" if "store_vec idx_bits par P" "store_vec idx_bits par Q"
    using that held_axpy [OF fresh_table_ok [of idx_bits par encrypt 1], of P Q avx2 d k] by (simp add: store_vec_def store_held_def)
  show "length P = length Q" if "store_vec idx_bits par P" "store_vec idx_bits par Q" using that by (simp add: store_vec_def)
qed

text \<open>
  C23. The whole way through the key-value store: keys are set, values encoded, and a decoder that knows the parameters and the hash function
  but not the keys gets the value of each key from the encoded vector, whether it decodes all keys at once, in blocks of 32, or one key alone. Encoding
  always ends, and it succeeds when triangulation leaves no row over. For dense columns of bits the statement is limited
  to fewer than 32 keys in one call.
\<close>

theorem Paxos_roundtrip:
  fixes X :: "'a::len word list"
  assumes "keys_ok encrypt par keys" "sizes_ok idx_bits par" "param_ok TYPE('a) par" "LENGTH('a) \<le> 128" "length X = length keys"
    and "px_dt par = GF128 \<or> length keys < 32"
  shows "\<exists>p r. rbind (Paxos_Init idx_bits encrypt (length keys) par Paxos_new) (Paxos_SetInput avx2 keys) = Inr p \<and>
     store_encode idx_bits encrypt par avx2 owns keys X = Some r \<and>
     (\<forall>P. r = Inr P \<longrightarrow> store_decode idx_bits encrypt par avx2 P keys = Inr X \<and>
        (\<forall>i < length keys. store_decode idx_bits encrypt par avx2 P [keys ! i] = Inr [X ! i])) \<and>
     (\<forall>ts. Triangulate p = Some (Inr ts) \<longrightarrow> ts_gap_rows ts = [] \<longrightarrow> (\<exists>P. r = Inr P))"
proof -
  obtain p r where E: "rbind (Paxos_Init idx_bits encrypt (length keys) par Paxos_new) (Paxos_SetInput avx2 keys) = Inr p"
    "store_encode idx_bits encrypt par avx2 owns keys X = Some r"
    "\<And>P. r = Inr P \<Longrightarrow> length P = px_size par \<and> map (store_held avx2 encrypt par P) keys = X"
    "\<forall>ts. Triangulate p = Some (Inr ts) \<longrightarrow> ts_gap_rows ts = [] \<longrightarrow> (\<exists>P. r = Inr P)"
    using store_encode_ok [OF assms(1-3,5), of avx2 owns] by blast
  have D: "store_decode idx_bits encrypt par avx2 P ks = Inr (map (store_held avx2 encrypt par P) ks)"
    if "r = Inr P" "px_dt par = GF128 \<or> length ks < 32" for P ks
    using that E(3) [of P] assms(2-4) by (intro store_decode_ok) (auto simp: param_ok_def kPaxosBuildRowSize_def)
  have "store_decode idx_bits encrypt par avx2 P keys = Inr X" "\<forall>i < length keys. store_decode idx_bits encrypt par avx2 P [keys ! i] = Inr [X ! i]" if "r = Inr P" for P
    using D [OF that] E(3) [OF that] assms(6) by auto
  then show ?thesis using E by blast
qed

definition small_param :: PaxosParam where
  "small_param = \<lparr> sparse_size = 7, dense_size = 2, px_weight = 3, px_g = 1, px_dt = GF128 \<rparr>"

lemma keys_ok_few:
  assumes "1 \<le> px_weight par" "px_weight par \<le> sparse_size par" "sparse_size par < 2 ^ 63 - 2" "length keys + 2 \<le> sparse_size par"
    and "distinct (map (AesCrHash_Hash encrypt) keys)" "length keys < 200"
  shows "keys_ok encrypt par keys"
proof -
  have "length (col_rows rows c) \<le> length rows" for rows c using length_filter_le [of _ "[0..<length rows]"] by (simp add: col_rows_def)
  then show ?thesis using assms unfolding keys_ok_def by (metis le_less_trans length_map)
qed

lemma small_param_ok: "keys_ok (\<lambda>_. 0) small_param [1, 2, 3]" "sizes_ok 32 small_param" "param_ok TYPE(128) small_param"
proof -
  show "keys_ok (\<lambda>_. 0) small_param [1, 2, 3]" by (rule keys_ok_few) (simp_all add: small_param_def AesCrHash_Hash_def)
  show "sizes_ok 32 small_param" by (simp add: sizes_ok_def small_param_def)
  show "param_ok TYPE(128) small_param" by (simp add: param_ok_def dense_ok_def small_param_def)
qed

theorem Paxos_roundtrip_witness:
  "\<exists>r. store_encode 32 (\<lambda>_. 0) small_param True True [1, 2, 3] [7, 8, 9 :: 128 word] = Some r \<and>
     (\<forall>P. r = Inr P \<longrightarrow> store_decode 32 (\<lambda>_. 0) small_param True P [1, 2, 3] = Inr [7, 8, 9])"
proof -
  have "LENGTH(128) \<le> 128" "length [7, 8, 9 :: 128 word] = length [1, 2, 3 :: 128 word]" "px_dt small_param = GF128 \<or> length [1, 2, 3 :: 128 word] < 32"
    by (simp_all add: small_param_def)
  from Paxos_roundtrip [OF small_param_ok this, of True True] show ?thesis by metis
qed

text \<open>
  C29. Decoding 32 rows at once with dense columns over the field gives for each row what decoding this row gives. With dense
  columns of bits it does not: the block takes its bits from the high half of the hash, where decoding one row, and encoding, take
  the low half, so it gives what one row with the hash shifted by 64 bits gives.
\<close>

theorem Decode32_Decode1:
  fixes P :: "'a::len word list"
  assumes "dense_ok p" "length P = px_size p" "LENGTH('a) \<le> 128" "1 \<le> px_weight p"
    and "\<forall>(row, _) \<in> set rs. length row = px_weight p \<and> distinct row \<and> (\<forall>c \<in> set row. c < sparse_size p)"
  shows "Decode32 avx2 p (map fst rs) (map snd rs) P =
     rmap (\<lambda>(row, d). Decode1 avx2 p row (if px_dt p = GF128 then d else drop_bit 64 d) P) rs"
proof -
  have row: "row_ok (px_weight p) (sparse_size p) (fst r)" if "r \<in> set rs" for r using assms(5) that by (auto simp: row_ok_def)
  then have "rmap (\<lambda>(row, d). Decode1 avx2 p row (if px_dt p = GF128 then d else drop_bit 64 d) P) rs =
      Inr (map (\<lambda>r. row_value avx2 p (fst r) (if px_dt p = GF128 then snd r else drop_bit 64 (snd r)) P) rs)"
    using Decode1_value [OF assms(1,2) _ assms(4)] by (intro rmap_total) (auto split: prod.splits)
  then show ?thesis using Decode32_value [OF assms(1-3) _ assms(4), of rs avx2] row by simp
qed

theorem Decode32_Decode1_witness:
  "Decode32 True (fresh_paxos id small_param 1) [[0, 1, 2], [4, 5, 3]] [5, 6] (replicate 9 (3 :: 128 word)) =
     rmap (\<lambda>(row, d). Decode1 True (fresh_paxos id small_param 1) row d (replicate 9 3)) [([0, 1, 2], 5), ([4, 5, 3], 6)]"
  using Decode32_Decode1 [of "fresh_paxos id small_param 1" "replicate 9 (3 :: 128 word)" "[([0, 1, 2], 5), ([4, 5, 3], 6)]" True]
  by (simp add: small_param_def dense_ok_def px_size_def)

end
