(* ===== verification/Baxos.thy ===== *)
theory Baxos
  imports Paxos_Decode
begin

text \<open>
  \<open>psi/algorithm/rr22/okvs/baxos.cc\<close>: a key-value store of several bins, each of them a \<open>Paxos\<close> of its own. The keys are hashed into the
  bins by several threads, each with its own share of the keys and its own part of the backing arrays; after all threads are done, the bins are distributed
  over the threads, which merge the parts of a bin and encode it. The threads write to disjoint places in both phases, so they are run one after the
  other. The bin sizes that the code computes in floating point (\<open>SimpleIndex::GetBinSize\<close>, \<open>PaxosParam::Init\<close>) are parameters.
\<close>

record Baxos =
  bx_num_items :: nat
  bx_num_bins :: nat
  bx_items_per_bin :: nat
  bx_weight :: nat
  bx_ssp :: nat
  bx_param :: PaxosParam
  bx_encrypt :: "128 word \<Rightarrow> 128 word"
  bx_add_to_decode :: bool

text \<open>\<open>bin_size_of\<close> and \<open>param_of\<close> are the floating-point computations; the seed is given by its block cipher.\<close>

definition Baxos_Init ::
  "(nat \<Rightarrow> nat \<Rightarrow> nat \<Rightarrow> nat) \<Rightarrow> (nat \<Rightarrow> nat \<Rightarrow> nat \<Rightarrow> DenseType \<Rightarrow> PaxosParam) \<Rightarrow> (nat \<Rightarrow> nat \<Rightarrow> nat) \<Rightarrow>
   nat \<Rightarrow> nat \<Rightarrow> nat \<Rightarrow> nat \<Rightarrow> DenseType \<Rightarrow> (128 word \<Rightarrow> 128 word) \<Rightarrow> Baxos result" where
  "Baxos_Init bin_size_of param_of bin_ssp num_items bin_size weight ssp dt seed =
     (if bin_size = 0 then Inl (Undefined ''division by zero'')
      else let num_bins = (num_items + bin_size - 1) div bin_size;
               items_per_bin = bin_size_of num_bins num_items (bin_ssp ssp num_bins)
           in Inr \<lparr> bx_num_items = num_items, bx_num_bins = num_bins, bx_items_per_bin = items_per_bin, bx_weight = weight, bx_ssp = ssp,
                bx_param = param_of items_per_bin weight ssp dt, bx_encrypt = seed, bx_add_to_decode = False \<rparr>)"

definition Baxos_size :: "Baxos \<Rightarrow> nat" where
  "Baxos_size b = bx_num_bins b * (sparse_size (bx_param b) + dense_size (bx_param b))"

definition BinIdxCompress :: "128 word \<Rightarrow> 64 word" where
  "BinIdxCompress h = low64 h XOR high64 h XOR ucast (drop_bit 96 h)"

definition ModNumBins :: "Baxos \<Rightarrow> 128 word \<Rightarrow> nat result" where
  "ModNumBins b h = rbind (umod (BinIdxCompress h) (of_nat (bx_num_bins b))) (\<lambda>r. Inr (unat r))"

text \<open>The index type, by its width; \<open>log2_ceil\<close> is the library's logarithm, rounded up.\<close>

definition RoundUpTo :: "nat \<Rightarrow> nat \<Rightarrow> nat" where
  "RoundUpTo val step = (val + step - 1) div step * step"

definition idx_type :: "(nat \<Rightarrow> nat) \<Rightarrow> Baxos \<Rightarrow> nat" where
  "idx_type log2_ceil b =
     (let bit_length = RoundUpTo (log2_ceil (sparse_size (bx_param b) + 1)) 8
      in if bit_length \<le> 8 then 8 else if bit_length \<le> 16 then 16 else if bit_length \<le> 32 then 32 else 64)"

section \<open>Hashing the keys into the bins\<close>

text \<open>
  The array of a bin has room for \<open>per\<close> elements of each thread. \<open>sizes\<close> has for every thread the number of its elements in every bin. Only the last, incomplete
  batch of a thread is checked for an overflow. The array \<open>input_mapping\<close>, which is written but never read, is left out.
\<close>

record BinStore =
  st_sizes :: "nat list list"
  st_hashes :: "128 word list"
  st_values :: "128 word list"

definition bin_pos :: "nat \<Rightarrow> nat \<Rightarrow> nat \<Rightarrow> nat \<Rightarrow> nat" where
  "bin_pos per num_threads thrd_idx bin_idx = per * num_threads * bin_idx + per * thrd_idx"

definition put_item :: "bool \<Rightarrow> nat \<Rightarrow> nat \<Rightarrow> nat \<Rightarrow> nat \<Rightarrow> 128 word \<Rightarrow> 128 word \<Rightarrow> BinStore \<Rightarrow> BinStore result" where
  "put_item checked per num_threads t b hash v st =
     rbind (at (st_sizes st) t) (\<lambda>row. rbind (at row b) (\<lambda>bs.
     rbind (if checked then enforce (bs < per) ''bs < per_thrd_max_bin_size'' else Inr ()) (\<lambda>_.
     rbind (if bs < per then Inr () else Inl (Undefined ''index'')) (\<lambda>_.
     let pos = bin_pos per num_threads t b + bs in
     rbind (set_at (st_values st) pos v) (\<lambda>vals. rbind (set_at (st_hashes st) pos hash) (\<lambda>hs.
     Inr \<lparr> st_sizes = (st_sizes st)[t := row[b := bs + 1]], st_hashes = hs, st_values = vals \<rparr>))))))"

definition hash_block :: "Baxos \<Rightarrow> nat \<Rightarrow> nat \<Rightarrow> 128 word list \<Rightarrow> 128 word list \<Rightarrow> nat \<Rightarrow> nat \<Rightarrow> BinStore \<Rightarrow> BinStore result" where
  "hash_block bx per num_threads inputs vals t i st =
     (let hashes = hash_batches (bx_encrypt bx) (take 32 (drop i inputs));
          bin_idxs = map (\<lambda>h. mod32 (of_nat (bx_num_bins bx)) (BinIdxCompress h)) hashes
      in rfold (\<lambda>k st. rbind (at bin_idxs k) (\<lambda>b. rbind (at vals (i + k)) (\<lambda>v. rbind (at hashes k) (\<lambda>h.
           put_item False per num_threads t (unat b) h v st)))) [0..<32] st)"

definition hash_one :: "Baxos \<Rightarrow> nat \<Rightarrow> nat \<Rightarrow> 128 word list \<Rightarrow> 128 word list \<Rightarrow> nat \<Rightarrow> nat \<Rightarrow> BinStore \<Rightarrow> BinStore result" where
  "hash_one bx per num_threads inputs vals t i st =
     rbind (at inputs i) (\<lambda>input. let h = AesCrHash_Hash (bx_encrypt bx) input in
     rbind (ModNumBins bx h) (\<lambda>b. rbind (at vals i) (\<lambda>v. put_item True per num_threads t b h v st)))"

definition hash_thread :: "Baxos \<Rightarrow> nat \<Rightarrow> nat \<Rightarrow> 128 word list \<Rightarrow> 128 word list \<Rightarrow> nat \<Rightarrow> BinStore \<Rightarrow> BinStore result" where
  "hash_thread bx per num_threads inputs vals t st =
     (let begin = length inputs * t div num_threads; e = length inputs * (t + 1) div num_threads; blocks = (e - begin) div 32
      in rbind (rfold (\<lambda>k. hash_block bx per num_threads inputs vals t (begin + k * 32)) [0..<blocks] st)
           (rfold (hash_one bx per num_threads inputs vals t) [begin + blocks * 32..<e]))"

section \<open>Solving the bins\<close>

text \<open>\<open>std::memmove\<close> of the hashes, and the loop for the values.\<close>

definition move_block :: "nat \<Rightarrow> nat \<Rightarrow> nat \<Rightarrow> 'e list \<Rightarrow> 'e list result" where
  "move_block dst src n arr =
     (if dst + n \<le> length arr \<and> src + n \<le> length arr then Inr (take dst arr @ take n (drop src arr) @ drop (dst + n) arr) else Inl (Undefined ''index''))"

definition copy_block :: "nat \<Rightarrow> nat \<Rightarrow> nat \<Rightarrow> 'e list \<Rightarrow> 'e list result" where
  "copy_block dst src n = rfold (\<lambda>j arr. rbind (at arr (src + j)) (set_at arr (dst + j))) [0..<n]"

definition merge_thread :: "nat \<Rightarrow> nat \<Rightarrow> nat list list \<Rightarrow> nat \<Rightarrow> nat \<Rightarrow> nat \<times> 128 word list \<times> 128 word list \<Rightarrow> (nat \<times> 128 word list \<times> 128 word list) result" where
  "merge_thread per num_threads sizes b i = (\<lambda>(pos, hs, vals).
     rbind (at sizes i) (\<lambda>row. rbind (at row b) (\<lambda>size.
     rbind (enforce (size \<le> per) ''size <= per_thrd_max_bin_size'') (\<lambda>_.
     rbind (move_block (bin_pos per num_threads 0 b + pos) (bin_pos per num_threads i b) size hs) (\<lambda>hs.
     rbind (copy_block (bin_pos per num_threads 0 b + pos) (bin_pos per num_threads i b) size vals) (\<lambda>vals.
     Inr (pos + size, hs, vals)))))))"

text \<open>The rows of a bin, in blocks of 32 if the weight is 3.\<close>

definition bin_rows :: "bool \<Rightarrow> PaxosHash \<Rightarrow> nat \<Rightarrow> 128 word list \<Rightarrow> nat list list result" where
  "bin_rows avx2 h weight hashes =
     (if weight = 3
      then let blocks = length hashes div 32
           in rbind (rmap (\<lambda>k. BuildRow32 avx2 h (take 32 (drop (k * 32) hashes))) [0..<blocks]) (\<lambda>rs.
              rbind (rmap (BuildRow avx2 h) (drop (blocks * 32) hashes)) (\<lambda>rest. Inr (concat rs @ rest)))
      else rmap (BuildRow avx2 h) hashes)"

definition solve_bin ::
  "bool \<Rightarrow> nat \<Rightarrow> Baxos \<Rightarrow> nat \<Rightarrow> nat \<Rightarrow> (nat \<Rightarrow> 128 word Rand option) \<Rightarrow> nat \<Rightarrow> BinStore \<times> Paxos \<times> 128 word list \<Rightarrow> (BinStore \<times> Paxos \<times> 128 word list) result option" where
  "solve_bin avx2 idx_bits bx per num_threads rnd b = (\<lambda>(st, q, p).
     obind (Some (rbind (rmap (\<lambda>i. rbind (at (st_sizes st) i) (\<lambda>row. at row b)) [0..<num_threads]) (\<lambda>bs.
       let bin_size = sum_list bs in
       rbind (enforce (bin_size \<le> bx_items_per_bin bx) ''bin_size <= items_per_bin_'') (\<lambda>_.
       rbind (Paxos_Init idx_bits (bx_encrypt bx) bin_size (bx_param bx) q) (\<lambda>q.
       rbind (enforce (hd bs \<le> per) ''bin_pos <= per_thrd_max_bin_size'') (\<lambda>_.
       rbind (rfold (merge_thread per num_threads (st_sizes st) b) [1..<num_threads] (hd bs, st_hashes st, st_values st)) (\<lambda>(_, hs, vals).
       let hashes = take bin_size (drop (bin_pos per num_threads 0 b) hs); values = take bin_size (drop (bin_pos per num_threads 0 b) vals) in
       rbind (bin_rows avx2 (px_hasher q) (bx_weight bx) hashes) (\<lambda>rows.
       rbind (rfold count_col (concat rows) (replicate (sparse_size (bx_param bx)) 0)) (\<lambda>col_weights.
       rbind (Paxos_SetInput_rows rows hashes (replicate (sparse_size (bx_param bx)) (0, 0)) (replicate (bin_size * bx_weight bx) 0) col_weights q) (\<lambda>q.
       Inr (st \<lparr> st_hashes := hs, st_values := vals \<rparr>, q, values))))))))))) (\<lambda>(st, q, values).
     let per_bin = px_size (bx_param bx) in
     obind (Encode avx2 False (rnd b) values (take per_bin (drop (per_bin * b) p)) q) (\<lambda>(out, q).
     Some (Inr (st, q, take (per_bin * b) p @ out @ drop (per_bin * b + per_bin) p)))))"

primrec ofold :: "('a \<Rightarrow> 's \<Rightarrow> 's result option) \<Rightarrow> 'a list \<Rightarrow> 's \<Rightarrow> 's result option" where
  "ofold f [] s = Some (Inr s)"
| "ofold f (x # xs) s = obind (f x s) (ofold f xs)"

text \<open>A thread has the bins \<open>t\<close>, \<open>t + num_threads\<close>, and so on, and one \<open>Paxos\<close> for them.\<close>

definition solve_thread ::
  "bool \<Rightarrow> nat \<Rightarrow> Baxos \<Rightarrow> nat \<Rightarrow> nat \<Rightarrow> (nat \<Rightarrow> 128 word Rand option) \<Rightarrow> nat \<Rightarrow> BinStore \<times> 128 word list \<Rightarrow> (BinStore \<times> 128 word list) result option" where
  "solve_thread avx2 idx_bits bx per num_threads rnd t = (\<lambda>(st, p).
     obind (ofold (solve_bin avx2 idx_bits bx per num_threads rnd) (filter (\<lambda>b. b mod num_threads = t) [0..<bx_num_bins bx]) (st, Paxos_new, p)) (\<lambda>(st, _, p).
     Some (Inr (st, p))))"

definition ImplParSolve ::
  "bool \<Rightarrow> nat \<Rightarrow> (nat \<Rightarrow> nat \<Rightarrow> nat \<Rightarrow> nat) \<Rightarrow> nat \<Rightarrow> (nat \<Rightarrow> 128 word Rand option) \<Rightarrow> 128 word list \<Rightarrow> 128 word list \<Rightarrow> 128 word list \<Rightarrow> Baxos \<Rightarrow> 128 word list result option" where
  "ImplParSolve avx2 idx_bits bin_size_of num_threads rnd inputs vals p bx =
     obind (Some (enforce (length p = Baxos_size bx) ''p_.size() == size()'')) (\<lambda>_.
     obind (Some (enforce (length inputs \<le> bx_num_items bx) ''inputs_param.size() <= num_items_'')) (\<lambda>_.
     if bx_num_bins bx = 1
     then obind (Some (rbind (Paxos_Init idx_bits (bx_encrypt bx) (bx_num_items bx) (bx_param bx) Paxos_new) (Paxos_SetInput avx2 inputs))) (\<lambda>paxos.
          obind (Encode avx2 False (rnd 0) vals p paxos) (\<lambda>(p, _). Some (Inr p)))
     else let num_threads = max 1 num_threads;
              per = bin_size_of (bx_num_bins bx) ((bx_num_items bx + num_threads - 1) div num_threads) (bx_ssp bx);
              st = \<lparr> st_sizes = replicate num_threads (replicate (bx_num_bins bx) 0),
                     st_hashes = replicate (bx_num_bins bx * num_threads * per) 0, st_values = replicate (bx_num_bins bx * num_threads * per) 0 \<rparr>
          in obind (Some (rfold (hash_thread bx per num_threads inputs vals) [0..<num_threads] st)) (\<lambda>st.
             obind (ofold (solve_thread avx2 idx_bits bx per num_threads rnd) [0..<num_threads] (st, p)) (\<lambda>(_, p). Some (Inr p)))))"

definition Baxos_Solve ::
  "(nat \<Rightarrow> nat) \<Rightarrow> bool \<Rightarrow> (nat \<Rightarrow> nat \<Rightarrow> nat \<Rightarrow> nat) \<Rightarrow> nat \<Rightarrow> (nat \<Rightarrow> 128 word Rand option) \<Rightarrow> 128 word list \<Rightarrow> 128 word list \<Rightarrow> 128 word list \<Rightarrow> Baxos \<Rightarrow> 128 word list result option" where
  "Baxos_Solve log2_ceil avx2 bin_size_of num_threads rnd inputs vals p bx = ImplParSolve avx2 (idx_type log2_ceil bx) bin_size_of num_threads rnd inputs vals p bx"

section \<open>Decoding\<close>

text \<open>\<open>hashes\<close> and \<open>in_idxs\<close> are the keys of a bin that wait for decoding.\<close>

definition decode_store :: "Baxos \<Rightarrow> nat \<Rightarrow> 128 word \<Rightarrow> 128 word list \<Rightarrow> 128 word list result" where
  "decode_store bx i v vs = (if bx_add_to_decode bx then add_at vs i v else set_at vs i v)"

definition ImplDecodeBin :: "bool \<Rightarrow> Baxos \<Rightarrow> Paxos \<Rightarrow> 128 word list \<Rightarrow> 128 word list \<Rightarrow> nat list \<Rightarrow> 128 word list \<Rightarrow> 128 word list result" where
  "ImplDecodeBin avx2 bx paxos PP hashes in_idxs vs =
     rbind (enforce (bx_weight bx \<le> 20) ''weight_ <= max_weight_size'') (\<lambda>_.
     let blocks = length hashes div 32 in
     rbind (rfold (\<lambda>k vs. let hs = take 32 (drop (k * 32) hashes) in
              rbind (BuildRow32 avx2 (px_hasher paxos) hs) (\<lambda>rows. rbind (Decode32 avx2 paxos rows hs PP) (\<lambda>buff.
              rfold (\<lambda>j vs. rbind (at in_idxs (k * 32 + j)) (\<lambda>i. rbind (at buff j) (\<lambda>v. decode_store bx i v vs))) [0..<32] vs))) [0..<blocks] vs)
       (rfold (\<lambda>i vs. rbind (at hashes i) (\<lambda>h. rbind (BuildRow avx2 (px_hasher paxos) h) (\<lambda>row. rbind (at in_idxs i) (\<lambda>idx.
              rbind (Decode1 avx2 paxos row h PP) (\<lambda>v. decode_store bx idx v vs))))) [blocks * 32..<length hashes]))"

text \<open>The state of a decoding thread: the waiting keys of every bin, and the values.\<close>

definition decode_flush :: "bool \<Rightarrow> Baxos \<Rightarrow> Paxos \<Rightarrow> 128 word list \<Rightarrow> nat \<Rightarrow> (128 word \<times> nat) list \<Rightarrow> 128 word list \<Rightarrow> 128 word list result" where
  "decode_flush avx2 bx paxos pp b batch vs =
     (let size_per = Baxos_size bx div bx_num_bins bx
      in if b * size_per + size_per \<le> length pp
         then ImplDecodeBin avx2 bx paxos (take size_per (drop (b * size_per) pp)) (map fst batch) (map snd batch) vs
         else Inl (Undefined ''subspan''))"

definition decode_put_bin ::
  "bool \<Rightarrow> Baxos \<Rightarrow> Paxos \<Rightarrow> 128 word list \<Rightarrow> nat \<Rightarrow> nat \<Rightarrow> 128 word \<Rightarrow> nat \<Rightarrow> (128 word \<times> nat) list list \<times> 128 word list \<Rightarrow> ((128 word \<times> nat) list list \<times> 128 word list) result" where
  "decode_put_bin avx2 bx paxos pp decode_size b hash i = (\<lambda>(batches, vs).
     rbind (at batches b) (\<lambda>batch.
     let batch = batch @ [(hash, i)] in
     if length batch = decode_size
     then rbind (decode_flush avx2 bx paxos pp b batch vs) (\<lambda>vs. Inr (batches[b := []], vs))
     else Inr (batches[b := batch], vs)))"

definition decode_batch_block ::
  "bool \<Rightarrow> Baxos \<Rightarrow> Paxos \<Rightarrow> 128 word list \<Rightarrow> nat \<Rightarrow> 128 word list \<Rightarrow> nat \<Rightarrow> (128 word \<times> nat) list list \<times> 128 word list \<Rightarrow> ((128 word \<times> nat) list list \<times> 128 word list) result" where
  "decode_batch_block avx2 bx paxos pp decode_size inputs i st =
     (let buffer = hash_batches (bx_encrypt bx) (take 32 (drop i inputs));
          bin_idxs = map (\<lambda>h. mod32 (of_nat (bx_num_bins bx)) (BinIdxCompress h)) buffer
      in rfold (\<lambda>k st. rbind (at bin_idxs k) (\<lambda>b. rbind (at buffer k) (\<lambda>h. decode_put_bin avx2 bx paxos pp decode_size (unat b) h (i + k) st))) [0..<32] st)"

definition decode_batch_one ::
  "bool \<Rightarrow> Baxos \<Rightarrow> Paxos \<Rightarrow> 128 word list \<Rightarrow> nat \<Rightarrow> 128 word list \<Rightarrow> nat \<Rightarrow> (128 word \<times> nat) list list \<times> 128 word list \<Rightarrow> ((128 word \<times> nat) list list \<times> 128 word list) result" where
  "decode_batch_one avx2 bx paxos pp decode_size inputs i st =
     rbind (at inputs i) (\<lambda>input. let h = AesCrHash_Hash (bx_encrypt bx) input in
     rbind (ModNumBins bx h) (\<lambda>b. decode_put_bin avx2 bx paxos pp decode_size b h i st))"

definition ImplDecodeBatch :: "bool \<Rightarrow> nat \<Rightarrow> Baxos \<Rightarrow> 128 word list \<Rightarrow> 128 word list \<Rightarrow> 128 word list \<Rightarrow> 128 word list result" where
  "ImplDecodeBatch avx2 idx_bits bx inputs pp values =
     (let decode_size = min 512 (length inputs); blocks = length inputs div 32 in
      rbind (Paxos_Init idx_bits (bx_encrypt bx) 1 (bx_param bx) Paxos_new) (\<lambda>paxos.
      rbind (rfold (\<lambda>k. decode_batch_block avx2 bx paxos pp decode_size inputs (k * 32)) [0..<blocks] (replicate (bx_num_bins bx) [], values)) (\<lambda>st.
      rbind (rfold (decode_batch_one avx2 bx paxos pp decode_size inputs) [blocks * 32..<length inputs] st) (\<lambda>(batches, vs).
      rfold (\<lambda>b vs. rbind (at batches b) (\<lambda>batch. if batch = [] then Inr vs else decode_flush avx2 bx paxos pp b batch vs)) [0..<bx_num_bins bx] vs))))"

definition decode_thread :: "bool \<Rightarrow> nat \<Rightarrow> nat \<Rightarrow> Baxos \<Rightarrow> 128 word list \<Rightarrow> 128 word list \<Rightarrow> nat \<Rightarrow> 128 word list \<Rightarrow> 128 word list result" where
  "decode_thread avx2 idx_bits num_threads bx inputs pp i values =
     (let begin = length inputs * i div num_threads; e = length inputs * (i + 1) div num_threads in
      if e \<le> length values
      then rbind (ImplDecodeBatch avx2 idx_bits bx (take (e - begin) (drop begin inputs)) pp (take (e - begin) (drop begin values)))
             (\<lambda>va. Inr (take begin values @ va @ drop e values))
      else Inl (Undefined ''subspan''))"

definition ImplParDecode :: "bool \<Rightarrow> nat \<Rightarrow> nat \<Rightarrow> Baxos \<Rightarrow> 128 word list \<Rightarrow> 128 word list \<Rightarrow> 128 word list \<Rightarrow> 128 word list result" where
  "ImplParDecode avx2 idx_bits num_threads bx inputs values pp =
     (if bx_num_bins bx = 1
      then rbind (Paxos_Init idx_bits (bx_encrypt bx) 1 (bx_param bx) Paxos_new) (\<lambda>paxos. Decode avx2 paxos inputs values pp)
      else let num_threads = max num_threads 1
           in rfold (decode_thread avx2 idx_bits num_threads bx inputs pp) [0..<num_threads] values)"

definition Baxos_Decode :: "(nat \<Rightarrow> nat) \<Rightarrow> bool \<Rightarrow> nat \<Rightarrow> Baxos \<Rightarrow> 128 word list \<Rightarrow> 128 word list \<Rightarrow> 128 word list \<Rightarrow> 128 word list result" where
  "Baxos_Decode log2_ceil avx2 num_threads bx inputs values p = ImplParDecode avx2 (idx_type log2_ceil bx) num_threads bx inputs values p"

end
