(* ===== verification/Baxos_Bins.thy ===== *)
theory Baxos_Bins
  imports Baxos
begin

text \<open>
  The backing arrays of the binned key-value store: after hashing, every thread has the keys of its share in the right bins, in the order of the inputs;
  merging the parts of a bin in place gives all keys of the bin in the order of the inputs.
\<close>

section \<open>Loops that succeed\<close>

lemma rfold_upt_Inr:
  assumes "rfold f [a..<b] s = Inr s'" "a \<le> b" "I a s" "\<And>i s s1. a \<le> i \<Longrightarrow> i < b \<Longrightarrow> I i s \<Longrightarrow> f i s = Inr s1 \<Longrightarrow> I (Suc i) s1"
  shows "I b s'"
proof -
  have "\<forall>s'. rfold f [a..<m] s = Inr s' \<longrightarrow> I m s'" if "a \<le> m" "m \<le> b" for m
    using that
  proof (induction m rule: dec_induct)
    case (step m)
    then show ?case using assms(4) by (auto simp: rbind_eq_Inr_iff)
  qed (use assms(3) in auto)
  then show ?thesis using assms(1,2) by blast
qed

lemma rfold_blocks:
  assumes "rfold f [0..<m] s = Inr s'" "I a s"
    and "\<And>k s s1. k < m \<Longrightarrow> I (a + k * w) s \<Longrightarrow> f k s = Inr s1 \<Longrightarrow> I (a + Suc k * w) s1"
  shows "I (a + m * w) s'"
  using rfold_upt_Inr [OF assms(1), where I = "\<lambda>k. I (a + k * w)"] assms(2,3) by simp

lemma rfold_single: "rfold f [x] s = f x s"
  by (cases "f x s") simp_all

section \<open>The cells of the backing arrays\<close>

text \<open>\<open>K t b\<close> is the list of the inputs, by their index, that thread \<open>t\<close> has put into bin \<open>b\<close>.\<close>

definition cells_at :: "nat \<Rightarrow> nat \<Rightarrow> nat set \<Rightarrow> (nat \<Rightarrow> nat \<Rightarrow> nat list) \<Rightarrow> (nat \<Rightarrow> 'e) \<Rightarrow> 'e list \<Rightarrow> bool" where
  "cells_at per T bins K f arr \<longleftrightarrow> (\<forall>t < T. \<forall>b \<in> bins. length (K t b) \<le> per \<and> (\<forall>j < length (K t b). arr ! (bin_pos per T t b + j) = f (K t b ! j)))"

definition cells_ok :: "nat \<Rightarrow> nat \<Rightarrow> nat \<Rightarrow> nat set \<Rightarrow> (nat \<Rightarrow> nat \<Rightarrow> nat list) \<Rightarrow> (nat \<Rightarrow> 128 word) \<Rightarrow> (nat \<Rightarrow> 128 word) \<Rightarrow> BinStore \<Rightarrow> bool" where
  "cells_ok per T B bins K hf vf st \<longleftrightarrow> length (st_sizes st) = T \<and> (\<forall>t < T. length (st_sizes st ! t) = B) \<and>
     length (st_hashes st) = B * T * per \<and> length (st_values st) = B * T * per \<and>
     (\<forall>t < T. \<forall>b < B. st_sizes st ! t ! b = length (K t b)) \<and>
     cells_at per T bins K hf (st_hashes st) \<and> cells_at per T bins K vf (st_values st)"

lemma bin_pos_alt: "bin_pos per T t b + j = (b * T + t) * per + j"
  by (simp add: bin_pos_def algebra_simps)

lemma pos_inj:
  assumes "j < per" "j' < (per :: nat)" "(b * T + t) * per + j = (b' * T + t') * per + j'" "t < T" "t' < (T :: nat)"
  shows "b = b' \<and> t = t' \<and> j = j'"
proof -
  have "((b * T + t) * per + j) div per = b * T + t" "((b * T + t) * per + j) mod per = j"
    "((b' * T + t') * per + j') div per = b' * T + t'" "((b' * T + t') * per + j') mod per = j'" using assms(1,2) by auto
  then have 1: "b * T + t = b' * T + t'" "j = j'" using assms(3) by metis+
  have "(b * T + t) div T = b" "(b * T + t) mod T = t" "(b' * T + t') div T = b'" "(b' * T + t') mod T = t'" using assms(4,5) by auto
  then show ?thesis using 1 by metis
qed

lemma pos_less:
  assumes "j < per" "t < T" "b < B"
  shows "bin_pos per T t b + j < B * T * per"
proof -
  have "b * T + t < B * T" using assms(2,3) by (metis add_less_mono1 add.commute less_le_trans mult_Suc mult_le_mono1 Suc_leI)
  then have "(b * T + t) * per + j < B * T * per" using assms(1)
    by (metis add_less_cancel_left less_le_trans mult_Suc add.commute mult_le_mono1 Suc_leI)
  then show ?thesis by (simp only: bin_pos_alt)
qed

definition grow :: "nat \<Rightarrow> nat \<Rightarrow> nat \<Rightarrow> (nat \<Rightarrow> nat \<Rightarrow> nat list) \<Rightarrow> nat \<Rightarrow> nat \<Rightarrow> nat list" where
  "grow t b i K = (\<lambda>t' b'. if t' = t \<and> b' = b then K t b @ [i] else K t' b')"

lemma cells_at_put:
  assumes "cells_at per T {0..<B} K f arr" "t < T" "b < B" "length (K t b) < per" "length arr = B * T * per"
  shows "cells_at per T {0..<B} (grow t b i K) f (arr[bin_pos per T t b + length (K t b) := f i])"
  unfolding cells_at_def
proof (intro allI impI ballI conjI)
  fix t' b' assume tb: "t' < T" "b' \<in> {0..<B}"
  show "length (grow t b i K t' b') \<le> per" using assms(1,4) tb by (auto simp: grow_def cells_at_def)
  fix j assume j: "j < length (grow t b i K t' b')"
  have old: "length (K t' b') \<le> per" "\<And>j. j < length (K t' b') \<Longrightarrow> arr ! (bin_pos per T t' b' + j) = f (K t' b' ! j)"
    using assms(1) tb by (auto simp: cells_at_def)
  have jp: "j < per" using j old(1) assms(4) by (auto simp: grow_def split: if_splits)
  let ?pos = "bin_pos per T t b + length (K t b)"
  have pl: "?pos < length arr" using pos_less [OF assms(4,2,3)] assms(5) by simp
  show "arr[?pos := f i] ! (bin_pos per T t' b' + j) = f (grow t b i K t' b' ! j)"
  proof (cases "t' = t \<and> b' = b")
    case True
    then show ?thesis using j old(2) pl by (auto simp: grow_def nth_append less_Suc_eq)
  next
    case False
    then have "bin_pos per T t' b' + j \<noteq> ?pos" using pos_inj [of j per "length (K t b)" b' T t' b t] jp assms(2,4) tb by (auto simp: bin_pos_alt)
    then show ?thesis using False j old(2) by (auto simp: grow_def)
  qed
qed

lemma put_item_cells:
  assumes ok: "cells_ok per T B {0..<B} K hf vf st" and tb: "t < T" "b < B" and res: "put_item checked per T t b (hf i) (vf i) st = Inr st'"
  shows "cells_ok per T B {0..<B} (grow t b i K) hf vf st'"
proof -
  let ?row = "st_sizes st ! t" and ?pos = "bin_pos per T t b + length (K t b)"
  have F: "length (st_sizes st) = T" "length ?row = B" "?row ! b = length (K t b)" "length (st_hashes st) = B * T * per" "length (st_values st) = B * T * per"
    using ok tb by (auto simp: cells_ok_def)
  have lt: "length (K t b) < per" using res F tb by (auto simp: put_item_def rbind_eq_Inr_iff split: if_splits)
  have pl: "?pos < B * T * per" using pos_less [OF lt tb] .
  have "st' = \<lparr> st_sizes = (st_sizes st)[t := ?row[b := length (K t b) + 1]], st_hashes = (st_hashes st)[?pos := hf i], st_values = (st_values st)[?pos := vf i] \<rparr>"
    using res F tb lt pl by (cases checked) (auto simp: put_item_def Let_def)
  moreover have "cells_at per T {0..<B} (grow t b i K) hf ((st_hashes st)[?pos := hf i])" "cells_at per T {0..<B} (grow t b i K) vf ((st_values st)[?pos := vf i])"
    using ok tb lt F(4,5) by (auto simp: cells_ok_def intro!: cells_at_put)
  ultimately show ?thesis using ok F tb by (auto simp: cells_ok_def grow_def nth_list_update)
qed

section \<open>Hashing\<close>

definition bin_of :: "Baxos \<Rightarrow> 128 word \<Rightarrow> nat" where
  "bin_of bx x = unat (BinIdxCompress (AesCrHash_Hash (bx_encrypt bx) x) mod of_nat (bx_num_bins bx))"

definition bins_ok :: "Baxos \<Rightarrow> bool" where
  "bins_ok bx \<longleftrightarrow> 0 < bx_num_bins bx \<and> bx_num_bins bx < 2 ^ 64"

lemma bin_of_less: "bins_ok bx \<Longrightarrow> bin_of bx x < bx_num_bins bx"
  using unat_mod_less64 [of "of_nat (bx_num_bins bx)"] by (simp add: bin_of_def bins_ok_def unat_of_nat_small)

lemma ModNumBins_bin_of: "bins_ok bx \<Longrightarrow> ModNumBins bx (AesCrHash_Hash (bx_encrypt bx) x) = Inr (bin_of bx x)"
proof -
  assume ok: "bins_ok bx"
  then have "0 < unat (of_nat (bx_num_bins bx) :: 64 word)" by (simp add: bins_ok_def unat_of_nat_small)
  then have "of_nat (bx_num_bins bx) \<noteq> (0 :: 64 word)" by (rule unat_pos_neq_0)
  then show ?thesis by (simp add: ModNumBins_def bin_of_def umod_def)
qed

text \<open>Thread \<open>t\<close> has the inputs from \<open>share t\<close> to \<open>share (t + 1)\<close>; of them it has treated those before \<open>m\<close>.\<close>

definition bin_idx :: "Baxos \<Rightarrow> 128 word list \<Rightarrow> nat \<Rightarrow> nat \<Rightarrow> nat \<Rightarrow> nat list" where
  "bin_idx bx inputs i0 i1 b = filter (\<lambda>i. bin_of bx (inputs ! i) = b) [i0..<i1]"

lemma bin_idx_snoc:
  "i0 \<le> i \<Longrightarrow> bin_idx bx inputs i0 (Suc i) b = (if bin_of bx (inputs ! i) = b then bin_idx bx inputs i0 i b @ [i] else bin_idx bx inputs i0 i b)"
  by (simp add: bin_idx_def)

definition share :: "nat \<Rightarrow> nat \<Rightarrow> nat \<Rightarrow> nat" where
  "share n T t = n * t div T"

lemma share_mono: "t \<le> t' \<Longrightarrow> share n T t \<le> share n T t'"
  by (simp add: share_def div_le_mono)

lemma share_bounds: "0 < T \<Longrightarrow> share n T 0 = 0 \<and> share n T T = n"
  by (simp add: share_def)

lemma share_le: "0 < T \<Longrightarrow> t \<le> T \<Longrightarrow> share n T t \<le> n"
  using share_mono [of t T n T] share_bounds [of T n] by simp

definition upto :: "nat \<Rightarrow> nat \<Rightarrow> nat \<Rightarrow> nat \<Rightarrow> nat \<Rightarrow> nat" where
  "upto n T t m t' = (if t' < t then share n T (Suc t') else if t' = t then m else share n T t')"

definition placed_keys :: "Baxos \<Rightarrow> nat \<Rightarrow> 128 word list \<Rightarrow> nat \<Rightarrow> nat \<Rightarrow> nat \<Rightarrow> nat \<Rightarrow> nat list" where
  "placed_keys bx T inputs t m = (\<lambda>t' b. bin_idx bx inputs (share (length inputs) T t') (upto (length inputs) T t m t') b)"

lemma placed_keys_grow:
  assumes "share (length inputs) T t \<le> i"
  shows "placed_keys bx T inputs t (Suc i) = grow t (bin_of bx (inputs ! i)) i (placed_keys bx T inputs t i)"
  using assms by (auto simp: fun_eq_iff placed_keys_def grow_def upto_def bin_idx_snoc)

lemma placed_keys_next: "placed_keys bx T inputs (Suc t) (share (length inputs) T (Suc t)) = placed_keys bx T inputs t (share (length inputs) T (Suc t))"
  by (auto simp: fun_eq_iff placed_keys_def upto_def less_Suc_eq)

abbreviation key_hf :: "Baxos \<Rightarrow> 128 word list \<Rightarrow> nat \<Rightarrow> 128 word" where
  "key_hf bx inputs i \<equiv> AesCrHash_Hash (bx_encrypt bx) (inputs ! i)"

lemma hash_one_cells:
  assumes "bins_ok bx" "cells_ok per T (bx_num_bins bx) {0..<bx_num_bins bx} (placed_keys bx T inputs t i) (key_hf bx inputs) ((!) vals) st" "t < T"
    and "share (length inputs) T t \<le> i" "i < length inputs" "i < length vals"
    and res: "put_item checked per T t (bin_of bx (inputs ! i)) (key_hf bx inputs i) (vals ! i) st = Inr st'"
  shows "cells_ok per T (bx_num_bins bx) {0..<bx_num_bins bx} (placed_keys bx T inputs t (Suc i)) (key_hf bx inputs) ((!) vals) st'"
  using put_item_cells [OF assms(2,3) bin_of_less [OF assms(1)] res] placed_keys_grow [OF assms(4)] by simp

lemma hash_block_cells:
  assumes bx: "bins_ok bx" and ok: "cells_ok per T (bx_num_bins bx) {0..<bx_num_bins bx} (placed_keys bx T inputs t i) (key_hf bx inputs) ((!) vals) st" "t < T"
    and i: "share (length inputs) T t \<le> i" "i + 32 \<le> length inputs" "length vals = length inputs" and res: "hash_block bx per T inputs vals t i st = Inr st'"
  shows "cells_ok per T (bx_num_bins bx) {0..<bx_num_bins bx} (placed_keys bx T inputs t (i + 32)) (key_hf bx inputs) ((!) vals) st'"
proof -
  let ?hs = "map (AesCrHash_Hash (bx_encrypt bx)) (take 32 (drop i inputs))"
  let ?bs = "map (\<lambda>h. mod32 (of_nat (bx_num_bins bx)) (BinIdxCompress h)) ?hs"
  let ?f = "\<lambda>k st. rbind (at ?bs k) (\<lambda>b. rbind (at vals (i + k)) (\<lambda>v. rbind (at ?hs k) (\<lambda>h. put_item False per T t (unat b) h v st)))"
  have f: "?f k st = put_item False per T t (bin_of bx (inputs ! (i + k))) (key_hf bx inputs (i + k)) (vals ! (i + k)) st" if "k < 32" for k st
    using that i by (simp add: bin_of_def mod32_mod)
  have res: "rfold ?f [0..<32] st = Inr st'" using res by (simp add: hash_block_def hash_batches_map Let_def)
  show ?thesis
  proof (rule rfold_upt_Inr [OF res, where I = "\<lambda>k st. cells_ok per T (bx_num_bins bx) {0..<bx_num_bins bx} (placed_keys bx T inputs t (i + k)) (key_hf bx inputs) ((!) vals) st"])
    fix k st s1 assume "0 \<le> k" "k < 32" "cells_ok per T (bx_num_bins bx) {0..<bx_num_bins bx} (placed_keys bx T inputs t (i + k)) (key_hf bx inputs) ((!) vals) st" "?f k st = Inr s1"
    then show "cells_ok per T (bx_num_bins bx) {0..<bx_num_bins bx} (placed_keys bx T inputs t (i + Suc k)) (key_hf bx inputs) ((!) vals) s1"
      using hash_one_cells [OF bx _ ok(2), of per inputs "i + k" vals st False s1] f [of k st] i by simp
  qed (use ok(1) in auto)
qed

lemma hash_thread_cells:
  assumes bx: "bins_ok bx" and t: "t < T" and len: "length vals = length inputs"
    and ok: "cells_ok per T (bx_num_bins bx) {0..<bx_num_bins bx} (placed_keys bx T inputs t (share (length inputs) T t)) (key_hf bx inputs) ((!) vals) st"
    and res: "hash_thread bx per T inputs vals t st = Inr st'"
  shows "cells_ok per T (bx_num_bins bx) {0..<bx_num_bins bx} (placed_keys bx T inputs (Suc t) (share (length inputs) T (Suc t))) (key_hf bx inputs) ((!) vals) st'"
proof -
  let ?lo = "share (length inputs) T t" and ?hi = "share (length inputs) T (Suc t)" and ?m = "(share (length inputs) T (Suc t) - share (length inputs) T t) div 32"
  let ?I = "\<lambda>i st. cells_ok per T (bx_num_bins bx) {0..<bx_num_bins bx} (placed_keys bx T inputs t i) (key_hf bx inputs) ((!) vals) st"
  have hi: "?hi \<le> length inputs" "?lo \<le> ?hi" using share_le [of T "Suc t" "length inputs"] share_mono [of t "Suc t" "length inputs" T] t by simp_all
  have main: "?lo + ?m * 32 \<le> ?hi" using hi(2) div_times_less_eq_dividend [of "?hi - ?lo" 32] by linarith
  obtain s1 where s1: "rfold (\<lambda>k. hash_block bx per T inputs vals t (?lo + k * 32)) [0..<?m] st = Inr s1"
    "rfold (hash_one bx per T inputs vals t) [?lo + ?m * 32..<?hi] s1 = Inr st'"
    using res by (auto simp: hash_thread_def Let_def share_def rbind_eq_Inr_iff)
  have 1: "?I (?lo + ?m * 32) s1"
  proof (rule rfold_blocks [OF s1(1), where I = ?I])
    fix k s s1 assume k: "k < ?m" "?I (?lo + k * 32) s" "hash_block bx per T inputs vals t (?lo + k * 32) s = Inr s1"
    have "?lo + k * 32 + 32 \<le> length inputs" using k(1) main hi by linarith
    then show "?I (?lo + Suc k * 32) s1" using hash_block_cells [OF bx k(2) t _ _ len k(3)] by (simp add: algebra_simps)
  qed (rule ok)
  have "?I ?hi st'"
  proof (rule rfold_upt_Inr [OF s1(2) main, where I = ?I])
    fix i s s1 assume i: "?lo + ?m * 32 \<le> i" "i < ?hi" "?I i s" "hash_one bx per T inputs vals t i s = Inr s1"
    then show "?I (Suc i) s1"
      using hash_one_cells [OF bx i(3) t, of True s1] hi len ModNumBins_bin_of [OF bx] by (simp add: hash_one_def Let_def)
  qed (rule 1)
  then show ?thesis by (simp add: placed_keys_next)
qed

definition bin_keys :: "Baxos \<Rightarrow> nat \<Rightarrow> 128 word list \<Rightarrow> nat \<Rightarrow> nat \<Rightarrow> nat list" where
  "bin_keys bx T inputs t b = bin_idx bx inputs (share (length inputs) T t) (share (length inputs) T (Suc t)) b"

lemma cells_ok_cong: "(\<And>t b. t < T \<Longrightarrow> K t b = K' t b) \<Longrightarrow> cells_ok per T B bins K hf vf st = cells_ok per T B bins K' hf vf st"
  by (simp add: cells_ok_def cells_at_def)

lemma hash_threads_cells:
  assumes bx: "bins_ok bx" and T: "0 < T" and len: "length vals = length inputs"
    and res: "rfold (hash_thread bx per T inputs vals) [0..<T] \<lparr> st_sizes = replicate T (replicate (bx_num_bins bx) 0),
       st_hashes = replicate (bx_num_bins bx * T * per) 0, st_values = replicate (bx_num_bins bx * T * per) 0 \<rparr> = Inr st'"
  shows "cells_ok per T (bx_num_bins bx) {0..<bx_num_bins bx} (bin_keys bx T inputs) (key_hf bx inputs) ((!) vals) st'"
proof -
  let ?I = "\<lambda>t st. cells_ok per T (bx_num_bins bx) {0..<bx_num_bins bx} (placed_keys bx T inputs t (share (length inputs) T t)) (key_hf bx inputs) ((!) vals) st"
  have "?I T st'"
  proof (rule rfold_upt_Inr [OF res, where I = ?I])
    have "placed_keys bx T inputs 0 (share (length inputs) T 0) t b = []" for t b by (simp add: placed_keys_def upto_def bin_idx_def)
    then show "?I 0 \<lparr> st_sizes = replicate T (replicate (bx_num_bins bx) 0), st_hashes = replicate (bx_num_bins bx * T * per) 0, st_values = replicate (bx_num_bins bx * T * per) 0 \<rparr>"
      by (simp add: cells_ok_def cells_at_def)
  qed (use hash_thread_cells [OF bx _ len] in auto)
  then show ?thesis by (subst (asm) cells_ok_cong [where K' = "bin_keys bx T inputs"]) (auto simp: placed_keys_def bin_keys_def upto_def)
qed

lemma concat_bin_keys:
  assumes "0 < T"
  shows "concat (map (\<lambda>t. bin_keys bx T inputs t b) [0..<T]) = bin_idx bx inputs 0 (length inputs) b"
proof -
  have "concat (map (\<lambda>t. bin_keys bx T inputs t b) [0..<m]) = bin_idx bx inputs 0 (share (length inputs) T m) b" for m
  proof (induction m)
    case (Suc m)
    have "[0..<share (length inputs) T (Suc m)] = [0..<share (length inputs) T m] @ [share (length inputs) T m..<share (length inputs) T (Suc m)]"
      using upt_add_eq_append [of 0 "share (length inputs) T m" "share (length inputs) T (Suc m) - share (length inputs) T m"] share_mono [of m "Suc m" "length inputs" T] by simp
    then show ?case using Suc by (simp add: bin_keys_def bin_idx_def)
  qed (simp add: bin_idx_def share_def)
  then show ?thesis using share_bounds [OF assms] by simp
qed

section \<open>Merging\<close>

lemma block_nth:
  assumes "dst + n \<le> length arr" "src + n \<le> length arr" "k < length arr"
  shows "(take dst arr @ take n (drop src arr) @ drop (dst + n) arr) ! k = (if dst \<le> k \<and> k < dst + n then arr ! (src + (k - dst)) else arr ! k)"
proof -
  have "length (take dst arr) = dst" "length (take n (drop src arr)) = n" using assms by simp_all
  then show ?thesis using assms by (simp only: nth_append) auto
qed

lemma block_length: "dst + n \<le> length arr \<Longrightarrow> src + n \<le> length arr \<Longrightarrow> length (take dst arr @ take n (drop src arr) @ drop (dst + n) arr) = length arr"
  by simp

lemma copy_block_move:
  assumes "dst \<le> src" "src + n \<le> length arr"
  shows "copy_block dst src n arr = move_block dst src n arr"
proof -
  let ?m = "\<lambda>n. take dst arr @ take n (drop src arr) @ drop (dst + n) arr"
  have "copy_block dst src n arr = Inr (?m n)" using assms(2)
  proof (induction n)
    case (Suc n)
    have len: "length (?m n) = length arr" using Suc.prems assms(1) by simp
    have nth: "?m n ! (src + n) = arr ! (src + n)" using block_nth [of dst n arr src "src + n"] Suc.prems assms(1) by simp
    have upd: "(?m n)[dst + n := arr ! (src + n)] = ?m (Suc n)"
    proof (rule nth_equalityI)
      fix k assume "k < length ((?m n)[dst + n := arr ! (src + n)])"
      then have k: "k < length arr" using len by simp
      have "(?m n)[dst + n := arr ! (src + n)] ! k = (if k = dst + n then arr ! (src + n) else ?m n ! k)" using k len by (simp add: nth_list_update del: length_append)
      then show "(?m n)[dst + n := arr ! (src + n)] ! k = ?m (Suc n) ! k"
        using block_nth [of dst n arr src k] block_nth [of dst "Suc n" arr src k] k Suc.prems assms(1) by auto
    qed (use Suc.prems assms(1) in simp)
    have "copy_block dst src (Suc n) arr = rbind (copy_block dst src n arr) (rfold (\<lambda>j arr. rbind (at arr (src + j)) (set_at arr (dst + j))) [n])"
      by (simp only: copy_block_def upt_Suc_append rfold_append zero_le)
    then have "copy_block dst src (Suc n) arr = rbind (at (?m n) (src + n)) (set_at (?m n) (dst + n))" using Suc by (simp add: rfold_single del: rfold.simps)
    then show ?case using len nth upd Suc.prems assms(1) by simp
  qed (simp add: copy_block_def)
  then show ?thesis using assms by (simp add: move_block_def)
qed

text \<open>The parts of the threads before \<open>i\<close> are merged.\<close>

definition part_ok :: "nat \<Rightarrow> nat \<Rightarrow> nat \<Rightarrow> (nat \<Rightarrow> nat \<Rightarrow> nat list) \<Rightarrow> (nat \<Rightarrow> 'e) \<Rightarrow> nat \<Rightarrow> 'e list \<Rightarrow> 'e list \<Rightarrow> bool" where
  "part_ok per T b K f i arr0 arr \<longleftrightarrow> length arr = length arr0 \<and>
     (\<forall>j < length (concat (map (\<lambda>t. K t b) [0..<i])). arr ! (bin_pos per T 0 b + j) = f (concat (map (\<lambda>t. K t b) [0..<i]) ! j)) \<and>
     (\<forall>t. i \<le> t \<longrightarrow> t < T \<longrightarrow> (\<forall>j < length (K t b). arr ! (bin_pos per T t b + j) = f (K t b ! j))) \<and>
     (\<forall>k < length arr0. k < bin_pos per T 0 b \<or> bin_pos per T 0 (Suc b) \<le> k \<longrightarrow> arr ! k = arr0 ! k)"

lemma length_concat_le: "(\<And>x. x \<in> set xs \<Longrightarrow> length (f x) \<le> per) \<Longrightarrow> length (concat (map f xs)) \<le> length xs * per"
  by (induction xs) (auto simp: add_mono)

lemma part_ok_step:
  assumes ok: "part_ok per T b K f i arr0 arr" and i: "i < T" and K: "\<And>t. t < T \<Longrightarrow> length (K t b) \<le> per" and len: "bin_pos per T 0 (Suc b) \<le> length arr"
  shows "\<exists>arr'. move_block (bin_pos per T 0 b + length (concat (map (\<lambda>t. K t b) [0..<i]))) (bin_pos per T i b) (length (K i b)) arr = Inr arr' \<and>
     copy_block (bin_pos per T 0 b + length (concat (map (\<lambda>t. K t b) [0..<i]))) (bin_pos per T i b) (length (K i b)) arr = Inr arr' \<and> part_ok per T b K f (Suc i) arr0 arr'"
proof -
  let ?L = "concat (map (\<lambda>t. K t b) [0..<i])" and ?p = "bin_pos per T 0 b" and ?src = "bin_pos per T i b" and ?n = "length (K i b)"
  let ?dst = "?p + length ?L"
  let ?arr = "take ?dst arr @ take ?n (drop ?src arr) @ drop (?dst + ?n) arr"
  have "length ?L \<le> length [0..<i] * per" using i K by (intro length_concat_le) auto
  then have ds: "?dst \<le> ?src" by (simp add: bin_pos_def mult.commute)
  have n: "?n \<le> per" using K i .
  have "per * (Suc i) \<le> per * T" using i by (intro mult_le_mono2) simp
  then have sl: "?src + ?n \<le> bin_pos per T 0 (Suc b)" using n by (simp add: bin_pos_def)
  have len': "length ?arr = length arr" using ds sl len by simp
  have nth: "?arr ! k = (if ?dst \<le> k \<and> k < ?dst + ?n then arr ! (?src + (k - ?dst)) else arr ! k)" if "k < length arr" for k
    using block_nth [OF _ _ that] ds sl len by simp
  have far: "?dst + ?n \<le> bin_pos per T t b" if "Suc i \<le> t" for t
  proof -
    have "per * Suc i \<le> per * t" using that by (intro mult_le_mono2) simp
    then show ?thesis using ds n by (simp add: bin_pos_def)
  qed
  have old: "\<And>j. j < length ?L \<Longrightarrow> arr ! (?p + j) = f (?L ! j)" "\<And>t j. i \<le> t \<Longrightarrow> t < T \<Longrightarrow> j < length (K t b) \<Longrightarrow> arr ! (bin_pos per T t b + j) = f (K t b ! j)"
    "\<And>k. k < length arr0 \<Longrightarrow> k < ?p \<or> bin_pos per T 0 (Suc b) \<le> k \<Longrightarrow> arr ! k = arr0 ! k" "length arr = length arr0" using ok unfolding part_ok_def by blast+
  have in_bin: "bin_pos per T t b + j < length arr" if "t < T" "j < length (K t b)" for t j
  proof -
    have "per * Suc t \<le> per * T" using that(1) by (intro mult_le_mono2) simp
    then show ?thesis using that(2) K [OF that(1)] len by (simp add: bin_pos_def)
  qed
  have 1: "?arr ! (?p + j) = f ((?L @ K i b) ! j)" if "j < length (?L @ K i b)" for j
  proof (cases "j < length ?L")
    case True
    then have "?arr ! (?p + j) = arr ! (?p + j)" using nth [of "?p + j"] ds sl len by (simp del: append_assoc)
    then show ?thesis using True old(1) by (simp add: nth_append)
  next
    case False
    then have j: "j - length ?L < ?n" "?p + j < length arr" "?dst \<le> ?p + j" "?p + j < ?dst + ?n" "?p + j - ?dst = j - length ?L" using that ds sl len by simp_all
    then have "?arr ! (?p + j) = arr ! (?src + (j - length ?L))" using nth [OF j(2)] by presburger
    then show ?thesis using False old(2) [OF le_refl i j(1)] by (simp add: nth_append)
  qed
  have 2: "?arr ! (bin_pos per T t b + j) = f (K t b ! j)" if "Suc i \<le> t" "t < T" "j < length (K t b)" for t j
    using nth [OF in_bin [OF that(2,3)]] far [OF that(1)] old(2) that by simp
  have 3: "?arr ! k = arr0 ! k" if "k < length arr0" "k < ?p \<or> bin_pos per T 0 (Suc b) \<le> k" for k
  proof -
    have k: "k < length arr" "\<not> (?dst \<le> k \<and> k < ?dst + ?n)" using that old(4) ds sl by auto
    then show ?thesis using nth [OF k(1)] old(3) [OF that] by presburger
  qed
  have "move_block ?dst ?src ?n arr = Inr ?arr" using ds sl len by (simp add: move_block_def)
  moreover have "copy_block ?dst ?src ?n arr = Inr ?arr" using copy_block_move [of ?dst ?src ?n arr] ds sl len calculation by simp
  moreover have "part_ok per T b K f (Suc i) arr0 ?arr" unfolding part_ok_def using 1 2 3 len' old(4) by auto
  ultimately show ?thesis by blast
qed

lemma merge_bin_ok:
  assumes ok: "cells_ok per T B bins K hf vf st" "b \<in> bins" "bins \<subseteq> {0..<B}" "0 < T"
  shows "\<exists>hs vals. rfold (merge_thread per T (st_sizes st) b) [1..<T] (length (K 0 b), st_hashes st, st_values st) = Inr (length (concat (map (\<lambda>t. K t b) [0..<T])), hs, vals) \<and>
     take (length (concat (map (\<lambda>t. K t b) [0..<T]))) (drop (bin_pos per T 0 b) hs) = map hf (concat (map (\<lambda>t. K t b) [0..<T])) \<and>
     take (length (concat (map (\<lambda>t. K t b) [0..<T]))) (drop (bin_pos per T 0 b) vals) = map vf (concat (map (\<lambda>t. K t b) [0..<T])) \<and>
     cells_ok per T B (bins - {b}) K hf vf (st \<lparr> st_hashes := hs, st_values := vals \<rparr>)"
proof -
  let ?L = "\<lambda>i. concat (map (\<lambda>t. K t b) [0..<i])"
  let ?I = "\<lambda>i s. case s of (pos, hs, vals) \<Rightarrow> pos = length (?L i) \<and> part_ok per T b K hf i (st_hashes st) hs \<and> part_ok per T b K vf i (st_values st) vals"
  have b: "b < B" using ok(2,3) by auto
  have K: "\<And>t. t < T \<Longrightarrow> length (K t b) \<le> per" using ok(1,2) by (auto simp: cells_ok_def cells_at_def)
  have sz: "length (st_sizes st) = T" "\<And>t. t < T \<Longrightarrow> length (st_sizes st ! t) = B" "\<And>t. t < T \<Longrightarrow> st_sizes st ! t ! b = length (K t b)"
    "length (st_hashes st) = B * T * per" "length (st_values st) = B * T * per" using ok(1) b by (auto simp: cells_ok_def)
  have "Suc b * (T * per) \<le> B * (T * per)" using b by (intro mult_le_mono1) simp
  then have len: "bin_pos per T 0 (Suc b) \<le> B * T * per" by (simp add: bin_pos_def algebra_simps)
  have "\<exists>s'. rfold (merge_thread per T (st_sizes st) b) [1..<m] (length (K 0 b), st_hashes st, st_values st) = Inr s' \<and> ?I m s'" if "1 \<le> m" "m \<le> T" for m
    using that
  proof (induction m rule: dec_induct)
    case base
    then show ?case using ok(1,2) by (auto simp: part_ok_def cells_ok_def cells_at_def)
  next
    case (step m)
    then obtain pos hs vals where s: "rfold (merge_thread per T (st_sizes st) b) [1..<m] (length (K 0 b), st_hashes st, st_values st) = Inr (pos, hs, vals)"
      "pos = length (?L m)" "part_ok per T b K hf m (st_hashes st) hs" "part_ok per T b K vf m (st_values st) vals" by auto
    have m: "m < T" using step by simp
    have l: "length hs = B * T * per" "length vals = B * T * per" using s(3,4) sz(4,5) by (simp_all add: part_ok_def)
    obtain hs' where h: "move_block (bin_pos per T 0 b + pos) (bin_pos per T m b) (length (K m b)) hs = Inr hs'" "part_ok per T b K hf (Suc m) (st_hashes st) hs'"
      using part_ok_step [OF s(3) m K] len l(1) s(2) by auto
    obtain vals' where v: "copy_block (bin_pos per T 0 b + pos) (bin_pos per T m b) (length (K m b)) vals = Inr vals'" "part_ok per T b K vf (Suc m) (st_values st) vals'"
      using part_ok_step [OF s(4) m K] len l(2) s(2) by auto
    have "merge_thread per T (st_sizes st) b m (pos, hs, vals) = Inr (pos + length (K m b), hs', vals')"
      using sz m b K [OF m] h(1) v(1) by (simp add: merge_thread_def)
    then show ?case using s(1,2) h(2) v(2) step(1) by (intro exI [of _ "(pos + length (K m b), hs', vals')"]) simp
  qed
  from this [of T] obtain hs vals where s: "rfold (merge_thread per T (st_sizes st) b) [1..<T] (length (K 0 b), st_hashes st, st_values st) = Inr (length (?L T), hs, vals)"
    "part_ok per T b K hf T (st_hashes st) hs" "part_ok per T b K vf T (st_values st) vals" using ok(4) by auto
  have "length (?L T) \<le> length [0..<T] * per" using K by (intro length_concat_le) auto
  then have fit: "bin_pos per T 0 b + length (?L T) \<le> B * T * per" using len by (simp add: bin_pos_def algebra_simps)
  have seg: "take (length (?L T)) (drop (bin_pos per T 0 b) arr) = map f (?L T)" if "part_ok per T b K f T arr0 arr" "length arr0 = B * T * per" for f :: "nat \<Rightarrow> 128 word" and arr arr0
    using that fit by (intro nth_equalityI) (auto simp: part_ok_def)
  have other: "cells_at per T (bins - {b}) K f arr" if "part_ok per T b K f T arr0 arr" "cells_at per T bins K f arr0" "length arr0 = B * T * per" for f :: "nat \<Rightarrow> 128 word" and arr arr0
    unfolding cells_at_def
  proof (intro allI impI ballI conjI)
    fix t b' assume tb: "t < T" "b' \<in> bins - {b}"
    show "length (K t b') \<le> per" using that(2) tb by (auto simp: cells_at_def)
    fix j assume j: "j < length (K t b')"
    have jp: "j < per" using j \<open>length (K t b') \<le> per\<close> by simp
    have "bin_pos per T t b' + j < bin_pos per T 0 b \<or> bin_pos per T 0 (Suc b) \<le> bin_pos per T t b' + j"
    proof (cases "b' < b")
      case True
      then show ?thesis using pos_less [OF jp tb(1) True] by (simp add: bin_pos_def algebra_simps)
    next
      case False
      then have "Suc b * (T * per) \<le> b' * (T * per)" using tb(2) by (intro mult_le_mono1) auto
      then show ?thesis by (simp add: bin_pos_def algebra_simps)
    qed
    then have "arr ! (bin_pos per T t b' + j) = arr0 ! (bin_pos per T t b' + j)"
      using that(1,3) pos_less [OF jp tb(1), of b' B] tb(2) ok(3) by (auto simp: part_ok_def)
    then show "arr ! (bin_pos per T t b' + j) = f (K t b' ! j)" using that(2) tb j by (auto simp: cells_at_def)
  qed
  have "cells_ok per T B (bins - {b}) K hf vf (st \<lparr> st_hashes := hs, st_values := vals \<rparr>)"
    using ok(1) other [OF s(2) _ sz(4)] other [OF s(3) _ sz(5)] s(2,3) by (auto simp: cells_ok_def part_ok_def)
  then show ?thesis using s seg [OF s(2) sz(4)] seg [OF s(3) sz(5)] by blast
qed

end
