(* ===== verification/Baxos_Store.thy ===== *)
theory Baxos_Store
  imports Baxos_Bins
begin

text \<open>
  The binned key-value store holds what was put into it, for any number of threads; it fulfils the contract \<open>okvs\<close>.
\<close>

section \<open>Segments of the vector\<close>

definition seg :: "nat \<Rightarrow> nat \<Rightarrow> 'e list \<Rightarrow> 'e list" where
  "seg n b P = take n (drop (n * b) P)"

lemma seg_length: "n * Suc b \<le> length P \<Longrightarrow> length (seg n b P) = n"
  by (simp add: seg_def)

lemma seg_fits: "b < B \<Longrightarrow> n * Suc b \<le> n * (B :: nat)"
  by (intro mult_le_mono2) simp

lemma seg_put:
  assumes "n * Suc b \<le> length P" "length out = n" "n * Suc b' \<le> length P"
  shows "seg n b' (take (n * b) P @ out @ drop (n * b + n) P) = (if b' = b then out else seg n b' P)"
proof (cases "b' = b")
  case False
  have l: "length (take (n * b) P) = n * b" using assms(1) by simp
  have "n * b' + k < n * b \<or> n * b + n \<le> n * b' + k" if "k < n" for k
  proof (cases "b' < b")
    case True
    then have "n * Suc b' \<le> n * b" by (intro mult_le_mono2) simp
    then show ?thesis using that by simp
  next
    case ge: False
    then have "n * Suc b \<le> n * b'" using False by (intro mult_le_mono2) simp
    then show ?thesis by simp
  qed
  then have nth: "(take (n * b) P @ out @ drop (n * b + n) P) ! (n * b' + k) = P ! (n * b' + k)" if "k < n" for k
    using that assms l by (fastforce simp: nth_append)
  define Q where "Q = take (n * b) P @ out @ drop (n * b + n) P"
  have "length Q = length P" using assms by (simp add: Q_def)
  then have "seg n b' Q = seg n b' P" using nth assms(3) by (intro nth_equalityI) (auto simp: seg_def Q_def [symmetric])
  then show ?thesis using False by (simp add: Q_def)
qed (use assms in \<open>simp add: seg_def\<close>)

section \<open>One bin\<close>

definition bin_inputs :: "Baxos \<Rightarrow> 128 word list \<Rightarrow> nat \<Rightarrow> 128 word list" where
  "bin_inputs bx inputs b = filter (\<lambda>x. bin_of bx x = b) inputs"

lemma map_bin_idx: "map ((!) inputs) (bin_idx bx inputs 0 (length inputs) b) = bin_inputs bx inputs b"
proof -
  have "map ((!) inputs) (filter (P \<circ> (!) inputs) [0..<length inputs]) = filter P inputs" for P
    by (metis filter_map map_nth)
  from this [of "\<lambda>x. bin_of bx x = b"] show ?thesis by (simp add: bin_idx_def bin_inputs_def comp_def)
qed

definition baxos_ok :: "nat \<Rightarrow> Baxos \<Rightarrow> bool" where
  "baxos_ok idx_bits bx \<longleftrightarrow> bins_ok bx \<and> sizes_ok idx_bits (bx_param bx) \<and> param_ok TYPE(128) (bx_param bx) \<and> px_dt (bx_param bx) = GF128 \<and>
     bx_weight bx = px_weight (bx_param bx) \<and> bx_weight bx \<le> 20 \<and> \<not> bx_add_to_decode bx"

lemma bin_rows_ok:
  assumes "hash_ok h"
  shows "bin_rows avx2 h weight hashes = Inr (map (row_of h) hashes)"
proof (cases "weight = 3")
  case True
  let ?m = "length hashes div 32"
  have "rmap (\<lambda>k. BuildRow32 avx2 h (take 32 (drop (k * 32) hashes))) [0..<?m] = Inr (map (\<lambda>k. map (row_of h) (take 32 (drop (k * 32) hashes))) [0..<?m])"
    by (intro rmap_total) (simp add: BuildRow32_rows [OF assms])
  moreover have "rmap (BuildRow avx2 h) (drop (?m * 32) hashes) = Inr (map (row_of h) (drop (?m * 32) hashes))"
    by (intro rmap_total) (simp add: BuildRow_row_of [OF assms])
  moreover have "concat (map (\<lambda>k. map (row_of h) (take 32 (drop (k * 32) hashes))) [0..<?m]) = map (row_of h) (take (?m * 32) hashes)"
    by (simp add: concat_blocks [symmetric] map_concat comp_def)
  ultimately show ?thesis using True by (simp add: bin_rows_def Let_def flip: map_append)
next
  case False
  then show ?thesis using rmap_total [of hashes "BuildRow avx2 h" "row_of h"] BuildRow_row_of(1) [OF assms] by (simp add: bin_rows_def)
qed

lemma solve_bin_ok:
  assumes bx: "baxos_ok idx_bits bx" and T: "0 < T" and len: "length vals = length inputs"
    and st: "cells_ok per T (bx_num_bins bx) bins (bin_keys bx T inputs) (key_hf bx inputs) ((!) vals) st" "b \<in> bins" "bins \<subseteq> {0..<bx_num_bins bx}"
    and keys: "keys_ok (bx_encrypt bx) (bx_param bx) (bin_inputs bx inputs b)" and rnd: "rnd b = None"
    and P: "length P = Baxos_size bx" "seg (px_size (bx_param bx)) b P = replicate (px_size (bx_param bx)) 0"
  shows "\<exists>r. solve_bin avx2 idx_bits bx per T rnd b (st, q, P) = Some r \<and> (\<forall>st' q' P'. r = Inr (st', q', P') \<longrightarrow>
     cells_ok per T (bx_num_bins bx) (bins - {b}) (bin_keys bx T inputs) (key_hf bx inputs) ((!) vals) st' \<and> length P' = Baxos_size bx \<and>
     (\<forall>b' < bx_num_bins bx. b' \<noteq> b \<longrightarrow> seg (px_size (bx_param bx)) b' P' = seg (px_size (bx_param bx)) b' P) \<and>
     (\<forall>i \<in> set (bin_idx bx inputs 0 (length inputs) b). store_held avx2 (bx_encrypt bx) (bx_param bx) (seg (px_size (bx_param bx)) b P') (inputs ! i) = vals ! i))"
proof -
  let ?B = "bx_num_bins bx" and ?K = "bin_keys bx T inputs" and ?par = "bx_param bx" and ?enc = "bx_encrypt bx" and ?n = "px_size (bx_param bx)"
  let ?ks = "bin_idx bx inputs 0 (length inputs) b"
  have cat: "concat (map (\<lambda>t. ?K t b) [0..<T]) = ?ks" using concat_bin_keys [OF T] .
  have b: "b < ?B" using st(2,3) by auto
  have sz: "length (st_sizes st) = T" "\<And>t. t < T \<Longrightarrow> length (st_sizes st ! t) = ?B" "\<And>t. t < T \<Longrightarrow> st_sizes st ! t ! b = length (?K t b)"
    using st(1) b by (auto simp: cells_ok_def)
  have sizes: "rmap (\<lambda>i. rbind (at (st_sizes st) i) (\<lambda>row. at row b)) [0..<T] = Inr (map (\<lambda>t. length (?K t b)) [0..<T])"
    using sz b by (intro rmap_total) simp
  have total: "sum_list (map (\<lambda>t. length (?K t b)) [0..<T]) = length ?ks" using arg_cong [OF cat, of length] by (simp add: length_concat comp_def)
  have hd0: "hd (map (\<lambda>t. length (?K t b)) [0..<T]) = length (?K 0 b)" using T by (simp add: upt_conv_Cons)
  have per0: "length (?K 0 b) \<le> per" using st(1,2) T by (auto simp: cells_ok_def cells_at_def)
  obtain hs vs where M: "rfold (merge_thread per T (st_sizes st) b) [1..<T] (length (?K 0 b), st_hashes st, st_values st) = Inr (length ?ks, hs, vs)"
    "take (length ?ks) (drop (bin_pos per T 0 b) hs) = map (key_hf bx inputs) ?ks" "take (length ?ks) (drop (bin_pos per T 0 b) vs) = map ((!) vals) ?ks"
    "cells_ok per T ?B (bins - {b}) ?K (key_hf bx inputs) ((!) vals) (st \<lparr> st_hashes := hs, st_values := vs \<rparr>)"
    using merge_bin_ok [OF st T] unfolding cat by blast
  let ?keys = "bin_inputs bx inputs b"
  have hk: "map (key_hf bx inputs) ?ks = map (AesCrHash_Hash ?enc) ?keys" using arg_cong [OF map_bin_idx, of "map (AesCrHash_Hash ?enc)"] by (simp add: comp_def)
  have lk: "length ?keys = length ?ks" using arg_cong [OF map_bin_idx, of length] by simp
  let ?q = "inited ?enc ?par (length ?keys) q"
  have "sizes_ok idx_bits ?par" "length ?keys \<le> sparse_size ?par" using bx keys by (simp_all add: baxos_ok_def keys_ok_def)
  note init = Paxos_Init_ok [OF this, of ?enc q]
  have h: "hash_ok (px_hasher ?q)" using keys_ok_hash(1) [OF keys] by simp
  have rows: "bin_rows avx2 (px_hasher ?q) (bx_weight bx) (map (AesCrHash_Hash ?enc) ?keys) = Inr (map (key_row (px_hasher ?q)) ?keys)"
    using bin_rows_ok [OF h] by (simp add: key_row_def [abs_def] comp_def hasher_of_def)
  have kq: "keys_ok ?enc ?q ?keys" using keys by (simp add: keys_ok_def)
  have hq: "px_hasher ?q = hasher_of ?enc ?q" "px_num_items ?q = length ?keys" by simp_all
  have lq: "length (replicate (sparse_size ?par) (0 :: nat, 0 :: nat)) = sparse_size ?q" "length (replicate (length ?keys * bx_weight bx) (0 :: nat)) = length ?keys * px_weight ?q"
    using bx by (simp_all add: baxos_ok_def)
  obtain ws q' where S: "rfold count_col (concat (map (key_row (px_hasher ?q)) ?keys)) (replicate (sparse_size ?par) 0) = Inr ws"
    "Paxos_SetInput_rows (map (key_row (px_hasher ?q)) ?keys) (map (AesCrHash_Hash ?enc) ?keys) (replicate (sparse_size ?par) (0, 0)) (replicate (length ?keys * bx_weight bx) 0) ws ?q = Inr q'"
    "with_keys q' ?enc ?q ?keys" using SetInput_rows_ok [OF kq hq lq] unfolding inited_simps by blast
  then have wk: "with_keys q' ?enc ?par ?keys" by (simp add: with_keys_def PaxosParam.truncate_def)
  have par: "param_ok TYPE(128) ?par" using bx by (simp add: baxos_ok_def)
  obtain r where r: "Encode avx2 False None (map ((!) vals) ?ks) (replicate ?n 0) q' = Some r"
    "\<forall>out p'. r = Inr (out, p') \<longrightarrow> length out = ?n \<and> map (store_held avx2 ?enc ?par out) ?keys = map ((!) vals) ?ks"
    using Encode_held [OF keys par _ wk, of "map ((!) vals) ?ks" avx2 False] lk by auto
  have bsz: "Baxos_size bx = ?n * ?B" by (simp add: Baxos_size_def px_size_def mult.commute)
  show ?thesis
  proof (cases "length ?ks \<le> bx_items_per_bin bx")
    case False
    then have "solve_bin avx2 idx_bits bx per T rnd b (st, q, P) = Some (Inl (Enforce ''bin_size <= items_per_bin_''))"
      using sizes total by (simp add: solve_bin_def obind_def Let_def)
    then show ?thesis by simp
  next
    case True
    let ?out = "\<lambda>out. take (?n * b) P @ out @ drop (?n * b + ?n) P"
    have "solve_bin avx2 idx_bits bx per T rnd b (st, q, P) =
        obind (Encode avx2 False (rnd b) (map ((!) vals) ?ks) (take ?n (drop (?n * b) P)) q') (\<lambda>(out, q). Some (Inr (st \<lparr> st_hashes := hs, st_values := vs \<rparr>, q, ?out out)))"
      using sizes total hd0 per0 True init M(1-3) rows S(1,2) lk hk by (simp add: solve_bin_def Let_def obind_Some_Inr)
    then have sol: "solve_bin avx2 idx_bits bx per T rnd b (st, q, P) = obind (Some r) (\<lambda>(out, q). Some (Inr (st \<lparr> st_hashes := hs, st_values := vs \<rparr>, q, ?out out)))"
      using P(2) r(1) rnd by (simp add: seg_def)
    show ?thesis
    proof (cases r)
      case (Inl e)
      then show ?thesis using sol by (simp add: obind_def)
    next
      case (Inr op)
      obtain out q1 where op: "op = (out, q1)" by (cases op)
      have out: "length out = ?n" "map (store_held avx2 ?enc ?par out) ?keys = map ((!) vals) ?ks" using r(2) Inr op by auto
      have fit: "?n * Suc b' \<le> length P" if "b' < ?B" for b' using seg_fits [OF that] P(1) bsz by simp
      have sg: "seg ?n b' (?out out) = (if b' = b then out else seg ?n b' P)" if "b' < ?B" for b' using seg_put [OF fit [OF b] out(1) fit [OF that]] .
      have "map (\<lambda>i. store_held avx2 ?enc ?par out (inputs ! i)) ?ks = map ((!) vals) ?ks" using out(2) by (simp add: map_bin_idx [symmetric] comp_def)
      then have "\<forall>i \<in> set ?ks. store_held avx2 ?enc ?par (seg ?n b (?out out)) (inputs ! i) = vals ! i" using sg [OF b] by simp
      moreover have "length (?out out) = Baxos_size bx" using out(1) fit [OF b] P(1) by simp
      ultimately show ?thesis using sol Inr op M(4) sg by (simp add: obind_def)
    qed
  qed
qed

section \<open>All bins\<close>

definition baxos_held :: "bool \<Rightarrow> Baxos \<Rightarrow> 128 word list \<Rightarrow> 128 word \<Rightarrow> 128 word" where
  "baxos_held avx2 bx P x = store_held avx2 (bx_encrypt bx) (bx_param bx) (seg (px_size (bx_param bx)) (bin_of bx x) P) x"

text \<open>The bins in \<open>R\<close> are still to be solved.\<close>

definition solve_inv :: "bool \<Rightarrow> Baxos \<Rightarrow> nat \<Rightarrow> nat \<Rightarrow> 128 word list \<Rightarrow> 128 word list \<Rightarrow> nat set \<Rightarrow> BinStore \<Rightarrow> 128 word list \<Rightarrow> bool" where
  "solve_inv avx2 bx per T inputs vals R st P \<longleftrightarrow> R \<subseteq> {0..<bx_num_bins bx} \<and>
     cells_ok per T (bx_num_bins bx) R (bin_keys bx T inputs) (key_hf bx inputs) ((!) vals) st \<and> length P = Baxos_size bx \<and>
     (\<forall>b \<in> R. seg (px_size (bx_param bx)) b P = replicate (px_size (bx_param bx)) 0) \<and>
     (\<forall>i < length inputs. bin_of bx (inputs ! i) \<notin> R \<longrightarrow> baxos_held avx2 bx P (inputs ! i) = vals ! i)"

definition bins_good :: "Baxos \<Rightarrow> 128 word list \<Rightarrow> bool" where
  "bins_good bx inputs \<longleftrightarrow> (\<forall>b < bx_num_bins bx. keys_ok (bx_encrypt bx) (bx_param bx) (bin_inputs bx inputs b))"

lemma solve_inv_step:
  assumes bx: "baxos_ok idx_bits bx" "0 < T" "length vals = length inputs" "bins_good bx inputs" "rnd b = None"
    and inv: "solve_inv avx2 bx per T inputs vals R st P" "b \<in> R"
  shows "\<exists>r. solve_bin avx2 idx_bits bx per T rnd b (st, q, P) = Some r \<and> (\<forall>st' q' P'. r = Inr (st', q', P') \<longrightarrow> solve_inv avx2 bx per T inputs vals (R - {b}) st' P')"
proof -
  let ?B = "bx_num_bins bx" and ?n = "px_size (bx_param bx)"
  have R: "R \<subseteq> {0..<?B}" "cells_ok per T ?B R (bin_keys bx T inputs) (key_hf bx inputs) ((!) vals) st" "length P = Baxos_size bx" "seg ?n b P = replicate ?n 0"
    "\<And>b'. b' \<in> R \<Longrightarrow> seg ?n b' P = replicate ?n 0" "\<And>i. i < length inputs \<Longrightarrow> bin_of bx (inputs ! i) \<notin> R \<Longrightarrow> baxos_held avx2 bx P (inputs ! i) = vals ! i"
    using inv by (auto simp: solve_inv_def)
  have b: "b < ?B" using R(1) inv(2) by auto
  then have keys: "keys_ok (bx_encrypt bx) (bx_param bx) (bin_inputs bx inputs b)" using bx(4) by (simp add: bins_good_def)
  obtain r where r: "solve_bin avx2 idx_bits bx per T rnd b (st, q, P) = Some r" "\<And>st' q' P'. r = Inr (st', q', P') \<Longrightarrow>
     cells_ok per T ?B (R - {b}) (bin_keys bx T inputs) (key_hf bx inputs) ((!) vals) st' \<and> length P' = Baxos_size bx \<and>
     (\<forall>b' < ?B. b' \<noteq> b \<longrightarrow> seg ?n b' P' = seg ?n b' P) \<and>
     (\<forall>i \<in> set (bin_idx bx inputs 0 (length inputs) b). store_held avx2 (bx_encrypt bx) (bx_param bx) (seg ?n b P') (inputs ! i) = vals ! i)"
    using solve_bin_ok [where rnd = rnd and b = b and q = q, OF bx(1-3) R(2) inv(2) R(1) keys bx(5) R(3,4)] by blast
  have "solve_inv avx2 bx per T inputs vals (R - {b}) st' P'" if eq: "r = Inr (st', q', P')" for st' q' P'
  proof -
    note N = r(2) [OF eq]
    have "baxos_held avx2 bx P' (inputs ! i) = vals ! i" if i: "i < length inputs" "bin_of bx (inputs ! i) \<notin> R - {b}" for i
    proof (cases "bin_of bx (inputs ! i) = b")
      case True
      then have "i \<in> set (bin_idx bx inputs 0 (length inputs) b)" using i(1) by (simp add: bin_idx_def)
      then show ?thesis using N True by (simp add: baxos_held_def)
    next
      case False
      have "bin_of bx (inputs ! i) < ?B" using bx(1) bin_of_less by (simp add: baxos_ok_def)
      then show ?thesis using N R(6) [of i] i False by (simp add: baxos_held_def)
    qed
    moreover have "seg ?n b' P' = replicate ?n 0" if "b' \<in> R - {b}" for b' using N R(1,5) that by auto
    ultimately show ?thesis using N R(1) by (auto simp: solve_inv_def)
  qed
  then show ?thesis using r(1) by blast
qed

lemma solve_bins_ok:
  assumes bx: "baxos_ok idx_bits bx" "0 < T" "length vals = length inputs" "bins_good bx inputs" "rnd = (\<lambda>_. None)"
    and inv: "solve_inv avx2 bx per T inputs vals (set xs \<union> R) st P" "distinct xs" "set xs \<inter> R = {}"
  shows "\<exists>r. ofold (solve_bin avx2 idx_bits bx per T rnd) xs (st, q, P) = Some r \<and> (\<forall>st' q' P'. r = Inr (st', q', P') \<longrightarrow> solve_inv avx2 bx per T inputs vals R st' P')"
  using inv
proof (induction xs arbitrary: st q P)
  case (Cons b xs)
  have rest: "set (b # xs) \<union> R - {b} = set xs \<union> R" using Cons.prems(2,3) by auto
  have b: "b \<in> set (b # xs) \<union> R" by simp
  obtain r where r: "solve_bin avx2 idx_bits bx per T rnd b (st, q, P) = Some r"
    "\<forall>st' q' P'. r = Inr (st', q', P') \<longrightarrow> solve_inv avx2 bx per T inputs vals (set xs \<union> R) st' P'"
    using solve_inv_step [where rnd = rnd and b = b and q = q, OF bx(1-4) _ Cons.prems(1) b] bx(5) unfolding rest by blast
  show ?case
  proof (cases r)
    case (Inl e)
    then show ?thesis using r(1) by (simp add: obind_def)
  next
    case (Inr a)
    obtain st' q' P' where a: "a = (st', q', P')" by (cases a)
    then have "solve_inv avx2 bx per T inputs vals (set xs \<union> R) st' P'" using r(2) Inr by simp
    from Cons.IH [OF this, of q'] show ?thesis using Cons.prems(2,3) r(1) Inr a by (simp add: obind_def)
  qed
qed simp

lemma solve_thread_ok:
  assumes bx: "baxos_ok idx_bits bx" "0 < T" "length vals = length inputs" "bins_good bx inputs" "rnd = (\<lambda>_. None)"
    and inv: "solve_inv avx2 bx per T inputs vals {b. b < bx_num_bins bx \<and> t \<le> b mod T} st P"
  shows "\<exists>r. solve_thread avx2 idx_bits bx per T rnd t (st, P) = Some r \<and>
     (\<forall>st' P'. r = Inr (st', P') \<longrightarrow> solve_inv avx2 bx per T inputs vals {b. b < bx_num_bins bx \<and> Suc t \<le> b mod T} st' P')"
proof -
  let ?xs = "filter (\<lambda>b. b mod T = t) [0..<bx_num_bins bx]" and ?R = "{b. b < bx_num_bins bx \<and> Suc t \<le> b mod T}"
  have eq: "{b. b < bx_num_bins bx \<and> t \<le> b mod T} = set ?xs \<union> ?R" by auto
  have "distinct ?xs" "set ?xs \<inter> ?R = {}" by auto
  from solve_bins_ok [OF bx inv [unfolded eq] this, of Paxos_new]
  obtain r where r: "ofold (solve_bin avx2 idx_bits bx per T rnd) ?xs (st, Paxos_new, P) = Some r"
    "\<forall>st q P. r = Inr (st, q, P) \<longrightarrow> solve_inv avx2 bx per T inputs vals ?R st P" by blast
  show ?thesis
  proof (cases r)
    case (Inl e)
    then show ?thesis using r(1) by (simp add: solve_thread_def obind_def)
  next
    case (Inr a)
    obtain st' q' P' where "a = (st', q', P')" by (cases a)
    then show ?thesis using r Inr by (simp add: solve_thread_def obind_def)
  qed
qed

lemma solve_threads_ok:
  assumes bx: "baxos_ok idx_bits bx" "0 < T" "length vals = length inputs" "bins_good bx inputs" "rnd = (\<lambda>_. None)"
    and inv: "solve_inv avx2 bx per T inputs vals {b. b < bx_num_bins bx \<and> t \<le> b mod T} st P" "t \<le> T"
  shows "\<exists>r. ofold (solve_thread avx2 idx_bits bx per T rnd) [t..<T] (st, P) = Some r \<and> (\<forall>st' P'. r = Inr (st', P') \<longrightarrow> solve_inv avx2 bx per T inputs vals {} st' P')"
  using inv(2,1)
proof (induction t arbitrary: st P rule: inc_induct)
  case base
  have "{b. b < bx_num_bins bx \<and> T \<le> b mod T} = {}" using bx(2) by (auto simp: not_le)
  from base [unfolded this] show ?case by simp
next
  case (step t)
  obtain r where r: "solve_thread avx2 idx_bits bx per T rnd t (st, P) = Some r"
    "\<forall>st' P'. r = Inr (st', P') \<longrightarrow> solve_inv avx2 bx per T inputs vals {b. b < bx_num_bins bx \<and> Suc t \<le> b mod T} st' P'"
    using solve_thread_ok [OF bx step.prems] by blast
  show ?case
  proof (cases r)
    case (Inl e)
    then show ?thesis using r(1) step.hyps by (simp add: upt_conv_Cons obind_def)
  next
    case (Inr a)
    obtain st' P' where a: "a = (st', P')" by (cases a)
    then have "solve_inv avx2 bx per T inputs vals {b. b < bx_num_bins bx \<and> Suc t \<le> b mod T} st' P'" using r(2) Inr by simp
    from step.IH [OF this] show ?thesis using r(1) Inr a step.hyps by (simp add: upt_conv_Cons obind_def)
  qed
qed

lemma ImplParSolve_ok:
  assumes bx: "baxos_ok idx_bits bx" "length vals = length inputs" "length inputs = bx_num_items bx" "bins_good bx inputs" "rnd = (\<lambda>_. None)"
  shows "\<exists>r. ImplParSolve avx2 idx_bits bin_size_of num_threads rnd inputs vals (replicate (Baxos_size bx) 0) bx = Some r \<and>
     (\<forall>P. r = Inr P \<longrightarrow> length P = Baxos_size bx \<and> (\<forall>i < length inputs. baxos_held avx2 bx P (inputs ! i) = vals ! i))"
proof (cases "bx_num_bins bx = 1")
  case True
  let ?par = "bx_param bx" and ?enc = "bx_encrypt bx" and ?n = "px_size (bx_param bx)"
  have all: "bin_of bx x = 0" for x using bin_of_less [of bx x] bx(1) True by (simp add: baxos_ok_def)
  have k: "keys_ok ?enc ?par inputs" using bx(4) True all by (simp add: bins_good_def bin_inputs_def)
  have par: "sizes_ok idx_bits ?par" "param_ok TYPE(128) ?par" using bx(1) by (simp_all add: baxos_ok_def)
  have sz: "Baxos_size bx = ?n" using True by (simp add: Baxos_size_def px_size_def)
  have psz: "px_size p = ?n" if "rbind (Paxos_Init idx_bits ?enc (length inputs) ?par Paxos_new) (Paxos_SetInput avx2 inputs) = Inr p" for p
  proof -
    let ?p0 = "fresh_paxos ?enc ?par (length inputs)"
    have "length inputs \<le> sparse_size ?par" "keys_ok ?enc ?p0 inputs" using k by (simp_all add: keys_ok_def)
    then have "with_keys p ?enc ?p0 inputs" using SetInput_ok [of ?enc ?p0 inputs avx2] Paxos_Init_ok [OF par(1), of "length inputs" ?enc Paxos_new] that by auto
    then show ?thesis by (auto simp: with_keys_def PaxosParam.truncate_def px_size_def)
  qed
  obtain p r where S: "rbind (Paxos_Init idx_bits ?enc (length inputs) ?par Paxos_new) (Paxos_SetInput avx2 inputs) = Inr p"
    "store_encode idx_bits ?enc ?par avx2 False inputs vals = Some r" "\<forall>P. r = Inr P \<longrightarrow> length P = ?n \<and> map (store_held avx2 ?enc ?par P) inputs = vals"
    using store_encode_ok [OF k par bx(2)] by blast
  have eq: "ImplParSolve avx2 idx_bits bin_size_of num_threads rnd inputs vals (replicate (Baxos_size bx) 0) bx = Some r"
    using S(1,2) psz [OF S(1)] True bx(3,5) sz by (simp add: ImplParSolve_def store_encode_def obind_Some_Inr)
  have "baxos_held avx2 bx P (inputs ! i) = vals ! i" if "r = Inr P" "i < length inputs" for P i
  proof -
    have "length P = ?n" "store_held avx2 ?enc ?par P (inputs ! i) = vals ! i" using S(3) that by (auto simp: list_eq_iff_nth_eq)
    then show ?thesis by (simp add: baxos_held_def all seg_def)
  qed
  then show ?thesis using eq S(3) sz by auto
next
  case False
  let ?T = "max 1 num_threads" and ?B = "bx_num_bins bx"
  let ?per = "bin_size_of ?B ((bx_num_items bx + ?T - 1) div ?T) (bx_ssp bx)"
  let ?st = "\<lparr> st_sizes = replicate ?T (replicate ?B 0), st_hashes = replicate (?B * ?T * ?per) 0, st_values = replicate (?B * ?T * ?per) 0 \<rparr>"
  have T: "0 < ?T" by simp
  have bo: "bins_ok bx" using bx(1) by (simp add: baxos_ok_def)
  have eq: "ImplParSolve avx2 idx_bits bin_size_of num_threads rnd inputs vals (replicate (Baxos_size bx) 0) bx =
      obind (Some (rfold (hash_thread bx ?per ?T inputs vals) [0..<?T] ?st)) (\<lambda>st.
      obind (ofold (solve_thread avx2 idx_bits bx ?per ?T rnd) [0..<?T] (st, replicate (Baxos_size bx) 0)) (\<lambda>(_, p). Some (Inr p)))"
    using False bx(3) by (simp add: ImplParSolve_def Let_def obind_Some_Inr del: One_nat_def)
  show ?thesis
  proof (cases "rfold (hash_thread bx ?per ?T inputs vals) [0..<?T] ?st")
    case (Inl e)
    then show ?thesis unfolding eq by (simp add: obind_def)
  next
    case (Inr st)
    have bsz: "Baxos_size bx = px_size (bx_param bx) * ?B" by (simp add: Baxos_size_def px_size_def mult.commute)
    have "seg (px_size (bx_param bx)) b (replicate (Baxos_size bx) 0) = replicate (px_size (bx_param bx)) 0" if "b < ?B" for b
      using seg_fits [OF that, of "px_size (bx_param bx)"] bsz by (simp add: seg_def min_def)
    moreover have "bin_of bx x \<in> {0..<?B}" for x using bin_of_less [OF bo] by simp
    ultimately have inv: "solve_inv avx2 bx ?per ?T inputs vals {0..<?B} st (replicate (Baxos_size bx) 0)"
      using hash_threads_cells [OF bo T bx(2) Inr] unfolding solve_inv_def by auto
    obtain r where r: "ofold (solve_thread avx2 idx_bits bx ?per ?T rnd) [0..<?T] (st, replicate (Baxos_size bx) 0) = Some r"
      "\<forall>st' P'. r = Inr (st', P') \<longrightarrow> solve_inv avx2 bx ?per ?T inputs vals {} st' P'" using solve_threads_ok [OF bx(1) T bx(2,4,5), of avx2 ?per 0 st] inv by (simp add: atLeast0LessThan lessThan_def) blast
    have "length P = Baxos_size bx \<and> (\<forall>i < length inputs. baxos_held avx2 bx P (inputs ! i) = vals ! i)" if "r = Inr (st', P)" for st' P
      using r(2) that by (auto simp: solve_inv_def)
    then show ?thesis unfolding eq Inr using r(1) by (cases r) (auto simp: obind_def)
  qed
qed

end
