(* ===== verification/Baxos_Okvs.thy ===== *)
theory Baxos_Okvs
  imports Baxos_Store
begin

text \<open>
  Decoding of the binned key-value store. The keys of each bin are collected and decoded in batches, in an order that depends on the hashes and on the number of
  threads; every key still gets the value that the vector holds for it. \<open>Baxos\<close> therefore fulfils the contract \<open>okvs\<close>.
\<close>

section \<open>One batch of one bin\<close>

definition put_all :: "(128 word \<Rightarrow> 'e) \<Rightarrow> (128 word \<times> nat) list \<Rightarrow> 'e list \<Rightarrow> 'e list" where
  "put_all f batch vs = fold (\<lambda>x vs. vs[snd x := f (fst x)]) batch vs"

lemma put_all_simps [simp]:
  "put_all f [] vs = vs" "put_all f [x] vs = vs[snd x := f (fst x)]" "put_all f (b @ b') vs = put_all f b' (put_all f b vs)" "length (put_all f b vs) = length vs"
proof -
  show "length (put_all f b vs) = length vs" unfolding put_all_def by (induction b arbitrary: vs) simp_all
qed (simp_all add: put_all_def)

lemma put_all_nth:
  assumes "\<forall>x \<in> set batch. fst x = hf (snd x)" "i < length vs"
  shows "put_all f batch vs ! i = (if i \<in> snd ` set batch then f (hf i) else vs ! i)"
  using assms
proof (induction batch rule: rev_induct)
  case (snoc x batch)
  then show ?case by (cases "i = snd x") (simp_all add: image_Un)
qed simp

definition hash_value :: "bool \<Rightarrow> Paxos \<Rightarrow> 128 word list \<Rightarrow> 128 word \<Rightarrow> 128 word" where
  "hash_value avx2 p P h = row_value avx2 p (row_of (px_hasher p) h) h P"

lemma held_hash_value: "held avx2 p P x = hash_value avx2 p P (key_hash (px_hasher p) x)"
  by (simp add: held_def hash_value_def key_row_def)

lemma ImplDecodeBin_ok:
  assumes p: "table_ok p" "length P = px_size p" "px_dt p = GF128" and bx: "bx_weight bx \<le> 20" "\<not> bx_add_to_decode bx"
    and idx: "\<forall>x \<in> set batch. snd x < length vs"
  shows "ImplDecodeBin avx2 bx p P (map fst batch) (map snd batch) vs = Inr (put_all (hash_value avx2 p P) batch vs)"
proof -
  let ?h = "px_hasher p" and ?m = "length batch div 32" and ?put = "put_all (hash_value avx2 p P)"
  have h: "hash_ok ?h" "dense_ok p" "1 \<le> px_weight p" using p(1) by (simp_all add: table_ok_def)
  have ro: "row_ok (px_weight p) (sparse_size p) (row_of ?h x)" for x using BuildRow_row_of(2) [OF h(1), of x] p(1) by (simp add: table_ok_def)
  have val: "Decode32 avx2 p (map (row_of ?h) hs) hs P = Inr (map (hash_value avx2 p P) hs)" for hs
    using Decode32_value [OF h(2) p(2) _ _ h(3), of "map (\<lambda>x. (row_of ?h x, x)) hs" avx2] ro p(3) by (simp add: comp_def hash_value_def [abs_def])
  have m: "?m * 32 \<le> length batch" by (simp add: div_times_less_eq_dividend)
  have nth: "snd (batch ! j) < length vs" if "j < length batch" for j using idx nth_mem [OF that] by blast
  let ?B = "\<lambda>k. take 32 (drop (k * 32) batch)"
  let ?blk = "\<lambda>k vs. let hs = take 32 (drop (k * 32) (map fst batch)) in
      rbind (BuildRow32 avx2 ?h hs) (\<lambda>rows. rbind (Decode32 avx2 p rows hs P) (\<lambda>buff.
      rfold (\<lambda>j vs. rbind (at (map snd batch) (k * 32 + j)) (\<lambda>i. rbind (at buff j) (\<lambda>v. decode_store bx i v vs))) [0..<32] vs))"
  have put: "rfold (\<lambda>j vs. rbind (at (map snd batch) (s + j)) (\<lambda>i. rbind (at (map (hash_value avx2 p P) (map fst (take n (drop s batch)))) j) (\<lambda>v. decode_store bx i v vs))) [0..<m] ws =
      Inr (?put (take m (drop s batch)) ws)" if "s + n \<le> length batch" "m \<le> n" "length ws = length vs" for s n m ws
    using that(2)
  proof (induction m)
    case (Suc m)
    have "take (Suc m) (drop s batch) = take m (drop s batch) @ [batch ! (s + m)]" using Suc.prems that(1) by (simp add: take_Suc_conv_app_nth)
    then show ?case using Suc that(1,3) nth [of "s + m"] bx(2) by (simp add: decode_store_def)
  qed simp
  have blk: "?blk k ws = Inr (?put (?B k) ws)" if "k < ?m" "length ws = length vs" for k ws
  proof -
    have "Suc k * 32 \<le> ?m * 32" using that(1) by (intro mult_le_mono1) simp
    then have "k * 32 + 32 \<le> length batch" using m by simp
    from put [OF this le_refl that(2)] show ?thesis using BuildRow32_rows [OF h(1)] val by (simp add: Let_def drop_map take_map)
  qed
  have blocks: "rfold ?blk [0..<k] vs = Inr (?put (take (k * 32) batch) vs)" if "k \<le> ?m" for k
    using that
  proof (induction k)
    case (Suc k)
    have "take (Suc k * 32) batch = take (k * 32) batch @ ?B k" using take_add [of "k * 32" 32 batch] by (simp add: add.commute)
    then show ?case using Suc blk [of k "?put (take (k * 32) batch) vs"] by simp
  qed simp
  let ?one = "\<lambda>i vs. rbind (at (map fst batch) i) (\<lambda>h. rbind (BuildRow avx2 ?h h) (\<lambda>row. rbind (at (map snd batch) i) (\<lambda>idx.
      rbind (Decode1 avx2 p row h P) (\<lambda>v. decode_store bx idx v vs))))"
  have one: "?one i ws = Inr (?put [batch ! i] ws)" if "i < length batch" "length ws = length vs" for i ws
    using that nth [of i] BuildRow_row_of(1) [OF h(1)] Decode1_value [OF h(2) p(2) ro h(3)] bx(2) by (simp add: decode_store_def hash_value_def)
  have tail: "rfold ?one [i..<length batch] (?put (take i batch) vs) = Inr (?put batch vs)" if "i \<le> length batch" for i
    using that
  proof (induction rule: inc_induct)
    case (step i)
    then show ?case using one [of i "?put (take i batch) vs"] by (simp add: upt_conv_Cons take_Suc_conv_app_nth)
  qed simp
  show ?thesis using blocks [OF le_refl] tail [OF m] bx(1) by (simp add: ImplDecodeBin_def Let_def)
qed

section \<open>Collecting the keys of the bins\<close>

text \<open>The first \<open>m\<close> keys have been seen: each is decoded, or waits in the batch of its bin.\<close>

definition batch_of :: "Baxos \<Rightarrow> 128 word list \<Rightarrow> nat \<Rightarrow> nat \<Rightarrow> (128 word \<times> nat) list \<Rightarrow> bool" where
  "batch_of bx inputs m b batch \<longleftrightarrow> (\<forall>x \<in> set batch. fst x = key_hf bx inputs (snd x) \<and> snd x < m \<and> bin_of bx (inputs ! snd x) = b)"

definition decode_inv :: "bool \<Rightarrow> Baxos \<Rightarrow> 128 word list \<Rightarrow> 128 word list \<Rightarrow> nat \<Rightarrow> (128 word \<times> nat) list list \<times> 128 word list \<Rightarrow> bool" where
  "decode_inv avx2 bx P inputs m = (\<lambda>(batches, vs). length batches = bx_num_bins bx \<and> length vs = length inputs \<and>
     (\<forall>b < bx_num_bins bx. batch_of bx inputs m b (batches ! b)) \<and>
     (\<forall>i < m. vs ! i = baxos_held avx2 bx P (inputs ! i) \<or> i \<in> snd ` set (batches ! bin_of bx (inputs ! i))))"

abbreviation decoder :: "Baxos \<Rightarrow> Paxos" where
  "decoder bx \<equiv> fresh_paxos (bx_encrypt bx) (bx_param bx) 1"

lemma decoder_ok: "baxos_ok idx_bits bx \<Longrightarrow> table_ok (decoder bx)"
  using fresh_table_ok by (auto simp: baxos_ok_def param_ok_def)

lemma decode_flush_ok:
  assumes bx: "baxos_ok idx_bits bx" and P: "length P = Baxos_size bx" and b: "b < bx_num_bins bx"
    and batch: "batch_of bx inputs m b batch" "m \<le> length inputs" "length vs = length inputs"
  shows "\<exists>vs'. decode_flush avx2 bx (decoder bx) P b batch vs = Inr vs' \<and> length vs' = length inputs \<and>
     (\<forall>i < length inputs. vs' ! i = (if i \<in> snd ` set batch then baxos_held avx2 bx P (inputs ! i) else vs ! i))"
proof -
  let ?n = "px_size (bx_param bx)" let ?S = "seg ?n b P"
  have sz: "Baxos_size bx = bx_num_bins bx * ?n" by (simp add: Baxos_size_def px_size_def)
  then have n: "Baxos_size bx div bx_num_bins bx = ?n" using b by simp
  have fit: "?n * Suc b \<le> length P" using seg_fits [OF b, of ?n] P sz by (simp add: mult.commute)
  have S: "length ?S = px_size (decoder bx)" "take ?n (drop (b * ?n) P) = ?S" using seg_length [OF fit] by (simp_all add: seg_def mult.commute)
  have idx: "\<forall>x \<in> set batch. snd x < length vs" "\<forall>x \<in> set batch. fst x = key_hf bx inputs (snd x)" using batch by (auto simp: batch_of_def)
  let ?vs = "put_all (hash_value avx2 (decoder bx) ?S) batch vs"
  have "px_dt (decoder bx) = GF128" "bx_weight bx \<le> 20" "\<not> bx_add_to_decode bx" using bx by (simp_all add: baxos_ok_def)
  then have "decode_flush avx2 bx (decoder bx) P b batch vs = Inr ?vs"
    using ImplDecodeBin_ok [OF decoder_ok [OF bx] S(1), of bx batch vs avx2] idx(1) n fit S(2) by (simp add: decode_flush_def Let_def mult.commute add.commute)
  moreover have "hash_value avx2 (decoder bx) ?S (key_hf bx inputs i) = baxos_held avx2 bx P (inputs ! i)" if i: "i \<in> snd ` set batch" for i
  proof -
    have "bin_of bx (inputs ! i) = b" using i batch(1) by (auto simp: batch_of_def)
    then show ?thesis by (simp add: baxos_held_def store_held_def held_hash_value hasher_of_def)
  qed
  ultimately show ?thesis using put_all_nth [OF idx(2), of _ vs "hash_value avx2 (decoder bx) ?S"] batch(3) by auto
qed

lemma decode_put_bin_ok:
  assumes bx: "baxos_ok idx_bits bx" and P: "length P = Baxos_size bx" and m: "m < length inputs" and inv: "decode_inv avx2 bx P inputs m st"
  shows "\<exists>st'. decode_put_bin avx2 bx (decoder bx) P ds (bin_of bx (inputs ! m)) (key_hf bx inputs m) m st = Inr st' \<and> decode_inv avx2 bx P inputs (Suc m) st'"
proof -
  let ?b = "bin_of bx (inputs ! m)" and ?B = "bx_num_bins bx"
  obtain bs vs where st: "st = (bs, vs)" by (cases st)
  have I: "length bs = ?B" "length vs = length inputs" "\<And>b. b < ?B \<Longrightarrow> batch_of bx inputs m b (bs ! b)"
    "\<And>i. i < m \<Longrightarrow> vs ! i = baxos_held avx2 bx P (inputs ! i) \<or> i \<in> snd ` set (bs ! bin_of bx (inputs ! i))" using inv st by (auto simp: decode_inv_def)
  have bl: "bin_of bx x < ?B" for x using bx bin_of_less by (simp add: baxos_ok_def)
  let ?batch = "bs ! ?b @ [(key_hf bx inputs m, m)]"
  have mono: "batch_of bx inputs (Suc m) b (bs ! b)" if "b < ?B" for b using I(3) [OF that] by (auto simp: batch_of_def less_SucI)
  have new: "batch_of bx inputs (Suc m) ?b ?batch" using mono [OF bl] by (auto simp: batch_of_def)
  show ?thesis
  proof (cases "length ?batch = ds")
    case False
    have "batch_of bx inputs (Suc m) b (bs[?b := ?batch] ! b)" if "b < ?B" for b using new mono [OF that] I(1) that by (cases "b = ?b") simp_all
    moreover have "vs ! i = baxos_held avx2 bx P (inputs ! i) \<or> i \<in> snd ` set (bs[?b := ?batch] ! bin_of bx (inputs ! i))" if "i < Suc m" for i
      using I(1) I(4) [of i] bl that by (cases "i = m"; cases "bin_of bx (inputs ! i) = ?b") auto
    ultimately show ?thesis using False st I(1,2) bl by (simp add: decode_put_bin_def decode_inv_def Let_def)
  next
    case True
    obtain vs' where vs': "decode_flush avx2 bx (decoder bx) P ?b ?batch vs = Inr vs'" "length vs' = length inputs"
      "\<forall>i < length inputs. vs' ! i = (if i \<in> snd ` set ?batch then baxos_held avx2 bx P (inputs ! i) else vs ! i)"
      using decode_flush_ok [OF bx P bl new _ I(2)] m by (auto simp: Suc_le_eq)
    have "batch_of bx inputs (Suc m) b (bs[?b := []] ! b)" if "b < ?B" for b using mono [OF that] I(1) that by (cases "b = ?b") (simp_all add: batch_of_def)
    moreover have "vs' ! i = baxos_held avx2 bx P (inputs ! i) \<or> i \<in> snd ` set (bs[?b := []] ! bin_of bx (inputs ! i))" if "i < Suc m" for i
      using I(1) I(4) [of i] vs'(3) m bl that by (cases "i = m"; cases "bin_of bx (inputs ! i) = ?b") auto
    ultimately show ?thesis using True st I(1,2) vs'(1,2) bl by (simp add: decode_put_bin_def decode_inv_def Let_def)
  qed
qed

lemma decode_batch_block_ok:
  assumes bx: "baxos_ok idx_bits bx" and P: "length P = Baxos_size bx" and m: "m + 32 \<le> length inputs" and inv: "decode_inv avx2 bx P inputs m st"
  shows "\<exists>st'. decode_batch_block avx2 bx (decoder bx) P ds inputs m st = Inr st' \<and> decode_inv avx2 bx P inputs (m + 32) st'"
proof -
  let ?hs = "map (AesCrHash_Hash (bx_encrypt bx)) (take 32 (drop m inputs))"
  let ?f = "\<lambda>k st. rbind (at (map (\<lambda>h. mod32 (of_nat (bx_num_bins bx)) (BinIdxCompress h)) ?hs) k) (\<lambda>b. rbind (at ?hs k) (\<lambda>h.
      decode_put_bin avx2 bx (decoder bx) P ds (unat b) h (m + k) st))"
  have f: "?f k st = decode_put_bin avx2 bx (decoder bx) P ds (bin_of bx (inputs ! (m + k))) (key_hf bx inputs (m + k)) (m + k) st" if "k < 32" for k st
    using that m by (simp add: bin_of_def mod32_mod)
  have "\<exists>st'. rfold ?f [0..<32] st = Inr st' \<and> decode_inv avx2 bx P inputs (m + 32) st'"
  proof (rule rfold_upt_inv [where I = "\<lambda>k. decode_inv avx2 bx P inputs (m + k)"])
    fix k st assume k: "k < 32" "decode_inv avx2 bx P inputs (m + k) st"
    have "m + k < length inputs" using k(1) m by simp
    from decode_put_bin_ok [OF bx P this k(2), of ds] show "\<exists>st'. ?f k st = Inr st' \<and> decode_inv avx2 bx P inputs (m + Suc k) st'" using f [OF k(1)] by simp
  qed (use inv in simp)
  then show ?thesis by (simp add: decode_batch_block_def hash_batches_map Let_def)
qed

lemma decode_batch_one_ok:
  assumes bx: "baxos_ok idx_bits bx" and P: "length P = Baxos_size bx" and m: "m < length inputs" and inv: "decode_inv avx2 bx P inputs m st"
  shows "\<exists>st'. decode_batch_one avx2 bx (decoder bx) P ds inputs m st = Inr st' \<and> decode_inv avx2 bx P inputs (Suc m) st'"
  using decode_put_bin_ok [OF assms, of ds] m ModNumBins_bin_of [of bx] bx by (simp add: decode_batch_one_def baxos_ok_def)

lemma rfold_from_inv:
  assumes "a \<le> n" "I a s" "\<And>i s. a \<le> i \<Longrightarrow> i < n \<Longrightarrow> I i s \<Longrightarrow> \<exists>s'. f i s = Inr s' \<and> I (Suc i) s'"
  shows "\<exists>s'. rfold f [a..<n] s = Inr s' \<and> I n s'"
  using assms
proof (induction arbitrary: s rule: inc_induct)
  case (step a)
  from step.prems(2) [OF le_refl step.hyps(2) step.prems(1)] obtain s1 where s1: "f a s = Inr s1" "I (Suc a) s1" by blast
  from step.IH [OF s1(2)] step.prems(2) show ?case using s1(1) step.hyps by (simp add: upt_conv_Cons)
qed auto

lemma flush_all_ok:
  assumes bx: "baxos_ok idx_bits bx" and P: "length P = Baxos_size bx" and inv: "decode_inv avx2 bx P inputs (length inputs) (bs, vs)"
  shows "rfold (\<lambda>b vs. rbind (at bs b) (\<lambda>batch. if batch = [] then Inr vs else decode_flush avx2 bx (decoder bx) P b batch vs)) [0..<bx_num_bins bx] vs =
     Inr (map (baxos_held avx2 bx P) inputs)"
proof -
  let ?B = "bx_num_bins bx" and ?n = "length inputs"
  let ?f = "\<lambda>b vs. rbind (at bs b) (\<lambda>batch. if batch = [] then Inr vs else decode_flush avx2 bx (decoder bx) P b batch vs)"
  have I: "length bs = ?B" "length vs = ?n" "\<And>b. b < ?B \<Longrightarrow> batch_of bx inputs ?n b (bs ! b)"
    "\<And>i. i < ?n \<Longrightarrow> vs ! i = baxos_held avx2 bx P (inputs ! i) \<or> i \<in> snd ` set (bs ! bin_of bx (inputs ! i))" using inv by (auto simp: decode_inv_def)
  have bl: "bin_of bx x < ?B" for x using bx bin_of_less by (simp add: baxos_ok_def)
  let ?J = "\<lambda>b vs. length vs = ?n \<and> (\<forall>i < ?n. vs ! i = baxos_held avx2 bx P (inputs ! i) \<or> b \<le> bin_of bx (inputs ! i) \<and> i \<in> snd ` set (bs ! bin_of bx (inputs ! i)))"
  have "\<exists>vs'. rfold ?f [0..<?B] vs = Inr vs' \<and> ?J ?B vs'"
  proof (rule rfold_upt_inv [where I = ?J])
    fix b ws assume b: "b < ?B" "?J b ws"
    show "\<exists>s'. ?f b ws = Inr s' \<and> ?J (Suc b) s'"
    proof (cases "bs ! b = []")
      case True
      have "b \<noteq> bin_of bx (inputs ! i)" if "i \<in> snd ` set (bs ! bin_of bx (inputs ! i))" for i using that True by auto
      then have "?J (Suc b) ws" using b(2) by (metis Suc_leI le_neq_implies_less)
      then show ?thesis using b(1) True I(1) by simp
    next
      case False
      obtain vs' where vs': "decode_flush avx2 bx (decoder bx) P b (bs ! b) ws = Inr vs'" "length vs' = ?n"
        "\<And>i. i < ?n \<Longrightarrow> vs' ! i = (if i \<in> snd ` set (bs ! b) then baxos_held avx2 bx P (inputs ! i) else ws ! i)"
        using decode_flush_ok [OF bx P b(1) I(3) [OF b(1)] le_refl, of ws avx2] b(2) by auto
      have "vs' ! i = baxos_held avx2 bx P (inputs ! i) \<or> Suc b \<le> bin_of bx (inputs ! i) \<and> i \<in> snd ` set (bs ! bin_of bx (inputs ! i))" if "i < ?n" for i
        using b(2) that vs'(3) [OF that] by (cases "bin_of bx (inputs ! i) = b") (auto simp: Suc_le_eq le_neq_implies_less)
      then show ?thesis using vs'(1,2) False b(1) I(1) by simp
    qed
  qed (use I in auto)
  then obtain vs' where vs': "rfold ?f [0..<?B] vs = Inr vs'" "?J ?B vs'" by blast
  have "\<not> ?B \<le> bin_of bx x" for x using bl [of x] by simp
  then have "vs' = map (baxos_held avx2 bx P) inputs" using vs'(2) by (intro nth_equalityI) simp_all
  then show ?thesis using vs'(1) by simp
qed

lemma ImplDecodeBatch_ok:
  assumes bx: "baxos_ok idx_bits bx" and P: "length P = Baxos_size bx" and len: "length values = length inputs"
  shows "ImplDecodeBatch avx2 idx_bits bx inputs P values = Inr (map (baxos_held avx2 bx P) inputs)"
proof -
  let ?m = "length inputs div 32" and ?ds = "min 512 (length inputs)" and ?I = "decode_inv avx2 bx P inputs"
  have m: "?m * 32 \<le> length inputs" by (simp add: div_times_less_eq_dividend)
  have "sizes_ok idx_bits (bx_param bx)" "1 \<le> sparse_size (bx_param bx)" using bx by (auto simp: baxos_ok_def sizes_ok_def)
  note init = Paxos_Init_ok [OF this, of "bx_encrypt bx" Paxos_new]
  have "?I 0 (replicate (bx_num_bins bx) [], values)" using len by (simp add: decode_inv_def batch_of_def)
  then have "\<exists>st. rfold (\<lambda>k. decode_batch_block avx2 bx (decoder bx) P ?ds inputs (k * 32)) [0..<?m] (replicate (bx_num_bins bx) [], values) = Inr st \<and> ?I (?m * 32) st"
  proof (intro rfold_upt_inv [where I = "\<lambda>k. ?I (k * 32)"])
    fix k st assume k: "k < ?m" "?I (k * 32) st"
    have "k * 32 + 32 \<le> length inputs" using k(1) m by linarith
    from decode_batch_block_ok [OF bx P this k(2)] show "\<exists>s'. decode_batch_block avx2 bx (decoder bx) P ?ds inputs (k * 32) st = Inr s' \<and> ?I (Suc k * 32) s'" by (simp add: add.commute)
  qed simp
  then obtain st where st: "rfold (\<lambda>k. decode_batch_block avx2 bx (decoder bx) P ?ds inputs (k * 32)) [0..<?m] (replicate (bx_num_bins bx) [], values) = Inr st" "?I (?m * 32) st" by blast
  have "\<exists>st'. rfold (decode_batch_one avx2 bx (decoder bx) P ?ds inputs) [?m * 32..<length inputs] st = Inr st' \<and> ?I (length inputs) st'"
    using rfold_from_inv [of "?m * 32" "length inputs" ?I st] decode_batch_one_ok [OF bx P] m st(2) by blast
  then obtain bs vs where "rfold (decode_batch_one avx2 bx (decoder bx) P ?ds inputs) [?m * 32..<length inputs] st = Inr (bs, vs)" "?I (length inputs) (bs, vs)" by auto
  then show ?thesis using init st(1) flush_all_ok [OF bx P, of avx2 inputs bs vs] by (simp add: ImplDecodeBatch_def Let_def del: One_nat_def)
qed

section \<open>All threads\<close>

lemma decode_thread_ok:
  fixes avx2
  assumes bx: "baxos_ok idx_bits bx" and P: "length P = Baxos_size bx" and len: "length values = length inputs" and i: "i < T"
  defines "s \<equiv> share (length inputs) T" and "f \<equiv> baxos_held avx2 bx P"
  shows "decode_thread avx2 idx_bits T bx inputs P i (map f (take (s i) inputs) @ drop (s i) values) = Inr (map f (take (s (Suc i)) inputs) @ drop (s (Suc i)) values)"
proof -
  let ?v = "map f (take (s i) inputs) @ drop (s i) values"
  have s: "s i \<le> s (Suc i)" "s (Suc i) \<le> length inputs" using share_mono [of i "Suc i" "length inputs" T] share_le [of T "Suc i" "length inputs"] i by (simp_all add: s_def)
  have v: "length ?v = length inputs" "take (s i) ?v = map f (take (s i) inputs)" "drop (s (Suc i)) ?v = drop (s (Suc i)) values" using s len by simp_all
  have "length (take (s (Suc i) - s i) (drop (s i) ?v)) = length (take (s (Suc i) - s i) (drop (s i) inputs))" using v(1) by (simp only: length_take length_drop)
  note D = ImplDecodeBatch_ok [OF bx P this, of avx2]
  have t: "take (s (Suc i)) inputs = take (s i) inputs @ take (s (Suc i) - s i) (drop (s i) inputs)" using take_add [of "s i" "s (Suc i) - s i" inputs] s by simp
  have "decode_thread avx2 idx_bits T bx inputs P i w = rbind (ImplDecodeBatch avx2 idx_bits bx (take (s (Suc i) - s i) (drop (s i) inputs)) P (take (s (Suc i) - s i) (drop (s i) w)))
      (\<lambda>va. Inr (take (s i) w @ va @ drop (s (Suc i)) w))" if "length w = length inputs" for w
    using s(2) that by (simp add: decode_thread_def Let_def s_def share_def)
  note e = this [OF v(1), unfolded D v(2,3)]
  show ?thesis unfolding e by (simp only: rbind_Inr t map_append append_assoc f_def)
qed

lemma ImplParDecode_ok:
  assumes bx: "baxos_ok idx_bits bx" and P: "length P = Baxos_size bx" and len: "length values = length inputs"
  shows "ImplParDecode avx2 idx_bits num_threads bx inputs values P = Inr (map (baxos_held avx2 bx P) inputs)"
proof (cases "bx_num_bins bx = 1")
  case True
  have "sizes_ok idx_bits (bx_param bx)" "1 \<le> sparse_size (bx_param bx)" using bx by (auto simp: baxos_ok_def sizes_ok_def)
  note init = Paxos_Init_ok [OF this, of "bx_encrypt bx" Paxos_new]
  have n: "length P = px_size (bx_param bx)" using P True by (simp add: Baxos_size_def px_size_def)
  have "bin_of bx x = 0" for x using bin_of_less [of bx x] bx True by (simp add: baxos_ok_def)
  then have h: "baxos_held avx2 bx P = held avx2 (decoder bx) P" using n by (simp add: fun_eq_iff baxos_held_def store_held_def seg_def)
  have "px_dt (decoder bx) = GF128" using bx by (simp add: baxos_ok_def)
  then show ?thesis using Decode_ok [OF decoder_ok [OF bx], of P inputs "values" avx2] n len init True h by (simp add: ImplParDecode_def del: One_nat_def)
next
  case False
  let ?T = "max num_threads 1" and ?s = "share (length inputs) (max num_threads 1)"
  let ?v = "\<lambda>m. map (baxos_held avx2 bx P) (take (?s m) inputs) @ drop (?s m) values"
  have "rfold (decode_thread avx2 idx_bits ?T bx inputs P) [0..<m] values = Inr (?v m)" if "m \<le> ?T" for m
    using that
  proof (induction m)
    case (Suc m)
    then have "m < ?T" "rfold (decode_thread avx2 idx_bits ?T bx inputs P) [0..<m] values = Inr (?v m)" by simp_all
    then show ?case unfolding upt_Suc_append [OF le0] rfold_append by (simp only: rbind_Inr rfold_single decode_thread_ok [OF bx P len])
  qed (simp add: share_def)
  from this [OF le_refl] show ?thesis using False len share_bounds [of ?T "length inputs"] by (simp add: ImplParDecode_def Let_def)
qed

section \<open>Baxos is a key-value store\<close>

definition Baxos_encode :: "(nat \<Rightarrow> nat) \<Rightarrow> (nat \<Rightarrow> nat \<Rightarrow> nat \<Rightarrow> nat) \<Rightarrow> nat \<Rightarrow> Baxos \<Rightarrow> bool \<Rightarrow> 128 word list \<Rightarrow> 128 word list \<Rightarrow> 128 word list result option" where
  "Baxos_encode log2_ceil bin_size_of num_threads bx avx2 keys vals = Baxos_Solve log2_ceil avx2 bin_size_of num_threads (\<lambda>_. None) keys vals (replicate (Baxos_size bx) 0) bx"

definition Baxos_values :: "(nat \<Rightarrow> nat) \<Rightarrow> nat \<Rightarrow> Baxos \<Rightarrow> bool \<Rightarrow> 128 word list \<Rightarrow> 128 word list \<Rightarrow> 128 word list result" where
  "Baxos_values log2_ceil num_threads bx avx2 P keys = Baxos_Decode log2_ceil avx2 num_threads bx keys (replicate (length keys) 0) P"

definition baxos_good :: "(nat \<Rightarrow> nat) \<Rightarrow> Baxos \<Rightarrow> 128 word list \<Rightarrow> bool" where
  "baxos_good log2_ceil bx keys \<longleftrightarrow> baxos_ok (idx_type log2_ceil bx) bx \<and> length keys = bx_num_items bx \<and> bins_good bx keys"

definition baxos_vec :: "(nat \<Rightarrow> nat) \<Rightarrow> Baxos \<Rightarrow> 128 word list \<Rightarrow> bool" where
  "baxos_vec log2_ceil bx P \<longleftrightarrow> baxos_ok (idx_type log2_ceil bx) bx \<and> length P = Baxos_size bx"

lemma seg_axpy: "length P = length Q \<Longrightarrow> seg n b (axpy avx2 d P Q) = axpy avx2 d (seg n b P) (seg n b Q)"
  by (simp add: seg_def axpy_def take_map drop_map take_zip drop_zip)

lemma baxos_held_axpy:
  assumes "baxos_vec log2_ceil bx P" "baxos_vec log2_ceil bx Q"
  shows "baxos_held avx2 bx (axpy avx2 d P Q) x = baxos_held avx2 bx P x XOR Galois128_Mul avx2 d (baxos_held avx2 bx Q x)"
proof -
  let ?n = "px_size (bx_param bx)" and ?b = "bin_of bx x"
  have ok: "baxos_ok (idx_type log2_ceil bx) bx" using assms(1) by (simp add: baxos_vec_def)
  have "?b < bx_num_bins bx" using ok bin_of_less by (simp add: baxos_ok_def)
  then have fit: "?n * Suc ?b \<le> length P" "?n * Suc ?b \<le> length Q" using seg_fits [of ?b "bx_num_bins bx" ?n] assms
    by (simp_all add: baxos_vec_def Baxos_size_def px_size_def mult.commute)
  have "store_vec (idx_type log2_ceil bx) (bx_param bx) (seg ?n ?b P)" "store_vec (idx_type log2_ceil bx) (bx_param bx) (seg ?n ?b Q)"
    using ok seg_length fit by (simp_all add: store_vec_def baxos_ok_def param_ok_def)
  from px.holds_axpy [OF this] show ?thesis using assms by (simp add: baxos_held_def seg_axpy baxos_vec_def)
qed

interpretation bx: okvs avx2 "baxos_good log2_ceil bx" "baxos_vec log2_ceil bx" "Baxos_encode log2_ceil bin_size_of num_threads bx avx2" "Baxos_values log2_ceil num_threads' bx avx2" "baxos_held avx2 bx"
proof
  fix ks vs P Q :: "128 word list" and d k
  show "\<exists>r. Baxos_encode log2_ceil bin_size_of num_threads bx avx2 ks vs = Some r" if "baxos_good log2_ceil bx ks" "length vs = length ks"
    using ImplParSolve_ok [of "idx_type log2_ceil bx" bx vs ks "\<lambda>_. None" avx2 bin_size_of num_threads] that by (auto simp: baxos_good_def Baxos_encode_def Baxos_Solve_def)
  show "baxos_vec log2_ceil bx P \<and> map (baxos_held avx2 bx P) ks = vs" if "baxos_good log2_ceil bx ks" "length vs = length ks" "Baxos_encode log2_ceil bin_size_of num_threads bx avx2 ks vs = Some (Inr P)"
    using ImplParSolve_ok [of "idx_type log2_ceil bx" bx vs ks "\<lambda>_. None" avx2 bin_size_of num_threads] that
    by (auto simp: baxos_good_def baxos_vec_def Baxos_encode_def Baxos_Solve_def intro!: nth_equalityI)
  show "Baxos_values log2_ceil num_threads' bx avx2 P ks = Inr (map (baxos_held avx2 bx P) ks)" if "baxos_vec log2_ceil bx P"
    using that ImplParDecode_ok [of "idx_type log2_ceil bx" bx P] by (simp add: baxos_vec_def Baxos_values_def Baxos_Decode_def)
  show "baxos_vec log2_ceil bx (axpy avx2 d P Q) \<and> baxos_held avx2 bx (axpy avx2 d P Q) k = baxos_held avx2 bx P k XOR Galois128_Mul avx2 d (baxos_held avx2 bx Q k)"
    if "baxos_vec log2_ceil bx P" "baxos_vec log2_ceil bx Q" using baxos_held_axpy [OF that] that by (simp add: baxos_vec_def)
  show "length P = length Q" if "baxos_vec log2_ceil bx P" "baxos_vec log2_ceil bx Q" using that by (simp add: baxos_vec_def)
qed

text \<open>
  C21. The binned key-value store gives back what was put into it: the keys are hashed into the bins by several threads, the bins are solved by several
  threads, and a decoder that knows the parameters and the hash function but not the keys, and that runs with a number of threads of its own, gets from the vector
  the value of every key, for all keys in one call or for one key alone. Solving always ends.
\<close>

theorem Baxos_roundtrip:
  assumes "baxos_good log2_ceil bx keys" "length vals = length keys"
  shows "\<exists>r. Baxos_Solve log2_ceil avx2 bin_size_of num_threads (\<lambda>_. None) keys vals (replicate (Baxos_size bx) 0) bx = Some r \<and>
     (\<forall>P. r = Inr P \<longrightarrow> Baxos_Decode log2_ceil avx2 num_threads' bx keys (replicate (length keys) 0) P = Inr vals \<and>
        (\<forall>i < length keys. Baxos_Decode log2_ceil avx2 num_threads' bx [keys ! i] [0] P = Inr [vals ! i]))"
proof -
  obtain r where r: "Baxos_encode log2_ceil bin_size_of num_threads bx avx2 keys vals = Some r" using bx.encode_ends [OF assms] by blast
  have "Baxos_values log2_ceil num_threads' bx avx2 P keys = Inr vals" "\<forall>i < length keys. Baxos_values log2_ceil num_threads' bx avx2 P [keys ! i] = Inr [vals ! i]"
    if "r = Inr P" for P
    using bx.encode_decode [OF assms] bx.encode_nth [OF assms] r that by blast+
  then show ?thesis using r by (simp add: Baxos_encode_def Baxos_values_def)
qed

text \<open>A store of two bins, with the logarithm given by its values.\<close>

definition small_baxos :: Baxos where
  "small_baxos = \<lparr> bx_num_items = 4, bx_num_bins = 2, bx_items_per_bin = 4, bx_weight = 3, bx_ssp = 40, bx_param = small_param,
     bx_encrypt = (\<lambda>_. 0), bx_add_to_decode = False \<rparr>"

fun log2_up :: "nat \<Rightarrow> nat" where
  "log2_up n = (if n \<le> 1 then 0 else Suc (log2_up ((n + 1) div 2)))"

declare log2_up.simps [simp del]

lemma log2_up_le: "log2_up n \<le> k \<longleftrightarrow> n \<le> 2 ^ k"
proof (induction n arbitrary: k rule: log2_up.induct)
  case (1 n)
  show ?case
  proof (cases "n \<le> 1")
    case True
    moreover have "(1 :: nat) \<le> 2 ^ k" by simp
    ultimately show ?thesis by (subst log2_up.simps) (simp add: order.trans)
  next
    case False
    then have eq: "log2_up n = Suc (log2_up ((n + 1) div 2))" by (subst log2_up.simps) simp
    have half: "(n + 1) div 2 \<le> m \<longleftrightarrow> n \<le> 2 * m" for m by presburger
    show ?thesis
    proof (cases k)
      case 0
      then show ?thesis using False eq by simp
    next
      case (Suc k')
      then show ?thesis using "1.IH" [OF False, of k'] half [of "2 ^ k'"] unfolding eq by simp
    qed
  qed
qed

lemma small_baxos_good: "baxos_good log2_up small_baxos [1, 2, 3, 4]"
proof -
  have "log2_up 8 \<le> 8" by (simp add: log2_up_le)
  then have ty: "idx_type log2_up small_baxos = 8" by (simp add: idx_type_def RoundUpTo_def small_baxos_def small_param_def Let_def)
  have "keys_ok (\<lambda>_. 0) small_param (bin_inputs small_baxos [1, 2, 3, 4] b)" for b
  proof (rule keys_ok_few)
    have len: "length (bin_inputs small_baxos [1, 2, 3, 4] b) \<le> 4" using length_filter_le [of _ "[1, 2, 3, 4 :: 128 word]"] by (simp add: bin_inputs_def)
    then show "length (bin_inputs small_baxos [1, 2, 3, 4] b) + 2 \<le> sparse_size small_param" "length (bin_inputs small_baxos [1, 2, 3, 4] b) < 200" by (simp_all add: small_param_def)
    show "distinct (map (AesCrHash_Hash (\<lambda>_. 0)) (bin_inputs small_baxos [1, 2, 3, 4] b))" by (simp add: bin_inputs_def AesCrHash_Hash_def distinct_map)
  qed (simp_all add: small_param_def)
  then show ?thesis unfolding baxos_good_def ty using small_param_ok(3)
    by (simp add: baxos_ok_def bins_ok_def bins_good_def small_baxos_def sizes_ok_def) (simp add: small_param_def)
qed

lemma small_baxos_solved:
  "Baxos_Solve log2_up True (\<lambda>_ _ _. 4) 2 (\<lambda>_. None) [1, 2, 3, 4] [7, 8, 9, 10] (replicate (Baxos_size small_baxos) 0) small_baxos =
     Some (Inr [0, 8, 0, 0, 2, 0, 0, 0, 0, 0, 7, 0, 14, 0, 0, 0, 0, 0])"
  by code_simp

theorem Baxos_roundtrip_witness:
  "\<exists>P. Baxos_Solve log2_up True (\<lambda>_ _ _. 4) 2 (\<lambda>_. None) [1, 2, 3, 4] [7, 8, 9, 10] (replicate (Baxos_size small_baxos) 0) small_baxos = Some (Inr P) \<and>
     Baxos_Decode log2_up True 3 small_baxos [1, 2, 3, 4] (replicate 4 0) P = Inr [7, 8, 9, 10]"
proof -
  have "length [7, 8, 9, 10 :: 128 word] = length [1, 2, 3, 4 :: 128 word]" by simp
  from Baxos_roundtrip [OF small_baxos_good this, of True "\<lambda>_ _ _. 4" 2 3] show ?thesis using small_baxos_solved by (auto simp: numeral_eq_Suc)
qed

section \<open>The index type\<close>

text \<open>
  C34. The index type that is chosen for the rows of a bin fits them, except at the borders: with exactly 255, 65535 or 4294967295 sparse columns the
  chosen type has room for the columns, but \<open>Paxos::Init\<close> demands room for one more index and throws.
\<close>

theorem idx_type_fits:
  assumes "\<And>n k. 1 \<le> n \<Longrightarrow> log2_ceil n \<le> k \<longleftrightarrow> n \<le> 2 ^ k" "sparse_size (bx_param bx) < 2 ^ 63"
  shows "sparse_size (bx_param bx) < 2 ^ idx_type log2_ceil bx - 1 \<longleftrightarrow> sparse_size (bx_param bx) \<notin> {255, 65535, 4294967295}"
proof -
  let ?n = "sparse_size (bx_param bx)"
  have r: "RoundUpTo m 8 \<le> 8 * k \<longleftrightarrow> m \<le> 8 * k" for m k by (auto simp: RoundUpTo_def)
  have le: "RoundUpTo (log2_ceil (?n + 1)) 8 \<le> 8 * k \<longleftrightarrow> ?n + 1 \<le> 2 ^ (8 * k)" for k using r assms(1) by simp
  have ty: "idx_type log2_ceil bx = (if ?n < 256 then 8 else if ?n < 65536 then 16 else if ?n < 4294967296 then 32 else 64)"
    using le [of 1] le [of 2] le [of 4] by (simp add: idx_type_def Let_def)
  show ?thesis unfolding ty using assms(2) by auto
qed

theorem idx_type_fits_witness:
  "\<not> sparse_size (small_param \<lparr> sparse_size := 255 \<rparr>) < 2 ^ idx_type log2_up (small_baxos \<lparr> bx_param := small_param \<lparr> sparse_size := 255 \<rparr> \<rparr>) - 1"
  using idx_type_fits [of log2_up "small_baxos \<lparr> bx_param := small_param \<lparr> sparse_size := 255 \<rparr> \<rparr>"] by (simp add: log2_up_le)

end
