(* ===== verification/Rr22_Oprf.thy ===== *)
theory Rr22_Oprf
  imports Baxos_Okvs
begin

text \<open>
  \<open>psi/algorithm/rr22/rr22_oprf.cc\<close>, \<open>davis_meyer_hash.cc\<close> and the chunked transfer of \<open>rr22_utils.h\<close>: the oblivious evaluation of a pseudo-random function. The
  receiver encodes the hashes of its inputs in a key-value store, masks the vector with its part of a vector oblivious linear evaluation and sends it; both parties then
  decode a vector each, and get the same value for the inputs they have in common.

  What comes from other libraries is a parameter: the block cipher \<open>env_aes\<close> with its key as first argument, the random oracle, the logarithm, and the correlation that
  the vector oblivious linear evaluation gives to the two parties (\<open>Vole\<close>, with the number of elements as argument). The sizes computed in floating point are parameters too.
\<close>

section \<open>Parameters\<close>

datatype Rr22PsiMode = FastMode | LowCommMode

record OprfEnv =
  env_aes :: "128 word \<Rightarrow> 128 word \<Rightarrow> 128 word"
  env_avx2 :: bool
  env_ro :: "128 word \<Rightarrow> 8 word list"
  env_log2_ceil :: "nat \<Rightarrow> nat"
  env_bin_size_of :: "nat \<Rightarrow> nat \<Rightarrow> nat \<Rightarrow> nat"
  env_param_of :: "nat \<Rightarrow> nat \<Rightarrow> nat \<Rightarrow> DenseType \<Rightarrow> PaxosParam"
  env_bin_ssp :: "nat \<Rightarrow> nat \<Rightarrow> nat"

record Vole =
  vo_delta :: "128 word"
  vo_a :: "nat \<Rightarrow> 128 word list"
  vo_a64 :: "nat \<Rightarrow> 64 word list"
  vo_b :: "nat \<Rightarrow> 128 word list"
  vo_c :: "nat \<Rightarrow> 128 word list"

definition kAesHashSeed :: "128 word" where
  "kAesHashSeed = push_bit 64 0x99e096a63468f39f OR 0x9ceaad9f20cc8233"

definition kPaxosWeight :: nat where
  "kPaxosWeight = 3"

definition kSendChunkSize :: nat where
  "kSendChunkSize = 100000"

abbreviation oprf_hash :: "OprfEnv \<Rightarrow> 128 word \<Rightarrow> 128 word" where
  "oprf_hash env \<equiv> AesCrHash_Hash (env_aes env kAesHashSeed)"

section \<open>A correlation for tests\<close>

text \<open>
  \<open>MocRr22VoleSender\<close> and \<open>MocRr22VoleReceiver\<close> compute both sides from a common seed. \<open>fill1\<close> and \<open>fill2\<close> are the results of the first and of the second
  \<open>Prg::Fill\<close> with a seed, \<open>fill64\<close> that of the generator of 64-bit values.
\<close>

definition MocVole_Send :: "bool \<Rightarrow> (128 word \<Rightarrow> nat \<Rightarrow> 128 word list) \<Rightarrow> (128 word \<Rightarrow> nat \<Rightarrow> 128 word list) \<Rightarrow> 128 word \<Rightarrow> 128 word \<Rightarrow> nat \<Rightarrow> 128 word list" where
  "MocVole_Send avx2 fill1 fill2 delta seed n = map2 (\<lambda>a b. b XOR Galois128_Mul avx2 delta a) (fill1 seed n) (fill2 seed n)"

definition MocVole_SendF64 :: "bool \<Rightarrow> (128 word \<Rightarrow> nat \<Rightarrow> 64 word list) \<Rightarrow> (128 word \<Rightarrow> nat \<Rightarrow> 128 word list) \<Rightarrow> 128 word \<Rightarrow> 128 word \<Rightarrow> nat \<Rightarrow> 128 word list" where
  "MocVole_SendF64 avx2 fill64 fill1 delta seed n = map2 (\<lambda>a b. b XOR Galois128_Mul avx2 delta (ucast a)) (fill64 seed n) (fill1 (seed + 1) n)"

definition MocVole_Recv :: "(128 word \<Rightarrow> nat \<Rightarrow> 128 word list) \<Rightarrow> (128 word \<Rightarrow> nat \<Rightarrow> 128 word list) \<Rightarrow> 128 word \<Rightarrow> nat \<Rightarrow> 128 word list \<times> 128 word list" where
  "MocVole_Recv fill1 fill2 seed n = (fill1 seed n, fill2 seed n)"

definition MocVole_RecvF64 :: "(128 word \<Rightarrow> nat \<Rightarrow> 64 word list) \<Rightarrow> (128 word \<Rightarrow> nat \<Rightarrow> 128 word list) \<Rightarrow> 128 word \<Rightarrow> nat \<Rightarrow> 64 word list \<times> 128 word list" where
  "MocVole_RecvF64 fill64 fill1 seed n = (fill64 seed n, fill1 (seed + 1) n)"

section \<open>Davis-Meyer hash\<close>

definition DavisMeyerHash1 :: "(128 word \<Rightarrow> 128 word \<Rightarrow> 128 word) \<Rightarrow> 128 word \<Rightarrow> 128 word \<Rightarrow> 128 word" where
  "DavisMeyerHash1 aes key v = aes key v XOR v"

fun dm_batches :: "(128 word \<Rightarrow> 128 word \<Rightarrow> 128 word) \<Rightarrow> 128 word list \<Rightarrow> 128 word list \<Rightarrow> 128 word list" where
  "dm_batches aes keys vals =
     (if length keys < 8 then map2 (DavisMeyerHash1 aes) keys vals
      else map2 (XOR) (map2 aes (take 8 keys) (take 8 vals)) (take 8 vals) @ dm_batches aes (drop 8 keys) (drop 8 vals))"

declare dm_batches.simps [simp del]

definition DavisMeyerHash :: "(128 word \<Rightarrow> 128 word \<Rightarrow> 128 word) \<Rightarrow> bool \<Rightarrow> 128 word list \<Rightarrow> 128 word list \<Rightarrow> 128 word list result" where
  "DavisMeyerHash aes avx2 keys vals =
     rbind (enforce (length keys = length vals) ''key.size() == value.size()'') (\<lambda>_.
     Inr (if avx2 then dm_batches aes keys vals else map2 (DavisMeyerHash1 aes) keys vals))"

section \<open>Chunked transfer\<close>

text \<open>\<open>None\<close> is a receiver that waits for a message for ever.\<close>

fun chunks :: "nat \<Rightarrow> 'e list \<Rightarrow> 'e list list" where
  "chunks k xs = (if xs = [] \<or> k = 0 then [] else take k xs # chunks k (drop k xs))"

declare chunks.simps [simp del]

definition SendChunked :: "'e list \<Rightarrow> 'e list list" where
  "SendChunked xs = chunks kSendChunkSize xs"

fun recv_chunks :: "nat \<Rightarrow> nat \<Rightarrow> 'e list list \<Rightarrow> 'e list \<Rightarrow> ('e list \<times> 'e list list) result option" where
  "recv_chunks n cnt msgs v =
     (if cnt < n
      then (case msgs of [] \<Rightarrow> None
            | m # ms \<Rightarrow> if cnt + length m \<le> n then recv_chunks n (cnt + length m) ms (take cnt v @ m @ drop (cnt + length m) v) else Some (Inl (Undefined ''memcpy'')))
      else Some (rbind (enforce (cnt = n) ''recv_item_count == paxos_size'') (\<lambda>_. Inr (v, msgs))))"

declare recv_chunks.simps [simp del]

definition RecvChunked :: "nat \<Rightarrow> 'e::zero list list \<Rightarrow> ('e list \<times> 'e list list) result option" where
  "RecvChunked n msgs = recv_chunks n 0 msgs (replicate n 0)"

section \<open>The sender\<close>

record Rr22Oprf =
  ro_bin_size :: nat
  ro_ssp :: nat
  ro_mode :: Rr22PsiMode
  ro_malicious :: bool
  ro_w :: "128 word"
  ro_paxos_size :: nat
  ro_num_threads :: nat
  ro_baxos :: "Baxos option"
  ro_paxos :: Paxos

record Rr22OprfSender = Rr22Oprf +
  os_delta :: "128 word"
  os_b :: "128 word list"

record Rr22OprfReceiver = Rr22Oprf +
  or_a :: "128 word list"
  or_a64 :: "64 word list"
  or_c :: "128 word list"

definition Rr22OprfSender_new :: "nat \<Rightarrow> nat \<Rightarrow> Rr22PsiMode \<Rightarrow> bool \<Rightarrow> Rr22OprfSender result" where
  "Rr22OprfSender_new bin_size ssp mode malicious =
     (if malicious \<and> mode = LowCommMode then Inl (Throw ''RR22 malicious psi not support LowCommMode'')
      else Inr \<lparr> ro_bin_size = bin_size, ro_ssp = ssp, ro_mode = mode, ro_malicious = malicious, ro_w = 0, ro_paxos_size = 0, ro_num_threads = 0,
             ro_baxos = None, ro_paxos = Paxos_new, os_delta = 0, os_b = [] \<rparr>)"

definition Rr22OprfReceiver_new :: "nat \<Rightarrow> nat \<Rightarrow> Rr22PsiMode \<Rightarrow> bool \<Rightarrow> Rr22OprfReceiver result" where
  "Rr22OprfReceiver_new bin_size ssp mode malicious =
     (if malicious \<and> mode = LowCommMode then Inl (Throw ''RR22 malicious psi not support LowCommMode'')
      else Inr \<lparr> ro_bin_size = bin_size, ro_ssp = ssp, ro_mode = mode, ro_malicious = malicious, ro_w = 0, ro_paxos_size = 0, ro_num_threads = 0,
             ro_baxos = None, ro_paxos = Paxos_new, or_a = [], or_a64 = [], or_c = [] \<rparr>)"

text \<open>The key-value store of a run, with the seed that the receiver chooses and sends.\<close>

definition run_baxos :: "OprfEnv \<Rightarrow> 128 word \<Rightarrow> nat \<Rightarrow> nat \<Rightarrow> nat \<Rightarrow> Baxos result" where
  "run_baxos env seed n bin_size ssp = Baxos_Init (env_bin_size_of env) (env_param_of env) (env_bin_ssp env) n bin_size kPaxosWeight ssp GF128 (env_aes env seed)"

definition run_paxos :: "OprfEnv \<Rightarrow> 128 word \<Rightarrow> nat \<Rightarrow> nat \<Rightarrow> Paxos \<Rightarrow> Paxos result" where
  "run_paxos env seed n ssp q = Paxos_Init 32 (env_aes env seed) n (env_param_of env n kPaxosWeight ssp Binary) q"

definition Rr22OprfSender_Init :: "OprfEnv \<Rightarrow> Vole \<Rightarrow> 128 word \<Rightarrow> nat \<Rightarrow> nat \<Rightarrow> Rr22OprfSender \<Rightarrow> Rr22OprfSender result" where
  "Rr22OprfSender_Init env vole seed peer_size num_threads s =
     (case ro_mode s of
        FastMode \<Rightarrow> rbind (run_baxos env seed peer_size (ro_bin_size s) (ro_ssp s)) (\<lambda>bx.
          Inr (s \<lparr> ro_num_threads := num_threads, ro_baxos := Some bx, ro_paxos_size := Baxos_size bx,
                os_b := vo_b vole (max 256 (Baxos_size bx)), os_delta := vo_delta vole \<rparr>))
      | LowCommMode \<Rightarrow> rbind (run_paxos env seed peer_size (ro_ssp s) (ro_paxos s)) (\<lambda>p.
          Inr (s \<lparr> ro_num_threads := num_threads, ro_paxos := p, ro_paxos_size := px_size p,
                os_b := vo_b vole (max 256 (px_size p)), os_delta := vo_delta vole \<rparr>)))"

definition HashInputMulDelta :: "OprfEnv \<Rightarrow> 128 word list \<Rightarrow> Rr22OprfSender \<Rightarrow> 128 word list" where
  "HashInputMulDelta env inputs s =
     (case ro_mode s of
        FastMode \<Rightarrow> map (\<lambda>x. Galois128_Mul (env_avx2 env) (os_delta s) (oprf_hash env x)) inputs
      | LowCommMode \<Rightarrow> map (\<lambda>x. Galois128_Mul (env_avx2 env) (os_delta s) (ucast (low64 (oprf_hash env x)))) inputs)"

text \<open>Adding \<open>delta\<close> times a received vector to the first elements of \<open>b\<close>.\<close>

definition add_delta :: "bool \<Rightarrow> 128 word \<Rightarrow> 128 word list \<Rightarrow> 128 word list \<Rightarrow> 128 word list result" where
  "add_delta avx2 delta v b =
     (if length v \<le> length b then Inr (axpy avx2 delta (take (length v) b) v @ drop (length v) b) else Inl (Undefined ''index''))"

text \<open>The messages that are received: \<open>wr\<close> in the malicious setting, and the vector in chunks.\<close>

definition SendFast :: "OprfEnv \<Rightarrow> 128 word \<Rightarrow> 128 word \<Rightarrow> 128 word list list \<Rightarrow> 128 word list \<Rightarrow> Rr22OprfSender \<Rightarrow> (128 word list \<times> Rr22OprfSender) result option" where
  "SendFast env ws wr msgs inputs s =
     (let outputs = HashInputMulDelta env inputs s; s = (if ro_malicious s then s \<lparr> ro_w := wr XOR ws \<rparr> else s) in
      obind (RecvChunked (ro_paxos_size s) msgs) (\<lambda>(paxos_solve, _).
      obind (Some (add_delta (env_avx2 env) (os_delta s) paxos_solve (os_b s))) (\<lambda>b.
      Some (Inr (outputs, s \<lparr> os_b := b \<rparr>)))))"

definition SendLowComm :: "OprfEnv \<Rightarrow> 64 word list list \<Rightarrow> 128 word list \<Rightarrow> Rr22OprfSender \<Rightarrow> (128 word list \<times> Rr22OprfSender) result option" where
  "SendLowComm env msgs inputs s =
     (let outputs = HashInputMulDelta env inputs s in
      obind (RecvChunked (ro_paxos_size s) msgs) (\<lambda>(paxos_solve, _).
      obind (Some (add_delta (env_avx2 env) (os_delta s) (map ucast paxos_solve) (os_b s))) (\<lambda>b.
      Some (Inr (outputs, s \<lparr> os_b := b \<rparr>)))))"

definition sender_decode :: "OprfEnv \<Rightarrow> 128 word list \<Rightarrow> Rr22OprfSender \<Rightarrow> 128 word list result" where
  "sender_decode env inputs s =
     rbind (enforce (0 < length (os_b s)) ''Must use Send() first'') (\<lambda>_.
     let outputs = replicate (length inputs) 0 in
     if length (os_b s) < ro_paxos_size s then Inl (Undefined ''span'')
     else case ro_mode s of
            FastMode \<Rightarrow> (case ro_baxos s of
                None \<Rightarrow> Inl (Undefined ''baxos_'')
              | Some bx \<Rightarrow> Baxos_Decode (env_log2_ceil env) (env_avx2 env) (ro_num_threads s) bx inputs outputs (take (ro_paxos_size s) (os_b s)))
          | LowCommMode \<Rightarrow> Decode (env_avx2 env) (ro_paxos s) inputs outputs (take (ro_paxos_size s) (os_b s)))"

definition final_hash :: "OprfEnv \<Rightarrow> bool \<Rightarrow> 128 word list \<Rightarrow> 128 word list \<Rightarrow> 128 word list result" where
  "final_hash env malicious outputs inputs =
     (if malicious then DavisMeyerHash (env_aes env) (env_avx2 env) outputs inputs else Inr (hash_batches (env_aes env kAesHashSeed) outputs))"

definition Rr22OprfSender_Eval :: "OprfEnv \<Rightarrow> 128 word list \<Rightarrow> Rr22OprfSender \<Rightarrow> (128 word list \<times> Rr22OprfSender) result" where
  "Rr22OprfSender_Eval env inputs s =
     rbind (sender_decode env inputs s) (\<lambda>outputs.
     let outputs = (case ro_mode s of
            FastMode \<Rightarrow> map2 (\<lambda>v x. let v = v XOR Galois128_Mul (env_avx2 env) (os_delta s) (oprf_hash env x) in if ro_malicious s then v XOR ro_w s else v) outputs inputs
          | LowCommMode \<Rightarrow> map2 (\<lambda>v x. v XOR Galois128_Mul (env_avx2 env) (os_delta s) (ucast (low64 (oprf_hash env x)))) outputs inputs) in
     rbind (final_hash env (ro_malicious s) outputs inputs) (\<lambda>outputs.
     Inr (outputs, s \<lparr> os_b := [] \<rparr>)))"

definition Rr22OprfSender_Eval_hash :: "OprfEnv \<Rightarrow> 128 word list \<Rightarrow> 128 word list \<Rightarrow> Rr22OprfSender \<Rightarrow> (128 word list \<times> Rr22OprfSender) result" where
  "Rr22OprfSender_Eval_hash env inputs inputs_hash s =
     rbind (sender_decode env inputs s) (\<lambda>outputs.
     if length inputs_hash < length inputs then Inl (Undefined ''index'')
     else let outputs = map2 (\<lambda>v d. let v = v XOR d in if ro_malicious s then v XOR ro_w s else v) outputs inputs_hash in
     rbind (final_hash env (ro_malicious s) outputs inputs) (\<lambda>outputs.
     Inr (outputs, s \<lparr> os_b := [] \<rparr>)))"

section \<open>The receiver\<close>

definition Rr22OprfReceiver_Init :: "OprfEnv \<Rightarrow> Vole \<Rightarrow> 128 word \<Rightarrow> nat \<Rightarrow> nat \<Rightarrow> Rr22OprfReceiver \<Rightarrow> Rr22OprfReceiver result" where
  "Rr22OprfReceiver_Init env vole seed self_size num_threads r =
     (case ro_mode r of
        FastMode \<Rightarrow> rbind (run_baxos env seed self_size (ro_bin_size r) (ro_ssp r)) (\<lambda>bx.
          Inr (r \<lparr> ro_num_threads := num_threads, ro_baxos := Some bx, ro_paxos_size := Baxos_size bx,
                or_a := vo_a vole (max 256 (Baxos_size bx)), or_c := vo_c vole (max 256 (Baxos_size bx)) \<rparr>))
      | LowCommMode \<Rightarrow> rbind (run_paxos env seed self_size (ro_ssp r) (ro_paxos r)) (\<lambda>p.
          Inr (r \<lparr> ro_num_threads := num_threads, ro_paxos := p, ro_paxos_size := px_size p,
                or_a64 := vo_a64 vole (max 256 (px_size p)), or_c := vo_c vole (max 256 (px_size p)) \<rparr>)))"

definition mask_vector :: "'a::len word list \<Rightarrow> 'a word list \<Rightarrow> 'a word list result" where
  "mask_vector p a = (if length p \<le> length a then Inr (map2 (XOR) p a) else Inl (Undefined ''index''))"

text \<open>The values and the chunks that are sent. \<open>wr\<close> is a random value of the receiver; the hash of \<open>ws\<close> is received before, \<open>ws\<close> itself after \<open>wr\<close> is sent.\<close>

definition RecvFast :: "OprfEnv \<Rightarrow> 128 word \<Rightarrow> 8 word list \<Rightarrow> 128 word \<Rightarrow> 128 word list \<Rightarrow> Rr22OprfReceiver
     \<Rightarrow> (128 word list \<times> 128 word list list \<times> Rr22OprfReceiver) result option" where
  "RecvFast env wr ws_hash ws inputs r =
     obind (Some (enforce (\<not> ro_malicious r \<or> length ws_hash = 32) ''ws_hash_buf.size() == 32'')) (\<lambda>_.
     let outputs = hash_batches (env_aes env kAesHashSeed) inputs in
     case ro_baxos r of
       None \<Rightarrow> Some (Inl (Undefined ''baxos_''))
     | Some bx \<Rightarrow>
         obind (Baxos_Solve (env_log2_ceil env) (env_avx2 env) (env_bin_size_of env) (ro_num_threads r) (\<lambda>_. None) inputs outputs (replicate (Baxos_size bx) 0) bx) (\<lambda>p.
         obind (Some (enforce (\<not> ro_malicious r \<or> env_ro env ws = ws_hash) ''server seed not match'')) (\<lambda>_.
         let w = (if ro_malicious r then wr XOR ws else 0) in
         obind (Some (rbind (if Baxos_size bx \<le> length (or_c r) then Inr () else Inl (Undefined ''span'')) (\<lambda>_.
           rbind (Baxos_Decode (env_log2_ceil env) (env_avx2 env) (ro_num_threads r) bx inputs outputs (take (Baxos_size bx) (or_c r))) (\<lambda>outputs.
           rbind (final_hash env (ro_malicious r) (if ro_malicious r then map (\<lambda>v. v XOR w) outputs else outputs) inputs) (\<lambda>outputs.
           rbind (mask_vector p (or_a r)) (\<lambda>p. Inr (outputs, SendChunked p, r \<lparr> or_a := [], or_c := [] \<rparr>))))))) (\<lambda>x. Some (Inr x)))))"

definition RecvLowComm :: "OprfEnv \<Rightarrow> 128 word list \<Rightarrow> Rr22OprfReceiver \<Rightarrow> (128 word list \<times> 64 word list list \<times> Rr22OprfReceiver) result option" where
  "RecvLowComm env inputs r =
     (let outputs = map (oprf_hash env) inputs in
      obind (Some (Paxos_SetInput (env_avx2 env) inputs (ro_paxos r))) (\<lambda>paxos.
      obind (EncodeU64 (env_avx2 env) False None (map low64 outputs) (replicate (px_size paxos) 0) paxos) (\<lambda>(p, paxos).
      obind (Some (rbind (if px_size paxos \<le> length (or_c r) then Inr () else Inl (Undefined ''span'')) (\<lambda>_.
        rbind (Decode (env_avx2 env) paxos inputs outputs (take (px_size paxos) (or_c r))) (\<lambda>outputs.
        rbind (mask_vector p (or_a64 r)) (\<lambda>p.
        Inr (hash_batches (env_aes env kAesHashSeed) outputs, SendChunked p, r \<lparr> ro_paxos := paxos, or_a64 := [], or_c := [] \<rparr>)))))) (\<lambda>x. Some (Inr x)))))"

section \<open>A run of both parties\<close>

text \<open>
  The receiver's part of \<open>Recv\<close> and the sender's part of \<open>Send\<close> and \<open>Eval\<close>, with the messages of one handed to the other. Both have called \<open>Init\<close>, which is why
  the sender has been told the number of the receiver's inputs.
\<close>

definition Oprf_exchange :: "OprfEnv \<Rightarrow> 128 word \<Rightarrow> 128 word \<Rightarrow> Rr22OprfReceiver \<Rightarrow> Rr22OprfSender \<Rightarrow> 128 word list \<Rightarrow> 128 word list
     \<Rightarrow> (128 word list \<times> 128 word list) result option" where
  "Oprf_exchange env ws wr r s xs ys =
     obind (case ro_mode r of
        FastMode \<Rightarrow> obind (RecvFast env wr (env_ro env ws) ws xs r) (\<lambda>(os, msgs, _). obind (SendFast env ws wr msgs ys s) (\<lambda>hs. Some (Inr (os, hs))))
      | LowCommMode \<Rightarrow> obind (RecvLowComm env xs r) (\<lambda>(os, msgs, _). obind (SendLowComm env msgs ys s) (\<lambda>hs. Some (Inr (os, hs))))) (\<lambda>(os, hs, s).
     obind (Some (Rr22OprfSender_Eval_hash env ys hs s)) (\<lambda>(os', _). Some (Inr (os, os'))))"

definition Oprf_run :: "OprfEnv \<Rightarrow> Vole \<Rightarrow> 128 word \<Rightarrow> 128 word \<Rightarrow> 128 word \<Rightarrow> nat \<Rightarrow> nat \<Rightarrow> Rr22OprfReceiver \<Rightarrow> Rr22OprfSender \<Rightarrow> 128 word list \<Rightarrow> 128 word list
     \<Rightarrow> (128 word list \<times> 128 word list) result option" where
  "Oprf_run env vole seed ws wr threads_r threads_s r s xs ys =
     obind (Some (Rr22OprfReceiver_Init env vole seed (length xs) threads_r r)) (\<lambda>r.
     obind (Some (Rr22OprfSender_Init env vole seed (length xs) threads_s s)) (\<lambda>s.
     Oprf_exchange env ws wr r s xs ys))"

end
