(* ===== verification/Rr22_Oprf_Fast.thy ===== *)
theory Rr22_Oprf_Fast
  imports Rr22_Oprf
begin

text \<open>
  The oblivious evaluation in fast mode, with and without malicious security: both parties get the same value for a common input. The proof uses the contract of the
  key-value store, through its interpretation for \<open>Baxos\<close>, and the correlation of the vector oblivious linear evaluation.
\<close>

section \<open>Hashes and chunks\<close>

lemma dm_batches_map: "length keys = length vals \<Longrightarrow> dm_batches aes keys vals = map2 (DavisMeyerHash1 aes) keys vals"
proof (induction aes keys vals rule: dm_batches.induct)
  case (1 aes keys vals)
  have dm: "map2 (XOR) (map2 aes ks vs) vs = map2 (DavisMeyerHash1 aes) ks vs" if "length ks = length vs" for ks vs
    using that by (induction ks vs rule: list_induct2) (simp_all add: DavisMeyerHash1_def)
  show ?case
  proof (cases "length keys < 8")
    case True
    then show ?thesis by (subst dm_batches.simps) simp
  next
    case False
    then have "dm_batches aes keys vals = map2 (DavisMeyerHash1 aes) (take 8 keys) (take 8 vals) @ map2 (DavisMeyerHash1 aes) (drop 8 keys) (drop 8 vals)"
      using 1 dm [of "take 8 keys" "take 8 vals"] by (subst dm_batches.simps) simp
    also have "\<dots> = map2 (DavisMeyerHash1 aes) (take 8 keys @ drop 8 keys) (take 8 vals @ drop 8 vals)"
      using "1.prems" by (subst zip_append) simp_all
    finally show ?thesis by simp
  qed
qed

definition oprf_final :: "OprfEnv \<Rightarrow> bool \<Rightarrow> 128 word \<Rightarrow> 128 word \<Rightarrow> 128 word" where
  "oprf_final env malicious v x = (if malicious then env_aes env v x XOR x else oprf_hash env v)"

lemma final_hash_map: "final_hash env malicious (map f inputs) inputs = Inr (map (\<lambda>x. oprf_final env malicious (f x) x) inputs)"
proof -
  have "map2 (DavisMeyerHash1 (env_aes env)) (map f inputs) inputs = map (\<lambda>x. env_aes env (f x) x XOR x) inputs"
    by (induction inputs) (simp_all add: DavisMeyerHash1_def)
  then show ?thesis by (simp add: final_hash_def DavisMeyerHash_def dm_batches_map hash_batches_map oprf_final_def)
qed

lemma recv_chunks_chunks:
  assumes "0 < k" "length v = cnt + length ys" "n = cnt + length ys"
  shows "recv_chunks n cnt (chunks k ys @ rest) v = Some (Inr (take cnt v @ ys, rest))"
  using assms
proof (induction k ys arbitrary: cnt v rule: chunks.induct)
  case (1 k xs)
  show ?case
  proof (cases "xs = []")
    case True
    then show ?thesis using "1.prems" by (subst chunks.simps, subst recv_chunks.simps) simp
  next
    case False
    let ?m = "take k xs" and ?ys = "drop k xs"
    let ?v = "take cnt v @ ?m @ drop (cnt + length ?m) v"
    have ne: "\<not> (xs = [] \<or> k = 0)" using False "1.prems"(1) by simp
    have len: "length ?v = cnt + length ?m + length ?ys" "n = cnt + length ?m + length ?ys" using "1.prems" by auto
    have "cnt < n" "cnt + length ?m \<le> n" using False "1.prems" by auto
    then have "recv_chunks n cnt (chunks k xs @ rest) v = recv_chunks n (cnt + length ?m) (chunks k ?ys @ rest) ?v"
      using ne by (subst chunks.simps, subst recv_chunks.simps) simp
    also have "\<dots> = Some (Inr (take (cnt + length ?m) ?v @ ?ys, rest))" by (rule "1.IH" [OF ne "1.prems"(1) len])
    also have "take (cnt + length ?m) ?v @ ?ys = take cnt v @ xs" using "1.prems"(2) by (simp add: min_def)
    finally show ?thesis .
  qed
qed

lemma RecvChunked_SendChunked: "RecvChunked (length xs) (SendChunked xs @ rest) = Some (Inr (xs, rest))"
  using recv_chunks_chunks [of kSendChunkSize "replicate (length xs) 0" 0 xs "length xs" rest] by (simp add: RecvChunked_def SendChunked_def kSendChunkSize_def)

section \<open>The correlation\<close>

definition vole_ok :: "bool \<Rightarrow> Vole \<Rightarrow> nat \<Rightarrow> bool" where
  "vole_ok avx2 vole n \<longleftrightarrow> length (vo_a vole n) = n \<and> length (vo_c vole n) = n \<and> vo_b vole n = axpy avx2 (vo_delta vole) (vo_c vole n) (vo_a vole n)"

lemma take_axpy: "take n (axpy avx2 d P Q) = axpy avx2 d (take n P) (take n Q)"
  by (simp add: axpy_def take_map take_zip)

lemma take_map2: "take n (map2 f xs ys) = map2 f (take n xs) (take n ys)"
  by (simp add: take_map take_zip)

lemma map2_take: "length xs \<le> length ys \<Longrightarrow> map2 f xs ys = map2 f xs (take (length xs) ys)"
  by (intro nth_equalityI) (simp_all add: min_def)

lemma Baxos_Decode_held:
  assumes "baxos_vec log2_ceil bx P" "length vs = length inputs"
  shows "Baxos_Decode log2_ceil avx2 threads bx inputs vs P = Inr (map (baxos_held avx2 bx P) inputs)"
  using ImplParDecode_ok [of "idx_type log2_ceil bx" bx P vs inputs] assms by (simp add: baxos_vec_def Baxos_Decode_def)

section \<open>Fast mode\<close>

definition fast_value :: "OprfEnv \<Rightarrow> bool \<Rightarrow> 128 word \<Rightarrow> Baxos \<Rightarrow> 128 word list \<Rightarrow> 128 word \<Rightarrow> 128 word" where
  "fast_value env malicious w bx C x = oprf_final env malicious (let v = baxos_held (env_avx2 env) bx C x in if malicious then v XOR w else v) x"

lemma RecvFast_ok:
  assumes bx: "ro_baxos r = Some bx" "baxos_good (env_log2_ceil env) bx xs" and C: "Baxos_size bx \<le> length (or_c r)" and A: "Baxos_size bx \<le> length (or_a r)"
    and ro: "ro_malicious r \<Longrightarrow> length (env_ro env ws) = 32"
    and sol: "Baxos_encode (env_log2_ceil env) (env_bin_size_of env) (ro_num_threads r) bx (env_avx2 env) xs (map (oprf_hash env) xs) = Some (Inr P)"
  shows "\<exists>r'. RecvFast env wr (env_ro env ws) ws xs r = Some (Inr (map (fast_value env (ro_malicious r) (wr XOR ws) bx (take (Baxos_size bx) (or_c r))) xs,
     SendChunked (map2 (XOR) P (take (Baxos_size bx) (or_a r))), r'))"
proof -
  let ?C = "take (Baxos_size bx) (or_c r)"
  have vec: "baxos_vec (env_log2_ceil env) bx ?C" using bx(2) C by (simp add: baxos_good_def baxos_vec_def)
  have lenP: "length P = Baxos_size bx" using bx.encode_holds [OF bx(2) _ sol] by (simp add: baxos_vec_def)
  have dec: "Baxos_Decode (env_log2_ceil env) (env_avx2 env) (ro_num_threads r) bx xs (map (oprf_hash env) xs) ?C = Inr (map (baxos_held (env_avx2 env) bx ?C) xs)"
    using Baxos_Decode_held [OF vec] by simp
  let ?v = "\<lambda>x. let v = baxos_held (env_avx2 env) bx ?C x in if ro_malicious r then v XOR (wr XOR ws) else v"
  have "(if ro_malicious r then map (\<lambda>v. v XOR (if ro_malicious r then wr XOR ws else 0)) (map (baxos_held (env_avx2 env) bx ?C) xs) else map (baxos_held (env_avx2 env) bx ?C) xs) = map ?v xs"
    by (simp add: Let_def comp_def)
  then have fin: "final_hash env (ro_malicious r) (if ro_malicious r then map (\<lambda>v. v XOR (if ro_malicious r then wr XOR ws else 0)) (map (baxos_held (env_avx2 env) bx ?C) xs)
      else map (baxos_held (env_avx2 env) bx ?C) xs) xs = Inr (map (fast_value env (ro_malicious r) (wr XOR ws) bx ?C) xs)"
    unfolding fast_value_def using final_hash_map [of env "ro_malicious r" ?v xs] by simp
  have mask: "mask_vector P (or_a r) = Inr (map2 (XOR) P (take (Baxos_size bx) (or_a r)))" using A lenP map2_take [of P "or_a r" "(XOR)"] by (simp add: mask_vector_def)
  have en: "\<not> ro_malicious r \<or> length (env_ro env ws) = 32" "\<not> ro_malicious r \<or> env_ro env ws = env_ro env ws" using ro by auto
  show ?thesis unfolding RecvFast_def using bx(1) C sol en mask dec
    by (simp add: obind_Some_Inr hash_batches_map Baxos_encode_def fin del: Let_def)
qed

lemma SendFast_ok:
  assumes s: "ro_mode s = FastMode" "ro_paxos_size s = length v" "length v \<le> length (os_b s)"
  shows "SendFast env ws wr (SendChunked v) ys s = Some (Inr (map (\<lambda>y. Galois128_Mul (env_avx2 env) (os_delta s) (oprf_hash env y)) ys,
     s \<lparr> ro_w := (if ro_malicious s then wr XOR ws else ro_w s), os_b := axpy (env_avx2 env) (os_delta s) (take (length v) (os_b s)) v @ drop (length v) (os_b s) \<rparr>))"
  using RecvChunked_SendChunked [of v "[]"] s by (simp add: SendFast_def HashInputMulDelta_def add_delta_def obind_Some_Inr Let_def)

lemma Eval_hash_ok:
  assumes s: "ro_mode s = FastMode" "ro_baxos s = Some bx" "ro_paxos_size s = Baxos_size bx" "Baxos_size bx \<le> length (os_b s)" "0 < length (os_b s)"
    and bx: "baxos_ok (idx_type (env_log2_ceil env) bx) bx"
  shows "Rr22OprfSender_Eval_hash env ys (map h ys) s = Inr (map (\<lambda>y. oprf_final env (ro_malicious s)
     (let v = baxos_held (env_avx2 env) bx (take (Baxos_size bx) (os_b s)) y XOR h y in if ro_malicious s then v XOR ro_w s else v) y) ys, s \<lparr> os_b := [] \<rparr>)"
proof -
  let ?B = "take (Baxos_size bx) (os_b s)"
  have "baxos_vec (env_log2_ceil env) bx ?B" using s bx by (simp add: baxos_vec_def)
  then have dec: "sender_decode env ys s = Inr (map (baxos_held (env_avx2 env) bx ?B) ys)" using s Baxos_Decode_held by (simp add: sender_decode_def)
  have "map2 f (map g ys) (map h ys) = map (\<lambda>y. f (g y) (h y)) ys" for f :: "128 word \<Rightarrow> 128 word \<Rightarrow> 128 word" and g by (induction ys) auto
  then show ?thesis using dec final_hash_map [of env "ro_malicious s"] by (simp add: Rr22OprfSender_Eval_hash_def)
qed

text \<open>What both parties start with: the same options, and a correlation for the size of the store.\<close>

definition oprf_pair :: "OprfEnv \<Rightarrow> Vole \<Rightarrow> Rr22OprfReceiver \<Rightarrow> Rr22OprfSender \<Rightarrow> bool" where
  "oprf_pair env vole r s \<longleftrightarrow> ro_mode s = ro_mode r \<and> ro_malicious s = ro_malicious r \<and> ro_bin_size s = ro_bin_size r \<and> ro_ssp s = ro_ssp r \<and>
     (ro_malicious r \<longrightarrow> (\<forall>w. length (env_ro env w) = 32)) \<and> (\<forall>n. vole_ok (env_avx2 env) vole n)"

text \<open>The value of the sender for any input; it differs from the receiver's value unless the store holds the hash of the input.\<close>

definition sender_value :: "OprfEnv \<Rightarrow> bool \<Rightarrow> 128 word \<Rightarrow> Baxos \<Rightarrow> 128 word \<Rightarrow> 128 word list \<Rightarrow> 128 word list \<Rightarrow> 128 word \<Rightarrow> 128 word" where
  "sender_value env malicious w bx d C P y = oprf_final env malicious
     (let v = baxos_held (env_avx2 env) bx C y XOR Galois128_Mul (env_avx2 env) d (baxos_held (env_avx2 env) bx P y XOR oprf_hash env y) in if malicious then v XOR w else v) y"

lemma Oprf_run_fast:
  assumes pair: "oprf_pair env vole r s" "ro_mode r = FastMode"
    and bx: "run_baxos env seed (length xs) (ro_bin_size r) (ro_ssp r) = Inr bx" "baxos_good (env_log2_ceil env) bx xs"
    and sol: "Baxos_encode (env_log2_ceil env) (env_bin_size_of env) tr bx (env_avx2 env) xs (map (oprf_hash env) xs) = Some (Inr P)"
  shows "Oprf_run env vole seed ws wr tr ts r s xs ys = Some (Inr
     (map (fast_value env (ro_malicious r) (wr XOR ws) bx (take (Baxos_size bx) (vo_c vole (max 256 (Baxos_size bx))))) xs,
      map (sender_value env (ro_malicious r) (wr XOR ws) bx (vo_delta vole) (take (Baxos_size bx) (vo_c vole (max 256 (Baxos_size bx)))) P) ys))"
proof -
  let ?n = "Baxos_size bx" and ?N = "max 256 (Baxos_size bx)" and ?d = "vo_delta vole" and ?avx = "env_avx2 env"
  let ?A = "take ?n (vo_a vole ?N)" and ?C = "take ?n (vo_c vole ?N)"
  let ?r = "r \<lparr> ro_num_threads := tr, ro_baxos := Some bx, ro_paxos_size := ?n, or_a := vo_a vole ?N, or_c := vo_c vole ?N \<rparr>"
  let ?s = "s \<lparr> ro_num_threads := ts, ro_baxos := Some bx, ro_paxos_size := ?n, os_b := vo_b vole ?N, os_delta := ?d \<rparr>"
  have V: "length (vo_a vole ?N) = ?N" "length (vo_c vole ?N) = ?N" "vo_b vole ?N = axpy ?avx ?d (vo_c vole ?N) (vo_a vole ?N)"
    using pair(1) by (auto simp: oprf_pair_def vole_ok_def)
  have init: "Rr22OprfReceiver_Init env vole seed (length xs) tr r = Inr ?r" "Rr22OprfSender_Init env vole seed (length xs) ts s = Inr ?s"
    using pair bx(1) by (simp_all add: Rr22OprfReceiver_Init_def Rr22OprfSender_Init_def oprf_pair_def)
  have hP: "baxos_vec (env_log2_ceil env) bx P" "map (baxos_held ?avx bx P) xs = map (oprf_hash env) xs" using bx.encode_holds [OF bx(2) _ sol] by auto
  have ok: "baxos_ok (idx_type (env_log2_ceil env) bx) bx" "length P = ?n" using hP(1) by (simp_all add: baxos_vec_def)
  have AC: "baxos_vec (env_log2_ceil env) bx ?A" "baxos_vec (env_log2_ceil env) bx ?C" using ok(1) V by (simp_all add: baxos_vec_def)
  let ?v = "map2 (XOR) P ?A"
  have lv: "length ?v = ?n" using ok(2) V(1) by simp
  obtain r' where recv: "RecvFast env wr (env_ro env ws) ws xs ?r = Some (Inr (map (fast_value env (ro_malicious r) (wr XOR ws) bx ?C) xs, SendChunked ?v, r'))"
    using RecvFast_ok [of ?r bx env xs ws P wr] bx(2) sol V pair(1) by (auto simp: oprf_pair_def)
  let ?b = "axpy ?avx ?d (take ?n (vo_b vole ?N)) ?v"
  let ?s' = "?s \<lparr> ro_w := (if ro_malicious s then wr XOR ws else ro_w s), os_b := ?b @ drop ?n (vo_b vole ?N) \<rparr>"
  have lb: "length (vo_b vole ?N) = ?N" using V by simp
  have send: "SendFast env ws wr (SendChunked ?v) ys ?s = Some (Inr (map (\<lambda>y. Galois128_Mul ?avx ?d (oprf_hash env y)) ys, ?s'))"
    using SendFast_ok [of ?s ?v env ws wr ys] lv lb pair by (simp add: oprf_pair_def)
  have tb: "take ?n (vo_b vole ?N) = axpy ?avx ?d ?C ?A" using V(3) by (simp add: take_axpy)
  have "?b = axpy ?avx ?d ?C P" unfolding tb using bx.masks_cancel [OF AC hP(1)] .
  then have held: "baxos_held ?avx bx (take ?n (os_b ?s')) y = baxos_held ?avx bx ?C y XOR Galois128_Mul ?avx ?d (baxos_held ?avx bx P y)" for y
    using baxos_held_axpy [OF AC(2) hP(1)] ok(2) V(2) by simp
  let ?h = "\<lambda>y. Galois128_Mul ?avx ?d (oprf_hash env y)"
  have E: "Rr22OprfSender_Eval_hash env ys (map ?h ys) ?s' = Inr (map (\<lambda>y. oprf_final env (ro_malicious ?s')
     (let v = baxos_held ?avx bx (take ?n (os_b ?s')) y XOR ?h y in if ro_malicious ?s' then v XOR ro_w ?s' else v) y) ys, ?s' \<lparr> os_b := [] \<rparr>)"
    by (rule Eval_hash_ok) (use pair ok lb lv in \<open>simp_all add: oprf_pair_def\<close>)
  have val: "(\<lambda>y. oprf_final env (ro_malicious ?s') (let v = baxos_held ?avx bx (take ?n (os_b ?s')) y XOR ?h y in if ro_malicious ?s' then v XOR ro_w ?s' else v) y) =
      sender_value env (ro_malicious r) (wr XOR ws) bx ?d ?C P"
    unfolding held sender_value_def gf.mul_xor xor.assoc using pair(1) by (simp add: oprf_pair_def Let_def fun_eq_iff)
  have "Rr22OprfSender_Eval_hash env ys (map ?h ys) ?s' = Inr (map (sender_value env (ro_malicious r) (wr XOR ws) bx ?d ?C P) ys, ?s' \<lparr> os_b := [] \<rparr>)"
    using E unfolding val .
  then show ?thesis using init recv send pair by (simp add: Oprf_run_def Oprf_exchange_def obind_Some_Inr)
qed

lemma sender_value_common:
  assumes "baxos_good (env_log2_ceil env) bx xs" "Baxos_encode (env_log2_ceil env) (env_bin_size_of env) tr bx (env_avx2 env) xs (map (oprf_hash env) xs) = Some (Inr P)" "x \<in> set xs"
  shows "sender_value env malicious w bx d C P x = fast_value env malicious w bx C x"
proof -
  have "map (baxos_held (env_avx2 env) bx P) xs = map (oprf_hash env) xs" using bx.encode_holds [OF assms(1) _ assms(2)] by auto
  then have "baxos_held (env_avx2 env) bx P x = oprf_hash env x" using assms(3) by simp
  then show ?thesis by (simp add: sender_value_def fast_value_def)
qed

section \<open>The parties agree\<close>

lemma Oprf_run_fast_error:
  assumes "oprf_pair env vole r s" "ro_mode r = FastMode" "run_baxos env seed (length xs) (ro_bin_size r) (ro_ssp r) = Inr bx"
    and "Baxos_encode (env_log2_ceil env) (env_bin_size_of env) tr bx (env_avx2 env) xs (map (oprf_hash env) xs) = Some (Inl e)"
  shows "Oprf_run env vole seed ws wr tr ts r s xs ys = Some (Inl e)"
  using assms by (simp add: Oprf_run_def Oprf_exchange_def Rr22OprfReceiver_Init_def Rr22OprfSender_Init_def oprf_pair_def obind_def RecvFast_def hash_batches_map Baxos_encode_def)

lemma fast_values_agree:
  assumes "oprf_pair env vole r s" "ro_mode r = FastMode" "run_baxos env seed (length xs) (ro_bin_size r) (ro_ssp r) = Inr bx" "baxos_good (env_log2_ceil env) bx xs"
  shows "\<exists>res. Oprf_run env vole seed ws wr tr ts r s xs ys = Some res \<and>
     (\<forall>os os'. res = Inr (os, os') \<longrightarrow> length os = length xs \<and> length os' = length ys \<and> (\<forall>i < length xs. \<forall>j < length ys. xs ! i = ys ! j \<longrightarrow> os ! i = os' ! j)) \<and>
     (\<forall>e. res = Inl e \<longrightarrow> Baxos_Solve (env_log2_ceil env) (env_avx2 env) (env_bin_size_of env) tr (\<lambda>_. None) xs (map (oprf_hash env) xs) (replicate (Baxos_size bx) 0) bx = Some (Inl e))"
proof -
  let ?enc = "Baxos_encode (env_log2_ceil env) (env_bin_size_of env) tr bx (env_avx2 env) xs (map (oprf_hash env) xs)"
  obtain e where e: "?enc = Some e" using bx.encode_ends [OF assms(4)] by (metis length_map)
  show ?thesis
  proof (cases e)
    case (Inl err)
    then show ?thesis using Oprf_run_fast_error [OF assms(1-3), of tr err] e by (simp add: Baxos_encode_def)
  next
    case (Inr P)
    then have sol: "?enc = Some (Inr P)" using e by simp
    have "sender_value env m w bx d C P (ys ! j) = fast_value env m w bx C (xs ! i)" if "xs ! i = ys ! j" "i < length xs" for i j m w d C
      using sender_value_common [OF assms(4) sol nth_mem [OF that(2)]] that(1) by simp
    then show ?thesis using Oprf_run_fast [OF assms sol] by auto
  qed
qed

lemma fast_values_function:
  assumes "oprf_pair env vole r s" "ro_mode r = FastMode" "run_baxos env seed (length xs) (ro_bin_size r) (ro_ssp r) = Inr bx" "baxos_good (env_log2_ceil env) bx xs"
    and "Oprf_run env vole seed ws wr tr ts r s xs ys = Some (Inr (os, os'))"
  shows "\<exists>f g. os = map f xs \<and> os' = map g ys"
proof -
  let ?enc = "Baxos_encode (env_log2_ceil env) (env_bin_size_of env) tr bx (env_avx2 env) xs (map (oprf_hash env) xs)"
  obtain e where e: "?enc = Some e" using bx.encode_ends [OF assms(4)] by (metis length_map)
  show ?thesis
  proof (cases e)
    case (Inl err)
    then show ?thesis using Oprf_run_fast_error [OF assms(1-3), of tr err] e assms(5) by simp
  next
    case (Inr P)
    then show ?thesis using Oprf_run_fast [OF assms(1-4), of tr P] e assms(5) by auto
  qed
qed

text \<open>
  C16. The oblivious evaluation in fast mode, with and without malicious security, for any number of threads on both sides: the run of both parties ends; it gives both
  parties one value for each of their inputs, which is a function of the input alone, and a common input has the same value on both sides. It can only fail where the key-value store of the receiver's
  inputs cannot be solved.
\<close>

theorem Rr22Oprf_fast_agree:
  assumes "oprf_pair env vole r s" "ro_mode r = FastMode" "run_baxos env seed (length xs) (ro_bin_size r) (ro_ssp r) = Inr bx" "baxos_good (env_log2_ceil env) bx xs"
  shows "\<exists>res. Oprf_run env vole seed ws wr tr ts r s xs ys = Some res \<and>
     (\<forall>os os'. res = Inr (os, os') \<longrightarrow> length os = length xs \<and> length os' = length ys \<and> (\<forall>i < length xs. \<forall>j < length ys. xs ! i = ys ! j \<longrightarrow> os ! i = os' ! j) \<and>
        (\<exists>f g. os = map f xs \<and> os' = map g ys)) \<and>
     (\<forall>e. res = Inl e \<longrightarrow> Baxos_Solve (env_log2_ceil env) (env_avx2 env) (env_bin_size_of env) tr (\<lambda>_. None) xs (map (oprf_hash env) xs) (replicate (Baxos_size bx) 0) bx = Some (Inl e))"
proof -
  obtain res where res: "Oprf_run env vole seed ws wr tr ts r s xs ys = Some res"
    "\<forall>os os'. res = Inr (os, os') \<longrightarrow> length os = length xs \<and> length os' = length ys \<and> (\<forall>i < length xs. \<forall>j < length ys. xs ! i = ys ! j \<longrightarrow> os ! i = os' ! j)"
    "\<forall>e. res = Inl e \<longrightarrow> Baxos_Solve (env_log2_ceil env) (env_avx2 env) (env_bin_size_of env) tr (\<lambda>_. None) xs (map (oprf_hash env) xs) (replicate (Baxos_size bx) 0) bx = Some (Inl e)"
    using fast_values_agree [OF assms, of ws wr tr ts ys] by blast
  moreover have "\<exists>f g. os = map f xs \<and> os' = map g ys" if "res = Inr (os, os')" for os os'
    using fast_values_function [OF assms] res(1) that by blast
  ultimately show ?thesis by blast
qed

text \<open>An environment with a toy block cipher, and the correlation for tests with constant vectors.\<close>

definition toy_env :: OprfEnv where
  "toy_env = \<lparr> env_aes = (\<lambda>_ _. 0), env_avx2 = True, env_ro = (\<lambda>_. replicate 32 0), env_log2_ceil = log2_up, env_bin_size_of = (\<lambda>_ _ _. 4),
     env_param_of = (\<lambda>_ _ _ dt. small_param \<lparr> px_dt := dt \<rparr>), env_bin_ssp = (\<lambda>_ _. 40) \<rparr>"

definition toy_vole :: Vole where
  "toy_vole = \<lparr> vo_delta = 77, vo_a = (\<lambda>n. fst (MocVole_Recv (\<lambda>_ n. replicate n 5) (\<lambda>_ n. replicate n 6) 0 n)), vo_a64 = (\<lambda>n. fst (MocVole_RecvF64 (\<lambda>_ n. replicate n 5) (\<lambda>_ n. replicate n 6) 0 n)),
     vo_b = MocVole_Send True (\<lambda>_ n. replicate n 5) (\<lambda>_ n. replicate n 6) 77 0, vo_c = (\<lambda>n. snd (MocVole_Recv (\<lambda>_ n. replicate n 5) (\<lambda>_ n. replicate n 6) 0 n)) \<rparr>"

lemma Moc_vole_ok:
  assumes "\<And>n. length (fill1 seed n) = n" "\<And>n. length (fill2 seed n) = n"
    and "vo_delta v = delta" "vo_a v n = fst (MocVole_Recv fill1 fill2 seed n)" "vo_c v n = snd (MocVole_Recv fill1 fill2 seed n)" "vo_b v n = MocVole_Send avx2 fill1 fill2 delta seed n"
  shows "vole_ok avx2 v n"
  using assms by (auto simp: vole_ok_def MocVole_Recv_def MocVole_Send_def axpy_def intro!: nth_equalityI)

definition toy_receiver :: Rr22OprfReceiver where
  "toy_receiver = (case Rr22OprfReceiver_new 2 40 FastMode True of Inr r \<Rightarrow> r)"

definition toy_sender :: Rr22OprfSender where
  "toy_sender = (case Rr22OprfSender_new 2 40 FastMode True of Inr s \<Rightarrow> s)"

lemma toy_solved:
  "Baxos_Solve log2_up True (\<lambda>_ _ _. 4) 2 (\<lambda>_. None) [1, 2, 3, 4] [1, 2, 3, 4] (replicate (Baxos_size small_baxos) 0) small_baxos =
     Some (Inr [0, 2, 0, 0, 6, 0, 0, 0, 0, 0, 1, 0, 2, 0, 0, 0, 0, 0])"
  by code_simp

theorem Rr22Oprf_fast_agree_witness:
  "\<exists>os os'. Oprf_run toy_env toy_vole 1 2 3 2 3 toy_receiver toy_sender [1, 2, 3, 4] [4, 9] = Some (Inr (os, os')) \<and> length os = 4 \<and> length os' = 2 \<and> os ! 3 = os' ! 0"
proof -
  have p: "oprf_pair toy_env toy_vole toy_receiver toy_sender"
    using Moc_vole_ok [of "\<lambda>_ n. replicate n 5" 0 "\<lambda>_ n. replicate n 6" toy_vole 77]
    by (simp add: oprf_pair_def toy_receiver_def toy_sender_def Rr22OprfReceiver_new_def Rr22OprfSender_new_def toy_vole_def toy_env_def)
  have m: "ro_mode toy_receiver = FastMode" "ro_bin_size toy_receiver = 2" "ro_ssp toy_receiver = 40" by (simp_all add: toy_receiver_def Rr22OprfReceiver_new_def)
  have b: "run_baxos toy_env 1 (length [1, 2, 3, 4 :: 128 word]) 2 40 = Inr small_baxos"
    by (simp add: run_baxos_def toy_env_def Baxos_Init_def small_baxos_def kPaxosWeight_def small_param_def)
  have g: "baxos_good (env_log2_ceil toy_env) small_baxos [1, 2, 3, 4]" using small_baxos_good by (simp add: toy_env_def)
  have "map (oprf_hash toy_env) [1, 2, 3, 4] = [1, 2, 3, 4]" by (simp add: toy_env_def AesCrHash_Hash_def)
  then have "Baxos_Solve (env_log2_ceil toy_env) (env_avx2 toy_env) (env_bin_size_of toy_env) 2 (\<lambda>_. None) [1, 2, 3, 4] (map (oprf_hash toy_env) [1, 2, 3, 4])
      (replicate (Baxos_size small_baxos) 0) small_baxos \<noteq> Some (Inl e)" for e using toy_solved by (simp add: toy_env_def)
  then have solves: "\<not> (Baxos_Solve (env_log2_ceil toy_env) (env_avx2 toy_env) (env_bin_size_of toy_env) 2 (\<lambda>_. None) [1, 2, 3, 4] (map (oprf_hash toy_env) [1, 2, 3, 4])
      (replicate (Baxos_size small_baxos) 0) small_baxos = Some (Inl e))" for e by blast
  obtain res where res: "Oprf_run toy_env toy_vole 1 2 3 2 3 toy_receiver toy_sender [1, 2, 3, 4] [4, 9] = Some res"
    "\<forall>os os'. res = Inr (os, os') \<longrightarrow> length os = length [1, 2, 3, 4 :: 128 word] \<and> length os' = length [4, 9 :: 128 word] \<and>
       (\<forall>i < length [1, 2, 3, 4 :: 128 word]. \<forall>j < length [4, 9 :: 128 word]. [1, 2, 3, 4 :: 128 word] ! i = [4, 9] ! j \<longrightarrow> os ! i = os' ! j) \<and> (\<exists>f g. os = map f [1, 2, 3, 4 :: 128 word] \<and> os' = map g [4, 9 :: 128 word])"
    "\<forall>e. res = Inl e \<longrightarrow> Baxos_Solve (env_log2_ceil toy_env) (env_avx2 toy_env) (env_bin_size_of toy_env) 2 (\<lambda>_. None) [1, 2, 3, 4] (map (oprf_hash toy_env) [1, 2, 3, 4])
      (replicate (Baxos_size small_baxos) 0) small_baxos = Some (Inl e)"
    using Rr22Oprf_fast_agree [OF p m(1) b [folded m(2,3)] g, of 2 3 2 3 "[4, 9]"] by (elim exE conjE) (rule that, assumption+)
  obtain os os' where o: "res = Inr (os, os')"
  proof (cases res)
    case (Inl e)
    then show ?thesis using res(3) solves by blast
  qed (metis surj_pair)
  have "length os = 4" "length os' = 2" using res(2) [rule_format, OF o] by simp_all
  moreover have "os ! 3 = os' ! 0" using res(2) [rule_format, OF o, THEN conjunct2, THEN conjunct2, THEN conjunct1, rule_format, of 3 0] by simp
  ultimately show ?thesis using res(1) unfolding o by blast
qed

text \<open>
  The two overloads of \<open>Eval\<close> agree: computing the products of the hashes with \<open>delta\<close> beforehand, as \<open>Send\<close> does while it waits for the receiver, gives the
  values that \<open>Eval\<close> computes on its own, in both modes, errors included.
\<close>

theorem Eval_equiv:
  assumes "ro_malicious s \<longrightarrow> ro_mode s = FastMode"
  shows "Rr22OprfSender_Eval_hash env inputs (HashInputMulDelta env inputs s) s = Rr22OprfSender_Eval env inputs s"
proof -
  have "map2 f outputs (map g inputs) = map2 (\<lambda>v x. f v (g x)) outputs inputs" for f :: "128 word \<Rightarrow> 128 word \<Rightarrow> 128 word" and g outputs
    by (simp add: zip_map2 case_prod_beta')
  then show ?thesis
    using assms by (cases "ro_mode s") (simp_all add: Rr22OprfSender_Eval_hash_def Rr22OprfSender_Eval_def HashInputMulDelta_def)
qed

theorem Eval_equiv_witness:
  "\<exists>s. ro_malicious s \<and> Rr22OprfSender_Eval_hash toy_env [1] (HashInputMulDelta toy_env [1] s) s = Rr22OprfSender_Eval toy_env [1] s"
  using Eval_equiv [of toy_sender toy_env "[1]"] by (intro exI [of _ toy_sender]) (simp add: toy_sender_def Rr22OprfSender_new_def)

end
