(* ===== verification/Rr22_Oprf_Low.thy ===== *)
theory Rr22_Oprf_Low
  imports Rr22_Oprf_Fast
begin

text \<open>
  The oblivious evaluation in low-communication mode, which encodes 64-bit values in one \<open>Paxos\<close> with dense columns of bits. The value of an input depends on
  its place: the last inputs, fewer than 32, are decoded one by one, the others in blocks of 32, which take other bits of the hash. A common input that is in a
  block of one party and not in a block of the other gets different values.
\<close>

section \<open>What is kept of a store\<close>

lemma SetInput_keeps:
  assumes "Paxos_SetInput avx2 keys p = Inr p'"
  shows "px_hasher p' = px_hasher p" "px_add_to_decode p' = px_add_to_decode p"
  using assms by (auto simp: Paxos_SetInput_def RebuildColumns_def rbind_eq_Inr_iff split: prod.splits)

lemma EncodeU64_Encode: "px_dt p = Binary \<Longrightarrow> EncodeU64 avx2 owns rnd X P p = Encode avx2 owns rnd X P p"
  by (simp add: EncodeU64_def Encode_def BackfillU64_def BackfillBinaryU64_def Backfill_def obind_def cong: option.case_cong sum.case_cong)

lemma Encode_keeps: "Encode avx2 owns rnd X P p = Some (Inr (P', p')) \<Longrightarrow> \<exists>wd. p' = p \<lparr> px_weight_sets := wd \<rparr>"
  by (auto simp: Encode_def obind_def split: option.splits sum.splits)

section \<open>Embedding of 64-bit values\<close>

lemma ucast_xorl: "(ucast (xorl (map f xs)) :: 128 word) = xorl (map (\<lambda>x. ucast (f x :: 64 word)) xs)"
  by (intro xor_linear_xorl) (simp add: xor_linear_def unsigned_xor_eq)

lemma row_value_ucast:
  fixes P :: "64 word list"
  assumes "px_dt p = Binary" "row_ok (px_weight p) (sparse_size p) row" "length P = px_size p"
  shows "row_value avx2 p row e (map ucast P) = (ucast (row_value avx2 p row e P) :: 128 word)"
proof -
  have "map ucast P ! c = (ucast (P ! c) :: 128 word)" if "c < px_size p" for c using that assms(3) by simp
  moreover have "c < px_size p" if "c \<in> set row" for c using that assms(2) by (auto simp: row_ok_def px_size_def)
  ultimately have 1: "sparse_sum row (map ucast P) = (ucast (sparse_sum row P) :: 128 word)"
    unfolding sparse_sum_def ucast_xorl by (intro xorl_cong) simp
  have 2: "dense_sum avx2 p e (map ucast P) = (ucast (dense_sum avx2 p e P) :: 128 word)"
    using assms(1,3) by (simp add: dense_sum_def ucast_xorl sel_def px_size_def) (intro xorl_cong, simp)
  show ?thesis by (simp add: row_value_def 1 2 unsigned_xor_eq)
qed

section \<open>The values\<close>

text \<open>The value that the vector gives to the input at place \<open>i\<close> of \<open>n\<close>.\<close>

definition place_value :: "bool \<Rightarrow> Paxos \<Rightarrow> 'a::len word list \<Rightarrow> nat \<Rightarrow> nat \<Rightarrow> 128 word \<Rightarrow> 'a word" where
  "place_value avx2 p P n i x = (if i < n div kPaxosBuildRowSize * kPaxosBuildRowSize then block_value avx2 p P x else held avx2 p P x)"

lemma Decode_place:
  fixes P :: "'a::len word list"
  assumes "table_ok p" "length P = px_size p" "LENGTH('a) \<le> 128" "length vs = length inputs"
  shows "Decode avx2 p inputs vs P = Inr (map (\<lambda>i. place_value avx2 p P (length inputs) i (inputs ! i)) [0..<length inputs])"
proof -
  let ?m = "length inputs div kPaxosBuildRowSize * kPaxosBuildRowSize"
  have "?m \<le> length inputs" by (simp add: div_times_less_eq_dividend)
  then have "map (block_value avx2 p P) (take ?m inputs) @ map (held avx2 p P) (drop ?m inputs) = map (\<lambda>i. place_value avx2 p P (length inputs) i (inputs ! i)) [0..<length inputs]"
    by (intro nth_equalityI) (auto simp: place_value_def nth_append)
  then show ?thesis using Decode_positions [OF assms] by simp
qed

lemma place_value_axpy:
  assumes "table_ok p" "length P = px_size p" "length Q = px_size p"
  shows "place_value avx2 p (axpy avx2 d P Q) n i x = place_value avx2 p P n i x XOR Galois128_Mul avx2 d (place_value avx2 p Q n i x)"
  using row_value_axpy [OF key_row_ok [OF assms(1)] assms(2,3)] by (simp add: place_value_def held_def block_value_def Let_def)

lemma place_value_ucast:
  fixes P :: "64 word list"
  assumes "table_ok p" "px_dt p = Binary" "length P = px_size p"
  shows "place_value avx2 p (map ucast P) n i x = (ucast (place_value avx2 p P n i x) :: 128 word)"
  using row_value_ucast [OF assms(2) key_row_ok [OF assms(1)] assms(3)] by (simp add: place_value_def held_def block_value_def Let_def)

lemma place_value_cong:
  assumes "PaxosParam.truncate p = PaxosParam.truncate q" "px_hasher p = px_hasher q"
  shows "place_value avx2 p P n i x = place_value avx2 q P n i x"
proof -
  have "sparse_size p = sparse_size q" "dense_size p = dense_size q" "px_dt p = px_dt q" using assms(1) by (auto simp: PaxosParam.truncate_def)
  then show ?thesis using assms(2) by (simp add: place_value_def held_def block_value_def row_value_def dense_sum_def Let_def)
qed

section \<open>The receiver\<close>

definition low_good :: "OprfEnv \<Rightarrow> 128 word \<Rightarrow> PaxosParam \<Rightarrow> 128 word list \<Rightarrow> bool" where
  "low_good env seed par xs \<longleftrightarrow> keys_ok (env_aes env seed) par xs \<and> sizes_ok 32 par \<and> param_ok TYPE(64) par \<and> px_dt par = Binary"

abbreviation low_store :: "OprfEnv \<Rightarrow> 128 word \<Rightarrow> PaxosParam \<Rightarrow> nat \<Rightarrow> Paxos" where
  "low_store env seed par n \<equiv> fresh_paxos (env_aes env seed) par n"

text \<open>The part of the receiver that can fail: solving the store.\<close>

definition low_encode :: "OprfEnv \<Rightarrow> 128 word \<Rightarrow> PaxosParam \<Rightarrow> 128 word list \<Rightarrow> (64 word list \<times> Paxos) result option" where
  "low_encode env seed par xs =
     obind (Some (Paxos_SetInput (env_avx2 env) xs (low_store env seed par (length xs)))) (\<lambda>p.
     EncodeU64 (env_avx2 env) False None (map low64 (map (oprf_hash env) xs)) (replicate (px_size p) 0) p)"

lemma low_encode_ok:
  assumes good: "low_good env seed par xs"
  defines "p \<equiv> low_store env seed par (length xs)"
  shows "\<exists>e. low_encode env seed par xs = Some e \<and> (\<forall>P p'. e = Inr (P, p') \<longrightarrow> length P = px_size par \<and> map (held (env_avx2 env) p P) xs = map (low64 \<circ> oprf_hash env) xs \<and>
     PaxosParam.truncate p' = PaxosParam.truncate p \<and> px_hasher p' = px_hasher p \<and> table_ok p')"
proof -
  let ?avx = "env_avx2 env" and ?enc = "env_aes env seed" and ?X = "map low64 (map (oprf_hash env) xs)"
  have g: "keys_ok ?enc par xs" "sizes_ok 32 par" "param_ok TYPE(64) par" "px_dt par = Binary" using good by (simp_all add: low_good_def)
  have kp: "keys_ok ?enc p xs" "px_hasher p = hasher_of ?enc p" "px_num_items p = length xs" using g(1) by (simp_all add: p_def keys_ok_def)
  obtain p1 where p1: "Paxos_SetInput ?avx xs p = Inr p1" "with_keys p1 ?enc p xs" using SetInput_ok [OF kp] by blast
  have wk: "with_keys p1 ?enc par xs" using p1(2) by (simp add: p_def with_keys_def PaxosParam.truncate_def)
  have t1: "PaxosParam.truncate p1 = PaxosParam.truncate p" using p1(2) by (simp add: with_keys_def)
  have sz: "px_size p1 = px_size par" "px_dt p1 = Binary" using wk g(4) by (auto simp: with_keys_def PaxosParam.truncate_def px_size_def)
  obtain e where e: "Encode ?avx False None ?X (replicate (px_size par) 0) p1 = Some e"
    "\<forall>P p'. e = Inr (P, p') \<longrightarrow> length P = px_size par \<and> map (store_held ?avx ?enc par P) xs = ?X"
    using Encode_held [OF g(1,3) _ wk, of ?X ?avx False] by auto
  have enc: "low_encode env seed par xs = Some e" using p1(1) e(1) sz by (simp add: low_encode_def obind_Some_Inr EncodeU64_Encode p_def)
  have held: "store_held ?avx ?enc par P x = held ?avx p P x" for P :: "64 word list" and x
    unfolding store_held_def p_def by (simp add: held_def row_value_def dense_sum_def)
  have tp: "table_ok p" unfolding p_def by (rule fresh_table_ok [OF g(2)]) (use g(3) in \<open>simp add: param_ok_def\<close>)
  have "PaxosParam.truncate p2 = PaxosParam.truncate p \<and> px_hasher p2 = px_hasher p \<and> table_ok p2" if eq: "e = Inr (P, p2)" for P p2
  proof -
    obtain wd where p2: "p2 = p1 \<lparr> px_weight_sets := wd \<rparr>" using Encode_keeps e(1) eq by blast
    have h2: "px_hasher p2 = px_hasher p" "px_add_to_decode p2 = px_add_to_decode p" using p2 SetInput_keeps [OF p1(1)] by simp_all
    moreover have "PaxosParam.truncate p2 = PaxosParam.truncate p" using t1 p2 by (simp add: PaxosParam.truncate_def)
    ultimately show ?thesis using tp by (auto simp: table_ok_def dense_ok_def PaxosParam.truncate_def)
  qed
  then show ?thesis using enc e(2) held by (auto simp: comp_def)
qed

lemma RecvLowComm_ok:
  assumes good: "low_good env seed par xs" and r: "ro_paxos r = low_store env seed par (length xs)" and C: "px_size par \<le> length (or_c r)" and A: "px_size par \<le> length (or_a64 r)"
    and sol: "low_encode env seed par xs = Some (Inr (P, p'))"
  shows "\<exists>r'. RecvLowComm env xs r =
     Some (Inr (map (\<lambda>i. oprf_hash env (place_value (env_avx2 env) (low_store env seed par (length xs)) (take (px_size par) (or_c r)) (length xs) i (xs ! i))) [0..<length xs],
       SendChunked (map2 (XOR) P (take (px_size par) (or_a64 r))), r'))"
proof -
  let ?avx = "env_avx2 env" and ?p = "low_store env seed par (length xs)" and ?C = "take (px_size par) (or_c r)"
  have E: "length P = px_size par" "PaxosParam.truncate p' = PaxosParam.truncate ?p" "px_hasher p' = px_hasher ?p" "table_ok p'" using low_encode_ok [OF good] sol by auto
  have s2: "px_size p' = px_size par" using E(2) by (simp add: PaxosParam.truncate_def px_size_def)
  obtain p1 where p1: "Paxos_SetInput ?avx xs ?p = Inr p1" "EncodeU64 ?avx False None (map low64 (map (oprf_hash env) xs)) (replicate (px_size p1) 0) p1 = Some (Inr (P, p'))"
    using sol by (auto simp: low_encode_def obind_def split: sum.splits)
  have dec: "Decode ?avx p' xs (map (oprf_hash env) xs) ?C = Inr (map (\<lambda>i. place_value ?avx ?p ?C (length xs) i (xs ! i)) [0..<length xs])"
    using Decode_place [OF E(4), of ?C "map (oprf_hash env) xs" xs ?avx] C s2 place_value_cong [OF E(2,3), of ?avx ?C] by simp
  have mask: "mask_vector P (or_a64 r) = Inr (map2 (XOR) P (take (px_size par) (or_a64 r)))" using A E(1) map2_take [of P "or_a64 r" "(XOR)"] by (simp add: mask_vector_def)
  show ?thesis using p1 r C s2 dec mask by (simp add: RecvLowComm_def obind_Some_Inr hash_batches_map comp_def)
qed

lemma RecvLowComm_error:
  assumes "ro_paxos r = low_store env seed par (length xs)" "low_encode env seed par xs = Some (Inl e)"
  shows "RecvLowComm env xs r = Some (Inl e)"
  using assms by (auto simp: RecvLowComm_def low_encode_def obind_def split: sum.splits)

section \<open>Both parties\<close>

definition vole64_ok :: "bool \<Rightarrow> Vole \<Rightarrow> nat \<Rightarrow> bool" where
  "vole64_ok avx2 vole n \<longleftrightarrow> length (vo_a64 vole n) = n \<and> length (vo_c vole n) = n \<and> vo_b vole n = axpy avx2 (vo_delta vole) (vo_c vole n) (map ucast (vo_a64 vole n))"

definition low_pair :: "OprfEnv \<Rightarrow> Vole \<Rightarrow> Rr22OprfReceiver \<Rightarrow> Rr22OprfSender \<Rightarrow> bool" where
  "low_pair env vole r s \<longleftrightarrow> ro_mode s = LowCommMode \<and> ro_mode r = LowCommMode \<and> \<not> ro_malicious s \<and> \<not> ro_malicious r \<and> ro_ssp s = ro_ssp r \<and>
     ro_paxos s = Paxos_new \<and> ro_paxos r = Paxos_new \<and> (\<forall>n. vole64_ok (env_avx2 env) vole n)"

lemma Eval_low_ok:
  assumes s: "ro_mode s = LowCommMode" "\<not> ro_malicious s" "table_ok (ro_paxos s)" "ro_paxos_size s = px_size (ro_paxos s)" "px_size (ro_paxos s) \<le> length (os_b s)" "0 < length (os_b s)"
  shows "Rr22OprfSender_Eval_hash env ys (map h ys) s = Inr (map (\<lambda>j. oprf_hash env
     (place_value (env_avx2 env) (ro_paxos s) (take (px_size (ro_paxos s)) (os_b s)) (length ys) j (ys ! j) XOR h (ys ! j))) [0..<length ys], s \<lparr> os_b := [] \<rparr>)"
proof -
  let ?v = "\<lambda>j. place_value (env_avx2 env) (ro_paxos s) (take (px_size (ro_paxos s)) (os_b s)) (length ys) j (ys ! j)"
  have "sender_decode env ys s = Inr (map ?v [0..<length ys])"
    using s Decode_place [OF s(3), of "take (px_size (ro_paxos s)) (os_b s)" "replicate (length ys) 0" ys "env_avx2 env"] by (simp add: sender_decode_def)
  moreover have "map (oprf_hash env) (map2 (XOR) (map ?v [0..<length ys]) (map h ys)) = map (\<lambda>j. oprf_hash env (?v j XOR h (ys ! j))) [0..<length ys]" by (intro nth_equalityI) auto
  ultimately show ?thesis using s(2) by (simp add: Rr22OprfSender_Eval_hash_def final_hash_def hash_batches_map del: map_map)
qed

text \<open>The values of the two parties, by the place of the input.\<close>

definition low_values :: "OprfEnv \<Rightarrow> Paxos \<Rightarrow> 128 word list \<Rightarrow> 128 word list \<Rightarrow> 128 word list" where
  "low_values env p C xs = map (\<lambda>i. oprf_hash env (place_value (env_avx2 env) p C (length xs) i (xs ! i))) [0..<length xs]"

definition low_sender_values :: "OprfEnv \<Rightarrow> Paxos \<Rightarrow> 128 word \<Rightarrow> 128 word list \<Rightarrow> 64 word list \<Rightarrow> 128 word list \<Rightarrow> 128 word list" where
  "low_sender_values env p d C P ys = map (\<lambda>j. oprf_hash env (place_value (env_avx2 env) p C (length ys) j (ys ! j) XOR
     Galois128_Mul (env_avx2 env) d (ucast (place_value (env_avx2 env) p P (length ys) j (ys ! j) XOR low64 (oprf_hash env (ys ! j)))))) [0..<length ys]"

lemma low_init:
  assumes pair: "low_pair env vole r s" and par: "par = env_param_of env (length xs) kPaxosWeight (ro_ssp r) Binary" and good: "low_good env seed par xs"
  defines "p \<equiv> low_store env seed par (length xs)"
  shows "Rr22OprfReceiver_Init env vole seed (length xs) tr r = Inr (r \<lparr> ro_num_threads := tr, ro_paxos := p, ro_paxos_size := px_size par,
       or_a64 := vo_a64 vole (max 256 (px_size par)), or_c := vo_c vole (max 256 (px_size par)) \<rparr>)"
    and "Rr22OprfSender_Init env vole seed (length xs) ts s = Inr (s \<lparr> ro_num_threads := ts, ro_paxos := p, ro_paxos_size := px_size par,
       os_b := vo_b vole (max 256 (px_size par)), os_delta := vo_delta vole \<rparr>)"
proof -
  have g: "keys_ok (env_aes env seed) par xs" "sizes_ok 32 par" using good by (simp_all add: low_good_def)
  have "length xs \<le> sparse_size par" using g(1) by (simp add: keys_ok_def)
  then have "Paxos_Init 32 (env_aes env seed) (length xs) par Paxos_new = Inr p" unfolding p_def by (rule Paxos_Init_ok [OF g(2)])
  moreover have "px_size p = px_size par" by (simp add: p_def)
  ultimately show "Rr22OprfReceiver_Init env vole seed (length xs) tr r = Inr (r \<lparr> ro_num_threads := tr, ro_paxos := p, ro_paxos_size := px_size par,
       or_a64 := vo_a64 vole (max 256 (px_size par)), or_c := vo_c vole (max 256 (px_size par)) \<rparr>)"
    "Rr22OprfSender_Init env vole seed (length xs) ts s = Inr (s \<lparr> ro_num_threads := ts, ro_paxos := p, ro_paxos_size := px_size par,
       os_b := vo_b vole (max 256 (px_size par)), os_delta := vo_delta vole \<rparr>)"
    using pair by (simp_all add: Rr22OprfReceiver_Init_def Rr22OprfSender_Init_def low_pair_def run_paxos_def par)
qed

lemma Oprf_run_low:
  assumes pair: "low_pair env vole r s" and par: "par = env_param_of env (length xs) kPaxosWeight (ro_ssp r) Binary" and good: "low_good env seed par xs"
    and sol: "low_encode env seed par xs = Some (Inr (P, p'))"
  defines "p \<equiv> low_store env seed par (length xs)" and "C \<equiv> take (px_size par) (vo_c vole (max 256 (px_size par)))"
  shows "Oprf_run env vole seed ws wr tr ts r s xs ys = Some (Inr (low_values env p C xs, low_sender_values env p (vo_delta vole) C P ys))"
proof -
  let ?n = "px_size par" and ?N = "max 256 (px_size par)" and ?d = "vo_delta vole" and ?avx = "env_avx2 env"
  let ?A = "take ?n (vo_a64 vole ?N)"
  let ?r = "r \<lparr> ro_num_threads := tr, ro_paxos := p, ro_paxos_size := ?n, or_a64 := vo_a64 vole ?N, or_c := vo_c vole ?N \<rparr>"
  let ?s = "s \<lparr> ro_num_threads := ts, ro_paxos := p, ro_paxos_size := ?n, os_b := vo_b vole ?N, os_delta := ?d \<rparr>"
  have g: "sizes_ok 32 par" "param_ok TYPE(64) par" "px_dt par = Binary" using good by (simp_all add: low_good_def)
  have V: "length (vo_a64 vole ?N) = ?N" "length (vo_c vole ?N) = ?N" "vo_b vole ?N = axpy ?avx ?d (vo_c vole ?N) (map ucast (vo_a64 vole ?N))"
    using pair by (auto simp: low_pair_def vole64_ok_def)
  note init = low_init [OF pair par good, folded p_def]
  have psz: "px_size p = ?n" by (simp add: p_def)
  have lP: "length P = ?n" using low_encode_ok [OF good] sol by auto
  let ?v = "map2 (XOR) P ?A"
  obtain r' where recv: "RecvLowComm env xs ?r = Some (Inr (low_values env p C xs, SendChunked ?v, r'))"
    using RecvLowComm_ok [OF good _ _ _ sol, of ?r] V unfolding p_def C_def low_values_def by auto
  have lv: "length ?v = ?n" using lP V(1) by simp
  let ?b = "axpy ?avx ?d (take ?n (vo_b vole ?N)) (map ucast ?v)"
  let ?s' = "?s \<lparr> os_b := ?b @ drop ?n (vo_b vole ?N) \<rparr>" and ?h = "\<lambda>y. Galois128_Mul ?avx ?d (ucast (low64 (oprf_hash env y)))"
  have lb: "length (vo_b vole ?N) = ?N" using V by simp
  have send: "SendLowComm env (SendChunked ?v) ys ?s = Some (Inr (map ?h ys, ?s'))"
    using RecvChunked_SendChunked [of ?v "[]"] lv lb pair by (simp add: SendLowComm_def HashInputMulDelta_def add_delta_def obind_Some_Inr Let_def low_pair_def)
  have "map ucast ?v = map2 (XOR) (map ucast P) (map ucast ?A :: 128 word list)" by (intro nth_equalityI) (auto simp: unsigned_xor_eq)
  moreover have "take ?n (vo_b vole ?N) = axpy ?avx ?d C (map ucast ?A)" using V(3) by (simp add: take_axpy C_def take_map)
  moreover have lC: "length C = ?n" using V(2) by (simp add: C_def)
  ultimately have b: "?b = axpy ?avx ?d C (map ucast P)" using axpy_cancel [of "map ucast ?A" C "map ucast P" ?avx ?d] V(1) lP by simp
  have tab: "table_ok p" unfolding p_def by (rule fresh_table_ok [OF g(1)]) (use g(2) in \<open>simp add: param_ok_def\<close>)
  have "place_value ?avx p (take ?n (os_b ?s')) (length ys) j y = place_value ?avx p C (length ys) j y XOR Galois128_Mul ?avx ?d (ucast (place_value ?avx p P (length ys) j y))" for j y
    using place_value_axpy [OF tab, of C "map ucast P"] place_value_ucast [OF tab _ , of P] lC lP psz b g(3) by (simp add: p_def)
  then have val: "place_value ?avx p (take ?n (os_b ?s')) (length ys) j y XOR ?h y = place_value ?avx p C (length ys) j y XOR
      Galois128_Mul ?avx ?d (ucast (place_value ?avx p P (length ys) j y XOR low64 (oprf_hash env y)))" for j y
    by (simp add: gf.mul_xor unsigned_xor_eq xor.assoc)
  have ps: "ro_paxos ?s' = p" by simp
  have "Rr22OprfSender_Eval_hash env ys (map ?h ys) ?s' = Inr (map (\<lambda>j. oprf_hash env (place_value ?avx (ro_paxos ?s') (take (px_size (ro_paxos ?s')) (os_b ?s')) (length ys) j (ys ! j) XOR ?h (ys ! j)))
      [0..<length ys], ?s' \<lparr> os_b := [] \<rparr>)"
    by (rule Eval_low_ok) (use pair tab psz lb lv in \<open>simp_all add: low_pair_def\<close>)
  note E = this [unfolded ps psz val, folded low_sender_values_def]
  have m: "ro_mode ?r = LowCommMode" using pair by (simp add: low_pair_def)
  show ?thesis unfolding Oprf_run_def Oprf_exchange_def init obind_Some_Inr m using recv send by (simp only: Rr22PsiMode.case obind_Some_Inr prod.case E)
qed

lemma low_values_agree:
  assumes pair: "low_pair env vole r s" and good: "low_good env seed (env_param_of env (length xs) kPaxosWeight (ro_ssp r) Binary) xs"
  shows "\<exists>res. Oprf_run env vole seed ws wr tr ts r s xs ys = Some res \<and> (\<forall>os os'. res = Inr (os, os') \<longrightarrow> length os = length xs \<and> length os' = length ys \<and>
     (\<forall>i < length xs. \<forall>j < length ys. xs ! i = ys ! j \<longrightarrow> length xs div 32 * 32 \<le> i \<longrightarrow> length ys div 32 * 32 \<le> j \<longrightarrow> os ! i = os' ! j)) \<and>
     (\<forall>e. res = Inl e \<longrightarrow> low_encode env seed (env_param_of env (length xs) kPaxosWeight (ro_ssp r) Binary) xs = Some (Inl e))"
proof -
  let ?par = "env_param_of env (length xs) kPaxosWeight (ro_ssp r) Binary" and ?avx = "env_avx2 env"
  let ?p = "low_store env seed ?par (length xs)"
  obtain e where e: "low_encode env seed ?par xs = Some e" "\<And>P p'. e = Inr (P, p') \<Longrightarrow> map (held ?avx ?p P) xs = map (low64 \<circ> oprf_hash env) xs"
    using low_encode_ok [OF good] by auto
  show ?thesis
  proof (cases e)
    case (Inl err)
    have "RecvLowComm env xs r' = Some (Inl err)" if "ro_paxos r' = ?p" for r' using RecvLowComm_error [OF that] e(1) Inl by simp
    then show ?thesis using low_init [OF pair refl good] e(1) Inl pair by (simp add: Oprf_run_def Oprf_exchange_def obind_def low_pair_def)
  next
    case (Inr a)
    obtain P p' where a: "a = (P, p')" by (cases a)
    have "held ?avx ?p P (xs ! i) = low64 (oprf_hash env (xs ! i))" if "i < length xs" for i using arg_cong [OF e(2), of P p' "\<lambda>l. l ! i"] that Inr a by simp
    then have "low_values env ?p C xs ! i = low_sender_values env ?p d C P ys ! j"
      if "xs ! i = ys ! j" "length xs div 32 * 32 \<le> i" "length ys div 32 * 32 \<le> j" "i < length xs" "j < length ys" for i j C d
      using that(1) [symmetric] that(2-) by (simp add: low_values_def low_sender_values_def place_value_def kPaxosBuildRowSize_def)
    then show ?thesis using Oprf_run_low [OF pair refl good] e(1) Inr a by (simp add: low_values_def low_sender_values_def)
  qed
qed

text \<open>
  C22. The oblivious evaluation in low-communication mode ends, and a common input gets the same value on both sides if it is among the last inputs of both parties,
  those that are left over when the inputs are cut into blocks of 32; with fewer than 32 inputs on each side these are all inputs. It can only fail where the
  key-value store of the receiver's inputs cannot be solved.
\<close>

theorem Rr22Oprf_low_agree:
  assumes "low_pair env vole r s" and "low_good env seed (env_param_of env (length xs) kPaxosWeight (ro_ssp r) Binary) xs"
  shows "\<exists>res. Oprf_run env vole seed ws wr tr ts r s xs ys = Some res \<and> (\<forall>os os'. res = Inr (os, os') \<longrightarrow> length os = length xs \<and> length os' = length ys \<and>
     (\<forall>i < length xs. \<forall>j < length ys. xs ! i = ys ! j \<longrightarrow> length xs div 32 * 32 \<le> i \<longrightarrow> length ys div 32 * 32 \<le> j \<longrightarrow> os ! i = os' ! j)) \<and>
     (\<forall>e. res = Inl e \<longrightarrow> low_encode env seed (env_param_of env (length xs) kPaxosWeight (ro_ssp r) Binary) xs = Some (Inl e))"
  using assms by (rule low_values_agree)

text \<open>The parties of the examples.\<close>

definition low_receiver :: Rr22OprfReceiver where
  "low_receiver = (case Rr22OprfReceiver_new 2 40 LowCommMode False of Inr r \<Rightarrow> r)"

definition low_sender :: Rr22OprfSender where
  "low_sender = (case Rr22OprfSender_new 2 40 LowCommMode False of Inr s \<Rightarrow> s)"

lemma low_example_good: "low_pair toy_env toy_vole low_receiver low_sender"
  "length xs = 1 \<or> xs = [1, 2, 3, 4] \<Longrightarrow> low_good toy_env 1 (env_param_of toy_env n kPaxosWeight (ro_ssp low_receiver) Binary) xs"
proof -
  have "axpy True 77 (replicate n 6) (map ucast (replicate n (5 :: 64 word))) = MocVole_Send True (\<lambda>_ n. replicate n 5) (\<lambda>_ n. replicate n 6) 77 0 n" for n
    by (intro nth_equalityI) (simp_all add: MocVole_Send_def)
  then show "low_pair toy_env toy_vole low_receiver low_sender"
    by (simp add: low_pair_def low_receiver_def low_sender_def Rr22OprfReceiver_new_def Rr22OprfSender_new_def vole64_ok_def toy_vole_def toy_env_def MocVole_Recv_def MocVole_RecvF64_def)
  assume xs: "length xs = 1 \<or> xs = [1, 2, 3, 4]"
  have "keys_ok (\<lambda>_. 0) (small_param \<lparr> px_dt := Binary \<rparr>) xs"
    by (rule keys_ok_few) (use xs in \<open>auto simp: small_param_def AesCrHash_Hash_def length_Suc_conv\<close>)
  moreover have "Choose 2 1 \<noteq> - 1" by code_simp
  ultimately show "low_good toy_env 1 (env_param_of toy_env n kPaxosWeight (ro_ssp low_receiver) Binary) xs"
    by (simp add: low_good_def toy_env_def sizes_ok_def param_ok_def dense_ok_def small_param_def)
qed

theorem Rr22Oprf_low_agree_witness:
  "\<exists>res. Oprf_run toy_env toy_vole 1 2 3 2 3 low_receiver low_sender [1, 2, 3, 4] [4, 9] = Some res \<and>
     (\<forall>os os'. res = Inr (os, os') \<longrightarrow> length os = 4 \<and> length os' = 2 \<and> os ! 3 = os' ! 0)"
proof -
  obtain res where res: "Oprf_run toy_env toy_vole 1 2 3 2 3 low_receiver low_sender [1, 2, 3, 4] [4, 9] = Some res"
    "\<And>os os'. res = Inr (os, os') \<Longrightarrow> length os = length [1, 2, 3, 4 :: 128 word] \<and> length os' = length [4, 9 :: 128 word] \<and>
       (\<forall>i < length [1, 2, 3, 4 :: 128 word]. \<forall>j < length [4, 9 :: 128 word]. [1, 2, 3, 4 :: 128 word] ! i = [4, 9] ! j \<longrightarrow>
          length [1, 2, 3, 4 :: 128 word] div 32 * 32 \<le> i \<longrightarrow> length [4, 9 :: 128 word] div 32 * 32 \<le> j \<longrightarrow> os ! i = os' ! j)"
    using Rr22Oprf_low_agree [OF low_example_good(1) low_example_good(2) [OF disjI2 [OF refl]], of 2 3 2 3 "[4, 9]"] by blast
  have "os ! 3 = os' ! 0" if "res = Inr (os, os')" for os os'
    using res(2) [OF that, THEN conjunct2, THEN conjunct2, rule_format, of 3 0] by simp
  then show ?thesis using res by fastforce
qed

text \<open>
  An example of the effect in low-communication mode: a common input is lost. The receiver has one input, which it decodes alone, and the sender has the same input and 31 others, which it
  decodes in one block. No step fails, and the values of the common input differ, although the same two parties agree on it when the sender has no other input.
\<close>

theorem Rr22Oprf_low_lost:
  "\<exists>os os'. Oprf_run toy_env toy_vole 1 2 3 2 3 low_receiver low_sender [1] (1 # map of_nat [2..<33]) = Some (Inr (os, os')) \<and> os ! 0 \<noteq> os' ! 0 \<and>
     Oprf_run toy_env toy_vole 1 2 3 2 3 low_receiver low_sender [1] [1] = Some (Inr (os, os))"
proof -
  let ?par = "env_param_of toy_env (length [1 :: 128 word]) kPaxosWeight (ro_ssp low_receiver) Binary" and ?ys = "1 # map of_nat [2..<33]"
  let ?p = "low_store toy_env 1 ?par (length [1 :: 128 word])"
  have par: "?par = small_param \<lparr> px_dt := Binary \<rparr>" by (simp add: toy_env_def)
  have "map_option (map_sum id fst) (low_encode toy_env 1 (small_param \<lparr> px_dt := Binary \<rparr>) [1]) = Some (Inr [0, 0, 1, 0, 0, 0, 0, 0, 0])" by code_simp
  then obtain p' where sol: "low_encode toy_env 1 ?par [1] = Some (Inr ([0, 0, 1, 0, 0, 0, 0, 0, 0], p'))" unfolding par
    by (cases "low_encode toy_env 1 (small_param \<lparr> px_dt := Binary \<rparr>) [1]"; cases "the (low_encode toy_env 1 (small_param \<lparr> px_dt := Binary \<rparr>) [1])") auto
  let ?C = "take (px_size ?par) (vo_c toy_vole (max 256 (px_size ?par)))" and ?P = "[0, 0, 1, 0, 0, 0, 0, 0, 0] :: 64 word list"
  have C: "?C = replicate 9 6" unfolding par by (simp add: toy_vole_def MocVole_Recv_def px_size_def small_param_def)
  note run = Oprf_run_low [OF low_example_good(1) refl low_example_good(2) sol, of 2 3 2 3]
  have e: "env_avx2 toy_env = True" "oprf_hash toy_env v = v" for v by (simp_all add: toy_env_def AesCrHash_Hash_def)
  have v: "place_value True ?p ?C 1 0 1 = 0" "place_value True ?p ?C 32 0 1 = 6" "place_value True ?p ?P 32 0 1 = 1" "place_value True ?p ?P 1 0 1 = 1"
    unfolding C par by code_simp+
  have l: "low64 1 = 1" by (simp add: low64_def)
  have "low_sender_values toy_env ?p 77 ?C ?P ys ! 0 = 6" if "length ys = 32" "ys ! 0 = 1" for ys unfolding low_sender_values_def e using v that l by (simp del: upt_Suc)
  moreover have "length ?ys = 32" "?ys ! 0 = 1" by simp_all
  ultimately have "low_sender_values toy_env ?p 77 ?C ?P ?ys ! 0 = 6" by blast
  moreover have "low_values toy_env ?p ?C [1] = [0]" "low_sender_values toy_env ?p 77 ?C ?P [1] = [0]"
    using v by (simp_all add: low_values_def low_sender_values_def e l)
  ultimately show ?thesis using run [of ?ys] run [of "[1]"] by (simp add: toy_vole_def del: upt_Suc)
qed

end
