(* ===== verification/Rr22_Utils.thy ===== *)
theory Rr22_Utils
  imports Rr22_Oprf_Low Kkrt_Party
begin

text \<open>
  \<open>psi/algorithm/rr22/rr22_utils.cc\<close>: comparing the values of the oblivious evaluation. The sender truncates its values to \<open>mask_size\<close> bytes, in the memory of the
  vector of values, and sends them with the duplicate counts of its items; the receiver looks them up in a hash table of its own truncated values, and sends the positions of
  the matches back if the result is to be known to both.

  The hash table (\<open>google::dense_hash_map\<close>) is the parameter \<open>dense\<close>, from the list of inserted pairs to the lookup function, and \<open>split\<close> stands for
  \<open>yacl::parallel_for\<close>: the ranges into which it divides the work, in the order in which their results are merged. \<open>memcpy\<close> is modelled as reading its source
  before it writes, also where source and destination overlap.
\<close>

unbundle bit_operations_syntax

section \<open>Bytes\<close>

definition to_bytes :: "nat \<Rightarrow> 'a::len word \<Rightarrow> 8 word list" where
  "to_bytes n w = map (\<lambda>i. ucast (drop_bit (8 * i) w)) [0..<n]"

definition of_bytes :: "8 word list \<Rightarrow> 'a::len word" where
  "of_bytes bs = foldr (\<lambda>b w. ucast b OR push_bit 8 w) bs 0"

definition memcpy :: "8 word list \<Rightarrow> nat \<Rightarrow> nat \<Rightarrow> nat \<Rightarrow> 8 word list result" where
  "memcpy buf dst src n =
     (if dst + n \<le> length buf \<and> src + n \<le> length buf then Inr (take dst buf @ take n (drop src buf) @ drop (dst + n) buf) else Inl (Undefined ''memcpy''))"

primrec truncate_mask :: "nat \<Rightarrow> 128 word" where
  "truncate_mask 0 = 0"
| "truncate_mask (Suc n) = 0xff OR push_bit 8 (truncate_mask n)"

section \<open>The sender\<close>

type_synonym cnt_map = "(nat \<times> nat) list"

definition cnt_map_of :: "nat list \<Rightarrow> cnt_map" where
  "cnt_map_of cnts = filter (\<lambda>(i, c). 0 < c) (enumerate 0 cnts)"

definition sender_values :: "nat \<Rightarrow> 128 word list \<Rightarrow> 8 word list result" where
  "sender_values mask_size self_oprfs =
     (let data = concat (map (to_bytes 16) self_oprfs) in
      rbind (if mask_size \<noteq> 16 then rfold (\<lambda>i buf. memcpy buf (i * mask_size) (i * 16) mask_size) [0..<length self_oprfs] data else Inr data) (\<lambda>data.
      if length self_oprfs * mask_size \<le> length data then Inr (take (length self_oprfs * mask_size) data) else Inl (Undefined ''send_buffer'')))"

definition GetIntersectionSender_send :: "nat \<Rightarrow> 128 word list \<Rightarrow> BucketItem list \<Rightarrow> (8 word list \<times> cnt_map) result" where
  "GetIntersectionSender_send mask_size self_oprfs items =
     rbind (sender_values mask_size self_oprfs) (\<lambda>send_buffer. Inr (send_buffer, cnt_map_of (map extra_dup_cnt items)))"

text \<open>Reading a message of 32-bit indices.\<close>

definition recv_indices :: "8 word list \<Rightarrow> 32 word list result" where
  "recv_indices buffer = (if length buffer mod 4 = 0 then Inr (map of_bytes (chunks 4 buffer)) else Inl (Undefined ''memcpy''))"

text \<open>\<open>None\<close> is a run without broadcast, in which the sender receives nothing.\<close>

definition GetIntersectionSender_recv :: "(8 word list \<times> cnt_map) option \<Rightarrow> (32 word list \<times> nat list) result" where
  "GetIntersectionSender_recv reply =
     (case reply of None \<Rightarrow> Inr ([], [])
      | Some (buffer, items_cnt) \<Rightarrow>
          rbind (recv_indices buffer) (\<lambda>result.
          rbind (rfold (\<lambda>(k, c) v. set_at v k c) items_cnt (replicate (length result) 0)) (\<lambda>items_cnt_v.
          Inr (result, items_cnt_v))))"

section \<open>The receiver\<close>

type_synonym dense_map = "(128 word \<times> nat) list \<Rightarrow> 128 word \<Rightarrow> nat option"

record Matches =
  mt_indices :: "32 word list"
  mt_peer_cnt :: "nat list"
  mt_peer_indices :: "32 word list"
  mt_self_cnt :: "nat list"

definition no_matches :: Matches where
  "no_matches = \<lparr> mt_indices = [], mt_peer_cnt = [], mt_peer_indices = [], mt_self_cnt = [] \<rparr>"

definition dense_entries :: "nat \<Rightarrow> 128 word list \<Rightarrow> (128 word \<times> nat) list" where
  "dense_entries mask_size self_oprfs = map (\<lambda>(i, v). (if mask_size \<noteq> 16 then v AND truncate_mask mask_size else v, i)) (enumerate 0 self_oprfs)"

definition cnt_at :: "cnt_map \<Rightarrow> nat \<Rightarrow> nat" where
  "cnt_at cnts j = (case map_of cnts j of None \<Rightarrow> 0 | Some c \<Rightarrow> c)"

definition match_one :: "(128 word \<Rightarrow> nat option) \<Rightarrow> BucketItem list \<Rightarrow> nat \<Rightarrow> bool \<Rightarrow> 8 word list \<Rightarrow> cnt_map \<Rightarrow> nat \<Rightarrow> Matches \<Rightarrow> Matches result" where
  "match_one lookup self_items mask_size broadcast peer_buffer cnts j m =
     (case lookup (of_bytes (take mask_size (drop (j * mask_size) peer_buffer))) of
        None \<Rightarrow> Inr m
      | Some i \<Rightarrow>
          let m = m \<lparr> mt_indices := mt_indices m @ [of_nat i], mt_peer_cnt := mt_peer_cnt m @ [cnt_at cnts j] \<rparr> in
          if broadcast
          then rbind (enforce (i < length self_items) ''random str matched in result, which is not expected.'') (\<lambda>_.
               Inr (m \<lparr> mt_peer_indices := mt_peer_indices m @ [of_nat j], mt_self_cnt := mt_self_cnt m @ [extra_dup_cnt (self_items ! i)] \<rparr>))
          else Inr m)"

definition merge_matches :: "bool \<Rightarrow> Matches \<Rightarrow> Matches \<Rightarrow> Matches" where
  "merge_matches broadcast tmp m =
     (if mt_indices tmp = [] then m
      else let m = m \<lparr> mt_indices := mt_indices m @ mt_indices tmp, mt_peer_cnt := mt_peer_cnt m @ mt_peer_cnt tmp \<rparr> in
           if broadcast then m \<lparr> mt_peer_indices := mt_peer_indices m @ mt_peer_indices tmp, mt_self_cnt := mt_self_cnt m @ mt_self_cnt tmp \<rparr> else m)"

definition GetIntersectionReceiver ::
  "dense_map \<Rightarrow> (nat \<Rightarrow> nat \<Rightarrow> (nat \<times> nat) list) \<Rightarrow> 128 word list \<Rightarrow> BucketItem list \<Rightarrow> nat \<Rightarrow> nat \<Rightarrow> nat \<Rightarrow> bool \<Rightarrow> 8 word list \<times> cnt_map
     \<Rightarrow> ((32 word list \<times> nat list) \<times> (8 word list \<times> cnt_map) option) result" where
  "GetIntersectionReceiver dense split self_oprfs self_items peer_items_num num_threads mask_size broadcast = (\<lambda>(peer_buffer, cnt_buffer).
     let lookup = dense (dense_entries mask_size self_oprfs) in
     if mask_size = 0 \<or> num_threads = 0 then Inl (Undefined ''division by zero'')
     else rbind (enforce (peer_items_num = length peer_buffer div mask_size) ''peer_items_num == peer_buffer.size() / mask_size'') (\<lambda>_.
          let grain_size = (peer_items_num + num_threads - 1) div num_threads in
          rbind (rfold (\<lambda>(b, e) m. rbind (rfold (match_one lookup self_items mask_size broadcast peer_buffer cnt_buffer) [b..<e] no_matches) (\<lambda>tmp.
              Inr (merge_matches broadcast tmp m))) (split peer_items_num grain_size) no_matches) (\<lambda>m.
          Inr ((mt_indices m, mt_peer_cnt m),
               if broadcast then Some (concat (map (to_bytes 4) (mt_peer_indices m)), cnt_map_of (mt_self_cnt m)) else None))))"

text \<open>Both parties, with the messages of one handed to the other.\<close>

definition GetIntersection ::
  "dense_map \<Rightarrow> (nat \<Rightarrow> nat \<Rightarrow> (nat \<times> nat) list) \<Rightarrow> nat \<Rightarrow> nat \<Rightarrow> bool \<Rightarrow> 128 word list \<Rightarrow> BucketItem list \<Rightarrow> 128 word list \<Rightarrow> BucketItem list
     \<Rightarrow> ((32 word list \<times> nat list) \<times> (32 word list \<times> nat list)) result" where
  "GetIntersection dense split num_threads mask_size broadcast oprfs items peer_oprfs peer_items =
     rbind (GetIntersectionSender_send mask_size peer_oprfs peer_items) (\<lambda>msgs.
     rbind (GetIntersectionReceiver dense split oprfs items (length peer_oprfs) num_threads mask_size broadcast msgs) (\<lambda>(found, reply).
     rbind (GetIntersectionSender_recv reply) (\<lambda>found'. Inr (found, found'))))"

section \<open>The overloads without duplicate counts\<close>

definition SendValues :: "nat \<Rightarrow> 128 word list \<Rightarrow> 8 word list list result" where
  "SendValues mask_size self_oprfs = rbind (sender_values mask_size self_oprfs) (\<lambda>data. Inr (chunks (kSendChunkSize * mask_size) data))"

fun recv_values :: "nat \<Rightarrow> nat \<Rightarrow> nat \<Rightarrow> 8 word list list \<Rightarrow> 8 word list \<Rightarrow> 8 word list result option" where
  "recv_values mask_size n cnt msgs buf =
     (if cnt < n
      then (case msgs of [] \<Rightarrow> None
            | m # ms \<Rightarrow> if cnt * mask_size + length m \<le> length buf
                then recv_values mask_size n (cnt + length m div mask_size) ms (take (cnt * mask_size) buf @ m @ drop (cnt * mask_size + length m) buf)
                else Some (Inl (Undefined ''memcpy'')))
      else Some (Inr buf))"

declare recv_values.simps [simp del]

definition GetIntersectionReceiver_values ::
  "dense_map \<Rightarrow> (nat \<Rightarrow> nat \<Rightarrow> (nat \<times> nat) list) \<Rightarrow> 128 word list \<Rightarrow> nat \<Rightarrow> nat \<Rightarrow> nat \<Rightarrow> bool \<Rightarrow> 8 word list list
     \<Rightarrow> (32 word list \<times> 8 word list option) result option" where
  "GetIntersectionReceiver_values dense split self_oprfs peer_items_num num_threads mask_size broadcast msgs =
     (let lookup = dense (dense_entries mask_size self_oprfs) in
      if mask_size = 0 \<or> num_threads = 0 then Some (Inl (Undefined ''division by zero''))
      else obind (recv_values mask_size peer_items_num 0 msgs (replicate (peer_items_num * mask_size) 0)) (\<lambda>peer_buffer.
      obind (Some (enforce (peer_items_num = length peer_buffer div mask_size) ''peer_items_num == peer_buffer.size() / mask_size'')) (\<lambda>_.
      let ranges = split peer_items_num ((peer_items_num + num_threads - 1) div num_threads);
          found = concat (map (\<lambda>(b, e). List.map_filter (\<lambda>j. map_option (\<lambda>i. (of_nat i, of_nat j)) (lookup (of_bytes (take mask_size (drop (j * mask_size) peer_buffer))))) [b..<e]) ranges) in
      Some (Inr (map fst found, if broadcast then Some (concat (map (to_bytes 4 :: 32 word \<Rightarrow> _) (map snd found))) else None)))))"

definition GetIntersectionSender_values :: "8 word list option \<Rightarrow> 32 word list result" where
  "GetIntersectionSender_values reply = (case reply of None \<Rightarrow> Inr [] | Some buffer \<Rightarrow> recv_indices buffer)"

definition GetIntersection_values ::
  "dense_map \<Rightarrow> (nat \<Rightarrow> nat \<Rightarrow> (nat \<times> nat) list) \<Rightarrow> nat \<Rightarrow> nat \<Rightarrow> bool \<Rightarrow> 128 word list \<Rightarrow> 128 word list \<Rightarrow> (32 word list \<times> 32 word list) result option" where
  "GetIntersection_values dense split num_threads mask_size broadcast oprfs peer_oprfs =
     obind (Some (SendValues mask_size peer_oprfs)) (\<lambda>msgs.
     obind (GetIntersectionReceiver_values dense split oprfs (length peer_oprfs) num_threads mask_size broadcast msgs) (\<lambda>(found, reply).
     Some (rbind (GetIntersectionSender_values reply) (\<lambda>found'. Inr (found, found')))))"

section \<open>Bytes of a word\<close>

lemma length_to_bytes [simp]: "length (to_bytes n w) = n"
  by (simp add: to_bytes_def)

lemma bit_of_bytes: "bit (of_bytes bs :: 'a::len word) i \<longleftrightarrow> i < LENGTH('a) \<and> i div 8 < length bs \<and> bit (bs ! (i div 8)) (i mod 8)"
proof (induction bs arbitrary: i)
  case (Cons b bs)
  show ?case
  proof (cases "i < 8")
    case True
    then show ?thesis by (auto simp: of_bytes_def bit_simps)
  next
    case False
    then obtain j where j: "i = j + 8" by (metis add.commute le_Suc_ex not_less)
    have "\<not> bit b (j + 8)" using bit_imp_le_length [of b "j + 8"] by auto
    moreover have "(j + 8) div 8 = Suc (j div 8)" "(j + 8) mod 8 = j mod 8" by simp_all
    ultimately show ?thesis using Cons.IH [of j] by (auto simp: j of_bytes_def bit_simps)
  qed
qed (simp add: of_bytes_def)

lemma of_bytes_to_bytes: "of_bytes (to_bytes n w) = take_bit (8 * n) (w :: 'a::len word)"
proof (rule bit_eqI)
  fix i assume "possible_bit TYPE('a word) i"
  then have i: "i < LENGTH('a)" by simp
  have "8 * (i div 8) + i mod 8 = i" "i div 8 < n \<longleftrightarrow> i < 8 * n" by (simp, linarith)
  then show "bit (of_bytes (to_bytes n w) :: 'a word) i = bit (take_bit (8 * n) w) i"
    using i by (auto simp: bit_of_bytes to_bytes_def bit_simps)
qed

lemma of_bytes_to_bytes_32 [simp]: "of_bytes (to_bytes 4 w) = (w :: 32 word)"
  by (simp add: of_bytes_to_bytes take_bit_word_eq_self)

lemma take_to_bytes: "k \<le> n \<Longrightarrow> take k (to_bytes n w) = to_bytes k w"
  by (simp add: to_bytes_def take_map min_def)

lemma truncate_mask_mask: "truncate_mask n = mask (8 * n)"
proof (induction n)
  case (Suc n)
  have "mask 8 OR push_bit 8 (mask (8 * n)) = (mask (8 + 8 * n) :: 128 word)"
    by (rule bit_eqI) (auto simp: bit_simps)
  moreover have "mask 8 = (0xff :: 128 word)" by (simp add: mask_eq_exp_minus_1)
  ultimately show ?case using Suc by simp
qed simp

lemma truncate_value: "n \<le> 16 \<Longrightarrow> (if n \<noteq> 16 then v AND truncate_mask n else v) = take_bit (8 * n) (v :: 128 word)"
  by (auto simp: truncate_mask_mask take_bit_eq_mask [symmetric] take_bit_word_eq_self)

section \<open>Cutting a list into blocks\<close>

lemma length_concat_blocks: "(\<And>x. x \<in> set xs \<Longrightarrow> length (f x) = k) \<Longrightarrow> length (concat (map f xs)) = length xs * k"
  by (induction xs) auto

lemma take_concat_blocks: "(\<And>x. x \<in> set xs \<Longrightarrow> length (f x) = k) \<Longrightarrow> take (i * k) (concat (map f xs)) = concat (map f (take i xs))"
proof (induction xs arbitrary: i)
  case (Cons x xs)
  then show ?case by (cases i) auto
qed simp

lemma drop_concat_blocks: "(\<And>x. x \<in> set xs \<Longrightarrow> length (f x) = k) \<Longrightarrow> drop (i * k) (concat (map f xs)) = concat (map f (drop i xs))"
proof (induction xs arbitrary: i)
  case (Cons x xs)
  then show ?case by (cases i) auto
qed simp

lemma nth_concat_block:
  assumes "\<And>x. x \<in> set xs \<Longrightarrow> length (f x) = k" "j < length xs"
  shows "take k (drop (j * k) (concat (map f xs))) = f (xs ! j)"
proof -
  have "drop j xs = xs ! j # drop (Suc j) xs" using assms(2) by (simp add: Cons_nth_drop_Suc)
  then show ?thesis using assms by (simp add: drop_concat_blocks)
qed

lemma chunks_blocks:
  assumes "\<And>x. x \<in> set xs \<Longrightarrow> length (f x) = k" "0 < k"
  shows "chunks k (concat (map f xs)) = map f xs"
  using assms(1)
proof (induction xs)
  case (Cons x xs)
  then have "f x \<noteq> []" "length (f x) = k" using assms(2) by auto
  then show ?case using Cons assms(2) by (subst chunks.simps) simp
qed (simp add: chunks.simps)

section \<open>What the sender sends\<close>

lemma memcpy_block:
  assumes "d \<le> s" "s + n \<le> length buf"
  shows "\<exists>buf'. memcpy buf d s n = Inr buf' \<and> length buf' = length buf \<and> take (d + n) buf' = take d buf @ take n (drop s buf) \<and> drop (s + n) buf' = drop (s + n) buf"
  using assms by (simp add: memcpy_def add.commute [of n])

text \<open>The values are truncated in place: when value \<open>i\<close> is moved, the values behind it are still intact.\<close>

lemma sender_values_ok:
  assumes "k \<le> 16"
  shows "sender_values k os = Inr (concat (map (to_bytes k) os))"
proof (cases "k = 16")
  case False
  let ?data = "concat (map (to_bytes 16) os)" and ?n = "length os"
  have len: "length ?data = ?n * 16" by (simp add: length_concat_blocks)
  have "\<exists>buf. rfold (\<lambda>i buf. memcpy buf (i * k) (i * 16) k) [0..<?n] ?data = Inr buf \<and>
      length buf = ?n * 16 \<and> take (?n * k) buf = concat (map (to_bytes k) (take ?n os)) \<and> drop (?n * 16) buf = drop (?n * 16) ?data"
  proof (rule rfold_upt_inv [where I = "\<lambda>i buf. length buf = ?n * 16 \<and> take (i * k) buf = concat (map (to_bytes k) (take i os)) \<and> drop (i * 16) buf = drop (i * 16) ?data"])
    fix i buf assume i: "i < ?n" and inv: "length buf = ?n * 16 \<and> take (i * k) buf = concat (map (to_bytes k) (take i os)) \<and> drop (i * 16) buf = drop (i * 16) ?data"
    have "Suc i * 16 \<le> ?n * 16" using i by (intro mult_le_mono1) simp
    then have "i * k \<le> i * 16" "i * 16 + k \<le> length buf" using assms inv by auto
    from memcpy_block [OF this] obtain buf' where b: "memcpy buf (i * k) (i * 16) k = Inr buf'" "length buf' = length buf"
      "take (i * k + k) buf' = take (i * k) buf @ take k (drop (i * 16) buf)" "drop (i * 16 + k) buf' = drop (i * 16 + k) buf" by blast
    have "take k (drop (i * 16) buf) = take k (take 16 (drop (i * 16) ?data))" using inv assms by (simp add: min_def)
    also have "\<dots> = to_bytes k (os ! i)" using i assms by (simp add: nth_concat_block take_to_bytes)
    finally have "take (Suc i * k) buf' = concat (map (to_bytes k) (take (Suc i) os))" using b(3) inv i by (simp add: add.commute take_Suc_conv_app_nth)
    moreover have "drop (Suc i * 16) buf' = drop (Suc i * 16) ?data"
    proof -
      have e: "Suc i * 16 = (16 - k) + (i * 16 + k)" "Suc i * 16 = 16 + i * 16" using assms by simp_all
      have "drop (Suc i * 16) buf' = drop (16 - k) (drop (i * 16 + k) buf')" unfolding drop_drop e(1) ..
      also have "\<dots> = drop (Suc i * 16) buf" unfolding b(4) drop_drop e(1) ..
      also have "\<dots> = drop 16 (drop (i * 16) buf)" unfolding drop_drop e(2) ..
      finally show ?thesis using inv by (simp add: add.commute)
    qed
    ultimately show "\<exists>s'. memcpy buf (i * k) (i * 16) k = Inr s' \<and> length s' = ?n * 16 \<and> take (Suc i * k) s' = concat (map (to_bytes k) (take (Suc i) os)) \<and>
        drop (Suc i * 16) s' = drop (Suc i * 16) ?data" using b inv by auto
  qed (use len in simp)
  then show ?thesis using False assms by (auto simp: sender_values_def)
qed (simp add: sender_values_def length_concat_blocks)

lemma map_of_cnt_map: "cnt_at (cnt_map_of cnts) j = (if j < length cnts then cnts ! j else 0)"
proof -
  have "map_of (filter (\<lambda>(i, c). 0 < c) (enumerate k cnts)) (k + j) = (if j < length cnts \<and> 0 < cnts ! j then Some (cnts ! j) else None)" for k
  proof (induction cnts arbitrary: k j)
    case (Cons c cnts)
    have "map_of (filter (\<lambda>(i, c). 0 < c) (enumerate (Suc k) cnts)) k = None"
      by (auto simp: map_of_eq_None_iff in_set_enumerate_eq)
    then show ?case using Cons [of "Suc k" "j - 1"] by (cases j) auto
  qed simp
  from this [of 0] show ?thesis by (simp add: cnt_at_def cnt_map_of_def)
qed

lemma recv_indices_ok: "recv_indices (concat (map (to_bytes 4) is)) = Inr is"
  by (simp add: recv_indices_def length_concat_blocks chunks_blocks comp_def)

lemma cnt_vector:
  assumes "length cnts = n"
  shows "rfold (\<lambda>(k, c) v. set_at v k c) (cnt_map_of cnts) (replicate n 0) = Inr cnts"
proof -
  have "rfold (\<lambda>(k, c) v. set_at v k c) (filter (\<lambda>(i, c). 0 < c) (enumerate (length done) cnts)) (done @ replicate (length cnts) 0) = Inr (done @ cnts)" for "done"
  proof (induction cnts arbitrary: "done")
    case (Cons c cnts)
    from Cons [of "done @ [c]"] show ?case by (cases "c = 0") (simp_all add: set_at_def list_update_append)
  qed simp
  from this [of "[]"] show ?thesis using assms by (simp add: cnt_map_of_def)
qed

lemma sender_reply_ok: "length cnts = length is \<Longrightarrow> GetIntersectionSender_recv (Some (concat (map (to_bytes 4) is), cnt_map_of cnts)) = Inr (is, cnts)"
  by (simp add: GetIntersectionSender_recv_def recv_indices_ok cnt_vector)

section \<open>What the receiver finds\<close>

text \<open>
  The hash table returns the value of the first pair inserted with a key. The key 0 is reserved for empty slots: the table promises nothing once it has been inserted or is
  looked up. \<open>parallel_for\<close> runs every index of the range in one of its parts.
\<close>

definition dense_ok :: "dense_map \<Rightarrow> bool" where
  "dense_ok dense \<longleftrightarrow> (\<forall>kvs k. k \<noteq> 0 \<longrightarrow> 0 \<notin> fst ` set kvs \<longrightarrow> dense kvs k = map_of kvs k)"

definition split_ok :: "(nat \<Rightarrow> nat \<Rightarrow> (nat \<times> nat) list) \<Rightarrow> bool" where
  "split_ok split \<longleftrightarrow> (\<forall>n g. 0 < g \<longrightarrow> mset (concat (map (\<lambda>(b, e). [b..<e]) (split n g))) = mset [0..<n])"

abbreviation truncated :: "nat \<Rightarrow> 128 word \<Rightarrow> 128 word" where
  "truncated k \<equiv> take_bit (8 * k)"

text \<open>The matches of the values at the places \<open>js\<close> of the sender: pairs of the receiver's and the sender's place.\<close>

definition value_matches :: "(nat \<Rightarrow> nat option) \<Rightarrow> nat list \<Rightarrow> (nat \<times> nat) list" where
  "value_matches hit js = List.map_filter (\<lambda>j. map_option (\<lambda>i. (i, j)) (hit j)) js"

definition matches_of :: "bool \<Rightarrow> BucketItem list \<Rightarrow> cnt_map \<Rightarrow> (nat \<times> nat) list \<Rightarrow> Matches" where
  "matches_of broadcast items cnts R =
     \<lparr> mt_indices = map (\<lambda>(i, j). of_nat i) R, mt_peer_cnt = map (\<lambda>(i, j). cnt_at cnts j) R,
       mt_peer_indices = (if broadcast then map (\<lambda>(i, j). of_nat j) R else []), mt_self_cnt = (if broadcast then map (\<lambda>(i, j). extra_dup_cnt (items ! i)) R else []) \<rparr>"

lemma value_matches_simps [simp]:
  "value_matches hit [] = []" "value_matches hit (j # js) = (case hit j of None \<Rightarrow> [] | Some i \<Rightarrow> [(i, j)]) @ value_matches hit js"
  "value_matches hit (js @ js') = value_matches hit js @ value_matches hit js'"
  by (simp_all add: value_matches_def map_filter_def split: option.splits)

lemma no_matches_of: "no_matches = matches_of broadcast items cnts []"
  by (simp add: no_matches_def matches_of_def)

lemma merge_matches_of: "merge_matches broadcast (matches_of broadcast items cnts R') (matches_of broadcast items cnts R) = matches_of broadcast items cnts (R @ R')"
  by (simp add: merge_matches_def matches_of_def)

lemma find_map: "find P (map g xs) = map_option g (find (\<lambda>x. P (g x)) xs)"
  by (induction xs) auto

lemma hash_index_Cons: "hash_index (x # xs) y = (if x = y then Some 0 else map_option Suc (hash_index xs y))"
  by (simp add: hash_index_def upt_conv_Cons map_Suc_upt [symmetric] find_map del: upt_Suc)

lemma hash_index_Nil [simp]: "hash_index [] y = None"
  by (simp add: hash_index_def)

lemma map_of_places: "map_of (map (\<lambda>(i, v). (f v, i)) (enumerate k xs)) y = map_option ((+) k) (hash_index (map f xs) y)"
proof (induction xs arbitrary: k)
  case (Cons x xs)
  then show ?case by (simp add: hash_index_Cons option.map_comp comp_def)
qed simp

lemma match_range:
  assumes lookup: "\<And>j. j < n \<Longrightarrow> lookup (of_bytes (take k (drop (j * k) buf))) = hit j" and hit: "\<And>i j. hit j = Some i \<Longrightarrow> i < length items"
    and "set js \<subseteq> {..<n}"
  shows "rfold (match_one lookup items k broadcast buf cnts) js (matches_of broadcast items cnts R) = Inr (matches_of broadcast items cnts (R @ value_matches hit js))"
  using assms(3)
proof (induction js arbitrary: R)
  case (Cons j js)
  have "match_one lookup items k broadcast buf cnts j (matches_of broadcast items cnts R) =
      Inr (matches_of broadcast items cnts (R @ (case hit j of None \<Rightarrow> [] | Some i \<Rightarrow> [(i, j)])))"
    using lookup [of j] hit [of j] Cons.prems by (cases "hit j") (auto simp: match_one_def matches_of_def)
  then show ?case using Cons by simp
qed simp

lemma match_ranges:
  assumes lookup: "\<And>j. j < n \<Longrightarrow> lookup (of_bytes (take k (drop (j * k) buf))) = hit j" and hit: "\<And>i j. hit j = Some i \<Longrightarrow> i < length items"
    and "set (concat (map (\<lambda>(b, e). [b..<e]) rs)) \<subseteq> {..<n}"
  shows "rfold (\<lambda>(b, e) m. rbind (rfold (match_one lookup items k broadcast buf cnts) [b..<e] no_matches) (\<lambda>tmp. Inr (merge_matches broadcast tmp m))) rs (matches_of broadcast items cnts R) =
     Inr (matches_of broadcast items cnts (R @ value_matches hit (concat (map (\<lambda>(b, e). [b..<e]) rs))))"
  using assms(3)
proof (induction rs arbitrary: R)
  case (Cons r rs)
  obtain b e where r: "r = (b, e)" by (cases r)
  have "set [b..<e] \<subseteq> {..<n}" using Cons.prems r by auto
  from match_range [where lookup = lookup and buf = buf, OF lookup hit this, where broadcast = broadcast and cnts = cnts and R = "[]"] show ?case
    using Cons r by (simp add: merge_matches_of no_matches_of [where broadcast = broadcast and items = items and cnts = cnts])
qed simp

definition places :: "nat \<Rightarrow> 128 word list \<Rightarrow> 128 word list \<Rightarrow> nat \<Rightarrow> nat option" where
  "places k os os' j = hash_index (map (truncated k) os) (truncated k (os' ! j))"

text \<open>No truncated value may be the reserved key.\<close>

definition values_usable :: "nat \<Rightarrow> 128 word list \<Rightarrow> 128 word list \<Rightarrow> bool" where
  "values_usable k os os' \<longleftrightarrow> 0 < k \<and> k \<le> 16 \<and> 0 \<notin> truncated k ` (set os \<union> set os')"

lemma dense_lookup:
  assumes "dense_ok dense" "values_usable k os os'" "j < length os'"
  shows "dense (dense_entries k os) (of_bytes (take k (drop (j * k) (concat (map (to_bytes k) os'))))) = places k os os' j"
proof -
  have k: "k \<le> 16" "truncated k (os' ! j) \<noteq> 0" "0 \<notin> truncated k ` set os" using assms(2,3) by (auto simp: values_usable_def)
  have e: "dense_entries k os = map (\<lambda>(i, v). (truncated k v, i)) (enumerate 0 os)"
    unfolding dense_entries_def truncate_value [OF k(1)] ..
  have "fst ` set (dense_entries k os) = truncated k ` set os"
    by (simp add: e enumerate_eq_zip image_image case_prod_unfold) (metis (no_types) image_image list.set_map map_snd_zip length_upt diff_add_inverse add_0)
  then have "dense (dense_entries k os) (truncated k (os' ! j)) = map_of (dense_entries k os) (truncated k (os' ! j))"
    using assms(1) k(2,3) by (simp add: dense_ok_def)
  moreover have "(+) 0 = (id :: nat \<Rightarrow> nat)" by auto
  ultimately show ?thesis using assms(3) by (simp add: e map_of_places nth_concat_block of_bytes_to_bytes places_def option.map_id)
qed

lemma places_less: "places k os os' j = Some i \<Longrightarrow> i < length os"
  by (auto simp: places_def hash_index_def find_Some_iff)

text \<open>Both parties get the matches in the same order, which depends on the order in which the parts of the work are merged.\<close>

definition merge_order :: "(nat \<Rightarrow> nat \<Rightarrow> (nat \<times> nat) list) \<Rightarrow> nat \<Rightarrow> nat \<Rightarrow> nat list" where
  "merge_order split threads n = concat (map (\<lambda>(b, e). [b..<e]) (split n ((n + threads - 1) div threads)))"

lemma merge_order_all:
  assumes "split_ok split" "0 < threads" "0 < n"
  shows "mset (merge_order split threads n) = mset [0..<n]" "set (merge_order split threads n) \<subseteq> {..<n}"
proof -
  have "0 < (n + threads - 1) div threads" using assms(2,3) by (cases n) (simp_all add: div_greater_zero_iff)
  then show m: "mset (merge_order split threads n) = mset [0..<n]" using assms(1) by (simp add: split_ok_def merge_order_def)
  show "set (merge_order split threads n) \<subseteq> {..<n}" using mset_eq_setD [OF m] by auto
qed

lemma GetIntersection_run:
  assumes dense: "dense_ok dense" and split: "split_ok split" and usable: "values_usable k os os'" and threads: "0 < threads"
    and len: "length items = length os" "length items' = length os'" "0 < length os'"
    and R: "R = value_matches (places k os os') (merge_order split threads (length os'))"
  shows "GetIntersection dense split threads k broadcast os items os' items' =
       Inr ((map (\<lambda>(i, j). of_nat i) R, map (\<lambda>(i, j). extra_dup_cnt (items' ! j)) R),
            if broadcast then (map (\<lambda>(i, j). of_nat j) R, map (\<lambda>(i, j). extra_dup_cnt (items ! i)) R) else ([], []))"
    and "mset R = mset (value_matches (places k os os') [0..<length os'])"
proof -
  let ?n = "length os'" and ?buf = "concat (map (to_bytes k) os')" and ?cnts = "cnt_map_of (map extra_dup_cnt items')"
  let ?g = "(?n + threads - 1) div threads" and ?js = "merge_order split threads (length os')"
  let ?R = "value_matches (places k os os') ?js"
  have k: "0 < k" "k \<le> 16" using usable by (auto simp: values_usable_def)
  note set_js = merge_order_all(2) [OF split threads len(3)]
  have hit: "i < length items" if "places k os os' j = Some i" for i j using places_less [OF that] len(1) by simp
  have m: "rfold (\<lambda>(b, e) m. rbind (rfold (match_one (dense (dense_entries k os)) items k broadcast ?buf ?cnts) [b..<e] no_matches) (\<lambda>tmp. Inr (merge_matches broadcast tmp m)))
      (split ?n ?g) no_matches = Inr (matches_of broadcast items ?cnts ?R)"
    using match_ranges [where lookup = "dense (dense_entries k os)" and buf = ?buf, OF dense_lookup [OF dense usable] hit set_js [unfolded merge_order_def], where R = "[]" and cnts = ?cnts and broadcast = broadcast]
    by (simp add: merge_order_def no_matches_of [where broadcast = broadcast and items = items and cnts = ?cnts])
  have "length ?buf div k = ?n" using k(1) by (simp add: length_concat_blocks)
  then have recv: "GetIntersectionReceiver dense split os items ?n threads k broadcast (?buf, ?cnts) =
      Inr ((map (\<lambda>(i, j). of_nat i) ?R, map (\<lambda>(i, j). cnt_at ?cnts j) ?R),
           if broadcast then Some (concat (map (to_bytes 4) (map (\<lambda>(i, j). of_nat j :: 32 word) ?R)), cnt_map_of (map (\<lambda>(i, j). extra_dup_cnt (items ! i)) ?R)) else None)"
    using m k(1) threads by (simp add: GetIntersectionReceiver_def Let_def matches_of_def)
  have "cnt_at ?cnts j = extra_dup_cnt (items' ! j)" if "(i, j) \<in> set ?R" for i j
    using that set_js len(2) by (auto simp: value_matches_def set_map_filter_iff map_of_cnt_map)
  then have cnt: "map (\<lambda>(i, j). cnt_at ?cnts j) ?R = map (\<lambda>(i, j). extra_dup_cnt (items' ! j)) ?R" by (auto intro: map_cong)
  show "mset R = mset (value_matches (places k os os') [0..<?n])"
    using merge_order_all(1) [OF split threads len(3)] R by (simp add: value_matches_def map_filter_def mset_filter [symmetric])
  have "GetIntersectionSender_send k os' items' = Inr (?buf, ?cnts)" by (simp add: GetIntersectionSender_send_def sender_values_ok [OF k(2)])
  moreover have "GetIntersectionSender_recv (if broadcast then Some (concat (map (to_bytes 4) (map (\<lambda>(i, j). of_nat j :: 32 word) ?R)), cnt_map_of (map (\<lambda>(i, j). extra_dup_cnt (items ! i)) ?R)) else None) =
      Inr (if broadcast then (map (\<lambda>(i, j). of_nat j) ?R, map (\<lambda>(i, j). extra_dup_cnt (items ! i)) ?R) else ([], []))"
    by (cases broadcast) (simp_all only: if_True if_False sender_reply_ok length_map, simp add: GetIntersectionSender_recv_def)
  ultimately show "GetIntersection dense split threads k broadcast os items os' items' =
       Inr ((map (\<lambda>(i, j). of_nat i) R, map (\<lambda>(i, j). extra_dup_cnt (items' ! j)) R),
            if broadcast then (map (\<lambda>(i, j). of_nat j) R, map (\<lambda>(i, j). extra_dup_cnt (items ! i)) R) else ([], []))"
    unfolding GetIntersection_def R using recv cnt by simp
qed

section \<open>The overloads agree\<close>

lemma recv_values_chunks:
  assumes "0 < k" "0 < K" "length data = n * k" "length buf = n * k" "c \<le> n" "take (c * k) buf = take (c * k) data"
  shows "recv_values k n c (chunks (K * k) (drop (c * k) data)) buf = Some (Inr data)"
  using assms(4-6)
proof (induction "n - c" arbitrary: c buf rule: less_induct)
  case less
  show ?case
  proof (cases "c < n")
    case False
    then show ?thesis using less.prems assms(3) by (simp add: recv_values.simps)
  next
    case True
    let ?rest = "drop (c * k) data" and ?l = "min K (n - c)"
    have "c * k < n * k" using True assms(1) by simp
    then have ne: "?rest \<noteq> []" using assms(3) by simp
    have c: "chunks (K * k) ?rest = take (K * k) ?rest # chunks (K * k) (drop (K * k) ?rest)"
      using ne assms(1,2) by (subst chunks.simps) simp
    have len: "length (take (K * k) ?rest) = ?l * k" using assms(3) by (simp add: nat_mult_min_left diff_mult_distrib min.commute)
    have "c + ?l \<le> n" using True by simp
    then have le: "c * k + ?l * k \<le> n * k" unfolding add_mult_distrib [symmetric] by (rule mult_le_mono1)
    let ?buf = "take (c * k) buf @ take (K * k) ?rest @ drop (c * k + ?l * k) buf"
    have tk: "take (c * k + ?l * k) data = take (c * k) data @ take (K * k) ?rest"
    proof (cases "K \<le> n - c")
      case False
      then have "n * k - c * k \<le> K * k" using mult_le_mono1 [of "n - c" K k] by (simp add: diff_mult_distrib)
      then show ?thesis using False assms(3) \<open>c * k < n * k\<close> by (simp add: take_add diff_mult_distrib)
    qed (simp add: take_add)
    have "recv_values k n (c + ?l) (chunks (K * k) (drop ((c + ?l) * k) data)) ?buf = Some (Inr data)"
    proof (rule less.hyps)
      show "n - (c + ?l) < n - c" using True assms(2) by simp
      show "length ?buf = n * k" using less.prems(1) le len assms(3) \<open>c * k < n * k\<close> by simp
      show "take ((c + ?l) * k) ?buf = take ((c + ?l) * k) data"
      proof -
        have "length (take (c * k) buf) = c * k" using less.prems(1) \<open>c * k < n * k\<close> by simp
        moreover have "take (length xs + length ys) (xs @ ys @ zs) = xs @ ys" for xs ys zs :: "8 word list" by simp
        ultimately show ?thesis unfolding add_mult_distrib tk using less.prems(3) len by metis
      qed
    qed fact
    moreover have "chunks (K * k) (drop (K * k) ?rest) = chunks (K * k) (drop ((c + ?l) * k) data)"
    proof (cases "K \<le> n - c")
      case False
      then have "drop (K * k) ?rest = []" "drop ((c + ?l) * k) data = []"
        using assms(1,3) True by (simp_all add: add_mult_distrib [symmetric] diff_mult_distrib [symmetric])
      then show ?thesis by simp
    qed (simp add: add_mult_distrib add.commute)
    ultimately show ?thesis
      using True le len less.prems(1) assms(1) by (subst recv_values.simps) (simp add: c)
  qed
qed

lemma value_matches_pairs:
  "concat (map (\<lambda>(b, e). List.map_filter (\<lambda>j. map_option (\<lambda>i. (of_nat i :: 32 word, of_nat j :: 32 word)) (hit j)) [b..<e]) rs) =
     map (\<lambda>(i, j). (of_nat i, of_nat j)) (value_matches hit (concat (map (\<lambda>(b, e). [b..<e]) rs)))"
proof -
  have "List.map_filter (\<lambda>j. map_option (\<lambda>i. (of_nat i, of_nat j)) (hit j)) js = map (\<lambda>(i, j). (of_nat i :: 32 word, of_nat j :: 32 word)) (value_matches hit js)" for js
    by (simp add: value_matches_def map_map_filter option.map_comp comp_def)
  then show ?thesis by (induction rs) auto
qed


definition halves :: "nat \<Rightarrow> nat \<Rightarrow> (nat \<times> nat) list" where
  "halves n g = [(n div 2, n), (0, n div 2)]"

lemma halves_ok: "split_ok halves"
proof -
  have "mset ([n div 2..<n] @ [0..<n div 2]) = mset ([0..<n div 2] @ [n div 2..<n])" for n by simp
  moreover have "[0..<n div 2] @ [n div 2..<n] = [0..<n]" for n :: nat using upt_add_eq_append [of 0 "n div 2" "n - n div 2"] by simp
  ultimately show ?thesis by (simp add: split_ok_def halves_def)
qed

lemma map_of_dense_ok: "dense_ok map_of"
  by (simp add: dense_ok_def)

definition dup_item :: "nat \<Rightarrow> nat \<Rightarrow> BucketItem" where
  "dup_item i d = \<lparr> sec_hash = 0, bi_index = i, extra_dup_cnt = d, base64_data = [] \<rparr>"


end
