(* ===== verification/Rr22_Psi.thy ===== *)
theory Rr22_Psi
  imports Rr22_Utils
begin

text \<open>
  \<open>psi/algorithm/rr22/rr22_psi.cc\<close>, \<open>common.cc\<close>, \<open>sender.cc\<close> and \<open>receiver.cc\<close>: one bucket of the RR22 protocol and the parties. A bucket is prepared (reading and
  shuffling the items, agreeing on the number of bytes to compare, setting up the oblivious evaluation), evaluated and compared; the matches are written to the index file.
  A run of both parties is one function of both states; \<open>None\<close> is a run in which a party waits for ever.

  The hash of an item, the table of values, the logarithm and the random choices of a bucket are parameters. \<open>re_minus_inf\<close> is the integer that results from
  converting the logarithm of zero, which the code computes for an empty bucket; the C++ standard leaves it open, and no result depends on it.
\<close>

section \<open>Options\<close>

record Rr22PsiOptions =
  po_ssp :: nat
  po_num_threads :: nat
  po_mode :: Rr22PsiMode
  po_compress :: bool
  po_malicious :: bool
  po_oprf_bin_size :: nat

definition Rr22PsiOptions_new :: "nat \<Rightarrow> nat \<Rightarrow> bool \<Rightarrow> bool \<Rightarrow> Rr22PsiOptions result" where
  "Rr22PsiOptions_new ssp num_threads compress malicious =
     rbind (enforce (30 \<le> ssp) ''ssp >= 30'') (\<lambda>_.
     Inr \<lparr> po_ssp = ssp, po_num_threads = max 1 num_threads, po_mode = FastMode, po_compress = compress, po_malicious = malicious, po_oprf_bin_size = 2 ^ 14 \<rparr>)"

definition kDefaultSSP :: nat where
  "kDefaultSSP = 40"

definition kDefaultCompress :: bool where
  "kDefaultCompress = True"

definition GenerateRr22PsiOptions :: "nat \<Rightarrow> bool \<Rightarrow> Rr22PsiOptions result" where
  "GenerateRr22PsiOptions num_procs low_comm_mode =
     rbind (Rr22PsiOptions_new kDefaultSSP num_procs kDefaultCompress False) (\<lambda>options.
     Inr (options \<lparr> po_mode := (if low_comm_mode then LowCommMode else FastMode) \<rparr>))"

section \<open>The state of a bucket\<close>

record Rr22Env =
  re_oprf :: OprfEnv
  re_blake3 :: "string \<Rightarrow> 128 word"
  re_dense :: dense_map
  re_split :: "nat \<Rightarrow> nat \<Rightarrow> (nat \<times> nat) list"
  re_minus_inf :: nat

record BucketRand =
  rd_perm :: "nat list"
  rd_seed :: "128 word"
  rd_ws :: "128 word"
  rd_wr :: "128 word"
  rd_vole :: Vole

record BucketRr22Core =
  bc_options :: Rr22PsiOptions
  bc_bucket_num :: nat
  bc_broadcast_result :: bool
  bc_bucket_idx :: nat
  bc_self_size :: nat
  bc_peer_size :: nat
  bc_mask_size :: nat
  bc_inputs_hash :: "128 word list"
  bc_oprfs :: "128 word list"
  bc_bucket_items :: "BucketItem list"
  bc_null_bucket :: bool

record BucketRr22Sender = BucketRr22Core +
  bc_oprf_sender :: Rr22OprfSender

record BucketRr22Receiver = BucketRr22Core +
  bc_oprf_receiver :: Rr22OprfReceiver

definition BucketRr22Sender_new :: "Rr22PsiOptions \<Rightarrow> nat \<Rightarrow> nat \<Rightarrow> bool \<Rightarrow> BucketRr22Sender result" where
  "BucketRr22Sender_new options bucket_num bucket_idx broadcast =
     rbind (Rr22OprfSender_new (po_oprf_bin_size options) (po_ssp options) (po_mode options) (po_malicious options)) (\<lambda>oprf.
     Inr \<lparr> bc_options = options, bc_bucket_num = bucket_num, bc_broadcast_result = broadcast, bc_bucket_idx = bucket_idx, bc_self_size = 0, bc_peer_size = 0, bc_mask_size = 16,
           bc_inputs_hash = [], bc_oprfs = [], bc_bucket_items = [], bc_null_bucket = False, bc_oprf_sender = oprf \<rparr>)"

definition BucketRr22Receiver_new :: "Rr22PsiOptions \<Rightarrow> nat \<Rightarrow> nat \<Rightarrow> bool \<Rightarrow> BucketRr22Receiver result" where
  "BucketRr22Receiver_new options bucket_num bucket_idx broadcast =
     rbind (Rr22OprfReceiver_new (po_oprf_bin_size options) (po_ssp options) (po_mode options) (po_malicious options)) (\<lambda>oprf.
     Inr \<lparr> bc_options = options, bc_bucket_num = bucket_num, bc_broadcast_result = broadcast, bc_bucket_idx = bucket_idx, bc_self_size = 0, bc_peer_size = 0, bc_mask_size = 16,
           bc_inputs_hash = [], bc_oprfs = [], bc_bucket_items = [], bc_null_bucket = False, bc_oprf_receiver = oprf \<rparr>)"

section \<open>Preparing a bucket\<close>

definition ComputeTruncateSize :: "Rr22Env \<Rightarrow> nat \<Rightarrow> nat \<Rightarrow> nat \<Rightarrow> bool \<Rightarrow> nat" where
  "ComputeTruncateSize env self_size peer_size ssp malicious =
     (let product = self_size * peer_size mod 2 ^ 64 in
      if malicious then 16
      else min (if product = 0 then re_minus_inf env else (ssp + env_log2_ceil (re_oprf env) product + 7) div 8) 16)"

text \<open>\<open>gathered\<close> are the sizes of all parties, by rank.\<close>

definition ExchangeTruncateSize :: "Rr22Env \<Rightarrow> nat \<Rightarrow> nat list \<Rightarrow> nat \<Rightarrow> Rr22PsiOptions \<Rightarrow> (nat \<times> nat) result" where
  "ExchangeTruncateSize env rank gathered self_size options =
     rbind (at gathered rank) (\<lambda>n.
     rbind (enforce (self_size = n) ''self_size == items_size[lctx->Rank()]'') (\<lambda>_.
     rbind (at gathered ((rank + 1) mod length gathered)) (\<lambda>peer_size.
     Inr (if po_compress options then ComputeTruncateSize env self_size peer_size (po_ssp options) (po_malicious options) else 16, peer_size))))"

definition BucketRr22Sender_Prepare :: "Rr22Env \<Rightarrow> BucketRand \<Rightarrow> nat \<Rightarrow> (nat \<Rightarrow> BucketItem list result) \<Rightarrow> nat list \<Rightarrow> BucketRr22Sender \<Rightarrow> BucketRr22Sender result" where
  "BucketRr22Sender_Prepare env rnd rank pre_f gathered core =
     rbind (pre_f (bc_bucket_idx core)) (\<lambda>bucket_items.
     let bucket_items = map ((!) bucket_items) (rd_perm rnd); self_size = length bucket_items in
     rbind (ExchangeTruncateSize env rank gathered self_size (bc_options core)) (\<lambda>(mask_size, peer_size).
     let core = core \<lparr> bc_bucket_items := bucket_items, bc_self_size := self_size, bc_mask_size := mask_size, bc_peer_size := peer_size \<rparr> in
     if peer_size = 0 \<or> self_size = 0 then Inr (core \<lparr> bc_null_bucket := True \<rparr>)
     else rbind (Rr22OprfSender_Init (re_oprf env) (rd_vole rnd) (rd_seed rnd) peer_size (po_num_threads (bc_options core)) (bc_oprf_sender core)) (\<lambda>oprf.
          Inr (core \<lparr> bc_inputs_hash := item_hashes (re_blake3 env) bucket_items, bc_oprf_sender := oprf \<rparr>))))"

definition BucketRr22Receiver_Prepare :: "Rr22Env \<Rightarrow> BucketRand \<Rightarrow> nat \<Rightarrow> (nat \<Rightarrow> BucketItem list result) \<Rightarrow> nat list \<Rightarrow> BucketRr22Receiver \<Rightarrow> BucketRr22Receiver result" where
  "BucketRr22Receiver_Prepare env rnd rank pre_f gathered core =
     rbind (pre_f (bc_bucket_idx core)) (\<lambda>bucket_items.
     let self_size = length bucket_items in
     rbind (ExchangeTruncateSize env rank gathered self_size (bc_options core)) (\<lambda>(mask_size, peer_size).
     let core = core \<lparr> bc_bucket_items := bucket_items, bc_self_size := self_size, bc_mask_size := mask_size, bc_peer_size := peer_size \<rparr> in
     if peer_size = 0 \<or> self_size = 0 then Inr (core \<lparr> bc_null_bucket := True \<rparr>)
     else rbind (Rr22OprfReceiver_Init (re_oprf env) (rd_vole rnd) (rd_seed rnd) self_size (po_num_threads (bc_options core)) (bc_oprf_receiver core)) (\<lambda>oprf.
          Inr (core \<lparr> bc_inputs_hash := item_hashes (re_blake3 env) bucket_items, bc_oprf_receiver := oprf \<rparr>))))"

section \<open>Evaluating and comparing\<close>

definition BucketRr22_RunOprf :: "Rr22Env \<Rightarrow> BucketRand \<Rightarrow> BucketRr22Receiver \<times> BucketRr22Sender \<Rightarrow> (BucketRr22Receiver \<times> BucketRr22Sender) result option" where
  "BucketRr22_RunOprf env rnd = (\<lambda>(r, s).
     if bc_null_bucket r \<noteq> bc_null_bucket s then None
     else if bc_null_bucket r then Some (Inr (r, s))
     else obind (Oprf_exchange (re_oprf env) (rd_ws rnd) (rd_wr rnd) (bc_oprf_receiver r) (bc_oprf_sender s) (bc_inputs_hash r) (bc_inputs_hash s)) (\<lambda>(os, os').
          Some (Inr (r \<lparr> bc_oprfs := os \<rparr>, s \<lparr> bc_oprfs := os' \<rparr>))))"

text \<open>The indices and duplicate counts that the two parties hand to their \<open>post_f\<close>. Here both parties have the same options, as their configurations are compared.\<close>

definition BucketRr22_GetIntersection :: "Rr22Env \<Rightarrow> BucketRr22Receiver \<times> BucketRr22Sender \<Rightarrow> ((32 word list \<times> nat list) \<times> (32 word list \<times> nat list)) result option" where
  "BucketRr22_GetIntersection env = (\<lambda>(r, s).
     if bc_null_bucket r \<noteq> bc_null_bucket s \<or> bc_broadcast_result r \<noteq> bc_broadcast_result s then None
     else if bc_null_bucket r then Some (Inr (([], []), ([], [])))
     else if bc_peer_size r \<noteq> length (bc_oprfs s) \<or> bc_mask_size r \<noteq> bc_mask_size s then Some (Inl (Enforce ''peer_items_num == peer_buffer.size() / mask_size''))
     else Some (GetIntersection (re_dense env) (re_split env) (po_num_threads (bc_options r)) (bc_mask_size r) (bc_broadcast_result r)
            (bc_oprfs r) (bc_bucket_items r) (bc_oprfs s) (bc_bucket_items s)))"

text \<open>The callbacks of the parties.\<close>

definition rr22_pre_f :: "codec \<Rightarrow> HashBucketCache \<Rightarrow> nat \<Rightarrow> BucketItem list result" where
  "rr22_pre_f c cache idx = (if length (hb_files cache) \<le> idx then Inr [] else HashBucketCache_LoadBucketItems c cache idx)"

definition rr22_post_f :: "nat \<Rightarrow> BucketItem list \<Rightarrow> 32 word list \<times> nat list \<Rightarrow> 'c KkrtParty \<Rightarrow> 'c KkrtParty result" where
  "rr22_post_f bucket_idx items = (\<lambda>(indices, peer_cnt) party.
     rbind (rfold (\<lambda>i w. rbind (at indices i) (\<lambda>k. rbind (at items (unat k)) (\<lambda>item. rbind (at peer_cnt i) (\<lambda>cnt.
       IndexWriter_WriteCache1 (bi_index item) cnt w)))) [0..<length indices] (kp_writer party)) (\<lambda>w.
     rbind (IndexWriter_Commit w) (\<lambda>w.
     Inr (party \<lparr> kp_writer := w, kp_recovery := map_option (UpdateParsedBucketCount (of_nat (bucket_idx + 1))) (kp_recovery party) \<rparr>))))"

section \<open>The runner, one bucket after the other\<close>

definition rr22_prepare ::
  "codec \<Rightarrow> Rr22Env \<Rightarrow> Rr22PsiOptions \<Rightarrow> BucketRand \<Rightarrow> bool \<Rightarrow> HashBucketCache \<Rightarrow> HashBucketCache \<Rightarrow> nat \<Rightarrow> (BucketRr22Receiver \<times> BucketRr22Sender) result" where
  "rr22_prepare c env options rnd broadcast self peer idx =
     rbind (BucketRr22Receiver_new options (length (hb_files self)) idx broadcast) (\<lambda>r.
     rbind (BucketRr22Sender_new options (length (hb_files peer)) idx broadcast) (\<lambda>s.
     rbind (rr22_pre_f c self idx) (\<lambda>items.
     rbind (rr22_pre_f c peer idx) (\<lambda>peer_items.
     let gathered = [length items, length peer_items] in
     rbind (BucketRr22Receiver_Prepare env rnd 0 (rr22_pre_f c self) gathered r) (\<lambda>r.
     rbind (BucketRr22Sender_Prepare env rnd 1 (rr22_pre_f c peer) gathered s) (\<lambda>s.
     Inr (r, s)))))))"

definition rr22_evaluate ::
  "codec \<Rightarrow> Rr22Env \<Rightarrow> Rr22PsiOptions \<Rightarrow> (nat \<Rightarrow> BucketRand) \<Rightarrow> bool \<Rightarrow> HashBucketCache \<Rightarrow> HashBucketCache \<Rightarrow> nat \<Rightarrow> (BucketRr22Receiver \<times> BucketRr22Sender) result option" where
  "rr22_evaluate c env options rnd broadcast self peer idx =
     obind (Some (rr22_prepare c env options (rnd idx) broadcast self peer idx)) (BucketRr22_RunOprf env (rnd idx))"

definition rr22_bucket ::
  "codec \<Rightarrow> Rr22Env \<Rightarrow> Rr22PsiOptions \<Rightarrow> (nat \<Rightarrow> BucketRand) \<Rightarrow> bool \<Rightarrow> HashBucketCache \<Rightarrow> HashBucketCache \<Rightarrow> nat
     \<Rightarrow> 'c KkrtParty \<times> 'c KkrtParty \<Rightarrow> ('c KkrtParty \<times> 'c KkrtParty) result option" where
  "rr22_bucket c env options rnd broadcast self peer idx = (\<lambda>(r, s).
     obind (rr22_evaluate c env options rnd broadcast self peer idx) (\<lambda>(cr, cs).
     obind (BucketRr22_GetIntersection env (cr, cs)) (\<lambda>(found, found').
     Some (rbind (rr22_post_f idx (bc_bucket_items cr) found r) (\<lambda>r.
           rbind (rr22_post_f idx (bc_bucket_items cs) found' s) (\<lambda>s.
           Inr (r, s)))))))"

definition Rr22Runner_Run ::
  "codec \<Rightarrow> Rr22Env \<Rightarrow> Rr22PsiOptions \<Rightarrow> (nat \<Rightarrow> BucketRand) \<Rightarrow> bool \<Rightarrow> HashBucketCache \<Rightarrow> HashBucketCache \<Rightarrow> nat
     \<Rightarrow> 'c KkrtParty \<times> 'c KkrtParty \<Rightarrow> ('c KkrtParty \<times> 'c KkrtParty) result option" where
  "Rr22Runner_Run c env options rnd broadcast self peer start_idx =
     ofold (rr22_bucket c env options rnd broadcast self peer) [start_idx..<length (hb_files self)]"

text \<open>
  The result of \<open>AsyncRun\<close>, whose three threads are modelled in the theory \<open>Rr22_Runner\<close>: the comparisons, which alone have an effect on the party, are made in the order of
  \<open>Run\<close>. An exception in the thread that prepares or in the one that evaluates never reaches the caller, as the threads behind it wait for a bucket that does not come.
\<close>

definition Rr22Runner_AsyncRun ::
  "codec \<Rightarrow> Rr22Env \<Rightarrow> Rr22PsiOptions \<Rightarrow> (nat \<Rightarrow> BucketRand) \<Rightarrow> bool \<Rightarrow> HashBucketCache \<Rightarrow> HashBucketCache \<Rightarrow> nat
     \<Rightarrow> 'c KkrtParty \<times> 'c KkrtParty \<Rightarrow> ('c KkrtParty \<times> 'c KkrtParty) result option" where
  "Rr22Runner_AsyncRun c env options rnd broadcast self peer start_idx st =
     (let evaluated = (\<lambda>idx. case rr22_evaluate c env options rnd broadcast self peer idx of Some (Inr _) \<Rightarrow> True | _ \<Rightarrow> False) in
      if length (hb_files self) \<le> 1 \<or> list_all evaluated [start_idx..<length (hb_files self)]
      then Rr22Runner_Run c env options rnd broadcast self peer start_idx st
      else None)"

section \<open>The parties\<close>

text \<open>Pre- and post-processing are those of the KKRT parties, with the bucket size of the RR22 configuration.\<close>

definition Rr22_PreProcess ::
  "codec \<Rightarrow> ('p \<Rightarrow> (dup_batch \<times> 'p) result) \<Rightarrow> 'p \<Rightarrow> nat \<Rightarrow> nat list \<Rightarrow> nat \<Rightarrow> 'c KkrtParty
     \<Rightarrow> 'c KkrtParty result option" where
  "Rr22_PreProcess c rd provider original_key_count key_counts bucket_size party =
     (if kp_digest_equal party then Some (Inr party)
      else case NegotiateBucketNum original_key_count key_counts bucket_size of
             Inl e \<Rightarrow> Some (Inl e)
           | Inr bucket_count \<Rightarrow>
               let done = (\<lambda>cache. party \<lparr> kp_bucket_count := bucket_count, kp_cache := cache,
                     kp_recovery := map_option (\<lambda>m. fst (MarkPreProcessEnd None m)) (kp_recovery party) \<rparr>)
               in if bucket_count > 0
                  then map_option (\<lambda>res. rbind res (\<lambda>cache. Inr (done (Some cache)))) (CreateCacheFromProvider c rd provider [] bucket_count True)
                  else Some (Inr (done None)))"

text \<open>The receiver has rank 0. A party that skips the phase leaves the other one waiting.\<close>

definition Rr22_Online ::
  "codec \<Rightarrow> Rr22Env \<Rightarrow> nat \<Rightarrow> bool \<Rightarrow> (nat \<Rightarrow> BucketRand) \<Rightarrow> bool \<Rightarrow> 'c KkrtParty \<times> 'c KkrtParty \<Rightarrow> ('c KkrtParty \<times> 'c KkrtParty) result option" where
  "Rr22_Online c env num_procs low_comm_mode rnd broadcast = (\<lambda>(r, s).
     if kp_digest_equal r \<noteq> kp_digest_equal s \<or> kp_bucket_count r \<noteq> kp_bucket_count s then None
     else if kp_digest_equal r \<or> kp_bucket_count r = 0 then Some (Inr (r, s))
     else let gathered = (case (kp_recovery r, kp_recovery s) of (Some m, Some m') \<Rightarrow> [recovery_record m, recovery_record m'] | _ \<Rightarrow> [])
          in obind (Some (rbind (online_start 0 gathered r) (\<lambda>a. rbind (online_start 1 gathered s) (\<lambda>b. Inr (a, b))))) (\<lambda>((fin, start, r'), (fin', start', s')).
               if fin \<noteq> fin' \<or> start \<noteq> start' then None
               else if fin then Some (Inr (r', s'))
               else obind (Some (GenerateRr22PsiOptions num_procs low_comm_mode)) (\<lambda>options.
                    case (kp_cache r', kp_cache s') of
                      (Some self, Some peer) \<Rightarrow> Rr22Runner_AsyncRun c env options rnd broadcast self peer start (r', s')
                    | _ \<Rightarrow> Some (Inl (Undefined ''null store'')))))"

definition Rr22_PostProcess :: "'c KkrtParty \<Rightarrow> 'c KkrtParty" where
  "Rr22_PostProcess party =
     (if kp_digest_equal party then party else party \<lparr> kp_recovery := map_option MarkPostProcessEnd (kp_recovery party) \<rparr>)"

lemma Rr22_PreProcess_eq: "Rr22_PreProcess = Kkrt_PreProcess"
  unfolding fun_eq_iff Rr22_PreProcess_def Kkrt_PreProcess_def by blast

section \<open>Matching values is matching inputs\<close>

text \<open>
  Different inputs have different truncated values, and no truncated value is the reserved key of the hash table. This holds up to the probability that the
  statistical security parameter allows; \<open>k\<close> is the number of bytes compared.
\<close>

definition values_separate :: "nat \<Rightarrow> 128 word list \<Rightarrow> 128 word list \<Rightarrow> 128 word list \<Rightarrow> 128 word list \<Rightarrow> bool" where
  "values_separate k xs ys os os' \<longleftrightarrow> values_usable k os os' \<and> (\<forall>i < length xs. \<forall>j < length ys. truncated k (os ! i) = truncated k (os' ! j) \<longrightarrow> xs ! i = ys ! j)"

definition values_agree :: "128 word list \<Rightarrow> 128 word list \<Rightarrow> 128 word list \<Rightarrow> 128 word list \<Rightarrow> bool" where
  "values_agree xs ys os os' \<longleftrightarrow> length os = length xs \<and> length os' = length ys \<and> (\<forall>i < length xs. \<forall>j < length ys. xs ! i = ys ! j \<longrightarrow> os ! i = os' ! j)"

lemma hash_index_None_iff: "hash_index xs y = None \<longleftrightarrow> (\<forall>i < length xs. xs ! i \<noteq> y)"
  by (auto simp: hash_index_def find_None_iff)

lemma hash_index_Some: "hash_index xs y = Some i \<Longrightarrow> i < length xs \<and> xs ! i = y"
  by (auto simp: hash_index_def find_Some_iff)

lemma places_inputs:
  assumes "distinct xs" "values_agree xs ys os os'" "values_separate k xs ys os os'" "j < length ys"
  shows "places k os os' j = hash_index xs (ys ! j)"
proof -
  have same: "truncated k (os ! i) = truncated k (os' ! j) \<longleftrightarrow> xs ! i = ys ! j" if "i < length xs" for i
  proof -
    have "truncated k (os ! i) = truncated k (os' ! j) \<longrightarrow> xs ! i = ys ! j" using assms(3,4) that by (simp add: values_separate_def)
    moreover have "xs ! i = ys ! j \<longrightarrow> os ! i = os' ! j" using assms(2,4) that by (simp add: values_agree_def)
    ultimately show ?thesis by metis
  qed
  have len: "length os = length xs" using assms(2) by (simp add: values_agree_def)
  show ?thesis
  proof (cases "hash_index xs (ys ! j)")
    case None
    then have "places k os os' j = None" using same by (simp add: places_def hash_index_None_iff len)
    then show ?thesis using None by simp
  next
    case (Some i)
    note i = hash_index_Some [OF Some]
    have "places k os os' j \<noteq> None" using same i by (auto simp: places_def hash_index_None_iff len)
    then obtain i' where i': "places k os os' j = Some i'" by blast
    then have "i' < length xs" "xs ! i' = ys ! j" using hash_index_Some [OF i' [unfolded places_def]] same by (auto simp: len)
    then have "i' = i" using nth_eq_iff_index_eq [OF assms(1), of i' i] i by simp
    then show ?thesis using i' Some by simp
  qed
qed

lemma value_matches_cong: "(\<And>j. j \<in> set js \<Longrightarrow> hit j = hit' j) \<Longrightarrow> value_matches hit js = value_matches hit' js"
  unfolding value_matches_def by (rule map_filter_cong) simp

lemma value_matches_items:
  "map (\<lambda>(i, j). F (X ! i) (Y ! j)) (value_matches (\<lambda>j. hash_index (map h X) (h (Y ! j))) [0..<length Y]) =
     List.map_filter (\<lambda>y. map_option (\<lambda>x. F x y) (find (\<lambda>x. h x = h y) X)) Y"
proof -
  let ?g = "\<lambda>y. map_option (\<lambda>x. F x y) (find (\<lambda>x. h x = h y) X)"
  have "List.map_filter (\<lambda>j. ?g (Y ! j)) [0..<length Y] = List.map_filter ?g (map ((!) Y) [0..<length Y])" for Y
    by (simp only: map_filter_def filter_map map_map comp_def)
  then have "List.map_filter ?g Y = List.map_filter (\<lambda>j. ?g (Y ! j)) [0..<length Y]" by (simp add: map_nth)
  also have "\<dots> = List.map_filter (\<lambda>j. map_option (\<lambda>i. F (X ! i) (Y ! j)) (hash_index (map h X) (h (Y ! j)))) [0..<length Y]"
    by (rule map_filter_cong) (simp add: hash_index_find(1) [symmetric] option.map_comp comp_def)
  finally show ?thesis by (simp add: value_matches_def map_map_filter option.map_comp comp_def)
qed

lemma find_hash:
  assumes "inj_on blake3 (base64_data ` (set X \<union> set Y))" "y \<in> set Y"
  shows "find (\<lambda>x. blake3 (base64_data x) = blake3 (base64_data y)) X = find (\<lambda>x. base64_data x = base64_data y) X"
  by (rule find_cong) (use assms in \<open>auto dest: inj_onD\<close>)

lemma item_row_perm:
  assumes "mset Y' = mset Y" "distinct (map base64_data Y)"
  shows "item_row Y' = item_row Y"
proof -
  have d: "distinct (map base64_data Y')" "set Y' = set Y" using assms mset_eq_imp_distinct_iff [of "map base64_data Y'" "map base64_data Y"] mset_eq_setD by auto
  have "find (\<lambda>p. base64_data p = v) Y' = find (\<lambda>p. base64_data p = v) Y" for v
    by (rule option_eqI) (simp add: find_iff [OF d(1)] find_iff [OF assms(2)] d(2))
  then show ?thesis by (simp add: fun_eq_iff item_row_def peer_find_def)
qed

text \<open>The matches of the values, as rows of both parties.\<close>

lemma matched_rows:
  assumes d: "distinct (map base64_data X)" "distinct (map base64_data Y)" and Y': "mset Y' = mset Y"
    and inj: "inj_on blake3 (base64_data ` (set X \<union> set Y))"
    and v: "values_agree (item_hashes blake3 X) (item_hashes blake3 Y') os os'" "values_separate k (item_hashes blake3 X) (item_hashes blake3 Y') os os'"
    and R: "mset R = mset (value_matches (places k os os') [0..<length os'])"
  shows "mset (map (\<lambda>(i, j). (bi_index (X ! i), extra_dup_cnt (Y' ! j))) R) = mset (List.map_filter (item_row Y) X)"
    and "mset (map (\<lambda>(i, j). (bi_index (Y' ! j), extra_dup_cnt (X ! i))) R) = mset (List.map_filter (item_row X) Y)"
    and "(i, j) \<in> set R \<Longrightarrow> i < length X \<and> j < length Y'"
proof -
  let ?h = "\<lambda>item. blake3 (base64_data item)"
  have sets: "set Y' = set Y" using Y' by (rule mset_eq_setD)
  have d': "distinct (map base64_data Y')" using d(2) Y' mset_eq_imp_distinct_iff [of "map base64_data Y'" "map base64_data Y"] by simp
  have len: "length os' = length Y'" "length os = length X" using v(1) by (simp_all add: values_agree_def item_hashes_def)
  have dx: "distinct (item_hashes blake3 X)" using d(1) inj by (auto simp: item_hashes_def distinct_map inj_on_def)
  let ?V = "value_matches (\<lambda>j. hash_index (map ?h X) (?h (Y' ! j))) [0..<length Y']"
  have "places k os os' j = hash_index (map ?h X) (?h (Y' ! j))" if "j < length Y'" for j
    using places_inputs [OF dx v, of j] that by (simp add: item_hashes_def)
  then have "value_matches (places k os os') [0..<length os'] = ?V" unfolding len(1) by (intro value_matches_cong) simp
  then have R': "mset R = mset ?V" using R by simp
  then have sR: "set R = set ?V" by (rule mset_eq_setD)
  show "i < length X \<and> j < length Y'" if "(i, j) \<in> set R"
    using that hash_index_Some [of "map ?h X" _ i] unfolding sR value_matches_def set_map_filter_iff by auto
  have rows: "mset (map (\<lambda>(i, j). F (X ! i) (Y' ! j)) R) = mset (List.map_filter (\<lambda>y. map_option (\<lambda>x. F x y) (find (\<lambda>x. base64_data x = base64_data y) X)) Y')" for F :: "BucketItem \<Rightarrow> BucketItem \<Rightarrow> nat \<times> nat"
  proof -
    have "mset (map (\<lambda>(i, j). F (X ! i) (Y' ! j)) R) = mset (map (\<lambda>(i, j). F (X ! i) (Y' ! j)) ?V)" using R' by (simp only: mset_map)
    also have "\<dots> = mset (List.map_filter (\<lambda>y. map_option (\<lambda>x. F x y) (find (\<lambda>x. ?h x = ?h y) X)) Y')" by (rule arg_cong [OF value_matches_items [where h = ?h], of mset])
    also have "List.map_filter (\<lambda>y. map_option (\<lambda>x. F x y) (find (\<lambda>x. ?h x = ?h y) X)) Y' = List.map_filter (\<lambda>y. map_option (\<lambda>x. F x y) (find (\<lambda>x. base64_data x = base64_data y) X)) Y'"
      by (rule map_filter_cong) (simp add: find_hash [OF inj] sets)
    finally show ?thesis .
  qed
  have "mset (map (\<lambda>(i, j). (bi_index (X ! i), extra_dup_cnt (Y' ! j))) R) = mset (List.map_filter (item_row Y') X)"
    unfolding rows [of "\<lambda>x y. (bi_index x, extra_dup_cnt y)"] matches_symmetric [OF d(1) d'] item_row_def [abs_def] peer_find_def ..
  then show "mset (map (\<lambda>(i, j). (bi_index (X ! i), extra_dup_cnt (Y' ! j))) R) = mset (List.map_filter (item_row Y) X)"
    unfolding item_row_perm [OF Y' d(2)] .
  have "mset (map (\<lambda>(i, j). (bi_index (Y' ! j), extra_dup_cnt (X ! i))) R) = mset (List.map_filter (item_row X) Y')"
    unfolding rows [of "\<lambda>x y. (bi_index y, extra_dup_cnt x)"] item_row_def [abs_def] peer_find_def ..
  also have "\<dots> = mset (List.map_filter (item_row X) Y)" by (simp add: map_filter_def Y')
  finally show "mset (map (\<lambda>(i, j). (bi_index (Y' ! j), extra_dup_cnt (X ! i))) R) = mset (List.map_filter (item_row X) Y)" .
qed

section \<open>Writing the matches\<close>

lemma rr22_post_f_rows:
  assumes "writer_clean (kp_writer party)" "length cnts = length ks" "\<And>i. i \<in> set ks \<Longrightarrow> i < length items" "length items \<le> 2 ^ 32"
  shows "\<exists>party'. rr22_post_f idx items (map of_nat ks, cnts) party = Inr party' \<and>
     iw_file (kp_writer party') = iw_file (kp_writer party) @ zip (map (\<lambda>i. bi_index (items ! i)) ks) cnts \<and> writer_clean (kp_writer party')"
proof -
  let ?w = "kp_writer party" and ?f = "\<lambda>i. Some (bi_index (items ! (ks ! i)), cnts ! i)"
  have "unat (of_nat (ks ! i) :: 32 word) = ks ! i" if "i < length ks" for i
  proof -
    have "ks ! i < 2 ^ 32" using assms(3) [OF nth_mem [OF that]] assms(4) by linarith
    then show ?thesis by (simp add: unat_of_nat)
  qed
  then have "rfold (\<lambda>i w. rbind (at (map of_nat ks :: 32 word list) i) (\<lambda>k. rbind (at items (unat k)) (\<lambda>item. rbind (at cnts i) (\<lambda>cnt. IndexWriter_WriteCache1 (bi_index item) cnt w)))) [0..<length ks] ?w =
      rfold (\<lambda>i w. case ?f i of None \<Rightarrow> Inr w | Some (i, c) \<Rightarrow> IndexWriter_WriteCache1 i c w) [0..<length ks] ?w"
    using assms(2,3) by (intro rfold_cong) (simp add: at_def)
  also note rfold_write_rows [of ?w ?f "[0..<length ks]"]
  also have "List.map_filter ?f [0..<length ks] = zip (map (\<lambda>i. bi_index (items ! i)) ks) cnts"
    using assms(2) by (intro nth_equalityI) (simp_all add: map_filter_def)
  finally have loop: "rfold (\<lambda>i w. rbind (at (map of_nat ks :: 32 word list) i) (\<lambda>k. rbind (at items (unat k)) (\<lambda>item. rbind (at cnts i) (\<lambda>cnt. IndexWriter_WriteCache1 (bi_index item) cnt w)))) [0..<length ks] ?w =
      Inr (?w \<lparr> iw_cache := zip (map (\<lambda>i. bi_index (items ! i)) ks) cnts, iw_cache_cnt := length (zip (map (\<lambda>i. bi_index (items ! i)) ks) cnts), iw_write_cnt := iw_write_cnt ?w + length ks \<rparr>)"
    using assms(1,2) by (simp add: writer_clean_def)
  obtain w' where w': "IndexWriter_Commit (?w \<lparr> iw_cache := zip (map (\<lambda>i. bi_index (items ! i)) ks) cnts, iw_cache_cnt := length (zip (map (\<lambda>i. bi_index (items ! i)) ks) cnts), iw_write_cnt := iw_write_cnt ?w + length ks \<rparr>) = Inr w'"
    "iw_file w' = iw_file ?w @ zip (map (\<lambda>i. bi_index (items ! i)) ks) cnts" "writer_clean w'"
    using commit_rows [where w = ?w and rows = "zip (map (\<lambda>i. bi_index (items ! i)) ks) cnts" and k = "iw_write_cnt ?w + length ks"] assms(1) by (auto simp: writer_clean_def)
  show ?thesis unfolding rr22_post_f_def prod.case length_map loop rbind_Inr w'(1) using w'(2,3) by simp
qed

section \<open>A bucket\<close>

text \<open>
  What the oblivious evaluation of a bucket needs: the correlation and the key-value store of the fast mode, or those of the low-communication mode, in which the common
  inputs must be outside the blocks of 32 on both sides.
\<close>

definition oprf_ready :: "OprfEnv \<Rightarrow> BucketRand \<Rightarrow> Rr22OprfReceiver \<Rightarrow> Rr22OprfSender \<Rightarrow> 128 word list \<Rightarrow> 128 word list \<Rightarrow> bool" where
  "oprf_ready env rnd r s xs ys \<longleftrightarrow>
     (case ro_mode r of
        FastMode \<Rightarrow> oprf_pair env (rd_vole rnd) r s \<and> (\<exists>bx. run_baxos env (rd_seed rnd) (length xs) (ro_bin_size r) (ro_ssp r) = Inr bx \<and> baxos_good (env_log2_ceil env) bx xs)
      | LowCommMode \<Rightarrow> low_pair env (rd_vole rnd) r s \<and> low_good env (rd_seed rnd) (env_param_of env (length xs) kPaxosWeight (ro_ssp r) Binary) xs \<and>
          (\<forall>i < length xs. \<forall>j < length ys. xs ! i = ys ! j \<longrightarrow> length xs div 32 * 32 \<le> i \<and> length ys div 32 * 32 \<le> j))"

lemma oprf_ready_agree:
  assumes "oprf_ready env rnd r s xs ys" "Oprf_run env (rd_vole rnd) (rd_seed rnd) ws wr tr ts r s xs ys = Some (Inr (os, os'))"
  shows "values_agree xs ys os os'"
proof (cases "ro_mode r")
  case FastMode
  then obtain bx where "oprf_pair env (rd_vole rnd) r s" "run_baxos env (rd_seed rnd) (length xs) (ro_bin_size r) (ro_ssp r) = Inr bx" "baxos_good (env_log2_ceil env) bx xs"
    using assms(1) by (auto simp: oprf_ready_def)
  from fast_values_agree [OF this(1) FastMode this(2,3), of ws wr tr ts ys] show ?thesis using assms(2) unfolding values_agree_def by auto
next
  case LowCommMode
  then have "low_pair env (rd_vole rnd) r s" "low_good env (rd_seed rnd) (env_param_of env (length xs) kPaxosWeight (ro_ssp r) Binary) xs"
    "\<forall>i < length xs. \<forall>j < length ys. xs ! i = ys ! j \<longrightarrow> length xs div 32 * 32 \<le> i \<and> length ys div 32 * 32 \<le> j"
    using assms(1) by (auto simp: oprf_ready_def)
  with low_values_agree [OF this(1,2), of ws wr tr ts ys] show ?thesis using assms(2) unfolding values_agree_def by auto
qed

definition mask_size_of :: "Rr22Env \<Rightarrow> Rr22PsiOptions \<Rightarrow> nat \<Rightarrow> nat \<Rightarrow> nat" where
  "mask_size_of env options n m = (if po_compress options then ComputeTruncateSize env n m (po_ssp options) (po_malicious options) else 16)"

definition rr22_good :: "Rr22Env \<Rightarrow> Rr22PsiOptions \<Rightarrow> BucketRand \<Rightarrow> BucketItem list \<Rightarrow> BucketItem list \<Rightarrow> bool" where
  "rr22_good env options rnd X Y \<longleftrightarrow>
     permutes (rd_perm rnd) (length Y) \<and> length X \<le> 2 ^ 32 \<and> length Y \<le> 2 ^ 32 \<and>
     (X \<noteq> [] \<and> Y \<noteq> [] \<longrightarrow>
       (\<exists>r s os os'. Rr22OprfReceiver_new (po_oprf_bin_size options) (po_ssp options) (po_mode options) (po_malicious options) = Inr r \<and>
          Rr22OprfSender_new (po_oprf_bin_size options) (po_ssp options) (po_mode options) (po_malicious options) = Inr s \<and>
          (let xs = item_hashes (re_blake3 env) X; ys = item_hashes (re_blake3 env) (map ((!) Y) (rd_perm rnd)) in
           oprf_ready (re_oprf env) rnd r s xs ys \<and>
           Oprf_run (re_oprf env) (rd_vole rnd) (rd_seed rnd) (rd_ws rnd) (rd_wr rnd) (po_num_threads options) (po_num_threads options) r s xs ys = Some (Inr (os, os')) \<and>
           values_separate (mask_size_of env options (length X) (length Y)) xs ys os os')))"

lemma mask_size_commute: "ComputeTruncateSize env n m ssp malicious = ComputeTruncateSize env m n ssp malicious"
  by (simp add: ComputeTruncateSize_def mult.commute)

lemma ExchangeTruncateSize_pair:
  "ExchangeTruncateSize env 0 [n, m] n options = Inr (mask_size_of env options n m, m)"
  "ExchangeTruncateSize env 1 [n, m] m options = Inr (mask_size_of env options n m, n)"
  by (simp_all add: ExchangeTruncateSize_def mask_size_of_def at_def mask_size_commute [of env m n])

lemma shuffled:
  assumes "permutes p (length Y)"
  shows "mset (map ((!) Y) p) = mset Y" "length (map ((!) Y) p) = length Y"
proof -
  have "mset (map ((!) Y) p) = mset (map ((!) Y) [0..<length Y])" using assms by (simp add: permutes_def)
  then show "mset (map ((!) Y) p) = mset Y" by (simp add: map_nth)
  show "length (map ((!) Y) p) = length Y" using permutesD(1) [OF assms] by simp
qed

lemma Oprf_run_phases:
  assumes "Oprf_run env vole seed ws wr tr ts r s xs ys = Some (Inr (os, os'))"
  shows "\<exists>r' s'. Rr22OprfReceiver_Init env vole seed (length xs) tr r = Inr r' \<and> Rr22OprfSender_Init env vole seed (length xs) ts s = Inr s' \<and>
     Oprf_exchange env ws wr r' s' xs ys = Some (Inr (os, os'))"
  using assms by (auto simp: Oprf_run_def obind_def split: sum.splits)

lemma rr22_prepare_null:
  assumes "rr22_pre_f c self idx = Inr X" "rr22_pre_f c peer idx = Inr Y" "X = [] \<or> Y = []" "permutes (rd_perm rnd) (length Y)"
    and "Rr22OprfReceiver_new (po_oprf_bin_size options) (po_ssp options) (po_mode options) (po_malicious options) = Inr r"
    and "Rr22OprfSender_new (po_oprf_bin_size options) (po_ssp options) (po_mode options) (po_malicious options) = Inr s"
  shows "\<exists>cr cs. rr22_prepare c env options rnd broadcast self peer idx = Inr (cr, cs) \<and> bc_null_bucket cr \<and> bc_null_bucket cs \<and>
     bc_broadcast_result cr = broadcast \<and> bc_broadcast_result cs = broadcast"
  using assms(1-3,5,6) shuffled(2) [OF assms(4)] ExchangeTruncateSize_pair [where n = "length X" and m = "length Y"]
  by (auto simp: rr22_prepare_def BucketRr22Receiver_new_def BucketRr22Sender_new_def BucketRr22Receiver_Prepare_def BucketRr22Sender_Prepare_def Let_def)

lemma rr22_prepare_full:
  assumes "rr22_pre_f c self idx = Inr X" "rr22_pre_f c peer idx = Inr Y" "X \<noteq> []" "Y \<noteq> []" "permutes (rd_perm rnd) (length Y)"
    and "Rr22OprfReceiver_new (po_oprf_bin_size options) (po_ssp options) (po_mode options) (po_malicious options) = Inr r"
    and "Rr22OprfSender_new (po_oprf_bin_size options) (po_ssp options) (po_mode options) (po_malicious options) = Inr s"
    and "Rr22OprfReceiver_Init (re_oprf env) (rd_vole rnd) (rd_seed rnd) (length X) (po_num_threads options) r = Inr r'"
    and "Rr22OprfSender_Init (re_oprf env) (rd_vole rnd) (rd_seed rnd) (length X) (po_num_threads options) s = Inr s'"
  shows "\<exists>cr cs. rr22_prepare c env options rnd broadcast self peer idx = Inr (cr, cs) \<and> \<not> bc_null_bucket cr \<and> \<not> bc_null_bucket cs \<and>
     bc_broadcast_result cr = broadcast \<and> bc_broadcast_result cs = broadcast \<and> bc_options cr = options \<and> bc_peer_size cr = length Y \<and>
     bc_mask_size cr = mask_size_of env options (length X) (length Y) \<and> bc_mask_size cs = mask_size_of env options (length X) (length Y) \<and>
     bc_oprf_receiver cr = r' \<and> bc_oprf_sender cs = s' \<and> bc_bucket_items cr = X \<and> bc_bucket_items cs = map ((!) Y) (rd_perm rnd) \<and>
     bc_inputs_hash cr = item_hashes (re_blake3 env) X \<and> bc_inputs_hash cs = item_hashes (re_blake3 env) (map ((!) Y) (rd_perm rnd))"
  using assms(1-4,6-9) shuffled(2) [OF assms(5)] ExchangeTruncateSize_pair [where n = "length X" and m = "length Y"]
  by (cases "rd_perm rnd = []") (simp_all add: rr22_prepare_def BucketRr22Receiver_new_def BucketRr22Sender_new_def BucketRr22Receiver_Prepare_def BucketRr22Sender_Prepare_def Let_def)

text \<open>What a bucket adds to the index files of the parties.\<close>

lemma rr22_bucket_ok:
  assumes pre: "rr22_pre_f c self idx = Inr X" "rr22_pre_f c peer idx = Inr Y"
    and d: "distinct (map base64_data X)" "distinct (map base64_data Y)"
    and inj: "inj_on (re_blake3 env) (base64_data ` (set X \<union> set Y))"
    and good: "rr22_good env options (rnd idx) X Y" and opt: "0 < po_num_threads options" "po_malicious options \<longrightarrow> po_mode options = FastMode"
    and par: "dense_ok (re_dense env)" "split_ok (re_split env)"
    and w: "writer_clean (kp_writer r)" "writer_clean (kp_writer s)"
  shows "\<exists>r' s'. rr22_bucket c env options rnd broadcast self peer idx (r, s) = Some (Inr (r', s')) \<and>
     mset (iw_file (kp_writer r')) = mset (iw_file (kp_writer r)) + mset (List.map_filter (item_row Y) X) \<and>
     mset (iw_file (kp_writer s')) = mset (iw_file (kp_writer s)) + mset (if broadcast then List.map_filter (item_row X) Y else []) \<and>
     writer_clean (kp_writer r') \<and> writer_clean (kp_writer s')"
proof -
  let ?rnd = "rnd idx" and ?Y = "map ((!) Y) (rd_perm (rnd idx))" and ?k = "mask_size_of env options (length X) (length Y)"
  have perm: "permutes (rd_perm ?rnd) (length Y)" and size: "length X \<le> 2 ^ 32" "length ?Y \<le> 2 ^ 32"
    using good shuffled(2) [of "rd_perm ?rnd" Y] by (auto simp: rr22_good_def)
  obtain ro so where new: "Rr22OprfReceiver_new (po_oprf_bin_size options) (po_ssp options) (po_mode options) (po_malicious options) = Inr ro"
    "Rr22OprfSender_new (po_oprf_bin_size options) (po_ssp options) (po_mode options) (po_malicious options) = Inr so"
    using opt(2) by (auto simp: Rr22OprfReceiver_new_def Rr22OprfSender_new_def)
  show ?thesis
  proof (cases "X = [] \<or> Y = []")
    case True
    obtain cr cs where p: "rr22_prepare c env options ?rnd broadcast self peer idx = Inr (cr, cs)" "bc_null_bucket cr" "bc_null_bucket cs"
      "bc_broadcast_result cr = broadcast" "bc_broadcast_result cs = broadcast"
      using rr22_prepare_null [OF pre True perm new, of env broadcast] by blast
    obtain r' where r': "rr22_post_f idx (bc_bucket_items cr) (map of_nat [], []) r = Inr r'" "iw_file (kp_writer r') = iw_file (kp_writer r)" "writer_clean (kp_writer r')"
      using rr22_post_f_rows [OF w(1), of "[]" "[]" "[]" idx] by (auto simp: rr22_post_f_def)
    obtain s' where s': "rr22_post_f idx (bc_bucket_items cs) (map of_nat [], []) s = Inr s'" "iw_file (kp_writer s') = iw_file (kp_writer s)" "writer_clean (kp_writer s')"
      using rr22_post_f_rows [OF w(2), of "[]" "[]" "[]" idx] by (auto simp: rr22_post_f_def)
    have none: "List.map_filter (item_row Y) X = []" "List.map_filter (item_row X) Y = []" using True by (auto intro!: map_filter_row_Nil)
    have "rr22_bucket c env options rnd broadcast self peer idx (r, s) = Some (Inr (r', s'))"
      using p r'(1) s'(1) by (simp add: rr22_bucket_def rr22_evaluate_def BucketRr22_RunOprf_def BucketRr22_GetIntersection_def obind_def)
    then show ?thesis using r'(2,3) s'(2,3) none by simp
  next
    case False
    let ?xs = "item_hashes (re_blake3 env) X" and ?ys = "item_hashes (re_blake3 env) ?Y"
    obtain os os' where run: "oprf_ready (re_oprf env) ?rnd ro so ?xs ?ys"
      "Oprf_run (re_oprf env) (rd_vole ?rnd) (rd_seed ?rnd) (rd_ws ?rnd) (rd_wr ?rnd) (po_num_threads options) (po_num_threads options) ro so ?xs ?ys = Some (Inr (os, os'))"
      "values_separate ?k ?xs ?ys os os'"
      using good False new by (auto simp: rr22_good_def Let_def)
    note agree = oprf_ready_agree [OF run(1,2)]
    have len: "length os = length X" "length os' = length Y" "length ?xs = length X" "0 < length os'"
      using agree shuffled(2) [OF perm] False by (auto simp: values_agree_def item_hashes_def)
    obtain ro' so' where ph: "Rr22OprfReceiver_Init (re_oprf env) (rd_vole ?rnd) (rd_seed ?rnd) (length X) (po_num_threads options) ro = Inr ro'"
      "Rr22OprfSender_Init (re_oprf env) (rd_vole ?rnd) (rd_seed ?rnd) (length X) (po_num_threads options) so = Inr so'"
      "Oprf_exchange (re_oprf env) (rd_ws ?rnd) (rd_wr ?rnd) ro' so' ?xs ?ys = Some (Inr (os, os'))"
      using Oprf_run_phases [OF run(2)] len(3) by auto
    obtain cr cs where p: "rr22_prepare c env options ?rnd broadcast self peer idx = Inr (cr, cs)" "\<not> bc_null_bucket cr" "\<not> bc_null_bucket cs"
      "bc_broadcast_result cr = broadcast" "bc_broadcast_result cs = broadcast" "bc_options cr = options" "bc_peer_size cr = length Y"
      "bc_mask_size cr = ?k" "bc_mask_size cs = ?k" "bc_oprf_receiver cr = ro'" "bc_oprf_sender cs = so'" "bc_bucket_items cr = X" "bc_bucket_items cs = ?Y"
      "bc_inputs_hash cr = ?xs" "bc_inputs_hash cs = ?ys"
      using rr22_prepare_full [OF pre _ _ perm new ph(1,2), of broadcast] False by blast
    define R where "R = value_matches (places ?k os os') (merge_order (re_split env) (po_num_threads options) (length os'))"
    have usable: "values_usable ?k os os'" using run(3) by (simp add: values_separate_def)
    have leY: "length ?Y = length os'" using len(2) shuffled(2) [OF perm] by simp
    note gi = GetIntersection_run [OF par usable opt(1) len(1) [symmetric] leY len(4) R_def]
    note rows = matched_rows [OF d shuffled(1) [OF perm] inj agree run(3) gi(2)]
    let ?found = "map (\<lambda>(i, j). of_nat i :: 32 word) R" and ?found' = "map (\<lambda>(i, j). of_nat j :: 32 word) R"
    let ?cnt = "map (\<lambda>(i, j). extra_dup_cnt (?Y ! j)) R" and ?cnt' = "map (\<lambda>(i, j). extra_dup_cnt (X ! i)) R"
    have idx: "?found = map of_nat (map fst R)" "?found' = map of_nat (map snd R)" by (simp_all add: case_prod_beta')
    have zips: "zip (map (\<lambda>i. bi_index (X ! i)) (map fst R)) ?cnt = map (\<lambda>(i, j). (bi_index (X ! i), extra_dup_cnt (?Y ! j))) R"
      "zip (map (\<lambda>j. bi_index (?Y ! j)) (map snd R)) ?cnt' = map (\<lambda>(i, j). (bi_index (?Y ! j), extra_dup_cnt (X ! i))) R"
      by (induction R) auto
    have lt: "i < length X" if "i \<in> set (map fst R)" for i using that rows(3) by fastforce
    have lt': "j < length ?Y" if "j \<in> set (map snd R)" for j using that rows(3) by fastforce
    obtain r' where r': "rr22_post_f idx X (?found, ?cnt) r = Inr r'" "mset (iw_file (kp_writer r')) = mset (iw_file (kp_writer r)) + mset (List.map_filter (item_row Y) X)" "writer_clean (kp_writer r')"
      using rr22_post_f_rows [where ks = "map fst R", OF w(1) _ lt size(1), where cnts = ?cnt and idx = idx] unfolding idx(1) zips(1) rows(1) [symmetric] by (auto simp del: map_map)
    obtain s' where s': "rr22_post_f idx ?Y (if broadcast then (?found', ?cnt') else ([], [])) s = Inr s'"
      "mset (iw_file (kp_writer s')) = mset (iw_file (kp_writer s)) + mset (if broadcast then List.map_filter (item_row X) Y else [])" "writer_clean (kp_writer s')"
    proof (cases broadcast)
      case True
      then show ?thesis using that rr22_post_f_rows [where ks = "map snd R", OF w(2) _ lt' size(2), where cnts = ?cnt' and idx = idx] rows(2) unfolding idx(2) zips(2) by (auto simp del: map_map)
    next
      case False
      then show ?thesis using that rr22_post_f_rows [OF w(2) _ _ size(2), of "[]" "[]" idx] by auto
    qed
    have "BucketRr22_RunOprf env ?rnd (cr, cs) = Some (Inr (cr \<lparr> bc_oprfs := os \<rparr>, cs \<lparr> bc_oprfs := os' \<rparr>))"
      using p ph(3) by (simp add: BucketRr22_RunOprf_def obind_def)
    moreover have "BucketRr22_GetIntersection env (cr \<lparr> bc_oprfs := os \<rparr>, cs \<lparr> bc_oprfs := os' \<rparr>) = Some (Inr ((?found, ?cnt), if broadcast then (?found', ?cnt') else ([], [])))"
      using p gi(1) len(2) by (simp add: BucketRr22_GetIntersection_def)
    ultimately have "rr22_bucket c env options rnd broadcast self peer idx (r, s) = Some (Inr (r', s'))"
      using p(1,12,13) r'(1) s'(1) by (simp add: rr22_bucket_def rr22_evaluate_def obind_def)
    then show ?thesis using r'(2,3) s'(2,3) by blast
  qed
qed

section \<open>From tables to index files\<close>

definition rr22_buckets_good :: "codec \<Rightarrow> Rr22Env \<Rightarrow> Rr22PsiOptions \<Rightarrow> (nat \<Rightarrow> BucketRand) \<Rightarrow> nat \<Rightarrow> (string \<times> nat) list \<Rightarrow> (string \<times> nat) list \<Rightarrow> bool" where
  "rr22_buckets_good c env options rnd n xs ys \<longleftrightarrow> (\<forall>b < n. rr22_good env options (rnd b) (bucket_part c n xs b) (bucket_part c n ys b))"

lemma rr22_buckets_ok:
  assumes codec: "codec_ok c" and st: "holds c n xs self" "holds c n ys peer" and bs: "\<forall>b \<in> set bs. b < n"
    and d: "distinct (map fst xs)" "distinct (map fst ys)"
    and inj: "inj_on (re_blake3 env) (b64 c ` fst ` set xs \<union> b64 c ` fst ` set ys)"
    and par: "dense_ok (re_dense env)" "split_ok (re_split env)"
    and opt: "0 < po_num_threads options" "po_malicious options \<longrightarrow> po_mode options = FastMode" and good: "rr22_buckets_good c env options rnd n xs ys"
    and w: "writer_clean (kp_writer r)" "writer_clean (kp_writer s)"
  shows "\<exists>r' s'. ofold (rr22_bucket c env options rnd broadcast self peer) bs (r, s) = Some (Inr (r', s')) \<and>
     mset (iw_file (kp_writer r')) = mset (iw_file (kp_writer r)) + mset (concat (map (\<lambda>b. List.map_filter (item_row (bucket_part c n ys b)) (bucket_part c n xs b)) bs)) \<and>
     mset (iw_file (kp_writer s')) = mset (iw_file (kp_writer s)) +
       mset (if broadcast then concat (map (\<lambda>b. List.map_filter (item_row (bucket_part c n xs b)) (bucket_part c n ys b)) bs) else []) \<and>
     writer_clean (kp_writer r') \<and> writer_clean (kp_writer s')"
  using bs w
proof (induction bs arbitrary: r s)
  case (Cons b bs)
  let ?X = "bucket_part c n xs b" and ?Y = "bucket_part c n ys b"
  have b: "b < n" "length (hb_files self) = n" "length (hb_files peer) = n" using Cons.prems(1) st by (auto simp: holds_def)
  have pre: "rr22_pre_f c self b = Inr ?X" "rr22_pre_f c peer b = Inr ?Y"
    using holds_load [OF codec st(1) b(1)] holds_load [OF codec st(2) b(1)] b by (simp_all add: rr22_pre_f_def bucket_part_def)
  have inj': "inj_on (re_blake3 env) (base64_data ` (set ?X \<union> set ?Y))"
    unfolding image_Un by (rule inj_on_subset [OF inj]) (intro Un_mono bucket_part_data)
  have g: "rr22_good env options (rnd b) ?X ?Y" using good b(1) by (simp add: rr22_buckets_good_def)
  from rr22_bucket_ok [where rnd = rnd, OF pre items_of_distinct [OF codec d(1)] items_of_distinct [OF codec d(2)] inj' g opt par Cons.prems(2,3), of broadcast]
  obtain r1 s1 where r1: "rr22_bucket c env options rnd broadcast self peer b (r, s) = Some (Inr (r1, s1))"
    "mset (iw_file (kp_writer r1)) = mset (iw_file (kp_writer r)) + mset (List.map_filter (item_row ?Y) ?X)"
    "mset (iw_file (kp_writer s1)) = mset (iw_file (kp_writer s)) + mset (if broadcast then List.map_filter (item_row ?X) ?Y else [])"
    "writer_clean (kp_writer r1)" "writer_clean (kp_writer s1)" by blast
  from Cons.IH [OF _ r1(4,5)] Cons.prems(1) obtain r2 s2 where
    "ofold (rr22_bucket c env options rnd broadcast self peer) bs (r1, s1) = Some (Inr (r2, s2))"
    "mset (iw_file (kp_writer r2)) = mset (iw_file (kp_writer r1)) + mset (concat (map (\<lambda>b. List.map_filter (item_row (bucket_part c n ys b)) (bucket_part c n xs b)) bs))"
    "mset (iw_file (kp_writer s2)) = mset (iw_file (kp_writer s1)) +
       mset (if broadcast then concat (map (\<lambda>b. List.map_filter (item_row (bucket_part c n xs b)) (bucket_part c n ys b)) bs) else [])"
    "writer_clean (kp_writer r2)" "writer_clean (kp_writer s2)" by auto
  then show ?case using r1(1-3) by (cases broadcast) (simp_all add: obind_def)
qed simp

lemma AsyncRun_Run:
  assumes "Rr22Runner_Run c env options rnd broadcast self peer start_idx st = Some (Inr st')"
  shows "Rr22Runner_AsyncRun c env options rnd broadcast self peer start_idx st = Some (Inr st')"
proof -
  have "list_all (\<lambda>idx. case rr22_evaluate c env options rnd broadcast self peer idx of Some (Inr _) \<Rightarrow> True | _ \<Rightarrow> False) bs"
    if "ofold (rr22_bucket c env options rnd broadcast self peer) bs st = Some (Inr st')" for bs
    using that
  proof (induction bs arbitrary: st)
    case (Cons b bs)
    then obtain st1 where st1: "rr22_bucket c env options rnd broadcast self peer b st = Some (Inr st1)" "ofold (rr22_bucket c env options rnd broadcast self peer) bs st1 = Some (Inr st')"
      by (auto simp: obind_def split: option.splits sum.splits)
    then show ?case using Cons.IH [OF st1(2)] by (auto simp: rr22_bucket_def obind_def split: option.splits sum.splits prod.splits)
  qed simp
  then show ?thesis using assms by (simp add: Rr22Runner_AsyncRun_def Rr22Runner_Run_def)
qed

lemma GenerateRr22PsiOptions_ok:
  assumes "GenerateRr22PsiOptions procs low = Inr options"
  shows "0 < po_num_threads options" "\<not> po_malicious options" "po_compress options" "po_ssp options = 40" "po_oprf_bin_size options = 2 ^ 14"
    "po_mode options = (if low then LowCommMode else FastMode)"
  using assms by (auto simp: GenerateRr22PsiOptions_def Rr22PsiOptions_new_def kDefaultSSP_def kDefaultCompress_def)

lemma Rr22_online_ok:
  assumes codec: "codec_ok c" and st: "holds c n xs self" "holds c n ys peer"
    and d: "distinct (map fst xs)" "distinct (map fst ys)"
    and inj: "inj_on (re_blake3 env) (b64 c ` fst ` set xs \<union> b64 c ` fst ` set ys)"
    and par: "dense_ok (re_dense env)" "split_ok (re_split env)"
    and opt: "GenerateRr22PsiOptions procs low = Inr options" and good: "rr22_buckets_good c env options rnd n xs ys"
    and r: "\<not> kp_digest_equal r" "kp_bucket_count r = n" "kp_cache r = Some self" "kp_recovery r = None" "writer_clean (kp_writer r)" "iw_file (kp_writer r) = []"
    and s: "\<not> kp_digest_equal s" "kp_bucket_count s = n" "kp_cache s = Some peer" "kp_recovery s = None" "writer_clean (kp_writer s)" "iw_file (kp_writer s) = []"
  shows "\<exists>r' s'. Rr22_Online c env procs low rnd broadcast (r, s) = Some (Inr (r', s')) \<and>
     sort_key fst (iw_file (kp_writer r')) = store_matches xs ys \<and>
     sort_key fst (iw_file (kp_writer s')) = (if broadcast then store_matches ys xs else []) \<and>
     writer_clean (kp_writer r') \<and> writer_clean (kp_writer s')"
proof -
  have n: "0 < n" "length (hb_files self) = n" using st(1) by (auto simp: holds_def)
  have mal: "po_malicious options \<longrightarrow> po_mode options = FastMode" using GenerateRr22PsiOptions_ok(2) [OF opt] by simp
  obtain r' s' where run: "Rr22Runner_Run c env options rnd broadcast self peer 0 (r, s) = Some (Inr (r', s'))"
    "mset (iw_file (kp_writer r')) = mset (concat (map (\<lambda>b. List.map_filter (item_row (bucket_part c n ys b)) (bucket_part c n xs b)) [0..<n]))"
    "mset (iw_file (kp_writer s')) = mset (if broadcast then concat (map (\<lambda>b. List.map_filter (item_row (bucket_part c n xs b)) (bucket_part c n ys b)) [0..<n]) else [])"
    "writer_clean (kp_writer r')" "writer_clean (kp_writer s')"
    using rr22_buckets_ok [OF codec st _ d inj par GenerateRr22PsiOptions_ok(1) [OF opt] mal good r(5) s(5), of "[0..<n]" broadcast] r(6) s(6) n
    by (auto simp: Rr22Runner_Run_def)
  have "sort_key fst (iw_file (kp_writer r')) = store_matches xs ys"
    using run(2) bucket_rows [OF codec n(1), of ys xs] by (intro sort_key_distinct_eqI store_matches_ascending) (simp add: bucket_part_def)
  moreover have "sort_key fst (iw_file (kp_writer s')) = (if broadcast then store_matches ys xs else [])"
    using run(3) bucket_rows [OF codec n(1), of xs ys]
    by (cases broadcast) (auto simp: bucket_part_def intro!: sort_key_distinct_eqI store_matches_ascending)
  ultimately show ?thesis
    using AsyncRun_Run [OF run(1)] run(4,5) r(1-4) s(1-4) n opt by (simp add: Rr22_Online_def online_start_def obind_def)
qed

lemma Rr22_tables_rows:
  assumes codec: "codec_ok c" and bs: "0 < bucket_size" and p: "Sorted_inv pa" "Sorted_inv pb"
    and K: "Ka = keys_dup (Sorted_remaining pa)" "Kb = keys_dup (Sorted_remaining pb)"
    and d: "distinct (map fst Ka)" "distinct (map fst Kb)"
    and inj: "inj_on (re_blake3 env) (b64 c ` fst ` set Ka \<union> b64 c ` fst ` set Kb)"
    and n: "NegotiateBucketNum (length Ka) [length Ka, length Kb] bucket_size = Inr n"
    and par: "dense_ok (re_dense env)" "split_ok (re_split env)"
    and opt: "GenerateRr22PsiOptions procs low = Inr options" and good: "rr22_buckets_good c env options rnd n Ka Kb"
    and w: "writer_clean wa" "iw_file wa = []" "writer_clean wb" "iw_file wb = []"
  shows "\<exists>(r :: 'c KkrtParty) s r' s'.
     Rr22_PreProcess c Sorted_ReadNextBatchWithDupCnt pa (length Ka) [length Ka, length Kb] bucket_size (fresh_party wa) = Some (Inr r) \<and>
     Rr22_PreProcess c Sorted_ReadNextBatchWithDupCnt pb (length Kb) [length Ka, length Kb] bucket_size (fresh_party wb) = Some (Inr s) \<and>
     Rr22_Online c env procs low rnd broadcast (r, s) = Some (Inr (r', s')) \<and>
     sort_key fst (iw_file (kp_writer r')) = store_matches Ka Kb \<and>
     sort_key fst (iw_file (kp_writer s')) = (if broadcast then store_matches Kb Ka else []) \<and>
     writer_clean (kp_writer r') \<and> writer_clean (kp_writer s')"
proof -
  have n': "NegotiateBucketNum (length Kb) [length Ka, length Kb] bucket_size = Inr n" "n = 0 \<Longrightarrow> Ka = [] \<or> Kb = []"
    using n NegotiateBucketNum_pair [OF bs, where a = "length Ka" and b = "length Kb"] ceil_div(3) [OF bs, of "length Ka"]
    by (auto split: if_splits)
  obtain r :: "'c KkrtParty" where r: "Kkrt_PreProcess c Sorted_ReadNextBatchWithDupCnt pa (length Ka) [length Ka, length Kb] bucket_size (fresh_party wa) = Some (Inr r)"
    "\<not> kp_digest_equal r" "kp_bucket_count r = n" "kp_recovery r = None" "kp_writer r = wa" "0 < n \<longrightarrow> (\<exists>cache. kp_cache r = Some cache \<and> holds c n Ka cache)"
    using PreProcess_sorted [OF p(1) n, of c wa] K(1) by auto
  obtain s :: "'c KkrtParty" where s: "Kkrt_PreProcess c Sorted_ReadNextBatchWithDupCnt pb (length Kb) [length Ka, length Kb] bucket_size (fresh_party wb) = Some (Inr s)"
    "\<not> kp_digest_equal s" "kp_bucket_count s = n" "kp_recovery s = None" "kp_writer s = wb" "0 < n \<longrightarrow> (\<exists>cache. kp_cache s = Some cache \<and> holds c n Kb cache)"
    using PreProcess_sorted [OF p(2) n'(1), of c wb] K(2) by auto
  show ?thesis
  proof (cases "n = 0")
    case True
    then have "store_matches Ka Kb = []" "store_matches Kb Ka = []" using n'(2) by auto
    moreover have "Rr22_Online c env procs low rnd broadcast (r, s) = Some (Inr (r, s))" using True r(2,3) s(2,3) by (simp add: Rr22_Online_def)
    ultimately show ?thesis using r(1,5) s(1,5) w by (intro exI [of _ r] exI [of _ s]) (simp add: Rr22_PreProcess_eq)
  next
    case False
    then obtain self peer where st: "kp_cache r = Some self" "holds c n Ka self" "kp_cache s = Some peer" "holds c n Kb peer"
      using r(6) s(6) by auto
    from Rr22_online_ok [OF codec st(2,4) d inj par opt good r(2,3) st(1) r(4) _ _ s(2,3) st(3) s(4), of broadcast]
    show ?thesis using r(1,5) s(1,5) w unfolding Rr22_PreProcess_eq by blast
  qed
qed

text \<open>
  C13. The RR22 parties as a whole, in both modes, without recovery: from two tables whose keys are grouped, pre-processing agrees on the buckets and fills the stores,
  and the online phase ends and leaves in the index file of the receiver exactly one row for every key it shares with the sender, with the position of the key and the
  sender's duplicate count; with broadcasting the index file of the sender is the mirror image, although the sender shuffles its items, and without it the sender learns
  nothing. This includes empty tables and empty buckets. What is assumed of a bucket: the store of the receiver's inputs can be solved, different inputs have different
  truncated values, and in low-communication mode the common inputs are outside the blocks of 32.
\<close>

theorem Rr22_tables_correct:
  assumes "codec_ok c" "0 < bucket_size" "Sorted_inv pa" "Sorted_inv pb"
    and "Ka = keys_dup (Sorted_remaining pa)" "Kb = keys_dup (Sorted_remaining pb)"
    and "distinct (map fst Ka)" "distinct (map fst Kb)"
    and "inj_on (re_blake3 env) (b64 c ` fst ` set Ka \<union> b64 c ` fst ` set Kb)"
    and "NegotiateBucketNum (length Ka) [length Ka, length Kb] bucket_size = Inr n"
    and "dense_ok (re_dense env)" "split_ok (re_split env)"
    and "GenerateRr22PsiOptions procs low = Inr options" "rr22_buckets_good c env options rnd n Ka Kb"
    and "writer_clean wa" "iw_file wa = []" "writer_clean wb" "iw_file wb = []"
  shows "\<exists>(r :: 'c KkrtParty) s r' s'.
     Rr22_PreProcess c Sorted_ReadNextBatchWithDupCnt pa (length Ka) [length Ka, length Kb] bucket_size (fresh_party wa) = Some (Inr r) \<and>
     Rr22_PreProcess c Sorted_ReadNextBatchWithDupCnt pb (length Kb) [length Ka, length Kb] bucket_size (fresh_party wb) = Some (Inr s) \<and>
     Rr22_Online c env procs low rnd broadcast (r, s) = Some (Inr (r', s')) \<and>
     sort_key fst (iw_file (kp_writer r')) = store_matches Ka Kb \<and>
     sort_key fst (iw_file (kp_writer s')) = (if broadcast then store_matches Kb Ka else [])"
  using Rr22_tables_rows [OF assms] by blast

text \<open>An environment in which the hash of an item is its length plus one, with a correlation for tests, and three keys against two.\<close>

definition power_or_0 :: "nat \<Rightarrow> 128 word" where
  "power_or_0 i = (if i < 7 then 2 ^ i else 0)"

definition count_vole :: Vole where
  "count_vole = \<lparr> vo_delta = 77, vo_a = (\<lambda>n. fst (MocVole_Recv (\<lambda>_ n. replicate n 5) (\<lambda>_ n. map power_or_0 [0..<n]) 0 n)), vo_a64 = (\<lambda>n. replicate n 5),
     vo_b = MocVole_Send True (\<lambda>_ n. replicate n 5) (\<lambda>_ n. map power_or_0 [0..<n]) 77 0, vo_c = (\<lambda>n. snd (MocVole_Recv (\<lambda>_ n. replicate n 5) (\<lambda>_ n. map power_or_0 [0..<n]) 0 n)) \<rparr>"

definition next_length :: "string \<Rightarrow> 128 word" where
  "next_length s = of_nat (length s + 1)"

definition example_rr22 :: Rr22Env where
  "example_rr22 = \<lparr> re_oprf = toy_env, re_blake3 = next_length, re_dense = map_of, re_split = halves, re_minus_inf = 0 \<rparr>"

definition example_rand :: BucketRand where
  "example_rand = \<lparr> rd_perm = [1, 0], rd_seed = 1, rd_ws = 2, rd_wr = 3, rd_vole = count_vole \<rparr>"

definition one_bin :: Baxos where
  "one_bin = \<lparr> bx_num_items = 3, bx_num_bins = 1, bx_items_per_bin = 4, bx_weight = 3, bx_ssp = 40, bx_param = small_param, bx_encrypt = (\<lambda>_. 0), bx_add_to_decode = False \<rparr>"

lemma one_bin_good: "baxos_good log2_up one_bin [2, 3, 4]"
proof -
  have "log2_up 8 \<le> 8" by (simp add: log2_up_le)
  then have ty: "idx_type log2_up one_bin = 8" by (simp add: idx_type_def RoundUpTo_def one_bin_def small_param_def Let_def)
  have "keys_ok (\<lambda>_. 0) small_param (bin_inputs one_bin [2, 3, 4] b)" for b
  proof (rule keys_ok_few)
    have len: "length (bin_inputs one_bin [2, 3, 4] b) \<le> 3" using length_filter_le [of _ "[2, 3, 4 :: 128 word]"] by (simp add: bin_inputs_def)
    then show "length (bin_inputs one_bin [2, 3, 4] b) + 2 \<le> sparse_size small_param" "length (bin_inputs one_bin [2, 3, 4] b) < 200" by (simp_all add: small_param_def)
    show "distinct (map (AesCrHash_Hash (\<lambda>_. 0)) (bin_inputs one_bin [2, 3, 4] b))" by (simp add: bin_inputs_def AesCrHash_Hash_def distinct_map)
  qed (simp_all add: small_param_def)
  then show ?thesis unfolding baxos_good_def ty using small_param_ok(3)
    by (simp add: baxos_ok_def Baxos_Bins.bins_ok_def bins_good_def one_bin_def sizes_ok_def) (simp add: small_param_def)
qed

lemma one_bin_solved:
  "Baxos_Solve log2_up True (\<lambda>_ _ _. 4) 2 (\<lambda>_. None) [2, 3, 4] [2, 3, 4] (replicate (Baxos_size one_bin) 0) one_bin = Some (Inr [0, 2, 0, 1, 6, 0, 0, 0, 0])"
  by code_simp

lemma one_bin_held: "map (baxos_held True one_bin [1, 2, 4, 8, 16, 32, 64, 0, 0]) [2, 3, 4] = [7, 11, 19]"
proof -
  let ?C = "[1, 2, 4, 8, 16, 32, 64, 0, 0] :: 128 word list" and ?h = "hasher_of (\<lambda>_. 0) small_param"
  have "dense_sum True p d ?C = 0" if "px_dt p = GF128" "sparse_size p = 7" "dense_size p = 2" for p d
    using that by (simp add: dense_sum_def MultAdd_mul_def upt_rec)
  then have "store_held True (\<lambda>_. 0) small_param ?C x = sparse_sum (key_row ?h x) ?C" for x
    by (simp add: store_held_def held_def row_value_def small_param_def hasher_of_def)
  moreover have "seg (px_size small_param) (bin_of one_bin x) ?C = ?C" if "x \<in> {2, 3, 4}" for x
    using that by (auto simp: bin_of_def one_bin_def seg_def small_param_def px_size_def)
  moreover have "map (\<lambda>x. sparse_sum (key_row ?h x) ?C) [2, 3, 4] = [7, 11, 19]" by code_simp
  ultimately show ?thesis by (simp add: baxos_held_def one_bin_def)
qed

lemma one_bin_values: "map (fast_value toy_env False w one_bin [1, 2, 4, 8, 16, 32, 64, 0, 0]) [2, 3, 4] = [7, 11, 19]"
  using one_bin_held by (simp add: fast_value_def oprf_final_def toy_env_def AesCrHash_Hash_def)

lemma example_oprf:
  assumes r: "Rr22OprfReceiver_new (2 ^ 14) 40 FastMode False = Inr r" and s: "Rr22OprfSender_new (2 ^ 14) 40 FastMode False = Inr s"
  shows "oprf_ready toy_env example_rand r s [2, 3, 4] [4, 2]" "Oprf_run toy_env count_vole 1 2 3 2 2 r s [2, 3, 4] [4, 2] = Some (Inr ([7, 11, 19], [19, 7]))"
proof -
  have p: "oprf_pair toy_env count_vole r s"
    using Moc_vole_ok [of "\<lambda>_ n. replicate n 5" 0 "\<lambda>_ n. map power_or_0 [0..<n]" count_vole 77] r s
    by (auto simp: oprf_pair_def Rr22OprfReceiver_new_def Rr22OprfSender_new_def count_vole_def toy_env_def)
  have m: "ro_mode r = FastMode" "ro_bin_size r = 2 ^ 14" "ro_ssp r = 40" "\<not> ro_malicious r" using r by (auto simp: Rr22OprfReceiver_new_def)
  have b: "run_baxos toy_env 1 (length [2, 3, 4 :: 128 word]) (ro_bin_size r) (ro_ssp r) = Inr one_bin"
    unfolding m by (simp add: run_baxos_def toy_env_def Baxos_Init_def one_bin_def kPaxosWeight_def small_param_def)
  have g: "baxos_good (env_log2_ceil toy_env) one_bin [2, 3, 4]" using one_bin_good by (simp add: toy_env_def)
  show "oprf_ready toy_env example_rand r s [2, 3, 4] [4, 2]" using p b g m(1) by (auto simp: oprf_ready_def example_rand_def)
  have h: "map (oprf_hash toy_env) [2, 3, 4] = [2, 3, 4]" by (simp add: toy_env_def AesCrHash_Hash_def)
  have sol: "Baxos_encode (env_log2_ceil toy_env) (env_bin_size_of toy_env) 2 one_bin (env_avx2 toy_env) [2, 3, 4] (map (oprf_hash toy_env) [2, 3, 4]) = Some (Inr [0, 2, 0, 1, 6, 0, 0, 0, 0])"
    unfolding h using one_bin_solved by (simp add: toy_env_def Baxos_encode_def)
  have sz: "Baxos_size one_bin = 9" by (simp add: Baxos_size_def one_bin_def small_param_def)
  have C: "take (Baxos_size one_bin) (vo_c count_vole (max 256 (Baxos_size one_bin))) = [1, 2, 4, 8, 16, 32, 64, 0, 0]"
    by (simp add: sz count_vole_def MocVole_Recv_def take_map take_upt upt_rec power_or_0_def)
  have "map (sender_value toy_env False w one_bin d C [0, 2, 0, 1, 6, 0, 0, 0, 0]) [4, 2] = map (fast_value toy_env False w one_bin C) [4, 2]" for w d C
    using sender_value_common [OF g sol] by simp
  then show "Oprf_run toy_env count_vole 1 2 3 2 2 r s [2, 3, 4] [4, 2] = Some (Inr ([7, 11, 19], [19, 7]))"
    using Oprf_run_fast [OF p m(1) b g sol, of 2 3 2 "[4, 2]"] one_bin_values m(4) unfolding C by simp
qed

lemma example_rr22_good:
  assumes "GenerateRr22PsiOptions 2 False = Inr options"
  shows "rr22_buckets_good unary_codec example_rr22 options (\<lambda>_. example_rand) 1 [(''a'', 0), (''bb'', 0), (''ccc'', 1)] [(''a'', 1), (''ccc'', 0)]"
proof -
  let ?X = "bucket_part unary_codec 1 [(''a'', 0), (''bb'', 0), (''ccc'', 1)] 0" and ?Y = "bucket_part unary_codec 1 [(''a'', 1), (''ccc'', 0)] 0"
  have o: "po_num_threads options = 2" using assms by (auto simp: GenerateRr22PsiOptions_def Rr22PsiOptions_new_def kDefaultSSP_def)
  note opt = GenerateRr22PsiOptions_ok [OF assms] o
  have hashes: "item_hashes next_length ?X = [2, 3, 4]" "item_hashes next_length (map ((!) ?Y) [1, 0]) = [4, 2]" "length ?X = 3" "length ?Y = 2"
    by (simp_all add: item_hashes_def bucket_part_def bucket_of_def items_of_def unary_codec_def next_length_def)
  have "log2_up 6 = 3" by (simp add: log2_up.simps)
  then have k: "mask_size_of example_rr22 options 3 2 = 6" using opt by (simp add: mask_size_of_def ComputeTruncateSize_def example_rr22_def toy_env_def)
  have sep: "values_separate 6 [2, 3, 4] [4, 2] [7, 11, 19] [19, 7]"
    by (auto simp: values_separate_def values_usable_def take_bit_eq_mod less_Suc_eq numeral_3_eq_3 numeral_2_eq_2)
  obtain r s where rs: "Rr22OprfReceiver_new (2 ^ 14) 40 FastMode False = Inr r" "Rr22OprfSender_new (2 ^ 14) 40 FastMode False = Inr s"
    by (simp add: Rr22OprfReceiver_new_def Rr22OprfSender_new_def)
  have "permutes [1, 0] 2" by (simp add: permutes_def numeral_2_eq_2)
  then show ?thesis
    using example_oprf [OF rs] rs sep k opt hashes
    by (auto simp: rr22_buckets_good_def rr22_good_def example_rr22_def example_rand_def Let_def)
qed

theorem Rr22_tables_correct_witness:
  "\<exists>(r :: unit KkrtParty) s r' s'.
     Rr22_PreProcess unary_codec Sorted_ReadNextBatchWithDupCnt (kkrt_example [(''a'', 0, 0), (''bb'', 1, 0), (''ccc'', 2, 1)]) 3 [3, 2] 8
       (fresh_party (IndexWriter_new None 9 True)) = Some (Inr r) \<and>
     Rr22_PreProcess unary_codec Sorted_ReadNextBatchWithDupCnt (kkrt_example [(''a'', 0, 1), (''ccc'', 2, 0)]) 2 [3, 2] 8
       (fresh_party (IndexWriter_new None 9 True)) = Some (Inr s) \<and>
     Rr22_Online unary_codec example_rr22 2 False (\<lambda>_. example_rand) True (r, s) = Some (Inr (r', s')) \<and>
     sort_key fst (iw_file (kp_writer r')) = [(0, 1), (2, 0)] \<and> sort_key fst (iw_file (kp_writer s')) = [(0, 0), (1, 1)]"
proof -
  let ?Ka = "[(''a'', 0), (''bb'', 0), (''ccc'', 1 :: nat)]" and ?Kb = "[(''a'', 1), (''ccc'', 0 :: nat)]"
  have K: "?Ka = keys_dup (Sorted_remaining (kkrt_example [(''a'', 0, 0), (''bb'', 1, 0), (''ccc'', 2, 1)]))"
    "?Kb = keys_dup (Sorted_remaining (kkrt_example [(''a'', 0, 1), (''ccc'', 2, 0)]))"
    by (simp_all add: kkrt_example_provider u32_row_def u32_def)
  have inj: "inj_on (re_blake3 example_rr22) (b64 unary_codec ` fst ` set ?Ka \<union> b64 unary_codec ` fst ` set ?Kb)"
    by (auto simp: unary_codec_def next_length_def example_rr22_def)
  have n: "NegotiateBucketNum (length ?Ka) [length ?Ka, length ?Kb] 8 = Inr 1" by (simp add: NegotiateBucketNum_def)
  have par: "dense_ok (re_dense example_rr22)" "split_ok (re_split example_rr22)" using map_of_dense_ok halves_ok by (simp_all add: example_rr22_def)
  obtain options where opt: "GenerateRr22PsiOptions 2 False = Inr options" by (simp add: GenerateRr22PsiOptions_def Rr22PsiOptions_new_def kDefaultSSP_def)
  have w: "writer_clean (IndexWriter_new None 9 True)" "iw_file (IndexWriter_new None 9 True) = []" by (simp_all add: writer_clean_def IndexWriter_new_def)
  have m: "store_matches ?Ka ?Kb = [(0, 1), (2, 0)]" "store_matches ?Kb ?Ka = [(0, 0), (1, 1)]"
    by (simp_all add: store_matches_def map_filter_simps)
  have l: "length ?Ka = 3" "length ?Kb = 2" by simp_all
  have d: "distinct (map fst ?Ka)" "distinct (map fst ?Kb)" "0 < (8 :: nat)" by simp_all
  from Rr22_tables_correct [OF unary_codec_ok d(3) kkrt_example_provider(1) kkrt_example_provider(1) K d(1,2) inj n par opt example_rr22_good [OF opt] w w, of True, where 'c = unit]
  show ?thesis unfolding m l if_True .
qed

end
