(* ===== verification/Rr22_Runner.thy ===== *)
theory Rr22_Runner
  imports Rr22_Psi
begin

text \<open>
  \<open>psi/algorithm/rr22/rr22_psi.h\<close>: the pipeline of \<open>Rr22Runner::AsyncRun\<close> and the distribution of \<open>ParallelRun\<close>. Each party has three threads: the first prepares the
  buckets, the second evaluates them and the third compares; a queue with room for one bucket is between the first two, an unbounded one between the last two. The
  threads of one party talk to the same threads of the other one, on a link of their own for each stage.

  The step relation \<open>pipeline_step\<close> interleaves the threads of both parties. A call of \<open>Prepare\<close>, \<open>RunOprf\<close> or \<open>GetIntersection\<close> is one step of both parties, because it
  can only return when both have made it; this is the strictest reading, as some calls return before the other party has read what was sent. \<open>fails b\<close> says that preparing
  bucket \<open>b\<close> throws. Every step is one critical section or one call of the code, and the queues change under their locks. For at most one bucket \<open>AsyncRun\<close> calls \<open>Run\<close>
  instead of starting the threads (\<open>Rr22Runner_AsyncRun\<close>); the relation describes the threads.
\<close>

section \<open>The threads\<close>

definition kCacheSize :: nat where
  "kCacheSize = 1"

text \<open>A thread that takes its buckets from a queue: it waits for one, has taken one, or has done its work on it.\<close>

datatype phase = Waiting | Taken nat | Evaluated nat

record Pipeline =
  pl_prepare_i :: nat
  pl_prepare_ready :: bool
  pl_prepared_queue :: "nat list"
  pl_run_i :: nat
  pl_run_phase :: phase
  pl_oprf_queue :: "nat list"
  pl_inter_i :: nat
  pl_inter_phase :: phase

definition Pipeline_start :: "nat \<Rightarrow> Pipeline" where
  "Pipeline_start start_idx =
     \<lparr> pl_prepare_i = start_idx, pl_prepare_ready = False, pl_prepared_queue = [], pl_run_i = start_idx, pl_run_phase = Waiting,
       pl_oprf_queue = [], pl_inter_i = start_idx, pl_inter_phase = Waiting \<rparr>"

text \<open>The loops of the second and the third thread compare with \<open>static_cast<int>(bucket_num_)\<close>.\<close>

definition int_bound :: "nat \<Rightarrow> int" where
  "int_bound bucket_num = sint (of_nat bucket_num :: 32 word)"

section \<open>Steps\<close>

text \<open>The steps of a party on its own: handing a bucket from one thread to the next.\<close>

inductive local_step :: "nat \<Rightarrow> Pipeline \<Rightarrow> Pipeline \<Rightarrow> bool" for n where
  push_prepared: "pl_prepare_ready p \<Longrightarrow> length (pl_prepared_queue p) < kCacheSize \<Longrightarrow>
    local_step n p (p \<lparr> pl_prepared_queue := pl_prepared_queue p @ [pl_prepare_i p], pl_prepare_ready := False, pl_prepare_i := pl_prepare_i p + 1 \<rparr>)"
| pop_prepared: "pl_run_phase p = Waiting \<Longrightarrow> int (pl_run_i p) < int_bound n \<Longrightarrow> pl_prepared_queue p = b # q \<Longrightarrow>
    local_step n p (p \<lparr> pl_prepared_queue := q, pl_run_phase := Taken b \<rparr>)"
| push_oprf: "pl_run_phase p = Evaluated b \<Longrightarrow>
    local_step n p (p \<lparr> pl_oprf_queue := pl_oprf_queue p @ [b], pl_run_phase := Waiting, pl_run_i := pl_run_i p + 1 \<rparr>)"
| pop_oprf: "pl_inter_phase p = Waiting \<Longrightarrow> int (pl_inter_i p) < int_bound n \<Longrightarrow> pl_oprf_queue p = b # q \<Longrightarrow>
    local_step n p (p \<lparr> pl_oprf_queue := q, pl_inter_phase := Taken b \<rparr>)"

text \<open>A call of a stage for a bucket. The log has the calls in the order in which they return.\<close>

datatype stage = PrepareStage | OprfStage | IntersectionStage

type_synonym call = "stage \<times> nat"

inductive pipeline_step :: "(nat \<Rightarrow> bool) \<Rightarrow> nat \<Rightarrow> Pipeline \<times> Pipeline \<times> call list \<Rightarrow> Pipeline \<times> Pipeline \<times> call list \<Rightarrow> bool" for fails n where
  receiver: "local_step n r r' \<Longrightarrow> pipeline_step fails n (r, s, log) (r', s, log)"
| sender: "local_step n s s' \<Longrightarrow> pipeline_step fails n (r, s, log) (r, s', log)"
| prepare: "pl_prepare_i r = b \<Longrightarrow> pl_prepare_i s = b \<Longrightarrow> \<not> pl_prepare_ready r \<Longrightarrow> \<not> pl_prepare_ready s \<Longrightarrow> b < n \<Longrightarrow> \<not> fails b \<Longrightarrow>
    pipeline_step fails n (r, s, log) (r \<lparr> pl_prepare_ready := True \<rparr>, s \<lparr> pl_prepare_ready := True \<rparr>, log @ [(PrepareStage, b)])"
| run_oprf: "pl_run_phase r = Taken b \<Longrightarrow> pl_run_phase s = Taken b \<Longrightarrow>
    pipeline_step fails n (r, s, log) (r \<lparr> pl_run_phase := Evaluated b \<rparr>, s \<lparr> pl_run_phase := Evaluated b \<rparr>, log @ [(OprfStage, b)])"
| intersection: "pl_inter_phase r = Taken b \<Longrightarrow> pl_inter_phase s = Taken b \<Longrightarrow>
    pipeline_step fails n (r, s, log)
      (r \<lparr> pl_inter_phase := Waiting, pl_inter_i := pl_inter_i r + 1 \<rparr>, s \<lparr> pl_inter_phase := Waiting, pl_inter_i := pl_inter_i s + 1 \<rparr>, log @ [(IntersectionStage, b)])"

text \<open>All three threads have left their loops, so that \<open>AsyncRun\<close> returns.\<close>

definition pipeline_done :: "nat \<Rightarrow> Pipeline \<Rightarrow> bool" where
  "pipeline_done n p \<longleftrightarrow> \<not> pl_prepare_ready p \<and> n \<le> pl_prepare_i p \<and> pl_run_phase p = Waiting \<and> int_bound n \<le> int (pl_run_i p) \<and>
     pl_inter_phase p = Waiting \<and> int_bound n \<le> int (pl_inter_i p)"

inductive pipeline_reachable :: "(nat \<Rightarrow> bool) \<Rightarrow> nat \<Rightarrow> nat \<Rightarrow> nat \<Rightarrow> Pipeline \<times> Pipeline \<times> call list \<Rightarrow> bool" for fails start_idx n where
  start: "pipeline_reachable fails start_idx n 0 (Pipeline_start start_idx, Pipeline_start start_idx, [])"
| step: "pipeline_reachable fails start_idx n k st \<Longrightarrow> pipeline_step fails n st st' \<Longrightarrow> pipeline_reachable fails start_idx n (Suc k) st'"

section \<open>Distribution over threads\<close>

text \<open>
  The buckets that the threads of \<open>ParallelRun\<close> process, thread by thread; with few buckets, and with a number of buckets that is negative as an \<open>int\<close>,
  the runner falls back to \<open>Run\<close>.
\<close>

definition ParallelRun_buckets :: "nat \<Rightarrow> nat \<Rightarrow> nat \<Rightarrow> nat list list" where
  "ParallelRun_buckets start_idx bucket_num parallel_num =
     (if int_bound bucket_num \<le> int parallel_num then [[start_idx..<bucket_num]]
      else map (\<lambda>thread_idx. filter (\<lambda>j. j mod parallel_num = thread_idx) [0..<bucket_num]) [0..<parallel_num])"

section \<open>The invariant\<close>

text \<open>How many buckets a thread has taken from its queue.\<close>

definition taken :: "nat \<Rightarrow> phase \<Rightarrow> nat" where
  "taken i ph = (if ph = Waiting then i else i + 1)"

definition phase_ok :: "nat \<Rightarrow> phase \<Rightarrow> bool" where
  "phase_ok i ph \<longleftrightarrow> ph \<in> {Waiting, Taken i, Evaluated i}"

definition pipeline_inv :: "nat \<Rightarrow> Pipeline \<Rightarrow> bool" where
  "pipeline_inv n p \<longleftrightarrow>
     phase_ok (pl_run_i p) (pl_run_phase p) \<and> pl_inter_phase p \<in> {Waiting, Taken (pl_inter_i p)} \<and>
     pl_prepared_queue p = [taken (pl_run_i p) (pl_run_phase p)..<pl_prepare_i p] \<and> taken (pl_run_i p) (pl_run_phase p) \<le> pl_prepare_i p \<and>
     pl_oprf_queue p = [taken (pl_inter_i p) (pl_inter_phase p)..<pl_run_i p] \<and> taken (pl_inter_i p) (pl_inter_phase p) \<le> pl_run_i p \<and>
     pl_prepare_i p \<le> n \<and> (pl_prepare_ready p \<longrightarrow> pl_prepare_i p < n)"

text \<open>The calls that have returned, by stage.\<close>

definition prepared :: "Pipeline \<Rightarrow> nat" where
  "prepared p = pl_prepare_i p + (if pl_prepare_ready p then 1 else 0)"

definition evaluated :: "Pipeline \<Rightarrow> nat" where
  "evaluated p = pl_run_i p + (case pl_run_phase p of Evaluated _ \<Rightarrow> 1 | _ \<Rightarrow> 0)"

definition calls :: "stage \<Rightarrow> call list \<Rightarrow> nat list" where
  "calls st log = map snd (filter (\<lambda>c. fst c = st) log)"

text \<open>At every moment a bucket that has been compared has been evaluated, and one that has been evaluated has been prepared.\<close>

definition stage_order :: "call list \<Rightarrow> bool" where
  "stage_order log \<longleftrightarrow> (\<forall>k. set (calls IntersectionStage (take k log)) \<subseteq> set (calls OprfStage (take k log)) \<and> set (calls OprfStage (take k log)) \<subseteq> set (calls PrepareStage (take k log)))"

definition system_inv :: "(nat \<Rightarrow> bool) \<Rightarrow> nat \<Rightarrow> nat \<Rightarrow> Pipeline \<times> Pipeline \<times> call list \<Rightarrow> bool" where
  "system_inv fails start_idx n = (\<lambda>(r, s, log).
     pipeline_inv n r \<and> pipeline_inv n s \<and> prepared s = prepared r \<and> evaluated s = evaluated r \<and> pl_inter_i s = pl_inter_i r \<and> start_idx \<le> pl_inter_i r \<and>
     calls PrepareStage log = [start_idx..<prepared r] \<and> calls OprfStage log = [start_idx..<evaluated r] \<and> calls IntersectionStage log = [start_idx..<pl_inter_i r] \<and>
     stage_order log \<and> (\<forall>b. start_idx \<le> b \<and> b < prepared r \<longrightarrow> \<not> fails b))"

definition progress :: "Pipeline \<Rightarrow> nat" where
  "progress p = pl_prepare_i p + taken (pl_run_i p) (pl_run_phase p) + pl_run_i p + taken (pl_inter_i p) (pl_inter_phase p)"

lemma calls_snoc [simp]:
  "calls st (log @ [c]) = calls st log @ (if fst c = st then [snd c] else [])" "calls st [] = []"
  by (simp_all add: calls_def)

lemma stage_order_snoc:
  assumes "stage_order log" "set (calls IntersectionStage (log @ [c])) \<subseteq> set (calls OprfStage (log @ [c]))" "set (calls OprfStage (log @ [c])) \<subseteq> set (calls PrepareStage (log @ [c]))"
  shows "stage_order (log @ [c])"
  unfolding stage_order_def
proof (intro allI)
  fix k
  show "set (calls IntersectionStage (take k (log @ [c]))) \<subseteq> set (calls OprfStage (take k (log @ [c]))) \<and> set (calls OprfStage (take k (log @ [c]))) \<subseteq> set (calls PrepareStage (take k (log @ [c])))"
    using assms by (cases "k \<le> length log") (auto simp: stage_order_def)
qed

lemma upt_eq_ConsD: "[i..<j] = b # q \<Longrightarrow> b = i \<and> i < j \<and> q = [i + 1..<j]"
  by (metis Suc_eq_plus1 list.inject list.discI upt_conv_Cons upt_eq_Nil_conv not_less)

lemma local_step_inv:
  assumes "local_step n p p'" "pipeline_inv n p"
  shows "pipeline_inv n p' \<and> prepared p' = prepared p \<and> evaluated p' = evaluated p \<and> pl_inter_i p' = pl_inter_i p \<and> progress p' = progress p + 1"
  using assms
proof cases
  case push_prepared
  then show ?thesis using assms(2) by (auto simp: pipeline_inv_def prepared_def evaluated_def progress_def)
next
  case (pop_prepared b q)
  then have "[pl_run_i p..<pl_prepare_i p] = b # q" using assms(2) by (simp add: pipeline_inv_def taken_def)
  from upt_eq_ConsD [OF this] show ?thesis using pop_prepared assms(2) by (auto simp: pipeline_inv_def prepared_def evaluated_def progress_def taken_def phase_ok_def)
next
  case (push_oprf b)
  then show ?thesis using assms(2) by (auto simp: pipeline_inv_def prepared_def evaluated_def progress_def taken_def phase_ok_def)
next
  case (pop_oprf b q)
  then have "[pl_inter_i p..<pl_run_i p] = b # q" using assms(2) by (simp add: pipeline_inv_def taken_def)
  from upt_eq_ConsD [OF this] show ?thesis using pop_oprf assms(2) by (auto simp: pipeline_inv_def prepared_def evaluated_def progress_def taken_def)
qed

lemma pipeline_order:
  assumes "pipeline_inv n p"
  shows "pl_inter_i p \<le> evaluated p" "evaluated p \<le> prepared p" "prepared p \<le> n" "pl_inter_phase p \<noteq> Waiting \<Longrightarrow> pl_inter_i p < evaluated p"
    "pl_run_phase p = Taken b \<Longrightarrow> evaluated p = b \<and> b < prepared p"
  using assms by (auto simp: pipeline_inv_def prepared_def evaluated_def taken_def phase_ok_def split: if_splits phase.splits)

lemma system_start: "start_idx \<le> n \<Longrightarrow> system_inv fails start_idx n (Pipeline_start start_idx, Pipeline_start start_idx, [])"
  by (simp add: system_inv_def Pipeline_start_def pipeline_inv_def phase_ok_def taken_def prepared_def evaluated_def stage_order_def) auto

text \<open>The effect of a call on each of the parties.\<close>

lemma prepare_call:
  assumes "pipeline_inv n p" "\<not> pl_prepare_ready p" "pl_prepare_i p < n" "p' = p \<lparr> pl_prepare_ready := True \<rparr>"
  shows "pipeline_inv n p'" "prepared p = pl_prepare_i p" "prepared p' = prepared p + 1" "evaluated p' = evaluated p" "pl_inter_i p' = pl_inter_i p" "progress p' = progress p"
  using assms by (simp_all add: pipeline_inv_def prepared_def evaluated_def progress_def)

lemma run_oprf_call:
  assumes "pipeline_inv n p" "pl_run_phase p = Taken b" "p' = p \<lparr> pl_run_phase := Evaluated b \<rparr>"
  shows "pipeline_inv n p'" "evaluated p = b" "evaluated p' = b + 1" "prepared p' = prepared p" "pl_inter_i p' = pl_inter_i p" "progress p' = progress p" "b < prepared p"
  using assms by (auto simp: pipeline_inv_def prepared_def evaluated_def progress_def taken_def phase_ok_def)

lemma intersection_call:
  assumes "pipeline_inv n p" "pl_inter_phase p = Taken b" "p' = p \<lparr> pl_inter_phase := Waiting, pl_inter_i := pl_inter_i p + 1 \<rparr>"
  shows "pipeline_inv n p'" "pl_inter_i p = b" "pl_inter_i p' = b + 1" "prepared p' = prepared p" "evaluated p' = evaluated p" "progress p' = progress p" "b < evaluated p"
  using assms by (auto simp: pipeline_inv_def prepared_def evaluated_def progress_def taken_def phase_ok_def split: phase.splits)

lemma system_step:
  assumes "pipeline_step fails n st st'" "system_inv fails start_idx n st"
  shows "system_inv fails start_idx n st' \<and> progress (fst st') + progress (fst (snd st')) + length (snd (snd st')) = progress (fst st) + progress (fst (snd st)) + length (snd (snd st)) + 1"
  using assms
proof cases
  case (receiver r r' s log)
  then show ?thesis using local_step_inv [of n r r'] assms(2) by (auto simp: system_inv_def)
next
  case (sender s s' r log)
  then show ?thesis using local_step_inv [of n s s'] assms(2) by (auto simp: system_inv_def)
next
  case (prepare r b s log)
  have inv: "pipeline_inv n r" "pipeline_inv n s" "start_idx \<le> pl_inter_i r" using assms(2) prepare(1) by (auto simp: system_inv_def)
  have lt: "pl_prepare_i r < n" "pl_prepare_i s < n" using prepare by simp_all
  have "stage_order (log @ [(PrepareStage, b)])"
    using assms(2) prepare(1) pipeline_order(1,2) [OF inv(1)] by (intro stage_order_snoc) (auto simp: system_inv_def)
  then show ?thesis
    using assms(2) prepare pipeline_order(1,2) [OF inv(1)] inv(3) prepare_call [OF inv(1) prepare(5) lt(1) refl] prepare_call [OF inv(2) prepare(6) lt(2) refl]
    by (auto simp: system_inv_def less_Suc_eq)
next
  case (run_oprf r b s log)
  have inv: "pipeline_inv n r" "pipeline_inv n s" "start_idx \<le> pl_inter_i r" using assms(2) run_oprf(1) by (auto simp: system_inv_def)
  have "stage_order (log @ [(OprfStage, b)])"
    using assms(2) run_oprf(1) pipeline_order(1) [OF inv(1)] inv(3) run_oprf_call(2,7) [OF inv(1) run_oprf(3) refl] by (intro stage_order_snoc) (auto simp: system_inv_def)
  then show ?thesis
    using assms(2) run_oprf pipeline_order(1) [OF inv(1)] inv(3) run_oprf_call [OF inv(1) run_oprf(3) refl] run_oprf_call [OF inv(2) run_oprf(4) refl]
    by (auto simp: system_inv_def)
next
  case (intersection r b s log)
  have inv: "pipeline_inv n r" "pipeline_inv n s" "start_idx \<le> pl_inter_i r" using assms(2) intersection(1) by (auto simp: system_inv_def)
  have "stage_order (log @ [(IntersectionStage, b)])"
    using assms(2) intersection(1) pipeline_order(2) [OF inv(1)] inv(3) intersection_call(2,7) [OF inv(1) intersection(3) refl] by (intro stage_order_snoc) (auto simp: system_inv_def)
  then show ?thesis
    using assms(2) intersection inv(3) intersection_call [OF inv(1) intersection(3) refl] intersection_call [OF inv(2) intersection(4) refl]
    by (auto simp: system_inv_def)
qed

section \<open>No deadlock\<close>

lemma int_bound_small: "n < 2 ^ 31 \<Longrightarrow> int_bound n = int n"
proof -
  assume n: "n < 2 ^ 31"
  have "sint (word_of_int (int n) :: 32 word) = signed_take_bit 31 (int n)" unfolding sint_sbintrunc' by simp
  also have "\<dots> = int n" using n by (intro signed_take_bit_int_eq_self) auto
  finally show ?thesis by (simp add: int_bound_def)
qed

text \<open>What it means that no thread of a party can hand over a bucket.\<close>

lemma no_local_step:
  assumes "n < 2 ^ 31" "\<And>p'. \<not> local_step n p p'"
  shows "pl_prepare_ready p \<Longrightarrow> pl_prepared_queue p \<noteq> []" "pl_run_phase p = Waiting \<Longrightarrow> pl_run_i p < n \<Longrightarrow> pl_prepared_queue p = []"
    "pl_run_phase p \<noteq> Evaluated b" "pl_inter_phase p = Waiting \<Longrightarrow> pl_inter_i p < n \<Longrightarrow> pl_oprf_queue p = []"
proof -
  note bound = int_bound_small [OF assms(1)]
  show "pl_prepared_queue p \<noteq> []" if "pl_prepare_ready p" using assms(2) push_prepared [OF that] by (auto simp: kCacheSize_def)
  show "pl_prepared_queue p = []" if "pl_run_phase p = Waiting" "pl_run_i p < n"
  proof (rule ccontr)
    assume "pl_prepared_queue p \<noteq> []"
    then obtain b q where "pl_prepared_queue p = b # q" by (cases "pl_prepared_queue p") auto
    from pop_prepared [OF that(1) _ this, of n] show False using assms(2) that(2) bound by simp
  qed
  show "pl_run_phase p \<noteq> Evaluated b" using assms(2) push_oprf by blast
  show "pl_oprf_queue p = []" if "pl_inter_phase p = Waiting" "pl_inter_i p < n"
  proof (rule ccontr)
    assume "pl_oprf_queue p \<noteq> []"
    then obtain b q where "pl_oprf_queue p = b # q" by (cases "pl_oprf_queue p") auto
    from pop_oprf [OF that(1) _ this, of n] show False using assms(2) that(2) bound by simp
  qed
qed

lemma stuck_prepare:
  assumes n: "n < 2 ^ 31" and inv: "pipeline_inv n p" and stuck: "\<And>p'. \<not> local_step n p p'" and run: "pl_run_phase p = Waiting" "pl_run_i p < n"
  shows "prepared p = pl_run_i p" "\<not> pl_prepare_ready p"
proof -
  have "[pl_run_i p..<pl_prepare_i p] = []" "pl_run_i p \<le> pl_prepare_i p" using no_local_step(2) [OF n stuck run] inv run by (simp_all add: pipeline_inv_def taken_def)
  then have "pl_prepare_i p = pl_run_i p" by auto
  then show "prepared p = pl_run_i p" "\<not> pl_prepare_ready p" using no_local_step(1,2) [OF n stuck] run by (auto simp: prepared_def)
qed

lemma stuck_run:
  assumes n: "n < 2 ^ 31" and inv: "pipeline_inv n p" and stuck: "\<And>p'. \<not> local_step n p p'" and inter: "pl_inter_phase p = Waiting" "pl_inter_i p < n"
  shows "evaluated p = pl_inter_i p"
proof -
  have "[pl_inter_i p..<pl_run_i p] = []" "pl_inter_i p \<le> pl_run_i p" using no_local_step(4) [OF n stuck inter] inv inter by (simp_all add: pipeline_inv_def taken_def)
  then have "pl_run_i p = pl_inter_i p" by auto
  then show ?thesis using no_local_step(3) [OF n stuck] by (auto simp: evaluated_def split: phase.splits)
qed

lemma stuck_evaluated:
  assumes n: "n < 2 ^ 31" and inv: "pipeline_inv n p" and stuck: "\<And>p'. \<not> local_step n p p'"
  shows "evaluated p = pl_run_i p" "pl_run_phase p \<in> {Waiting, Taken (pl_run_i p)}"
  using no_local_step(3) [OF n stuck] inv by (auto simp: evaluated_def pipeline_inv_def phase_ok_def split: phase.splits)

lemma stuck_compared:
  assumes n: "n < 2 ^ 31" and inv: "system_inv fails start_idx n (r, s, log)" and stuck: "\<And>st'. \<not> pipeline_step fails n (r, s, log) st'"
    and fails: "\<And>b. start_idx \<le> b \<Longrightarrow> b < n \<Longrightarrow> \<not> fails b"
  shows "n \<le> pl_inter_i r"
proof (rule ccontr)
  assume "\<not> n \<le> pl_inter_i r"
  then have T: "pl_inter_i r < n" "pl_inter_i s = pl_inter_i r" "start_idx \<le> pl_inter_i r" using inv by (auto simp: system_inv_def)
  have i: "pipeline_inv n r" "pipeline_inv n s" "prepared s = prepared r" "evaluated s = evaluated r" using inv by (auto simp: system_inv_def)
  have l: "\<not> local_step n r p'" "\<not> local_step n s p'" for p' using stuck pipeline_step.receiver pipeline_step.sender by blast+
  have "\<not> (pl_inter_phase r = Taken (pl_inter_i r) \<and> pl_inter_phase s = Taken (pl_inter_i r))" using stuck pipeline_step.intersection by blast
  then have "pl_inter_phase r = Waiting \<or> pl_inter_phase s = Waiting" using i(1,2) T(2) by (auto simp: pipeline_inv_def)
  then have R: "evaluated r = pl_inter_i r" using stuck_run [OF n i(1) l(1)] stuck_run [OF n i(2) l(2)] T i(4) by auto
  then have ri: "pl_run_i r = pl_inter_i r" "pl_run_i s = pl_inter_i r" using stuck_evaluated(1) [OF n i(1) l(1)] stuck_evaluated(1) [OF n i(2) l(2)] i(4) by auto
  have "\<not> (pl_run_phase r = Taken (pl_inter_i r) \<and> pl_run_phase s = Taken (pl_inter_i r))" using stuck pipeline_step.run_oprf by blast
  then have "pl_run_phase r = Waiting \<or> pl_run_phase s = Waiting" using stuck_evaluated(2) [OF n i(1) l(1)] stuck_evaluated(2) [OF n i(2) l(2)] ri by auto
  then have P: "prepared r = pl_inter_i r" using stuck_prepare(1) [OF n i(1) l(1)] stuck_prepare(1) [OF n i(2) l(2)] ri T(1) i(3) by auto
  have "pl_run_i p \<le> pl_prepare_i p" if "pipeline_inv n p" for p using that by (auto simp: pipeline_inv_def taken_def split: if_splits)
  then have "pl_prepare_i r = pl_inter_i r" "pl_prepare_i s = pl_inter_i r" "\<not> pl_prepare_ready r" "\<not> pl_prepare_ready s"
    using P i(1-3) ri by (force simp: prepared_def split: if_splits)+
  then show False using stuck pipeline_step.prepare [of r "pl_inter_i r" s n fails log] T fails by blast
qed

lemma compared_done:
  assumes n: "n < 2 ^ 31" and inv: "pipeline_inv n p" and T: "n \<le> pl_inter_i p" and phase: "\<And>b. pl_run_phase p \<noteq> Evaluated b"
  shows "pipeline_done n p" "pl_inter_i p = n" "evaluated p = n" "prepared p = n"
  using inv T phase int_bound_small [OF n]
  by (auto simp: pipeline_done_def pipeline_inv_def phase_ok_def taken_def evaluated_def prepared_def split: if_splits phase.splits)

lemma reachable_inv:
  assumes "pipeline_reachable fails start_idx n k st" "start_idx \<le> n"
  shows "system_inv fails start_idx n st" "progress (fst st) + progress (fst (snd st)) + length (snd (snd st)) = k + 8 * start_idx"
proof -
  have "system_inv fails start_idx n st \<and> progress (fst st) + progress (fst (snd st)) + length (snd (snd st)) = k + 8 * start_idx"
    using assms
  proof (induction rule: pipeline_reachable.induct)
    case start
    then show ?case using system_start by (simp add: progress_def taken_def Pipeline_start_def)
  next
    case (step k st st')
    then show ?case using system_step [of fails n st st' start_idx] by auto
  qed
  then show "system_inv fails start_idx n st" "progress (fst st) + progress (fst (snd st)) + length (snd (snd st)) = k + 8 * start_idx" by auto
qed

lemma calls_length: "length log = length (calls PrepareStage log) + length (calls OprfStage log) + length (calls IntersectionStage log)"
proof (induction log)
  case (Cons c log)
  then show ?case by (cases "fst c") (simp_all add: calls_def)
qed (simp add: calls_def)

text \<open>
  C15. The pipeline of both parties, under every interleaving of their six threads: a run has at most eleven steps per bucket, so that it ends; when no thread can move any
  more and no preparation has thrown, all threads of both parties have left their loops. Each stage has then handled the buckets in order, each of them once, as \<open>Run\<close> does,
  and at every moment a bucket had been prepared before it was evaluated and evaluated before it was compared. If the preparation of a bucket throws, no run
  gets to the end of the loops: \<open>AsyncRun\<close> waits for ever instead of reporting the error.
\<close>

theorem AsyncRun_ends:
  assumes "n < 2 ^ 31" "start_idx \<le> n" "pipeline_reachable fails start_idx n k (r, s, log)"
  shows "k \<le> 11 * (n - start_idx) \<and>
     ((\<nexists>st'. pipeline_step fails n (r, s, log) st') \<longrightarrow> (\<forall>b \<in> {start_idx..<n}. \<not> fails b) \<longrightarrow>
       pipeline_done n r \<and> pipeline_done n s \<and> stage_order log \<and> (\<forall>stg. calls stg log = [start_idx..<n])) \<and>
     ((\<exists>b \<in> {start_idx..<n}. fails b) \<longrightarrow> \<not> pipeline_done n r \<and> \<not> pipeline_done n s)"
proof (intro conjI impI)
  note inv = reachable_inv(1) [OF assms(3,2)] and count = reachable_inv(2) [OF assms(3,2)]
  have i: "pipeline_inv n r" "pipeline_inv n s" "pl_inter_i s = pl_inter_i r" "stage_order log" "calls PrepareStage log = [start_idx..<prepared r]"
    "calls OprfStage log = [start_idx..<evaluated r]" "calls IntersectionStage log = [start_idx..<pl_inter_i r]" "\<forall>b. start_idx \<le> b \<and> b < prepared r \<longrightarrow> \<not> fails b" "prepared s = prepared r"
    using inv by (auto simp: system_inv_def)
  have pr: "progress p \<le> 4 * n" if "pipeline_inv n p" for p using that by (auto simp: progress_def pipeline_inv_def taken_def split: if_splits)
  have "length log \<le> 3 * (n - start_idx)"
    using calls_length [of log] i(5-7) pipeline_order(1-3) [OF i(1)] by simp
  then show "k \<le> 11 * (n - start_idx)" using count pr [OF i(1)] pr [OF i(2)] assms(2) by simp
  show "\<not> pipeline_done n r" "\<not> pipeline_done n s" if "\<exists>b \<in> {start_idx..<n}. fails b"
    using that i(8,9) by (auto simp: pipeline_done_def prepared_def not_le split: if_splits)
  assume stuck: "\<nexists>st'. pipeline_step fails n (r, s, log) st'" and ok: "\<forall>b \<in> {start_idx..<n}. \<not> fails b"
  have T: "n \<le> pl_inter_i r" by (rule stuck_compared [OF assms(1) inv]) (use stuck ok in auto)
  have l: "\<not> local_step n r p'" "\<not> local_step n s p'" for p' using stuck pipeline_step.receiver pipeline_step.sender by blast+
  note dr = compared_done [OF assms(1) i(1) T no_local_step(3) [OF assms(1) l(1)]]
  show "pipeline_done n r" by (rule dr(1))
  show "pipeline_done n s" using compared_done(1) [OF assms(1) i(2) _ no_local_step(3) [OF assms(1) l(2)]] T i(3) by simp
  show "stage_order log" by (rule i(4))
  show "\<forall>stg. calls stg log = [start_idx..<n]"
  proof
    fix stg
    show "calls stg log = [start_idx..<n]" using i(5-7) dr(2-4) by (cases stg) simp_all
  qed
qed

text \<open>A whole run of the pipeline that continues at the second of two buckets.\<close>

lemma example_run:
  assumes "st = (\<lambda>i ready pq ri rph oq ti tph. \<lparr> pl_prepare_i = i, pl_prepare_ready = ready, pl_prepared_queue = pq, pl_run_i = ri, pl_run_phase = rph, pl_oprf_queue = oq,
      pl_inter_i = ti, pl_inter_phase = tph \<rparr>)" and "fin = st 2 False [] 2 Waiting [] 2 Waiting"
  shows "pipeline_reachable (\<lambda>_. False) 1 2 11 (fin, fin, [(PrepareStage, 1), (OprfStage, 1), (IntersectionStage, 1)])"
proof -
  let ?R = "pipeline_reachable (\<lambda>_. False) 1 2" and ?S = "pipeline_step (\<lambda>_. False) 2"
  let ?a = "st 1 False [] 1 Waiting [] 1 Waiting" and ?b = "st 1 True [] 1 Waiting [] 1 Waiting" and ?c = "st 2 False [1] 1 Waiting [] 1 Waiting"
  let ?d = "st 2 False [] 1 (Taken 1) [] 1 Waiting" and ?e = "st 2 False [] 1 (Evaluated 1) [] 1 Waiting" and ?f = "st 2 False [] 2 Waiting [1] 1 Waiting"
  let ?g = "st 2 False [] 2 Waiting [] 1 (Taken 1)"
  have bc: "local_step 2 ?b ?c" using push_prepared [of ?b 2] by (simp add: assms kCacheSize_def numeral_2_eq_2)
  have cd: "local_step 2 ?c ?d" using pop_prepared [of ?c 2 1 "[]"] int_bound_small [of 2] by (simp add: assms)
  have ef: "local_step 2 ?e ?f" using push_oprf [of ?e 1 2] by (simp add: assms numeral_2_eq_2)
  have fg: "local_step 2 ?f ?g" using pop_oprf [of ?f 2 1 "[]"] int_bound_small [of 2] by (simp add: assms)
  have "?S (?a, ?a, []) (?b, ?b, [(PrepareStage, 1)])" using prepare [of ?a 1 ?a 2 "\<lambda>_. False" "[]"] by (simp add: assms)
  moreover have "?S (?d, ?d, [(PrepareStage, 1)]) (?e, ?e, [(PrepareStage, 1), (OprfStage, 1)])" using run_oprf [of ?d 1 ?d _ 2 "[(PrepareStage, 1)]"] by (simp add: assms)
  moreover have "?S (?g, ?g, [(PrepareStage, 1), (OprfStage, 1)]) (fin, fin, [(PrepareStage, 1), (OprfStage, 1), (IntersectionStage, 1)])"
    using intersection [of ?g 1 ?g _ 2 "[(PrepareStage, 1), (OprfStage, 1)]"] by (simp add: assms numeral_2_eq_2)
  moreover have "?R 0 (?a, ?a, [])" using start [of _ 1 2] by (simp add: assms Pipeline_start_def)
  ultimately have "?R (Suc (Suc (Suc (Suc (Suc (Suc (Suc (Suc (Suc (Suc (Suc 0))))))))))) (fin, fin, [(PrepareStage, 1), (OprfStage, 1), (IntersectionStage, 1)])"
    by (meson step receiver sender bc cd ef fg)
  then show ?thesis by (simp add: numeral_eq_Suc)
qed

theorem AsyncRun_ends_witness:
  "\<exists>r s. pipeline_reachable (\<lambda>_. False) 1 2 11 (r, s, [(PrepareStage, 1), (OprfStage, 1), (IntersectionStage, 1)]) \<and> pipeline_done 2 r \<and> pipeline_done 2 s \<and>
     \<not> pipeline_done 2 (Pipeline_start 1)"
proof -
  define st where "st = (\<lambda>i ready pq ri rph oq ti tph. \<lparr> pl_prepare_i = i, pl_prepare_ready = ready, pl_prepared_queue = pq, pl_run_i = ri, pl_run_phase = rph, pl_oprf_queue = oq,
      pl_inter_i = ti, pl_inter_phase = tph \<rparr>)"
  define fin where "fin = st 2 False [] 2 Waiting [] 2 Waiting"
  let ?log = "[(PrepareStage, 1), (OprfStage, 1), (IntersectionStage, 1 :: nat)]"
  note run = example_run [OF st_def fin_def]
  have "\<not> local_step 2 fin p" for p by (auto simp: fin_def st_def int_bound_small elim!: local_step.cases)
  then have "\<nexists>st'. pipeline_step (\<lambda>_. False) 2 (fin, fin, ?log) st'" by (auto simp: fin_def st_def elim!: pipeline_step.cases)
  moreover have "\<not> pipeline_done 2 (Pipeline_start 1)"
    using AsyncRun_ends [of 2 1 "\<lambda>b. b = 1" 0 "Pipeline_start 1" "Pipeline_start 1" "[]", OF _ _ pipeline_reachable.start] by (auto dest: spec [of _ "Suc 0"])
  ultimately show ?thesis using AsyncRun_ends [OF _ _ run] run by (intro exI [of _ fin]) simp
qed

text \<open>
  \<open>ParallelRun\<close> ignores the bucket from which it is to continue, as soon as there are more buckets than threads and the number fits an \<open>int\<close>: its threads process every bucket once, those included that
  were finished before a restart.
\<close>

theorem ParallelRun_restarts:
  assumes "0 < parallel_num" "parallel_num < bucket_num" "bucket_num < 2 ^ 31"
  shows "mset (concat (ParallelRun_buckets start_idx bucket_num parallel_num)) = mset [0..<bucket_num]"
proof -
  have d: "distinct (concat (map (\<lambda>t. filter (\<lambda>j. j mod parallel_num = t) [0..<bucket_num]) ts))" if "distinct ts" for ts
    using that by (induction ts) auto
  have "set (concat (map (\<lambda>t. filter (\<lambda>j. j mod parallel_num = t) [0..<bucket_num]) [0..<parallel_num])) = set [0..<bucket_num]"
    using assms(1) by auto
  then have "mset (concat (map (\<lambda>t. filter (\<lambda>j. j mod parallel_num = t) [0..<bucket_num]) [0..<parallel_num])) = mset [0..<bucket_num]"
    using set_eq_iff_mset_eq_distinct [OF d [OF distinct_upt] distinct_upt] by blast
  then show ?thesis using assms(2) int_bound_small [OF assms(3)] by (simp add: ParallelRun_buckets_def)
qed

theorem ParallelRun_restarts_witness:
  "mset (concat (ParallelRun_buckets 2 3 2)) = mset [0, 1, 2]"
  using ParallelRun_restarts [of 2 3 2] by (simp add: upt_rec)

end
