(* ===== verification/Nty_Psi.thy ===== *)
theory Nty_Psi
  imports Rr22_Utils
begin

text \<open>
  \<open>psi/algorithm/nty/nty_mp_psi.cc\<close> and \<open>server_aided_psi.cc\<close>: the intersection of the items of three or more parties. The aided server chooses a key of a pseudo-random function
  for each client and sends the receiver a key-value store of the sum of the functions; each client sends the helper a store of its own function. The value of an item at the helper
  is the sum of what the stores of the clients hold for it, at the receiver what the store of the server holds, and the two are compared, encrypted, by the server.

  Random values are part of the parameters, by the rank of the party that chooses them; so are the permutations of \<open>std::shuffle\<close>, decryption and the hash table, whose first
  argument is the key that marks empty places. A run of all parties hands the messages from one to the other; it fails if one of them fails.
\<close>

unbundle bit_operations_syntax

section \<open>Options and parties\<close>

record NtyMPsiOptions =
  nty_num_threads :: nat
  nty_aided_server_rank :: nat
  nty_helper_rank :: nat
  nty_receiver_rank :: nat
  nty_broadcast_result :: bool
  nty_malicious :: bool

record NtyEnv =
  nt_env :: OprfEnv
  nt_decrypt :: "128 word \<Rightarrow> 128 word \<Rightarrow> 128 word"
  nt_dense :: "128 word \<Rightarrow> (128 word \<times> 32 word) list \<Rightarrow> 128 word \<Rightarrow> 32 word option"
  nt_prf_seed :: "nat \<Rightarrow> 128 word"
  nt_baxos_seed :: "nat \<Rightarrow> 128 word"
  nt_aes_seed :: "128 word"
  nt_shuffle :: "nat \<Rightarrow> 128 word list \<Rightarrow> 128 word list"
  nt_empty_key :: "128 word"

record NtyMPsi =
  np_options :: NtyMPsiOptions
  np_p2p :: "nat option list"

definition kNtySSP :: nat where
  "kNtySSP = 40"

definition nty_bin_size :: nat where
  "nty_bin_size = 2 ^ 14"

text \<open>\<open>link_ctx\<close> gives the number of parties and the own rank, or is null; \<open>p2p\<close> holds the peer of each link.\<close>

definition NtyMPsi_new :: "NtyMPsiOptions \<Rightarrow> (nat \<times> nat) option \<Rightarrow> NtyMPsi result" where
  "NtyMPsi_new options link_ctx =
     rbind (enforce (nty_aided_server_rank options \<noteq> nty_helper_rank options \<and> nty_aided_server_rank options \<noteq> nty_receiver_rank options \<and>
       nty_helper_rank options \<noteq> nty_receiver_rank options) ''ranks'') (\<lambda>_.
     rbind (enforce (link_ctx \<noteq> None) ''link_ctx should be initialized'') (\<lambda>_.
     let options = options \<lparr> nty_num_threads := max 1 (nty_num_threads options) \<rparr>; wsize = fst (the link_ctx); self_rank = snd (the link_ctx) in
     rbind (enforce (nty_aided_server_rank options < wsize \<and> nty_helper_rank options < wsize \<and> nty_receiver_rank options < wsize) ''ranks < wsize'') (\<lambda>_.
     rbind (enforce (3 \<le> wsize) ''the number of participants should be larger than 3'') (\<lambda>_.
     Inr \<lparr> np_options = options, np_p2p = map (\<lambda>dst. if self_rank \<noteq> dst then Some dst else None) [0..<wsize] \<rparr>))))"

section \<open>Messages\<close>

definition words_bytes :: "128 word list \<Rightarrow> 8 word list" where
  "words_bytes ws = concat (map (to_bytes 16) ws)"

text \<open>A message of any other length is only logged, and written past the end of the vector.\<close>

definition recv_words :: "8 word list \<Rightarrow> 128 word list result" where
  "recv_words buf = (if length buf mod 16 = 0 then Inr (map of_bytes (chunks 16 buf)) else Inl (Undefined ''memcpy''))"

definition recv_seed :: "8 word list \<Rightarrow> 128 word result" where
  "recv_seed buf = rbind (enforce (length buf = 16) ''seed_buf.size() == sizeof(uint128_t)'') (\<lambda>_. Inr (of_bytes buf))"

section \<open>Server-aided comparison\<close>

definition SendEncItems :: "NtyEnv \<Rightarrow> nat \<Rightarrow> 128 word list \<Rightarrow> 128 word \<Rightarrow> 8 word list" where
  "SendEncItems e rank items aes_seed = words_bytes (nt_shuffle e rank (map (env_aes (nt_env e) aes_seed) items))"

text \<open>The helper sends the key to the receiver and its items to the server; the receiver sends its items, and decrypts the reply.\<close>

definition ServerAidedPsi_helper :: "NtyEnv \<Rightarrow> nat \<Rightarrow> 128 word list \<Rightarrow> 8 word list \<times> 8 word list" where
  "ServerAidedPsi_helper e rank items = (to_bytes 16 (nt_aes_seed e), SendEncItems e rank items (nt_aes_seed e))"

definition ServerAidedPsi_receiver_send :: "NtyEnv \<Rightarrow> nat \<Rightarrow> 8 word list \<Rightarrow> 128 word list \<Rightarrow> (128 word \<times> 8 word list) result" where
  "ServerAidedPsi_receiver_send e rank seed_buf items = rbind (recv_seed seed_buf) (\<lambda>aes_seed. Inr (aes_seed, SendEncItems e rank items aes_seed))"

definition ServerAidedPsi_receiver_recv :: "NtyEnv \<Rightarrow> 128 word \<Rightarrow> 8 word list \<Rightarrow> 128 word list result" where
  "ServerAidedPsi_receiver_recv e aes_seed recv_data = rbind (recv_words recv_data) (\<lambda>recv_cipher. Inr (map (nt_decrypt e aes_seed) recv_cipher))"

fun set_intersection :: "'a::linorder list \<Rightarrow> 'a list \<Rightarrow> 'a list" where
  "set_intersection (x # xs) (y # ys) =
     (if x < y then set_intersection xs (y # ys) else if y < x then set_intersection (x # xs) ys else x # set_intersection xs ys)"
| "set_intersection _ _ = []"

definition ServerAssist :: "8 word list \<Rightarrow> 8 word list \<Rightarrow> 8 word list result" where
  "ServerAssist helper_data receiver_data =
     rbind (recv_words helper_data) (\<lambda>helper_prf. rbind (recv_words receiver_data) (\<lambda>receiver_prf.
     Inr (words_bytes (set_intersection (sort helper_prf) (sort receiver_prf)))))"

section \<open>Key-value stores\<close>

type_synonym okvs_msg = "8 word list \<times> 128 word list list"

definition nty_baxos :: "NtyEnv \<Rightarrow> 128 word \<Rightarrow> nat \<Rightarrow> Baxos result" where
  "nty_baxos e seed okvs_size = run_baxos (nt_env e) seed okvs_size nty_bin_size kNtySSP"

definition GenOkvs :: "NtyEnv \<Rightarrow> NtyMPsiOptions \<Rightarrow> nat \<Rightarrow> 128 word list \<Rightarrow> 128 word list \<Rightarrow> nat \<Rightarrow> okvs_msg result option" where
  "GenOkvs e options rank items hashed_items okvs_size =
     (let baxos_seed = nt_baxos_seed e rank; env = nt_env e in
      obind (Some (nty_baxos e baxos_seed okvs_size)) (\<lambda>baxos.
      obind (Baxos_Solve (env_log2_ceil env) (env_avx2 env) (env_bin_size_of env) (nty_num_threads options) (\<lambda>_. None) items hashed_items (replicate (Baxos_size baxos) 0) baxos) (\<lambda>p128.
      Some (Inr (to_bytes 16 baxos_seed, SendChunked p128)))))"

definition DecodeOkvs :: "NtyEnv \<Rightarrow> NtyMPsiOptions \<Rightarrow> 128 word list \<Rightarrow> nat \<Rightarrow> okvs_msg \<Rightarrow> 128 word list \<Rightarrow> 128 word list result option" where
  "DecodeOkvs e options items okvs_size msg recv_hashed_items =
     (let env = nt_env e in
      obind (Some (recv_seed (fst msg))) (\<lambda>baxos_seed.
      obind (Some (nty_baxos e baxos_seed okvs_size)) (\<lambda>baxos.
      obind (RecvChunked (Baxos_size baxos) (snd msg)) (\<lambda>(p_solve, _).
      Some (Baxos_Decode (env_log2_ceil env) (env_avx2 env) (nty_num_threads options) baxos items recv_hashed_items p_solve)))))"

section \<open>The intersection at the receiver\<close>

definition nty_entries :: "128 word list \<Rightarrow> (128 word \<times> 32 word) list" where
  "nty_entries hashed_items = map (\<lambda>(i, v). (v, of_nat i)) (enumerate 0 hashed_items)"

definition Nty_GetIntersection :: "NtyEnv \<Rightarrow> 128 word list \<Rightarrow> 128 word list \<Rightarrow> 128 word list \<Rightarrow> 128 word list result" where
  "Nty_GetIntersection e inputs hashed_items raw_result =
     (let intersection_idx = List.map_filter (nt_dense e (nt_empty_key e) (nty_entries hashed_items)) raw_result in
      rfold (\<lambda>i intersection. rbind (at inputs (unat i)) (\<lambda>x. Inr (intersection @ [x]))) intersection_idx [])"

section \<open>The roles\<close>

definition nty_clients :: "NtyMPsiOptions \<Rightarrow> nat \<Rightarrow> nat list" where
  "nty_clients options wsize =
     filter (\<lambda>i. \<not> (i = nty_aided_server_rank options \<or> i = nty_helper_rank options \<or> i = nty_receiver_rank options)) [0..<wsize]"

text \<open>The aided server: the keys that it sends to the clients, and its store for the receiver.\<close>

definition MultiPartyPsi_seeds :: "NtyEnv \<Rightarrow> NtyMPsiOptions \<Rightarrow> nat \<Rightarrow> (nat \<times> 8 word list) list" where
  "MultiPartyPsi_seeds e options wsize = map (\<lambda>i. (i, to_bytes 16 (nt_prf_seed e i))) (nty_clients options wsize)"

definition MultiPartyPsi_server :: "NtyEnv \<Rightarrow> NtyMPsiOptions \<Rightarrow> nat \<Rightarrow> nat list \<Rightarrow> 128 word list \<Rightarrow> okvs_msg result option" where
  "MultiPartyPsi_server e options wsize counts inputs =
     (let self_rank = nty_aided_server_rank options; seeds = map (nt_prf_seed e) (nty_clients options wsize);
          hashed_items = fold (\<lambda>seed h. map2 (XOR) h (map (env_aes (nt_env e) seed) inputs)) seeds (replicate (length inputs) 0) in
      obind (Some (at counts self_rank)) (\<lambda>n. GenOkvs e options self_rank inputs hashed_items n))"

text \<open>A client sends its store to the helper.\<close>

definition MultiPartyPsi_client :: "NtyEnv \<Rightarrow> NtyMPsiOptions \<Rightarrow> nat list \<Rightarrow> nat \<Rightarrow> 8 word list \<Rightarrow> 128 word list \<Rightarrow> okvs_msg result option" where
  "MultiPartyPsi_client e options counts self_rank prf_seed_buf inputs =
     obind (Some (recv_seed prf_seed_buf)) (\<lambda>prf_seed.
     obind (Some (at counts self_rank)) (\<lambda>n. GenOkvs e options self_rank inputs (map (env_aes (nt_env e) prf_seed) inputs) n))"

text \<open>The values that the helper and the receiver compare.\<close>

definition MultiPartyPsi_helper :: "NtyEnv \<Rightarrow> NtyMPsiOptions \<Rightarrow> nat list \<Rightarrow> (nat \<times> okvs_msg) list \<Rightarrow> 128 word list \<Rightarrow> 128 word list result option" where
  "MultiPartyPsi_helper e options counts stores inputs =
     obind (omap (\<lambda>(i, msg). obind (Some (at counts i)) (\<lambda>n. DecodeOkvs e options inputs n msg (replicate (length inputs) 0))) stores) (\<lambda>recv_hashed_items.
     let hashed_items = fold (\<lambda>recv h. map2 (XOR) h recv) recv_hashed_items (replicate (length inputs) 0) in
     Some (Inr (map2 (XOR) inputs hashed_items)))"

definition Nty_receiver :: "NtyEnv \<Rightarrow> NtyMPsiOptions \<Rightarrow> nat list \<Rightarrow> okvs_msg \<Rightarrow> 128 word list \<Rightarrow> 128 word list result option" where
  "Nty_receiver e options counts stores inputs =
     obind (Some (at counts (nty_aided_server_rank options))) (\<lambda>n.
     obind (DecodeOkvs e options inputs n stores (replicate (length inputs) 0)) (\<lambda>recv_hashed_items.
     Some (Inr (map2 (XOR) inputs recv_hashed_items))))"

text \<open>With three parties the helper gets the key of the server's function and computes it itself.\<close>

definition ThreePartyPsi_server :: "NtyEnv \<Rightarrow> NtyMPsiOptions \<Rightarrow> nat list \<Rightarrow> 128 word list \<Rightarrow> (8 word list \<times> okvs_msg) result option" where
  "ThreePartyPsi_server e options counts inputs =
     (let self_rank = nty_aided_server_rank options; seed = nt_prf_seed e (nty_helper_rank options) in
      obind (Some (at counts self_rank)) (\<lambda>n.
      obind (GenOkvs e options self_rank inputs (map (env_aes (nt_env e) seed) inputs) n) (\<lambda>store. Some (Inr (to_bytes 16 seed, store)))))"

definition ThreePartyPsi_helper :: "NtyEnv \<Rightarrow> 8 word list \<Rightarrow> 128 word list \<Rightarrow> 128 word list result" where
  "ThreePartyPsi_helper e prf_seed_buf inputs =
     rbind (recv_seed prf_seed_buf) (\<lambda>prf_seed. Inr (map2 (XOR) inputs (map (env_aes (nt_env e) prf_seed) inputs)))"

section \<open>A run of all parties\<close>

definition ThreePartyPsi_values :: "NtyEnv \<Rightarrow> NtyMPsiOptions \<Rightarrow> 128 word list list \<Rightarrow> (128 word list \<times> 128 word list) result option" where
  "ThreePartyPsi_values e options inputs =
     (let counts = map length inputs in
      obind (Some (at inputs (nty_aided_server_rank options))) (\<lambda>server.
      obind (Some (at inputs (nty_helper_rank options))) (\<lambda>helper.
      obind (Some (at inputs (nty_receiver_rank options))) (\<lambda>receiver.
      obind (ThreePartyPsi_server e options counts server) (\<lambda>(seed_buf, store).
      obind (Some (ThreePartyPsi_helper e seed_buf helper)) (\<lambda>helper_values.
      obind (Nty_receiver e options counts store receiver) (\<lambda>receiver_values.
      Some (Inr (helper_values, receiver_values)))))))))"

definition MultiPartyPsi_values :: "NtyEnv \<Rightarrow> NtyMPsiOptions \<Rightarrow> 128 word list list \<Rightarrow> (128 word list \<times> 128 word list) result option" where
  "MultiPartyPsi_values e options inputs =
     (let wsize = length inputs; counts = map length inputs in
      obind (Some (at inputs (nty_aided_server_rank options))) (\<lambda>server.
      obind (Some (at inputs (nty_helper_rank options))) (\<lambda>helper.
      obind (Some (at inputs (nty_receiver_rank options))) (\<lambda>receiver.
      obind (MultiPartyPsi_server e options wsize counts server) (\<lambda>store.
      obind (omap (\<lambda>(i, seed_buf). obind (Some (at inputs i)) (\<lambda>own. obind (MultiPartyPsi_client e options counts i seed_buf own) (\<lambda>msg. Some (Inr (i, msg)))))
         (MultiPartyPsi_seeds e options wsize)) (\<lambda>msgs.
      obind (MultiPartyPsi_helper e options counts msgs helper) (\<lambda>helper_values.
      obind (Nty_receiver e options counts store receiver) (\<lambda>receiver_values.
      Some (Inr (helper_values, receiver_values))))))))))"

definition Nty_values :: "NtyEnv \<Rightarrow> NtyMPsiOptions \<Rightarrow> 128 word list list \<Rightarrow> (128 word list \<times> 128 word list) result option" where
  "Nty_values e options inputs = (if length inputs = 3 then ThreePartyPsi_values e options inputs else MultiPartyPsi_values e options inputs)"

definition Nty_compare :: "NtyEnv \<Rightarrow> NtyMPsiOptions \<Rightarrow> 128 word list \<Rightarrow> 128 word list \<Rightarrow> 128 word list \<Rightarrow> 128 word list result" where
  "Nty_compare e options inputs helper_values receiver_values =
     (let (seed_buf, helper_data) = ServerAidedPsi_helper e (nty_helper_rank options) helper_values in
      rbind (ServerAidedPsi_receiver_send e (nty_receiver_rank options) seed_buf receiver_values) (\<lambda>(aes_seed, receiver_data).
      rbind (ServerAssist helper_data receiver_data) (\<lambda>res_buf.
      rbind (ServerAidedPsi_receiver_recv e aes_seed res_buf) (\<lambda>raw_result.
      Nty_GetIntersection e inputs receiver_values raw_result))))"

text \<open>The results of the parties by rank; without broadcast only the receiver has one.\<close>

definition Nty_broadcast :: "NtyMPsiOptions \<Rightarrow> nat \<Rightarrow> 128 word list \<Rightarrow> 128 word list list result" where
  "Nty_broadcast options wsize intersection =
     rbind (if nty_broadcast_result options then recv_words (words_bytes intersection) else Inr []) (\<lambda>others.
     Inr (map (\<lambda>i. if i = nty_receiver_rank options then intersection else others) [0..<wsize]))"

definition NtyMPsi_Run :: "NtyEnv \<Rightarrow> NtyMPsiOptions \<Rightarrow> 128 word list list \<Rightarrow> 128 word list list result option" where
  "NtyMPsi_Run e options inputs =
     obind (Nty_values e options inputs) (\<lambda>(helper_values, receiver_values).
     obind (Some (at inputs (nty_receiver_rank options))) (\<lambda>receiver.
     obind (Some (Nty_compare e options receiver helper_values receiver_values)) (\<lambda>intersection.
     Some (Nty_broadcast options (length inputs) intersection))))"

section \<open>Messages arrive as they were sent\<close>

lemma of_bytes_to_bytes_128 [simp]: "of_bytes (to_bytes 16 w) = (w :: 128 word)"
  by (simp add: of_bytes_to_bytes take_bit_word_eq_self)

lemma recv_words_bytes [simp]: "recv_words (words_bytes ws) = Inr ws"
  by (simp add: recv_words_def words_bytes_def length_concat_blocks chunks_blocks comp_def)

lemma recv_seed_bytes [simp]: "recv_seed (to_bytes 16 w) = Inr w"
  by (simp add: recv_seed_def enforce_def)

section \<open>Comparing the values\<close>

lemma set_set_intersection: "sorted xs \<Longrightarrow> sorted ys \<Longrightarrow> set (set_intersection xs ys) = set xs \<inter> set ys"
  by (induction xs ys rule: set_intersection.induct) force+

lemma distinct_set_intersection: "sorted xs \<Longrightarrow> sorted ys \<Longrightarrow> distinct ys \<Longrightarrow> distinct (set_intersection xs ys)"
  by (induction xs ys rule: set_intersection.induct) (auto simp: set_set_intersection)

definition nty_lib_ok :: "NtyEnv \<Rightarrow> bool" where
  "nty_lib_ok e \<longleftrightarrow> (\<forall>x. nt_decrypt e (nt_aes_seed e) (env_aes (nt_env e) (nt_aes_seed e) x) = x) \<and> (\<forall>rank xs. mset (nt_shuffle e rank xs) = mset xs) \<and>
     (\<forall>z kvs k. k \<noteq> z \<longrightarrow> z \<notin> fst ` set kvs \<longrightarrow> nt_dense e z kvs k = map_of kvs k)"

lemma rfold_collect:
  "\<forall>i \<in> set is'. unat i < length inputs \<Longrightarrow> rfold (\<lambda>i acc. rbind (at inputs (unat i)) (\<lambda>x. Inr (acc @ [x]))) is' acc = Inr (acc @ map (\<lambda>i. inputs ! unat i) is')"
  by (induction is' arbitrary: acc) simp_all

lemma nty_entries_keys: "fst ` set (nty_entries vs) = set vs"
proof -
  have "map fst (nty_entries vs) = map snd (enumerate 0 vs)" by (simp add: nty_entries_def comp_def case_prod_beta)
  then show ?thesis by (metis map_snd_enumerate set_map)
qed

text \<open>The table holds the place of an item with a given value.\<close>

lemma nty_entries_lookup:
  assumes "length xs < 2 ^ 32" "v \<in> f ` set xs"
  shows "\<exists>i. map_of (nty_entries (map f xs)) v = Some i \<and> unat i < length xs \<and> f (xs ! unat i) = v"
proof -
  have "v \<in> fst ` set (nty_entries (map f xs))" using assms(2) by (simp add: nty_entries_keys)
  then obtain i where i: "map_of (nty_entries (map f xs)) v = Some i" by (metis domIff dom_map_of_conv_image_fst option.exhaust)
  then obtain k where "k < length xs" "f (xs ! k) = v" "i = of_nat k" by (force dest!: map_of_SomeD simp: nty_entries_def in_set_enumerate_eq)
  then show ?thesis using i assms(1) by (simp add: unat_of_nat take_bit_nat_eq_self)
qed

lemma Nty_GetIntersection_ok:
  assumes lib: "nty_lib_ok e" and len: "length xs < 2 ^ 32" and inj: "inj_on f (set xs)" and empty: "nt_empty_key e \<notin> f ` set xs" and raw: "set raw \<subseteq> f ` set xs"
  shows "Nty_GetIntersection e xs (map f xs) raw = Inr (map (inv_into (set xs) f) raw)"
proof -
  let ?d = "nt_dense e (nt_empty_key e) (nty_entries (map f xs))"
  have d: "\<exists>i. ?d v = Some i \<and> unat i < length xs \<and> xs ! unat i = inv_into (set xs) f v" if "v \<in> set raw" for v
  proof -
    have v: "v \<in> f ` set xs" using that raw by blast
    then obtain i where i: "map_of (nty_entries (map f xs)) v = Some i" "unat i < length xs" "f (xs ! unat i) = v" using nty_entries_lookup [OF len] by blast
    moreover have "v \<noteq> nt_empty_key e" using v empty by blast
    ultimately show ?thesis using lib empty inj inv_into_f_f [OF inj, of "xs ! unat i"] by (auto simp: nty_lib_ok_def nty_entries_keys)
  qed
  have m: "List.map_filter ?d vs = map (\<lambda>v. the (?d v)) vs" if "set vs \<subseteq> set raw" for vs
    using that d by (induction vs) (force simp: List.map_filter_simps)+
  have "\<forall>i \<in> set (map (\<lambda>v. the (?d v)) raw). unat i < length xs" "map (\<lambda>i. xs ! unat i) (map (\<lambda>v. the (?d v)) raw) = map (inv_into (set xs) f) raw" using d by force+
  then show ?thesis by (simp add: Nty_GetIntersection_def m rfold_collect)
qed

text \<open>The receiver's result: its items with a value that the helper has too.\<close>

lemma Nty_compare_ok:
  assumes lib: "nty_lib_ok e" and len: "length xs < 2 ^ 32" and inj: "inj_on f (set xs)" and empty: "nt_empty_key e \<notin> f ` set xs"
  shows "\<exists>res. Nty_compare e options xs hv (map f xs) = Inr res \<and> set res = {x \<in> set xs. f x \<in> set hv} \<and> (distinct xs \<longrightarrow> distinct res)"
proof -
  let ?enc = "env_aes (nt_env e) (nt_aes_seed e)" and ?dec = "nt_decrypt e (nt_aes_seed e)"
  let ?h = "nt_shuffle e (nty_helper_rank options) (map ?enc hv)" and ?r = "nt_shuffle e (nty_receiver_rank options) (map ?enc (map f xs))"
  let ?raw = "map ?dec (set_intersection (sort ?h) (sort ?r))"
  have dec: "?dec (?enc x) = x" for x using lib by (simp add: nty_lib_ok_def)
  have m: "mset ?h = mset (map ?enc hv)" "mset ?r = mset (map ?enc (map f xs))" using lib by (simp_all only: nty_lib_ok_def)
  have s: "set ?h = ?enc ` set hv" "set ?r = ?enc ` f ` set xs" using m [THEN mset_eq_setD] by (simp_all add: image_image)
  have inje: "inj ?enc" using dec by (rule inj_on_inverseI)
  have si: "set (set_intersection (sort ?h) (sort ?r)) = ?enc ` (set hv \<inter> f ` set xs)" using s image_Int [OF inje] by (simp add: set_set_intersection)
  then have raw: "set ?raw = set hv \<inter> f ` set xs" using dec by (simp add: image_image)
  let ?res = "map (inv_into (set xs) f) ?raw"
  have "Nty_compare e options xs hv (map f xs) = Nty_GetIntersection e xs (map f xs) ?raw"
    by (simp add: Nty_compare_def ServerAidedPsi_helper_def ServerAidedPsi_receiver_send_def ServerAidedPsi_receiver_recv_def ServerAssist_def SendEncItems_def)
  also have "\<dots> = Inr ?res" using Nty_GetIntersection_ok [OF lib len inj empty, of ?raw] raw by simp
  finally have 1: "Nty_compare e options xs hv (map f xs) = Inr ?res" .
  have "set ?res = inv_into (set xs) f ` (set hv \<inter> f ` set xs)" using raw by (simp only: set_map)
  also have "\<dots> = {x \<in> set xs. f x \<in> set hv}" using inj by (force simp: image_iff inv_into_f_f)
  finally have 2: "set ?res = {x \<in> set xs. f x \<in> set hv}" .
  have "distinct ?res" if "distinct xs"
  proof -
    have "distinct (map ?enc (map f xs))" using that inj inje by (simp add: distinct_map comp_inj_on inj_on_subset)
    then have "distinct ?r" using m(2) by (simp only: mset_eq_imp_distinct_iff [OF m(2)])
    then have "distinct (set_intersection (sort ?h) (sort ?r))" by (simp add: distinct_set_intersection)
    moreover have "inj_on ?dec (?enc ` A)" for A using dec by (intro inj_onI) auto
    ultimately have "distinct ?raw" using si by (simp add: distinct_map)
    then show ?thesis using raw inj_on_inv_into [of "set ?raw" f "set xs"] by (simp add: distinct_map del: map_map)
  qed
  then show ?thesis using 1 2 by blast
qed

section \<open>The stores\<close>

text \<open>The party of rank \<open>i\<close> can encode its items: the sizes of its store are right, and the items are distinct in every bin.\<close>

definition encodes :: "NtyEnv \<Rightarrow> nat \<Rightarrow> 128 word list \<Rightarrow> bool" where
  "encodes e i xs \<longleftrightarrow> (case nty_baxos e (nt_baxos_seed e i) (length xs) of Inl _ \<Rightarrow> False | Inr bx \<Rightarrow> baxos_good (env_log2_ceil (nt_env e)) bx xs)"

text \<open>Decoding a message gives the values of the function \<open>f\<close>.\<close>

definition decodes :: "NtyEnv \<Rightarrow> NtyMPsiOptions \<Rightarrow> nat \<Rightarrow> okvs_msg \<Rightarrow> (128 word \<Rightarrow> 128 word) \<Rightarrow> bool" where
  "decodes e options n msg f \<longleftrightarrow> (\<forall>ys ws. length ws = length ys \<longrightarrow> DecodeOkvs e options ys n msg ws = Some (Inr (map f ys)))"

lemma GenOkvs_ok:
  assumes enc: "encodes e i xs" and len: "length vs = length xs"
  shows "\<exists>res. GenOkvs e options i xs vs (length xs) = Some res \<and> (\<forall>msg. res = Inr msg \<longrightarrow>
     (\<exists>f. map f xs = vs \<and> decodes e options (length xs) msg f))"
proof -
  let ?env = "nt_env e"
  obtain bx where bx: "nty_baxos e (nt_baxos_seed e i) (length xs) = Inr bx" "baxos_good (env_log2_ceil ?env) bx xs"
    using enc by (auto simp: encodes_def split: sum.splits)
  let ?solve = "Baxos_encode (env_log2_ceil ?env) (env_bin_size_of ?env) (nty_num_threads options) bx (env_avx2 ?env) xs vs"
  have gen: "GenOkvs e options i xs vs (length xs) = obind ?solve (\<lambda>p. Some (Inr (to_bytes 16 (nt_baxos_seed e i), SendChunked p)))"
    using bx(1) by (simp add: GenOkvs_def Baxos_encode_def obind_Some_Inr Let_def)
  obtain r where r: "?solve = Some r" using bx.encode_ends [OF bx(2) len] by blast
  show ?thesis
  proof (cases r)
    case (Inl err)
    then show ?thesis using gen r by (simp add: obind_def)
  next
    case (Inr P)
    let ?f = "baxos_held (env_avx2 ?env) bx P" and ?msg = "(to_bytes 16 (nt_baxos_seed e i), SendChunked P)"
    have P: "baxos_vec (env_log2_ceil ?env) bx P" "map ?f xs = vs" using bx.encode_holds [OF bx(2) len] r Inr by blast+
    have "decodes e options (length xs) ?msg ?f"
      using bx(1) P(1) RecvChunked_SendChunked [of P "[]"] Baxos_Decode_held [OF P(1)] by (simp add: decodes_def DecodeOkvs_def obind_Some_Inr baxos_vec_def)
    then show ?thesis using gen r Inr P(2) by (simp add: obind_Some_Inr) blast
  qed
qed

lemma omap_ends:
  assumes "\<And>x. x \<in> set xs \<Longrightarrow> \<exists>r. f x = Some r"
  shows "\<exists>res. omap f xs = Some res \<and> (\<forall>ys. res = Inr ys \<longrightarrow> list_all2 (\<lambda>x y. f x = Some (Inr y)) xs ys)"
  using assms
proof (induction xs)
  case (Cons x xs)
  obtain r where r: "f x = Some r" using Cons.prems [of x] by auto
  obtain res where res: "omap f xs = Some res" "\<forall>ys. res = Inr ys \<longrightarrow> list_all2 (\<lambda>x y. f x = Some (Inr y)) xs ys" using Cons by auto
  show ?case using r res by (cases r; cases res) (auto simp: obind_def)
qed simp

lemma omap_Inr: "list_all2 (\<lambda>x y. f x = Some (Inr y)) xs ys \<Longrightarrow> omap f xs = Some (Inr ys)"
  by (induction rule: list_all2_induct) (simp_all add: obind_Some_Inr)

text \<open>Adding up lists, place by place.\<close>

lemma map2_xor_map: "map2 (XOR) (map f xs) (map g xs) = map (\<lambda>x. f x XOR g x :: 128 word) xs"
  by (induction xs) simp_all

lemma fold_xor_lists: "fold (\<lambda>recv h. map2 (XOR) h recv) (map (\<lambda>g. map g xs) gs) (map a xs) = map (\<lambda>x. fold (\<lambda>g v. v XOR g x) gs (a x :: 128 word)) xs"
  by (induction gs arbitrary: a) (simp_all add: map2_xor_map)

lemma xor_inputs: "map2 (XOR) xs (map f xs) = map (\<lambda>x. x XOR f x :: 128 word) xs"
  using map2_xor_map [of "\<lambda>x. x" xs f] by simp

lemma zeros: "replicate (length xs) 0 = map (\<lambda>_. 0) xs"
  by (simp add: map_replicate_const)

section \<open>The values of both sides\<close>

definition nty_roles :: "NtyMPsiOptions \<Rightarrow> nat \<Rightarrow> bool" where
  "nty_roles options wsize \<longleftrightarrow> 3 \<le> wsize \<and> nty_aided_server_rank options < wsize \<and> nty_helper_rank options < wsize \<and> nty_receiver_rank options < wsize \<and>
     distinct [nty_aided_server_rank options, nty_helper_rank options, nty_receiver_rank options]"

lemma NtyMPsi_new_roles: "NtyMPsi_new options (Some (wsize, rank)) = Inr p \<Longrightarrow> nty_roles (np_options p) wsize \<and> 1 \<le> nty_num_threads (np_options p)"
  by (auto simp: NtyMPsi_new_def nty_roles_def enforce_def rbind_def Let_def split: if_splits)

text \<open>What the run needs of the parties that encode.\<close>

definition nty_encoders :: "NtyMPsiOptions \<Rightarrow> nat \<Rightarrow> nat list" where
  "nty_encoders options wsize = nty_aided_server_rank options # (if wsize = 3 then [] else nty_clients options wsize)"

definition nty_common :: "128 word list list \<Rightarrow> 128 word set" where
  "nty_common inputs = {x. \<forall>xs \<in> set inputs. x \<in> set xs}"

definition nty_agree :: "NtyMPsiOptions \<Rightarrow> 128 word list list \<Rightarrow> 128 word list \<Rightarrow> 128 word list \<Rightarrow> bool" where
  "nty_agree options inputs hv rv \<longleftrightarrow> (\<exists>vh vr. hv = map vh (inputs ! nty_helper_rank options) \<and> rv = map vr (inputs ! nty_receiver_rank options) \<and>
     (\<forall>x \<in> nty_common inputs. vh x = vr x))"

lemma nty_agreeI:
  "(\<And>x. x \<in> nty_common inputs \<Longrightarrow> vh x = vr x) \<Longrightarrow> nty_agree options inputs (map vh (inputs ! nty_helper_rank options)) (map vr (inputs ! nty_receiver_rank options))"
  unfolding nty_agree_def by blast

lemma Nty_receiver_ok:
  assumes "nty_roles options (length inputs)" "decodes e options (length (inputs ! nty_aided_server_rank options)) msg f"
  shows "Nty_receiver e options (map length inputs) msg ys = Some (Inr (map (\<lambda>x. x XOR f x) ys))"
  using assms by (simp add: Nty_receiver_def decodes_def nty_roles_def obind_Some_Inr xor_inputs)

lemma ThreePartyPsi_ok:
  assumes roles: "nty_roles options (length inputs)" and enc: "encodes e (nty_aided_server_rank options) (inputs ! nty_aided_server_rank options)"
  shows "\<exists>res. ThreePartyPsi_values e options inputs = Some res \<and> (\<forall>hv rv. res = Inr (hv, rv) \<longrightarrow> nty_agree options inputs hv rv)"
proof -
  let ?s = "nty_aided_server_rank options" and ?h = "nty_helper_rank options" and ?r = "nty_receiver_rank options"
  let ?prfs = "env_aes (nt_env e) (nt_prf_seed e ?h)"
  have l: "?s < length inputs" "?h < length inputs" "?r < length inputs" using roles by (simp_all add: nty_roles_def)
  obtain res where res: "GenOkvs e options ?s (inputs ! ?s) (map ?prfs (inputs ! ?s)) (length (inputs ! ?s)) = Some res"
    "\<forall>msg. res = Inr msg \<longrightarrow> (\<exists>f. map f (inputs ! ?s) = map ?prfs (inputs ! ?s) \<and> decodes e options (length (inputs ! ?s)) msg f)"
    using GenOkvs_ok [OF enc length_map, of options ?prfs] by blast
  show ?thesis
  proof (cases res)
    case (Inl err)
    then show ?thesis using res(1) l by (simp add: ThreePartyPsi_values_def ThreePartyPsi_server_def obind_def)
  next
    case (Inr msg)
    then obtain f where f: "map f (inputs ! ?s) = map ?prfs (inputs ! ?s)" "decodes e options (length (inputs ! ?s)) msg f" using res(2) by blast
    have "ThreePartyPsi_values e options inputs = Some (Inr (map (\<lambda>x. x XOR ?prfs x) (inputs ! ?h), map (\<lambda>x. x XOR f x) (inputs ! ?r)))"
      using res(1) Inr l Nty_receiver_ok [OF roles f(2)] by (simp add: ThreePartyPsi_values_def ThreePartyPsi_server_def ThreePartyPsi_helper_def obind_Some_Inr xor_inputs)
    moreover have "?prfs x = f x" if "x \<in> nty_common inputs" for x using f(1) that l(1) by (auto simp: nty_common_def)
    ultimately show ?thesis by (auto intro: nty_agreeI)
  qed
qed

text \<open>A client's store, and the sum of all of them at the helper.\<close>

abbreviation client_prf :: "NtyEnv \<Rightarrow> nat \<Rightarrow> 128 word \<Rightarrow> 128 word" where
  "client_prf e i \<equiv> env_aes (nt_env e) (nt_prf_seed e i)"

definition prf_sum :: "NtyEnv \<Rightarrow> NtyMPsiOptions \<Rightarrow> nat \<Rightarrow> 128 word \<Rightarrow> 128 word" where
  "prf_sum e options wsize x = fold (\<lambda>i v. v XOR client_prf e i x) (nty_clients options wsize) 0"

lemma MultiPartyPsi_server_values:
  "fold (\<lambda>seed h. map2 (XOR) h (map (env_aes (nt_env e) seed) xs)) (map (nt_prf_seed e) (nty_clients options wsize)) (replicate (length xs) 0) = map (prf_sum e options wsize) xs"
  using fold_xor_lists [of xs "map (client_prf e) (nty_clients options wsize)" "\<lambda>_. 0"]
  by (simp add: zeros prf_sum_def [abs_def] fold_map comp_def del: map_replicate_const)

lemma helper_values_sum:
  assumes "list_all2 (\<lambda>(i, msg) g. i < length inputs \<and> decodes e options (length (inputs ! i)) msg g) msgs gs"
  shows "MultiPartyPsi_helper e options (map length inputs) msgs ys = Some (Inr (map (\<lambda>x. x XOR fold (\<lambda>g v. v XOR g x) gs 0) ys))"
proof -
  let ?f = "\<lambda>(i, msg). obind (Some (at (map length inputs) i)) (\<lambda>n. DecodeOkvs e options ys n msg (replicate (length ys) 0))"
  have "list_all2 (\<lambda>x y. ?f x = Some (Inr y)) msgs (map (\<lambda>g. map g ys) gs)"
    unfolding list_all2_map2 by (rule list_all2_mono [OF assms]) (auto simp: obind_Some_Inr decodes_def)
  then have "omap ?f msgs = Some (Inr (map (\<lambda>g. map g ys) gs))" by (rule omap_Inr)
  then show ?thesis using fold_xor_lists [of ys gs "\<lambda>_. 0"] by (simp add: MultiPartyPsi_helper_def obind_Some_Inr zeros xor_inputs del: map_replicate_const)
qed

lemma MultiPartyPsi_clients:
  assumes enc: "\<forall>i \<in> set (nty_clients options (length inputs)). encodes e i (inputs ! i)"
  shows "\<exists>res. omap (\<lambda>(i, seed_buf). obind (Some (at inputs i)) (\<lambda>own. obind (MultiPartyPsi_client e options (map length inputs) i seed_buf own) (\<lambda>msg. Some (Inr (i, msg)))))
       (MultiPartyPsi_seeds e options (length inputs)) = Some res \<and>
     (\<forall>msgs. res = Inr msgs \<longrightarrow> (\<exists>gs. list_all2 (\<lambda>(i, msg) g. i < length inputs \<and> decodes e options (length (inputs ! i)) msg g) msgs gs \<and>
        (\<forall>x \<in> nty_common inputs. fold (\<lambda>g v. v XOR g x) gs 0 = prf_sum e options (length inputs) x)))"
proof -
  let ?cs = "nty_clients options (length inputs)"
  let ?f = "\<lambda>(i, seed_buf). obind (Some (at inputs i)) (\<lambda>own. obind (MultiPartyPsi_client e options (map length inputs) i seed_buf own) (\<lambda>msg. Some (Inr (i, msg))))"
  let ?Q = "\<lambda>i msg g. i < length inputs \<and> decodes e options (length (inputs ! i)) msg g \<and> (\<forall>x \<in> set (inputs ! i). g x = client_prf e i x)"
  have one: "\<exists>r. ?f (i, to_bytes 16 (nt_prf_seed e i)) = Some r \<and> (\<forall>y. r = Inr y \<longrightarrow> (\<exists>msg g. y = (i, msg) \<and> ?Q i msg g))" if i: "i \<in> set ?cs" for i
  proof -
    have l: "i < length inputs" using i by (simp add: nty_clients_def)
    obtain r where r: "GenOkvs e options i (inputs ! i) (map (client_prf e i) (inputs ! i)) (length (inputs ! i)) = Some r"
      "\<forall>msg. r = Inr msg \<longrightarrow> (\<exists>f. map f (inputs ! i) = map (client_prf e i) (inputs ! i) \<and> decodes e options (length (inputs ! i)) msg f)"
      using GenOkvs_ok [OF bspec [OF enc i] length_map, of options "client_prf e i"] by blast
    have "?f (i, to_bytes 16 (nt_prf_seed e i)) = Some (rbind r (\<lambda>msg. Inr (i, msg)))"
      using r(1) l by (cases r) (simp_all add: MultiPartyPsi_client_def obind_Some_Inr obind_def)
    moreover have "\<forall>y. rbind r (\<lambda>msg. Inr (i, msg)) = Inr y \<longrightarrow> (\<exists>msg g. y = (i, msg) \<and> ?Q i msg g)"
      using r(2) l by (cases r) auto
    ultimately show ?thesis by blast
  qed
  have ends: "\<exists>r. ?f x = Some r" if x: "x \<in> set (MultiPartyPsi_seeds e options (length inputs))" for x
  proof -
    obtain i where "i \<in> set ?cs" "x = (i, to_bytes 16 (nt_prf_seed e i))" using x unfolding MultiPartyPsi_seeds_def by auto
    then show ?thesis using one [of i] by blast
  qed
  obtain res where res: "omap ?f (MultiPartyPsi_seeds e options (length inputs)) = Some res"
    "\<forall>ys. res = Inr ys \<longrightarrow> list_all2 (\<lambda>x y. ?f x = Some (Inr y)) (MultiPartyPsi_seeds e options (length inputs)) ys"
    using omap_ends [of "MultiPartyPsi_seeds e options (length inputs)" ?f] ends by blast
  have gs: "\<exists>gs. list_all2 (\<lambda>(i, msg) g. i < length inputs \<and> decodes e options (length (inputs ! i)) msg g) ms gs \<and>
      (\<forall>x \<in> nty_common inputs. \<forall>v. fold (\<lambda>g v. v XOR g x) gs v = fold (\<lambda>i v. v XOR client_prf e i x) is' v)"
    if "list_all2 (\<lambda>i y. ?f (i, to_bytes 16 (nt_prf_seed e i)) = Some (Inr y)) is' ms" "set is' \<subseteq> set ?cs" for is' ms
    using that
  proof (induction is' ms rule: list_all2_induct)
    case (Cons i is' y ms)
    have i: "i \<in> set ?cs" using Cons.prems by simp
    obtain r where r: "?f (i, to_bytes 16 (nt_prf_seed e i)) = Some r" "\<forall>y. r = Inr y \<longrightarrow> (\<exists>msg g. y = (i, msg) \<and> ?Q i msg g)" using one [OF i] by blast
    have "r = Inr y" using r(1) Cons.hyps(1) by (simp only: option.inject)
    then obtain msg g where g: "y = (i, msg)" "?Q i msg g" using r(2) by blast
    obtain gs where gs: "list_all2 (\<lambda>(i, msg) g. i < length inputs \<and> decodes e options (length (inputs ! i)) msg g) ms gs"
      "\<forall>x \<in> nty_common inputs. \<forall>v. fold (\<lambda>g v. v XOR g x) gs v = fold (\<lambda>i v. v XOR client_prf e i x) is' v" using Cons.IH Cons.prems by auto
    have "g x = client_prf e i x" if "x \<in> nty_common inputs" for x using g(2) that by (simp add: nty_common_def)
    then show ?case using g gs by (intro exI [of _ "g # gs"]) simp
  qed simp
  have "\<exists>gs. list_all2 (\<lambda>(i, msg) g. i < length inputs \<and> decodes e options (length (inputs ! i)) msg g) msgs gs \<and>
      (\<forall>x \<in> nty_common inputs. fold (\<lambda>g v. v XOR g x) gs 0 = prf_sum e options (length inputs) x)" if "res = Inr msgs" for msgs
  proof -
    have "list_all2 (\<lambda>i y. ?f (i, to_bytes 16 (nt_prf_seed e i)) = Some (Inr y)) ?cs msgs" using that res(2) by (simp add: MultiPartyPsi_seeds_def list_all2_map1)
    from gs [OF this] show ?thesis by (auto simp: prf_sum_def)
  qed
  with res(1) show ?thesis by blast
qed

lemma MultiPartyPsi_ok:
  assumes roles: "nty_roles options (length inputs)" and enc: "encodes e (nty_aided_server_rank options) (inputs ! nty_aided_server_rank options)"
    "\<forall>i \<in> set (nty_clients options (length inputs)). encodes e i (inputs ! i)"
  shows "\<exists>res. MultiPartyPsi_values e options inputs = Some res \<and> (\<forall>hv rv. res = Inr (hv, rv) \<longrightarrow> nty_agree options inputs hv rv)"
proof -
  let ?s = "nty_aided_server_rank options" and ?h = "nty_helper_rank options" and ?r = "nty_receiver_rank options"
  let ?prfs = "prf_sum e options (length inputs)"
  have l: "?s < length inputs" "?h < length inputs" "?r < length inputs" using roles by (simp_all add: nty_roles_def)
  obtain res where res: "GenOkvs e options ?s (inputs ! ?s) (map ?prfs (inputs ! ?s)) (length (inputs ! ?s)) = Some res"
    "\<forall>msg. res = Inr msg \<longrightarrow> (\<exists>f. map f (inputs ! ?s) = map ?prfs (inputs ! ?s) \<and> decodes e options (length (inputs ! ?s)) msg f)"
    using GenOkvs_ok [OF enc(1) length_map, of options ?prfs] by blast
  then have server: "MultiPartyPsi_server e options (length inputs) (map length inputs) (inputs ! ?s) = Some res"
    using l(1) by (simp add: MultiPartyPsi_server_def MultiPartyPsi_server_values obind_Some_Inr)
  obtain res' where res': "omap (\<lambda>(i, seed_buf). obind (Some (at inputs i)) (\<lambda>own. obind (MultiPartyPsi_client e options (map length inputs) i seed_buf own) (\<lambda>msg. Some (Inr (i, msg)))))
       (MultiPartyPsi_seeds e options (length inputs)) = Some res'"
     "\<forall>msgs. res' = Inr msgs \<longrightarrow> (\<exists>gs. list_all2 (\<lambda>(i, msg) g. i < length inputs \<and> decodes e options (length (inputs ! i)) msg g) msgs gs \<and>
        (\<forall>x \<in> nty_common inputs. fold (\<lambda>g v. v XOR g x) gs 0 = ?prfs x))" using MultiPartyPsi_clients [OF enc(2)] by blast
  note run = MultiPartyPsi_values_def [of e options inputs, unfolded Let_def at_Inr [OF l(1)] at_Inr [OF l(2)] at_Inr [OF l(3)] obind_Some_Inr server res'(1)]
  show ?thesis
  proof (cases res)
    case (Inl err)
    then show ?thesis unfolding run by (simp add: obind_def)
  next
    case (Inr msg)
    then obtain f where f: "map f (inputs ! ?s) = map ?prfs (inputs ! ?s)" "decodes e options (length (inputs ! ?s)) msg f" using res(2) by blast
    show ?thesis
    proof (cases res')
      case (Inl err)
      then show ?thesis unfolding run Inr by (simp add: obind_def)
    next
      case msgs: (Inr msgs)
      then obtain gs where gs: "list_all2 (\<lambda>(i, msg) g. i < length inputs \<and> decodes e options (length (inputs ! i)) msg g) msgs gs"
        "\<forall>x \<in> nty_common inputs. fold (\<lambda>g v. v XOR g x) gs 0 = ?prfs x" using res'(2) by blast
      have "MultiPartyPsi_values e options inputs = Some (Inr (map (\<lambda>x. x XOR fold (\<lambda>g v. v XOR g x) gs 0) (inputs ! ?h), map (\<lambda>x. x XOR f x) (inputs ! ?r)))"
        unfolding run Inr msgs by (simp add: obind_Some_Inr helper_values_sum [OF gs(1)] Nty_receiver_ok [OF roles f(2)])
      moreover have "f x = ?prfs x" if "x \<in> nty_common inputs" for x using f(1) that l(1) by (auto simp: nty_common_def)
      ultimately show ?thesis using gs(2) by (auto intro: nty_agreeI)
    qed
  qed
qed

lemma Nty_values_ok:
  assumes "nty_roles options (length inputs)" "\<forall>i \<in> set (nty_encoders options (length inputs)). encodes e i (inputs ! i)"
  shows "\<exists>res. Nty_values e options inputs = Some res \<and> (\<forall>hv rv. res = Inr (hv, rv) \<longrightarrow> nty_agree options inputs hv rv)"
  using ThreePartyPsi_ok [of options inputs e] MultiPartyPsi_ok [of options inputs e] assms by (auto simp: Nty_values_def nty_encoders_def split: if_splits)

text \<open>
  C18. A run of \<open>NtyMPsi\<close> with three or more parties ends, if the parties that encode have distinct items in every bin. If no party fails, the receiver and, with
  \<open>broadcast_result\<close>, all parties get the items of the receiver whose value occurs among those of the helper. An item that all parties have is one of them. It is assumed that the values of
  different items of the receiver differ, that none of them is the empty key of the hash table, and that there are fewer than \<open>2 ^ 32\<close> items.
\<close>

theorem NtyMPsi_Run_common:
  assumes lib: "nty_lib_ok e" and new: "NtyMPsi_new options' (Some (length inputs, rank)) = Inr p" "options = np_options p"
    and enc: "\<forall>i \<in> set (nty_encoders options (length inputs)). encodes e i (inputs ! i)" and len: "length (inputs ! nty_receiver_rank options) < 2 ^ 32"
  shows "\<exists>res. Nty_values e options inputs = Some res \<and> (case res of Inl err \<Rightarrow> NtyMPsi_Run e options inputs = Some (Inl err)
     | Inr (hv, rv) \<Rightarrow> \<exists>f. rv = map f (inputs ! nty_receiver_rank options) \<and> (\<forall>x \<in> nty_common inputs. f x \<in> set hv) \<and>
         (inj_on f (set (inputs ! nty_receiver_rank options)) \<and> nt_empty_key e \<notin> set rv \<longrightarrow>
          (\<exists>ys. NtyMPsi_Run e options inputs = Some (Inr (map (\<lambda>i. if i = nty_receiver_rank options \<or> nty_broadcast_result options then ys else []) [0..<length inputs])) \<and>
                set ys = {x \<in> set (inputs ! nty_receiver_rank options). f x \<in> set hv} \<and> nty_common inputs \<subseteq> set ys \<and> (distinct (inputs ! nty_receiver_rank options) \<longrightarrow> distinct ys))))"
proof -
  let ?h = "nty_helper_rank options" and ?r = "nty_receiver_rank options"
  have roles: "nty_roles options (length inputs)" using NtyMPsi_new_roles [OF new(1)] new(2) by simp
  then have l: "?h < length inputs" "?r < length inputs" by (simp_all add: nty_roles_def)
  obtain res where res: "Nty_values e options inputs = Some res" "\<forall>hv rv. res = Inr (hv, rv) \<longrightarrow> nty_agree options inputs hv rv" using Nty_values_ok [OF roles enc] by blast
  show ?thesis
  proof (cases res)
    case (Inl err)
    then show ?thesis using res(1) by (simp add: NtyMPsi_Run_def obind_def)
  next
    case (Inr p)
    obtain hv rv where p: "p = (hv, rv)" by (cases p)
    obtain vh f where v: "hv = map vh (inputs ! ?h)" "rv = map f (inputs ! ?r)" "\<forall>x \<in> nty_common inputs. vh x = f x"
      using res(2) Inr p by (auto simp: nty_agree_def)
    have sub: "nty_common inputs \<subseteq> set (inputs ! ?h)" "nty_common inputs \<subseteq> set (inputs ! ?r)" using l by (auto simp: nty_common_def)
    have hv: "\<forall>x \<in> nty_common inputs. f x \<in> set hv" using v(1,3) sub(1) by (metis imageI set_map subsetD)
    have "\<exists>ys. NtyMPsi_Run e options inputs = Some (Inr (map (\<lambda>i. if i = ?r \<or> nty_broadcast_result options then ys else []) [0..<length inputs])) \<and>
        set ys = {x \<in> set (inputs ! ?r). f x \<in> set hv} \<and> nty_common inputs \<subseteq> set ys \<and> (distinct (inputs ! ?r) \<longrightarrow> distinct ys)"
      if inj: "inj_on f (set (inputs ! ?r))" "nt_empty_key e \<notin> set rv"
    proof -
      have "nt_empty_key e \<notin> f ` set (inputs ! ?r)" using inj(2) v(2) by simp
      from Nty_compare_ok [OF lib len inj(1) this, of options hv]
      obtain ys where ys: "Nty_compare e options (inputs ! ?r) hv rv = Inr ys" "set ys = {x \<in> set (inputs ! ?r). f x \<in> set hv}" "distinct (inputs ! ?r) \<longrightarrow> distinct ys" using v(2) by blast
      then have "NtyMPsi_Run e options inputs = Some (Nty_broadcast options (length inputs) ys)" using res(1) Inr p l(2) by (simp add: NtyMPsi_Run_def obind_Some_Inr)
      then show ?thesis using ys(2,3) hv sub(2) by (auto simp: Nty_broadcast_def)
    qed
    then show ?thesis using res(1) Inr p v(2) hv by auto
  qed
qed

text \<open>Four parties, with a block cipher that the keys 7 and 9 turn into the identity and an addition.\<close>

definition nty_toy_env :: NtyEnv where
  "nty_toy_env = \<lparr> nt_env = toy_env \<lparr> env_aes := (\<lambda>k x. if k = 7 then x else if k = 9 then x + 10 else 0) \<rparr>, nt_decrypt = (\<lambda>_ x. x), nt_dense = (\<lambda>_. map_of), nt_prf_seed = (\<lambda>_. 9),
     nt_baxos_seed = (\<lambda>_. 1), nt_aes_seed = 7, nt_shuffle = (\<lambda>_. rev), nt_empty_key = 0 \<rparr>"

definition nty_toy_options :: NtyMPsiOptions where
  "nty_toy_options = \<lparr> nty_num_threads = 1, nty_aided_server_rank = 0, nty_helper_rank = 1, nty_receiver_rank = 2, nty_broadcast_result = True, nty_malicious = False \<rparr>"

definition nty_bin :: Baxos where
  "nty_bin = small_baxos \<lparr> bx_num_bins := 1, bx_num_items := 2 \<rparr>"

abbreviation nty_toy_inputs :: "128 word list list" where
  "nty_toy_inputs \<equiv> [[2, 4], [4], [4, 2], [2, 4]]"

lemma nty_toy_simps [simp]:
  "nt_env nty_toy_env = toy_env \<lparr> env_aes := (\<lambda>k x. if k = 7 then x else if k = 9 then x + 10 else 0) \<rparr>" "nt_prf_seed nty_toy_env i = 9" "nt_baxos_seed nty_toy_env i = 1"
  "nt_empty_key nty_toy_env = 0" "nty_num_threads nty_toy_options = 1" "nty_aided_server_rank nty_toy_options = 0" "nty_helper_rank nty_toy_options = 1"
  "nty_receiver_rank nty_toy_options = 2" "nty_broadcast_result nty_toy_options"
  by (simp_all add: nty_toy_env_def nty_toy_options_def)

lemma nty_toy_clients [simp]: "nty_clients nty_toy_options (Suc (Suc (Suc (Suc 0)))) = [3]"
  by (simp add: nty_clients_def)

lemma nty_toy_baxos: "nty_baxos nty_toy_env 1 (Suc (Suc 0)) = Inr nty_bin"
  by (simp add: nty_baxos_def run_baxos_def toy_env_def Baxos_Init_def nty_bin_def small_baxos_def kPaxosWeight_def nty_bin_size_def kNtySSP_def small_param_def)

lemma nty_bin_good: "baxos_good log2_up nty_bin [2, 4]"
proof -
  have "log2_up 8 \<le> 8" by (simp add: log2_up_le)
  then have ty: "idx_type log2_up nty_bin = 8" by (simp add: idx_type_def RoundUpTo_def nty_bin_def small_baxos_def small_param_def Let_def)
  have "keys_ok (\<lambda>_. 0) small_param (bin_inputs nty_bin [2, 4] b)" for b
  proof (rule keys_ok_few)
    have len: "length (bin_inputs nty_bin [2, 4] b) \<le> 2" using length_filter_le [of _ "[2, 4 :: 128 word]"] by (simp add: bin_inputs_def)
    then show "length (bin_inputs nty_bin [2, 4] b) + 2 \<le> sparse_size small_param" "length (bin_inputs nty_bin [2, 4] b) < 200" by (simp_all add: small_param_def)
    show "distinct (map (AesCrHash_Hash (\<lambda>_. 0)) (bin_inputs nty_bin [2, 4] b))" by (simp add: bin_inputs_def AesCrHash_Hash_def distinct_map)
  qed (simp_all add: small_param_def)
  then show ?thesis unfolding baxos_good_def ty using small_param_ok(3)
    by (simp add: baxos_ok_def Baxos_Bins.bins_ok_def bins_good_def nty_bin_def small_baxos_def sizes_ok_def) (simp add: small_param_def)
qed

lemma nty_toy_solved:
  "Baxos_Solve log2_up True (\<lambda>_ _ _. 4) 1 (\<lambda>_. None) [2, 4] [12, 14] (replicate 9 0) nty_bin = Some (Inr [0, 12, 0, 0, 2, 0, 0, 0, 0])"
  by code_simp

lemma nty_toy_size: "Baxos_size nty_bin = 9"
  by (simp add: Baxos_size_def nty_bin_def small_baxos_def small_param_def)

lemma nty_toy_gen: "GenOkvs nty_toy_env nty_toy_options i [2, 4] [12, 14] (Suc (Suc 0)) = Some (Inr (to_bytes 16 (1 :: 128 word), SendChunked [0, 12, 0, 0, 2, 0, 0, 0, 0]))"
  using nty_toy_solved unfolding GenOkvs_def nty_toy_simps Let_def nty_toy_baxos obind_Some_Inr nty_toy_size by (simp add: toy_env_def obind_Some_Inr)

lemma nty_toy_encodes: "encodes nty_toy_env i [2, 4]"
  using nty_toy_baxos nty_bin_good by (simp add: encodes_def toy_env_def)

lemma nty_toy_decode:
  "\<exists>f. f 2 = 12 \<and> f 4 = 14 \<and> decodes nty_toy_env nty_toy_options (Suc (Suc 0)) (to_bytes 16 (1 :: 128 word), SendChunked [0, 12, 0, 0, 2, 0, 0, 0, 0]) f"
  using GenOkvs_ok [OF nty_toy_encodes, of "[12, 14]" nty_toy_options 0] nty_toy_gen [of 0] by auto

lemma nty_toy_values: "Nty_values nty_toy_env nty_toy_options nty_toy_inputs = Some (Inr ([10], [10, 14]))"
proof -
  let ?n = "map length nty_toy_inputs" and ?msg = "(to_bytes 16 (1 :: 128 word), SendChunked [0, 12, 0, 0, 2, 0, 0, 0, 0 :: 128 word])"
  obtain f where f: "f 2 = 12" "f 4 = 14" "decodes nty_toy_env nty_toy_options (Suc (Suc 0)) ?msg f" using nty_toy_decode by blast
  have s: "MultiPartyPsi_server nty_toy_env nty_toy_options (length nty_toy_inputs) ?n [2, 4] = Some (Inr ?msg)"
    using nty_toy_gen [of 0] by (simp add: MultiPartyPsi_server_def obind_Some_Inr)
  have c: "MultiPartyPsi_client nty_toy_env nty_toy_options ?n 3 (to_bytes 16 (9 :: 128 word)) [2, 4] = Some (Inr ?msg)"
    using nty_toy_gen [of 3] by (simp add: MultiPartyPsi_client_def obind_Some_Inr)
  have h: "MultiPartyPsi_helper nty_toy_env nty_toy_options ?n [(3, ?msg)] [4] = Some (Inr [10])"
    using helper_values_sum [of nty_toy_inputs nty_toy_env nty_toy_options "[(3, ?msg)]" "[f]" "[4]"] f by simp
  have r: "Nty_receiver nty_toy_env nty_toy_options ?n ?msg [4, 2] = Some (Inr [10, 14])"
    using Nty_receiver_ok [of nty_toy_options nty_toy_inputs nty_toy_env ?msg f "[4, 2]"] f by (simp add: nty_roles_def)
  show ?thesis using s c h r by (simp add: Nty_values_def MultiPartyPsi_values_def MultiPartyPsi_seeds_def obind_Some_Inr Let_def)
qed

theorem NtyMPsi_Run_common_witness:
  "\<exists>ys. NtyMPsi_Run nty_toy_env nty_toy_options nty_toy_inputs = Some (Inr [ys, ys, ys, ys]) \<and> set ys = {4}"
proof -
  have lib: "nty_lib_ok nty_toy_env" by (simp add: nty_lib_ok_def nty_toy_env_def)
  let ?p = "\<lparr> np_options = nty_toy_options, np_p2p = [None, Some 1, Some 2, Some 3] \<rparr>"
  have p: "NtyMPsi_new nty_toy_options (Some (length nty_toy_inputs, 0)) = Inr ?p" "nty_toy_options = np_options ?p"
    by (simp_all add: NtyMPsi_new_def enforce_def nty_toy_options_def numeral_eq_Suc)
  have enc: "\<forall>i \<in> set (nty_encoders nty_toy_options (length nty_toy_inputs)). encodes nty_toy_env i (nty_toy_inputs ! i)"
    using nty_toy_encodes by (simp add: nty_encoders_def)
  obtain f ys where "NtyMPsi_Run nty_toy_env nty_toy_options nty_toy_inputs = Some (Inr [ys, ys, ys, ys])" "f 4 = (10 :: 128 word)" "f 2 = (14 :: 128 word)"
      "set ys = {x. (x = 4 \<or> x = 2) \<and> f x = 10}"
    using NtyMPsi_Run_common [OF lib p enc] nty_toy_values by auto
  then show ?thesis by (intro exI [of _ ys]) auto
qed

end
