(* ===== verification/Ub_Oprf.thy ===== *)
theory Ub_Oprf
  imports Ecdh_Psi
begin

text \<open>
  \<open>psi/algorithm/ecdh/ub_psi/basic_ecdh_oprf.cc\<close>, \<open>ecdh_oprf.h\<close> and \<open>ecdh_oprf_selector.cc\<close>: the oblivious pseudo-random function of the unbalanced protocol. The client sends
  an item, hashed to the curve and multiplied by its key; the server multiplies by its own key; the client multiplies by the inverse of its key and hashes the point. The server computes
  the same value from an item directly.

  The curve libraries are parameters: hashing to the curve, multiplication, which may report a failure for FourQ, encoding and decoding of points, the inverse of a key modulo the group
  order, and the hash functions. The virtual methods of \<open>IEcdhOprfServer\<close> and \<open>IEcdhOprfClient\<close> are records of functions, which the selector fills.
\<close>

section \<open>The libraries\<close>

datatype CurveType = CURVE_FOURQ | CURVE_SECP256K1 | CURVE_SM2 | CURVE_OTHER nat

datatype HashAlgorithm = BLAKE3 | SslHash nat

record 'p CurveLib =
  cl_hash_to_curve :: "string \<Rightarrow> 'p"
  cl_mul :: "8 word list \<Rightarrow> 'p \<Rightarrow> 'p option"
  cl_encode :: "'p \<Rightarrow> string"
  cl_decode :: "string \<Rightarrow> 'p option"
  cl_inverse :: "8 word list \<Rightarrow> 8 word list"
  cl_blake3 :: "string \<Rightarrow> string"
  cl_ssl_hash :: "nat \<Rightarrow> string \<Rightarrow> string"

definition kEc256CompareLength :: nat where
  "kEc256CompareLength = 12"

definition kEcPointCompressLength :: nat where
  "kEcPointCompressLength = 33"

definition HashItem :: "'p CurveLib \<Rightarrow> string \<Rightarrow> string \<Rightarrow> nat \<Rightarrow> HashAlgorithm \<Rightarrow> string result" where
  "HashItem lib item masked_item hash_len hash_type =
     (let hash = (case hash_type of BLAKE3 \<Rightarrow> cl_blake3 lib | SslHash n \<Rightarrow> cl_ssl_hash lib n) (item @ masked_item) in
      rbind (enforce (hash_len \<le> length hash) ''hash_len <= hash.size()'') (\<lambda>_. Inr (take hash_len hash)))"

section \<open>Secp256k1 and SM2\<close>

text \<open>
  The result of \<open>EC_POINT_oct2point\<close> is not looked at: after a failure the point is the one a new \<open>EC_POINT\<close> has, \<open>cl_decode\<close> being \<open>None\<close>, whose multiple cannot be written in
  compressed form, so that \<open>ToBytes\<close> throws.
\<close>

definition EcPointMul :: "'p CurveLib \<Rightarrow> 8 word list \<Rightarrow> string \<Rightarrow> string result" where
  "EcPointMul lib sk point_bytes =
     rbind (enforce (length sk = kEccKeySize) ''sk_bytes.size() == kEccKeySize'') (\<lambda>_.
     case cl_decode lib point_bytes of
       None \<Rightarrow> Inl (Enforce ''length == kEcPointCompressLength'')
     | Some pt \<Rightarrow> (case cl_mul lib sk pt of None \<Rightarrow> Inl (Enforce ''PointMul'') | Some q \<Rightarrow> Inr (cl_encode lib q)))"

definition ItemMul :: "'p CurveLib \<Rightarrow> 8 word list \<Rightarrow> string \<Rightarrow> string result" where
  "ItemMul lib sk item =
     rbind (enforce (length sk = kEccKeySize) ''sk_bytes.size() == kEccKeySize'') (\<lambda>_.
     case cl_mul lib sk (cl_hash_to_curve lib item) of None \<Rightarrow> Inl (Enforce ''PointMul'') | Some q \<Rightarrow> Inr (cl_encode lib q))"

definition EccPrivateKeyInv :: "'p CurveLib \<Rightarrow> 8 word list \<Rightarrow> 8 word list result" where
  "EccPrivateKeyInv lib private_key =
     (let sk_inv = cl_inverse lib private_key in
      rbind (enforce (length sk_inv = kEccKeySize) ''sk_inv_bytes.size() == sk_inv.length()'') (\<lambda>_. Inr sk_inv))"

section \<open>FourQ\<close>

definition FourQPointMul :: "'p CurveLib \<Rightarrow> 8 word list \<Rightarrow> 'p \<Rightarrow> string result" where
  "FourQPointMul lib sk pt = (case cl_mul lib sk pt of None \<Rightarrow> Inl (Enforce ''fourq ecc_mul error'') | Some q \<Rightarrow> Inr (cl_encode lib q))"

definition FourQPointMul_bytes :: "'p CurveLib \<Rightarrow> 8 word list \<Rightarrow> string \<Rightarrow> string result" where
  "FourQPointMul_bytes lib sk point_bytes =
     rbind (at point_bytes 15) (\<lambda>b.
     if 128 \<le> (of_char b :: nat) then Inl (Throw ''fourq invalid point status'')
     else case cl_decode lib point_bytes of None \<Rightarrow> Inl (Enforce ''fourq decode error'') | Some pt \<Rightarrow> FourQPointMul lib sk pt)"

section \<open>Servers and clients\<close>

record IEcdhOprfServer =
  sv_private_key :: "8 word list"
  sv_Evaluate :: "string \<Rightarrow> string result"
  sv_FullEvaluate :: "string \<Rightarrow> string result"
  sv_SimpleEvaluate :: "string \<Rightarrow> string result"
  sv_GetCompareLength :: nat
  sv_GetEcPointLength :: nat

record IEcdhOprfClient =
  oc_Blind :: "string \<Rightarrow> string result"
  oc_Unblind :: "string \<Rightarrow> string result"
  oc_Finalize2 :: "string \<Rightarrow> string \<Rightarrow> string result"
  oc_Finalize :: "string \<Rightarrow> string result"
  oc_GetCompareLength :: nat
  oc_GetEcPointLength :: nat

definition compare_length_or :: "nat \<Rightarrow> nat" where
  "compare_length_or compare_length = (if compare_length \<noteq> 0 then compare_length else kEc256CompareLength)"

text \<open>\<open>private_key\<close> is the member, already set; \<open>compare_length\<close> and \<open>hash_type\<close> are the members with the same names.\<close>

definition BasicEcdhOprfServer :: "'p CurveLib \<Rightarrow> nat \<Rightarrow> HashAlgorithm \<Rightarrow> 8 word list \<Rightarrow> IEcdhOprfServer" where
  "BasicEcdhOprfServer lib compare_length hash_type private_key =
     \<lparr> sv_private_key = private_key,
       sv_Evaluate = EcPointMul lib private_key,
       sv_FullEvaluate = (\<lambda>input. rbind (ItemMul lib private_key input) (\<lambda>point_bytes. HashItem lib input point_bytes (compare_length_or compare_length) hash_type)),
       sv_SimpleEvaluate = (\<lambda>input. rbind (ItemMul lib private_key input) (\<lambda>point_bytes. HashItem lib [] point_bytes (compare_length_or compare_length) hash_type)),
       sv_GetCompareLength = compare_length_or compare_length, sv_GetEcPointLength = kEcPointCompressLength \<rparr>"

definition BasicEcdhOprfClient :: "'p CurveLib \<Rightarrow> nat \<Rightarrow> HashAlgorithm \<Rightarrow> 8 word list \<Rightarrow> IEcdhOprfClient result" where
  "BasicEcdhOprfClient lib compare_length hash_type private_key =
     rbind (enforce (length private_key = kEccKeySize) ''private_key.size() == kEccKeySize'') (\<lambda>_.
     rbind (EccPrivateKeyInv lib private_key) (\<lambda>sk_inv.
     let finalize = (\<lambda>item evaluated. rbind (EcPointMul lib sk_inv evaluated) (\<lambda>unblinded. HashItem lib item unblinded (compare_length_or compare_length) hash_type)) in
     Inr \<lparr> oc_Blind = ItemMul lib private_key, oc_Unblind = EcPointMul lib sk_inv, oc_Finalize2 = finalize, oc_Finalize = finalize [],
       oc_GetCompareLength = compare_length_or compare_length, oc_GetEcPointLength = kEcPointCompressLength \<rparr>))"

definition FourQBasicEcdhOprfServer :: "'p CurveLib \<Rightarrow> nat \<Rightarrow> HashAlgorithm \<Rightarrow> 8 word list \<Rightarrow> IEcdhOprfServer" where
  "FourQBasicEcdhOprfServer lib compare_length hash_type private_key =
     \<lparr> sv_private_key = private_key,
       sv_Evaluate = FourQPointMul_bytes lib private_key,
       sv_FullEvaluate = (\<lambda>input. rbind (FourQPointMul lib private_key (cl_hash_to_curve lib input)) (\<lambda>pt. HashItem lib input pt (compare_length_or compare_length) hash_type)),
       sv_SimpleEvaluate = (\<lambda>input. rbind (FourQPointMul lib private_key (cl_hash_to_curve lib input)) (\<lambda>pt. HashItem lib [] pt (compare_length_or compare_length) hash_type)),
       sv_GetCompareLength = compare_length_or compare_length, sv_GetEcPointLength = kEccKeySize \<rparr>"

definition FourQBasicEcdhOprfClient :: "'p CurveLib \<Rightarrow> nat \<Rightarrow> HashAlgorithm \<Rightarrow> 8 word list \<Rightarrow> IEcdhOprfClient result" where
  "FourQBasicEcdhOprfClient lib compare_length hash_type private_key =
     rbind (enforce (length private_key = kEccKeySize) ''private_key.size() == kEccKeySize'') (\<lambda>_.
     let sk_inv = cl_inverse lib private_key;
         finalize = (\<lambda>item evaluated. rbind (FourQPointMul_bytes lib sk_inv evaluated) (\<lambda>unblinded. HashItem lib item unblinded (compare_length_or compare_length) hash_type)) in
     Inr \<lparr> oc_Blind = (\<lambda>input. FourQPointMul lib private_key (cl_hash_to_curve lib input)), oc_Unblind = FourQPointMul_bytes lib sk_inv, oc_Finalize2 = finalize,
       oc_Finalize = finalize [], oc_GetCompareLength = compare_length_or compare_length, oc_GetEcPointLength = kEccKeySize \<rparr>)"

text \<open>The overloads for lists of items divide the work among threads.\<close>

definition Evaluate_all :: "IEcdhOprfServer \<Rightarrow> string list \<Rightarrow> string list result" where
  "Evaluate_all sv blinded = rmap (sv_Evaluate sv) blinded"

section \<open>The selector\<close>

text \<open>FourQ needs AVX2 on x86-64. A new object compares 12 bytes of a BLAKE3 hash.\<close>

definition CreateEcdhOprfServer :: "(CurveType \<Rightarrow> 'p CurveLib) \<Rightarrow> bool \<Rightarrow> 8 word list \<Rightarrow> CurveType \<Rightarrow> IEcdhOprfServer result" where
  "CreateEcdhOprfServer lib avx2 private_key curve =
     (case curve of
        CURVE_OTHER n \<Rightarrow> Inl (Throw ''unknown support Curve type'')
      | CURVE_FOURQ \<Rightarrow>
          if avx2 then rbind (enforce (length private_key = kEccKeySize) ''private_key.size() == kEccKeySize'') (\<lambda>_. Inr (FourQBasicEcdhOprfServer (lib curve) 0 BLAKE3 private_key))
          else Inl (Enforce ''EcdhOprfServer should not be nullptr'')
      | _ \<Rightarrow> rbind (enforce (length private_key = kEccKeySize) ''private_key.size() == kEccKeySize'') (\<lambda>_. Inr (BasicEcdhOprfServer (lib curve) 0 BLAKE3 private_key)))"

definition CreateEcdhOprfClient :: "(CurveType \<Rightarrow> 'p CurveLib) \<Rightarrow> bool \<Rightarrow> 8 word list \<Rightarrow> CurveType \<Rightarrow> IEcdhOprfClient result" where
  "CreateEcdhOprfClient lib avx2 private_key curve =
     (case curve of
        CURVE_OTHER n \<Rightarrow> Inl (Throw ''unknown support Curve type'')
      | CURVE_FOURQ \<Rightarrow>
          if avx2 then FourQBasicEcdhOprfClient (lib curve) 0 BLAKE3 private_key else Inl (Enforce ''EcdhOprfClient should not be nullptr'')
      | _ \<Rightarrow> BasicEcdhOprfClient (lib curve) 0 BLAKE3 private_key)"

section \<open>Both sides compute the same function\<close>

text \<open>The function of a server, and the contract of a server and a client.\<close>

definition oprf_value :: "IEcdhOprfServer \<Rightarrow> string \<Rightarrow> string" where
  "oprf_value sv x = (case sv_SimpleEvaluate sv x of Inl _ \<Rightarrow> [] | Inr v \<Rightarrow> v)"

locale oprf =
  fixes ok :: "IEcdhOprfServer \<Rightarrow> IEcdhOprfClient \<Rightarrow> bool"
  assumes simple_ok: "ok sv cl \<Longrightarrow> sv_SimpleEvaluate sv x = Inr (oprf_value sv x) \<and> length (oprf_value sv x) = sv_GetCompareLength sv"
    and round_ok: "ok sv cl \<Longrightarrow> \<exists>b e. oc_Blind cl x = Inr b \<and> length b = sv_GetEcPointLength sv \<and> sv_Evaluate sv b = Inr e \<and> length e = sv_GetEcPointLength sv \<and>
      oc_Finalize cl e = Inr (oprf_value sv x)"
    and lengths_ok: "ok sv cl \<Longrightarrow> oc_GetCompareLength cl = sv_GetCompareLength sv \<and> oc_GetEcPointLength cl = sv_GetEcPointLength sv \<and>
      0 < sv_GetCompareLength sv \<and> sv_GetCompareLength sv < 32 \<and> 0 < sv_GetEcPointLength sv"

text \<open>What is relied on of a curve and its keys.\<close>

definition curve_key :: "'p CurveLib \<Rightarrow> 8 word list \<Rightarrow> bool" where
  "curve_key lib k \<longleftrightarrow> length k = kEccKeySize \<and> length (cl_inverse lib k) = kEccKeySize \<and>
     (\<forall>p. cl_mul lib k p \<noteq> None) \<and> (\<forall>p q. cl_mul lib k p = Some q \<longrightarrow> cl_mul lib (cl_inverse lib k) q = Some p)"

definition curve_ok :: "nat \<Rightarrow> 'p CurveLib \<Rightarrow> bool" where
  "curve_ok L lib \<longleftrightarrow> (\<forall>p. cl_decode lib (cl_encode lib p) = Some p \<and> length (cl_encode lib p) = L) \<and>
     (\<forall>a b p q r. cl_mul lib a p = Some q \<longrightarrow> cl_mul lib b q = Some r \<longrightarrow> (\<exists>s. cl_mul lib b p = Some s \<and> cl_mul lib a s = Some r)) \<and>
     (\<forall>x. kEc256CompareLength \<le> length (cl_blake3 lib x))"

definition fourq_ok :: "'p CurveLib \<Rightarrow> bool" where
  "fourq_ok lib \<longleftrightarrow> (\<forall>p. of_char (cl_encode lib p ! 15) < (128 :: nat))"

definition created_pair :: "(CurveType \<Rightarrow> 'p CurveLib) \<Rightarrow> bool \<Rightarrow> CurveType \<Rightarrow> IEcdhOprfServer \<Rightarrow> IEcdhOprfClient \<Rightarrow> bool" where
  "created_pair lib avx2 curve sv cl \<longleftrightarrow>
     (\<exists>k k'. CreateEcdhOprfServer lib avx2 k curve = Inr sv \<and> CreateEcdhOprfClient lib avx2 k' curve = Inr cl \<and>
        curve_key (lib curve) k \<and> curve_key (lib curve) k' \<and>
        (if curve = CURVE_FOURQ then curve_ok kEccKeySize (lib curve) \<and> fourq_ok (lib curve) else curve_ok kEcPointCompressLength (lib curve)))"

text \<open>Multiplying by the keys of both sides and by the inverse of the client's key.\<close>

lemma unblinded:
  assumes "curve_ok L lib" "curve_key lib k" "curve_key lib k'"
  shows "\<exists>b e v. cl_mul lib k' p = Some b \<and> cl_mul lib k b = Some e \<and> cl_mul lib k p = Some v \<and> cl_mul lib (cl_inverse lib k') e = Some v"
proof -
  have some: "\<exists>q. cl_mul lib k p = Some q" "\<exists>q. cl_mul lib k' p = Some q" for p using assms(2,3) by (simp_all add: curve_key_def)
  obtain b where b: "cl_mul lib k' p = Some b" using some(2) by blast
  obtain e where e: "cl_mul lib k b = Some e" using some(1) by blast
  then obtain s where s: "cl_mul lib k p = Some s" "cl_mul lib k' s = Some e" using assms(1) b unfolding curve_ok_def by blast
  then have "cl_mul lib (cl_inverse lib k') e = Some s" using assms(3) unfolding curve_key_def by blast
  then show ?thesis using b e s(1) by blast
qed

lemmas oprf_defs = HashItem_def EcPointMul_def ItemMul_def EccPrivateKeyInv_def FourQPointMul_def FourQPointMul_bytes_def compare_length_or_def kEc256CompareLength_def enforce_def

lemma Basic_pair:
  assumes k: "curve_key lib k" "curve_key lib k'" and c: "curve_ok kEcPointCompressLength lib" and cl: "BasicEcdhOprfClient lib 0 BLAKE3 k' = Inr cl"
  defines "sv \<equiv> BasicEcdhOprfServer lib 0 BLAKE3 k"
  shows "\<exists>b e v. sv_SimpleEvaluate sv x = Inr v \<and> length v = 12 \<and> oc_Blind cl x = Inr b \<and> length b = 33 \<and> sv_Evaluate sv b = Inr e \<and> length e = 33 \<and> oc_Finalize cl e = Inr v"
proof -
  obtain b e v where u: "cl_mul lib k' (cl_hash_to_curve lib x) = Some b" "cl_mul lib k b = Some e" "cl_mul lib k (cl_hash_to_curve lib x) = Some v"
    "cl_mul lib (cl_inverse lib k') e = Some v" using unblinded [OF c k] by blast
  have l: "length k = kEccKeySize" "length k' = kEccKeySize" "length (cl_inverse lib k') = kEccKeySize" using k by (simp_all add: curve_key_def)
  have enc: "cl_decode lib (cl_encode lib p) = Some p" "length (cl_encode lib p) = 33" "12 \<le> length (cl_blake3 lib y)" for p y
    using c by (simp_all add: curve_ok_def kEcPointCompressLength_def kEc256CompareLength_def)
  have cl': "oc_Blind cl = ItemMul lib k'" "oc_Finalize cl = (\<lambda>evaluated. rbind (EcPointMul lib (cl_inverse lib k') evaluated) (\<lambda>un. HashItem lib [] un (compare_length_or 0) BLAKE3))"
    using cl l by (auto simp: BasicEcdhOprfClient_def EccPrivateKeyInv_def enforce_def)
  show ?thesis
    by (intro exI [of _ "cl_encode lib b"] exI [of _ "cl_encode lib e"] exI [of _ "take 12 (cl_blake3 lib (cl_encode lib v))"])
      (use u l enc in \<open>simp add: sv_def BasicEcdhOprfServer_def cl' oprf_defs\<close>)
qed

lemma FourQ_pair:
  assumes k: "curve_key lib k" "curve_key lib k'" and c: "curve_ok kEccKeySize lib" "fourq_ok lib" and cl: "FourQBasicEcdhOprfClient lib 0 BLAKE3 k' = Inr cl"
  defines "sv \<equiv> FourQBasicEcdhOprfServer lib 0 BLAKE3 k"
  shows "\<exists>b e v. sv_SimpleEvaluate sv x = Inr v \<and> length v = 12 \<and> oc_Blind cl x = Inr b \<and> length b = 32 \<and> sv_Evaluate sv b = Inr e \<and> length e = 32 \<and> oc_Finalize cl e = Inr v"
proof -
  obtain b e v where u: "cl_mul lib k' (cl_hash_to_curve lib x) = Some b" "cl_mul lib k b = Some e" "cl_mul lib k (cl_hash_to_curve lib x) = Some v"
    "cl_mul lib (cl_inverse lib k') e = Some v" using unblinded [OF c(1) k] by blast
  have l: "length k' = kEccKeySize" using k by (simp add: curve_key_def)
  have enc: "cl_decode lib (cl_encode lib p) = Some p" "length (cl_encode lib p) = 32" "12 \<le> length (cl_blake3 lib y)" for p y
    using c by (simp_all add: curve_ok_def kEccKeySize_def kEc256CompareLength_def)
  have f: "\<not> 128 \<le> (of_char (cl_encode lib p ! 15) :: nat)" for p using c(2) by (simp add: fourq_ok_def not_le)
  have cl': "oc_Blind cl = (\<lambda>input. FourQPointMul lib k' (cl_hash_to_curve lib input))"
    "oc_Finalize cl = (\<lambda>evaluated. rbind (FourQPointMul_bytes lib (cl_inverse lib k') evaluated) (\<lambda>un. HashItem lib [] un (compare_length_or 0) BLAKE3))"
    using cl l by (auto simp: FourQBasicEcdhOprfClient_def enforce_def Let_def)
  show ?thesis
    by (intro exI [of _ "cl_encode lib b"] exI [of _ "cl_encode lib e"] exI [of _ "take 12 (cl_blake3 lib (cl_encode lib v))"])
      (use u enc f in \<open>simp add: sv_def FourQBasicEcdhOprfServer_def cl' oprf_defs\<close>)
qed

lemma created_cases:
  assumes "created_pair lib avx2 curve sv cl"
  obtains k k' where "curve_key (lib curve) k" "curve_key (lib curve) k'" "sv = FourQBasicEcdhOprfServer (lib curve) 0 BLAKE3 k" "FourQBasicEcdhOprfClient (lib curve) 0 BLAKE3 k' = Inr cl"
      "curve_ok kEccKeySize (lib curve)" "fourq_ok (lib curve)"
    | k k' where "curve_key (lib curve) k" "curve_key (lib curve) k'" "sv = BasicEcdhOprfServer (lib curve) 0 BLAKE3 k" "BasicEcdhOprfClient (lib curve) 0 BLAKE3 k' = Inr cl"
      "curve_ok kEcPointCompressLength (lib curve)"
proof -
  obtain k k' where k: "CreateEcdhOprfServer lib avx2 k curve = Inr sv" "CreateEcdhOprfClient lib avx2 k' curve = Inr cl" "curve_key (lib curve) k" "curve_key (lib curve) k'"
    "if curve = CURVE_FOURQ then curve_ok kEccKeySize (lib curve) \<and> fourq_ok (lib curve) else curve_ok kEcPointCompressLength (lib curve)"
    using assms unfolding created_pair_def by blast
  have len: "length k = kEccKeySize" using k(3) by (simp add: curve_key_def)
  show ?thesis
  proof (cases "curve = CURVE_FOURQ")
    case True
    then have "sv = FourQBasicEcdhOprfServer (lib curve) 0 BLAKE3 k" "FourQBasicEcdhOprfClient (lib curve) 0 BLAKE3 k' = Inr cl"
      using k(1,2) len by (auto simp: CreateEcdhOprfServer_def CreateEcdhOprfClient_def enforce_def split: if_splits)
    then show ?thesis using that(1) k(3-5) True by simp
  next
    case False
    then have "sv = BasicEcdhOprfServer (lib curve) 0 BLAKE3 k" "BasicEcdhOprfClient (lib curve) 0 BLAKE3 k' = Inr cl"
      using k(1,2) len by (auto simp: CreateEcdhOprfServer_def CreateEcdhOprfClient_def enforce_def split: CurveType.splits)
    then show ?thesis using that(2) k(3-5) False by simp
  qed
qed

lemma created_round:
  assumes "created_pair lib avx2 curve sv cl"
  shows "\<exists>b e v. sv_SimpleEvaluate sv x = Inr v \<and> length v = sv_GetCompareLength sv \<and> oc_Blind cl x = Inr b \<and> length b = sv_GetEcPointLength sv \<and>
     sv_Evaluate sv b = Inr e \<and> length e = sv_GetEcPointLength sv \<and> oc_Finalize cl e = Inr v"
  using assms
proof (cases rule: created_cases)
  case (1 k k')
  have "sv_GetCompareLength sv = 12" "sv_GetEcPointLength sv = 32" unfolding 1(3) by (simp_all add: FourQBasicEcdhOprfServer_def oprf_defs kEccKeySize_def)
  then show ?thesis using FourQ_pair [OF 1(1,2,5,6,4), of x] unfolding 1(3) by simp
next
  case (2 k k')
  have "sv_GetCompareLength sv = 12" "sv_GetEcPointLength sv = 33" unfolding 2(3) by (simp_all add: BasicEcdhOprfServer_def oprf_defs kEcPointCompressLength_def)
  then show ?thesis using Basic_pair [OF 2(1,2,5,4), of x] unfolding 2(3) by simp
qed

lemma created_lengths:
  assumes "created_pair lib avx2 curve sv cl"
  shows "oc_GetCompareLength cl = sv_GetCompareLength sv \<and> oc_GetEcPointLength cl = sv_GetEcPointLength sv \<and>
     0 < sv_GetCompareLength sv \<and> sv_GetCompareLength sv < 32 \<and> 0 < sv_GetEcPointLength sv"
  using assms
proof (cases rule: created_cases)
  case (1 k k')
  have "oc_GetCompareLength cl = compare_length_or 0 \<and> oc_GetEcPointLength cl = kEccKeySize"
    using 1(2,4) by (auto simp: FourQBasicEcdhOprfClient_def curve_key_def enforce_def Let_def)
  then show ?thesis unfolding 1(3) by (simp add: FourQBasicEcdhOprfServer_def compare_length_or_def kEc256CompareLength_def kEccKeySize_def)
next
  case (2 k k')
  have "oc_GetCompareLength cl = compare_length_or 0 \<and> oc_GetEcPointLength cl = kEcPointCompressLength"
    using 2(2,4) by (auto simp: BasicEcdhOprfClient_def EccPrivateKeyInv_def curve_key_def enforce_def Let_def)
  then show ?thesis unfolding 2(3) by (simp add: BasicEcdhOprfServer_def compare_length_or_def kEc256CompareLength_def kEcPointCompressLength_def)
qed

interpretation created: oprf "created_pair lib avx2 curve" for lib avx2 curve
proof
  fix sv cl x assume c: "created_pair lib avx2 curve sv cl"
  obtain b e v where r: "sv_SimpleEvaluate sv x = Inr v" "length v = sv_GetCompareLength sv" "oc_Blind cl x = Inr b" "length b = sv_GetEcPointLength sv"
    "sv_Evaluate sv b = Inr e" "length e = sv_GetEcPointLength sv" "oc_Finalize cl e = Inr v" using created_round [OF c] by blast
  then have v: "oprf_value sv x = v" by (simp add: oprf_value_def)
  then show "sv_SimpleEvaluate sv x = Inr (oprf_value sv x) \<and> length (oprf_value sv x) = sv_GetCompareLength sv"
    "\<exists>b e. oc_Blind cl x = Inr b \<and> length b = sv_GetEcPointLength sv \<and> sv_Evaluate sv b = Inr e \<and> length e = sv_GetEcPointLength sv \<and> oc_Finalize cl e = Inr (oprf_value sv x)"
    using r by auto
qed (rule created_lengths)

end
