(* ===== verification/Ub_Cache.thy ===== *)
theory Ub_Cache
  imports Ub_Oprf
begin

text \<open>
  \<open>psi/algorithm/ecdh/ub_psi/ub_psi_cache.cc\<close> and the stores of the unbalanced protocol in \<open>psi/utils/ec_point_store.cc\<close>: the server's cache of evaluated items with the place of
  each item in the shuffled order and in the table, the client's copy of it in a file, the client's own evaluated items in memory, and \<open>ComputeIndicesWithDupCnt\<close>, which
  compares the two.

  A file of structures is the list of the structures, a JSON file its message. \<open>threads\<close> is the number of hardware threads.
\<close>

section \<open>Loops over a provider\<close>

text \<open>Batches are read until one is empty, and each is handled in turn.\<close>

partial_function (option) each_batch ::
  "('p \<Rightarrow> ('b \<times> 'p) result option) \<Rightarrow> ('b \<Rightarrow> bool) \<Rightarrow> ('b \<Rightarrow> 's \<Rightarrow> 's result) \<Rightarrow> 'p \<Rightarrow> 's \<Rightarrow> 's result option" where
  [code]: "each_batch rd is_end f p s =
     (case rd p of
        None \<Rightarrow> None
      | Some (Inl e) \<Rightarrow> Some (Inl e)
      | Some (Inr (b, p')) \<Rightarrow>
          if is_end b then Some (Inr s)
          else (case f b s of Inl e \<Rightarrow> Some (Inl e) | Inr s' \<Rightarrow> each_batch rd is_end f p' s'))"

inductive reads :: "('p \<Rightarrow> ('b \<times> 'p) result option) \<Rightarrow> ('b \<Rightarrow> bool) \<Rightarrow> 'p \<Rightarrow> 'b list \<Rightarrow> bool" for rd is_end where
  reads_end: "rd p = Some (Inr (b, p')) \<Longrightarrow> is_end b \<Longrightarrow> reads rd is_end p []"
| reads_batch: "rd p = Some (Inr (b, p')) \<Longrightarrow> \<not> is_end b \<Longrightarrow> reads rd is_end p' bs \<Longrightarrow> reads rd is_end p (b # bs)"

lemma each_batch_reads:
  assumes "reads rd is_end p bs"
  shows "each_batch rd is_end f p s = Some (rfold f bs s)"
  using assms
proof (induction arbitrary: s rule: reads.induct)
  case (reads_end p b p')
  then show ?case by (subst each_batch.simps) simp
next
  case (reads_batch p b p' bs)
  then show ?case by (subst each_batch.simps) (simp split: sum.splits)
qed

abbreviation no_items :: "dup_batch \<Rightarrow> bool" where
  "no_items b \<equiv> fst b = []"

definition dup_batch_of :: "(string \<times> nat) list \<Rightarrow> dup_batch" where
  "dup_batch_of xs = (map fst xs, dup_cnt_map (map snd xs))"

context dup_cnt_provider
begin

lemma dup_reads:
  assumes "d_inv p"
  shows "\<exists>xss. reads (\<lambda>p. Some (rd p)) no_items p (map dup_batch_of xss) \<and> concat xss = d_remaining p"
  using assms
proof (induction "length (d_remaining p)" arbitrary: p rule: less_induct)
  case less
  obtain n p' where r: "rd p = Inr (dup_batch_of (take n (d_remaining p)), p')" "d_inv p'" "d_remaining p' = drop n (d_remaining p)" "d_remaining p \<noteq> [] \<longrightarrow> 0 < n"
    using read_dup [OF less.prems] by (auto simp: dup_batch_of_def)
  show ?case
  proof (cases "d_remaining p = []")
    case True
    then have "reads (\<lambda>p. Some (rd p)) no_items p []" using r(1) by (intro reads.reads_end [where p' = p']) (auto simp: dup_batch_of_def)
    then show ?thesis using True by (intro exI [of _ "[]"]) simp
  next
    case False
    then have "length (d_remaining p') < length (d_remaining p)" using r(3,4) by simp
    from less.hyps [OF this r(2)] obtain xss where "reads (\<lambda>p. Some (rd p)) no_items p' (map dup_batch_of xss)" "concat xss = d_remaining p'" by blast
    moreover have "\<not> no_items (dup_batch_of (take n (d_remaining p)))" using False r(4) by (simp add: dup_batch_of_def)
    ultimately show ?thesis using r(1,3)
      by (intro exI [of _ "take n (d_remaining p) # xss"]) (auto intro: reads.reads_batch)
  qed
qed

end

lemma shuffled_reads:
  assumes "read_shuffled rd shuffle s = Some (Inr bs)"
  shows "reads (SimpleShuffled_ReadNextShuffledBatch rd shuffle) (\<lambda>b. sh_items b = []) s bs"
  using assms
proof (induction bs arbitrary: s)
  case Nil
  then show ?case by (subst (asm) read_shuffled.simps) (auto split: option.splits sum.splits if_splits bind_splits simp: rbind_def intro: reads.intros)
next
  case (Cons b bs)
  from Cons.prems obtain s' where "SimpleShuffled_ReadNextShuffledBatch rd shuffle s = Some (Inr (b, s'))" "sh_items b \<noteq> []" "read_shuffled rd shuffle s' = Some (Inr bs)"
    by (subst (asm) read_shuffled.simps) (auto split: option.splits sum.splits if_splits bind_splits simp: rbind_def)
  then show ?case using Cons.IH by (auto intro: reads.intros)
qed

section \<open>The cache of the server\<close>

definition kMaxCipherSize :: nat where
  "kMaxCipherSize = 32"

record UbPsiCacheItem =
  ci_origin_index :: "32 word"
  ci_shuffle_index :: "32 word"
  ci_dup_cnt :: "32 word"
  ci_data :: string

record UBPsiCacheMeta =
  cm_version :: string
  cm_item_len :: nat
  cm_priv_key :: "8 word list"
  cm_key_cols :: "string list"
  cm_item_count :: "32 word"

record UbPsiCache =
  uc_data_len :: nat
  uc_meta :: UBPsiCacheMeta
  uc_data_file :: "UbPsiCacheItem list"
  uc_meta_file :: "UBPsiCacheMeta option"
  uc_cache_cnt :: nat

definition UbPsiCache_new :: "nat \<Rightarrow> string list \<Rightarrow> 8 word list \<Rightarrow> UbPsiCache result" where
  "UbPsiCache_new data_len selected_fields private_key =
     rbind (enforce (data_len < kMaxCipherSize) ''data_len too large'') (\<lambda>_.
     Inr \<lparr> uc_data_len = data_len,
           uc_meta = \<lparr> cm_version = ''0.0.1'', cm_item_len = data_len, cm_priv_key = private_key, cm_key_cols = selected_fields, cm_item_count = 0 \<rparr>,
           uc_data_file = [], uc_meta_file = None, uc_cache_cnt = 0 \<rparr>)"

definition UbPsiCache_Flush :: "UbPsiCache \<Rightarrow> UbPsiCache" where
  "UbPsiCache_Flush c = (let meta = (uc_meta c) \<lparr> cm_item_count := of_nat (uc_cache_cnt c) \<rparr> in c \<lparr> uc_meta := meta, uc_meta_file := Some meta \<rparr>)"

definition UbPsiCache_SaveData :: "string \<Rightarrow> nat \<Rightarrow> nat \<Rightarrow> nat \<Rightarrow> UbPsiCache \<Rightarrow> UbPsiCache result" where
  "UbPsiCache_SaveData item index shuffle_index dup_cnt c =
     rbind (enforce (length item = uc_data_len c) ''item size'') (\<lambda>_.
     let cache_item = \<lparr> ci_origin_index = of_nat index, ci_shuffle_index = of_nat shuffle_index, ci_dup_cnt = of_nat dup_cnt,
                        ci_data = item @ replicate (kMaxCipherSize - length item) (char_of (0 :: nat)) \<rparr> in
     Inr (c \<lparr> uc_data_file := uc_data_file c @ [cache_item], uc_cache_cnt := uc_cache_cnt c + 1 \<rparr>))"

record UbPsiCacheProvider =
  cp_batch_size :: nat
  cp_in :: "UbPsiCacheItem list"
  cp_meta :: UBPsiCacheMeta
  cp_read_count :: nat

definition UbPsiCacheProvider_new :: "UbPsiCacheItem list option \<Rightarrow> UBPsiCacheMeta option \<Rightarrow> nat \<Rightarrow> UbPsiCacheProvider result" where
  "UbPsiCacheProvider_new data_file meta_file batch_size =
     (case data_file of None \<Rightarrow> Inl (Enforce ''data file not exists'')
      | Some data \<Rightarrow> (case meta_file of None \<Rightarrow> Inl (Enforce ''meta file not exists'')
        | Some meta \<Rightarrow>
            rbind (enforce (length data = unat (cm_item_count meta)) ''file item count mismatch meta record'') (\<lambda>_.
            Inr \<lparr> cp_batch_size = batch_size mod 2 ^ 32, cp_in = data, cp_meta = meta, cp_read_count = 0 \<rparr>)))"

definition empty_cache_item :: UbPsiCacheItem where
  "empty_cache_item = \<lparr> ci_origin_index = 0, ci_shuffle_index = 0, ci_dup_cnt = 0, ci_data = replicate kMaxCipherSize (char_of (0 :: nat)) \<rparr>"

text \<open>What the file does not have stays as it was initialised.\<close>

definition UbPsiCacheProvider_ReadData :: "nat \<Rightarrow> UbPsiCacheProvider \<Rightarrow> UbPsiCacheItem list \<times> UbPsiCacheProvider" where
  "UbPsiCacheProvider_ReadData read_count p =
     (take read_count (cp_in p) @ replicate (read_count - length (cp_in p)) empty_cache_item, p \<lparr> cp_in := drop read_count (cp_in p) \<rparr>)"

definition UbPsiCache_ReadNextShuffledBatch :: "UbPsiCacheProvider \<Rightarrow> (ShuffledBatch \<times> UbPsiCacheProvider) result" where
  "UbPsiCache_ReadNextShuffledBatch p =
     (let item_count = unat (cm_item_count (cp_meta p)) in
      if item_count \<le> cp_read_count p then Inr (empty_shuffled_batch, p)
      else let count = min (cp_batch_size p) (item_count - cp_read_count p) in
           if 0 < count
           then let (items, p) = UbPsiCacheProvider_ReadData count p in
                Inr (\<lparr> sh_items = map (\<lambda>it. take (cm_item_len (cp_meta p)) (ci_data it)) items, sh_indices = map (\<lambda>it. unat (ci_origin_index it)) items,
                       sh_shuffled = map (\<lambda>it. unat (ci_shuffle_index it)) items, sh_dup_cnts = map (\<lambda>it. unat (ci_dup_cnt it)) items \<rparr>,
                     p \<lparr> cp_read_count := cp_read_count p + count \<rparr>)
           else Inr (empty_shuffled_batch, p))"

definition UbPsiCache_ReadNextBatch :: "UbPsiCacheProvider \<Rightarrow> (string list \<times> UbPsiCacheProvider) result" where
  "UbPsiCache_ReadNextBatch p = rbind (UbPsiCache_ReadNextShuffledBatch p) (\<lambda>(b, p). Inr (sh_items b, p))"

definition UbPsiCache_ReadNextBatchWithDupCnt :: "UbPsiCacheProvider \<Rightarrow> (dup_batch \<times> UbPsiCacheProvider) result" where
  "UbPsiCache_ReadNextBatchWithDupCnt p = rbind (UbPsiCache_ReadNextShuffledBatch p) (\<lambda>(b, p). Inr ((sh_items b, dup_cnt_map (sh_dup_cnts b)), p))"

text \<open>The provider has as many items left as its metadata say, and reads at least one at a time.\<close>

definition UbPsiCache_inv :: "UbPsiCacheProvider \<Rightarrow> bool" where
  "UbPsiCache_inv p \<longleftrightarrow> 0 < cp_batch_size p \<and> cp_read_count p + length (cp_in p) = unat (cm_item_count (cp_meta p))"

definition cache_item_batch :: "nat \<Rightarrow> UbPsiCacheItem list \<Rightarrow> ShuffledBatch" where
  "cache_item_batch len items = \<lparr> sh_items = map (\<lambda>it. take len (ci_data it)) items, sh_indices = map (\<lambda>it. unat (ci_origin_index it)) items,
     sh_shuffled = map (\<lambda>it. unat (ci_shuffle_index it)) items, sh_dup_cnts = map (\<lambda>it. unat (ci_dup_cnt it)) items \<rparr>"

lemma UbPsiCache_read:
  assumes "UbPsiCache_inv p"
  shows "\<exists>p'. UbPsiCache_ReadNextShuffledBatch p = Inr (cache_item_batch (cm_item_len (cp_meta p)) (take (cp_batch_size p) (cp_in p)), p') \<and>
     UbPsiCache_inv p' \<and> cp_in p' = drop (cp_batch_size p) (cp_in p) \<and> cp_meta p' = cp_meta p \<and> cp_batch_size p' = cp_batch_size p"
proof -
  have len: "unat (cm_item_count (cp_meta p)) - cp_read_count p = length (cp_in p)" "cp_read_count p + length (cp_in p) = unat (cm_item_count (cp_meta p))" "0 < cp_batch_size p"
    using assms by (auto simp: UbPsiCache_inv_def)
  show ?thesis
  proof (cases "cp_in p = []")
    case True
    then show ?thesis using assms len by (simp add: UbPsiCache_ReadNextShuffledBatch_def cache_item_batch_def empty_shuffled_batch_def)
  next
    case False
    then have "0 < length (cp_in p)" by simp
    then have "\<not> unat (cm_item_count (cp_meta p)) \<le> cp_read_count p" "0 < min (cp_batch_size p) (length (cp_in p))" using len by linarith+
    then show ?thesis using assms len
      by (auto simp: UbPsiCache_ReadNextShuffledBatch_def UbPsiCacheProvider_ReadData_def cache_item_batch_def UbPsiCache_inv_def Let_def min_def)
  qed
qed

interpretation ub_cache_dup: dup_cnt_provider UbPsiCache_ReadNextBatchWithDupCnt UbPsiCache_inv
  "\<lambda>p. map (\<lambda>it. (take (cm_item_len (cp_meta p)) (ci_data it), unat (ci_dup_cnt it))) (cp_in p)"
proof
  fix p assume inv: "UbPsiCache_inv p"
  let ?rem = "\<lambda>p. map (\<lambda>it. (take (cm_item_len (cp_meta p)) (ci_data it), unat (ci_dup_cnt it))) (cp_in p)"
  from UbPsiCache_read [OF inv] obtain p' where r: "UbPsiCache_ReadNextShuffledBatch p = Inr (cache_item_batch (cm_item_len (cp_meta p)) (take (cp_batch_size p) (cp_in p)), p')"
    "UbPsiCache_inv p'" "cp_in p' = drop (cp_batch_size p) (cp_in p)" "cp_meta p' = cp_meta p" by blast
  show "\<exists>n p'. UbPsiCache_ReadNextBatchWithDupCnt p = Inr ((map fst (take n (?rem p)), dup_cnt_map (map snd (take n (?rem p)))), p') \<and>
      UbPsiCache_inv p' \<and> ?rem p' = drop n (?rem p) \<and> (?rem p \<noteq> [] \<longrightarrow> 0 < n)"
    by (intro exI [of _ "cp_batch_size p"] exI [of _ p'])
      (use r inv in \<open>auto simp: UbPsiCache_ReadNextBatchWithDupCnt_def cache_item_batch_def take_map drop_map comp_def UbPsiCache_inv_def\<close>)
qed

text \<open>Reading a cache by shuffled batches hands out its items in the order of the file.\<close>

lemma UbPsiCache_reads:
  assumes "UbPsiCache_inv p"
  shows "\<exists>xss. reads (\<lambda>p. Some (UbPsiCache_ReadNextShuffledBatch p)) (\<lambda>b. sh_items b = []) p (map (cache_item_batch (cm_item_len (cp_meta p))) xss) \<and> concat xss = cp_in p"
  using assms
proof (induction "length (cp_in p)" arbitrary: p rule: less_induct)
  case less
  obtain p' where r: "UbPsiCache_ReadNextShuffledBatch p = Inr (cache_item_batch (cm_item_len (cp_meta p)) (take (cp_batch_size p) (cp_in p)), p')"
    "UbPsiCache_inv p'" "cp_in p' = drop (cp_batch_size p) (cp_in p)" "cp_meta p' = cp_meta p" using UbPsiCache_read [OF less.prems] by blast
  have bs: "0 < cp_batch_size p" using less.prems by (simp add: UbPsiCache_inv_def)
  show ?case
  proof (cases "cp_in p = []")
    case True
    then show ?thesis using r(1) by (intro exI [of _ "[]"]) (auto simp: cache_item_batch_def intro: reads_end)
  next
    case False
    then have "length (cp_in p') < length (cp_in p)" using r(3) bs by simp
    from less.hyps [OF this r(2)] obtain xss where x: "reads (\<lambda>p. Some (UbPsiCache_ReadNextShuffledBatch p)) (\<lambda>b. sh_items b = []) p' (map (cache_item_batch (cm_item_len (cp_meta p'))) xss)"
      "concat xss = cp_in p'" by blast
    have "sh_items (cache_item_batch (cm_item_len (cp_meta p)) (take (cp_batch_size p) (cp_in p))) \<noteq> []" using False bs by (simp add: cache_item_batch_def)
    then show ?thesis using r x by (intro exI [of _ "take (cp_batch_size p) (cp_in p) # xss"]) (auto intro: reads_batch)
  qed
qed

section \<open>The stores of the client\<close>

text \<open>
  In the file of the server's items the bytes of \<open>ciphertext\<close> behind the item are whatever the memory held; they are left out, since they are never read.
\<close>

record CacheItem =
  fi_ciphertext :: string
  fi_duplicate_cnt :: "32 word"

record CacheMeta =
  fm_item_cnt :: "32 word"
  fm_peer_cnt :: "32 word"
  fm_cipher_len :: nat

record UbPsiClientCacheFileStore =
  fs_file :: "CacheItem list"
  fs_meta_file :: "CacheMeta option"
  fs_cipher_len :: nat
  fs_item_cnt :: "32 word"
  fs_peer_cnt :: "32 word"

definition UbFileStore_DumpMeta :: "UbPsiClientCacheFileStore \<Rightarrow> UbPsiClientCacheFileStore" where
  "UbFileStore_DumpMeta s = s \<lparr> fs_meta_file := Some \<lparr> fm_item_cnt = fs_item_cnt s, fm_peer_cnt = fs_peer_cnt s, fm_cipher_len = fs_cipher_len s \<rparr> \<rparr>"

text \<open>The file is opened for appending; \<open>file\<close> and \<open>meta_file\<close> are what is there already.\<close>

definition UbFileStore_new :: "CacheItem list \<Rightarrow> CacheMeta option \<Rightarrow> nat \<Rightarrow> UbPsiClientCacheFileStore result" where
  "UbFileStore_new file meta_file cipher_len =
     rbind (enforce (cipher_len \<le> kMaxCipherSize) ''cipher_len > max'') (\<lambda>_.
     let s = \<lparr> fs_file = file, fs_meta_file = meta_file, fs_cipher_len = cipher_len, fs_item_cnt = of_nat (length file), fs_peer_cnt = 0 \<rparr> in
     case meta_file of
       None \<Rightarrow> Inr (UbFileStore_DumpMeta s)
     | Some meta \<Rightarrow>
         rbind (enforce (fs_cipher_len s = fm_cipher_len meta) ''cipher_len not match'') (\<lambda>_.
         rbind (enforce (fs_item_cnt s = fm_item_cnt meta) ''item_cnt not match'') (\<lambda>_.
         Inr (s \<lparr> fs_peer_cnt := fm_peer_cnt meta \<rparr>))))"

definition UbFileStore_Flush :: "UbPsiClientCacheFileStore \<Rightarrow> UbPsiClientCacheFileStore" where
  "UbFileStore_Flush s = UbFileStore_DumpMeta s"

definition UbFileStore_Save :: "string \<Rightarrow> nat \<Rightarrow> UbPsiClientCacheFileStore \<Rightarrow> UbPsiClientCacheFileStore result" where
  "UbFileStore_Save ciphertext duplicate_cnt s =
     rbind (enforce (length ciphertext = fs_cipher_len s) ''ciphertext size'') (\<lambda>_.
     Inr (s \<lparr> fs_file := fs_file s @ [\<lparr> fi_ciphertext = ciphertext, fi_duplicate_cnt = of_nat duplicate_cnt \<rparr>], fs_item_cnt := fs_item_cnt s + 1,
              fs_peer_cnt := fs_peer_cnt s + of_nat duplicate_cnt + 1 \<rparr>))"

text \<open>The provider reads one batch ahead; \<open>None\<close> is a future whose value was taken.\<close>

record UbFileStoreProvider =
  fp_batch_size :: nat
  fp_cipher_len :: nat
  fp_item_cnt :: nat
  fp_read_cnt :: nat
  fp_in :: "CacheItem list"
  fp_buffer :: "CacheItem list option"

definition UbFileProvider_ReadFutureBatch :: "UbFileStoreProvider \<Rightarrow> UbFileStoreProvider" where
  "UbFileProvider_ReadFutureBatch p =
     (if fp_item_cnt p \<le> fp_read_cnt p then p \<lparr> fp_buffer := Some [] \<rparr>
      else let count = min (fp_batch_size p) (fp_item_cnt p - fp_read_cnt p) in
           p \<lparr> fp_buffer := Some (take count (fp_in p)), fp_in := drop count (fp_in p), fp_read_cnt := fp_read_cnt p + count \<rparr>)"

definition UbFileStore_GetBatchProvider :: "nat \<Rightarrow> UbPsiClientCacheFileStore \<Rightarrow> UbFileStoreProvider" where
  "UbFileStore_GetBatchProvider batch_size s = UbFileProvider_ReadFutureBatch
     \<lparr> fp_batch_size = batch_size, fp_cipher_len = fs_cipher_len s, fp_item_cnt = length (fs_file s), fp_read_cnt = 0, fp_in = fs_file s, fp_buffer = None \<rparr>"

definition UbFileProvider_ReadNextBatchWithDupCnt :: "UbFileStoreProvider \<Rightarrow> (dup_batch \<times> UbFileStoreProvider) result" where
  "UbFileProvider_ReadNextBatchWithDupCnt p =
     (case fp_buffer p of
        None \<Rightarrow> Inl (Undefined ''future'')
      | Some cache_item \<Rightarrow>
          if cache_item = [] then Inr (([], \<lambda>_. None), p \<lparr> fp_buffer := None \<rparr>)
          else Inr ((map (\<lambda>it. take (fp_cipher_len p) (fi_ciphertext it)) cache_item, dup_cnt_map (map (\<lambda>it. unat (fi_duplicate_cnt it)) cache_item)),
                    UbFileProvider_ReadFutureBatch p))"

record UbPsiClientCacheMemoryStore =
  um_cache :: "string \<rightharpoonup> 32 word \<times> 32 word"
  um_item_cnt :: "32 word"

definition UbMemoryStore_new :: UbPsiClientCacheMemoryStore where
  "UbMemoryStore_new = \<lparr> um_cache = (\<lambda>_. None), um_item_cnt = 0 \<rparr>"

definition UbMemoryStore_Save :: "string \<Rightarrow> nat \<Rightarrow> UbPsiClientCacheMemoryStore \<Rightarrow> UbPsiClientCacheMemoryStore result" where
  "UbMemoryStore_Save ciphertext duplicate_cnt s =
     Inr (s \<lparr> um_cache := (um_cache s)(ciphertext \<mapsto> (um_item_cnt s, of_nat duplicate_cnt)), um_item_cnt := um_item_cnt s + 1 \<rparr>)"

definition UbMemoryStore_Find :: "UbPsiClientCacheMemoryStore \<Rightarrow> string \<Rightarrow> (32 word \<times> 32 word) option" where
  "UbMemoryStore_Find s ciphertext = um_cache s ciphertext"

text \<open>\<open>IEcPointStore::Save\<close> of a list of items with the duplicate counts of some.\<close>

definition store_Save_dup :: "'s saver \<Rightarrow> string list \<Rightarrow> (nat \<Rightarrow> nat option) \<Rightarrow> 's \<Rightarrow> 's result" where
  "store_Save_dup save ciphertext duplicate_cnt s =
     rfold (\<lambda>(i, ct). case duplicate_cnt i of Some d \<Rightarrow> save ct d | None \<Rightarrow> save ct 0) (enumerate 0 ciphertext) s"

section \<open>Comparing the stores\<close>

record IntersectionIndexInfo =
  ix_self_indices :: "32 word list"
  ix_peer_indices :: "32 word list"
  ix_self_dup_cnt :: "32 word list"
  ix_peer_dup_cnt :: "32 word list"

definition no_indices :: IntersectionIndexInfo where
  "no_indices = \<lparr> ix_self_indices = [], ix_peer_indices = [], ix_self_dup_cnt = [], ix_peer_dup_cnt = [] \<rparr>"

definition compare_one :: "UbPsiClientCacheMemoryStore \<Rightarrow> nat \<Rightarrow> dup_batch \<Rightarrow> nat \<Rightarrow> IntersectionIndexInfo \<Rightarrow> IntersectionIndexInfo result" where
  "compare_one self processed_cnt b i info =
     rbind (at (fst b) i) (\<lambda>item.
     case UbMemoryStore_Find self item of
       None \<Rightarrow> Inr info
     | Some (index, dup) \<Rightarrow> Inr \<lparr> ix_self_indices = ix_self_indices info @ [index], ix_peer_indices = ix_peer_indices info @ [of_nat (processed_cnt + i)],
           ix_self_dup_cnt = ix_self_dup_cnt info @ [dup], ix_peer_dup_cnt = ix_peer_dup_cnt info @ [case snd b i of Some c \<Rightarrow> of_nat c | None \<Rightarrow> 0] \<rparr>)"

definition compare_range :: "nat \<Rightarrow> nat \<Rightarrow> nat \<Rightarrow> nat list" where
  "compare_range n threads idx = (let compare_size = (n + threads - 1) div threads; first = idx * compare_size in [first..<min n (first + compare_size)])"

text \<open>One batch: every thread handles its range and appends to its own lists.\<close>

definition compare_batch :: "nat \<Rightarrow> UbPsiClientCacheMemoryStore \<Rightarrow> dup_batch \<Rightarrow> nat \<times> IntersectionIndexInfo list \<Rightarrow> (nat \<times> IntersectionIndexInfo list) result" where
  "compare_batch threads self b = (\<lambda>(processed_cnt, infos).
     if threads = 0 then Inl (Undefined ''division by zero'')
     else rbind (rfold (\<lambda>(idx, info) acc. rbind (rfold (compare_one self processed_cnt b) (compare_range (length (fst b)) threads idx) info) (\<lambda>info. Inr (acc @ [info])))
            (enumerate 0 infos) []) (\<lambda>infos. Inr (processed_cnt + length (fst b), infos)))"

definition merge_indices :: "IntersectionIndexInfo \<Rightarrow> IntersectionIndexInfo \<Rightarrow> IntersectionIndexInfo" where
  "merge_indices info add = \<lparr> ix_self_indices = ix_self_indices info @ ix_self_indices add, ix_peer_indices = ix_peer_indices info @ ix_peer_indices add,
     ix_self_dup_cnt = ix_self_dup_cnt info @ ix_self_dup_cnt add, ix_peer_dup_cnt = ix_peer_dup_cnt info @ ix_peer_dup_cnt add \<rparr>"

definition ComputeIndicesWithDupCnt :: "nat \<Rightarrow> UbPsiClientCacheMemoryStore \<Rightarrow> UbPsiClientCacheFileStore \<Rightarrow> nat \<Rightarrow> IntersectionIndexInfo result option" where
  "ComputeIndicesWithDupCnt threads self peer batch_size =
     (let peer = UbFileStore_Flush peer in
      map_option (\<lambda>r. rbind r (\<lambda>(_, infos). Inr (foldl merge_indices no_indices infos)))
        (each_batch (\<lambda>p. Some (UbFileProvider_ReadNextBatchWithDupCnt p)) no_items (compare_batch threads self)
           (UbFileStore_GetBatchProvider batch_size peer) (0, replicate threads no_indices)))"

section \<open>What the stores hold\<close>

lemma dup_cnt_map_at: "i < length ds \<Longrightarrow> (case dup_cnt_map ds i of Some c \<Rightarrow> of_nat c | None \<Rightarrow> 0) = (of_nat (ds ! i) :: 'a::len word)"
  by (auto simp: dup_cnt_map_def)

text \<open>The file of the client after \<open>xs\<close> was saved.\<close>

definition file_stored :: "(string \<times> nat) list \<Rightarrow> UbPsiClientCacheFileStore \<Rightarrow> bool" where
  "file_stored xs s \<longleftrightarrow> fs_file s = map (\<lambda>(c, d). \<lparr> fi_ciphertext = c, fi_duplicate_cnt = of_nat d \<rparr>) xs \<and>
     fs_item_cnt s = of_nat (length xs) \<and> fs_peer_cnt s = of_nat (sum_list (map (\<lambda>(c, d). d + 1) xs)) \<and> (\<forall>x \<in> set xs. length (fst x) = fs_cipher_len s)"

definition memory_cached :: "(string \<times> nat) list \<Rightarrow> UbPsiClientCacheMemoryStore \<Rightarrow> bool" where
  "memory_cached xs s \<longleftrightarrow> um_item_cnt s = of_nat (length xs) \<and>
     um_cache s = map_of (rev (map (\<lambda>(i, c, d). (c, (of_nat i, of_nat d))) (enumerate 0 xs)))"

lemma file_Save: "file_stored xs s \<Longrightarrow> length c = fs_cipher_len s \<Longrightarrow> \<exists>s'. UbFileStore_Save c d s = Inr s' \<and> file_stored (xs @ [(c, d)]) s' \<and> fs_cipher_len s' = fs_cipher_len s"
  by (auto simp: file_stored_def UbFileStore_Save_def enforce_def add_ac)

lemma enumerate_snoc: "enumerate n (xs @ [x]) = enumerate n xs @ [(n + length xs, x)]"
  by (simp add: enumerate_append_eq)

lemma memory_Save: "memory_cached xs s \<Longrightarrow> \<exists>s'. UbMemoryStore_Save c d s = Inr s' \<and> memory_cached (xs @ [(c, d)]) s'"
  by (auto simp: memory_cached_def UbMemoryStore_Save_def enumerate_snoc add.commute)

lemma store_Save_dup_ok:
  assumes "stored xs s" "\<And>xs s c d. stored xs s \<Longrightarrow> ok c \<Longrightarrow> \<exists>s'. save c d s = Inr s' \<and> stored (xs @ [(c, d)]) s'" "\<forall>y \<in> set ys. ok (fst y)"
  shows "\<exists>s'. store_Save_dup save (map fst ys) (dup_cnt_map (map snd ys)) s = Inr s' \<and> stored (xs @ ys) s'"
proof -
  have one: "(case dup_cnt_map (map snd ys) i of Some d \<Rightarrow> save c d | None \<Rightarrow> save c 0) = save c (snd (ys ! i))" if "i < length ys" for i c
    using that by (auto simp: dup_cnt_map_def)
  have "\<exists>s'. rfold (\<lambda>(i, ct). case dup_cnt_map (map snd ys) i of Some d \<Rightarrow> save ct d | None \<Rightarrow> save ct 0) (enumerate 0 (map fst (take n ys))) s = Inr s' \<and> stored (xs @ take n ys) s'"
    if "n \<le> length ys" for n
    using that
  proof (induction n)
    case (Suc n)
    then obtain s' where s': "rfold (\<lambda>(i, ct). case dup_cnt_map (map snd ys) i of Some d \<Rightarrow> save ct d | None \<Rightarrow> save ct 0) (enumerate 0 (map fst (take n ys))) s = Inr s'"
      "stored (xs @ take n ys) s'" by auto
    have n: "n < length ys" "ok (fst (ys ! n))" using Suc.prems assms(3) by auto
    obtain s'' where "save (fst (ys ! n)) (snd (ys ! n)) s' = Inr s''" "stored (xs @ take n ys @ [ys ! n]) s''" using assms(2) [OF s'(2) n(2)] by fastforce
    then show ?case using s'(1) one [OF n(1)] n(1) by (simp add: take_Suc_conv_app_nth enumerate_snoc rfold_append)
  qed (use assms(1) in simp)
  from this [OF le_refl] show ?thesis by (simp add: store_Save_dup_def)
qed

text \<open>Reading the file back.\<close>

definition cached_batch :: "nat \<Rightarrow> CacheItem list \<Rightarrow> dup_batch" where
  "cached_batch len items = (map (\<lambda>it. take len (fi_ciphertext it)) items, dup_cnt_map (map (\<lambda>it. unat (fi_duplicate_cnt it)) items))"

lemma UbFileProvider_reads:
  assumes "fp_buffer p = Some buf" "0 < fp_batch_size p" "fp_read_cnt p + length (fp_in p) = fp_item_cnt p" "buf = [] \<Longrightarrow> fp_in p = []"
  shows "\<exists>xss. reads (\<lambda>p. Some (UbFileProvider_ReadNextBatchWithDupCnt p)) no_items p (map (cached_batch (fp_cipher_len p)) xss) \<and> concat xss = buf @ fp_in p"
  using assms
proof (induction "length buf + length (fp_in p)" arbitrary: p buf rule: less_induct)
  case less
  show ?case
  proof (cases "buf = []")
    case True
    then have "reads (\<lambda>p. Some (UbFileProvider_ReadNextBatchWithDupCnt p)) no_items p []"
      using less.prems(1) by (intro reads_end [where p' = "p \<lparr> fp_buffer := None \<rparr>"]) (auto simp: UbFileProvider_ReadNextBatchWithDupCnt_def)
    then show ?thesis using True less.prems(4) by (intro exI [of _ "[]"]) simp
  next
    case False
    let ?p = "UbFileProvider_ReadFutureBatch p" and ?n = "min (fp_batch_size p) (length (fp_in p))"
    have p: "fp_buffer ?p = Some (take ?n (fp_in p))" "fp_in ?p = drop ?n (fp_in p)" "fp_batch_size ?p = fp_batch_size p" "fp_item_cnt ?p = fp_item_cnt p"
      "fp_read_cnt ?p = fp_read_cnt p + ?n" "fp_cipher_len ?p = fp_cipher_len p"
      by (auto simp: UbFileProvider_ReadFutureBatch_def Let_def less.prems(3) [symmetric])
    have "length (take ?n (fp_in p)) + length (fp_in ?p) < length buf + length (fp_in p)" using False by (simp add: p(2))
    moreover have "take ?n (fp_in p) = [] \<Longrightarrow> fp_in ?p = []" using less.prems(2) p(2) by (auto simp: min_def split: if_splits)
    moreover have "fp_read_cnt ?p + length (fp_in ?p) = fp_item_cnt ?p" using p less.prems(3) by simp
    ultimately obtain xss where x: "reads (\<lambda>p. Some (UbFileProvider_ReadNextBatchWithDupCnt p)) no_items ?p (map (cached_batch (fp_cipher_len p)) xss)"
      "concat xss = take ?n (fp_in p) @ fp_in ?p" using less.hyps [OF _ p(1)] p less.prems(2) by auto
    have "UbFileProvider_ReadNextBatchWithDupCnt p = Inr (cached_batch (fp_cipher_len p) buf, ?p)"
      using less.prems(1) False by (simp add: UbFileProvider_ReadNextBatchWithDupCnt_def cached_batch_def)
    moreover have "\<not> no_items (cached_batch (fp_cipher_len p) buf)" using False by (simp add: cached_batch_def)
    ultimately have "reads (\<lambda>p. Some (UbFileProvider_ReadNextBatchWithDupCnt p)) no_items p (map (cached_batch (fp_cipher_len p)) (buf # xss))" using x(1) by (auto intro: reads_batch)
    moreover have "concat (buf # xss) = buf @ fp_in p" using x(2) p(2) by simp
    ultimately show ?thesis by blast
  qed
qed

section \<open>All matches are found\<close>

type_synonym ub_match = "32 word \<times> 32 word \<times> 32 word \<times> 32 word"

definition info_of :: "ub_match list \<Rightarrow> IntersectionIndexInfo" where
  "info_of Q = \<lparr> ix_self_indices = map fst Q, ix_peer_indices = map (\<lambda>(_, j, _). j) Q, ix_self_dup_cnt = map (\<lambda>(_, _, d, _). d) Q, ix_peer_dup_cnt = map (\<lambda>(_, _, _, c). c) Q \<rparr>"

definition ub_match_at :: "UbPsiClientCacheMemoryStore \<Rightarrow> nat \<Rightarrow> dup_batch \<Rightarrow> nat \<Rightarrow> ub_match option" where
  "ub_match_at self processed b i =
     map_option (\<lambda>(index, dup). (index, of_nat (processed + i), dup, case snd b i of Some c \<Rightarrow> of_nat c | None \<Rightarrow> 0)) (UbMemoryStore_Find self (fst b ! i))"

lemma compare_one_info:
  "i < length (fst b) \<Longrightarrow> compare_one self processed b i (info_of Q) = Inr (info_of (Q @ List.map_filter (ub_match_at self processed b) [i]))"
  by (auto simp: compare_one_def ub_match_at_def info_of_def List.map_filter_simps split: option.splits)

lemma map_filter_append: "List.map_filter f (xs @ ys) = List.map_filter f xs @ List.map_filter f ys"
  by (simp add: List.map_filter_def)

lemma compare_range_info:
  "\<forall>i \<in> set is'. i < length (fst b) \<Longrightarrow> rfold (compare_one self processed b) is' (info_of Q) = Inr (info_of (Q @ List.map_filter (ub_match_at self processed b) is'))"
proof (induction is' arbitrary: Q)
  case (Cons i is')
  then show ?case using map_filter_append [of "ub_match_at self processed b" "[i]" is'] by (simp add: compare_one_info)
qed (simp add: List.map_filter_simps)

lemma compare_ranges_upt: "concat (map (\<lambda>t. [t * c..<min n (t * c + c)]) [0..<k]) = [0..<min n (k * c)]"
proof (induction k)
  case (Suc k)
  have "[0..<min n (Suc k * c)] = [0..<min n (k * c)] @ [k * c..<min n (k * c + c)]"
  proof (cases "k * c \<le> n")
    case True
    then show ?thesis using upt_add_eq_append [of 0 "k * c" "min n (k * c + c) - k * c"] by (simp add: add.commute)
  qed (simp add: min_def)
  then show ?case using Suc by simp
qed simp

lemma compare_ranges_all:
  assumes "0 < threads"
  shows "concat (map (compare_range n threads) [0..<threads]) = [0..<n]"
proof -
  let ?c = "(n + threads - 1) div threads"
  have "n \<le> threads * ?c"
  proof -
    have "n + threads - 1 < threads * ?c + threads" using assms by (metis dividend_less_times_div add.commute mult_Suc_right div_less_iff_less_mult lessI mult.commute)
    then show ?thesis using assms by linarith
  qed
  then have "min n (threads * ?c) = n" by simp
  moreover have "compare_range n threads = (\<lambda>t. [t * ?c..<min n (t * ?c + ?c)])" by (simp add: compare_range_def Let_def fun_eq_iff)
  ultimately show ?thesis using compare_ranges_upt [of ?c n threads] by simp
qed

lemma compare_batch_info:
  assumes "0 < threads" "length Qs = threads"
  shows "\<exists>Qs'. compare_batch threads self b (processed, map info_of Qs) = Inr (processed + length (fst b), map info_of Qs') \<and> length Qs' = threads \<and>
     mset (concat Qs') = mset (concat Qs) + mset (List.map_filter (ub_match_at self processed b) [0..<length (fst b)])"
proof -
  let ?m = "ub_match_at self processed b" and ?n = "length (fst b)"
  let ?R = "\<lambda>t. List.map_filter ?m (compare_range ?n threads t)"
  have r: "rfold (\<lambda>(idx, info) acc. rbind (rfold (compare_one self processed b) (compare_range ?n threads idx) info) (\<lambda>info. Inr (acc @ [info]))) (enumerate k (map info_of Ps)) acc =
      Inr (acc @ map info_of (map (\<lambda>(t, P). P @ ?R t) (enumerate k Ps)))" for k Ps acc
  proof (induction Ps arbitrary: k acc)
    case (Cons P Ps)
    have "\<forall>i \<in> set (compare_range ?n threads k). i < ?n" by (auto simp: compare_range_def Let_def)
    then show ?case using Cons by (simp add: compare_range_info)
  qed simp
  let ?Qs = "map (\<lambda>(t, P). P @ ?R t) (enumerate 0 Qs)"
  have "mset (concat (map (\<lambda>(t, P). P @ ?R t) (enumerate k Ps))) = mset (concat Ps) + mset (concat (map ?R [k..<k + length Ps]))" for k Ps
  proof (induction Ps arbitrary: k)
    case (Cons P Ps)
    have "[k..<k + length (P # Ps)] = k # [Suc k..<Suc k + length Ps]" by (simp add: upt_conv_Cons del: upt_Suc)
    then show ?case using Cons [of "Suc k"] by (simp add: ac_simps)
  qed simp
  from this [of 0 Qs] have "mset (concat ?Qs) = mset (concat Qs) + mset (concat (map ?R [0..<threads]))" using assms(2) by simp
  moreover have "concat (map (\<lambda>t. List.map_filter f (g t)) ts) = List.map_filter f (concat (map g ts))" for f :: "nat \<Rightarrow> ub_match option" and g and ts :: "nat list"
    by (induction ts) (simp_all add: List.map_filter_def)
  then have "concat (map ?R [0..<threads]) = List.map_filter ?m [0..<?n]" using compare_ranges_all [OF assms(1), of ?n] by simp
  ultimately show ?thesis using r [of 0 Qs "[]"] assms by (intro exI [of _ ?Qs]) (simp add: compare_batch_def)
qed

text \<open>The matches of the whole file, in its order.\<close>

definition ub_matches :: "UbPsiClientCacheMemoryStore \<Rightarrow> nat \<Rightarrow> (string \<times> nat) list \<Rightarrow> ub_match list" where
  "ub_matches self n xs = List.map_filter (\<lambda>(j, c, d). map_option (\<lambda>(index, dup). (index, of_nat j, dup, of_nat d)) (UbMemoryStore_Find self c)) (enumerate n xs)"

lemma map_filter_eq: "(\<And>x. x \<in> set xs \<Longrightarrow> f x = g x) \<Longrightarrow> List.map_filter f xs = List.map_filter g xs"
  by (induction xs) (simp_all add: List.map_filter_simps split: option.splits)

lemma map_filter_enumerate: "List.map_filter f (enumerate n xs) = List.map_filter (\<lambda>i. f (n + i, xs ! i)) [0..<length xs]"
proof (induction xs rule: rev_induct)
  case (snoc x xs)
  have "List.map_filter (\<lambda>i. f (n + i, (xs @ [x]) ! i)) [0..<length xs] = List.map_filter (\<lambda>i. f (n + i, xs ! i)) [0..<length xs]"
    by (rule map_filter_eq) (simp add: nth_append)
  then show ?case using snoc by (simp add: enumerate_snoc map_filter_append List.map_filter_simps split: option.splits)
qed (simp add: List.map_filter_simps)

lemma ub_matches_batch: "List.map_filter (ub_match_at self n (dup_batch_of xs)) [0..<length xs] = ub_matches self n xs"
  unfolding ub_matches_def map_filter_enumerate
  by (rule map_filter_eq) (auto simp: ub_match_at_def dup_batch_of_def dup_cnt_map_at case_prod_beta intro!: option.map_cong)

lemma ub_matches_append: "ub_matches self n (xs @ ys) = ub_matches self n xs @ ub_matches self (n + length xs) ys"
  by (simp add: ub_matches_def enumerate_append_eq map_filter_append)

lemma compare_batches:
  assumes "0 < threads" "length Qs = threads"
  shows "\<exists>n Qs'. rfold (compare_batch threads self) (map dup_batch_of xss) (processed, map info_of Qs) = Inr (n, map info_of Qs') \<and>
     mset (concat Qs') = mset (concat Qs) + mset (ub_matches self processed (concat xss))"
  using assms(2)
proof (induction xss arbitrary: processed Qs)
  case (Cons xs xss)
  have len: "length (fst (dup_batch_of xs)) = length xs" by (simp add: dup_batch_of_def)
  obtain Qs' where q: "compare_batch threads self (dup_batch_of xs) (processed, map info_of Qs) = Inr (processed + length xs, map info_of Qs')" "length Qs' = threads"
    "mset (concat Qs') = mset (concat Qs) + mset (ub_matches self processed xs)"
    using compare_batch_info [OF assms(1) Cons.prems, of self "dup_batch_of xs" processed] unfolding len ub_matches_batch by blast
  obtain n Qs'' where "rfold (compare_batch threads self) (map dup_batch_of xss) (processed + length xs, map info_of Qs') = Inr (n, map info_of Qs'')"
    "mset (concat Qs'') = mset (concat Qs') + mset (ub_matches self (processed + length xs) (concat xss))" using Cons.IH [OF q(2)] by blast
  then show ?case using q(1,3) by (intro exI [of _ n] exI [of _ Qs'']) (simp add: ub_matches_append)
qed (simp add: ub_matches_def List.map_filter_simps, blast)

lemma merge_info: "merge_indices (info_of Q) (info_of Q') = info_of (Q @ Q')"
  by (simp add: merge_indices_def info_of_def)

lemma merge_infos: "foldl merge_indices (info_of Q) (map info_of Qs) = info_of (Q @ concat Qs)"
  by (induction Qs arbitrary: Q) (simp_all add: merge_info)

lemma ComputeIndices_ok:
  assumes st: "file_stored xs peer" and d: "\<forall>x \<in> set xs. snd x < 2 ^ 32" and pos: "0 < threads" "0 < batch_size"
  shows "\<exists>Q. ComputeIndicesWithDupCnt threads self peer batch_size = Some (Inr (info_of Q)) \<and> mset Q = mset (ub_matches self 0 xs)"
proof -
  let ?peer = "UbFileStore_Flush peer"
  let ?p = "UbFileStore_GetBatchProvider batch_size ?peer" and ?n = "min batch_size (length (fs_file peer))"
  have p: "fp_buffer ?p = Some (take ?n (fs_file peer))" "fp_in ?p = drop ?n (fs_file peer)" "fp_batch_size ?p = batch_size" "fp_item_cnt ?p = length (fs_file peer)"
    "fp_read_cnt ?p = ?n" "fp_cipher_len ?p = fs_cipher_len peer"
    by (auto simp: UbFileStore_GetBatchProvider_def UbFileProvider_ReadFutureBatch_def UbFileStore_Flush_def UbFileStore_DumpMeta_def Let_def)
  have "fp_read_cnt ?p + length (fp_in ?p) = fp_item_cnt ?p" "take ?n (fs_file peer) = [] \<Longrightarrow> fp_in ?p = []" using p pos(2) by (auto simp: min_def split: if_splits)
  from UbFileProvider_reads [OF p(1) _ this] obtain yss where y:
    "reads (\<lambda>p. Some (UbFileProvider_ReadNextBatchWithDupCnt p)) no_items ?p (map (cached_batch (fs_cipher_len peer)) yss)" "concat yss = fs_file peer" using p pos(2) by auto
  let ?x = "\<lambda>it. (fi_ciphertext it, unat (fi_duplicate_cnt it))" let ?xss = "map (map ?x) yss"
  have fl: "fs_file peer = map (\<lambda>(c, d). \<lparr> fi_ciphertext = c, fi_duplicate_cnt = of_nat d \<rparr>) xs" "\<forall>x \<in> set xs. length (fst x) = fs_cipher_len peer"
    using st by (simp_all add: file_stored_def)
  have "map ?x (fs_file peer) = xs" using d unfolding fl(1) by (auto simp: comp_def case_prod_beta unat_of_nat take_bit_nat_eq_self intro!: map_idI)
  then have xs: "concat ?xss = xs" using y(2) by (metis map_concat)
  have len: "length (fi_ciphertext it) = fs_cipher_len peer" if "it \<in> set (fs_file peer)" for it using that fl by auto
  have "length (fi_ciphertext it) = fs_cipher_len peer" if "ys \<in> set yss" "it \<in> set ys" for ys it using len [of it] that unfolding y(2) [symmetric] by auto
  then have "map (cached_batch (fs_cipher_len peer)) yss = map dup_batch_of ?xss"
    by (auto simp: cached_batch_def dup_batch_of_def comp_def intro!: map_cong)
  then have r: "reads (\<lambda>p. Some (UbFileProvider_ReadNextBatchWithDupCnt p)) no_items ?p (map dup_batch_of ?xss)" using y(1) by (simp only:)
  have "replicate threads no_indices = map info_of (replicate threads [])" by (simp add: no_indices_def info_of_def)
  moreover obtain n Qs where "rfold (compare_batch threads self) (map dup_batch_of ?xss) (0, map info_of (replicate threads [])) = Inr (n, map info_of Qs)"
    "mset (concat Qs) = mset (concat (replicate threads [])) + mset (ub_matches self 0 xs)"
    using compare_batches [OF pos(1), of "replicate threads []" self ?xss 0] xs by auto
  moreover have "info_of [] = no_indices" by (simp add: info_of_def no_indices_def)
  ultimately show ?thesis
    using each_batch_reads [OF r, of "compare_batch threads self" "(0, map info_of (replicate threads []))"] merge_infos [of "[]" Qs]
    by (intro exI [of _ "concat Qs"]) (simp add: ComputeIndicesWithDupCnt_def Let_def)
qed

end
