(* ===== verification/Ub_Psi.thy ===== *)
theory Ub_Psi
  imports Ub_Cache Join_Processor
begin

text \<open>
  \<open>psi/algorithm/ecdh/ub_psi/ecdh_oprf_psi.cc\<close>, \<open>client.cc\<close> and \<open>server.cc\<close>: the unbalanced protocol. Offline the server evaluates all its items, in shuffled order, writes them
  to its cache and sends them to the client, which keeps them in a file. Online the client blinds its items, the server evaluates them, in their order or shuffled, and the client
  compares the results with the file. Each side gets the places of the matches in its own table with the duplicate counts of the other.

  Each activity is a function from the messages that it receives to those that it sends; a missing message is a receive that times out. The positions in a map of duplicate counts lie
  below the number of items of the message. The queue between the two threads of the client hands each batch of clients over in order, and its bound only delays the sender.
\<close>

section \<open>Messages\<close>

definition ub_batch :: "bool \<Rightarrow> string \<Rightarrow> (nat \<Rightarrow> nat option) \<Rightarrow> PsiDataBatch" where
  "ub_batch is_last bytes dup = \<lparr> pb_item_num = 0, pb_flatten_bytes = bytes, pb_batch_index = 0, pb_is_last_batch = is_last, pb_type = [], pb_duplicate_item_cnt = dup \<rparr>"

abbreviation last_batch :: PsiDataBatch where
  "last_batch \<equiv> ub_batch True [] (\<lambda>_. None)"

definition split_items :: "nat \<Rightarrow> string \<Rightarrow> string list result" where
  "split_items len bytes =
     (if len = 0 then Inl (Undefined ''division by zero'')
      else rbind (enforce (length bytes mod len = 0) ''flatten_bytes.size() % length == 0'') (\<lambda>_.
           Inr (map (\<lambda>i. take len (drop (i * len) bytes)) [0..<length bytes div len])))"

section \<open>The server\<close>

definition save_evaluated :: "nat \<Rightarrow> ShuffledBatch \<Rightarrow> string \<Rightarrow> UbPsiCache \<Rightarrow> UbPsiCache result" where
  "save_evaluated compare_length b flatten_bytes cache =
     rfold (\<lambda>i cache.
       rbind (at (sh_indices b) i) (\<lambda>index. rbind (at (sh_shuffled b) i) (\<lambda>shuffle_index. rbind (at (sh_dup_cnts b) i) (\<lambda>dup_cnt.
       UbPsiCache_SaveData (take compare_length (drop (i * compare_length) flatten_bytes)) index shuffle_index dup_cnt cache))))
       [0..<length (sh_items b)] cache"

definition full_evaluate_batch ::
  "IEcdhOprfServer \<Rightarrow> bool \<Rightarrow> ShuffledBatch \<Rightarrow> nat \<times> PsiDataBatch list \<times> UbPsiCache option \<Rightarrow> (nat \<times> PsiDataBatch list \<times> UbPsiCache option) result" where
  "full_evaluate_batch sv send_flag b = (\<lambda>(items_count, sent, ub_cache).
     rbind (rmap (sv_SimpleEvaluate sv) (sh_items b)) (\<lambda>batch_items_masked.
     let flatten_bytes = concat batch_items_masked in
     rbind (case ub_cache of None \<Rightarrow> Inr None | Some c \<Rightarrow> rbind (save_evaluated (sv_GetCompareLength sv) b flatten_bytes c) (\<lambda>c. Inr (Some c))) (\<lambda>ub_cache.
     Inr (items_count + length (sh_items b), if send_flag then sent @ [ub_batch False flatten_bytes (dup_cnt_map (sh_dup_cnts b))] else sent, ub_cache))))"

definition FullEvaluate ::
  "IEcdhOprfServer \<Rightarrow> ('p \<Rightarrow> (ShuffledBatch \<times> 'p) result option) \<Rightarrow> 'p \<Rightarrow> UbPsiCache option \<Rightarrow> bool
     \<Rightarrow> (nat \<times> PsiDataBatch list \<times> UbPsiCache option) result option" where
  "FullEvaluate sv rds p ub_cache send_flag =
     obind (each_batch rds (\<lambda>b. sh_items b = []) (full_evaluate_batch sv send_flag) p (0, [], ub_cache)) (\<lambda>(items_count, sent, ub_cache).
     Some (Inr (items_count, if send_flag then sent @ [last_batch] else sent, map_option UbPsiCache_Flush ub_cache)))"

definition FullEvaluateAndSend ::
  "IEcdhOprfServer \<Rightarrow> ('p \<Rightarrow> (ShuffledBatch \<times> 'p) result option) \<Rightarrow> 'p \<Rightarrow> UbPsiCache option \<Rightarrow> (nat \<times> PsiDataBatch list \<times> UbPsiCache option) result option" where
  "FullEvaluateAndSend sv rds p ub_cache = FullEvaluate sv rds p ub_cache True"

definition SendFinalEvaluatedItems :: "('p \<Rightarrow> (dup_batch \<times> 'p) result) \<Rightarrow> 'p \<Rightarrow> (nat \<times> PsiDataBatch list) result option" where
  "SendFinalEvaluatedItems rd p =
     obind (each_batch (\<lambda>p. Some (rd p)) no_items (\<lambda>(items, dup_cnt) (items_count, sent). Inr (items_count + length items, sent @ [ub_batch False (concat items) dup_cnt])) p (0, []))
       (\<lambda>(items_count, sent). Some (Inr (items_count, sent @ [last_batch])))"

record PeerCntInfo =
  pi_total_cnt :: "32 word"
  pi_unique_cnt :: "32 word"
  pi_dup_cnt :: "32 word \<rightharpoonup> 32 word"

definition no_peers :: PeerCntInfo where
  "no_peers = \<lparr> pi_total_cnt = 0, pi_unique_cnt = 0, pi_dup_cnt = (\<lambda>_. None) \<rparr>"

definition add_peer_cnt :: "nat \<Rightarrow> (nat \<Rightarrow> nat option) \<Rightarrow> PeerCntInfo \<Rightarrow> PeerCntInfo" where
  "add_peer_cnt num_items dup info =
     fold (\<lambda>index info. case dup index of None \<Rightarrow> info
       | Some d \<Rightarrow> info \<lparr> pi_dup_cnt := (pi_dup_cnt info)(of_nat index + pi_unique_cnt info \<mapsto> of_nat d), pi_total_cnt := pi_total_cnt info + of_nat d \<rparr>) [0..<num_items] info"

fun recv_blind :: "IEcdhOprfServer \<Rightarrow> PsiDataBatch list \<Rightarrow> PeerCntInfo \<Rightarrow> (PsiDataBatch list \<times> PeerCntInfo) result" where
  "recv_blind sv [] info = Inl (Throw ''recv'')"
| "recv_blind sv (blinded_batch # msgs) info =
     (if pb_is_last_batch blinded_batch then Inr ([last_batch], info)
      else rbind (split_items (sv_GetEcPointLength sv) (pb_flatten_bytes blinded_batch)) (\<lambda>blinded_items.
           rbind (Evaluate_all sv blinded_items) (\<lambda>evaluated_items.
           let info = add_peer_cnt (length blinded_items) (pb_duplicate_item_cnt blinded_batch) info;
               info = info \<lparr> pi_unique_cnt := pi_unique_cnt info + of_nat (length blinded_items) \<rparr> in
           rbind (recv_blind sv msgs info) (\<lambda>(replies, info). Inr (ub_batch False (concat evaluated_items) (\<lambda>_. None) # replies, info)))))"

definition RecvBlindAndSendEvaluate :: "IEcdhOprfServer \<Rightarrow> PsiDataBatch list \<Rightarrow> (PsiDataBatch list \<times> PeerCntInfo) result" where
  "RecvBlindAndSendEvaluate sv msgs =
     rbind (recv_blind sv msgs no_peers) (\<lambda>(replies, info). Inr (replies, info \<lparr> pi_total_cnt := pi_total_cnt info + pi_unique_cnt info \<rparr>))"

fun collect_blind :: "IEcdhOprfServer \<Rightarrow> PsiDataBatch list \<Rightarrow> string list \<Rightarrow> PeerCntInfo \<Rightarrow> (string list \<times> PeerCntInfo) result" where
  "collect_blind sv [] evaluated info = Inl (Throw ''recv'')"
| "collect_blind sv (blinded_batch # msgs) evaluated info =
     (if pb_is_last_batch blinded_batch then Inr (evaluated, info)
      else rbind (split_items (sv_GetEcPointLength sv) (pb_flatten_bytes blinded_batch)) (\<lambda>blinded_items.
           rbind (Evaluate_all sv blinded_items) (\<lambda>batch_evaluated_items.
           let info = add_peer_cnt (length blinded_items) (pb_duplicate_item_cnt blinded_batch) info in
           collect_blind sv msgs (evaluated @ batch_evaluated_items) (info \<lparr> pi_unique_cnt := pi_unique_cnt info + of_nat (length blinded_items) \<rparr>))))"

text \<open>The evaluated items in batches; with batches of size 0 the loop does not end.\<close>

function shuffled_batches :: "nat \<Rightarrow> string list \<Rightarrow> PsiDataBatch list option" where
  "shuffled_batches batch_size items =
     (if items = [] then Some [last_batch]
      else if batch_size = 0 then None
      else map_option ((#) (ub_batch False (concat (take batch_size items)) (\<lambda>_. None))) (shuffled_batches batch_size (drop batch_size items)))"
  by pat_completeness auto
termination
  by (relation "measure (\<lambda>(n, xs). length xs)") auto

declare shuffled_batches.simps [simp del]

text \<open>\<open>shuffle_index\<close> gives the shuffled positions for a number of items.\<close>

definition RecvBlindAndShuffleSendEvaluate :: "IEcdhOprfServer \<Rightarrow> nat \<Rightarrow> (nat \<Rightarrow> nat list) \<Rightarrow> PsiDataBatch list \<Rightarrow> (PsiDataBatch list \<times> PeerCntInfo) result option" where
  "RecvBlindAndShuffleSendEvaluate sv batch_size shuffle msgs =
     obind (Some (collect_blind sv msgs [] no_peers)) (\<lambda>(evaluated_items, info).
     let shuffle_index = shuffle (length evaluated_items);
         dup = (\<lambda>i. case pi_dup_cnt info i of None \<Rightarrow> 0 | Some d \<Rightarrow> d);
         info = info \<lparr> pi_total_cnt := pi_total_cnt info + pi_unique_cnt info,
                       pi_dup_cnt := map_of (map (\<lambda>(i, j). (of_nat i, dup (of_nat j))) (enumerate 0 shuffle_index)) \<rparr> in
     obind (Some (rmap (at evaluated_items) shuffle_index)) (\<lambda>items.
     map_option (\<lambda>replies. Inr (replies, info)) (shuffled_batches batch_size items)))"

definition RecvCacheIndexes :: "32 word list \<times> 32 word list \<Rightarrow> (32 word list \<times> 32 word list) result" where
  "RecvCacheIndexes = (\<lambda>(cache_index, client_index). rbind (enforce (length client_index = length cache_index) ''client_index.size() == cache_index.size()'') (\<lambda>_. Inr (cache_index, client_index)))"

section \<open>The client\<close>

fun RecvFinalEvaluatedItems :: "nat \<Rightarrow> 's saver \<Rightarrow> PsiDataBatch list \<Rightarrow> 's \<Rightarrow> 's result" where
  "RecvFinalEvaluatedItems compare_length save [] store = Inl (Throw ''recv'')"
| "RecvFinalEvaluatedItems compare_length save (masked_batch # msgs) store =
     (if pb_is_last_batch masked_batch then Inr store
      else rbind (split_items compare_length (pb_flatten_bytes masked_batch)) (\<lambda>evaluated_items.
           rbind (store_Save_dup save evaluated_items (pb_duplicate_item_cnt masked_batch) store) (\<lambda>store.
           RecvFinalEvaluatedItems compare_length save msgs store)))"

text \<open>
  Without a key of its own the client makes a fresh \<open>oprf_client\<close> for every item, \<open>fresh batch idx\<close>, and queues those of a batch for the receiving thread.
\<close>

definition blind_clients :: "IEcdhOprfClient option \<Rightarrow> (nat \<Rightarrow> nat \<Rightarrow> IEcdhOprfClient result) \<Rightarrow> nat \<Rightarrow> nat \<Rightarrow> IEcdhOprfClient list result" where
  "blind_clients oprf_client fresh batch_count n = (case oprf_client of Some c \<Rightarrow> Inr (replicate n c) | None \<Rightarrow> rmap (fresh batch_count) [0..<n])"

definition blind_batch ::
  "IEcdhOprfClient option \<Rightarrow> (nat \<Rightarrow> nat \<Rightarrow> IEcdhOprfClient result) \<Rightarrow> bool \<Rightarrow> dup_batch
     \<Rightarrow> nat \<times> PsiDataBatch list \<times> IEcdhOprfClient list list \<Rightarrow> (nat \<times> PsiDataBatch list \<times> IEcdhOprfClient list list) result" where
  "blind_batch oprf_client fresh server_get_result = (\<lambda>(items, dup_cnt) (items_count, sent, queue).
     rbind (blind_clients oprf_client fresh (length sent) (length items)) (\<lambda>oprf_clients.
     rbind (rmap (\<lambda>(c, item). oc_Blind c item) (zip oprf_clients items)) (\<lambda>blinded_items.
     Inr (items_count + length items, sent @ [ub_batch False (concat blinded_items) (if server_get_result then dup_cnt else (\<lambda>_. None))],
          if oprf_client = None then queue @ [oprf_clients] else queue))))"

definition SendBlindedItems ::
  "IEcdhOprfClient option \<Rightarrow> (nat \<Rightarrow> nat \<Rightarrow> IEcdhOprfClient result) \<Rightarrow> ('p \<Rightarrow> (dup_batch \<times> 'p) result) \<Rightarrow> 'p \<Rightarrow> bool
     \<Rightarrow> (nat \<times> PsiDataBatch list \<times> IEcdhOprfClient list list) result option" where
  "SendBlindedItems oprf_client fresh rd p server_get_result =
     obind (each_batch (\<lambda>p. Some (rd p)) no_items (blind_batch oprf_client fresh server_get_result) p (0, [], [])) (\<lambda>(items_count, sent, queue).
     Some (Inr (items_count, sent @ [last_batch], queue)))"

text \<open>An empty queue is a wait that does not end.\<close>

fun RecvEvaluatedItems ::
  "IEcdhOprfClient option \<Rightarrow> nat \<Rightarrow> 's saver \<Rightarrow> PsiDataBatch list \<Rightarrow> IEcdhOprfClient list list \<Rightarrow> 's \<Rightarrow> 's result option" where
  "RecvEvaluatedItems oprf_client ec_point_length save [] queue store = Some (Inl (Throw ''recv''))"
| "RecvEvaluatedItems oprf_client ec_point_length save (masked_batch # msgs) queue store =
     (if pb_is_last_batch masked_batch then Some (Inr store)
      else obind (Some (split_items ec_point_length (pb_flatten_bytes masked_batch))) (\<lambda>evaluate_items.
           obind (case oprf_client of
               Some c \<Rightarrow> Some (Inr (replicate (length evaluate_items) c, queue))
             | None \<Rightarrow> (case queue of [] \<Rightarrow> None | cs # queue \<Rightarrow> Some (Inr (cs, queue)))) (\<lambda>(oprf_clients, queue).
           obind (Some (enforce (length oprf_clients = length evaluate_items) ''oprf_clients.size() == num_items'')) (\<lambda>_.
           obind (Some (rmap (\<lambda>(c, e). oc_Finalize c e) (zip oprf_clients evaluate_items))) (\<lambda>oprf_items.
           obind (Some (store_Save_dup save oprf_items (pb_duplicate_item_cnt masked_batch) store)) (\<lambda>store.
           RecvEvaluatedItems oprf_client ec_point_length save msgs queue store))))))"

section \<open>The parties\<close>

record 'g UbEnv =
  ue_lib :: "CurveType \<Rightarrow> 'g CurveLib"
  ue_avx2 :: bool
  ue_curve :: CurveType
  ue_batch_size :: nat
  ue_threads :: nat

text \<open>The files of the server's cache, and those of the client's copy.\<close>

type_synonym server_cache = "UbPsiCacheItem list option \<times> UBPsiCacheMeta option"
type_synonym client_cache = "CacheItem list option \<times> CacheMeta option"

definition GetCacheProvider :: "'g UbEnv \<Rightarrow> server_cache \<Rightarrow> UbPsiCacheProvider result" where
  "GetCacheProvider env files = UbPsiCacheProvider_new (fst files) (snd files) (ue_batch_size env)"

text \<open>\<open>secret_key\<close> is the content of the file that the configuration names, if it names one, \<open>random_key\<close> a new key.\<close>

definition Server_OfflineGenCache ::
  "'g UbEnv \<Rightarrow> 8 word list option \<Rightarrow> 8 word list \<Rightarrow> string list \<Rightarrow> ('p \<Rightarrow> (dup_batch \<times> 'p) result) \<Rightarrow> (nat \<Rightarrow> nat list \<Rightarrow> nat list) \<Rightarrow> 'p
     \<Rightarrow> (nat \<times> server_cache) result option" where
  "Server_OfflineGenCache env secret_key random_key keys rd shuffle csv_provider =
     (let server_private_key = (case secret_key of Some k \<Rightarrow> k | None \<Rightarrow> random_key) in
      obind (Some (CreateEcdhOprfServer (ue_lib env) (ue_avx2 env) server_private_key (ue_curve env))) (\<lambda>server.
      obind (Some (UbPsiCache_new (sv_GetCompareLength server) keys server_private_key)) (\<lambda>ub_cache.
      obind (Some (SimpleShuffled_new rd shuffle csv_provider (ue_batch_size env))) (\<lambda>shuffle_provider.
      obind (FullEvaluate server (SimpleShuffled_ReadNextShuffledBatch rd shuffle) shuffle_provider (Some ub_cache) False) (\<lambda>(count, _, cache).
      case cache of None \<Rightarrow> Some (Inl (Undefined ''ub_cache'')) | Some c \<Rightarrow> Some (Inr (count, (Some (uc_data_file c), uc_meta_file c))))))))"

definition Server_OfflineTransferCache :: "'g UbEnv \<Rightarrow> server_cache \<Rightarrow> (nat \<times> PsiDataBatch list) result option" where
  "Server_OfflineTransferCache env files =
     obind (Some (GetCacheProvider env files)) (\<lambda>provider.
     obind (Some (CreateEcdhOprfServer (ue_lib env) (ue_avx2 env) (cm_priv_key (cp_meta provider)) (ue_curve env))) (\<lambda>server.
     SendFinalEvaluatedItems UbPsiCache_ReadNextBatchWithDupCnt provider))"

text \<open>An old file is removed, with the whole directory.\<close>

definition Client_OfflineTransferCache :: "'g UbEnv \<Rightarrow> 8 word list \<Rightarrow> client_cache \<Rightarrow> PsiDataBatch list \<Rightarrow> client_cache result" where
  "Client_OfflineTransferCache env random_key old msgs =
     rbind (CreateEcdhOprfClient (ue_lib env) (ue_avx2 env) random_key (ue_curve env)) (\<lambda>client.
     let meta = (if fst old \<noteq> None then None else snd old) in
     rbind (UbFileStore_new [] meta (oc_GetCompareLength client)) (\<lambda>store.
     rbind (RecvFinalEvaluatedItems (oc_GetCompareLength client) UbFileStore_Save msgs store) (\<lambda>store.
     let store = UbFileStore_Flush store in Inr (Some (fs_file store), fs_meta_file store))))"

definition Server_Online_evaluate ::
  "'g UbEnv \<Rightarrow> 8 word list option \<Rightarrow> server_cache \<Rightarrow> bool \<Rightarrow> (nat \<Rightarrow> nat list) \<Rightarrow> PsiDataBatch list \<Rightarrow> (PsiDataBatch list \<times> PeerCntInfo) result option" where
  "Server_Online_evaluate env secret_key files client_get_result shuffle msgs =
     obind (case secret_key of Some k \<Rightarrow> Some (Inr k) | None \<Rightarrow> Some (rbind (GetCacheProvider env files) (\<lambda>cache. Inr (cm_priv_key (cp_meta cache))))) (\<lambda>server_private_key.
     obind (Some (CreateEcdhOprfServer (ue_lib env) (ue_avx2 env) server_private_key (ue_curve env))) (\<lambda>server.
     if client_get_result then Some (RecvBlindAndSendEvaluate server msgs)
     else RecvBlindAndShuffleSendEvaluate server (ue_batch_size env) shuffle msgs))"

definition trans_batch :: "(32 word \<rightharpoonup> 32 word) \<Rightarrow> ShuffledBatch \<Rightarrow> nat list \<times> nat list \<Rightarrow> (nat list \<times> nat list) result" where
  "trans_batch shuffle_index_cnt_map b rows =
     rfold (\<lambda>i (index, cnt). rbind (at (sh_indices b) i) (\<lambda>k.
       case shuffle_index_cnt_map (of_nat k) of None \<Rightarrow> Inr (index, cnt)
       | Some c \<Rightarrow> rbind (at (sh_shuffled b) i) (\<lambda>r. Inr (index @ [r], cnt @ [unat c])))) [0..<length (sh_indices b)] rows"

definition TransCacheIndexesToRowIndexs :: "'g UbEnv \<Rightarrow> server_cache \<Rightarrow> (32 word \<rightharpoonup> 32 word) \<Rightarrow> (nat list \<times> nat list) result option" where
  "TransCacheIndexesToRowIndexs env files shuffle_index_cnt_map =
     obind (Some (GetCacheProvider env files)) (\<lambda>provider.
     each_batch (\<lambda>p. Some (UbPsiCache_ReadNextShuffledBatch p)) (\<lambda>b. sh_items b = []) (trans_batch shuffle_index_cnt_map) provider ([], []))"

text \<open>The reader that the server gives to \<open>DealResultIndex\<close>.\<close>

definition Server_Online_result :: "'g UbEnv \<Rightarrow> server_cache \<Rightarrow> PeerCntInfo \<Rightarrow> 32 word list \<times> 32 word list \<Rightarrow> MemoryIndexReader result option" where
  "Server_Online_result env files info msg =
     obind (Some (RecvCacheIndexes msg)) (\<lambda>(cache_index, client_index).
     let cnt = (\<lambda>i. case pi_dup_cnt info i of None \<Rightarrow> 0 | Some d \<Rightarrow> d);
         shuffle_index_cnt_map = fold (\<lambda>(j, i) m. m(j \<mapsto> cnt i)) (zip cache_index client_index) (\<lambda>_. None) in
     obind (TransCacheIndexesToRowIndexs env files shuffle_index_cnt_map) (\<lambda>(index, peer_dup_cnt). Some (MemoryIndexReader_new index peer_dup_cnt)))"

text \<open>The client: what it sends, and after the replies what it computes.\<close>

definition Client_Online_send ::
  "'g UbEnv \<Rightarrow> 8 word list \<Rightarrow> ('p \<Rightarrow> (dup_batch \<times> 'p) result) \<Rightarrow> 'p \<Rightarrow> bool \<Rightarrow> (IEcdhOprfClient \<times> PsiDataBatch list) result option" where
  "Client_Online_send env private_key rd p server_get_result =
     obind (Some (CreateEcdhOprfClient (ue_lib env) (ue_avx2 env) private_key (ue_curve env))) (\<lambda>client.
     obind (SendBlindedItems (Some client) (\<lambda>_ _. Inl (Throw ''unused'')) rd p server_get_result) (\<lambda>(_, msgs, _).
     Some (Inr (client, msgs))))"

definition Client_Online_recv :: "'g UbEnv \<Rightarrow> IEcdhOprfClient \<Rightarrow> client_cache \<Rightarrow> PsiDataBatch list \<Rightarrow> (IntersectionIndexInfo \<times> nat) result option" where
  "Client_Online_recv env client files replies =
     obind (Some (UbFileStore_new (case fst files of None \<Rightarrow> [] | Some f \<Rightarrow> f) (snd files) (oc_GetCompareLength client))) (\<lambda>peer_store.
     obind (RecvEvaluatedItems (Some client) (oc_GetEcPointLength client) UbMemoryStore_Save replies [] UbMemoryStore_new) (\<lambda>self_store.
     obind (ComputeIndicesWithDupCnt (ue_threads env) self_store peer_store (ue_batch_size env)) (\<lambda>info.
     Some (Inr (info, unat (fs_peer_cnt peer_store))))))"

definition Client_Online_reader :: "IntersectionIndexInfo \<Rightarrow> MemoryIndexReader result" where
  "Client_Online_reader info = MemoryIndexReader_new (map unat (ix_self_indices info)) (map unat (ix_peer_dup_cnt info))"

section \<open>A run of both parties\<close>

definition UbPsi_offline ::
  "'g UbEnv \<Rightarrow> 8 word list option \<Rightarrow> 8 word list \<Rightarrow> 8 word list \<Rightarrow> string list \<Rightarrow> ('p \<Rightarrow> (dup_batch \<times> 'p) result) \<Rightarrow> (nat \<Rightarrow> nat list \<Rightarrow> nat list) \<Rightarrow> 'p \<Rightarrow> client_cache
     \<Rightarrow> (server_cache \<times> client_cache) result option" where
  "UbPsi_offline env secret_key random_key client_key keys rd shuffle p old =
     obind (Server_OfflineGenCache env secret_key random_key keys rd shuffle p) (\<lambda>(_, files).
     obind (Server_OfflineTransferCache env files) (\<lambda>(_, msgs).
     obind (Some (Client_OfflineTransferCache env client_key old msgs)) (\<lambda>copy. Some (Inr (files, copy)))))"

text \<open>The readers of the parties that get a result.\<close>

definition UbPsi_online ::
  "'g UbEnv \<Rightarrow> 8 word list option \<Rightarrow> 8 word list \<Rightarrow> bool \<Rightarrow> bool \<Rightarrow> (nat \<Rightarrow> nat list) \<Rightarrow> ('p \<Rightarrow> (dup_batch \<times> 'p) result) \<Rightarrow> 'p \<Rightarrow> server_cache \<times> client_cache
     \<Rightarrow> (MemoryIndexReader option \<times> MemoryIndexReader option) result option" where
  "UbPsi_online env secret_key private_key server_get_result client_get_result shuffle rd p = (\<lambda>(files, copy).
     obind (Client_Online_send env private_key rd p server_get_result) (\<lambda>(client, msgs).
     obind (Server_Online_evaluate env secret_key files client_get_result shuffle msgs) (\<lambda>(replies, cnt_info).
     obind (Client_Online_recv env client copy replies) (\<lambda>(info, _).
     obind (if server_get_result
            then obind (Server_Online_result env files cnt_info (ix_peer_indices info, ix_self_indices info)) (\<lambda>r. Some (Inr (Some r)))
            else Some (Inr None)) (\<lambda>server_reader.
     obind (if client_get_result then Some (rbind (Client_Online_reader info) (\<lambda>r. Inr (Some r))) else Some (Inr None)) (\<lambda>client_reader.
     Some (Inr (server_reader, client_reader))))))))"

section \<open>Items are received as they were sent\<close>

lemma ub_batch_simps [simp]: "pb_is_last_batch (ub_batch is_last bytes dup) = is_last" "pb_flatten_bytes (ub_batch is_last bytes dup) = bytes"
  "pb_duplicate_item_cnt (ub_batch is_last bytes dup) = dup"
  by (simp_all add: ub_batch_def)

lemma split_items_concat:
  assumes "0 < L" "\<forall>x \<in> set xs. length x = L"
  shows "split_items L (concat xs) = Inr xs"
proof -
  have "length (concat xs) = length xs * L" using assms(2) by (induction xs) auto
  then show ?thesis using chunks_concat [OF assms(2)] assms(1) by (simp add: split_items_def enforce_def)
qed

definition cache_row :: "nat \<Rightarrow> nat \<Rightarrow> nat \<Rightarrow> string \<Rightarrow> UbPsiCacheItem" where
  "cache_row index shuffle_index dup_cnt item = \<lparr> ci_origin_index = of_nat index, ci_shuffle_index = of_nat shuffle_index, ci_dup_cnt = of_nat dup_cnt,
     ci_data = item @ replicate (kMaxCipherSize - length item) (char_of (0 :: nat)) \<rparr>"

definition batch_rows :: "(string \<Rightarrow> string) \<Rightarrow> ShuffledBatch \<Rightarrow> UbPsiCacheItem list" where
  "batch_rows F b = map (\<lambda>i. cache_row (sh_indices b ! i) (sh_shuffled b ! i) (sh_dup_cnts b ! i) (F (sh_items b ! i))) [0..<length (sh_items b)]"

definition put_rows :: "UbPsiCacheItem list \<Rightarrow> UbPsiCache \<Rightarrow> UbPsiCache" where
  "put_rows rows c = c \<lparr> uc_data_file := uc_data_file c @ rows, uc_cache_cnt := uc_cache_cnt c + length rows \<rparr>"

lemma put_rows_simps [simp]:
  "put_rows [] c = c" "put_rows rs (put_rows rs' c) = put_rows (rs' @ rs) c" "uc_data_len (put_rows rs c) = uc_data_len c" "uc_meta (put_rows rs c) = uc_meta c"
  "uc_data_file (put_rows rs c) = uc_data_file c @ rs" "uc_cache_cnt (put_rows rs c) = uc_cache_cnt c + length rs"
  by (simp_all add: put_rows_def)

lemma SaveData_put: "length item = uc_data_len c \<Longrightarrow> UbPsiCache_SaveData item i r d c = Inr (put_rows [cache_row i r d item] c)"
  by (simp add: UbPsiCache_SaveData_def cache_row_def put_rows_def enforce_def)

lemma save_evaluated_ok:
  assumes b: "rows_match b" and L: "\<forall>x. length (F x) = L" "uc_data_len c = L"
  shows "save_evaluated L b (concat (map F (sh_items b))) c = Inr (put_rows (batch_rows F b) c)"
proof -
  let ?n = "length (sh_items b)" and ?row = "\<lambda>i. cache_row (sh_indices b ! i) (sh_shuffled b ! i) (sh_dup_cnts b ! i) (F (sh_items b ! i))"
  have item: "take L (drop (i * L) (concat (map F (sh_items b)))) = F (sh_items b ! i)" if "i < ?n" for i
  proof -
    have "map (\<lambda>i. take L (drop (i * L) (concat (map F (sh_items b))))) [0..<?n] = map F (sh_items b)" using chunks_concat [of "map F (sh_items b)" L] L(1) by simp
    from arg_cong [OF this, of "\<lambda>xs. xs ! i"] show ?thesis using that by simp
  qed
  have "rfold (\<lambda>i cache. rbind (at (sh_indices b) i) (\<lambda>index. rbind (at (sh_shuffled b) i) (\<lambda>shuffle_index. rbind (at (sh_dup_cnts b) i) (\<lambda>dup_cnt.
      UbPsiCache_SaveData (take L (drop (i * L) (concat (map F (sh_items b))))) index shuffle_index dup_cnt cache)))) [0..<m] c = Inr (put_rows (map ?row [0..<m]) c)" if "m \<le> ?n" for m
    using that
  proof (induction m)
    case (Suc m)
    then show ?case using b item [of m] L by (simp add: rows_match_def SaveData_put)
  qed simp
  from this [OF le_refl] show ?thesis by (simp add: save_evaluated_def batch_rows_def)
qed

context oprf
begin

lemma full_evaluate_ok:
  assumes ok: "ok sv cl" and bs: "\<forall>b \<in> set bs. rows_match b" and c: "uc_data_len c = sv_GetCompareLength sv"
  shows "\<exists>n. rfold (full_evaluate_batch sv False) bs (k, [], Some c) = Inr (n, [], Some (put_rows (concat (map (batch_rows (oprf_value sv)) bs)) c))"
  using bs c
proof (induction bs arbitrary: c k)
  case (Cons b bs)
  have "rmap (sv_SimpleEvaluate sv) (sh_items b) = Inr (map (oprf_value sv) (sh_items b))" using simple_ok [OF ok] by (intro rmap_total) simp
  moreover have "save_evaluated (sv_GetCompareLength sv) b (concat (map (oprf_value sv) (sh_items b))) c = Inr (put_rows (batch_rows (oprf_value sv) b) c)"
    using simple_ok [OF ok] Cons.prems by (intro save_evaluated_ok) auto
  ultimately have "full_evaluate_batch sv False b (k, [], Some c) = Inr (k + length (sh_items b), [], Some (put_rows (batch_rows (oprf_value sv) b) c))"
    by (simp add: full_evaluate_batch_def)
  then show ?case using Cons.IH [of "put_rows (batch_rows (oprf_value sv) b) c" "k + length (sh_items b)"] Cons.prems by simp
qed simp

text \<open>The blinded and the evaluated form of an item.\<close>

definition blinded :: "IEcdhOprfClient \<Rightarrow> string \<Rightarrow> string" where
  "blinded cl x = projr (oc_Blind cl x)"

definition evaluated_pt :: "IEcdhOprfServer \<Rightarrow> IEcdhOprfClient \<Rightarrow> string \<Rightarrow> string" where
  "evaluated_pt sv cl x = projr (sv_Evaluate sv (blinded cl x))"

lemma round:
  assumes "ok sv cl"
  shows "oc_Blind cl x = Inr (blinded cl x)" "length (blinded cl x) = sv_GetEcPointLength sv" "sv_Evaluate sv (blinded cl x) = Inr (evaluated_pt sv cl x)"
    "length (evaluated_pt sv cl x) = sv_GetEcPointLength sv" "oc_Finalize cl (evaluated_pt sv cl x) = Inr (oprf_value sv x)"
  using round_ok [OF assms, of x] by (auto simp: blinded_def evaluated_pt_def)

definition sent_dups :: "bool \<Rightarrow> (string \<times> nat) list \<Rightarrow> nat list" where
  "sent_dups counts xs = map (\<lambda>x. if counts then snd x else 0) xs"

lemma sent_dups_simps [simp]: "sent_dups counts [] = []" "length (sent_dups counts xs) = length xs" "sent_dups counts (xs @ ys) = sent_dups counts xs @ sent_dups counts ys"
  by (simp_all add: sent_dups_def)

definition blind_msg :: "IEcdhOprfClient \<Rightarrow> bool \<Rightarrow> (string \<times> nat) list \<Rightarrow> PsiDataBatch" where
  "blind_msg cl counts xs = ub_batch False (concat (map (\<lambda>x. blinded cl (fst x)) xs)) (dup_cnt_map (sent_dups counts xs))"

lemma blind_batches:
  assumes ok: "ok sv cl"
  shows "\<exists>n. rfold (blind_batch (Some cl) fresh counts) (map dup_batch_of xss) (k, sent, []) = Inr (n, sent @ map (blind_msg cl counts) xss, [])"
proof (induction xss arbitrary: k sent)
  case (Cons xs xss)
  have "rmap (\<lambda>(c, item). oc_Blind c item) (zip (replicate (length xs) cl) (map fst xs)) = Inr (map (\<lambda>x. blinded cl (fst x)) xs)"
    by (induction xs) (simp_all add: round(1) [OF ok])
  moreover have "dup_cnt_map (sent_dups counts xs) = (if counts then dup_cnt_map (map snd xs) else (\<lambda>_. None))" by (auto simp: sent_dups_def dup_cnt_map_def fun_eq_iff)
  ultimately have "blind_batch (Some cl) fresh counts (dup_batch_of xs) (k, sent, []) = Inr (k + length xs, sent @ [blind_msg cl counts xs], [])"
    by (simp add: blind_batch_def dup_batch_of_def blind_clients_def blind_msg_def)
  then show ?case using Cons.IH [of "k + length xs" "sent @ [blind_msg cl counts xs]"] by simp
qed simp

lemma blind_split:
  assumes ok: "ok sv cl"
  shows "split_items (sv_GetEcPointLength sv) (concat (map (\<lambda>x. blinded cl (fst x)) xs)) = Inr (map (\<lambda>x. blinded cl (fst x)) xs)"
    "Evaluate_all sv (map (\<lambda>x. blinded cl (fst x)) xs) = Inr (map (\<lambda>x. evaluated_pt sv cl (fst x)) xs)"
proof -
  show "split_items (sv_GetEcPointLength sv) (concat (map (\<lambda>x. blinded cl (fst x)) xs)) = Inr (map (\<lambda>x. blinded cl (fst x)) xs)"
    using lengths_ok [OF ok] round(2) [OF ok] by (intro split_items_concat) auto
  show "Evaluate_all sv (map (\<lambda>x. blinded cl (fst x)) xs) = Inr (map (\<lambda>x. evaluated_pt sv cl (fst x)) xs)"
    unfolding Evaluate_all_def by (induction xs) (simp_all add: round(3) [OF ok])
qed

end

text \<open>The duplicate counts \<open>ds\<close> of the client's items, by their positions.\<close>

definition peer_map :: "nat list \<Rightarrow> 32 word \<rightharpoonup> 32 word" where
  "peer_map ds j = (if unat j < length ds \<and> 0 < ds ! unat j then Some (of_nat (ds ! unat j)) else None)"

lemma peer_map_snoc:
  assumes "length ds < 2 ^ 32"
  shows "peer_map (ds @ [d]) = (if 0 < d then (peer_map ds)(of_nat (length ds) \<mapsto> of_nat d) else peer_map ds)"
proof
  fix j :: "32 word"
  have u: "unat (of_nat (length ds) :: 32 word) = length ds" using assms by (simp add: unat_of_nat take_bit_nat_eq_self)
  show "peer_map (ds @ [d]) j = (if 0 < d then (peer_map ds)(of_nat (length ds) \<mapsto> of_nat d) else peer_map ds) j"
  proof (cases "unat j = length ds")
    case True
    then have "j = of_nat (length ds)" using u by (metis word_unat_eq_iff)
    then show ?thesis using True u by (simp add: peer_map_def)
  next
    case False
    then have "j \<noteq> of_nat (length ds)" using u by auto
    then show ?thesis using False by (auto simp: peer_map_def nth_append)
  qed
qed

definition peers_of :: "nat list \<Rightarrow> PeerCntInfo \<Rightarrow> bool" where
  "peers_of ds info \<longleftrightarrow> pi_unique_cnt info = of_nat (length ds) \<and> pi_dup_cnt info = peer_map ds"

lemma peers_add:
  assumes p: "peers_of ds info" and len: "length ds + length ns < 2 ^ 32"
  defines "info' \<equiv> add_peer_cnt (length ns) (dup_cnt_map ns) info"
  shows "peers_of (ds @ ns) (info' \<lparr> pi_unique_cnt := pi_unique_cnt info' + of_nat (length ns) \<rparr>)"
proof -
  let ?f = "\<lambda>index info. case dup_cnt_map ns index of None \<Rightarrow> info
       | Some d \<Rightarrow> info \<lparr> pi_dup_cnt := (pi_dup_cnt info)(of_nat index + pi_unique_cnt info \<mapsto> of_nat d), pi_total_cnt := pi_total_cnt info + of_nat d \<rparr>"
  have "pi_unique_cnt (fold ?f [0..<m] info) = of_nat (length ds) \<and> pi_dup_cnt (fold ?f [0..<m] info) = peer_map (ds @ take m ns)" if "m \<le> length ns" for m
    using that
  proof (induction m)
    case (Suc m)
    have m: "m < length ns" "length (ds @ take m ns) = length ds + m" using Suc.prems by simp_all
    have "ds @ take (Suc m) ns = (ds @ take m ns) @ [ns ! m]" using m(1) by (simp add: take_Suc_conv_app_nth)
    then have "peer_map (ds @ take (Suc m) ns) = (if 0 < ns ! m then (peer_map (ds @ take m ns))(of_nat (length ds + m) \<mapsto> of_nat (ns ! m)) else peer_map (ds @ take m ns))"
      using peer_map_snoc [of "ds @ take m ns" "ns ! m"] len m by simp
    then show ?case using Suc.IH m(1) by (simp add: dup_cnt_map_def add.commute fun_upd_def)
  qed (use p in \<open>simp add: peers_of_def\<close>)
  from this [OF le_refl] show ?thesis by (simp add: peers_of_def add_peer_cnt_def info'_def)
qed

context oprf
begin

definition eval_msg :: "IEcdhOprfServer \<Rightarrow> IEcdhOprfClient \<Rightarrow> string list \<Rightarrow> PsiDataBatch" where
  "eval_msg sv cl items = ub_batch False (concat (map (evaluated_pt sv cl) items)) (\<lambda>_. None)"

lemma msg_simps [simp]: "pb_is_last_batch (blind_msg cl counts xs) = False" "pb_flatten_bytes (blind_msg cl counts xs) = concat (map (\<lambda>x. blinded cl (fst x)) xs)"
  "pb_duplicate_item_cnt (blind_msg cl counts xs) = dup_cnt_map (sent_dups counts xs)"
  "pb_is_last_batch (eval_msg sv cl items) = False" "pb_flatten_bytes (eval_msg sv cl items) = concat (map (evaluated_pt sv cl) items)" "pb_duplicate_item_cnt (eval_msg sv cl items) = (\<lambda>_. None)"
  by (simp_all add: blind_msg_def eval_msg_def)

lemma eval_msg_fst: "ub_batch False (concat (map (\<lambda>x. evaluated_pt sv cl (fst x)) xs)) (\<lambda>_. None) = eval_msg sv cl (map fst xs)"
  by (simp add: eval_msg_def comp_def)

lemma recv_blind_ok:
  assumes ok: "ok sv cl" and "peers_of ds info" "length ds + length (concat xss) < 2 ^ 32"
  shows "\<exists>info'. recv_blind sv (map (blind_msg cl counts) xss @ [last_batch]) info = Inr (map (\<lambda>xs. eval_msg sv cl (map fst xs)) xss @ [last_batch], info') \<and>
     peers_of (ds @ sent_dups counts (concat xss)) info'"
  using assms(2,3)
proof (induction xss arbitrary: ds info)
  case (Cons xs xss)
  let ?info = "add_peer_cnt (length xs) (dup_cnt_map (sent_dups counts xs)) info"
  let ?info' = "?info \<lparr> pi_unique_cnt := pi_unique_cnt ?info + of_nat (length xs) \<rparr>"
  have "peers_of (ds @ sent_dups counts xs) ?info'" using peers_add [OF Cons.prems(1), of "sent_dups counts xs"] Cons.prems(2) by simp
  from Cons.IH [OF this] obtain info' where
    "recv_blind sv (map (blind_msg cl counts) xss @ [last_batch]) ?info' = Inr (map (\<lambda>xs. eval_msg sv cl (map fst xs)) xss @ [last_batch], info')"
    "peers_of ((ds @ sent_dups counts xs) @ sent_dups counts (concat xss)) info'" using Cons.prems(2) by auto
  then show ?case using blind_split [OF ok, of xs] by (simp add: eval_msg_fst Let_def)
qed simp

lemma collect_blind_ok:
  assumes ok: "ok sv cl" and "peers_of ds info" "length ds + length (concat xss) < 2 ^ 32"
  shows "\<exists>info'. collect_blind sv (map (blind_msg cl counts) xss @ [last_batch]) acc info = Inr (acc @ map (\<lambda>x. evaluated_pt sv cl (fst x)) (concat xss), info') \<and>
     peers_of (ds @ sent_dups counts (concat xss)) info'"
  using assms(2,3)
proof (induction xss arbitrary: ds info acc)
  case (Cons xs xss)
  let ?info = "add_peer_cnt (length xs) (dup_cnt_map (sent_dups counts xs)) info"
  have "peers_of (ds @ sent_dups counts xs) (?info \<lparr> pi_unique_cnt := pi_unique_cnt ?info + of_nat (length xs) \<rparr>)"
    using peers_add [OF Cons.prems(1), of "sent_dups counts xs"] Cons.prems(2) by simp
  from Cons.IH [OF this, of "acc @ map (\<lambda>x. evaluated_pt sv cl (fst x)) xs"] show ?case
    using blind_split [OF ok, of xs] Cons.prems(2) by (simp add: Let_def)
qed simp

lemma recv_evaluated_ok:
  assumes ok: "ok sv cl" and "memory_cached zs s"
  shows "\<exists>s'. RecvEvaluatedItems (Some cl) (oc_GetEcPointLength cl) UbMemoryStore_Save (map (eval_msg sv cl) yss @ [last_batch]) queue s = Some (Inr s') \<and>
     memory_cached (zs @ map (\<lambda>y. (oprf_value sv y, 0)) (concat yss)) s'"
  using assms(2)
proof (induction yss arbitrary: zs s)
  case (Cons ys yss)
  let ?new = "map (\<lambda>y. (oprf_value sv y, 0 :: nat)) ys"
  have sp: "split_items (oc_GetEcPointLength cl) (concat (map (evaluated_pt sv cl) ys)) = Inr (map (evaluated_pt sv cl) ys)"
    using lengths_ok [OF ok] round(4) [OF ok] by (intro split_items_concat) auto
  have fin: "rmap (\<lambda>(c, e). oc_Finalize c e) (zip (replicate (length ys) cl) (map (evaluated_pt sv cl) ys)) = Inr (map fst ?new)"
    by (induction ys) (simp_all add: round(5) [OF ok])
  have none: "dup_cnt_map (map snd ?new) = (\<lambda>_. None)" by (simp add: dup_cnt_map_def fun_eq_iff)
  have "\<exists>s'. store_Save_dup UbMemoryStore_Save (map fst ?new) (dup_cnt_map (map snd ?new)) s = Inr s' \<and> memory_cached (zs @ ?new) s'"
    using Cons.prems by (rule store_Save_dup_ok [where ok = "\<lambda>_. True"]) (simp_all add: memory_Save)
  then obtain s' where s': "store_Save_dup UbMemoryStore_Save (map fst ?new) (\<lambda>_. None) s = Inr s'" "memory_cached (zs @ ?new) s'"
    unfolding none by blast
  from Cons.IH [OF s'(2)] show ?case using sp fin s'(1) by (simp add: obind_Some_Inr enforce_def)
qed simp

end

lemma shuffled_batches_ok:
  assumes "0 < batch_size"
  shows "\<exists>yss. shuffled_batches batch_size (map f ys) = Some (map (\<lambda>ys. ub_batch False (concat (map f ys)) (\<lambda>_. None)) yss @ [last_batch]) \<and> concat yss = ys"
proof (induction "length ys" arbitrary: ys rule: less_induct)
  case less
  show ?case
  proof (cases "ys = []")
    case True
    then show ?thesis by (intro exI [of _ "[]"]) (simp add: shuffled_batches.simps)
  next
    case False
    then have "length (drop batch_size ys) < length ys" using assms by simp
    from less.hyps [OF this] obtain yss where
      "shuffled_batches batch_size (map f (drop batch_size ys)) = Some (map (\<lambda>ys. ub_batch False (concat (map f ys)) (\<lambda>_. None)) yss @ [last_batch])" "concat yss = drop batch_size ys"
      by blast
    then show ?thesis using False assms by (intro exI [of _ "take batch_size ys # yss"]) (subst shuffled_batches.simps, simp add: take_map drop_map)
  qed
qed

text \<open>The duplicate count that the server looks up for a position of the client.\<close>

definition peer_cnt_at :: "PeerCntInfo \<Rightarrow> 32 word \<Rightarrow> 32 word" where
  "peer_cnt_at info i = (case pi_dup_cnt info i of None \<Rightarrow> 0 | Some d \<Rightarrow> d)"

lemma peer_cnt_at_peers: "peers_of ds info \<Longrightarrow> i < length ds \<Longrightarrow> length ds \<le> 2 ^ 32 \<Longrightarrow> peer_cnt_at info (of_nat i) = of_nat (ds ! i)"
  by (simp add: peer_cnt_at_def peers_of_def peer_map_def unat_of_nat take_bit_nat_eq_self)

lemma no_peers_of: "peers_of [] no_peers"
  by (simp add: peers_of_def no_peers_def peer_map_def fun_eq_iff)

context oprf
begin

lemma evaluate_in_order:
  assumes ok: "ok sv cl" and len: "length (concat xss) < 2 ^ 32"
  shows "\<exists>info. RecvBlindAndSendEvaluate sv (map (blind_msg cl counts) xss @ [last_batch]) = Inr (map (\<lambda>xs. eval_msg sv cl (map fst xs)) xss @ [last_batch], info) \<and>
     (\<forall>i < length (concat xss). peer_cnt_at info (of_nat i) = of_nat (sent_dups counts (concat xss) ! i))"
proof -
  obtain info where r: "recv_blind sv (map (blind_msg cl counts) xss @ [last_batch]) no_peers = Inr (map (\<lambda>xs. eval_msg sv cl (map fst xs)) xss @ [last_batch], info)"
    "peers_of (sent_dups counts (concat xss)) info" using recv_blind_ok [OF ok no_peers_of, of xss counts] len by auto
  have "\<forall>i < length (concat xss). peer_cnt_at info (of_nat i) = of_nat (sent_dups counts (concat xss) ! i)" using peer_cnt_at_peers [OF r(2)] len by simp
  then show ?thesis using r(1) by (simp add: RecvBlindAndSendEvaluate_def peer_cnt_at_def)
qed

lemma evaluate_shuffled:
  assumes ok: "ok sv cl" and len: "length (concat xss) < 2 ^ 32" and perm: "mset (shuffle (length (concat xss))) = mset [0..<length (concat xss)]" and bs: "0 < batch_size"
  shows "\<exists>yss info. RecvBlindAndShuffleSendEvaluate sv batch_size shuffle (map (blind_msg cl counts) xss @ [last_batch]) = Some (Inr (map (eval_msg sv cl) yss @ [last_batch], info)) \<and>
     concat yss = map (\<lambda>i. fst (concat xss ! i)) (shuffle (length (concat xss))) \<and>
     (\<forall>i < length (concat xss). peer_cnt_at info (of_nat i) = of_nat (sent_dups counts (concat xss) ! (shuffle (length (concat xss)) ! i)))"
proof -
  let ?xs = "concat xss" let ?n = "length ?xs" let ?s = "shuffle ?n" let ?ds = "sent_dups counts ?xs"
  have s: "set ?s = {0..<?n}" "length ?s = ?n" using mset_eq_setD [OF perm] mset_eq_length [OF perm] by simp_all
  obtain info where r: "collect_blind sv (map (blind_msg cl counts) xss @ [last_batch]) [] no_peers = Inr (map (\<lambda>x. evaluated_pt sv cl (fst x)) ?xs, info)" "peers_of ?ds info"
    using collect_blind_ok [OF ok no_peers_of, of xss counts "[]"] len by auto
  let ?keys = "map (\<lambda>i. fst (?xs ! i)) ?s"
  have at: "rmap (at (map (\<lambda>x. evaluated_pt sv cl (fst x)) ?xs)) ?s = Inr (map (evaluated_pt sv cl) ?keys)"
    using s(1) rmap_total [of ?s "at (map (\<lambda>x. evaluated_pt sv cl (fst x)) ?xs)" "\<lambda>i. evaluated_pt sv cl (fst (?xs ! i))"] by (simp add: comp_def)
  obtain yss where y: "shuffled_batches batch_size (map (evaluated_pt sv cl) ?keys) = Some (map (eval_msg sv cl) yss @ [last_batch])" "concat yss = ?keys"
    using shuffled_batches_ok [OF bs, of "evaluated_pt sv cl" ?keys] unfolding eval_msg_def [symmetric] by blast
  let ?dup = "\<lambda>i. case pi_dup_cnt info i of None \<Rightarrow> 0 | Some d \<Rightarrow> d"
  let ?rows = "map (\<lambda>(i, j). (of_nat i :: 32 word, ?dup (of_nat j))) (enumerate 0 ?s)"
  let ?info = "info \<lparr> pi_total_cnt := pi_total_cnt info + pi_unique_cnt info, pi_dup_cnt := map_of ?rows \<rparr>"
  have "peer_cnt_at ?info (of_nat i) = of_nat (?ds ! (?s ! i))" if i: "i < ?n" for i
  proof -
    have "distinct (map fst ?rows)" using s(2) len
      by (auto simp: distinct_conv_nth nth_enumerate_eq word_of_nat_eq_iff take_bit_nat_eq_self)
    moreover have "(of_nat i, ?dup (of_nat (?s ! i))) \<in> set ?rows" using i s(2) by (force simp: in_set_enumerate_eq)
    ultimately have "map_of ?rows (of_nat i) = Some (?dup (of_nat (?s ! i)))" by (rule map_of_is_SomeI)
    moreover have "?s ! i < ?n" using i s by (metis atLeastLessThan_iff nth_mem)
    ultimately show ?thesis using peer_cnt_at_peers [OF r(2), of "?s ! i"] len by (simp add: peer_cnt_at_def)
  qed
  then show ?thesis using r(1) at y by (intro exI [of _ yss] exI [of _ ?info]) (simp add: RecvBlindAndShuffleSendEvaluate_def obind_Some_Inr Let_def)
qed

end

section \<open>The offline phase\<close>

text \<open>The cache of the rows \<open>xs\<close> in the order \<open>perm\<close>, and the items that the client gets.\<close>

definition cache_file :: "(string \<Rightarrow> string) \<Rightarrow> (string \<times> nat) list \<Rightarrow> nat list \<Rightarrow> UbPsiCacheItem list" where
  "cache_file F xs perm = map (\<lambda>(pos, r). cache_row pos r (snd (xs ! r)) (F (fst (xs ! r)))) (enumerate 0 perm)"

definition peer_items :: "(string \<Rightarrow> string) \<Rightarrow> (string \<times> nat) list \<Rightarrow> nat list \<Rightarrow> (string \<times> nat) list" where
  "peer_items F xs perm = map (\<lambda>r. (F (fst (xs ! r)), snd (xs ! r))) perm"

definition cache_meta :: "nat \<Rightarrow> 8 word list \<Rightarrow> string list \<Rightarrow> nat \<Rightarrow> UBPsiCacheMeta" where
  "cache_meta L key keys n = \<lparr> cm_version = ''0.0.1'', cm_item_len = L, cm_priv_key = key, cm_key_cols = keys, cm_item_count = of_nat n \<rparr>"

lemma batch_rows_zip:
  assumes "rows_match b"
  shows "batch_rows F b = map (\<lambda>(i, r, d, x). cache_row i r d (F x)) (zip (sh_indices b) (zip (sh_shuffled b) (zip (sh_dup_cnts b) (sh_items b))))"
  using assms by (intro nth_equalityI) (simp_all add: batch_rows_def rows_match_def)

lemma batch_rows_gathered:
  assumes "gathers xs 0 perm bs"
  shows "concat (map (batch_rows F) bs) = cache_file F xs perm"
proof -
  let ?g = "\<lambda>(i, r, d, x). cache_row i r d (F x)"
  have "concat (map (batch_rows F) bs) =
      map ?g (zip (concat (map sh_indices bs)) (zip (concat (map sh_shuffled bs)) (zip (concat (map sh_dup_cnts bs)) (concat (map sh_items bs)))))"
    if "\<forall>b \<in> set bs. rows_match b" for bs
    using that by (induction bs) (simp_all add: batch_rows_zip rows_match_def)
  then have "concat (map (batch_rows F) bs) = map ?g (zip [0..<length perm] (zip perm (zip (map (\<lambda>i. snd (xs ! i)) perm) (map (\<lambda>i. fst (xs ! i)) perm))))"
    using assms by (simp add: gathers_def)
  also have "\<dots> = cache_file F xs perm"
    by (intro nth_equalityI) (simp_all add: cache_file_def enumerate_eq_zip)
  finally show ?thesis .
qed

context dup_cnt_provider
begin

lemma GenCache_ok:
  assumes sv: "created_pair (ue_lib env) (ue_avx2 env) (ue_curve env) sv cl" "CreateEcdhOprfServer (ue_lib env) (ue_avx2 env) key (ue_curve env) = Inr sv"
    and key: "key = (case secret_key of Some k \<Rightarrow> k | None \<Rightarrow> random_key)"
    and p: "d_inv p" and shuffle: "\<And>k is. mset (shuffle k is) = mset is" and bs: "0 < ue_batch_size env"
  shows "\<exists>n perm. Server_OfflineGenCache env secret_key random_key keys rd shuffle p =
       Some (Inr (n, Some (cache_file (oprf_value sv) (d_remaining p) perm), Some (cache_meta (sv_GetCompareLength sv) key keys (length perm)))) \<and>
     mset perm = mset [0..<length (d_remaining p)]"
proof -
  let ?L = "sv_GetCompareLength sv"
  have "?L < kMaxCipherSize" using created.lengths_ok [OF sv(1)] by (simp add: kMaxCipherSize_def)
  then obtain c where c: "UbPsiCache_new ?L keys key = Inr c" "uc_data_len c = ?L" "uc_data_file c = []" "uc_cache_cnt c = 0" "uc_meta c = cache_meta ?L key keys 0"
    by (simp add: UbPsiCache_new_def enforce_def cache_meta_def)
  obtain s bs perm where s: "SimpleShuffled_new rd shuffle p (ue_batch_size env) = Inr s" "read_shuffled rd shuffle s = Some (Inr bs)"
    "gathers (d_remaining p) 0 perm bs" "mset perm = mset [0..<length (d_remaining p)]"
    using shuffled_provider_spec [of p shuffle "ue_batch_size env", OF p shuffle bs] by (elim exE conjE) (rule that)
  have "\<forall>b \<in> set bs. rows_match b" using s(3) by (simp add: gathers_def)
  then obtain n where f: "rfold (full_evaluate_batch sv False) bs (0, [], Some c) = Inr (n, [], Some (put_rows (cache_file (oprf_value sv) (d_remaining p) perm) c))"
    using created.full_evaluate_ok [OF sv(1), of bs c 0] c(2) unfolding batch_rows_gathered [OF s(3)] by blast
  let ?c = "UbPsiCache_Flush (put_rows (cache_file (oprf_value sv) (d_remaining p) perm) c)"
  have "FullEvaluate sv (SimpleShuffled_ReadNextShuffledBatch rd shuffle) s (Some c) False = Some (Inr (n, [], Some ?c))"
    using f by (simp add: FullEvaluate_def each_batch_reads [OF shuffled_reads [OF s(2)]] obind_Some_Inr)
  moreover have "uc_data_file ?c = cache_file (oprf_value sv) (d_remaining p) perm" "uc_meta_file ?c = Some (cache_meta ?L key keys (length perm))"
    using c by (simp_all add: UbPsiCache_Flush_def cache_meta_def cache_file_def Let_def)
  ultimately show ?thesis using sv(2) c(1) s(1,4) by (auto simp: Server_OfflineGenCache_def obind_Some_Inr Let_def key [symmetric])
qed

end

definition final_msg :: "(string \<times> nat) list \<Rightarrow> PsiDataBatch" where
  "final_msg ys = ub_batch False (concat (map fst ys)) (dup_cnt_map (map snd ys))"

lemma SendFinal_batches:
  "\<exists>n. rfold (\<lambda>(items, dup_cnt) (items_count, sent). Inr (items_count + length items, sent @ [ub_batch False (concat items) dup_cnt])) (map dup_batch_of yss) (k, sent) =
     Inr (n, sent @ map final_msg yss)"
proof (induction yss arbitrary: k sent)
  case (Cons ys yss)
  then show ?case using Cons [of "k + length ys" "sent @ [final_msg ys]"] by (simp add: dup_batch_of_def final_msg_def)
qed simp

lemma cache_provider:
  assumes "length perm = length xs" "length xs < 2 ^ 32" "0 < ue_batch_size env" "ue_batch_size env < 2 ^ 32"
  shows "\<exists>p. GetCacheProvider env (Some (cache_file F xs perm), Some (cache_meta L key keys (length perm))) = Inr p \<and>
     UbPsiCache_inv p \<and> cp_in p = cache_file F xs perm \<and> cp_meta p = cache_meta L key keys (length perm)"
  using assms by (simp add: GetCacheProvider_def UbPsiCacheProvider_new_def UbPsiCache_inv_def cache_meta_def cache_file_def enforce_def unat_of_nat take_bit_nat_eq_self)

lemma TransferCache_ok:
  assumes sv: "CreateEcdhOprfServer (ue_lib env) (ue_avx2 env) key (ue_curve env) = Inr sv" and F: "\<And>x. length (F x) = L"
    and perm: "length perm = length xs" "\<forall>r \<in> set perm. r < length xs" and len: "length xs < 2 ^ 32" "\<forall>x \<in> set xs. snd x < 2 ^ 32"
    and bs: "0 < ue_batch_size env" "ue_batch_size env < 2 ^ 32"
  shows "\<exists>n yss. Server_OfflineTransferCache env (Some (cache_file F xs perm), Some (cache_meta L key keys (length perm))) = Some (Inr (n, map final_msg yss @ [last_batch])) \<and>
     concat yss = peer_items F xs perm"
proof -
  obtain p where p: "GetCacheProvider env (Some (cache_file F xs perm), Some (cache_meta L key keys (length perm))) = Inr p"
    "UbPsiCache_inv p" "cp_in p = cache_file F xs perm" "cp_meta p = cache_meta L key keys (length perm)" using cache_provider [OF perm(1) len(1) bs] by blast
  obtain yss where y: "reads (\<lambda>p. Some (UbPsiCache_ReadNextBatchWithDupCnt p)) no_items p (map dup_batch_of yss)"
    "concat yss = map (\<lambda>it. (take (cm_item_len (cp_meta p)) (ci_data it), unat (ci_dup_cnt it))) (cp_in p)" using ub_cache_dup.dup_reads [OF p(2)] by blast
  have "concat yss = peer_items F xs perm"
    unfolding y(2) p(3,4) using F perm len
    by (intro nth_equalityI) (auto simp: cache_file_def peer_items_def cache_meta_def cache_row_def nth_enumerate_eq unat_of_nat intro!: take_bit_nat_eq_self)
  moreover obtain n where "rfold (\<lambda>(items, dup_cnt) (items_count, sent). Inr (items_count + length items, sent @ [ub_batch False (concat items) dup_cnt])) (map dup_batch_of yss) (0, []) =
     Inr (n, map final_msg yss)" using SendFinal_batches [where k = 0 and sent = "[]"] by fastforce
  moreover have "cm_priv_key (cp_meta p) = key" by (simp add: p(4) cache_meta_def)
  ultimately show ?thesis using p(1) sv
    by (auto simp: Server_OfflineTransferCache_def SendFinalEvaluatedItems_def each_batch_reads [OF y(1)] obind_Some_Inr)
qed

lemma RecvFinal_ok:
  assumes "file_stored zs s" "fs_cipher_len s = L" "0 < L" "\<forall>y \<in> set (concat yss). length (fst y) = L"
  shows "\<exists>s'. RecvFinalEvaluatedItems L UbFileStore_Save (map final_msg yss @ [last_batch]) s = Inr s' \<and> file_stored (zs @ concat yss) s' \<and> fs_cipher_len s' = L"
  using assms(1,2,4)
proof (induction yss arbitrary: zs s)
  case (Cons ys yss)
  have sp: "split_items L (concat (map fst ys)) = Inr (map fst ys)" using Cons.prems(3) assms(3) by (intro split_items_concat) auto
  have "\<exists>s'. store_Save_dup UbFileStore_Save (map fst ys) (dup_cnt_map (map snd ys)) s = Inr s' \<and> file_stored (zs @ ys) s' \<and> fs_cipher_len s' = L"
  proof (rule store_Save_dup_ok [where stored = "\<lambda>xs s. file_stored xs s \<and> fs_cipher_len s = L" and ok = "\<lambda>c. length c = L"])
    show "file_stored zs s \<and> fs_cipher_len s = L" "\<forall>y \<in> set ys. length (fst y) = L" using Cons.prems by auto
    show "\<exists>s'. UbFileStore_Save c d s = Inr s' \<and> file_stored (xs @ [(c, d)]) s' \<and> fs_cipher_len s' = L" if "file_stored xs s \<and> fs_cipher_len s = L" "length c = L" for xs s c d
      using file_Save [of xs s c d] that by simp
  qed
  then obtain s' where s': "store_Save_dup UbFileStore_Save (map fst ys) (dup_cnt_map (map snd ys)) s = Inr s'" "file_stored (zs @ ys) s'" "fs_cipher_len s' = L" by blast
  from Cons.IH [OF s'(2,3)] show ?case using Cons.prems(3) sp s'(1) by (simp add: final_msg_def)
qed simp

text \<open>The client's files after the transfer, and the store that the online phase opens on them.\<close>

definition copy_of :: "nat \<Rightarrow> (string \<times> nat) list \<Rightarrow> client_cache \<Rightarrow> bool" where
  "copy_of L ys copy \<longleftrightarrow> (\<exists>s. file_stored ys s \<and> fs_cipher_len s = L \<and> copy = (Some (fs_file s), fs_meta_file (UbFileStore_DumpMeta s)))"

lemma Client_Transfer_ok:
  assumes cl: "CreateEcdhOprfClient (ue_lib env) (ue_avx2 env) key (ue_curve env) = Inr cl" "oc_GetCompareLength cl = L" and L: "0 < L" "L < 32"
    and ys: "concat yss = ys" "\<forall>y \<in> set ys. length (fst y) = L" and old: "fst old \<noteq> None \<or> snd old = None"
  shows "\<exists>copy. Client_OfflineTransferCache env key old (map final_msg yss @ [last_batch]) = Inr copy \<and> copy_of L ys copy"
proof -
  have meta: "(if fst old \<noteq> None then None else snd old) = None" using old by auto
  obtain s where s: "UbFileStore_new [] None L = Inr s" "file_stored [] s" "fs_cipher_len s = L"
    using L by (simp add: UbFileStore_new_def enforce_def kMaxCipherSize_def file_stored_def UbFileStore_DumpMeta_def)
  obtain s' where s': "RecvFinalEvaluatedItems L UbFileStore_Save (map final_msg yss @ [last_batch]) s = Inr s'" "file_stored ys s'" "fs_cipher_len s' = L"
    using RecvFinal_ok [OF s(2,3) L(1), of yss] ys by auto
  have "copy_of L ys (Some (fs_file (UbFileStore_Flush s')), fs_meta_file (UbFileStore_Flush s'))"
    using s'(2,3) by (auto simp: copy_of_def UbFileStore_Flush_def UbFileStore_DumpMeta_def)
  then show ?thesis using cl s(1) s'(1) meta by (simp add: Client_OfflineTransferCache_def Let_def)
qed

lemma copy_reopened:
  assumes "copy_of L ys copy" "L < 32"
  shows "\<exists>s. UbFileStore_new (case fst copy of None \<Rightarrow> [] | Some f \<Rightarrow> f) (snd copy) L = Inr s \<and> file_stored ys s"
  using assms by (auto simp: copy_of_def UbFileStore_new_def UbFileStore_DumpMeta_def file_stored_def enforce_def kMaxCipherSize_def Let_def)

section \<open>The matches of the online phase\<close>

lemma find_cached:
  assumes "memory_cached zs s" "distinct (map fst zs)"
  shows "p < length zs \<Longrightarrow> UbMemoryStore_Find s (fst (zs ! p)) = Some (of_nat p, of_nat (snd (zs ! p)))" "c \<notin> fst ` set zs \<Longrightarrow> UbMemoryStore_Find s c = None"
proof -
  let ?es = "map (\<lambda>(i, c, d). (c, (of_nat i :: 32 word, of_nat d :: 32 word))) (enumerate 0 zs)"
  have fst: "map fst ?es = map fst zs" by (intro nth_equalityI) (simp_all add: nth_enumerate_eq case_prod_beta)
  have find: "UbMemoryStore_Find s c = map_of (rev ?es) c" for c using assms(1) by (simp add: memory_cached_def UbMemoryStore_Find_def)
  show "UbMemoryStore_Find s (fst (zs ! p)) = Some (of_nat p, of_nat (snd (zs ! p)))" if "p < length zs"
  proof -
    have "distinct (map fst (rev ?es))" using assms(2) unfolding rev_map [symmetric] fst by simp
    moreover have "(fst (zs ! p), of_nat p, of_nat (snd (zs ! p))) \<in> set (rev ?es)"
      unfolding set_rev set_map by (rule image_eqI [where x = "(p, zs ! p)"]) (use that in \<open>simp_all add: in_set_enumerate_eq case_prod_beta\<close>)
    ultimately show ?thesis unfolding find by (rule map_of_is_SomeI)
  qed
  show "UbMemoryStore_Find s c = None" if "c \<notin> fst ` set zs"
    using that unfolding find map_of_eq_None_iff set_rev set_map [symmetric] fst by simp
qed

text \<open>The places of equal items in two lists.\<close>

definition equal_places :: "(string \<times> nat) list \<Rightarrow> (string \<times> nat) list \<Rightarrow> (nat \<times> nat) set" where
  "equal_places zs ys = {(p, j). p < length zs \<and> j < length ys \<and> fst (zs ! p) = fst (ys ! j)}"

definition ub_match_of :: "(string \<times> nat) list \<Rightarrow> (string \<times> nat) list \<Rightarrow> nat \<times> nat \<Rightarrow> ub_match" where
  "ub_match_of zs ys = (\<lambda>(p, j). (of_nat p, of_nat j, of_nat (snd (zs ! p)), of_nat (snd (ys ! j))))"

lemma ub_matches_places:
  assumes mem: "memory_cached zs self" and z: "distinct (map fst zs)" and y: "distinct (map fst ys)"
  shows "\<exists>PJ. ub_matches self 0 ys = map (ub_match_of zs ys) PJ \<and> distinct (map fst PJ) \<and> distinct (map snd PJ) \<and> set PJ = equal_places zs ys"
  using y
proof (induction ys rule: rev_induct)
  case Nil
  then show ?case by (intro exI [of _ "[]"]) (simp add: ub_matches_def equal_places_def List.map_filter_simps)
next
  case (snoc y ys)
  then obtain PJ where PJ: "ub_matches self 0 ys = map (ub_match_of zs ys) PJ" "distinct (map fst PJ)" "distinct (map snd PJ)" "set PJ = equal_places zs ys" by auto
  have old: "map (ub_match_of zs ys) PJ = map (ub_match_of zs (ys @ [y])) PJ"
    using PJ(4) by (auto simp: ub_match_of_def equal_places_def nth_append)
  have split: "equal_places zs (ys @ [y]) = equal_places zs ys \<union> {(p, length ys) | p. p < length zs \<and> fst (zs ! p) = fst y}"
    by (auto simp: equal_places_def nth_append less_Suc_eq)
  show ?case
  proof (cases "fst y \<in> fst ` set zs")
    case True
    then obtain p where p: "p < length zs" "fst (zs ! p) = fst y" by (metis image_iff in_set_conv_nth)
    have uniq: "q < length zs \<Longrightarrow> fst (zs ! q) = fst y \<Longrightarrow> q = p" for q using z p nth_eq_iff_index_eq [of "map fst zs" p q] by simp
    have "p \<notin> fst ` set PJ"
    proof
      assume "p \<in> fst ` set PJ"
      then obtain j where "j < length ys" "fst (ys ! j) = fst y" using p(2) PJ(4) by (auto simp: equal_places_def)
      then have "fst y \<in> fst ` set ys" by (metis image_eqI nth_mem)
      then show False using snoc.prems by simp
    qed
    moreover have "length ys \<notin> snd ` set PJ" using PJ(4) by (auto simp: equal_places_def)
    moreover have "ub_matches self (0 + length ys) [y] = [ub_match_of zs (ys @ [y]) (p, length ys)]"
      using find_cached(1) [OF mem z p(1)] p(2) by (simp add: ub_matches_def ub_match_of_def List.map_filter_simps case_prod_beta)
    moreover have "equal_places zs (ys @ [y]) = insert (p, length ys) (set PJ)" unfolding split PJ(4) using uniq p by blast
    ultimately show ?thesis using PJ(1-3) old
      by (intro exI [of _ "PJ @ [(p, length ys)]"] conjI) (simp_all add: ub_matches_append)
  next
    case False
    have "ub_matches self (0 + length ys) [y] = []" using find_cached(2) [OF mem z False] by (simp add: ub_matches_def List.map_filter_simps case_prod_beta)
    moreover have "fst (zs ! p) \<noteq> fst y" if "p < length zs" for p using False that by (metis image_eqI nth_mem)
    then have "equal_places zs (ys @ [y]) = set PJ" unfolding split PJ(4) by blast
    ultimately show ?thesis using PJ(1-3) old by (intro exI [of _ PJ] conjI) (simp_all add: ub_matches_append)
  qed
qed

lemma mset_map_preimage: "mset Q = mset (map f P) \<Longrightarrow> \<exists>P'. Q = map f P' \<and> mset P' = mset P"
proof (induction Q arbitrary: P)
  case (Cons q Q)
  have "q \<in> set (map f P)" using Cons.prems by (metis list.set_intros(1) mset_eq_setD)
  then obtain A x B where x: "P = A @ x # B" "q = f x" by (auto dest: split_list)
  then have "mset Q = mset (map f (A @ B))" using Cons.prems by simp
  from Cons.IH [OF this] obtain P' where "Q = map f P'" "mset P' = mset (A @ B)" by blast
  then show ?case using x by (intro exI [of _ "x # P'"]) simp
qed simp

lemma ComputeIndices_places:
  assumes "memory_cached zs self" "file_stored ys peer" "distinct (map fst zs)" "distinct (map fst ys)" "\<forall>y \<in> set ys. snd y < 2 ^ 32" "0 < threads" "0 < batch_size"
  shows "\<exists>PJ. ComputeIndicesWithDupCnt threads self peer batch_size = Some (Inr (info_of (map (ub_match_of zs ys) PJ))) \<and>
     distinct (map fst PJ) \<and> distinct (map snd PJ) \<and> set PJ = equal_places zs ys"
proof -
  obtain Q where Q: "ComputeIndicesWithDupCnt threads self peer batch_size = Some (Inr (info_of Q))" "mset Q = mset (ub_matches self 0 ys)"
    using ComputeIndices_ok [OF assms(2,5-7)] by blast
  obtain PJ where PJ: "ub_matches self 0 ys = map (ub_match_of zs ys) PJ" "distinct (map fst PJ)" "distinct (map snd PJ)" "set PJ = equal_places zs ys"
    using ub_matches_places [OF assms(1,3,4)] by blast
  obtain P where P: "Q = map (ub_match_of zs ys) P" "mset P = mset PJ" using mset_map_preimage Q(2) unfolding PJ(1) by blast
  have "mset (map fst P) = mset (map fst PJ)" "mset (map snd P) = mset (map snd PJ)" using P(2) by simp_all
  then have "distinct (map fst P)" "distinct (map snd P)" using PJ(2,3) mset_eq_imp_distinct_iff by blast+
  moreover have "set P = equal_places zs ys" using mset_eq_setD [OF P(2)] PJ(4) by simp
  ultimately show ?thesis using Q(1) P(1) by blast
qed

lemma match_rows_set: "set (match_rows i K K') = {(i + k, d) | k d. k < length K \<and> dup_of K' (fst (K ! k)) = Some d}"
proof (induction i K K' rule: match_rows.induct)
  case (2 i k s d K K')
  have "{(i + q, e) | q e. q < length ((k, s, d) # K) \<and> dup_of K' (fst (((k, s, d) # K) ! q)) = Some e} =
      {(i, e) | e. dup_of K' k = Some e} \<union> {(i + 1 + q, e) | q e. q < length K \<and> dup_of K' (fst (K ! q)) = Some e}" (is "?l = ?r")
  proof (intro set_eqI iffI)
    fix z assume "z \<in> ?l"
    then obtain q e where "z = (i + q, e)" "q < length ((k, s, d) # K)" "dup_of K' (fst (((k, s, d) # K) ! q)) = Some e" by auto
    then show "z \<in> ?r" by (cases q) auto
  next
    fix z assume "z \<in> ?r"
    then consider e where "z = (i, e)" "dup_of K' k = Some e" | q e where "z = (i + 1 + q, e)" "q < length K" "dup_of K' (fst (K ! q)) = Some e" by auto
    then show "z \<in> ?l"
    proof cases
      case 1
      then show ?thesis by force
    next
      case 2
      then show ?thesis by (intro CollectI exI [of _ "Suc q"] exI [of _ e]) simp
    qed
  qed
  then show ?case using 2 by (cases "dup_of K' k") auto
qed simp

text \<open>A reader over the matches in any order.\<close>

lemma reader_of_matches:
  assumes d: "distinct (map fst L)" and s: "set L = {(i, d). i < length K \<and> dup_of K' (fst (K ! i)) = Some d}"
  shows "MemoryIndexReader_new (map fst L) (map snd L) = Inr \<lparr> mr_items = match_rows 0 K K', mr_read_cnt = 0 \<rparr>"
proof -
  let ?R = "match_rows 0 K K'"
  have asc: "sorted_wrt (<) (map fst ?R)" using match_rows_sorted [of 0 K K'] by simp
  have "set L = set ?R" unfolding s match_rows_set by auto
  moreover have "distinct ?R" using asc strict_sorted_iff [of "map fst ?R"] by (simp add: distinct_map)
  moreover have "distinct L" using d by (simp add: distinct_map)
  ultimately have "mset L = mset ?R" by (metis set_eq_iff_mset_eq_distinct)
  moreover have "inj_on fst (set L)" using d by (simp add: distinct_map)
  moreover have "sorted (map fst ?R)" using asc strict_sorted_iff by blast
  ultimately have "sort_key fst L = ?R" by (rule sort_key_inj_key_eq)
  then show ?thesis by (simp add: MemoryIndexReader_new_def enforce_def zip_map_fst_snd)
qed

section \<open>The results in the order of the tables\<close>

text \<open>The row that \<open>TransCacheIndexesToRowIndexs\<close> makes of a cached item.\<close>

definition trans_row :: "(32 word \<rightharpoonup> 32 word) \<Rightarrow> UbPsiCacheItem \<Rightarrow> index_row option" where
  "trans_row m it = map_option (\<lambda>c. (unat (ci_shuffle_index it), unat c)) (m (ci_origin_index it))"

lemma trans_batch_ok:
  "trans_batch m (cache_item_batch len items) (map fst L, map snd L) = Inr (map fst (L @ List.map_filter (trans_row m) items), map snd (L @ List.map_filter (trans_row m) items))"
proof -
  let ?b = "cache_item_batch len items" let ?L = "\<lambda>k. L @ List.map_filter (trans_row m) (take k items)"
  have "rfold (\<lambda>i (index, cnt). rbind (at (sh_indices ?b) i) (\<lambda>k. case m (of_nat k) of None \<Rightarrow> Inr (index, cnt)
      | Some c \<Rightarrow> rbind (at (sh_shuffled ?b) i) (\<lambda>r. Inr (index @ [r], cnt @ [unat c])))) [0..<k] (map fst L, map snd L) = Inr (map fst (?L k), map snd (?L k))"
    if "k \<le> length items" for k
    using that
  proof (induction k)
    case (Suc k)
    then show ?case
      by (simp add: take_Suc_conv_app_nth map_filter_append List.map_filter_simps cache_item_batch_def trans_row_def split: option.splits)
  qed (simp add: List.map_filter_simps)
  from this [of "length items"] have "rfold (\<lambda>i (index, cnt). rbind (at (sh_indices ?b) i) (\<lambda>k. case m (of_nat k) of None \<Rightarrow> Inr (index, cnt)
      | Some c \<Rightarrow> rbind (at (sh_shuffled ?b) i) (\<lambda>r. Inr (index @ [r], cnt @ [unat c])))) [0..<length items] (map fst L, map snd L) = Inr (map fst (?L (length items)), map snd (?L (length items)))" by blast
  moreover have "length (sh_indices ?b) = length items" by (simp add: cache_item_batch_def)
  ultimately show ?thesis unfolding trans_batch_def by simp
qed

lemma trans_batches: "rfold (trans_batch m) (map (cache_item_batch len) xss) (map fst L, map snd L) =
    Inr (map fst (L @ List.map_filter (trans_row m) (concat xss)), map snd (L @ List.map_filter (trans_row m) (concat xss)))"
proof (induction xss arbitrary: L)
  case (Cons xs xss)
  then show ?case by (simp only: list.simps concat.simps rfold.simps trans_batch_ok rbind_Inr map_filter_append append_assoc)
qed (simp add: List.map_filter_simps)

definition trans_list :: "(32 word \<rightharpoonup> 32 word) \<Rightarrow> nat list \<Rightarrow> index_row list" where
  "trans_list m perm = List.map_filter (\<lambda>(pos, r). map_option (\<lambda>c. (r, unat c)) (m (of_nat pos))) (enumerate 0 perm)"

lemma Trans_ok:
  assumes "length perm = length xs" "length xs < 2 ^ 32" "0 < ue_batch_size env" "ue_batch_size env < 2 ^ 32" "\<forall>r \<in> set perm. r < length xs"
  shows "TransCacheIndexesToRowIndexs env (Some (cache_file F xs perm), Some (cache_meta len key keys (length perm))) m =
     Some (Inr (map fst (trans_list m perm), map snd (trans_list m perm)))"
proof -
  obtain p where p: "GetCacheProvider env (Some (cache_file F xs perm), Some (cache_meta len key keys (length perm))) = Inr p"
    "UbPsiCache_inv p" "cp_in p = cache_file F xs perm" using cache_provider [OF assms(1-4)] by blast
  obtain xss where x: "reads (\<lambda>p. Some (UbPsiCache_ReadNextShuffledBatch p)) (\<lambda>b. sh_items b = []) p (map (cache_item_batch (cm_item_len (cp_meta p))) xss)" "concat xss = cp_in p"
    using UbPsiCache_reads [OF p(2)] by blast
  have small: "unat (of_nat (perm ! a) :: 32 word) = perm ! a" if "a < length xs" for a
  proof -
    have "perm ! a < 2 ^ 32" using assms(1,2,5) that by (metis dual_order.strict_trans nth_mem)
    then show ?thesis by (simp add: unat_of_nat take_bit_nat_eq_self)
  qed
  have "List.map_filter (trans_row m) (map g ps) = List.map_filter (\<lambda>x. trans_row m (g x)) ps" for g and ps :: "(nat \<times> nat) list"
    by (induction ps) (simp_all add: List.map_filter_simps split: option.splits)
  then have "List.map_filter (trans_row m) (cache_file F xs perm) = trans_list m perm"
    unfolding cache_file_def trans_list_def using assms(1,2) small
    by (auto simp: trans_row_def cache_row_def in_set_enumerate_eq intro!: map_filter_eq option.map_cong)
  then show ?thesis using p(1,3) x(2) trans_batches [of m "cm_item_len (cp_meta p)" xss "[]"]
    by (simp add: TransCacheIndexesToRowIndexs_def each_batch_reads [OF x(1)] obind_Some_Inr)
qed

lemma trans_rows:
  assumes "distinct perm"
  shows "distinct (map fst (trans_list m perm))" "set (trans_list m perm) = {(perm ! pos, unat c) | pos c. pos < length perm \<and> m (of_nat pos) = Some c}"
proof -
  let ?P = "\<lambda>(pos, r). m (of_nat pos) \<noteq> None"
  have L: "trans_list m perm = map (\<lambda>(pos, r). (r, unat (the (m (of_nat pos))))) (filter ?P (enumerate 0 perm))"
    unfolding trans_list_def by (induction perm rule: rev_induct) (auto simp: enumerate_snoc map_filter_append List.map_filter_simps split: option.splits)
  have "map fst (trans_list m perm) = map snd (filter ?P (enumerate 0 perm))" unfolding L by (simp add: case_prod_beta comp_def)
  moreover have "distinct (map snd (enumerate 0 perm))" using assms(1) by (simp add: enumerate_eq_zip)
  ultimately show "distinct (map fst (trans_list m perm))" using distinct_map_filter by metis
  show "set (trans_list m perm) = {(perm ! pos, unat c) | pos c. pos < length perm \<and> m (of_nat pos) = Some c}"
    unfolding L by (force simp: in_set_enumerate_eq image_iff)
qed

lemma fold_updates: "fold (\<lambda>(j, i) m. m(j \<mapsto> g i)) ps m0 = m0 ++ map_of (rev (map (\<lambda>(j, i). (j, g i)) ps))"
  by (induction ps rule: rev_induct) (auto simp: fun_eq_iff map_add_def)

text \<open>The items of both sides at equal places have equal keys.\<close>

definition self_items :: "(string \<Rightarrow> string) \<Rightarrow> (string \<times> nat) list \<Rightarrow> nat list \<Rightarrow> (string \<times> nat) list" where
  "self_items F xc \<sigma> = map (\<lambda>i. (F (fst (xc ! i)), 0)) \<sigma>"

lemma places_keys:
  assumes "inj_on F (fst ` set xc \<union> fst ` set xs)" "\<forall>i \<in> set \<sigma>. i < length xc" "\<forall>r \<in> set perm. r < length xs"
  shows "equal_places (self_items F xc \<sigma>) (peer_items F xs perm) = {(p, j). p < length \<sigma> \<and> j < length perm \<and> fst (xc ! (\<sigma> ! p)) = fst (xs ! (perm ! j))}"
proof -
  have "F (fst (xc ! (\<sigma> ! p))) = F (fst (xs ! (perm ! j))) \<longleftrightarrow> fst (xc ! (\<sigma> ! p)) = fst (xs ! (perm ! j))" if "p < length \<sigma>" "j < length perm" for p j
  proof -
    have "\<sigma> ! p < length xc" "perm ! j < length xs" using assms(2,3) that by auto
    then have "fst (xc ! (\<sigma> ! p)) \<in> fst ` set xc \<union> fst ` set xs" "fst (xs ! (perm ! j)) \<in> fst ` set xc \<union> fst ` set xs" by auto
    then show ?thesis by (rule inj_on_eq_iff [OF assms(1)])
  qed
  then show ?thesis by (auto simp: equal_places_def peer_items_def self_items_def)
qed

lemma evaluated_distinct:
  assumes "inj_on F A" "fst ` set xs \<subseteq> A" "distinct (map fst xs)" "distinct perm" "\<forall>r \<in> set perm. r < length xs"
  shows "distinct (map (\<lambda>r. F (fst (xs ! r))) perm)"
  unfolding distinct_map
proof (intro conjI inj_onI)
  fix r r' assume r: "r \<in> set perm" "r' \<in> set perm" "F (fst (xs ! r)) = F (fst (xs ! r'))"
  then have b: "r < length xs" "r' < length xs" using assms(5) by auto
  then have "fst (xs ! r) = fst (xs ! r')" using r(3) assms(1,2) by (meson image_eqI inj_onD nth_mem subsetD)
  then show "r = r'" using b assms(3) nth_eq_iff_index_eq [of "map fst xs" r r'] by simp
qed fact

abbreviation (input) row_dups :: "key_row list \<Rightarrow> (string \<times> nat) list" where
  "row_dups K \<equiv> map (\<lambda>(k, s, d). (k, d)) K"

lemma dup_of_nth:
  assumes "distinct (map fst K)"
  shows "dup_of K k = Some d \<longleftrightarrow> (\<exists>i < length K. row_dups K ! i = (k, d))"
proof -
  have "map fst (row_dups K) = map fst K" by (simp add: case_prod_beta)
  then have "distinct (map fst (row_dups K))" using assms by (simp only:)
  then show ?thesis unfolding dup_of_def map_of_eq_Some_iff [OF \<open>distinct (map fst (row_dups K))\<close>] by (simp only: in_set_conv_nth length_map)
qed

lemma unat_small: "n < 2 ^ 32 \<Longrightarrow> unat (of_nat n :: 32 word) = n"
  by (simp add: unat_of_nat take_bit_nat_eq_self)

lemma client_reader_ok:
  fixes Kc Ks :: "key_row list" and F
  defines "zs \<equiv> self_items F (row_dups Kc) [0..<length Kc]"
  assumes inj: "inj_on F (fst ` set (row_dups Kc) \<union> fst ` set (row_dups Ks))" and Ks: "distinct (map fst Ks)" and perm: "set perm = {0..<length Ks}" "length perm = length Ks"
    and len: "length Kc < 2 ^ 32" "\<forall>x \<in> set (row_dups Ks). snd x < 2 ^ 32" and PJ: "distinct (map fst PJ)" "set PJ = equal_places zs (peer_items F (row_dups Ks) perm)"
  shows "Client_Online_reader (info_of (map (ub_match_of zs (peer_items F (row_dups Ks) perm)) PJ)) = Inr \<lparr> mr_items = match_rows 0 Kc Ks, mr_read_cnt = 0 \<rparr>"
proof -
  let ?xs = "row_dups Ks" and ?xc = "row_dups Kc" let ?ys = "peer_items F ?xs perm" let ?L = "map (\<lambda>(p, j). (p, snd (?xs ! (perm ! j)))) PJ"
  have key: "fst (?xc ! i) = fst (Kc ! i)" if "i < length Kc" for i using that by (simp add: case_prod_beta)
  have places: "set PJ = {(p, j). p < length Kc \<and> j < length Ks \<and> fst (Kc ! p) = fst (?xs ! (perm ! j))}"
    unfolding PJ(2) zs_def using places_keys [OF inj, of "[0..<length Kc]" perm] perm key by auto
  have bound: "p < 2 ^ 32 \<and> snd (?xs ! (perm ! j)) < 2 ^ 32 \<and> j < length perm" if "(p, j) \<in> set PJ" for p j
  proof -
    have "p < length Kc" "j < length perm" using that perm(2) unfolding places by auto
    moreover from this have "perm ! j < length ?xs" using perm(1) nth_mem [of j perm] by (simp del: nth_mem)
    ultimately show ?thesis using len nth_mem [of "perm ! j" ?xs] by fastforce
  qed
  have "map unat (ix_self_indices (info_of (map (ub_match_of zs ?ys) PJ))) = map fst ?L" "map unat (ix_peer_dup_cnt (info_of (map (ub_match_of zs ?ys) PJ))) = map snd ?L"
    using bound by (auto simp: info_of_def ub_match_of_def peer_items_def unat_small)
  moreover have "distinct (map fst ?L)" using PJ(1) by (simp add: case_prod_beta comp_def)
  moreover have "set ?L = {(i, d). i < length Kc \<and> dup_of Ks (fst (Kc ! i)) = Some d}" (is "_ = ?R")
  proof (intro set_eqI iffI)
    fix z assume "z \<in> set ?L"
    then obtain p j where z: "z = (p, snd (?xs ! (perm ! j)))" "p < length Kc" "j < length Ks" "fst (Kc ! p) = fst (?xs ! (perm ! j))" unfolding set_map places by auto
    have "perm ! j < length Ks" using perm z(3) nth_mem [of j perm] by (simp del: nth_mem)
    then have "dup_of Ks (fst (Kc ! p)) = Some (snd (?xs ! (perm ! j)))" unfolding dup_of_nth [OF Ks] z(4) by (metis prod.collapse)
    then show "z \<in> ?R" using z(1,2) by simp
  next
    fix z assume "z \<in> ?R"
    then obtain i d r where z: "z = (i, d)" "i < length Kc" "r < length Ks" "?xs ! r = (fst (Kc ! i), d)" by (auto simp: dup_of_nth [OF Ks])
    then obtain j where "j < length perm" "perm ! j = r" using perm(1) by (metis atLeastLessThan_iff in_set_conv_nth le0)
    then have "(i, j) \<in> set PJ" "z = (case (i, j) of (p, j) \<Rightarrow> (p, snd (?xs ! (perm ! j))))" using z perm(2) unfolding places by auto
    then show "z \<in> set ?L" unfolding set_map by blast
  qed
  ultimately show ?thesis unfolding Client_Online_reader_def by (simp only: reader_of_matches)
qed

lemma server_reader_ok:
  fixes Kc Ks :: "key_row list" and F \<sigma> perm PJ
  defines "zs \<equiv> self_items F (row_dups Kc) \<sigma>" and "I \<equiv> info_of (map (ub_match_of (self_items F (row_dups Kc) \<sigma>) (peer_items F (row_dups Ks) perm)) PJ)"
  assumes inj: "inj_on F (fst ` set (row_dups Kc) \<union> fst ` set (row_dups Ks))" and Kc: "distinct (map fst Kc)"
    and perm: "set perm = {0..<length Ks}" "length perm = length Ks" "distinct perm" and \<sigma>: "set \<sigma> = {0..<length Kc}" "length \<sigma> = length Kc"
    and len: "length Ks < 2 ^ 32" "\<forall>x \<in> set (row_dups Kc). snd x < 2 ^ 32" and bs: "0 < ue_batch_size env" "ue_batch_size env < 2 ^ 32"
    and PJ: "distinct (map snd PJ)" "set PJ = equal_places zs (peer_items F (row_dups Ks) perm)"
    and cnt: "\<forall>i < length Kc. peer_cnt_at info (of_nat i) = of_nat (snd (row_dups Kc ! (\<sigma> ! i)))"
  shows "Server_Online_result env (Some (cache_file F (row_dups Ks) perm), Some (cache_meta L key keys (length perm))) info (ix_peer_indices I, ix_self_indices I) =
     Some (Inr \<lparr> mr_items = match_rows 0 Ks Kc, mr_read_cnt = 0 \<rparr>)"
proof -
  let ?xs = "row_dups Ks" and ?xc = "row_dups Kc"
  let ?m = "fold (\<lambda>(j, i) m. m(j \<mapsto> peer_cnt_at info i)) (zip (ix_peer_indices I) (ix_self_indices I)) (\<lambda>_. None)"
  have places: "set PJ = {(p, j). p < length Kc \<and> j < length Ks \<and> fst (?xc ! (\<sigma> ! p)) = fst (?xs ! (perm ! j))}"
    unfolding PJ(2) zs_def using places_keys [OF inj, of \<sigma> perm] perm \<sigma> by auto
  let ?es = "map (\<lambda>(p, j). (of_nat j :: 32 word, peer_cnt_at info (of_nat p))) PJ"
  have "map (\<lambda>(j, i). (j, peer_cnt_at info i)) (zip (ix_peer_indices I) (ix_self_indices I)) = ?es"
    by (intro nth_equalityI) (auto simp: I_def info_of_def ub_match_of_def case_prod_beta)
  then have m: "?m = map_of (rev ?es)" by (simp add: fold_updates)
  have "inj_on (\<lambda>j. of_nat j :: 32 word) (snd ` set PJ)" using len(1) unfolding places by (intro inj_onI) (auto simp: word_of_nat_eq_iff take_bit_nat_eq_self)
  then have "distinct (map (\<lambda>j. of_nat j :: 32 word) (map snd PJ))" using PJ(1) by (simp add: distinct_map comp_inj_on)
  then have dist: "distinct (map fst (rev ?es))" by (simp add: rev_map [symmetric] comp_def case_prod_beta)
  have at: "?m (of_nat j) = Some c \<longleftrightarrow> (\<exists>p. (p, j) \<in> set PJ \<and> c = peer_cnt_at info (of_nat p))" if j: "j < length Ks" for j c
    unfolding m map_of_eq_Some_iff [OF dist] using j len(1) places by (auto simp: word_of_nat_eq_iff take_bit_nat_eq_self)
  have "set (trans_list ?m perm) = {(i, d). i < length Ks \<and> dup_of Kc (fst (Ks ! i)) = Some d}" (is "_ = ?R")
  proof (intro set_eqI iffI)
    fix z assume "z \<in> set (trans_list ?m perm)"
    then obtain j p where z: "z = (perm ! j, unat (peer_cnt_at info (of_nat p)))" "j < length Ks" "(p, j) \<in> set PJ"
      unfolding trans_rows(2) [OF perm(3)] using at perm(2) by auto
    then have p: "p < length Kc" "fst (?xc ! (\<sigma> ! p)) = fst (?xs ! (perm ! j))" unfolding places by auto
    have b: "\<sigma> ! p < length Kc" "perm ! j < length Ks" using \<sigma> perm p(1) z(2) nth_mem [of p \<sigma>] nth_mem [of j perm] by (simp_all del: nth_mem)
    then have "dup_of Kc (fst (?xs ! (perm ! j))) = Some (snd (?xc ! (\<sigma> ! p)))" unfolding dup_of_nth [OF Kc] p(2) [symmetric] by (metis prod.collapse)
    moreover have "unat (peer_cnt_at info (of_nat p)) = snd (?xc ! (\<sigma> ! p))" using cnt p(1) len(2) b(1) nth_mem [of "\<sigma> ! p" ?xc] by (simp add: unat_small)
    moreover have "fst (?xs ! (perm ! j)) = fst (Ks ! (perm ! j))" using b(2) by (simp add: case_prod_beta)
    ultimately show "z \<in> ?R" using z(1) b(2) by simp
  next
    fix z assume "z \<in> ?R"
    then obtain r d i where z: "z = (r, d)" "r < length Ks" "i < length Kc" "?xc ! i = (fst (Ks ! r), d)" by (auto simp: dup_of_nth [OF Kc])
    obtain j where j: "j < length Ks" "perm ! j = r" using perm(1,2) z(2) by (metis atLeastLessThan_iff in_set_conv_nth le0)
    obtain p where p: "p < length Kc" "\<sigma> ! p = i" using \<sigma> z(3) by (metis atLeastLessThan_iff in_set_conv_nth le0)
    have "fst (?xs ! r) = fst (Ks ! r)" using z(2) by (simp add: case_prod_beta)
    then have "(p, j) \<in> set PJ" unfolding places using z(4) j p by simp
    then have "?m (of_nat j) = Some (peer_cnt_at info (of_nat p))" using at [OF j(1)] by blast
    moreover have "d < 2 ^ 32" using len(2) z(3,4) nth_mem [of i ?xc] by (metis length_map snd_conv)
    then have "d = unat (peer_cnt_at info (of_nat p))" using cnt p z(4) by (simp add: unat_small)
    ultimately show "z \<in> set (trans_list ?m perm)" unfolding trans_rows(2) [OF perm(3)] using z(1) j perm(2) by auto
  qed
  then have "MemoryIndexReader_new (map fst (trans_list ?m perm)) (map snd (trans_list ?m perm)) = Inr \<lparr> mr_items = match_rows 0 Ks Kc, mr_read_cnt = 0 \<rparr>"
    by (intro reader_of_matches trans_rows(1) [OF perm(3)])
  moreover have "RecvCacheIndexes (ix_peer_indices I, ix_self_indices I) = Inr (ix_peer_indices I, ix_self_indices I)" by (simp add: RecvCacheIndexes_def I_def info_of_def enforce_def)
  moreover have "TransCacheIndexesToRowIndexs env (Some (cache_file F ?xs perm), Some (cache_meta L key keys (length perm))) ?m = Some (Inr (map fst (trans_list ?m perm), map snd (trans_list ?m perm)))"
    by (rule Trans_ok) (use perm len bs in simp_all)
  ultimately show ?thesis by (simp add: Server_Online_result_def Let_def obind_Some_Inr peer_cnt_at_def [abs_def])
qed

section \<open>A run of both phases\<close>

definition created_keys :: "'g UbEnv \<Rightarrow> 8 word list \<Rightarrow> 8 word list \<Rightarrow> IEcdhOprfServer \<Rightarrow> IEcdhOprfClient \<Rightarrow> bool" where
  "created_keys env key key' sv cl \<longleftrightarrow>
     CreateEcdhOprfServer (ue_lib env) (ue_avx2 env) key (ue_curve env) = Inr sv \<and> CreateEcdhOprfClient (ue_lib env) (ue_avx2 env) key' (ue_curve env) = Inr cl \<and>
     curve_key (ue_lib env (ue_curve env)) key \<and> curve_key (ue_lib env (ue_curve env)) key' \<and>
     (if ue_curve env = CURVE_FOURQ then curve_ok kEccKeySize (ue_lib env (ue_curve env)) \<and> fourq_ok (ue_lib env (ue_curve env))
      else curve_ok kEcPointCompressLength (ue_lib env (ue_curve env)))"

lemma created_keys_pair: "created_keys env key key' sv cl \<Longrightarrow> created_pair (ue_lib env) (ue_avx2 env) (ue_curve env) sv cl"
  unfolding created_keys_def created_pair_def by blast

text \<open>The offline phase.\<close>

lemma UbPsi_offline_ok:
  assumes c: "created_keys env key client_key sv cl" "key = (case secret_key of Some k \<Rightarrow> k | None \<Rightarrow> random_key)"
    and p: "Sorted_inv p" "Sorted_remaining p = K" and shuffle: "\<And>k is. mset (shuffle k is) = mset is" and bs: "0 < ue_batch_size env" "ue_batch_size env < 2 ^ 32"
    and len: "length K < 2 ^ 32" "\<forall>x \<in> set (row_dups K). snd x < 2 ^ 32" and old: "fst old \<noteq> None \<or> snd old = None"
  shows "\<exists>perm copy. UbPsi_offline env secret_key random_key client_key keys Sorted_ReadNextBatchWithDupCnt shuffle p old =
       Some (Inr ((Some (cache_file (oprf_value sv) (row_dups K) perm), Some (cache_meta (sv_GetCompareLength sv) key keys (length perm))), copy)) \<and>
     mset perm = mset [0..<length K] \<and> copy_of (sv_GetCompareLength sv) (peer_items (oprf_value sv) (row_dups K) perm) copy"
proof -
  note pair = created_keys_pair [OF c(1)]
  let ?F = "oprf_value sv" and ?L = "sv_GetCompareLength sv"
  have F: "length (?F x) = ?L" for x using created.simple_ok [OF pair] by blast
  have sv: "CreateEcdhOprfServer (ue_lib env) (ue_avx2 env) key (ue_curve env) = Inr sv" "CreateEcdhOprfClient (ue_lib env) (ue_avx2 env) client_key (ue_curve env) = Inr cl"
    using c(1) by (simp_all add: created_keys_def)
  obtain n perm where g: "Server_OfflineGenCache env secret_key random_key keys Sorted_ReadNextBatchWithDupCnt shuffle p =
      Some (Inr (n, Some (cache_file ?F (row_dups K) perm), Some (cache_meta ?L key keys (length perm))))" "mset perm = mset [0..<length K]"
    using sorted_dup.GenCache_ok [where keys = keys and shuffle = shuffle, OF pair sv(1) c(2) p(1) shuffle bs(1)] unfolding p(2) length_map by blast
  have perm: "length perm = length (row_dups K)" "\<forall>r \<in> set perm. r < length (row_dups K)" using mset_eq_length [OF g(2)] mset_eq_setD [OF g(2)] by auto
  obtain m yss where t: "Server_OfflineTransferCache env (Some (cache_file ?F (row_dups K) perm), Some (cache_meta ?L key keys (length perm))) = Some (Inr (m, map final_msg yss @ [last_batch]))"
    "concat yss = peer_items ?F (row_dups K) perm"
    using TransferCache_ok [of env key sv ?F ?L perm "row_dups K" keys, OF sv(1) F perm _ len(2) bs] len(1) by auto
  have items: "\<forall>y \<in> set (peer_items ?F (row_dups K) perm). length (fst y) = ?L" using F by (auto simp: peer_items_def)
  have L: "oc_GetCompareLength cl = ?L" "0 < ?L" "?L < 32" using created.lengths_ok [OF pair] by blast+
  obtain copy where "Client_OfflineTransferCache env client_key old (map final_msg yss @ [last_batch]) = Inr copy" "copy_of ?L (peer_items ?F (row_dups K) perm) copy"
    using Client_Transfer_ok [OF sv(2) L t(2) items old] by (elim exE conjE)
  then show ?thesis using g t(1) by (intro exI [of _ perm] exI [of _ copy]) (simp add: UbPsi_offline_def obind_Some_Inr)
qed

text \<open>What the server answers.\<close>

lemma Online_evaluate_ok:
  assumes pair: "created_pair (ue_lib env) (ue_avx2 env) (ue_curve env) sv cl" and sv: "CreateEcdhOprfServer (ue_lib env) (ue_avx2 env) key (ue_curve env) = Inr sv"
    and key: "\<And>k. secret_key = Some k \<Longrightarrow> k = key" and p: "GetCacheProvider env files = Inr prov" "cm_priv_key (cp_meta prov) = key"
    and shuffle: "\<And>n. mset (shuffle n) = mset [0..<n]" and bs: "0 < ue_batch_size env" and len: "length (concat xss) < 2 ^ 32"
  shows "\<exists>yss info \<sigma>. Server_Online_evaluate env secret_key files client_get_result shuffle (map (oprf.blind_msg cl counts) xss @ [last_batch]) =
       Some (Inr (map (oprf.eval_msg sv cl) yss @ [last_batch], info)) \<and>
     concat yss = map (\<lambda>i. fst (concat xss ! i)) \<sigma> \<and> mset \<sigma> = mset [0..<length (concat xss)] \<and> (client_get_result \<longrightarrow> \<sigma> = [0..<length (concat xss)]) \<and>
     (counts \<longrightarrow> (\<forall>i < length (concat xss). peer_cnt_at info (of_nat i) = of_nat (snd (concat xss ! (\<sigma> ! i)))))"
proof -
  have start: "Server_Online_evaluate env secret_key files client_get_result shuffle msgs =
      (if client_get_result then Some (RecvBlindAndSendEvaluate sv msgs) else RecvBlindAndShuffleSendEvaluate sv (ue_batch_size env) shuffle msgs)" for msgs
    using key p sv by (cases secret_key) (auto simp: Server_Online_evaluate_def obind_Some_Inr)
  show ?thesis
  proof (cases client_get_result)
    case True
    from created.evaluate_in_order [OF pair len, of counts] obtain info where i:
      "RecvBlindAndSendEvaluate sv (map (oprf.blind_msg cl counts) xss @ [last_batch]) = Inr (map (\<lambda>xs. oprf.eval_msg sv cl (map fst xs)) xss @ [last_batch], info)"
      "\<forall>i < length (concat xss). peer_cnt_at info (of_nat i) = of_nat (oprf.sent_dups counts (concat xss) ! i)" by blast
    have "map fst (concat xss) = map (\<lambda>i. fst (concat xss ! i)) [0..<length (concat xss)]" by (intro nth_equalityI) simp_all
    then show ?thesis using True i start
      by (intro exI [of _ "map (map fst) xss"] exI [of _ info] exI [of _ "[0..<length (concat xss)]"]) (simp add: map_concat [symmetric] created.sent_dups_def comp_def)
  next
    case False
    from created.evaluate_shuffled [where shuffle = shuffle, OF pair len shuffle bs, of counts] obtain yss info where i:
      "RecvBlindAndShuffleSendEvaluate sv (ue_batch_size env) shuffle (map (oprf.blind_msg cl counts) xss @ [last_batch]) = Some (Inr (map (oprf.eval_msg sv cl) yss @ [last_batch], info))"
      "concat yss = map (\<lambda>i. fst (concat xss ! i)) (shuffle (length (concat xss)))"
      "\<forall>i < length (concat xss). peer_cnt_at info (of_nat i) = of_nat (oprf.sent_dups counts (concat xss) ! (shuffle (length (concat xss)) ! i))" by blast
    have "shuffle (length (concat xss)) ! i < length (concat xss)" if "i < length (concat xss)" for i
      using that mset_eq_setD [OF shuffle [of "length (concat xss)"]] mset_eq_length [OF shuffle [of "length (concat xss)"]] by (metis atLeastLessThan_iff length_upt minus_nat.diff_0 nth_mem set_upt)
    then show ?thesis using False i start shuffle
      by (intro exI [of _ yss] exI [of _ info] exI [of _ "shuffle (length (concat xss))"]) (simp add: created.sent_dups_def)
  qed
qed

text \<open>The client's part of the online phase.\<close>

lemma Online_client_ok:
  assumes pair: "created_pair (ue_lib env) (ue_avx2 env) (ue_curve env) sv cl" and copy: "copy_of (sv_GetCompareLength sv) ys copy"
    and ys: "distinct (map fst ys)" "\<forall>y \<in> set ys. snd y < 2 ^ 32" and zs: "distinct (map (oprf_value sv) (concat yss))" and pos: "0 < ue_threads env" "0 < ue_batch_size env"
  defines "zs \<equiv> map (\<lambda>y. (oprf_value sv y, 0)) (concat yss)"
  shows "\<exists>PJ n. Client_Online_recv env cl copy (map (oprf.eval_msg sv cl) yss @ [last_batch]) = Some (Inr (info_of (map (ub_match_of zs ys) PJ), n)) \<and>
     distinct (map fst PJ) \<and> distinct (map snd PJ) \<and> set PJ = equal_places zs ys"
proof -
  have L: "oc_GetCompareLength cl = sv_GetCompareLength sv" "sv_GetCompareLength sv < 32" using created.lengths_ok [OF pair] by blast+
  obtain peer where peer: "UbFileStore_new (case fst copy of None \<Rightarrow> [] | Some f \<Rightarrow> f) (snd copy) (sv_GetCompareLength sv) = Inr peer" "file_stored ys peer"
    using copy_reopened [OF copy L(2)] by blast
  have "memory_cached [] UbMemoryStore_new" by (simp add: memory_cached_def UbMemoryStore_new_def fun_eq_iff)
  from created.recv_evaluated_ok [OF pair this, of yss "[]"] obtain self where self:
    "RecvEvaluatedItems (Some cl) (oc_GetEcPointLength cl) UbMemoryStore_Save (map (oprf.eval_msg sv cl) yss @ [last_batch]) [] UbMemoryStore_new = Some (Inr self)" "memory_cached zs self"
    by (auto simp: zs_def)
  have "map fst zs = map (oprf_value sv) (concat yss)" by (simp add: zs_def comp_def)
  then have "distinct (map fst zs)" using zs by (simp only:)
  from ComputeIndices_places [OF self(2) peer(2) this ys pos] obtain PJ where
    "ComputeIndicesWithDupCnt (ue_threads env) self peer (ue_batch_size env) = Some (Inr (info_of (map (ub_match_of zs ys) PJ)))"
    "distinct (map fst PJ)" "distinct (map snd PJ)" "set PJ = equal_places zs ys" by blast
  then show ?thesis using self(1) peer(1) L(1) by (intro exI [of _ PJ]) (simp add: Client_Online_recv_def obind_Some_Inr)
qed

lemma Online_send_ok:
  assumes pair: "created_pair (ue_lib env) (ue_avx2 env) (ue_curve env) sv cl" and cl: "CreateEcdhOprfClient (ue_lib env) (ue_avx2 env) key (ue_curve env) = Inr cl" and p: "Sorted_inv p"
  shows "\<exists>xss. Client_Online_send env key Sorted_ReadNextBatchWithDupCnt p counts = Some (Inr (cl, map (oprf.blind_msg cl counts) xss @ [last_batch])) \<and>
     concat xss = row_dups (Sorted_remaining p)"
proof -
  obtain xss where x: "reads (\<lambda>p. Some (Sorted_ReadNextBatchWithDupCnt p)) no_items p (map dup_batch_of xss)" "concat xss = row_dups (Sorted_remaining p)"
    using sorted_dup.dup_reads [OF p] by blast
  obtain n where "rfold (blind_batch (Some cl) (\<lambda>_ _. Inl (Throw ''unused'')) counts) (map dup_batch_of xss) (0, [], []) = Inr (n, map (oprf.blind_msg cl counts) xss, [])"
    using created.blind_batches [OF pair, of "\<lambda>_ _. Inl (Throw ''unused'')" counts xss 0 "[]"] by auto
  then show ?thesis using cl x(2) by (intro exI [of _ xss]) (simp add: Client_Online_send_def SendBlindedItems_def each_batch_reads [OF x(1)] obind_Some_Inr)
qed

lemma row_dups_fst: "map fst (row_dups K) = map fst K" "fst ` set (row_dups K) = fst ` set K"
  by (simp_all add: case_prod_beta image_image)

text \<open>
  C11. A run of the unbalanced protocol on two tables with distinct keys ends without error. Offline, the server fills its cache in any shuffled order and the client copies it;
  online, the client's items come back in their order or, if only the server gets the result, shuffled. Each party that gets a result has a reader over exactly the
  places of the common keys in its own table, in table order, with the duplicate counts of the other table, whatever the batch size and the number of threads.
\<close>

theorem UbPsi_tables_correct:
  assumes "created_keys env key client_key sv cl'" "created_keys env key private_key sv cl" "key = (case secret_key of Some k \<Rightarrow> k | None \<Rightarrow> random_key)"
    and "Sorted_inv ps" "Sorted_remaining ps = Ks" "Sorted_inv pc" "Sorted_remaining pc = Kc" "distinct (map fst Ks)" "distinct (map fst Kc)"
    and "inj_on (oprf_value sv) (fst ` set Kc \<union> fst ` set Ks)"
    and "length Ks < 2 ^ 32" "length Kc < 2 ^ 32" "\<forall>(k, s, d) \<in> set Ks \<union> set Kc. d < 2 ^ 32"
    and "\<And>k is. mset (shuffle k is) = mset is" "\<And>n. mset (online_shuffle n) = mset [0..<n]"
    and "0 < ue_batch_size env" "ue_batch_size env < 2 ^ 32" "0 < ue_threads env" "fst old \<noteq> None \<or> snd old = None"
  shows "\<exists>caches. UbPsi_offline env secret_key random_key client_key keys Sorted_ReadNextBatchWithDupCnt shuffle ps old = Some (Inr caches) \<and>
     UbPsi_online env secret_key private_key server_get_result client_get_result online_shuffle Sorted_ReadNextBatchWithDupCnt pc caches =
       Some (Inr (if server_get_result then Some \<lparr> mr_items = match_rows 0 Ks Kc, mr_read_cnt = 0 \<rparr> else None,
                  if client_get_result then Some \<lparr> mr_items = match_rows 0 Kc Ks, mr_read_cnt = 0 \<rparr> else None))"
proof -
  let ?F = "oprf_value sv" and ?L = "sv_GetCompareLength sv" and ?xs = "row_dups Ks" and ?xc = "row_dups Kc"
  note pair = created_keys_pair [OF assms(2)]
  have create: "CreateEcdhOprfServer (ue_lib env) (ue_avx2 env) key (ue_curve env) = Inr sv" "CreateEcdhOprfClient (ue_lib env) (ue_avx2 env) private_key (ue_curve env) = Inr cl"
    using assms(2) by (simp_all add: created_keys_def)
  have d: "\<forall>x \<in> set ?xs. snd x < 2 ^ 32" "\<forall>x \<in> set ?xc. snd x < 2 ^ 32" using assms(13) by fastforce+
  have inj: "inj_on ?F (fst ` set ?xc \<union> fst ` set ?xs)" unfolding row_dups_fst by fact
  obtain perm copy where off: "UbPsi_offline env secret_key random_key client_key keys Sorted_ReadNextBatchWithDupCnt shuffle ps old =
      Some (Inr ((Some (cache_file ?F ?xs perm), Some (cache_meta ?L key keys (length perm))), copy))" "mset perm = mset [0..<length Ks]" "copy_of ?L (peer_items ?F ?xs perm) copy"
    using UbPsi_offline_ok [where shuffle = shuffle and keys = keys, OF assms(1,3,4,5,14,16,17,11) d(1) assms(19)] by (elim exE conjE)
  let ?files = "(Some (cache_file ?F ?xs perm), Some (cache_meta ?L key keys (length perm)))"
  have perm: "set perm = {0..<length Ks}" "length perm = length Ks" "distinct perm" using mset_eq_setD [OF off(2)] mset_eq_length [OF off(2)] mset_eq_imp_distinct_iff [OF off(2)] by simp_all
  obtain prov where prov: "GetCacheProvider env ?files = Inr prov" "cm_priv_key (cp_meta prov) = key"
    using cache_provider [of perm ?xs env ?F ?L key keys] perm(2) assms(11,16,17) by (auto simp: cache_meta_def)
  obtain xss where send: "Client_Online_send env private_key Sorted_ReadNextBatchWithDupCnt pc server_get_result = Some (Inr (cl, map (oprf.blind_msg cl server_get_result) xss @ [last_batch]))"
    "concat xss = ?xc" using Online_send_ok [OF pair create(2) assms(6)] assms(7) by blast
  have n: "length (concat xss) < 2 ^ 32" "length (concat xss) = length Kc" using send(2) assms(12) by simp_all
  obtain yss info \<sigma> where ev: "Server_Online_evaluate env secret_key ?files client_get_result online_shuffle (map (oprf.blind_msg cl server_get_result) xss @ [last_batch]) =
       Some (Inr (map (oprf.eval_msg sv cl) yss @ [last_batch], info))" "concat yss = map (\<lambda>i. fst (?xc ! i)) \<sigma>" "mset \<sigma> = mset [0..<length Kc]"
     "client_get_result \<longrightarrow> \<sigma> = [0..<length Kc]" "server_get_result \<longrightarrow> (\<forall>i < length Kc. peer_cnt_at info (of_nat i) = of_nat (snd (?xc ! (\<sigma> ! i))))"
    using Online_evaluate_ok [where shuffle = online_shuffle and secret_key = secret_key and client_get_result = client_get_result and counts = server_get_result,
        OF pair create(1) _ prov assms(15,16) n(1)] assms(3) unfolding n(2) unfolding send(2) by auto
  have \<sigma>: "set \<sigma> = {0..<length Kc}" "length \<sigma> = length Kc" "distinct \<sigma>" using mset_eq_setD [OF ev(3)] mset_eq_length [OF ev(3)] mset_eq_imp_distinct_iff [OF ev(3)] by simp_all
  let ?ys = "peer_items ?F ?xs perm" and ?zs = "self_items ?F ?xc \<sigma>"
  have zs: "map (\<lambda>y. (?F y, 0)) (concat yss) = ?zs" by (simp add: ev(2) self_items_def comp_def)
  have y: "distinct (map fst ?ys)" "\<forall>y \<in> set ?ys. snd y < 2 ^ 32" "distinct (map ?F (concat yss))"
  proof -
    have "distinct (map (\<lambda>r. ?F (fst (?xs ! r))) perm)" "distinct (map (\<lambda>r. ?F (fst (?xc ! r))) \<sigma>)"
      using evaluated_distinct [OF inj, of ?xs perm] evaluated_distinct [OF inj, of ?xc \<sigma>] assms(8,9) perm \<sigma> unfolding row_dups_fst(1) by simp_all
    then show "distinct (map fst ?ys)" "distinct (map ?F (concat yss))" by (simp_all add: peer_items_def ev(2) comp_def)
    have "snd (?xs ! r) < 2 ^ 32" if "r \<in> set perm" for r using d(1) that perm(1) nth_mem [of r ?xs] by (metis atLeastLessThan_iff length_map)
    then show "\<forall>y \<in> set ?ys. snd y < 2 ^ 32" by (auto simp: peer_items_def)
  qed
  obtain PJ m where PJ: "Client_Online_recv env cl copy (map (oprf.eval_msg sv cl) yss @ [last_batch]) = Some (Inr (info_of (map (ub_match_of ?zs ?ys) PJ), m))"
    "distinct (map fst PJ)" "distinct (map snd PJ)" "set PJ = equal_places ?zs ?ys" using Online_client_ok [OF pair off(3) y(1-3) assms(18,16)] unfolding zs by blast
  let ?I = "info_of (map (ub_match_of ?zs ?ys) PJ)"
  have s: "Server_Online_result env ?files info (ix_peer_indices ?I, ix_self_indices ?I) = Some (Inr \<lparr> mr_items = match_rows 0 Ks Kc, mr_read_cnt = 0 \<rparr>)" if server_get_result
    by (rule server_reader_ok [OF inj assms(9) perm \<sigma>(1,2) assms(11) d(2) assms(16,17) PJ(3,4)]) (use ev(5) that in blast)
  have c: "Client_Online_reader ?I = Inr \<lparr> mr_items = match_rows 0 Kc Ks, mr_read_cnt = 0 \<rparr>" if client_get_result
    using client_reader_ok [OF inj assms(8) perm(1,2) assms(12) d(1)] PJ(2,4) ev(4) that by simp
  have "UbPsi_online env secret_key private_key server_get_result client_get_result online_shuffle Sorted_ReadNextBatchWithDupCnt pc (?files, copy) =
      Some (Inr (if server_get_result then Some \<lparr> mr_items = match_rows 0 Ks Kc, mr_read_cnt = 0 \<rparr> else None, if client_get_result then Some \<lparr> mr_items = match_rows 0 Kc Ks, mr_read_cnt = 0 \<rparr> else None))"
    using s c by (simp add: UbPsi_online_def send(1) ev(1) PJ(1) obind_Some_Inr)
  then show ?thesis using off(1) by blast
qed

text \<open>A small group in place of a curve: the bytes under addition.\<close>

definition byte_curve :: "8 word CurveLib" where
  "byte_curve = \<lparr> cl_hash_to_curve = (\<lambda>x. of_nat (of_char (hd x))), cl_mul = (\<lambda>k p. Some (p + hd k)), cl_encode = (\<lambda>p. char_of (unat p) # replicate 32 (CHR ''x'')),
     cl_decode = (\<lambda>s. Some (of_nat (of_char (hd s)))), cl_inverse = (\<lambda>k. map uminus k), cl_blake3 = (\<lambda>s. s @ replicate 32 (CHR ''y'')), cl_ssl_hash = (\<lambda>_ s. s) \<rparr>"

definition byte_env :: "8 word UbEnv" where
  "byte_env = \<lparr> ue_lib = (\<lambda>_. byte_curve), ue_avx2 = False, ue_curve = CURVE_SECP256K1, ue_batch_size = 2, ue_threads = 3 \<rparr>"

lemma byte_decode: "of_nat (unat p mod 256) = (p :: 8 word)"
proof -
  have "unat p < 256" using unsigned_less [of p] by simp
  then show ?thesis by simp
qed

lemma byte_curve_ok: "curve_ok kEcPointCompressLength byte_curve"
  by (simp add: curve_ok_def byte_curve_def kEcPointCompressLength_def kEc256CompareLength_def byte_decode add.commute add.left_commute)

lemma byte_curve_key: "curve_key byte_curve (replicate 32 w)"
  by (simp add: curve_key_def byte_curve_def kEccKeySize_def numeral_eq_Suc)

lemma byte_created:
  "\<exists>cl. created_keys byte_env (replicate 32 w) (replicate 32 w') (BasicEcdhOprfServer byte_curve 0 BLAKE3 (replicate 32 w)) cl"
  using byte_curve_ok byte_curve_key [of w] byte_curve_key [of w']
  by (simp add: created_keys_def byte_env_def CreateEcdhOprfServer_def CreateEcdhOprfClient_def BasicEcdhOprfClient_def EccPrivateKeyInv_def enforce_def kEccKeySize_def byte_curve_def)

lemma byte_value:
  "oprf_value (BasicEcdhOprfServer byte_curve 0 BLAKE3 (replicate 32 w)) x = char_of (unat (of_nat (of_char (hd x)) + w)) # replicate 11 (CHR ''x'')"
  by (simp add: oprf_value_def BasicEcdhOprfServer_def ItemMul_def HashItem_def compare_length_or_def kEc256CompareLength_def enforce_def kEccKeySize_def byte_curve_def numeral_eq_Suc)

definition ub_server :: SortedTableKeysInfoProvider where
  "ub_server = \<lparr> sp_batch_size = 2, sp_batch = None, sp_batch_index = 0, sp_reader = [Inr [(''a'', 0, 1), (''b'', 2, 0), (''d'', 3, 0)]] \<rparr>"

definition ub_client :: SortedTableKeysInfoProvider where
  "ub_client = \<lparr> sp_batch_size = 3, sp_batch = None, sp_batch_index = 0, sp_reader = [Inr [(''b'', 0, 4)], Inr [(''c'', 5, 0), (''d'', 6, 2)]] \<rparr>"

theorem UbPsi_tables_correct_witness:
  "\<exists>caches. UbPsi_offline byte_env None (replicate 32 5) (replicate 32 1) [''id''] Sorted_ReadNextBatchWithDupCnt (\<lambda>_. rev) ub_server (None, None) = Some (Inr caches) \<and>
     UbPsi_online byte_env None (replicate 32 9) True False (\<lambda>n. rev [0..<n]) Sorted_ReadNextBatchWithDupCnt ub_client caches =
       Some (Inr (Some \<lparr> mr_items = [(1, 4), (2, 2)], mr_read_cnt = 0 \<rparr>, None))"
proof -
  let ?sv = "BasicEcdhOprfServer byte_curve 0 BLAKE3 (replicate 32 5)"
  let ?Ks = "[(''a'', 0, 1), (''b'', 2, 0), (''d'', 3, 0)] :: key_row list" and ?Kc = "[(''b'', 0, 4), (''c'', 5, 0), (''d'', 6, 2)] :: key_row list"
  obtain cl cl' where c: "created_keys byte_env (replicate 32 5) (replicate 32 1) ?sv cl'" "created_keys byte_env (replicate 32 5) (replicate 32 9) ?sv cl"
    using byte_created by blast
  have p: "Sorted_inv ub_server" "Sorted_remaining ub_server = ?Ks" "Sorted_inv ub_client" "Sorted_remaining ub_client = ?Kc"
    by (simp_all add: Sorted_inv_def Sorted_remaining_def pending_def ub_server_def ub_client_def u32_row_def u32_def)
  have inj: "inj_on (oprf_value ?sv) (fst ` set ?Kc \<union> fst ` set ?Ks)" by (simp add: byte_value inj_on_def)
  have rows: "match_rows 0 ?Ks ?Kc = [(1, 4), (2, 2)]" by (simp add: dup_of_def)
  have "\<exists>caches. UbPsi_offline byte_env None (replicate 32 5) (replicate 32 1) [''id''] Sorted_ReadNextBatchWithDupCnt (\<lambda>_. rev) ub_server (None, None) = Some (Inr caches) \<and>
     UbPsi_online byte_env None (replicate 32 9) True False (\<lambda>n. rev [0..<n]) Sorted_ReadNextBatchWithDupCnt ub_client caches =
       Some (Inr (if True then Some \<lparr> mr_items = match_rows 0 ?Ks ?Kc, mr_read_cnt = 0 \<rparr> else None, if False then Some \<lparr> mr_items = match_rows 0 ?Kc ?Ks, mr_read_cnt = 0 \<rparr> else None))"
    by (rule UbPsi_tables_correct [OF c _ p _ _ inj]) (simp_all add: byte_env_def)
  then show ?thesis unfolding rows by (simp only: if_True if_False)
qed

end
