(* ===== verification/Spec2Isabelle.thy ===== *)
theory Spec2Isabelle
  imports Cuckoo_Index Ecdh_3pc Psi_Party Kkrt_Party Rr22_Runner Nty_Psi Ub_Psi
begin

text \<open>
  A model of the private set intersection (PSI) library under \<open>src/psi\<close>: two parties, each with
  a CSV table, learn which rows have a key that the table of the other has too, and join their
  tables on it.

  \<^bold>\<open>The program.\<close>  A party (\<open>interface.cc\<close>, \<open>AbstractPsiParty\<close>) checks its configuration and that of
  its peer, builds a join processor for its table (\<open>utils/join_processor.cc\<close>), sorts the table
  by its key columns and groups equal keys into rows of key information
  (\<open>utils/table_utils.cc\<close>: key, first line, number of duplicates).  A provider hands these rows
  out in batches (\<open>utils/arrow_csv_batch_provider.cc\<close>, \<open>utils/batch_provider_impl.cc\<close>).  A
  protocol, here ECDH (\<open>algorithm/ecdh/ecdh_psi.cc\<close>), masks the keys of both parties, stores the
  doubly masked points (\<open>utils/ec_point_store.cc\<close>, over \<open>utils/hash_bucket_cache.cc\<close>) and
  writes, for every common key, its position and the number of duplicates of the peer to an index
  file (\<open>utils/index_store.cc\<close>).  The other protocols work bucket by bucket and exchange
  results through \<open>utils/bucket.cc\<close> and \<open>utils/sync.cc\<close>; one of them, KKRT (\<open>algorithm/kkrt\<close>), places the
  items of the receiver in a cuckoo hash table (\<open>utils/cuckoo_index.cc\<close>), encodes every bin by oblivious
  transfer and compares the codes; another, RR22 (\<open>algorithm/rr22\<close>), evaluates a pseudo-random function
  obliviously with the help of a key-value store (\<open>rr22/okvs\<close>) and compares the values.  The
  unbalanced protocol (\<open>algorithm/ecdh/ub_psi\<close>) lets the server evaluate its table once, offline, and the client compare
  its few items online with a copy.  A variant of ECDH (\<open>algorithm/ecdh/ecdh_3pc_psi.cc\<close>) is for three parties.  The multi-party protocol (\<open>algorithm/nty\<close>) intersects the items of three or more
  parties.  At the end the index file is merged with the
  key information (\<open>InterIndexProcessor\<close>, \<open>ResultDumper\<close>, \<open>KeyInfo::ApplyPeerDupCnt\<close>) and the
  join processor assembles the result file.  A recovery manager (\<open>checkpoint/recovery.cc\<close>) keeps
  the progress of a task in a file, so that a task that was stopped resumes.

  \<^bold>\<open>The theories.\<close>
  \<^item> \<open>Prelude\<close>: error values (a failing \<open>YACL_ENFORCE\<close>, a \<open>YACL_THROW\<close>, an index out of range) and
    the result type, shared lemmas on lists, words and \<open>uint32_t\<close> counters.
  \<^item> \<open>Cuckoo_Index\<close>: \<open>CuckooIndex\<close> with its bins, stash and bounded eviction.  Every inserted item
    is found in one of its bins or in the stash, no item is lost by an eviction, the table is
    filled as \<open>SanityCheck\<close> demands, insertion is total.
  \<^item> \<open>Index_Store\<close>: writer and readers of index files; the locale \<open>index_reader\<close> is the contract of a
    reader, interpreted for the file and the memory reader.
  \<^item> \<open>Batch_Provider\<close>, \<open>Batch_Provider_Impl\<close>: \<open>KeysJoin\<close>, the CSV provider with its read-ahead, the
    memory provider and the shuffling provider.  The locale \<open>dup_cnt_provider\<close> is the contract of
    a provider of items with duplicate counts, interpreted for three providers.  A shuffled run
    visits every item once.
  \<^item> \<open>Key_Info\<close>, \<open>Inter_Index\<close>: the grouping of keys, the merge of the index rows with it and the
    writing of the matched and unmatched lines.  The locales are \<open>keys_info_provider\<close> and
    \<open>inter_index\<close>; the merge is proved once against an abstract specification (\<open>inter_spec\<close>,
    \<open>matched_lines\<close>) and holds for each of three pairs of reader and provider.
  \<^item> \<open>Join_Processor\<close>: both constructors, \<open>DealResultIndex\<close> and \<open>GenerateResult\<close>; the results of the
    two parties have the same keys line by line.
  \<^item> \<open>Recovery\<close>: the state machine of the stages, the checkpoint and the private key file; the
    reachable states are an \<open>inductive\<close> relation with the operations in any order and crashes between any two writes.
  \<^item> \<open>Hash_Bucket\<close>: the bucket cache and the bucketed point store, whose intersection is the set
    of common items with the duplicate count of the peer.
  \<^item> \<open>Ecdh_Psi\<close>: the three concurrent activities of a party, the messages between them, resuming
    and the in-memory wrapper.  The locales \<open>ec_point_store\<close> and \<open>ecdh_setting\<close> are interpreted for
    items in memory and for tables with bucketed stores.
  \<^item> \<open>Ecdh_3pc\<close>: the variant for three parties; the master gets its items that both others have, in its order.
  \<^item> \<open>Psi_Party\<close>: \<open>Init\<close>, \<open>Run\<close>, \<open>Finalize\<close>, the configuration checks and the exchange of bucket
    results and bucket numbers.
  \<^item> \<open>Kkrt_Psi\<close>: both sides of \<open>kkrt_psi.cc\<close> on one bucket.  The sender encodes while a second thread
    receives corrections; what it sees of that thread is a schedule, and the result holds for every schedule.
  \<^item> \<open>Kkrt_Party\<close>: \<open>PreProcess\<close>, \<open>Online\<close> and \<open>PostProcess\<close> of the KKRT parties.  The locale \<open>bucket_protocol\<close> is
    what the online phase needs of a protocol on one bucket, interpreted for KKRT.
  \<^item> \<open>Xor_Algebra\<close>, \<open>Galois128\<close>, \<open>Weight_Data\<close>, \<open>Dense_Mtx\<close>, \<open>Paxos_Hash\<close>: what the key-value store of \<open>rr22/okvs\<close> is built
    from.  The field with \<open>2 ^ 128\<close> elements, whose products with and without vector instructions agree; the columns of a
    matrix ordered by weight in linked lists, which refine a set of columns; matrices of bits and their inverse; the rows of keys.
  \<^item> \<open>Paxos\<close> (definitions), \<open>Paxos_Columns\<close>, \<open>Paxos_Triangulate\<close>, \<open>Paxos_Gap\<close>, \<open>Paxos_Encode\<close>, \<open>Paxos_Store\<close>, \<open>Paxos_Decode\<close>: one
    key-value store, by the steps of the encoding.  Triangulation and encoding end, and what is encoded is decoded.
  \<^item> \<open>Okvs\<close>: the locale \<open>okvs\<close> is the contract of a key-value store, interpreted for \<open>Paxos\<close> and for \<open>Baxos\<close>.
  \<^item> \<open>Baxos\<close> (definitions), \<open>Baxos_Bins\<close>, \<open>Baxos_Store\<close>, \<open>Baxos_Okvs\<close>: the store in bins, filled, merged, solved and decoded by
    several threads.  The result does not depend on the number of threads.
  \<^item> \<open>Rr22_Oprf\<close> (definitions), \<open>Rr22_Oprf_Fast\<close>, \<open>Rr22_Oprf_Low\<close>: the oblivious evaluation.  In fast mode both parties get the
    same value for a common input; in low-communication mode an input can get two values, depending on its place.
  \<^item> \<open>Rr22_Utils\<close>, \<open>Rr22_Psi\<close>, \<open>Rr22_Runner\<close>: the comparison of the truncated values, one bucket, the parties, and the pipeline of
    three threads per party as a step relation.  The locale \<open>bucket_protocol\<close> is interpreted for RR22 too.  The pipeline
    ends under every interleaving, unless preparing a bucket throws: then it never returns.
  \<^item> \<open>Nty_Psi\<close>: the multi-party protocol.  The result holds every item that all parties have.
  \<^item> \<open>Ub_Oprf\<close>, \<open>Ub_Cache\<close>, \<open>Ub_Psi\<close>: the oblivious function of the unbalanced protocol, the cache of the server and the stores
    of the client, the offline and the online phase.  The locale \<open>oprf\<close> is the contract of a server and a client of the
    function, interpreted for the objects that the selector creates, on every curve.  The relation \<open>reads\<close> says which
    batches a loop over a provider sees; it holds for every provider of the locale \<open>dup_cnt_provider\<close>.
  \<^item> this theory: the composition.  From the key information of two tables to the result file of
    each party, the keys of the result are those of the SQL inner join with their multiplicities.

  \<^bold>\<open>Data and effects.\<close>  A C++ object is a record, passed and returned; a file is the list of its
  rows or lines; a raised exception is an \<open>Inl\<close> value.  The \<open>uint32_t\<close> counters and line numbers of the tables, of
  the join and of the bucketed stores are natural numbers reduced modulo \<open>2 ^ 32\<close> where the code does it
  (\<open>u32\<close>), and the theorems say for which table sizes they are exact; values whose width matters
  (checkpoint counters, hashes, digests, bin indices) are words; \<open>size_t\<close> positions are \<open>nat\<close>, which is the code
  as long as they stay below \<open>2 ^ 64\<close>.  A loop over a provider may run as
  long as the provider gives data, so it is a \<open>partial_function (option)\<close>: \<open>None\<close> is a run that
  does not return, and the theorems state that \<open>Some\<close> result comes out.  No fuel is used; the
  bound on evictions in \<open>Cuckoo_Index\<close> is the one of the source.  The activities of
  the ECDH protocol run in threads of their own and meet only through ordered channels, so a run is
  the list of messages of each activity, consumed by the activity of the other party.

  \<^bold>\<open>What is assumed.\<close>  Code outside \<open>src/\<close> is a parameter: the elliptic curve group (masking
  commutes between the parties, and doubly masked points of different items differ, also when
  shortened to the comparison length), the curve libraries of the unbalanced protocol (multiplying by a key and by its inverse
  gives the point back, encoded points are decoded), hash functions, the serialisation of messages (it round
  trips), the OT extension of KKRT (both sides compute the same code of an item in a bin, and the codes of
  different items differ), the block cipher and the random oracle of RR22, the correlation of the vector oblivious linear
  evaluation, the shuffle of the standard library (it permutes), the sort of the \<open>sort\<close> program, the
  reader of CSV files (its batches have the rows of the file), \<open>dense_hash_map\<close> (it finds what was inserted, and has one reserved key),
  \<open>parallel_for\<close> (its ranges cover the work once), \<open>libdivide\<close> (it divides), the vector instructions (their documented effect on the lanes),
  and every size that is computed in floating point (expansion factors, bin sizes, logarithms).  Random values are
  arguments.  \<open>memcpy\<close> reads all bytes before it writes one.  Each property that needs one of these states it as a hypothesis and
  has a witness with a concrete instance.

  \<^bold>\<open>What is not modelled.\<close>  Private information retrieval (\<open>spiral\<close>, \<open>sealpir\<close>, \<open>dkpir\<close>, the \<open>apsi\<close>
  wrapper), which shares no code with the intersection protocols and rests on lattice schemes of its own or of other
  libraries; the \<open>legacy\<close> operators other than that of the three-party ECDH variant; the concrete curves (bindings of libraries);
  the functions that only tests call (\<open>GetIndicesByItems\<close>, \<open>RecvIntersectionMaskedItems\<close>, \<open>SendIntersectionMaskedItems\<close>); applications,
  logging, progress reporting and storage paths.  Of security, only what the parties compute is stated, not what they learn.
\<close>

section \<open>The ECDH protocol from tables to the result file\<close>

lemma match_rows_filter:
  "match_rows i K K' = List.map_filter (\<lambda>(i, k, _). map_option (Pair i) (dup_of K' k)) (enumerate i K)"
  by (induction i K K' rule: match_rows.induct) (auto simp: map_filter_simps split: option.splits)

lemma matched_lines_subset: "set (matched_lines R los) \<subseteq> set (map fst los)"
  by (force simp: matched_lines_def split: option.splits)

text \<open>What \<open>Finalize\<close> makes of the rows of a correct intersection, for an inner join without resorting.\<close>

lemma Finalize_inner_join:
  assumes w: "\<not> iw_closed (py_writer p)" "iw_cache (py_writer p) = []" "sort_key fst (iw_file (py_writer p)) = match_rows 0 K K'"
    and b: "\<And>rows. stream_ok (batches rows) \<and> stream_rows (batches rows) = rows"
    and q: "Sorted_inv q" "Sorted_remaining q = K" "starts_from 0 K" "map keyf ls = expand_keys K"
    and jp: "JoinProcessor_new rand root cfg = Inr jp" "join_type (pc_join_type cfg) = INNER_JOIN" "\<not> jp_is_input_key_unique jp"
    and cols: "columns \<noteq> []" and role: "role = ROLE_RECEIVER \<or> pp_broadcast_result (py_config p)"
    and small: "length ls < 2 ^ 32" "\<forall>row \<in> set K'. snd (snd row) < 2 ^ 32"
  shows "\<exists>rep h body. AbstractPsiParty_Finalize batches Sorted_ReadBatchWithInfo jp columns (header # ls) q role peer_lines p =
       Some (Inr (rep, Some (h # body))) \<and> set body \<subseteq> set ls \<and>
     map keyf body = concat (map (\<lambda>(k, s, d). case dup_of K' k of None \<Rightarrow> [] | Some d' \<Rightarrow> replicate ((d + 1) * (d' + 1)) k) K) \<and>
     rp_intersection_key_count rep = int (length (filter (\<lambda>(k, _). k \<in> fst ` set K') K))"
proof -
  let ?R = "match_rows 0 K K'"
  let ?r = "\<lparr> fr_reader = batches ?R, fr_batch = None, fr_idx_in_batch = 0, fr_read_cnt = 0 \<rparr>"
  let ?D = "ResultDumper_new True False"
  have close: "\<exists>w'. IndexWriter_Close (py_writer p) = Inr w' \<and> iw_file w' = iw_file (py_writer p)"
    using w(1,2) by (simp add: IndexWriter_Close_def IndexWriter_Commit_def)
  have r: "FileIndexReader_inv ?r" "FileIndexReader_remaining ?r = ?R"
    using b by (simp_all add: FileIndexReader_inv_def FileIndexReader_remaining_def)
  have len: "length ls = length (expand_keys K)" by (metis length_map q(4))
  have ap: "applied ?R K header ls ?D (ApplyPeerDupCnt FileIndexReader_GetNextWithPeerCnt Sorted_ReadBatchWithInfo (header # ls) ?r q ?D)"
    using file_sorted.applied_spec [OF r(1) q(1), of ls header ?D] match_rows_ascending [OF small(2), of 0 K] q(2,3) len r(2) small(1) by auto
  note jf = JoinProcessor_new_facts [OF jp(1)]
  have paths: "jp_sorted_intersect_path jp \<noteq> []" "jp_sorted_except_path jp = []" "jp_type jp = INNER_JOIN"
    using jf jp(2) by (simp_all add: except_wanted_def)
  let ?body = "matched_lines ?R (zip ls (owners 0 K))"
  obtain stat d' where st: "ApplyPeerDupCnt FileIndexReader_GetNextWithPeerCnt Sorted_ReadBatchWithInfo (header # ls) ?r q ?D = Some (Inr (stat, d'))"
    "intersect_file d' = Some (header # ?body)" "except_file d' = None" "inter_unique_cnt stat = length ?R"
    using ap by (auto simp: applied_def Let_def ResultDumper_new_def)
  have "map keyf ?body = concat (map (\<lambda>(k, s, d). case dup_of K' k of None \<Rightarrow> [] | Some d' \<Rightarrow> replicate ((d + 1) * (d' + 1)) k) K)"
    unfolding matched_lines_map [symmetric] q(4) matched_keys ..
  moreover have "set ?body \<subseteq> set ls"
    using matched_lines_subset [of ?R "zip ls (owners 0 K)"] set_zip_leftD by fastforce
  moreover have "length (match_rows i K K') = length (filter (\<lambda>(k, _). k \<in> fst ` set K') K)" for i
  proof (induction i K K' rule: match_rows.induct)
    case (2 i k s d K K')
    then show ?case using dup_of_None [of K' k] by (cases "dup_of K' k") auto
  qed simp
  moreover obtain c cs where "columns = c # cs" using cols by (meson neq_Nil_conv)
  ultimately show ?thesis
    using close w(3) st paths jp(3) role
    by (auto simp: AbstractPsiParty_Finalize_def FileIndexReader_new_def DealResultIndex_def GenerateResult_def
        write_output_def Let_def)
qed

lemma key_multiplicity:
  assumes "distinct (map fst K)"
  shows "length (filter (\<lambda>k'. k' = k) (expand_keys K)) = (case dup_of K k of None \<Rightarrow> 0 | Some d \<Rightarrow> d + 1)"
  using assms
proof (induction K)
  case (Cons row K)
  obtain k' s d where row: "row = (k', s, d)" by (cases row)
  have "k' = k \<Longrightarrow> dup_of K k = None" using Cons.prems by (simp add: row dup_of_None)
  then show ?case
    using Cons by (cases "k' = k") (auto simp: row expand_keys_def dup_of_def)
qed (simp add: expand_keys_def dup_of_def)

text \<open>
  C1. The ECDH protocol as a whole, for an inner join of tables with duplicate keys and fewer than $2^{32}$ own lines: the run of both
  parties terminates without error, the indices of the matches are written, sorted and read back,
  and the result file of the party consists, after the header, of its own table lines only, in table
  order, where a line with key \<open>k\<close> occurs once for every row of the other table with key \<open>k\<close>: the keys
  of the result are those of the SQL inner join with their multiplicities.
\<close>

theorem ecdh_inner_join_result:
  assumes "paired L oa ob" "SelfCanTouchResults oa" "codec_ok c" "0 < n"
    and "Sorted_inv pa" "Sorted_inv pb" "Sorted_remaining pa = Ka" "Sorted_remaining pb = Kb"
    and "inj_on (pair_mask oa ob) (fst ` set Ka \<union> fst ` set Kb)"
    and "HashBucketCache_new [] n = Inr s" "fresh_state s sa" "fresh_state s sb"
    and "starts_from 0 Ka" "distinct (map fst Kb)" "map keya lsa = expand_keys Ka" "\<And>rows. stream_ok (batches rows) \<and> stream_rows (batches rows) = rows"
    and "JoinProcessor_new rand root cfg = Inr jp" "join_type (pc_join_type cfg) = INNER_JOIN" "\<not> jp_is_input_key_unique jp"
    and "columns \<noteq> []" "role = ROLE_RECEIVER \<or> pp_broadcast_result (py_config p)"
    and "py_writer p = IndexWriter_new existing kIndexWriterCacheSize True" "length lsa < 2 ^ 32"
  shows "\<exists>ra rb total matched w' rep h body.
     RunEcdhPsi_pair (EcPointStore_Save c) hb_item_index Sorted_ReadNextBatchWithDupCnt oa pa sa ob pb sb = Some (Inr (ra, rb)) \<and>
     FinalizeAndWriteIndices c (es_self ra) (es_peer ra) (py_writer p) = Inr (total, matched, w') \<and>
     AbstractPsiParty_Finalize batches Sorted_ReadBatchWithInfo jp columns (header # lsa) pa role peer_lines (p \<lparr> py_writer := w' \<rparr>) =
       Some (Inr (rep, Some (h # body))) \<and>
     set body \<subseteq> set lsa \<and>
     map keya body = concat (map (\<lambda>(k, _, d). replicate ((d + 1) * length (filter (\<lambda>k'. k' = k) (expand_keys Kb))) k) Ka) \<and>
     rp_intersection_key_count rep = int (length (filter (\<lambda>(k, _). k \<in> fst ` set Kb) Ka))"
proof -
  let ?w = "py_writer p"
  have w: "\<not> iw_closed ?w" "iw_cache ?w = []" "iw_cache_cnt ?w = 0" "iw_file ?w = []"
    using assms(22) by (simp_all add: IndexWriter_new_def)
  obtain ra rb total matched w' where run:
    "RunEcdhPsi_pair (EcPointStore_Save c) hb_item_index Sorted_ReadNextBatchWithDupCnt oa pa sa ob pb sb = Some (Inr (ra, rb))"
    "FinalizeAndWriteIndices c (es_self ra) (es_peer ra) ?w = Inr (total, matched, w')"
    "\<not> iw_closed w'" "iw_cache w' = []" "sort_key fst (iw_file w') = match_rows 0 Ka Kb"
    using RunEcdhPsi_tables_rows [OF assms(1-6) assms(9) [folded assms(7,8)] assms(10-12) w] assms(7,8)
    unfolding match_rows_filter dup_of_def by blast
  let ?p = "p \<lparr> py_writer := w' \<rparr>"
  have "(case dup_of Kb k of None \<Rightarrow> [] | Some d' \<Rightarrow> replicate ((d + 1) * (d' + 1)) k) =
      replicate ((d + 1) * length (filter (\<lambda>k'. k' = k) (expand_keys Kb))) k" for k :: string and d
    by (simp add: key_multiplicity [OF assms(14)] split: option.splits)
  moreover have "\<forall>row \<in> set Kb. snd (snd row) < 2 ^ 32" using Sorted_remaining_u32 assms(8) by blast
  ultimately show ?thesis
    using Finalize_inner_join [of ?p Ka Kb batches pa keya lsa rand root cfg jp columns role header peer_lines]
      run assms(5,7,13,15-21,23) by auto
qed

definition example_a :: SortedTableKeysInfoProvider where
  "example_a = \<lparr> sp_batch_size = 2, sp_batch = None, sp_batch_index = 0,
     sp_reader = [Inr [(''a'', 0, 0), (''bb'', 1, 0), (''ccc'', 2, 1)]] \<rparr>"

definition example_b :: SortedTableKeysInfoProvider where
  "example_b = \<lparr> sp_batch_size = 3, sp_batch = None, sp_batch_index = 0,
     sp_reader = [Inr [(''a'', 0, 1)], Inr [(''ccc'', 2, 0)]] \<rparr>"

definition example_party :: PsiParty where
  "example_party = \<lparr> py_config = digest_cfg ROLE_RECEIVER, py_digest_equal = False,
     py_writer = IndexWriter_new None kIndexWriterCacheSize True, py_recovery = None \<rparr>"

definition example_state :: "HashBucketCache \<Rightarrow> (HashBucketCache, unit) ecdh_state" where
  "example_state s = \<lparr> es_self = s, es_peer = s, es_recovery = None \<rparr>"

theorem ecdh_inner_join_result_witness:
  "\<exists>s jp ra rb total matched w' rep h body. HashBucketCache_new [] 2 = Inr s \<and>
     JoinProcessor_new ''x'' ''d'' ((PsiConfig.truncate (digest_cfg ROLE_RECEIVER)) \<lparr> pc_keys_unique := False \<rparr>) = Inr jp \<and>
     RunEcdhPsi_pair (EcPointStore_Save unary_codec) hb_item_index Sorted_ReadNextBatchWithDupCnt
       (byte_options 0 None [7]) example_a (example_state s) (byte_options 1 None [9]) example_b (example_state s) = Some (Inr (ra, rb)) \<and>
     FinalizeAndWriteIndices unary_codec (es_self ra) (es_peer ra) (py_writer example_party) = Inr (total, matched, w') \<and>
     AbstractPsiParty_Finalize (\<lambda>rows. if rows = [] then [] else [Inr rows]) Sorted_ReadBatchWithInfo jp [''id'', ''v'']
       [''id,v'', ''a,1'', ''bb,2'', ''ccc,3'', ''ccc,4''] example_a ROLE_RECEIVER 3 (example_party \<lparr> py_writer := w' \<rparr>) =
       Some (Inr (rep, Some (h # body))) \<and>
     map (takeWhile (\<lambda>ch. ch \<noteq> CHR '','')) body = [''a'', ''a'', ''ccc'', ''ccc''] \<and> rp_intersection_key_count rep = 2"
proof -
  obtain s where s: "HashBucketCache_new [] 2 = Inr s" by (simp add: HashBucketCache_new_def)
  let ?cfg = "(PsiConfig.truncate (digest_cfg ROLE_RECEIVER)) \<lparr> pc_keys_unique := False \<rparr>"
  obtain jp where jp: "JoinProcessor_new ''x'' ''d'' ?cfg = Inr jp" "\<not> jp_is_input_key_unique jp"
    by (simp add: JoinProcessor_new_def digest_cfg_def PsiConfig.truncate_def join_type_def Let_def)
  have rem: "Sorted_remaining example_a = [(''a'', 0, 0), (''bb'', 1, 0), (''ccc'', 2, 1)]" "Sorted_remaining example_b = [(''a'', 0, 1), (''ccc'', 2, 0)]"
    by (simp_all add: Sorted_remaining_def pending_def example_a_def example_b_def u32_row_def u32_def)
  have inv: "Sorted_inv example_a" "Sorted_inv example_b" by (simp_all add: Sorted_inv_def example_a_def example_b_def)
  have inj: "inj_on (pair_mask (byte_options 0 None [7]) (byte_options 1 None [9]))
      (fst ` set [(''a'', 0::nat, 0::nat), (''bb'', 1, 0), (''ccc'', 2, 1)] \<union> fst ` set [(''a'', 0::nat, 1::nat), (''ccc'', 2, 0)])"
    by (rule byte_inj) auto
  have fresh: "fresh_state s (example_state s)" by (simp add: fresh_state_def example_state_def)
  have self: "SelfCanTouchResults (byte_options 0 None [7])" by (simp add: SelfCanTouchResults_def byte_options_def)
  have join: "join_type (pc_join_type ?cfg) = INNER_JOIN" by (simp add: digest_cfg_def PsiConfig.truncate_def join_type_def)
  have wr: "py_writer example_party = IndexWriter_new None kIndexWriterCacheSize True" by (simp add: example_party_def)
  have str: "stream_ok (if rows = [] then [] else [Inr rows]) \<and> stream_rows (if rows = [] then [] else [Inr rows]) = rows" for rows :: "index_row list"
    by simp
  have small: "length [''a,1'', ''bb,2'', ''ccc,3'', ''ccc,4''] < 2 ^ 32" by simp
  from ecdh_inner_join_result [OF byte_paired self unary_codec_ok _ inv rem inj s fresh fresh _ _ _ str jp(1) join jp(2) _ _ wr small,
      of "takeWhile (\<lambda>ch. ch \<noteq> CHR '','')" "[''id'', ''v'']" ROLE_RECEIVER "''id,v''" 3]
  obtain ra rb total matched w' rep h body where r:
    "RunEcdhPsi_pair (EcPointStore_Save unary_codec) hb_item_index Sorted_ReadNextBatchWithDupCnt
       (byte_options 0 None [7]) example_a (example_state s) (byte_options 1 None [9]) example_b (example_state s) = Some (Inr (ra, rb))"
    "FinalizeAndWriteIndices unary_codec (es_self ra) (es_peer ra) (py_writer example_party) = Inr (total, matched, w')"
    "AbstractPsiParty_Finalize (\<lambda>rows. if rows = [] then [] else [Inr rows]) Sorted_ReadBatchWithInfo jp [''id'', ''v'']
       [''id,v'', ''a,1'', ''bb,2'', ''ccc,3'', ''ccc,4''] example_a ROLE_RECEIVER 3 (example_party \<lparr> py_writer := w' \<rparr>) =
       Some (Inr (rep, Some (h # body)))"
    "map (takeWhile (\<lambda>ch. ch \<noteq> CHR '','')) body = [''a'', ''a'', ''ccc'', ''ccc'']" "rp_intersection_key_count rep = 2"
    by (auto simp: expand_keys_def numeral_2_eq_2)
  with s jp(1) show ?thesis by (intro exI conjI)
qed

section \<open>The KKRT protocol from tables to the result file\<close>

lemma store_matches_match_rows: "store_matches (keys_dup K) (keys_dup K') = match_rows 0 K K'"
proof -
  have "List.map_filter (\<lambda>(i, d, n). map_option (Pair i) (dup_of K' d)) (enumerate i (keys_dup K)) = match_rows i K K'" for i
    by (induction i K K' rule: match_rows.induct) (auto simp: map_filter_simps split: option.splits)
  then show ?thesis by (simp add: store_matches_def dup_of_def)
qed

text \<open>The facts about the tables in the form in which the bucket protocols need them.\<close>

lemma table_keys:
  assumes "Sorted_remaining pa = Ka" "Sorted_remaining pb = Kb" "distinct (map fst Ka)" "distinct (map fst Kb)"
    and "inj_on blake3 (b64 c ` fst ` set Ka \<union> b64 c ` fst ` set Kb)" "NegotiateBucketNum (length Ka) [length Ka, length Kb] bucket_size = Inr n"
  shows "keys_dup Ka = keys_dup (Sorted_remaining pa)" "keys_dup Kb = keys_dup (Sorted_remaining pb)"
    "distinct (map fst (keys_dup Ka))" "distinct (map fst (keys_dup Kb))"
    "inj_on blake3 (b64 c ` fst ` set (keys_dup Ka) \<union> b64 c ` fst ` set (keys_dup Kb))"
    "NegotiateBucketNum (length (keys_dup Ka)) [length (keys_dup Ka), length (keys_dup Kb)] bucket_size = Inr n"
proof -
  have img: "map fst (keys_dup K) = map fst K" "fst ` set (keys_dup K) = fst ` set K" for K :: "key_row list"
    by (simp_all add: image_image case_prod_unfold)
  show "distinct (map fst (keys_dup Ka))" "distinct (map fst (keys_dup Kb))"
    "inj_on blake3 (b64 c ` fst ` set (keys_dup Ka) \<union> b64 c ` fst ` set (keys_dup Kb))"
    unfolding img by fact+
qed (use assms in simp_all)

lemma new_writer: "py_writer p = IndexWriter_new existing kIndexWriterCacheSize True \<Longrightarrow> writer_clean (py_writer p)"
  "py_writer p = IndexWriter_new existing kIndexWriterCacheSize True \<Longrightarrow> iw_file (py_writer p) = []"
  by (simp_all add: IndexWriter_new_def writer_clean_def)

text \<open>The end of every bucket protocol: the index rows of the matches become the result file.\<close>

lemma inner_join_of_rows:
  assumes "sort_key fst (iw_file w) = store_matches (keys_dup Ka) (keys_dup Kb)" "writer_clean w"
    and "Sorted_inv pa" "Sorted_remaining pa = Ka" "distinct (map fst Kb)" "starts_from 0 Ka" "map keya lsa = expand_keys Ka"
    and "\<And>rows. stream_ok (batches rows) \<and> stream_rows (batches rows) = rows"
    and "JoinProcessor_new rand root cfg = Inr jp" "join_type (pc_join_type cfg) = INNER_JOIN" "\<not> jp_is_input_key_unique jp" "columns \<noteq> []"
    and "length lsa < 2 ^ 32" "Sorted_remaining pb = Kb"
  shows "\<exists>rep h body. AbstractPsiParty_Finalize batches Sorted_ReadBatchWithInfo jp columns (header # lsa) pa ROLE_RECEIVER peer_lines (p \<lparr> py_writer := w \<rparr>) =
       Some (Inr (rep, Some (h # body))) \<and>
     set body \<subseteq> set lsa \<and>
     map keya body = concat (map (\<lambda>(k, _, d). replicate ((d + 1) * length (filter (\<lambda>k'. k' = k) (expand_keys Kb))) k) Ka) \<and>
     rp_intersection_key_count rep = int (length (filter (\<lambda>(k, _). k \<in> fst ` set Kb) Ka))"
proof -
  have "(case dup_of Kb k of None \<Rightarrow> [] | Some d' \<Rightarrow> replicate ((d + 1) * (d' + 1)) k) =
      replicate ((d + 1) * length (filter (\<lambda>k'. k' = k) (expand_keys Kb))) k" for k :: string and d
    by (simp add: key_multiplicity [OF assms(5)] split: option.splits)
  moreover have "\<forall>row \<in> set Kb. snd (snd row) < 2 ^ 32" using Sorted_remaining_u32 assms(14) by blast
  ultimately show ?thesis
    using Finalize_inner_join [of "p \<lparr> py_writer := w \<rparr>" Ka Kb batches pa keya lsa rand root cfg jp columns ROLE_RECEIVER header peer_lines]
      assms unfolding store_matches_match_rows by (auto simp: writer_clean_def)
qed

text \<open>
  C3. The KKRT protocol as a whole, for an inner join without recovery of a table of fewer than $2^{32}$ lines: pre-processing and the bucket-wise
  online phase of both parties end without error, and from the index rows of the receiver \<open>Finalize\<close> makes a result
  file of its own table lines, in table order, in which a line with key \<open>k\<close> occurs once for every row
  of the sender's table with key \<open>k\<close>.
\<close>

theorem kkrt_inner_join_result:
  assumes "codec_ok c" "0 < bucket_size" "Sorted_inv pa" "Sorted_inv pb" "Sorted_remaining pa = Ka" "Sorted_remaining pb = Kb"
    and "distinct (map fst Ka)" "distinct (map fst Kb)" "starts_from 0 Ka" "map keya lsa = expand_keys Ka"
    and "inj_on blake3 (b64 c ` fst ` set Ka \<union> b64 c ` fst ` set Kb)"
    and "NegotiateBucketNum (length Ka) [length Ka, length Kb] bucket_size = Inr n"
    and "buckets_good (\<lambda>b. kkrt_good expansion log2l (ot b) (F b) (perm b) (fill b) (obs b)) c blake3 n (keys_dup Ka) (keys_dup Kb)"
    and "\<And>rows. stream_ok (batches rows) \<and> stream_rows (batches rows) = rows"
    and "JoinProcessor_new rand root cfg = Inr jp" "join_type (pc_join_type cfg) = INNER_JOIN" "\<not> jp_is_input_key_unique jp" "columns \<noteq> []"
    and "py_writer p = IndexWriter_new existing kIndexWriterCacheSize True" "writer_clean wb" "iw_file wb = []" "length lsa < 2 ^ 32"
  shows "\<exists>(r :: 'c KkrtParty) s r' s' rep h body.
     Kkrt_PreProcess c Sorted_ReadNextBatchWithDupCnt pa (length Ka) [length Ka, length Kb] bucket_size (fresh_party (py_writer p)) = Some (Inr r) \<and>
     Kkrt_PreProcess c Sorted_ReadNextBatchWithDupCnt pb (length Kb) [length Ka, length Kb] bucket_size (fresh_party wb) = Some (Inr s) \<and>
     Kkrt_Online c blake3 (kkrt_run expansion log2l ot perm fill buf0 obs) broadcast (r, s) = Some (Inr (r', s')) \<and>
     AbstractPsiParty_Finalize batches Sorted_ReadBatchWithInfo jp columns (header # lsa) pa ROLE_RECEIVER peer_lines (p \<lparr> py_writer := kp_writer r' \<rparr>) =
       Some (Inr (rep, Some (h # body))) \<and>
     set body \<subseteq> set lsa \<and>
     map keya body = concat (map (\<lambda>(k, _, d). replicate ((d + 1) * length (filter (\<lambda>k'. k' = k) (expand_keys Kb))) k) Ka) \<and>
     rp_intersection_key_count rep = int (length (filter (\<lambda>(k, _). k \<in> fst ` set Kb) Ka))"
proof -
  note tk = table_keys [OF assms(5-8,11,12)] and w = new_writer [OF assms(19)]
  obtain r :: "'c KkrtParty" and s r' s' where run:
    "Kkrt_PreProcess c Sorted_ReadNextBatchWithDupCnt pa (length Ka) [length Ka, length Kb] bucket_size (fresh_party (py_writer p)) = Some (Inr r)"
    "Kkrt_PreProcess c Sorted_ReadNextBatchWithDupCnt pb (length Kb) [length Ka, length Kb] bucket_size (fresh_party wb) = Some (Inr s)"
    "Kkrt_Online c blake3 (kkrt_run expansion log2l ot perm fill buf0 obs) broadcast (r, s) = Some (Inr (r', s'))"
    "sort_key fst (iw_file (kp_writer r')) = store_matches (keys_dup Ka) (keys_dup Kb)" "writer_clean (kp_writer r')"
    using Kkrt_tables_rows [OF assms(1-4) tk assms(13) w assms(20,21), of buf0 broadcast, where 'c = 'c] unfolding length_map by blast
  from inner_join_of_rows [OF run(4,5) assms(3,5,8-10,14-18,22,6)] show ?thesis using run(1-3) by blast
qed

text \<open>The facts about the example tables that the witnesses of the bucket protocols share.\<close>

abbreviation (input) example_Ka :: "key_row list" where
  "example_Ka \<equiv> [(''a'', 0, 0), (''bb'', 1, 0), (''ccc'', 2, 1)]"

abbreviation (input) example_Kb :: "key_row list" where
  "example_Kb \<equiv> [(''a'', 0, 1), (''ccc'', 2, 0)]"

lemma example_providers: "Sorted_inv example_a" "Sorted_inv example_b"
  "Sorted_remaining example_a = example_Ka" "Sorted_remaining example_b = example_Kb"
  by (simp_all add: Sorted_inv_def Sorted_remaining_def pending_def example_a_def example_b_def u32_row_def u32_def)

lemma example_keys:
  "distinct (map fst example_Ka)" "distinct (map fst example_Kb)" "starts_from 0 example_Ka"
  "map (takeWhile (\<lambda>ch. ch \<noteq> CHR '','')) [''a,1'', ''bb,2'', ''ccc,3'', ''ccc,4''] = expand_keys example_Ka"
  "NegotiateBucketNum (length example_Ka) [length example_Ka, length example_Kb] 8 = Inr 1"
  by (simp_all add: NegotiateBucketNum_def expand_keys_def numeral_2_eq_2)

lemmas example_tables = example_providers example_keys

lemma example_joined:
  "length example_Ka = 3" "length example_Kb = 2"
  "concat (map (\<lambda>(k, _, d). replicate ((d + 1) * length (filter (\<lambda>k'. k' = k) (expand_keys example_Kb))) k) example_Ka) = [''a'', ''a'', ''ccc'', ''ccc'']"
  "int (length (filter (\<lambda>(k, _). k \<in> fst ` set example_Kb) example_Ka)) = 2"
  by (simp_all add: expand_keys_def numeral_2_eq_2)

lemma example_join:
  "\<exists>jp. JoinProcessor_new ''x'' ''d'' ((PsiConfig.truncate (digest_cfg ROLE_RECEIVER)) \<lparr> pc_keys_unique := False \<rparr>) = Inr jp \<and> \<not> jp_is_input_key_unique jp"
  "join_type (pc_join_type ((PsiConfig.truncate (digest_cfg ROLE_RECEIVER)) \<lparr> pc_keys_unique := False \<rparr>)) = INNER_JOIN"
  "[''id'', ''v''] \<noteq> []" "py_writer example_party = IndexWriter_new None kIndexWriterCacheSize True"
  "writer_clean (IndexWriter_new None 9 True)" "iw_file (IndexWriter_new None 9 True) = []" "0 < (8 :: nat)"
  "stream_ok (if rows = [] then [] else [Inr rows]) \<and> stream_rows (if rows = [] then [] else [Inr (rows :: index_row list)]) = rows"
  "length [''a,1'', ''bb,2'', ''ccc,3'', ''ccc,4''] < 2 ^ 32"
  by (simp_all add: JoinProcessor_new_def digest_cfg_def PsiConfig.truncate_def join_type_def Let_def example_party_def writer_clean_def IndexWriter_new_def)

theorem kkrt_inner_join_result_witness:
  "\<exists>jp (r :: unit KkrtParty) s r' s' rep h body.
     JoinProcessor_new ''x'' ''d'' ((PsiConfig.truncate (digest_cfg ROLE_RECEIVER)) \<lparr> pc_keys_unique := False \<rparr>) = Inr jp \<and>
     Kkrt_PreProcess unary_codec Sorted_ReadNextBatchWithDupCnt example_a 3 [3, 2] 8 (fresh_party (py_writer example_party)) = Some (Inr r) \<and>
     Kkrt_PreProcess unary_codec Sorted_ReadNextBatchWithDupCnt example_b 2 [3, 2] 8 (fresh_party (IndexWriter_new None 9 True)) = Some (Inr s) \<and>
     Kkrt_Online unary_codec length_hash (kkrt_run example_expansion (\<lambda>_. 2) (\<lambda>_. clear_ot) (\<lambda>_. [1, 0]) (\<lambda>_ k. replicate 6 (CHR ''?'')) (\<lambda>_ _. []) (\<lambda>_. [0, 1]))
       True (r, s) = Some (Inr (r', s')) \<and>
     AbstractPsiParty_Finalize (\<lambda>rows. if rows = [] then [] else [Inr rows]) Sorted_ReadBatchWithInfo jp [''id'', ''v'']
       [''id,v'', ''a,1'', ''bb,2'', ''ccc,3'', ''ccc,4''] example_a ROLE_RECEIVER 3 (example_party \<lparr> py_writer := kp_writer r' \<rparr>) =
       Some (Inr (rep, Some (h # body))) \<and>
     map (takeWhile (\<lambda>ch. ch \<noteq> CHR '','')) body = [''a'', ''a'', ''ccc'', ''ccc''] \<and> rp_intersection_key_count rep = 2"
proof -
  obtain jp where jp: "JoinProcessor_new ''x'' ''d'' ((PsiConfig.truncate (digest_cfg ROLE_RECEIVER)) \<lparr> pc_keys_unique := False \<rparr>) = Inr jp" "\<not> jp_is_input_key_unique jp"
    using example_join(1) by blast
  have inj: "inj_on length_hash (b64 unary_codec ` fst ` set example_Ka \<union> b64 unary_codec ` fst ` set example_Kb)"
    by (auto simp: unary_codec_def length_hash_def)
  have good: "buckets_good (\<lambda>b. kkrt_good example_expansion (\<lambda>_. 2) clear_ot clear_code [1, 0] (\<lambda>k. replicate 6 (CHR ''?'')) [0, 1])
      unary_codec length_hash 1 (keys_dup example_Ka) (keys_dup example_Kb)"
    using example_buckets_good by simp
  from kkrt_inner_join_result [OF unary_codec_ok example_join(7) example_tables(1-8) inj example_tables(9) good example_join(8) jp(1) example_join(2) jp(2) example_join(3-6,9),
      of "\<lambda>_ _. []" True "''id,v''" 3, where 'c = unit]
  show ?thesis unfolding example_joined using jp(1) by (elim exE conjE) (intro exI conjI)
qed

section \<open>The RR22 protocol from tables to the result file\<close>

text \<open>
  C4. The RR22 protocol as a whole, for an inner join without recovery of a table of fewer than $2^{32}$ lines: pre-processing and the online phase of both parties end without error, through the key-value
  store, the oblivious evaluation and the comparison of truncated values of every bucket, and from the index rows of the receiver \<open>Finalize\<close> makes a result file of its own table
  lines, in table order, in which a line with key \<open>k\<close> occurs once for every row of the sender's table with key \<open>k\<close>.
\<close>

theorem rr22_inner_join_result:
  assumes "codec_ok c" "0 < bucket_size" "Sorted_inv pa" "Sorted_inv pb" "Sorted_remaining pa = Ka" "Sorted_remaining pb = Kb"
    and "distinct (map fst Ka)" "distinct (map fst Kb)" "starts_from 0 Ka" "map keya lsa = expand_keys Ka"
    and "inj_on (re_blake3 env) (b64 c ` fst ` set Ka \<union> b64 c ` fst ` set Kb)"
    and "NegotiateBucketNum (length Ka) [length Ka, length Kb] bucket_size = Inr n"
    and "dense_ok (re_dense env)" "split_ok (re_split env)"
    and "GenerateRr22PsiOptions procs low = Inr options" "rr22_buckets_good c env options rnd n (keys_dup Ka) (keys_dup Kb)"
    and "\<And>rows. stream_ok (batches rows) \<and> stream_rows (batches rows) = rows"
    and "JoinProcessor_new rand root cfg = Inr jp" "join_type (pc_join_type cfg) = INNER_JOIN" "\<not> jp_is_input_key_unique jp" "columns \<noteq> []"
    and "py_writer p = IndexWriter_new existing kIndexWriterCacheSize True" "writer_clean wb" "iw_file wb = []" "length lsa < 2 ^ 32"
  shows "\<exists>(r :: 'c KkrtParty) s r' s' rep h body.
     Rr22_PreProcess c Sorted_ReadNextBatchWithDupCnt pa (length Ka) [length Ka, length Kb] bucket_size (fresh_party (py_writer p)) = Some (Inr r) \<and>
     Rr22_PreProcess c Sorted_ReadNextBatchWithDupCnt pb (length Kb) [length Ka, length Kb] bucket_size (fresh_party wb) = Some (Inr s) \<and>
     Rr22_Online c env procs low rnd broadcast (r, s) = Some (Inr (r', s')) \<and>
     AbstractPsiParty_Finalize batches Sorted_ReadBatchWithInfo jp columns (header # lsa) pa ROLE_RECEIVER peer_lines (p \<lparr> py_writer := kp_writer r' \<rparr>) =
       Some (Inr (rep, Some (h # body))) \<and>
     set body \<subseteq> set lsa \<and>
     map keya body = concat (map (\<lambda>(k, _, d). replicate ((d + 1) * length (filter (\<lambda>k'. k' = k) (expand_keys Kb))) k) Ka) \<and>
     rp_intersection_key_count rep = int (length (filter (\<lambda>(k, _). k \<in> fst ` set Kb) Ka))"
proof -
  note tk = table_keys [OF assms(5-8,11,12)] and w = new_writer [OF assms(22)]
  obtain r :: "'c KkrtParty" and s r' s' where run:
    "Rr22_PreProcess c Sorted_ReadNextBatchWithDupCnt pa (length Ka) [length Ka, length Kb] bucket_size (fresh_party (py_writer p)) = Some (Inr r)"
    "Rr22_PreProcess c Sorted_ReadNextBatchWithDupCnt pb (length Kb) [length Ka, length Kb] bucket_size (fresh_party wb) = Some (Inr s)"
    "Rr22_Online c env procs low rnd broadcast (r, s) = Some (Inr (r', s'))"
    "sort_key fst (iw_file (kp_writer r')) = store_matches (keys_dup Ka) (keys_dup Kb)" "writer_clean (kp_writer r')"
    using Rr22_tables_rows [OF assms(1-4) tk assms(13-16) w assms(23,24), of broadcast, where 'c = 'c] unfolding length_map by blast
  from inner_join_of_rows [OF run(4,5) assms(3,5,8-10,17-21,25,6)] show ?thesis using run(1-3) by blast
qed

theorem rr22_inner_join_result_witness:
  "\<exists>jp (r :: unit KkrtParty) s r' s' rep h body.
     JoinProcessor_new ''x'' ''d'' ((PsiConfig.truncate (digest_cfg ROLE_RECEIVER)) \<lparr> pc_keys_unique := False \<rparr>) = Inr jp \<and>
     Rr22_PreProcess unary_codec Sorted_ReadNextBatchWithDupCnt example_a 3 [3, 2] 8 (fresh_party (py_writer example_party)) = Some (Inr r) \<and>
     Rr22_PreProcess unary_codec Sorted_ReadNextBatchWithDupCnt example_b 2 [3, 2] 8 (fresh_party (IndexWriter_new None 9 True)) = Some (Inr s) \<and>
     Rr22_Online unary_codec example_rr22 2 False (\<lambda>_. example_rand) True (r, s) = Some (Inr (r', s')) \<and>
     AbstractPsiParty_Finalize (\<lambda>rows. if rows = [] then [] else [Inr rows]) Sorted_ReadBatchWithInfo jp [''id'', ''v'']
       [''id,v'', ''a,1'', ''bb,2'', ''ccc,3'', ''ccc,4''] example_a ROLE_RECEIVER 3 (example_party \<lparr> py_writer := kp_writer r' \<rparr>) =
       Some (Inr (rep, Some (h # body))) \<and>
     map (takeWhile (\<lambda>ch. ch \<noteq> CHR '','')) body = [''a'', ''a'', ''ccc'', ''ccc''] \<and> rp_intersection_key_count rep = 2"
proof -
  obtain jp where jp: "JoinProcessor_new ''x'' ''d'' ((PsiConfig.truncate (digest_cfg ROLE_RECEIVER)) \<lparr> pc_keys_unique := False \<rparr>) = Inr jp" "\<not> jp_is_input_key_unique jp"
    using example_join(1) by blast
  have inj: "inj_on (re_blake3 example_rr22) (b64 unary_codec ` fst ` set example_Ka \<union> b64 unary_codec ` fst ` set example_Kb)"
    by (auto simp: unary_codec_def next_length_def example_rr22_def)
  have par: "dense_ok (re_dense example_rr22)" "split_ok (re_split example_rr22)" using map_of_dense_ok halves_ok by (simp_all add: example_rr22_def)
  obtain options where opt: "GenerateRr22PsiOptions 2 False = Inr options" by (simp add: GenerateRr22PsiOptions_def Rr22PsiOptions_new_def kDefaultSSP_def)
  have good: "rr22_buckets_good unary_codec example_rr22 options (\<lambda>_. example_rand) 1 (keys_dup example_Ka) (keys_dup example_Kb)"
    using example_rr22_good [OF opt] by simp
  from rr22_inner_join_result [OF unary_codec_ok example_join(7) example_tables(1-8) inj example_tables(9) par opt good example_join(8) jp(1) example_join(2) jp(2) example_join(3-6,9),
      of True "''id,v''" 3, where 'c = unit]
  show ?thesis unfolding example_joined using jp(1) by (elim exE conjE) (intro exI conjI)
qed

end
